(* ===== verification/Prelude.thy ===== *)
theory Prelude
  imports Main "HOL-Library.Word"
begin

text \<open>
  Shared vocabulary of the development: the C integer types of the platform the
  library is compiled for (x86-64, LP64, glibc), the conversions the C code performs
  implicitly, and the lemmas that carry machine words to natural numbers.
  \<^item> \<open>uint_fast8_t\<close> is 8 bits wide; \<open>uint_fast16_t\<close>, \<open>uint_fast32_t\<close> and
    \<open>uint_fast64_t\<close> are all 64 bits wide on this platform.
  \<^item> Signed variables (exponents, distances) are values of type \<open>int\<close>; a store into an
    \<open>int_fast8_t\<close> goes through \<open>int8\<close>, the two's complement wrap to 8 bits.
  \<^item> Fixed-width unsigned values are words, so every wrap-around is the word's own.
\<close>

unbundle bit_operations_syntax

type_synonym u8 = "8 word"
type_synonym u16 = "16 word"
type_synonym u32 = "32 word"
type_synonym u64 = "64 word"

named_theorems wsimps "unsigned readings of word operations"
named_theorems wdefs "definitions unfolded to evaluate the model on a concrete input"

definition int8 :: "int \<Rightarrow> int" where
  "int8 i = signed_take_bit 7 i"

lemma int8_id [simp]: "- 128 \<le> i \<Longrightarrow> i < 128 \<Longrightarrow> int8 i = i"
  by (simp add: int8_def signed_take_bit_int_eq_self)

lemma int8_bounds: "- 128 \<le> int8 i" "int8 i < 128"
  using signed_take_bit_int_greater_eq_minus_exp [of 7 i] signed_take_bit_int_less_exp [of 7 i]
  by (simp_all add: int8_def)

lemma int8_less: "157 \<le> e \<Longrightarrow> int8 i < e"
  using int8_bounds(2) [of i] by simp

lemma two_power_64: "(2::nat) ^ 64 = 18446744073709551616"
  by simp

section \<open>Unsigned readings\<close>

lemma unat_lt_64: "unat (w :: u64) < 18446744073709551616"
  using unsigned_less [of w, where 'a = nat] by simp

lemma unat_lt_32: "unat (w :: u32) < 4294967296"
  using unsigned_less [of w, where 'a = nat] by simp

lemma unat_lt_16: "unat (w :: u16) < 65536"
  using unsigned_less [of w, where 'a = nat] by simp

lemma unat_lt_8: "unat (w :: u8) < 256"
  using unsigned_less [of w, where 'a = nat] by simp

lemmas unat_lts = unat_lt_64 unat_lt_32 unat_lt_16 unat_lt_8

lemma unat_add_no_wrap:
  fixes a b :: "'a::len word"
  assumes "unat a + unat b < 2 ^ LENGTH('a)"
  shows "unat (a + b) = unat a + unat b"
  using assms by (simp add: unat_word_ariths)

lemma unat_sub_no_wrap:
  fixes a b :: "'a::len word"
  assumes "unat b \<le> unat a"
  shows "unat (a - b) = unat a - unat b"
  using assms by (simp add: unat_sub word_le_nat_alt)

lemma unat_mult_no_wrap:
  fixes a b :: "'a::len word"
  assumes "unat a * unat b < 2 ^ LENGTH('a)"
  shows "unat (a * b) = unat a * unat b"
  using assms by (simp add: unat_word_ariths)

lemma unat_push_no_wrap:
  fixes a :: "'a::len word"
  assumes "unat a * 2 ^ n < 2 ^ LENGTH('a)"
  shows "unat (push_bit n a) = unat a * 2 ^ n"
  using assms by (simp only: unsigned_push_bit_eq) (simp add: push_bit_eq_mult take_bit_eq_mod)

lemma unat_push: "unat (push_bit n (a :: 'a::len word)) = (unat a * 2 ^ n) mod 2 ^ LENGTH('a)"
  by (simp only: unsigned_push_bit_eq) (simp add: push_bit_eq_mult take_bit_eq_mod)

lemma unat_drop [wsimps]: "unat (drop_bit n (a :: 'a::len word)) = unat a div 2 ^ n"
  by (simp only: unsigned_drop_bit_eq)
    (simp add: drop_bit_eq_div take_bit_nat_eq_self)

lemma unat_and [wsimps]: "unat (a AND b) = unat (a :: 'a::len word) AND unat b"
  by (rule unsigned_and_eq)

lemma unat_or [wsimps]: "unat (a OR b) = unat (a :: 'a::len word) OR unat b"
  by (rule unsigned_or_eq)

lemma unat_ucast_mod: "unat (ucast (a :: 'a::len word) :: 'b::len word) = unat a mod 2 ^ LENGTH('b)"
  by (simp add: unsigned_ucast_eq take_bit_eq_mod)

lemma unat_of_bool [wsimps]: "unat (of_bool b :: 'a::len word) = of_bool b"
  by (cases b) simp_all

lemma and_mask_mod: "(n::nat) AND (2 ^ k - 1) = n mod 2 ^ k"
  by (metis take_bit_eq_mask take_bit_eq_mod mask_eq_exp_minus_1)

lemma sint_and_mask:
  fixes w :: "'a::len word"
  assumes "k \<le> LENGTH('a)"
  shows "sint w AND (2 ^ k - 1) = int (unat w mod 2 ^ k)"
proof -
  have "sint w AND (2 ^ k - 1) = take_bit k (sint w)"
    by (simp add: take_bit_eq_mask mask_eq_exp_minus_1)
  also have "\<dots> = take_bit k (uint w)"
    using assms by (simp add: sint_uint take_bit_signed_take_bit)
  also have "\<dots> = int (unat w mod 2 ^ k)"
    by (simp add: take_bit_eq_mod zmod_int)
  finally show ?thesis .
qed

lemma unat_and_mask: "unat (a AND mask k) = unat (a :: 'a::len word) mod 2 ^ k"
  by (simp only: take_bit_eq_mask [symmetric] unsigned_take_bit_eq) (simp add: take_bit_eq_mod)

text \<open>Clearing or setting the bits above a power of two.\<close>

lemma word_neq_0_iff: "(w :: 'a::len word) \<noteq> 0 \<longleftrightarrow> 0 < unat w"
  by (simp add: unat_gt_0)

lemma word_eq_0_iff: "(w :: 'a::len word) = 0 \<longleftrightarrow> unat w = 0"
  by (simp add: unat_eq_zero)

lemma word_eq_iff_unat: "(v :: 'a::len word) = w \<longleftrightarrow> unat v = unat w"
  by (rule word_eq_iff_unsigned)

lemma unat_word_of_nat_lt: "n < 2 ^ LENGTH('a) \<Longrightarrow> unat (word_of_nat n :: 'a::len word) = n"
  by (simp add: unat_of_nat)

lemma unat_word_of_int_nat:
  assumes "0 \<le> i" "nat i < 2 ^ LENGTH('a)"
  shows "unat (word_of_int i :: 'a::len word) = nat i"
proof -
  have "(word_of_int i :: 'a word) = word_of_nat (nat i)"
    using assms by simp
  with assms show ?thesis by (simp add: unat_of_nat del: of_nat_nat)
qed

lemma nat_word_of_int_id:
  "0 \<le> e \<Longrightarrow> nat e < 2 ^ w \<Longrightarrow> w \<le> LENGTH('a) \<Longrightarrow> unat (word_of_int e :: 'a::len word) = nat e"
  by (intro unat_word_of_int_nat) (auto intro: less_le_trans)

lemma unat_sign_bit:
  "k < LENGTH('a) \<Longrightarrow> unat (push_bit k (of_bool s) :: 'a::len word) = of_bool s * 2 ^ k"
  by (subst unat_push_no_wrap) (simp_all add: unat_of_bool)

lemma unat_add3:
  fixes a b c :: "'a::len word"
  assumes "unat a + unat b + unat c < 2 ^ LENGTH('a)"
  shows "unat (a + b + c) = unat a + unat b + unat c"
  using assms by (simp add: unat_add_no_wrap)

lemma unat_ucast_up:
  "LENGTH('a) \<le> LENGTH('b) \<Longrightarrow> unat (ucast (a :: 'a::len word) :: 'b::len word) = unat a"
  by (simp add: unat_ucast_mod) (metis mod_less order_less_le_trans power_increasing_iff unsigned_less
      one_less_numeral_iff semiring_norm(76))

lemma unat_ucast_64 [wsimps]:
  "unat (ucast (a :: u32) :: u64) = unat a" "unat (ucast (b :: u16) :: u64) = unat b"
  "unat (ucast (c :: u8) :: u64) = unat c" "unat (ucast (b :: u16) :: u32) = unat b"
  by (simp_all add: unat_ucast_up)

lemma or_eq_add_nat:
  fixes a x :: nat
  assumes "x < 2 ^ k"
  shows "a * 2 ^ k OR x = a * 2 ^ k + x"
proof -
  have "a * 2 ^ k AND x = 0"
  proof (rule bit_eqI)
    fix i
    show "bit (a * 2 ^ k AND x) i \<longleftrightarrow> bit (0::nat) i"
    proof (cases "i < k")
      case True
      then show ?thesis by (simp add: bit_and_iff bit_push_bit_iff flip: push_bit_eq_mult)
    next
      case False
      then have "x div 2 ^ i = 0"
        using assms by (meson div_less less_le_trans not_less one_le_numeral power_increasing)
      then have "\<not> bit x i" by (simp add: bit_iff_odd)
      then show ?thesis by (simp add: bit_and_iff)
    qed
  qed
  then show ?thesis by (simp add: disjunctive_add_eq_or)
qed

section \<open>Bit fields of a word\<close>

lemma unat_and_field:
  fixes a :: "'a::len word"
  assumes "i + k \<le> LENGTH('a)"
  shows "unat (a AND push_bit i (mask k)) = unat a div 2 ^ i mod 2 ^ k * 2 ^ i"
proof -
  have "a AND push_bit i (mask k) = push_bit i (drop_bit i a AND mask k)"
    by (auto simp: bit_eq_iff bit_simps)
  moreover have "unat (drop_bit i a AND mask k) = unat a div 2 ^ i mod 2 ^ k"
    by (simp only: unat_and_mask unat_drop)
  moreover have "unat a div 2 ^ i mod 2 ^ k * 2 ^ i < 2 ^ LENGTH('a)"
  proof -
    have "unat a div 2 ^ i mod 2 ^ k * 2 ^ i \<le> unat a div 2 ^ i * 2 ^ i" by (intro mult_le_mono1) simp
    also have "\<dots> \<le> unat a" by simp
    also have "\<dots> < 2 ^ LENGTH('a)" by simp
    finally show ?thesis .
  qed
  ultimately show ?thesis by (simp only: unat_push_no_wrap)
qed

lemma not_and_eq_0: "(NOT a) AND m = 0 \<longleftrightarrow> a AND m = (m :: 'a::len word)"
  by (auto simp: bit_eq_iff bit_simps)

end
