(* ===== verification/Rounding.thy ===== *)
theory Rounding
  imports Prelude
begin

text \<open>
  The abstract specification of IEEE 754 rounding, on natural numbers only, so that it is
  executable.  A finite datum of a format with \<open>p\<close> fraction bits and exponent width \<open>w\<close> is an
  integer multiple of the format's least subnormal; \<open>mag\<close> gives that multiple from the
  magnitude bits (the ``ordinal'').  The exact result of an operation is \<open>n / 2 ^ j\<close> in the
  same unit, and \<open>round_ordinal\<close> gives the magnitude bits of its rounding, in closed form:
  with \<open>k\<close> low bits dropped the ordinal is \<open>(k - j) * 2 ^ p\<close> plus the rounded
  quotient, which also covers subnormal results and the carry into the next binade.
  \<open>jam\<close> is the shift that keeps a sticky bit; \<open>round_ordinal_jam\<close> is the reason the code
  may use it.
\<close>

datatype rmode = RNE | RTZ | RDN | RUP | RMM | ROD

section \<open>Number of bits\<close>

fun nbits :: "nat \<Rightarrow> nat" where
  "nbits n = (if n = 0 then 0 else Suc (nbits (n div 2)))"

declare nbits.simps [simp del]

lemma nbits_0 [simp]: "nbits 0 = 0"
  by (simp add: nbits.simps)

lemma nbits_pos: "0 < n \<Longrightarrow> nbits n = Suc (nbits (n div 2))"
  by (simp add: nbits.simps)

lemma nbits_le_iff: "nbits n \<le> k \<longleftrightarrow> n < 2 ^ k"
proof (induction n arbitrary: k rule: nbits.induct)
  case (1 n)
  show ?case
  proof (cases "n = 0")
    case False
    show ?thesis
    proof (cases k)
      case 0
      with False show ?thesis by (simp add: nbits_pos)
    next
      case (Suc k')
      with False 1 [of k'] show ?thesis
        by (simp add: nbits_pos) (auto simp: less_mult_imp_div_less mult.commute)
    qed
  qed simp
qed

lemma less_nbits_iff: "k < nbits n \<longleftrightarrow> 2 ^ k \<le> n"
  using nbits_le_iff [of n k] by linarith

lemma nbits_eqI: "2 ^ k \<le> n \<Longrightarrow> n < 2 ^ Suc k \<Longrightarrow> nbits n = Suc k"
  by (intro antisym) (simp_all add: nbits_le_iff Suc_le_eq less_nbits_iff)

lemma nbits_mult_pow: "0 < n \<Longrightarrow> nbits (n * 2 ^ i) = nbits n + i"
  by (induction i) (simp_all add: nbits_pos mult.left_commute [of n 2] mult.assoc [symmetric])

lemma nbits_div_pow: "nbits (n div 2 ^ i) = nbits n - i"
proof (induction i arbitrary: n)
  case (Suc i)
  have "nbits (n div 2 ^ Suc i) = nbits (n div 2 div 2 ^ i)"
    by (simp add: div_mult2_eq)
  also have "\<dots> = nbits (n div 2) - i" by (rule Suc)
  also have "\<dots> = nbits n - Suc i" by (cases "n = 0") (simp_all add: nbits_pos)
  finally show ?case .
qed simp

section \<open>Rounding a shifted integer\<close>

fun round_up :: "rmode \<Rightarrow> bool \<Rightarrow> nat \<Rightarrow> nat \<Rightarrow> nat \<Rightarrow> bool" where
  "round_up RNE s q r u = (u < 2 * r \<or> (2 * r = u \<and> odd q))"
| "round_up RTZ s q r u = False"
| "round_up RDN s q r u = (s \<and> r \<noteq> 0)"
| "round_up RUP s q r u = (\<not> s \<and> r \<noteq> 0)"
| "round_up RMM s q r u = (u \<le> 2 * r)"
| "round_up ROD s q r u = (r \<noteq> 0 \<and> even q)"

definition round_shift :: "rmode \<Rightarrow> bool \<Rightarrow> nat \<Rightarrow> nat \<Rightarrow> nat" where
  "round_shift m s n k =
     n div 2 ^ k + of_bool (round_up m s (n div 2 ^ k) (n mod 2 ^ k) (2 ^ k))"

lemma round_up_0: "0 < u \<Longrightarrow> \<not> round_up m s q 0 u"
  by (cases m) auto

lemma round_shift_0 [simp]: "round_shift m s n 0 = n"
  by (simp add: round_shift_def round_up_0)

lemma round_shift_exact: "n mod 2 ^ k = 0 \<Longrightarrow> round_shift m s n k = n div 2 ^ k"
  by (simp add: round_shift_def round_up_0)

lemma round_up_mult: "0 < c \<Longrightarrow> round_up m s q (r * c) (u * c) = round_up m s q r u"
  by (cases m) (auto simp: mult.assoc [symmetric])

lemma round_shift_mult: "round_shift m s (n * 2 ^ i) (k + i) = round_shift m s n k"
proof -
  have "n * 2 ^ i mod 2 ^ (k + i) = n mod 2 ^ k * 2 ^ i"
    by (simp add: power_add mult_mod_left)
  moreover have "n * 2 ^ i div 2 ^ (k + i) = n div 2 ^ k"
    by (simp add: power_add)
  ultimately show ?thesis
    by (simp only: round_shift_def power_add round_up_mult [of "2 ^ i"] zero_less_power zero_less_numeral)
qed

lemma round_shift_ge: "n div 2 ^ k \<le> round_shift m s n k"
  by (simp add: round_shift_def)

lemma round_shift_le: "round_shift m s n k \<le> Suc (n div 2 ^ k)"
  by (simp add: round_shift_def)

section \<open>The jamming shift\<close>

definition jam :: "nat \<Rightarrow> nat \<Rightarrow> nat" where
  "jam n d = n div 2 ^ d OR of_bool (n mod 2 ^ d \<noteq> 0)"

lemma or_1_nat: "(n::nat) OR 1 = 2 * (n div 2) + 1"
proof -
  have "n OR 1 = n + of_bool (even n)" by (rule or_one_eq)
  then show ?thesis by (cases "even n") auto
qed

lemma double_plus_bit_eq:
  assumes "2 * a + of_bool (r \<noteq> 0) = 2 * (h :: nat)"
  shows "r = (0::nat) \<and> a = h"
proof -
  from assms have "even (2 * a + of_bool (r \<noteq> 0))" by (metis even_mult_iff even_numeral)
  then have "r = 0" by (cases "r = 0") simp_all
  with assms show ?thesis by simp
qed

lemma jam_alt: "jam n d = 2 * (n div 2 ^ Suc d) + of_bool (n mod 2 ^ Suc d \<noteq> 0)"
proof -
  have q: "n div 2 ^ Suc d = n div 2 ^ d div 2"
    by (simp only: power_Suc2 div_mult2_eq)
  have r: "n mod 2 ^ Suc d = 2 ^ d * (n div 2 ^ d mod 2) + n mod 2 ^ d"
    by (simp only: power_Suc2 mod_mult2_eq)
  show ?thesis
  proof (cases "n mod 2 ^ d = 0")
    case True
    have "n div 2 ^ d = 2 * (n div 2 ^ d div 2) + of_bool (n div 2 ^ d mod 2 \<noteq> 0)"
      by (cases "n div 2 ^ d mod 2 = 0") (use div_mult_mod_eq [of "n div 2 ^ d" 2] in simp_all)
    with True show ?thesis
      by (simp add: jam_def q r del: power_Suc)
  next
    case False
    then show ?thesis
      by (simp add: jam_def q r or_1_nat [simplified] del: power_Suc)
  qed
qed

lemma jam_div: "0 < k \<Longrightarrow> jam n d div 2 ^ k = n div 2 ^ (d + k)"
proof (cases k)
  case (Suc k')
  have "jam n d div 2 ^ k = jam n d div 2 div 2 ^ k'"
    by (simp add: Suc div_mult2_eq)
  also have "\<dots> = n div 2 ^ Suc d div 2 ^ k'"
    by (simp add: jam_alt del: power_Suc)
  also have "\<dots> = n div 2 ^ (d + k)"
    by (simp add: Suc div_mult2_eq [symmetric] power_add mult_ac)
  finally show ?thesis .
qed simp

lemma jam_eq_0_iff [simp]: "jam n d = 0 \<longleftrightarrow> n = 0"
  using div_mult_mod_eq [of n "2 ^ Suc d"] by (auto simp: jam_alt simp del: power_Suc)

lemma jam_pos_iff [simp]: "0 < jam n d \<longleftrightarrow> 0 < n"
  by (simp only: neq0_conv [symmetric] jam_eq_0_iff not_not)

lemma jam_0 [simp]: "jam n 0 = n"
  by (simp add: jam_def)

lemma jam_less_iff: "jam n d < 2 * h \<longleftrightarrow> n < h * 2 ^ Suc d"
proof -
  have "jam n d < 2 * h \<longleftrightarrow> n div 2 ^ Suc d < h"
    by (auto simp: jam_alt simp del: power_Suc)
  then show ?thesis
    by (simp add: div_less_iff_less_mult del: power_Suc)
qed

lemma jam_eq_iff: "jam n d = 2 * h \<longleftrightarrow> n = h * 2 ^ Suc d"
proof
  assume "jam n d = 2 * h"
  then have "2 * (n div 2 ^ Suc d) + of_bool (n mod 2 ^ Suc d \<noteq> 0) = 2 * h"
    by (simp only: jam_alt)
  then have "n mod 2 ^ Suc d = 0 \<and> n div 2 ^ Suc d = h"
    by (rule double_plus_bit_eq)
  then show "n = h * 2 ^ Suc d"
    using div_mult_mod_eq [of n "2 ^ Suc d"] by simp
next
  assume "n = h * 2 ^ Suc d"
  then show "jam n d = 2 * h" by (simp add: jam_alt)
qed

lemma jam_gt_iff: "2 * h < jam n d \<longleftrightarrow> h * 2 ^ Suc d < n"
  using jam_less_iff [of n d h] jam_eq_iff [of n d h] by linarith

lemma jam_mod:
  assumes "0 < k"
  shows "jam n d mod 2 ^ k = jam (n mod 2 ^ (d + k)) d"
proof -
  obtain k' where k: "k = Suc k'" using assms by (cases k) auto
  define a where "a = n div 2 ^ (d + k)"
  define b where "b = n mod 2 ^ (d + k)"
  have b: "b < 2 ^ (d + k)" by (simp add: b_def)
  have n: "n = a * 2 ^ k' * 2 ^ Suc d + b"
    unfolding a_def b_def k
    by (metis add_Suc_right add_Suc add.commute div_mult_mod_eq mult.assoc power_add)
  have "n div 2 ^ Suc d = a * 2 ^ k' + b div 2 ^ Suc d"
    unfolding n by (simp del: power_Suc)
  moreover have "n mod 2 ^ Suc d = b mod 2 ^ Suc d"
    unfolding n by (simp del: power_Suc)
  ultimately have "jam n d = a * 2 ^ k + jam b d"
    by (simp add: jam_alt k algebra_simps)
  moreover have "jam b d < 2 ^ k"
    using jam_less_iff [of b d "2 ^ k'"] b by (simp add: k power_add mult_ac)
  ultimately show ?thesis by (simp add: b_def)
qed

lemma round_up_jam:
  assumes "0 < h"
  shows "round_up m s q (jam r d) (2 * (2 * h)) = round_up m s q r (2 * (2 * h) * 2 ^ d)"
proof -
  have "2 * (2 * h) < 2 * jam r d \<longleftrightarrow> 2 * (2 * h) * 2 ^ d < 2 * r"
    using jam_gt_iff [of h r d] by (simp add: mult_ac)
  moreover have "2 * jam r d = 2 * (2 * h) \<longleftrightarrow> 2 * r = 2 * (2 * h) * 2 ^ d"
    using jam_eq_iff [of r d h] by (auto simp: mult_ac)
  moreover have "2 * (2 * h) \<le> 2 * jam r d \<longleftrightarrow> 2 * (2 * h) * 2 ^ d \<le> 2 * r"
    using jam_less_iff [of r d h] by (simp add: mult_ac not_less [symmetric])
  ultimately show ?thesis by (cases m) auto
qed

lemma round_shift_jam:
  assumes "2 \<le> k"
  shows "round_shift m s (jam n d) k = round_shift m s n (d + k)"
proof -
  obtain k' where k: "k = Suc (Suc k')"
    using assms by (metis add_2_eq_Suc le_Suc_ex)
  have p: "(2::nat) ^ k = 2 * (2 * 2 ^ k')" and p': "(2::nat) ^ (d + k) = 2 * (2 * 2 ^ k') * 2 ^ d"
    by (simp_all add: k power_add)
  have "jam n d div 2 ^ k = n div 2 ^ (d + k)"
    using assms by (simp add: jam_div)
  moreover have "jam n d mod 2 ^ k = jam (n mod 2 ^ (d + k)) d"
    using assms by (simp add: jam_mod)
  ultimately show ?thesis
    unfolding round_shift_def by (simp only: p p' round_up_jam zero_less_power zero_less_numeral)
qed

section \<open>Rounding to a format\<close>

record fmt =
  fracw :: nat
  expw :: nat

definition dropped :: "nat \<Rightarrow> nat \<Rightarrow> nat \<Rightarrow> nat" where
  "dropped p n j = max (nbits n - Suc p) j"

definition round_ordinal :: "nat \<Rightarrow> rmode \<Rightarrow> bool \<Rightarrow> nat \<Rightarrow> nat \<Rightarrow> nat" where
  "round_ordinal p m s n j =
     (dropped p n j - j) * 2 ^ p + round_shift m s n (dropped p n j)"

definition inf_ord :: "fmt \<Rightarrow> nat" where
  "inf_ord f = (2 ^ expw f - 1) * 2 ^ fracw f"

definition sign_ord :: "fmt \<Rightarrow> bool \<Rightarrow> nat" where
  "sign_ord f s = of_bool s * 2 ^ (fracw f + expw f)"

fun to_inf :: "rmode \<Rightarrow> bool \<Rightarrow> bool" where
  "to_inf RNE s = True"
| "to_inf RTZ s = False"
| "to_inf RDN s = s"
| "to_inf RUP s = (\<not> s)"
| "to_inf RMM s = True"
| "to_inf ROD s = False"

definition ieee_bits :: "fmt \<Rightarrow> rmode \<Rightarrow> bool \<Rightarrow> nat \<Rightarrow> nat \<Rightarrow> nat" where
  "ieee_bits f m s n j =
     sign_ord f s +
     (let r = round_ordinal (fracw f) m s n j
      in if inf_ord f \<le> r then (if to_inf m s then inf_ord f else inf_ord f - 1) else r)"

text \<open>
  Tininess.  Before rounding: the exact value is below the least normal number.  After
  rounding: the value rounded to \<open>p + 1\<close> bits with an unbounded exponent is below it.
\<close>

definition tiny :: "fmt \<Rightarrow> bool \<Rightarrow> rmode \<Rightarrow> bool \<Rightarrow> nat \<Rightarrow> nat \<Rightarrow> bool" where
  "tiny f before m s n j =
     (if before then n < 2 ^ (fracw f + j)
      else round_shift m s n (nbits n - Suc (fracw f)) * 2 ^ (nbits n - Suc (fracw f)) < 2 ^ (fracw f + j))"

definition ieee_overflow :: "fmt \<Rightarrow> rmode \<Rightarrow> bool \<Rightarrow> nat \<Rightarrow> nat \<Rightarrow> bool" where
  "ieee_overflow f m s n j = (inf_ord f \<le> round_ordinal (fracw f) m s n j)"

definition ieee_inexact :: "fmt \<Rightarrow> nat \<Rightarrow> nat \<Rightarrow> bool" where
  "ieee_inexact f n j = (n mod 2 ^ dropped (fracw f) n j \<noteq> 0)"

text \<open>The exception flags of IEEE 754, in the code's bit positions.\<close>

definition ieee_flags :: "fmt \<Rightarrow> bool \<Rightarrow> rmode \<Rightarrow> bool \<Rightarrow> nat \<Rightarrow> nat \<Rightarrow> u8" where
  "ieee_flags f before m s n j =
     (if ieee_overflow f m s n j then 4 OR 1
      else (if tiny f before m s n j \<and> ieee_inexact f n j then 2 else 0)
           OR (if ieee_inexact f n j then 1 else 0))"

subsection \<open>Invariance under scaling and jamming\<close>

lemma dropped_mult: "0 < n \<Longrightarrow> dropped p (n * 2 ^ i) (j + i) = max (nbits n + i - Suc p) (j + i)"
  by (simp add: dropped_def nbits_mult_pow)

lemma round_ordinal_mult:
  "round_ordinal p m s (n * 2 ^ i) (j + i) = round_ordinal p m s n j"
proof (cases "n = 0")
  case True
  then show ?thesis
    by (simp add: round_ordinal_def dropped_def round_shift_def round_up_0)
next
  case False
  show ?thesis
  proof (cases "Suc p + j \<le> nbits n")
    case True
    then have "dropped p (n * 2 ^ i) (j + i) = dropped p n j + i"
      using False by (simp add: dropped_mult) (simp add: dropped_def)
    moreover have "dropped p n j + i - (j + i) = dropped p n j - j" by simp
    ultimately show ?thesis
      by (simp only: round_ordinal_def round_shift_mult)
  next
    case small: False
    then have "dropped p (n * 2 ^ i) (j + i) = j + i" and "dropped p n j = j"
      using False by (simp_all add: dropped_mult) (simp_all add: dropped_def)
    then show ?thesis
      by (simp add: round_ordinal_def round_shift_mult)
  qed
qed

lemma inexact_mult: "ieee_inexact f (n * 2 ^ i) (j + i) = ieee_inexact f n j"
proof (cases "n = 0")
  case False
  have "dropped (fracw f) (n * 2 ^ i) (j + i) = dropped (fracw f) n j + i
      \<or> dropped (fracw f) n j = j \<and> dropped (fracw f) (n * 2 ^ i) (j + i) = j + i"
    using False by (auto simp: dropped_mult) (auto simp: dropped_def)
  moreover have "n * 2 ^ i mod 2 ^ (k + i) = n mod 2 ^ k * 2 ^ i" for k
    by (simp add: power_add mult_mod_left)
  ultimately show ?thesis
    by (auto simp: ieee_inexact_def)
qed (simp add: ieee_inexact_def)

lemma tiny_mult: "tiny f b m s (n * 2 ^ i) (j + i) = tiny f b m s n j"
proof -
  have scale: "a * 2 ^ i < 2 ^ (k + i) \<longleftrightarrow> a < 2 ^ k" for a k :: nat
    by (simp add: power_add)
  have after: "round_shift m s (n * 2 ^ i) (nbits (n * 2 ^ i) - Suc (fracw f)) * 2 ^ (nbits (n * 2 ^ i) - Suc (fracw f))
      = round_shift m s n (nbits n - Suc (fracw f)) * 2 ^ (nbits n - Suc (fracw f)) * 2 ^ i"
  proof (cases "n = 0")
    case False
    note nz = this
    show ?thesis
    proof (cases "Suc (fracw f) \<le> nbits n")
      case True
      then have "nbits (n * 2 ^ i) - Suc (fracw f) = (nbits n - Suc (fracw f)) + i"
        using nz by (simp add: nbits_mult_pow)
      then show ?thesis by (simp only: round_shift_mult power_add mult_ac)
    next
      case False
      define t where "t = nbits n + i - Suc (fracw f)"
      have t: "t \<le> i" using False by (simp add: t_def)
      then have m: "n * 2 ^ i mod 2 ^ t = 0"
        by (simp add: le_imp_power_dvd)
      then have "round_shift m s (n * 2 ^ i) t * 2 ^ t = n * 2 ^ i"
        by (simp add: round_shift_exact mod_eq_0_iff_dvd)
      then show ?thesis
        using False nz by (simp add: nbits_mult_pow t_def)
    qed
  qed simp
  have e: "fracw f + (j + i) = (fracw f + j) + i" by simp
  show ?thesis
    unfolding tiny_def by (simp only: after e scale)
qed

lemma ieee_bits_mult: "ieee_bits f m s (n * 2 ^ i) (j + i) = ieee_bits f m s n j"
  by (simp add: ieee_bits_def round_ordinal_mult)

lemma ieee_flags_mult: "ieee_flags f b m s (n * 2 ^ i) (j + i) = ieee_flags f b m s n j"
  by (simp add: ieee_flags_def ieee_overflow_def round_ordinal_mult inexact_mult tiny_mult)

lemma nbits_jam: "d < nbits n \<Longrightarrow> nbits (jam n d) = nbits n - d"
proof -
  assume "d < nbits n"
  then have "0 < n div 2 ^ d"
    by (simp add: less_nbits_iff div_greater_zero_iff)
  then have "0 < jam n d" by (cases "n = 0") simp_all
  have "nbits (jam n d) = Suc (nbits (jam n d div 2 ^ 1))"
    using \<open>0 < jam n d\<close> by (simp add: nbits_pos)
  also have "\<dots> = Suc (nbits (n div 2 ^ (d + 1)))"
    by (simp only: jam_div zero_less_one)
  also have "\<dots> = nbits n - d"
    using \<open>d < nbits n\<close> by (simp only: nbits_div_pow)
  finally show ?thesis .
qed

lemma nbits_jam_mult: "d < nbits n \<Longrightarrow> nbits (jam n d * 2 ^ d) = nbits n"
  by (cases "n = 0") (simp_all add: nbits_mult_pow nbits_jam)

lemma round_shift_jam_mult: "d + 2 \<le> k \<Longrightarrow> round_shift m s (jam n d * 2 ^ d) k = round_shift m s n k"
proof -
  assume "d + 2 \<le> k"
  then obtain k' where k: "k = k' + d" "2 \<le> k'"
    by (metis add.commute add_le_cancel_left nat_le_iff_add trans_le_add1)
  have "round_shift m s (jam n d * 2 ^ d) k = round_shift m s (jam n d) k'"
    by (simp only: k round_shift_mult)
  with k show ?thesis
    by (simp add: round_shift_jam add.commute)
qed

lemma jam_mult_mod: "d + 1 \<le> k \<Longrightarrow> jam n d * 2 ^ d mod 2 ^ k = 0 \<longleftrightarrow> n mod 2 ^ k = 0"
proof -
  assume "d + 1 \<le> k"
  then have k: "k = (k - d) + d" and k': "0 < k - d" by auto
  have "jam n d * 2 ^ d mod 2 ^ k = jam n d mod 2 ^ (k - d) * 2 ^ d"
    by (subst k) (simp only: power_add mult_mod_left)
  also have "\<dots> = jam (n mod 2 ^ k) d * 2 ^ d"
    using jam_mod [OF k', of n d] k by (simp add: add.commute)
  finally show ?thesis by simp
qed

text \<open>A jammed significand with two more bits than the precision rounds as the exact value does.\<close>

lemma ieee_jam:
  assumes "d = 0 \<or> fracw f + d + 3 \<le> nbits n"
  shows ieee_bits_jam: "ieee_bits f m s (jam n d * 2 ^ d) j = ieee_bits f m s n j"
    and ieee_flags_jam: "ieee_flags f b m s (jam n d * 2 ^ d) j = ieee_flags f b m s n j"
proof -
  have "ieee_bits f m s (jam n d * 2 ^ d) j = ieee_bits f m s n j
      \<and> ieee_flags f b m s (jam n d * 2 ^ d) j = ieee_flags f b m s n j"
  proof (cases "d = 0")
    case False
    with assms have a: "fracw f + d + 3 \<le> nbits n" by simp
    then have nb: "nbits (jam n d * 2 ^ d) = nbits n" by (simp add: nbits_jam_mult)
    then have dr: "dropped (fracw f) (jam n d * 2 ^ d) j = dropped (fracw f) n j"
      by (simp add: dropped_def)
    have k: "d + 2 \<le> dropped (fracw f) n j" using a by (simp add: dropped_def)
    have ord: "round_ordinal (fracw f) m s (jam n d * 2 ^ d) j = round_ordinal (fracw f) m s n j"
      unfolding round_ordinal_def dr by (simp only: round_shift_jam_mult [OF k])
    have inex: "ieee_inexact f (jam n d * 2 ^ d) j = ieee_inexact f n j"
      using k by (simp add: ieee_inexact_def dr jam_mult_mod)
    have "jam n d * 2 ^ d < 2 ^ (fracw f + j) \<longleftrightarrow> n < 2 ^ (fracw f + j)"
      using nb by (simp add: nbits_le_iff [symmetric])
    then have "tiny f b m s (jam n d * 2 ^ d) j = tiny f b m s n j"
      using a by (simp add: tiny_def nb round_shift_jam_mult)
    with ord inex show ?thesis
      by (simp add: ieee_bits_def ieee_flags_def ieee_overflow_def)
  qed simp
  then show "ieee_bits f m s (jam n d * 2 ^ d) j = ieee_bits f m s n j"
    and "ieee_flags f b m s (jam n d * 2 ^ d) j = ieee_flags f b m s n j" by blast+
qed

section \<open>The value of magnitude bits\<close>

definition mag :: "nat \<Rightarrow> nat \<Rightarrow> nat" where
  "mag p r = (if r < 2 ^ p then r
     else (2 ^ p + r mod 2 ^ p) * 2 ^ (r div 2 ^ p - 1))"

lemma mag_small: "r < 2 ^ Suc p \<Longrightarrow> mag p r = r"
proof (cases "r < 2 ^ p")
  case False
  assume "r < 2 ^ Suc p"
  with False have "r div 2 ^ p = 1" by (simp add: div_nat_eqI)
  then show ?thesis
    using div_mult_mod_eq [of r "2 ^ p"] False by (simp add: mag_def)
qed (simp add: mag_def)

lemma mag_binade:
  assumes "2 ^ p \<le> q" "q \<le> 2 ^ Suc p"
  shows "mag p (k * 2 ^ p + q) = q * 2 ^ k"
proof (cases "q = 2 ^ Suc p")
  case True
  then have "k * 2 ^ p + q = (k + 2) * 2 ^ p" by simp
  then show ?thesis using True by (simp add: mag_def)
next
  case False
  then have "q div 2 ^ p = 1"
    using assms by (simp add: div_nat_eqI)
  then have "(k * 2 ^ p + q) div 2 ^ p = k + 1" and "2 ^ p + q mod 2 ^ p = q"
    using div_mult_mod_eq [of q "2 ^ p"] by simp_all
  then show ?thesis using assms by (simp add: mag_def)
qed

lemma mag_parts: "g < 2 ^ p \<Longrightarrow> mag p (e * 2 ^ p + g) = (if e = 0 then g else (2 ^ p + g) * 2 ^ (e - 1))"
proof (cases e)
  case (Suc e')
  assume g: "g < 2 ^ p"
  then have "(e * 2 ^ p + g) div 2 ^ p = e" and "(e * 2 ^ p + g) mod 2 ^ p = g" by simp_all
  moreover have "\<not> e * 2 ^ p + g < 2 ^ p" by (simp add: Suc)
  ultimately show ?thesis by (simp add: mag_def Suc)
qed (simp add: mag_def)

lemma round_shift_bounds:
  assumes "k = dropped p n j"
  shows "round_shift m s n k \<le> 2 ^ Suc p" and "j < k \<Longrightarrow> 2 ^ p \<le> round_shift m s n k"
proof -
  have "nbits n \<le> Suc p + k" using assms by (simp add: dropped_def)
  then have "n div 2 ^ k < 2 ^ Suc p"
    by (simp add: nbits_le_iff power_add less_mult_imp_div_less)
  then show "round_shift m s n k \<le> 2 ^ Suc p"
    using round_shift_le [of m s n k] by linarith
next
  assume "j < k"
  then have "p + k < nbits n" using assms by (auto simp: dropped_def)
  then have "2 ^ p * 2 ^ k \<le> n" by (simp add: less_nbits_iff power_add)
  then have "2 ^ p \<le> n div 2 ^ k" by (simp add: less_eq_div_iff_mult_less_eq)
  then show "2 ^ p \<le> round_shift m s n k"
    using round_shift_ge le_trans by blast
qed

text \<open>The rounded ordinal stands for the rounded quotient, scaled back.\<close>

lemma mag_round_ordinal:
  "mag p (round_ordinal p m s n j) = round_shift m s n (dropped p n j) * 2 ^ (dropped p n j - j)"
proof (cases "j < dropped p n j")
  case True
  then show ?thesis
    unfolding round_ordinal_def
    by (intro mag_binade round_shift_bounds [OF refl])
next
  case False
  then have "dropped p n j = j" by (simp add: dropped_def)
  moreover have "round_shift m s n (dropped p n j) \<le> 2 ^ Suc p"
    using round_shift_bounds(1) [OF refl] .
  ultimately show ?thesis
    using mag_binade [of p "2 ^ Suc p" 0] mag_small [of "round_shift m s n j" p]
    by (cases "round_shift m s n j = 2 ^ Suc p") (simp_all add: round_ordinal_def)
qed

lemma round_ordinal_exact:
  assumes "n mod 2 ^ dropped p n j = 0"
  shows "mag p (round_ordinal p m s n j) * 2 ^ j = n"
proof -
  have k: "j \<le> dropped p n j" by (simp add: dropped_def)
  have "mag p (round_ordinal p m s n j) * 2 ^ j
      = n div 2 ^ dropped p n j * (2 ^ (dropped p n j - j) * 2 ^ j)"
    using assms by (simp add: mag_round_ordinal round_shift_exact)
  also have "2 ^ (dropped p n j - j) * 2 ^ j = (2::nat) ^ dropped p n j"
    using k by (simp add: power_add [symmetric])
  finally show ?thesis
    using assms by (simp add: mod_eq_0_iff_dvd)
qed

section \<open>Rounding by adding an increment\<close>

text \<open>
  The code rounds off \<open>g\<close> guard bits by adding an increment and shifting, then repairs the
  tie of round-to-nearest-even and sets the last bit of round-to-odd.
\<close>

fun round_inc :: "rmode \<Rightarrow> bool \<Rightarrow> nat \<Rightarrow> nat" where
  "round_inc RNE s g = 2 ^ (g - 1)"
| "round_inc RTZ s g = 0"
| "round_inc RDN s g = (if s then 2 ^ g - 1 else 0)"
| "round_inc RUP s g = (if s then 0 else 2 ^ g - 1)"
| "round_inc RMM s g = 2 ^ (g - 1)"
| "round_inc ROD s g = 0"

lemma round_inc_less: "0 < g \<Longrightarrow> round_inc m s g < 2 ^ g"
  by (cases m; cases g) auto

lemma add_div_bit:
  assumes "r < u" "i < (u::nat)"
  shows "(q * u + r + i) div u = q + of_bool (u \<le> r + i)"
proof (cases "u \<le> r + i")
  case True
  then have "q * u + r + i = (q + 1) * u + (r + i - u)" by simp
  moreover have "r + i - u < u" using assms by simp
  ultimately show ?thesis using True assms by (simp only: div_mult_self3) simp
next
  case False
  then show ?thesis using assms by (simp add: add.assoc)
qed

lemma add_round_inc_div:
  assumes "0 < g"
  shows "(n + round_inc m s g) div 2 ^ g = n div 2 ^ g + of_bool (2 ^ g \<le> n mod 2 ^ g + round_inc m s g)"
proof -
  have "n + round_inc m s g = n div 2 ^ g * 2 ^ g + n mod 2 ^ g + round_inc m s g"
    by (simp only: div_mult_mod_eq)
  then show ?thesis
    using add_div_bit [of "n mod 2 ^ g" "2 ^ g" "round_inc m s g" "n div 2 ^ g"] round_inc_less [OF assms]
    by simp
qed

lemma or_Suc_0: "(n::nat) OR Suc 0 = Suc (2 * (n div 2))"
  using or_1_nat [of n] by simp

lemma round_shift_inc:
  assumes "0 < g"
  shows "round_shift m s n g =
    (if m = ROD \<and> n mod 2 ^ g \<noteq> 0 then (n + round_inc m s g) div 2 ^ g OR 1
     else if n mod 2 ^ g = 2 ^ (g - 1) \<and> m = RNE then 2 * ((n + round_inc m s g) div 2 ^ g div 2)
     else (n + round_inc m s g) div 2 ^ g)"
proof -
  obtain g' where g: "g = Suc g'" using assms by (cases g) auto
  define u where "u = (2::nat) ^ g'"
  have p: "2 ^ g = 2 * u" "2 ^ (g - 1) = u" and u: "0 < u" by (simp_all add: u_def g)
  define q r where "q = n div 2 ^ g" and "r = n mod 2 ^ g"
  have r: "r < 2 * u" using u by (simp add: r_def p)
  have i: "round_inc m s g = (case m of RNE \<Rightarrow> u | RTZ \<Rightarrow> 0 | RDN \<Rightarrow> if s then 2 * u - 1 else 0
      | RUP \<Rightarrow> if s then 0 else 2 * u - 1 | RMM \<Rightarrow> u | ROD \<Rightarrow> 0)"
    by (cases m) (simp_all only: round_inc.simps p rmode.case)
  have "q + of_bool (round_up m s q r (2 * u)) =
    (if m = ROD \<and> r \<noteq> 0 then (q + of_bool (2 * u \<le> r + round_inc m s g)) OR 1
     else if r = u \<and> m = RNE then 2 * ((q + of_bool (2 * u \<le> r + round_inc m s g)) div 2)
     else q + of_bool (2 * u \<le> r + round_inc m s g))"
    unfolding i using r u by (cases m; cases "even q") (auto simp: or_Suc_0 elim!: oddE evenE)
  then show ?thesis
    by (simp only: add_round_inc_div [OF assms, unfolded p] round_shift_def q_def r_def p)
qed

lemma double_le_odd: "2 * c \<le> Suc (2 * (x div 2)) \<longleftrightarrow> 2 * c \<le> (x::nat)"
  by presburger

lemma round_shift_ge_iff:
  assumes "0 < g" "0 < a"
  shows "2 ^ a \<le> round_shift m s n g \<longleftrightarrow> 2 ^ (a + g) \<le> n + round_inc m s g"
proof -
  obtain a' where a: "a = Suc a'" using assms by (cases a) auto
  have d: "2 ^ (a + g) \<le> x \<longleftrightarrow> 2 ^ a \<le> x div 2 ^ g" for x :: nat
    by (simp add: power_add less_eq_div_iff_mult_less_eq)
  show ?thesis
    unfolding round_shift_inc [OF assms(1)] d
    by (auto simp: or_Suc_0 a double_le_odd)
qed

text \<open>
  The three situations of a normalised significand \<open>n\<close> with \<open>g\<close> guard bits and
  (biased, less one) exponent \<open>e\<close>: in range, overflowing, and below the normal range.
\<close>

definition normed :: "fmt \<Rightarrow> nat \<Rightarrow> nat \<Rightarrow> bool" where
  "normed f g n \<longleftrightarrow> 0 < g \<and> 2 ^ (fracw f + g) \<le> n \<and> n < 2 ^ Suc (fracw f + g)"

lemma norm_nbits: "normed f g n \<Longrightarrow> nbits n = Suc (fracw f + g)"
  by (simp add: normed_def nbits_eqI)

lemma norm_nbits_mult: "normed f g n \<Longrightarrow> nbits (n * 2 ^ i) = Suc (fracw f + g + i)"
  by (subst nbits_mult_pow) (auto simp: norm_nbits normed_def intro: order_less_le_trans)

lemma norm_dropped_up: "normed f g n \<Longrightarrow> dropped (fracw f) (n * 2 ^ i) g = g + i"
  by (simp add: dropped_def norm_nbits_mult)

lemma norm_dropped_down: "normed f g n \<Longrightarrow> dropped (fracw f) n (g + i) = g + i"
  by (simp add: dropped_def norm_nbits)

lemma norm_ordinal_up:
  "normed f g n \<Longrightarrow> round_ordinal (fracw f) m s (n * 2 ^ i) g = i * 2 ^ fracw f + round_shift m s n g"
  by (simp only: round_ordinal_def norm_dropped_up round_shift_mult) simp

lemma norm_ordinal_down:
  "normed f g n \<Longrightarrow> round_ordinal (fracw f) m s n (g + i) = round_shift m s n (g + i)"
  by (simp add: round_ordinal_def norm_dropped_down)

lemma norm_inexact_up: "normed f g n \<Longrightarrow> ieee_inexact f (n * 2 ^ i) g \<longleftrightarrow> n mod 2 ^ g \<noteq> 0"
  by (simp add: ieee_inexact_def norm_dropped_up power_add mult_mod_left)

lemma norm_not_tiny:
  assumes N: "normed f g n"
  shows "\<not> tiny f b m s (n * 2 ^ i) g"
proof -
  have norm: "2 ^ (fracw f + g) \<le> n" "n < 2 ^ Suc (fracw f + g)" using N by (simp_all add: normed_def)
  have l: "2 ^ (fracw f + g) \<le> n * 2 ^ i"
    using norm(1) mult_le_mono [OF norm(1) one_le_power [of 2 i]] by simp
  have e: "nbits (n * 2 ^ i) - Suc (fracw f) = g + i" by (simp add: norm_nbits_mult [OF N])
  have "round_shift m s (n * 2 ^ i) (g + i) = round_shift m s n g" by (rule round_shift_mult)
  moreover have "2 ^ fracw f \<le> n div 2 ^ g"
    using norm(1) by (simp add: less_eq_div_iff_mult_less_eq power_add)
  ultimately have "2 ^ fracw f * 2 ^ (g + i) \<le> round_shift m s (n * 2 ^ i) (g + i) * 2 ^ (g + i)"
    using round_shift_ge [of n g m s] by simp
  moreover have "2 ^ (fracw f + g) \<le> (2::nat) ^ fracw f * 2 ^ (g + i)"
    by (simp add: power_add [symmetric])
  ultimately have "2 ^ (fracw f + g) \<le> round_shift m s (n * 2 ^ i) (g + i) * 2 ^ (g + i)"
    by (rule order_trans [rotated])
  with l show ?thesis unfolding tiny_def e by simp
qed

lemma norm_in_range:
  assumes "normed f g n" "i * 2 ^ fracw f + round_shift m s n g < inf_ord f"
  shows "ieee_bits f m s (n * 2 ^ i) g = sign_ord f s + i * 2 ^ fracw f + round_shift m s n g"
    and "ieee_flags f b m s (n * 2 ^ i) g = (if n mod 2 ^ g \<noteq> 0 then 1 else 0)"
  using assms norm_not_tiny [OF assms(1), of b m s i]
  by (simp_all add: ieee_bits_def ieee_flags_def ieee_overflow_def norm_ordinal_up norm_inexact_up)

lemma norm_overflow:
  assumes "normed f g n" "inf_ord f \<le> i * 2 ^ fracw f + round_shift m s n g"
  shows "ieee_bits f m s (n * 2 ^ i) g
      = sign_ord f s + (if to_inf m s then inf_ord f else inf_ord f - 1)"
    and "ieee_flags f b m s (n * 2 ^ i) g = 5"
  using assms
  by (simp_all add: ieee_bits_def ieee_flags_def ieee_overflow_def norm_ordinal_up)

lemma tiny_below:
  assumes N: "normed f g n" and i: "0 < i"
  shows "tiny f b m s n (g + i) \<longleftrightarrow> b \<or> 1 < i \<or> n + round_inc m s g < 2 ^ Suc (fracw f + g)"
proof -
  have norm: "2 ^ (fracw f + g) \<le> n" "n < 2 ^ Suc (fracw f + g)" and g: "0 < g"
    using N by (simp_all add: normed_def)
  have e: "nbits n - Suc (fracw f) = g" by (simp add: norm_nbits [OF N])
  have bound: "n < 2 ^ (fracw f + (g + i))"
    using norm(2) power_increasing [of "Suc (fracw f + g)" "fracw f + (g + i)" "2::nat"] i by simp
  have r: "round_shift m s n g \<le> 2 ^ Suc (fracw f)"
    using round_shift_bounds(1) [of g "fracw f" n 0 m s] by (simp add: dropped_def e)
  have "round_shift m s n g * 2 ^ g < 2 ^ (fracw f + (g + i)) \<longleftrightarrow> round_shift m s n g < 2 ^ (fracw f + i)"
    by (simp add: power_add)
  also have "\<dots> \<longleftrightarrow> 1 < i \<or> n + round_inc m s g < 2 ^ Suc (fracw f + g)"
  proof (cases "1 < i")
    case True
    then have "(2::nat) ^ Suc (fracw f) < 2 ^ (fracw f + i)"
      by (intro power_strict_increasing) simp_all
    with r True show ?thesis by linarith
  next
    case False
    then have "i = 1" using i by simp
    then show ?thesis
      using round_shift_ge_iff [OF g, of "Suc (fracw f)" m s n] by (simp add: not_le [symmetric])
  qed
  finally show ?thesis unfolding tiny_def e using bound by simp
qed

lemma norm_below:
  assumes N: "normed f g n" and "0 < i" "1 < expw f" "1 < g"
  shows "ieee_bits f m s n (g + i) = sign_ord f s + round_shift m s (jam n i) g"
    and "ieee_flags f b m s n (g + i) =
      (if (b \<or> 1 < i \<or> n + round_inc m s g < 2 ^ Suc (fracw f + g)) \<and> jam n i mod 2 ^ g \<noteq> 0
       then 2 else 0) OR (if jam n i mod 2 ^ g \<noteq> 0 then 1 else 0)"
proof -
  have norm: "n < 2 ^ Suc (fracw f + g)" and g: "0 < g" using N by (simp_all add: normed_def)
  have j: "round_shift m s (jam n i) g = round_shift m s n (g + i)"
    using assms by (simp add: round_shift_jam add.commute)
  have x: "ieee_inexact f n (g + i) \<longleftrightarrow> jam n i mod 2 ^ g \<noteq> 0"
    using g by (simp add: ieee_inexact_def norm_dropped_down [OF N] jam_mod add.commute)
  have "round_shift m s n (g + i) \<le> Suc (n div 2 ^ (g + i))" by (rule round_shift_le)
  moreover have "n div 2 ^ (g + i) < 2 ^ fracw f"
    using norm assms(2) power_increasing [of "Suc (fracw f + g)" "fracw f + (g + i)" "2::nat"]
    by (simp add: less_mult_imp_div_less power_add [symmetric] add.assoc)
  moreover have "2 ^ fracw f < inf_ord f"
  proof -
    have "(4::nat) \<le> 2 ^ expw f" using assms(3) power_increasing [of 2 "expw f" "2::nat"] by simp
    then have "2 ^ fracw f < 3 * (2::nat) ^ fracw f \<and> 3 * 2 ^ fracw f \<le> inf_ord f"
      unfolding inf_ord_def by (intro conjI mult_le_mono1) simp_all
    then show ?thesis by linarith
  qed
  ultimately have r: "round_shift m s n (g + i) < inf_ord f" by linarith
  show "ieee_bits f m s n (g + i) = sign_ord f s + round_shift m s (jam n i) g"
    using r by (simp add: ieee_bits_def norm_ordinal_down [OF N] j)
  show "ieee_flags f b m s n (g + i) =
      (if (b \<or> 1 < i \<or> n + round_inc m s g < 2 ^ Suc (fracw f + g)) \<and> jam n i mod 2 ^ g \<noteq> 0
       then 2 else 0) OR (if jam n i mod 2 ^ g \<noteq> 0 then 1 else 0)"
    using r by (simp add: ieee_flags_def ieee_overflow_def norm_ordinal_down [OF N] x tiny_below [OF N assms(2)])
qed

lemma jam_less_pow: "n < 2 ^ Suc k \<Longrightarrow> jam n d < 2 ^ Suc k"
proof -
  assume n: "n < 2 ^ Suc k"
  have "(2::nat) ^ Suc k \<le> 2 ^ k * 2 ^ Suc d" by simp
  with n have "n < 2 ^ k * 2 ^ Suc d" by (rule less_le_trans)
  then show ?thesis using jam_less_iff [of n d "2 ^ k"] by (simp add: ac_simps)
qed

lemma norm_below_less:
  assumes N: "normed f g n" and "0 < i" "1 < expw f"
  shows "round_shift m s (jam n i) g < inf_ord f"
proof -
  have g: "0 < g" using N by (simp add: normed_def)
  have "round_shift m s (jam n i) g \<le> Suc (n div 2 ^ (i + g))"
    using round_shift_le [of m s "jam n i" g] g by (simp add: jam_div)
  moreover have "n div 2 ^ (i + g) < 2 ^ fracw f"
    using N assms(2) power_increasing [of "Suc (fracw f + g)" "fracw f + (i + g)" "2::nat"]
    by (simp add: normed_def less_mult_imp_div_less power_add [symmetric])
  moreover have "2 ^ fracw f < inf_ord f"
  proof -
    have "(4::nat) \<le> 2 ^ expw f" using assms(3) power_increasing [of 2 "expw f" "2::nat"] by simp
    then have "2 ^ fracw f < 3 * (2::nat) ^ fracw f \<and> 3 * 2 ^ fracw f \<le> inf_ord f"
      unfolding inf_ord_def by (intro conjI mult_le_mono1) simp_all
    then show ?thesis by linarith
  qed
  ultimately show ?thesis by linarith
qed

lemma norm_round_shift:
  assumes N: "normed f g n"
  shows "2 ^ fracw f \<le> round_shift m s n g" and "round_shift m s n g \<le> 2 ^ Suc (fracw f)"
proof -
  have "2 ^ fracw f \<le> n div 2 ^ g"
    using N by (simp add: normed_def less_eq_div_iff_mult_less_eq power_add)
  then show "2 ^ fracw f \<le> round_shift m s n g" using round_shift_ge le_trans by blast
  show "round_shift m s n g \<le> 2 ^ Suc (fracw f)"
    using round_shift_bounds(1) [of g "fracw f" n 0 m s] norm_nbits [OF N] by (simp add: dropped_def)
qed

lemma norm_overflow_iff:
  assumes N: "normed f g n" and w: "1 < expw f"
  shows "inf_ord f \<le> i * 2 ^ fracw f + round_shift m s n g \<longleftrightarrow>
    2 ^ expw f - 3 < i \<or> i = 2 ^ expw f - 3 \<and> 2 ^ Suc (fracw f) \<le> round_shift m s n g"
proof -
  have "(4::nat) \<le> 2 ^ expw f" using w power_increasing [of 2 "expw f" "2::nat"] by simp
  then have L: "(2::nat) ^ expw f = (2 ^ expw f - 4) + 4" by simp
  define L where "L = (2::nat) ^ expw f - 4"
  note L = L [folded L_def]
  have inf: "inf_ord f = (L + 3) * 2 ^ fracw f" by (simp add: inf_ord_def L)
  note R = norm_round_shift [OF N, of m s]
  consider "i \<le> L" | "i = L + 1" | "L + 2 \<le> i" by linarith
  then show ?thesis
  proof cases
    case 1
    then have "i * 2 ^ fracw f \<le> L * 2 ^ fracw f" by (rule mult_le_mono1)
    moreover have "(0::nat) < 2 ^ fracw f" by simp
    ultimately have "\<not> L * 2 ^ fracw f + 3 * 2 ^ fracw f \<le> i * 2 ^ fracw f + round_shift m s n g"
      using R(2) unfolding power_Suc by linarith
    with 1 show ?thesis by (simp add: inf L algebra_simps)
  next
    case 2
    then show ?thesis by (simp add: inf L algebra_simps)
  next
    case 3
    then have "(L + 2) * 2 ^ fracw f \<le> i * 2 ^ fracw f" by (rule mult_le_mono1)
    with R 3 show ?thesis by (auto simp: inf L algebra_simps)
  qed
qed

section \<open>Jamming under addition and subtraction\<close>

lemma jam_add_even:
  assumes "even a"
  shows "jam (a * 2 ^ d + x) d = a + jam x d"
proof -
  have "(a * 2 ^ d + x) div 2 ^ d = a + x div 2 ^ d" by simp
  moreover have "(a * 2 ^ d + x) mod 2 ^ d = x mod 2 ^ d" by simp
  ultimately show ?thesis
    using assms by (cases "even (x div 2 ^ d)") (auto simp: jam_def or_Suc_0 elim!: evenE oddE)
qed

lemma jam_diff_even:
  assumes a: "even a" and x: "x \<le> a * 2 ^ d"
  shows "jam (a * 2 ^ d - x) d = a - jam x d"
proof -
  obtain b where b: "a = 2 * b" using a by (rule evenE)
  define q r where "q = x div 2 ^ Suc d" and "r = x mod 2 ^ Suc d"
  have x': "x = q * 2 ^ Suc d + r" unfolding q_def r_def by (simp only: div_mult_mod_eq)
  have r: "r < 2 ^ Suc d" by (simp add: r_def del: power_Suc)
  have ab: "a * 2 ^ d = b * 2 ^ Suc d" by (simp add: b)
  show ?thesis
  proof (cases "r = 0")
    case True
    then have "a * 2 ^ d - x = (b - q) * 2 ^ Suc d" by (simp add: ab x' diff_mult_distrib del: power_Suc)
    with True show ?thesis by (simp add: jam_alt q_def [symmetric] r_def [symmetric] b del: power_Suc)
  next
    case False
    have "q < b"
    proof (rule ccontr)
      assume "\<not> q < b"
      then have "b * 2 ^ Suc d \<le> q * 2 ^ Suc d" by (intro mult_le_mono1) simp
      with x False show False by (simp add: ab x' del: power_Suc)
    qed
    then obtain c where c: "b = Suc (q + c)" by (metis less_iff_Suc_add)
    have "a * 2 ^ d - x = c * 2 ^ Suc d + (2 ^ Suc d - r)"
      using r by (simp add: ab x' c algebra_simps del: power_Suc)
    moreover define r' where "r' = 2 ^ Suc d - r"
    ultimately have "a * 2 ^ d - x = c * 2 ^ Suc d + r'" by simp
    moreover have "r' < 2 ^ Suc d" "r' \<noteq> 0" using False r by (simp_all add: r'_def)
    ultimately have "(a * 2 ^ d - x) div 2 ^ Suc d = c" "(a * 2 ^ d - x) mod 2 ^ Suc d \<noteq> 0"
      by (simp_all del: power_Suc)
    with False show ?thesis
      by (simp add: jam_alt q_def [symmetric] r_def [symmetric] b c del: power_Suc)
  qed
qed

lemma jam_mult: "jam (n * 2 ^ i) (d + i) = jam n d"
  by (simp add: jam_def power_add mult_mod_left)

lemma jam_exact: "2 ^ d dvd n \<Longrightarrow> jam n d * 2 ^ d = n"
  by (auto simp: jam_def)

lemma normed_iff_nbits: "normed f g n \<longleftrightarrow> 0 < g \<and> nbits n = Suc (fracw f + g)"
  using norm_nbits [of f g n] less_nbits_iff [of "fracw f + g" n] nbits_le_iff [of n "Suc (fracw f + g)"]
  by (auto simp: normed_def)

lemma mag_Suc: "mag p x < mag p (Suc x)"
proof -
  define e g where "e = x div 2 ^ p" and "g = x mod 2 ^ p"
  have x: "x = e * 2 ^ p + g" unfolding e_def g_def by (simp only: div_mult_mod_eq)
  have g: "g < 2 ^ p" by (simp add: g_def)
  show ?thesis
  proof (cases "Suc g < 2 ^ p")
    case True
    have "mag p (e * 2 ^ p + g) < mag p (e * 2 ^ p + Suc g)"
      unfolding mag_parts [OF g] mag_parts [OF True] by simp
    then show ?thesis by (simp add: x)
  next
    case False
    then have "Suc x = Suc e * 2 ^ p + 0" using g by (simp add: x)
    then have "mag p (Suc x) = 2 ^ p * 2 ^ e"
      using mag_parts [of 0 p "Suc e"] by simp
    moreover have "mag p x < 2 ^ p * 2 ^ e"
      unfolding x mag_parts [OF g] using g by (cases e) auto
    ultimately show ?thesis by simp
  qed
qed

lemma mag_less_iff [simp]: "mag p x < mag p y \<longleftrightarrow> x < y"
  by (rule strict_mono_less) (simp add: strict_mono_Suc_iff mag_Suc)

lemma mag_eq_iff [simp]: "mag p x = mag p y \<longleftrightarrow> x = y"
  by (metis mag_less_iff nat_neq_iff)

lemma mag_0 [simp]: "mag p 0 = 0"
  by (simp add: mag_def)

lemma jam_le_half:
  assumes "0 < d" "n < 2 ^ Suc (Suc k)"
  shows "jam n d \<le> 2 ^ Suc k"
proof -
  obtain d' where d: "d = Suc d'" using assms(1) by (cases d) auto
  have "n \<le> 2 ^ k * 2 ^ Suc d"
  proof -
    have "(2::nat) ^ Suc (Suc k) \<le> 2 ^ Suc (Suc k) * 2 ^ d'" by simp
    also have "\<dots> = 2 ^ k * 2 ^ Suc d" by (simp add: d)
    finally show ?thesis using assms(2) by linarith
  qed
  then show ?thesis using jam_gt_iff [of "2 ^ k" n d] by simp
qed

end
