(* ===== verification/SoftFloat_State.thy ===== *)
theory SoftFloat_State
  imports Rounding
begin

text \<open>
  The state of the SoftFloat library (\<open>softfloat_state.c\<close>, the enumerations of
  \<open>softfloat.h\<close>), the platform constants of \<open>specialize.h\<close> (RISC-V: default NaNs,
  saturating conversions) and the field macros of \<open>internals.h\<close>.  A format's macros
  satisfy the laws of the locale \<open>float_format\<close>; what the other components need about
  bit fields (round trips, classification, the order of magnitudes) is proved there once
  and interpreted for binary16, bfloat16, binary32 and binary64.
\<close>

section \<open>Global state, rounding modes and exception flags\<close>

record sf_state =
  softfloat_roundingMode :: u8
  softfloat_detectTininess :: u8
  softfloat_exceptionFlags :: u8

abbreviation (input) softfloat_tininess_beforeRounding :: u8 where
  "softfloat_tininess_beforeRounding \<equiv> 0"
abbreviation (input) softfloat_tininess_afterRounding :: u8 where
  "softfloat_tininess_afterRounding \<equiv> 1"

abbreviation (input) softfloat_round_near_even :: u8 where "softfloat_round_near_even \<equiv> 0"
abbreviation (input) softfloat_round_minMag :: u8 where "softfloat_round_minMag \<equiv> 1"
abbreviation (input) softfloat_round_min :: u8 where "softfloat_round_min \<equiv> 2"
abbreviation (input) softfloat_round_max :: u8 where "softfloat_round_max \<equiv> 3"
abbreviation (input) softfloat_round_near_maxMag :: u8 where "softfloat_round_near_maxMag \<equiv> 4"
abbreviation (input) softfloat_round_odd :: u8 where "softfloat_round_odd \<equiv> 5"

abbreviation (input) softfloat_flag_inexact :: u8 where "softfloat_flag_inexact \<equiv> 1"
abbreviation (input) softfloat_flag_underflow :: u8 where "softfloat_flag_underflow \<equiv> 2"
abbreviation (input) softfloat_flag_overflow :: u8 where "softfloat_flag_overflow \<equiv> 4"
abbreviation (input) softfloat_flag_infinite :: u8 where "softfloat_flag_infinite \<equiv> 8"
abbreviation (input) softfloat_flag_invalid :: u8 where "softfloat_flag_invalid \<equiv> 16"

definition init_sf_state :: sf_state where
  "init_sf_state = \<lparr>softfloat_roundingMode = softfloat_round_near_even,
     softfloat_detectTininess = softfloat_tininess_afterRounding,
     softfloat_exceptionFlags = 0\<rparr>"

definition softfloat_raiseFlags :: "u8 \<Rightarrow> sf_state \<Rightarrow> sf_state" where
  "softfloat_raiseFlags flags s =
     s\<lparr>softfloat_exceptionFlags := softfloat_exceptionFlags s OR flags\<rparr>"

text \<open>The rounding mode a value of the variable selects; values above 5 truncate.\<close>

definition rmode_of :: "u8 \<Rightarrow> rmode" where
  "rmode_of m = (if m = 0 then RNE else if m = 2 then RDN else if m = 3 then RUP
     else if m = 4 then RMM else if m = 5 then ROD else RTZ)"

abbreviation mode_of :: "sf_state \<Rightarrow> rmode" where
  "mode_of s \<equiv> rmode_of (softfloat_roundingMode s)"

abbreviation tiny_before :: "sf_state \<Rightarrow> bool" where
  "tiny_before s \<equiv> softfloat_detectTininess s = 0"

text \<open>
  What a correctly rounded operation returns: the encoding of the rounding of \<open>n / 2 ^ j\<close>
  (in units of the least subnormal) and the state with the IEEE flags raised.
\<close>

definition ieee_result :: "fmt \<Rightarrow> sf_state \<Rightarrow> bool \<Rightarrow> nat \<Rightarrow> nat \<Rightarrow> 'a::len word \<times> sf_state" where
  "ieee_result f s sign n j =
     (word_of_nat (ieee_bits f (mode_of s) sign n j),
      softfloat_raiseFlags (ieee_flags f (tiny_before s) (mode_of s) sign n j) s)"

lemma ieee_result_mult: "ieee_result f s sign (n * 2 ^ i) (j + i) = ieee_result f s sign n j"
  by (simp add: ieee_result_def ieee_bits_mult ieee_flags_mult)

lemma ieee_result_jam:
  "d = 0 \<or> fracw f + d + 3 \<le> nbits n \<Longrightarrow>
    ieee_result f s sign (jam n d * 2 ^ d) j = ieee_result f s sign n j"
  by (simp add: ieee_result_def ieee_bits_jam ieee_flags_jam)

text \<open>\<open>softfloat_exceptionFlags |= softfloat_flag_inexact\<close>, written directly in several files.\<close>

abbreviation set_inexact :: "sf_state \<Rightarrow> sf_state" where
  "set_inexact s \<equiv> s\<lparr>softfloat_exceptionFlags := softfloat_exceptionFlags s OR softfloat_flag_inexact\<rparr>"

lemma raiseFlags_frame [simp]:
  "softfloat_roundingMode (softfloat_raiseFlags f s) = softfloat_roundingMode s"
  "softfloat_detectTininess (softfloat_raiseFlags f s) = softfloat_detectTininess s"
  "softfloat_exceptionFlags (softfloat_raiseFlags f s) = softfloat_exceptionFlags s OR f"
  by (simp_all add: softfloat_raiseFlags_def)

lemma raiseFlags_raiseFlags [simp]:
  "softfloat_raiseFlags g (softfloat_raiseFlags f s) = softfloat_raiseFlags (f OR g) s"
  by (simp add: softfloat_raiseFlags_def or.assoc)

lemma raiseFlags_0 [simp]: "softfloat_raiseFlags 0 s = s"
  by (simp add: softfloat_raiseFlags_def)

section \<open>Field macros of internals.h\<close>

type_synonym float16 = u16
type_synonym bfloat16 = u16
type_synonym float32 = u32
type_synonym float64 = u64

definition signF16UI :: "u64 \<Rightarrow> bool" where
  "signF16UI a = (drop_bit 15 (ucast a :: u16) \<noteq> 0)"
definition expF16UI :: "u64 \<Rightarrow> int" where
  "expF16UI a = sint (ucast (drop_bit 10 a) :: u8) AND 0x1F"
definition fracF16UI :: "u64 \<Rightarrow> u64" where
  "fracF16UI a = a AND 0x03FF"
definition packToF16UI :: "bool \<Rightarrow> int \<Rightarrow> u64 \<Rightarrow> u64" where
  "packToF16UI sign exp sig =
     push_bit 15 (of_bool sign) + push_bit 10 (ucast (word_of_int exp :: u16)) + sig"
definition isNaNF16UI :: "u64 \<Rightarrow> bool" where
  "isNaNF16UI a = ((NOT a) AND 0x7C00 = 0 \<and> a AND 0x03FF \<noteq> 0)"

definition signBF16UI :: "u64 \<Rightarrow> bool" where
  "signBF16UI a = (drop_bit 15 (ucast a :: u16) \<noteq> 0)"
definition expBF16UI :: "u64 \<Rightarrow> int" where
  "expBF16UI a = sint (drop_bit 7 a) AND 0xFF"
definition fracBF16UI :: "u64 \<Rightarrow> u64" where
  "fracBF16UI a = a AND 0x07F"
definition packToBF16UI :: "bool \<Rightarrow> int \<Rightarrow> u64 \<Rightarrow> u64" where
  "packToBF16UI sign exp sig =
     push_bit 15 (of_bool sign) + push_bit 7 (ucast (word_of_int exp :: u16)) + sig"

definition signF32UI :: "u64 \<Rightarrow> bool" where
  "signF32UI a = (drop_bit 31 (ucast a :: u32) \<noteq> 0)"
definition expF32UI :: "u64 \<Rightarrow> int" where
  "expF32UI a = sint (drop_bit 23 a) AND 0xFF"
definition fracF32UI :: "u64 \<Rightarrow> u64" where
  "fracF32UI a = a AND 0x007FFFFF"
definition packToF32UI :: "bool \<Rightarrow> int \<Rightarrow> u64 \<Rightarrow> u64" where
  "packToF32UI sign exp sig =
     ucast (push_bit 31 (of_bool sign) + push_bit 23 (word_of_int exp) :: u32) + sig"
definition isNaNF32UI :: "u64 \<Rightarrow> bool" where
  "isNaNF32UI a = ((NOT a) AND 0x7F800000 = 0 \<and> a AND 0x007FFFFF \<noteq> 0)"

definition signF64UI :: "u64 \<Rightarrow> bool" where
  "signF64UI a = (drop_bit 63 a \<noteq> 0)"
definition expF64UI :: "u64 \<Rightarrow> int" where
  "expF64UI a = sint (drop_bit 52 a) AND 0x7FF"
definition fracF64UI :: "u64 \<Rightarrow> u64" where
  "fracF64UI a = a AND 0x000FFFFFFFFFFFFF"
definition packToF64UI :: "bool \<Rightarrow> int \<Rightarrow> u64 \<Rightarrow> u64" where
  "packToF64UI sign exp sig =
     push_bit 63 (of_bool sign) + push_bit 52 (word_of_int exp) + sig"
definition isNaNF64UI :: "u64 \<Rightarrow> bool" where
  "isNaNF64UI a = ((NOT a) AND 0x7FF0000000000000 = 0 \<and> a AND 0x000FFFFFFFFFFFFF \<noteq> 0)"

section \<open>The RISC-V specialisation (specialize.h)\<close>

definition defaultNaNF16UI :: u64 where "defaultNaNF16UI = 0x7E00"
definition defaultNaNBF16UI :: u64 where "defaultNaNBF16UI = 0x7FC0"
definition defaultNaNF32UI :: u64 where "defaultNaNF32UI = 0x7FC00000"
definition defaultNaNF64UI :: u64 where "defaultNaNF64UI = 0x7FF8000000000000"

definition softfloat_isSigNaNF16UI :: "u64 \<Rightarrow> bool" where
  "softfloat_isSigNaNF16UI uiA = (uiA AND 0x7E00 = 0x7C00 \<and> uiA AND 0x01FF \<noteq> 0)"
definition softfloat_isSigNaNF32UI :: "u64 \<Rightarrow> bool" where
  "softfloat_isSigNaNF32UI uiA = (uiA AND 0x7FC00000 = 0x7F800000 \<and> uiA AND 0x003FFFFF \<noteq> 0)"
definition softfloat_isSigNaNF64UI :: "u64 \<Rightarrow> bool" where
  "softfloat_isSigNaNF64UI uiA =
     (uiA AND 0x7FF8000000000000 = 0x7FF0000000000000 \<and> uiA AND 0x0007FFFFFFFFFFFF \<noteq> 0)"

text \<open>
  \<open>softfloat_fNUIToCommonNaN\<close>: the common NaN carries no payload on RISC-V, so only the
  effect on the flags is left; \<open>softfloat_commonNaNToFNUI\<close> is the default NaN.
\<close>

definition softfloat_f16UIToCommonNaN :: "u64 \<Rightarrow> sf_state \<Rightarrow> sf_state" where
  "softfloat_f16UIToCommonNaN uiA s =
     (if uiA AND 0x0200 = 0 then softfloat_raiseFlags softfloat_flag_invalid s else s)"
definition softfloat_bf16UIToCommonNaN :: "u64 \<Rightarrow> sf_state \<Rightarrow> sf_state" where
  "softfloat_bf16UIToCommonNaN uiA s =
     (if uiA AND 0x040 = 0 then softfloat_raiseFlags softfloat_flag_invalid s else s)"
definition softfloat_f32UIToCommonNaN :: "u64 \<Rightarrow> sf_state \<Rightarrow> sf_state" where
  "softfloat_f32UIToCommonNaN uiA s =
     (if uiA AND 0x00400000 = 0 then softfloat_raiseFlags softfloat_flag_invalid s else s)"
definition softfloat_f64UIToCommonNaN :: "u64 \<Rightarrow> sf_state \<Rightarrow> sf_state" where
  "softfloat_f64UIToCommonNaN uiA s =
     (if uiA AND 0x0008000000000000 = 0 then softfloat_raiseFlags softfloat_flag_invalid s else s)"

definition softfloat_commonNaNToF16UI :: u64 where
  "softfloat_commonNaNToF16UI = defaultNaNF16UI"
definition softfloat_commonNaNToBF16UI :: u64 where
  "softfloat_commonNaNToBF16UI = defaultNaNBF16UI"
definition softfloat_commonNaNToF32UI :: u64 where
  "softfloat_commonNaNToF32UI = defaultNaNF32UI"
definition softfloat_commonNaNToF64UI :: u64 where
  "softfloat_commonNaNToF64UI = defaultNaNF64UI"

definition softfloat_propagateNaNF16UI :: "u64 \<Rightarrow> u64 \<Rightarrow> sf_state \<Rightarrow> u64 \<times> sf_state" where
  "softfloat_propagateNaNF16UI uiA uiB s =
     (defaultNaNF16UI,
      if softfloat_isSigNaNF16UI uiA \<or> softfloat_isSigNaNF16UI uiB
      then softfloat_raiseFlags softfloat_flag_invalid s else s)"
definition softfloat_propagateNaNF32UI :: "u64 \<Rightarrow> u64 \<Rightarrow> sf_state \<Rightarrow> u64 \<times> sf_state" where
  "softfloat_propagateNaNF32UI uiA uiB s =
     (defaultNaNF32UI,
      if softfloat_isSigNaNF32UI uiA \<or> softfloat_isSigNaNF32UI uiB
      then softfloat_raiseFlags softfloat_flag_invalid s else s)"
definition softfloat_propagateNaNF64UI :: "u64 \<Rightarrow> u64 \<Rightarrow> sf_state \<Rightarrow> u64 \<times> sf_state" where
  "softfloat_propagateNaNF64UI uiA uiB s =
     (defaultNaNF64UI,
      if softfloat_isSigNaNF64UI uiA \<or> softfloat_isSigNaNF64UI uiB
      then softfloat_raiseFlags softfloat_flag_invalid s else s)"

section \<open>The laws of a format's field macros\<close>

text \<open>The magnitude bits of a bit pattern, as a number.\<close>

definition ordinal :: "fmt \<Rightarrow> 'a::len word \<Rightarrow> nat" where
  "ordinal f a = unat a mod 2 ^ (fracw f + expw f)"

definition binary16 :: fmt where "binary16 = \<lparr>fracw = 10, expw = 5\<rparr>"
definition bfloat16_fmt :: fmt where "bfloat16_fmt = \<lparr>fracw = 7, expw = 8\<rparr>"
definition binary32 :: fmt where "binary32 = \<lparr>fracw = 23, expw = 8\<rparr>"
definition binary64 :: fmt where "binary64 = \<lparr>fracw = 52, expw = 11\<rparr>"

lemma fmt_simps [simp]:
  "fracw binary16 = 10" "expw binary16 = 5" "fracw bfloat16_fmt = 7" "expw bfloat16_fmt = 8"
  "fracw binary32 = 23" "expw binary32 = 8" "fracw binary64 = 52" "expw binary64 = 11"
  by (simp_all add: binary16_def bfloat16_fmt_def binary32_def binary64_def)

locale float_format =
  fixes f :: fmt
    and sgn :: "u64 \<Rightarrow> bool" and ex :: "u64 \<Rightarrow> int" and fr :: "u64 \<Rightarrow> u64"
    and pack :: "bool \<Rightarrow> int \<Rightarrow> u64 \<Rightarrow> u64"
  assumes width: "Suc (fracw f + expw f) \<le> 64" and expw_pos: "1 < expw f"
    and sgn_law: "unat a < 2 ^ Suc (fracw f + expw f) \<Longrightarrow> sgn a \<longleftrightarrow> 2 ^ (fracw f + expw f) \<le> unat a"
    and ex_law: "ex a = int (unat a div 2 ^ fracw f mod 2 ^ expw f)"
    and fr_law: "unat (fr a) = unat a mod 2 ^ fracw f"
    and pack_law: "0 \<le> e \<Longrightarrow> nat e < 2 ^ expw f \<Longrightarrow>
      sign_ord f s + nat e * 2 ^ fracw f + unat x < 2 ^ Suc (fracw f + expw f) \<Longrightarrow>
      unat (pack s e x) = sign_ord f s + nat e * 2 ^ fracw f + unat x"
begin

lemma ex_nonneg: "0 \<le> ex a"
  by (simp add: ex_law)

lemma ex_less: "ex a < 2 ^ expw f"
  by (simp add: ex_law)

lemma nat_ex: "nat (ex a) = unat a div 2 ^ fracw f mod 2 ^ expw f"
  by (simp add: ex_law)

lemma fr_less: "unat (fr a) < 2 ^ fracw f"
  by (simp add: fr_law)

lemma ordinal_parts: "ordinal f a = nat (ex a) * 2 ^ fracw f + unat (fr a)"
proof -
  have "unat a mod (2 ^ fracw f * 2 ^ expw f)
      = 2 ^ fracw f * (unat a div 2 ^ fracw f mod 2 ^ expw f) + unat a mod 2 ^ fracw f"
    by (rule mod_mult2_eq)
  then show ?thesis
    by (simp only: ordinal_def nat_ex fr_law power_add mult.commute)
qed

lemma unat_parts:
  assumes "unat a < 2 ^ Suc (fracw f + expw f)"
  shows "unat a = sign_ord f (sgn a) + ordinal f a"
proof -
  have "unat a div 2 ^ (fracw f + expw f) = of_bool (sgn a)"
    using assms sgn_law [OF assms] by (auto simp: div_nat_eqI div_eq_0_iff)
  then show ?thesis
    using div_mult_mod_eq [of "unat a" "2 ^ (fracw f + expw f)"]
    by (simp add: sign_ord_def ordinal_def)
qed

lemma ordinal_less: "ordinal f a < 2 ^ (fracw f + expw f)"
  by (simp add: ordinal_def)

text \<open>Packing the fields of a pattern gives the pattern back, and unpacking inverts packing.\<close>

lemma pack_unpack:
  assumes "unat a < 2 ^ Suc (fracw f + expw f)"
  shows "pack (sgn a) (ex a) (fr a) = a"
proof -
  have e: "unat a = sign_ord f (sgn a) + nat (ex a) * 2 ^ fracw f + unat (fr a)"
    using unat_parts [OF assms] ordinal_parts [of a] by simp
  moreover have "nat (ex a) < 2 ^ expw f"
    by (simp add: nat_ex)
  ultimately show ?thesis
    using assms by (simp add: word_eq_iff_unat pack_law ex_nonneg del: power_Suc)
qed

lemma fields_pack:
  assumes "0 \<le> e" "nat e < 2 ^ expw f" "unat x < 2 ^ fracw f"
  shows "unat (pack s e x) = sign_ord f s + nat e * 2 ^ fracw f + unat x"
    and "sgn (pack s e x) = s" and "ex (pack s e x) = e" and "fr (pack s e x) = x"
proof -
  have m: "nat e * 2 ^ fracw f + unat x < 2 ^ (fracw f + expw f)"
  proof -
    have "nat e * 2 ^ fracw f + unat x < Suc (nat e) * 2 ^ fracw f"
      using assms by simp
    also have "\<dots> \<le> 2 ^ expw f * 2 ^ fracw f"
      using assms(2) by (intro mult_le_mono1 Suc_leI)
    finally show ?thesis by (simp add: power_add mult.commute)
  qed
  then have r: "sign_ord f s + nat e * 2 ^ fracw f + unat x < 2 ^ Suc (fracw f + expw f)"
    by (cases s) (simp_all add: sign_ord_def)
  from assms r show u: "unat (pack s e x) = sign_ord f s + nat e * 2 ^ fracw f + unat x"
    by (simp add: pack_law del: power_Suc)
  show "sgn (pack s e x) = s"
    using r m u sgn_law [of "pack s e x"] by (cases s) (simp_all add: sign_ord_def del: power_Suc)
  have d: "sign_ord f s = of_bool s * 2 ^ expw f * 2 ^ fracw f"
    by (simp add: sign_ord_def power_add)
  have "(sign_ord f s + nat e * 2 ^ fracw f + unat x) div 2 ^ fracw f = of_bool s * 2 ^ expw f + nat e"
    using assms by (simp add: d add.assoc flip: distrib_right)
  then show "ex (pack s e x) = e"
    using assms by (simp add: ex_law u)
  show "fr (pack s e x) = x"
    using assms by (simp add: word_eq_iff_unat fr_law u d add.assoc) 
qed

lemma mag_fields:
  "mag (fracw f) (ordinal f a) =
     (if ex a = 0 then unat (fr a) else (2 ^ fracw f + unat (fr a)) * 2 ^ (nat (ex a) - 1))"
  using ex_nonneg [of a] by (simp add: ordinal_parts mag_parts fr_less)

lemma finite_iff: "ordinal f a < inf_ord f \<longleftrightarrow> ex a \<noteq> 2 ^ expw f - 1"
proof -
  have l: "nat (ex a) < 2 ^ expw f" by (simp add: nat_ex)
  have "ordinal f a < inf_ord f \<longleftrightarrow> nat (ex a) < 2 ^ expw f - 1"
  proof
    assume "ordinal f a < inf_ord f"
    then have "nat (ex a) * 2 ^ fracw f < (2 ^ expw f - 1) * 2 ^ fracw f"
      unfolding ordinal_parts inf_ord_def by (rule le_less_trans [OF le_add1])
    then show "nat (ex a) < 2 ^ expw f - 1" by (simp only: mult_less_cancel2)
  next
    assume "nat (ex a) < 2 ^ expw f - 1"
    then have "Suc (nat (ex a)) * 2 ^ fracw f \<le> (2 ^ expw f - 1) * 2 ^ fracw f"
      by (intro mult_le_mono1) simp
    then show "ordinal f a < inf_ord f"
      using fr_less [of a] by (simp add: ordinal_parts inf_ord_def)
  qed
  also have "\<dots> \<longleftrightarrow> ex a \<noteq> 2 ^ expw f - 1"
    using l ex_nonneg [of a] ex_less [of a] by (auto simp: nat_less_iff)
  finally show ?thesis .
qed

lemma nan_iff: "inf_ord f < ordinal f a \<longleftrightarrow> ex a = 2 ^ expw f - 1 \<and> fr a \<noteq> 0"
proof (cases "ex a = 2 ^ expw f - 1")
  case True
  then have "nat (ex a) = 2 ^ expw f - 1"
    by (simp add: nat_diff_distrib nat_power_eq)
  with True show ?thesis
    by (auto simp: ordinal_parts inf_ord_def word_eq_0_iff)
next
  case False
  then show ?thesis using finite_iff [of a] by simp
qed

end

section \<open>The four formats satisfy the laws\<close>

interpretation f64: float_format binary64 signF64UI expF64UI fracF64UI packToF64UI
proof (unfold_locales)
  fix a :: u64 and e :: int and s :: bool and x :: u64
  show "signF64UI a \<longleftrightarrow> 2 ^ (fracw binary64 + expw binary64) \<le> unat a"
    by (simp add: signF64UI_def word_neq_0_iff wsimps div_greater_zero_iff)
  show "expF64UI a = int (unat a div 2 ^ fracw binary64 mod 2 ^ expw binary64)"
    using sint_and_mask [of 11 "drop_bit 52 a"] by (simp add: expF64UI_def wsimps)
  show "unat (fracF64UI a) = unat a mod 2 ^ fracw binary64"
    using unat_and_mask [of a 52] by (simp add: fracF64UI_def mask_eq_exp_minus_1)
  assume "0 \<le> e" "nat e < 2 ^ expw binary64"
    "sign_ord binary64 s + nat e * 2 ^ fracw binary64 + unat x < 2 ^ Suc (fracw binary64 + expw binary64)"
  then show "unat (packToF64UI s e x) = sign_ord binary64 s + nat e * 2 ^ fracw binary64 + unat x"
    using unat_add3 [of "push_bit 63 (of_bool s)" "push_bit 52 (word_of_int e)" x]
      unat_push_no_wrap [of "word_of_int e :: u64" 52] nat_word_of_int_id [of e 11, where 'a = 64]
      unat_sign_bit [of 63 s, where 'a = 64]
    by (simp add: packToF64UI_def sign_ord_def)
qed simp_all

interpretation f16: float_format binary16 signF16UI expF16UI fracF16UI packToF16UI
proof (unfold_locales)
  fix a :: u64 and e :: int and s :: bool and x :: u64
  show "expF16UI a = int (unat a div 2 ^ fracw binary16 mod 2 ^ expw binary16)"
    using sint_and_mask [of 5 "ucast (drop_bit 10 a) :: u8"] by (simp add: expF16UI_def wsimps unat_ucast_mod mod_mod_cancel)
  show "unat (fracF16UI a) = unat a mod 2 ^ fracw binary16"
    using unat_and_mask [of a 10] by (simp add: fracF16UI_def mask_eq_exp_minus_1)
  {
    assume "unat a < 2 ^ Suc (fracw binary16 + expw binary16)"
    then show "signF16UI a \<longleftrightarrow> 2 ^ (fracw binary16 + expw binary16) \<le> unat a"
      by (simp add: signF16UI_def word_neq_0_iff wsimps unat_ucast_mod div_greater_zero_iff)
  }
  assume "0 \<le> e" "nat e < 2 ^ expw binary16"
    "sign_ord binary16 s + nat e * 2 ^ fracw binary16 + unat x < 2 ^ Suc (fracw binary16 + expw binary16)"
  then show "unat (packToF16UI s e x) = sign_ord binary16 s + nat e * 2 ^ fracw binary16 + unat x"
    using unat_add3 [of "push_bit 15 (of_bool s)" "push_bit 10 (ucast (word_of_int e :: u16))" x]
      unat_push_no_wrap [of "ucast (word_of_int e :: u16) :: u64" 10]
      nat_word_of_int_id [of e 5, where 'a = 16] unat_sign_bit [of 15 s, where 'a = 64]
    by (simp add: packToF16UI_def sign_ord_def unat_ucast_mod)
qed simp_all

interpretation bf16: float_format bfloat16_fmt signBF16UI expBF16UI fracBF16UI packToBF16UI
proof (unfold_locales)
  fix a :: u64 and e :: int and s :: bool and x :: u64
  show "expBF16UI a = int (unat a div 2 ^ fracw bfloat16_fmt mod 2 ^ expw bfloat16_fmt)"
    using sint_and_mask [of 8 "drop_bit 7 a"] by (simp add: expBF16UI_def wsimps unat_ucast_mod)
  show "unat (fracBF16UI a) = unat a mod 2 ^ fracw bfloat16_fmt"
    using unat_and_mask [of a 7] by (simp add: fracBF16UI_def mask_eq_exp_minus_1)
  {
    assume "unat a < 2 ^ Suc (fracw bfloat16_fmt + expw bfloat16_fmt)"
    then show "signBF16UI a \<longleftrightarrow> 2 ^ (fracw bfloat16_fmt + expw bfloat16_fmt) \<le> unat a"
      by (simp add: signBF16UI_def word_neq_0_iff wsimps unat_ucast_mod div_greater_zero_iff)
  }
  assume "0 \<le> e" "nat e < 2 ^ expw bfloat16_fmt"
    "sign_ord bfloat16_fmt s + nat e * 2 ^ fracw bfloat16_fmt + unat x < 2 ^ Suc (fracw bfloat16_fmt + expw bfloat16_fmt)"
  then show "unat (packToBF16UI s e x) = sign_ord bfloat16_fmt s + nat e * 2 ^ fracw bfloat16_fmt + unat x"
    using unat_add3 [of "push_bit 15 (of_bool s)" "push_bit 7 (ucast (word_of_int e :: u16))" x]
      unat_push_no_wrap [of "ucast (word_of_int e :: u16) :: u64" 7]
      nat_word_of_int_id [of e 8, where 'a = 16] unat_sign_bit [of 15 s, where 'a = 64]
    by (simp add: packToBF16UI_def sign_ord_def unat_ucast_mod)
qed simp_all

interpretation f32: float_format binary32 signF32UI expF32UI fracF32UI packToF32UI
proof (unfold_locales)
  fix a :: u64 and e :: int and s :: bool and x :: u64
  show "expF32UI a = int (unat a div 2 ^ fracw binary32 mod 2 ^ expw binary32)"
    using sint_and_mask [of 8 "drop_bit 23 a"] by (simp add: expF32UI_def wsimps unat_ucast_mod)
  show "unat (fracF32UI a) = unat a mod 2 ^ fracw binary32"
    using unat_and_mask [of a 23] by (simp add: fracF32UI_def mask_eq_exp_minus_1)
  {
    assume "unat a < 2 ^ Suc (fracw binary32 + expw binary32)"
    then show "signF32UI a \<longleftrightarrow> 2 ^ (fracw binary32 + expw binary32) \<le> unat a"
      by (simp add: signF32UI_def word_neq_0_iff wsimps unat_ucast_mod div_greater_zero_iff)
  }
  assume "0 \<le> e" "nat e < 2 ^ expw binary32"
    "sign_ord binary32 s + nat e * 2 ^ fracw binary32 + unat x < 2 ^ Suc (fracw binary32 + expw binary32)"
  then show "unat (packToF32UI s e x) = sign_ord binary32 s + nat e * 2 ^ fracw binary32 + unat x"
    using unat_add_no_wrap [of "push_bit 31 (of_bool s)" "push_bit 23 (word_of_int e) :: u32"]
      unat_add_no_wrap [of "ucast (push_bit 31 (of_bool s) + push_bit 23 (word_of_int e) :: u32)" x]
      unat_push_no_wrap [of "word_of_int e :: u32" 23] nat_word_of_int_id [of e 8, where 'a = 32]
      unat_sign_bit [of 31 s, where 'a = 32]
    by (simp add: packToF32UI_def sign_ord_def unat_ucast_mod)
qed simp_all

end
