(* ===== verification/SoftFloat_Primitives.thy ===== *)
theory SoftFloat_Primitives
  imports SoftFloat_State
begin

text \<open>
  The integer primitives under the floating-point operations: shifts that keep a sticky
  bit, leading-zero counts and 128-bit arithmetic on pairs of 64-bit words
  (\<open>s_shiftRightJam*.c\<close>, \<open>s_countLeadingZeros*.c\<close>, \<open>s_add128.c\<close> and their kin).
  \<open>jam_shift\<close> and \<open>leading_zeros\<close> are the interfaces the arithmetic relies on; each is
  interpreted on the code's own functions.
\<close>

section \<open>Shifts that jam\<close>

definition softfloat_shiftRightJam32 :: "u32 \<Rightarrow> u64 \<Rightarrow> u32" where
  "softfloat_shiftRightJam32 a dist =
     (if dist < 31
      then drop_bit (unat dist) a OR of_bool (push_bit (unat ((- dist) AND 31)) a \<noteq> 0)
      else of_bool (a \<noteq> 0))"

definition softfloat_shiftRightJam64 :: "u64 \<Rightarrow> u64 \<Rightarrow> u64" where
  "softfloat_shiftRightJam64 a dist =
     (if dist < 63
      then drop_bit (unat dist) a OR of_bool (push_bit (unat ((- dist) AND 63)) a \<noteq> 0)
      else of_bool (a \<noteq> 0))"

definition softfloat_shortShiftRightJam64 :: "u64 \<Rightarrow> u8 \<Rightarrow> u64" where
  "softfloat_shortShiftRightJam64 a dist =
     drop_bit (unat dist) a OR of_bool (a AND (push_bit (unat dist) 1 - 1) \<noteq> 0)"

record uint64_extra =
  ue_extra :: u64
  ue_v :: u64

definition softfloat_shiftRightJam64Extra :: "u64 \<Rightarrow> u64 \<Rightarrow> u64 \<Rightarrow> uint64_extra" where
  "softfloat_shiftRightJam64Extra a extra dist =
     (let z = (if dist < 64
               then \<lparr>ue_extra = push_bit (unat ((- dist) AND 63)) a, ue_v = drop_bit (unat dist) a\<rparr>
               else \<lparr>ue_extra = (if dist = 64 then a else of_bool (a \<noteq> 0)), ue_v = 0\<rparr>)
      in z\<lparr>ue_extra := ue_extra z OR of_bool (extra \<noteq> 0)\<rparr>)"

definition softfloat_shortShiftRightJam64Extra :: "u64 \<Rightarrow> u64 \<Rightarrow> u8 \<Rightarrow> uint64_extra" where
  "softfloat_shortShiftRightJam64Extra a extra dist =
     \<lparr>ue_extra = push_bit (unat ((- dist) AND 63)) a OR of_bool (extra \<noteq> 0),
      ue_v = drop_bit (unat dist) a\<rparr>"

section \<open>Leading zeros\<close>

definition softfloat_countLeadingZeros8 :: "u8 list" where
  "softfloat_countLeadingZeros8 =
    [8, 7, 6, 6, 5, 5, 5, 5, 4, 4, 4, 4, 4, 4, 4, 4,
     3, 3, 3, 3, 3, 3, 3, 3, 3, 3, 3, 3, 3, 3, 3, 3,
     2, 2, 2, 2, 2, 2, 2, 2, 2, 2, 2, 2, 2, 2, 2, 2,
     2, 2, 2, 2, 2, 2, 2, 2, 2, 2, 2, 2, 2, 2, 2, 2,
     1, 1, 1, 1, 1, 1, 1, 1, 1, 1, 1, 1, 1, 1, 1, 1,
     1, 1, 1, 1, 1, 1, 1, 1, 1, 1, 1, 1, 1, 1, 1, 1,
     1, 1, 1, 1, 1, 1, 1, 1, 1, 1, 1, 1, 1, 1, 1, 1,
     1, 1, 1, 1, 1, 1, 1, 1, 1, 1, 1, 1, 1, 1, 1, 1,
     0, 0, 0, 0, 0, 0, 0, 0, 0, 0, 0, 0, 0, 0, 0, 0,
     0, 0, 0, 0, 0, 0, 0, 0, 0, 0, 0, 0, 0, 0, 0, 0,
     0, 0, 0, 0, 0, 0, 0, 0, 0, 0, 0, 0, 0, 0, 0, 0,
     0, 0, 0, 0, 0, 0, 0, 0, 0, 0, 0, 0, 0, 0, 0, 0,
     0, 0, 0, 0, 0, 0, 0, 0, 0, 0, 0, 0, 0, 0, 0, 0,
     0, 0, 0, 0, 0, 0, 0, 0, 0, 0, 0, 0, 0, 0, 0, 0,
     0, 0, 0, 0, 0, 0, 0, 0, 0, 0, 0, 0, 0, 0, 0, 0,
     0, 0, 0, 0, 0, 0, 0, 0, 0, 0, 0, 0, 0, 0, 0, 0]"

definition softfloat_countLeadingZeros16 :: "u16 \<Rightarrow> u8" where
  "softfloat_countLeadingZeros16 a =
     (let (count, a) = (if 0x100 \<le> a then (0, drop_bit 8 a) else (8, a))
      in count + softfloat_countLeadingZeros8 ! unat a)"

definition softfloat_countLeadingZeros32 :: "u32 \<Rightarrow> u8" where
  "softfloat_countLeadingZeros32 a =
     (let (count, a) = (if a < 0x10000 then (16, push_bit 16 a) else (0, a));
          (count, a) = (if a < 0x1000000 then (count + 8, push_bit 8 a) else (count, a))
      in count + softfloat_countLeadingZeros8 ! unat (drop_bit 24 a))"

definition softfloat_countLeadingZeros64 :: "u64 \<Rightarrow> u8" where
  "softfloat_countLeadingZeros64 a =
     (let a32 = (ucast (drop_bit 32 a) :: u32);
          (count, a32) = (if a32 = 0 then (32, ucast a) else (0, a32));
          (count, a32) = (if a32 < 0x10000 then (count + 16, push_bit 16 a32) else (count, a32));
          (count, a32) = (if a32 < 0x1000000 then (count + 8, push_bit 8 a32) else (count, a32))
      in count + softfloat_countLeadingZeros8 ! unat (drop_bit 24 a32))"

section \<open>128-bit arithmetic\<close>

record uint128 =
  v0 :: u64
  v64 :: u64

definition softfloat_eq128 :: "u64 \<Rightarrow> u64 \<Rightarrow> u64 \<Rightarrow> u64 \<Rightarrow> bool" where
  "softfloat_eq128 a64 a0 b64 b0 = (a64 = b64 \<and> a0 = b0)"

definition softfloat_le128 :: "u64 \<Rightarrow> u64 \<Rightarrow> u64 \<Rightarrow> u64 \<Rightarrow> bool" where
  "softfloat_le128 a64 a0 b64 b0 = (a64 < b64 \<or> (a64 = b64 \<and> a0 \<le> b0))"

definition softfloat_lt128 :: "u64 \<Rightarrow> u64 \<Rightarrow> u64 \<Rightarrow> u64 \<Rightarrow> bool" where
  "softfloat_lt128 a64 a0 b64 b0 = (a64 < b64 \<or> (a64 = b64 \<and> a0 < b0))"

definition softfloat_add128 :: "u64 \<Rightarrow> u64 \<Rightarrow> u64 \<Rightarrow> u64 \<Rightarrow> uint128" where
  "softfloat_add128 a64 a0 b64 b0 =
     (let z0 = a0 + b0 in \<lparr>v0 = z0, v64 = a64 + b64 + of_bool (z0 < a0)\<rparr>)"

definition softfloat_sub128 :: "u64 \<Rightarrow> u64 \<Rightarrow> u64 \<Rightarrow> u64 \<Rightarrow> uint128" where
  "softfloat_sub128 a64 a0 b64 b0 =
     \<lparr>v0 = a0 - b0, v64 = a64 - b64 - of_bool (a0 < b0)\<rparr>"

definition softfloat_shortShiftLeft128 :: "u64 \<Rightarrow> u64 \<Rightarrow> u8 \<Rightarrow> uint128" where
  "softfloat_shortShiftLeft128 a64 a0 dist =
     \<lparr>v0 = push_bit (unat dist) a0,
      v64 = push_bit (unat dist) a64 OR drop_bit (unat ((- dist) AND 63)) a0\<rparr>"

definition softfloat_shortShiftRight128 :: "u64 \<Rightarrow> u64 \<Rightarrow> u8 \<Rightarrow> uint128" where
  "softfloat_shortShiftRight128 a64 a0 dist =
     \<lparr>v0 = push_bit (unat ((- dist) AND 63)) a64 OR drop_bit (unat dist) a0,
      v64 = drop_bit (unat dist) a64\<rparr>"

definition softfloat_mul64To128 :: "u64 \<Rightarrow> u64 \<Rightarrow> uint128" where
  "softfloat_mul64To128 a b =
     (let a32 = (ucast (drop_bit 32 a) :: u32); a0 = (ucast a :: u32);
          b32 = (ucast (drop_bit 32 b) :: u32); b0 = (ucast b :: u32);
          z0 = ucast a0 * ucast b0;
          mid1 = ucast a32 * ucast b0;
          mid = mid1 + ucast a0 * ucast b32;
          z64 = ucast a32 * ucast b32;
          z64 = z64 + (push_bit 32 (of_bool (mid < mid1)) OR drop_bit 32 mid);
          mid = push_bit 32 mid;
          z0 = z0 + mid;
          z64 = z64 + of_bool (z0 < mid)
      in \<lparr>v0 = z0, v64 = z64\<rparr>)"

definition softfloat_mul64ByShifted32To128 :: "u64 \<Rightarrow> u32 \<Rightarrow> uint128" where
  "softfloat_mul64ByShifted32To128 a b =
     (let mid = ucast (ucast a :: u32) * ucast b
      in \<lparr>v0 = push_bit 32 mid,
          v64 = ucast (ucast (drop_bit 32 a) :: u32) * ucast b + drop_bit 32 mid\<rparr>)"

text \<open>The number a pair stands for.\<close>

definition nat128 :: "uint128 \<Rightarrow> nat" where
  "nat128 z = unat (v64 z) * 2 ^ 64 + unat (v0 z)"

definition softfloat_shortShiftRightJam128 :: "u64 \<Rightarrow> u64 \<Rightarrow> u8 \<Rightarrow> uint128" where
  "softfloat_shortShiftRightJam128 a64 a0 dist =
     (let negDist = - dist
      in \<lparr>v0 = push_bit (unat (negDist AND 63)) a64 OR drop_bit (unat dist) a0
                 OR of_bool (push_bit (unat (negDist AND 63)) a0 \<noteq> 0),
          v64 = drop_bit (unat dist) a64\<rparr>)"

definition softfloat_shiftRightJam128 :: "u64 \<Rightarrow> u64 \<Rightarrow> u64 \<Rightarrow> uint128" where
  "softfloat_shiftRightJam128 a64 a0 dist =
     (if dist < 64
      then let u8NegDist = (ucast (- dist) :: u8)
           in \<lparr>v0 = push_bit (unat (u8NegDist AND 63)) a64 OR drop_bit (unat dist) a0
                      OR of_bool (push_bit (unat (u8NegDist AND 63)) a0 \<noteq> 0),
               v64 = drop_bit (unat dist) a64\<rparr>
      else \<lparr>v0 = (if dist < 127
                   then drop_bit (unat (dist AND 63)) a64
                        OR of_bool ((a64 AND (push_bit (unat (dist AND 63)) 1 - 1)) OR a0 \<noteq> 0)
                   else of_bool (a64 OR a0 \<noteq> 0)),
            v64 = 0\<rparr>)"

section \<open>Division and square-root estimates\<close>

text \<open>The tables of \<open>s_approxRecip_1Ks.c\<close>, read by the binary16 division.\<close>

definition softfloat_approxRecip_1k0s :: "u16 list" where
  "softfloat_approxRecip_1k0s =
    [0xFFC4, 0xF0BE, 0xE363, 0xD76F, 0xCCAD, 0xC2F0, 0xBA16, 0xB201,
     0xAA97, 0xA3C6, 0x9D7A, 0x97A6, 0x923C, 0x8D32, 0x887E, 0x8417]"

definition softfloat_approxRecip_1k1s :: "u16 list" where
  "softfloat_approxRecip_1k1s =
    [0xF0F1, 0xD62C, 0xBFA1, 0xAC77, 0x9C0A, 0x8DDB, 0x8185, 0x76BA,
     0x6D3B, 0x64D4, 0x5D5C, 0x56B1, 0x50B6, 0x4B55, 0x4679, 0x4211]"

text \<open>The platform defines \<open>SOFTFLOAT_FAST_DIV64TO32\<close>: the reciprocal is one division.\<close>

definition softfloat_approxRecip32_1 :: "u32 \<Rightarrow> u32" where
  "softfloat_approxRecip32_1 a = ucast (0x7FFFFFFFFFFFFFFF div (ucast a :: u64))"

definition softfloat_approxRecipSqrt_1k0s :: "u16 list" where
  "softfloat_approxRecipSqrt_1k0s =
    [0xB4C9, 0xFFAB, 0xAA7D, 0xF11C, 0xA1C5, 0xE4C7, 0x9A43, 0xDA29,
     0x93B5, 0xD0E5, 0x8DED, 0xC8B7, 0x88C6, 0xC16D, 0x8424, 0xBAE1]"

definition softfloat_approxRecipSqrt_1k1s :: "u16 list" where
  "softfloat_approxRecipSqrt_1k1s =
    [0xA5A5, 0xEA42, 0x8C21, 0xC62D, 0x788F, 0xAA7F, 0x6928, 0x94B6,
     0x5CC7, 0x8335, 0x52A6, 0x74E2, 0x4A3E, 0x68FE, 0x432B, 0x5EFD]"

definition softfloat_approxRecipSqrt32_1 :: "u32 \<Rightarrow> u32 \<Rightarrow> u32" where
  "softfloat_approxRecipSqrt32_1 oddExpA a =
     (let index = unat ((drop_bit 27 a AND 0xE) + oddExpA);
          eps = (ucast (drop_bit 12 a) :: u16);
          r0 = (ucast ((ucast (softfloat_approxRecipSqrt_1k0s ! index) :: u64)
                  - drop_bit 20 (ucast (softfloat_approxRecipSqrt_1k1s ! index) * ucast eps)) :: u16);
          ESqrR0 = (ucast r0 * ucast r0 :: u64);
          ESqrR0 = (if oddExpA = 0 then push_bit 1 ESqrR0 else ESqrR0);
          sigma0 = (ucast (NOT (drop_bit 23 (ucast (ucast ESqrR0 :: u32) * ucast a) :: u64)) :: u32);
          r = push_bit 16 (ucast r0) + drop_bit 25 (ucast r0 * ucast sigma0) :: u64;
          sqrSigma0 = (ucast (drop_bit 32 (ucast sigma0 * ucast sigma0 :: u64)) :: u32);
          r = r + drop_bit 48
                (ucast (ucast (drop_bit 1 r + drop_bit 3 r - push_bit 14 (ucast r0)) :: u32)
                 * ucast sqrSigma0);
          r = (if r AND 0x80000000 = 0 then 0x80000000 else r)
      in ucast r)"

section \<open>The jamming shifts compute \<open>jam\<close>\<close>

lemma unat_neg_and_mask:
  fixes d :: "'a::len word"
  assumes "k \<le> LENGTH('a)" "0 < unat d" "unat d < 2 ^ k"
  shows "unat ((- d) AND mask k) = 2 ^ k - unat d"
proof -
  have k: "(2::nat) ^ LENGTH('a) = 2 ^ k * 2 ^ (LENGTH('a) - k)"
    using assms(1) by (simp add: power_add [symmetric])
  have "unat (- d + d) = (unat (- d) + unat d) mod 2 ^ LENGTH('a)"
    by (simp only: unat_word_ariths)
  then have "(unat (- d) + unat d) mod 2 ^ LENGTH('a) = 0"
    by (simp only: left_minus unsigned_0)
  then have "2 ^ LENGTH('a) dvd unat (- d) + unat d"
    by (rule mod_0_imp_dvd)
  moreover have "unat (- d) + unat d < 2 * 2 ^ LENGTH('a)"
    using add_strict_mono [OF unsigned_less [of "- d", where 'a = nat] unsigned_less [of d, where 'a = nat]]
    by simp
  ultimately have "unat (- d) + unat d = 2 ^ LENGTH('a)"
    using assms(2) by (auto simp: dvd_def less_2_cases_iff)
  then have "unat (- d) = 2 ^ LENGTH('a) - unat d" by simp
  also have "\<dots> = (2 ^ k - unat d) + 2 ^ k * (2 ^ (LENGTH('a) - k) - 1)"
    using assms by (simp add: k diff_mult_distrib2)
  finally have "unat (- d) mod 2 ^ k = (2 ^ k - unat d) mod 2 ^ k"
    by (simp only: mod_mult_self2)
  with assms show ?thesis by (simp add: unat_and_mask)
qed

lemma push_bit_eq_0_iff_mod:
  fixes a :: "'a::len word"
  assumes "d \<le> LENGTH('a)"
  shows "push_bit (LENGTH('a) - d) a = 0 \<longleftrightarrow> unat a mod 2 ^ d = 0"
proof -
  have p: "(2::nat) ^ LENGTH('a) = 2 ^ d * 2 ^ (LENGTH('a) - d)"
    using assms by (simp add: power_add [symmetric])
  have "unat (push_bit (LENGTH('a) - d) a) = (unat a mod 2 ^ d) * 2 ^ (LENGTH('a) - d)"
    by (simp only: unat_push p mult_mod_left)
  then show ?thesis by (simp only: word_eq_0_iff) simp
qed

lemma shiftRightJam_jam:
  fixes a :: "'a::len word" and dist :: u64
  assumes "LENGTH('a) = 2 ^ k" "k \<le> 6" "0 < unat dist"
  shows "unat (if unat dist < LENGTH('a) - 1
      then drop_bit (unat dist) a OR of_bool (push_bit (unat ((- dist) AND mask k)) a \<noteq> 0)
      else of_bool (a \<noteq> 0)) = jam (unat a) (unat dist)"
proof (cases "unat dist < LENGTH('a) - 1")
  case True
  have "k \<le> LENGTH(64)" using assms by simp
  then have "unat ((- dist) AND mask k) = LENGTH('a) - unat dist"
    using unat_neg_and_mask [of k dist] assms True by simp
  then have "push_bit (unat ((- dist) AND mask k)) a = 0 \<longleftrightarrow> unat a mod 2 ^ unat dist = 0"
    using push_bit_eq_0_iff_mod [of "unat dist", where 'a = 'a] True by simp
  with True show ?thesis
    by (simp add: unat_or unat_drop unat_of_bool jam_def)
next
  case False
  then have l: "LENGTH('a) \<le> Suc (unat dist)" by simp
  have "unat a < 2 ^ LENGTH('a)" by simp
  also have "\<dots> \<le> 2 ^ Suc (unat dist)" using l by (rule power_increasing) simp
  finally have "unat a < 2 ^ Suc (unat dist)" .
  then have "jam (unat a) (unat dist) = of_bool (unat a \<noteq> 0)"
    by (simp add: jam_alt del: power_Suc)
  with False show ?thesis by (simp add: unat_of_bool word_eq_0_iff)
qed

locale jam_shift =
  fixes shr :: "'a::len word \<Rightarrow> u64 \<Rightarrow> 'a word"
  assumes shr_jam: "0 < unat dist \<Longrightarrow> unat (shr a dist) = jam (unat a) (unat dist)"
begin

lemma shr_less: "0 < unat dist \<Longrightarrow> unat a < h * 2 ^ Suc (unat dist) \<Longrightarrow> unat (shr a dist) < 2 * h"
  by (simp add: shr_jam jam_less_iff del: power_Suc)

lemma shr_le: "0 < unat dist \<Longrightarrow> unat a \<le> 2 * h \<Longrightarrow> unat (shr a dist) \<le> 2 * h"
proof -
  assume "0 < unat dist" "unat a \<le> 2 * h"
  moreover have "h * 2 \<le> h * 2 ^ Suc (unat dist)" by simp
  ultimately have "unat a \<le> h * 2 ^ Suc (unat dist)" by linarith
  then have "\<not> 2 * h < jam (unat a) (unat dist)"
    by (simp only: jam_gt_iff not_less)
  with \<open>0 < unat dist\<close> show ?thesis by (simp add: shr_jam)
qed

lemma shr_0_iff: "0 < unat dist \<Longrightarrow> shr a dist = 0 \<longleftrightarrow> a = 0"
  by (simp add: word_eq_0_iff shr_jam)

end

interpretation jam32: jam_shift softfloat_shiftRightJam32
proof
  fix a :: u32 and dist :: u64
  assume d: "0 < unat dist"
  have m: "(mask 5 :: u64) = 31" by (simp add: mask_eq_exp_minus_1)
  have "unat (if unat dist < 31
      then drop_bit (unat dist) a OR of_bool (push_bit (unat ((- dist) AND 31)) a \<noteq> 0)
      else of_bool (a \<noteq> 0)) = jam (unat a) (unat dist)"
    using shiftRightJam_jam [of 5 dist a] d by (simp only: m) simp
  then show "unat (softfloat_shiftRightJam32 a dist) = jam (unat a) (unat dist)"
    by (simp only: softfloat_shiftRightJam32_def word_less_nat_alt) simp
qed

interpretation jam64: jam_shift softfloat_shiftRightJam64
proof
  fix a :: u64 and dist :: u64
  assume d: "0 < unat dist"
  have m: "(mask 6 :: u64) = 63" by (simp add: mask_eq_exp_minus_1)
  have "unat (if unat dist < 63
      then drop_bit (unat dist) a OR of_bool (push_bit (unat ((- dist) AND 63)) a \<noteq> 0)
      else of_bool (a \<noteq> 0)) = jam (unat a) (unat dist)"
    using shiftRightJam_jam [of 6 dist a] d by (simp only: m) simp
  then show "unat (softfloat_shiftRightJam64 a dist) = jam (unat a) (unat dist)"
    by (simp only: softfloat_shiftRightJam64_def word_less_nat_alt) simp
qed

lemma shortShiftRightJam64_jam:
  assumes "unat dist < 64"
  shows "unat (softfloat_shortShiftRightJam64 a dist) = jam (unat a) (unat dist)"
proof -
  have "a AND (push_bit (unat dist) 1 - 1) = a AND mask (unat dist)"
    by (simp add: mask_eq_exp_minus_1 push_bit_eq_mult)
  then show ?thesis
    by (simp only: softfloat_shortShiftRightJam64_def unat_or unat_drop unat_of_bool jam_def
        word_neq_0_iff unat_and_mask) simp
qed

section \<open>Leading-zero counts\<close>

lemma clz8_blocks: "softfloat_countLeadingZeros8 =
    8 # 7 # replicate 2 6 @ replicate 4 5 @ replicate 8 4 @ replicate 16 3 @ replicate 32 2
      @ replicate 64 1 @ replicate 128 0"
  by (simp add: softfloat_countLeadingZeros8_def numeral_eq_Suc)

lemma clz8_nbits:
  assumes "n < 256"
  shows "unat (softfloat_countLeadingZeros8 ! n) = 8 - nbits n"
proof -
  consider "n = 0" | "n = 1" | "2 \<le> n" "n < 4" | "4 \<le> n" "n < 8" | "8 \<le> n" "n < 16"
    | "16 \<le> n" "n < 32" | "32 \<le> n" "n < 64" | "64 \<le> n" "n < 128" | "128 \<le> n"
    by linarith
  then show ?thesis
    using assms nbits_eqI [of 0 n] nbits_eqI [of 1 n] nbits_eqI [of 2 n] nbits_eqI [of 3 n]
      nbits_eqI [of 4 n] nbits_eqI [of 5 n] nbits_eqI [of 6 n] nbits_eqI [of 7 n]
    by cases (simp_all add: clz8_blocks nth_Cons' nth_append less_diff_conv2)
qed

locale leading_zeros =
  fixes clz :: "'a::len word \<Rightarrow> u8"
  assumes clz_law: "unat (clz a) = LENGTH('a) - nbits (unat a)"
begin

lemma nbits_le: "nbits (unat (a :: 'a word)) \<le> LENGTH('a)"
  by (simp add: nbits_le_iff)

text \<open>Shifting by the count brings the leading bit to the top of the word.\<close>

lemma clz_normalises:
  assumes "a \<noteq> 0"
  shows "2 ^ (LENGTH('a) - 1) \<le> unat a * 2 ^ unat (clz a)"
    and "unat a * 2 ^ unat (clz a) < 2 ^ LENGTH('a)"
proof -
  have "nbits (unat a * 2 ^ unat (clz a)) = LENGTH('a)"
    using assms nbits_le [of a] by (simp add: nbits_mult_pow clz_law word_neq_0_iff)
  then show "2 ^ (LENGTH('a) - 1) \<le> unat a * 2 ^ unat (clz a)"
    and "unat a * 2 ^ unat (clz a) < 2 ^ LENGTH('a)"
    by (simp_all add: less_nbits_iff [symmetric] nbits_le_iff [symmetric])
qed

lemma clz_less: "a \<noteq> 0 \<Longrightarrow> unat (clz a) < LENGTH('a)"
  by (simp add: clz_law nbits_pos word_neq_0_iff)

end

interpretation clz16: leading_zeros softfloat_countLeadingZeros16
proof
  fix a :: u16
  have s: "nbits (unat a div 2 ^ 8) = nbits (unat a) - 8" by (rule nbits_div_pow)
  show "unat (softfloat_countLeadingZeros16 a) = LENGTH(16) - nbits (unat a)"
  proof (cases "0x100 \<le> a")
    case True
    then have "2 ^ 8 \<le> unat a" by (simp add: word_le_nat_alt)
    moreover have "unat a div 2 ^ 8 < 256" using unat_lt_16 [of a] by simp
    ultimately show ?thesis
      using True s less_nbits_iff [of 8 "unat a"] clz8_nbits [of "unat a div 2 ^ 8"]
      by (simp add: softfloat_countLeadingZeros16_def wsimps)
  next
    case False
    then have "unat a < 256" by (simp add: word_le_nat_alt)
    then show ?thesis
      using False nbits_le_iff [of "unat a" 8]
        unat_add_no_wrap [of 8 "softfloat_countLeadingZeros8 ! unat a"]
      by (simp add: softfloat_countLeadingZeros16_def clz8_nbits)
  qed
qed

lemma clz_last:
  fixes b :: u32 and d :: u8
  assumes "2 ^ 24 \<le> unat b" "unat d \<le> 100"
  shows "unat (d + softfloat_countLeadingZeros8 ! unat (drop_bit 24 b)) = unat d + (32 - nbits (unat b))"
proof -
  have "unat b div 2 ^ 24 < 256" using unat_lt_32 [of b] by simp
  then have t: "unat (softfloat_countLeadingZeros8 ! (unat b div 2 ^ 24)) = 8 - (nbits (unat b) - 24)"
    using nbits_div_pow [of "unat b" 24] by (simp only: clz8_nbits)
  moreover have "24 < nbits (unat b)" using assms by (simp add: less_nbits_iff)
  ultimately show ?thesis
    using assms(2) unat_add_no_wrap [of d "softfloat_countLeadingZeros8 ! (unat b div 2 ^ 24)"]
    by (simp add: unat_drop)
qed

lemma clz_shift8:
  fixes b :: u32 and d :: u8
  assumes "2 ^ 16 \<le> unat b" "unat d \<le> 92"
  shows "unat (let (count, a) = (if b < 0x1000000 then (d + 8, push_bit 8 b) else (d, b))
      in count + softfloat_countLeadingZeros8 ! unat (drop_bit 24 a)) = unat d + (32 - nbits (unat b))"
proof (cases "b < 0x1000000")
  case True
  then have l: "unat b < 2 ^ 24" by (simp add: word_less_nat_alt)
  then have p: "unat (push_bit 8 b) = unat b * 2 ^ 8"
    by (intro unat_push_no_wrap) simp
  have "0 < unat b" using assms(1) by simp
  then have "nbits (unat b * 2 ^ 8) = nbits (unat b) + 8" "nbits (unat b) \<le> 24"
    using l by (simp_all only: nbits_mult_pow nbits_le_iff)
  moreover have "unat (d + 8) = unat d + 8"
    using assms(2) by (simp add: unat_add_no_wrap)
  moreover have "unat (d + 8 + softfloat_countLeadingZeros8 ! unat (drop_bit 24 (push_bit 8 b)))
      = unat (d + 8) + (32 - nbits (unat (push_bit 8 b)))"
    using assms calculation(3) by (intro clz_last) (simp_all only: p, simp_all)
  ultimately show ?thesis using True by (simp only: if_True Let_def prod.case p)
next
  case False
  then have "2 ^ 24 \<le> unat b" by (simp add: word_less_nat_alt)
  then show ?thesis using False assms(2) by (simp only: if_False Let_def prod.case clz_last)
qed

text \<open>The common tail of the 32-bit and 64-bit counts, from a partial count.\<close>

definition clz_from :: "u8 \<Rightarrow> u32 \<Rightarrow> u8" where
  "clz_from d b =
     (let (count, a) = (if b < 0x10000 then (d + 16, push_bit 16 b) else (d, b));
          (count, a) = (if a < 0x1000000 then (count + 8, push_bit 8 a) else (count, a))
      in count + softfloat_countLeadingZeros8 ! unat (drop_bit 24 a))"

lemma countLeadingZeros32_from: "softfloat_countLeadingZeros32 a = clz_from 0 a"
  by (simp only: softfloat_countLeadingZeros32_def clz_from_def add_0_left)

lemma countLeadingZeros64_from:
  "softfloat_countLeadingZeros64 a =
     (if (ucast (drop_bit 32 a) :: u32) = 0 then clz_from 32 (ucast a)
      else clz_from 0 (ucast (drop_bit 32 a)))"
  by (simp only: softfloat_countLeadingZeros64_def clz_from_def Let_def split: if_split) simp

lemma clz_shift16:
  fixes b :: u32 and d :: u8
  assumes "b \<noteq> 0" "unat d \<le> 70"
  shows "unat (clz_from d b) = unat d + (32 - nbits (unat b))"
proof (cases "b < 0x10000")
  case True
  then have l: "unat b < 2 ^ 16" by (simp add: word_less_nat_alt)
  then have p: "unat (push_bit 16 b) = unat b * 2 ^ 16"
    by (intro unat_push_no_wrap) simp
  have pos: "0 < unat b" using assms(1) by (simp add: word_neq_0_iff)
  then have "nbits (unat b * 2 ^ 16) = nbits (unat b) + 16" "nbits (unat b) \<le> 16"
    using l by (simp_all only: nbits_mult_pow nbits_le_iff)
  moreover have d: "unat (d + 16) = unat d + 16"
    using assms(2) by (simp add: unat_add_no_wrap)
  ultimately show ?thesis
    using True clz_shift8 [of "push_bit 16 b" "d + 16"] pos assms(2)
    by (simp only: clz_from_def if_True Let_def prod.case p d) simp
next
  case False
  then have "2 ^ 16 \<le> unat b" by (simp add: word_less_nat_alt)
  then show ?thesis using False assms(2) clz_shift8 [of b d] by (simp only: clz_from_def if_False Let_def prod.case)
qed

interpretation clz32: leading_zeros softfloat_countLeadingZeros32
proof
  fix a :: u32
  show "unat (softfloat_countLeadingZeros32 a) = LENGTH(32) - nbits (unat a)"
  proof (cases "a = 0")
    case True
    then show ?thesis by (simp add: softfloat_countLeadingZeros32_def softfloat_countLeadingZeros8_def)
  next
    case False
    then show ?thesis
      using clz_shift16 [of a 0] by (simp add: countLeadingZeros32_from)
  qed
qed

interpretation clz64: leading_zeros softfloat_countLeadingZeros64
proof
  fix a :: u64
  define hi where "hi = (ucast (drop_bit 32 a) :: u32)"
  have hi: "unat hi = unat a div 2 ^ 32"
    using unat_lt_64 [of a] by (simp add: hi_def unat_ucast_mod unat_drop)
  show "unat (softfloat_countLeadingZeros64 a) = LENGTH(64) - nbits (unat a)"
  proof (cases "a = 0")
    case True
    then show ?thesis by (simp add: softfloat_countLeadingZeros64_def softfloat_countLeadingZeros8_def)
  next
    case nz: False
    show ?thesis
    proof (cases "hi = 0")
      case True
      then have "unat a < 2 ^ 32" using hi by (simp add: div_eq_0_iff)
      then have lo: "unat (ucast a :: u32) = unat a" and "nbits (unat a) \<le> 32"
        by (simp_all add: unat_ucast_mod nbits_le_iff)
      moreover have "(ucast a :: u32) \<noteq> 0" using lo nz by (simp only: word_neq_0_iff)
      ultimately show ?thesis
        using True clz_shift16 [of "ucast a" 32]
        by (simp add: countLeadingZeros64_from hi_def [symmetric])
    next
      case False
      then have "0 < unat hi" by (simp add: word_neq_0_iff)
      then have "nbits (unat hi) = nbits (unat a) - 32" "32 < nbits (unat a)"
        by (simp_all only: hi nbits_div_pow less_nbits_iff div_greater_zero_iff)
      then show ?thesis
        using False clz_shift16 [of hi 0]
        by (simp add: countLeadingZeros64_from hi_def [symmetric])
    qed
  qed
qed
section \<open>Pairs of words as 128-bit numbers\<close>

lemma nat128_less: "nat128 z < 2 ^ 128"
  using unat_lt_64 [of "v64 z"] unat_lt_64 [of "v0 z"] by (simp add: nat128_def)

lemma le128_nat: "softfloat_le128 a64 a0 b64 b0 \<longleftrightarrow>
    nat128 \<lparr>v0 = a0, v64 = a64\<rparr> \<le> nat128 \<lparr>v0 = b0, v64 = b64\<rparr>"
  using unat_lt_64 [of a0] unat_lt_64 [of b0]
  by (auto simp: softfloat_le128_def nat128_def word_less_nat_alt word_le_nat_alt word_eq_iff_unat)

lemma lt128_nat: "softfloat_lt128 a64 a0 b64 b0 \<longleftrightarrow>
    nat128 \<lparr>v0 = a0, v64 = a64\<rparr> < nat128 \<lparr>v0 = b0, v64 = b64\<rparr>"
  using unat_lt_64 [of a0] unat_lt_64 [of b0]
  by (auto simp: softfloat_lt128_def nat128_def word_less_nat_alt word_le_nat_alt word_eq_iff_unat)

lemma eq128_nat: "softfloat_eq128 a64 a0 b64 b0 \<longleftrightarrow>
    nat128 \<lparr>v0 = a0, v64 = a64\<rparr> = nat128 \<lparr>v0 = b0, v64 = b64\<rparr>"
  using le128_nat [of a64 a0 b64 b0] le128_nat [of b64 b0 a64 a0]
  by (auto simp: softfloat_eq128_def softfloat_le128_def)

lemma mod_high_low: "x < m \<Longrightarrow> (h * m + x) mod (m * k) = (h mod k) * m + (x :: nat)"
  by (subst mod_mult2_eq) (simp add: mult.commute)

text \<open>Addition and subtraction are those of the 128-bit numbers, modulo \<open>2 ^ 128\<close>.\<close>

lemma carry_unat:
  "unat (a0 + b0 :: u64) + of_bool (a0 + b0 < a0) * 2 ^ 64 = unat a0 + unat b0"
  using unat_lt_64 [of a0] unat_lt_64 [of b0]
  by (cases "unat a0 + unat b0 < 2 ^ 64") (simp_all add: word_less_nat_alt unat_word_ariths le_mod_geq)

lemma borrow_unat:
  "unat (a0 - b0 :: u64) + unat b0 = unat a0 + of_bool (a0 < b0) * 2 ^ 64"
  using unat_lt_64 [of a0] unat_lt_64 [of b0]
  by (auto simp: word_less_nat_alt unat_sub_if_size word_size)

lemma add128_nat:
  "nat128 (softfloat_add128 a64 a0 b64 b0) =
     (nat128 \<lparr>v0 = a0, v64 = a64\<rparr> + nat128 \<lparr>v0 = b0, v64 = b64\<rparr>) mod 2 ^ 128"
proof -
  define c where "c = (of_bool (a0 + b0 < a0) :: nat)"
  have lo: "unat a0 + unat b0 = unat (a0 + b0) + c * 2 ^ 64"
    using carry_unat [of a0 b0] by (simp add: c_def)
  have hi: "unat (a64 + b64 + of_bool (a0 + b0 < a0)) = (unat a64 + unat b64 + c) mod 2 ^ 64"
    by (simp add: unat_word_ariths c_def mod_simps)
  have "nat128 \<lparr>v0 = a0, v64 = a64\<rparr> + nat128 \<lparr>v0 = b0, v64 = b64\<rparr>
      = (unat a64 + unat b64 + c) * 2 ^ 64 + unat (a0 + b0)"
    using lo by (simp add: nat128_def algebra_simps)
  also have "\<dots> mod 2 ^ 128 = (unat a64 + unat b64 + c) mod 2 ^ 64 * 2 ^ 64 + unat (a0 + b0)"
    using mod_high_low [of "unat (a0 + b0)" "2 ^ 64" "unat a64 + unat b64 + c" "2 ^ 64"] unat_lt_64 [of "a0 + b0"]
    by (simp only: power_add [symmetric]) simp
  finally show ?thesis
    by (simp add: softfloat_add128_def nat128_def Let_def hi del: unsigned_0)
qed

lemma sub128_nat:
  assumes "nat128 \<lparr>v0 = b0, v64 = b64\<rparr> \<le> nat128 \<lparr>v0 = a0, v64 = a64\<rparr>"
  shows "nat128 (softfloat_sub128 a64 a0 b64 b0) =
     nat128 \<lparr>v0 = a0, v64 = a64\<rparr> - nat128 \<lparr>v0 = b0, v64 = b64\<rparr>"
proof -
  define c where "c = (of_bool (a0 < b0) :: nat)"
  have lo: "unat (a0 - b0) + unat b0 = unat a0 + c * 2 ^ 64"
    using borrow_unat [of a0 b0] by (simp add: c_def)
  have "unat b64 * 2 ^ 64 + unat b0 \<le> unat a64 * 2 ^ 64 + unat a0"
    using assms by (simp add: nat128_def)
  then have le: "unat b64 + c \<le> unat a64"
    using unat_lt_64 [of a0] unat_lt_64 [of b0]
    by (auto simp: c_def word_less_nat_alt) 
  then have "unat (a64 - b64) = unat a64 - unat b64" by (simp add: unat_sub_no_wrap)
  then have hi: "unat (a64 - b64 - of_bool (a0 < b0)) = unat a64 - unat b64 - c"
    using le by (subst unat_sub_no_wrap) (simp_all add: c_def unat_of_bool)
  then show ?thesis
    using lo le by (simp add: softfloat_sub128_def nat128_def algebra_simps diff_mult_distrib)
qed

text \<open>The 64 by 64 bit product, assembled from four 32-bit products, is exact.\<close>

lemma unat_mult_u32: "unat (ucast (x :: u32) * ucast (y :: u32) :: u64) = unat x * unat y"
proof -
  have "unat x * unat y < 2 ^ 32 * 2 ^ 32"
    using unat_lt_32 [of x] unat_lt_32 [of y] by (intro mult_strict_mono) simp_all
  then show ?thesis
    by (subst unat_mult_no_wrap) (simp_all add: wsimps)
qed

lemma mul64To128_nat: "nat128 (softfloat_mul64To128 a b) = unat a * unat b"
proof -
  define ah where "ah = (ucast (drop_bit 32 a) :: u32)"
  define al where "al = (ucast a :: u32)"
  define bh where "bh = (ucast (drop_bit 32 b) :: u32)"
  define bl where "bl = (ucast b :: u32)"
  have a: "unat a = unat ah * 2 ^ 32 + unat al" and b: "unat b = unat bh * 2 ^ 32 + unat bl"
    using unat_lt_64 [of a] unat_lt_64 [of b]
    by (simp_all add: ah_def al_def bh_def bl_def unat_ucast_mod unat_drop)
  define mid1 :: u64 where "mid1 = ucast ah * ucast bl"
  define mid :: u64 where "mid = mid1 + ucast al * ucast bh"
  define lo :: u64 where "lo = ucast al * ucast bl"
  define hi :: u64 where "hi = ucast ah * ucast bh"
  define c where "c = (of_bool (mid < mid1) :: nat)"
  have m: "unat mid + c * 2 ^ 64 = unat ah * unat bl + unat al * unat bh"
    using carry_unat [of mid1 "ucast al * ucast bh"]
    by (simp add: mid_def c_def mid1_def unat_mult_u32)
  define up :: u64 where "up = push_bit 32 (of_bool (mid < mid1)) OR drop_bit 32 mid"
  have up: "unat up = c * 2 ^ 32 + unat mid div 2 ^ 32"
  proof -
    have "unat mid div 2 ^ 32 < 2 ^ 32" using unat_lt_64 [of mid] by simp
    then have "c * 2 ^ 32 OR unat mid div 2 ^ 32 = c * 2 ^ 32 + unat mid div 2 ^ 32"
      by (rule or_eq_add_nat)
    moreover have "unat (push_bit 32 (of_bool (mid < mid1)) :: u64) = c * 2 ^ 32"
      by (subst unat_sign_bit) (simp_all add: c_def)
    ultimately show ?thesis by (simp only: up_def unat_or unat_drop)
  qed
  define midl where "midl = push_bit 32 mid"
  have midl: "unat midl = unat mid mod 2 ^ 32 * 2 ^ 32"
    using mult_mod_left [of "unat mid" "2 ^ 32" "2 ^ 32"] by (simp add: midl_def unat_push)
  define c2 where "c2 = (of_bool (lo + midl < midl) :: nat)"
  have l: "unat (lo + midl) + c2 * 2 ^ 64 = unat lo + unat midl"
    using carry_unat [of midl lo] by (simp add: c2_def add.commute)
  have total: "unat a * unat b
      = (unat hi + unat up + c2) * 2 ^ 64 + unat (lo + midl)"
  proof -
    have "unat a * unat b = unat ah * unat bh * 2 ^ 64
        + (unat ah * unat bl + unat al * unat bh) * 2 ^ 32 + unat al * unat bl"
      by (simp add: a b algebra_simps)
    also have "\<dots> = unat hi * 2 ^ 64 + (unat mid + c * 2 ^ 64) * 2 ^ 32 + unat lo"
      by (simp only: m hi_def lo_def unat_mult_u32)
    also have "(unat mid + c * 2 ^ 64) * 2 ^ 32 = unat up * 2 ^ 64 + unat midl"
    proof -
      define q where "q = unat mid div 2 ^ 32"
      define r where "r = unat mid mod 2 ^ 32"
      have "unat mid = q * 2 ^ 32 + r" by (simp add: q_def r_def)
      moreover have "unat up = c * 2 ^ 32 + q" and "unat midl = r * 2 ^ 32"
        by (simp_all only: up midl q_def r_def)
      ultimately show ?thesis by (simp add: algebra_simps)
    qed
    finally show ?thesis using l by (simp add: algebra_simps)
  qed
  have "unat a * unat b < 2 ^ 64 * 2 ^ 64"
    using unat_lt_64 [of a] unat_lt_64 [of b] by (intro mult_strict_mono) simp_all
  then have "unat hi + unat up + c2 < 2 ^ 64"
    using total by simp
  then have "unat (hi + up + of_bool (lo + midl < midl)) = unat hi + unat up + c2"
    by (subst unat_add3) (simp_all add: unat_of_bool c2_def)
  then have "nat128 \<lparr>v0 = lo + midl, v64 = hi + up + of_bool (lo + midl < midl)\<rparr> = unat a * unat b"
    by (simp only: nat128_def uint128.select_convs total)
  then show ?thesis
    unfolding softfloat_mul64To128_def Let_def
    by (simp only: midl_def up_def hi_def lo_def mid_def mid1_def ah_def al_def bh_def bl_def)
qed


section \<open>Properties\<close>

lemma shiftRightJam_correct:
  "0 < unat dist \<Longrightarrow> unat (softfloat_shiftRightJam32 a dist) = jam (unat a) (unat dist)
    \<and> unat (softfloat_shiftRightJam64 b dist) = jam (unat b) (unat dist)"
  by (simp only: jam32.shr_jam jam64.shr_jam simp_thms)

lemma shiftRightJam_correct_witness:
  "0 < unat (3 :: u64) \<and> unat (softfloat_shiftRightJam32 21 3) = 3 \<and> unat (softfloat_shiftRightJam64 21 3) = 3"
  using shiftRightJam_correct [of 3 21 21] by (simp add: jam_def)

lemma countLeadingZeros_correct:
  "unat (softfloat_countLeadingZeros16 a) = 16 - nbits (unat a)
    \<and> unat (softfloat_countLeadingZeros32 b) = 32 - nbits (unat b)
    \<and> unat (softfloat_countLeadingZeros64 c) = 64 - nbits (unat c)"
  using clz16.clz_law [of a] clz32.clz_law [of b] clz64.clz_law [of c] by simp

lemma arith128_correct:
  "nat128 (softfloat_mul64To128 a b) = unat a * unat b
    \<and> nat128 (softfloat_add128 a64 a0 b64 b0) =
      (nat128 \<lparr>v0 = a0, v64 = a64\<rparr> + nat128 \<lparr>v0 = b0, v64 = b64\<rparr>) mod 2 ^ 128
    \<and> softfloat_le128 a64 a0 b64 b0 = (nat128 \<lparr>v0 = a0, v64 = a64\<rparr> \<le> nat128 \<lparr>v0 = b0, v64 = b64\<rparr>)
    \<and> softfloat_lt128 a64 a0 b64 b0 = (nat128 \<lparr>v0 = a0, v64 = a64\<rparr> < nat128 \<lparr>v0 = b0, v64 = b64\<rparr>)"
  by (simp only: mul64To128_nat add128_nat le128_nat lt128_nat simp_thms)

text \<open>C40: The jamming right shifts divide by the power of two and keep the sticky bit for every
  positive distance, distances past the width included; the leading-zero counts (table and
  binary search) are the width minus the number of significant bits; the 128-bit routines on
  pairs of words multiply exactly, add modulo 2^128 with the carry, and compare as the
  numbers they represent.\<close>

theorem primitives_correct:
  assumes "0 < unat dist"
  shows "unat (softfloat_shiftRightJam32 a1 dist) = jam (unat a1) (unat dist)
    \<and> unat (softfloat_shiftRightJam64 b1 dist) = jam (unat b1) (unat dist)
    \<and> unat (softfloat_countLeadingZeros16 a) = 16 - nbits (unat a)
    \<and> unat (softfloat_countLeadingZeros32 b) = 32 - nbits (unat b)
    \<and> unat (softfloat_countLeadingZeros64 c) = 64 - nbits (unat c)
    \<and> nat128 (softfloat_mul64To128 x y) = unat x * unat y
    \<and> nat128 (softfloat_add128 a64 a0 b64 b0) =
      (nat128 \<lparr>v0 = a0, v64 = a64\<rparr> + nat128 \<lparr>v0 = b0, v64 = b64\<rparr>) mod 2 ^ 128
    \<and> softfloat_le128 a64 a0 b64 b0 = (nat128 \<lparr>v0 = a0, v64 = a64\<rparr> \<le> nat128 \<lparr>v0 = b0, v64 = b64\<rparr>)
    \<and> softfloat_lt128 a64 a0 b64 b0 = (nat128 \<lparr>v0 = a0, v64 = a64\<rparr> < nat128 \<lparr>v0 = b0, v64 = b64\<rparr>)"
  using shiftRightJam_correct [OF assms] countLeadingZeros_correct arith128_correct by simp

lemma primitives_correct_witness:
  "unat (softfloat_shiftRightJam32 21 3) = 3 \<and> unat (softfloat_shiftRightJam64 21 3) = 3"
  using primitives_correct [of 3 21 21] by (simp add: jam_def)

end
