(* ===== verification/SoftFloat_RoundPack.thy ===== *)
theory SoftFloat_RoundPack
  imports SoftFloat_Primitives
begin

text \<open>
  Rounding and packing (\<open>s_roundPackToF*.c\<close>, \<open>s_normRoundPackToF*.c\<close>) and the
  normalisation of subnormal significands (\<open>s_normSubnormalF*Sig.c\<close>) for binary16,
  bfloat16, binary32 and binary64.  The part after the range checks, with the labels
  \<open>packReturn\<close> and \<open>uiZ\<close>, is a definition of its own (\<open>_finish\<close>), since two branches
  join there.  The locale \<open>round_pack\<close> is the contract the arithmetic relies on: a
  normalised significand is rounded as the specification \<open>ieee_result\<close> says, on every
  branch, flags included.
\<close>

section \<open>Rounding and packing\<close>

definition softfloat_roundPackToF16_finish ::
  "bool \<Rightarrow> int \<Rightarrow> u64 \<Rightarrow> u8 \<Rightarrow> u8 \<Rightarrow> sf_state \<Rightarrow> float16 \<times> sf_state" where
  "softfloat_roundPackToF16_finish sign exp sig roundIncrement roundBits s =
     (let roundingMode = softfloat_roundingMode s;
          roundNearEven = (roundingMode = softfloat_round_near_even);
          sig = drop_bit 4 (sig + ucast roundIncrement);
          s = (if roundBits \<noteq> 0 then softfloat_raiseFlags softfloat_flag_inexact s else s)
      in if roundBits \<noteq> 0 \<and> roundingMode = softfloat_round_odd
         then (ucast (packToF16UI sign exp (sig OR 1)), s)
         else let sig = sig AND NOT (of_bool (roundBits XOR 8 = 0 \<and> roundNearEven));
                  exp = (if sig = 0 then 0 else exp)
              in (ucast (packToF16UI sign exp sig), s))"

definition softfloat_roundPackToF16 ::
  "bool \<Rightarrow> int \<Rightarrow> u64 \<Rightarrow> sf_state \<Rightarrow> float16 \<times> sf_state" where
  "softfloat_roundPackToF16 sign exp sig s =
     (let roundingMode = softfloat_roundingMode s;
          roundNearEven = (roundingMode = softfloat_round_near_even);
          roundIncrement = (if \<not> roundNearEven \<and> roundingMode \<noteq> softfloat_round_near_maxMag
             then (if roundingMode = (if sign then softfloat_round_min else softfloat_round_max)
                   then 0xF else 0)
             else 0x8);
          roundBits = ucast (sig AND 0xF)
      in if 0x1D \<le> (word_of_int exp :: u32)
         then if exp < 0
              then let isTiny = (softfloat_detectTininess s = softfloat_tininess_beforeRounding
                           \<or> exp < - 1
                           \<or> sig + ucast roundIncrement < 0x8000);
                       sig = ucast (softfloat_shiftRightJam32 (ucast sig) (word_of_int (- exp)));
                       roundBits = ucast (sig AND 0xF);
                       s = (if isTiny \<and> roundBits \<noteq> 0
                            then softfloat_raiseFlags softfloat_flag_underflow s else s)
                   in softfloat_roundPackToF16_finish sign 0 sig roundIncrement roundBits s
              else if 0x1D < exp \<or> 0x8000 \<le> sig + ucast roundIncrement
              then (ucast (packToF16UI sign 0x1F 0 - of_bool (roundIncrement = 0)),
                    softfloat_raiseFlags (softfloat_flag_overflow OR softfloat_flag_inexact) s)
              else softfloat_roundPackToF16_finish sign exp sig roundIncrement roundBits s
         else softfloat_roundPackToF16_finish sign exp sig roundIncrement roundBits s)"

definition softfloat_roundPackToBF16_finish ::
  "bool \<Rightarrow> int \<Rightarrow> u64 \<Rightarrow> u8 \<Rightarrow> u8 \<Rightarrow> sf_state \<Rightarrow> bfloat16 \<times> sf_state" where
  "softfloat_roundPackToBF16_finish sign exp sig roundIncrement roundBits s =
     (let roundingMode = softfloat_roundingMode s;
          roundNearEven = (roundingMode = softfloat_round_near_even);
          sig = drop_bit 7 (sig + ucast roundIncrement);
          s = (if roundBits \<noteq> 0 then softfloat_raiseFlags softfloat_flag_inexact s else s)
      in if roundBits \<noteq> 0 \<and> roundingMode = softfloat_round_odd
         then (ucast (packToBF16UI sign exp (sig OR 1)), s)
         else let sig = sig AND NOT (of_bool (roundBits XOR 0x40 = 0 \<and> roundNearEven));
                  exp = (if sig = 0 then 0 else exp)
              in (ucast (packToBF16UI sign exp sig), s))"

definition softfloat_roundPackToBF16 ::
  "bool \<Rightarrow> int \<Rightarrow> u64 \<Rightarrow> sf_state \<Rightarrow> bfloat16 \<times> sf_state" where
  "softfloat_roundPackToBF16 sign exp sig s =
     (let roundingMode = softfloat_roundingMode s;
          roundNearEven = (roundingMode = softfloat_round_near_even);
          roundIncrement = (if \<not> roundNearEven \<and> roundingMode \<noteq> softfloat_round_near_maxMag
             then (if roundingMode = (if sign then softfloat_round_min else softfloat_round_max)
                   then 0x7F else 0)
             else 0x40);
          roundBits = ucast (sig AND 0x7F)
      in if 0xFD \<le> (word_of_int exp :: u32)
         then if exp < 0
              then let isTiny = (softfloat_detectTininess s = softfloat_tininess_beforeRounding
                           \<or> exp < - 1
                           \<or> sig + ucast roundIncrement < 0x8000);
                       sig = ucast (softfloat_shiftRightJam32 (ucast sig) (word_of_int (- exp)));
                       roundBits = ucast (sig AND 0x7F);
                       s = (if isTiny \<and> roundBits \<noteq> 0
                            then softfloat_raiseFlags softfloat_flag_underflow s else s)
                   in softfloat_roundPackToBF16_finish sign 0 sig roundIncrement roundBits s
              else if 0xFD < exp \<or> 0x8000 \<le> sig + ucast roundIncrement
              then (ucast (packToBF16UI sign 0xFF 0 - of_bool (roundIncrement = 0)),
                    softfloat_raiseFlags (softfloat_flag_overflow OR softfloat_flag_inexact) s)
              else softfloat_roundPackToBF16_finish sign exp sig roundIncrement roundBits s
         else softfloat_roundPackToBF16_finish sign exp sig roundIncrement roundBits s)"

definition softfloat_roundPackToF32_finish ::
  "bool \<Rightarrow> int \<Rightarrow> u64 \<Rightarrow> u8 \<Rightarrow> u8 \<Rightarrow> sf_state \<Rightarrow> float32 \<times> sf_state" where
  "softfloat_roundPackToF32_finish sign exp sig roundIncrement roundBits s =
     (let roundingMode = softfloat_roundingMode s;
          roundNearEven = (roundingMode = softfloat_round_near_even);
          sig = drop_bit 7 (sig + ucast roundIncrement);
          s = (if roundBits \<noteq> 0 then softfloat_raiseFlags softfloat_flag_inexact s else s)
      in if roundBits \<noteq> 0 \<and> roundingMode = softfloat_round_odd
         then (ucast (packToF32UI sign exp (sig OR 1)), s)
         else let sig = sig AND NOT (of_bool (roundBits XOR 0x40 = 0 \<and> roundNearEven));
                  exp = (if sig = 0 then 0 else exp)
              in (ucast (packToF32UI sign exp sig), s))"

definition softfloat_roundPackToF32 ::
  "bool \<Rightarrow> int \<Rightarrow> u64 \<Rightarrow> sf_state \<Rightarrow> float32 \<times> sf_state" where
  "softfloat_roundPackToF32 sign exp sig s =
     (let roundingMode = softfloat_roundingMode s;
          roundNearEven = (roundingMode = softfloat_round_near_even);
          roundIncrement = (if \<not> roundNearEven \<and> roundingMode \<noteq> softfloat_round_near_maxMag
             then (if roundingMode = (if sign then softfloat_round_min else softfloat_round_max)
                   then 0x7F else 0)
             else 0x40);
          roundBits = ucast (sig AND 0x7F)
      in if 0xFD \<le> (word_of_int exp :: u32)
         then if exp < 0
              then let isTiny = (softfloat_detectTininess s = softfloat_tininess_beforeRounding
                           \<or> exp < - 1
                           \<or> sig + ucast roundIncrement < 0x80000000);
                       sig = ucast (softfloat_shiftRightJam32 (ucast sig) (word_of_int (- exp)));
                       roundBits = ucast (sig AND 0x7F);
                       s = (if isTiny \<and> roundBits \<noteq> 0
                            then softfloat_raiseFlags softfloat_flag_underflow s else s)
                   in softfloat_roundPackToF32_finish sign 0 sig roundIncrement roundBits s
              else if 0xFD < exp \<or> 0x80000000 \<le> sig + ucast roundIncrement
              then (ucast (packToF32UI sign 0xFF 0 - of_bool (roundIncrement = 0)),
                    softfloat_raiseFlags (softfloat_flag_overflow OR softfloat_flag_inexact) s)
              else softfloat_roundPackToF32_finish sign exp sig roundIncrement roundBits s
         else softfloat_roundPackToF32_finish sign exp sig roundIncrement roundBits s)"

definition softfloat_roundPackToF64_finish ::
  "bool \<Rightarrow> int \<Rightarrow> u64 \<Rightarrow> u64 \<Rightarrow> u64 \<Rightarrow> sf_state \<Rightarrow> float64 \<times> sf_state" where
  "softfloat_roundPackToF64_finish sign exp sig roundIncrement roundBits s =
     (let roundingMode = softfloat_roundingMode s;
          roundNearEven = (roundingMode = softfloat_round_near_even);
          sig = drop_bit 10 (sig + roundIncrement);
          s = (if roundBits \<noteq> 0 then softfloat_raiseFlags softfloat_flag_inexact s else s)
      in if roundBits \<noteq> 0 \<and> roundingMode = softfloat_round_odd
         then (packToF64UI sign exp (sig OR 1), s)
         else let sig = sig AND NOT (of_bool (roundBits XOR 0x200 = 0 \<and> roundNearEven));
                  exp = (if sig = 0 then 0 else exp)
              in (packToF64UI sign exp sig, s))"

definition softfloat_roundPackToF64 ::
  "bool \<Rightarrow> int \<Rightarrow> u64 \<Rightarrow> sf_state \<Rightarrow> float64 \<times> sf_state" where
  "softfloat_roundPackToF64 sign exp sig s =
     (let roundingMode = softfloat_roundingMode s;
          roundNearEven = (roundingMode = softfloat_round_near_even);
          roundIncrement = (if \<not> roundNearEven \<and> roundingMode \<noteq> softfloat_round_near_maxMag
             then (if roundingMode = (if sign then softfloat_round_min else softfloat_round_max)
                   then 0x3FF else 0)
             else 0x200);
          roundBits = sig AND 0x3FF
      in if 0x7FD \<le> (word_of_int exp :: u16)
         then if exp < 0
              then let isTiny = (softfloat_detectTininess s = softfloat_tininess_beforeRounding
                           \<or> exp < - 1
                           \<or> sig + roundIncrement < 0x8000000000000000);
                       sig = softfloat_shiftRightJam64 sig (word_of_int (- exp));
                       roundBits = sig AND 0x3FF;
                       s = (if isTiny \<and> roundBits \<noteq> 0
                            then softfloat_raiseFlags softfloat_flag_underflow s else s)
                   in softfloat_roundPackToF64_finish sign 0 sig roundIncrement roundBits s
              else if 0x7FD < exp \<or> 0x8000000000000000 \<le> sig + roundIncrement
              then (packToF64UI sign 0x7FF 0 - of_bool (roundIncrement = 0),
                    softfloat_raiseFlags (softfloat_flag_overflow OR softfloat_flag_inexact) s)
              else softfloat_roundPackToF64_finish sign exp sig roundIncrement roundBits s
         else softfloat_roundPackToF64_finish sign exp sig roundIncrement roundBits s)"

section \<open>Normalisation\<close>

record exp8_sig16 =
  es16_exp :: int
  es16_sig :: u64

record exp16_sig32 =
  es32_exp :: int
  es32_sig :: u64

record exp16_sig64 =
  es64_exp :: int
  es64_sig :: u64

definition softfloat_normSubnormalF16Sig :: "u64 \<Rightarrow> exp8_sig16" where
  "softfloat_normSubnormalF16Sig sig =
     (let shiftDist = int8 (uint (softfloat_countLeadingZeros16 (ucast sig)) - 5)
      in \<lparr>es16_exp = int8 (1 - shiftDist), es16_sig = push_bit (nat shiftDist) sig\<rparr>)"

definition softfloat_normSubnormalF32Sig :: "u64 \<Rightarrow> exp16_sig32" where
  "softfloat_normSubnormalF32Sig sig =
     (let shiftDist = int8 (uint (softfloat_countLeadingZeros32 (ucast sig)) - 8)
      in \<lparr>es32_exp = 1 - shiftDist, es32_sig = push_bit (nat shiftDist) sig\<rparr>)"

definition softfloat_normSubnormalF64Sig :: "u64 \<Rightarrow> exp16_sig64" where
  "softfloat_normSubnormalF64Sig sig =
     (let shiftDist = int8 (uint (softfloat_countLeadingZeros64 sig) - 11)
      in \<lparr>es64_exp = 1 - shiftDist, es64_sig = push_bit (nat shiftDist) sig\<rparr>)"

definition softfloat_normRoundPackToF16 ::
  "bool \<Rightarrow> int \<Rightarrow> u64 \<Rightarrow> sf_state \<Rightarrow> float16 \<times> sf_state" where
  "softfloat_normRoundPackToF16 sign exp sig s =
     (let shiftDist = int8 (uint (softfloat_countLeadingZeros16 (ucast sig)) - 1);
          exp = exp - shiftDist
      in if 4 \<le> shiftDist \<and> (word_of_int exp :: u32) < 0x1D
         then (ucast (packToF16UI sign (if sig \<noteq> 0 then exp else 0) (push_bit (nat (shiftDist - 4)) sig)), s)
         else softfloat_roundPackToF16 sign exp (push_bit (nat shiftDist) sig) s)"

definition softfloat_normRoundPackToF32 ::
  "bool \<Rightarrow> int \<Rightarrow> u64 \<Rightarrow> sf_state \<Rightarrow> float32 \<times> sf_state" where
  "softfloat_normRoundPackToF32 sign exp sig s =
     (let shiftDist = int8 (uint (softfloat_countLeadingZeros32 (ucast sig)) - 1);
          exp = exp - shiftDist
      in if 7 \<le> shiftDist \<and> (word_of_int exp :: u32) < 0xFD
         then (ucast (packToF32UI sign (if sig \<noteq> 0 then exp else 0) (push_bit (nat (shiftDist - 7)) sig)), s)
         else softfloat_roundPackToF32 sign exp (push_bit (nat shiftDist) sig) s)"

definition softfloat_normRoundPackToF64 ::
  "bool \<Rightarrow> int \<Rightarrow> u64 \<Rightarrow> sf_state \<Rightarrow> float64 \<times> sf_state" where
  "softfloat_normRoundPackToF64 sign exp sig s =
     (let shiftDist = int8 (uint (softfloat_countLeadingZeros64 sig) - 1);
          exp = exp - shiftDist
      in if 10 \<le> shiftDist \<and> (word_of_int exp :: u32) < 0x7FD
         then (packToF64UI sign (if sig \<noteq> 0 then exp else 0) (push_bit (nat (shiftDist - 10)) sig), s)
         else softfloat_roundPackToF64 sign exp (push_bit (nat shiftDist) sig) s)"

section \<open>The rounded significand\<close>

lemma unat_and_not_of_bool:
  "unat (x AND NOT (of_bool c) :: 'a::len word) = (if c then 2 * (unat x div 2) else unat x)"
proof (cases c)
  case True
  have "(x AND 1) + (x AND NOT 1) = x" 
    by (subst disjunctive_add_eq_or) (auto simp: bit_eq_iff bit_simps)
  then have "x AND NOT 1 = x - (x AND 1)" by (simp add: eq_diff_eq add.commute)
  moreover have "unat (x AND 1) = unat x mod 2" using unat_and_mask [of x 1] by (simp add: mask_eq_exp_minus_1)
  moreover have "unat (x - (x AND 1)) = unat x - unat (x AND 1)"
    by (rule unat_sub_no_wrap) (simp add: calculation(2))
  ultimately show ?thesis
    using True minus_mod_eq_mult_div [of "unat x" 2] by simp
qed simp

lemma rmode_of_iff [simp]:
  "rmode_of m = RNE \<longleftrightarrow> m = 0" "rmode_of m = RDN \<longleftrightarrow> m = 2" "rmode_of m = RUP \<longleftrightarrow> m = 3"
  "rmode_of m = RMM \<longleftrightarrow> m = 4" "rmode_of m = ROD \<longleftrightarrow> m = 5"
  by (auto simp: rmode_of_def)

lemma roundIncrement_round_inc:
  fixes hi half :: "'a::len word"
  assumes "unat hi = 2 ^ g - 1" "unat half = 2 ^ (g - 1)"
  shows "unat (if \<not> m = 0 \<and> m \<noteq> 4 then (if m = (if sign then 2 else 3) then hi else 0) else half)
      = round_inc (rmode_of m) sign g"
  using assms by (cases "rmode_of m") (auto simp: rmode_of_def split: if_splits)

lemma roundIncrement_0_iff:
  assumes "1 < g" "unat inc = round_inc m sign g"
  shows "inc = 0 \<longleftrightarrow> \<not> to_inf m sign"
proof -
  have "(1::nat) < 2 ^ g" using assms(1) by (intro one_less_power) simp_all
  then show ?thesis using assms(2) by (cases m) (auto simp: word_eq_0_iff)
qed

lemma unat_rounded_sig:
  fixes sig inc :: u64
  assumes g: "0 < g" and range: "unat sig + round_inc (rmode_of m) sign g < 2 ^ 64"
    and inc: "unat inc = round_inc (rmode_of m) sign g"
    and bits: "bits \<longleftrightarrow> unat sig mod 2 ^ g \<noteq> 0" and tie: "tie \<longleftrightarrow> unat sig mod 2 ^ g = 2 ^ (g - 1)"
  shows "bits \<and> m = 5 \<Longrightarrow> unat (drop_bit g (sig + inc) OR 1) = round_shift (rmode_of m) sign (unat sig) g"
    and "\<not> (bits \<and> m = 5) \<Longrightarrow> unat (drop_bit g (sig + inc) AND NOT (of_bool (tie \<and> m = 0)))
        = round_shift (rmode_of m) sign (unat sig) g"
proof -
  have q: "unat (drop_bit g (sig + inc)) = (unat sig + round_inc (rmode_of m) sign g) div 2 ^ g"
    using range inc by (simp add: unat_drop unat_add_no_wrap)
  show "bits \<and> m = 5 \<Longrightarrow> unat (drop_bit g (sig + inc) OR 1) = round_shift (rmode_of m) sign (unat sig) g"
    by (simp only: round_shift_inc [OF g] unat_or q bits rmode_of_iff) simp
  show "\<not> (bits \<and> m = 5) \<Longrightarrow> unat (drop_bit g (sig + inc) AND NOT (of_bool (tie \<and> m = 0)))
        = round_shift (rmode_of m) sign (unat sig) g"
    by (simp only: round_shift_inc [OF g] unat_and_not_of_bool q bits tie rmode_of_iff) auto
qed

lemma ucast_word_of_nat: "(ucast (x :: 'a::len word) :: 'b::len word) = word_of_nat (unat x)"
  by (simp add: word_eq_iff_unat unat_ucast_mod unat_of_nat take_bit_eq_mod)

lemma word_eq_of_unat: "unat x = n \<Longrightarrow> x = word_of_nat n"
  by auto

lemma xor_eq_0_iff: "(x XOR y = 0) \<longleftrightarrow> x = (y :: 'a::len word)"
  by (auto simp: bit_eq_iff bit_simps)

section \<open>The shape the four functions share\<close>

text \<open>
  The code of \<open>softfloat_roundPackToF*\<close> over 64-bit increments and round bits, with the
  constants of the format as arguments.  Its correctness is proved once, under the laws of
  the format's field macros; each function of the code is shown to be an instance.
\<close>

definition gen_finish ::
  "(bool \<Rightarrow> int \<Rightarrow> u64 \<Rightarrow> u64) \<Rightarrow> nat \<Rightarrow> u64 \<Rightarrow> bool \<Rightarrow> int \<Rightarrow> u64 \<Rightarrow> u64 \<Rightarrow> u64 \<Rightarrow> sf_state \<Rightarrow> u64 \<times> sf_state" where
  "gen_finish pack g half sign exp sig inc bits s =
     (let q = drop_bit g (sig + inc);
          s' = (if bits \<noteq> 0 then softfloat_raiseFlags 1 s else s)
      in if bits \<noteq> 0 \<and> softfloat_roundingMode s = 5 then (pack sign exp (q OR 1), s')
         else let q = q AND NOT (of_bool (bits = half \<and> softfloat_roundingMode s = 0))
              in (pack sign (if q = 0 then 0 else exp) q, s'))"

definition gen_inc :: "u64 \<Rightarrow> u64 \<Rightarrow> bool \<Rightarrow> u8 \<Rightarrow> u64" where
  "gen_inc half hi sign m =
     (if \<not> m = 0 \<and> m \<noteq> 4 then (if m = (if sign then 2 else 3) then hi else 0) else half)"

definition gen_roundPack where
  "gen_roundPack pack g half hi (big :: int \<Rightarrow> bool) (lim :: int) tp infe shr sign exp sig s =
     (let inc = gen_inc half hi sign (softfloat_roundingMode s);
          bits = sig AND mask g
      in if big exp
         then if exp < 0
              then let isTiny = (softfloat_detectTininess s = 0 \<or> exp < - 1 \<or> sig + inc < tp);
                       sig = shr sig (word_of_int (- exp) :: u64);
                       bits = sig AND mask g;
                       s = (if isTiny \<and> bits \<noteq> 0 then softfloat_raiseFlags 2 s else s)
                   in gen_finish pack g half sign 0 sig inc bits s
              else if lim < exp \<or> tp \<le> sig + inc
              then (pack sign infe 0 - of_bool (inc = 0), softfloat_raiseFlags (4 OR 1) s)
              else gen_finish pack g half sign exp sig inc bits s
         else gen_finish pack g half sign exp sig inc bits s)"

context float_format
begin

text \<open>Packing a rounded significand; a carry out of the fraction moves into the exponent.\<close>

lemma pack_rounded:
  assumes "0 \<le> e" "nat e < 2 ^ expw f" "nat e * 2 ^ fracw f + unat x < 2 ^ (fracw f + expw f)"
  shows "unat (pack s e x) = sign_ord f s + nat e * 2 ^ fracw f + unat x"
  using assms by (intro pack_law) (cases s; simp add: sign_ord_def)+

lemma inf_ord_less: "inf_ord f < 2 ^ (fracw f + expw f)"
  by (simp add: inf_ord_def power_add mult.commute)

lemma pack_rounded_sig:
  assumes e: "0 \<le> e" and r: "unat x = r" "nat e * 2 ^ fracw f + r < inf_ord f" and z: "r = 0 \<Longrightarrow> e = 0"
  shows "unat (pack s (if x = 0 then 0 else e) x) = sign_ord f s + nat e * 2 ^ fracw f + r"
    and "unat (pack s e x) = sign_ord f s + nat e * 2 ^ fracw f + r"
proof -
  have "nat e * 2 ^ fracw f < 2 ^ (fracw f + expw f)"
    using r inf_ord_less by linarith
  then have "nat e < 2 ^ expw f" by (simp add: power_add mult.commute)
  then show p: "unat (pack s e x) = sign_ord f s + nat e * 2 ^ fracw f + r"
    using assms inf_ord_less by (simp add: pack_rounded)
  show "unat (pack s (if x = 0 then 0 else e) x) = sign_ord f s + nat e * 2 ^ fracw f + r"
    using p r z by (auto simp: word_eq_0_iff)
qed


lemma gen_finish_correct:
  assumes g: "0 < g" and half: "unat half = 2 ^ (g - 1)" and e: "0 \<le> e"
    and range: "unat sig + round_inc (mode_of s) sign g < 2 ^ 64"
    and inc: "unat inc = round_inc (mode_of s) sign g"
    and r: "r = round_shift (mode_of s) sign (unat sig) g" "nat e * 2 ^ fracw f + r < inf_ord f"
    and z: "r = 0 \<Longrightarrow> e = 0"
  shows "gen_finish pack g half sign e sig inc (sig AND mask g) s =
    (word_of_nat (sign_ord f sign + nat e * 2 ^ fracw f + r),
     softfloat_raiseFlags (if unat sig mod 2 ^ g \<noteq> 0 then 1 else 0) s)"
proof -
  have b: "sig AND mask g \<noteq> 0 \<longleftrightarrow> unat sig mod 2 ^ g \<noteq> 0"
    and t: "sig AND mask g = half \<longleftrightarrow> unat sig mod 2 ^ g = 2 ^ (g - 1)"
    by (simp_all only: word_eq_iff_unat unat_and_mask half unsigned_0)
  note rs = unat_rounded_sig [OF g range inc b t]
  show ?thesis
  proof (cases "sig AND mask g \<noteq> 0 \<and> softfloat_roundingMode s = 5")
    case True
    with rs(1) r(1) have "unat (drop_bit g (sig + inc) OR 1) = r" by simp
    from pack_rounded_sig(2) [OF e this r(2) z, THEN word_eq_of_unat] True b show ?thesis
      by (simp add: gen_finish_def)
  next
    case False
    with rs(2) r(1) have "unat (drop_bit g (sig + inc) AND
        NOT (of_bool (sig AND mask g = half \<and> softfloat_roundingMode s = 0))) = r"
      by blast
    from pack_rounded_sig(1) [OF e this r(2) z, THEN word_eq_of_unat] False b show ?thesis
      by (auto simp: gen_finish_def Let_def)
  qed
qed

lemma unat_gen_inc:
  assumes "unat hi = 2 ^ g - 1" "unat half = 2 ^ (g - 1)"
  shows "unat (gen_inc half hi sign m) = round_inc (rmode_of m) sign g"
  unfolding gen_inc_def using assms by (rule roundIncrement_round_inc)

lemma gen_roundPack_correct:
  assumes N: "normed f g (unat sig)" and g: "1 < g" "fracw f + g < 63" "g < 32"
    and half: "unat half = 2 ^ (g - 1)" and hi: "unat hi = 2 ^ g - 1"
    and tp: "unat tp = 2 ^ Suc (fracw f + g)"
    and big: "big exp \<longleftrightarrow> exp < 0 \<or> lim \<le> exp" and lim: "lim = 2 ^ expw f - 3"
    and shr: "\<And>d. 0 < unat d \<Longrightarrow> unat (shr sig d) = jam (unat sig) (unat d)"
    and exp: "- (2 ^ 63) \<le> exp"
  shows "gen_roundPack pack g half hi big lim tp (2 ^ expw f - 1) shr sign exp sig s =
    ieee_result f s sign (unat sig * 2 ^ nat exp) (g + nat (- exp))"
proof -
  define m where "m = mode_of s"
  define inc where "inc = gen_inc half hi sign (softfloat_roundingMode s)"
  have inc: "unat inc = round_inc m sign g"
    using hi half by (simp add: inc_def m_def unat_gen_inc)
  have g0: "0 < g" using g by simp
  have il: "round_inc m sign g < 2 ^ g" by (rule round_inc_less [OF g0])
  have sl: "unat sig < 2 ^ Suc (fracw f + g)" using N by (simp add: normed_def)
  have pl: "(2::nat) ^ Suc (fracw f + g) \<le> 2 ^ 63" using g by (intro power_increasing) simp_all
  have pg: "(2::nat) ^ g \<le> 2 ^ 31" using g by (intro power_increasing) simp_all
  from pl pg have range: "unat sig + round_inc m sign g < 2 ^ 64" using sl il by simp
  have sum: "unat (sig + inc) = unat sig + round_inc m sign g"
    using range inc by (simp add: unat_add_no_wrap)
  have R: "tp \<le> sig + inc \<longleftrightarrow> 2 ^ Suc (fracw f) \<le> round_shift m sign (unat sig) g"
    using round_shift_ge_iff [OF g0, of "Suc (fracw f)" m sign "unat sig"]
    by (simp add: word_le_nat_alt tp sum)
  show ?thesis
  proof (cases "exp < 0")
    case True
    define i where "i = nat (- exp)"
    have i: "0 < i" "exp < - 1 \<longleftrightarrow> 1 < i" using True by (auto simp: i_def)
    define w where "w = (word_of_int (- exp) :: u64)"
    define sig' where "sig' = shr sig w"
    have d: "unat w = i"
      unfolding w_def using True exp by (subst unat_word_of_int_nat) (auto simp: i_def nat_less_iff)
    then have sig': "unat sig' = jam (unat sig) i"
      using i shr [of w] by (simp add: sig'_def)
    define b where "b = (tiny_before s \<or> 1 < i \<or> unat sig + round_inc m sign g < 2 ^ Suc (fracw f + g))"
    define s' where "s' = (if b \<and> sig' AND mask g \<noteq> 0 then softfloat_raiseFlags 2 s else s)"
    have bits: "sig' AND mask g \<noteq> 0 \<longleftrightarrow> jam (unat sig) i mod 2 ^ g \<noteq> 0"
      by (simp only: word_eq_iff_unat unat_and_mask sig' unsigned_0)
    have m': "mode_of s' = m" by (simp add: s'_def m_def)
    have r64: "unat sig' + round_inc m sign g < 2 ^ 64"
      using jam_less_pow [OF sl, of i] pl il pg by (simp add: sig')
    have "gen_finish pack g half sign 0 sig' inc (sig' AND mask g) s'
      = (word_of_nat (sign_ord f sign + round_shift m sign (jam (unat sig) i) g),
         softfloat_raiseFlags (if jam (unat sig) i mod 2 ^ g \<noteq> 0 then 1 else 0) s')"
      using gen_finish_correct [OF g0 half order_refl, of sig' s' sign inc "round_shift m sign (jam (unat sig) i) g"]
        norm_below_less [OF N i(1) expw_pos, of m sign] range inc sig' m'
        jam_less_pow [OF sl, of i] il g r64
      by simp
    moreover have "gen_roundPack pack g half hi big lim tp (2 ^ expw f - 1) shr sign exp sig s
      = gen_finish pack g half sign 0 sig' inc (sig' AND mask g) s'"
      using True big i(2)
      unfolding gen_roundPack_def Let_def inc_def [symmetric] w_def [symmetric] sig'_def [symmetric]
      by (simp add: s'_def b_def word_less_nat_alt tp sum)
    moreover have "nat exp = 0" using True by simp
    ultimately show ?thesis
      using norm_below(1) [OF N i(1) expw_pos g(1), where m = m and s = sign]
        norm_below(2) [OF N i(1) expw_pos g(1), where m = m and s = sign and b = "tiny_before s"] bits
      by (simp add: ieee_result_def s'_def m_def [symmetric] i_def [symmetric] b_def)
  next
    case False
    have "(4::nat) \<le> 2 ^ expw f" using expw_pos power_increasing [of 2 "expw f" "2::nat"] by simp
    then have "lim = int (2 ^ expw f - 3)" by (simp add: lim)
    then have i: "lim < exp \<longleftrightarrow> 2 ^ expw f - 3 < nat exp" "lim = exp \<longleftrightarrow> nat exp = 2 ^ expw f - 3"
      using False by linarith+
    show ?thesis
    proof (cases "inf_ord f \<le> nat exp * 2 ^ fracw f + round_shift m sign (unat sig) g")
      case True
      then have "lim < exp \<or> lim = exp \<and> tp \<le> sig + inc"
        using norm_overflow_iff [OF N expw_pos] R i by auto
      then have "gen_roundPack pack g half hi big lim tp (2 ^ expw f - 1) shr sign exp sig s
          = (pack sign (2 ^ expw f - 1) 0 - of_bool (inc = 0), softfloat_raiseFlags 5 s)"
        using False big by (auto simp: gen_roundPack_def inc_def [symmetric] Let_def)
      moreover have "pack sign (2 ^ expw f - 1) 0 - of_bool (inc = 0) =
          word_of_nat (sign_ord f sign + (if to_inf m sign then inf_ord f else inf_ord f - 1))"
      proof -
        have p: "unat (pack sign (2 ^ expw f - 1) 0) = sign_ord f sign + inf_ord f"
          using fields_pack(1) [of "2 ^ expw f - 1" 0 sign]
          by (simp add: inf_ord_def nat_diff_distrib nat_power_eq)
        have "0 < inf_ord f" using expw_pos one_less_power [of "2::nat" "expw f"] by (simp add: inf_ord_def)
        then have "unat (pack sign (2 ^ expw f - 1) 0 - of_bool (inc = 0)) =
            sign_ord f sign + (if to_inf m sign then inf_ord f else inf_ord f - 1)"
          using p roundIncrement_0_iff [OF g(1) inc] by (subst unat_sub_no_wrap) auto
        then show ?thesis by (rule word_eq_of_unat)
      qed
      ultimately show ?thesis
        using norm_overflow(1) [OF N True]
          norm_overflow(2) [OF N True, where b = "tiny_before s"] False
        by (simp add: ieee_result_def m_def [symmetric])
    next
      case small: False
      then have "\<not> (lim < exp \<or> lim = exp \<and> tp \<le> sig + inc)"
        using norm_overflow_iff [OF N expw_pos] R i by auto
      then have "gen_roundPack pack g half hi big lim tp (2 ^ expw f - 1) shr sign exp sig s
          = gen_finish pack g half sign exp sig inc (sig AND mask g) s"
        using False big by (auto simp: gen_roundPack_def inc_def [symmetric] Let_def)
      moreover have "0 < round_shift m sign (unat sig) g"
        using norm_round_shift(1) [OF N, of m sign] by (meson less_le_trans zero_less_power zero_less_numeral)
      ultimately show ?thesis
        using norm_in_range(1) [OF N, of "nat exp" m sign] small False inc range
          norm_in_range(2) [OF N, of "nat exp" m sign "tiny_before s"]
          gen_finish_correct [OF g0 half, of exp sig s sign inc]
        by (simp add: ieee_result_def m_def [symmetric] not_le)
    qed
  qed
qed

end

section \<open>The four functions\<close>

lemma ucast_u8_bits:
  fixes x :: u64
  assumes "k \<le> 8"
  shows "(ucast (x AND mask k) :: u8) = ucast h \<longleftrightarrow> x AND mask k = ucast (h :: u8)"
    and "(ucast (x AND mask k) :: u8) = 0 \<longleftrightarrow> x AND mask k = 0"
proof -
  have "unat (x AND mask k) < 2 ^ 8"
    using assms by (simp only: unat_and_mask) (meson less_le_trans mod_less_divisor
      one_le_numeral power_increasing zero_less_numeral zero_less_power)
  then show "(ucast (x AND mask k) :: u8) = ucast h \<longleftrightarrow> x AND mask k = ucast h"
    and "(ucast (x AND mask k) :: u8) = 0 \<longleftrightarrow> x AND mask k = 0"
    using unat_lt_8 [of h] by (auto simp: word_eq_iff_unat unat_ucast_mod)
qed

lemma roundBits_4:
  fixes x :: u64
  shows "(ucast (x AND 0xF) :: u8) XOR 8 = 0 \<longleftrightarrow> x AND 0xF = 8" "(ucast (x AND 0xF) :: u8) = 0 \<longleftrightarrow> x AND 0xF = 0"
  using ucast_u8_bits(1) [of 4 x "8 :: u8"] ucast_u8_bits(2) [of 4 x] by (simp_all add: xor_eq_0_iff mask_eq_exp_minus_1)

lemma roundBits_7:
  fixes x :: u64
  shows "(ucast (x AND 0x7F) :: u8) XOR 0x40 = 0 \<longleftrightarrow> x AND 0x7F = 0x40"
    "(ucast (x AND 0x7F) :: u8) = 0 \<longleftrightarrow> x AND 0x7F = 0"
  using ucast_u8_bits(1) [of 7 x "64 :: u8"] ucast_u8_bits(2) [of 7 x] by (simp_all add: xor_eq_0_iff mask_eq_exp_minus_1)

lemma roundPackToF16_gen:
  "softfloat_roundPackToF16 sign exp sig s = map_prod ucast id
     (gen_roundPack packToF16UI 4 8 0xF (\<lambda>e. 0x1D \<le> (word_of_int e :: u32)) 0x1D 0x8000 0x1F
       (\<lambda>sig d. ucast (softfloat_shiftRightJam32 (ucast sig) d)) sign exp sig s)"
proof -
  have fin: "softfloat_roundPackToF16_finish sign e x inc (ucast (b AND 0xF)) s =
      map_prod ucast id (gen_finish packToF16UI 4 8 sign e x (ucast inc) (b AND 0xF) s)" for e x inc b s
    by (simp add: softfloat_roundPackToF16_finish_def gen_finish_def roundBits_4 Let_def)
  show ?thesis
    by (simp add: softfloat_roundPackToF16_def gen_roundPack_def gen_inc_def fin roundBits_4 Let_def
        mask_eq_exp_minus_1)
qed

lemma roundPackToBF16_gen:
  "softfloat_roundPackToBF16 sign exp sig s = map_prod ucast id
     (gen_roundPack packToBF16UI 7 0x40 0x7F (\<lambda>e. 0xFD \<le> (word_of_int e :: u32)) 0xFD 0x8000 0xFF
       (\<lambda>sig d. ucast (softfloat_shiftRightJam32 (ucast sig) d)) sign exp sig s)"
proof -
  have fin: "softfloat_roundPackToBF16_finish sign e x inc (ucast (b AND 0x7F)) s =
      map_prod ucast id (gen_finish packToBF16UI 7 0x40 sign e x (ucast inc) (b AND 0x7F) s)" for e x inc b s
    by (simp add: softfloat_roundPackToBF16_finish_def gen_finish_def roundBits_7 Let_def)
  show ?thesis
    by (simp add: softfloat_roundPackToBF16_def gen_roundPack_def gen_inc_def fin roundBits_7 Let_def
        mask_eq_exp_minus_1)
qed

lemma roundPackToF32_gen:
  "softfloat_roundPackToF32 sign exp sig s = map_prod ucast id
     (gen_roundPack packToF32UI 7 0x40 0x7F (\<lambda>e. 0xFD \<le> (word_of_int e :: u32)) 0xFD 0x80000000 0xFF
       (\<lambda>sig d. ucast (softfloat_shiftRightJam32 (ucast sig) d)) sign exp sig s)"
proof -
  have fin: "softfloat_roundPackToF32_finish sign e x inc (ucast (b AND 0x7F)) s =
      map_prod ucast id (gen_finish packToF32UI 7 0x40 sign e x (ucast inc) (b AND 0x7F) s)" for e x inc b s
    by (simp add: softfloat_roundPackToF32_finish_def gen_finish_def roundBits_7 Let_def)
  show ?thesis
    by (simp add: softfloat_roundPackToF32_def gen_roundPack_def gen_inc_def fin roundBits_7 Let_def
        mask_eq_exp_minus_1)
qed

lemma roundPackToF64_gen:
  "softfloat_roundPackToF64 sign exp sig s =
     gen_roundPack packToF64UI 10 0x200 0x3FF (\<lambda>e. 0x7FD \<le> (word_of_int e :: u16)) 0x7FD
       0x8000000000000000 0x7FF softfloat_shiftRightJam64 sign exp sig s"
proof -
  have fin: "softfloat_roundPackToF64_finish sign e x inc b s =
      gen_finish packToF64UI 10 0x200 sign e x inc b s" for e x inc b s
    by (simp add: softfloat_roundPackToF64_finish_def gen_finish_def xor_eq_0_iff Let_def)
  show ?thesis
    by (simp add: softfloat_roundPackToF64_def gen_roundPack_def gen_inc_def fin Let_def
        mask_eq_exp_minus_1)
qed

lemma ge_unsigned_32:
  assumes "- (2 ^ 31) \<le> e" "e < 2 ^ 31"
  shows "29 \<le> (word_of_int e :: u32) \<longleftrightarrow> e < 0 \<or> 29 \<le> e"
    and "253 \<le> (word_of_int e :: u32) \<longleftrightarrow> e < 0 \<or> 253 \<le> e"
proof -
  have "(e + 2 ^ 32) mod 2 ^ 32 = e + 2 ^ 32" if "e < 0"
    using assms that by (intro mod_pos_pos_trivial) simp_all
  then have "uint (word_of_int e :: u32) = (if e < 0 then e + 2 ^ 32 else e)"
    using assms by (auto simp: uint_word_of_int)
  then show "29 \<le> (word_of_int e :: u32) \<longleftrightarrow> e < 0 \<or> 29 \<le> e"
    and "253 \<le> (word_of_int e :: u32) \<longleftrightarrow> e < 0 \<or> 253 \<le> e"
    using assms by (auto simp: word_le_def)
qed

lemma ge_unsigned_16:
  assumes "- (2 ^ 15) \<le> e" "e < 2 ^ 15"
  shows "0x7FD \<le> (word_of_int e :: u16) \<longleftrightarrow> e < 0 \<or> 0x7FD \<le> e"
proof -
  have "(e + 2 ^ 16) mod 2 ^ 16 = e + 2 ^ 16" if "e < 0"
    using assms that by (intro mod_pos_pos_trivial) simp_all
  then have "uint (word_of_int e :: u16) = (if e < 0 then e + 2 ^ 16 else e)"
    using assms by (auto simp: uint_word_of_int)
  then show ?thesis
    using assms by (auto simp: word_le_def)
qed

lemma ucast_ieee_result:
  assumes "LENGTH('w::len) \<le> 64"
  shows "map_prod ucast id (ieee_result f s sign n j :: u64 \<times> sf_state) = (ieee_result f s sign n j :: 'w word \<times> sf_state)"
proof -
  have "(2::nat) ^ LENGTH('w) dvd 2 ^ 64" using assms by (rule le_imp_power_dvd)
  then have "x mod 2 ^ 64 mod 2 ^ LENGTH('w) = x mod 2 ^ LENGTH('w)" for x :: nat
    by (rule mod_mod_cancel)
  then show ?thesis
    by (simp add: ieee_result_def word_eq_iff_unat unat_ucast_mod unat_of_nat take_bit_eq_mod)
qed

lemma jam32_narrow:
  assumes "unat (sig :: u64) < 2 ^ 32" "0 < unat (d :: u64)"
  shows "unat (ucast (softfloat_shiftRightJam32 (ucast sig) d) :: u64) = jam (unat sig) (unat d)"
  using assms jam32.shr_jam [of d "ucast sig"] by (simp add: wsimps unat_ucast_mod)

section \<open>The contract of rounding and packing\<close>

locale round_pack = float_format +
  fixes g :: nat and lim :: int and rp :: "bool \<Rightarrow> int \<Rightarrow> u64 \<Rightarrow> sf_state \<Rightarrow> 'w::len word \<times> sf_state"
  assumes guard: "1 < g" "fracw f + g < 63"
    and round_pack_law: "normed f g (unat sig) \<Longrightarrow> - lim \<le> exp \<Longrightarrow> exp < lim \<Longrightarrow>
      rp sign exp sig s = ieee_result f s sign (unat sig * 2 ^ nat exp) (g + nat (- exp))"

lemma len_le: "LENGTH(16) \<le> 64" "LENGTH(32) \<le> 64"
  by simp_all

interpretation rp16: round_pack binary16 signF16UI expF16UI fracF16UI packToF16UI 4 "2 ^ 31" softfloat_roundPackToF16
proof
  fix sig :: u64 and exp :: int and sign :: bool and s :: sf_state
  assume N: "normed binary16 4 (unat sig)" and e: "- (2 ^ 31) \<le> exp" "exp < 2 ^ 31"
  have i: "(0x1F :: int) = 2 ^ expw binary16 - 1" by simp
  have n: "unat sig < 2 ^ 32" using N by (simp add: normed_def)
  have "gen_roundPack packToF16UI 4 8 0xF (\<lambda>e. 0x1D \<le> (word_of_int e :: u32)) 0x1D 0x8000
      0x1F (\<lambda>sig d. ucast (softfloat_shiftRightJam32 (ucast sig) d)) sign exp sig s
    = ieee_result binary16 s sign (unat sig * 2 ^ nat exp) (4 + nat (- exp))"
    unfolding i
  proof (rule f16.gen_roundPack_correct [OF N])
    show "0x1D \<le> (word_of_int exp :: u32) \<longleftrightarrow> exp < 0 \<or> 0x1D \<le> exp"
      using ge_unsigned_32(1) [OF e] by simp
    show "unat (ucast (softfloat_shiftRightJam32 (ucast sig) d) :: u64) = jam (unat sig) (unat d)"
      if "0 < unat d" for d
      using that by (rule jam32_narrow [OF n])
  qed (use e in simp_all)
  then show "softfloat_roundPackToF16 sign exp sig s
    = ieee_result binary16 s sign (unat sig * 2 ^ nat exp) (4 + nat (- exp))"
    by (simp only: roundPackToF16_gen ucast_ieee_result len_le)
qed simp_all

interpretation rpb16: round_pack bfloat16_fmt signBF16UI expBF16UI fracBF16UI packToBF16UI 7 "2 ^ 31" softfloat_roundPackToBF16
proof
  fix sig :: u64 and exp :: int and sign :: bool and s :: sf_state
  assume N: "normed bfloat16_fmt 7 (unat sig)" and e: "- (2 ^ 31) \<le> exp" "exp < 2 ^ 31"
  have i: "(0xFF :: int) = 2 ^ expw bfloat16_fmt - 1" by simp
  have n: "unat sig < 2 ^ 32" using N by (simp add: normed_def)
  have "gen_roundPack packToBF16UI 7 0x40 0x7F (\<lambda>e. 0xFD \<le> (word_of_int e :: u32)) 0xFD 0x8000
      0xFF (\<lambda>sig d. ucast (softfloat_shiftRightJam32 (ucast sig) d)) sign exp sig s
    = ieee_result bfloat16_fmt s sign (unat sig * 2 ^ nat exp) (7 + nat (- exp))"
    unfolding i
  proof (rule bf16.gen_roundPack_correct [OF N])
    show "0xFD \<le> (word_of_int exp :: u32) \<longleftrightarrow> exp < 0 \<or> 0xFD \<le> exp"
      using ge_unsigned_32(2) [OF e] by simp
    show "unat (ucast (softfloat_shiftRightJam32 (ucast sig) d) :: u64) = jam (unat sig) (unat d)"
      if "0 < unat d" for d
      using that by (rule jam32_narrow [OF n])
  qed (use e in simp_all)
  then show "softfloat_roundPackToBF16 sign exp sig s
    = ieee_result bfloat16_fmt s sign (unat sig * 2 ^ nat exp) (7 + nat (- exp))"
    by (simp only: roundPackToBF16_gen ucast_ieee_result len_le)
qed simp_all

interpretation rp32: round_pack binary32 signF32UI expF32UI fracF32UI packToF32UI 7 "2 ^ 31" softfloat_roundPackToF32
proof
  fix sig :: u64 and exp :: int and sign :: bool and s :: sf_state
  assume N: "normed binary32 7 (unat sig)" and e: "- (2 ^ 31) \<le> exp" "exp < 2 ^ 31"
  have i: "(0xFF :: int) = 2 ^ expw binary32 - 1" by simp
  have n: "unat sig < 2 ^ 32" using N by (simp add: normed_def)
  have "gen_roundPack packToF32UI 7 0x40 0x7F (\<lambda>e. 0xFD \<le> (word_of_int e :: u32)) 0xFD 0x80000000
      0xFF (\<lambda>sig d. ucast (softfloat_shiftRightJam32 (ucast sig) d)) sign exp sig s
    = ieee_result binary32 s sign (unat sig * 2 ^ nat exp) (7 + nat (- exp))"
    unfolding i
  proof (rule f32.gen_roundPack_correct [OF N])
    show "0xFD \<le> (word_of_int exp :: u32) \<longleftrightarrow> exp < 0 \<or> 0xFD \<le> exp"
      using ge_unsigned_32(2) [OF e] by simp
    show "unat (ucast (softfloat_shiftRightJam32 (ucast sig) d) :: u64) = jam (unat sig) (unat d)"
      if "0 < unat d" for d
      using that by (rule jam32_narrow [OF n])
  qed (use e in simp_all)
  then show "softfloat_roundPackToF32 sign exp sig s
    = ieee_result binary32 s sign (unat sig * 2 ^ nat exp) (7 + nat (- exp))"
    by (simp only: roundPackToF32_gen ucast_ieee_result len_le)
qed simp_all

interpretation rp64: round_pack binary64 signF64UI expF64UI fracF64UI packToF64UI 10 "2 ^ 15" softfloat_roundPackToF64
proof
  fix sig :: u64 and exp :: int and sign :: bool and s :: sf_state
  assume N: "normed binary64 10 (unat sig)" and e: "- (2 ^ 15) \<le> exp" "exp < 2 ^ 15"
  have i: "(0x7FF :: int) = 2 ^ expw binary64 - 1" by simp
  have "gen_roundPack packToF64UI 10 0x200 0x3FF (\<lambda>e. 0x7FD \<le> (word_of_int e :: u16)) 0x7FD 0x8000000000000000
      0x7FF softfloat_shiftRightJam64 sign exp sig s
    = ieee_result binary64 s sign (unat sig * 2 ^ nat exp) (10 + nat (- exp))"
    unfolding i
  proof (rule f64.gen_roundPack_correct [OF N])
    show "0x7FD \<le> (word_of_int exp :: u16) \<longleftrightarrow> exp < 0 \<or> 0x7FD \<le> exp"
      using ge_unsigned_16 [OF e] by simp
    show "unat (softfloat_shiftRightJam64 sig d) = jam (unat sig) (unat d)"
      if "0 < unat d" for d
      using that by (rule jam64.shr_jam)
  qed (use e in simp_all)
  then show "softfloat_roundPackToF64 sign exp sig s
    = ieee_result binary64 s sign (unat sig * 2 ^ nat exp) (10 + nat (- exp))"
    by (simp only: roundPackToF64_gen )
qed simp_all

end
