(* ===== verification/IEEE_Spec.thy ===== *)
theory IEEE_Spec
  imports SoftFloat_RoundPack
begin

text \<open>
  The abstract specification of the operations: what IEEE 754 and the RISC-V NaN rules
  promise, over bit patterns of a format, in terms of exact integer values.  A finite
  number is an integer multiple of the least subnormal of its format (\<open>magnitude\<close>,
  \<open>fvalue\<close>); an operation computes exactly and rounds once (\<open>ieee_result\<close>).  The theorems of
  the other theories state that the code implements these functions.
\<close>

section \<open>Numbers of a format\<close>

definition negative :: "fmt \<Rightarrow> 'a::len word \<Rightarrow> bool" where
  "negative f a = (2 ^ (fracw f + expw f) \<le> unat a)"

definition is_nan :: "fmt \<Rightarrow> 'a::len word \<Rightarrow> bool" where
  "is_nan f a = (inf_ord f < ordinal f a)"

definition is_inf :: "fmt \<Rightarrow> 'a::len word \<Rightarrow> bool" where
  "is_inf f a = (ordinal f a = inf_ord f)"

definition is_snan :: "fmt \<Rightarrow> 'a::len word \<Rightarrow> bool" where
  "is_snan f a = (is_nan f a \<and> ordinal f a < inf_ord f + 2 ^ (fracw f - 1))"

definition magnitude :: "fmt \<Rightarrow> 'a::len word \<Rightarrow> nat" where
  "magnitude f a = mag (fracw f) (ordinal f a)"

definition fvalue :: "fmt \<Rightarrow> 'a::len word \<Rightarrow> int" where
  "fvalue f a = (if negative f a then - int (magnitude f a) else int (magnitude f a))"

text \<open>The least subnormal of a format is \<open>2 ^ - subexp f\<close>.\<close>

definition subexp :: "fmt \<Rightarrow> nat" where
  "subexp f = 2 ^ (expw f - 1) + fracw f - 2"

definition nan_result :: "fmt \<Rightarrow> bool \<Rightarrow> sf_state \<Rightarrow> 'a::len word \<times> sf_state" where
  "nan_result f bad s = (word_of_nat (inf_ord f + 2 ^ (fracw f - 1)),
     if bad then softfloat_raiseFlags softfloat_flag_invalid s else s)"

definition inf_result :: "fmt \<Rightarrow> bool \<Rightarrow> sf_state \<Rightarrow> 'a::len word \<times> sf_state" where
  "inf_result f sign s = (word_of_nat (sign_ord f sign + inf_ord f), s)"

definition zero_result :: "fmt \<Rightarrow> bool \<Rightarrow> sf_state \<Rightarrow> 'a::len word \<times> sf_state" where
  "zero_result f sign s = (word_of_nat (sign_ord f sign), s)"

section \<open>Operations\<close>

definition ieee_neg :: "fmt \<Rightarrow> 'a::len word \<Rightarrow> 'a word" where
  "ieee_neg f a = a XOR push_bit (fracw f + expw f) 1"

definition ieee_add :: "fmt \<Rightarrow> 'a::len word \<Rightarrow> 'a word \<Rightarrow> sf_state \<Rightarrow> 'a word \<times> sf_state" where
  "ieee_add f a b s =
     (if is_nan f a \<or> is_nan f b then nan_result f (is_snan f a \<or> is_snan f b) s
      else if is_inf f a \<and> is_inf f b \<and> negative f a \<noteq> negative f b then nan_result f True s
      else if is_inf f a then inf_result f (negative f a) s
      else if is_inf f b then inf_result f (negative f b) s
      else let v = fvalue f a + fvalue f b
           in if v = 0
              then zero_result f (if negative f a = negative f b then negative f a else mode_of s = RDN) s
              else ieee_result f s (v < 0) (nat \<bar>v\<bar>) 0)"

definition ieee_sub :: "fmt \<Rightarrow> 'a::len word \<Rightarrow> 'a word \<Rightarrow> sf_state \<Rightarrow> 'a word \<times> sf_state" where
  "ieee_sub f a b s = ieee_add f a (ieee_neg f b) s"

definition ieee_mul :: "fmt \<Rightarrow> 'a::len word \<Rightarrow> 'a word \<Rightarrow> sf_state \<Rightarrow> 'a word \<times> sf_state" where
  "ieee_mul f a b s =
     (let sign = (negative f a \<noteq> negative f b)
      in if is_nan f a \<or> is_nan f b then nan_result f (is_snan f a \<or> is_snan f b) s
         else if is_inf f a
         then if magnitude f b = 0 then nan_result f True s else inf_result f sign s
         else if is_inf f b
         then if magnitude f a = 0 then nan_result f True s else inf_result f sign s
         else ieee_result f s sign (magnitude f a * magnitude f b) (subexp f))"

text \<open>
  The rounding of a quotient \<open>p / q\<close> of naturals (in units of the least subnormal): the
  quotient is computed to more bits than the format has, with a sticky bit for the rest.
\<close>

definition quot_jam :: "nat \<Rightarrow> nat \<Rightarrow> nat" where
  "quot_jam p q = (p div q) OR of_bool (p mod q \<noteq> 0)"

definition ieee_quotient :: "fmt \<Rightarrow> sf_state \<Rightarrow> bool \<Rightarrow> nat \<Rightarrow> nat \<Rightarrow> 'a::len word \<times> sf_state" where
  "ieee_quotient f s sign p q =
     (let k = fracw f + 3 + nbits q in ieee_result f s sign (quot_jam (p * 2 ^ k) q) k)"

definition ieee_div :: "fmt \<Rightarrow> 'a::len word \<Rightarrow> 'a word \<Rightarrow> sf_state \<Rightarrow> 'a word \<times> sf_state" where
  "ieee_div f a b s =
     (let sign = (negative f a \<noteq> negative f b)
      in if is_nan f a \<or> is_nan f b then nan_result f (is_snan f a \<or> is_snan f b) s
         else if is_inf f a
         then if is_inf f b then nan_result f True s else inf_result f sign s
         else if is_inf f b then zero_result f sign s
         else if magnitude f b = 0
         then if magnitude f a = 0 then nan_result f True s
              else inf_result f sign (softfloat_raiseFlags softfloat_flag_infinite s)
         else ieee_quotient f s sign (magnitude f a * 2 ^ subexp f) (magnitude f b))"

definition ieee_convert :: "fmt \<Rightarrow> fmt \<Rightarrow> 'a::len word \<Rightarrow> sf_state \<Rightarrow> 'b::len word \<times> sf_state" where
  "ieee_convert f h a s =
     (if is_nan f a then nan_result h (is_snan f a) s
      else if is_inf f a then inf_result h (negative f a) s
      else ieee_result h s (negative f a) (magnitude f a * 2 ^ subexp h) (subexp f))"

definition ieee_of_int :: "fmt \<Rightarrow> int \<Rightarrow> sf_state \<Rightarrow> 'a::len word \<times> sf_state" where
  "ieee_of_int f i s = ieee_result f s (i < 0) (nat \<bar>i\<bar> * 2 ^ subexp f) 0"

text \<open>
  The order of the numbers; infinity has the magnitude of the next binade, so \<open>fvalue\<close> orders
  it above every finite number.
\<close>

definition ieee_eq :: "fmt \<Rightarrow> 'a::len word \<Rightarrow> 'a word \<Rightarrow> bool" where
  "ieee_eq f a b = (\<not> is_nan f a \<and> \<not> is_nan f b \<and> fvalue f a = fvalue f b)"

definition ieee_le :: "fmt \<Rightarrow> 'a::len word \<Rightarrow> 'a word \<Rightarrow> bool" where
  "ieee_le f a b = (\<not> is_nan f a \<and> \<not> is_nan f b \<and> fvalue f a \<le> fvalue f b)"

definition ieee_lt :: "fmt \<Rightarrow> 'a::len word \<Rightarrow> 'a word \<Rightarrow> bool" where
  "ieee_lt f a b = (\<not> is_nan f a \<and> \<not> is_nan f b \<and> fvalue f a < fvalue f b)"

section \<open>Values that round to themselves\<close>

lemma ieee_result_cross:
  assumes "n * 2 ^ j' = n' * 2 ^ j"
  shows "ieee_result f s sign n j = ieee_result f s sign n' j'"
proof (cases "j \<le> j'")
  case True
  then have "n' * 2 ^ j = (n * 2 ^ (j' - j)) * 2 ^ j"
    using assms by (simp add: mult.assoc power_add [symmetric])
  then have "n' = n * 2 ^ (j' - j)" by simp
  then show ?thesis using True ieee_result_mult [of f s sign n "j' - j" j, symmetric] by simp
next
  case False
  then have "n * 2 ^ j' = (n' * 2 ^ (j - j')) * 2 ^ j'"
    using assms by (simp add: mult.assoc power_add [symmetric])
  then have "n = n' * 2 ^ (j - j')" by simp
  then show ?thesis using False ieee_result_mult [of f s sign n' "j - j'" j'] by simp
qed

text \<open>
  The step from a computed significand to the exact value: \<open>sig\<close> is \<open>X\<close> with \<open>d\<close> bits
  jammed, and \<open>X\<close> with its exponent is \<open>n / 2 ^ j\<close>.
\<close>

lemma ieee_result_value:
  assumes sig: "sig = jam X d * 2 ^ k"
    and exact: "2 ^ d dvd X \<or> 2 ^ (fracw f + d + 2) \<le> X"
    and val: "X * 2 ^ (k + e + j) = n * 2 ^ (g + d)"
  shows "ieee_result f s sign (sig * 2 ^ e) g = (ieee_result f s sign n j :: 'a::len word \<times> sf_state)"
proof -
  have "ieee_result f s sign (sig * 2 ^ e) g
      = (ieee_result f s sign ((jam X d * 2 ^ d) * 2 ^ (k + e)) (g + d) :: 'a word \<times> sf_state)"
    by (rule ieee_result_cross) (simp add: sig power_add)
  also have "\<dots> = ieee_result f s sign (X * 2 ^ (k + e)) (g + d)"
  proof (cases "2 ^ d dvd X")
    case True
    then show ?thesis by (simp only: jam_exact)
  next
    case False
    then have b: "fracw f + d + 3 \<le> nbits X"
      using exact less_nbits_iff [of "fracw f + d + 2" X] by simp
    then have "0 < X" by (cases X) simp_all
    with b have "fracw f + (d + (k + e)) + 3 \<le> nbits (X * 2 ^ (k + e))"
      by (simp add: nbits_mult_pow)
    then have "ieee_result f s sign (jam X d * 2 ^ (d + (k + e))) (g + d)
        = (ieee_result f s sign (X * 2 ^ (k + e)) (g + d) :: 'a word \<times> sf_state)"
      using ieee_result_jam [of "d + (k + e)" f "X * 2 ^ (k + e)" s sign "g + d"]
      by (simp only: jam_mult) simp
    then show ?thesis by (simp only: power_add mult.assoc)
  qed
  also have "\<dots> = ieee_result f s sign n j"
    using val by (intro ieee_result_cross) (simp add: power_add ac_simps)
  finally show ?thesis .
qed

lemma round_ordinal_mag:
  "round_ordinal p m s (mag p x) 0 = x" "mag p x mod 2 ^ dropped p (mag p x) 0 = 0"
proof -
  have "round_ordinal p m s (mag p x) 0 = x \<and> mag p x mod 2 ^ dropped p (mag p x) 0 = 0"
  proof (cases "x < 2 ^ Suc p")
    case True
    then have "dropped p (mag p x) 0 = 0"
      by (simp add: mag_small dropped_def nbits_le_iff del: power_Suc)
    with True show ?thesis by (simp add: mag_small round_ordinal_def del: power_Suc)
  next
    case False
    define e g where "e = x div 2 ^ p" and "g = x mod 2 ^ p"
    have x: "x = e * 2 ^ p + g" unfolding e_def g_def by (simp only: div_mult_mod_eq)
    have g: "g < 2 ^ p" by (simp add: g_def)
    have e: "2 \<le> e"
      using False unfolding e_def by (simp add: less_eq_div_iff_mult_less_eq)
    have m: "mag p x = (2 ^ p + g) * 2 ^ (e - 1)" using e g by (simp add: x mag_parts)
    have "nbits (2 ^ p + g) = Suc p" using g by (intro nbits_eqI) simp_all
    then have d: "dropped p (mag p x) 0 = e - 1"
      using e by (simp add: m dropped_def nbits_mult_pow)
    have "round_shift m s ((2 ^ p + g) * 2 ^ (e - 1)) (e - 1) = 2 ^ p + g"
      using round_shift_mult [of m s "2 ^ p + g" "e - 1" 0] by simp
    then have "round_ordinal p m s (mag p x) 0 = (e - 1) * 2 ^ p + (2 ^ p + g)"
      unfolding round_ordinal_def d by (simp add: m)
    moreover have "(e - 1) * 2 ^ p + 2 ^ p = e * 2 ^ p"
      using e by (cases e) simp_all
    ultimately show ?thesis unfolding d by (simp add: x) (simp add: m [unfolded x])
  qed
  then show "round_ordinal p m s (mag p x) 0 = x" "mag p x mod 2 ^ dropped p (mag p x) 0 = 0" by simp_all
qed

lemma ieee_result_exact:
  assumes "x < inf_ord f"
  shows "ieee_result f s sign (mag (fracw f) x) 0 = (word_of_nat (sign_ord f sign + x), s)"
  using assms by (simp add: ieee_result_def ieee_bits_def ieee_flags_def ieee_overflow_def
      ieee_inexact_def round_ordinal_mag)

section \<open>Bit fields of a word\<close>

lemma and_field_eq:
  fixes a :: u64
  assumes "m = push_bit i (mask k)" "unat v = c * 2 ^ i" "i + k \<le> 64"
  shows "a AND m = v \<longleftrightarrow> unat a div 2 ^ i mod 2 ^ k = c"
  using assms(2,3) unfolding assms(1) by (simp add: word_eq_iff_unat unat_and_field)

section \<open>Classification in the code\<close>

lemma ordinal_ucast [simp]:
  "ordinal f (ucast (a :: u32) :: u64) = ordinal f a" "ordinal f (ucast (b :: u16) :: u64) = ordinal f b"
  by (simp_all add: ordinal_def unat_ucast_64)

lemma class_ucast [simp]:
  "is_nan f (ucast (a :: u32) :: u64) = is_nan f a" "is_nan f (ucast (b :: u16) :: u64) = is_nan f b"
  "is_snan f (ucast (a :: u32) :: u64) = is_snan f a" "is_snan f (ucast (b :: u16) :: u64) = is_snan f b"
  "is_inf f (ucast (a :: u32) :: u64) = is_inf f a" "is_inf f (ucast (b :: u16) :: u64) = is_inf f b"
  "magnitude f (ucast (a :: u32) :: u64) = magnitude f a" "magnitude f (ucast (b :: u16) :: u64) = magnitude f b"
  by (simp_all add: is_nan_def is_snan_def is_inf_def magnitude_def)

lemma negative_ucast [simp]:
  "negative f (ucast (a :: u32) :: u64) = negative f a" "negative f (ucast (b :: u16) :: u64) = negative f b"
  by (simp_all add: negative_def unat_ucast_64)

lemma fvalue_ucast [simp]:
  "fvalue f (ucast (a :: u32) :: u64) = fvalue f a" "fvalue f (ucast (b :: u16) :: u64) = fvalue f b"
  by (simp_all add: fvalue_def)

context float_format
begin

lemma is_nan_fields: "is_nan f a \<longleftrightarrow> ex a = 2 ^ expw f - 1 \<and> fr a \<noteq> 0"
  by (simp add: is_nan_def nan_iff)

lemma is_inf_fields: "is_inf f a \<longleftrightarrow> ex a = 2 ^ expw f - 1 \<and> fr a = 0"
  using finite_iff [of a] nan_iff [of a] by (auto simp: is_inf_def)

lemma special_fields: "ex a = 2 ^ expw f - 1 \<longleftrightarrow> is_nan f a \<or> is_inf f a"
  by (auto simp: is_nan_fields is_inf_fields)

lemma ex_max: "ex a = 2 ^ expw f - 1 \<longleftrightarrow> unat a div 2 ^ fracw f mod 2 ^ expw f = 2 ^ expw f - 1"
proof -
  have "(2::int) ^ expw f - 1 = int (2 ^ expw f - 1)" by simp
  then show ?thesis by (simp only: ex_law of_nat_eq_iff)
qed

lemma is_nan_unat:
  fixes a :: u64
  shows "is_nan f a \<longleftrightarrow> unat a div 2 ^ fracw f mod 2 ^ expw f = 2 ^ expw f - 1 \<and> unat a mod 2 ^ fracw f \<noteq> 0"
  by (simp only: is_nan_fields ex_max word_eq_0_iff fr_law)

lemma is_snan_unat:
  fixes a :: u64
  assumes "0 < fracw f"
  shows "is_snan f a \<longleftrightarrow>
    unat a div 2 ^ (fracw f - 1) mod 2 ^ Suc (expw f) = 2 * (2 ^ expw f - 1)
    \<and> unat a mod 2 ^ (fracw f - 1) \<noteq> 0"
proof -
  obtain p where p: "fracw f = Suc p" using assms by (cases "fracw f") auto
  define y r where "y = unat a div 2 ^ p" and "r = unat a mod 2 ^ p"
  have r: "r < 2 ^ p" by (simp add: r_def)
  have d: "unat a div 2 ^ Suc p = y div 2" by (simp only: y_def power_Suc2 div_mult2_eq)
  have m: "unat a mod 2 ^ Suc p = 2 ^ p * (y mod 2) + r"
    by (simp only: y_def r_def power_Suc2 mod_mult2_eq)
  have "is_snan f a \<longleftrightarrow> is_nan f a \<and> unat (fr a) < 2 ^ p"
  proof (cases "is_nan f a")
    case True
    then have "nat (ex a) = 2 ^ expw f - 1" by (simp add: is_nan_fields nat_diff_distrib nat_power_eq)
    with True show ?thesis by (simp add: is_snan_def ordinal_parts inf_ord_def p)
  qed (simp add: is_snan_def)
  also have "\<dots> \<longleftrightarrow> y div 2 mod 2 ^ expw f = 2 ^ expw f - 1 \<and> y mod 2 = 0 \<and> r \<noteq> 0"
    unfolding is_nan_unat fr_law p d m using r by (cases "y mod 2 = 0") auto
  also have "y div 2 mod 2 ^ expw f = 2 ^ expw f - 1 \<and> y mod 2 = 0 \<and> r \<noteq> 0 \<longleftrightarrow>
      y mod 2 ^ Suc (expw f) = 2 * (2 ^ expw f - 1) \<and> r \<noteq> 0"
  proof -
    have "2 * t + b = 2 * c \<longleftrightarrow> t = c \<and> b = 0" if "b < 2" for t b c :: nat
      using that by presburger
    then have "2 * (y div 2 mod 2 ^ expw f) + y mod 2 = 2 * (2 ^ expw f - 1) \<longleftrightarrow>
        y div 2 mod 2 ^ expw f = 2 ^ expw f - 1 \<and> y mod 2 = 0" by simp
    then show ?thesis unfolding power_Suc mod_mult2_eq by (simp only: conj_assoc)
  qed
  finally show ?thesis by (simp only: p diff_Suc_1 y_def r_def)
qed

lemma sgn_negative: "unat a < 2 ^ Suc (fracw f + expw f) \<Longrightarrow> sgn a \<longleftrightarrow> negative f a"
  by (simp add: negative_def sgn_law)

lemma magnitude_fields:
  "magnitude f a = (if ex a = 0 then unat (fr a) else (2 ^ fracw f + unat (fr a)) * 2 ^ (nat (ex a) - 1))"
  by (simp add: magnitude_def mag_fields)

lemma magnitude_eq_0: "magnitude f a = 0 \<longleftrightarrow> ex a = 0 \<and> fr a = 0"
  by (auto simp: magnitude_fields word_eq_0_iff)

end

locale float_class = float_format +
  fixes isNaN :: "u64 \<Rightarrow> bool" and isSigNaN :: "u64 \<Rightarrow> bool" and defaultNaN :: u64
    and propagateNaN :: "u64 \<Rightarrow> u64 \<Rightarrow> sf_state \<Rightarrow> u64 \<times> sf_state"
  assumes isNaN_law: "isNaN a \<longleftrightarrow> is_nan f a"
    and isSigNaN_law: "isSigNaN a \<longleftrightarrow> is_snan f a"
    and defaultNaN_law: "unat defaultNaN = inf_ord f + 2 ^ (fracw f - 1)"
    and propagateNaN_law: "propagateNaN a b s =
      (defaultNaN, if isSigNaN a \<or> isSigNaN b then softfloat_raiseFlags softfloat_flag_invalid s else s)"
begin

lemma propagate_nan:
  "map_prod ucast id (propagateNaN a b s) = (nan_result f (is_snan f a \<or> is_snan f b) s :: 'w::len word \<times> sf_state)"
  by (simp add: propagateNaN_law nan_result_def isSigNaN_law ucast_word_of_nat defaultNaN_law)

lemma nan_pair:
  "(ucast defaultNaN, if bad then softfloat_raiseFlags softfloat_flag_invalid s else s)
    = (nan_result f bad s :: 'w::len word \<times> sf_state)"
  by (simp add: nan_result_def ucast_word_of_nat defaultNaN_law)

lemma default_nan:
  "(ucast defaultNaN, softfloat_raiseFlags softfloat_flag_invalid s) = (nan_result f True s :: 'w::len word \<times> sf_state)"
  by (simp add: nan_result_def ucast_word_of_nat defaultNaN_law)

end

interpretation c16: float_class binary16 signF16UI expF16UI fracF16UI packToF16UI
  isNaNF16UI softfloat_isSigNaNF16UI defaultNaNF16UI softfloat_propagateNaNF16UI
proof
  fix a b :: u64 and s :: sf_state
  have "isNaNF16UI a \<longleftrightarrow> a AND 0x7C00 = 0x7C00 \<and> a AND 0x03FF \<noteq> 0"
    by (simp only: isNaNF16UI_def not_and_eq_0)
  also have "a AND 0x7C00 = 0x7C00 \<longleftrightarrow> unat a div 2 ^ 10 mod 2 ^ 5 = 2 ^ 5 - 1"
    by (rule and_field_eq) (simp_all add: mask_eq_exp_minus_1)
  also have "a AND 0x03FF = 0 \<longleftrightarrow> unat a div 2 ^ 0 mod 2 ^ 10 = 0"
    by (rule and_field_eq) (simp_all add: mask_eq_exp_minus_1)
  finally show "isNaNF16UI a \<longleftrightarrow> is_nan binary16 a"
    by (simp only: f16.is_nan_unat fmt_simps power_0 div_by_1)
  have "softfloat_isSigNaNF16UI a \<longleftrightarrow> a AND 0x7E00 = 0x7C00 \<and> a AND 0x01FF \<noteq> 0"
    by (simp only: softfloat_isSigNaNF16UI_def)
  also have "a AND 0x7E00 = 0x7C00 \<longleftrightarrow> unat a div 2 ^ 9 mod 2 ^ 6 = 2 * (2 ^ 5 - 1)"
    by (rule and_field_eq) (simp_all add: mask_eq_exp_minus_1)
  also have "a AND 0x01FF = 0 \<longleftrightarrow> unat a div 2 ^ 0 mod 2 ^ 9 = 0"
    by (rule and_field_eq) (simp_all add: mask_eq_exp_minus_1)
  finally show "softfloat_isSigNaNF16UI a \<longleftrightarrow> is_snan binary16 a"
    using f16.is_snan_unat [of a] by simp
qed (simp_all add: defaultNaNF16UI_def inf_ord_def softfloat_propagateNaNF16UI_def)

interpretation c32: float_class binary32 signF32UI expF32UI fracF32UI packToF32UI
  isNaNF32UI softfloat_isSigNaNF32UI defaultNaNF32UI softfloat_propagateNaNF32UI
proof
  fix a b :: u64 and s :: sf_state
  have "isNaNF32UI a \<longleftrightarrow> a AND 0x7F800000 = 0x7F800000 \<and> a AND 0x007FFFFF \<noteq> 0"
    by (simp only: isNaNF32UI_def not_and_eq_0)
  also have "a AND 0x7F800000 = 0x7F800000 \<longleftrightarrow> unat a div 2 ^ 23 mod 2 ^ 8 = 2 ^ 8 - 1"
    by (rule and_field_eq) (simp_all add: mask_eq_exp_minus_1)
  also have "a AND 0x007FFFFF = 0 \<longleftrightarrow> unat a div 2 ^ 0 mod 2 ^ 23 = 0"
    by (rule and_field_eq) (simp_all add: mask_eq_exp_minus_1)
  finally show "isNaNF32UI a \<longleftrightarrow> is_nan binary32 a"
    by (simp only: f32.is_nan_unat fmt_simps power_0 div_by_1)
  have "softfloat_isSigNaNF32UI a \<longleftrightarrow> a AND 0x7FC00000 = 0x7F800000 \<and> a AND 0x003FFFFF \<noteq> 0"
    by (simp only: softfloat_isSigNaNF32UI_def)
  also have "a AND 0x7FC00000 = 0x7F800000 \<longleftrightarrow> unat a div 2 ^ 22 mod 2 ^ 9 = 2 * (2 ^ 8 - 1)"
    by (rule and_field_eq) (simp_all add: mask_eq_exp_minus_1)
  also have "a AND 0x003FFFFF = 0 \<longleftrightarrow> unat a div 2 ^ 0 mod 2 ^ 22 = 0"
    by (rule and_field_eq) (simp_all add: mask_eq_exp_minus_1)
  finally show "softfloat_isSigNaNF32UI a \<longleftrightarrow> is_snan binary32 a"
    using f32.is_snan_unat [of a] by simp
qed (simp_all add: defaultNaNF32UI_def inf_ord_def softfloat_propagateNaNF32UI_def)

interpretation c64: float_class binary64 signF64UI expF64UI fracF64UI packToF64UI
  isNaNF64UI softfloat_isSigNaNF64UI defaultNaNF64UI softfloat_propagateNaNF64UI
proof
  fix a b :: u64 and s :: sf_state
  have "isNaNF64UI a \<longleftrightarrow> a AND 0x7FF0000000000000 = 0x7FF0000000000000 \<and> a AND 0x000FFFFFFFFFFFFF \<noteq> 0"
    by (simp only: isNaNF64UI_def not_and_eq_0)
  also have "a AND 0x7FF0000000000000 = 0x7FF0000000000000 \<longleftrightarrow> unat a div 2 ^ 52 mod 2 ^ 11 = 2 ^ 11 - 1"
    by (rule and_field_eq) (simp_all add: mask_eq_exp_minus_1)
  also have "a AND 0x000FFFFFFFFFFFFF = 0 \<longleftrightarrow> unat a div 2 ^ 0 mod 2 ^ 52 = 0"
    by (rule and_field_eq) (simp_all add: mask_eq_exp_minus_1)
  finally show "isNaNF64UI a \<longleftrightarrow> is_nan binary64 a"
    by (simp only: f64.is_nan_unat fmt_simps power_0 div_by_1)
  have "softfloat_isSigNaNF64UI a \<longleftrightarrow> a AND 0x7FF8000000000000 = 0x7FF0000000000000 \<and> a AND 0x0007FFFFFFFFFFFF \<noteq> 0"
    by (simp only: softfloat_isSigNaNF64UI_def)
  also have "a AND 0x7FF8000000000000 = 0x7FF0000000000000 \<longleftrightarrow> unat a div 2 ^ 51 mod 2 ^ 12 = 2 * (2 ^ 11 - 1)"
    by (rule and_field_eq) (simp_all add: mask_eq_exp_minus_1)
  also have "a AND 0x0007FFFFFFFFFFFF = 0 \<longleftrightarrow> unat a div 2 ^ 0 mod 2 ^ 51 = 0"
    by (rule and_field_eq) (simp_all add: mask_eq_exp_minus_1)
  finally show "softfloat_isSigNaNF64UI a \<longleftrightarrow> is_snan binary64 a"
    using f64.is_snan_unat [of a] by simp
qed (simp_all add: defaultNaNF64UI_def inf_ord_def softfloat_propagateNaNF64UI_def)

section \<open>Exact packing and normalising\<close>

context float_format
begin

text \<open>Packing an exactly representable value raises no flag and is its own rounding.\<close>

lemma pack_exact:
  assumes e: "0 \<le> e" and x: "unat x < 2 ^ Suc (fracw f)" and n: "e = 0 \<or> 2 ^ fracw f \<le> unat x"
    and r: "nat e * 2 ^ fracw f + unat x < inf_ord f"
  shows "(ucast (pack sign e x), s) = (ieee_result f s sign (unat x * 2 ^ nat e) 0 :: 'w::len word \<times> sf_state)"
proof -
  have m: "mag (fracw f) (nat e * 2 ^ fracw f + unat x) = unat x * 2 ^ nat e"
  proof (cases "e = 0")
    case True
    then show ?thesis using x by (simp add: mag_small del: power_Suc)
  next
    case False
    then show ?thesis using x n by (intro mag_binade) simp_all
  qed
  have z: "unat x = 0 \<Longrightarrow> e = 0" using n by auto
  have "unat (pack sign e x) = sign_ord f sign + (nat e * 2 ^ fracw f + unat x)"
    using pack_rounded_sig(2) [OF e refl r z] by simp
  then show ?thesis
    by (simp only: ieee_result_exact [OF r, unfolded m] ucast_word_of_nat)
qed

lemma pack_inf:
  "(ucast (pack sign (2 ^ expw f - 1) 0), s) = (inf_result f sign s :: 'w::len word \<times> sf_state)"
proof -
  have n: "nat (2 ^ expw f - 1) = 2 ^ expw f - 1" by (simp add: nat_diff_distrib nat_power_eq)
  have "unat (pack sign (2 ^ expw f - 1) 0) = sign_ord f sign + nat (2 ^ expw f - 1) * 2 ^ fracw f + unat (0 :: u64)"
    by (rule fields_pack(1)) (simp_all add: n)
  then show ?thesis by (simp only: inf_result_def inf_ord_def ucast_word_of_nat n unsigned_0 add_0_right)
qed

lemma pack_zero: "(ucast (pack sign 0 0), s) = (zero_result f sign s :: 'w::len word \<times> sf_state)"
proof -
  have "unat (pack sign 0 0) = sign_ord f sign"
    using fields_pack(1) [of 0 0 sign] by simp
  then show ?thesis by (simp only: zero_result_def ucast_word_of_nat)
qed

end

context round_pack
begin

lemma norm_round_pack:
  fixes sig :: u64
  assumes sig: "0 < unat sig" "unat sig < 2 ^ Suc (fracw f + g)" and c: "c = Suc (fracw f + g) - nbits (unat sig)"
    and lim: "- lim \<le> exp - int c" "exp - int c < lim"
  shows "(if g \<le> c \<and> 0 \<le> exp - int c \<and> exp - int c < 2 ^ expw f - 3
      then (ucast (pack sign (exp - int c) (push_bit (c - g) sig)), s)
      else rp sign (exp - int c) (push_bit c sig) s)
    = ieee_result f s sign (unat sig * 2 ^ nat exp) (g + nat (- exp))"
proof -
  define e where "e = exp - int c"
  have b: "nbits (unat sig) \<le> Suc (fracw f + g)" using sig(2) by (simp only: nbits_le_iff)
  then have N: "normed f g (unat sig * 2 ^ c)"
    using sig(1) guard(1) by (simp add: normed_iff_nbits nbits_mult_pow c)
  have "unat sig * 2 ^ c < 2 ^ Suc (fracw f + g)" using N by (simp only: normed_def)
  also have "(2::nat) ^ Suc (fracw f + g) \<le> 2 ^ LENGTH(64)"
    using guard(2) by (intro power_increasing) simp_all
  finally have w: "unat sig * 2 ^ c < 2 ^ LENGTH(64)" .
  then have p: "unat (push_bit c sig) = unat sig * 2 ^ c" by (rule unat_push_no_wrap)
  have x: "c + nat e + nat (- exp) = nat exp + nat (- e)" by (simp add: e_def)
  have cross: "ieee_result f s sign ((unat sig * 2 ^ c) * 2 ^ nat e) (g + nat (- e))
      = (ieee_result f s sign (unat sig * 2 ^ nat exp) (g + nat (- exp)) :: 'w word \<times> sf_state)"
  proof (rule ieee_result_cross)
    have "unat sig * 2 ^ c * 2 ^ nat e * 2 ^ (g + nat (- exp)) = unat sig * 2 ^ (c + nat e + nat (- exp)) * 2 ^ g"
      by (simp add: power_add)
    also have "\<dots> = unat sig * 2 ^ nat exp * 2 ^ (g + nat (- e))"
      unfolding x by (simp add: power_add)
    finally show "unat sig * 2 ^ c * 2 ^ nat e * 2 ^ (g + nat (- exp))
      = unat sig * 2 ^ nat exp * 2 ^ (g + nat (- e))" .
  qed
  show ?thesis
  proof (cases "g \<le> c \<and> 0 \<le> e \<and> e < 2 ^ expw f - 3")
    case True
    have q: "unat (push_bit (c - g) sig) * 2 ^ g = unat sig * 2 ^ c"
    proof -
      have "2 ^ (c - g) * 2 ^ g = (2::nat) ^ c" using True by (simp add: power_add [symmetric])
      then have s: "unat sig * 2 ^ (c - g) * 2 ^ g = unat sig * 2 ^ c" by (simp only: mult.assoc)
      then have "unat sig * 2 ^ (c - g) \<le> unat sig * 2 ^ c"
        by (metis mult.right_neutral mult_le_mono2 one_le_numeral one_le_power)
      then have "unat sig * 2 ^ (c - g) < 2 ^ LENGTH(64)"
        using w by (rule le_less_trans)
      then show ?thesis by (simp only: unat_push_no_wrap s)
    qed
    define y where "y = unat (push_bit (c - g) sig)"
    have y: "2 ^ fracw f \<le> y" "y < 2 ^ Suc (fracw f)"
      using N unfolding normed_def q [symmetric] y_def [symmetric] by (simp_all add: power_add)
    have inr: "nat e * 2 ^ fracw f + y < inf_ord f"
    proof -
      have "nat e + 3 < 2 ^ expw f" 
      proof -
        have "int (nat e + 3) < int (2 ^ expw f)" using True by simp
        then show ?thesis by (simp only: of_nat_less_iff)
      qed
      then have "(nat e + 3) * 2 ^ fracw f \<le> (2 ^ expw f - 1) * 2 ^ fracw f"
        by (intro mult_le_mono1) simp
      then show ?thesis using y by (simp add: inf_ord_def distrib_right)
    qed
    have "(ucast (pack sign e (push_bit (c - g) sig)), s)
        = (ieee_result f s sign (y * 2 ^ nat e) 0 :: 'w word \<times> sf_state)"
      using pack_exact [of e "push_bit (c - g) sig" sign s] True y inr by (simp only: y_def) simp
    also have "\<dots> = ieee_result f s sign ((unat sig * 2 ^ c) * 2 ^ nat e) (g + nat (- e))"
      using True by (intro ieee_result_cross) (simp add: q [symmetric] y_def)
    finally show ?thesis using True cross by (simp only: e_def [symmetric] if_True simp_thms)
  next
    case False
    then show ?thesis
      using round_pack_law [of "push_bit c sig" e sign s] N lim cross
      by (simp only: p e_def [symmetric]) auto
  qed
qed

end

section \<open>The contract of normalising, rounding and packing\<close>

locale norm_round_pack = round_pack +
  fixes nrp :: "bool \<Rightarrow> int \<Rightarrow> u64 \<Rightarrow> sf_state \<Rightarrow> 'w::len word \<times> sf_state"
  assumes norm_round_pack_law: "0 < unat sig \<Longrightarrow> unat sig < 2 ^ Suc (fracw f + g) \<Longrightarrow>
      64 - lim \<le> exp \<Longrightarrow> exp < lim \<Longrightarrow>
      nrp sign exp sig s = ieee_result f s sign (unat sig * 2 ^ nat exp) (g + nat (- exp))"

lemma less_unsigned_32:
  assumes "- (2 ^ 31) \<le> e" "e < 2 ^ 31"
  shows "(word_of_int e :: u32) < 29 \<longleftrightarrow> 0 \<le> e \<and> e < 29"
    and "(word_of_int e :: u32) < 253 \<longleftrightarrow> 0 \<le> e \<and> e < 253"
    and "(word_of_int e :: u32) < 2045 \<longleftrightarrow> 0 \<le> e \<and> e < 2045"
proof -
  have "(e + 2 ^ 32) mod 2 ^ 32 = e + 2 ^ 32" if "e < 0"
    using assms that by (intro mod_pos_pos_trivial) simp_all
  then have "uint (word_of_int e :: u32) = (if e < 0 then e + 2 ^ 32 else e)"
    using assms by (auto simp: uint_word_of_int)
  then show "(word_of_int e :: u32) < 29 \<longleftrightarrow> 0 \<le> e \<and> e < 29"
    and "(word_of_int e :: u32) < 253 \<longleftrightarrow> 0 \<le> e \<and> e < 253"
    and "(word_of_int e :: u32) < 2045 \<longleftrightarrow> 0 \<le> e \<and> e < 2045"
    using assms by (auto simp: word_less_def)
qed

context leading_zeros
begin

lemma norm_shift:
  assumes "0 < unat a" "nbits (unat a) \<le> LENGTH('a) - k" "k \<le> LENGTH('a)" "LENGTH('a) < 128"
  shows "int8 (uint (clz a) - int k) = int (LENGTH('a) - k - nbits (unat a))"
proof -
  have "uint (clz a) = int (LENGTH('a) - nbits (unat a))"
    by (simp only: uint_nat clz_law)
  then have "uint (clz a) - int k = int (LENGTH('a) - k - nbits (unat a))"
    using assms by simp
  then show ?thesis using assms by (simp only:) (rule int8_id, simp_all)
qed

end

interpretation nrp16: norm_round_pack binary16 signF16UI expF16UI fracF16UI packToF16UI 4 "2 ^ 31" softfloat_roundPackToF16
  softfloat_normRoundPackToF16
proof
  fix sig :: u64 and exp :: int and sign :: bool and s :: sf_state
  assume sig: "0 < unat sig" "unat sig < 2 ^ Suc (fracw binary16 + 4)"
    and e: "64 - 2 ^ 31 \<le> exp" "exp < 2 ^ 31"
  define c where "c = Suc (fracw binary16 + 4) - nbits (unat sig)"
  have u: "unat (ucast sig :: u16) = unat sig" using sig(2) by (simp add: unat_ucast_mod)
  have "nbits (unat sig) \<le> 15" using sig(2) by (simp add: nbits_le_iff)
  then have sh: "int8 (uint (softfloat_countLeadingZeros16 (ucast sig :: u16)) - 1) = int c"
    using clz16.norm_shift [of "(ucast sig :: u16)" 1] sig(1) by (simp add: u c_def)
  have "c < 64" using sig by (simp add: c_def)
  then have range: "- (2 ^ 31) \<le> exp - int c" "exp - int c < 2 ^ 31" "- (2 ^ 31) \<le> exp - int c" "exp - int c < 2 ^ 31"
    using e by simp_all
  have d: "(if 4 \<le> c \<and> 0 \<le> exp - int c \<and> exp - int c < 2 ^ expw binary16 - 3
      then (ucast (packToF16UI sign (exp - int c) (push_bit (c - 4) sig)), s)
      else softfloat_roundPackToF16 sign (exp - int c) (push_bit c sig) s)
    = ieee_result binary16 s sign (unat sig * 2 ^ nat exp) (4 + nat (- exp))"
    by (rule rp16.norm_round_pack [OF sig c_def range(3,4)])
  have "sig \<noteq> 0" using sig(1) by auto
  then have "softfloat_normRoundPackToF16 sign exp sig s =
     (if 4 \<le> int c \<and> 0 \<le> exp - int c \<and> exp - int c < 29
      then (ucast (packToF16UI sign (exp - int c) (push_bit (nat (int c - 4)) sig)), s)
      else softfloat_roundPackToF16 sign (exp - int c) (push_bit (nat (int c)) sig) s)"
    unfolding softfloat_normRoundPackToF16_def sh Let_def less_unsigned_32(1) [OF range(1,2)]
    by (simp only: if_True simp_thms ucast_id)
  moreover have "nat (int c - 4) = c - 4" "4 \<le> int c \<longleftrightarrow> 4 \<le> c" "(2 :: int) ^ expw binary16 - 3 = 29"
    by simp_all
  ultimately show "softfloat_normRoundPackToF16 sign exp sig s
    = ieee_result binary16 s sign (unat sig * 2 ^ nat exp) (4 + nat (- exp))"
    using d by (simp only: nat_int)
qed

interpretation nrp32: norm_round_pack binary32 signF32UI expF32UI fracF32UI packToF32UI 7 "2 ^ 31" softfloat_roundPackToF32
  softfloat_normRoundPackToF32
proof
  fix sig :: u64 and exp :: int and sign :: bool and s :: sf_state
  assume sig: "0 < unat sig" "unat sig < 2 ^ Suc (fracw binary32 + 7)"
    and e: "64 - 2 ^ 31 \<le> exp" "exp < 2 ^ 31"
  define c where "c = Suc (fracw binary32 + 7) - nbits (unat sig)"
  have u: "unat (ucast sig :: u32) = unat sig" using sig(2) by (simp add: unat_ucast_mod)
  have "nbits (unat sig) \<le> 31" using sig(2) by (simp add: nbits_le_iff)
  then have sh: "int8 (uint (softfloat_countLeadingZeros32 (ucast sig :: u32)) - 1) = int c"
    using clz32.norm_shift [of "(ucast sig :: u32)" 1] sig(1) by (simp add: u c_def)
  have "c < 64" using sig by (simp add: c_def)
  then have range: "- (2 ^ 31) \<le> exp - int c" "exp - int c < 2 ^ 31" "- (2 ^ 31) \<le> exp - int c" "exp - int c < 2 ^ 31"
    using e by simp_all
  have d: "(if 7 \<le> c \<and> 0 \<le> exp - int c \<and> exp - int c < 2 ^ expw binary32 - 3
      then (ucast (packToF32UI sign (exp - int c) (push_bit (c - 7) sig)), s)
      else softfloat_roundPackToF32 sign (exp - int c) (push_bit c sig) s)
    = ieee_result binary32 s sign (unat sig * 2 ^ nat exp) (7 + nat (- exp))"
    by (rule rp32.norm_round_pack [OF sig c_def range(3,4)])
  have "sig \<noteq> 0" using sig(1) by auto
  then have "softfloat_normRoundPackToF32 sign exp sig s =
     (if 7 \<le> int c \<and> 0 \<le> exp - int c \<and> exp - int c < 253
      then (ucast (packToF32UI sign (exp - int c) (push_bit (nat (int c - 7)) sig)), s)
      else softfloat_roundPackToF32 sign (exp - int c) (push_bit (nat (int c)) sig) s)"
    unfolding softfloat_normRoundPackToF32_def sh Let_def less_unsigned_32(2) [OF range(1,2)]
    by (simp only: if_True simp_thms ucast_id)
  moreover have "nat (int c - 7) = c - 7" "7 \<le> int c \<longleftrightarrow> 7 \<le> c" "(2 :: int) ^ expw binary32 - 3 = 253"
    by simp_all
  ultimately show "softfloat_normRoundPackToF32 sign exp sig s
    = ieee_result binary32 s sign (unat sig * 2 ^ nat exp) (7 + nat (- exp))"
    using d by (simp only: nat_int)
qed

interpretation nrp64: norm_round_pack binary64 signF64UI expF64UI fracF64UI packToF64UI 10 "2 ^ 15" softfloat_roundPackToF64
  softfloat_normRoundPackToF64
proof
  fix sig :: u64 and exp :: int and sign :: bool and s :: sf_state
  assume sig: "0 < unat sig" "unat sig < 2 ^ Suc (fracw binary64 + 10)"
    and e: "64 - 2 ^ 15 \<le> exp" "exp < 2 ^ 15"
  define c where "c = Suc (fracw binary64 + 10) - nbits (unat sig)"
  have "nbits (unat sig) \<le> 63" using sig(2) by (simp add: nbits_le_iff)
  then have sh: "int8 (uint (softfloat_countLeadingZeros64 sig) - 1) = int c"
    using clz64.norm_shift [of "sig" 1] sig(1) by (simp add: c_def)
  have "c < 64" using sig by (simp add: c_def)
  then have range: "- (2 ^ 31) \<le> exp - int c" "exp - int c < 2 ^ 31" "- (2 ^ 15) \<le> exp - int c" "exp - int c < 2 ^ 15"
    using e by simp_all
  have d: "(if 10 \<le> c \<and> 0 \<le> exp - int c \<and> exp - int c < 2 ^ expw binary64 - 3
      then (ucast (packToF64UI sign (exp - int c) (push_bit (c - 10) sig)), s)
      else softfloat_roundPackToF64 sign (exp - int c) (push_bit c sig) s)
    = ieee_result binary64 s sign (unat sig * 2 ^ nat exp) (10 + nat (- exp))"
    by (rule rp64.norm_round_pack [OF sig c_def range(3,4)])
  have "sig \<noteq> 0" using sig(1) by auto
  then have "softfloat_normRoundPackToF64 sign exp sig s =
     (if 10 \<le> int c \<and> 0 \<le> exp - int c \<and> exp - int c < 2045
      then (ucast (packToF64UI sign (exp - int c) (push_bit (nat (int c - 10)) sig)), s)
      else softfloat_roundPackToF64 sign (exp - int c) (push_bit (nat (int c)) sig) s)"
    unfolding softfloat_normRoundPackToF64_def sh Let_def less_unsigned_32(3) [OF range(1,2)]
    by (simp only: if_True simp_thms ucast_id)
  moreover have "nat (int c - 10) = c - 10" "10 \<le> int c \<longleftrightarrow> 10 \<le> c" "(2 :: int) ^ expw binary64 - 3 = 2045"
    by simp_all
  ultimately show "softfloat_normRoundPackToF64 sign exp sig s
    = ieee_result binary64 s sign (unat sig * 2 ^ nat exp) (10 + nat (- exp))"
    using d by (simp only: nat_int)
qed

section \<open>The specification of addition by cases\<close>

context float_format
begin

lemma inf_ord_pos: "0 < inf_ord f"
  using expw_pos one_less_power [of "2::nat" "expw f"] by (simp add: inf_ord_def)

lemma ieee_result_zero: "ieee_result f s sign 0 0 = zero_result f sign s"
  using ieee_result_exact [OF inf_ord_pos, of s sign] by (simp add: zero_result_def)

lemma magnitude_less: "ex a < ex b \<Longrightarrow> magnitude f a < magnitude f b"
proof -
  assume l: "ex a < ex b"
  then have "Suc (nat (ex a)) * 2 ^ fracw f \<le> nat (ex b) * 2 ^ fracw f"
    using ex_nonneg [of a] by (intro mult_le_mono1) simp
  then have "ordinal f a < ordinal f b"
    using fr_less [of a] by (simp add: ordinal_parts)
  then show ?thesis by (simp add: magnitude_def)
qed

lemma magnitude_less_fr: "ex a = ex b \<Longrightarrow> magnitude f a < magnitude f b \<longleftrightarrow> unat (fr a) < unat (fr b)"
  by (simp add: magnitude_def ordinal_parts)

lemma ieee_add_finite:
  assumes "\<not> is_nan f a" "\<not> is_nan f b" "\<not> is_inf f a" "\<not> is_inf f b"
  shows "negative f a = negative f b \<Longrightarrow>
      ieee_add f a b s = ieee_result f s (negative f a) (magnitude f a + magnitude f b) 0"
    and "negative f a \<noteq> negative f b \<Longrightarrow> magnitude f b < magnitude f a \<Longrightarrow>
      ieee_add f a b s = ieee_result f s (negative f a) (magnitude f a - magnitude f b) 0"
    and "negative f a \<noteq> negative f b \<Longrightarrow> magnitude f a < magnitude f b \<Longrightarrow>
      ieee_add f a b s = ieee_result f s (negative f b) (magnitude f b - magnitude f a) 0"
    and "negative f a \<noteq> negative f b \<Longrightarrow> magnitude f a = magnitude f b \<Longrightarrow>
      ieee_add f a b s = zero_result f (mode_of s = RDN) s"
proof -
  show "negative f a = negative f b \<Longrightarrow>
      ieee_add f a b s = ieee_result f s (negative f a) (magnitude f a + magnitude f b) 0"
    using assms
    by (cases "magnitude f a = 0 \<and> magnitude f b = 0")
      (auto simp: ieee_add_def fvalue_def Let_def nat_add_distrib add.commute ieee_result_zero)
  show "negative f a \<noteq> negative f b \<Longrightarrow> magnitude f b < magnitude f a \<Longrightarrow>
      ieee_add f a b s = ieee_result f s (negative f a) (magnitude f a - magnitude f b) 0"
    using assms by (cases "negative f a") (auto simp: ieee_add_def fvalue_def Let_def nat_diff_distrib)
  show "negative f a \<noteq> negative f b \<Longrightarrow> magnitude f a < magnitude f b \<Longrightarrow>
      ieee_add f a b s = ieee_result f s (negative f b) (magnitude f b - magnitude f a) 0"
    using assms by (cases "negative f a") (auto simp: ieee_add_def fvalue_def Let_def nat_diff_distrib)
  show "negative f a \<noteq> negative f b \<Longrightarrow> magnitude f a = magnitude f b \<Longrightarrow>
      ieee_add f a b s = zero_result f (mode_of s = RDN) s"
    using assms by (cases "negative f a") (auto simp: ieee_add_def fvalue_def Let_def)
qed

end

section \<open>Operands in the words of the format\<close>

locale float_word = float_class +
  fixes W :: "'w::len itself"
  assumes word_length: "LENGTH('w) = Suc (fracw f + expw f)"
begin

lemma unat_wide [simp]: "unat (ucast (x :: 'w word) :: u64) = unat x"
  using width by (intro unat_ucast_up) (simp add: word_length)

lemma unat_bound: "unat (x :: 'w word) < 2 ^ Suc (fracw f + expw f)"
  using unsigned_less [of x, where 'a = nat] by (simp only: word_length)

lemma class_wide [simp]:
  fixes x :: "'w word"
  shows "ordinal f (ucast x :: u64) = ordinal f x" "is_nan f (ucast x :: u64) = is_nan f x"
    "is_snan f (ucast x :: u64) = is_snan f x" "is_inf f (ucast x :: u64) = is_inf f x"
    "magnitude f (ucast x :: u64) = magnitude f x" "negative f (ucast x :: u64) = negative f x"
  by (simp_all add: ordinal_def is_nan_def is_snan_def is_inf_def magnitude_def negative_def)

lemma special_wide: "ex (ucast (x :: 'w word)) = 2 ^ expw f - 1 \<longleftrightarrow> is_nan f x \<or> is_inf f x"
  by (simp add: special_fields)

lemma frac_special:
  fixes x :: "'w word"
  shows "is_nan f x \<Longrightarrow> fr (ucast x) \<noteq> 0" "is_inf f x \<Longrightarrow> fr (ucast x) = 0"
  using is_nan_fields [of "ucast x"] is_inf_fields [of "ucast x"] by simp_all

lemma not_nan_inf: "is_nan f x \<Longrightarrow> \<not> is_inf f x"
  by (simp add: is_nan_def is_inf_def)

lemma sgn_wide [simp]: "sgn (ucast (x :: 'w word)) = negative f x"
  using sgn_negative [of "ucast x"] unat_bound [of x] by simp

lemma unat_split: "unat (x :: 'w word) = sign_ord f (negative f x) + ordinal f x"
  using unat_parts [of "ucast x"] unat_bound [of x] by simp

lemma ordinal_wide: "ordinal f (x :: 'w word) = nat (ex (ucast x)) * 2 ^ fracw f + unat (fr (ucast x))"
  using ordinal_parts [of "ucast x"] by simp

lemma inf_self: "is_inf f (x :: 'w word) \<Longrightarrow> (x, s) = inf_result f (negative f x) s"
proof -
  assume "is_inf f x"
  then have "unat x = sign_ord f (negative f x) + inf_ord f"
    using unat_split [of x] by (simp add: is_inf_def)
  from word_eq_of_unat [OF this] show ?thesis by (simp add: inf_result_def)
qed

lemma operand_cases:
  fixes x :: "'w word"
  obtains (nan) "ex (ucast x) = 2 ^ expw f - 1" "fr (ucast x) \<noteq> 0" "is_nan f x" "\<not> is_inf f x"
  | (infinite) "ex (ucast x) = 2 ^ expw f - 1" "fr (ucast x) = 0" "\<not> is_nan f x" "\<not> is_snan f x" "is_inf f x"
  | (finite) "0 \<le> ex (ucast x)" "ex (ucast x) < 2 ^ expw f - 1" "ex (ucast x) \<noteq> 2 ^ expw f - 1"
      "\<not> is_nan f x" "\<not> is_snan f x" "\<not> is_inf f x"
proof -
  have l: "ex (ucast x) < 2 ^ expw f" "0 \<le> ex (ucast x)" by (simp_all add: ex_less ex_nonneg)
  consider "is_nan f x" | "is_inf f x" | "\<not> is_nan f x" "\<not> is_inf f x" by blast
  then show thesis
  proof cases
    case 1
    then show thesis using nan special_wide [of x] frac_special not_nan_inf by blast
  next
    case 2
    then show thesis
      using infinite special_wide [of x] frac_special not_nan_inf [of x] by (auto simp: is_snan_def)
  next
    case 3
    then show thesis using finite special_wide [of x] l by (auto simp: is_snan_def)
  qed
qed

lemma narrow_wide [simp]: "(ucast (ucast (x :: 'w word) :: u64) :: 'w word) = x"
  by (simp add: word_eq_iff_unat unat_ucast_mod)

end

context float_word
begin

lemma ordinal_mod: "ordinal f (x :: 'w word) = unat x mod 2 ^ (fracw f + expw f)"
  by (simp add: ordinal_def)

lemma negative_bit: "negative f (x :: 'w word) \<longleftrightarrow> bit x (fracw f + expw f)"
proof -
  have "unat x div 2 ^ (fracw f + expw f) < 2"
    using unat_bound [of x] by (simp add: less_mult_imp_div_less)
  moreover have "bit x (fracw f + expw f) \<longleftrightarrow> odd (unat x div 2 ^ (fracw f + expw f))"
    by (metis bit_iff_odd bit_unsigned_iff possible_bit_nat)
  moreover have "negative f x \<longleftrightarrow> 0 < unat x div 2 ^ (fracw f + expw f)"
    by (simp add: negative_def div_greater_zero_iff)
  moreover have "q < 2 \<Longrightarrow> odd q \<longleftrightarrow> 0 < q" for q :: nat by presburger
  ultimately show ?thesis by simp
qed

lemma neg_simps [simp]:
  fixes b :: "'w word"
  shows "ordinal f (ieee_neg f b) = ordinal f b" "negative f (ieee_neg f b) = (\<not> negative f b)"
    "is_nan f (ieee_neg f b) = is_nan f b" "is_snan f (ieee_neg f b) = is_snan f b"
    "is_inf f (ieee_neg f b) = is_inf f b" "magnitude f (ieee_neg f b) = magnitude f b"
    "ex (ucast (ieee_neg f b)) = ex (ucast b)" "fr (ucast (ieee_neg f b)) = fr (ucast b)"
proof -
  have "unat (ieee_neg f b) mod 2 ^ (fracw f + expw f) = unat b mod 2 ^ (fracw f + expw f)"
    unfolding take_bit_eq_mod [symmetric] by (rule bit_eqI) (auto simp: bit_simps ieee_neg_def)
  then show o: "ordinal f (ieee_neg f b) = ordinal f b" by (simp only: ordinal_mod)
  show "negative f (ieee_neg f b) = (\<not> negative f b)"
    using word_length by (simp add: negative_bit ieee_neg_def bit_simps)
  show "is_nan f (ieee_neg f b) = is_nan f b" "is_snan f (ieee_neg f b) = is_snan f b"
    "is_inf f (ieee_neg f b) = is_inf f b" "magnitude f (ieee_neg f b) = magnitude f b"
    by (simp_all add: is_nan_def is_snan_def is_inf_def magnitude_def o)
  have l: "unat (fr x) < 2 ^ fracw f" for x by (rule fr_less)
  have e: "nat (ex (ucast x)) = ordinal f x div 2 ^ fracw f" "unat (fr (ucast x)) = ordinal f x mod 2 ^ fracw f"
    for x :: "'w word"
    using l [of "ucast x"] by (simp_all add: ordinal_wide)
  then show "ex (ucast (ieee_neg f b)) = ex (ucast b)"
    using ex_nonneg [of "ucast b"] ex_nonneg [of "ucast (ieee_neg f b)"]
    by (simp only: eq_nat_nat_iff [symmetric] e(1) o)
  show "fr (ucast (ieee_neg f b)) = fr (ucast b)"
    by (simp only: word_eq_iff_unat e(2) o)
qed

lemma propagate_neg: "propagateNaN x (ucast (ieee_neg f (b :: 'w word))) s = propagateNaN x (ucast b) s"
  by (simp add: propagateNaN_law isSigNaN_law)

lemma sgn_xor: "sgn (ucast (a :: 'w word) XOR ucast (b :: 'w word)) \<longleftrightarrow> negative f a \<noteq> negative f b"
proof -
  have "ucast a XOR ucast b = (ucast (a XOR b) :: u64)" by (rule bit_eqI) (auto simp: bit_simps)
  then show ?thesis using word_length by (simp add: negative_bit bit_simps)
qed

end

interpretation w16: float_word binary16 signF16UI expF16UI fracF16UI packToF16UI
  isNaNF16UI softfloat_isSigNaNF16UI defaultNaNF16UI softfloat_propagateNaNF16UI "TYPE(16)"
  by unfold_locales simp

interpretation w32: float_word binary32 signF32UI expF32UI fracF32UI packToF32UI
  isNaNF32UI softfloat_isSigNaNF32UI defaultNaNF32UI softfloat_propagateNaNF32UI "TYPE(32)"
  by unfold_locales simp

interpretation w64: float_word binary64 signF64UI expF64UI fracF64UI packToF64UI
  isNaNF64UI softfloat_isSigNaNF64UI defaultNaNF64UI softfloat_propagateNaNF64UI "TYPE(64)"
  by unfold_locales simp

lemma or_eq_0_64: "(x OR y = 0) \<longleftrightarrow> x = 0 \<and> y = (0 :: u64)"
  by (auto simp: bit_eq_iff bit_simps)

lemma narrow_pair: "(case p of (u, s) \<Rightarrow> (ucast u, s)) = map_prod ucast id p"
  by (cases p) simp

lemma push_frac_0:
  fixes x :: u64
  assumes "unat x < 2 ^ n" "n + k \<le> 64"
  shows "push_bit k x = 0 \<longleftrightarrow> x = 0"
proof -
  have "unat x * 2 ^ k < 2 ^ n * 2 ^ k" using assms(1) by (intro mult_less_mono1) simp_all
  also have "\<dots> \<le> 2 ^ LENGTH(64)" unfolding power_add [symmetric] using assms(2) by (intro power_increasing) simp_all
  finally show ?thesis by (simp only: word_eq_0_iff unat_push_no_wrap) simp
qed

context float_format
begin

lemma exponent_bits_0: "(word_of_int (ex a) :: u64) = 0 \<longleftrightarrow> ex a = 0"
proof -
  have "(2::int) ^ expw f \<le> 2 ^ LENGTH(64)" using width by (intro power_increasing) simp_all
  then have "ex a < 2 ^ LENGTH(64)" using ex_less [of a] by linarith
  then show ?thesis using ex_nonneg [of a] by (simp add: word_eq_iff_unat unat_word_of_int_nat)
qed

lemma ieee_result_0: "ieee_result f s sign 0 j = zero_result f sign s"
  using ieee_result_cross [of 0 0 0 j f s sign] by (simp add: ieee_result_zero)

end

context float_word
begin

lemma number_cases:
  fixes x :: "'w word"
  obtains (nan) "ex (ucast x) = 2 ^ expw f - 1" "fr (ucast x) \<noteq> 0" "is_nan f x" "\<not> is_inf f x"
  | (infinite) "ex (ucast x) = 2 ^ expw f - 1" "fr (ucast x) = 0" "\<not> is_nan f x" "\<not> is_snan f x"
      "is_inf f x" "magnitude f x \<noteq> 0"
  | (zero) "ex (ucast x) = 0" "fr (ucast x) = 0" "\<not> is_nan f x" "\<not> is_snan f x" "\<not> is_inf f x" "magnitude f x = 0"
  | (nonzero) "\<not> (ex (ucast x) = 0 \<and> fr (ucast x) = 0)" "0 \<le> ex (ucast x)" "ex (ucast x) < 2 ^ expw f - 1"
      "ex (ucast x) \<noteq> 2 ^ expw f - 1"
      "\<not> is_nan f x" "\<not> is_snan f x" "\<not> is_inf f x" "magnitude f x \<noteq> 0"
proof (cases x rule: operand_cases)
  case nan
  then show thesis by (rule that(1))
next
  case infinite
  have "(1::int) < 2 ^ expw f" using expw_pos by simp
  then have "magnitude f x \<noteq> 0" using infinite magnitude_eq_0 [of "ucast x"] by simp
  with infinite show thesis by (intro that(2))
next
  case finite
  then show thesis using that(3,4) magnitude_eq_0 [of "ucast x"] by (cases "magnitude f x = 0") auto
qed

end

section \<open>Normalised operands\<close>

context float_format
begin

lemma norm_push:
  fixes x :: u64
  assumes "0 < unat x" "unat x < 2 ^ fracw f"
  shows "unat (push_bit (Suc (fracw f) - nbits (unat x)) x) = unat x * 2 ^ (Suc (fracw f) - nbits (unat x))"
proof (rule unat_push_no_wrap)
  have "nbits (unat x) \<le> fracw f" using assms by (simp only: nbits_le_iff)
  then have "nbits (unat x * 2 ^ (Suc (fracw f) - nbits (unat x))) \<le> LENGTH(64)"
    using assms width by (simp add: nbits_mult_pow)
  then show "unat x * 2 ^ (Suc (fracw f) - nbits (unat x)) < 2 ^ LENGTH(64)" by (simp only: nbits_le_iff)
qed

end

locale norm_subnormal = float_format +
  fixes nse :: "u64 \<Rightarrow> int" and nss :: "u64 \<Rightarrow> u64"
  assumes norm_exp_law: "0 < unat x \<Longrightarrow> unat x < 2 ^ fracw f \<Longrightarrow> nse x = 1 - int (Suc (fracw f) - nbits (unat x))"
    and norm_sig_law: "0 < unat x \<Longrightarrow> unat x < 2 ^ fracw f \<Longrightarrow>
      unat (nss x) = unat x * 2 ^ (Suc (fracw f) - nbits (unat x))"
begin

text \<open>Exponent and significand of a finite, nonzero operand, as the code normalises them.\<close>

definition nexp :: "u64 \<Rightarrow> int" where
  "nexp a = (if ex a = 0 then nse (fr a) else ex a)"

definition nsig :: "u64 \<Rightarrow> u64" where
  "nsig a = (if ex a = 0 then nss (fr a) else fr a)"

lemma norm_pair:
  "(if ex a = 0 then (nse (fr a), nss (fr a)) else (ex a, fr a)) = (nexp a, nsig a)"
  by (simp add: nexp_def nsig_def)

lemma norm_operand:
  assumes nz: "\<not> (ex a = 0 \<and> fr a = 0)" and h: "unat h = 2 ^ fracw f"
  shows "2 ^ fracw f \<le> unat (nsig a OR h)" "unat (nsig a OR h) < 2 ^ Suc (fracw f)"
    "unat (nsig a OR h) * 2 ^ nat (nexp a - 1 + int (fracw f)) = magnitude f a * 2 ^ fracw f"
    "1 - int (fracw f) \<le> nexp a" "nexp a \<le> ex a" "unat (nsig a) < 2 ^ Suc (fracw f)"
    "ex a \<noteq> 0 \<Longrightarrow> unat (nsig a) < 2 ^ fracw f"
proof -
  have "2 ^ fracw f \<le> unat (nsig a OR h) \<and> unat (nsig a OR h) < 2 ^ Suc (fracw f)
    \<and> unat (nsig a OR h) * 2 ^ nat (nexp a - 1 + int (fracw f)) = magnitude f a * 2 ^ fracw f
    \<and> 1 - int (fracw f) \<le> nexp a \<and> nexp a \<le> ex a \<and> unat (nsig a) < 2 ^ Suc (fracw f)
    \<and> (ex a \<noteq> 0 \<longrightarrow> unat (nsig a) < 2 ^ fracw f)"
  proof (cases "ex a = 0")
    case True
    define x where "x = unat (fr a)"
    have x: "0 < x" "x < 2 ^ fracw f" using nz True fr_less [of a] by (auto simp: x_def word_neq_0_iff)
    define c where "c = Suc (fracw f) - nbits x"
    have n: "nbits x \<le> fracw f" "0 < nbits x" using x nbits_le_iff [of x "fracw f"] nbits_pos [of x] by simp_all
    have s: "unat (nsig a) = x * 2 ^ c" and e: "nexp a = 1 - int c"
      using True x norm_exp_law [of "fr a"] norm_sig_law [of "fr a"] by (simp_all add: nsig_def nexp_def x_def c_def)
    have nb: "nbits (x * 2 ^ c) = Suc (fracw f)" using x n by (simp add: nbits_mult_pow c_def)
    then have l: "2 ^ fracw f \<le> x * 2 ^ c" "x * 2 ^ c < 2 ^ Suc (fracw f)"
      by (subst less_nbits_iff [symmetric] nbits_le_iff [symmetric], simp)+
    have "x * 2 ^ c OR 2 ^ fracw f = x * 2 ^ c"
    proof -
      have d: "x * 2 ^ c = 1 * 2 ^ fracw f + (x * 2 ^ c - 2 ^ fracw f)" using l by simp
      have r: "x * 2 ^ c - 2 ^ fracw f < 2 ^ fracw f" using l by simp
      have "x * 2 ^ c = 1 * 2 ^ fracw f OR (x * 2 ^ c - 2 ^ fracw f)"
        using or_eq_add_nat [OF r, of 1] d by simp
      then show ?thesis by (metis mult_1 or.assoc or.commute or.idem)
    qed
    then have u: "unat (nsig a OR h) = x * 2 ^ c" by (simp only: unat_or s h)
    have "nat (nexp a - 1 + int (fracw f)) = fracw f - c" using n by (simp add: e c_def)
    moreover have "c \<le> fracw f" using n by (simp add: c_def)
    ultimately have "x * 2 ^ c * 2 ^ nat (nexp a - 1 + int (fracw f)) = magnitude f a * 2 ^ fracw f"
      using True by (simp add: magnitude_fields x_def power_add [symmetric] mult.assoc)
    then show ?thesis using l u s e True \<open>c \<le> fracw f\<close> n by (simp add: c_def)
  next
    case False
    have l: "unat (fr a) < 2 ^ fracw f" by (rule fr_less)
    have "unat (nsig a OR h) = 2 ^ fracw f + unat (fr a)"
      using False or_eq_add_nat [OF l, of 1] by (simp add: nsig_def unat_or h or.commute)
    moreover have pos: "0 < ex a" using False ex_nonneg [of a] by simp
    moreover have "nat (nexp a - 1 + int (fracw f)) = nat (ex a) - 1 + fracw f"
      using False pos by (simp add: nexp_def)
    moreover have "(2::nat) ^ (nat (ex a) - 1 + fracw f) = 2 ^ (nat (ex a) - 1) * 2 ^ fracw f" by (rule power_add)
    ultimately show ?thesis
      using l False by (simp add: magnitude_fields nsig_def nexp_def ac_simps)
  qed
  then show "2 ^ fracw f \<le> unat (nsig a OR h)" "unat (nsig a OR h) < 2 ^ Suc (fracw f)"
    "unat (nsig a OR h) * 2 ^ nat (nexp a - 1 + int (fracw f)) = magnitude f a * 2 ^ fracw f"
    "1 - int (fracw f) \<le> nexp a" "nexp a \<le> ex a" "unat (nsig a) < 2 ^ Suc (fracw f)"
    "ex a \<noteq> 0 \<Longrightarrow> unat (nsig a) < 2 ^ fracw f" by blast+
qed

end

interpretation ns16: norm_subnormal binary16 signF16UI expF16UI fracF16UI packToF16UI
  "\<lambda>x. es16_exp (softfloat_normSubnormalF16Sig x)" "\<lambda>x. es16_sig (softfloat_normSubnormalF16Sig x)"
proof
  fix x :: u64
  assume x: "0 < unat x" "unat x < 2 ^ fracw binary16"
  then have n: "nbits (unat x) \<le> 10" "0 < nbits (unat x)" using nbits_pos [of "unat x"] by (simp_all add: nbits_le_iff)
  have u: "unat (ucast x :: u16) = unat x" using x by (simp add: unat_ucast_mod)
  have sh: "int8 (uint (softfloat_countLeadingZeros16 (ucast x)) - 5) = int (Suc (fracw binary16) - nbits (unat x))"
    using clz16.norm_shift [of "(ucast x)" 5] x n by (simp add: u)
  show "es16_exp (softfloat_normSubnormalF16Sig x) = 1 - int (Suc (fracw binary16) - nbits (unat x))"
    unfolding softfloat_normSubnormalF16Sig_def sh Let_def using n by simp
  show "unat (es16_sig (softfloat_normSubnormalF16Sig x)) = unat x * 2 ^ (Suc (fracw binary16) - nbits (unat x))"
    unfolding softfloat_normSubnormalF16Sig_def sh Let_def nat_int using f16.norm_push [OF x] by simp
qed

interpretation ns32: norm_subnormal binary32 signF32UI expF32UI fracF32UI packToF32UI
  "\<lambda>x. es32_exp (softfloat_normSubnormalF32Sig x)" "\<lambda>x. es32_sig (softfloat_normSubnormalF32Sig x)"
proof
  fix x :: u64
  assume x: "0 < unat x" "unat x < 2 ^ fracw binary32"
  then have n: "nbits (unat x) \<le> 23" "0 < nbits (unat x)" using nbits_pos [of "unat x"] by (simp_all add: nbits_le_iff)
  have u: "unat (ucast x :: u32) = unat x" using x by (simp add: unat_ucast_mod)
  have sh: "int8 (uint (softfloat_countLeadingZeros32 (ucast x)) - 8) = int (Suc (fracw binary32) - nbits (unat x))"
    using clz32.norm_shift [of "(ucast x)" 8] x n by (simp add: u)
  show "es32_exp (softfloat_normSubnormalF32Sig x) = 1 - int (Suc (fracw binary32) - nbits (unat x))"
    unfolding softfloat_normSubnormalF32Sig_def sh Let_def using n by simp
  show "unat (es32_sig (softfloat_normSubnormalF32Sig x)) = unat x * 2 ^ (Suc (fracw binary32) - nbits (unat x))"
    unfolding softfloat_normSubnormalF32Sig_def sh Let_def nat_int using f32.norm_push [OF x] by simp
qed

interpretation ns64: norm_subnormal binary64 signF64UI expF64UI fracF64UI packToF64UI
  "\<lambda>x. es64_exp (softfloat_normSubnormalF64Sig x)" "\<lambda>x. es64_sig (softfloat_normSubnormalF64Sig x)"
proof
  fix x :: u64
  assume x: "0 < unat x" "unat x < 2 ^ fracw binary64"
  then have n: "nbits (unat x) \<le> 52" "0 < nbits (unat x)" using nbits_pos [of "unat x"] by (simp_all add: nbits_le_iff)
  have sh: "int8 (uint (softfloat_countLeadingZeros64 x) - 11) = int (Suc (fracw binary64) - nbits (unat x))"
    using clz64.norm_shift [of "x" 11] x n by (simp)
  show "es64_exp (softfloat_normSubnormalF64Sig x) = 1 - int (Suc (fracw binary64) - nbits (unat x))"
    unfolding softfloat_normSubnormalF64Sig_def sh Let_def using n by simp
  show "unat (es64_sig (softfloat_normSubnormalF64Sig x)) = unat x * 2 ^ (Suc (fracw binary64) - nbits (unat x))"
    unfolding softfloat_normSubnormalF64Sig_def sh Let_def nat_int using f64.norm_push [OF x] by simp
qed


lemma propagateNaNF64UI_result:
  "softfloat_propagateNaNF64UI a b s = nan_result binary64 (is_snan binary64 a \<or> is_snan binary64 b) s"
  using c64.propagate_nan [of a b s, where 'w = 64] by (simp add: c64.propagateNaN_law)


section \<open>Properties\<close>

lemma roundPackToF16_correct:
  "normed binary16 4 (unat sig) \<Longrightarrow> - (2 ^ 31) \<le> exp \<Longrightarrow> exp < 2 ^ 31 \<Longrightarrow>
    softfloat_roundPackToF16 sign exp sig s = ieee_result binary16 s sign (unat sig * 2 ^ nat exp) (4 + nat (- exp))"
  by (rule rp16.round_pack_law)

lemma roundPackToF16_correct_witness:
  "softfloat_roundPackToF16 False 12 0x5003 init_sf_state
    = ieee_result binary16 init_sf_state False (unat (0x5003 :: u64) * 2 ^ 12) 4"
  using roundPackToF16_correct [of "0x5003" 12 False init_sf_state] by (simp add: normed_def)

lemma roundPackToBF16_correct:
  "normed bfloat16_fmt 7 (unat sig) \<Longrightarrow> - (2 ^ 31) \<le> exp \<Longrightarrow> exp < 2 ^ 31 \<Longrightarrow>
    softfloat_roundPackToBF16 sign exp sig s = ieee_result bfloat16_fmt s sign (unat sig * 2 ^ nat exp) (7 + nat (- exp))"
  by (rule rpb16.round_pack_law)

lemma roundPackToBF16_correct_witness:
  "softfloat_roundPackToBF16 False 120 0x5003 init_sf_state
    = ieee_result bfloat16_fmt init_sf_state False (unat (0x5003 :: u64) * 2 ^ 120) 7"
  using roundPackToBF16_correct [of "0x5003" 120 False init_sf_state] by (simp add: normed_def)

lemma roundPackToF32_correct:
  "normed binary32 7 (unat sig) \<Longrightarrow> - (2 ^ 31) \<le> exp \<Longrightarrow> exp < 2 ^ 31 \<Longrightarrow>
    softfloat_roundPackToF32 sign exp sig s = ieee_result binary32 s sign (unat sig * 2 ^ nat exp) (7 + nat (- exp))"
  by (rule rp32.round_pack_law)

lemma roundPackToF32_correct_witness:
  "softfloat_roundPackToF32 False 120 0x50000003 init_sf_state
    = ieee_result binary32 init_sf_state False (unat (0x50000003 :: u64) * 2 ^ 120) 7"
  using roundPackToF32_correct [of "0x50000003" 120 False init_sf_state] by (simp add: normed_def)

lemma roundPackToF64_correct:
  "normed binary64 10 (unat sig) \<Longrightarrow> - (2 ^ 15) \<le> exp \<Longrightarrow> exp < 2 ^ 15 \<Longrightarrow>
    softfloat_roundPackToF64 sign exp sig s = ieee_result binary64 s sign (unat sig * 2 ^ nat exp) (10 + nat (- exp))"
  by (rule rp64.round_pack_law)

lemma roundPackToF64_correct_witness:
  "softfloat_roundPackToF64 False 1000 0x5000000000000003 init_sf_state
    = ieee_result binary64 init_sf_state False (unat (0x5000000000000003 :: u64) * 2 ^ 1000) 10"
  using roundPackToF64_correct [of "0x5000000000000003" 1000 False init_sf_state] by (simp add: normed_def)

lemma normRoundPackToF32_correct:
  "0 < unat sig \<Longrightarrow> unat sig < 2 ^ Suc (fracw binary32 + 7) \<Longrightarrow> 64 - 2 ^ 31 \<le> exp \<Longrightarrow> exp < 2 ^ 31 \<Longrightarrow>
    softfloat_normRoundPackToF32 sign exp sig s = ieee_result binary32 s sign (unat sig * 2 ^ nat exp) (7 + nat (- exp))"
  by (rule nrp32.norm_round_pack_law)

lemma normRoundPackToF32_correct_witness:
  "softfloat_normRoundPackToF32 True 100 0x123 init_sf_state
    = ieee_result binary32 init_sf_state True (unat (0x123 :: u64) * 2 ^ 100) 7"
  using normRoundPackToF32_correct [of "0x123" 100 True init_sf_state] by simp

lemma normRoundPackToF64_correct:
  "0 < unat sig \<Longrightarrow> unat sig < 2 ^ Suc (fracw binary64 + 10) \<Longrightarrow> 64 - 2 ^ 15 \<le> exp \<Longrightarrow> exp < 2 ^ 15 \<Longrightarrow>
    softfloat_normRoundPackToF64 sign exp sig s = ieee_result binary64 s sign (unat sig * 2 ^ nat exp) (10 + nat (- exp))"
  by (rule nrp64.norm_round_pack_law)

lemma normRoundPackToF64_correct_witness:
  "softfloat_normRoundPackToF64 True 100 0x123 init_sf_state
    = ieee_result binary64 init_sf_state True (unat (0x123 :: u64) * 2 ^ 100) 10"
  using normRoundPackToF64_correct [of "0x123" 100 True init_sf_state] by simp

lemma round_pack_correct:
  assumes "normed binary32 7 (unat sig1)" "- (2 ^ 31) \<le> e1" "e1 < 2 ^ 31"
    and "normed binary64 10 (unat sig2)" "- (2 ^ 15) \<le> e2" "e2 < 2 ^ 15"
    and "normed bfloat16_fmt 7 (unat sig3)" "- (2 ^ 31) \<le> e3" "e3 < 2 ^ 31"
  shows "softfloat_roundPackToF32 sign e1 sig1 s = ieee_result binary32 s sign (unat sig1 * 2 ^ nat e1) (7 + nat (- e1))
    \<and> softfloat_roundPackToF64 sign e2 sig2 s = ieee_result binary64 s sign (unat sig2 * 2 ^ nat e2) (10 + nat (- e2))
    \<and> softfloat_roundPackToBF16 sign e3 sig3 s = ieee_result bfloat16_fmt s sign (unat sig3 * 2 ^ nat e3) (7 + nat (- e3))"
  using assms by (intro conjI roundPackToF32_correct roundPackToF64_correct roundPackToBF16_correct)

lemma round_pack_correct_witness:
  "softfloat_roundPackToF64 False 1000 0x5000000000000003 init_sf_state
    = ieee_result binary64 init_sf_state False (unat (0x5000000000000003 :: u64) * 2 ^ 1000) 10"
  using round_pack_correct [of "0x50000003" 120 "0x5000000000000003" 1000 "0x5003" 120 False init_sf_state]
  by (simp add: normed_def)

lemma norm_round_pack_correct:
  assumes "0 < unat sig1" "unat sig1 < 2 ^ Suc (fracw binary32 + 7)" "64 - 2 ^ 31 \<le> e1" "e1 < 2 ^ 31"
    and "0 < unat sig2" "unat sig2 < 2 ^ Suc (fracw binary64 + 10)" "64 - 2 ^ 15 \<le> e2" "e2 < 2 ^ 15"
  shows "softfloat_normRoundPackToF32 sign e1 sig1 s = ieee_result binary32 s sign (unat sig1 * 2 ^ nat e1) (7 + nat (- e1))
    \<and> softfloat_normRoundPackToF64 sign e2 sig2 s = ieee_result binary64 s sign (unat sig2 * 2 ^ nat e2) (10 + nat (- e2))"
  using assms by (intro conjI normRoundPackToF32_correct normRoundPackToF64_correct)

lemma norm_round_pack_correct_witness:
  "softfloat_normRoundPackToF64 True 100 0x123 init_sf_state
    = ieee_result binary64 init_sf_state True (unat (0x123 :: u64) * 2 ^ 100) 10"
  using norm_round_pack_correct [of "0x123" 100 "0x123" 100 True init_sf_state] by simp

text \<open>C31: Given a normalised significand and any exponent in range, softfloat_roundPackToF32,
  softfloat_roundPackToF64 and softfloat_roundPackToBF16 return the correctly rounded number
  with the flags for overflow, underflow (tininess before or after rounding) and inexact, in
  every rounding mode, on the overflow, subnormal and normal branches.
  softfloat_normRoundPackToF32 and softfloat_normRoundPackToF64 normalise any nonzero
  significand that fits, by its leading zeros, and return the correctly rounded number with
  its flags; the shortcut that packs without rounding is exact.\<close>

theorem rounding_packing_correct:
  assumes "normed binary32 7 (unat sig1)" "- (2 ^ 31) \<le> e1" "e1 < 2 ^ 31"
    and "normed binary64 10 (unat sig2)" "- (2 ^ 15) \<le> e2" "e2 < 2 ^ 15"
    and "normed bfloat16_fmt 7 (unat sig3)" "- (2 ^ 31) \<le> e3" "e3 < 2 ^ 31"
    and "0 < unat sig4" "unat sig4 < 2 ^ Suc (fracw binary32 + 7)" "64 - 2 ^ 31 \<le> e4" "e4 < 2 ^ 31"
    and "0 < unat sig5" "unat sig5 < 2 ^ Suc (fracw binary64 + 10)" "64 - 2 ^ 15 \<le> e5" "e5 < 2 ^ 15"
  shows "softfloat_roundPackToF32 sign e1 sig1 s = ieee_result binary32 s sign (unat sig1 * 2 ^ nat e1) (7 + nat (- e1))
    \<and> softfloat_roundPackToF64 sign e2 sig2 s = ieee_result binary64 s sign (unat sig2 * 2 ^ nat e2) (10 + nat (- e2))
    \<and> softfloat_roundPackToBF16 sign e3 sig3 s = ieee_result bfloat16_fmt s sign (unat sig3 * 2 ^ nat e3) (7 + nat (- e3))
    \<and> softfloat_normRoundPackToF32 sign e4 sig4 s = ieee_result binary32 s sign (unat sig4 * 2 ^ nat e4) (7 + nat (- e4))
    \<and> softfloat_normRoundPackToF64 sign e5 sig5 s = ieee_result binary64 s sign (unat sig5 * 2 ^ nat e5) (10 + nat (- e5))"
  using assms by (intro conjI roundPackToF32_correct roundPackToF64_correct roundPackToBF16_correct
      normRoundPackToF32_correct normRoundPackToF64_correct)

lemma rounding_packing_correct_witness:
  "softfloat_roundPackToF64 False 1000 0x5000000000000003 init_sf_state
    = ieee_result binary64 init_sf_state False (unat (0x5000000000000003 :: u64) * 2 ^ 1000) 10
    \<and> softfloat_normRoundPackToF64 False 100 0x123 init_sf_state
    = ieee_result binary64 init_sf_state False (unat (0x123 :: u64) * 2 ^ 100) 10"
  using rounding_packing_correct [of "0x50000003" 120 "0x5000000000000003" 1000 "0x5003" 120 "0x123" 100 "0x123" 100 False init_sf_state]
  by (simp add: normed_def)

end
