(* ===== verification/SF_AddSub.thy ===== *)
theory SF_AddSub
  imports IEEE_Spec
begin

text \<open>
  Addition and subtraction: \<open>s_addMagsF*.c\<close>, \<open>s_subMagsF*.c\<close>, \<open>f*_add.c\<close> and \<open>f*_sub.c\<close>
  for binary16, binary32 and binary64.  The labels \<open>addEpsilon\<close> and \<open>subEpsilon\<close> of the
  binary16 routines are definitions of their own; \<open>propagateNaN\<close> is a local value.
\<close>

section \<open>Definitions\<close>

definition softfloat_addEpsilonF16 :: "u64 \<Rightarrow> sf_state \<Rightarrow> float16 \<times> sf_state" where
  "softfloat_addEpsilonF16 uiZ s =
     (let roundingMode = softfloat_roundingMode s;
          (uiZ, s) = (if roundingMode \<noteq> softfloat_round_near_even
             then if roundingMode = (if signF16UI uiZ then softfloat_round_min else softfloat_round_max)
                  then let uiZ = uiZ + 1
                       in (uiZ, if (ucast (push_bit 1 uiZ) :: u16) = 0xF800
                                then softfloat_raiseFlags (softfloat_flag_overflow OR softfloat_flag_inexact) s
                                else s)
                  else if roundingMode = softfloat_round_odd then (uiZ OR 1, s)
                  else (uiZ, s)
             else (uiZ, s))
      in (ucast uiZ, set_inexact s))"

definition softfloat_addMagsF16 :: "u64 \<Rightarrow> u64 \<Rightarrow> sf_state \<Rightarrow> float16 \<times> sf_state" where
  "softfloat_addMagsF16 uiA uiB s =
     (let expA = expF16UI uiA;
          sigA = fracF16UI uiA;
          expB = expF16UI uiB;
          sigB = fracF16UI uiB;
          propagateNaN = (let (uiZ, s) = softfloat_propagateNaNF16UI uiA uiB s in (ucast uiZ, s));
          expDiff = int8 (expA - expB);
          signZ = signF16UI uiA
      in if expDiff = 0
         then if expA = 0 then (ucast (uiA + sigB), s)
              else if expA = 0x1F
              then if sigA OR sigB \<noteq> 0 then propagateNaN else (ucast uiA, s)
              else let expZ = expA;
                       sigZ = 0x0800 + sigA + sigB
                   in if sigZ AND 1 = 0 \<and> expZ < 0x1E
                      then (ucast (packToF16UI signZ expZ (drop_bit 1 sigZ)), s)
                      else softfloat_roundPackToF16 signZ expZ (push_bit 3 sigZ) s
         else if expDiff < 0 \<and> expB = 0x1F
         then if sigB \<noteq> 0 then propagateNaN else (ucast (packToF16UI signZ 0x1F 0), s)
         else if expDiff < 0 \<and> expDiff \<le> - 13
         then let uiZ = packToF16UI signZ expB sigB
              in if expA \<noteq> 0 \<or> sigA \<noteq> 0 then softfloat_addEpsilonF16 uiZ s else (ucast uiZ, s)
         else if \<not> expDiff < 0 \<and> expA = 0x1F
         then if sigA \<noteq> 0 then propagateNaN else (ucast uiA, s)
         else if \<not> expDiff < 0 \<and> 13 \<le> expDiff
         then if expB \<noteq> 0 \<or> sigB \<noteq> 0 then softfloat_addEpsilonF16 uiA s else (ucast uiA, s)
         else let (expZ, sigX, sigY, shiftDist) = (if expDiff < 0
                    then (expB, sigB OR 0x0400, sigA + (if expA \<noteq> 0 then 0x0400 else sigA), int8 (19 + expDiff))
                    else (expA, sigA OR 0x0400, sigB + (if expB \<noteq> 0 then 0x0400 else sigB), int8 (19 - expDiff)));
                  sig32Z = push_bit 19 sigX + push_bit (nat shiftDist) sigY;
                  (expZ, sig32Z) = (if sig32Z < 0x40000000 then (int8 (expZ - 1), push_bit 1 sig32Z)
                                    else (expZ, sig32Z));
                  sigZ = drop_bit 16 sig32Z
              in if sig32Z AND 0xFFFF \<noteq> 0
                 then softfloat_roundPackToF16 signZ expZ (sigZ OR 1) s
                 else if sigZ AND 0xF = 0 \<and> expZ < 0x1E
                 then (ucast (packToF16UI signZ expZ (drop_bit 4 sigZ)), s)
                 else softfloat_roundPackToF16 signZ expZ sigZ s)"

definition softfloat_addMagsF32 :: "u64 \<Rightarrow> u64 \<Rightarrow> sf_state \<Rightarrow> float32 \<times> sf_state" where
  "softfloat_addMagsF32 uiA uiB s =
     (let expA = expF32UI uiA;
          sigA = fracF32UI uiA;
          expB = expF32UI uiB;
          sigB = fracF32UI uiB;
          propagateNaN = (let (uiZ, s) = softfloat_propagateNaNF32UI uiA uiB s in (ucast uiZ, s));
          expDiff = expA - expB;
          signZ = signF32UI uiA
      in if expDiff = 0
         then if expA = 0 then (ucast (uiA + sigB), s)
              else if expA = 0xFF
              then if sigA OR sigB \<noteq> 0 then propagateNaN else (ucast uiA, s)
              else let expZ = expA;
                       sigZ = 0x01000000 + sigA + sigB
                   in if sigZ AND 1 = 0 \<and> expZ < 0xFE
                      then (ucast (packToF32UI signZ expZ (drop_bit 1 sigZ)), s)
                      else softfloat_roundPackToF32 signZ expZ (push_bit 6 sigZ) s
         else let sigA = push_bit 6 sigA;
                  sigB = push_bit 6 sigB
              in if expDiff < 0 \<and> expB = 0xFF
                 then if sigB \<noteq> 0 then propagateNaN else (ucast (packToF32UI signZ 0xFF 0), s)
                 else if \<not> expDiff < 0 \<and> expA = 0xFF
                 then if sigA \<noteq> 0 then propagateNaN else (ucast uiA, s)
                 else let (expZ, sigA, sigB) = (if expDiff < 0
                            then let sigA = sigA + (if expA \<noteq> 0 then 0x20000000 else sigA)
                                 in (expB, ucast (softfloat_shiftRightJam32 (ucast sigA) (word_of_int (- expDiff))), sigB)
                            else let sigB = sigB + (if expB \<noteq> 0 then 0x20000000 else sigB)
                                 in (expA, sigA, ucast (softfloat_shiftRightJam32 (ucast sigB) (word_of_int expDiff))));
                          sigZ = 0x20000000 + sigA + sigB
                      in if sigZ < 0x40000000
                         then softfloat_roundPackToF32 signZ (expZ - 1) (push_bit 1 sigZ) s
                         else softfloat_roundPackToF32 signZ expZ sigZ s)"

definition softfloat_addMagsF64 :: "u64 \<Rightarrow> u64 \<Rightarrow> bool \<Rightarrow> sf_state \<Rightarrow> float64 \<times> sf_state" where
  "softfloat_addMagsF64 uiA uiB signZ s =
     (let expA = expF64UI uiA;
          sigA = fracF64UI uiA;
          expB = expF64UI uiB;
          sigB = fracF64UI uiB;
          propagateNaN = softfloat_propagateNaNF64UI uiA uiB s;
          expDiff = expA - expB
      in if expDiff = 0
         then if expA = 0 then (uiA + sigB, s)
              else if expA = 0x7FF
              then if sigA OR sigB \<noteq> 0 then propagateNaN else (uiA, s)
              else softfloat_roundPackToF64 signZ expA
                     (push_bit 9 (0x0020000000000000 + sigA + sigB)) s
         else let sigA = push_bit 9 sigA;
                  sigB = push_bit 9 sigB
              in if expDiff < 0 \<and> expB = 0x7FF
                 then if sigB \<noteq> 0 then propagateNaN else (packToF64UI signZ 0x7FF 0, s)
                 else if \<not> expDiff < 0 \<and> expA = 0x7FF
                 then if sigA \<noteq> 0 then propagateNaN else (uiA, s)
                 else let (expZ, sigA, sigB) = (if expDiff < 0
                            then let sigA = (if expA \<noteq> 0 then sigA + 0x2000000000000000 else push_bit 1 sigA)
                                 in (expB, softfloat_shiftRightJam64 sigA (word_of_int (- expDiff)), sigB)
                            else let sigB = (if expB \<noteq> 0 then sigB + 0x2000000000000000 else push_bit 1 sigB)
                                 in (expA, sigA, softfloat_shiftRightJam64 sigB (word_of_int expDiff)));
                          sigZ = 0x2000000000000000 + sigA + sigB
                      in if sigZ < 0x4000000000000000
                         then softfloat_roundPackToF64 signZ (expZ - 1) (push_bit 1 sigZ) s
                         else softfloat_roundPackToF64 signZ expZ sigZ s)"

definition softfloat_subEpsilonF16 :: "u64 \<Rightarrow> sf_state \<Rightarrow> float16 \<times> sf_state" where
  "softfloat_subEpsilonF16 uiZ s =
     (let roundingMode = softfloat_roundingMode s;
          uiZ = (if roundingMode \<noteq> softfloat_round_near_even
             then if roundingMode = softfloat_round_minMag
                     \<or> roundingMode = (if signF16UI uiZ then softfloat_round_max else softfloat_round_min)
                  then uiZ - 1
                  else if roundingMode = softfloat_round_odd then (uiZ - 1) OR 1
                  else uiZ
             else uiZ)
      in (ucast uiZ, set_inexact s))"

definition softfloat_subMagsF16 :: "u64 \<Rightarrow> u64 \<Rightarrow> sf_state \<Rightarrow> float16 \<times> sf_state" where
  "softfloat_subMagsF16 uiA uiB s =
     (let expA = expF16UI uiA;
          sigA = fracF16UI uiA;
          expB = expF16UI uiB;
          sigB = fracF16UI uiB;
          propagateNaN = (let (uiZ, s) = softfloat_propagateNaNF16UI uiA uiB s in (ucast uiZ, s));
          expDiff = int8 (expA - expB);
          signZ = signF16UI uiA
      in if expDiff = 0
         then if expA = 0x1F
              then if sigA OR sigB \<noteq> 0 then propagateNaN
                   else (ucast defaultNaNF16UI, softfloat_raiseFlags softfloat_flag_invalid s)
              else let sigDiff = sint (sigA - sigB)
                   in if sigDiff = 0
                      then (ucast (packToF16UI (softfloat_roundingMode s = softfloat_round_min) 0 0), s)
                      else let expA = (if expA \<noteq> 0 then expA - 1 else expA);
                               (signZ, sigDiff) = (if sigDiff < 0 then (\<not> signZ, - sigDiff) else (signZ, sigDiff));
                               shiftDist = int8 (uint (softfloat_countLeadingZeros16 (word_of_int sigDiff)) - 5);
                               expZ = int8 (expA - shiftDist);
                               (shiftDist, expZ) = (if expZ < 0 then (expA, 0) else (shiftDist, expZ));
                               sigZ = push_bit (nat shiftDist) (word_of_int sigDiff)
                           in (ucast (packToF16UI signZ expZ sigZ), s)
         else let signZ = (if expDiff < 0 then \<not> signZ else signZ)
         in if expDiff < 0 \<and> expB = 0x1F
         then if sigB \<noteq> 0 then propagateNaN else (ucast (packToF16UI signZ 0x1F 0), s)
         else if expDiff < 0 \<and> expDiff \<le> - 13
         then let uiZ = packToF16UI signZ expB sigB
              in if expA \<noteq> 0 \<or> sigA \<noteq> 0 then softfloat_subEpsilonF16 uiZ s else (ucast uiZ, s)
         else if \<not> expDiff < 0 \<and> expA = 0x1F
         then if sigA \<noteq> 0 then propagateNaN else (ucast uiA, s)
         else if \<not> expDiff < 0 \<and> 13 \<le> expDiff
         then if expB \<noteq> 0 \<or> sigB \<noteq> 0 then softfloat_subEpsilonF16 uiA s else (ucast uiA, s)
         else let (expZ, sigX, sigY, expDiff) = (if expDiff < 0
                    then (int8 (expA + 19), sigB OR 0x0400, sigA + (if expA \<noteq> 0 then 0x0400 else sigA), - expDiff)
                    else (int8 (expB + 19), sigA OR 0x0400, sigB + (if expB \<noteq> 0 then 0x0400 else sigB), expDiff));
                  sig32Z = push_bit (nat expDiff) sigX - sigY;
                  shiftDist = int8 (uint (softfloat_countLeadingZeros32 (ucast sig32Z)) - 1);
                  sig32Z = push_bit (nat shiftDist) sig32Z;
                  expZ = int8 (expZ - shiftDist);
                  sigZ = drop_bit 16 sig32Z
              in if sig32Z AND 0xFFFF \<noteq> 0
                 then softfloat_roundPackToF16 signZ expZ (sigZ OR 1) s
                 else if sigZ AND 0xF = 0 \<and> (word_of_int expZ :: u32) < 0x1E
                 then (ucast (packToF16UI signZ expZ (drop_bit 4 sigZ)), s)
                 else softfloat_roundPackToF16 signZ expZ sigZ s)"

definition softfloat_subMagsF32 :: "u64 \<Rightarrow> u64 \<Rightarrow> sf_state \<Rightarrow> float32 \<times> sf_state" where
  "softfloat_subMagsF32 uiA uiB s =
     (let expA = expF32UI uiA;
          sigA = fracF32UI uiA;
          expB = expF32UI uiB;
          sigB = fracF32UI uiB;
          propagateNaN = (let (uiZ, s) = softfloat_propagateNaNF32UI uiA uiB s in (ucast uiZ, s));
          expDiff = expA - expB;
          signZ = signF32UI uiA
      in if expDiff = 0
         then if expA = 0xFF
              then if sigA OR sigB \<noteq> 0 then propagateNaN
                   else (ucast defaultNaNF32UI, softfloat_raiseFlags softfloat_flag_invalid s)
              else let sigDiff = sint (sigA - sigB)
                   in if sigDiff = 0
                      then (ucast (packToF32UI (softfloat_roundingMode s = softfloat_round_min) 0 0), s)
                      else let expA = (if expA \<noteq> 0 then expA - 1 else expA);
                               (signZ, sigDiff) = (if sigDiff < 0 then (\<not> signZ, - sigDiff) else (signZ, sigDiff));
                               shiftDist = int8 (uint (softfloat_countLeadingZeros32 (word_of_int sigDiff)) - 8);
                               expZ = expA - shiftDist;
                               (shiftDist, expZ) = (if expZ < 0 then (int8 expA, 0) else (shiftDist, expZ))
                           in (ucast (packToF32UI signZ expZ (push_bit (nat shiftDist) (word_of_int sigDiff))), s)
         else let sigA = push_bit 7 sigA;
                  sigB = push_bit 7 sigB;
                  signZ = (if expDiff < 0 then \<not> signZ else signZ)
              in if expDiff < 0 \<and> expB = 0xFF
                 then if sigB \<noteq> 0 then propagateNaN else (ucast (packToF32UI signZ 0xFF 0), s)
                 else if \<not> expDiff < 0 \<and> expA = 0xFF
                 then if sigA \<noteq> 0 then propagateNaN else (ucast uiA, s)
                 else let (expZ, sigX, sigY, expDiff) = (if expDiff < 0
                            then (expB - 1, sigB OR 0x40000000,
                                  sigA + (if expA \<noteq> 0 then 0x40000000 else sigA), - expDiff)
                            else (expA - 1, sigA OR 0x40000000,
                                  sigB + (if expB \<noteq> 0 then 0x40000000 else sigB), expDiff))
                      in softfloat_normRoundPackToF32 signZ expZ
                           (sigX - ucast (softfloat_shiftRightJam32 (ucast sigY) (word_of_int expDiff))) s)"

definition softfloat_subMagsF64 :: "u64 \<Rightarrow> u64 \<Rightarrow> bool \<Rightarrow> sf_state \<Rightarrow> float64 \<times> sf_state" where
  "softfloat_subMagsF64 uiA uiB signZ s =
     (let expA = expF64UI uiA;
          sigA = fracF64UI uiA;
          expB = expF64UI uiB;
          sigB = fracF64UI uiB;
          propagateNaN = softfloat_propagateNaNF64UI uiA uiB s;
          expDiff = expA - expB
      in if expDiff = 0
         then if expA = 0x7FF
              then if sigA OR sigB \<noteq> 0 then propagateNaN
                   else (defaultNaNF64UI, softfloat_raiseFlags softfloat_flag_invalid s)
              else let sigDiff = sint (sigA - sigB)
                   in if sigDiff = 0
                      then (packToF64UI (softfloat_roundingMode s = softfloat_round_min) 0 0, s)
                      else let expA = (if expA \<noteq> 0 then expA - 1 else expA);
                               (signZ, sigDiff) = (if sigDiff < 0 then (\<not> signZ, - sigDiff) else (signZ, sigDiff));
                               shiftDist = int8 (uint (softfloat_countLeadingZeros64 (word_of_int sigDiff)) - 11);
                               expZ = expA - shiftDist;
                               (shiftDist, expZ) = (if expZ < 0 then (int8 expA, 0) else (shiftDist, expZ))
                           in (packToF64UI signZ expZ (push_bit (nat shiftDist) (word_of_int sigDiff)), s)
         else let sigA = push_bit 10 sigA;
                  sigB = push_bit 10 sigB;
                  signZ = (if expDiff < 0 then \<not> signZ else signZ)
              in if expDiff < 0 \<and> expB = 0x7FF
                 then if sigB \<noteq> 0 then propagateNaN else (packToF64UI signZ 0x7FF 0, s)
                 else if \<not> expDiff < 0 \<and> expA = 0x7FF
                 then if sigA \<noteq> 0 then propagateNaN else (uiA, s)
                 else let (expZ, sigZ) = (if expDiff < 0
                            then let sigA = sigA + (if expA \<noteq> 0 then 0x4000000000000000 else sigA);
                                     sigA = softfloat_shiftRightJam64 sigA (word_of_int (- expDiff));
                                     sigB = sigB OR 0x4000000000000000
                                 in (expB, sigB - sigA)
                            else let sigB = sigB + (if expB \<noteq> 0 then 0x4000000000000000 else sigB);
                                     sigB = softfloat_shiftRightJam64 sigB (word_of_int expDiff);
                                     sigA = sigA OR 0x4000000000000000
                                 in (expA, sigA - sigB))
                      in softfloat_normRoundPackToF64 signZ (expZ - 1) sigZ s)"

definition f16_add :: "float16 \<Rightarrow> float16 \<Rightarrow> sf_state \<Rightarrow> float16 \<times> sf_state" where
  "f16_add a b s =
     (let uiA = ucast a; uiB = ucast b
      in if signF16UI (uiA XOR uiB)
         then softfloat_subMagsF16 uiA uiB s
         else softfloat_addMagsF16 uiA uiB s)"

definition f16_sub :: "float16 \<Rightarrow> float16 \<Rightarrow> sf_state \<Rightarrow> float16 \<times> sf_state" where
  "f16_sub a b s =
     (let uiA = ucast a; uiB = ucast b
      in if signF16UI (uiA XOR uiB)
         then softfloat_addMagsF16 uiA uiB s
         else softfloat_subMagsF16 uiA uiB s)"

definition f32_add :: "float32 \<Rightarrow> float32 \<Rightarrow> sf_state \<Rightarrow> float32 \<times> sf_state" where
  "f32_add a b s =
     (let uiA = ucast a; uiB = ucast b
      in if signF32UI (uiA XOR uiB)
         then softfloat_subMagsF32 uiA uiB s
         else softfloat_addMagsF32 uiA uiB s)"

definition f32_sub :: "float32 \<Rightarrow> float32 \<Rightarrow> sf_state \<Rightarrow> float32 \<times> sf_state" where
  "f32_sub a b s =
     (let uiA = ucast a; uiB = ucast b
      in if signF32UI (uiA XOR uiB)
         then softfloat_addMagsF32 uiA uiB s
         else softfloat_subMagsF32 uiA uiB s)"

definition f64_add :: "float64 \<Rightarrow> float64 \<Rightarrow> sf_state \<Rightarrow> float64 \<times> sf_state" where
  "f64_add a b s =
     (let signA = signF64UI a; signB = signF64UI b
      in if signA = signB
         then softfloat_addMagsF64 a b signA s
         else softfloat_subMagsF64 a b signA s)"

definition f64_sub :: "float64 \<Rightarrow> float64 \<Rightarrow> sf_state \<Rightarrow> float64 \<times> sf_state" where
  "f64_sub a b s =
     (let signA = signF64UI a; signB = signF64UI b
      in if signA = signB
         then softfloat_subMagsF64 a b signA s
         else softfloat_addMagsF64 a b signA s)"

section \<open>The arithmetic core of addition and subtraction\<close>

context round_pack
begin

text \<open>The larger operand's significand \<open>M\<close> plus the aligned and jammed smaller one \<open>Y\<close>.\<close>

lemma add_far:
  fixes sig :: u64
  assumes M: "2 ^ fracw f \<le> M" "M < 2 ^ Suc (fracw f)" and Y: "Y < 2 ^ (fracw f + g)"
    and d: "0 < d" and g3: "2 < g" and sig: "unat sig = M * 2 ^ (g - 1) + jam Y d"
    and e: "0 < e" "e < lim"
    and val: "n * 2 ^ (g - 1 + d) = (M * 2 ^ (g - 1 + d) + Y) * 2 ^ (nat e - 1)"
  shows "(if unat sig < 2 ^ (fracw f + g) then rp sign (e - 1) (push_bit 1 sig) s else rp sign e sig s)
    = ieee_result f s sign n 0"
proof -
  define X where "X = M * 2 ^ (g - 1 + d) + Y"
  obtain g' where g': "g = Suc (Suc (Suc g'))" using g3 by (metis less_imp_Suc_add add_2_eq_Suc)
  have "even (M * 2 ^ (g - 1))" by (simp add: g')
  then have sig': "unat sig = jam X d"
    using jam_add_even [of "M * 2 ^ (g - 1)" d Y] by (simp add: sig X_def power_add mult.assoc)
  have big: "2 ^ (fracw f + d + 2) \<le> X"
  proof -
    have "(2::nat) ^ (fracw f + d + 2) \<le> 2 ^ fracw f * 2 ^ (g - 1 + d)"
      unfolding power_add [symmetric] by (intro power_increasing) (simp_all add: g')
    also have "\<dots> \<le> M * 2 ^ (g - 1 + d)" using M by (intro mult_le_mono1)
    finally show ?thesis by (simp add: X_def)
  qed
  have jY: "jam Y d < 2 ^ (fracw f + g)"
    using jam_less_pow [of Y "fracw f + g - 1" d] Y by (simp add: g')
  have l: "2 ^ (fracw f + g - 1) \<le> unat sig"
  proof -
    have "(2::nat) ^ (fracw f + g - 1) = 2 ^ fracw f * 2 ^ (g - 1)" by (simp add: g' power_add)
    also have "\<dots> \<le> M * 2 ^ (g - 1)" using M by (intro mult_le_mono1)
    finally show ?thesis by (simp add: sig)
  qed
  have u: "unat sig < 2 ^ Suc (fracw f + g)"
  proof -
    have "M * 2 ^ (g - 1) < 2 ^ Suc (fracw f) * 2 ^ (g - 1)" using M by (intro mult_less_mono1) simp_all
    then have "M * 2 ^ (g - 1) < 2 ^ (fracw f + g)" by (simp add: g' power_add)
    then show ?thesis using jY by (simp add: sig)
  qed
  have val': "n * 2 ^ (g + d) = 2 * (X * 2 ^ (nat e - 1))"
  proof -
    have "(2::nat) ^ (g + d) = 2 * 2 ^ (g - 1 + d)" by (simp add: g')
    then have "n * 2 ^ (g + d) = 2 * (n * 2 ^ (g - 1 + d))" by (simp only: mult.left_commute)
    then show ?thesis by (simp only: val X_def)
  qed
  have ee: "nat e = Suc (nat e - 1)" "nat (e - 1) = nat e - 1" using e by simp_all
  show ?thesis
  proof (cases "unat sig < 2 ^ (fracw f + g)")
    case True
    have p: "unat (push_bit 1 sig) = unat sig * 2 ^ 1"
    proof (rule unat_push_no_wrap)
      have "(2::nat) ^ Suc (fracw f + g) \<le> 2 ^ LENGTH(64)"
        using guard(2) by (intro power_increasing) simp_all
      then show "unat sig * 2 ^ 1 < 2 ^ LENGTH(64)" using True by simp
    qed
    have "normed f g (unat (push_bit 1 sig))"
      using True l unfolding p by (simp add: normed_def g')
    then have "rp sign (e - 1) (push_bit 1 sig) s
        = ieee_result f s sign (unat (push_bit 1 sig) * 2 ^ nat (e - 1)) (g + nat (- (e - 1)))"
      using e by (intro round_pack_law) simp_all
    also have "g + nat (- (e - 1)) = g" using e by simp
    also have "ieee_result f s sign (unat (push_bit 1 sig) * 2 ^ nat (e - 1)) g = ieee_result f s sign n 0"
      unfolding p
      by (rule ieee_result_value [where X = X and d = d and k = 1])
        (use big val' in \<open>simp_all add: sig' ee(2) power_add\<close>)
    finally show ?thesis using True by simp
  next
    case False
    then have "normed f g (unat sig)" using u by (simp add: normed_def g')
    then have "rp sign e sig s = ieee_result f s sign (unat sig * 2 ^ nat e) (g + nat (- e))"
      using e by (intro round_pack_law) simp_all
    also have "g + nat (- e) = g" using e by simp
    also have "ieee_result f s sign (unat sig * 2 ^ nat e) g = ieee_result f s sign n 0"
    proof (rule ieee_result_value [where X = X and d = d and k = 0])
      have "X * 2 ^ nat e = 2 * (X * 2 ^ (nat e - 1))" by (subst ee(1)) simp
      then show "X * 2 ^ (0 + nat e + 0) = n * 2 ^ (g + d)" by (simp add: val')
    qed (use big in \<open>simp_all add: sig'\<close>)
    finally show ?thesis using False by simp
  qed
qed

text \<open>Operands of equal exponents: the significands are added without alignment.\<close>

lemma add_near:
  fixes sig :: u64
  assumes S: "2 ^ Suc (fracw f) \<le> S" "S < 2 ^ Suc (Suc (fracw f))"
    and sig: "unat sig = S * 2 ^ (g - 1)" and e: "0 < e" "e < lim"
  shows "rp sign e sig s = ieee_result f s sign (S * 2 ^ (nat e - 1)) 0"
proof -
  obtain g' where g': "g = Suc g'" using guard(1) by (cases g) auto
  have "normed f g (unat sig)"
    using S unfolding sig by (simp add: normed_def g' power_add)
  then have "rp sign e sig s = ieee_result f s sign (unat sig * 2 ^ nat e) (g + nat (- e))"
    using e by (intro round_pack_law) simp_all
  also have "\<dots> = ieee_result f s sign (S * 2 ^ (nat e - 1)) 0"
  proof (rule ieee_result_cross)
    have "nat e = Suc (nat e - 1)" using e by simp
    then have "(2::nat) ^ nat e = 2 * 2 ^ (nat e - 1)" by (metis power_Suc)
    then show "unat sig * 2 ^ nat e * 2 ^ 0 = S * 2 ^ (nat e - 1) * 2 ^ (g + nat (- e))"
      using e by (simp add: sig g')
  qed
  finally show ?thesis .
qed

end

context norm_round_pack
begin

text \<open>The difference of the larger significand \<open>M\<close> and the aligned and jammed smaller one.\<close>

lemma sub_far:
  fixes sig :: u64
  assumes M: "2 ^ fracw f \<le> M" "M < 2 ^ Suc (fracw f)" and Y: "Y < 2 ^ Suc (fracw f + g)" "2 ^ g dvd Y"
    and d: "0 < d" and g3: "2 < g" and sig: "unat sig = M * 2 ^ g - jam Y d"
    and e: "0 < e" "e < lim" "64 < lim" and pos: "Y < M * 2 ^ (g + d)"
    and val: "n * 2 ^ (g + d) = (M * 2 ^ (g + d) - Y) * 2 ^ (nat e - 1)"
  shows "nrp sign (e - 1) sig s = ieee_result f s sign n 0"
proof -
  define X where "X = M * 2 ^ (g + d) - Y"
  have X: "X = M * 2 ^ g * 2 ^ d - Y" by (simp add: X_def power_add)
  have "even (M * 2 ^ g)" using g3 by simp
  then have sig': "unat sig = jam X d"
    using jam_diff_even [of "M * 2 ^ g" Y d] pos by (simp add: sig X power_add)
  have "0 < X" using pos by (simp add: X_def)
  then have s0: "0 < unat sig" by (simp add: sig')
  have "M * 2 ^ g < 2 ^ Suc (fracw f) * 2 ^ g" using M by (intro mult_less_mono1) simp_all
  moreover have "2 ^ Suc (fracw f) * 2 ^ g = (2::nat) ^ Suc (fracw f + g)" by (simp add: power_add)
  ultimately have s1: "unat sig < 2 ^ Suc (fracw f + g)" unfolding sig by linarith
  have exact: "2 ^ d dvd X \<or> 2 ^ (fracw f + d + 2) \<le> X"
  proof (cases "d \<le> g")
    case True
    then have "2 ^ d dvd Y" using Y(2) le_imp_power_dvd dvd_trans by blast
    then show ?thesis by (simp add: X)
  next
    case False
    then have "Y < 2 ^ (fracw f + d)"
      using Y(1) power_increasing [of "Suc (fracw f + g)" "fracw f + d" "2::nat"] by simp
    moreover have "(2::nat) ^ (fracw f + d) + 2 ^ (fracw f + d + 2) \<le> M * 2 ^ (g + d)"
    proof -
      have "(2::nat) ^ (fracw f + d) + 2 ^ (fracw f + d + 2) \<le> 2 ^ (fracw f + d + 3)"
        unfolding power_add [of 2 "fracw f + d"] by simp
      also have "\<dots> \<le> 2 ^ fracw f * 2 ^ (g + d)"
        unfolding power_add [symmetric] using g3 by (intro power_increasing) simp_all
      also have "\<dots> \<le> M * 2 ^ (g + d)" using M by (intro mult_le_mono1)
      finally show ?thesis .
    qed
    ultimately have "2 ^ (fracw f + d + 2) \<le> X" unfolding X_def by linarith
    then show ?thesis ..
  qed
  have ee: "nat (e - 1) = nat e - 1" using e by simp
  have "nrp sign (e - 1) sig s
      = ieee_result f s sign (unat sig * 2 ^ nat (e - 1)) (g + nat (- (e - 1)))"
    using s0 s1 e by (intro norm_round_pack_law) simp_all
  also have "g + nat (- (e - 1)) = g" using e by simp
  also have "ieee_result f s sign (unat sig * 2 ^ nat (e - 1)) g = ieee_result f s sign n 0"
    by (rule ieee_result_value [where X = X and d = d and k = 0])
      (use exact val in \<open>simp_all add: sig' ee X_def\<close>)
  finally show ?thesis .
qed

end

context float_format
begin

text \<open>The aligned significand of an operand, \<open>k\<close> bits above the format's.\<close>

definition operand :: "nat \<Rightarrow> u64 \<Rightarrow> nat" where
  "operand k a = (if ex a \<noteq> 0 then 2 ^ fracw f + unat (fr a) else 2 * unat (fr a)) * 2 ^ k"

lemma operand_less: "operand k a < 2 ^ Suc (fracw f + k)"
  using fr_less [of a] by (auto simp: operand_def power_add)

lemma operand_dvd: "2 ^ k dvd operand k a"
  by (simp add: operand_def)

text \<open>The exact sum and difference in terms of the aligned significands.\<close>

lemma magnitude_big: "0 < ex a \<Longrightarrow> magnitude f a = (2 ^ fracw f + unat (fr a)) * 2 ^ (nat (ex a) - 1)"
  by (simp add: magnitude_fields)

lemma magnitude_operand:
  assumes "ex b < ex a"
  shows "magnitude f b * 2 ^ (k + nat (ex a - ex b)) = operand k b * 2 ^ (nat (ex a) - 1)"
proof (cases "ex b = 0")
  case True
  then have "nat (ex a - ex b) = Suc (nat (ex a) - 1)" using assms by simp
  then have "(2::nat) ^ nat (ex a - ex b) = 2 * 2 ^ (nat (ex a) - 1)" by (metis power_Suc)
  with True show ?thesis by (simp add: operand_def magnitude_fields power_add)
next
  case False
  then have "0 < ex b" using ex_nonneg [of b] by simp
  then have "nat (ex a) - 1 = (nat (ex b) - 1) + nat (ex a - ex b)" using assms by simp
  with False show ?thesis by (simp add: operand_def magnitude_fields power_add)
qed

lemma magnitude_sum:
  assumes "ex b < ex a"
  shows "(magnitude f a + magnitude f b) * 2 ^ (k + nat (ex a - ex b)) =
    ((2 ^ fracw f + unat (fr a)) * 2 ^ (k + nat (ex a - ex b)) + operand k b) * 2 ^ (nat (ex a) - 1)"
proof -
  have "0 < ex a" using assms ex_nonneg [of b] by simp
  then have "magnitude f a * 2 ^ (k + nat (ex a - ex b)) =
      (2 ^ fracw f + unat (fr a)) * 2 ^ (k + nat (ex a - ex b)) * 2 ^ (nat (ex a) - 1)"
    by (simp only: magnitude_big mult.assoc mult.commute [of "2 ^ (nat (ex a) - 1)"])
  then show ?thesis by (simp only: distrib_right magnitude_operand [OF assms])
qed

lemma magnitude_difference:
  assumes "ex b < ex a"
  shows "(magnitude f a - magnitude f b) * 2 ^ (k + nat (ex a - ex b)) =
    ((2 ^ fracw f + unat (fr a)) * 2 ^ (k + nat (ex a - ex b)) - operand k b) * 2 ^ (nat (ex a) - 1)"
proof -
  have "0 < ex a" using assms ex_nonneg [of b] by simp
  then have "magnitude f a * 2 ^ (k + nat (ex a - ex b)) =
      (2 ^ fracw f + unat (fr a)) * 2 ^ (k + nat (ex a - ex b)) * 2 ^ (nat (ex a) - 1)"
    by (simp only: magnitude_big mult.assoc mult.commute [of "2 ^ (nat (ex a) - 1)"])
  then show ?thesis by (simp only: diff_mult_distrib magnitude_operand [OF assms])
qed

end

context round_pack
begin

lemma add_far_operands:
  fixes sig :: u64
  assumes e: "ex b < ex a" "ex a < lim" and g3: "2 < g"
    and sig: "unat sig = (2 ^ fracw f + unat (fr a)) * 2 ^ (g - 1)
      + jam (operand (g - 1) b) (nat (ex a - ex b))"
  shows "(if unat sig < 2 ^ (fracw f + g) then rp sign (ex a - 1) (push_bit 1 sig) s else rp sign (ex a) sig s)
    = ieee_result f s sign (magnitude f a + magnitude f b) 0"
proof -
  have "operand (g - 1) b < 2 ^ (fracw f + g)" using operand_less [of "g - 1" b] g3 by simp
  moreover have "2 ^ fracw f + unat (fr a) < 2 ^ Suc (fracw f)" using fr_less [of a] by simp
  ultimately show ?thesis
    using e g3 ex_nonneg [of b] magnitude_sum [OF e(1), of "g - 1"]
    by (intro add_far [OF _ _ _ _ _ sig]) simp_all
qed

lemma add_near_operands:
  fixes sig :: u64
  assumes e: "ex a = ex b" "0 < ex a" "ex a < lim"
    and sig: "unat sig = (2 ^ Suc (fracw f) + unat (fr a) + unat (fr b)) * 2 ^ (g - 1)"
  shows "rp sign (ex a) sig s = ieee_result f s sign (magnitude f a + magnitude f b) 0"
proof -
  have "magnitude f a + magnitude f b = (2 ^ Suc (fracw f) + unat (fr a) + unat (fr b)) * 2 ^ (nat (ex a) - 1)"
    using e by (simp add: magnitude_big distrib_right)
  moreover have "2 ^ Suc (fracw f) + unat (fr a) + unat (fr b) < 2 ^ Suc (Suc (fracw f))"
    using fr_less [of a] fr_less [of b] by simp
  ultimately show ?thesis
    using add_near [OF _ _ sig, of "ex a" sign s] e by simp
qed

end

context norm_round_pack
begin

lemma sub_far_operands:
  fixes sig :: u64
  assumes e: "ex b < ex a" "ex a < lim" "64 < lim" and g3: "2 < g"
    and sig: "unat sig = (2 ^ fracw f + unat (fr a)) * 2 ^ g - jam (operand g b) (nat (ex a - ex b))"
  shows "nrp sign (ex a - 1) sig s = ieee_result f s sign (magnitude f a - magnitude f b) 0"
proof -
  have l: "2 ^ fracw f + unat (fr a) < 2 ^ Suc (fracw f)" using fr_less [of a] by simp
  have "operand g b * 2 ^ (nat (ex a) - 1)
      < (2 ^ fracw f + unat (fr a)) * 2 ^ (g + nat (ex a - ex b)) * 2 ^ (nat (ex a) - 1)"
  proof -
    have "magnitude f b * 2 ^ (g + nat (ex a - ex b)) < magnitude f a * 2 ^ (g + nat (ex a - ex b))"
      using magnitude_less [OF e(1)] by simp
    then show ?thesis
      using magnitude_operand [OF e(1), of g] e ex_nonneg [of b] by (simp add: magnitude_big ac_simps)
  qed
  then have pos: "operand g b < (2 ^ fracw f + unat (fr a)) * 2 ^ (g + nat (ex a - ex b))" by simp
  show ?thesis
    using e g3 ex_nonneg [of b] l pos operand_less [of g b] operand_dvd [of g b] magnitude_difference [OF e(1), of g]
    by (intro sub_far [OF _ _ _ _ _ _ sig]) simp_all
qed

end

context float_format
begin

text \<open>Operands of equal exponents: the difference is exact.\<close>

lemma sub_near:
  fixes x :: u64
  assumes e: "ex a = ex b" and d: "unat (fr b) < unat (fr a)"
    and E: "E = nat (ex a) - 1" and c: "c = Suc (fracw f) - nbits (unat (fr a) - unat (fr b))"
    and x: "unat x = (unat (fr a) - unat (fr b)) * 2 ^ (min c E)"
  shows "(ucast (pack sign (int (E - c)) x), s)
    = (ieee_result f s sign (magnitude f a - magnitude f b) 0 :: 'w::len word \<times> sf_state)"
proof -
  define D where "D = unat (fr a) - unat (fr b)"
  have D: "0 < D" "D < 2 ^ fracw f" using d fr_less [of a] by (simp_all add: D_def)
  have nb: "nbits D \<le> fracw f" using D(2) by (simp only: nbits_le_iff)
  have mag: "magnitude f a - magnitude f b = D * 2 ^ E"
  proof (cases "ex b = 0")
    case False
    then show ?thesis using e ex_nonneg [of b]
      by (simp add: magnitude_big D_def E flip: diff_mult_distrib)
  qed (simp add: magnitude_fields D_def E e)
  have nx: "nbits (unat x) = nbits D + min c E" using D(1) by (simp add: x D_def [symmetric] nbits_mult_pow)
  have x1: "unat x < 2 ^ Suc (fracw f)"
    using nx nb by (subst nbits_le_iff [symmetric]) (simp add: c D_def [symmetric])
  have x2: "int (E - c) = 0 \<or> 2 ^ fracw f \<le> unat x"
    using nx nb by (subst less_nbits_iff [symmetric]) (auto simp: c D_def [symmetric])
  have "E + 2 \<le> 2 ^ expw f" 
  proof -
    have "nat (ex a) < 2 ^ expw f" unfolding nat_ex by simp
    moreover have "(4::nat) \<le> 2 ^ expw f" using expw_pos power_increasing [of 2 "expw f" "2::nat"] by simp
    ultimately show ?thesis unfolding E by linarith
  qed
  have c0: "0 < c" using nb by (simp add: c D_def [symmetric])
  have "(E - c + 2) * 2 ^ fracw f \<le> inf_ord f"
    unfolding inf_ord_def
  proof (rule mult_le_mono1)
    have "(4::nat) \<le> 2 ^ expw f" using expw_pos power_increasing [of 2 "expw f" "2::nat"] by simp
    then show "E - c + 2 \<le> 2 ^ expw f - 1" using \<open>E + 2 \<le> 2 ^ expw f\<close> c0 by linarith
  qed
  then have "(E - c) * 2 ^ fracw f + unat x < inf_ord f"
    using x1 by (simp add: distrib_right)
  then have "(ucast (pack sign (int (E - c)) x), s)
    = (ieee_result f s sign (unat x * 2 ^ nat (int (E - c))) 0 :: 'w word \<times> sf_state)"
    using x1 x2 by (intro pack_exact) simp_all
  also have "unat x * 2 ^ nat (int (E - c)) = magnitude f a - magnitude f b"
  proof -
    have "min c E + (E - c) = E" by simp
    then have "(2::nat) ^ min c E * 2 ^ (E - c) = 2 ^ E" by (simp only: power_add [symmetric])
    then show ?thesis unfolding mag x D_def [symmetric] nat_int mult.assoc by simp
  qed
  finally show ?thesis .
qed

end

text \<open>Two exact cases: both operands subnormal, and an even sum of equal exponents.\<close>

context float_format
begin

lemma add_near_exact:
  fixes S :: u64
  assumes e: "ex a = ex b" "0 < ex a" "ex a < 2 ^ expw f - 2"
    and S: "unat S = 2 ^ Suc (fracw f) + unat (fr a) + unat (fr b)" and even: "S AND 1 = 0"
  shows "(ucast (pack sign (ex a) (drop_bit 1 S)), s)
    = (ieee_result f s sign (magnitude f a + magnitude f b) 0 :: 'w::len word \<times> sf_state)"
proof -
  have "even (unat S)"
    using even unat_and_mask [of S 1] by (simp add: mask_eq_exp_minus_1 word_eq_0_iff even_iff_mod_2_eq_zero)
  then have x: "unat (drop_bit 1 S) * 2 = unat S" by (simp add: unat_drop)
  have l: "unat (drop_bit 1 S) < 2 ^ Suc (fracw f)" "2 ^ fracw f \<le> unat (drop_bit 1 S)"
    using x S fr_less [of a] fr_less [of b] by simp_all
  have "(ucast (pack sign (ex a) (drop_bit 1 S)), s)
    = (ieee_result f s sign (unat (drop_bit 1 S) * 2 ^ nat (ex a)) 0 :: 'w word \<times> sf_state)"
  proof (rule pack_exact)
    have "int (nat (ex a) + 2) < int (2 ^ expw f)" using e by simp
    then have "nat (ex a) + 2 < 2 ^ expw f" by (simp only: of_nat_less_iff)
    then have "(nat (ex a) + 2) * 2 ^ fracw f \<le> inf_ord f"
      unfolding inf_ord_def by (intro mult_le_mono1) simp
    then show "nat (ex a) * 2 ^ fracw f + unat (drop_bit 1 S) < inf_ord f"
      using l by (simp add: distrib_right)
  qed (use l e in simp_all)
  also have "unat (drop_bit 1 S) * 2 ^ nat (ex a) = magnitude f a + magnitude f b"
  proof -
    obtain k where k: "nat (ex a) = Suc k" using e by (cases "nat (ex a)") auto
    have "magnitude f a + magnitude f b = unat S * 2 ^ k"
      using e S k by (simp add: magnitude_big distrib_right)
    then show ?thesis by (simp add: k x [symmetric])
  qed
  finally show ?thesis .
qed

end

context float_word
begin

lemma add_subnormals:
  fixes a b :: "'w word"
  assumes "ex (ucast a) = 0" "ex (ucast b) = 0"
  shows "(ucast (ucast a + fr (ucast b) :: u64), s)
    = (ieee_result f s (negative f a) (magnitude f (ucast a :: u64) + magnitude f (ucast b :: u64)) 0 :: 'w word \<times> sf_state)"
proof -
  define x where "x = unat (fr (ucast a)) + unat (fr (ucast b))"
  have x: "x < 2 ^ Suc (fracw f)"
    using fr_less [of "ucast a"] fr_less [of "ucast b"] by (simp add: x_def)
  have i: "2 ^ Suc (fracw f) \<le> inf_ord f"
  proof -
    have "(4::nat) \<le> 2 ^ expw f" using expw_pos power_increasing [of 2 "expw f" "2::nat"] by simp
    then show ?thesis unfolding inf_ord_def power_Suc by (intro mult_le_mono1) simp
  qed
  have "unat a + unat (fr (ucast b)) = sign_ord f (negative f a) + x"
    using unat_split [of a] ordinal_wide [of a] assms by (simp add: x_def)
  moreover have "sign_ord f (negative f a) + x < 2 ^ 64"
  proof -
    have "sign_ord f (negative f a) + inf_ord f < 2 ^ Suc (fracw f + expw f)"
      using inf_ord_less by (simp add: sign_ord_def)
    also have "(2::nat) ^ Suc (fracw f + expw f) \<le> 2 ^ 64" using width by (intro power_increasing) simp_all
    finally show ?thesis using x i by linarith
  qed
  ultimately have u: "unat (ucast a + fr (ucast b) :: u64) = sign_ord f (negative f a) + x"
    by (subst unat_add_no_wrap) simp_all
  have m: "mag (fracw f) x = magnitude f (ucast a :: u64) + magnitude f (ucast b :: u64)"
    unfolding mag_small [OF x] magnitude_fields using assms by (simp add: x_def)
  have "(ieee_result f s (negative f a) (mag (fracw f) x) 0 :: 'w word \<times> sf_state)
      = (word_of_nat (sign_ord f (negative f a) + x), s)"
    using x i by (intro ieee_result_exact) simp
  moreover have "(ucast (ucast a + fr (ucast b) :: u64) :: 'w word) = word_of_nat (sign_ord f (negative f a) + x)"
    by (subst ucast_word_of_nat) (simp only: u)
  ultimately show ?thesis by (simp only: m)
qed

end

text \<open>The alignment of the smaller operand.\<close>

lemma unat_distance: "e1 < e2 \<Longrightarrow> e2 - e1 < 2 ^ 63 \<Longrightarrow> unat (word_of_int (e2 - e1) :: u64) = nat (e2 - e1)"
  by (subst unat_word_of_int_nat) (auto simp: nat_less_iff)

lemma align32:
  fixes Y :: u64
  assumes "unat Y = n" "n < 2 ^ 32" "e1 < e2" "e2 - e1 < 2 ^ 63"
  shows "unat (ucast (softfloat_shiftRightJam32 (ucast Y) (word_of_int (e2 - e1))) :: u64) = jam n (nat (e2 - e1))"
proof -
  have Y: "unat Y < 2 ^ 32" using assms by simp
  have d: "unat (word_of_int (e2 - e1) :: u64) = nat (e2 - e1)" using assms by (intro unat_distance)
  have "0 < unat (word_of_int (e2 - e1) :: u64)" unfolding d using assms by simp
  from jam32_narrow [OF Y this] show ?thesis by (simp only: assms(1) d)
qed

lemma align64:
  fixes Y :: u64
  assumes "unat Y = n" "e1 < e2" "e2 - e1 < 2 ^ 63"
  shows "unat (softfloat_shiftRightJam64 Y (word_of_int (e2 - e1))) = jam n (nat (e2 - e1))"
  by (subst jam64.shr_jam) (simp_all only: assms unat_distance, use assms(2) in simp)

section \<open>binary32 addition of magnitudes\<close>

lemma addMagsF32_special:
  assumes "is_nan binary32 a \<or> is_inf binary32 a \<or> is_nan binary32 b \<or> is_inf binary32 b"
    "negative binary32 a = negative binary32 b"
  shows "softfloat_addMagsF32 (ucast a) (ucast b) s = ieee_add binary32 a b s"
proof -
  have p: "push_bit 6 (fracF32UI x) = 0 \<longleftrightarrow> fracF32UI x = 0" for x
    by (rule push_frac_0 [where n = 23]) (use f32.fr_less [of x] in simp_all)
  show ?thesis
    using assms
    by (cases a rule: w32.operand_cases; cases b rule: w32.operand_cases;
        simp add: softfloat_addMagsF32_def ieee_add_def Let_def or_eq_0_64 p narrow_pair c32.propagate_nan
          w32.inf_self f32.pack_inf [simplified])
qed

lemma addMagsF32_far:
  fixes A B :: u64
  assumes e: "expF32UI B < expF32UI A" "expF32UI A < 255"
    and Y: "Y = push_bit 6 (fracF32UI B) + (if expF32UI B \<noteq> 0 then 0x20000000 else push_bit 6 (fracF32UI B))"
    and y: "y = ucast (softfloat_shiftRightJam32 (ucast Y) (word_of_int (expF32UI A - expF32UI B)))"
    and sig: "sig = 0x20000000 + push_bit 6 (fracF32UI A) + y"
  shows "(if sig < 0x40000000 then softfloat_roundPackToF32 sign (expF32UI A - 1) (push_bit 1 sig) s
      else softfloat_roundPackToF32 sign (expF32UI A) sig s)
    = ieee_result binary32 s sign (magnitude binary32 A + magnitude binary32 B) 0"
proof -
  have f: "unat (fracF32UI x) < 2 ^ 23" for x using f32.fr_less [of x] by simp
  have p: "unat (push_bit 6 (fracF32UI x)) = unat (fracF32UI x) * 2 ^ 6" for x
    using f [of x] by (intro unat_push_no_wrap) simp
  have Y': "unat Y = f32.operand 6 B"
    using f [of B] by (auto simp: Y f32.operand_def unat_add_no_wrap p)
  have l: "f32.operand 6 B < 2 ^ 30" using f32.operand_less [of 6 B] by simp
  have y': "unat y = jam (f32.operand 6 B) (nat (expF32UI A - expF32UI B))"
    unfolding y using e l f32.ex_nonneg [of B] by (intro align32 [OF Y']) simp_all
  have "jam (f32.operand 6 B) (nat (expF32UI A - expF32UI B)) < 2 ^ 30"
    using jam_less_pow [of "f32.operand 6 B" 29] l by simp
  then have u: "unat sig = (2 ^ fracw binary32 + unat (fracF32UI A)) * 2 ^ (7 - 1)
      + jam (f32.operand (7 - 1) B) (nat (expF32UI A - expF32UI B))"
    unfolding sig using f [of A] by (subst unat_add3) (simp_all add: y' p)
  have "sig < 0x40000000 \<longleftrightarrow> unat sig < 2 ^ (fracw binary32 + 7)"
    by (simp add: word_less_nat_alt)
  then show ?thesis
    using e rp32.add_far_operands [OF e(1) _ _ u, of sign s] by simp
qed

lemma addMagsF32_finite:
  assumes fin: "\<not> is_nan binary32 a" "\<not> is_inf binary32 a" "\<not> is_nan binary32 b" "\<not> is_inf binary32 b"
    and sg: "negative binary32 a = negative binary32 b"
  shows "softfloat_addMagsF32 (ucast a) (ucast b) s = ieee_add binary32 a b s"
proof -
  define A B where "A = (ucast a :: u64)" and "B = (ucast b :: u64)"
  have eA: "0 \<le> expF32UI A" "expF32UI A < 255" "expF32UI A \<noteq> 255"
    using fin by (cases a rule: w32.operand_cases; simp add: A_def)+
  have eB: "0 \<le> expF32UI B" "expF32UI B < 255" "expF32UI B \<noteq> 255"
    using fin by (cases b rule: w32.operand_cases; simp add: B_def)+
  have fA: "unat (fracF32UI A) < 2 ^ 23" using f32.fr_less [of A] by simp
  have fB: "unat (fracF32UI B) < 2 ^ 23" using f32.fr_less [of B] by simp
  have sZ: "signF32UI A = negative binary32 a" by (simp add: A_def)
  have spec: "ieee_add binary32 a b s
      = ieee_result binary32 s (negative binary32 a) (magnitude binary32 A + magnitude binary32 B) 0"
    using fin sg f32.ieee_add_finite(1) [of a b s] by (simp add: A_def B_def)
  consider "expF32UI A = expF32UI B" "expF32UI A = 0" | "expF32UI A = expF32UI B" "0 < expF32UI A"
    | "expF32UI A < expF32UI B" | "expF32UI B < expF32UI A"
    using eA eB by linarith
  then show ?thesis
  proof cases
    case 1
    have "(ucast (A + fracF32UI B), s) = ieee_add binary32 a b s"
      unfolding spec A_def B_def by (rule w32.add_subnormals) (use 1 in \<open>simp_all add: A_def B_def\<close>)
    then show ?thesis
      using 1 by (simp add: softfloat_addMagsF32_def A_def B_def)
  next
    case 2
    define S where "S = 0x01000000 + fracF32UI A + fracF32UI B"
    have S: "unat S = 2 ^ 24 + unat (fracF32UI A) + unat (fracF32UI B)"
      using fA fB by (simp add: S_def unat_add_no_wrap)
    have "softfloat_roundPackToF32 (negative binary32 a) (expF32UI A) (push_bit 6 S) s = ieee_add binary32 a b s"
      unfolding spec
    proof (rule rp32.add_near_operands)
      show "unat (push_bit 6 S) =
        (2 ^ Suc (fracw binary32) + unat (fracF32UI A) + unat (fracF32UI B)) * 2 ^ (7 - 1)"
        using S fA fB by (subst unat_push_no_wrap) simp_all
    qed (use 2 eA in simp_all)
    moreover have "(ucast (packToF32UI (negative binary32 a) (expF32UI A) (drop_bit 1 S)), s) = ieee_add binary32 a b s"
      if "S AND 1 = 0" "expF32UI A < 0xFE"
      unfolding spec using that 2 S by (intro f32.add_near_exact) simp_all
    ultimately show ?thesis
      using 2 eA sZ by (simp add: softfloat_addMagsF32_def A_def B_def S_def Let_def)
  next
    case 3
    have "softfloat_addMagsF32 A B s = ieee_add binary32 a b s"
      using 3 eA eB sZ addMagsF32_far [OF 3 eB(2) refl refl refl, of "negative binary32 a" s] unfolding spec
      by (cases "expF32UI A = 0") (simp_all add: softfloat_addMagsF32_def Let_def ac_simps split del: if_split cong del: if_weak_cong)
    then show ?thesis by (simp only: A_def B_def)
  next
    case 4
    have "softfloat_addMagsF32 A B s = ieee_add binary32 a b s"
      using 4 eA eB sZ addMagsF32_far [OF 4 eA(2) refl refl refl, of "negative binary32 a" s] unfolding spec
      by (cases "expF32UI B = 0") (simp_all add: softfloat_addMagsF32_def Let_def ac_simps split del: if_split cong del: if_weak_cong)
    then show ?thesis by (simp only: A_def B_def)
  qed
qed

section \<open>binary32 subtraction of magnitudes\<close>

text \<open>The normalisation of an exact difference, as the code computes shift and exponent.\<close>

context float_format
begin

lemma sub_near_code:
  fixes d :: u64
  assumes e: "ex a = ex b" and d: "unat d = unat (fr a) - unat (fr b)" "unat (fr b) < unat (fr a)"
    and E: "E = (if ex a \<noteq> 0 then ex a - 1 else ex a)" and k: "k = int (Suc (fracw f) - nbits (unat d))"
  shows "(ucast (pack sign (if E - k < 0 then 0 else E - k) (push_bit (nat (if E - k < 0 then int8 E else k)) d)), s)
    = (ieee_result f s sign (magnitude f a - magnitude f b) 0 :: 'w::len word \<times> sf_state)"
proof -
  define c where "c = Suc (fracw f) - nbits (unat d)"
  have E': "E = int (nat (ex a) - 1)" using ex_nonneg [of a] by (simp add: E)
  have d0: "0 < unat d" using d by simp
  have c: "c + nbits (unat d) = Suc (fracw f)" "c \<le> 64"
  proof -
    have "unat d < 2 ^ fracw f" using d fr_less [of a] by simp
    then have "nbits (unat d) \<le> fracw f" by (simp only: nbits_le_iff)
    then show "c + nbits (unat d) = Suc (fracw f)" "c \<le> 64" using width by (simp_all add: c_def)
  qed
  have n: "nat (if E - k < 0 then int8 E else k) = min c (nat (ex a) - 1)"
    using c(2) by (auto simp: E' k c_def [symmetric] min_def)
  have p: "(if E - k < 0 then 0 else E - k) = int (nat (ex a) - 1 - c)"
    by (auto simp: E' k c_def [symmetric])
  have "unat d * 2 ^ min c (nat (ex a) - 1) < 2 ^ LENGTH(64)"
  proof -
    have "unat d * 2 ^ min c (nat (ex a) - 1) \<le> unat d * 2 ^ c" by (intro mult_le_mono2 power_increasing) simp_all
    also have "\<dots> < 2 ^ Suc (fracw f)"
      using d0 c(1) by (subst nbits_le_iff [symmetric]) (simp add: nbits_mult_pow)
    also have "\<dots> \<le> (2 :: nat) ^ LENGTH(64)" using width by (intro power_increasing) simp_all
    finally show ?thesis .
  qed
  then have x: "unat (push_bit (min c (nat (ex a) - 1)) d) = unat d * 2 ^ min c (nat (ex a) - 1)"
    by (rule unat_push_no_wrap)
  show ?thesis
    unfolding n p by (rule sub_near [OF e d(2) refl]) (simp_all only: d(1) [symmetric] c_def [symmetric] x)
qed

lemma sint_frac_diff:
  shows "sint (fr a - fr b) = int (unat (fr a)) - int (unat (fr b))"
proof -
  have b: "unat (fr x) < 2 ^ 62" for x
  proof -
    have "unat (fr x) < 2 ^ fracw f" by (rule fr_less)
    also have "\<dots> \<le> (2::nat) ^ 62" using width expw_pos by (intro power_increasing) simp_all
    finally show ?thesis .
  qed
  have "fr a - fr b = word_of_int (int (unat (fr a)) - int (unat (fr b)))" by simp
  then have "sint (fr a - fr b) = signed_take_bit 63 (int (unat (fr a)) - int (unat (fr b)))"
    by (simp only: signed_of_int) simp
  also have "\<dots> = int (unat (fr a)) - int (unat (fr b))"
  proof (rule signed_take_bit_int_eq_self)
    have "(2::nat) ^ 63 = 2 * 2 ^ 62" by simp
    then have "unat (fr a) < 2 ^ 63" "unat (fr b) \<le> 2 ^ 63" using b [of a] b [of b] by linarith+
    then have "int (unat (fr a)) < 2 ^ 63" "int (unat (fr b)) \<le> 2 ^ 63"
      by (simp_all only: of_nat_less_numeral_power_cancel_iff of_nat_le_numeral_power_cancel_iff)
    then show "- (2 ^ 63) \<le> int (unat (fr a)) - int (unat (fr b))" "int (unat (fr a)) - int (unat (fr b)) < 2 ^ 63"
      using of_nat_0_le_iff [of "unat (fr a)", where 'a = int] of_nat_0_le_iff [of "unat (fr b)", where 'a = int]
      by linarith+
  qed
  finally show ?thesis .
qed

end

lemma unat_word_of_int_diff:
  assumes "n \<le> m" "m < 2 ^ LENGTH('a)"
  shows "unat (word_of_int (int m - int n) :: 'a::len word) = m - n"
proof -
  have "int m - int n = int (m - n)" using assms by simp
  then show ?thesis using assms by (simp only: of_int_of_nat_eq unat_word_of_nat_lt)
qed

lemma subMagsF32_near:
  fixes A B :: u64
  assumes e: "expF32UI A = expF32UI B" "expF32UI A \<noteq> 255" and f: "unat (fracF32UI B) < unat (fracF32UI A)"
  shows "softfloat_subMagsF32 A B s = ieee_result binary32 s (signF32UI A) (magnitude binary32 A - magnitude binary32 B) 0"
    and "softfloat_subMagsF32 B A s = ieee_result binary32 s (\<not> signF32UI B) (magnitude binary32 A - magnitude binary32 B) 0"
proof -
  define d where "d = int (unat (fracF32UI A)) - int (unat (fracF32UI B))"
  have fA: "unat (fracF32UI A) < 2 ^ 23" using f32.fr_less [of A] by simp
  have u: "unat (word_of_int d :: u64) = unat (fracF32UI A) - unat (fracF32UI B)"
    "unat (word_of_int d :: u32) = unat (fracF32UI A) - unat (fracF32UI B)"
    unfolding d_def using f fA by (intro unat_word_of_int_diff; simp)+
  define k where "k = int8 (uint (softfloat_countLeadingZeros32 (word_of_int d)) - 8)"
  have "unat (fracF32UI A) - unat (fracF32UI B) < 2 ^ 23" "0 < unat (fracF32UI A) - unat (fracF32UI B)"
    using f fA by linarith+
  then have "nbits (unat (word_of_int d :: u32)) \<le> 23" "0 < unat (word_of_int d :: u32)"
    unfolding u by (simp_all only: nbits_le_iff)
  then have k: "k = int (Suc (fracw binary32) - nbits (unat (word_of_int d :: u64)))"
    using clz32.norm_shift [of "word_of_int d" 8] unfolding k_def by (simp only: u) simp
  define E where "E = (if expF32UI A \<noteq> 0 then expF32UI A - 1 else expF32UI A)"
  have core: "(ucast (packToF32UI sign (if E - k < 0 then 0 else E - k)
      (push_bit (nat (if E - k < 0 then int8 E else k)) (word_of_int d))), s)
    = ieee_result binary32 s sign (magnitude binary32 A - magnitude binary32 B) 0" for sign
    by (rule f32.sub_near_code [OF e(1) u(1) f E_def k])
  have S: "sint (fracF32UI A - fracF32UI B) = d" "sint (fracF32UI B - fracF32UI A) = - d"
    by (simp_all only: d_def f32.sint_frac_diff minus_diff_eq)
  have S3: "0 < d" unfolding d_def using f by linarith
  show "softfloat_subMagsF32 A B s = ieee_result binary32 s (signF32UI A) (magnitude binary32 A - magnitude binary32 B) 0"
    unfolding core [symmetric] using e S3
    by (simp add: softfloat_subMagsF32_def Let_def S k_def [symmetric] E_def del: of_int_diff)
  show "softfloat_subMagsF32 B A s = ieee_result binary32 s (\<not> signF32UI B) (magnitude binary32 A - magnitude binary32 B) 0"
    unfolding core [symmetric] using e S3
    by (simp add: softfloat_subMagsF32_def Let_def S k_def [symmetric] E_def del: of_int_diff)
qed

lemma subMagsF32_far:
  fixes A B :: u64
  assumes e: "expF32UI B < expF32UI A" "expF32UI A < 255"
    and Y: "Y = push_bit 7 (fracF32UI B) + (if expF32UI B \<noteq> 0 then 0x40000000 else push_bit 7 (fracF32UI B))"
    and y: "y = ucast (softfloat_shiftRightJam32 (ucast Y) (word_of_int (expF32UI A - expF32UI B)))"
  shows "softfloat_normRoundPackToF32 sign (expF32UI A - 1) ((push_bit 7 (fracF32UI A) OR 0x40000000) - y) s
    = ieee_result binary32 s sign (magnitude binary32 A - magnitude binary32 B) 0"
proof -
  have f: "unat (fracF32UI x) < 2 ^ 23" for x using f32.fr_less [of x] by simp
  have p: "unat (push_bit 7 (fracF32UI x)) = unat (fracF32UI x) * 2 ^ 7" for x
    using f [of x] by (intro unat_push_no_wrap) simp
  have Y': "unat Y = f32.operand 7 B"
    using f [of B] by (auto simp: Y f32.operand_def unat_add_no_wrap p)
  have l: "f32.operand 7 B < 2 ^ 31" using f32.operand_less [of 7 B] by simp
  have y': "unat y = jam (f32.operand 7 B) (nat (expF32UI A - expF32UI B))"
    unfolding y using e l f32.ex_nonneg [of B] by (intro align32 [OF Y']) simp_all
  have "jam (f32.operand 7 B) (nat (expF32UI A - expF32UI B)) \<le> 2 ^ 30"
    using jam_le_half [of "nat (expF32UI A - expF32UI B)" "f32.operand 7 B" 29] l e by simp
  moreover have x: "unat (push_bit 7 (fracF32UI A) OR 0x40000000) = (2 ^ fracw binary32 + unat (fracF32UI A)) * 2 ^ 7"
    using or_eq_add_nat [of "unat (fracF32UI A) * 2 ^ 7" 30 1] f [of A]
    by (simp add: unat_or p or.commute distrib_right)
  ultimately have u: "unat ((push_bit 7 (fracF32UI A) OR 0x40000000) - y) = (2 ^ fracw binary32 + unat (fracF32UI A)) * 2 ^ 7
      - jam (f32.operand 7 B) (nat (expF32UI A - expF32UI B))"
    by (subst unat_sub_no_wrap) (simp_all only: y' x, simp)
  show ?thesis
    using e by (intro nrp32.sub_far_operands [OF e(1) _ _ _ u]) simp_all
qed


lemma subMagsF32_special:
  assumes "is_nan binary32 a \<or> is_inf binary32 a \<or> is_nan binary32 b \<or> is_inf binary32 b"
    "negative binary32 a \<noteq> negative binary32 b"
  shows "softfloat_subMagsF32 (ucast a) (ucast b) s = ieee_add binary32 a b s"
proof -
  have p: "push_bit 7 (fracF32UI x) = 0 \<longleftrightarrow> fracF32UI x = 0" for x
    by (rule push_frac_0 [where n = 23]) (use f32.fr_less [of x] in simp_all)
  show ?thesis
    using assms
    by (cases a rule: w32.operand_cases; cases b rule: w32.operand_cases;
        simp add: softfloat_subMagsF32_def ieee_add_def Let_def or_eq_0_64 p narrow_pair c32.propagate_nan
          c32.default_nan w32.inf_self f32.pack_inf [simplified])
qed

lemma subMagsF32_finite:
  assumes fin: "\<not> is_nan binary32 a" "\<not> is_inf binary32 a" "\<not> is_nan binary32 b" "\<not> is_inf binary32 b"
    and sg: "negative binary32 a \<noteq> negative binary32 b"
  shows "softfloat_subMagsF32 (ucast a) (ucast b) s = ieee_add binary32 a b s"
proof -
  define A B where "A = (ucast a :: u64)" and "B = (ucast b :: u64)"
  have eA: "0 \<le> expF32UI A" "expF32UI A < 255" "expF32UI A \<noteq> 255"
    using fin by (cases a rule: w32.operand_cases; simp add: A_def)+
  have eB: "0 \<le> expF32UI B" "expF32UI B < 255" "expF32UI B \<noteq> 255"
    using fin by (cases b rule: w32.operand_cases; simp add: B_def)+
  have sZ: "signF32UI A = negative binary32 a" "(\<not> signF32UI A) = negative binary32 b"
    using sg by (auto simp add: A_def)
  note spec = f32.ieee_add_finite [OF fin(1,3,2,4)]
  have mags: "magnitude binary32 a = magnitude binary32 A" "magnitude binary32 b = magnitude binary32 B"
    by (simp_all add: A_def B_def)
  have "softfloat_subMagsF32 A B s = ieee_add binary32 a b s"
  proof (cases "expF32UI A" "expF32UI B" rule: linorder_cases)
    case equal
    show ?thesis
    proof (cases "unat (fracF32UI A)" "unat (fracF32UI B)" rule: linorder_cases)
      case less
      then show ?thesis
        using subMagsF32_near(2) [of B A s] f32.magnitude_less_fr [OF equal] equal eB sZ spec(3) [OF sg] mags by simp
    next
      case greater
      then show ?thesis
        using subMagsF32_near(1) [of A B s] f32.magnitude_less_fr [OF equal [symmetric]] equal eA sZ spec(2) [OF sg] mags
        by simp
    next
      case eq: equal
      then have "fracF32UI A = fracF32UI B" by (simp only: word_eq_iff_unat)
      moreover have "magnitude binary32 A = magnitude binary32 B"
        using equal eq by (simp add: f32.magnitude_fields)
      ultimately show ?thesis
        using equal eA spec(4) [OF sg, of s] mags
        by (simp add: softfloat_subMagsF32_def f32.pack_zero)
    qed
  next
    case less
    then show ?thesis
      using eA eB sZ spec(3) [OF sg, of s] mags f32.magnitude_less [OF less]
        subMagsF32_far [OF less eB(2) refl refl, of "negative binary32 b" s]
      by (cases "expF32UI A = 0")
        (simp_all add: softfloat_subMagsF32_def Let_def split del: if_split cong del: if_weak_cong)
  next
    case greater
    then show ?thesis
      using eA eB sZ spec(2) [OF sg, of s] mags f32.magnitude_less [OF greater]
        subMagsF32_far [OF greater eA(2) refl refl, of "negative binary32 a" s]
      by (cases "expF32UI B = 0")
        (simp_all add: softfloat_subMagsF32_def Let_def split del: if_split cong del: if_weak_cong)
  qed
  then show ?thesis by (simp only: A_def B_def)
qed


section \<open>binary32 addition and subtraction\<close>

lemma addMagsF32_correct:
  "negative binary32 a = negative binary32 b \<Longrightarrow>
    softfloat_addMagsF32 (ucast a) (ucast b) s = ieee_add binary32 a b s"
  using addMagsF32_special addMagsF32_finite by blast

lemma subMagsF32_correct:
  "negative binary32 a \<noteq> negative binary32 b \<Longrightarrow>
    softfloat_subMagsF32 (ucast a) (ucast b) s = ieee_add binary32 a b s"
  using subMagsF32_special subMagsF32_finite by blast

text \<open>The routines read the second operand's exponent and significand, not its sign.\<close>

lemma addMagsF32_neg:
  fixes a b :: float32
  shows "softfloat_addMagsF32 (ucast a) (ucast (ieee_neg binary32 b)) s = softfloat_addMagsF32 (ucast a) (ucast b) s"
  unfolding softfloat_addMagsF32_def by (simp only: w32.neg_simps w32.propagate_neg)

lemma subMagsF32_neg:
  fixes a b :: float32
  shows "softfloat_subMagsF32 (ucast a) (ucast (ieee_neg binary32 b)) s = softfloat_subMagsF32 (ucast a) (ucast b) s"
  unfolding softfloat_subMagsF32_def by (simp only: w32.neg_simps w32.propagate_neg)

lemma f32_add_correct: "f32_add a b s = ieee_add binary32 a b s"
  by (simp add: f32_add_def Let_def w32.sgn_xor addMagsF32_correct subMagsF32_correct)

lemma f32_sub_correct: "f32_sub a b s = ieee_sub binary32 a b s"
  using addMagsF32_correct [of a "ieee_neg binary32 b" s] subMagsF32_correct [of a "ieee_neg binary32 b" s]
  by (simp add: f32_sub_def ieee_sub_def Let_def w32.sgn_xor addMagsF32_neg subMagsF32_neg)

section \<open>binary64 addition of magnitudes\<close>

lemma addMagsF64_special:
  assumes "is_nan binary64 a \<or> is_inf binary64 a \<or> is_nan binary64 b \<or> is_inf binary64 b"
    "negative binary64 a = negative binary64 b"
  shows "softfloat_addMagsF64 a b (negative binary64 a) s = ieee_add binary64 a b s"
proof -
  have p: "push_bit 9 (fracF64UI x) = 0 \<longleftrightarrow> fracF64UI x = 0" for x
    by (rule push_frac_0 [where n = 52]) (use f64.fr_less [of x] in simp_all)
  show ?thesis
    using assms
    by (cases a rule: w64.operand_cases [simplified]; cases b rule: w64.operand_cases [simplified];
        simp add: softfloat_addMagsF64_def ieee_add_def Let_def or_eq_0_64 p narrow_pair propagateNaNF64UI_result
          w64.inf_self f64.pack_inf [where 'w = 64, simplified])
qed

lemma addMagsF64_far:
  fixes A B :: u64
  assumes e: "expF64UI B < expF64UI A" "expF64UI A < 2047"
    and Y: "Y = push_bit 9 (fracF64UI B) + (if expF64UI B \<noteq> 0 then 0x2000000000000000 else push_bit 9 (fracF64UI B))"
    and y: "y = softfloat_shiftRightJam64 Y (word_of_int (expF64UI A - expF64UI B))"
    and sig: "sig = 0x2000000000000000 + push_bit 9 (fracF64UI A) + y"
  shows "(if sig < 0x4000000000000000 then softfloat_roundPackToF64 sign (expF64UI A - 1) (push_bit 1 sig) s
      else softfloat_roundPackToF64 sign (expF64UI A) sig s)
    = ieee_result binary64 s sign (magnitude binary64 A + magnitude binary64 B) 0"
proof -
  have f: "unat (fracF64UI x) < 2 ^ 52" for x using f64.fr_less [of x] by simp
  have p: "unat (push_bit 9 (fracF64UI x)) = unat (fracF64UI x) * 2 ^ 9" for x
    using f [of x] by (intro unat_push_no_wrap) simp
  have Y': "unat Y = f64.operand 9 B"
    using f [of B] by (auto simp: Y f64.operand_def unat_add_no_wrap p)
  have l: "f64.operand 9 B < 2 ^ 62" using f64.operand_less [of 9 B] by simp
  have y': "unat y = jam (f64.operand 9 B) (nat (expF64UI A - expF64UI B))"
    unfolding y using e l f64.ex_nonneg [of B] by (intro align64 [OF Y']) simp_all
  have "jam (f64.operand 9 B) (nat (expF64UI A - expF64UI B)) < 2 ^ 62"
    using jam_less_pow [of "f64.operand 9 B" 61] l by simp
  then have u: "unat sig = (2 ^ fracw binary64 + unat (fracF64UI A)) * 2 ^ (10 - 1)
      + jam (f64.operand (10 - 1) B) (nat (expF64UI A - expF64UI B))"
    unfolding sig using f [of A] by (subst unat_add3) (simp_all add: y' p)
  have "sig < 0x4000000000000000 \<longleftrightarrow> unat sig < 2 ^ (fracw binary64 + 10)"
    by (simp add: word_less_nat_alt)
  then show ?thesis
    using e rp64.add_far_operands [OF e(1) _ _ u, of sign s] by simp
qed

lemma addMagsF64_finite:
  assumes fin: "\<not> is_nan binary64 a" "\<not> is_inf binary64 a" "\<not> is_nan binary64 b" "\<not> is_inf binary64 b"
    and sg: "negative binary64 a = negative binary64 b"
  shows "softfloat_addMagsF64 a b (negative binary64 a) s = ieee_add binary64 a b s"
proof -
  have eA: "0 \<le> expF64UI a" "expF64UI a < 2047" "expF64UI a \<noteq> 2047"
    using fin by (cases a rule: w64.operand_cases; simp)+
  have eB: "0 \<le> expF64UI b" "expF64UI b < 2047" "expF64UI b \<noteq> 2047"
    using fin by (cases b rule: w64.operand_cases; simp)+
  have fA: "unat (fracF64UI a) < 2 ^ 52" using f64.fr_less [of a] by simp
  have fB: "unat (fracF64UI b) < 2 ^ 52" using f64.fr_less [of b] by simp
  have spec: "ieee_add binary64 a b s
      = ieee_result binary64 s (negative binary64 a) (magnitude binary64 a + magnitude binary64 b) 0"
    using fin sg f64.ieee_add_finite(1) [of a b s] by simp
  consider "expF64UI a = expF64UI b" "expF64UI a = 0" | "expF64UI a = expF64UI b" "0 < expF64UI a"
    | "expF64UI a < expF64UI b" | "expF64UI b < expF64UI a"
    using eA eB by linarith
  then show ?thesis
  proof cases
    case 1
    have "(a + fracF64UI b, s) = ieee_add binary64 a b s"
      using w64.add_subnormals [of a b s] 1 unfolding spec by simp
    then show ?thesis
      using 1 by (simp add: softfloat_addMagsF64_def)
  next
    case 2
    have "unat (push_bit 9 (0x0020000000000000 + fracF64UI a + fracF64UI b)) =
        (2 ^ Suc (fracw binary64) + unat (fracF64UI a) + unat (fracF64UI b)) * 2 ^ (10 - 1)"
      using fA fB by (subst unat_push_no_wrap) (simp_all add: unat_add_no_wrap)
    then have "softfloat_roundPackToF64 (negative binary64 a) (expF64UI a)
        (push_bit 9 (0x0020000000000000 + fracF64UI a + fracF64UI b)) s = ieee_add binary64 a b s"
      unfolding spec using 2 eA by (intro rp64.add_near_operands) simp_all
    then show ?thesis
      using 2 eA by (simp add: softfloat_addMagsF64_def Let_def)
  next
    case 3
    then show ?thesis
      using eA eB addMagsF64_far [OF 3 eB(2) refl refl refl, of "negative binary64 a" s] unfolding spec
      by (cases "expF64UI a = 0") (simp_all add: softfloat_addMagsF64_def Let_def ac_simps split del: if_split cong del: if_weak_cong)
  next
    case 4
    then show ?thesis
      using eA eB addMagsF64_far [OF 4 eA(2) refl refl refl, of "negative binary64 a" s] unfolding spec
      by (cases "expF64UI b = 0") (simp_all add: softfloat_addMagsF64_def Let_def ac_simps split del: if_split cong del: if_weak_cong)
  qed
qed

lemma subMagsF64_near:
  fixes A B :: u64
  assumes e: "expF64UI A = expF64UI B" "expF64UI A \<noteq> 2047" and f: "unat (fracF64UI B) < unat (fracF64UI A)"
  shows "softfloat_subMagsF64 A B z s = ieee_result binary64 s z (magnitude binary64 A - magnitude binary64 B) 0"
    and "softfloat_subMagsF64 B A z s = ieee_result binary64 s (\<not> z) (magnitude binary64 A - magnitude binary64 B) 0"
proof -
  define d where "d = int (unat (fracF64UI A)) - int (unat (fracF64UI B))"
  have fA: "unat (fracF64UI A) < 2 ^ 52" using f64.fr_less [of A] by simp
  have u: "unat (word_of_int d :: u64) = unat (fracF64UI A) - unat (fracF64UI B)"
    "unat (word_of_int d :: u64) = unat (fracF64UI A) - unat (fracF64UI B)"
    unfolding d_def using f fA by (intro unat_word_of_int_diff; simp)+
  define k where "k = int8 (uint (softfloat_countLeadingZeros64 (word_of_int d)) - 11)"
  have "unat (fracF64UI A) - unat (fracF64UI B) < 2 ^ 52" "0 < unat (fracF64UI A) - unat (fracF64UI B)"
    using f fA by linarith+
  then have "nbits (unat (word_of_int d :: u64)) \<le> 52" "0 < unat (word_of_int d :: u64)"
    unfolding u by (simp_all only: nbits_le_iff)
  then have k: "k = int (Suc (fracw binary64) - nbits (unat (word_of_int d :: u64)))"
    using clz64.norm_shift [of "word_of_int d" 11] unfolding k_def by (simp only: u) simp
  define E where "E = (if expF64UI A \<noteq> 0 then expF64UI A - 1 else expF64UI A)"
  have core: "(packToF64UI sign (if E - k < 0 then 0 else E - k)
      (push_bit (nat (if E - k < 0 then int8 E else k)) (word_of_int d)), s)
    = ieee_result binary64 s sign (magnitude binary64 A - magnitude binary64 B) 0" for sign
    using f64.sub_near_code [OF e(1) u(1) f E_def k, where 'w = 64] by simp
  have S: "sint (fracF64UI A - fracF64UI B) = d" "sint (fracF64UI B - fracF64UI A) = - d"
    by (simp_all only: d_def f64.sint_frac_diff minus_diff_eq)
  have S3: "0 < d" unfolding d_def using f by linarith
  show "softfloat_subMagsF64 A B z s = ieee_result binary64 s z (magnitude binary64 A - magnitude binary64 B) 0"
    unfolding core [symmetric] using e S3
    by (simp add: softfloat_subMagsF64_def Let_def S k_def [symmetric] E_def del: of_int_diff)
  show "softfloat_subMagsF64 B A z s = ieee_result binary64 s (\<not> z) (magnitude binary64 A - magnitude binary64 B) 0"
    unfolding core [symmetric] using e S3
    by (simp add: softfloat_subMagsF64_def Let_def S k_def [symmetric] E_def del: of_int_diff)
qed

lemma subMagsF64_far:
  fixes A B :: u64
  assumes e: "expF64UI B < expF64UI A" "expF64UI A < 2047"
    and Y: "Y = push_bit 10 (fracF64UI B) + (if expF64UI B \<noteq> 0 then 0x4000000000000000 else push_bit 10 (fracF64UI B))"
    and y: "y = softfloat_shiftRightJam64 Y (word_of_int (expF64UI A - expF64UI B))"
  shows "softfloat_normRoundPackToF64 sign (expF64UI A - 1) ((push_bit 10 (fracF64UI A) OR 0x4000000000000000) - y) s
    = ieee_result binary64 s sign (magnitude binary64 A - magnitude binary64 B) 0"
proof -
  have f: "unat (fracF64UI x) < 2 ^ 52" for x using f64.fr_less [of x] by simp
  have p: "unat (push_bit 10 (fracF64UI x)) = unat (fracF64UI x) * 2 ^ 10" for x
    using f [of x] by (intro unat_push_no_wrap) simp
  have Y': "unat Y = f64.operand 10 B"
    using f [of B] by (auto simp: Y f64.operand_def unat_add_no_wrap p)
  have l: "f64.operand 10 B < 2 ^ 63" using f64.operand_less [of 10 B] by simp
  have y': "unat y = jam (f64.operand 10 B) (nat (expF64UI A - expF64UI B))"
    unfolding y using e l f64.ex_nonneg [of B] by (intro align64 [OF Y']) simp_all
  have "jam (f64.operand 10 B) (nat (expF64UI A - expF64UI B)) \<le> 2 ^ 62"
    using jam_le_half [of "nat (expF64UI A - expF64UI B)" "f64.operand 10 B" 61] l e by simp
  moreover have x: "unat (push_bit 10 (fracF64UI A) OR 0x4000000000000000) = (2 ^ fracw binary64 + unat (fracF64UI A)) * 2 ^ 10"
    using or_eq_add_nat [of "unat (fracF64UI A) * 2 ^ 10" 62 1] f [of A]
    by (simp add: unat_or p or.commute distrib_right)
  ultimately have u: "unat ((push_bit 10 (fracF64UI A) OR 0x4000000000000000) - y) = (2 ^ fracw binary64 + unat (fracF64UI A)) * 2 ^ 10
      - jam (f64.operand 10 B) (nat (expF64UI A - expF64UI B))"
    by (subst unat_sub_no_wrap) (simp_all only: y' x, simp)
  show ?thesis
    using e by (intro nrp64.sub_far_operands [OF e(1) _ _ _ u]) simp_all
qed


lemma subMagsF64_special:
  assumes "is_nan binary64 a \<or> is_inf binary64 a \<or> is_nan binary64 b \<or> is_inf binary64 b"
    "negative binary64 a \<noteq> negative binary64 b"
  shows "softfloat_subMagsF64 a b (negative binary64 a) s = ieee_add binary64 a b s"
proof -
  have p: "push_bit 10 (fracF64UI x) = 0 \<longleftrightarrow> fracF64UI x = 0" for x
    by (rule push_frac_0 [where n = 52]) (use f64.fr_less [of x] in simp_all)
  show ?thesis
    using assms
    by (cases a rule: w64.operand_cases [simplified]; cases b rule: w64.operand_cases [simplified];
        simp add: softfloat_subMagsF64_def ieee_add_def Let_def or_eq_0_64 p narrow_pair propagateNaNF64UI_result
          c64.default_nan [where 'w = 64, simplified] w64.inf_self f64.pack_inf [where 'w = 64, simplified])
qed

lemma subMagsF64_finite:
  assumes fin: "\<not> is_nan binary64 a" "\<not> is_inf binary64 a" "\<not> is_nan binary64 b" "\<not> is_inf binary64 b"
    and sg: "negative binary64 a \<noteq> negative binary64 b"
  shows "softfloat_subMagsF64 a b (negative binary64 a) s = ieee_add binary64 a b s"
proof -
  have eA: "0 \<le> expF64UI a" "expF64UI a < 2047" "expF64UI a \<noteq> 2047"
    using fin by (cases a rule: w64.operand_cases; simp)+
  have eB: "0 \<le> expF64UI b" "expF64UI b < 2047" "expF64UI b \<noteq> 2047"
    using fin by (cases b rule: w64.operand_cases; simp)+
  have sZ: "(\<not> negative binary64 a) = negative binary64 b"
    using sg by auto
  note spec = f64.ieee_add_finite [OF fin(1,3,2,4)]
  show ?thesis
  proof (cases "expF64UI a" "expF64UI b" rule: linorder_cases)
    case equal
    show ?thesis
    proof (cases "unat (fracF64UI a)" "unat (fracF64UI b)" rule: linorder_cases)
      case less
      then show ?thesis
        using subMagsF64_near(2) [of b a "negative binary64 a" s] f64.magnitude_less_fr [OF equal] equal eB sZ spec(3) [OF sg] by simp
    next
      case greater
      then show ?thesis
        using subMagsF64_near(1) [of a b "negative binary64 a" s] f64.magnitude_less_fr [OF equal [symmetric]] equal eA sZ spec(2) [OF sg]
        by simp
    next
      case eq: equal
      then have "fracF64UI a = fracF64UI b" by (simp only: word_eq_iff_unat)
      moreover have "magnitude binary64 a = magnitude binary64 b"
        using equal eq by (simp add: f64.magnitude_fields)
      ultimately show ?thesis
        using equal eA spec(4) [OF sg, of s]
        by (simp add: softfloat_subMagsF64_def f64.pack_zero [where 'w = 64, simplified])
    qed
  next
    case less
    then show ?thesis
      using eA eB sZ spec(3) [OF sg, of s] f64.magnitude_less [OF less]
        subMagsF64_far [OF less eB(2) refl refl, of "negative binary64 b" s]
      by (cases "expF64UI a = 0")
        (simp_all add: softfloat_subMagsF64_def Let_def split del: if_split cong del: if_weak_cong)
  next
    case greater
    then show ?thesis
      using eA eB sZ spec(2) [OF sg, of s] f64.magnitude_less [OF greater]
        subMagsF64_far [OF greater eA(2) refl refl, of "negative binary64 a" s]
      by (cases "expF64UI b = 0")
        (simp_all add: softfloat_subMagsF64_def Let_def split del: if_split cong del: if_weak_cong)
  qed
qed


section \<open>binary64 addition and subtraction\<close>

lemma addMagsF64_correct:
  "negative binary64 a = negative binary64 b \<Longrightarrow>
    softfloat_addMagsF64 a b (negative binary64 a) s = ieee_add binary64 a b s"
  using addMagsF64_special addMagsF64_finite by blast

lemma subMagsF64_correct:
  "negative binary64 a \<noteq> negative binary64 b \<Longrightarrow>
    softfloat_subMagsF64 a b (negative binary64 a) s = ieee_add binary64 a b s"
  using subMagsF64_special subMagsF64_finite by blast

text \<open>The routines read the second operand's exponent and significand, not its sign.\<close>

lemma addMagsF64_neg:
  "softfloat_addMagsF64 a (ieee_neg binary64 b) z s = softfloat_addMagsF64 a b z s"
  unfolding softfloat_addMagsF64_def by (simp only: w64.neg_simps [simplified] w64.propagate_neg [simplified])

lemma subMagsF64_neg:
  "softfloat_subMagsF64 a (ieee_neg binary64 b) z s = softfloat_subMagsF64 a b z s"
  unfolding softfloat_subMagsF64_def by (simp only: w64.neg_simps [simplified] w64.propagate_neg [simplified])

lemma f64_add_correct: "f64_add a b s = ieee_add binary64 a b s"
  using w64.sgn_wide [of a] w64.sgn_wide [of b] addMagsF64_correct [of a b s] subMagsF64_correct [of a b s]
  by (cases "negative binary64 a = negative binary64 b") (simp_all add: f64_add_def Let_def)

lemma f64_sub_correct: "f64_sub a b s = ieee_sub binary64 a b s"
  using addMagsF64_correct [of a "ieee_neg binary64 b" s] subMagsF64_correct [of a "ieee_neg binary64 b" s]
    w64.sgn_wide [of a] w64.sgn_wide [of b] w64.neg_simps(2) [of b]
  by (simp add: f64_sub_def ieee_sub_def Let_def addMagsF64_neg subMagsF64_neg)

text \<open>C3: f32_add, f32_sub, f64_add and f64_sub compute the exact sum or difference of their
  operands and round it once, in every rounding mode, for every operand (NaNs, infinities,
  zeros of either sign, subnormal numbers) and with exactly the exception flags IEEE 754
  prescribes: they equal the specifications ieee_add and ieee_sub on every input and state.\<close>

theorem add_sub_correct:
  "f32_add a b s = ieee_add binary32 a b s
    \<and> f32_sub a b s = ieee_sub binary32 a b s
    \<and> f64_add c d s = ieee_add binary64 c d s
    \<and> f64_sub c d s = ieee_sub binary64 c d s"
  by (simp only: f32_add_correct f32_sub_correct f64_add_correct f64_sub_correct simp_thms)

end
