(* ===== verification/SF_MulDiv.thy ===== *)
theory SF_MulDiv
  imports IEEE_Spec
begin

text \<open>
  Multiplication, division and square root: \<open>f*_mul.c\<close>, \<open>f*_div.c\<close>, \<open>f*_sqrt.c\<close> for
  binary16, binary32 and binary64, as the platform configures them (64-bit integers, 64-by-32
  division for binary32, reciprocal tables for binary16).  The labels \<open>propagateNaN\<close>,
  \<open>infArg\<close>, \<open>invalid\<close>, \<open>infinity\<close> and \<open>zero\<close> are local values.
\<close>

section \<open>Multiplication\<close>

definition f16_mul :: "float16 \<Rightarrow> float16 \<Rightarrow> sf_state \<Rightarrow> float16 \<times> sf_state" where
  "f16_mul a b s =
     (let uiA = ucast a;
          signA = signF16UI uiA;
          expA = expF16UI uiA;
          sigA = fracF16UI uiA;
          uiB = ucast b;
          signB = signF16UI uiB;
          expB = expF16UI uiB;
          sigB = fracF16UI uiB;
          signZ = (signA \<noteq> signB);
          propagateNaN = (let (uiZ, s) = softfloat_propagateNaNF16UI uiA uiB s in (ucast uiZ, s));
          infArg = (\<lambda>magBits. if magBits = 0
             then (ucast defaultNaNF16UI, softfloat_raiseFlags softfloat_flag_invalid s)
             else (ucast (packToF16UI signZ 0x1F 0), s));
          zero = (ucast (packToF16UI signZ 0 0), s)
      in if expA = 0x1F
         then if sigA \<noteq> 0 \<or> expB = 0x1F \<and> sigB \<noteq> 0 then propagateNaN
              else infArg (word_of_int expB OR sigB)
         else if expB = 0x1F
         then if sigB \<noteq> 0 then propagateNaN else infArg (word_of_int expA OR sigA)
         else if expA = 0 \<and> sigA = 0 then zero
         else let (expA, sigA) = (if expA = 0
                    then let normExpSig = softfloat_normSubnormalF16Sig sigA
                         in (es16_exp normExpSig, es16_sig normExpSig)
                    else (expA, sigA))
         in if expB = 0 \<and> sigB = 0 then zero
         else let (expB, sigB) = (if expB = 0
                    then let normExpSig = softfloat_normSubnormalF16Sig sigB
                         in (es16_exp normExpSig, es16_sig normExpSig)
                    else (expB, sigB));
                  expZ = int8 (expA + expB - 0xF);
                  sigA = push_bit 4 (sigA OR 0x0400);
                  sigB = push_bit 5 (sigB OR 0x0400);
                  sig32Z = sigA * sigB;
                  sigZ = drop_bit 16 sig32Z;
                  sigZ = (if sig32Z AND 0xFFFF \<noteq> 0 then sigZ OR 1 else sigZ)
              in if sigZ < 0x4000
                 then softfloat_roundPackToF16 signZ (int8 (expZ - 1)) (push_bit 1 sigZ) s
                 else softfloat_roundPackToF16 signZ expZ sigZ s)"

definition f32_mul :: "float32 \<Rightarrow> float32 \<Rightarrow> sf_state \<Rightarrow> float32 \<times> sf_state" where
  "f32_mul a b s =
     (let uiA = ucast a;
          signA = signF32UI uiA;
          expA = expF32UI uiA;
          sigA = fracF32UI uiA;
          uiB = ucast b;
          signB = signF32UI uiB;
          expB = expF32UI uiB;
          sigB = fracF32UI uiB;
          signZ = (signA \<noteq> signB);
          propagateNaN = (let (uiZ, s) = softfloat_propagateNaNF32UI uiA uiB s in (ucast uiZ, s));
          infArg = (\<lambda>magBits. if magBits = 0
             then (ucast defaultNaNF32UI, softfloat_raiseFlags softfloat_flag_invalid s)
             else (ucast (packToF32UI signZ 0xFF 0), s));
          zero = (ucast (packToF32UI signZ 0 0), s)
      in if expA = 0xFF
         then if sigA \<noteq> 0 \<or> expB = 0xFF \<and> sigB \<noteq> 0 then propagateNaN
              else infArg (word_of_int expB OR sigB)
         else if expB = 0xFF
         then if sigB \<noteq> 0 then propagateNaN else infArg (word_of_int expA OR sigA)
         else if expA = 0 \<and> sigA = 0 then zero
         else let (expA, sigA) = (if expA = 0
                    then let normExpSig = softfloat_normSubnormalF32Sig sigA
                         in (es32_exp normExpSig, es32_sig normExpSig)
                    else (expA, sigA))
         in if expB = 0 \<and> sigB = 0 then zero
         else let (expB, sigB) = (if expB = 0
                    then let normExpSig = softfloat_normSubnormalF32Sig sigB
                         in (es32_exp normExpSig, es32_sig normExpSig)
                    else (expB, sigB));
                  expZ = expA + expB - 0x7F;
                  sigA = push_bit 7 (sigA OR 0x00800000);
                  sigB = push_bit 8 (sigB OR 0x00800000);
                  sigZ = softfloat_shortShiftRightJam64 (sigA * sigB) 32
              in if sigZ < 0x40000000
                 then softfloat_roundPackToF32 signZ (expZ - 1) (push_bit 1 sigZ) s
                 else softfloat_roundPackToF32 signZ expZ sigZ s)"

definition f64_mul :: "float64 \<Rightarrow> float64 \<Rightarrow> sf_state \<Rightarrow> float64 \<times> sf_state" where
  "f64_mul a b s =
     (let uiA = a;
          signA = signF64UI uiA;
          expA = expF64UI uiA;
          sigA = fracF64UI uiA;
          uiB = b;
          signB = signF64UI uiB;
          expB = expF64UI uiB;
          sigB = fracF64UI uiB;
          signZ = (signA \<noteq> signB);
          propagateNaN = softfloat_propagateNaNF64UI uiA uiB s;
          infArg = (\<lambda>magBits. if magBits = 0
             then (defaultNaNF64UI, softfloat_raiseFlags softfloat_flag_invalid s)
             else (packToF64UI signZ 0x7FF 0, s));
          zero = (packToF64UI signZ 0 0, s)
      in if expA = 0x7FF
         then if sigA \<noteq> 0 \<or> expB = 0x7FF \<and> sigB \<noteq> 0 then propagateNaN
              else infArg (word_of_int expB OR sigB)
         else if expB = 0x7FF
         then if sigB \<noteq> 0 then propagateNaN else infArg (word_of_int expA OR sigA)
         else if expA = 0 \<and> sigA = 0 then zero
         else let (expA, sigA) = (if expA = 0
                    then let normExpSig = softfloat_normSubnormalF64Sig sigA
                         in (es64_exp normExpSig, es64_sig normExpSig)
                    else (expA, sigA))
         in if expB = 0 \<and> sigB = 0 then zero
         else let (expB, sigB) = (if expB = 0
                    then let normExpSig = softfloat_normSubnormalF64Sig sigB
                         in (es64_exp normExpSig, es64_sig normExpSig)
                    else (expB, sigB));
                  expZ = expA + expB - 0x3FF;
                  sigA = push_bit 10 (sigA OR 0x0010000000000000);
                  sigB = push_bit 11 (sigB OR 0x0010000000000000);
                  sig128Z = softfloat_mul64To128 sigA sigB;
                  sigZ = v64 sig128Z OR of_bool (v0 sig128Z \<noteq> 0)
              in if sigZ < 0x4000000000000000
                 then softfloat_roundPackToF64 signZ (expZ - 1) (push_bit 1 sigZ) s
                 else softfloat_roundPackToF64 signZ expZ sigZ s)"

section \<open>Division\<close>

definition f16_div :: "float16 \<Rightarrow> float16 \<Rightarrow> sf_state \<Rightarrow> float16 \<times> sf_state" where
  "f16_div a b s =
     (let uiA = ucast a;
          signA = signF16UI uiA;
          expA = expF16UI uiA;
          sigA = fracF16UI uiA;
          uiB = ucast b;
          signB = signF16UI uiB;
          expB = expF16UI uiB;
          sigB = fracF16UI uiB;
          signZ = (signA \<noteq> signB);
          propagateNaN = (let (uiZ, s) = softfloat_propagateNaNF16UI uiA uiB s in (ucast uiZ, s));
          invalid = (ucast defaultNaNF16UI, softfloat_raiseFlags softfloat_flag_invalid s);
          infinity = (\<lambda>s. (ucast (packToF16UI signZ 0x1F 0), s));
          zero = (ucast (packToF16UI signZ 0 0), s)
      in if expA = 0x1F
         then if sigA \<noteq> 0 then propagateNaN
              else if expB = 0x1F then if sigB \<noteq> 0 then propagateNaN else invalid
              else infinity s
         else if expB = 0x1F
         then if sigB \<noteq> 0 then propagateNaN else zero
         else if expB = 0 \<and> sigB = 0
         then if expA = 0 \<and> sigA = 0 then invalid
              else infinity (softfloat_raiseFlags softfloat_flag_infinite s)
         else let (expB, sigB) = (if expB = 0
                    then let normExpSig = softfloat_normSubnormalF16Sig sigB
                         in (es16_exp normExpSig, es16_sig normExpSig)
                    else (expB, sigB))
         in if expA = 0 \<and> sigA = 0 then zero
         else let (expA, sigA) = (if expA = 0
                    then let normExpSig = softfloat_normSubnormalF16Sig sigA
                         in (es16_exp normExpSig, es16_sig normExpSig)
                    else (expA, sigA));
                  expZ = int8 (expA - expB + 0xE);
                  sigA = sigA OR 0x0400;
                  sigB = sigB OR 0x0400;
                  (expZ, sigA) = (if sigA < sigB then (int8 (expZ - 1), push_bit 5 sigA)
                                  else (expZ, push_bit 4 sigA));
                  index = unat (drop_bit 6 sigB AND 0xF);
                  r0 = (ucast (ucast (softfloat_approxRecip_1k0s ! index)
                          - drop_bit 10 (ucast (softfloat_approxRecip_1k1s ! index) * (sigB AND 0x3F)) :: u64) :: u16);
                  sigZ = drop_bit 16 (sigA * ucast r0);
                  rem = push_bit 10 sigA - sigZ * sigB;
                  sigZ = sigZ + drop_bit 26 (rem * ucast r0);
                  sigZ = sigZ + 1
              in if sigZ AND 7 = 0
                 then let sigZ = sigZ AND NOT 1;
                          rem = push_bit 10 sigA - sigZ * sigB
                      in softfloat_roundPackToF16 signZ expZ
                           (if rem AND 0x8000 \<noteq> 0 then sigZ - 2
                            else if rem \<noteq> 0 then sigZ OR 1 else sigZ) s
                 else softfloat_roundPackToF16 signZ expZ sigZ s)"

definition f32_div :: "float32 \<Rightarrow> float32 \<Rightarrow> sf_state \<Rightarrow> float32 \<times> sf_state" where
  "f32_div a b s =
     (let uiA = ucast a;
          signA = signF32UI uiA;
          expA = expF32UI uiA;
          sigA = fracF32UI uiA;
          uiB = ucast b;
          signB = signF32UI uiB;
          expB = expF32UI uiB;
          sigB = fracF32UI uiB;
          signZ = (signA \<noteq> signB);
          propagateNaN = (let (uiZ, s) = softfloat_propagateNaNF32UI uiA uiB s in (ucast uiZ, s));
          invalid = (ucast defaultNaNF32UI, softfloat_raiseFlags softfloat_flag_invalid s);
          infinity = (\<lambda>s. (ucast (packToF32UI signZ 0xFF 0), s));
          zero = (ucast (packToF32UI signZ 0 0), s)
      in if expA = 0xFF
         then if sigA \<noteq> 0 then propagateNaN
              else if expB = 0xFF then if sigB \<noteq> 0 then propagateNaN else invalid
              else infinity s
         else if expB = 0xFF
         then if sigB \<noteq> 0 then propagateNaN else zero
         else if expB = 0 \<and> sigB = 0
         then if expA = 0 \<and> sigA = 0 then invalid
              else infinity (softfloat_raiseFlags softfloat_flag_infinite s)
         else let (expB, sigB) = (if expB = 0
                    then let normExpSig = softfloat_normSubnormalF32Sig sigB
                         in (es32_exp normExpSig, es32_sig normExpSig)
                    else (expB, sigB))
         in if expA = 0 \<and> sigA = 0 then zero
         else let (expA, sigA) = (if expA = 0
                    then let normExpSig = softfloat_normSubnormalF32Sig sigA
                         in (es32_exp normExpSig, es32_sig normExpSig)
                    else (expA, sigA));
                  expZ = expA - expB + 0x7E;
                  sigA = sigA OR 0x00800000;
                  sigB = sigB OR 0x00800000;
                  (expZ, sig64A) = (if sigA < sigB then (expZ - 1, push_bit 31 sigA)
                                    else (expZ, push_bit 30 sigA));
                  sigZ = sig64A div sigB;
                  sigZ = (if sigZ AND 0x3F = 0 then sigZ OR of_bool (sigB * sigZ \<noteq> sig64A) else sigZ)
              in softfloat_roundPackToF32 signZ expZ sigZ s)"

definition f64_div :: "float64 \<Rightarrow> float64 \<Rightarrow> sf_state \<Rightarrow> float64 \<times> sf_state" where
  "f64_div a b s =
     (let uiA = a;
          signA = signF64UI uiA;
          expA = expF64UI uiA;
          sigA = fracF64UI uiA;
          uiB = b;
          signB = signF64UI uiB;
          expB = expF64UI uiB;
          sigB = fracF64UI uiB;
          signZ = (signA \<noteq> signB);
          propagateNaN = softfloat_propagateNaNF64UI uiA uiB s;
          invalid = (defaultNaNF64UI, softfloat_raiseFlags softfloat_flag_invalid s);
          infinity = (\<lambda>s. (packToF64UI signZ 0x7FF 0, s));
          zero = (packToF64UI signZ 0 0, s)
      in if expA = 0x7FF
         then if sigA \<noteq> 0 then propagateNaN
              else if expB = 0x7FF then if sigB \<noteq> 0 then propagateNaN else invalid
              else infinity s
         else if expB = 0x7FF
         then if sigB \<noteq> 0 then propagateNaN else zero
         else if expB = 0 \<and> sigB = 0
         then if expA = 0 \<and> sigA = 0 then invalid
              else infinity (softfloat_raiseFlags softfloat_flag_infinite s)
         else let (expB, sigB) = (if expB = 0
                    then let normExpSig = softfloat_normSubnormalF64Sig sigB
                         in (es64_exp normExpSig, es64_sig normExpSig)
                    else (expB, sigB))
         in if expA = 0 \<and> sigA = 0 then zero
         else let (expA, sigA) = (if expA = 0
                    then let normExpSig = softfloat_normSubnormalF64Sig sigA
                         in (es64_exp normExpSig, es64_sig normExpSig)
                    else (expA, sigA));
                  expZ = expA - expB + 0x3FE;
                  sigA = sigA OR 0x0010000000000000;
                  sigB = sigB OR 0x0010000000000000;
                  (expZ, sigA) = (if sigA < sigB then (expZ - 1, push_bit 11 sigA)
                                  else (expZ, push_bit 10 sigA));
                  sigB = push_bit 11 sigB;
                  sigBhi = (ucast (drop_bit 32 sigB) :: u32);
                  recip32 = softfloat_approxRecip32_1 sigBhi - 2;
                  sig32Z = (ucast (drop_bit 32 (ucast (ucast (drop_bit 32 sigA) :: u32) * ucast recip32 :: u64)) :: u32);
                  doubleTerm = push_bit 1 sig32Z;
                  rem = push_bit 28 (sigA - ucast doubleTerm * ucast sigBhi)
                        - ucast doubleTerm * ucast (drop_bit 4 (ucast sigB :: u32));
                  q = (ucast (drop_bit 32 (ucast (ucast (drop_bit 32 rem) :: u32) * ucast recip32 :: u64) + 4) :: u32);
                  sigZ = push_bit 32 (ucast sig32Z) + push_bit 4 (ucast q)
              in if sigZ AND 0x1FF < 64
                 then let q = q AND NOT 7;
                          sigZ = sigZ AND NOT 0x7F;
                          doubleTerm = push_bit 1 q;
                          rem = push_bit 28 (rem - ucast doubleTerm * ucast sigBhi)
                                - ucast doubleTerm * ucast (drop_bit 4 (ucast sigB :: u32))
                      in softfloat_roundPackToF64 signZ expZ
                           (if rem AND 0x8000000000000000 \<noteq> 0 then sigZ - push_bit 7 1
                            else if rem \<noteq> 0 then sigZ OR 1 else sigZ) s
                 else softfloat_roundPackToF64 signZ expZ sigZ s)"

section \<open>Square root\<close>

definition f16_sqrt :: "float16 \<Rightarrow> sf_state \<Rightarrow> float16 \<times> sf_state" where
  "f16_sqrt a s =
     (let uiA = ucast a;
          signA = signF16UI uiA;
          expA = expF16UI uiA;
          sigA = fracF16UI uiA;
          invalid = (ucast defaultNaNF16UI, softfloat_raiseFlags softfloat_flag_invalid s)
      in if expA = 0x1F
         then if sigA \<noteq> 0
              then let (uiZ, s) = softfloat_propagateNaNF16UI uiA 0 s in (ucast uiZ, s)
              else if \<not> signA then (a, s) else invalid
         else if signA
         then if expA = 0 \<and> sigA = 0 then (a, s) else invalid
         else if expA = 0 \<and> sigA = 0 then (a, s)
         else let (expA, sigA) = (if expA = 0
                    then let normExpSig = softfloat_normSubnormalF16Sig sigA
                         in (es16_exp normExpSig, es16_sig normExpSig)
                    else (expA, sigA));
                  expZ = int8 (drop_bit 1 (expA - 0xF) + 0xE);
                  expA = expA AND 1;
                  sigA = sigA OR 0x0400;
                  index = unat (drop_bit 6 sigA AND 0xE) + nat expA;
                  r0 = ucast (softfloat_approxRecipSqrt_1k0s ! index)
                       - drop_bit 11 (ucast (softfloat_approxRecipSqrt_1k1s ! index) * (sigA AND 0x7F)) :: u64;
                  ESqrR0 = drop_bit 1 (r0 * r0);
                  ESqrR0 = (if expA \<noteq> 0 then drop_bit 1 ESqrR0 else ESqrR0);
                  sigma0 = (ucast (NOT (drop_bit 16 (ESqrR0 * sigA))) :: u16);
                  recipSqrt16 = r0 + drop_bit 25 (r0 * ucast sigma0);
                  recipSqrt16 = (if recipSqrt16 AND 0x8000 = 0 then 0x8000 else recipSqrt16);
                  sigZ = drop_bit 16 (push_bit 5 sigA * recipSqrt16);
                  sigZ = (if expA \<noteq> 0 then drop_bit 1 sigZ else sigZ);
                  sigZ = sigZ + 1
              in if sigZ AND 7 = 0
                 then let shiftedSigZ = drop_bit 1 sigZ;
                          negRem = (ucast (shiftedSigZ * shiftedSigZ) :: u16);
                          sigZ = sigZ AND NOT 1
                      in softfloat_roundPackToF16 False expZ
                           (if negRem AND 0x8000 \<noteq> 0 then sigZ OR 1
                            else if negRem \<noteq> 0 then sigZ - 1 else sigZ) s
                 else softfloat_roundPackToF16 False expZ sigZ s)"

definition f32_sqrt :: "float32 \<Rightarrow> sf_state \<Rightarrow> float32 \<times> sf_state" where
  "f32_sqrt a s =
     (let uiA = ucast a;
          signA = signF32UI uiA;
          expA = expF32UI uiA;
          sigA = fracF32UI uiA;
          invalid = (ucast defaultNaNF32UI, softfloat_raiseFlags softfloat_flag_invalid s)
      in if expA = 0xFF
         then if sigA \<noteq> 0
              then let (uiZ, s) = softfloat_propagateNaNF32UI uiA 0 s in (ucast uiZ, s)
              else if \<not> signA then (a, s) else invalid
         else if signA
         then if expA = 0 \<and> sigA = 0 then (a, s) else invalid
         else if expA = 0 \<and> sigA = 0 then (a, s)
         else let (expA, sigA) = (if expA = 0
                    then let normExpSig = softfloat_normSubnormalF32Sig sigA
                         in (es32_exp normExpSig, es32_sig normExpSig)
                    else (expA, sigA));
                  expZ = drop_bit 1 (expA - 0x7F) + 0x7E;
                  expA = expA AND 1;
                  sigA = push_bit 8 (sigA OR 0x00800000);
                  sigZ = drop_bit 32 (sigA * ucast (softfloat_approxRecipSqrt32_1 (word_of_int expA) (ucast sigA)));
                  sigZ = (if expA \<noteq> 0 then drop_bit 1 sigZ else sigZ);
                  sigZ = sigZ + 2
              in if sigZ AND 0x3F < 2
                 then let shiftedSigZ = drop_bit 2 sigZ;
                          negRem = (ucast (shiftedSigZ * shiftedSigZ) :: u32);
                          sigZ = sigZ AND NOT 3
                      in softfloat_roundPackToF32 False expZ
                           (if negRem AND 0x80000000 \<noteq> 0 then sigZ OR 1
                            else if negRem \<noteq> 0 then sigZ - 1 else sigZ) s
                 else softfloat_roundPackToF32 False expZ sigZ s)"

definition f64_sqrt :: "float64 \<Rightarrow> sf_state \<Rightarrow> float64 \<times> sf_state" where
  "f64_sqrt a s =
     (let uiA = a;
          signA = signF64UI uiA;
          expA = expF64UI uiA;
          sigA = fracF64UI uiA;
          invalid = (defaultNaNF64UI, softfloat_raiseFlags softfloat_flag_invalid s)
      in if expA = 0x7FF
         then if sigA \<noteq> 0
              then softfloat_propagateNaNF64UI uiA 0 s
              else if \<not> signA then (a, s) else invalid
         else if signA
         then if expA = 0 \<and> sigA = 0 then (a, s) else invalid
         else if expA = 0 \<and> sigA = 0 then (a, s)
         else let (expA, sigA) = (if expA = 0
                    then let normExpSig = softfloat_normSubnormalF64Sig sigA
                         in (es64_exp normExpSig, es64_sig normExpSig)
                    else (expA, sigA));
                  expZ = drop_bit 1 (expA - 0x3FF) + 0x3FE;
                  expA = expA AND 1;
                  sigA = sigA OR 0x0010000000000000;
                  sig32A = (ucast (drop_bit 21 sigA) :: u32);
                  recipSqrt32 = softfloat_approxRecipSqrt32_1 (word_of_int expA) sig32A;
                  sig32Z = (ucast (drop_bit 32 (ucast sig32A * ucast recipSqrt32 :: u64)) :: u32);
                  (sigA, sig32Z) = (if expA \<noteq> 0 then (push_bit 8 sigA, drop_bit 1 sig32Z)
                                    else (push_bit 9 sigA, sig32Z));
                  rem = sigA - ucast sig32Z * ucast sig32Z;
                  q = (ucast (drop_bit 32 (ucast (ucast (drop_bit 2 rem) :: u32) * ucast recipSqrt32 :: u64)) :: u32);
                  sigZ = (push_bit 32 (ucast sig32Z) OR push_bit 5 1) + push_bit 3 (ucast q)
              in if sigZ AND 0x1FF < 0x22
                 then let sigZ = sigZ AND NOT 0x3F;
                          shiftedSigZ = drop_bit 6 sigZ;
                          rem = push_bit 52 sigA - shiftedSigZ * shiftedSigZ
                      in softfloat_roundPackToF64 False expZ
                           (if rem AND 0x8000000000000000 \<noteq> 0 then sigZ - 1
                            else if rem \<noteq> 0 then sigZ OR 1 else sigZ) s
                 else softfloat_roundPackToF64 False expZ sigZ s)"

section \<open>Multiplication is correct\<close>

context round_pack
begin

text \<open>
  An exact significand \<open>X\<close> of one or two integer bits is jammed to \<open>d\<close> bits fewer, brought to
  one integer bit, and rounded.
\<close>

lemma jam_normalise:
  fixes sig :: u64
  assumes X: "2 ^ (fracw f + g + d - 1) \<le> X" "X < 2 ^ (fracw f + g + d + 1)" and g3: "2 < g"
    and sig: "unat sig = jam X d" and e: "- lim < e" "e < lim"
  shows "(if unat sig < 2 ^ (fracw f + g) then rp sign (e - 1) (push_bit 1 sig) s else rp sign e sig s)
    = ieee_result f s sign (X * 2 ^ nat e) (g + d + nat (- e))"
proof -
  have "(2::nat) ^ (fracw f + d + 2) \<le> 2 ^ (fracw f + g + d - 1)"
    using g3 by (intro power_increasing) simp_all
  then have exact: "2 ^ d dvd X \<or> 2 ^ (fracw f + d + 2) \<le> X" using X by linarith
  obtain k where k: "fracw f + g = Suc (Suc k)" using g3 by (cases g; cases "g - 1") auto
  have u: "unat sig < 2 ^ Suc (fracw f + g)"
    using X(2) jam_less_iff [of X d "2 ^ (fracw f + g)"] by (simp add: sig power_add ac_simps)
  have l: "2 ^ (fracw f + g - 1) \<le> unat sig"
  proof -
    have "fracw f + g + d - 1 = k + Suc d" "fracw f + g - 1 = Suc k" using k by simp_all
    then show ?thesis using X(1) jam_less_iff [of X d "2 ^ k"] by (simp add: sig power_add)
  qed
  show ?thesis
  proof (cases "unat sig < 2 ^ (fracw f + g)")
    case True
    have p: "unat (push_bit 1 sig) = unat sig * 2 ^ 1"
    proof (rule unat_push_no_wrap)
      have "(2::nat) ^ Suc (fracw f + g) \<le> 2 ^ LENGTH(64)"
        using guard(2) by (intro power_increasing) simp_all
      then show "unat sig * 2 ^ 1 < 2 ^ LENGTH(64)" using True by simp
    qed
    have "normed f g (unat (push_bit 1 sig))"
      using True l g3 unfolding p by (simp add: normed_def k)
    then have "rp sign (e - 1) (push_bit 1 sig) s
        = ieee_result f s sign (unat (push_bit 1 sig) * 2 ^ nat (e - 1)) (g + nat (- (e - 1)))"
      using e by (intro round_pack_law) simp_all
    also have "\<dots> = ieee_result f s sign (X * 2 ^ nat e) (g + d + nat (- e))"
      unfolding p
    proof (rule ieee_result_value [where X = X and d = d and k = 1])
      have "1 + nat (e - 1) + (g + d + nat (- e)) = nat e + (g + nat (- (e - 1)) + d)" by linarith
      then show "X * 2 ^ (1 + nat (e - 1) + (g + d + nat (- e))) = X * 2 ^ nat e * 2 ^ (g + nat (- (e - 1)) + d)"
        by (simp only: mult.assoc power_add [symmetric])
    qed (use exact in \<open>simp_all add: sig\<close>)
    finally show ?thesis using True by simp
  next
    case False
    then have "normed f g (unat sig)" using u g3 by (simp add: normed_def k)
    then have "rp sign e sig s = ieee_result f s sign (unat sig * 2 ^ nat e) (g + nat (- e))"
      using e by (intro round_pack_law) simp_all
    also have "\<dots> = ieee_result f s sign (X * 2 ^ nat e) (g + d + nat (- e))"
      by (rule ieee_result_value [where X = X and d = d and k = 0])
        (use exact in \<open>simp_all add: sig power_add\<close>)
    finally show ?thesis using False by simp
  qed
qed

end

text \<open>The exact product in terms of the normalised operands.\<close>

lemma mult_cross:
  fixes MA MB mA mB p :: nat and eA eB e :: int
  assumes A: "MA * 2 ^ nat (eA - 1 + int p) = mA * 2 ^ p" "1 - int p \<le> eA"
    and B: "MB * 2 ^ nat (eB - 1 + int p) = mB * 2 ^ p" "1 - int p \<le> eB"
    and e: "e = eA + eB - bias" and S: "int S = bias + int p - 1" and n: "n = p + 1"
  shows "ieee_result f s sign (MA * MB * 2 ^ nat e) (n + nat (- e)) = ieee_result f s sign (mA * mB) S"
proof (rule ieee_result_cross)
  have "MA * MB * 2 ^ (nat e + S) * 2 ^ (2 * p)
      = (MA * 2 ^ nat (eA - 1 + int p)) * (MB * 2 ^ nat (eB - 1 + int p)) * 2 ^ (n + nat (- e))"
  proof -
    have "int (nat e + S + 2 * p) = int (nat (eA - 1 + int p) + nat (eB - 1 + int p) + (n + nat (- e)))"
      using A(2) B(2) e S n by simp
    then have "nat e + S + 2 * p = nat (eA - 1 + int p) + nat (eB - 1 + int p) + (n + nat (- e))"
      by (simp only: of_nat_eq_iff)
    then have "(2::nat) ^ (nat e + S) * 2 ^ (2 * p)
        = 2 ^ nat (eA - 1 + int p) * 2 ^ nat (eB - 1 + int p) * 2 ^ (n + nat (- e))"
      by (simp only: power_add [symmetric])
    then show ?thesis by (simp only: mult.assoc mult.left_commute)
  qed
  also have "\<dots> = mA * mB * 2 ^ (n + nat (- e)) * 2 ^ (2 * p)"
    unfolding A(1) B(1) by (simp only: power_add mult_2 mult_2_right ac_simps)
  finally show "MA * MB * 2 ^ nat e * 2 ^ S = mA * mB * 2 ^ (n + nat (- e))"
    by (simp add: power_add ac_simps)
qed


lemma shifted_product_32:
  fixes x y :: u64
  assumes "unat x < 2 ^ 24" "unat y < 2 ^ 24"
  shows "unat (softfloat_shortShiftRightJam64 (push_bit 7 x * push_bit 8 y) 32) = jam (unat x * unat y) 17"
proof -
  have "unat x * unat y < 2 ^ 24 * 2 ^ 24" by (rule mult_strict_mono) (use assms in simp_all)
  moreover have "unat (push_bit 7 x) = unat x * 2 ^ 7" "unat (push_bit 8 y) = unat y * 2 ^ 8"
    using assms by (intro unat_push_no_wrap; simp)+
  ultimately have "unat (push_bit 7 x * push_bit 8 y) = unat x * unat y * 2 ^ 15"
    by (subst unat_mult_no_wrap) simp_all
  moreover have "jam (unat x * unat y * 2 ^ 15) 32 = jam (unat x * unat y) 17"
    using jam_mult [of "unat x * unat y" 15 17] by simp
  ultimately show ?thesis by (subst shortShiftRightJam64_jam) simp_all
qed

lemma f32_mul_finite:
  assumes fin: "\<not> is_nan binary32 a" "\<not> is_inf binary32 a" "\<not> is_nan binary32 b" "\<not> is_inf binary32 b"
    and nz: "magnitude binary32 a \<noteq> 0" "magnitude binary32 b \<noteq> 0"
  shows "f32_mul a b s = ieee_mul binary32 a b s"
proof -
  define A B where "A = (ucast a :: u64)" and "B = (ucast b :: u64)"
  have eA: "0 \<le> expF32UI A" "expF32UI A < 255" "expF32UI A \<noteq> 255"
    using fin by (cases a rule: w32.operand_cases; simp add: A_def)+
  have eB: "0 \<le> expF32UI B" "expF32UI B < 255" "expF32UI B \<noteq> 255"
    using fin by (cases b rule: w32.operand_cases; simp add: B_def)+
  have zA: "\<not> (expF32UI A = 0 \<and> fracF32UI A = 0)" using nz(1) f32.magnitude_eq_0 [of A] by (simp add: A_def)
  have zB: "\<not> (expF32UI B = 0 \<and> fracF32UI B = 0)" using nz(2) f32.magnitude_eq_0 [of B] by (simp add: B_def)
  define sign where "sign = (negative binary32 a \<noteq> negative binary32 b)"
  define e where "e = ns32.nexp A + ns32.nexp B - 0x7F"
  define sig where "sig = softfloat_shortShiftRightJam64
    (push_bit 7 (ns32.nsig A OR 0x00800000) * push_bit 8 (ns32.nsig B OR 0x00800000)) 32"
  note nA = ns32.norm_operand [OF zA, of "0x00800000"] and nB = ns32.norm_operand [OF zB, of "0x00800000"]
  define MA MB where "MA = unat (ns32.nsig A OR 0x00800000)" and "MB = unat (ns32.nsig B OR 0x00800000)"
  have M: "2 ^ 23 \<le> MA" "MA < 2 ^ 24" "2 ^ 23 \<le> MB" "MB < 2 ^ 24"
    using nA(1,2) nB(1,2) by (simp_all add: MA_def MB_def)
  have sig: "unat sig = jam (MA * MB) 17"
    unfolding sig_def MA_def MB_def using M by (intro shifted_product_32) (simp_all add: MA_def MB_def)
  have r: "- 253 < e" "e < 2 ^ 31"
    using nA(4,5) nB(4,5) eA eB by (simp_all add: e_def)
  have signs: "(signF32UI A = (\<not> signF32UI B)) = sign" by (simp add: A_def B_def sign_def)
  have less: "sig < 0x40000000 \<longleftrightarrow> unat sig < 2 ^ (fracw binary32 + 7)" by (simp add: word_less_nat_alt)
  have "f32_mul a b s = (if unat sig < 2 ^ (fracw binary32 + 7)
      then softfloat_roundPackToF32 sign (e - 1) (push_bit 1 sig) s else softfloat_roundPackToF32 sign e sig s)"
    by (simp only: f32_mul_def Let_def A_def [symmetric] B_def [symmetric] ns32.norm_pair case_prod_conv
        eA(3) eB(3) zA zB if_False simp_thms signs sig_def [symmetric] e_def [symmetric] less)
  also have "\<dots> = ieee_result binary32 s sign (MA * MB * 2 ^ nat e) (7 + 17 + nat (- e))"
  proof (rule rp32.jam_normalise)
    show "2 ^ (fracw binary32 + 7 + 17 - 1) \<le> MA * MB"
      using mult_le_mono [OF M(1,3)] by (simp add: power_add [symmetric])
    show "MA * MB < 2 ^ (fracw binary32 + 7 + 17 + 1)"
      using mult_strict_mono [OF M(2,4)] by simp
  qed (use sig r in simp_all)
  also have "\<dots> = ieee_result binary32 s sign (magnitude binary32 A * magnitude binary32 B) (subexp binary32)"
    by (rule mult_cross [where p = 23 and eA = "ns32.nexp A" and eB = "ns32.nexp B" and bias = 127])
      (use nA(3,4) nB(3,4) in \<open>simp_all add: MA_def MB_def e_def subexp_def\<close>)
  also have "\<dots> = ieee_mul binary32 a b s"
    using fin nz by (simp add: ieee_mul_def A_def B_def sign_def)
  finally show ?thesis .
qed

lemma f32_mul_special:
  assumes "is_nan binary32 a \<or> is_inf binary32 a \<or> is_nan binary32 b \<or> is_inf binary32 b
    \<or> magnitude binary32 a = 0 \<or> magnitude binary32 b = 0"
  shows "f32_mul a b s = ieee_mul binary32 a b s"
  using assms
  by (cases a rule: w32.number_cases; cases b rule: w32.number_cases;
      simp add: f32_mul_def ieee_mul_def Let_def or_eq_0_64 narrow_pair c32.propagate_nan c32.default_nan
        f32.pack_inf [simplified] f32.pack_zero f32.ieee_result_0 f32.exponent_bits_0;
      blast)

lemma f32_mul_correct: "f32_mul a b s = ieee_mul binary32 a b s"
  using f32_mul_finite f32_mul_special by blast

lemma shifted_product_64:
  fixes x y :: u64
  assumes "unat x < 2 ^ 53" "unat y < 2 ^ 53"
  defines "P \<equiv> softfloat_mul64To128 (push_bit 10 x) (push_bit 11 y)"
  shows "unat (v64 P OR of_bool (v0 P \<noteq> 0)) = jam (unat x * unat y) 43"
proof -
  have "unat (push_bit 10 x) = unat x * 2 ^ 10" "unat (push_bit 11 y) = unat y * 2 ^ 11"
    using assms(1,2) by (intro unat_push_no_wrap; simp)+
  then have P: "nat128 P = unat x * unat y * 2 ^ 21" by (simp add: P_def mul64To128_nat)
  have "nat128 P div 2 ^ 64 = unat (v64 P)" "nat128 P mod 2 ^ 64 = unat (v0 P)"
    using unat_lt_64 [of "v0 P"] by (simp_all add: nat128_def)
  then have "unat (v64 P OR of_bool (v0 P \<noteq> 0)) = jam (nat128 P) 64"
    by (simp only: jam_def unat_or unat_of_bool word_eq_0_iff)
  then show ?thesis using jam_mult [of "unat x * unat y" 21 43] by (simp add: P)
qed

lemma f64_mul_finite:
  assumes fin: "\<not> is_nan binary64 a" "\<not> is_inf binary64 a" "\<not> is_nan binary64 b" "\<not> is_inf binary64 b"
    and nz: "magnitude binary64 a \<noteq> 0" "magnitude binary64 b \<noteq> 0"
  shows "f64_mul a b s = ieee_mul binary64 a b s"
proof -
  define A B where "A = a" and "B = b"
  have eA: "0 \<le> expF64UI A" "expF64UI A < 2047" "expF64UI A \<noteq> 2047"
    using fin by (cases a rule: w64.operand_cases; simp add: A_def)+
  have eB: "0 \<le> expF64UI B" "expF64UI B < 2047" "expF64UI B \<noteq> 2047"
    using fin by (cases b rule: w64.operand_cases; simp add: B_def)+
  have zA: "\<not> (expF64UI A = 0 \<and> fracF64UI A = 0)" using nz(1) f64.magnitude_eq_0 [of A] by (simp add: A_def)
  have zB: "\<not> (expF64UI B = 0 \<and> fracF64UI B = 0)" using nz(2) f64.magnitude_eq_0 [of B] by (simp add: B_def)
  define sign where "sign = (negative binary64 a \<noteq> negative binary64 b)"
  define e where "e = ns64.nexp A + ns64.nexp B - 0x3FF"
  define P where "P = softfloat_mul64To128 (push_bit 10 (ns64.nsig A OR 0x0010000000000000))
    (push_bit 11 (ns64.nsig B OR 0x0010000000000000))"
  define sig where "sig = v64 P OR of_bool (v0 P \<noteq> 0)"
  note nA = ns64.norm_operand [OF zA, of "0x0010000000000000"] and nB = ns64.norm_operand [OF zB, of "0x0010000000000000"]
  define MA MB where "MA = unat (ns64.nsig A OR 0x0010000000000000)" and "MB = unat (ns64.nsig B OR 0x0010000000000000)"
  have M: "2 ^ 52 \<le> MA" "MA < 2 ^ 53" "2 ^ 52 \<le> MB" "MB < 2 ^ 53"
    using nA(1,2) nB(1,2) by (simp_all add: MA_def MB_def)
  have sig: "unat sig = jam (MA * MB) 43"
    unfolding sig_def P_def MA_def MB_def using M by (intro shifted_product_64) (simp_all add: MA_def MB_def)
  have r: "- 2000 < e" "e < 10000"
    using nA(4,5) nB(4,5) eA eB by (simp_all add: e_def)
  have signs: "(signF64UI A = (\<not> signF64UI B)) = sign" using w64.sgn_wide [of a] w64.sgn_wide [of b] by (simp add: A_def B_def sign_def)
  have less: "sig < 0x4000000000000000 \<longleftrightarrow> unat sig < 2 ^ (fracw binary64 + 10)" by (simp add: word_less_nat_alt)
  have "f64_mul a b s = (if unat sig < 2 ^ (fracw binary64 + 10)
      then softfloat_roundPackToF64 sign (e - 1) (push_bit 1 sig) s else softfloat_roundPackToF64 sign e sig s)"
    by (simp only: f64_mul_def Let_def A_def [symmetric] B_def [symmetric] ns64.norm_pair case_prod_conv
        eA(3) eB(3) zA zB if_False simp_thms signs P_def [symmetric] sig_def [symmetric] e_def [symmetric] less)
  also have "\<dots> = ieee_result binary64 s sign (MA * MB * 2 ^ nat e) (10 + 43 + nat (- e))"
  proof (rule rp64.jam_normalise)
    show "2 ^ (fracw binary64 + 10 + 43 - 1) \<le> MA * MB"
      using mult_le_mono [OF M(1,3)] by (simp add: power_add [symmetric])
    show "MA * MB < 2 ^ (fracw binary64 + 10 + 43 + 1)"
      using mult_strict_mono [OF M(2,4)] by simp
  qed (use sig r in simp_all)
  also have "\<dots> = ieee_result binary64 s sign (magnitude binary64 A * magnitude binary64 B) (subexp binary64)"
    by (rule mult_cross [where p = 52 and eA = "ns64.nexp A" and eB = "ns64.nexp B" and bias = 1023])
      (use nA(3,4) nB(3,4) in \<open>simp_all add: MA_def MB_def e_def subexp_def\<close>)
  also have "\<dots> = ieee_mul binary64 a b s"
    using fin nz by (simp add: ieee_mul_def A_def B_def sign_def)
  finally show ?thesis .
qed

lemma f64_mul_special:
  assumes "is_nan binary64 a \<or> is_inf binary64 a \<or> is_nan binary64 b \<or> is_inf binary64 b
    \<or> magnitude binary64 a = 0 \<or> magnitude binary64 b = 0"
  shows "f64_mul a b s = ieee_mul binary64 a b s"
  using assms
  by (cases a rule: w64.number_cases [simplified]; cases b rule: w64.number_cases [simplified];
      simp add: f64_mul_def ieee_mul_def Let_def or_eq_0_64 w64.sgn_wide [simplified] propagateNaNF64UI_result c64.default_nan [where 'w = 64, simplified]
        f64.pack_inf [where 'w = 64, simplified] f64.pack_zero [where 'w = 64, simplified] f64.ieee_result_0 f64.exponent_bits_0;
      blast)

lemma f64_mul_correct: "f64_mul a b s = ieee_mul binary64 a b s"
  using f64_mul_finite f64_mul_special by blast

lemma shifted_product_16:
  fixes x y :: u64
  assumes "unat x < 2 ^ 11" "unat y < 2 ^ 11"
  defines "P \<equiv> push_bit 4 x * push_bit 5 y"
  shows "unat (if P AND 0xFFFF \<noteq> 0 then drop_bit 16 P OR 1 else drop_bit 16 P) = jam (unat x * unat y) 7"
proof -
  have "unat x * unat y < 2 ^ 11 * 2 ^ 11" by (rule mult_strict_mono) (use assms(1,2) in simp_all)
  moreover have "unat (push_bit 4 x) = unat x * 2 ^ 4" "unat (push_bit 5 y) = unat y * 2 ^ 5"
    using assms(1,2) by (intro unat_push_no_wrap; simp)+
  ultimately have P: "unat P = unat x * unat y * 2 ^ 9"
    unfolding P_def by (subst unat_mult_no_wrap) simp_all
  have "(0xFFFF :: u64) = mask 16" by (simp add: mask_eq_exp_minus_1)
  then have "unat (if P AND 0xFFFF \<noteq> 0 then drop_bit 16 P OR 1 else drop_bit 16 P) = jam (unat P) 16"
    using unat_and_mask [of P 16] by (simp add: jam_def unat_or unat_drop word_eq_0_iff)
  then show ?thesis using jam_mult [of "unat x * unat y" 9 7] by (simp add: P)
qed

lemma f16_mul_finite:
  assumes fin: "\<not> is_nan binary16 a" "\<not> is_inf binary16 a" "\<not> is_nan binary16 b" "\<not> is_inf binary16 b"
    and nz: "magnitude binary16 a \<noteq> 0" "magnitude binary16 b \<noteq> 0"
  shows "f16_mul a b s = ieee_mul binary16 a b s"
proof -
  define A B where "A = (ucast a :: u64)" and "B = (ucast b :: u64)"
  have eA: "0 \<le> expF16UI A" "expF16UI A < 31" "expF16UI A \<noteq> 31"
    using fin by (cases a rule: w16.operand_cases; simp add: A_def)+
  have eB: "0 \<le> expF16UI B" "expF16UI B < 31" "expF16UI B \<noteq> 31"
    using fin by (cases b rule: w16.operand_cases; simp add: B_def)+
  have zA: "\<not> (expF16UI A = 0 \<and> fracF16UI A = 0)" using nz(1) f16.magnitude_eq_0 [of A] by (simp add: A_def)
  have zB: "\<not> (expF16UI B = 0 \<and> fracF16UI B = 0)" using nz(2) f16.magnitude_eq_0 [of B] by (simp add: B_def)
  define sign where "sign = (negative binary16 a \<noteq> negative binary16 b)"
  define e where "e = ns16.nexp A + ns16.nexp B - 0xF"
  define P where "P = push_bit 4 (ns16.nsig A OR 0x0400) * push_bit 5 (ns16.nsig B OR 0x0400)"
  define sig where "sig = (if P AND 0xFFFF \<noteq> 0 then drop_bit 16 P OR 1 else drop_bit 16 P)"
  note nA = ns16.norm_operand [OF zA, of "0x0400"] and nB = ns16.norm_operand [OF zB, of "0x0400"]
  define MA MB where "MA = unat (ns16.nsig A OR 0x0400)" and "MB = unat (ns16.nsig B OR 0x0400)"
  have M: "2 ^ 10 \<le> MA" "MA < 2 ^ 11" "2 ^ 10 \<le> MB" "MB < 2 ^ 11"
    using nA(1,2) nB(1,2) by (simp_all add: MA_def MB_def)
  have sig: "unat sig = jam (MA * MB) 7"
    unfolding sig_def P_def MA_def MB_def using M by (intro shifted_product_16) (simp_all add: MA_def MB_def)
  have r: "- 100 < e" "e < 100"
    using nA(4,5) nB(4,5) eA eB by (simp_all add: e_def)
  have i8: "int8 e = e" "int8 (e - 1) = e - 1" using r by simp_all
  have signs: "(signF16UI A = (\<not> signF16UI B)) = sign" by (simp add: A_def B_def sign_def)
  have less: "sig < 0x4000 \<longleftrightarrow> unat sig < 2 ^ (fracw binary16 + 4)" by (simp add: word_less_nat_alt)
  have "f16_mul a b s = (if unat sig < 2 ^ (fracw binary16 + 4)
      then softfloat_roundPackToF16 sign (e - 1) (push_bit 1 sig) s else softfloat_roundPackToF16 sign e sig s)"
    by (simp only: f16_mul_def Let_def A_def [symmetric] B_def [symmetric] ns16.norm_pair case_prod_conv
        eA(3) eB(3) zA zB if_False simp_thms signs P_def [symmetric] sig_def [symmetric] e_def [symmetric] i8 less)
  also have "\<dots> = ieee_result binary16 s sign (MA * MB * 2 ^ nat e) (4 + 7 + nat (- e))"
  proof (rule rp16.jam_normalise)
    show "2 ^ (fracw binary16 + 4 + 7 - 1) \<le> MA * MB"
      using mult_le_mono [OF M(1,3)] by (simp add: power_add [symmetric])
    show "MA * MB < 2 ^ (fracw binary16 + 4 + 7 + 1)"
      using mult_strict_mono [OF M(2,4)] by simp
  qed (use sig r in simp_all)
  also have "\<dots> = ieee_result binary16 s sign (magnitude binary16 A * magnitude binary16 B) (subexp binary16)"
    by (rule mult_cross [where p = 10 and eA = "ns16.nexp A" and eB = "ns16.nexp B" and bias = 15])
      (use nA(3,4) nB(3,4) in \<open>simp_all add: MA_def MB_def e_def subexp_def\<close>)
  also have "\<dots> = ieee_mul binary16 a b s"
    using fin nz by (simp add: ieee_mul_def A_def B_def sign_def)
  finally show ?thesis .
qed

lemma f16_mul_special:
  assumes "is_nan binary16 a \<or> is_inf binary16 a \<or> is_nan binary16 b \<or> is_inf binary16 b
    \<or> magnitude binary16 a = 0 \<or> magnitude binary16 b = 0"
  shows "f16_mul a b s = ieee_mul binary16 a b s"
  using assms
  by (cases a rule: w16.number_cases; cases b rule: w16.number_cases;
      simp add: f16_mul_def ieee_mul_def Let_def or_eq_0_64 narrow_pair c16.propagate_nan c16.default_nan
        f16.pack_inf [simplified] f16.pack_zero f16.ieee_result_0 f16.exponent_bits_0;
      blast)

lemma f16_mul_correct: "f16_mul a b s = ieee_mul binary16 a b s"
  using f16_mul_finite f16_mul_special by blast


section \<open>Quotients\<close>

lemma quot_jam_scale:
  assumes "0 < c"
  shows "quot_jam (p * c) (q * c) = quot_jam p q"
  using assms by (simp add: quot_jam_def mod_mult_mult2)

lemma quot_jam_eq:
  assumes "p1 * q2 = p2 * q1" "0 < q1" "0 < q2"
  shows "quot_jam p1 q1 = quot_jam p2 q2"
proof -
  have "quot_jam p1 q1 = quot_jam (p1 * q2) (q1 * q2)" using assms(3) by (simp only: quot_jam_scale)
  also have "\<dots> = quot_jam (p2 * q1) (q2 * q1)" by (simp only: assms(1) mult.commute [of q1 q2])
  also have "\<dots> = quot_jam p2 q2" using assms(2) by (simp only: quot_jam_scale)
  finally show ?thesis .
qed

lemma or_bit: "x OR of_bool b = 2 * (x div 2) + of_bool (odd x \<or> b)" for x :: nat
  by (cases b) (auto simp: or_one_eq [of x, unfolded One_nat_def] elim!: evenE oddE)

lemma or_bit_div:
  fixes x :: nat
  assumes "0 < i"
  shows "(x OR of_bool b) div 2 ^ i = x div 2 ^ i"
proof -
  obtain k where k: "i = Suc k" using assms by (cases i) auto
  show ?thesis unfolding or_bit k power_Suc div_mult2_eq by simp
qed

lemma or_bit_mod:
  fixes x :: nat
  assumes "0 < i"
  shows "(x OR of_bool b) mod 2 ^ i = 0 \<longleftrightarrow> x mod 2 ^ i = 0 \<and> \<not> b"
proof -
  obtain k where k: "i = Suc k" using assms by (cases i) auto
  show ?thesis unfolding or_bit k power_Suc mod_mult2_eq by (cases b; cases "even x") (auto elim!: oddE)
qed

lemma jam_quot: "0 < q \<Longrightarrow> jam (quot_jam (p * 2 ^ i) q) i = quot_jam p q"
proof (cases "i = 0")
  case False
  assume q: "0 < q"
  have "(p * 2 ^ i div q) mod 2 ^ i = 0 \<and> p * 2 ^ i mod q = 0 \<longleftrightarrow> p mod q = 0"
  proof
    assume "p mod q = 0"
    then have "p = p div q * q" by auto
    then obtain k where "p = k * q" by blast
    then have "p * 2 ^ i = k * 2 ^ i * q" by simp
    then show "(p * 2 ^ i div q) mod 2 ^ i = 0 \<and> p * 2 ^ i mod q = 0" using q by simp
  next
    assume "(p * 2 ^ i div q) mod 2 ^ i = 0 \<and> p * 2 ^ i mod q = 0"
    then obtain k where k: "p * 2 ^ i div q = k * 2 ^ i" "p * 2 ^ i mod q = 0" by auto
    then have "p * 2 ^ i = k * 2 ^ i * q" using div_mult_mod_eq [of "p * 2 ^ i" q] by simp
    then have "p = k * q" by simp
    then show "p mod q = 0" by simp
  qed
  moreover have "p * 2 ^ i div q div 2 ^ i = p div q"
    using q by (metis div_mult2_eq div_mult_mult2 mult.commute power_not_zero zero_neq_numeral)
  ultimately show ?thesis
    using False unfolding jam_def quot_jam_def by (simp only: or_bit_div or_bit_mod de_Morgan_conj HOL.simp_thms neq0_conv) auto
qed simp

lemma nbits_quot_jam: "nbits (quot_jam p q) = nbits (p div q)" if "p div q \<noteq> 0"
proof -
  have "nbits (quot_jam p q) = Suc (nbits (quot_jam p q div 2 ^ 1))"
  proof -
    have "0 < quot_jam p q" using that unfolding quot_jam_def or_bit by (auto elim!: oddE)
    then show ?thesis using nbits_pos by simp
  qed
  then show ?thesis using that nbits_pos [of "p div q"] or_bit_div [of 1 "p div q"] by (simp add: quot_jam_def)
qed

text \<open>Two fractions of one value, both computed with enough bits, round alike.\<close>

lemma quot_round:
  assumes q: "0 < q" and b: "2 ^ (fracw f + 2) \<le> p div q"
  shows "ieee_result f s sign (quot_jam p q * 2 ^ n) j = (ieee_result f s sign (quot_jam (p * 2 ^ (n + i)) q) (j + i) :: 'a::len word \<times> sf_state)"
proof -
  define X where "X = quot_jam (p * 2 ^ (n + i)) q"
  have jX: "jam X (n + i) = quot_jam p q" using q by (simp add: X_def jam_quot)
  have "2 ^ (fracw f + (n + i) + 2) \<le> p * 2 ^ (n + i) div q"
  proof -
    have "2 ^ (fracw f + 2) * q \<le> p" using b q by (simp add: less_eq_div_iff_mult_less_eq)
    then have "2 ^ (fracw f + 2) * q * 2 ^ (n + i) \<le> p * 2 ^ (n + i)" by simp
    then show ?thesis using q by (simp add: less_eq_div_iff_mult_less_eq power_add ac_simps)
  qed
  then have "fracw f + (n + i) + 3 \<le> nbits (p * 2 ^ (n + i) div q)"
    using less_nbits_iff [of "fracw f + (n + i) + 2" "p * 2 ^ (n + i) div q"] by simp
  moreover from this have "p * 2 ^ (n + i) div q \<noteq> 0" by (intro notI) simp
  ultimately have "fracw f + (n + i) + 3 \<le> nbits X" by (simp add: X_def nbits_quot_jam)
  then have "ieee_result f s sign (jam X (n + i) * 2 ^ (n + i)) (j + i) = (ieee_result f s sign X (j + i) :: 'a word \<times> sf_state)"
    by (intro ieee_result_jam) simp
  moreover have "ieee_result f s sign (jam X (n + i) * 2 ^ (n + i)) (j + i)
      = (ieee_result f s sign (quot_jam p q * 2 ^ n) j :: 'a word \<times> sf_state)"
    by (rule ieee_result_cross) (simp add: jX power_add)
  ultimately show ?thesis by (simp add: X_def)
qed

lemma quot_cross:
  assumes q: "0 < q1" "0 < q2" and b: "2 ^ (fracw f + 2) \<le> p1 div q1" "2 ^ (fracw f + 2) \<le> p2 div q2"
    and val: "p1 * q2 * 2 ^ (n + j2) = p2 * q1 * 2 ^ j1"
  shows "ieee_result f s sign (quot_jam p1 q1 * 2 ^ n) j1 = (ieee_result f s sign (quot_jam p2 q2) j2 :: 'a::len word \<times> sf_state)"
proof -
  have "quot_jam (p1 * 2 ^ (n + j2)) q1 = quot_jam (p2 * 2 ^ j1) q2"
    using q val by (intro quot_jam_eq) (simp_all add: ac_simps)
  then show ?thesis
    using quot_round [OF q(1) b(1), of s sign n j1 j2, where 'a = 'a] quot_round [OF q(2) b(2), of s sign 0 j2 j1, where 'a = 'a]
    by (simp add: add.commute [of j1])
qed

text \<open>The code sets the sticky bit only when the bits below the rounding position are clear.\<close>

lemma jam_sticky: "n mod 64 \<noteq> 0 \<Longrightarrow> jam (n OR of_bool b) 5 = jam n 5"
proof -
  assume n: "n mod 64 \<noteq> 0"
  have "n mod 64 = 2 ^ 5 * (n div 2 ^ 5 mod 2) + n mod 2 ^ 5"
    using mod_mult2_eq [of n "2 ^ 5" 2] by simp
  then have n': "n mod 2 ^ 5 \<noteq> 0 \<or> odd (n div 2 ^ 5)" using n by (auto simp: odd_iff_mod_2_eq_one)
  show ?thesis
  proof (cases "n mod 2 ^ 5 = 0")
    case True
    with n' have "odd (n div 2 ^ 5)" by blast
    then show ?thesis
      unfolding jam_def or_bit_div [OF zero_less_numeral] by (simp only: or_bit [of "n div 2 ^ 5"] HOL.simp_thms)
  next
    case False
    then show ?thesis unfolding jam_def by (simp only: or_bit_div [OF zero_less_numeral] or_bit_mod [OF zero_less_numeral] HOL.simp_thms)
  qed
qed

lemma nbits_bounds: "0 < n \<Longrightarrow> 2 ^ (nbits n - 1) \<le> n" "n < 2 ^ nbits n"
  using less_nbits_iff [of "nbits n - 1" n] nbits_le_iff [of n "nbits n"] nbits_pos [of n] by simp_all

lemma div_cross:
  fixes MA MB mA mB p k S g :: nat and eA eB e c :: int
  assumes A: "MA * 2 ^ nat (eA - 1 + int p) = mA * 2 ^ p" "1 - int p \<le> eA" "0 < MA"
    and B: "MB * 2 ^ nat (eB - 1 + int p) = mB * 2 ^ p" "1 - int p \<le> eB" "0 < MB"
    and e: "e = eA - eB + c" and c: "int k + c = int S + int g" and big: "2 ^ (fracw f + 2) \<le> MA * 2 ^ k div MB"
  shows "ieee_result f s sign (quot_jam (MA * 2 ^ k) MB * 2 ^ nat e) (g + nat (- e))
    = ieee_quotient f s sign (mA * 2 ^ S) mB"
proof -
  define k2 where "k2 = fracw f + 3 + nbits mB"
  have pos: "0 < mA" "0 < mB"
    using A(1,3) B(1,3) by (metis gr0I mult_0 mult_is_0 not_gr0 power_not_zero zero_neq_numeral)+
  have "2 ^ (fracw f + 2) * mB \<le> mA * 2 ^ S * 2 ^ k2"
  proof -
    have "2 ^ (fracw f + 2) * mB \<le> 2 ^ (fracw f + 2) * 2 ^ nbits mB"
      using nbits_bounds(2) [of mB] by (intro mult_le_mono2) simp
    also have "\<dots> \<le> (1 * 1) * 2 ^ k2" by (simp add: k2_def power_add)
    also have "\<dots> \<le> mA * 2 ^ S * 2 ^ k2" using pos by (intro mult_le_mono1 mult_le_mono) simp_all
    finally show ?thesis .
  qed
  then have big2: "2 ^ (fracw f + 2) \<le> mA * 2 ^ S * 2 ^ k2 div mB"
    using pos by (simp add: less_eq_div_iff_mult_less_eq)
  have "MA * 2 ^ k * mB * 2 ^ (nat e + k2) * 2 ^ (nat (eA - 1 + int p) + p)
      = (MA * 2 ^ nat (eA - 1 + int p)) * (mB * 2 ^ p) * 2 ^ (k + nat e + k2)"
    by (simp add: power_add ac_simps)
  also have "\<dots> = (mA * 2 ^ p) * (MB * 2 ^ nat (eB - 1 + int p)) * 2 ^ (k + nat e + k2)"
    by (simp only: A(1) B(1))
  also have "\<dots> = mA * MB * (2 ^ (p + nat (eB - 1 + int p) + k + nat e + k2))"
    by (simp add: power_add ac_simps)
  also have "p + nat (eB - 1 + int p) + k + nat e + k2 = S + k2 + (g + nat (- e)) + (nat (eA - 1 + int p) + p)"
    using A(2) B(2) e c by linarith
  also have "mA * MB * 2 ^ (S + k2 + (g + nat (- e)) + (nat (eA - 1 + int p) + p))
      = mA * 2 ^ S * 2 ^ k2 * MB * 2 ^ (g + nat (- e)) * 2 ^ (nat (eA - 1 + int p) + p)"
    by (simp add: power_add ac_simps)
  finally have "MA * 2 ^ k * mB * 2 ^ (nat e + k2) = mA * 2 ^ S * 2 ^ k2 * MB * 2 ^ (g + nat (- e))" by simp
  then have "ieee_result f s sign (quot_jam (MA * 2 ^ k) MB * 2 ^ nat e) (g + nat (- e))
    = (ieee_result f s sign (quot_jam (mA * 2 ^ S * 2 ^ k2) mB) k2 :: 'a::len word \<times> sf_state)"
    using pos B(3) big big2 by (intro quot_cross) simp_all
  then show ?thesis unfolding ieee_quotient_def k2_def by (simp add: Let_def)
qed

lemma nbits_or_bit: "0 < n \<Longrightarrow> nbits (n OR of_bool b) = nbits n"
proof -
  assume n: "0 < n"
  then have "0 < n OR of_bool b" unfolding or_bit by (auto elim!: oddE)
  then show ?thesis
    using nbits_pos [of n] nbits_pos [of "n OR of_bool b"] or_bit_div [of 1 n b] n by simp
qed

text \<open>The value the code hands to rounding, with the sticky bit possibly left out.\<close>

lemma ieee_result_sticky:
  assumes "fracw f + 8 \<le> nbits n" "n mod 64 = 0 \<Longrightarrow> b' = b"
  shows "ieee_result f s sign ((n OR of_bool (n mod 64 = 0 \<and> b')) * 2 ^ i) j
    = (ieee_result f s sign ((n OR of_bool b) * 2 ^ i) j :: 'a::len word \<times> sf_state)"
proof (cases "n mod 64 = 0")
  case False
  have "ieee_result f s sign (m * 2 ^ i) j = (ieee_result f s sign (jam m 5 * 2 ^ 5 * 2 ^ i) j :: 'a word \<times> sf_state)"
    if "fracw f + 8 \<le> nbits m" for m
  proof -
    have "0 < m" using that by (cases m) simp_all
    have "ieee_result f s sign (jam (m * 2 ^ i) (5 + i) * 2 ^ (5 + i)) j = (ieee_result f s sign (m * 2 ^ i) j :: 'a word \<times> sf_state)"
      using that \<open>0 < m\<close> by (intro ieee_result_jam) (simp add: nbits_mult_pow)
    then show ?thesis unfolding jam_mult by (simp only: power_add mult.assoc)
  qed
  note this [of n] and this [of "n OR of_bool b"]
  moreover have "nbits (n OR of_bool b) = nbits n"
    using assms(1) by (intro nbits_or_bit) (cases n, simp_all)
  ultimately show ?thesis using False assms(1) jam_sticky [OF False, of b] by simp
qed (use assms in simp)

section \<open>binary32 division\<close>

lemma quotient_bits:
  fixes MA MB :: nat
  assumes M: "2 ^ p \<le> MA" "MA < 2 ^ Suc p" "2 ^ p \<le> MB" "MB < 2 ^ Suc p"
    and k: "k = (if MA < MB then Suc k0 else k0)"
  shows "2 ^ k0 \<le> MA * 2 ^ k div MB" "MA * 2 ^ k div MB < 2 ^ Suc k0"
proof -
  have B: "0 < MB" using M(3) by (cases MB) simp_all
  have "2 ^ k0 * MB \<le> MA * 2 ^ k" "MA * 2 ^ k < 2 ^ Suc k0 * MB"
    using M by (auto simp: k mult.commute)
  then show "2 ^ k0 \<le> MA * 2 ^ k div MB" "MA * 2 ^ k div MB < 2 ^ Suc k0"
    using B by (simp_all add: less_eq_div_iff_mult_less_eq less_mult_imp_div_less)
qed

lemma f32_div_sig:
  fixes x y :: u64
  assumes M: "2 ^ 23 \<le> unat x" "unat x < 2 ^ 24" "2 ^ 23 \<le> unat y" "unat y < 2 ^ 24"
    and k: "k = (if unat x < unat y then 31 else 30)" and Q: "Q = push_bit k x div y"
    and sig: "sig = (if Q AND 0x3F = 0 then Q OR of_bool (y * Q \<noteq> push_bit k x) else Q)"
    and q: "q = unat x * 2 ^ k div unat y"
  shows "unat sig = q OR of_bool (q mod 64 = 0 \<and> unat y * q \<noteq> unat x * 2 ^ k)" "2 ^ 30 \<le> q" "q < 2 ^ 31"
proof -
  show b: "2 ^ 30 \<le> q" "q < 2 ^ 31"
  proof -
    have "k = (if unat x < unat y then Suc 30 else 30)" using k by simp
    from quotient_bits [of 23, OF _ _ _ _ this] show "2 ^ 30 \<le> q" "q < 2 ^ 31" using M unfolding q by simp_all
  qed
  have "unat x * 2 ^ k < 2 ^ 24 * 2 ^ 31"
    using M(2) by (simp add: k)
  then have p: "unat (push_bit k x) = unat x * 2 ^ k" by (intro unat_push_no_wrap) simp
  then have Q': "unat Q = q" by (simp only: Q q unat_div)
  have m: "Q AND 0x3F = 0 \<longleftrightarrow> q mod 64 = 0"
    using unat_and_mask [of Q 6] by (simp add: word_eq_0_iff Q' mask_eq_exp_minus_1)
  have "unat y * q \<le> unat x * 2 ^ k" by (simp add: q)
  then have "unat (y * Q) = unat y * q"
    using p unat_lt_64 [of "push_bit k x"] by (subst unat_mult_no_wrap) (simp_all add: Q')
  then have n: "y * Q \<noteq> push_bit k x \<longleftrightarrow> unat y * q \<noteq> unat x * 2 ^ k"
    by (simp only: word_eq_iff_unat p)
  show "unat sig = q OR of_bool (q mod 64 = 0 \<and> unat y * q \<noteq> unat x * 2 ^ k)"
    unfolding sig m n by (simp add: unat_or Q')
qed

lemma f32_div_finite:
  assumes fin: "\<not> is_nan binary32 a" "\<not> is_inf binary32 a" "\<not> is_nan binary32 b" "\<not> is_inf binary32 b"
    and nz: "magnitude binary32 a \<noteq> 0" "magnitude binary32 b \<noteq> 0"
  shows "f32_div a b s = ieee_div binary32 a b s"
proof -
  define A B where "A = (ucast a :: u64)" and "B = (ucast b :: u64)"
  have eA: "0 \<le> expF32UI A" "expF32UI A < 255" "expF32UI A \<noteq> 255"
    using fin by (cases a rule: w32.operand_cases; simp add: A_def)+
  have eB: "0 \<le> expF32UI B" "expF32UI B < 255" "expF32UI B \<noteq> 255"
    using fin by (cases b rule: w32.operand_cases; simp add: B_def)+
  have zA: "\<not> (expF32UI A = 0 \<and> fracF32UI A = 0)" using nz(1) f32.magnitude_eq_0 [of A] by (simp add: A_def)
  have zB: "\<not> (expF32UI B = 0 \<and> fracF32UI B = 0)" using nz(2) f32.magnitude_eq_0 [of B] by (simp add: B_def)
  define sign where "sign = (negative binary32 a \<noteq> negative binary32 b)"
  define x y where "x = ns32.nsig A OR 0x00800000" and "y = ns32.nsig B OR 0x00800000"
  note nA = ns32.norm_operand [OF zA, of "0x00800000", folded x_def]
    and nB = ns32.norm_operand [OF zB, of "0x00800000", folded y_def]
  have M: "2 ^ 23 \<le> unat x" "unat x < 2 ^ 24" "2 ^ 23 \<le> unat y" "unat y < 2 ^ 24"
    using nA(1,2) nB(1,2) by simp_all
  define k where "k = (if unat x < unat y then 31 else 30 :: nat)"
  define e where "e = ns32.nexp A - ns32.nexp B + (if unat x < unat y then 0x7D else 0x7E)"
  define Q where "Q = push_bit k x div y"
  define sig where "sig = (if Q AND 0x3F = 0 then Q OR of_bool (y * Q \<noteq> push_bit k x) else Q)"
  define q where "q = unat x * 2 ^ k div unat y"
  note sig = f32_div_sig [OF M k_def Q_def sig_def q_def]
  have r: "- 1000 < e" "e < 1000"
    using nA(4,5) nB(4,5) eA eB by (simp_all add: e_def)
  have signs: "(signF32UI A = (\<not> signF32UI B)) = sign" by (simp add: A_def B_def sign_def)
  have pair: "(if x < y then (ns32.nexp A - ns32.nexp B + 0x7E - 1, push_bit 31 x)
      else (ns32.nexp A - ns32.nexp B + 0x7E, push_bit 30 x)) = (e, push_bit k x)"
    by (simp add: e_def k_def word_less_nat_alt)
  have "f32_div a b s = softfloat_roundPackToF32 sign e sig s"
    by (simp only: f32_div_def Let_def A_def [symmetric] B_def [symmetric] ns32.norm_pair case_prod_conv
        eA(3) eB(3) zA zB if_False simp_thms signs x_def [symmetric] y_def [symmetric] pair Q_def [symmetric] sig_def [symmetric])
  also have "\<dots> = ieee_result binary32 s sign (unat sig * 2 ^ nat e) (7 + nat (- e))"
  proof (rule rp32.round_pack_law)
    have "2 ^ 30 \<le> unat sig" "unat sig < 2 ^ 31"
    proof -
      have "nbits (unat sig) = 31"
        unfolding sig(1) using sig(2,3) nbits_eqI [of 30 q] by (subst nbits_or_bit) simp_all
      then show "2 ^ 30 \<le> unat sig" "unat sig < 2 ^ 31"
        by (subst less_nbits_iff [symmetric] nbits_le_iff [symmetric], simp)+
    qed
    then show "normed binary32 7 (unat sig)" by (simp add: normed_def)
  qed (use r in simp_all)
  also have "\<dots> = ieee_result binary32 s sign (quot_jam (unat x * 2 ^ k) (unat y) * 2 ^ nat e) (7 + nat (- e))"
  proof -
    have "nbits q = 31" using sig(2,3) nbits_eqI [of 30 q] by simp
    moreover have "(unat y * q \<noteq> unat x * 2 ^ k) = (unat x * 2 ^ k mod unat y \<noteq> 0)"
      unfolding q_def using div_mult_mod_eq [of "unat x * 2 ^ k" "unat y"] by (metis add.right_neutral add_left_cancel mult.commute)
    ultimately show ?thesis
      unfolding sig(1) quot_jam_def q_def [symmetric] by (intro ieee_result_sticky) simp_all
  qed
  also have "\<dots> = ieee_quotient binary32 s sign (magnitude binary32 A * 2 ^ subexp binary32) (magnitude binary32 B)"
  proof (rule div_cross [where p = 23 and eA = "ns32.nexp A" and eB = "ns32.nexp B" and c = "if unat x < unat y then 0x7D else 0x7E"])
    show "2 ^ (fracw binary32 + 2) \<le> unat x * 2 ^ k div unat y" using sig(2) unfolding q_def by simp
    show "0 < unat x" "0 < unat y" using M by simp_all
  qed (use nA(3,4) nB(3,4) in \<open>simp_all add: e_def k_def subexp_def\<close>)
  also have "\<dots> = ieee_div binary32 a b s"
    using fin nz by (simp add: ieee_div_def A_def B_def sign_def)
  finally show ?thesis .
qed

lemma f32_div_special:
  assumes "is_nan binary32 a \<or> is_inf binary32 a \<or> is_nan binary32 b \<or> is_inf binary32 b
    \<or> magnitude binary32 a = 0 \<or> magnitude binary32 b = 0"
  shows "f32_div a b s = ieee_div binary32 a b s"
  using assms
  by (cases a rule: w32.number_cases; cases b rule: w32.number_cases;
      simp add: f32_div_def ieee_div_def Let_def or_eq_0_64 narrow_pair c32.propagate_nan c32.default_nan
        f32.pack_inf [simplified] f32.pack_zero f32.ieee_result_0 ieee_quotient_def quot_jam_def;
      blast)

lemma f32_div_correct: "f32_div a b s = ieee_div binary32 a b s"
  using f32_div_finite f32_div_special by blast

lemma mul_correct:
  "f16_mul a1 b1 s = ieee_mul binary16 a1 b1 s
    \<and> f32_mul a2 b2 s = ieee_mul binary32 a2 b2 s
    \<and> f64_mul a3 b3 s = ieee_mul binary64 a3 b3 s"
  by (simp only: f16_mul_correct f32_mul_correct f64_mul_correct simp_thms)

text \<open>C5: f16_mul, f32_mul and f64_mul compute the exact product (for binary64 through the
  128-bit product of the significands) and round it once, zero times infinity invalid, on
  every input, rounding mode and state, flags included. f32_div equals ieee_div at binary32:
  the exact quotient rounded once, division by zero raising its flag, zero by zero and
  infinity by infinity invalid, on every input and state.\<close>

theorem mul_div_correct:
  "f16_mul a1 b1 s = ieee_mul binary16 a1 b1 s
    \<and> f32_mul a2 b2 s = ieee_mul binary32 a2 b2 s
    \<and> f64_mul a3 b3 s = ieee_mul binary64 a3 b3 s
    \<and> f32_div a b s = ieee_div binary32 a b s"
  by (simp only: mul_correct f32_div_correct simp_thms)

end
