(* ===== verification/SF_MulAdd.thy ===== *)
theory SF_MulAdd
  imports IEEE_Spec
begin

text \<open>
  Fused multiply-add: \<open>s_mulAddF16.c\<close>, \<open>s_mulAddF32.c\<close>, \<open>s_mulAddF64.c\<close> (the variant for
  64-bit integers) and \<open>f*_mulAdd.c\<close>.  The labels \<open>propagateNaN_ABC\<close>, \<open>propagateNaN_ZC\<close>,
  \<open>infProdArg\<close>, \<open>zeroProd\<close> and \<open>completeCancellation\<close> are local values.
\<close>

section \<open>Definitions\<close>

text \<open>The values of \<open>op\<close> in internals.h.\<close>

abbreviation softfloat_mulAdd_subC :: u8 where "softfloat_mulAdd_subC \<equiv> 1"
abbreviation softfloat_mulAdd_subProd :: u8 where "softfloat_mulAdd_subProd \<equiv> 2"

definition softfloat_mulAddF16 :: "u64 \<Rightarrow> u64 \<Rightarrow> u64 \<Rightarrow> u8 \<Rightarrow> sf_state \<Rightarrow> float16 \<times> sf_state" where
  "softfloat_mulAddF16 uiA uiB uiC op s =
     (let signA = signF16UI uiA;
          expA = expF16UI uiA;
          sigA = fracF16UI uiA;
          signB = signF16UI uiB;
          expB = expF16UI uiB;
          sigB = fracF16UI uiB;
          signC = (signF16UI uiC \<noteq> (op = softfloat_mulAdd_subC));
          expC = expF16UI uiC;
          sigC = fracF16UI uiC;
          signProd = ((signA \<noteq> signB) \<noteq> (op = softfloat_mulAdd_subProd));
          propagateNaN_ZC = (\<lambda>uiZ s. let (uiZ, s) = softfloat_propagateNaNF16UI uiZ uiC s in (ucast uiZ, s));
          propagateNaN_ABC = (let (uiZ, s) = softfloat_propagateNaNF16UI uiA uiB s in propagateNaN_ZC uiZ s);
          infProdInvalid = propagateNaN_ZC defaultNaNF16UI (softfloat_raiseFlags softfloat_flag_invalid s);
          infProdArg = (\<lambda>magBits. if magBits \<noteq> 0
             then let uiZ = packToF16UI signProd 0x1F 0
                  in if expC \<noteq> 0x1F then (ucast uiZ, s)
                     else if sigC \<noteq> 0 then propagateNaN_ZC uiZ s
                     else if signProd = signC then (ucast uiZ, s)
                     else infProdInvalid
             else infProdInvalid);
          completeCancellation = (ucast (packToF16UI (softfloat_roundingMode s = softfloat_round_min) 0 0), s);
          zeroProd = (if expC = 0 \<and> sigC = 0 \<and> signProd \<noteq> signC then completeCancellation
                      else (ucast uiC, s))
      in if expA = 0x1F
         then if sigA \<noteq> 0 \<or> expB = 0x1F \<and> sigB \<noteq> 0 then propagateNaN_ABC
              else infProdArg (word_of_int expB OR sigB)
         else if expB = 0x1F
         then if sigB \<noteq> 0 then propagateNaN_ABC else infProdArg (word_of_int expA OR sigA)
         else if expC = 0x1F
         then if sigC \<noteq> 0 then propagateNaN_ZC 0 s else (ucast uiC, s)
         else if expA = 0 \<and> sigA = 0 then zeroProd
         else let (expA, sigA) = (if expA = 0
                    then let normExpSig = softfloat_normSubnormalF16Sig sigA
                         in (es16_exp normExpSig, es16_sig normExpSig)
                    else (expA, sigA))
         in if expB = 0 \<and> sigB = 0 then zeroProd
         else let (expB, sigB) = (if expB = 0
                    then let normExpSig = softfloat_normSubnormalF16Sig sigB
                         in (es16_exp normExpSig, es16_sig normExpSig)
                    else (expB, sigB));
                  expProd = int8 (expA + expB - 0xE);
                  sigA = push_bit 4 (sigA OR 0x0400);
                  sigB = push_bit 4 (sigB OR 0x0400);
                  sigProd = sigA * sigB;
                  (expProd, sigProd) = (if sigProd < 0x20000000 then (int8 (expProd - 1), push_bit 1 sigProd)
                                        else (expProd, sigProd));
                  signZ = signProd
         in if expC = 0 \<and> sigC = 0
         then softfloat_roundPackToF16 signZ (int8 (expProd - 1))
                (drop_bit 15 sigProd OR of_bool (sigProd AND 0x7FFF \<noteq> 0)) s
         else let (expC, sigC) = (if expC = 0
                    then let normExpSig = softfloat_normSubnormalF16Sig sigC
                         in (es16_exp normExpSig, es16_sig normExpSig)
                    else (expC, sigC));
                  sigC = push_bit 3 (sigC OR 0x0400);
                  expDiff = int8 (expProd - expC)
         in if signProd = signC
         then let (expZ, sigZ) = (if expDiff \<le> 0
                    then (expC, sigC + ucast (softfloat_shiftRightJam32 (ucast sigProd) (word_of_int (16 - expDiff))))
                    else let sig32Z = sigProd
                               + ucast (softfloat_shiftRightJam32 (ucast (push_bit 16 sigC)) (word_of_int expDiff))
                         in (expProd, drop_bit 16 sig32Z OR of_bool (sig32Z AND 0xFFFF \<noteq> 0)))
              in if sigZ < 0x4000
                 then softfloat_roundPackToF16 signZ (int8 (expZ - 1)) (push_bit 1 sigZ) s
                 else softfloat_roundPackToF16 signZ expZ sigZ s
         else let sig32C = push_bit 16 sigC
         in if expDiff = 0 \<and> sigProd - sig32C = 0 then completeCancellation
         else let (signZ, expZ, sig32Z) = (if expDiff < 0
                    then (signC, expC,
                          sig32C - ucast (softfloat_shiftRightJam32 (ucast sigProd) (word_of_int (- expDiff))))
                    else if expDiff = 0
                    then let sig32Z = sigProd - sig32C
                         in if sig32Z AND 0x80000000 \<noteq> 0 then (\<not> signZ, expProd, - sig32Z)
                            else (signZ, expProd, sig32Z)
                    else (signZ, expProd,
                          sigProd - ucast (softfloat_shiftRightJam32 (ucast sig32C) (word_of_int expDiff))));
                  shiftDist = int8 (uint (softfloat_countLeadingZeros32 (ucast sig32Z)) - 1);
                  expZ = int8 (expZ - shiftDist);
                  shiftDist = int8 (shiftDist - 16);
                  sigZ = (if shiftDist < 0
                    then drop_bit (nat (- shiftDist)) sig32Z
                         OR of_bool ((ucast (push_bit (nat (shiftDist AND 31)) sig32Z) :: u32) \<noteq> 0)
                    else push_bit (nat shiftDist) sig32Z)
              in softfloat_roundPackToF16 signZ expZ sigZ s)"

definition f16_mulAdd :: "float16 \<Rightarrow> float16 \<Rightarrow> float16 \<Rightarrow> sf_state \<Rightarrow> float16 \<times> sf_state" where
  "f16_mulAdd a b c s = softfloat_mulAddF16 (ucast a) (ucast b) (ucast c) 0 s"

definition softfloat_mulAddF32 :: "u64 \<Rightarrow> u64 \<Rightarrow> u64 \<Rightarrow> u8 \<Rightarrow> sf_state \<Rightarrow> float32 \<times> sf_state" where
  "softfloat_mulAddF32 uiA uiB uiC op s =
     (let signA = signF32UI uiA;
          expA = expF32UI uiA;
          sigA = fracF32UI uiA;
          signB = signF32UI uiB;
          expB = expF32UI uiB;
          sigB = fracF32UI uiB;
          signC = (signF32UI uiC \<noteq> (op = softfloat_mulAdd_subC));
          expC = expF32UI uiC;
          sigC = fracF32UI uiC;
          signProd = ((signA \<noteq> signB) \<noteq> (op = softfloat_mulAdd_subProd));
          propagateNaN_ZC = (\<lambda>uiZ s. let (uiZ, s) = softfloat_propagateNaNF32UI uiZ uiC s in (ucast uiZ, s));
          propagateNaN_ABC = (let (uiZ, s) = softfloat_propagateNaNF32UI uiA uiB s in propagateNaN_ZC uiZ s);
          infProdInvalid = propagateNaN_ZC defaultNaNF32UI (softfloat_raiseFlags softfloat_flag_invalid s);
          infProdArg = (\<lambda>magBits. if magBits \<noteq> 0
             then let uiZ = packToF32UI signProd 0xFF 0
                  in if expC \<noteq> 0xFF then (ucast uiZ, s)
                     else if sigC \<noteq> 0 then propagateNaN_ZC uiZ s
                     else if signProd = signC then (ucast uiZ, s)
                     else infProdInvalid
             else infProdInvalid);
          completeCancellation = (ucast (packToF32UI (softfloat_roundingMode s = softfloat_round_min) 0 0), s);
          zeroProd = (if expC = 0 \<and> sigC = 0 \<and> signProd \<noteq> signC then completeCancellation
                      else (ucast uiC, s))
      in if expA = 0xFF
         then if sigA \<noteq> 0 \<or> expB = 0xFF \<and> sigB \<noteq> 0 then propagateNaN_ABC
              else infProdArg (word_of_int expB OR sigB)
         else if expB = 0xFF
         then if sigB \<noteq> 0 then propagateNaN_ABC else infProdArg (word_of_int expA OR sigA)
         else if expC = 0xFF
         then if sigC \<noteq> 0 then propagateNaN_ZC 0 s else (ucast uiC, s)
         else if expA = 0 \<and> sigA = 0 then zeroProd
         else let (expA, sigA) = (if expA = 0
                    then let normExpSig = softfloat_normSubnormalF32Sig sigA
                         in (es32_exp normExpSig, es32_sig normExpSig)
                    else (expA, sigA))
         in if expB = 0 \<and> sigB = 0 then zeroProd
         else let (expB, sigB) = (if expB = 0
                    then let normExpSig = softfloat_normSubnormalF32Sig sigB
                         in (es32_exp normExpSig, es32_sig normExpSig)
                    else (expB, sigB));
                  expProd = expA + expB - 0x7E;
                  sigA = push_bit 7 (sigA OR 0x00800000);
                  sigB = push_bit 7 (sigB OR 0x00800000);
                  sigProd = sigA * sigB;
                  (expProd, sigProd) = (if sigProd < 0x2000000000000000 then (expProd - 1, push_bit 1 sigProd)
                                        else (expProd, sigProd));
                  signZ = signProd
         in if expC = 0 \<and> sigC = 0
         then softfloat_roundPackToF32 signZ (expProd - 1) (softfloat_shortShiftRightJam64 sigProd 31) s
         else let (expC, sigC) = (if expC = 0
                    then let normExpSig = softfloat_normSubnormalF32Sig sigC
                         in (es32_exp normExpSig, es32_sig normExpSig)
                    else (expC, sigC));
                  sigC = push_bit 6 (sigC OR 0x00800000);
                  expDiff = expProd - expC
         in if signProd = signC
         then let (expZ, sigZ) = (if expDiff \<le> 0
                    then (expC, sigC + softfloat_shiftRightJam64 sigProd (word_of_int (32 - expDiff)))
                    else let sig64Z = sigProd
                               + softfloat_shiftRightJam64 (push_bit 32 sigC) (word_of_int expDiff)
                         in (expProd, softfloat_shortShiftRightJam64 sig64Z 32))
              in if sigZ < 0x40000000
                 then softfloat_roundPackToF32 signZ (expZ - 1) (push_bit 1 sigZ) s
                 else softfloat_roundPackToF32 signZ expZ sigZ s
         else let sig64C = push_bit 32 sigC
         in if expDiff = 0 \<and> sigProd - sig64C = 0 then completeCancellation
         else let (signZ, expZ, sig64Z) = (if expDiff < 0
                    then (signC, expC, sig64C - softfloat_shiftRightJam64 sigProd (word_of_int (- expDiff)))
                    else if expDiff = 0
                    then let sig64Z = sigProd - sig64C
                         in if sig64Z AND 0x8000000000000000 \<noteq> 0 then (\<not> signZ, expProd, - sig64Z)
                            else (signZ, expProd, sig64Z)
                    else (signZ, expProd, sigProd - softfloat_shiftRightJam64 sig64C (word_of_int expDiff)));
                  shiftDist = int8 (uint (softfloat_countLeadingZeros64 sig64Z) - 1);
                  expZ = expZ - shiftDist;
                  shiftDist = int8 (shiftDist - 32);
                  sigZ = (if shiftDist < 0
                    then softfloat_shortShiftRightJam64 sig64Z (word_of_int (- shiftDist))
                    else push_bit (nat shiftDist) sig64Z)
              in softfloat_roundPackToF32 signZ expZ sigZ s)"

definition f32_mulAdd :: "float32 \<Rightarrow> float32 \<Rightarrow> float32 \<Rightarrow> sf_state \<Rightarrow> float32 \<times> sf_state" where
  "f32_mulAdd a b c s = softfloat_mulAddF32 (ucast a) (ucast b) (ucast c) 0 s"

definition softfloat_mulAddF64 :: "u64 \<Rightarrow> u64 \<Rightarrow> u64 \<Rightarrow> u8 \<Rightarrow> sf_state \<Rightarrow> float64 \<times> sf_state" where
  "softfloat_mulAddF64 uiA uiB uiC op s =
     (let signA = signF64UI uiA;
          expA = expF64UI uiA;
          sigA = fracF64UI uiA;
          signB = signF64UI uiB;
          expB = expF64UI uiB;
          sigB = fracF64UI uiB;
          signC = (signF64UI uiC \<noteq> (op = softfloat_mulAdd_subC));
          expC = expF64UI uiC;
          sigC = fracF64UI uiC;
          signZ = ((signA \<noteq> signB) \<noteq> (op = softfloat_mulAdd_subProd));
          propagateNaN_ZC = (\<lambda>uiZ s. softfloat_propagateNaNF64UI uiZ uiC s);
          propagateNaN_ABC = (let (uiZ, s) = softfloat_propagateNaNF64UI uiA uiB s in propagateNaN_ZC uiZ s);
          infProdInvalid = propagateNaN_ZC defaultNaNF64UI (softfloat_raiseFlags softfloat_flag_invalid s);
          infProdArg = (\<lambda>magBits. if magBits \<noteq> 0
             then let uiZ = packToF64UI signZ 0x7FF 0
                  in if expC \<noteq> 0x7FF then (uiZ, s)
                     else if sigC \<noteq> 0 then propagateNaN_ZC uiZ s
                     else if signZ = signC then (uiZ, s)
                     else infProdInvalid
             else infProdInvalid);
          completeCancellation = (packToF64UI (softfloat_roundingMode s = softfloat_round_min) 0 0, s);
          zeroProd = (if expC = 0 \<and> sigC = 0 \<and> signZ \<noteq> signC then completeCancellation
                      else (uiC, s))
      in if expA = 0x7FF
         then if sigA \<noteq> 0 \<or> expB = 0x7FF \<and> sigB \<noteq> 0 then propagateNaN_ABC
              else infProdArg (word_of_int expB OR sigB)
         else if expB = 0x7FF
         then if sigB \<noteq> 0 then propagateNaN_ABC else infProdArg (word_of_int expA OR sigA)
         else if expC = 0x7FF
         then if sigC \<noteq> 0 then propagateNaN_ZC 0 s else (uiC, s)
         else if expA = 0 \<and> sigA = 0 then zeroProd
         else let (expA, sigA) = (if expA = 0
                    then let normExpSig = softfloat_normSubnormalF64Sig sigA
                         in (es64_exp normExpSig, es64_sig normExpSig)
                    else (expA, sigA))
         in if expB = 0 \<and> sigB = 0 then zeroProd
         else let (expB, sigB) = (if expB = 0
                    then let normExpSig = softfloat_normSubnormalF64Sig sigB
                         in (es64_exp normExpSig, es64_sig normExpSig)
                    else (expB, sigB));
                  expZ = expA + expB - 0x3FE;
                  sigA = push_bit 10 (sigA OR 0x0010000000000000);
                  sigB = push_bit 10 (sigB OR 0x0010000000000000);
                  sig128Z = softfloat_mul64To128 sigA sigB;
                  (expZ, sig128Z) = (if v64 sig128Z < 0x2000000000000000
                    then (expZ - 1, softfloat_add128 (v64 sig128Z) (v0 sig128Z) (v64 sig128Z) (v0 sig128Z))
                    else (expZ, sig128Z))
         in if expC = 0 \<and> sigC = 0
         then softfloat_roundPackToF64 signZ (expZ - 1)
                (push_bit 1 (v64 sig128Z) OR of_bool (v0 sig128Z \<noteq> 0)) s
         else let (expC, sigC) = (if expC = 0
                    then let normExpSig = softfloat_normSubnormalF64Sig sigC
                         in (es64_exp normExpSig, es64_sig normExpSig)
                    else (expC, sigC));
                  sigC = push_bit 9 (sigC OR 0x0010000000000000);
                  expDiff = expZ - expC;
                  (expZ, sig128Z) = (if expDiff < 0
                    then (expC, if signZ = signC \<or> expDiff < - 1
                            then sig128Z\<lparr>v64 := softfloat_shiftRightJam64 (v64 sig128Z) (word_of_int (- expDiff))\<rparr>
                            else softfloat_shortShiftRightJam128 (v64 sig128Z) (v0 sig128Z) 1)
                    else (expZ, sig128Z));
                  sig128C = softfloat_shiftRightJam128 sigC 0 (word_of_int expDiff)
         in if signZ = signC
         then let sigZ = (if expDiff \<le> 0
                    then (sigC + v64 sig128Z) OR of_bool (v0 sig128Z \<noteq> 0)
                    else let sig128Z = softfloat_add128 (v64 sig128Z) (v0 sig128Z) (v64 sig128C) (v0 sig128C)
                         in v64 sig128Z OR of_bool (v0 sig128Z \<noteq> 0))
              in if sigZ < 0x4000000000000000
                 then softfloat_roundPackToF64 signZ (expZ - 1) (push_bit 1 sigZ) s
                 else softfloat_roundPackToF64 signZ expZ sigZ s
         else if expDiff = 0 \<and> (v64 sig128Z - sigC) OR v0 sig128Z = 0 then completeCancellation
         else let (signZ, sig128Z) = (if expDiff < 0
                    then (signC, softfloat_sub128 sigC 0 (v64 sig128Z) (v0 sig128Z))
                    else if expDiff = 0
                    then let sig128Z = sig128Z\<lparr>v64 := v64 sig128Z - sigC\<rparr>
                         in if v64 sig128Z AND 0x8000000000000000 \<noteq> 0
                            then (\<not> signZ, softfloat_sub128 0 0 (v64 sig128Z) (v0 sig128Z))
                            else (signZ, sig128Z)
                    else (signZ, softfloat_sub128 (v64 sig128Z) (v0 sig128Z) (v64 sig128C) (v0 sig128C)));
                  (expZ, sig128Z) = (if v64 sig128Z = 0
                    then (expZ - 64, \<lparr>v0 = 0, v64 = v0 sig128Z\<rparr>)
                    else (expZ, sig128Z));
                  shiftDist = int8 (uint (softfloat_countLeadingZeros64 (v64 sig128Z)) - 1);
                  expZ = expZ - shiftDist;
                  (sigZ, sig128Z) = (if shiftDist < 0
                    then (softfloat_shortShiftRightJam64 (v64 sig128Z) (word_of_int (- shiftDist)), sig128Z)
                    else let sig128Z = softfloat_shortShiftLeft128 (v64 sig128Z) (v0 sig128Z) (word_of_int shiftDist)
                         in (v64 sig128Z, sig128Z));
                  sigZ = sigZ OR of_bool (v0 sig128Z \<noteq> 0)
              in softfloat_roundPackToF64 signZ expZ sigZ s)"

definition f64_mulAdd :: "float64 \<Rightarrow> float64 \<Rightarrow> float64 \<Rightarrow> sf_state \<Rightarrow> float64 \<times> sf_state" where
  "f64_mulAdd a b c s = softfloat_mulAddF64 a b c 0 s"

section \<open>A latent defect of the subtracting mode\<close>

text \<open>
  With \<open>op = softfloat_mulAdd_subC\<close> the sign of the addend is flipped in \<open>signC\<close>, but an
  infinite addend is returned as it came in (\<open>uiZ = uiC\<close>): \<open>1 * 1 - inf\<close> is \<open>+inf\<close>.
  No caller of the library passes this mode, \<open>f32_mulAdd\<close> passes 0.
\<close>

lemma mulAddF32_subC_infinity:
  "softfloat_mulAddF32 0x3F800000 0x3F800000 0x7F800000 softfloat_mulAdd_subC s = (0x7F800000, s)"
  by (simp add: softfloat_mulAddF32_def Let_def signF32UI_def expF32UI_def fracF32UI_def)

end
