(* ===== verification/SF_FloatConv.thy ===== *)
theory SF_FloatConv
  imports IEEE_Spec
begin

text \<open>
  Conversions between the floating-point formats: \<open>f16_to_f32.c\<close>, \<open>f16_to_f64.c\<close>,
  \<open>f32_to_f64.c\<close>, \<open>bf16_to_f32.c\<close> (exact) and \<open>f32_to_f16.c\<close>, \<open>f64_to_f16.c\<close>,
  \<open>f64_to_f32.c\<close>, \<open>f32_to_bf16.c\<close> (rounded).  \<open>goto uiZ\<close> is the value of the branch.
\<close>

section \<open>Definitions\<close>

definition f16_to_f32 :: "float16 \<Rightarrow> sf_state \<Rightarrow> float32 \<times> sf_state" where
  "f16_to_f32 a s =
     (let uiA = ucast a;
          sign = signF16UI uiA;
          exp = expF16UI uiA;
          frac = fracF16UI uiA
      in if exp = 0x1F
         then if frac \<noteq> 0
              then (ucast softfloat_commonNaNToF32UI, softfloat_f16UIToCommonNaN uiA s)
              else (ucast (packToF32UI sign 0xFF 0), s)
         else if exp = 0 \<and> frac = 0
         then (ucast (packToF32UI sign 0 0), s)
         else let (exp, frac) = (if exp = 0
                    then let normExpSig = softfloat_normSubnormalF16Sig frac
                         in (int8 (es16_exp normExpSig - 1), es16_sig normExpSig)
                    else (exp, frac))
              in (ucast (packToF32UI sign (exp + 0x70) (push_bit 13 frac)), s))"

definition f16_to_f64 :: "float16 \<Rightarrow> sf_state \<Rightarrow> float64 \<times> sf_state" where
  "f16_to_f64 a s =
     (let uiA = ucast a;
          sign = signF16UI uiA;
          exp = expF16UI uiA;
          frac = fracF16UI uiA
      in if exp = 0x1F
         then if frac \<noteq> 0
              then (softfloat_commonNaNToF64UI, softfloat_f16UIToCommonNaN uiA s)
              else (packToF64UI sign 0x7FF 0, s)
         else if exp = 0 \<and> frac = 0
         then (packToF64UI sign 0 0, s)
         else let (exp, frac) = (if exp = 0
                    then let normExpSig = softfloat_normSubnormalF16Sig frac
                         in (int8 (es16_exp normExpSig - 1), es16_sig normExpSig)
                    else (exp, frac))
              in (packToF64UI sign (exp + 0x3F0) (push_bit 42 frac), s))"

definition f32_to_f64 :: "float32 \<Rightarrow> sf_state \<Rightarrow> float64 \<times> sf_state" where
  "f32_to_f64 a s =
     (let uiA = ucast a;
          sign = signF32UI uiA;
          exp = expF32UI uiA;
          frac = fracF32UI uiA
      in if exp = 0xFF
         then if frac \<noteq> 0
              then (softfloat_commonNaNToF64UI, softfloat_f32UIToCommonNaN uiA s)
              else (packToF64UI sign 0x7FF 0, s)
         else if exp = 0 \<and> frac = 0
         then (packToF64UI sign 0 0, s)
         else let (exp, frac) = (if exp = 0
                    then let normExpSig = softfloat_normSubnormalF32Sig frac
                         in (es32_exp normExpSig - 1, es32_sig normExpSig)
                    else (exp, frac))
              in (packToF64UI sign (exp + 0x380) (push_bit 29 frac), s))"

definition f32_to_f16 :: "float32 \<Rightarrow> sf_state \<Rightarrow> float16 \<times> sf_state" where
  "f32_to_f16 a s =
     (let uiA = ucast a;
          sign = signF32UI uiA;
          exp = expF32UI uiA;
          frac = fracF32UI uiA
      in if exp = 0xFF
         then if frac \<noteq> 0
              then (ucast softfloat_commonNaNToF16UI, softfloat_f32UIToCommonNaN uiA s)
              else (ucast (packToF16UI sign 0x1F 0), s)
         else let frac16 = drop_bit 9 frac OR of_bool (frac AND 0x1FF \<noteq> 0)
              in if exp = 0 \<and> frac16 = 0
                 then (ucast (packToF16UI sign 0 0), s)
                 else softfloat_roundPackToF16 sign (exp - 0x71) (frac16 OR 0x4000) s)"

definition f64_to_f16 :: "float64 \<Rightarrow> sf_state \<Rightarrow> float16 \<times> sf_state" where
  "f64_to_f16 a s =
     (let uiA = a;
          sign = signF64UI uiA;
          exp = expF64UI uiA;
          frac = fracF64UI uiA
      in if exp = 0x7FF
         then if frac \<noteq> 0
              then (ucast softfloat_commonNaNToF16UI, softfloat_f64UIToCommonNaN uiA s)
              else (ucast (packToF16UI sign 0x1F 0), s)
         else let frac16 = softfloat_shortShiftRightJam64 frac 38
              in if exp = 0 \<and> frac16 = 0
                 then (ucast (packToF16UI sign 0 0), s)
                 else softfloat_roundPackToF16 sign (exp - 0x3F1) (frac16 OR 0x4000) s)"

definition f64_to_f32 :: "float64 \<Rightarrow> sf_state \<Rightarrow> float32 \<times> sf_state" where
  "f64_to_f32 a s =
     (let uiA = a;
          sign = signF64UI uiA;
          exp = expF64UI uiA;
          frac = fracF64UI uiA
      in if exp = 0x7FF
         then if frac \<noteq> 0
              then (ucast softfloat_commonNaNToF32UI, softfloat_f64UIToCommonNaN uiA s)
              else (ucast (packToF32UI sign 0xFF 0), s)
         else let frac32 = softfloat_shortShiftRightJam64 frac 22
              in if exp = 0 \<and> frac32 = 0
                 then (ucast (packToF32UI sign 0 0), s)
                 else softfloat_roundPackToF32 sign (exp - 0x381) (frac32 OR 0x40000000) s)"

definition bf16_to_f32 :: "bfloat16 \<Rightarrow> sf_state \<Rightarrow> float32 \<times> sf_state" where
  "bf16_to_f32 a s =
     (let uiA = ucast a;
          sign = signBF16UI uiA;
          exp = expBF16UI uiA;
          frac = fracBF16UI uiA
      in if exp = 0xFF
         then if frac \<noteq> 0
              then (ucast softfloat_commonNaNToF32UI, softfloat_bf16UIToCommonNaN uiA s)
              else (ucast (packToF32UI sign 0xFF 0), s)
         else (ucast (packToF32UI sign exp (push_bit 16 frac)), s))"

definition f32_to_bf16 :: "float32 \<Rightarrow> sf_state \<Rightarrow> bfloat16 \<times> sf_state" where
  "f32_to_bf16 a s =
     (let uiA = ucast a;
          sign = signF32UI uiA;
          exp = expF32UI uiA;
          frac = fracF32UI uiA
      in if exp = 0xFF
         then if frac \<noteq> 0
              then (ucast softfloat_commonNaNToBF16UI, softfloat_f32UIToCommonNaN uiA s)
              else (ucast (packToBF16UI sign 0xFF 0), s)
         else if exp = 0 \<and> frac = 0
         then (ucast (packToBF16UI sign 0 0), s)
         else let (exp, frac) = (if exp = 0
                    then let normExpSig = softfloat_normSubnormalF32Sig frac
                         in (es32_exp normExpSig, es32_sig normExpSig)
                    else (exp, frac));
                  frac16 = drop_bit 9 frac OR of_bool (frac AND 0x1FF \<noteq> 0)
              in softfloat_roundPackToBF16 sign (exp - 1) (frac16 OR 0x4000) s)"

section \<open>Widening\<close>

context float_format
begin

text \<open>A significand with its hidden bit, one exponent lower, packs to the same word.\<close>

lemma pack_hidden:
  fixes x :: u64
  assumes e: "0 < e" "nat e < 2 ^ expw f" and x: "unat x < 2 ^ fracw f" and h: "unat h = 2 ^ fracw f"
  shows "pack sign e x = pack sign (e - 1) (x + h)"
proof -
  have "unat x + 2 ^ fracw f < 2 ^ 64"
  proof -
    have "(2::nat) ^ Suc (fracw f) \<le> 2 ^ 64" using width by (intro power_increasing) simp_all
    then show ?thesis using x by simp
  qed
  then have xh: "unat (x + h) = unat x + 2 ^ fracw f" by (subst unat_add_no_wrap) (simp_all add: h)
  have sum: "nat (e - 1) * 2 ^ fracw f + (unat x + 2 ^ fracw f) = nat e * 2 ^ fracw f + unat x"
  proof -
    obtain k where "nat e = Suc k" using e by (cases "nat e") auto
    moreover from this have "nat (e - 1) = k" by simp
    ultimately show ?thesis by simp
  qed
  have b: "sign_ord f sign + nat e * 2 ^ fracw f + unat x < 2 ^ Suc (fracw f + expw f)"
  proof -
    have "Suc (nat e) * 2 ^ fracw f \<le> 2 ^ expw f * 2 ^ fracw f" using e(2) by (intro mult_le_mono1 Suc_leI)
    then show ?thesis using x by (simp add: sign_ord_def power_add ac_simps)
  qed
  have "unat (pack sign e x) = sign_ord f sign + nat e * 2 ^ fracw f + unat x"
    using e b by (intro pack_law) simp_all
  moreover have "unat (pack sign (e - 1) (x + h)) = sign_ord f sign + nat (e - 1) * 2 ^ fracw f + unat (x + h)"
    using e b sum xh by (intro pack_law) linarith+
  ultimately show ?thesis using sum xh by (simp only: word_eq_iff_unat)
qed

text \<open>A normalised source operand \<open>M\<close>, \<open>n\<close> that the target format holds exactly.\<close>

lemma widen_exact:
  fixes x :: u64
  assumes src: "M * 2 ^ nat (n - 1 + int p) = m * 2 ^ p" "1 - int p \<le> n"
    and x: "unat x = M * 2 ^ k" "2 ^ fracw f \<le> unat x" "unat x < 2 ^ Suc (fracw f)"
    and e: "0 \<le> e" "e = n - 1 + off" "nat e + 3 \<le> 2 ^ expw f" and S: "int k + off + int j = int (subexp f)"
  shows "(ucast (pack sign e x), s) = (ieee_result f s sign (m * 2 ^ subexp f) j :: 'w::len word \<times> sf_state)"
proof -
  have "(nat e + 2) * 2 ^ fracw f \<le> inf_ord f"
    unfolding inf_ord_def using e(3) by (intro mult_le_mono1) simp
  then have "(ucast (pack sign e x), s) = (ieee_result f s sign (unat x * 2 ^ nat e) 0 :: 'w word \<times> sf_state)"
    using x e by (intro pack_exact) (simp_all add: distrib_right)
  also have "\<dots> = ieee_result f s sign (m * 2 ^ subexp f) j"
  proof (rule ieee_result_cross)
    have "M * 2 ^ k * 2 ^ nat e * 2 ^ j * 2 ^ nat (n - 1 + int p)
        = (M * 2 ^ nat (n - 1 + int p)) * 2 ^ (k + nat e + j)"
      by (simp add: power_add ac_simps)
    also have "\<dots> = m * 2 ^ (p + (k + nat e + j))" by (simp add: src(1) power_add)
    also have "p + (k + nat e + j) = subexp f + nat (n - 1 + int p)" using src(2) e S by linarith
    finally have "M * 2 ^ k * 2 ^ nat e * 2 ^ j = m * 2 ^ subexp f" by (simp add: power_add)
    then show "unat x * 2 ^ nat e * 2 ^ j = m * 2 ^ subexp f * 2 ^ 0" by (simp add: x(1))
  qed
  finally show ?thesis .
qed

end

context float_format
begin

lemma quiet_bit:
  fixes a :: u64
  assumes p: "0 < fracw f" and nan: "is_nan f a" and m: "m = push_bit (fracw f - 1) (mask 1)"
  shows "a AND m = 0 \<longleftrightarrow> is_snan f a"
proof -
  define y where "y = unat a div 2 ^ (fracw f - 1)"
  have "fracw f - 1 + 1 \<le> LENGTH(64)" using width p by simp
  then have "unat (a AND m) = y mod 2 ^ 1 * 2 ^ (fracw f - 1)"
    unfolding m y_def by (rule unat_and_field)
  then have l: "a AND m = 0 \<longleftrightarrow> even y" by (simp add: word_eq_0_iff even_iff_mod_2_eq_zero)
  have "unat a mod 2 ^ fracw f \<noteq> 0" "unat a div 2 ^ fracw f mod 2 ^ expw f = 2 ^ expw f - 1"
    using nan by (simp_all add: is_nan_unat)
  moreover have f: "(2::nat) ^ fracw f = 2 ^ (fracw f - 1) * 2" using p by (cases "fracw f") simp_all
  ultimately have n: "unat a mod 2 ^ (fracw f - 1) + 2 ^ (fracw f - 1) * (y mod 2) \<noteq> 0" "y div 2 mod 2 ^ expw f = 2 ^ expw f - 1"
    unfolding f y_def by (auto simp: mod_mult2_eq div_mult2_eq)
  have "y mod 2 ^ Suc (expw f) = 2 * (2 ^ expw f - 1) + y mod 2"
    unfolding power_Suc mod_mult2_eq n(2) by simp
  then show ?thesis
    unfolding is_snan_unat [OF p] l y_def [symmetric] using n(1)
    by (cases "y mod 2 = 0") (auto simp: even_iff_mod_2_eq_zero)
qed

end

lemma common_nan:
  fixes A :: u64
  shows "is_nan binary16 A \<Longrightarrow> softfloat_f16UIToCommonNaN A s
      = (if is_snan binary16 A then softfloat_raiseFlags softfloat_flag_invalid s else s)"
    and "is_nan binary32 A \<Longrightarrow> softfloat_f32UIToCommonNaN A s
      = (if is_snan binary32 A then softfloat_raiseFlags softfloat_flag_invalid s else s)"
    and "is_nan binary64 A \<Longrightarrow> softfloat_f64UIToCommonNaN A s
      = (if is_snan binary64 A then softfloat_raiseFlags softfloat_flag_invalid s else s)"
proof -
  show "is_nan binary16 A \<Longrightarrow> softfloat_f16UIToCommonNaN A s
      = (if is_snan binary16 A then softfloat_raiseFlags softfloat_flag_invalid s else s)"
    unfolding softfloat_f16UIToCommonNaN_def by (subst f16.quiet_bit) (simp_all add: mask_eq_exp_minus_1)
  show "is_nan binary32 A \<Longrightarrow> softfloat_f32UIToCommonNaN A s
      = (if is_snan binary32 A then softfloat_raiseFlags softfloat_flag_invalid s else s)"
    unfolding softfloat_f32UIToCommonNaN_def by (subst f32.quiet_bit) (simp_all add: mask_eq_exp_minus_1)
  show "is_nan binary64 A \<Longrightarrow> softfloat_f64UIToCommonNaN A s
      = (if is_snan binary64 A then softfloat_raiseFlags softfloat_flag_invalid s else s)"
    unfolding softfloat_f64UIToCommonNaN_def by (subst f64.quiet_bit) (simp_all add: mask_eq_exp_minus_1)
qed

context norm_subnormal
begin

lemma hidden_bit:
  assumes nz: "\<not> (ex a = 0 \<and> fr a = 0)" and h: "unat h = 2 ^ fracw f"
  shows "ex a = 0 \<Longrightarrow> nss (fr a) = nsig a OR h" and "ex a \<noteq> 0 \<Longrightarrow> fr a + h = nsig a OR h"
proof -
  have c: "unat (nsig a OR h) = unat (nsig a)" if "2 ^ fracw f \<le> unat (nsig a)" "unat (nsig a) < 2 ^ Suc (fracw f)"
  proof -
    define r where "r = unat (nsig a) - 2 ^ fracw f"
    have r: "unat (nsig a) = 1 * 2 ^ fracw f + r" "r < 2 ^ fracw f" using that by (simp_all add: r_def)
    have d: "unat (nsig a) = 1 * 2 ^ fracw f OR r" unfolding or_eq_add_nat [OF r(2)] by (rule r(1))
    then show ?thesis unfolding unat_or h by (metis mult_1 or.assoc or.commute or.idem)
  qed
  show "ex a = 0 \<Longrightarrow> nss (fr a) = nsig a OR h"
  proof -
    assume z: "ex a = 0"
    then have x: "0 < unat (fr a)" using nz by (simp add: word_neq_0_iff)
    have "nbits (unat (fr a)) \<le> fracw f" using fr_less [of a] by (simp only: nbits_le_iff)
    then have "nbits (unat (nsig a)) = Suc (fracw f)"
      using z x fr_less [of a] by (simp add: nsig_def norm_sig_law nbits_mult_pow)
    then have "2 ^ fracw f \<le> unat (nsig a)" "unat (nsig a) < 2 ^ Suc (fracw f)"
      by (subst less_nbits_iff [symmetric] nbits_le_iff [symmetric], simp)+
    then have "unat (nsig a OR h) = unat (nsig a)" by (rule c)
    then show ?thesis using z by (simp add: word_eq_iff_unat nsig_def)
  qed
  show "ex a \<noteq> 0 \<Longrightarrow> fr a + h = nsig a OR h"
  proof -
    assume z: "ex a \<noteq> 0"
    have u: "unat (fr a OR h) = unat (fr a) + unat h"
      using or_eq_add_nat [OF fr_less [of a], of 1] by (simp add: unat_or h or.commute)
    then have "unat (fr a) + unat h < 2 ^ LENGTH(64)" using unsigned_less [of "fr a OR h", where 'a = nat] by simp
    then show ?thesis using z u by (simp add: word_eq_iff_unat nsig_def unat_add_no_wrap)
  qed
qed

end

lemma f32_to_f64_finite:
  assumes fin: "\<not> is_nan binary32 a" "\<not> is_inf binary32 a" and nz: "magnitude binary32 a \<noteq> 0"
  shows "f32_to_f64 a s = ieee_convert binary32 binary64 a s"
proof -
  define A where "A = (ucast a :: u64)"
  have eA: "0 \<le> expF32UI A" "expF32UI A < 255" "expF32UI A \<noteq> 255"
    using fin by (cases a rule: w32.operand_cases; simp add: A_def)+
  have zA: "\<not> (expF32UI A = 0 \<and> fracF32UI A = 0)" using nz f32.magnitude_eq_0 [of A] by (simp add: A_def)
  define x where "x = ns32.nsig A OR 0x00800000"
  note nA = ns32.norm_operand [OF zA, of "0x00800000", folded x_def]
  have e: "0 \<le> ns32.nexp A - 1 + 0x380" "nat (ns32.nexp A - 1 + 0x380) + 3 \<le> 2 ^ expw binary64"
    using nA(4,5) eA by simp_all
  have X: "unat (push_bit 29 x) = unat x * 2 ^ 29" using nA(2) by (intro unat_push_no_wrap) simp
  have core: "(ucast (packToF64UI sign (ns32.nexp A - 1 + 0x380) (push_bit 29 x)), s)
      = (ieee_result binary64 s sign (magnitude binary32 A * 2 ^ subexp binary64) (subexp binary32) :: float64 \<times> sf_state)" for sign
    by (rule f64.widen_exact [where off = "0x380" and p = 23 and n = "ns32.nexp A" and M = "unat x" and k = 29])
      (use nA e in \<open>simp_all add: X subexp_def\<close>)
  have "f32_to_f64 a s = (ucast (packToF64UI (negative binary32 a) (ns32.nexp A - 1 + 0x380) (push_bit 29 x)), s)"
  proof (cases "expF32UI A = 0")
    case True
    then show ?thesis
      using zA eA ns32.hidden_bit(1) [OF zA, of "0x00800000", folded x_def]
      by (simp add: f32_to_f64_def Let_def A_def [symmetric] ns32.nexp_def) (simp add: A_def)
  next
    case False
    have f: "unat (push_bit 29 (fracF32UI A)) = unat (fracF32UI A) * 2 ^ 29"
      using f32.fr_less [of A] by (intro unat_push_no_wrap) simp
    have hx: "x = fracF32UI A + 0x00800000"
      using ns32.hidden_bit(2) [OF zA _ False, of "0x00800000", folded x_def] by simp
    have p: "push_bit 29 x = push_bit 29 (fracF32UI A) + 0x0010000000000000"
      unfolding hx by (simp add: push_bit_add)
    have "packToF64UI sign (expF32UI A + 0x380) (push_bit 29 (fracF32UI A))
        = packToF64UI sign (expF32UI A + 0x380 - 1) (push_bit 29 (fracF32UI A) + 0x0010000000000000)" for sign
      using eA f f32.fr_less [of A] by (intro f64.pack_hidden) simp_all
    then show ?thesis
      using False eA by (simp add: f32_to_f64_def Let_def A_def [symmetric] ns32.nexp_def p) (simp add: A_def)
  qed
  also have "\<dots> = ieee_convert binary32 binary64 a s"
    unfolding core using fin by (simp add: ieee_convert_def A_def)
  finally show ?thesis .
qed

lemma f32_to_f64_special:
  assumes "is_nan binary32 a \<or> is_inf binary32 a \<or> magnitude binary32 a = 0"
  shows "f32_to_f64 a s = ieee_convert binary32 binary64 a s"
  using assms common_nan(2) [of "ucast a" s] c64.nan_pair [where 'w = 64, of "is_snan binary32 a" s]
  by (cases a rule: w32.number_cases)
    (simp_all add: f32_to_f64_def ieee_convert_def Let_def softfloat_commonNaNToF64UI_def
      f64.pack_inf [where 'w = 64, simplified] f64.pack_zero [where 'w = 64, simplified] f64.ieee_result_0)

lemma f32_to_f64_correct: "f32_to_f64 a s = ieee_convert binary32 binary64 a s"
  using f32_to_f64_finite f32_to_f64_special by blast

lemma f16_to_f32_finite:
  assumes fin: "\<not> is_nan binary16 a" "\<not> is_inf binary16 a" and nz: "magnitude binary16 a \<noteq> 0"
  shows "f16_to_f32 a s = ieee_convert binary16 binary32 a s"
proof -
  define A where "A = (ucast a :: u64)"
  have eA: "0 \<le> expF16UI A" "expF16UI A < 31" "expF16UI A \<noteq> 31"
    using fin by (cases a rule: w16.operand_cases; simp add: A_def)+
  have zA: "\<not> (expF16UI A = 0 \<and> fracF16UI A = 0)" using nz f16.magnitude_eq_0 [of A] by (simp add: A_def)
  define x where "x = ns16.nsig A OR 0x0400"
  note nA = ns16.norm_operand [OF zA, of "0x0400", folded x_def]
  have e: "0 \<le> ns16.nexp A - 1 + 0x70" "nat (ns16.nexp A - 1 + 0x70) + 3 \<le> 2 ^ expw binary32"
    using nA(4,5) eA by simp_all
  have i8: "int8 (ns16.nexp A - 1) = ns16.nexp A - 1" using nA(4,5) eA by simp
  have X: "unat (push_bit 13 x) = unat x * 2 ^ 13" using nA(2) by (intro unat_push_no_wrap) simp
  have core: "(ucast (packToF32UI sign (ns16.nexp A - 1 + 0x70) (push_bit 13 x)), s)
      = (ieee_result binary32 s sign (magnitude binary16 A * 2 ^ subexp binary32) (subexp binary16) :: float32 \<times> sf_state)" for sign
    by (rule f32.widen_exact [where off = "0x70" and p = 10 and n = "ns16.nexp A" and M = "unat x" and k = 13])
      (use nA e in \<open>simp_all add: X subexp_def\<close>)
  have "f16_to_f32 a s = (ucast (packToF32UI (negative binary16 a) (ns16.nexp A - 1 + 0x70) (push_bit 13 x)), s)"
  proof (cases "expF16UI A = 0")
    case True
    then have "int8 (es16_exp (softfloat_normSubnormalF16Sig (fracF16UI A)) - 1)
        = es16_exp (softfloat_normSubnormalF16Sig (fracF16UI A)) - 1"
      using i8 by (simp add: ns16.nexp_def)
    then show ?thesis
      using True zA eA ns16.hidden_bit(1) [OF zA, of "0x0400", folded x_def]
      by (simp add: f16_to_f32_def Let_def A_def [symmetric] ns16.nexp_def) (simp add: A_def)
  next
    case False
    have f: "unat (push_bit 13 (fracF16UI A)) = unat (fracF16UI A) * 2 ^ 13"
      using f16.fr_less [of A] by (intro unat_push_no_wrap) simp
    have hx: "x = fracF16UI A + 0x0400"
      using ns16.hidden_bit(2) [OF zA _ False, of "0x0400", folded x_def] by simp
    have p: "push_bit 13 x = push_bit 13 (fracF16UI A) + 0x00800000"
      unfolding hx by (simp add: push_bit_add)
    have "packToF32UI sign (expF16UI A + 0x70) (push_bit 13 (fracF16UI A))
        = packToF32UI sign (expF16UI A + 0x70 - 1) (push_bit 13 (fracF16UI A) + 0x00800000)" for sign
      using eA f f16.fr_less [of A] by (intro f32.pack_hidden) simp_all
    then show ?thesis
      using False eA by (simp add: f16_to_f32_def Let_def A_def [symmetric] ns16.nexp_def p) (simp add: A_def)
  qed
  also have "\<dots> = ieee_convert binary16 binary32 a s"
    unfolding core using fin by (simp add: ieee_convert_def A_def)
  finally show ?thesis .
qed

lemma f16_to_f32_special:
  assumes "is_nan binary16 a \<or> is_inf binary16 a \<or> magnitude binary16 a = 0"
  shows "f16_to_f32 a s = ieee_convert binary16 binary32 a s"
  using assms common_nan(1) [of "ucast a" s] c32.nan_pair [where 'w = 32, of "is_snan binary16 a" s]
  by (cases a rule: w16.number_cases)
    (simp_all add: f16_to_f32_def ieee_convert_def Let_def softfloat_commonNaNToF32UI_def
      f32.pack_inf [simplified] f32.pack_zero f32.ieee_result_0)

lemma f16_to_f32_correct: "f16_to_f32 a s = ieee_convert binary16 binary32 a s"
  using f16_to_f32_finite f16_to_f32_special by blast

lemma f16_to_f64_finite:
  assumes fin: "\<not> is_nan binary16 a" "\<not> is_inf binary16 a" and nz: "magnitude binary16 a \<noteq> 0"
  shows "f16_to_f64 a s = ieee_convert binary16 binary64 a s"
proof -
  define A where "A = (ucast a :: u64)"
  have eA: "0 \<le> expF16UI A" "expF16UI A < 31" "expF16UI A \<noteq> 31"
    using fin by (cases a rule: w16.operand_cases; simp add: A_def)+
  have zA: "\<not> (expF16UI A = 0 \<and> fracF16UI A = 0)" using nz f16.magnitude_eq_0 [of A] by (simp add: A_def)
  define x where "x = ns16.nsig A OR 0x0400"
  note nA = ns16.norm_operand [OF zA, of "0x0400", folded x_def]
  have e: "0 \<le> ns16.nexp A - 1 + 0x3F0" "nat (ns16.nexp A - 1 + 0x3F0) + 3 \<le> 2 ^ expw binary64"
    using nA(4,5) eA by simp_all
  have i8: "int8 (ns16.nexp A - 1) = ns16.nexp A - 1" using nA(4,5) eA by simp
  have X: "unat (push_bit 42 x) = unat x * 2 ^ 42" using nA(2) by (intro unat_push_no_wrap) simp
  have core: "(ucast (packToF64UI sign (ns16.nexp A - 1 + 0x3F0) (push_bit 42 x)), s)
      = (ieee_result binary64 s sign (magnitude binary16 A * 2 ^ subexp binary64) (subexp binary16) :: float64 \<times> sf_state)" for sign
    by (rule f64.widen_exact [where off = "0x3F0" and p = 10 and n = "ns16.nexp A" and M = "unat x" and k = 42])
      (use nA e in \<open>simp_all add: X subexp_def\<close>)
  have "f16_to_f64 a s = (ucast (packToF64UI (negative binary16 a) (ns16.nexp A - 1 + 0x3F0) (push_bit 42 x)), s)"
  proof (cases "expF16UI A = 0")
    case True
    then have "int8 (es16_exp (softfloat_normSubnormalF16Sig (fracF16UI A)) - 1)
        = es16_exp (softfloat_normSubnormalF16Sig (fracF16UI A)) - 1"
      using i8 by (simp add: ns16.nexp_def)
    then show ?thesis
      using True zA eA ns16.hidden_bit(1) [OF zA, of "0x0400", folded x_def]
      by (simp add: f16_to_f64_def Let_def A_def [symmetric] ns16.nexp_def) (simp add: A_def)
  next
    case False
    have f: "unat (push_bit 42 (fracF16UI A)) = unat (fracF16UI A) * 2 ^ 42"
      using f16.fr_less [of A] by (intro unat_push_no_wrap) simp
    have hx: "x = fracF16UI A + 0x0400"
      using ns16.hidden_bit(2) [OF zA _ False, of "0x0400", folded x_def] by simp
    have p: "push_bit 42 x = push_bit 42 (fracF16UI A) + 0x0010000000000000"
      unfolding hx by (simp add: push_bit_add)
    have "packToF64UI sign (expF16UI A + 0x3F0) (push_bit 42 (fracF16UI A))
        = packToF64UI sign (expF16UI A + 0x3F0 - 1) (push_bit 42 (fracF16UI A) + 0x0010000000000000)" for sign
      using eA f f16.fr_less [of A] by (intro f64.pack_hidden) simp_all
    then show ?thesis
      using False eA by (simp add: f16_to_f64_def Let_def A_def [symmetric] ns16.nexp_def p) (simp add: A_def)
  qed
  also have "\<dots> = ieee_convert binary16 binary64 a s"
    unfolding core using fin by (simp add: ieee_convert_def A_def)
  finally show ?thesis .
qed

lemma f16_to_f64_special:
  assumes "is_nan binary16 a \<or> is_inf binary16 a \<or> magnitude binary16 a = 0"
  shows "f16_to_f64 a s = ieee_convert binary16 binary64 a s"
  using assms common_nan(1) [of "ucast a" s] c64.nan_pair [where 'w = 64, of "is_snan binary16 a" s]
  by (cases a rule: w16.number_cases)
    (simp_all add: f16_to_f64_def ieee_convert_def Let_def softfloat_commonNaNToF64UI_def
      f64.pack_inf [where 'w = 64, simplified] f64.pack_zero [where 'w = 64, simplified] f64.ieee_result_0)

lemma f16_to_f64_correct: "f16_to_f64 a s = ieee_convert binary16 binary64 a s"
  using f16_to_f64_finite f16_to_f64_special by blast


section \<open>Narrowing\<close>

text \<open>Below half the least subnormal, only the sign of a nonzero value matters.\<close>

lemma ieee_result_tiny:
  assumes n: "0 < n" "2 * n < 2 ^ j" and n': "0 < n'" "2 * n' < 2 ^ j"
  shows "ieee_result f s sign n j = ieee_result f s sign n' j"
proof -
  have props: "dropped (fracw f) n j = j \<and> n div 2 ^ j = 0 \<and> n mod 2 ^ j = n
      \<and> tiny f before m sign n j" if "0 < n" "2 * n < 2 ^ j" for n before m
  proof -
    have l: "n < 2 ^ j" using that by linarith
    then have nb: "nbits n \<le> j" by (simp only: nbits_le_iff)
    have "n < 2 ^ (fracw f + j)" using l by (rule order_less_le_trans) simp
    moreover have "round_shift m sign n (nbits n - Suc (fracw f)) * 2 ^ (nbits n - Suc (fracw f)) < 2 ^ (fracw f + j)"
    proof -
      define k where "k = nbits n - Suc (fracw f)"
      have "0 < nbits n" using nbits_pos [OF that(1)] by simp
      then have k: "2 ^ k \<le> n" by (subst less_nbits_iff [symmetric]) (simp add: k_def)
      have "round_shift m sign n k * 2 ^ k \<le> (n div 2 ^ k + 1) * 2 ^ k"
        unfolding round_shift_def by (intro mult_le_mono1) simp
      also have "\<dots> \<le> n + 2 ^ k" by (simp add: distrib_right)
      also have "\<dots> < 2 ^ j" using k that(2) by linarith
      also have "(2::nat) ^ j \<le> 2 ^ (fracw f + j)" by simp
      finally show ?thesis unfolding k_def .
    qed
    ultimately show ?thesis using l nb by (simp add: dropped_def tiny_def)
  qed
  have ru: "round_up m sign 0 n (2 ^ j) = round_up m sign 0 n' (2 ^ j)" for m
    using assms by (cases m) auto
  show ?thesis
    using props [OF n] props [OF n'] n n'
    by (simp add: ieee_result_def ieee_bits_def ieee_flags_def ieee_overflow_def ieee_inexact_def
        round_ordinal_def round_shift_def ru)
qed

context round_pack
begin

text \<open>A normalised operand \<open>M\<close>, \<open>n\<close> of another format, jammed to the working precision.\<close>

lemma narrow_round:
  fixes sig :: u64
  assumes src: "M * 2 ^ nat (n - 1 + int p) = m * 2 ^ p" "1 - int p \<le> n"
    and M: "2 ^ p \<le> M" "M < 2 ^ Suc p" and p: "p = fracw f + g + d" and sig: "unat sig = jam M d"
    and e: "e = n - 1 - off" "- lim \<le> e" "e < lim" and S: "int (subexp f) + int g + int d + off = int j"
  shows "rp sign e sig s = ieee_result f s sign (m * 2 ^ subexp f) j"
proof -
  obtain g' where g': "g = Suc (Suc g')" using guard(1) by (metis less_imp_Suc_add plus_1_eq_Suc)
  have l: "2 ^ (fracw f + g) \<le> unat sig" "unat sig < 2 ^ Suc (fracw f + g)"
  proof -
    have "Suc (fracw f + g') + Suc d = p" "fracw f + g = Suc (Suc (fracw f + g'))" by (simp_all add: p g')
    then show "2 ^ (fracw f + g) \<le> unat sig" "unat sig < 2 ^ Suc (fracw f + g)"
      using M jam_less_iff [of M d "2 ^ Suc (fracw f + g')"] jam_less_iff [of M d "2 ^ (fracw f + g)"]
      by (simp_all add: sig p power_add)
  qed
  then have "normed f g (unat sig)" using guard(1) by (simp add: normed_def)
  then have "rp sign e sig s = ieee_result f s sign (unat sig * 2 ^ nat e) (g + nat (- e))"
    using e by (intro round_pack_law) simp_all
  also have "\<dots> = ieee_result f s sign (m * 2 ^ subexp f) j"
  proof (rule ieee_result_value [where X = M and d = d and k = 0])
    have "(2::nat) ^ (fracw f + d + 2) \<le> 2 ^ p" by (intro power_increasing) (simp_all add: p g')
    then show "2 ^ d dvd M \<or> 2 ^ (fracw f + d + 2) \<le> M" using M(1) by linarith
    have "M * 2 ^ (0 + nat e + j) * 2 ^ nat (n - 1 + int p) = (M * 2 ^ nat (n - 1 + int p)) * 2 ^ (nat e + j)"
      by (simp add: power_add ac_simps)
    also have "\<dots> = m * 2 ^ (p + (nat e + j))" by (simp add: src(1) power_add)
    also have "p + (nat e + j) = subexp f + (g + nat (- e) + d) + nat (n - 1 + int p)" using src(2) e S by linarith
    finally show "M * 2 ^ (0 + nat e + j) = m * 2 ^ subexp f * 2 ^ (g + nat (- e) + d)" by (simp add: power_add)
  qed (simp add: sig)
  finally show ?thesis .
qed

end


lemma jam_hidden:
  assumes "fr < 2 ^ p" "d < p"
  shows "jam (2 ^ p + fr) d = jam fr d OR 2 ^ (p - d)"
proof -
  have "even ((2::nat) ^ (p - d))" using assms(2) by simp
  moreover have "(2::nat) ^ p = 2 ^ (p - d) * 2 ^ d" using assms(2) by (simp add: power_add [symmetric])
  ultimately have "jam (2 ^ p + fr) d = 2 ^ (p - d) + jam fr d" by (simp add: jam_add_even)
  moreover have "jam fr d < 2 ^ (p - d)"
  proof -
    obtain k where k: "p - d = Suc k" using assms(2) by (cases "p - d") auto
    then have "p = k + Suc d" using assms(2) by simp
    then show ?thesis unfolding k using assms(1) jam_less_iff [of fr d "2 ^ k"] by (simp add: power_add)
  qed
  ultimately show ?thesis using or_eq_add_nat [of "jam fr d" "p - d" 1] by (simp add: or.commute)
qed

lemma fracw_64: "fracw binary64 = 52" "fracw binary32 = 23" "fracw binary16 = 10"
  by simp_all

lemma shortShiftRightJam64_0: "softfloat_shortShiftRightJam64 0 d = 0"
  by (simp add: softfloat_shortShiftRightJam64_def)

lemma f64_to_f32_finite:
  assumes fin: "\<not> is_nan binary64 a" "\<not> is_inf binary64 a" and nz: "magnitude binary64 a \<noteq> 0"
  shows "f64_to_f32 a s = ieee_convert binary64 binary32 a s"
proof -
  have eA: "0 \<le> expF64UI a" "expF64UI a < 2047" "expF64UI a \<noteq> 2047"
    using fin by (cases a rule: w64.operand_cases; simp)+
  have zA: "\<not> (expF64UI a = 0 \<and> fracF64UI a = 0)" using nz f64.magnitude_eq_0 [of a] by simp
  define sig where "sig = softfloat_shortShiftRightJam64 (fracF64UI a) 22 OR 0x40000000"
  have j: "unat (softfloat_shortShiftRightJam64 (fracF64UI a) 22) = jam (unat (fracF64UI a)) 22"
    by (subst shortShiftRightJam64_jam) simp_all
  then have sig: "unat sig = jam (2 ^ 52 + unat (fracF64UI a)) 22"
    using jam_hidden [of "unat (fracF64UI a)" 52 22] f64.fr_less [of a] by (simp add: sig_def unat_or)
  have z: "softfloat_shortShiftRightJam64 (fracF64UI a) 22 = 0 \<longleftrightarrow> fracF64UI a = 0"
    by (simp add: word_eq_0_iff j)
  have "f64_to_f32 a s = softfloat_roundPackToF32 (negative binary64 a) (expF64UI a - 0x381) sig s"
    using eA zA z w64.sgn_wide [of a] by (simp add: f64_to_f32_def Let_def sig_def) blast
  also have "\<dots> = ieee_result binary32 s (negative binary64 a) (magnitude binary64 a * 2 ^ subexp binary32) (subexp binary64)"
  proof (cases "expF64UI a = 0")
    case False
    have "nat (expF64UI a - 1 + int 52) = nat (expF64UI a) - 1 + 52" using False eA by simp
    then have src: "(2 ^ 52 + unat (fracF64UI a)) * 2 ^ nat (expF64UI a - 1 + int 52) = magnitude binary64 a * 2 ^ 52"
      using False by (simp only: f64.magnitude_fields power_add mult.assoc if_False fracw_64)
    show ?thesis
      by (rule rp32.narrow_round [OF src, where d = 22 and off = "0x380"])
        (use False eA f64.fr_less [of a] in \<open>simp_all add: sig subexp_def\<close>)
  next
    case True
    have "softfloat_roundPackToF32 (negative binary64 a) (expF64UI a - 0x381) sig s
      = ieee_result binary32 s (negative binary64 a) ((2 ^ 52 + unat (fracF64UI a)) * 2 ^ subexp binary32) (Suc (subexp binary64))"
      by (rule rp32.narrow_round [where p = 52 and d = 22 and n = "1" and M = "2 ^ 52 + unat (fracF64UI a)" and off = "0x381"])
        (use True eA f64.fr_less [of a] in \<open>simp_all add: sig subexp_def\<close>)
    also have "\<dots> = ieee_result binary32 s (negative binary64 a) (magnitude binary64 a * 2 ^ Suc (subexp binary32)) (Suc (subexp binary64))"
    proof (rule ieee_result_tiny)
      have f: "unat (fracF64UI a) < 2 ^ 52" using f64.fr_less [of a] by simp
      show "0 < magnitude binary64 a * 2 ^ Suc (subexp binary32)" using nz by simp
      have "magnitude binary64 a < 2 ^ 52" using True f by (simp add: f64.magnitude_fields)
      then show "2 * (magnitude binary64 a * 2 ^ Suc (subexp binary32)) < 2 ^ Suc (subexp binary64)"
        by (simp add: subexp_def)
      show "2 * ((2 ^ 52 + unat (fracF64UI a)) * 2 ^ subexp binary32) < 2 ^ Suc (subexp binary64)"
        using f by (simp add: subexp_def)
    qed simp
    also have "\<dots> = ieee_result binary32 s (negative binary64 a) (magnitude binary64 a * 2 ^ subexp binary32) (subexp binary64)"
      by (rule ieee_result_cross) simp
    finally show ?thesis .
  qed
  also have "\<dots> = ieee_convert binary64 binary32 a s"
    using fin by (simp add: ieee_convert_def)
  finally show ?thesis .
qed


lemma f64_to_f32_special:
  assumes "is_nan binary64 a \<or> is_inf binary64 a \<or> magnitude binary64 a = 0"
  shows "f64_to_f32 a s = ieee_convert binary64 binary32 a s"
  using assms common_nan(3) [of a s] c32.nan_pair [where 'w = 32, of "is_snan binary64 a" s] w64.sgn_wide [of a]
  by (cases a rule: w64.number_cases [simplified])
    (simp_all add: f64_to_f32_def ieee_convert_def Let_def softfloat_commonNaNToF32UI_def shortShiftRightJam64_0
      f32.pack_inf [simplified] f32.pack_zero f32.ieee_result_0)

lemma f64_to_f32_correct: "f64_to_f32 a s = ieee_convert binary64 binary32 a s"
  using f64_to_f32_finite f64_to_f32_special by blast

lemma f64_to_f16_finite:
  assumes fin: "\<not> is_nan binary64 a" "\<not> is_inf binary64 a" and nz: "magnitude binary64 a \<noteq> 0"
  shows "f64_to_f16 a s = ieee_convert binary64 binary16 a s"
proof -
  have eA: "0 \<le> expF64UI a" "expF64UI a < 2047" "expF64UI a \<noteq> 2047"
    using fin by (cases a rule: w64.operand_cases; simp)+
  have zA: "\<not> (expF64UI a = 0 \<and> fracF64UI a = 0)" using nz f64.magnitude_eq_0 [of a] by simp
  define sig where "sig = softfloat_shortShiftRightJam64 (fracF64UI a) 38 OR 0x4000"
  have j: "unat (softfloat_shortShiftRightJam64 (fracF64UI a) 38) = jam (unat (fracF64UI a)) 38"
    by (subst shortShiftRightJam64_jam) simp_all
  then have sig: "unat sig = jam (2 ^ 52 + unat (fracF64UI a)) 38"
    using jam_hidden [of "unat (fracF64UI a)" 52 38] f64.fr_less [of a] by (simp add: sig_def unat_or)
  have z: "softfloat_shortShiftRightJam64 (fracF64UI a) 38 = 0 \<longleftrightarrow> fracF64UI a = 0"
    by (simp add: word_eq_0_iff j)
  have "f64_to_f16 a s = softfloat_roundPackToF16 (negative binary64 a) (expF64UI a - 0x3F1) sig s"
    using eA zA z w64.sgn_wide [of a] by (simp add: f64_to_f16_def Let_def sig_def) blast
  also have "\<dots> = ieee_result binary16 s (negative binary64 a) (magnitude binary64 a * 2 ^ subexp binary16) (subexp binary64)"
  proof (cases "expF64UI a = 0")
    case False
    have "nat (expF64UI a - 1 + int 52) = nat (expF64UI a) - 1 + 52" using False eA by simp
    then have src: "(2 ^ 52 + unat (fracF64UI a)) * 2 ^ nat (expF64UI a - 1 + int 52) = magnitude binary64 a * 2 ^ 52"
      using False by (simp only: f64.magnitude_fields power_add mult.assoc if_False fracw_64)
    show ?thesis
      by (rule rp16.narrow_round [OF src, where d = 38 and off = "0x3F0"])
        (use False eA f64.fr_less [of a] in \<open>simp_all add: sig subexp_def\<close>)
  next
    case True
    have "softfloat_roundPackToF16 (negative binary64 a) (expF64UI a - 0x3F1) sig s
      = ieee_result binary16 s (negative binary64 a) ((2 ^ 52 + unat (fracF64UI a)) * 2 ^ subexp binary16) (Suc (subexp binary64))"
      by (rule rp16.narrow_round [where p = 52 and d = 38 and n = "1" and M = "2 ^ 52 + unat (fracF64UI a)" and off = "0x3F1"])
        (use True eA f64.fr_less [of a] in \<open>simp_all add: sig subexp_def\<close>)
    also have "\<dots> = ieee_result binary16 s (negative binary64 a) (magnitude binary64 a * 2 ^ Suc (subexp binary16)) (Suc (subexp binary64))"
    proof (rule ieee_result_tiny)
      have f: "unat (fracF64UI a) < 2 ^ 52" using f64.fr_less [of a] by simp
      show "0 < magnitude binary64 a * 2 ^ Suc (subexp binary16)" using nz by simp
      have "magnitude binary64 a < 2 ^ 52" using True f by (simp add: f64.magnitude_fields)
      then show "2 * (magnitude binary64 a * 2 ^ Suc (subexp binary16)) < 2 ^ Suc (subexp binary64)"
        by (simp add: subexp_def)
      show "2 * ((2 ^ 52 + unat (fracF64UI a)) * 2 ^ subexp binary16) < 2 ^ Suc (subexp binary64)"
        using f by (simp add: subexp_def)
    qed simp
    also have "\<dots> = ieee_result binary16 s (negative binary64 a) (magnitude binary64 a * 2 ^ subexp binary16) (subexp binary64)"
      by (rule ieee_result_cross) simp
    finally show ?thesis .
  qed
  also have "\<dots> = ieee_convert binary64 binary16 a s"
    using fin by (simp add: ieee_convert_def)
  finally show ?thesis .
qed


lemma f64_to_f16_special:
  assumes "is_nan binary64 a \<or> is_inf binary64 a \<or> magnitude binary64 a = 0"
  shows "f64_to_f16 a s = ieee_convert binary64 binary16 a s"
  using assms common_nan(3) [of a s] c16.nan_pair [where 'w = 16, of "is_snan binary64 a" s] w64.sgn_wide [of a]
  by (cases a rule: w64.number_cases [simplified])
    (simp_all add: f64_to_f16_def ieee_convert_def Let_def softfloat_commonNaNToF16UI_def shortShiftRightJam64_0
      f16.pack_inf [simplified] f16.pack_zero f16.ieee_result_0)

lemma f64_to_f16_correct: "f64_to_f16 a s = ieee_convert binary64 binary16 a s"
  using f64_to_f16_finite f64_to_f16_special by blast

lemma f32_to_f16_finite:
  assumes fin: "\<not> is_nan binary32 a" "\<not> is_inf binary32 a" and nz: "magnitude binary32 a \<noteq> 0"
  shows "f32_to_f16 a s = ieee_convert binary32 binary16 a s"
proof -
  define A where "A = (ucast a :: u64)"
  have eA: "0 \<le> expF32UI A" "expF32UI A < 255" "expF32UI A \<noteq> 255"
    using fin by (cases a rule: w32.operand_cases; simp add: A_def)+
  have zA: "\<not> (expF32UI A = 0 \<and> fracF32UI A = 0)" using nz f32.magnitude_eq_0 [of A] by (simp add: A_def)
  define sig where "sig = (drop_bit 9 (fracF32UI A) OR of_bool (fracF32UI A AND 0x1FF \<noteq> 0)) OR 0x4000"
  have j: "unat (drop_bit 9 (fracF32UI A) OR of_bool (fracF32UI A AND 0x1FF \<noteq> 0)) = jam (unat (fracF32UI A)) 9"
    using unat_and_mask [of "fracF32UI A" 9]
    by (simp add: jam_def unat_or unat_drop word_eq_0_iff mask_eq_exp_minus_1)
  then have sig: "unat sig = jam (2 ^ 23 + unat (fracF32UI A)) 9"
    using jam_hidden [of "unat (fracF32UI A)" 23 9] f32.fr_less [of A] by (simp add: sig_def unat_or)
  have z: "(drop_bit 9 (fracF32UI A) OR of_bool (fracF32UI A AND 0x1FF \<noteq> 0)) = 0 \<longleftrightarrow> fracF32UI A = 0"
    by (metis j word_eq_0_iff jam_eq_0_iff)
  have "f32_to_f16 a s = softfloat_roundPackToF16 (negative binary32 a) (expF32UI A - 0x71) sig s"
    using eA zA z by (simp add: f32_to_f16_def Let_def A_def [symmetric] sig_def) (auto simp add: A_def)
  also have "\<dots> = ieee_result binary16 s (negative binary32 a) (magnitude binary32 A * 2 ^ subexp binary16) (subexp binary32)"
  proof (cases "expF32UI A = 0")
    case False
    have "nat (expF32UI A - 1 + int 23) = nat (expF32UI A) - 1 + 23" using False eA by simp
    then have src: "(2 ^ 23 + unat (fracF32UI A)) * 2 ^ nat (expF32UI A - 1 + int 23) = magnitude binary32 A * 2 ^ 23"
      using False by (simp only: f32.magnitude_fields power_add mult.assoc if_False fracw_64)
    show ?thesis
      by (rule rp16.narrow_round [OF src, where d = 9 and off = "0x70"])
        (use False eA f32.fr_less [of A] in \<open>simp_all add: sig subexp_def\<close>)
  next
    case True
    have "softfloat_roundPackToF16 (negative binary32 a) (expF32UI A - 0x71) sig s
      = ieee_result binary16 s (negative binary32 a) ((2 ^ 23 + unat (fracF32UI A)) * 2 ^ subexp binary16) (Suc (subexp binary32))"
      by (rule rp16.narrow_round [where p = 23 and d = 9 and n = "1" and M = "2 ^ 23 + unat (fracF32UI A)" and off = "0x71"])
        (use True eA f32.fr_less [of A] in \<open>simp_all add: sig subexp_def\<close>)
    also have "\<dots> = ieee_result binary16 s (negative binary32 a) (magnitude binary32 A * 2 ^ Suc (subexp binary16)) (Suc (subexp binary32))"
    proof (rule ieee_result_tiny)
      have f: "unat (fracF32UI A) < 2 ^ 23" using f32.fr_less [of A] by simp
      show "0 < magnitude binary32 A * 2 ^ Suc (subexp binary16)" using nz by (simp add: A_def)
      have "magnitude binary32 A < 2 ^ 23" using True f by (simp add: f32.magnitude_fields)
      then show "2 * (magnitude binary32 A * 2 ^ Suc (subexp binary16)) < 2 ^ Suc (subexp binary32)"
        by (simp add: subexp_def)
      show "2 * ((2 ^ 23 + unat (fracF32UI A)) * 2 ^ subexp binary16) < 2 ^ Suc (subexp binary32)"
        using f by (simp add: subexp_def)
    qed simp
    also have "\<dots> = ieee_result binary16 s (negative binary32 a) (magnitude binary32 A * 2 ^ subexp binary16) (subexp binary32)"
      by (rule ieee_result_cross) simp
    finally show ?thesis .
  qed
  also have "\<dots> = ieee_convert binary32 binary16 a s"
    using fin by (simp add: ieee_convert_def A_def)
  finally show ?thesis .
qed


lemma f32_to_f16_special:
  assumes "is_nan binary32 a \<or> is_inf binary32 a \<or> magnitude binary32 a = 0"
  shows "f32_to_f16 a s = ieee_convert binary32 binary16 a s"
  using assms common_nan(2) [of "ucast a" s] c16.nan_pair [where 'w = 16, of "is_snan binary32 a" s] w32.sgn_wide [of a]
  by (cases a rule: w32.number_cases )
    (simp_all add: f32_to_f16_def ieee_convert_def Let_def softfloat_commonNaNToF16UI_def shortShiftRightJam64_0
      f16.pack_inf [simplified] f16.pack_zero f16.ieee_result_0)

lemma f32_to_f16_correct: "f32_to_f16 a s = ieee_convert binary32 binary16 a s"
  using f32_to_f16_finite f32_to_f16_special by blast

lemma widening_correct:
  "f16_to_f32 a1 s = ieee_convert binary16 binary32 a1 s
    \<and> f16_to_f64 a2 s = ieee_convert binary16 binary64 a2 s
    \<and> f32_to_f64 a3 s = ieee_convert binary32 binary64 a3 s"
  by (simp only: f16_to_f32_correct f16_to_f64_correct f32_to_f64_correct simp_thms)

lemma narrowing_correct:
  "f64_to_f32 a1 s = ieee_convert binary64 binary32 a1 s
    \<and> f64_to_f16 a2 s = ieee_convert binary64 binary16 a2 s
    \<and> f32_to_f16 a3 s = ieee_convert binary32 binary16 a3 s"
  by (simp only: f64_to_f32_correct f64_to_f16_correct f32_to_f16_correct simp_thms)

text \<open>C29: f64_to_f32, f64_to_f16 and f32_to_f16 are the correctly rounded conversions to the
  narrower format, on every operand, rounding mode and state, with the flags and NaN payload
  rules. f16_to_f32, f16_to_f64 and f32_to_f64 are exact: the same value in the wider
  format, and no flag but invalid for a signalling NaN.\<close>

theorem format_conversions_correct:
  "f16_to_f32 a1 s = ieee_convert binary16 binary32 a1 s
    \<and> f16_to_f64 a2 s = ieee_convert binary16 binary64 a2 s
    \<and> f32_to_f64 a3 s = ieee_convert binary32 binary64 a3 s
    \<and> f64_to_f32 b1 s = ieee_convert binary64 binary32 b1 s
    \<and> f64_to_f16 b2 s = ieee_convert binary64 binary16 b2 s
    \<and> f32_to_f16 b3 s = ieee_convert binary32 binary16 b3 s"
  by (simp only: widening_correct narrowing_correct simp_thms)

end
