(* ===== verification/SF_IntConv.thy ===== *)
theory SF_IntConv
  imports SF_FloatConv
begin

text \<open>
  Conversions between integers and binary16, binary32, binary64: \<open>s_roundTo*.c\<close>,
  \<open>f*_to_*.c\<close>, \<open>f*_to_*_r_minMag.c\<close> and \<open>*i*_to_f*.c\<close>.  A signed integer result is an
  \<open>int\<close> (the C type is \<open>int_fast32_t\<close> or \<open>int_fast64_t\<close>, 64 bits wide); an unsigned one is a
  64-bit word; an integer argument is a word, read with \<open>sint\<close> when it is signed.  The label
  \<open>invalid\<close> is a local value.  The preprocessor conditions on \<open>i32_fromNaN\<close> and
  \<open>ui32_fromNaN\<close> select \<open>sign = 0\<close> for a NaN.
\<close>

section \<open>Integer results of specialize.h\<close>

abbreviation i8_fromPosOverflow :: int where "i8_fromPosOverflow \<equiv> 0x7F"

abbreviation i8_fromNegOverflow :: int where "i8_fromNegOverflow \<equiv> (- 0x7F - 1)"

abbreviation i8_fromNaN :: int where "i8_fromNaN \<equiv> 0x7F"

abbreviation ui8_fromPosOverflow :: u64 where "ui8_fromPosOverflow \<equiv> 0xFF"

abbreviation ui8_fromNegOverflow :: u64 where "ui8_fromNegOverflow \<equiv> 0"

abbreviation ui8_fromNaN :: u64 where "ui8_fromNaN \<equiv> 0xFF"

abbreviation i16_fromPosOverflow :: int where "i16_fromPosOverflow \<equiv> 0x7FFF"

abbreviation i16_fromNegOverflow :: int where "i16_fromNegOverflow \<equiv> (- 0x7FFF - 1)"

abbreviation i16_fromNaN :: int where "i16_fromNaN \<equiv> 0x7FFF"

abbreviation ui16_fromPosOverflow :: u64 where "ui16_fromPosOverflow \<equiv> 0xFFFF"

abbreviation ui16_fromNegOverflow :: u64 where "ui16_fromNegOverflow \<equiv> 0"

abbreviation ui16_fromNaN :: u64 where "ui16_fromNaN \<equiv> 0xFFFF"

abbreviation i32_fromPosOverflow :: int where "i32_fromPosOverflow \<equiv> 0x7FFFFFFF"

abbreviation i32_fromNegOverflow :: int where "i32_fromNegOverflow \<equiv> (- 0x7FFFFFFF - 1)"

abbreviation i32_fromNaN :: int where "i32_fromNaN \<equiv> 0x7FFFFFFF"

abbreviation ui32_fromPosOverflow :: u64 where "ui32_fromPosOverflow \<equiv> 0xFFFFFFFF"

abbreviation ui32_fromNegOverflow :: u64 where "ui32_fromNegOverflow \<equiv> 0"

abbreviation ui32_fromNaN :: u64 where "ui32_fromNaN \<equiv> 0xFFFFFFFF"

abbreviation i64_fromPosOverflow :: int where "i64_fromPosOverflow \<equiv> 0x7FFFFFFFFFFFFFFF"

abbreviation i64_fromNegOverflow :: int where "i64_fromNegOverflow \<equiv> (- 0x7FFFFFFFFFFFFFFF - 1)"

abbreviation i64_fromNaN :: int where "i64_fromNaN \<equiv> 0x7FFFFFFFFFFFFFFF"

abbreviation ui64_fromPosOverflow :: u64 where "ui64_fromPosOverflow \<equiv> 0xFFFFFFFFFFFFFFFF"

abbreviation ui64_fromNegOverflow :: u64 where "ui64_fromNegOverflow \<equiv> 0"

abbreviation ui64_fromNaN :: u64 where "ui64_fromNaN \<equiv> 0xFFFFFFFFFFFFFFFF"

section \<open>Rounding to an integer\<close>

definition softfloat_roundToI32 :: "bool \<Rightarrow> u64 \<Rightarrow> u8 \<Rightarrow> bool \<Rightarrow> sf_state \<Rightarrow> int \<times> sf_state" where
  "softfloat_roundToI32 sign sig roundingMode exact s =
     (let roundNearEven = (roundingMode = softfloat_round_near_even);
          roundIncrement = (if \<not> roundNearEven \<and> roundingMode \<noteq> softfloat_round_near_maxMag
             then (if roundingMode = (if sign then softfloat_round_min else softfloat_round_max)
                   then 0xFFF else 0)
             else 0x800 :: u64);
          roundBits = sig AND 0xFFF;
          sig = sig + roundIncrement;
          invalid = (if sign then i32_fromNegOverflow else i32_fromPosOverflow,
                     softfloat_raiseFlags softfloat_flag_invalid s)
      in if sig AND 0xFFFFF00000000000 \<noteq> 0 then invalid
         else let sig32 = drop_bit 12 sig AND NOT (of_bool (roundBits XOR 0x800 = 0 \<and> roundNearEven));
                  z = sint (ucast (if sign then - sig32 else sig32) :: u32)
              in if z \<noteq> 0 \<and> (z < 0) \<noteq> sign then invalid
                 else (z, if exact \<and> roundBits \<noteq> 0 then set_inexact s else s))"

definition softfloat_roundToUI32 :: "bool \<Rightarrow> u64 \<Rightarrow> u8 \<Rightarrow> bool \<Rightarrow> sf_state \<Rightarrow> u64 \<times> sf_state" where
  "softfloat_roundToUI32 sign sig roundingMode exact s =
     (let roundNearEven = (roundingMode = softfloat_round_near_even);
          roundIncrement = (if \<not> roundNearEven \<and> roundingMode \<noteq> softfloat_round_near_maxMag
             then (if roundingMode = (if sign then softfloat_round_min else softfloat_round_max)
                   then 0xFFF else 0)
             else 0x800 :: u64);
          roundBits = sig AND 0xFFF;
          sig = sig + roundIncrement;
          invalid = (if sign then ui32_fromNegOverflow else ui32_fromPosOverflow,
                     softfloat_raiseFlags softfloat_flag_invalid s)
      in if sig AND 0xFFFFF00000000000 \<noteq> 0 then invalid
         else let z = drop_bit 12 sig AND NOT (of_bool (roundBits XOR 0x800 = 0 \<and> roundNearEven))
              in if sign \<and> z \<noteq> 0 then invalid
                 else (z, if exact \<and> roundBits \<noteq> 0 then set_inexact s else s))"

definition softfloat_roundToI64 :: "bool \<Rightarrow> u64 \<Rightarrow> u64 \<Rightarrow> u8 \<Rightarrow> bool \<Rightarrow> sf_state \<Rightarrow> int \<times> sf_state" where
  "softfloat_roundToI64 sign sig sigExtra roundingMode exact s =
     (let roundNearEven = (roundingMode = softfloat_round_near_even);
          doIncrement = (if \<not> roundNearEven \<and> roundingMode \<noteq> softfloat_round_near_maxMag
             then roundingMode = (if sign then softfloat_round_min else softfloat_round_max) \<and> sigExtra \<noteq> 0
             else 0x8000000000000000 \<le> sigExtra);
          invalid = (if sign then i64_fromNegOverflow else i64_fromPosOverflow,
                     softfloat_raiseFlags softfloat_flag_invalid s)
      in if doIncrement \<and> sig + 1 = 0 then invalid
         else let sig = (if doIncrement
                then (sig + 1) AND NOT (of_bool (sigExtra AND 0x7FFFFFFFFFFFFFFF = 0 \<and> roundNearEven))
                else sig)
              in let z = sint (if sign then - sig else sig)
              in if z \<noteq> 0 \<and> (z < 0) \<noteq> sign then invalid
                 else (z, if exact \<and> sigExtra \<noteq> 0 then set_inexact s else s))"

definition softfloat_roundToUI64 :: "bool \<Rightarrow> u64 \<Rightarrow> u64 \<Rightarrow> u8 \<Rightarrow> bool \<Rightarrow> sf_state \<Rightarrow> u64 \<times> sf_state" where
  "softfloat_roundToUI64 sign sig sigExtra roundingMode exact s =
     (let roundNearEven = (roundingMode = softfloat_round_near_even);
          doIncrement = (if \<not> roundNearEven \<and> roundingMode \<noteq> softfloat_round_near_maxMag
             then roundingMode = (if sign then softfloat_round_min else softfloat_round_max) \<and> sigExtra \<noteq> 0
             else 0x8000000000000000 \<le> sigExtra);
          invalid = (if sign then ui64_fromNegOverflow else ui64_fromPosOverflow,
                     softfloat_raiseFlags softfloat_flag_invalid s)
      in if doIncrement \<and> sig + 1 = 0 then invalid
         else let sig = (if doIncrement
                then (sig + 1) AND NOT (of_bool (sigExtra AND 0x7FFFFFFFFFFFFFFF = 0 \<and> roundNearEven))
                else sig)
              in if sign \<and> sig \<noteq> 0 then invalid
                 else (sig, if exact \<and> sigExtra \<noteq> 0 then set_inexact s else s))"

section \<open>Floating point to integer, in a given rounding mode\<close>

definition f16_to_i32 :: "float16 \<Rightarrow> u8 \<Rightarrow> bool \<Rightarrow> sf_state \<Rightarrow> int \<times> sf_state" where
  "f16_to_i32 a roundingMode exact s =
     (let uiA = ucast a;
          sign = signF16UI uiA;
          exp = expF16UI uiA;
          frac = fracF16UI uiA
      in if exp = 0x1F
         then (if frac \<noteq> 0 then i32_fromNaN else if sign then i32_fromNegOverflow else i32_fromPosOverflow,
              softfloat_raiseFlags softfloat_flag_invalid s)
         else if exp \<noteq> 0
         then let sig32 = uint (frac OR 0x0400);
                  shiftDist = int8 (exp - 0x19)
              in if 0 \<le> shiftDist
                 then let sig32 = push_bit (nat shiftDist) sig32
                      in (if sign then - sig32 else sig32, s)
                 else let shiftDist = int8 (exp - 0x0D);
                          sig32 = (if 0 < shiftDist then push_bit (nat shiftDist) sig32 else sig32)
                      in softfloat_roundToI32 sign (word_of_int sig32) roundingMode exact s
         else softfloat_roundToI32 sign (word_of_int (uint frac)) roundingMode exact s)"

definition f16_to_ui32 :: "float16 \<Rightarrow> u8 \<Rightarrow> bool \<Rightarrow> sf_state \<Rightarrow> u64 \<times> sf_state" where
  "f16_to_ui32 a roundingMode exact s =
     (let uiA = ucast a;
          sign = signF16UI uiA;
          exp = expF16UI uiA;
          frac = fracF16UI uiA
      in if exp = 0x1F
         then (if frac \<noteq> 0 then ui32_fromNaN else if sign then ui32_fromNegOverflow else ui32_fromPosOverflow,
              softfloat_raiseFlags softfloat_flag_invalid s)
         else if exp \<noteq> 0
         then let sig32 = frac OR 0x0400;
                  shiftDist = int8 (exp - 0x19)
              in if 0 \<le> shiftDist \<and> \<not> sign
                 then (push_bit (nat shiftDist) sig32, s)
                 else let shiftDist = int8 (exp - 0x0D);
                          sig32 = (if 0 < shiftDist then push_bit (nat shiftDist) sig32 else sig32)
                      in softfloat_roundToUI32 sign sig32 roundingMode exact s
         else softfloat_roundToUI32 sign frac roundingMode exact s)"

definition f16_to_i64 :: "float16 \<Rightarrow> u8 \<Rightarrow> bool \<Rightarrow> sf_state \<Rightarrow> int \<times> sf_state" where
  "f16_to_i64 a roundingMode exact s =
     (let uiA = ucast a;
          sign = signF16UI uiA;
          exp = expF16UI uiA;
          frac = fracF16UI uiA
      in if exp = 0x1F
         then (if frac \<noteq> 0 then i64_fromNaN else if sign then i64_fromNegOverflow else i64_fromPosOverflow,
              softfloat_raiseFlags softfloat_flag_invalid s)
         else if exp \<noteq> 0
         then let sig32 = uint (frac OR 0x0400);
                  shiftDist = int8 (exp - 0x19)
              in if 0 \<le> shiftDist
                 then let sig32 = push_bit (nat shiftDist) sig32
                      in (if sign then - sig32 else sig32, s)
                 else let shiftDist = int8 (exp - 0x0D);
                          sig32 = (if 0 < shiftDist then push_bit (nat shiftDist) sig32 else sig32)
                      in softfloat_roundToI32 sign (word_of_int sig32) roundingMode exact s
         else softfloat_roundToI32 sign (word_of_int (uint frac)) roundingMode exact s)"

definition f16_to_ui64 :: "float16 \<Rightarrow> u8 \<Rightarrow> bool \<Rightarrow> sf_state \<Rightarrow> u64 \<times> sf_state" where
  "f16_to_ui64 a roundingMode exact s =
     (let uiA = ucast a;
          sign = signF16UI uiA;
          exp = expF16UI uiA;
          frac = fracF16UI uiA
      in if exp = 0x1F
         then (if frac \<noteq> 0 then ui64_fromNaN else if sign then ui64_fromNegOverflow else ui64_fromPosOverflow,
              softfloat_raiseFlags softfloat_flag_invalid s)
         else if exp \<noteq> 0
         then let sig32 = frac OR 0x0400;
                  shiftDist = int8 (exp - 0x19)
              in if 0 \<le> shiftDist \<and> \<not> sign
                 then (push_bit (nat shiftDist) sig32, s)
                 else let shiftDist = int8 (exp - 0x0D);
                          sig32 = (if 0 < shiftDist then push_bit (nat shiftDist) sig32 else sig32)
                      in softfloat_roundToUI32 sign sig32 roundingMode exact s
         else softfloat_roundToUI32 sign frac roundingMode exact s)"

definition f32_to_i32 :: "float32 \<Rightarrow> u8 \<Rightarrow> bool \<Rightarrow> sf_state \<Rightarrow> int \<times> sf_state" where
  "f32_to_i32 a roundingMode exact s =
     (let uiA = ucast a;
          sign = signF32UI uiA;
          exp = expF32UI uiA;
          sig = fracF32UI uiA;
          sign = (if exp = 0xFF \<and> sig \<noteq> 0 then False else sign);
          sig = (if exp \<noteq> 0 then sig OR 0x00800000 else sig);
          sig64 = push_bit 32 sig;
          shiftDist = 0xAA - exp;
          sig64 = (if 0 < shiftDist then softfloat_shiftRightJam64 sig64 (word_of_int shiftDist) else sig64)
      in softfloat_roundToI32 sign sig64 roundingMode exact s)"

definition f32_to_ui32 :: "float32 \<Rightarrow> u8 \<Rightarrow> bool \<Rightarrow> sf_state \<Rightarrow> u64 \<times> sf_state" where
  "f32_to_ui32 a roundingMode exact s =
     (let uiA = ucast a;
          sign = signF32UI uiA;
          exp = expF32UI uiA;
          sig = fracF32UI uiA;
          sign = (if exp = 0xFF \<and> sig \<noteq> 0 then False else sign);
          sig = (if exp \<noteq> 0 then sig OR 0x00800000 else sig);
          sig64 = push_bit 32 sig;
          shiftDist = 0xAA - exp;
          sig64 = (if 0 < shiftDist then softfloat_shiftRightJam64 sig64 (word_of_int shiftDist) else sig64)
      in softfloat_roundToUI32 sign sig64 roundingMode exact s)"

definition f64_to_i32 :: "float64 \<Rightarrow> u8 \<Rightarrow> bool \<Rightarrow> sf_state \<Rightarrow> int \<times> sf_state" where
  "f64_to_i32 a roundingMode exact s =
     (let uiA = a;
          sign = signF64UI uiA;
          exp = expF64UI uiA;
          sig = fracF64UI uiA;
          sign = (if exp = 0x7FF \<and> sig \<noteq> 0 then False else sign);
          sig = (if exp \<noteq> 0 then sig OR 0x0010000000000000 else sig);
          shiftDist = 0x427 - exp;
          sig = (if 0 < shiftDist then softfloat_shiftRightJam64 sig (word_of_int shiftDist) else sig)
      in softfloat_roundToI32 sign sig roundingMode exact s)"

definition f64_to_ui32 :: "float64 \<Rightarrow> u8 \<Rightarrow> bool \<Rightarrow> sf_state \<Rightarrow> u64 \<times> sf_state" where
  "f64_to_ui32 a roundingMode exact s =
     (let uiA = a;
          sign = signF64UI uiA;
          exp = expF64UI uiA;
          sig = fracF64UI uiA;
          sign = (if exp = 0x7FF \<and> sig \<noteq> 0 then False else sign);
          sig = (if exp \<noteq> 0 then sig OR 0x0010000000000000 else sig);
          shiftDist = 0x427 - exp;
          sig = (if 0 < shiftDist then softfloat_shiftRightJam64 sig (word_of_int shiftDist) else sig)
      in softfloat_roundToUI32 sign sig roundingMode exact s)"

definition f32_to_i64 :: "float32 \<Rightarrow> u8 \<Rightarrow> bool \<Rightarrow> sf_state \<Rightarrow> int \<times> sf_state" where
  "f32_to_i64 a roundingMode exact s =
     (let uiA = ucast a;
          sign = signF32UI uiA;
          exp = expF32UI uiA;
          sig = fracF32UI uiA;
          shiftDist = 0xBE - exp
      in if shiftDist < 0
         then (if exp = 0xFF \<and> sig \<noteq> 0 then i64_fromNaN else if sign then i64_fromNegOverflow else i64_fromPosOverflow,
              softfloat_raiseFlags softfloat_flag_invalid s)
         else let sig = (if exp \<noteq> 0 then sig OR 0x00800000 else sig);
                  sig64 = push_bit 40 sig;
                  (sig64, extra) = (if shiftDist \<noteq> 0
                     then let z = softfloat_shiftRightJam64Extra sig64 0 (word_of_int shiftDist)
                          in (ue_v z, ue_extra z)
                     else (sig64, 0))
              in softfloat_roundToI64 sign sig64 extra roundingMode exact s)"

definition f64_to_i64 :: "float64 \<Rightarrow> u8 \<Rightarrow> bool \<Rightarrow> sf_state \<Rightarrow> int \<times> sf_state" where
  "f64_to_i64 a roundingMode exact s =
     (let uiA = a;
          sign = signF64UI uiA;
          exp = expF64UI uiA;
          sig = fracF64UI uiA;
          sig = (if exp \<noteq> 0 then sig OR 0x0010000000000000 else sig);
          shiftDist = 0x433 - exp
      in if shiftDist < - 11
         then (if exp = 0x7FF \<and> fracF64UI uiA \<noteq> 0 then i64_fromNaN else if sign then i64_fromNegOverflow else i64_fromPosOverflow,
              softfloat_raiseFlags softfloat_flag_invalid s)
         else let sigExtra = (if shiftDist \<le> 0
                    then \<lparr>ue_extra = 0, ue_v = push_bit (nat (- shiftDist)) sig\<rparr>
                    else softfloat_shiftRightJam64Extra sig 0 (word_of_int shiftDist))
              in softfloat_roundToI64 sign (ue_v sigExtra) (ue_extra sigExtra) roundingMode exact s)"

definition f32_to_ui64 :: "float32 \<Rightarrow> u8 \<Rightarrow> bool \<Rightarrow> sf_state \<Rightarrow> u64 \<times> sf_state" where
  "f32_to_ui64 a roundingMode exact s =
     (let uiA = ucast a;
          sign = signF32UI uiA;
          exp = expF32UI uiA;
          sig = fracF32UI uiA;
          shiftDist = 0xBE - exp
      in if shiftDist < 0
         then (if exp = 0xFF \<and> sig \<noteq> 0 then ui64_fromNaN else if sign then ui64_fromNegOverflow else ui64_fromPosOverflow,
              softfloat_raiseFlags softfloat_flag_invalid s)
         else let sig = (if exp \<noteq> 0 then sig OR 0x00800000 else sig);
                  sig64 = push_bit 40 sig;
                  (sig64, extra) = (if shiftDist \<noteq> 0
                     then let z = softfloat_shiftRightJam64Extra sig64 0 (word_of_int shiftDist)
                          in (ue_v z, ue_extra z)
                     else (sig64, 0))
              in softfloat_roundToUI64 sign sig64 extra roundingMode exact s)"

definition f64_to_ui64 :: "float64 \<Rightarrow> u8 \<Rightarrow> bool \<Rightarrow> sf_state \<Rightarrow> u64 \<times> sf_state" where
  "f64_to_ui64 a roundingMode exact s =
     (let uiA = a;
          sign = signF64UI uiA;
          exp = expF64UI uiA;
          sig = fracF64UI uiA;
          sig = (if exp \<noteq> 0 then sig OR 0x0010000000000000 else sig);
          shiftDist = 0x433 - exp
      in if shiftDist < - 11
         then (if exp = 0x7FF \<and> fracF64UI uiA \<noteq> 0 then ui64_fromNaN else if sign then ui64_fromNegOverflow else ui64_fromPosOverflow,
              softfloat_raiseFlags softfloat_flag_invalid s)
         else let sigExtra = (if shiftDist \<le> 0
                    then \<lparr>ue_extra = 0, ue_v = push_bit (nat (- shiftDist)) sig\<rparr>
                    else softfloat_shiftRightJam64Extra sig 0 (word_of_int shiftDist))
              in softfloat_roundToUI64 sign (ue_v sigExtra) (ue_extra sigExtra) roundingMode exact s)"

section \<open>Floating point to integer, towards zero\<close>

definition f16_to_i32_r_minMag :: "float16 \<Rightarrow> bool \<Rightarrow> sf_state \<Rightarrow> int \<times> sf_state" where
  "f16_to_i32_r_minMag a exact s =
     (let uiA = ucast a;
          exp = expF16UI uiA;
          frac = fracF16UI uiA;
          sign = signF16UI uiA;
          shiftDist = int8 (exp - 0x0F)
      in if shiftDist < 0
         then (0, if exact \<and> (exp \<noteq> 0 \<or> frac \<noteq> 0) then set_inexact s else s)
         else if exp = 0x1F
         then (if exp = 0x1F \<and> frac \<noteq> 0 then i32_fromNaN else if sign then i32_fromNegOverflow else i32_fromPosOverflow,
              softfloat_raiseFlags softfloat_flag_invalid s)
         else let alignedSig = push_bit (nat shiftDist) (uint (frac OR 0x0400));
                  s = (if exact \<and> alignedSig AND 0x3FF \<noteq> 0 then set_inexact s else s);
                  alignedSig = drop_bit 10 alignedSig
              in (if sign then - alignedSig else alignedSig, s))"

definition f16_to_ui32_r_minMag :: "float16 \<Rightarrow> bool \<Rightarrow> sf_state \<Rightarrow> u64 \<times> sf_state" where
  "f16_to_ui32_r_minMag a exact s =
     (let uiA = ucast a;
          exp = expF16UI uiA;
          frac = fracF16UI uiA;
          sign = signF16UI uiA;
          shiftDist = int8 (exp - 0x0F)
      in if shiftDist < 0
         then (0, if exact \<and> (exp \<noteq> 0 \<or> frac \<noteq> 0) then set_inexact s else s)
         else if sign \<or> exp = 0x1F
         then (if exp = 0x1F \<and> frac \<noteq> 0 then ui32_fromNaN else if sign then ui32_fromNegOverflow else ui32_fromPosOverflow,
              softfloat_raiseFlags softfloat_flag_invalid s)
         else let alignedSig = push_bit (nat shiftDist) (frac OR 0x0400)
              in (drop_bit 10 alignedSig,
                  if exact \<and> alignedSig AND 0x3FF \<noteq> 0 then set_inexact s else s))"

definition f16_to_i64_r_minMag :: "float16 \<Rightarrow> bool \<Rightarrow> sf_state \<Rightarrow> int \<times> sf_state" where
  "f16_to_i64_r_minMag a exact s =
     (let uiA = ucast a;
          exp = expF16UI uiA;
          frac = fracF16UI uiA;
          sign = signF16UI uiA;
          shiftDist = int8 (exp - 0x0F)
      in if shiftDist < 0
         then (0, if exact \<and> (exp \<noteq> 0 \<or> frac \<noteq> 0) then set_inexact s else s)
         else if exp = 0x1F
         then (if exp = 0x1F \<and> frac \<noteq> 0 then i64_fromNaN else if sign then i64_fromNegOverflow else i64_fromPosOverflow,
              softfloat_raiseFlags softfloat_flag_invalid s)
         else let alignedSig = push_bit (nat shiftDist) (uint (frac OR 0x0400));
                  s = (if exact \<and> alignedSig AND 0x3FF \<noteq> 0 then set_inexact s else s);
                  alignedSig = drop_bit 10 alignedSig
              in (if sign then - alignedSig else alignedSig, s))"

definition f16_to_ui64_r_minMag :: "float16 \<Rightarrow> bool \<Rightarrow> sf_state \<Rightarrow> u64 \<times> sf_state" where
  "f16_to_ui64_r_minMag a exact s =
     (let uiA = ucast a;
          exp = expF16UI uiA;
          frac = fracF16UI uiA;
          sign = signF16UI uiA;
          shiftDist = int8 (exp - 0x0F)
      in if shiftDist < 0
         then (0, if exact \<and> (exp \<noteq> 0 \<or> frac \<noteq> 0) then set_inexact s else s)
         else if sign \<or> exp = 0x1F
         then (if exp = 0x1F \<and> frac \<noteq> 0 then ui64_fromNaN else if sign then ui64_fromNegOverflow else ui64_fromPosOverflow,
              softfloat_raiseFlags softfloat_flag_invalid s)
         else let alignedSig = push_bit (nat shiftDist) (frac OR 0x0400)
              in (drop_bit 10 alignedSig,
                  if exact \<and> alignedSig AND 0x3FF \<noteq> 0 then set_inexact s else s))"

definition f32_to_i32_r_minMag :: "float32 \<Rightarrow> bool \<Rightarrow> sf_state \<Rightarrow> int \<times> sf_state" where
  "f32_to_i32_r_minMag a exact s =
     (let uiA = ucast a;
          exp = expF32UI uiA;
          sig = fracF32UI uiA;
          sign = signF32UI uiA;
          shiftDist = 0x9E - exp
      in if 32 \<le> shiftDist
         then (0, if exact \<and> (exp \<noteq> 0 \<or> sig \<noteq> 0) then set_inexact s else s)
         else if shiftDist \<le> 0
         then if uiA = packToF32UI True 0x9E 0 then (- 0x7FFFFFFF - 1, s)
              else (if exp = 0xFF \<and> sig \<noteq> 0 then i32_fromNaN else if sign then i32_fromNegOverflow else i32_fromPosOverflow,
              softfloat_raiseFlags softfloat_flag_invalid s)
         else let sig = push_bit 8 (sig OR 0x00800000);
                  absZ = drop_bit (nat shiftDist) sig;
                  s = (if exact \<and> push_bit (nat shiftDist) absZ \<noteq> sig then set_inexact s else s)
              in (if sign then - uint absZ else uint absZ, s))"

definition f32_to_ui32_r_minMag :: "float32 \<Rightarrow> bool \<Rightarrow> sf_state \<Rightarrow> u64 \<times> sf_state" where
  "f32_to_ui32_r_minMag a exact s =
     (let uiA = ucast a;
          exp = expF32UI uiA;
          sig = fracF32UI uiA;
          sign = signF32UI uiA;
          shiftDist = 0x9E - exp
      in if 32 \<le> shiftDist
         then (0, if exact \<and> (exp \<noteq> 0 \<or> sig \<noteq> 0) then set_inexact s else s)
         else if sign \<or> shiftDist < 0
         then (if exp = 0xFF \<and> sig \<noteq> 0 then ui32_fromNaN else if sign then ui32_fromNegOverflow else ui32_fromPosOverflow,
              softfloat_raiseFlags softfloat_flag_invalid s)
         else let sig = push_bit 8 (sig OR 0x00800000);
                  z = drop_bit (nat shiftDist) sig
              in (z, if exact \<and> push_bit (nat shiftDist) z \<noteq> sig then set_inexact s else s))"

definition f32_to_i64_r_minMag :: "float32 \<Rightarrow> bool \<Rightarrow> sf_state \<Rightarrow> int \<times> sf_state" where
  "f32_to_i64_r_minMag a exact s =
     (let uiA = ucast a;
          exp = expF32UI uiA;
          sig = fracF32UI uiA;
          sign = signF32UI uiA;
          shiftDist = 0xBE - exp
      in if 64 \<le> shiftDist
         then (0, if exact \<and> (exp \<noteq> 0 \<or> sig \<noteq> 0) then set_inexact s else s)
         else if shiftDist \<le> 0
         then if uiA = packToF32UI True 0xBE 0 then (- 0x7FFFFFFFFFFFFFFF - 1, s)
              else (if exp = 0xFF \<and> sig \<noteq> 0 then i64_fromNaN else if sign then i64_fromNegOverflow else i64_fromPosOverflow,
              softfloat_raiseFlags softfloat_flag_invalid s)
         else let sig = sig OR 0x00800000;
                  sig64 = push_bit 40 sig;
                  absZ = sint (drop_bit (nat shiftDist) sig64);
                  shiftDist = 40 - shiftDist;
                  s = (if exact \<and> shiftDist < 0
                          \<and> (ucast (push_bit (nat (shiftDist AND 31)) sig) :: u32) \<noteq> 0
                       then set_inexact s else s)
              in (if sign then - absZ else absZ, s))"

definition f32_to_ui64_r_minMag :: "float32 \<Rightarrow> bool \<Rightarrow> sf_state \<Rightarrow> u64 \<times> sf_state" where
  "f32_to_ui64_r_minMag a exact s =
     (let uiA = ucast a;
          exp = expF32UI uiA;
          sig = fracF32UI uiA;
          sign = signF32UI uiA;
          shiftDist = 0xBE - exp
      in if 64 \<le> shiftDist
         then (0, if exact \<and> (exp \<noteq> 0 \<or> sig \<noteq> 0) then set_inexact s else s)
         else if sign \<or> shiftDist < 0
         then (if exp = 0xFF \<and> sig \<noteq> 0 then ui64_fromNaN else if sign then ui64_fromNegOverflow else ui64_fromPosOverflow,
              softfloat_raiseFlags softfloat_flag_invalid s)
         else let sig = sig OR 0x00800000;
                  sig64 = push_bit 40 sig;
                  z = drop_bit (nat shiftDist) sig64;
                  shiftDist = 40 - shiftDist
              in (z, if exact \<and> shiftDist < 0
                        \<and> (ucast (push_bit (nat (shiftDist AND 31)) sig) :: u32) \<noteq> 0
                     then set_inexact s else s))"

definition f64_to_i32_r_minMag :: "float64 \<Rightarrow> bool \<Rightarrow> sf_state \<Rightarrow> int \<times> sf_state" where
  "f64_to_i32_r_minMag a exact s =
     (let uiA = a;
          exp = expF64UI uiA;
          sig = fracF64UI uiA;
          sign = signF64UI uiA;
          shiftDist = 0x433 - exp
      in if 53 \<le> shiftDist
         then (0, if exact \<and> (exp \<noteq> 0 \<or> sig \<noteq> 0) then set_inexact s else s)
         else if shiftDist < 22
         then if sign \<and> exp = 0x41E \<and> sig < 0x0000000000200000
              then (- 0x7FFFFFFF - 1, if exact \<and> sig \<noteq> 0 then set_inexact s else s)
              else (if exp = 0x7FF \<and> sig \<noteq> 0 then i32_fromNaN else if sign then i32_fromNegOverflow else i32_fromPosOverflow,
              softfloat_raiseFlags softfloat_flag_invalid s)
         else let sig = sig OR 0x0010000000000000;
                  absZ = drop_bit (nat shiftDist) sig;
                  s = (if exact \<and> push_bit (nat shiftDist) absZ \<noteq> sig then set_inexact s else s)
              in (if sign then - uint absZ else uint absZ, s))"

definition f64_to_ui32_r_minMag :: "float64 \<Rightarrow> bool \<Rightarrow> sf_state \<Rightarrow> u64 \<times> sf_state" where
  "f64_to_ui32_r_minMag a exact s =
     (let uiA = a;
          exp = expF64UI uiA;
          sig = fracF64UI uiA;
          sign = signF64UI uiA;
          shiftDist = 0x433 - exp
      in if 53 \<le> shiftDist
         then (0, if exact \<and> (exp \<noteq> 0 \<or> sig \<noteq> 0) then set_inexact s else s)
         else if sign \<or> shiftDist < 21
         then (if exp = 0x7FF \<and> sig \<noteq> 0 then ui32_fromNaN else if sign then ui32_fromNegOverflow else ui32_fromPosOverflow,
              softfloat_raiseFlags softfloat_flag_invalid s)
         else let sig = sig OR 0x0010000000000000;
                  z = drop_bit (nat shiftDist) sig
              in (z, if exact \<and> push_bit (nat shiftDist) z \<noteq> sig then set_inexact s else s))"

definition f64_to_i64_r_minMag :: "float64 \<Rightarrow> bool \<Rightarrow> sf_state \<Rightarrow> int \<times> sf_state" where
  "f64_to_i64_r_minMag a exact s =
     (let uiA = a;
          exp = expF64UI uiA;
          sig = fracF64UI uiA;
          sign = signF64UI uiA;
          shiftDist = 0x433 - exp
      in if shiftDist \<le> 0
         then if shiftDist < - 10
              then if uiA = packToF64UI True 0x43E 0 then (- 0x7FFFFFFFFFFFFFFF - 1, s)
                   else (if exp = 0x7FF \<and> sig \<noteq> 0 then i64_fromNaN else if sign then i64_fromNegOverflow else i64_fromPosOverflow,
              softfloat_raiseFlags softfloat_flag_invalid s)
              else let sig = sig OR 0x0010000000000000;
                       absZ = sint (push_bit (nat (- shiftDist)) sig)
                   in (if sign then - absZ else absZ, s)
         else if 53 \<le> shiftDist
         then (0, if exact \<and> (exp \<noteq> 0 \<or> sig \<noteq> 0) then set_inexact s else s)
         else let sig = sig OR 0x0010000000000000;
                  absZ = drop_bit (nat shiftDist) sig;
                  s = (if exact \<and> push_bit (nat shiftDist) absZ \<noteq> sig then set_inexact s else s)
              in (if sign then - sint absZ else sint absZ, s))"

definition f64_to_ui64_r_minMag :: "float64 \<Rightarrow> bool \<Rightarrow> sf_state \<Rightarrow> u64 \<times> sf_state" where
  "f64_to_ui64_r_minMag a exact s =
     (let uiA = a;
          exp = expF64UI uiA;
          sig = fracF64UI uiA;
          sign = signF64UI uiA;
          shiftDist = 0x433 - exp
      in if 53 \<le> shiftDist
         then (0, if exact \<and> (exp \<noteq> 0 \<or> sig \<noteq> 0) then set_inexact s else s)
         else if sign \<or> shiftDist < - 11
         then (if exp = 0x7FF \<and> sig \<noteq> 0 then ui64_fromNaN else if sign then ui64_fromNegOverflow else ui64_fromPosOverflow,
              softfloat_raiseFlags softfloat_flag_invalid s)
         else if shiftDist \<le> 0
         then (push_bit (nat (- shiftDist)) (sig OR 0x0010000000000000), s)
         else let sig = sig OR 0x0010000000000000;
                  z = drop_bit (nat shiftDist) sig
              in (z, if exact \<and> push_bit (nat ((- shiftDist) AND 63)) sig \<noteq> 0
                     then set_inexact s else s))"

section \<open>Narrow integers\<close>

definition f16_to_i8 :: "float16 \<Rightarrow> u8 \<Rightarrow> bool \<Rightarrow> sf_state \<Rightarrow> int \<times> sf_state" where
  "f16_to_i8 a roundingMode exact s =
     (let old_flags = softfloat_exceptionFlags s;
          (sig32, s') = f16_to_i32 a roundingMode exact s
      in if 0x7F < sig32
         then (i8_fromPosOverflow, s'\<lparr>softfloat_exceptionFlags := old_flags OR softfloat_flag_invalid\<rparr>)
         else if sig32 < (- 0x7F - 1)
         then (i8_fromNegOverflow, s'\<lparr>softfloat_exceptionFlags := old_flags OR softfloat_flag_invalid\<rparr>)
         else (sig32, s'))"

definition f16_to_ui8 :: "float16 \<Rightarrow> u8 \<Rightarrow> bool \<Rightarrow> sf_state \<Rightarrow> u64 \<times> sf_state" where
  "f16_to_ui8 a roundingMode exact s =
     (let old_flags = softfloat_exceptionFlags s;
          (sig32, s') = f16_to_ui32 a roundingMode exact s
      in if 0xFF < sig32
         then (ui8_fromPosOverflow, s'\<lparr>softfloat_exceptionFlags := old_flags OR softfloat_flag_invalid\<rparr>)
         else (sig32, s'))"

definition f16_to_i16 :: "float16 \<Rightarrow> u8 \<Rightarrow> bool \<Rightarrow> sf_state \<Rightarrow> int \<times> sf_state" where
  "f16_to_i16 a roundingMode exact s =
     (let old_flags = softfloat_exceptionFlags s;
          (sig32, s') = f16_to_i32 a roundingMode exact s
      in if 0x7FFF < sig32
         then (i16_fromPosOverflow, s'\<lparr>softfloat_exceptionFlags := old_flags OR softfloat_flag_invalid\<rparr>)
         else if sig32 < (- 0x7FFF - 1)
         then (i16_fromNegOverflow, s'\<lparr>softfloat_exceptionFlags := old_flags OR softfloat_flag_invalid\<rparr>)
         else (sig32, s'))"

definition f16_to_ui16 :: "float16 \<Rightarrow> u8 \<Rightarrow> bool \<Rightarrow> sf_state \<Rightarrow> u64 \<times> sf_state" where
  "f16_to_ui16 a roundingMode exact s =
     (let old_flags = softfloat_exceptionFlags s;
          (sig32, s') = f16_to_ui32 a roundingMode exact s
      in if 0xFFFF < sig32
         then (ui16_fromPosOverflow, s'\<lparr>softfloat_exceptionFlags := old_flags OR softfloat_flag_invalid\<rparr>)
         else (sig32, s'))"

definition f32_to_i16 :: "float32 \<Rightarrow> u8 \<Rightarrow> bool \<Rightarrow> sf_state \<Rightarrow> int \<times> sf_state" where
  "f32_to_i16 a roundingMode exact s =
     (let old_flags = softfloat_exceptionFlags s;
          (sig32, s') = f32_to_i32 a roundingMode exact s
      in if 0x7FFF < sig32
         then (i16_fromPosOverflow, s'\<lparr>softfloat_exceptionFlags := old_flags OR softfloat_flag_invalid\<rparr>)
         else if sig32 < (- 0x7FFF - 1)
         then (i16_fromNegOverflow, s'\<lparr>softfloat_exceptionFlags := old_flags OR softfloat_flag_invalid\<rparr>)
         else (sig32, s'))"

definition f32_to_ui16 :: "float32 \<Rightarrow> u8 \<Rightarrow> bool \<Rightarrow> sf_state \<Rightarrow> u64 \<times> sf_state" where
  "f32_to_ui16 a roundingMode exact s =
     (let old_flags = softfloat_exceptionFlags s;
          (sig32, s') = f32_to_ui32 a roundingMode exact s
      in if 0xFFFF < sig32
         then (ui16_fromPosOverflow, s'\<lparr>softfloat_exceptionFlags := old_flags OR softfloat_flag_invalid\<rparr>)
         else (sig32, s'))"

section \<open>Integer to floating point\<close>

definition i32_to_f16 :: "u32 \<Rightarrow> sf_state \<Rightarrow> float16 \<times> sf_state" where
  "i32_to_f16 a s =
     (let sign = (sint a < 0);
          absA = (if sign then - scast a else scast a :: u64);
          shiftDist = int8 (uint (softfloat_countLeadingZeros32 (ucast absA)) - 21)
      in if 0 \<le> shiftDist
         then (if a \<noteq> 0 then ucast (packToF16UI sign (0x18 - shiftDist) (push_bit (nat shiftDist) absA))
               else 0, s)
         else let shiftDist = int8 (shiftDist + 4);
                  sig = (if shiftDist < 0
                         then drop_bit (nat (- shiftDist)) absA
                             OR of_bool ((ucast (push_bit (nat (shiftDist AND 31)) absA) :: u32) \<noteq> 0)
                         else push_bit (nat shiftDist) absA)
              in softfloat_roundPackToF16 sign (0x1C - shiftDist) sig s)"

definition ui32_to_f16 :: "u32 \<Rightarrow> sf_state \<Rightarrow> float16 \<times> sf_state" where
  "ui32_to_f16 a s =
     (let shiftDist = int8 (uint (softfloat_countLeadingZeros32 a) - 21)
      in if 0 \<le> shiftDist
         then (if a \<noteq> 0 then ucast (packToF16UI False (0x18 - shiftDist) (push_bit (nat shiftDist) (ucast a)))
               else 0, s)
         else let shiftDist = int8 (shiftDist + 4);
                  sig = (if shiftDist < 0
                         then ucast (drop_bit (nat (- shiftDist)) a OR of_bool (push_bit (nat (shiftDist AND 31)) a \<noteq> 0))
                         else push_bit (nat shiftDist) (ucast a))
              in softfloat_roundPackToF16 False (0x1C - shiftDist) sig s)"

definition i64_to_f16 :: "u64 \<Rightarrow> sf_state \<Rightarrow> float16 \<times> sf_state" where
  "i64_to_f16 a s =
     (let sign = (sint a < 0);
          absA = (if sign then - a else a :: u64);
          shiftDist = int8 (uint (softfloat_countLeadingZeros64 absA) - 53)
      in if 0 \<le> shiftDist
         then (if a \<noteq> 0 then ucast (packToF16UI sign (0x18 - shiftDist) (push_bit (nat shiftDist) absA))
               else 0, s)
         else let shiftDist = int8 (shiftDist + 4);
                  sig = (if shiftDist < 0
                         then softfloat_shortShiftRightJam64 absA (word_of_int (- shiftDist))
                         else push_bit (nat shiftDist) absA)
              in softfloat_roundPackToF16 sign (0x1C - shiftDist) sig s)"

definition i64_to_f32 :: "u64 \<Rightarrow> sf_state \<Rightarrow> float32 \<times> sf_state" where
  "i64_to_f32 a s =
     (let sign = (sint a < 0);
          absA = (if sign then - a else a :: u64);
          shiftDist = int8 (uint (softfloat_countLeadingZeros64 absA) - 40)
      in if 0 \<le> shiftDist
         then (if a \<noteq> 0 then ucast (packToF32UI sign (0x95 - shiftDist) (push_bit (nat shiftDist) absA))
               else 0, s)
         else let shiftDist = int8 (shiftDist + 7);
                  sig = (if shiftDist < 0
                         then softfloat_shortShiftRightJam64 absA (word_of_int (- shiftDist))
                         else push_bit (nat shiftDist) absA)
              in softfloat_roundPackToF32 sign (0x9C - shiftDist) sig s)"

definition ui64_to_f16 :: "u64 \<Rightarrow> sf_state \<Rightarrow> float16 \<times> sf_state" where
  "ui64_to_f16 a s =
     (let shiftDist = int8 (uint (softfloat_countLeadingZeros64 a) - 53)
      in if 0 \<le> shiftDist
         then (if a \<noteq> 0 then ucast (packToF16UI False (0x18 - shiftDist) (push_bit (nat shiftDist) a))
               else 0, s)
         else let shiftDist = int8 (shiftDist + 4);
                  sig = (if shiftDist < 0
                         then softfloat_shortShiftRightJam64 a (word_of_int (- shiftDist))
                         else push_bit (nat shiftDist) a)
              in softfloat_roundPackToF16 False (0x1C - shiftDist) sig s)"

definition ui64_to_f32 :: "u64 \<Rightarrow> sf_state \<Rightarrow> float32 \<times> sf_state" where
  "ui64_to_f32 a s =
     (let shiftDist = int8 (uint (softfloat_countLeadingZeros64 a) - 40)
      in if 0 \<le> shiftDist
         then (if a \<noteq> 0 then ucast (packToF32UI False (0x95 - shiftDist) (push_bit (nat shiftDist) a))
               else 0, s)
         else let shiftDist = int8 (shiftDist + 7);
                  sig = (if shiftDist < 0
                         then softfloat_shortShiftRightJam64 a (word_of_int (- shiftDist))
                         else push_bit (nat shiftDist) a)
              in softfloat_roundPackToF32 False (0x9C - shiftDist) sig s)"

definition i32_to_f32 :: "u32 \<Rightarrow> sf_state \<Rightarrow> float32 \<times> sf_state" where
  "i32_to_f32 a s =
     (let sign = (sint a < 0)
      in if a AND 0x7FFFFFFF = 0
         then (ucast (if sign then packToF32UI True 0x9E 0 else 0), s)
         else let absA = (if sign then - scast a else scast a :: u64)
              in softfloat_normRoundPackToF32 sign 0x9C absA s)"

definition i32_to_f64 :: "u32 \<Rightarrow> float64" where
  "i32_to_f64 a =
     (if a = 0 then 0
      else let sign = (sint a < 0);
               absA = (if sign then - scast a else scast a :: u64);
               shiftDist = int8 (uint (softfloat_countLeadingZeros32 (ucast absA)) + 21)
           in packToF64UI sign (0x432 - shiftDist) (push_bit (nat shiftDist) absA))"

definition ui32_to_f32 :: "u32 \<Rightarrow> sf_state \<Rightarrow> float32 \<times> sf_state" where
  "ui32_to_f32 a s =
     (if a = 0 then (0, s)
      else if a AND 0x80000000 \<noteq> 0
      then softfloat_roundPackToF32 False 0x9D (ucast (drop_bit 1 a OR (a AND 1))) s
      else softfloat_normRoundPackToF32 False 0x9C (ucast a) s)"

definition ui32_to_f64 :: "u32 \<Rightarrow> float64" where
  "ui32_to_f64 a =
     (if a = 0 then 0
      else let shiftDist = int8 (uint (softfloat_countLeadingZeros32 a) + 21)
           in packToF64UI False (0x432 - shiftDist) (push_bit (nat shiftDist) (ucast a)))"

definition i64_to_f64 :: "u64 \<Rightarrow> sf_state \<Rightarrow> float64 \<times> sf_state" where
  "i64_to_f64 a s =
     (let sign = (sint a < 0)
      in if a AND 0x7FFFFFFFFFFFFFFF = 0
         then (if sign then packToF64UI True 0x43E 0 else 0, s)
         else let absA = (if sign then - a else a)
              in softfloat_normRoundPackToF64 sign 0x43C absA s)"

definition ui64_to_f64 :: "u64 \<Rightarrow> sf_state \<Rightarrow> float64 \<times> sf_state" where
  "ui64_to_f64 a s =
     (if a = 0 then (0, s)
      else if a AND 0x8000000000000000 \<noteq> 0
      then softfloat_roundPackToF64 False 0x43D (softfloat_shortShiftRightJam64 a 1) s
      else softfloat_normRoundPackToF64 False 0x43C a s)"

section \<open>Integer to floating point\<close>

lemma magnitude_64:
  fixes a :: u64
  shows "unat (if sint a < 0 then - a else a) = nat \<bar>sint a\<bar>"
proof -
  have r: "- (2 ^ 63) \<le> sint a" "sint a < 2 ^ 63"
    using sint_range_size [of a] by (simp_all add: word_size)
  have "(if sint a < 0 then - a else a) = word_of_int \<bar>sint a\<bar>" by simp
  moreover have "unat (word_of_int \<bar>sint a\<bar> :: u64) = nat \<bar>sint a\<bar>"
    using r by (intro unat_word_of_int_nat) simp_all
  ultimately show ?thesis by simp
qed

lemma magnitude_32:
  fixes a :: u32
  shows "unat (if sint a < 0 then - scast a else scast a :: u64) = nat \<bar>sint a\<bar>"
proof -
  have r: "- (2 ^ 31) \<le> sint a" "sint a < 2 ^ 31"
    using sint_range_size [of a] by (simp_all add: word_size)
  have "(scast a :: u64) = word_of_int (sint a)" by simp
  then have "(if sint a < 0 then - scast a else scast a :: u64) = word_of_int \<bar>sint a\<bar>" by simp
  moreover have "unat (word_of_int \<bar>sint a\<bar> :: u64) = nat \<bar>sint a\<bar>"
    using r by (intro unat_word_of_int_nat) simp_all
  ultimately show ?thesis by simp
qed

context leading_zeros
begin

lemma shift_distance:
  assumes "LENGTH('a) < 128" "k \<le> 64"
  shows "int8 (uint (clz a) - int k) = int LENGTH('a) - int k - int (nbits (unat a))"
proof -
  have "uint (clz a) = int LENGTH('a) - int (nbits (unat a))"
    using nbits_le [of a] by (simp only: uint_nat clz_law of_nat_diff)
  then show ?thesis using nbits_le [of a] assms by simp
qed

end

context float_format
begin

lemma subexp_large: "fracw f \<le> subexp f"
proof -
  have "(2::nat) ^ 1 \<le> 2 ^ (expw f - 1)" using expw_pos by (intro power_increasing) simp_all
  then show ?thesis by (simp add: subexp_def)
qed

text \<open>An integer whose significand fits is packed without rounding.\<close>

lemma pack_integer:
  fixes x :: u64
  assumes wide: "fracw f < 2 ^ (expw f - 1)" and n: "0 < n" and d: "d + nbits n = Suc (fracw f)" and x: "unat x = n * 2 ^ d" 
    and e: "e = int (subexp f) - int d"
  shows "(ucast (pack sign e x), s) = (ieee_result f s sign (n * 2 ^ subexp f) 0 :: 'w::len word \<times> sf_state)"
proof -
  have nb: "nbits (unat x) = Suc (fracw f)" using n d by (simp add: x nbits_mult_pow)
  then have l: "2 ^ fracw f \<le> unat x" "unat x < 2 ^ Suc (fracw f)"
    by (subst less_nbits_iff [symmetric] nbits_le_iff [symmetric], simp)+
  have d1: "d \<le> fracw f" using d n nbits_pos [of n] by simp
  have en: "nat e = subexp f - d" "0 \<le> e" using d1 subexp_large by (simp_all add: e)
  have "subexp f + 2 \<le> 2 ^ expw f - 1"
  proof -
    have "(2::nat) ^ expw f = 2 * 2 ^ (expw f - 1)" using expw_pos by (cases "expw f") simp_all
    moreover have "(2::nat) ^ 1 \<le> 2 ^ (expw f - 1)" using expw_pos by (intro power_increasing) simp_all
    ultimately show ?thesis using wide by (simp add: subexp_def)
  qed
  then have "(nat e + 2) * 2 ^ fracw f \<le> inf_ord f"
    unfolding inf_ord_def en by (intro mult_le_mono1) simp
  then have "(ucast (pack sign e x), s) = (ieee_result f s sign (unat x * 2 ^ nat e) 0 :: 'w word \<times> sf_state)"
    using l en by (intro pack_exact) (simp_all add: distrib_right)
  also have "unat x * 2 ^ nat e = n * 2 ^ subexp f"
    using d1 subexp_large by (simp add: x en mult.assoc power_add [symmetric])
  finally show ?thesis .
qed

end

context round_pack
begin

lemma round_integer:
  fixes sig :: u64
  assumes n: "0 < n" and c: "c = int (Suc (fracw f + g)) - int (nbits n)"
    and sig: "unat sig = (if c < 0 then jam n (nat (- c)) else n * 2 ^ nat c)"
    and e: "e = int (subexp f) + int g - c" "e < lim" "- lim \<le> 0"
  shows "rp sign e sig s = ieee_result f s sign (n * 2 ^ subexp f) 0"
proof -
  have nb: "nbits (unat sig) = Suc (fracw f + g)"
    using n guard(1) unfolding sig by (auto simp: nbits_mult_pow nbits_jam c)
  have e0: "0 \<le> e" using subexp_large nbits_pos [OF n] by (simp add: e c)
  have "rp sign e sig s = ieee_result f s sign (unat sig * 2 ^ nat e) (g + nat (- e))"
    using e e0 nb guard(1) by (intro round_pack_law) (simp_all add: normed_iff_nbits)
  also have "\<dots> = ieee_result f s sign (unat sig * 2 ^ nat e) g" using e0 by simp
  also have "\<dots> = ieee_result f s sign (n * 2 ^ subexp f) 0"
  proof (cases "c < 0")
    case True
    show ?thesis
    proof (rule ieee_result_value [where X = n and d = "nat (- c)" and k = 0])
      have "fracw f + nat (- c) + 2 < nbits n" using True guard(1) by (simp add: c)
      then show "2 ^ nat (- c) dvd n \<or> 2 ^ (fracw f + nat (- c) + 2) \<le> n" by (simp add: less_nbits_iff)
      have "0 + nat e + 0 = subexp f + (g + nat (- c))" using True e e0 by simp
      then show "n * 2 ^ (0 + nat e + 0) = n * 2 ^ subexp f * 2 ^ (g + nat (- c))"
        by (simp only: power_add mult.assoc)
    qed (use True in \<open>simp add: sig\<close>)
  next
    case False
    show ?thesis
    proof (rule ieee_result_cross)
      have "nat c + nat e = subexp f + g" using False e e0 by simp
      then show "unat sig * 2 ^ nat e * 2 ^ 0 = n * 2 ^ subexp f * 2 ^ g"
        using False by (simp add: sig mult.assoc power_add [symmetric])
    qed
  qed
  finally show ?thesis .
qed

end


section \<open>64-bit integers\<close>

text \<open>The common part of the conversions that count leading zeros: exact or rounded.\<close>

definition int64_to_float32 :: "bool \<Rightarrow> u64 \<Rightarrow> sf_state \<Rightarrow> float32 \<times> sf_state" where
  "int64_to_float32 sign x s =
     (let shiftDist = int8 (uint (softfloat_countLeadingZeros64 x) - 40)
      in if 0 \<le> shiftDist
         then (if x \<noteq> 0 then ucast (packToF32UI sign (0x95 - shiftDist) (push_bit (nat shiftDist) x)) else 0, s)
         else let shiftDist = int8 (shiftDist + 7);
                  sig = (if shiftDist < 0 then softfloat_shortShiftRightJam64 x (word_of_int (- shiftDist))
                         else push_bit (nat shiftDist) x)
              in softfloat_roundPackToF32 sign (0x9C - shiftDist) sig s)"

lemma push_nbits:
  fixes x :: u64
  assumes "nbits (unat x) + k \<le> 64"
  shows "unat (push_bit k x) = unat x * 2 ^ k"
proof (cases "unat x = 0")
  case False
  then have "nbits (unat x * 2 ^ k) \<le> LENGTH(64)" using assms by (simp add: nbits_mult_pow)
  then show ?thesis by (intro unat_push_no_wrap) (simp only: nbits_le_iff)
qed (simp add: unat_push)

lemma short_jam:
  fixes x :: u64
  assumes "c < 0" "- 64 < c"
  shows "unat (softfloat_shortShiftRightJam64 x (word_of_int (- c))) = jam (unat x) (nat (- c))"
proof -
  have "unat (word_of_int (- c) :: u8) = nat (- c)" using assms by (intro unat_word_of_int_nat) simp_all
  then show ?thesis using assms by (subst shortShiftRightJam64_jam) simp_all
qed

lemma int64_to_float32_round:
  "int64_to_float32 sign x s = ieee_result binary32 s (sign \<and> x \<noteq> 0) (unat x * 2 ^ subexp binary32) 0"
proof (cases "x = 0")
  case True
  then show ?thesis
    using clz64.shift_distance [of 40 0]
    by (simp add: int64_to_float32_def Let_def f32.ieee_result_0 zero_result_def sign_ord_def)
next
  case False
  define n where "n = unat x"
  have n: "0 < n" "nbits n \<le> 64" using False clz64.nbits_le [of x] by (simp_all add: n_def word_neq_0_iff)
  define c where "c = 24 - int (nbits n)"
  have sd: "int8 (uint (softfloat_countLeadingZeros64 x) - 40) = c"
    using clz64.shift_distance [of 40 x] by (simp add: c_def n_def)
  show ?thesis
  proof (cases "0 \<le> c")
    case True
    have "(ucast (packToF32UI sign (0x95 - c) (push_bit (nat c) x)), s)
      = ieee_result binary32 s sign (n * 2 ^ subexp binary32) 0"
      using True n by (intro f32.pack_integer [where d = "nat c"])
        (simp_all add: c_def push_nbits n_def [symmetric] subexp_def)
    then show ?thesis
      using True False by (simp add: int64_to_float32_def Let_def sd n_def)
  next
    case neg: False
    have i8: "int8 (c + 7) = c + 7" using n neg by (simp add: c_def)
    have "softfloat_roundPackToF32 sign (0x9C - (c + 7))
        (if c + 7 < 0 then softfloat_shortShiftRightJam64 x (word_of_int (- (c + 7))) else push_bit (nat (c + 7)) x) s
      = ieee_result binary32 s sign (n * 2 ^ subexp binary32) 0"
    proof (rule rp32.round_integer [where c = "c + 7"])
      show "unat (if c + 7 < 0 then softfloat_shortShiftRightJam64 x (word_of_int (- (c + 7))) else push_bit (nat (c + 7)) x)
          = (if c + 7 < 0 then jam n (nat (- (c + 7))) else n * 2 ^ nat (c + 7))"
      proof (cases "c + 7 < 0")
        case True
        then show ?thesis using n short_jam [of "c + 7" x] by (simp add: c_def n_def)
      next
        case False
        then show ?thesis using n neg push_nbits [of x "nat (c + 7)"] by (simp add: c_def n_def)
      qed
    qed (use n neg in \<open>simp_all add: c_def subexp_def\<close>)
    then show ?thesis
      using neg False by (simp only: int64_to_float32_def Let_def sd i8 n_def if_False simp_thms)
  qed
qed

lemma i64_to_f32_result: "i64_to_f32 a s = ieee_of_int binary32 (sint a) s"
proof -
  have "i64_to_f32 a s = int64_to_float32 (sint a < 0) (if sint a < 0 then - a else a) s"
    by (simp add: i64_to_f32_def int64_to_float32_def Let_def)
  then show ?thesis
    by (cases "a = 0") (simp_all add: int64_to_float32_round magnitude_64 ieee_of_int_def)
qed

lemma ui64_to_f32_result: "ui64_to_f32 a s = ieee_of_int binary32 (uint a) s"
proof -
  have "ui64_to_f32 a s = int64_to_float32 False a s"
    by (simp add: ui64_to_f32_def int64_to_float32_def Let_def)
  then show ?thesis
    by (simp add: int64_to_float32_round ieee_of_int_def)
qed

definition int64_to_float16 :: "bool \<Rightarrow> u64 \<Rightarrow> sf_state \<Rightarrow> float16 \<times> sf_state" where
  "int64_to_float16 sign x s =
     (let shiftDist = int8 (uint (softfloat_countLeadingZeros64 x) - 53)
      in if 0 \<le> shiftDist
         then (if x \<noteq> 0 then ucast (packToF16UI sign (0x18 - shiftDist) (push_bit (nat shiftDist) x)) else 0, s)
         else let shiftDist = int8 (shiftDist + 4);
                  sig = (if shiftDist < 0 then softfloat_shortShiftRightJam64 x (word_of_int (- shiftDist))
                         else push_bit (nat shiftDist) x)
              in softfloat_roundPackToF16 sign (0x1C - shiftDist) sig s)"

lemma int64_to_float16_round:
  "int64_to_float16 sign x s = ieee_result binary16 s (sign \<and> x \<noteq> 0) (unat x * 2 ^ subexp binary16) 0"
proof (cases "x = 0")
  case True
  then show ?thesis
    using clz64.shift_distance [of 53 0]
    by (simp add: int64_to_float16_def Let_def f16.ieee_result_0 zero_result_def sign_ord_def)
next
  case False
  define n where "n = unat x"
  have n: "0 < n" "nbits n \<le> 64" using False clz64.nbits_le [of x] by (simp_all add: n_def word_neq_0_iff)
  define c where "c = 11 - int (nbits n)"
  have sd: "int8 (uint (softfloat_countLeadingZeros64 x) - 53) = c"
    using clz64.shift_distance [of 53 x] by (simp add: c_def n_def)
  show ?thesis
  proof (cases "0 \<le> c")
    case True
    have "(ucast (packToF16UI sign (0x18 - c) (push_bit (nat c) x)), s)
      = ieee_result binary16 s sign (n * 2 ^ subexp binary16) 0"
      using True n by (intro f16.pack_integer [where d = "nat c"])
        (simp_all add: c_def push_nbits n_def [symmetric] subexp_def)
    then show ?thesis
      using True False by (simp add: int64_to_float16_def Let_def sd n_def)
  next
    case neg: False
    have i8: "int8 (c + 4) = c + 4" using n neg by (simp add: c_def)
    have "softfloat_roundPackToF16 sign (0x1C - (c + 4))
        (if c + 4 < 0 then softfloat_shortShiftRightJam64 x (word_of_int (- (c + 4))) else push_bit (nat (c + 4)) x) s
      = ieee_result binary16 s sign (n * 2 ^ subexp binary16) 0"
    proof (rule rp16.round_integer [where c = "c + 4"])
      show "unat (if c + 4 < 0 then softfloat_shortShiftRightJam64 x (word_of_int (- (c + 4))) else push_bit (nat (c + 4)) x)
          = (if c + 4 < 0 then jam n (nat (- (c + 4))) else n * 2 ^ nat (c + 4))"
      proof (cases "c + 4 < 0")
        case True
        then show ?thesis using n short_jam [of "c + 4" x] by (simp add: c_def n_def)
      next
        case False
        then show ?thesis using n neg push_nbits [of x "nat (c + 4)"] by (simp add: c_def n_def)
      qed
    qed (use n neg in \<open>simp_all add: c_def subexp_def\<close>)
    then show ?thesis
      using neg False by (simp only: int64_to_float16_def Let_def sd i8 n_def if_False simp_thms)
  qed
qed

lemma i64_to_f16_result: "i64_to_f16 a s = ieee_of_int binary16 (sint a) s"
proof -
  have "i64_to_f16 a s = int64_to_float16 (sint a < 0) (if sint a < 0 then - a else a) s"
    by (simp add: i64_to_f16_def int64_to_float16_def Let_def)
  then show ?thesis
    by (cases "a = 0") (simp_all add: int64_to_float16_round magnitude_64 ieee_of_int_def)
qed

lemma ui64_to_f16_result: "ui64_to_f16 a s = ieee_of_int binary16 (uint a) s"
proof -
  have "ui64_to_f16 a s = int64_to_float16 False a s"
    by (simp add: ui64_to_f16_def int64_to_float16_def Let_def)
  then show ?thesis
    by (simp add: int64_to_float16_round ieee_of_int_def)
qed


section \<open>binary64 and binary32 results by normalisation\<close>

lemma unat_top_bit:
  "(a :: u64) AND 0x8000000000000000 = 0 \<longleftrightarrow> unat a < 2 ^ 63" "(b :: u32) AND 0x80000000 = 0 \<longleftrightarrow> unat b < 2 ^ 31"
proof -
  have "unat (a AND push_bit 63 (mask 1)) = unat a div 2 ^ 63 mod 2 ^ 1 * 2 ^ 63" by (rule unat_and_field) simp
  moreover have "unat a div 2 ^ 63 < 2" using unat_lt_64 [of a] by (simp add: less_mult_imp_div_less)
  ultimately have "a AND 0x8000000000000000 = 0 \<longleftrightarrow> unat a div 2 ^ 63 = 0"
    by (simp add: word_eq_0_iff mask_eq_exp_minus_1)
  then show "a AND 0x8000000000000000 = 0 \<longleftrightarrow> unat a < 2 ^ 63" by (simp add: div_eq_0_iff)
  have "unat (b AND push_bit 31 (mask 1)) = unat b div 2 ^ 31 mod 2 ^ 1 * 2 ^ 31" by (rule unat_and_field) simp
  moreover have "unat b div 2 ^ 31 < 2" using unat_lt_32 [of b] by (simp add: less_mult_imp_div_less)
  ultimately have "b AND 0x80000000 = 0 \<longleftrightarrow> unat b div 2 ^ 31 = 0"
    by (simp add: word_eq_0_iff mask_eq_exp_minus_1)
  then show "b AND 0x80000000 = 0 \<longleftrightarrow> unat b < 2 ^ 31" by (simp add: div_eq_0_iff)
qed

lemma low_bits_clear:
  "(a :: u64) AND 0x7FFFFFFFFFFFFFFF = 0 \<longleftrightarrow> a = 0 \<or> a = 0x8000000000000000"
  "(b :: u32) AND 0x7FFFFFFF = 0 \<longleftrightarrow> b = 0 \<or> b = 0x80000000"
proof -
  have "q < 2 * m \<Longrightarrow> q mod m = 0 \<Longrightarrow> q = 0 \<or> q = m" for q m :: nat by auto
  note half = this
  have "a AND 0x7FFFFFFFFFFFFFFF = 0 \<longleftrightarrow> unat a mod 2 ^ 63 = 0"
    using unat_and_mask [of a 63] by (simp add: word_eq_0_iff mask_eq_exp_minus_1)
  then show "a AND 0x7FFFFFFFFFFFFFFF = 0 \<longleftrightarrow> a = 0 \<or> a = 0x8000000000000000"
    using half [of "unat a" "2 ^ 63"] unat_lt_64 [of a] by (auto simp: word_eq_iff_unat)
  have "b AND 0x7FFFFFFF = 0 \<longleftrightarrow> unat b mod 2 ^ 31 = 0"
    using unat_and_mask [of b 31] by (simp add: word_eq_0_iff mask_eq_exp_minus_1)
  then show "b AND 0x7FFFFFFF = 0 \<longleftrightarrow> b = 0 \<or> b = 0x80000000"
    using half [of "unat b" "2 ^ 31"] unat_lt_32 [of b] by (auto simp: word_eq_iff_unat)
qed

lemma norm_integer_64:
  assumes "0 < unat x" "unat x < 2 ^ 63"
  shows "softfloat_normRoundPackToF64 sign 0x43C x s = ieee_result binary64 s sign (unat x * 2 ^ subexp binary64) 0"
proof -
  have "softfloat_normRoundPackToF64 sign 0x43C x s = ieee_result binary64 s sign (unat x * 2 ^ nat 0x43C) (10 + nat (- 0x43C))"
    using assms by (intro nrp64.norm_round_pack_law) simp_all
  also have "\<dots> = ieee_result binary64 s sign (unat x * 2 ^ subexp binary64) 0"
    by (rule ieee_result_cross) (simp add: subexp_def)
  finally show ?thesis .
qed

lemma norm_integer_32:
  assumes "0 < unat x" "unat x < 2 ^ 31"
  shows "softfloat_normRoundPackToF32 sign 0x9C x s = ieee_result binary32 s sign (unat x * 2 ^ subexp binary32) 0"
proof -
  have "softfloat_normRoundPackToF32 sign 0x9C x s = ieee_result binary32 s sign (unat x * 2 ^ nat 0x9C) (7 + nat (- 0x9C))"
    using assms by (intro nrp32.norm_round_pack_law) simp_all
  also have "\<dots> = ieee_result binary32 s sign (unat x * 2 ^ subexp binary32) 0"
    by (rule ieee_result_cross) (simp add: subexp_def)
  finally show ?thesis .
qed

context float_format
begin

text \<open>A power of two.\<close>

lemma pack_power:
  assumes e: "0 < e" "nat e + 2 \<le> 2 ^ expw f"
  shows "(ucast (pack sign e 0), s) = (ieee_result f s sign (2 ^ (fracw f + nat (e - 1))) 0 :: 'w::len word \<times> sf_state)"
proof -
  define h where "h = (word_of_nat (2 ^ fracw f) :: u64)"
  have "(2::nat) ^ fracw f < 2 ^ LENGTH(64)" using width by (intro power_strict_increasing) simp_all
  then have h: "unat h = 2 ^ fracw f" unfolding h_def by (rule unat_word_of_nat_lt)
  have ph: "pack sign e 0 = pack sign (e - 1) (0 + h)"
  proof (rule pack_hidden)
    show "nat e < 2 ^ expw f" using e(2) by linarith
  qed (use e h in simp_all)
  have "(nat (e - 1) + 2) * 2 ^ fracw f \<le> inf_ord f"
    unfolding inf_ord_def using e by (intro mult_le_mono1) linarith
  moreover have "nat (e - 1) * 2 ^ fracw f + 2 ^ fracw f < (nat (e - 1) + 2) * 2 ^ fracw f"
    by (simp add: distrib_right)
  ultimately have "nat (e - 1) * 2 ^ fracw f + unat h < inf_ord f" unfolding h by linarith
  then have "(ucast (pack sign (e - 1) h), s) = (ieee_result f s sign (unat h * 2 ^ nat (e - 1)) 0 :: 'w word \<times> sf_state)"
    using e h by (intro pack_exact) simp_all
  then show ?thesis by (simp add: ph h power_add)
qed

end

lemma i64_to_f64_result: "i64_to_f64 a s = ieee_of_int binary64 (sint a) s"
proof -
  consider "a = 0" | "a = 0x8000000000000000" | "a \<noteq> 0" "a \<noteq> 0x8000000000000000" by blast
  then show ?thesis
  proof cases
    case 1
    then show ?thesis by (simp add: i64_to_f64_def ieee_of_int_def f64.ieee_result_0 zero_result_def sign_ord_def)
  next
    case 2
    have "sint (0x8000000000000000 :: u64) = - (2 ^ 63)" by simp
    moreover have "(2::nat) ^ (fracw binary64 + nat (0x43E - 1)) = 2 ^ 63 * 2 ^ subexp binary64"
      by (simp add: subexp_def power_add [symmetric])
    ultimately show ?thesis
      using 2 f64.pack_power [where 'w = 64, of "0x43E" True s]
      by (simp add: i64_to_f64_def ieee_of_int_def)
  next
    case 3
    define x where "x = (if sint a < 0 then - a else a)"
    have x: "unat x = nat \<bar>sint a\<bar>" unfolding x_def by (rule magnitude_64)
    have ne: "sint a \<noteq> - (2 ^ 63)" "sint a \<noteq> 0"
    proof -
      have "sint a = sint (0x8000000000000000 :: u64) \<Longrightarrow> a = 0x8000000000000000" by (simp only: signed_word_eqI)
      then show "sint a \<noteq> - (2 ^ 63)" using 3 by auto
      have "sint a = sint (0 :: u64) \<Longrightarrow> a = 0" by (simp only: signed_word_eqI)
      then show "sint a \<noteq> 0" using 3 by auto
    qed
    moreover have "- (2 ^ 63) \<le> sint a" "sint a < 2 ^ 63"
      using sint_range_size [of a] by (simp_all add: word_size)
    ultimately have "0 < unat x" "unat x < 2 ^ 63" unfolding x by (simp_all add: nat_less_iff)
    then have "softfloat_normRoundPackToF64 (sint a < 0) 0x43C x s
      = ieee_result binary64 s (sint a < 0) (unat x * 2 ^ subexp binary64) 0" by (rule norm_integer_64)
    then show ?thesis
      using 3 by (simp add: i64_to_f64_def low_bits_clear x_def [symmetric] ieee_of_int_def x)
  qed
qed

lemma ui64_to_f64_result: "ui64_to_f64 a s = ieee_of_int binary64 (uint a) s"
proof -
  define n where "n = unat a"
  have ui: "uint a = int n" by (simp add: n_def)
  consider "a = 0" | "a \<noteq> 0" "2 ^ 63 \<le> n" | "a \<noteq> 0" "n < 2 ^ 63" by linarith
  then show ?thesis
  proof cases
    case 1
    then show ?thesis by (simp add: ui64_to_f64_def ieee_of_int_def f64.ieee_result_0 zero_result_def sign_ord_def)
  next
    case 2
    have "n < 2 ^ 64" using unat_lt_64 [of a] by (simp add: n_def)
    then have nb: "nbits n = 64" using 2 nbits_eqI [of 63 n] by simp
    have "softfloat_roundPackToF64 False 0x43D (softfloat_shortShiftRightJam64 a 1) s
        = ieee_result binary64 s False (n * 2 ^ subexp binary64) 0"
      using 2 by (intro rp64.round_integer [where c = "-1"])
        (simp_all add: nb shortShiftRightJam64_jam subexp_def flip: n_def)
    then show ?thesis
      using 2 by (simp add: ui64_to_f64_def unat_top_bit ieee_of_int_def ui) (simp add: n_def)
  next
    case 3
    have "softfloat_normRoundPackToF64 False 0x43C a s = ieee_result binary64 s False (n * 2 ^ subexp binary64) 0"
      using 3 unfolding n_def by (intro norm_integer_64) (simp_all add: word_neq_0_iff)
    then show ?thesis
      using 3 by (simp add: ui64_to_f64_def unat_top_bit ieee_of_int_def ui) (simp add: n_def)
  qed
qed


section \<open>32-bit integers\<close>

lemma i32_to_f32_result: "i32_to_f32 a s = ieee_of_int binary32 (sint a) s"
proof -
  consider "a = 0" | "a = 0x80000000" | "a \<noteq> 0" "a \<noteq> 0x80000000" by blast
  then show ?thesis
  proof cases
    case 1
    then show ?thesis by (simp add: i32_to_f32_def ieee_of_int_def f32.ieee_result_0 zero_result_def sign_ord_def)
  next
    case 2
    have "sint (0x80000000 :: u32) = - (2 ^ 31)" by simp
    moreover have "(2::nat) ^ (fracw binary32 + nat (0x9E - 1)) = 2 ^ 31 * 2 ^ subexp binary32"
      by (simp add: subexp_def power_add [symmetric])
    ultimately show ?thesis
      using 2 f32.pack_power [where 'w = 32, of "0x9E" True s]
      by (simp add: i32_to_f32_def ieee_of_int_def)
  next
    case 3
    define x where "x = (if sint a < 0 then - scast a else scast a :: u64)"
    have x: "unat x = nat \<bar>sint a\<bar>" unfolding x_def by (rule magnitude_32)
    have ne: "sint a \<noteq> - (2 ^ 31)" "sint a \<noteq> 0"
    proof -
      have "sint a = sint (0x80000000 :: u32) \<Longrightarrow> a = 0x80000000" by (simp only: signed_word_eqI)
      then show "sint a \<noteq> - (2 ^ 31)" using 3 by auto
      have "sint a = sint (0 :: u32) \<Longrightarrow> a = 0" by (simp only: signed_word_eqI)
      then show "sint a \<noteq> 0" using 3 by auto
    qed
    moreover have "- (2 ^ 31) \<le> sint a" "sint a < 2 ^ 31"
      using sint_range_size [of a] by (simp_all add: word_size)
    ultimately have "0 < unat x" "unat x < 2 ^ 31" unfolding x by (simp_all add: nat_less_iff)
    then have "softfloat_normRoundPackToF32 (sint a < 0) 0x9C x s
      = ieee_result binary32 s (sint a < 0) (unat x * 2 ^ subexp binary32) 0" by (rule norm_integer_32)
    then show ?thesis
      using 3 by (simp add: i32_to_f32_def low_bits_clear x_def [symmetric] ieee_of_int_def x)
  qed
qed

lemma ui32_to_f32_result: "ui32_to_f32 a s = ieee_of_int binary32 (uint a) s"
proof -
  define n where "n = unat a"
  have ui: "uint a = int n" by (simp add: n_def)
  have n: "n < 2 ^ 32" using unat_lt_32 [of a] by (simp add: n_def)
  consider "a = 0" | "a \<noteq> 0" "2 ^ 31 \<le> n" | "a \<noteq> 0" "n < 2 ^ 31" by linarith
  then show ?thesis
  proof cases
    case 1
    then show ?thesis by (simp add: ui32_to_f32_def ieee_of_int_def f32.ieee_result_0 zero_result_def sign_ord_def)
  next
    case 2
    then have nb: "nbits n = 32" using n nbits_eqI [of 31 n] by simp
    have j: "unat (ucast (drop_bit 1 a OR (a AND 1)) :: u64) = jam n 1"
      using unat_and_mask [of a 1]
      by (simp add: unat_or unat_drop jam_def n_def mask_eq_exp_minus_1 mod_2_eq_odd of_bool_def)
    have "softfloat_roundPackToF32 False 0x9D (ucast (drop_bit 1 a OR (a AND 1))) s
        = ieee_result binary32 s False (n * 2 ^ subexp binary32) 0"
      using 2 by (intro rp32.round_integer [where c = "-1"]) (simp_all only: j nb, simp_all add: subexp_def)
    then show ?thesis
      using 2 by (simp add: ui32_to_f32_def unat_top_bit ieee_of_int_def ui) (simp add: n_def)
  next
    case 3
    have "softfloat_normRoundPackToF32 False 0x9C (ucast a) s = ieee_result binary32 s False (n * 2 ^ subexp binary32) 0"
      using 3 norm_integer_32 [of "ucast a" False s] by (simp add: n_def word_neq_0_iff unat_ucast_64)
    then show ?thesis
      using 3 by (simp add: ui32_to_f32_def unat_top_bit ieee_of_int_def ui) (simp add: n_def)
  qed
qed

lemma pack_int32_in_64:
  fixes x :: u64 and y :: u32
  assumes n: "0 < n" "n < 2 ^ 32" and x: "unat x = n" "unat y = n"
  shows "(packToF64UI sign (0x432 - int8 (uint (softfloat_countLeadingZeros32 y) + 21))
      (push_bit (nat (int8 (uint (softfloat_countLeadingZeros32 y) + 21))) x), s)
    = ieee_result binary64 s sign (n * 2 ^ subexp binary64) 0"
proof -
  define d where "d = 53 - nbits n"
  have nb: "0 < nbits n" "nbits n \<le> 32" using n nbits_pos [of n] nbits_le_iff [of n 32] by simp_all
  have "uint (softfloat_countLeadingZeros32 y) = int (32 - nbits n)"
    using clz32.clz_law [of y] by (simp only: uint_nat x) simp
  then have sd: "int8 (uint (softfloat_countLeadingZeros32 y) + 21) = int d" using nb by (simp add: d_def)
  have "(ucast (packToF64UI sign (0x432 - int d) (push_bit d x)), s)
    = (ieee_result binary64 s sign (n * 2 ^ subexp binary64) 0 :: float64 \<times> sf_state)"
    using n nb by (intro f64.pack_integer [where d = d]) (simp_all add: push_nbits x d_def subexp_def)
  then show ?thesis unfolding sd by simp
qed

lemma i32_to_f64_result: "(i32_to_f64 a, s) = ieee_of_int binary64 (sint a) s"
proof (cases "a = 0")
  case True
  then show ?thesis by (simp add: i32_to_f64_def ieee_of_int_def f64.ieee_result_0 zero_result_def sign_ord_def)
next
  case False
  define x where "x = (if sint a < 0 then - scast a else scast a :: u64)"
  have x: "unat x = nat \<bar>sint a\<bar>" unfolding x_def by (rule magnitude_32)
  have "sint a = sint (0 :: u32) \<Longrightarrow> a = 0" by (simp only: signed_word_eqI)
  then have "sint a \<noteq> 0" using False by auto
  moreover have "- (2 ^ 31) \<le> sint a" "sint a < 2 ^ 31" using sint_range_size [of a] by (simp_all add: word_size)
  ultimately have r: "0 < unat x" "unat x < 2 ^ 32" unfolding x by (simp_all add: nat_less_iff)
  then have "unat (ucast x :: u32) = unat x" by (simp add: unat_ucast_mod)
  then show ?thesis
    using False pack_int32_in_64 [OF r refl, of "ucast x" "sint a < 0" s]
    by (simp add: i32_to_f64_def Let_def x_def [symmetric] ieee_of_int_def x)
qed

lemma ui32_to_f64_result: "(ui32_to_f64 a, s) = ieee_of_int binary64 (uint a) s"
proof (cases "a = 0")
  case True
  then show ?thesis by (simp add: ui32_to_f64_def ieee_of_int_def f64.ieee_result_0 zero_result_def sign_ord_def)
next
  case False
  then have "0 < unat a" "unat a < 2 ^ 32" using unat_lt_32 [of a] by (simp_all add: word_neq_0_iff)
  from pack_int32_in_64 [OF this, of "ucast a" a False s] show ?thesis
    using False by (simp add: ui32_to_f64_def Let_def ieee_of_int_def unat_ucast_64)
qed

section \<open>Properties\<close>

lemma int64_to_f16_correct:
  "i64_to_f16 a s = ieee_of_int binary16 (sint a) s \<and> ui64_to_f16 b s = ieee_of_int binary16 (uint b) s"
  by (simp only: i64_to_f16_result ui64_to_f16_result simp_thms)

lemma int64_to_f32_correct:
  "i64_to_f32 a s = ieee_of_int binary32 (sint a) s \<and> ui64_to_f32 b s = ieee_of_int binary32 (uint b) s"
  by (simp only: i64_to_f32_result ui64_to_f32_result simp_thms)

lemma int64_to_f64_correct:
  "i64_to_f64 a s = ieee_of_int binary64 (sint a) s \<and> ui64_to_f64 b s = ieee_of_int binary64 (uint b) s"
  by (simp only: i64_to_f64_result ui64_to_f64_result simp_thms)

lemma int32_to_f32_correct:
  "i32_to_f32 a s = ieee_of_int binary32 (sint a) s \<and> ui32_to_f32 b s = ieee_of_int binary32 (uint b) s"
  by (simp only: i32_to_f32_result ui32_to_f32_result simp_thms)

lemma int32_to_f64_correct:
  "(i32_to_f64 a, s) = ieee_of_int binary64 (sint a) s \<and> (ui32_to_f64 b, s) = ieee_of_int binary64 (uint b) s"
  by (simp only: i32_to_f64_result ui32_to_f64_result simp_thms)

text \<open>C30: The conversions of 64-bit integers, signed and unsigned, to binary64, binary32 and
  binary16 and of 32-bit integers to binary32 and binary64 are correctly rounded (exact for
  32 bits to binary64), overflow of binary16 included.\<close>

theorem int_to_float_correct:
  "i64_to_f64 a s = ieee_of_int binary64 (sint a) s
    \<and> ui64_to_f64 b s = ieee_of_int binary64 (uint b) s
    \<and> i64_to_f32 a s = ieee_of_int binary32 (sint a) s
    \<and> ui64_to_f32 b s = ieee_of_int binary32 (uint b) s
    \<and> i64_to_f16 a s = ieee_of_int binary16 (sint a) s
    \<and> ui64_to_f16 b s = ieee_of_int binary16 (uint b) s
    \<and> i32_to_f32 c s = ieee_of_int binary32 (sint c) s
    \<and> ui32_to_f32 d s = ieee_of_int binary32 (uint d) s
    \<and> (i32_to_f64 c, s) = ieee_of_int binary64 (sint c) s
    \<and> (ui32_to_f64 d, s) = ieee_of_int binary64 (uint d) s"
  by (simp only: int64_to_f64_correct int64_to_f32_correct int64_to_f16_correct int32_to_f32_correct int32_to_f64_correct simp_thms)

end
