(* ===== verification/SF_Compare.thy ===== *)
theory SF_Compare
  imports IEEE_Spec
begin

text \<open>
  Comparisons (\<open>f*_eq\<close>, \<open>f*_le\<close>, \<open>f*_lt\<close>, signalling and quiet), classification, and the
  maximum and minimum of \<open>fall_maxmin.c\<close>, for binary16, binary32 and binary64.  A result that
  depends on flags is paired with the new state; \<open>||\<close> calls its second operand only when
  the first is false, as in C.
\<close>

section \<open>Definitions\<close>

subsection \<open>binary16\<close>

definition f16_eq :: "float16 \<Rightarrow> float16 \<Rightarrow> sf_state \<Rightarrow> bool \<times> sf_state" where
  "f16_eq a b s =
     (let uiA = ucast a; uiB = ucast b
      in if isNaNF16UI uiA \<or> isNaNF16UI uiB
         then (False, if softfloat_isSigNaNF16UI uiA \<or> softfloat_isSigNaNF16UI uiB
                      then softfloat_raiseFlags softfloat_flag_invalid s else s)
         else (uiA = uiB \<or> (ucast (push_bit 1 (uiA OR uiB)) :: u16) = 0, s))"

definition f16_eq_signaling :: "float16 \<Rightarrow> float16 \<Rightarrow> sf_state \<Rightarrow> bool \<times> sf_state" where
  "f16_eq_signaling a b s =
     (let uiA = ucast a; uiB = ucast b
      in if isNaNF16UI uiA \<or> isNaNF16UI uiB
         then (False, softfloat_raiseFlags softfloat_flag_invalid s)
         else (uiA = uiB \<or> (ucast (push_bit 1 (uiA OR uiB)) :: u16) = 0, s))"

definition f16_le :: "float16 \<Rightarrow> float16 \<Rightarrow> sf_state \<Rightarrow> bool \<times> sf_state" where
  "f16_le a b s =
     (let uiA = ucast a; uiB = ucast b
      in if isNaNF16UI uiA \<or> isNaNF16UI uiB
         then (False, softfloat_raiseFlags softfloat_flag_invalid s)
         else let signA = signF16UI uiA; signB = signF16UI uiB
              in (if signA \<noteq> signB then signA \<or> (ucast (push_bit 1 (uiA OR uiB)) :: u16) = 0
                else uiA = uiB \<or> signA \<noteq> (uiA < uiB), s))"

definition f16_le_quiet :: "float16 \<Rightarrow> float16 \<Rightarrow> sf_state \<Rightarrow> bool \<times> sf_state" where
  "f16_le_quiet a b s =
     (let uiA = ucast a; uiB = ucast b
      in if isNaNF16UI uiA \<or> isNaNF16UI uiB
         then (False, if softfloat_isSigNaNF16UI uiA \<or> softfloat_isSigNaNF16UI uiB
                      then softfloat_raiseFlags softfloat_flag_invalid s else s)
         else let signA = signF16UI uiA; signB = signF16UI uiB
              in (if signA \<noteq> signB then signA \<or> (ucast (push_bit 1 (uiA OR uiB)) :: u16) = 0
                else uiA = uiB \<or> signA \<noteq> (uiA < uiB), s))"

definition f16_lt :: "float16 \<Rightarrow> float16 \<Rightarrow> sf_state \<Rightarrow> bool \<times> sf_state" where
  "f16_lt a b s =
     (let uiA = ucast a; uiB = ucast b
      in if isNaNF16UI uiA \<or> isNaNF16UI uiB
         then (False, softfloat_raiseFlags softfloat_flag_invalid s)
         else let signA = signF16UI uiA; signB = signF16UI uiB
              in (if signA \<noteq> signB then signA \<and> (ucast (push_bit 1 (uiA OR uiB)) :: u16) \<noteq> 0
                else uiA \<noteq> uiB \<and> signA \<noteq> (uiA < uiB), s))"

definition f16_lt_quiet :: "float16 \<Rightarrow> float16 \<Rightarrow> sf_state \<Rightarrow> bool \<times> sf_state" where
  "f16_lt_quiet a b s =
     (let uiA = ucast a; uiB = ucast b
      in if isNaNF16UI uiA \<or> isNaNF16UI uiB
         then (False, if softfloat_isSigNaNF16UI uiA \<or> softfloat_isSigNaNF16UI uiB
                      then softfloat_raiseFlags softfloat_flag_invalid s else s)
         else let signA = signF16UI uiA; signB = signF16UI uiB
              in (if signA \<noteq> signB then signA \<and> (ucast (push_bit 1 (uiA OR uiB)) :: u16) \<noteq> 0
                else uiA \<noteq> uiB \<and> signA \<noteq> (uiA < uiB), s))"

definition f16_isSignalingNaN :: "float16 \<Rightarrow> bool" where
  "f16_isSignalingNaN a = softfloat_isSigNaNF16UI (ucast a)"

definition f16_classify :: "float16 \<Rightarrow> u64" where
  "f16_classify a =
     (let uiA = ucast a;
          infOrNaN = (expF16UI uiA = 0x1F);
          subnormalOrZero = (expF16UI uiA = 0);
          sign = signF16UI uiA;
          fracZero = (fracF16UI uiA = 0);
          isNaN = isNaNF16UI uiA;
          isSNaN = softfloat_isSigNaNF16UI uiA
      in of_bool (sign \<and> infOrNaN \<and> fracZero) OR
         push_bit 1 (of_bool (sign \<and> \<not> infOrNaN \<and> \<not> subnormalOrZero)) OR
         push_bit 2 (of_bool (sign \<and> subnormalOrZero \<and> \<not> fracZero)) OR
         push_bit 3 (of_bool (sign \<and> subnormalOrZero \<and> fracZero)) OR
         push_bit 7 (of_bool (\<not> sign \<and> infOrNaN \<and> fracZero)) OR
         push_bit 6 (of_bool (\<not> sign \<and> \<not> infOrNaN \<and> \<not> subnormalOrZero)) OR
         push_bit 5 (of_bool (\<not> sign \<and> subnormalOrZero \<and> \<not> fracZero)) OR
         push_bit 4 (of_bool (\<not> sign \<and> subnormalOrZero \<and> fracZero)) OR
         push_bit 8 (of_bool (isNaN \<and> isSNaN)) OR
         push_bit 9 (of_bool (isNaN \<and> \<not> isSNaN)))"

definition f16_max :: "float16 \<Rightarrow> float16 \<Rightarrow> sf_state \<Rightarrow> float16 \<times> sf_state" where
  "f16_max a b s =
     (let (lt, s) = f16_lt_quiet b a s;
          (eq, s) = (if lt then (False, s) else f16_eq b a s);
          greater = (lt \<or> eq \<and> signF16UI (ucast b))
      in if isNaNF16UI (ucast a) \<and> isNaNF16UI (ucast b)
         then (ucast defaultNaNF16UI, s)
         else (if greater \<or> isNaNF16UI (ucast b) then a else b, s))"

definition f16_min :: "float16 \<Rightarrow> float16 \<Rightarrow> sf_state \<Rightarrow> float16 \<times> sf_state" where
  "f16_min a b s =
     (let (lt, s) = f16_lt_quiet a b s;
          (eq, s) = (if lt then (False, s) else f16_eq a b s);
          less = (lt \<or> eq \<and> signF16UI (ucast a))
      in if isNaNF16UI (ucast a) \<and> isNaNF16UI (ucast b)
         then (ucast defaultNaNF16UI, s)
         else (if less \<or> isNaNF16UI (ucast b) then a else b, s))"

subsection \<open>binary32\<close>

definition f32_eq :: "float32 \<Rightarrow> float32 \<Rightarrow> sf_state \<Rightarrow> bool \<times> sf_state" where
  "f32_eq a b s =
     (let uiA = ucast a; uiB = ucast b
      in if isNaNF32UI uiA \<or> isNaNF32UI uiB
         then (False, if softfloat_isSigNaNF32UI uiA \<or> softfloat_isSigNaNF32UI uiB
                      then softfloat_raiseFlags softfloat_flag_invalid s else s)
         else (uiA = uiB \<or> (ucast (push_bit 1 (uiA OR uiB)) :: u32) = 0, s))"

definition f32_eq_signaling :: "float32 \<Rightarrow> float32 \<Rightarrow> sf_state \<Rightarrow> bool \<times> sf_state" where
  "f32_eq_signaling a b s =
     (let uiA = ucast a; uiB = ucast b
      in if isNaNF32UI uiA \<or> isNaNF32UI uiB
         then (False, softfloat_raiseFlags softfloat_flag_invalid s)
         else (uiA = uiB \<or> (ucast (push_bit 1 (uiA OR uiB)) :: u32) = 0, s))"

definition f32_le :: "float32 \<Rightarrow> float32 \<Rightarrow> sf_state \<Rightarrow> bool \<times> sf_state" where
  "f32_le a b s =
     (let uiA = ucast a; uiB = ucast b
      in if isNaNF32UI uiA \<or> isNaNF32UI uiB
         then (False, softfloat_raiseFlags softfloat_flag_invalid s)
         else let signA = signF32UI uiA; signB = signF32UI uiB
              in (if signA \<noteq> signB then signA \<or> (ucast (push_bit 1 (uiA OR uiB)) :: u32) = 0
                else uiA = uiB \<or> signA \<noteq> (uiA < uiB), s))"

definition f32_le_quiet :: "float32 \<Rightarrow> float32 \<Rightarrow> sf_state \<Rightarrow> bool \<times> sf_state" where
  "f32_le_quiet a b s =
     (let uiA = ucast a; uiB = ucast b
      in if isNaNF32UI uiA \<or> isNaNF32UI uiB
         then (False, if softfloat_isSigNaNF32UI uiA \<or> softfloat_isSigNaNF32UI uiB
                      then softfloat_raiseFlags softfloat_flag_invalid s else s)
         else let signA = signF32UI uiA; signB = signF32UI uiB
              in (if signA \<noteq> signB then signA \<or> (ucast (push_bit 1 (uiA OR uiB)) :: u32) = 0
                else uiA = uiB \<or> signA \<noteq> (uiA < uiB), s))"

definition f32_lt :: "float32 \<Rightarrow> float32 \<Rightarrow> sf_state \<Rightarrow> bool \<times> sf_state" where
  "f32_lt a b s =
     (let uiA = ucast a; uiB = ucast b
      in if isNaNF32UI uiA \<or> isNaNF32UI uiB
         then (False, softfloat_raiseFlags softfloat_flag_invalid s)
         else let signA = signF32UI uiA; signB = signF32UI uiB
              in (if signA \<noteq> signB then signA \<and> (ucast (push_bit 1 (uiA OR uiB)) :: u32) \<noteq> 0
                else uiA \<noteq> uiB \<and> signA \<noteq> (uiA < uiB), s))"

definition f32_lt_quiet :: "float32 \<Rightarrow> float32 \<Rightarrow> sf_state \<Rightarrow> bool \<times> sf_state" where
  "f32_lt_quiet a b s =
     (let uiA = ucast a; uiB = ucast b
      in if isNaNF32UI uiA \<or> isNaNF32UI uiB
         then (False, if softfloat_isSigNaNF32UI uiA \<or> softfloat_isSigNaNF32UI uiB
                      then softfloat_raiseFlags softfloat_flag_invalid s else s)
         else let signA = signF32UI uiA; signB = signF32UI uiB
              in (if signA \<noteq> signB then signA \<and> (ucast (push_bit 1 (uiA OR uiB)) :: u32) \<noteq> 0
                else uiA \<noteq> uiB \<and> signA \<noteq> (uiA < uiB), s))"

definition f32_isSignalingNaN :: "float32 \<Rightarrow> bool" where
  "f32_isSignalingNaN a = softfloat_isSigNaNF32UI (ucast a)"

definition f32_classify :: "float32 \<Rightarrow> u64" where
  "f32_classify a =
     (let uiA = ucast a;
          infOrNaN = (expF32UI uiA = 0xFF);
          subnormalOrZero = (expF32UI uiA = 0);
          sign = signF32UI uiA;
          fracZero = (fracF32UI uiA = 0);
          isNaN = isNaNF32UI uiA;
          isSNaN = softfloat_isSigNaNF32UI uiA
      in of_bool (sign \<and> infOrNaN \<and> fracZero) OR
         push_bit 1 (of_bool (sign \<and> \<not> infOrNaN \<and> \<not> subnormalOrZero)) OR
         push_bit 2 (of_bool (sign \<and> subnormalOrZero \<and> \<not> fracZero)) OR
         push_bit 3 (of_bool (sign \<and> subnormalOrZero \<and> fracZero)) OR
         push_bit 7 (of_bool (\<not> sign \<and> infOrNaN \<and> fracZero)) OR
         push_bit 6 (of_bool (\<not> sign \<and> \<not> infOrNaN \<and> \<not> subnormalOrZero)) OR
         push_bit 5 (of_bool (\<not> sign \<and> subnormalOrZero \<and> \<not> fracZero)) OR
         push_bit 4 (of_bool (\<not> sign \<and> subnormalOrZero \<and> fracZero)) OR
         push_bit 8 (of_bool (isNaN \<and> isSNaN)) OR
         push_bit 9 (of_bool (isNaN \<and> \<not> isSNaN)))"

definition f32_max :: "float32 \<Rightarrow> float32 \<Rightarrow> sf_state \<Rightarrow> float32 \<times> sf_state" where
  "f32_max a b s =
     (let (lt, s) = f32_lt_quiet b a s;
          (eq, s) = (if lt then (False, s) else f32_eq b a s);
          greater = (lt \<or> eq \<and> signF32UI (ucast b))
      in if isNaNF32UI (ucast a) \<and> isNaNF32UI (ucast b)
         then (ucast defaultNaNF32UI, s)
         else (if greater \<or> isNaNF32UI (ucast b) then a else b, s))"

definition f32_min :: "float32 \<Rightarrow> float32 \<Rightarrow> sf_state \<Rightarrow> float32 \<times> sf_state" where
  "f32_min a b s =
     (let (lt, s) = f32_lt_quiet a b s;
          (eq, s) = (if lt then (False, s) else f32_eq a b s);
          less = (lt \<or> eq \<and> signF32UI (ucast a))
      in if isNaNF32UI (ucast a) \<and> isNaNF32UI (ucast b)
         then (ucast defaultNaNF32UI, s)
         else (if less \<or> isNaNF32UI (ucast b) then a else b, s))"

subsection \<open>binary64\<close>

definition f64_eq :: "float64 \<Rightarrow> float64 \<Rightarrow> sf_state \<Rightarrow> bool \<times> sf_state" where
  "f64_eq a b s =
     (let uiA = a; uiB = b
      in if isNaNF64UI uiA \<or> isNaNF64UI uiB
         then (False, if softfloat_isSigNaNF64UI uiA \<or> softfloat_isSigNaNF64UI uiB
                      then softfloat_raiseFlags softfloat_flag_invalid s else s)
         else (uiA = uiB \<or> (uiA OR uiB) AND 0x7FFFFFFFFFFFFFFF = 0, s))"

definition f64_eq_signaling :: "float64 \<Rightarrow> float64 \<Rightarrow> sf_state \<Rightarrow> bool \<times> sf_state" where
  "f64_eq_signaling a b s =
     (let uiA = a; uiB = b
      in if isNaNF64UI uiA \<or> isNaNF64UI uiB
         then (False, softfloat_raiseFlags softfloat_flag_invalid s)
         else (uiA = uiB \<or> (uiA OR uiB) AND 0x7FFFFFFFFFFFFFFF = 0, s))"

definition f64_le :: "float64 \<Rightarrow> float64 \<Rightarrow> sf_state \<Rightarrow> bool \<times> sf_state" where
  "f64_le a b s =
     (let uiA = a; uiB = b
      in if isNaNF64UI uiA \<or> isNaNF64UI uiB
         then (False, softfloat_raiseFlags softfloat_flag_invalid s)
         else let signA = signF64UI uiA; signB = signF64UI uiB
              in (if signA \<noteq> signB then signA \<or> (uiA OR uiB) AND 0x7FFFFFFFFFFFFFFF = 0
                else uiA = uiB \<or> signA \<noteq> (uiA < uiB), s))"

definition f64_le_quiet :: "float64 \<Rightarrow> float64 \<Rightarrow> sf_state \<Rightarrow> bool \<times> sf_state" where
  "f64_le_quiet a b s =
     (let uiA = a; uiB = b
      in if isNaNF64UI uiA \<or> isNaNF64UI uiB
         then (False, if softfloat_isSigNaNF64UI uiA \<or> softfloat_isSigNaNF64UI uiB
                      then softfloat_raiseFlags softfloat_flag_invalid s else s)
         else let signA = signF64UI uiA; signB = signF64UI uiB
              in (if signA \<noteq> signB then signA \<or> (uiA OR uiB) AND 0x7FFFFFFFFFFFFFFF = 0
                else uiA = uiB \<or> signA \<noteq> (uiA < uiB), s))"

definition f64_lt :: "float64 \<Rightarrow> float64 \<Rightarrow> sf_state \<Rightarrow> bool \<times> sf_state" where
  "f64_lt a b s =
     (let uiA = a; uiB = b
      in if isNaNF64UI uiA \<or> isNaNF64UI uiB
         then (False, softfloat_raiseFlags softfloat_flag_invalid s)
         else let signA = signF64UI uiA; signB = signF64UI uiB
              in (if signA \<noteq> signB then signA \<and> (uiA OR uiB) AND 0x7FFFFFFFFFFFFFFF \<noteq> 0
                else uiA \<noteq> uiB \<and> signA \<noteq> (uiA < uiB), s))"

definition f64_lt_quiet :: "float64 \<Rightarrow> float64 \<Rightarrow> sf_state \<Rightarrow> bool \<times> sf_state" where
  "f64_lt_quiet a b s =
     (let uiA = a; uiB = b
      in if isNaNF64UI uiA \<or> isNaNF64UI uiB
         then (False, if softfloat_isSigNaNF64UI uiA \<or> softfloat_isSigNaNF64UI uiB
                      then softfloat_raiseFlags softfloat_flag_invalid s else s)
         else let signA = signF64UI uiA; signB = signF64UI uiB
              in (if signA \<noteq> signB then signA \<and> (uiA OR uiB) AND 0x7FFFFFFFFFFFFFFF \<noteq> 0
                else uiA \<noteq> uiB \<and> signA \<noteq> (uiA < uiB), s))"

definition f64_isSignalingNaN :: "float64 \<Rightarrow> bool" where
  "f64_isSignalingNaN a = softfloat_isSigNaNF64UI (a)"

definition f64_classify :: "float64 \<Rightarrow> u64" where
  "f64_classify a =
     (let uiA = a;
          infOrNaN = (expF64UI uiA = 0x7FF);
          subnormalOrZero = (expF64UI uiA = 0);
          sign = signF64UI uiA;
          fracZero = (fracF64UI uiA = 0);
          isNaN = isNaNF64UI uiA;
          isSNaN = softfloat_isSigNaNF64UI uiA
      in of_bool (sign \<and> infOrNaN \<and> fracZero) OR
         push_bit 1 (of_bool (sign \<and> \<not> infOrNaN \<and> \<not> subnormalOrZero)) OR
         push_bit 2 (of_bool (sign \<and> subnormalOrZero \<and> \<not> fracZero)) OR
         push_bit 3 (of_bool (sign \<and> subnormalOrZero \<and> fracZero)) OR
         push_bit 7 (of_bool (\<not> sign \<and> infOrNaN \<and> fracZero)) OR
         push_bit 6 (of_bool (\<not> sign \<and> \<not> infOrNaN \<and> \<not> subnormalOrZero)) OR
         push_bit 5 (of_bool (\<not> sign \<and> subnormalOrZero \<and> \<not> fracZero)) OR
         push_bit 4 (of_bool (\<not> sign \<and> subnormalOrZero \<and> fracZero)) OR
         push_bit 8 (of_bool (isNaN \<and> isSNaN)) OR
         push_bit 9 (of_bool (isNaN \<and> \<not> isSNaN)))"

definition f64_max :: "float64 \<Rightarrow> float64 \<Rightarrow> sf_state \<Rightarrow> float64 \<times> sf_state" where
  "f64_max a b s =
     (let (lt, s) = f64_lt_quiet b a s;
          (eq, s) = (if lt then (False, s) else f64_eq b a s);
          greater = (lt \<or> eq \<and> signF64UI (b))
      in if isNaNF64UI (a) \<and> isNaNF64UI (b)
         then (defaultNaNF64UI, s)
         else (if greater \<or> isNaNF64UI (b) then a else b, s))"

definition f64_min :: "float64 \<Rightarrow> float64 \<Rightarrow> sf_state \<Rightarrow> float64 \<times> sf_state" where
  "f64_min a b s =
     (let (lt, s) = f64_lt_quiet a b s;
          (eq, s) = (if lt then (False, s) else f64_eq a b s);
          less = (lt \<or> eq \<and> signF64UI (a))
      in if isNaNF64UI (a) \<and> isNaNF64UI (b)
         then (defaultNaNF64UI, s)
         else (if less \<or> isNaNF64UI (b) then a else b, s))"

text \<open>The flags of a comparison: quiet comparisons signal only for a signalling NaN.\<close>

definition quiet_flags :: "fmt \<Rightarrow> 'a::len word \<Rightarrow> 'a word \<Rightarrow> sf_state \<Rightarrow> sf_state" where
  "quiet_flags f a b s =
     (if is_snan f a \<or> is_snan f b then softfloat_raiseFlags softfloat_flag_invalid s else s)"

definition signaling_flags :: "fmt \<Rightarrow> 'a::len word \<Rightarrow> 'a word \<Rightarrow> sf_state \<Rightarrow> sf_state" where
  "signaling_flags f a b s =
     (if is_nan f a \<or> is_nan f b then softfloat_raiseFlags softfloat_flag_invalid s else s)"

section \<open>The order of the numbers in their encodings\<close>

lemma signed_compare:
  fixes m n :: nat
  shows "int m = - int n \<longleftrightarrow> m = 0 \<and> n = 0" "- int m = int n \<longleftrightarrow> m = 0 \<and> n = 0"
    "int m \<le> - int n \<longleftrightarrow> m = 0 \<and> n = 0" "- int m \<le> int n"
    "\<not> int m < - int n" "- int m < int n \<longleftrightarrow> \<not> (m = 0 \<and> n = 0)"
  by auto

lemma mag_le_iff: "mag p x \<le> mag p y \<longleftrightarrow> x \<le> y"
  by (simp add: not_less [symmetric])

context float_word
begin

lemma ordinal_bits: "ordinal f (a :: 'w word) = 0 \<longleftrightarrow> (\<forall>i < fracw f + expw f. \<not> bit a i)"
  by (auto simp: ordinal_mod take_bit_eq_mod [symmetric] bit_eq_iff bit_simps)

lemma zero_test:
  fixes a b :: "'w word"
  shows "(ucast (push_bit 1 (ucast a OR ucast b :: u64)) :: 'w word) = 0 \<longleftrightarrow> ordinal f a = 0 \<and> ordinal f b = 0"
proof -
  have "(ucast (push_bit 1 (ucast a OR ucast b :: u64)) :: 'w word) = 0
      \<longleftrightarrow> (\<forall>i < LENGTH('w). 0 < i \<longrightarrow> \<not> bit a (i - 1) \<and> \<not> bit b (i - 1))"
  proof -
    have l: "i < LENGTH('w) \<Longrightarrow> i < 64" for i using width word_length by simp
    have "bit (ucast (push_bit 1 (ucast a OR ucast b :: u64)) :: 'w word) i
        \<longleftrightarrow> i < LENGTH('w) \<and> 0 < i \<and> (bit a (i - 1) \<or> bit b (i - 1))" for i
    proof (cases "i < LENGTH('w)")
      case True
      then show ?thesis using l [of i]
        by (auto simp only: bit_ucast_iff bit_push_bit_iff bit_or_iff possible_bit_word) simp_all
    qed (simp only: bit_ucast_iff possible_bit_word, simp)
    then show ?thesis by (subst bit_eq_iff) auto
  qed
  also have "\<dots> \<longleftrightarrow> (\<forall>j < fracw f + expw f. \<not> bit a j \<and> \<not> bit b j)"
    unfolding word_length by (metis Suc_less_eq diff_Suc_1 gr0_conv_Suc less_Suc_eq_0_disj)
  finally show ?thesis by (auto simp: ordinal_bits)
qed

lemma ucast_eq_iff: "(ucast (a :: 'w word) :: u64) = ucast b \<longleftrightarrow> a = (b :: 'w word)"
  by (simp add: word_eq_iff_unat)

lemma ucast_less_iff: "(ucast (a :: 'w word) :: u64) < ucast b \<longleftrightarrow> unat a < unat (b :: 'w word)"
  by (simp add: word_less_nat_alt)

lemma fvalue_ordinal: "fvalue f (a :: 'w word) = (if negative f a then - int (mag (fracw f) (ordinal f a)) else int (mag (fracw f) (ordinal f a)))"
  by (simp add: fvalue_def magnitude_def)

lemma mag_zero_iff: "mag p x = 0 \<longleftrightarrow> x = 0"
  using mag_eq_iff [of p x 0] by simp

lemma ordinal_less_top: "ordinal f (a :: 'w word) < 2 ^ (fracw f + expw f)"
  by (simp add: ordinal_mod)

lemma compare_eq:
  fixes a b :: "'w word"
  shows "(ucast a :: u64) = ucast b \<or> ordinal f a = 0 \<and> ordinal f b = 0 \<longleftrightarrow> fvalue f a = fvalue f b"
  using unat_split [of a] unat_split [of b] ordinal_less_top [of a] ordinal_less_top [of b]
  by (cases "negative f a"; cases "negative f b")
    (auto simp: ucast_eq_iff word_eq_iff_unat fvalue_ordinal mag_zero_iff sign_ord_def signed_compare)

lemma compare_le:
  fixes a b :: "'w word"
  shows "(if negative f a \<noteq> negative f b then negative f a \<or> ordinal f a = 0 \<and> ordinal f b = 0
      else (ucast a :: u64) = ucast b \<or> negative f a \<noteq> ((ucast a :: u64) < ucast b)) \<longleftrightarrow> fvalue f a \<le> fvalue f b"
  using unat_split [of a] unat_split [of b]
  by (cases "negative f a"; cases "negative f b")
    (auto simp: ucast_eq_iff ucast_less_iff word_eq_iff_unat fvalue_ordinal mag_zero_iff sign_ord_def signed_compare
      mag_le_iff)

lemma compare_lt:
  fixes a b :: "'w word"
  shows "(if negative f a \<noteq> negative f b then negative f a \<and> \<not> (ordinal f a = 0 \<and> ordinal f b = 0)
      else (ucast a :: u64) \<noteq> ucast b \<and> negative f a \<noteq> ((ucast a :: u64) < ucast b)) \<longleftrightarrow> fvalue f a < fvalue f b"
  using unat_split [of a] unat_split [of b]
  by (cases "negative f a"; cases "negative f b")
    (auto simp: ucast_eq_iff ucast_less_iff word_eq_iff_unat fvalue_ordinal mag_zero_iff sign_ord_def signed_compare)

end

lemma zero_test_64: "(a OR b) AND 0x7FFFFFFFFFFFFFFF = 0 \<longleftrightarrow> ordinal binary64 a = 0 \<and> ordinal binary64 (b :: u64) = 0"
proof -
  have "(a OR b) AND mask 63 = 0 \<longleftrightarrow> a AND mask 63 = 0 \<and> b AND mask 63 = 0"
    by (auto simp: bit_eq_iff bit_simps)
  then show ?thesis
    using unat_and_mask [of a 63] unat_and_mask [of b 63] by (simp add: mask_eq_exp_minus_1 word_eq_0_iff ordinal_def)
qed

lemma f16_quiet:
  "f16_eq a b s = (ieee_eq binary16 a b, quiet_flags binary16 a b s)"
  "f16_le_quiet a b s = (ieee_le binary16 a b, quiet_flags binary16 a b s)"
  "f16_lt_quiet a b s = (ieee_lt binary16 a b, quiet_flags binary16 a b s)"
  using w16.compare_eq [of a b] w16.compare_le [of a b] w16.compare_lt [of a b]
  by (auto simp: f16_eq_def f16_le_quiet_def f16_lt_quiet_def ieee_eq_def ieee_le_def ieee_lt_def is_snan_def
      quiet_flags_def Let_def c16.isNaN_law c16.isSigNaN_law w16.zero_test [simplified])

lemma f16_signaling:
  "f16_eq_signaling a b s = (ieee_eq binary16 a b, signaling_flags binary16 a b s)"
  "f16_le a b s = (ieee_le binary16 a b, signaling_flags binary16 a b s)"
  "f16_lt a b s = (ieee_lt binary16 a b, signaling_flags binary16 a b s)"
  using w16.compare_eq [of a b] w16.compare_le [of a b] w16.compare_lt [of a b]
  by (auto simp: f16_eq_signaling_def f16_le_def f16_lt_def ieee_eq_def ieee_le_def ieee_lt_def
      signaling_flags_def Let_def c16.isNaN_law c16.isSigNaN_law w16.zero_test [simplified])

lemma f16_compare_correct:
  "f16_eq a b s = (ieee_eq binary16 a b, quiet_flags binary16 a b s)
    \<and> f16_le_quiet a b s = (ieee_le binary16 a b, quiet_flags binary16 a b s)
    \<and> f16_lt_quiet a b s = (ieee_lt binary16 a b, quiet_flags binary16 a b s)
    \<and> f16_eq_signaling a b s = (ieee_eq binary16 a b, signaling_flags binary16 a b s)
    \<and> f16_le a b s = (ieee_le binary16 a b, signaling_flags binary16 a b s)
    \<and> f16_lt a b s = (ieee_lt binary16 a b, signaling_flags binary16 a b s)"
  by (simp only: f16_quiet f16_signaling simp_thms)

lemma f32_quiet:
  "f32_eq a b s = (ieee_eq binary32 a b, quiet_flags binary32 a b s)"
  "f32_le_quiet a b s = (ieee_le binary32 a b, quiet_flags binary32 a b s)"
  "f32_lt_quiet a b s = (ieee_lt binary32 a b, quiet_flags binary32 a b s)"
  using w32.compare_eq [of a b] w32.compare_le [of a b] w32.compare_lt [of a b]
  by (auto simp: f32_eq_def f32_le_quiet_def f32_lt_quiet_def ieee_eq_def ieee_le_def ieee_lt_def is_snan_def
      quiet_flags_def Let_def c32.isNaN_law c32.isSigNaN_law w32.zero_test [simplified])

lemma f32_signaling:
  "f32_eq_signaling a b s = (ieee_eq binary32 a b, signaling_flags binary32 a b s)"
  "f32_le a b s = (ieee_le binary32 a b, signaling_flags binary32 a b s)"
  "f32_lt a b s = (ieee_lt binary32 a b, signaling_flags binary32 a b s)"
  using w32.compare_eq [of a b] w32.compare_le [of a b] w32.compare_lt [of a b]
  by (auto simp: f32_eq_signaling_def f32_le_def f32_lt_def ieee_eq_def ieee_le_def ieee_lt_def
      signaling_flags_def Let_def c32.isNaN_law c32.isSigNaN_law w32.zero_test [simplified])

lemma f32_compare_correct:
  "f32_eq a b s = (ieee_eq binary32 a b, quiet_flags binary32 a b s)
    \<and> f32_le_quiet a b s = (ieee_le binary32 a b, quiet_flags binary32 a b s)
    \<and> f32_lt_quiet a b s = (ieee_lt binary32 a b, quiet_flags binary32 a b s)
    \<and> f32_eq_signaling a b s = (ieee_eq binary32 a b, signaling_flags binary32 a b s)
    \<and> f32_le a b s = (ieee_le binary32 a b, signaling_flags binary32 a b s)
    \<and> f32_lt a b s = (ieee_lt binary32 a b, signaling_flags binary32 a b s)"
  by (simp only: f32_quiet f32_signaling simp_thms)

lemma f64_quiet:
  "f64_eq a b s = (ieee_eq binary64 a b, quiet_flags binary64 a b s)"
  "f64_le_quiet a b s = (ieee_le binary64 a b, quiet_flags binary64 a b s)"
  "f64_lt_quiet a b s = (ieee_lt binary64 a b, quiet_flags binary64 a b s)"
  using w64.compare_eq [of a b, simplified] w64.compare_le [of a b, simplified] w64.compare_lt [of a b, simplified]
  by (auto simp: f64_eq_def f64_le_quiet_def f64_lt_quiet_def ieee_eq_def ieee_le_def ieee_lt_def is_snan_def
      quiet_flags_def Let_def c64.isNaN_law c64.isSigNaN_law zero_test_64 w64.sgn_wide [simplified])

lemma f64_signaling:
  "f64_eq_signaling a b s = (ieee_eq binary64 a b, signaling_flags binary64 a b s)"
  "f64_le a b s = (ieee_le binary64 a b, signaling_flags binary64 a b s)"
  "f64_lt a b s = (ieee_lt binary64 a b, signaling_flags binary64 a b s)"
  using w64.compare_eq [of a b, simplified] w64.compare_le [of a b, simplified] w64.compare_lt [of a b, simplified]
  by (auto simp: f64_eq_signaling_def f64_le_def f64_lt_def ieee_eq_def ieee_le_def ieee_lt_def
      signaling_flags_def Let_def c64.isNaN_law c64.isSigNaN_law zero_test_64 w64.sgn_wide [simplified])

lemma f64_compare_correct:
  "f64_eq a b s = (ieee_eq binary64 a b, quiet_flags binary64 a b s)
    \<and> f64_le_quiet a b s = (ieee_le binary64 a b, quiet_flags binary64 a b s)
    \<and> f64_lt_quiet a b s = (ieee_lt binary64 a b, quiet_flags binary64 a b s)
    \<and> f64_eq_signaling a b s = (ieee_eq binary64 a b, signaling_flags binary64 a b s)
    \<and> f64_le a b s = (ieee_le binary64 a b, signaling_flags binary64 a b s)
    \<and> f64_lt a b s = (ieee_lt binary64 a b, signaling_flags binary64 a b s)"
  by (simp only: f64_quiet f64_signaling simp_thms)

section \<open>Maximum, minimum, classification\<close>

definition ieee_max :: "fmt \<Rightarrow> 'a::len word \<Rightarrow> 'a word \<Rightarrow> sf_state \<Rightarrow> 'a word \<times> sf_state" where
  "ieee_max f a b s =
     (if is_nan f a \<and> is_nan f b then fst (nan_result f False s)
      else if is_nan f b then a
      else if is_nan f a then b
      else if fvalue f b < fvalue f a \<or> fvalue f a = fvalue f b \<and> negative f b then a else b,
      quiet_flags f a b s)"

definition ieee_min :: "fmt \<Rightarrow> 'a::len word \<Rightarrow> 'a word \<Rightarrow> sf_state \<Rightarrow> 'a word \<times> sf_state" where
  "ieee_min f a b s =
     (if is_nan f a \<and> is_nan f b then fst (nan_result f False s)
      else if is_nan f b then a
      else if is_nan f a then b
      else if fvalue f a < fvalue f b \<or> fvalue f a = fvalue f b \<and> negative f a then a else b,
      quiet_flags f a b s)"

text \<open>The ten classes of \<open>fclass\<close>, by the bit the instruction sets.\<close>

definition ieee_class :: "fmt \<Rightarrow> 'a::len word \<Rightarrow> nat" where
  "ieee_class f a =
     (if is_nan f a then (if is_snan f a then 8 else 9)
      else if is_inf f a then (if negative f a then 0 else 7)
      else if ordinal f a = 0 then (if negative f a then 3 else 4)
      else if ordinal f a < 2 ^ fracw f then (if negative f a then 2 else 5)
      else (if negative f a then 1 else 6))"

lemma quiet_flags_idem:
  "quiet_flags f a b (quiet_flags f a b s) = quiet_flags f a b s" "quiet_flags f b a s = quiet_flags f a b s"
  by (auto simp: quiet_flags_def softfloat_raiseFlags_def or.assoc)

lemma nan_bits:
  "ucast defaultNaNF16UI = fst (nan_result binary16 False s)" "ucast defaultNaNF32UI = fst (nan_result binary32 False s)"
  "defaultNaNF64UI = fst (nan_result binary64 False s)"
  using c64.nan_pair [of False s, where 'w = 64, symmetric]
  by (simp_all add: c16.nan_pair [of False s, symmetric] c32.nan_pair [of False s, symmetric])

context float_word
begin

lemma exponent_ordinal: "ex (ucast (a :: 'w word)) = 0 \<longleftrightarrow> ordinal f a < 2 ^ fracw f"
proof -
  have "ordinal f a < 2 ^ fracw f \<longleftrightarrow> nat (ex (ucast a)) = 0"
    unfolding ordinal_wide using fr_less [of "ucast a"] by (cases "nat (ex (ucast a))") auto
  then show ?thesis using ex_nonneg [of "ucast a"] by simp
qed

lemma subnormal_ordinal: "ex (ucast (a :: 'w word)) = 0 \<Longrightarrow> fr (ucast a) = 0 \<longleftrightarrow> ordinal f a = 0"
  by (simp add: ordinal_wide word_eq_0_iff)

end

lemma f16_max_result: "f16_max a b s = ieee_max binary16 a b s"
  by (auto simp: f16_max_def ieee_max_def Let_def f16_quiet quiet_flags_idem nan_bits c16.isNaN_law ieee_lt_def ieee_eq_def)

lemma f16_min_result: "f16_min a b s = ieee_min binary16 a b s"
  by (auto simp: f16_min_def ieee_min_def Let_def f16_quiet quiet_flags_idem nan_bits c16.isNaN_law ieee_lt_def ieee_eq_def)

lemma f16_classify_result: "f16_classify a = push_bit (ieee_class binary16 a) 1"
  using w16.exponent_ordinal [of a] w16.subnormal_ordinal [of a]
  by (cases a rule: w16.operand_cases)
    (auto simp: f16_classify_def ieee_class_def Let_def c16.isNaN_law c16.isSigNaN_law is_snan_def)

lemma f32_max_result: "f32_max a b s = ieee_max binary32 a b s"
  by (auto simp: f32_max_def ieee_max_def Let_def f32_quiet quiet_flags_idem nan_bits c32.isNaN_law ieee_lt_def ieee_eq_def)

lemma f32_min_result: "f32_min a b s = ieee_min binary32 a b s"
  by (auto simp: f32_min_def ieee_min_def Let_def f32_quiet quiet_flags_idem nan_bits c32.isNaN_law ieee_lt_def ieee_eq_def)

lemma f32_classify_result: "f32_classify a = push_bit (ieee_class binary32 a) 1"
  using w32.exponent_ordinal [of a] w32.subnormal_ordinal [of a]
  by (cases a rule: w32.operand_cases)
    (auto simp: f32_classify_def ieee_class_def Let_def c32.isNaN_law c32.isSigNaN_law is_snan_def)

lemma f64_max_result: "f64_max a b s = ieee_max binary64 a b s"
  by (auto simp: f64_max_def ieee_max_def Let_def f64_quiet quiet_flags_idem nan_bits c64.isNaN_law ieee_lt_def ieee_eq_def w64.sgn_wide [simplified])

lemma f64_min_result: "f64_min a b s = ieee_min binary64 a b s"
  by (auto simp: f64_min_def ieee_min_def Let_def f64_quiet quiet_flags_idem nan_bits c64.isNaN_law ieee_lt_def ieee_eq_def w64.sgn_wide [simplified])

lemma f64_classify_result: "f64_classify a = push_bit (ieee_class binary64 a) 1"
  using w64.exponent_ordinal [of a, simplified] w64.subnormal_ordinal [of a, simplified]
  by (cases a rule: w64.operand_cases [simplified])
    (auto simp: f64_classify_def ieee_class_def Let_def c64.isNaN_law c64.isSigNaN_law is_snan_def w64.sgn_wide [simplified])

section \<open>Properties\<close>

lemma f16_maxmin_correct: "f16_max a b s = ieee_max binary16 a b s \<and> f16_min a b s = ieee_min binary16 a b s"
  by (simp only: f16_max_result f16_min_result simp_thms)

lemma f32_maxmin_correct: "f32_max a b s = ieee_max binary32 a b s \<and> f32_min a b s = ieee_min binary32 a b s"
  by (simp only: f32_max_result f32_min_result simp_thms)

lemma f64_maxmin_correct: "f64_max a b s = ieee_max binary64 a b s \<and> f64_min a b s = ieee_min binary64 a b s"
  by (simp only: f64_max_result f64_min_result simp_thms)

lemma classify_correct:
  "f16_classify a = push_bit (ieee_class binary16 a) 1 \<and> f32_classify b = push_bit (ieee_class binary32 b) 1
    \<and> f64_classify c = push_bit (ieee_class binary64 c) 1"
  by (simp only: f16_classify_result f32_classify_result f64_classify_result simp_thms)

lemma compare_correct:
  "f16_eq a1 b1 s = (ieee_eq binary16 a1 b1, quiet_flags binary16 a1 b1 s)
    \<and> f16_le_quiet a1 b1 s = (ieee_le binary16 a1 b1, quiet_flags binary16 a1 b1 s)
    \<and> f16_lt_quiet a1 b1 s = (ieee_lt binary16 a1 b1, quiet_flags binary16 a1 b1 s)
    \<and> f16_eq_signaling a1 b1 s = (ieee_eq binary16 a1 b1, signaling_flags binary16 a1 b1 s)
    \<and> f16_le a1 b1 s = (ieee_le binary16 a1 b1, signaling_flags binary16 a1 b1 s)
    \<and> f16_lt a1 b1 s = (ieee_lt binary16 a1 b1, signaling_flags binary16 a1 b1 s)
    \<and> f32_eq a2 b2 s = (ieee_eq binary32 a2 b2, quiet_flags binary32 a2 b2 s)
    \<and> f32_le_quiet a2 b2 s = (ieee_le binary32 a2 b2, quiet_flags binary32 a2 b2 s)
    \<and> f32_lt_quiet a2 b2 s = (ieee_lt binary32 a2 b2, quiet_flags binary32 a2 b2 s)
    \<and> f32_eq_signaling a2 b2 s = (ieee_eq binary32 a2 b2, signaling_flags binary32 a2 b2 s)
    \<and> f32_le a2 b2 s = (ieee_le binary32 a2 b2, signaling_flags binary32 a2 b2 s)
    \<and> f32_lt a2 b2 s = (ieee_lt binary32 a2 b2, signaling_flags binary32 a2 b2 s)
    \<and> f64_eq a3 b3 s = (ieee_eq binary64 a3 b3, quiet_flags binary64 a3 b3 s)
    \<and> f64_le_quiet a3 b3 s = (ieee_le binary64 a3 b3, quiet_flags binary64 a3 b3 s)
    \<and> f64_lt_quiet a3 b3 s = (ieee_lt binary64 a3 b3, quiet_flags binary64 a3 b3 s)
    \<and> f64_eq_signaling a3 b3 s = (ieee_eq binary64 a3 b3, signaling_flags binary64 a3 b3 s)
    \<and> f64_le a3 b3 s = (ieee_le binary64 a3 b3, signaling_flags binary64 a3 b3 s)
    \<and> f64_lt a3 b3 s = (ieee_lt binary64 a3 b3, signaling_flags binary64 a3 b3 s)"
  by (simp only: f16_compare_correct f32_compare_correct f64_compare_correct simp_thms)

lemma maxmin_correct:
  "f16_max a1 b1 s = ieee_max binary16 a1 b1 s
    \<and> f16_min a1 b1 s = ieee_min binary16 a1 b1 s
    \<and> f32_max a2 b2 s = ieee_max binary32 a2 b2 s
    \<and> f32_min a2 b2 s = ieee_min binary32 a2 b2 s
    \<and> f64_max a3 b3 s = ieee_max binary64 a3 b3 s
    \<and> f64_min a3 b3 s = ieee_min binary64 a3 b3 s"
  by (simp only: f16_maxmin_correct f32_maxmin_correct f64_maxmin_correct simp_thms)

text \<open>C32: The eighteen comparisons of binary16, binary32 and binary64 decide equality and order
  of the exact values (zeros equal, NaNs unordered); the quiet ones raise invalid for
  signalling NaNs only, the signalling ones for every NaN. The maximum and minimum of the
  three formats ignore one NaN operand, return the default NaN for two, order -0 below +0,
  and raise invalid for signalling NaNs. The three classify functions set exactly one bit,
  the one of the class (sign, infinite, normal, subnormal, zero, quiet or signalling NaN)
  the operand belongs to.\<close>

theorem comparisons_correct:
  "f16_eq a1 b1 s = (ieee_eq binary16 a1 b1, quiet_flags binary16 a1 b1 s)
    \<and> f16_le_quiet a1 b1 s = (ieee_le binary16 a1 b1, quiet_flags binary16 a1 b1 s)
    \<and> f16_lt_quiet a1 b1 s = (ieee_lt binary16 a1 b1, quiet_flags binary16 a1 b1 s)
    \<and> f16_eq_signaling a1 b1 s = (ieee_eq binary16 a1 b1, signaling_flags binary16 a1 b1 s)
    \<and> f16_le a1 b1 s = (ieee_le binary16 a1 b1, signaling_flags binary16 a1 b1 s)
    \<and> f16_lt a1 b1 s = (ieee_lt binary16 a1 b1, signaling_flags binary16 a1 b1 s)
    \<and> f32_eq a2 b2 s = (ieee_eq binary32 a2 b2, quiet_flags binary32 a2 b2 s)
    \<and> f32_le_quiet a2 b2 s = (ieee_le binary32 a2 b2, quiet_flags binary32 a2 b2 s)
    \<and> f32_lt_quiet a2 b2 s = (ieee_lt binary32 a2 b2, quiet_flags binary32 a2 b2 s)
    \<and> f32_eq_signaling a2 b2 s = (ieee_eq binary32 a2 b2, signaling_flags binary32 a2 b2 s)
    \<and> f32_le a2 b2 s = (ieee_le binary32 a2 b2, signaling_flags binary32 a2 b2 s)
    \<and> f32_lt a2 b2 s = (ieee_lt binary32 a2 b2, signaling_flags binary32 a2 b2 s)
    \<and> f64_eq a3 b3 s = (ieee_eq binary64 a3 b3, quiet_flags binary64 a3 b3 s)
    \<and> f64_le_quiet a3 b3 s = (ieee_le binary64 a3 b3, quiet_flags binary64 a3 b3 s)
    \<and> f64_lt_quiet a3 b3 s = (ieee_lt binary64 a3 b3, quiet_flags binary64 a3 b3 s)
    \<and> f64_eq_signaling a3 b3 s = (ieee_eq binary64 a3 b3, signaling_flags binary64 a3 b3 s)
    \<and> f64_le a3 b3 s = (ieee_le binary64 a3 b3, signaling_flags binary64 a3 b3 s)
    \<and> f64_lt a3 b3 s = (ieee_lt binary64 a3 b3, signaling_flags binary64 a3 b3 s)
    \<and> f16_max a1 b1 s = ieee_max binary16 a1 b1 s
    \<and> f16_min a1 b1 s = ieee_min binary16 a1 b1 s
    \<and> f32_max a2 b2 s = ieee_max binary32 a2 b2 s
    \<and> f32_min a2 b2 s = ieee_min binary32 a2 b2 s
    \<and> f64_max a3 b3 s = ieee_max binary64 a3 b3 s
    \<and> f64_min a3 b3 s = ieee_min binary64 a3 b3 s
    \<and> f16_classify a = push_bit (ieee_class binary16 a) 1 \<and> f32_classify b = push_bit (ieee_class binary32 b) 1
    \<and> f64_classify c = push_bit (ieee_class binary64 c) 1"
  by (simp only: compare_correct maxmin_correct classify_correct simp_thms)

end
