(* ===== verification/SF_RemRound.thy ===== *)
theory SF_RemRound
  imports IEEE_Spec
begin

text \<open>
  Remainder (\<open>f*_rem.c\<close>) and rounding to an integral value (\<open>f*_roundToInt.c\<close>) for
  binary16, binary32 and binary64.
\<close>

section \<open>Remainder\<close>

text \<open>
  The quotient loop \<open>for (;;)\<close> stops when \<open>expDiff\<close> is negative; the adjustment loop
  \<open>do ... while\<close> stops when the sign bit of \<open>rem\<close> is set, which depends on the values, so
  it is a partial function with the result \<open>None\<close> when it runs forever.
\<close>

function f16_rem_loop :: "u16 \<Rightarrow> u32 \<Rightarrow> u64 \<Rightarrow> int \<Rightarrow> u16 \<times> u32 \<times> int" where
  "f16_rem_loop rem recip32 sigB expDiff =
     (let q32 = (ucast (drop_bit 16 (ucast rem * ucast recip32 :: u64)) :: u32)
      in if expDiff < 0 then (rem, q32, expDiff)
         else f16_rem_loop (ucast (- (ucast q32 * sigB))) recip32 sigB (int8 (expDiff - 29)))"
  by pat_completeness auto
termination
proof (relation "measure (\<lambda>(_, _, _, e). nat (e + 1))")
  fix rem :: u16 and recip32 :: u32 and sigB :: u64 and e :: int and q :: u32
  assume "\<not> e < 0"
  then have "int8 (e - 29) < e"
    by (cases "e < 157") (auto simp: int8_less)
  then show "((ucast (- (ucast q * sigB)), recip32, sigB, int8 (e - 29)), rem, recip32, sigB, e)
    \<in> measure (\<lambda>(_, _, _, e). nat (e + 1))"
    using \<open>\<not> e < 0\<close> by simp
qed simp

function f32_rem_loop :: "u32 \<Rightarrow> u32 \<Rightarrow> u64 \<Rightarrow> int \<Rightarrow> u32 \<times> u32 \<times> int" where
  "f32_rem_loop rem recip32 sigB expDiff =
     (let q = (ucast (drop_bit 32 (ucast rem * ucast recip32 :: u64)) :: u32)
      in if expDiff < 0 then (rem, q, expDiff)
         else f32_rem_loop (- (q * ucast sigB)) recip32 sigB (expDiff - 29))"
  by pat_completeness auto
termination by (relation "measure (\<lambda>(_, _, _, e). nat (e + 1))") auto

function f64_rem_loop :: "u64 \<Rightarrow> u32 \<Rightarrow> u64 \<Rightarrow> int \<Rightarrow> u64 \<times> u64 \<times> int" where
  "f64_rem_loop rem recip32 sigB expDiff =
     (let q64 = ucast (ucast (drop_bit 32 rem) :: u32) * ucast recip32
      in if expDiff < 0 then (rem, q64, expDiff)
         else let q = (ucast (drop_bit 32 (q64 + 0x80000000)) :: u32);
                  rem = push_bit 29 rem - ucast q * sigB;
                  rem = (if rem AND 0x8000000000000000 \<noteq> 0 then rem + sigB else rem)
              in f64_rem_loop rem recip32 sigB (expDiff - 29))"
  by pat_completeness auto
termination by (relation "measure (\<lambda>(_, _, _, e). nat (e + 1))") auto

partial_function (option) f16_rem_adjust ::
  "u16 \<Rightarrow> u64 \<Rightarrow> u64 \<Rightarrow> (u16 \<times> u16 \<times> u64) option" where
  "f16_rem_adjust rem q sigB =
     (let altRem = rem;
          q = q + 1;
          rem = rem - ucast sigB
      in if rem AND 0x8000 = 0 then f16_rem_adjust rem q sigB
         else Some (rem, altRem, q))"

definition f16_rem_select ::
  "bool \<Rightarrow> int \<Rightarrow> u16 \<Rightarrow> u16 \<Rightarrow> u64 \<Rightarrow> sf_state \<Rightarrow> float16 \<times> sf_state" where
  "f16_rem_select signA expB rem altRem q s =
     (let meanRem = rem + altRem;
          rem = (if meanRem AND 0x8000 \<noteq> 0 \<or> meanRem = 0 \<and> q AND 1 \<noteq> 0 then altRem else rem);
          (signRem, rem) = (if 0x8000 \<le> rem then (\<not> signA, - rem) else (signA, rem))
      in softfloat_normRoundPackToF16 signRem expB (ucast rem) s)"

partial_function (option) f32_rem_adjust ::
  "u32 \<Rightarrow> u32 \<Rightarrow> u64 \<Rightarrow> (u32 \<times> u32 \<times> u32) option" where
  "f32_rem_adjust rem q sigB =
     (let altRem = rem;
          q = q + 1;
          rem = rem - ucast sigB
      in if rem AND 0x80000000 = 0 then f32_rem_adjust rem q sigB
         else Some (rem, altRem, q))"

definition f32_rem_select ::
  "bool \<Rightarrow> int \<Rightarrow> u32 \<Rightarrow> u32 \<Rightarrow> u32 \<Rightarrow> sf_state \<Rightarrow> float32 \<times> sf_state" where
  "f32_rem_select signA expB rem altRem q s =
     (let meanRem = rem + altRem;
          rem = (if meanRem AND 0x80000000 \<noteq> 0 \<or> meanRem = 0 \<and> q AND 1 \<noteq> 0 then altRem else rem);
          (signRem, rem) = (if 0x80000000 \<le> rem then (\<not> signA, - rem) else (signA, rem))
      in softfloat_normRoundPackToF32 signRem expB (ucast rem) s)"

partial_function (option) f64_rem_adjust ::
  "u64 \<Rightarrow> u32 \<Rightarrow> u64 \<Rightarrow> (u64 \<times> u64 \<times> u32) option" where
  "f64_rem_adjust rem q sigB =
     (let altRem = rem;
          q = q + 1;
          rem = rem - sigB
      in if rem AND 0x8000000000000000 = 0 then f64_rem_adjust rem q sigB
         else Some (rem, altRem, q))"

definition f64_rem_select ::
  "bool \<Rightarrow> int \<Rightarrow> u64 \<Rightarrow> u64 \<Rightarrow> u32 \<Rightarrow> sf_state \<Rightarrow> float64 \<times> sf_state" where
  "f64_rem_select signA expB rem altRem q s =
     (let meanRem = rem + altRem;
          rem = (if meanRem AND 0x8000000000000000 \<noteq> 0 \<or> meanRem = 0 \<and> q AND 1 \<noteq> 0 then altRem else rem);
          (signRem, rem) = (if rem AND 0x8000000000000000 \<noteq> 0 then (\<not> signA, - rem) else (signA, rem))
      in softfloat_normRoundPackToF64 signRem expB rem s)"

definition f16_rem :: "float16 \<Rightarrow> float16 \<Rightarrow> sf_state \<Rightarrow> (float16 \<times> sf_state) option" where
  "f16_rem a b s =
     (let uiA = ucast a;
          signA = signF16UI uiA;
          expA = expF16UI uiA;
          sigA = fracF16UI uiA;
          uiB = ucast b;
          expB = expF16UI uiB;
          sigB = fracF16UI uiB;
          propagateNaN = Some (let (uiZ, s) = softfloat_propagateNaNF16UI uiA uiB s in (ucast uiZ, s));
          invalid = Some (ucast defaultNaNF16UI, softfloat_raiseFlags softfloat_flag_invalid s)
      in if expA = 0x1F
         then if sigA \<noteq> 0 \<or> expB = 0x1F \<and> sigB \<noteq> 0 then propagateNaN else invalid
         else if expB = 0x1F
         then if sigB \<noteq> 0 then propagateNaN else Some (a, s)
         else if expB = 0 \<and> sigB = 0 then invalid
         else let (expB, sigB) = (if expB = 0
                    then let normExpSig = softfloat_normSubnormalF16Sig sigB
                         in (es16_exp normExpSig, es16_sig normExpSig)
                    else (expB, sigB))
         in if expA = 0 \<and> sigA = 0 then Some (a, s)
         else let (expA, sigA) = (if expA = 0
                    then let normExpSig = softfloat_normSubnormalF16Sig sigA
                         in (es16_exp normExpSig, es16_sig normExpSig)
                    else (expA, sigA));
                  rem = (ucast (sigA OR 0x0400) :: u16);
                  sigB = sigB OR 0x0400;
                  expDiff = int8 (expA - expB)
         in if expDiff < 1
         then if expDiff < - 1 then Some (a, s)
              else let sigB = push_bit 3 sigB;
                       (rem, q) = (if expDiff \<noteq> 0 then (push_bit 2 rem, 0)
                         else let rem = push_bit 3 rem
                              in if sigB \<le> ucast rem then (rem - ucast sigB, 1) else (rem, 0))
                   in map_option (\<lambda>(rem, altRem, q). f16_rem_select signA expB rem altRem q s)
                        (f16_rem_adjust rem q sigB)
         else let recip32 = softfloat_approxRecip32_1 (ucast (push_bit 21 sigB));
                  rem = push_bit 4 rem;
                  expDiff = int8 (expDiff - 31);
                  sigB = push_bit 3 sigB;
                  (rem, q32, expDiff) = f16_rem_loop rem recip32 sigB expDiff;
                  q32 = drop_bit (nat ((NOT expDiff) AND 31)) q32;
                  q = (ucast q32 :: u64);
                  rem = (ucast (push_bit (nat (expDiff + 30)) (ucast rem) - q * sigB) :: u16)
              in map_option (\<lambda>(rem, altRem, q). f16_rem_select signA expB rem altRem q s)
                   (f16_rem_adjust rem q sigB))"

definition f32_rem :: "float32 \<Rightarrow> float32 \<Rightarrow> sf_state \<Rightarrow> (float32 \<times> sf_state) option" where
  "f32_rem a b s =
     (let uiA = ucast a;
          signA = signF32UI uiA;
          expA = expF32UI uiA;
          sigA = fracF32UI uiA;
          uiB = ucast b;
          expB = expF32UI uiB;
          sigB = fracF32UI uiB;
          propagateNaN = Some (let (uiZ, s) = softfloat_propagateNaNF32UI uiA uiB s in (ucast uiZ, s));
          invalid = Some (ucast defaultNaNF32UI, softfloat_raiseFlags softfloat_flag_invalid s)
      in if expA = 0xFF
         then if sigA \<noteq> 0 \<or> expB = 0xFF \<and> sigB \<noteq> 0 then propagateNaN else invalid
         else if expB = 0xFF
         then if sigB \<noteq> 0 then propagateNaN else Some (a, s)
         else if expB = 0 \<and> sigB = 0 then invalid
         else let (expB, sigB) = (if expB = 0
                    then let normExpSig = softfloat_normSubnormalF32Sig sigB
                         in (es32_exp normExpSig, es32_sig normExpSig)
                    else (expB, sigB))
         in if expA = 0 \<and> sigA = 0 then Some (a, s)
         else let (expA, sigA) = (if expA = 0
                    then let normExpSig = softfloat_normSubnormalF32Sig sigA
                         in (es32_exp normExpSig, es32_sig normExpSig)
                    else (expA, sigA));
                  rem = (ucast (sigA OR 0x00800000) :: u32);
                  sigB = sigB OR 0x00800000;
                  expDiff = expA - expB
         in if expDiff < 1
         then if expDiff < - 1 then Some (a, s)
              else let sigB = push_bit 6 sigB;
                       (rem, q) = (if expDiff \<noteq> 0 then (push_bit 5 rem, 0)
                         else let rem = push_bit 6 rem
                              in if sigB \<le> ucast rem then (rem - ucast sigB, 1) else (rem, 0))
                   in map_option (\<lambda>(rem, altRem, q). f32_rem_select signA expB rem altRem q s)
                        (f32_rem_adjust rem q sigB)
         else let recip32 = softfloat_approxRecip32_1 (ucast (push_bit 8 sigB));
                  rem = push_bit 7 rem;
                  expDiff = expDiff - 31;
                  sigB = push_bit 6 sigB;
                  (rem, q, expDiff) = f32_rem_loop rem recip32 sigB expDiff;
                  q = drop_bit (nat ((NOT expDiff) AND 31)) q;
                  rem = push_bit (nat (expDiff + 30)) rem - q * ucast sigB
              in map_option (\<lambda>(rem, altRem, q). f32_rem_select signA expB rem altRem q s)
                   (f32_rem_adjust rem q sigB))"

definition f64_rem :: "float64 \<Rightarrow> float64 \<Rightarrow> sf_state \<Rightarrow> (float64 \<times> sf_state) option" where
  "f64_rem a b s =
     (let uiA = a;
          signA = signF64UI uiA;
          expA = expF64UI uiA;
          sigA = fracF64UI uiA;
          uiB = b;
          expB = expF64UI uiB;
          sigB = fracF64UI uiB;
          propagateNaN = Some (softfloat_propagateNaNF64UI uiA uiB s);
          invalid = Some (defaultNaNF64UI, softfloat_raiseFlags softfloat_flag_invalid s)
      in if expA = 0x7FF
         then if sigA \<noteq> 0 \<or> expB = 0x7FF \<and> sigB \<noteq> 0 then propagateNaN else invalid
         else if expB = 0x7FF
         then if sigB \<noteq> 0 then propagateNaN else Some (a, s)
         else if expA < expB - 1 then Some (a, s)
         else if expB = 0 \<and> sigB = 0 then invalid
         else let (expB, sigB) = (if expB = 0
                    then let normExpSig = softfloat_normSubnormalF64Sig sigB
                         in (es64_exp normExpSig, es64_sig normExpSig)
                    else (expB, sigB))
         in if expA = 0 \<and> sigA = 0 then Some (a, s)
         else let (expA, sigA) = (if expA = 0
                    then let normExpSig = softfloat_normSubnormalF64Sig sigA
                         in (es64_exp normExpSig, es64_sig normExpSig)
                    else (expA, sigA));
                  rem = sigA OR 0x0010000000000000;
                  sigB = sigB OR 0x0010000000000000;
                  expDiff = expA - expB
         in if expDiff < 1
         then if expDiff < - 1 then Some (a, s)
              else let sigB = push_bit 9 sigB;
                       (rem, q) = (if expDiff \<noteq> 0 then (push_bit 8 rem, 0)
                         else let rem = push_bit 9 rem
                              in if sigB \<le> rem then (rem - sigB, 1) else (rem, 0))
                   in map_option (\<lambda>(rem, altRem, q). f64_rem_select signA expB rem altRem q s)
                        (f64_rem_adjust rem q sigB)
         else let recip32 = softfloat_approxRecip32_1 (ucast (drop_bit 21 sigB));
                  rem = push_bit 9 rem;
                  expDiff = expDiff - 30;
                  sigB = push_bit 9 sigB;
                  (rem, q64, expDiff) = f64_rem_loop rem recip32 sigB expDiff;
                  q = drop_bit (nat ((NOT expDiff) AND 31)) (ucast (drop_bit 32 q64) :: u32);
                  rem = push_bit (nat (expDiff + 30)) rem - ucast q * sigB
              in if rem AND 0x8000000000000000 \<noteq> 0
                 then Some (f64_rem_select signA expB rem (rem + sigB) q s)
                 else map_option (\<lambda>(rem, altRem, q). f64_rem_select signA expB rem altRem q s)
                        (f64_rem_adjust rem q sigB))"

section \<open>Rounding to an integral value\<close>

definition f16_roundToInt :: "float16 \<Rightarrow> u8 \<Rightarrow> bool \<Rightarrow> sf_state \<Rightarrow> float16 \<times> sf_state" where
  "f16_roundToInt a roundingMode exact s =
     (let uiA = ucast a;
          exp = expF16UI uiA
      in if exp \<le> 0xE
         then if (ucast (push_bit 1 uiA) :: u16) = 0 then (a, s)
              else let s = (if exact then set_inexact s else s);
                       uiZ = uiA AND packToF16UI True 0 0;
                       uiZ = (if roundingMode = softfloat_round_near_even \<and> fracF16UI uiA = 0 then uiZ
                         else if roundingMode = softfloat_round_near_even
                                 \<or> roundingMode = softfloat_round_near_maxMag
                         then (if exp = 0xE then uiZ OR packToF16UI False 0xF 0 else uiZ)
                         else if roundingMode = softfloat_round_min
                         then (if uiZ \<noteq> 0 then packToF16UI True 0xF 0 else uiZ)
                         else if roundingMode = softfloat_round_max
                         then (if uiZ = 0 then packToF16UI False 0xF 0 else uiZ)
                         else uiZ)
                   in (ucast uiZ, s)
         else if 0x19 \<le> exp
         then if exp = 0x1F \<and> fracF16UI uiA \<noteq> 0
              then (let (uiZ, s) = softfloat_propagateNaNF16UI uiA 0 s in (ucast uiZ, s))
              else (a, s)
         else let uiZ = uiA;
                  lastBitMask = push_bit (nat (0x19 - exp)) 1;
                  roundBitsMask = lastBitMask - 1;
                  uiZ = (if roundingMode = softfloat_round_near_maxMag then uiZ + drop_bit 1 lastBitMask
                    else if roundingMode = softfloat_round_near_even
                    then let uiZ = uiZ + drop_bit 1 lastBitMask
                         in if uiZ AND roundBitsMask = 0 then uiZ AND NOT lastBitMask else uiZ
                    else if roundingMode = (if signF16UI uiZ then softfloat_round_min else softfloat_round_max)
                    then uiZ + roundBitsMask
                    else uiZ);
                  uiZ = uiZ AND NOT roundBitsMask
              in (ucast uiZ, if exact \<and> uiZ \<noteq> uiA then set_inexact s else s))"

definition f32_roundToInt :: "float32 \<Rightarrow> u8 \<Rightarrow> bool \<Rightarrow> sf_state \<Rightarrow> float32 \<times> sf_state" where
  "f32_roundToInt a roundingMode exact s =
     (let uiA = ucast a;
          exp = expF32UI uiA
      in if exp \<le> 0x7E
         then if (ucast (push_bit 1 uiA) :: u32) = 0 then (a, s)
              else let s = (if exact then set_inexact s else s);
                       uiZ = uiA AND packToF32UI True 0 0;
                       uiZ = (if roundingMode = softfloat_round_near_even \<and> fracF32UI uiA = 0 then uiZ
                         else if roundingMode = softfloat_round_near_even
                                 \<or> roundingMode = softfloat_round_near_maxMag
                         then (if exp = 0x7E then uiZ OR packToF32UI False 0x7F 0 else uiZ)
                         else if roundingMode = softfloat_round_min
                         then (if uiZ \<noteq> 0 then packToF32UI True 0x7F 0 else uiZ)
                         else if roundingMode = softfloat_round_max
                         then (if uiZ = 0 then packToF32UI False 0x7F 0 else uiZ)
                         else uiZ)
                   in (ucast uiZ, s)
         else if 0x96 \<le> exp
         then if exp = 0xFF \<and> fracF32UI uiA \<noteq> 0
              then (let (uiZ, s) = softfloat_propagateNaNF32UI uiA 0 s in (ucast uiZ, s))
              else (a, s)
         else let uiZ = uiA;
                  lastBitMask = push_bit (nat (0x96 - exp)) 1;
                  roundBitsMask = lastBitMask - 1;
                  uiZ = (if roundingMode = softfloat_round_near_maxMag then uiZ + drop_bit 1 lastBitMask
                    else if roundingMode = softfloat_round_near_even
                    then let uiZ = uiZ + drop_bit 1 lastBitMask
                         in if uiZ AND roundBitsMask = 0 then uiZ AND NOT lastBitMask else uiZ
                    else if roundingMode = (if signF32UI uiZ then softfloat_round_min else softfloat_round_max)
                    then uiZ + roundBitsMask
                    else uiZ);
                  uiZ = uiZ AND NOT roundBitsMask
              in (ucast uiZ, if exact \<and> uiZ \<noteq> uiA then set_inexact s else s))"

definition f64_roundToInt :: "float64 \<Rightarrow> u8 \<Rightarrow> bool \<Rightarrow> sf_state \<Rightarrow> float64 \<times> sf_state" where
  "f64_roundToInt a roundingMode exact s =
     (let uiA = a;
          exp = expF64UI uiA
      in if exp \<le> 0x3FE
         then if uiA AND 0x7FFFFFFFFFFFFFFF = 0 then (a, s)
              else let s = (if exact then set_inexact s else s);
                       uiZ = uiA AND packToF64UI True 0 0;
                       uiZ = (if roundingMode = softfloat_round_near_even \<and> fracF64UI uiA = 0 then uiZ
                         else if roundingMode = softfloat_round_near_even
                                 \<or> roundingMode = softfloat_round_near_maxMag
                         then (if exp = 0x3FE then uiZ OR packToF64UI False 0x3FF 0 else uiZ)
                         else if roundingMode = softfloat_round_min
                         then (if uiZ \<noteq> 0 then packToF64UI True 0x3FF 0 else uiZ)
                         else if roundingMode = softfloat_round_max
                         then (if uiZ = 0 then packToF64UI False 0x3FF 0 else uiZ)
                         else uiZ)
                   in (uiZ, s)
         else if 0x433 \<le> exp
         then if exp = 0x7FF \<and> fracF64UI uiA \<noteq> 0
              then softfloat_propagateNaNF64UI uiA 0 s
              else (a, s)
         else let uiZ = uiA;
                  lastBitMask = push_bit (nat (0x433 - exp)) 1;
                  roundBitsMask = lastBitMask - 1;
                  uiZ = (if roundingMode = softfloat_round_near_maxMag then uiZ + drop_bit 1 lastBitMask
                    else if roundingMode = softfloat_round_near_even
                    then let uiZ = uiZ + drop_bit 1 lastBitMask
                         in if uiZ AND roundBitsMask = 0 then uiZ AND NOT lastBitMask else uiZ
                    else if roundingMode = (if signF64UI uiZ then softfloat_round_min else softfloat_round_max)
                    then uiZ + roundBitsMask
                    else uiZ);
                  uiZ = uiZ AND NOT roundBitsMask
              in (uiZ, if exact \<and> uiZ \<noteq> uiA then set_inexact s else s))"

end
