(* ===== verification/SF_Reciprocal.thy ===== *)
theory SF_Reciprocal
  imports SF_Compare
begin

text \<open>
  The 7-bit estimates of the vector extension, \<open>fall_reciprocal.c\<close>: reciprocal and
  reciprocal square root for binary16, binary32 and binary64.  The \<open>switch\<close> on the class is a
  chain of conditionals, with the cases that fall through merged.
\<close>

section \<open>Definitions\<close>

definition extract64 :: "u64 \<Rightarrow> nat \<Rightarrow> nat \<Rightarrow> u64" where
  "extract64 val pos len = drop_bit pos val AND drop_bit (64 - len) (NOT 0)"

definition make_mask64 :: "nat \<Rightarrow> nat \<Rightarrow> u64" where
  "make_mask64 pos len = push_bit pos (drop_bit (64 - len) (NOT 0))"

definition rsqrte7_table :: "u8 list" where
  "rsqrte7_table =
    [52, 51, 50, 48, 47, 46, 44, 43,
     42, 41, 40, 39, 38, 36, 35, 34,
     33, 32, 31, 30, 30, 29, 28, 27,
     26, 25, 24, 23, 23, 22, 21, 20,
     19, 19, 18, 17, 16, 16, 15, 14,
     14, 13, 12, 12, 11, 10, 10, 9,
     9, 8, 7, 7, 6, 6, 5, 4,
     4, 3, 3, 2, 2, 1, 1, 0,
     127, 125, 123, 121, 119, 118, 116, 114,
     113, 111, 109, 108, 106, 105, 103, 102,
     100, 99, 97, 96, 95, 93, 92, 91,
     90, 88, 87, 86, 85, 84, 83, 82,
     80, 79, 78, 77, 76, 75, 74, 73,
     72, 71, 70, 70, 69, 68, 67, 66,
     65, 64, 63, 63, 62, 61, 60, 59,
     59, 58, 57, 56, 56, 55, 54, 53]"

definition recip7_table :: "u8 list" where
  "recip7_table =
    [127, 125, 123, 121, 119, 117, 116, 114,
     112, 110, 109, 107, 105, 104, 102, 100,
     99, 97, 96, 94, 93, 91, 90, 88,
     87, 85, 84, 83, 81, 80, 79, 77,
     76, 75, 74, 72, 71, 70, 69, 68,
     66, 65, 64, 63, 62, 61, 60, 59,
     58, 57, 56, 55, 54, 53, 52, 51,
     50, 49, 48, 47, 46, 45, 44, 43,
     42, 41, 40, 40, 39, 38, 37, 36,
     35, 35, 34, 33, 32, 31, 31, 30,
     29, 28, 28, 27, 26, 25, 25, 24,
     23, 23, 22, 21, 21, 20, 19, 19,
     18, 17, 17, 16, 15, 15, 14, 14,
     13, 12, 12, 11, 11, 10, 9, 9,
     8, 8, 7, 7, 6, 5, 5, 4,
     4, 3, 3, 2, 2, 1, 1, 0]"

text \<open>The normalising loop of both estimates; it does not return when no bit can reach the top.\<close>

partial_function (option) estimate_norm_loop :: "nat \<Rightarrow> u64 \<Rightarrow> u64 \<Rightarrow> (u64 \<times> u64) option" where
  "estimate_norm_loop s exp sig =
     (if extract64 sig (s - 1) 1 = 0
      then estimate_norm_loop s (exp - 1) (push_bit 1 sig)
      else Some (exp, sig))"

definition rsqrte7_finish :: "u64 \<Rightarrow> u64 \<Rightarrow> u64 \<Rightarrow> nat \<Rightarrow> nat \<Rightarrow> u64" where
  "rsqrte7_finish exp sig sign e s =
     (let p = 7;
          idx = unat (push_bit (p - 1) (exp AND 1) OR drop_bit (s - p + 1) sig);
          out_sig = push_bit (s - p) (ucast (rsqrte7_table ! idx));
          out_exp = (3 * make_mask64 0 (e - 1) + NOT exp) div 2
      in push_bit (s + e) sign OR push_bit s out_exp OR out_sig)"

definition rsqrte7 :: "u64 \<Rightarrow> nat \<Rightarrow> nat \<Rightarrow> bool \<Rightarrow> u64 option" where
  "rsqrte7 val e s sub =
     (let exp = extract64 val s e;
          sig = extract64 val 0 s;
          sign = extract64 val (s + e) 1
      in if sub
         then map_option (\<lambda>(exp, sig). rsqrte7_finish exp (push_bit 1 sig AND make_mask64 0 s) sign e s)
                (estimate_norm_loop s exp sig)
         else Some (rsqrte7_finish exp sig sign e s))"

definition recip7_finish :: "u64 \<Rightarrow> u64 \<Rightarrow> u64 \<Rightarrow> nat \<Rightarrow> nat \<Rightarrow> u64" where
  "recip7_finish exp sig sign e s =
     (let p = 7;
          idx = unat (drop_bit (s - p) sig);
          out_sig = push_bit (s - p) (ucast (recip7_table ! idx));
          out_exp = 2 * make_mask64 0 (e - 1) + NOT exp;
          (out_sig, out_exp) = (if out_exp = 0 \<or> out_exp = NOT 0
             then let out_sig = drop_bit 1 out_sig OR make_mask64 (s - 1) 1
                  in if out_exp = NOT 0 then (drop_bit 1 out_sig, 0) else (out_sig, out_exp)
             else (out_sig, out_exp))
      in push_bit (s + e) sign OR push_bit s out_exp OR out_sig)"

text \<open>The result of \<open>recip7\<close> is paired with \<open>*round_abnormal\<close>.\<close>

definition recip7 :: "u64 \<Rightarrow> nat \<Rightarrow> nat \<Rightarrow> u8 \<Rightarrow> bool \<Rightarrow> (u64 \<times> bool) option" where
  "recip7 val e s rm sub =
     (let exp = extract64 val s e;
          sig = extract64 val 0 s;
          sign = extract64 val (s + e) 1
      in if sub
         then map_option (\<lambda>(exp, sig).
                let sig = push_bit 1 sig AND make_mask64 0 s
                in if exp \<noteq> 0 \<and> exp \<noteq> NOT 0
                   then (if rm = 1 \<or> rm = 2 \<and> sign = 0 \<or> rm = 3 \<and> sign \<noteq> 0
                         then (push_bit (s + e) sign OR make_mask64 s e) - 1
                         else push_bit (s + e) sign OR make_mask64 s e, True)
                   else (recip7_finish exp sig sign e s, False))
                (estimate_norm_loop s exp sig)
         else Some (recip7_finish exp sig sign e s, False))"

definition f16_rsqrte7 :: "float16 \<Rightarrow> sf_state \<Rightarrow> (float16 \<times> sf_state) option" where
  "f16_rsqrte7 a s =
     (let ret = f16_classify a
      in if ret \<in> {0x001, 0x002, 0x004, 0x100}
         then Some (ucast defaultNaNF16UI, s\<lparr>softfloat_exceptionFlags := softfloat_exceptionFlags s OR softfloat_flag_invalid\<rparr>)
         else if ret = 0x200 then Some (ucast defaultNaNF16UI, s)
         else if ret = 0x008
         then Some (0xfc00, s\<lparr>softfloat_exceptionFlags := softfloat_exceptionFlags s OR softfloat_flag_infinite\<rparr>)
         else if ret = 0x010
         then Some (0x7c00, s\<lparr>softfloat_exceptionFlags := softfloat_exceptionFlags s OR softfloat_flag_infinite\<rparr>)
         else if ret = 0x080 then Some (0x0, s)
         else map_option (\<lambda>z. (ucast z, s)) (rsqrte7 (ucast a) 5 10 (ret = 0x020)))"

definition f32_rsqrte7 :: "float32 \<Rightarrow> sf_state \<Rightarrow> (float32 \<times> sf_state) option" where
  "f32_rsqrte7 a s =
     (let ret = f32_classify a
      in if ret \<in> {0x001, 0x002, 0x004, 0x100}
         then Some (ucast defaultNaNF32UI, s\<lparr>softfloat_exceptionFlags := softfloat_exceptionFlags s OR softfloat_flag_invalid\<rparr>)
         else if ret = 0x200 then Some (ucast defaultNaNF32UI, s)
         else if ret = 0x008
         then Some (0xff800000, s\<lparr>softfloat_exceptionFlags := softfloat_exceptionFlags s OR softfloat_flag_infinite\<rparr>)
         else if ret = 0x010
         then Some (0x7f800000, s\<lparr>softfloat_exceptionFlags := softfloat_exceptionFlags s OR softfloat_flag_infinite\<rparr>)
         else if ret = 0x080 then Some (0x0, s)
         else map_option (\<lambda>z. (ucast z, s)) (rsqrte7 (ucast a) 8 23 (ret = 0x020)))"

definition f64_rsqrte7 :: "float64 \<Rightarrow> sf_state \<Rightarrow> (float64 \<times> sf_state) option" where
  "f64_rsqrte7 a s =
     (let ret = f64_classify a
      in if ret \<in> {0x001, 0x002, 0x004, 0x100}
         then Some (defaultNaNF64UI, s\<lparr>softfloat_exceptionFlags := softfloat_exceptionFlags s OR softfloat_flag_invalid\<rparr>)
         else if ret = 0x200 then Some (defaultNaNF64UI, s)
         else if ret = 0x008
         then Some (0xfff0000000000000, s\<lparr>softfloat_exceptionFlags := softfloat_exceptionFlags s OR softfloat_flag_infinite\<rparr>)
         else if ret = 0x010
         then Some (0x7ff0000000000000, s\<lparr>softfloat_exceptionFlags := softfloat_exceptionFlags s OR softfloat_flag_infinite\<rparr>)
         else if ret = 0x080 then Some (0x0, s)
         else map_option (\<lambda>z. (z, s)) (rsqrte7 (a) 11 52 (ret = 0x020)))"

definition f16_recip7 :: "float16 \<Rightarrow> sf_state \<Rightarrow> (float16 \<times> sf_state) option" where
  "f16_recip7 a s =
     (let ret = f16_classify a
      in if ret = 0x001 then Some (0x8000, s)
         else if ret = 0x080 then Some (0x0, s)
         else if ret = 0x008
         then Some (0xfc00, s\<lparr>softfloat_exceptionFlags := softfloat_exceptionFlags s OR softfloat_flag_infinite\<rparr>)
         else if ret = 0x010
         then Some (0x7c00, s\<lparr>softfloat_exceptionFlags := softfloat_exceptionFlags s OR softfloat_flag_infinite\<rparr>)
         else if ret = 0x100
         then Some (ucast defaultNaNF16UI, s\<lparr>softfloat_exceptionFlags := softfloat_exceptionFlags s OR softfloat_flag_invalid\<rparr>)
         else if ret = 0x200 then Some (ucast defaultNaNF16UI, s)
         else map_option (\<lambda>(z, round_abnormal). (ucast z,
                if round_abnormal
                then s\<lparr>softfloat_exceptionFlags := softfloat_exceptionFlags s
                         OR (softfloat_flag_inexact OR softfloat_flag_overflow)\<rparr>
                else s))
              (recip7 (ucast a) 5 10 (softfloat_roundingMode s) (ret = 0x004 \<or> ret = 0x020)))"

definition f32_recip7 :: "float32 \<Rightarrow> sf_state \<Rightarrow> (float32 \<times> sf_state) option" where
  "f32_recip7 a s =
     (let ret = f32_classify a
      in if ret = 0x001 then Some (0x80000000, s)
         else if ret = 0x080 then Some (0x0, s)
         else if ret = 0x008
         then Some (0xff800000, s\<lparr>softfloat_exceptionFlags := softfloat_exceptionFlags s OR softfloat_flag_infinite\<rparr>)
         else if ret = 0x010
         then Some (0x7f800000, s\<lparr>softfloat_exceptionFlags := softfloat_exceptionFlags s OR softfloat_flag_infinite\<rparr>)
         else if ret = 0x100
         then Some (ucast defaultNaNF32UI, s\<lparr>softfloat_exceptionFlags := softfloat_exceptionFlags s OR softfloat_flag_invalid\<rparr>)
         else if ret = 0x200 then Some (ucast defaultNaNF32UI, s)
         else map_option (\<lambda>(z, round_abnormal). (ucast z,
                if round_abnormal
                then s\<lparr>softfloat_exceptionFlags := softfloat_exceptionFlags s
                         OR (softfloat_flag_inexact OR softfloat_flag_overflow)\<rparr>
                else s))
              (recip7 (ucast a) 8 23 (softfloat_roundingMode s) (ret = 0x004 \<or> ret = 0x020)))"

definition f64_recip7 :: "float64 \<Rightarrow> sf_state \<Rightarrow> (float64 \<times> sf_state) option" where
  "f64_recip7 a s =
     (let ret = f64_classify a
      in if ret = 0x001 then Some (0x8000000000000000, s)
         else if ret = 0x080 then Some (0x0, s)
         else if ret = 0x008
         then Some (0xfff0000000000000, s\<lparr>softfloat_exceptionFlags := softfloat_exceptionFlags s OR softfloat_flag_infinite\<rparr>)
         else if ret = 0x010
         then Some (0x7ff0000000000000, s\<lparr>softfloat_exceptionFlags := softfloat_exceptionFlags s OR softfloat_flag_infinite\<rparr>)
         else if ret = 0x100
         then Some (defaultNaNF64UI, s\<lparr>softfloat_exceptionFlags := softfloat_exceptionFlags s OR softfloat_flag_invalid\<rparr>)
         else if ret = 0x200 then Some (defaultNaNF64UI, s)
         else map_option (\<lambda>(z, round_abnormal). (z,
                if round_abnormal
                then s\<lparr>softfloat_exceptionFlags := softfloat_exceptionFlags s
                         OR (softfloat_flag_inexact OR softfloat_flag_overflow)\<rparr>
                else s))
              (recip7 (a) 11 52 (softfloat_roundingMode s) (ret = 0x004 \<or> ret = 0x020)))"

end
