(* ===== verification/Env_String.thy ===== *)
theory Env_String
  imports Prelude
begin

text \<open>
  The string functions of the virtual-memory test environment,
  \<open>riscv-tests/env/v/string.c\<close> (RV64: \<open>uintptr_t\<close> and \<open>size_t\<close> are 64 bits wide,
  \<open>char\<close> is unsigned, words are little endian).  The functions work on any memory \<open>'m\<close>
  through a byte read \<open>rd\<close> and a byte write \<open>wr\<close>, so that the same definitions serve a flat
  memory and the virtual memory of \<open>vm.c\<close>.  A loop over pointers ends by a comparison of
  addresses that may wrap, so it is a partial function: \<open>None\<close> when it runs forever.
  The locale \<open>byte_memory\<close> is the contract of \<open>rd\<close> and \<open>wr\<close>.
\<close>

section \<open>Bytes and words\<close>

fun bytes_of :: "nat \<Rightarrow> u64 \<Rightarrow> u8 list" where
  "bytes_of 0 w = []"
| "bytes_of (Suc n) w = ucast w # bytes_of n (drop_bit 8 w)"

fun word_of :: "u8 list \<Rightarrow> u64" where
  "word_of [] = 0"
| "word_of (b # bs) = ucast b OR push_bit 8 (word_of bs)"

fun load_bytes :: "('m \<Rightarrow> u64 \<Rightarrow> u8) \<Rightarrow> 'm \<Rightarrow> u64 \<Rightarrow> nat \<Rightarrow> u8 list" where
  "load_bytes rd m a 0 = []"
| "load_bytes rd m a (Suc n) = rd m a # load_bytes rd m (a + 1) n"

fun store_bytes :: "('m \<Rightarrow> u64 \<Rightarrow> u8 \<Rightarrow> 'm) \<Rightarrow> 'm \<Rightarrow> u64 \<Rightarrow> u8 list \<Rightarrow> 'm" where
  "store_bytes wr m a [] = m"
| "store_bytes wr m a (b # bs) = store_bytes wr (wr m a b) (a + 1) bs"

definition load_word :: "('m \<Rightarrow> u64 \<Rightarrow> u8) \<Rightarrow> 'm \<Rightarrow> u64 \<Rightarrow> u64" where
  "load_word rd m a = word_of (load_bytes rd m a 8)"

definition store_word :: "('m \<Rightarrow> u64 \<Rightarrow> u8 \<Rightarrow> 'm) \<Rightarrow> 'm \<Rightarrow> u64 \<Rightarrow> u64 \<Rightarrow> 'm" where
  "store_word wr m a w = store_bytes wr m a (bytes_of 8 w)"

section \<open>memcpy\<close>

partial_function (option) copy_words ::
  "('m \<Rightarrow> u64 \<Rightarrow> u8) \<Rightarrow> ('m \<Rightarrow> u64 \<Rightarrow> u8 \<Rightarrow> 'm) \<Rightarrow> u64 \<Rightarrow> u64 \<Rightarrow> u64 \<Rightarrow> 'm \<Rightarrow> 'm option" where
  "copy_words rd wr d s e m =
     (if d < e then copy_words rd wr (d + 8) (s + 8) e (store_word wr m d (load_word rd m s)) else Some m)"

partial_function (option) copy_chars ::
  "('m \<Rightarrow> u64 \<Rightarrow> u8) \<Rightarrow> ('m \<Rightarrow> u64 \<Rightarrow> u8 \<Rightarrow> 'm) \<Rightarrow> u64 \<Rightarrow> u64 \<Rightarrow> u64 \<Rightarrow> 'm \<Rightarrow> 'm option" where
  "copy_chars rd wr d s e m =
     (if d < e then copy_chars rd wr (d + 1) (s + 1) e (wr m d (rd m s)) else Some m)"

definition memcpy ::
  "('m \<Rightarrow> u64 \<Rightarrow> u8) \<Rightarrow> ('m \<Rightarrow> u64 \<Rightarrow> u8 \<Rightarrow> 'm) \<Rightarrow> u64 \<Rightarrow> u64 \<Rightarrow> u64 \<Rightarrow> 'm \<Rightarrow> 'm option" where
  "memcpy rd wr dest src len m =
     (if (dest OR src OR len) AND 7 = 0
      then copy_words rd wr dest src (dest + len) m
      else copy_chars rd wr dest src (dest + len) m)"

section \<open>memset\<close>

partial_function (option) fill_words ::
  "('m \<Rightarrow> u64 \<Rightarrow> u8 \<Rightarrow> 'm) \<Rightarrow> u64 \<Rightarrow> u64 \<Rightarrow> u64 \<Rightarrow> 'm \<Rightarrow> 'm option" where
  "fill_words wr d w e m = (if d < e then fill_words wr (d + 8) w e (store_word wr m d w) else Some m)"

partial_function (option) fill_chars ::
  "('m \<Rightarrow> u64 \<Rightarrow> u8 \<Rightarrow> 'm) \<Rightarrow> u64 \<Rightarrow> u8 \<Rightarrow> u64 \<Rightarrow> 'm \<Rightarrow> 'm option" where
  "fill_chars wr d b e m = (if d < e then fill_chars wr (d + 1) b e (wr m d b) else Some m)"

definition memset :: "('m \<Rightarrow> u64 \<Rightarrow> u8 \<Rightarrow> 'm) \<Rightarrow> u64 \<Rightarrow> u32 \<Rightarrow> u64 \<Rightarrow> 'm \<Rightarrow> 'm option" where
  "memset wr dest byte len m =
     (if (dest OR len) AND 7 = 0
      then let word = ucast (byte AND 0xFF);
               word = word OR push_bit 8 word;
               word = word OR push_bit 16 word;
               word = word OR push_bit 16 (push_bit 16 word)
           in fill_words wr dest word (dest + len) m
      else fill_chars wr dest (ucast byte) (dest + len) m)"

section \<open>memcmp\<close>

partial_function (option) skip_words ::
  "('m \<Rightarrow> u64 \<Rightarrow> u8) \<Rightarrow> 'm \<Rightarrow> u64 \<Rightarrow> u64 \<Rightarrow> u64 \<Rightarrow> (u64 \<times> u64) option" where
  "skip_words rd m u1 u2 e =
     (if u1 < e
      then if load_word rd m u1 \<noteq> load_word rd m u2 then Some (u1, u2)
           else skip_words rd m (u1 + 8) (u2 + 8) e
      else Some (u1, u2))"

text \<open>\<open>while (n--)\<close>: the loop runs \<open>n\<close> times unless a difference ends it.\<close>

fun compare_chars :: "('m \<Rightarrow> u64 \<Rightarrow> u8) \<Rightarrow> 'm \<Rightarrow> u64 \<Rightarrow> u64 \<Rightarrow> nat \<Rightarrow> int" where
  "compare_chars rd m s1 s2 0 = 0"
| "compare_chars rd m s1 s2 (Suc n) =
     (let c1 = rd m s1; c2 = rd m s2
      in if c1 \<noteq> c2 then uint c1 - uint c2 else compare_chars rd m (s1 + 1) (s2 + 1) n)"

definition memcmp :: "('m \<Rightarrow> u64 \<Rightarrow> u8) \<Rightarrow> u64 \<Rightarrow> u64 \<Rightarrow> u64 \<Rightarrow> 'm \<Rightarrow> int option" where
  "memcmp rd s1 s2 n m =
     (if (s1 OR s2) AND 7 = 0
      then case skip_words rd m s1 s2 (s1 + 8 * (n div 8)) of
             None \<Rightarrow> None
           | Some (u1, u2) \<Rightarrow> Some (compare_chars rd m u1 u2 (unat (n - (u1 - s1))))
      else Some (compare_chars rd m s1 s2 (unat n)))"

section \<open>Strings\<close>

partial_function (option) strlen_loop :: "('m \<Rightarrow> u64 \<Rightarrow> u8) \<Rightarrow> 'm \<Rightarrow> u64 \<Rightarrow> u64 option" where
  "strlen_loop rd m p = (if rd m p \<noteq> 0 then strlen_loop rd m (p + 1) else Some p)"

definition strlen :: "('m \<Rightarrow> u64 \<Rightarrow> u8) \<Rightarrow> u64 \<Rightarrow> 'm \<Rightarrow> u64 option" where
  "strlen rd s m = (case strlen_loop rd m s of None \<Rightarrow> None | Some p \<Rightarrow> Some (p - s))"

partial_function (option) strcmp :: "('m \<Rightarrow> u64 \<Rightarrow> u8) \<Rightarrow> 'm \<Rightarrow> u64 \<Rightarrow> u64 \<Rightarrow> int option" where
  "strcmp rd m s1 s2 =
     (let c1 = rd m s1; c2 = rd m s2
      in if c1 \<noteq> 0 \<and> c1 = c2 then strcmp rd m (s1 + 1) (s2 + 1) else Some (uint c1 - uint c2))"

partial_function (option) strcpy ::
  "('m \<Rightarrow> u64 \<Rightarrow> u8) \<Rightarrow> ('m \<Rightarrow> u64 \<Rightarrow> u8 \<Rightarrow> 'm) \<Rightarrow> u64 \<Rightarrow> u64 \<Rightarrow> 'm \<Rightarrow> 'm option" where
  "strcpy rd wr d src m =
     (let c = rd m src; m' = wr m d c
      in if c \<noteq> 0 then strcpy rd wr (d + 1) (src + 1) m' else Some m')"

text \<open>\<open>atol\<close>: the accumulator is a \<open>long\<close>; the code relies on two's complement wrap-around.\<close>

partial_function (option) skip_spaces :: "('m \<Rightarrow> u64 \<Rightarrow> u8) \<Rightarrow> 'm \<Rightarrow> u64 \<Rightarrow> u64 option" where
  "skip_spaces rd m p = (if rd m p = 0x20 then skip_spaces rd m (p + 1) else Some p)"

partial_function (option) atol_digits :: "('m \<Rightarrow> u64 \<Rightarrow> u8) \<Rightarrow> 'm \<Rightarrow> u64 \<Rightarrow> u64 \<Rightarrow> u64 option" where
  "atol_digits rd m p res =
     (if rd m p \<noteq> 0 then atol_digits rd m (p + 1) (res * 10 + (ucast (rd m p) - 0x30)) else Some res)"

definition atol :: "('m \<Rightarrow> u64 \<Rightarrow> u8) \<Rightarrow> u64 \<Rightarrow> 'm \<Rightarrow> u64 option" where
  "atol rd str m =
     (case skip_spaces rd m str of None \<Rightarrow> None
      | Some p \<Rightarrow>
          let signed = (rd m p = 0x2D \<or> rd m p = 0x2B);
              sign = (signed \<and> rd m p = 0x2D);
              p = (if signed then p + 1 else p)
          in map_option (\<lambda>res. if sign then - res else res) (atol_digits rd m p 0))"

declare copy_words.simps [code] copy_chars.simps [code] fill_words.simps [code] fill_chars.simps [code]
  skip_words.simps [code] strlen_loop.simps [code] strcmp.simps [code] strcpy.simps [code]
  skip_spaces.simps [code] atol_digits.simps [code]

section \<open>Bytes of a word\<close>

lemma length_load_bytes [simp]: "length (load_bytes rd m a n) = n"
  by (induction n arbitrary: a) simp_all

lemma length_bytes_of [simp]: "length (bytes_of n w) = n"
  by (induction n arbitrary: w) simp_all

lemma nth_load_bytes [simp]: "i < n \<Longrightarrow> load_bytes rd m a n ! i = rd m (a + of_nat i)"
  by (induction n arbitrary: a i) (auto simp: nth_Cons algebra_simps split: nat.splits)

lemma load_bytes_add: "load_bytes rd m a (i + n) = load_bytes rd m a i @ load_bytes rd m (a + of_nat i) n"
  by (induction i arbitrary: a) (simp_all add: algebra_simps)

lemma store_bytes_append:
  "store_bytes wr m a (xs @ ys) = store_bytes wr (store_bytes wr m a xs) (a + of_nat (length xs)) ys"
  by (induction xs arbitrary: m a) (simp_all add: algebra_simps)

lemma byte_of_cons:
  "ucast (ucast (b :: u8) OR push_bit 8 (w :: u64)) = b" "drop_bit 8 (ucast b OR push_bit 8 (w :: u64)) = take_bit 56 w"
  by (rule bit_eqI; simp add: bit_simps; fastforce dest: bit_imp_le_length)+

lemma word_of_append: "word_of (xs @ ys) = word_of xs OR push_bit (8 * length xs) (word_of ys)"
proof (induction xs)
  case (Cons b xs)
  have "push_bit (8 * length (b # xs)) (word_of ys) = push_bit 8 (push_bit (8 * length xs) (word_of ys))"
    by (simp only: push_bit_push_bit) simp
  then show ?case by (simp only: append_Cons word_of.simps Cons.IH push_bit_or or.assoc)
qed simp

lemma bytes_of_take_bit: "8 * n \<le> k \<Longrightarrow> bytes_of n (take_bit k w) = bytes_of n w"
proof (induction n arbitrary: k w)
  case (Suc n)
  have "(ucast (take_bit k w) :: u8) = ucast w" using Suc.prems by (intro bit_eqI) (auto simp: bit_simps)
  moreover have "drop_bit 8 (take_bit k w) = take_bit (k - 8) (drop_bit 8 w)"
    using Suc.prems by (simp add: drop_bit_take_bit)
  ultimately show ?case using Suc.IH [of "k - 8" "drop_bit 8 w"] Suc.prems by simp
qed simp

lemma bytes_of_word_of: "length bs \<le> 8 \<Longrightarrow> bytes_of (length bs) (word_of bs) = bs"
  by (induction bs) (simp_all add: byte_of_cons bytes_of_take_bit del: drop_bit_or)

lemma load_word_inject:
  "load_word rd m a = load_word rd m b \<longleftrightarrow> load_bytes rd m a 8 = load_bytes rd m b 8"
  using bytes_of_word_of [of "load_bytes rd m a 8"] bytes_of_word_of [of "load_bytes rd m b 8"]
  by (simp add: load_word_def) (metis)

lemma store_load_word: "store_word wr m' d (load_word rd m s) = store_bytes wr m' d (load_bytes rd m s 8)"
  using bytes_of_word_of [of "load_bytes rd m s 8"] by (simp add: store_word_def load_word_def)

text \<open>The bytes \<open>bs\<close>, none of them zero, and a terminating zero at address \<open>a\<close>.\<close>

fun cstring :: "('m \<Rightarrow> u64 \<Rightarrow> u8) \<Rightarrow> 'm \<Rightarrow> u64 \<Rightarrow> u8 list \<Rightarrow> bool" where
  "cstring rd m a [] = (rd m a = 0)"
| "cstring rd m a (b # bs) = (rd m a = b \<and> b \<noteq> 0 \<and> cstring rd m (a + 1) bs)"

section \<open>A memory of bytes\<close>

text \<open>
  \<open>ph m a\<close> is the place address \<open>a\<close> stands for; two addresses may stand for one place.  Only
  readable and writable addresses obey the laws.
\<close>

definition apart :: "('m \<Rightarrow> u64 \<Rightarrow> 'p) \<Rightarrow> 'm \<Rightarrow> u64 \<Rightarrow> u64 \<Rightarrow> nat \<Rightarrow> bool" where
  "apart ph m d s n = (\<forall>i < n. \<forall>j < n. ph m (d + of_nat i) \<noteq> ph m (s + of_nat j))"

definition span :: "('m \<Rightarrow> u64 \<Rightarrow> bool) \<Rightarrow> 'm \<Rightarrow> u64 \<Rightarrow> nat \<Rightarrow> bool" where
  "span p m a n = (\<forall>i < n. p m (a + of_nat i))"

lemma span_add: "span p m a (i + n) \<longleftrightarrow> span p m a i \<and> span p m (a + of_nat i) n"
proof
  assume s: "span p m a (i + n)"
  have "p m (a + of_nat i + of_nat k)" if "k < n" for k
    using s [unfolded span_def, rule_format, of "i + k"] that by (simp add: algebra_simps)
  with s show "span p m a i \<and> span p m (a + of_nat i) n" by (auto simp: span_def)
next
  assume s: "span p m a i \<and> span p m (a + of_nat i) n"
  show "span p m a (i + n)"
    unfolding span_def
  proof (intro allI impI)
    fix k assume "k < i + n"
    then show "p m (a + of_nat k)"
      using s [unfolded span_def, THEN conjunct1, rule_format, of k]
        s [unfolded span_def, THEN conjunct2, rule_format, of "k - i"]
      by (cases "k < i") (simp_all add: add.assoc of_nat_add [symmetric] del: of_nat_add)
  qed
qed

lemma span_Suc: "span p m a (Suc n) \<longleftrightarrow> p m a \<and> span p m (a + 1) n"
  using span_add [of p m a 1 n] by (simp add: span_def)

lemma apart_tail: "apart ph m d s (i + n) \<Longrightarrow> apart ph m (d + of_nat i) (s + of_nat i) n"
  unfolding apart_def
proof (intro allI impI)
  fix k j
  assume a: "\<forall>i' < i + n. \<forall>j < i + n. ph m (d + of_nat i') \<noteq> ph m (s + of_nat j)" and b: "k < n" "j < n"
  show "ph m (d + of_nat i + of_nat k) \<noteq> ph m (s + of_nat i + of_nat j)"
    using a [rule_format, of "i + k" "i + j"] b by (simp add: algebra_simps)
qed

locale byte_memory =
  fixes rd :: "'m \<Rightarrow> u64 \<Rightarrow> u8" and wr :: "'m \<Rightarrow> u64 \<Rightarrow> u8 \<Rightarrow> 'm" and ph :: "'m \<Rightarrow> u64 \<Rightarrow> 'p"
    and readable :: "'m \<Rightarrow> u64 \<Rightarrow> bool" and writable :: "'m \<Rightarrow> u64 \<Rightarrow> bool"
  assumes rd_wr: "writable m a \<Longrightarrow> readable m b \<Longrightarrow> rd (wr m a v) b = (if ph m a = ph m b then v else rd m b)"
    and readable_wr: "writable m a \<Longrightarrow> readable m b \<Longrightarrow> readable (wr m a v) b \<and> ph (wr m a v) b = ph m b"
    and writable_wr: "writable m a \<Longrightarrow> writable m b \<Longrightarrow> writable (wr m a v) b \<and> ph (wr m a v) b = ph m b"
begin

lemma span_wr:
  assumes "writable m a"
  shows "span writable m b n \<Longrightarrow> span writable (wr m a v) b n" "span readable m b n \<Longrightarrow> span readable (wr m a v) b n"
  using readable_wr [OF assms] writable_wr [OF assms] by (auto simp: span_def)

lemma apart_wr:
  assumes "writable m a" "span writable m d n" "span readable m s n"
  shows "apart ph (wr m a v) d s n = apart ph m d s n"
  using readable_wr [OF assms(1)] writable_wr [OF assms(1)] assms(2,3) by (simp add: apart_def span_def)

lemma store_bytes_stable:
  "span writable m a (length bs) \<Longrightarrow> readable m b \<Longrightarrow>
    readable (store_bytes wr m a bs) b \<and> ph (store_bytes wr m a bs) b = ph m b"
  "span writable m a (length bs) \<Longrightarrow> writable m b \<Longrightarrow>
    writable (store_bytes wr m a bs) b \<and> ph (store_bytes wr m a bs) b = ph m b"
proof (induction bs arbitrary: m a)
  case (Cons c bs)
  { case 1
    then show ?case
      using Cons.IH(1) [of "wr m a c" "a + 1"] readable_wr [of m a b c] span_wr(1) [of m a "a + 1" "length bs" c]
      by (simp add: span_Suc)
  next
    case 2
    then show ?case
      using Cons.IH(2) [of "wr m a c" "a + 1"] writable_wr [of m a b c] span_wr(1) [of m a "a + 1" "length bs" c]
      by (simp add: span_Suc) }
qed simp_all

lemma rd_store_bytes_other:
  "span writable m a (length bs) \<Longrightarrow> readable m b \<Longrightarrow>
    (\<And>i. i < length bs \<Longrightarrow> ph m (a + of_nat i) \<noteq> ph m b) \<Longrightarrow> rd (store_bytes wr m a bs) b = rd m b"
proof (induction bs arbitrary: m a)
  case (Cons c bs)
  have w: "writable m a" "span writable m (a + 1) (length bs)" using Cons.prems(1) by (simp_all add: span_Suc)
  have "ph m a \<noteq> ph m b" using Cons.prems(3) [of 0] by simp
  moreover have "ph (wr m a c) (a + 1 + of_nat i) \<noteq> ph (wr m a c) b" if "i < length bs" for i
    using Cons.prems(3) [of "Suc i"] that w readable_wr [OF w(1) Cons.prems(2)]
      writable_wr [OF w(1), of "a + 1 + of_nat i"] by (simp add: span_def algebra_simps)
  ultimately show ?case
    using Cons.IH [of "wr m a c" "a + 1"] w Cons.prems(2) span_wr(1) [OF w] readable_wr [OF w(1) Cons.prems(2)]
    by (simp add: rd_wr)
qed simp

lemma load_bytes_store_other:
  assumes "apart ph m d s n" "span writable m d (length bs)" "span readable m s k" "length bs \<le> n" "k \<le> n"
  shows "load_bytes rd (store_bytes wr m d bs) s k = load_bytes rd m s k"
  using assms by (intro nth_equalityI) (auto simp: apart_def span_def intro!: rd_store_bytes_other)

lemma stored_stable:
  assumes "span writable m a (length bs)"
  shows "span writable m d n \<Longrightarrow> span writable (store_bytes wr m a bs) d n"
    "span readable m s n \<Longrightarrow> span readable (store_bytes wr m a bs) s n"
    "span writable m d n \<Longrightarrow> span readable m s n \<Longrightarrow> apart ph m d s n \<Longrightarrow> apart ph (store_bytes wr m a bs) d s n"
  using store_bytes_stable [OF assms] by (simp_all add: span_def apart_def)

lemma copy_tail:
  assumes "apart ph m d s (i + n)" "span writable m d (i + n)" "span readable m s (i + n)"
  shows "store_bytes wr (store_bytes wr m d (load_bytes rd m s i)) (d + of_nat i)
      (load_bytes rd (store_bytes wr m d (load_bytes rd m s i)) (s + of_nat i) n)
    = store_bytes wr m d (load_bytes rd m s (i + n))"
proof -
  have "load_bytes rd (store_bytes wr m d (load_bytes rd m s i)) s (i + n) = load_bytes rd m s (i + n)"
    by (rule load_bytes_store_other [OF assms(1)]) (use assms in \<open>simp_all add: span_add\<close>)
  then have "load_bytes rd (store_bytes wr m d (load_bytes rd m s i)) (s + of_nat i) n = load_bytes rd m (s + of_nat i) n"
    unfolding load_bytes_add by simp
  then show ?thesis by (simp add: load_bytes_add store_bytes_append)
qed

lemma copy_words_result:
  assumes "unat e = unat d + 8 * k" "apart ph m d s (8 * k)" "span writable m d (8 * k)" "span readable m s (8 * k)"
  shows "copy_words rd wr d s e m = Some (store_bytes wr m d (load_bytes rd m s (8 * k)))"
  using assms
proof (induction k arbitrary: d s m)
  case 0
  then show ?case by (simp add: copy_words.simps [of rd wr d s e m] word_less_nat_alt)
next
  case (Suc k)
  let ?m = "store_bytes wr m d (load_bytes rd m s 8)"
  have l: "d < e" using Suc.prems(1) by (simp add: word_less_nat_alt)
  have "unat (d + 8) = unat d + 8"
    using Suc.prems(1) unsigned_less [of e, where 'a = nat] by (subst unat_add_no_wrap) simp_all
  then have e: "unat e = unat (d + 8) + 8 * k" using Suc.prems(1) by simp
  have w: "span writable m d 8" "span writable m (d + of_nat 8) (8 * k)"
    using Suc.prems(3) span_add [of writable m d 8 "8 * k"] by simp_all
  have r: "span readable m (s + of_nat 8) (8 * k)"
    using Suc.prems(4) span_add [of readable m s 8 "8 * k"] by simp
  have ap: "apart ph m (d + of_nat 8) (s + of_nat 8) (8 * k)"
    by (rule apart_tail) (use Suc.prems(2) in simp)
  have "copy_words rd wr d s e m = copy_words rd wr (d + 8) (s + 8) e ?m"
    using l by (subst copy_words.simps) (simp add: store_load_word)
  also have "\<dots> = Some (store_bytes wr ?m (d + 8) (load_bytes rd ?m (s + 8) (8 * k)))"
    by (rule Suc.IH [OF e]) (use stored_stable [of m d "load_bytes rd m s 8"] w r ap in simp_all)
  also have "\<dots> = Some (store_bytes wr m d (load_bytes rd m s (8 * Suc k)))"
    using copy_tail [of m d s 8 "8 * k"] Suc.prems(2-4) by simp
  finally show ?case .
qed

lemma copy_chars_result:
  assumes "unat e = unat d + k" "apart ph m d s k" "span writable m d k" "span readable m s k"
  shows "copy_chars rd wr d s e m = Some (store_bytes wr m d (load_bytes rd m s k))"
  using assms
proof (induction k arbitrary: d s m)
  case 0
  then show ?case by (simp add: copy_chars.simps [of rd wr d s e m] word_less_nat_alt)
next
  case (Suc k)
  let ?m = "wr m d (rd m s)"
  have l: "d < e" using Suc.prems(1) by (simp add: word_less_nat_alt)
  have "unat (d + 1) = unat d + 1"
    using Suc.prems(1) unsigned_less [of e, where 'a = nat] by (subst unat_add_no_wrap) simp_all
  then have e: "unat e = unat (d + 1) + k" using Suc.prems(1) by simp
  have w: "writable m d" "span writable m (d + 1) k" and r: "span readable m (s + 1) k"
    using Suc.prems(3,4) by (simp_all add: span_Suc)
  have ap: "apart ph m (d + 1) (s + 1) k" using apart_tail [of ph m d s 1 k] Suc.prems(2) by simp
  have "copy_chars rd wr d s e m = copy_chars rd wr (d + 1) (s + 1) e ?m"
    using l by (subst copy_chars.simps) simp
  also have "\<dots> = Some (store_bytes wr ?m (d + 1) (load_bytes rd ?m (s + 1) k))"
    by (rule Suc.IH [OF e]) (use span_wr [OF w(1)] apart_wr [OF w(1) w(2) r] w(2) r ap in simp_all)
  also have "\<dots> = Some (store_bytes wr m d (load_bytes rd m s (Suc k)))"
    using copy_tail [of m d s 1 k] Suc.prems(2-4) by simp
  finally show ?case .
qed

lemma memcpy_result:
  assumes "unat dest + unat len < 2 ^ 64" "apart ph m dest src (unat len)"
    "span writable m dest (unat len)" "span readable m src (unat len)"
  shows "memcpy rd wr dest src len m = Some (store_bytes wr m dest (load_bytes rd m src (unat len)))"
proof -
  have e: "unat (dest + len) = unat dest + unat len" using assms(1) by (intro unat_add_no_wrap) simp
  show ?thesis
  proof (cases "(dest OR src OR len) AND 7 = 0")
    case True
    then have "len AND 7 = 0" by (simp add: bit.conj_disj_distrib2 or_eq_0_iff)
    then have "unat len mod 8 = 0"
      by (simp add: word_eq_0_iff unat_and and_mask_mod [of _ 3, simplified])
    then obtain k where "unat len = 8 * k" by (metis mult_div_mod_eq add.right_neutral)
    then show ?thesis using True copy_words_result [of "dest + len" dest k m src] e assms(2-4)
      by (simp add: memcpy_def)
  next
    case False
    then show ?thesis using copy_chars_result [OF e assms(2-4)] by (simp add: memcpy_def)
  qed
qed

lemma strcpy_result:
  "cstring rd m src bs \<Longrightarrow> apart ph m d src (Suc (length bs)) \<Longrightarrow> span writable m d (Suc (length bs)) \<Longrightarrow>
    span readable m src (Suc (length bs)) \<Longrightarrow> strcpy rd wr d src m = Some (store_bytes wr m d (bs @ [0]))"
proof (induction bs arbitrary: m d src)
  case Nil
  then show ?case by (simp add: strcpy.simps [of rd wr d src m])
next
  case (Cons b bs)
  have w: "writable m d" "span writable m (d + 1) (Suc (length bs))"
    and r: "span readable m (src + 1) (Suc (length bs))"
    using Cons.prems(3,4) span_Suc [of _ m _ "Suc (length bs)"] by auto
  have ap: "apart ph m (d + 1) (src + 1) (Suc (length bs))"
    using apart_tail [of ph m d src 1 "Suc (length bs)"] Cons.prems(2) by simp
  have same: "cstring rd (wr m d b) a xs = cstring rd m a xs"
    if "span readable m a (Suc (length xs))" "\<forall>i \<le> length xs. ph m d \<noteq> ph m (a + of_nat i)" for a xs
    using that
  proof (induction xs arbitrary: a)
    case Nil
    then show ?case using w(1) by (simp add: rd_wr span_Suc)
  next
    case (Cons x xs)
    have "\<forall>i \<le> length xs. ph m d \<noteq> ph m (a + 1 + of_nat i)"
      using Cons.prems(2) [rule_format, of "Suc i" for i] by (simp add: algebra_simps)
    moreover have "ph m d \<noteq> ph m a" using Cons.prems(2) [rule_format, of 0] by simp
    moreover have "readable m a" "span readable m (a + 1) (Suc (length xs))"
      using Cons.prems(1) span_Suc [of readable m a "Suc (length xs)"] by simp_all
    ultimately show ?case using Cons.IH [of "a + 1"] w(1) by (simp add: rd_wr)
  qed
  have "\<forall>i \<le> length bs. ph m d \<noteq> ph m (src + 1 + of_nat i)"
  proof (intro allI impI)
    fix i assume "i \<le> length bs"
    then show "ph m d \<noteq> ph m (src + 1 + of_nat i)"
      using Cons.prems(2) [unfolded apart_def, rule_format, of 0 "Suc i"] by (simp add: algebra_simps)
  qed
  then have c: "cstring rd (wr m d b) (src + 1) bs" using same r Cons.prems(1) by simp
  have "strcpy rd wr (d + 1) (src + 1) (wr m d b) = Some (store_bytes wr (wr m d b) (d + 1) (bs @ [0]))"
    by (rule Cons.IH [OF c]) (use span_wr [OF w(1)] apart_wr [OF w(1) w(2) r] w(2) r ap in simp_all)
  then show ?case using Cons.prems(1) by (simp add: strcpy.simps [of rd wr d src m] Let_def)
qed

end

text \<open>A flat memory: every address is a place of its own.\<close>

definition flat_read :: "(u64 \<Rightarrow> u8) \<Rightarrow> u64 \<Rightarrow> u8" where
  "flat_read m a = m a"

definition flat_write :: "(u64 \<Rightarrow> u8) \<Rightarrow> u64 \<Rightarrow> u8 \<Rightarrow> (u64 \<Rightarrow> u8)" where
  "flat_write m a v = m(a := v)"

interpretation flat: byte_memory flat_read flat_write "\<lambda>m a. a" "\<lambda>m a. True" "\<lambda>m a. True"
  by unfold_locales (auto simp: flat_read_def flat_write_def)

lemma span_True [simp]: "span (\<lambda>m a. True) m a n"
  by (simp add: span_def)

section \<open>memcmp\<close>

text \<open>The first difference of two sequences of bytes, as the difference of the bytes.\<close>

fun first_diff :: "u8 list \<Rightarrow> u8 list \<Rightarrow> int" where
  "first_diff (x # xs) (y # ys) = (if x \<noteq> y then uint x - uint y else first_diff xs ys)"
| "first_diff _ _ = 0"

lemma first_diff_append: "first_diff (xs @ ys) (xs @ zs) = first_diff ys zs"
  by (induction xs) simp_all

lemma first_diff_self [simp]: "first_diff xs xs = 0"
  by (induction xs) simp_all

lemma first_diff_eq_0: "length xs = length ys \<Longrightarrow> first_diff xs ys = 0 \<longleftrightarrow> xs = ys"
  by (induction xs ys rule: list_induct2) (auto simp: word_uint_eq_iff)

lemma compare_chars_diff: "compare_chars rd m s1 s2 n = first_diff (load_bytes rd m s1 n) (load_bytes rd m s2 n)"
  by (induction n arbitrary: s1 s2) (simp_all add: Let_def)

lemma skip_words_result:
  assumes "unat e = unat u1 + 8 * k"
  shows "\<exists>j \<le> k. skip_words rd m u1 u2 e = Some (u1 + of_nat (8 * j), u2 + of_nat (8 * j))
    \<and> load_bytes rd m u1 (8 * j) = load_bytes rd m u2 (8 * j)"
  using assms
proof (induction k arbitrary: u1 u2)
  case 0
  then show ?case by (subst skip_words.simps) (simp add: word_less_nat_alt)
next
  case (Suc k)
  show ?case
  proof (cases "load_word rd m u1 = load_word rd m u2")
    case False
    with Suc.prems show ?thesis
      by (intro exI [of _ 0]) (subst skip_words.simps, simp add: word_less_nat_alt)
  next
    case True
    have "unat (u1 + 8) = unat u1 + 8"
      using Suc.prems unsigned_less [of e, where 'a = nat] by (subst unat_add_no_wrap) simp_all
    then obtain j where j: "j \<le> k"
        "skip_words rd m (u1 + 8) (u2 + 8) e = Some (u1 + 8 + of_nat (8 * j), u2 + 8 + of_nat (8 * j))"
        "load_bytes rd m (u1 + 8) (8 * j) = load_bytes rd m (u2 + 8) (8 * j)"
      using Suc.IH [of "u1 + 8" "u2 + 8"] Suc.prems by auto
    have "load_bytes rd m u1 (8 + 8 * j) = load_bytes rd m u2 (8 + 8 * j)"
      unfolding load_bytes_add using True j(3) by (simp add: load_word_inject)
    moreover have "skip_words rd m u1 u2 e = skip_words rd m (u1 + 8) (u2 + 8) e"
      using True Suc.prems by (subst skip_words.simps) (simp add: word_less_nat_alt)
    ultimately show ?thesis using j(1,2)
      by (intro exI [of _ "Suc j"]) (simp add: algebra_simps)
  qed
qed

lemma memcmp_result:
  assumes "unat s1 + unat n < 2 ^ 64"
  shows "memcmp rd s1 s2 n m = Some (first_diff (load_bytes rd m s1 (unat n)) (load_bytes rd m s2 (unat n)))"
proof (cases "(s1 OR s2) AND 7 = 0")
  case True
  have n8: "unat (8 * (n div 8)) = 8 * (unat n div 8)"
    by (subst unat_mult_no_wrap) (use unsigned_less [of n, where 'a = nat] in \<open>simp_all add: unat_div\<close>)
  have "unat (s1 + 8 * (n div 8)) = unat s1 + 8 * (unat n div 8)"
    using assms by (subst unat_add_no_wrap) (simp_all add: n8)
  then obtain j where j: "j \<le> unat n div 8"
      "skip_words rd m s1 s2 (s1 + 8 * (n div 8)) = Some (s1 + of_nat (8 * j), s2 + of_nat (8 * j))"
      "load_bytes rd m s1 (8 * j) = load_bytes rd m s2 (8 * j)"
    using skip_words_result [of _ s1 _ rd m s2] by blast
  have le: "8 * j \<le> unat n" using j(1) by linarith
  then have "unat (of_nat (8 * j) :: u64) = 8 * j"
    using unsigned_less [of n, where 'a = nat] by (intro unat_word_of_nat_lt) simp
  then have r: "unat (n - of_nat (8 * j)) = unat n - 8 * j"
    using le by (subst unat_sub_no_wrap) simp_all
  have split: "load_bytes rd m a (unat n)
      = load_bytes rd m a (8 * j) @ load_bytes rd m (a + of_nat (8 * j)) (unat n - 8 * j)" for a
    using load_bytes_add [of rd m a "8 * j" "unat n - 8 * j"] le by simp
  have "s1 + of_nat (8 * j) - s1 = (of_nat (8 * j) :: u64)" by simp
  then show ?thesis
    unfolding split [of s1] split [of s2] j(3) first_diff_append
    using True j(2) by (simp only: memcmp_def if_True option.case prod.case compare_chars_diff r refl)
qed (simp add: memcmp_def compare_chars_diff)

section \<open>memset\<close>

lemma store_bytes_replicate_Suc:
  "store_bytes wr m d (replicate (n + k) b)
    = store_bytes wr (store_bytes wr m d (replicate n b)) (d + of_nat n) (replicate k b)"
  by (simp add: replicate_add store_bytes_append)

lemma fill_words_result:
  assumes "unat e = unat d + 8 * k" "bytes_of 8 w = replicate 8 b"
  shows "fill_words wr d w e m = Some (store_bytes wr m d (replicate (8 * k) b))"
  using assms(1)
proof (induction k arbitrary: d m)
  case 0
  then show ?case by (simp add: fill_words.simps [of wr d w e m] word_less_nat_alt)
next
  case (Suc k)
  have "unat (d + 8) = unat d + 8"
    using Suc.prems unsigned_less [of e, where 'a = nat] by (subst unat_add_no_wrap) simp_all
  then have "unat e = unat (d + 8) + 8 * k" using Suc.prems by simp
  from Suc.IH [OF this] show ?case
    using Suc.prems store_bytes_replicate_Suc [of wr m d 8 "8 * k" b]
    by (subst fill_words.simps) (simp add: word_less_nat_alt store_word_def assms(2))
qed

lemma fill_chars_result:
  assumes "unat e = unat d + k"
  shows "fill_chars wr d b e m = Some (store_bytes wr m d (replicate k b))"
  using assms
proof (induction k arbitrary: d m)
  case 0
  then show ?case by (simp add: fill_chars.simps [of wr d b e m] word_less_nat_alt)
next
  case (Suc k)
  have "unat (d + 1) = unat d + 1"
    using Suc.prems unsigned_less [of e, where 'a = nat] by (subst unat_add_no_wrap) simp_all
  then have "unat e = unat (d + 1) + k" using Suc.prems by simp
  from Suc.IH [OF this] show ?case
    using Suc.prems by (subst fill_chars.simps) (simp add: word_less_nat_alt)
qed

lemma bytes_of_replicated:
  fixes byte :: u32
  defines "w \<equiv> ucast (byte AND 0xFF) :: u64"
  defines "w2 \<equiv> w OR push_bit 8 w"
  defines "w4 \<equiv> w2 OR push_bit 16 w2"
  shows "bytes_of 8 (w4 OR push_bit 16 (push_bit 16 w4)) = replicate 8 (ucast byte)"
proof -
  have m: "(0xFF :: u32) = mask 8" by (simp add: mask_eq_exp_minus_1)
  define x where "x = (ucast byte :: u8)"
  have w: "w = word_of [x]"
    unfolding w_def m x_def by (rule bit_eqI) (auto simp: bit_simps)
  have w2: "w2 = word_of [x, x]"
    using word_of_append [of "[x]" "[x]"] by (simp add: w2_def w)
  have w4: "w4 = word_of [x, x, x, x]"
    using word_of_append [of "[x, x]" "[x, x]"] unfolding w4_def w2 by simp
  have "replicate 8 x = [x, x, x, x] @ [x, x, x, x]" "8 * length [x, x, x, x] = 16 + 16"
    by (simp_all add: eval_nat_numeral)
  then have "w4 OR push_bit 16 (push_bit 16 w4) = word_of (replicate 8 x)"
    by (simp only: word_of_append w4 push_bit_push_bit)
  then show ?thesis using bytes_of_word_of [of "replicate 8 x"] by (simp only: x_def length_replicate order_refl simp_thms)
qed

lemma memset_result:
  assumes "unat dest + unat len < 2 ^ 64"
  shows "memset wr dest byte len m = Some (store_bytes wr m dest (replicate (unat len) (ucast byte)))"
proof -
  have e: "unat (dest + len) = unat dest + unat len" using assms by (intro unat_add_no_wrap) simp
  show ?thesis
  proof (cases "(dest OR len) AND 7 = 0")
    case True
    then have "len AND 7 = 0" by (simp add: bit.conj_disj_distrib2 or_eq_0_iff)
    then have "unat len mod 8 = 0" by (simp add: word_eq_0_iff unat_and and_mask_mod [of _ 3, simplified])
    then obtain k where k: "unat len = 8 * k" by (metis mult_div_mod_eq add.right_neutral)
    show ?thesis
      using True fill_words_result [OF e [unfolded k] bytes_of_replicated [of byte], of wr m]
      by (simp only: memset_def Let_def if_True k refl)
  next
    case False
    then show ?thesis using fill_chars_result [OF e] by (simp add: memset_def)
  qed
qed

section \<open>Strings\<close>

lemma strlen_loop_result: "cstring rd m p bs \<Longrightarrow> strlen_loop rd m p = Some (p + of_nat (length bs))"
proof (induction bs arbitrary: p)
  case Nil
  then show ?case by (simp add: strlen_loop.simps [of rd m p])
next
  case (Cons b bs)
  then have "strlen_loop rd m (p + 1) = Some (p + 1 + of_nat (length bs))" "rd m p \<noteq> 0" by auto
  then show ?case by (simp add: strlen_loop.simps [of rd m p] algebra_simps)
qed

lemma strcmp_result:
  "cstring rd m s1 xs \<Longrightarrow> cstring rd m s2 ys \<Longrightarrow> strcmp rd m s1 s2 = Some (first_diff (xs @ [0]) (ys @ [0]))"
proof (induction xs arbitrary: ys s1 s2)
  case Nil
  then show ?case by (cases ys) (auto simp: strcmp.simps [of rd m s1 s2])
next
  case (Cons x xs)
  show ?case
  proof (cases ys)
    case Nil
    then show ?thesis using Cons.prems by (auto simp: strcmp.simps [of rd m s1 s2])
  next
    case (Cons y zs)
    then have "x = y \<Longrightarrow> strcmp rd m (s1 + 1) (s2 + 1) = Some (first_diff (xs @ [0]) (zs @ [0]))"
      using Cons.IH [of "s1 + 1" "s2 + 1" zs] \<open>cstring rd m s1 (x # xs)\<close> \<open>cstring rd m s2 ys\<close> by simp
    then show ?thesis using Cons \<open>cstring rd m s1 (x # xs)\<close> \<open>cstring rd m s2 ys\<close>
      by (auto simp: strcmp.simps [of rd m s1 s2])
  qed
qed

text \<open>\<open>atol\<close> on spaces, an optional sign and digits; the value is taken modulo \<open>2 ^ 64\<close>.\<close>

definition digits_value :: "u8 list \<Rightarrow> u64 \<Rightarrow> u64" where
  "digits_value ds res = foldl (\<lambda>r d. r * 10 + (ucast d - 0x30)) res ds"

lemma atol_digits_result: "cstring rd m p ds \<Longrightarrow> atol_digits rd m p res = Some (digits_value ds res)"
proof (induction ds arbitrary: p res)
  case Nil
  then show ?case by (simp add: atol_digits.simps [of rd m p res] digits_value_def)
next
  case (Cons d ds)
  then have "atol_digits rd m (p + 1) (res * 10 + (ucast d - 0x30)) = Some (digits_value (d # ds) res)"
    by (simp add: digits_value_def)
  then show ?case using Cons.prems by (simp add: atol_digits.simps [of rd m p res])
qed

lemma skip_spaces_result:
  "cstring rd m p (replicate k 0x20 @ bs) \<Longrightarrow> bs = [] \<or> hd bs \<noteq> 0x20 \<Longrightarrow> skip_spaces rd m p = Some (p + of_nat k)
    \<and> cstring rd m (p + of_nat k) bs"
proof (induction k arbitrary: p)
  case 0
  then have "rd m p \<noteq> 0x20" by (cases bs) auto
  then show ?case using 0 by (simp add: skip_spaces.simps [of rd m p])
next
  case (Suc k)
  then have "skip_spaces rd m (p + 1) = Some (p + 1 + of_nat k) \<and> cstring rd m (p + 1 + of_nat k) bs" "rd m p = 0x20"
    by auto
  then show ?case by (simp add: skip_spaces.simps [of rd m p] algebra_simps)
qed

text \<open>Decimal notation, the inverse of \<open>atol\<close>.\<close>

fun decimal :: "nat \<Rightarrow> u8 list" where
  "decimal n = (if n < 10 then [] else decimal (n div 10)) @ [0x30 + of_nat (n mod 10)]"

declare decimal.simps [simp del]

lemma digit_value: "k < 10 \<Longrightarrow> ucast (0x30 + of_nat k :: u8) - 0x30 = (of_nat k :: u64)"
proof -
  assume "k < 10"
  then have "k \<in> {0, 1, 2, 3, 4, 5, 6, 7, 8, 9}" by auto
  then show ?thesis by (elim insertE) simp_all
qed

lemma digit_byte: "k < 10 \<Longrightarrow> (0x30 + of_nat k :: u8) \<notin> {0, 0x20, 0x2B, 0x2D}"
proof -
  assume "k < 10"
  then have "k \<in> {0, 1, 2, 3, 4, 5, 6, 7, 8, 9}" by auto
  then show ?thesis by (elim insertE) simp_all
qed

lemma decimal_value: "digits_value (decimal n) 0 = of_nat n"
proof (induction n rule: decimal.induct)
  case (1 n)
  show ?case
  proof (cases "n < 10")
    case True
    then show ?thesis by (subst decimal.simps) (simp add: digits_value_def digit_value)
  next
    case False
    have "digits_value (decimal n) 0 = of_nat (n div 10) * 10 + of_nat (n mod 10)"
      using 1 False by (subst decimal.simps) (simp add: digits_value_def digit_value)
    also have "\<dots> = of_nat (n div 10 * 10 + n mod 10)" by (simp only: of_nat_add of_nat_mult) simp
    finally show ?thesis by (simp only: div_mult_mod_eq)
  qed
qed

lemma decimal_bytes: "set (decimal n) \<inter> {0, 0x20, 0x2B, 0x2D} = {}" "decimal n \<noteq> []"
proof -
  show "set (decimal n) \<inter> {0, 0x20, 0x2B, 0x2D} = {}"
  proof (induction n rule: decimal.induct)
    case (1 n)
    then show ?case using digit_byte [of "n mod 10"] by (subst decimal.simps) auto
  qed
  show "decimal n \<noteq> []" by (subst decimal.simps) simp
qed

lemma atol_unsigned:
  assumes "cstring rd m str (replicate k 0x20 @ ds)" "ds \<noteq> []" "hd ds \<notin> {0x20, 0x2B, 0x2D}"
  shows "atol rd str m = Some (digits_value ds 0)"
proof -
  have p: "skip_spaces rd m str = Some (str + of_nat k)" "cstring rd m (str + of_nat k) ds"
    using skip_spaces_result [of rd m str k ds] assms by auto
  then have "rd m (str + of_nat k) = hd ds" using assms(2) by (cases ds) auto
  then show ?thesis using p assms(3) atol_digits_result [OF p(2), of 0] by (simp add: atol_def)
qed

lemma atol_signed:
  assumes "cstring rd m str (replicate k 0x20 @ c # ds)" "c = 0x2D \<or> c = 0x2B"
  shows "atol rd str m = Some (if c = 0x2D then - digits_value ds 0 else digits_value ds 0)"
proof -
  have p: "skip_spaces rd m str = Some (str + of_nat k)" "cstring rd m (str + of_nat k) (c # ds)"
    using skip_spaces_result [of rd m str k "c # ds"] assms by auto
  then have "rd m (str + of_nat k) = c" "cstring rd m (str + of_nat k + 1) ds" by auto
  then show ?thesis using p(1) assms(2) atol_digits_result [of rd m "str + of_nat k + 1" ds 0]
    by (auto simp: atol_def)
qed

section \<open>The string functions on a flat memory\<close>

lemma unat_offset:
  fixes a x :: u64
  shows "unat a + n \<le> 2 ^ 64 \<Longrightarrow> i < n \<Longrightarrow> unat (a + of_nat i) = unat a + i"
    and "unat a \<le> unat x \<Longrightarrow> a + of_nat (unat x - unat a) = x"
proof -
  show "unat (a + of_nat i) = unat a + i" if "unat a + n \<le> 2 ^ 64" "i < n"
  proof -
    have "unat (of_nat i :: u64) = i" using that by (intro unat_word_of_nat_lt) simp
    then show ?thesis using that by (subst unat_add_no_wrap) simp_all
  qed
  show "unat a \<le> unat x \<Longrightarrow> a + of_nat (unat x - unat a) = x"
    by simp
qed

lemma flat_store:
  assumes "unat d + length bs \<le> 2 ^ 64"
  shows "store_bytes flat_write m d bs x
    = (if unat d \<le> unat x \<and> unat x < unat d + length bs then bs ! (unat x - unat d) else m x)"
  using assms
proof (induction bs arbitrary: m d)
  case (Cons b bs)
  show ?case
  proof (cases bs)
    case Nil
    then show ?thesis using Cons.prems by (auto simp: flat_write_def word_eq_iff_unat)
  next
    case (Cons c cs)
    then have "unat (d + 1) = unat d + 1" using Cons.prems by (subst unat_add_no_wrap) simp_all
    then show ?thesis
      using Cons.IH [of "d + 1" "flat_write m d b"] Cons.prems
      by (auto simp: flat_write_def word_eq_iff_unat nth_Cons')
  qed
qed auto

text \<open>C35: memcpy terminates and copies the range byte by byte, by words or by bytes, and
  changes nothing else, when the ranges do not overlap.\<close>

theorem memcpy_correct:
  assumes "unat dest + unat len < 2 ^ 64" "unat src + unat len \<le> 2 ^ 64"
    and "unat dest + unat len \<le> unat src \<or> unat src + unat len \<le> unat dest"
  shows "\<exists>m'. memcpy flat_read flat_write dest src len m = Some m'
    \<and> (\<forall>x. m' x = (if unat dest \<le> unat x \<and> unat x < unat dest + unat len then m (src + (x - dest)) else m x))"
proof -
  have "apart (\<lambda>m a. a) m dest src (unat len)"
    unfolding apart_def
  proof (intro allI impI)
    fix i j assume ij: "i < unat len" "j < unat len"
    have "unat (dest + of_nat i) = unat dest + i" "unat (src + of_nat j) = unat src + j"
      using assms(1,2) ij by (simp_all only: unat_offset(1) [of _ "unat len"] less_imp_le)
    then show "dest + of_nat i \<noteq> src + of_nat j" using assms(3) ij by auto
  qed
  then have m: "memcpy flat_read flat_write dest src len m
      = Some (store_bytes flat_write m dest (load_bytes flat_read m src (unat len)))"
    by (intro flat.memcpy_result assms(1)) simp_all
  have "load_bytes flat_read m src (unat len) ! (unat x - unat dest) = m (src + (x - dest))"
    if "unat dest \<le> unat x" "unat x < unat dest + unat len" for x
  proof -
    have i: "unat x - unat dest < unat len" using that by linarith
    show ?thesis using that(1) by (simp add: nth_load_bytes [OF i] flat_read_def)
  qed
  then have l: "\<forall>x. unat dest \<le> unat x \<and> unat x < unat dest + unat len \<longrightarrow>
      load_bytes flat_read m src (unat len) ! (unat x - unat dest) = m (src + (x - dest))" by blast
  show ?thesis using assms(1) l by (intro exI [of _ "store_bytes flat_write m dest (load_bytes flat_read m src (unat len))"])
      (simp add: m flat_store del: nth_load_bytes)
qed

theorem memcpy_correct_witness:
  "\<exists>m'. memcpy flat_read flat_write 0x2000 0x1000 24 (\<lambda>a. ucast a) = Some m' \<and> m' 0x2011 = 0x11 \<and> m' 0x2018 = 0x18"
  using memcpy_correct [of "0x2000" 24 "0x1000" "\<lambda>a. ucast a"] by auto

text \<open>C36: memcmp terminates and returns zero exactly when the ranges agree, otherwise the
  difference of the first bytes that differ, on the word path as on the byte path.\<close>

theorem memcmp_correct:
  assumes "unat s1 + unat n < 2 ^ 64"
  shows "\<exists>c. memcmp flat_read s1 s2 n m = Some c
    \<and> (c = 0 \<longleftrightarrow> (\<forall>i < unat n. m (s1 + of_nat i) = m (s2 + of_nat i)))
    \<and> (\<forall>i < unat n. (\<forall>j < i. m (s1 + of_nat j) = m (s2 + of_nat j)) \<and> m (s1 + of_nat i) \<noteq> m (s2 + of_nat i)
        \<longrightarrow> c = uint (m (s1 + of_nat i)) - uint (m (s2 + of_nat i)))"
proof -
  let ?l = "\<lambda>a. load_bytes flat_read m a (unat n)"
  have z: "first_diff (?l s1) (?l s2) = 0 \<longleftrightarrow> (\<forall>i < unat n. m (s1 + of_nat i) = m (s2 + of_nat i))"
    by (subst first_diff_eq_0) (auto simp: list_eq_iff_nth_eq flat_read_def)
  have "first_diff (?l s1) (?l s2) = uint (m (s1 + of_nat i)) - uint (m (s2 + of_nat i))"
    if i: "i < unat n" "\<forall>j < i. m (s1 + of_nat j) = m (s2 + of_nat j)" "m (s1 + of_nat i) \<noteq> m (s2 + of_nat i)" for i
  proof -
    have d: "?l a = load_bytes flat_read m a i @ m (a + of_nat i) # load_bytes flat_read m (a + of_nat i + 1) (unat n - i - 1)" for a
      using load_bytes_add [of flat_read m a i "Suc (unat n - i - 1)"] i(1) by (simp add: flat_read_def)
    have "load_bytes flat_read m s1 i = load_bytes flat_read m s2 i"
      using i(2) by (intro nth_equalityI) (simp_all add: flat_read_def)
    then show ?thesis unfolding d first_diff_append using i(3) by simp (simp add: first_diff_append)
  qed
  then show ?thesis using z by (auto simp: memcmp_result [OF assms])
qed

theorem memcmp_correct_witness:
  "\<exists>c. memcmp flat_read 0x1000 0x2000 16 (\<lambda>a. ucast (drop_bit 12 a)) = Some c \<and> c = - 1"
  using memcmp_correct [of "0x1000" 16 "0x2000" "\<lambda>a. ucast (drop_bit 12 a)"] by (auto dest!: spec [of _ 0])

text \<open>\<open>atol\<close> reads back the decimal representation of every number.\<close>

lemma atol_decimal:
  assumes "cstring flat_read m str (replicate k 0x20 @ (if negative then 0x2D # decimal n else decimal n))"
  shows "atol flat_read str m = Some (if negative then - of_nat n else of_nat n)"
proof (cases negative)
  case True
  then show ?thesis using atol_signed [of flat_read m str k "0x2D" "decimal n"] assms by (simp add: decimal_value)
next
  case False
  have "hd (decimal n) \<notin> {0x20, 0x2B, 0x2D}"
    using decimal_bytes [of n] hd_in_set [of "decimal n"] by blast
  then show ?thesis
    using False atol_unsigned [of flat_read m str k "decimal n"] assms decimal_bytes(2) [of n] by (simp add: decimal_value)
qed

text \<open>C38: On terminated strings strlen returns the length and strcmp is zero exactly for equal
  strings; atol reads back the decimal representation of every number, with leading spaces
  and an optional minus sign, modulo 2^64; all three terminate.\<close>

theorem strings_correct:
  assumes "cstring flat_read m s1 xs" "cstring flat_read m s2 ys"
  shows "strlen flat_read s1 m = Some (of_nat (length xs))
    \<and> (\<exists>c. strcmp flat_read m s1 s2 = Some c \<and> (c = 0 \<longleftrightarrow> xs = ys))
    \<and> (\<forall>k negative n. xs = replicate k 0x20 @ (if negative then 0x2D # decimal n else decimal n) \<longrightarrow>
          atol flat_read s1 m = Some (if negative then - of_nat n else of_nat n))"
proof -
  have nz: "cstring flat_read m a zs \<Longrightarrow> 0 \<notin> set zs" for a zs by (induction zs arbitrary: a) auto
  have "first_diff (xs @ [0]) (ys @ [0]) = 0 \<longleftrightarrow> xs = ys"
    using nz [OF assms(1)] nz [OF assms(2)]
  proof (induction xs ys rule: list_induct2')
    case (4 x xs y ys)
    have "uint x - uint y = 0 \<longleftrightarrow> x = y" by (simp add: word_uint_eq_iff)
    with 4 show ?case by auto
  qed (simp_all add: word_uint_eq_iff)
  then show ?thesis
    using strlen_loop_result [OF assms(1)] strcmp_result [OF assms] assms(1)
    by (intro conjI allI impI atol_decimal) (simp_all add: strlen_def)
qed

theorem strings_correct_witness:
  "strlen flat_read 0 (\<lambda>a. if a = 0 \<or> a = 9 then 0x61 else 0) = Some 1
    \<and> (\<exists>c. strcmp flat_read (\<lambda>a. if a = 0 \<or> a = 9 then 0x61 else 0) 0 9 = Some c \<and> c = 0)
    \<and> atol flat_read 0 (\<lambda>a. if a = 0 then 0x20 else if a = 1 then 0x2D else if a = 2 then 0x34 else if a = 3 then 0x32 else 0)
      = Some (- 42)"
proof -
  let ?m = "\<lambda>a :: u64. if a = 0 then 0x20 else if a = 1 then 0x2D else if a = 2 then 0x34 else if a = 3 then 0x32 else (0 :: u8)"
  have d: "[0x20, 0x2D, 0x34, 0x32] = replicate 1 0x20 @ (if True then 0x2D # decimal 42 else decimal 42)"
    by (simp add: decimal.simps)
  have c: "cstring flat_read ?m 0 [0x20, 0x2D, 0x34, 0x32]" by (simp add: flat_read_def)
  have "atol flat_read 0 ?m = Some (- 42)"
    using strings_correct [OF c c] d by fastforce
  then show ?thesis
    using strings_correct [of "\<lambda>a. if a = 0 \<or> a = 9 then 0x61 else 0" 0 "[0x61]" 9 "[0x61]"] by (simp add: flat_read_def)
qed

end
