(* ===== verification/Spike_Arith.thy ===== *)
theory Spike_Arith
  imports Prelude
begin

text \<open>
  The integer helpers of the instruction-set simulator, \<open>riscv/arith.h\<close>, which its multiply-high,
  saturating and bit-manipulation instructions call.  Signed arguments are words read by \<open>sint\<close>;
  the C++ templates over the width are polymorphic in it.  A failed assertion, and a shift by the
  full width, is \<open>None\<close>.
\<close>

section \<open>Definitions\<close>

subsection \<open>Multiply high\<close>

definition mulhu :: "u64 \<Rightarrow> u64 \<Rightarrow> u64" where
  "mulhu a b =
     (let a0 = ucast (ucast a :: u32); a1 = drop_bit 32 a;
          b0 = ucast (ucast b :: u32); b1 = drop_bit 32 b;
          t = a1 * b0 + drop_bit 32 (a0 * b0);
          y1 = (ucast t :: u32); y2 = (ucast (drop_bit 32 t) :: u32);
          t = a0 * b1 + ucast y1;
          t = a1 * b1 + ucast y2 + drop_bit 32 t;
          y2 = (ucast t :: u32); y3 = (ucast (drop_bit 32 t) :: u32)
      in push_bit 32 (ucast y3) OR ucast y2)"

definition mulh :: "u64 \<Rightarrow> u64 \<Rightarrow> u64" where
  "mulh a b =
     (let negate = ((a <s 0) \<noteq> (b <s 0));
          res = mulhu (if a <s 0 then - a else a) (if b <s 0 then - b else b)
      in if negate then NOT res + of_bool (a * b = 0) else res)"

definition mulhsu :: "u64 \<Rightarrow> u64 \<Rightarrow> u64" where
  "mulhsu a b =
     (let negate = (a <s 0);
          res = mulhu (if a <s 0 then - a else a) b
      in if negate then NOT res + of_bool (a * b = 0) else res)"

subsection \<open>Saturating addition and subtraction\<close>

definition saturated_result :: "'w::len word \<Rightarrow> 'w word" where
  "saturated_result ux = (let sh = LENGTH('w) - 1 in drop_bit sh ux + (push_bit sh 1 - 1))"

definition sat_add :: "'w::len word \<Rightarrow> 'w word \<Rightarrow> 'w word \<times> bool" where
  "sat_add x y =
     (let res = x + y; ux = saturated_result x
      in if 0 \<le>s ((ux XOR y) OR NOT (y XOR res)) then (ux, True) else (res, False))"

definition sat_add3 :: "'w::len word \<Rightarrow> 'w word \<Rightarrow> 'w word \<Rightarrow> 'w word \<times> bool" where
  "sat_add3 x y z =
     (let (a, b) = (if (y XOR z) AND (x XOR z) <s 0 then (z, y) else (y, z));
          (res, sat1) = sat_add x a;
          (res, sat2) = sat_add res b
      in (res, sat1 \<or> sat2))"

definition sat_sub :: "'w::len word \<Rightarrow> 'w word \<Rightarrow> 'w word \<times> bool" where
  "sat_sub x y =
     (let res = x - y; ux = saturated_result x
      in if (ux XOR y) AND (ux XOR res) <s 0 then (ux, True) else (res, False))"

definition sat_addu :: "'w::len word \<Rightarrow> 'w word \<Rightarrow> 'w word \<times> bool" where
  "sat_addu x y = (let res = x + y; sat = (res < x) in (res OR - of_bool (res < x), sat))"

definition sat_subu :: "'w::len word \<Rightarrow> 'w word \<Rightarrow> 'w word \<times> bool" where
  "sat_subu x y = (let res = x - y; sat = (\<not> res \<le> x) in (res AND - of_bool (res \<le> x), sat))"

subsection \<open>Bit fields and counts\<close>

definition extract64 :: "u64 \<Rightarrow> int \<Rightarrow> int \<Rightarrow> u64 option" where
  "extract64 val pos len =
     (if 0 \<le> pos \<and> 0 < len \<and> len \<le> 64 - pos
      then Some (drop_bit (nat pos) val AND drop_bit (nat (64 - len)) (NOT 0)) else None)"

definition make_mask64 :: "int \<Rightarrow> int \<Rightarrow> u64 option" where
  "make_mask64 pos len =
     (if 0 \<le> pos \<and> 0 < len \<and> pos < 64 \<and> len \<le> 64
      then Some (push_bit (nat pos) (drop_bit (nat (64 - len)) (NOT 0))) else None)"

definition popcount :: "u64 \<Rightarrow> u64" where
  "popcount val =
     (let val = (val AND 0x5555555555555555) + (drop_bit 1 val AND 0x5555555555555555);
          val = (val AND 0x3333333333333333) + (drop_bit 2 val AND 0x3333333333333333);
          val = (val AND 0x0f0f0f0f0f0f0f0f) + (drop_bit 4 val AND 0x0f0f0f0f0f0f0f0f);
          val = (val AND 0x00ff00ff00ff00ff) + (drop_bit 8 val AND 0x00ff00ff00ff00ff);
          val = (val AND 0x0000ffff0000ffff) + (drop_bit 16 val AND 0x0000ffff0000ffff);
          val = (val AND 0x00000000ffffffff) + (drop_bit 32 val AND 0x00000000ffffffff)
      in val)"

definition ctz :: "u64 \<Rightarrow> nat" where
  "ctz val =
     (if val = 0 then 0
      else let step = (\<lambda>(res, val) k. if push_bit (64 - k) val = 0 then (res + k, drop_bit k val) else (res, val))
           in fst (foldl step (0, val) [32, 16, 8, 4, 2, 1]))"

definition clz :: "u64 \<Rightarrow> nat" where
  "clz val =
     (if val = 0 then 0
      else let step = (\<lambda>(res, val) k. if drop_bit (64 - k) val = 0 then (res + k, push_bit k val) else (res, val))
           in fst (foldl step (0, val) [32, 16, 8, 4, 2, 1]))"

function cto :: "u64 \<Rightarrow> nat" where
  "cto val = (if val AND 1 = 1 then Suc (cto (drop_bit 1 val)) else 0)"
  by pat_completeness auto

termination
proof (relation "measure unat")
  fix val :: u64
  assume "val AND 1 = 1"
  then have "val \<noteq> 0" by auto
  then show "(drop_bit 1 val, val) \<in> measure unat" by (simp add: unat_drop word_neq_0_iff)
qed simp

declare cto.simps [simp del]

definition log2 :: "u64 \<Rightarrow> nat" where
  "log2 val = (if val = 0 then 0 else 63 - clz val)"

subsection \<open>Permutations\<close>

function xperm_loop :: "nat \<Rightarrow> nat \<Rightarrow> u64 \<Rightarrow> u64 \<Rightarrow> nat \<Rightarrow> u64 \<Rightarrow> u64" where
  "xperm_loop sz_log2 len rs1 rs2 i r =
     (if i < len
      then let sz = 2 ^ sz_log2; mask = push_bit sz 1 - 1;
               pos = push_bit sz_log2 (drop_bit i rs2 AND mask);
               r = (if pos < of_nat len then r OR push_bit i (drop_bit (unat pos) rs1 AND mask) else r)
           in xperm_loop sz_log2 len rs1 rs2 (i + sz) r
      else r)"
  by pat_completeness auto

termination by (relation "measure (\<lambda>(_, len, _, _, i, _). len - i)") (auto simp: diff_less_mono2)

declare xperm_loop.simps [simp del]

definition xperm :: "u64 \<Rightarrow> u64 \<Rightarrow> nat \<Rightarrow> nat \<Rightarrow> u64 option" where
  "xperm rs1 rs2 sz_log2 len =
     (if sz_log2 < 6 \<and> len \<le> 64 then Some (xperm_loop sz_log2 len rs1 rs2 0 0) else None)"

definition rotate_right :: "'w::len word \<Rightarrow> u64 \<Rightarrow> 'w word" where
  "rotate_right x shiftamt =
     (let mask = of_nat (LENGTH('w) - 1); rshift = shiftamt AND mask; lshift = - rshift AND mask
      in push_bit (unat lshift) x OR drop_bit (unat rshift) x)"

definition rotate_left :: "'w::len word \<Rightarrow> u64 \<Rightarrow> 'w word" where
  "rotate_left x shiftamt =
     (let mask = of_nat (LENGTH('w) - 1); lshift = shiftamt AND mask; rshift = - lshift AND mask
      in push_bit (unat lshift) x OR drop_bit (unat rshift) x)"

section \<open>Multiply high\<close>

lemma mulhu_nat:
  fixes a0 a1 b0 b1 :: nat
  assumes B: "B = 2 ^ 32" and r: "a0 < B" "b0 < B"
  defines "t1 \<equiv> a1 * b0 + a0 * b0 div B"
  defines "t2 \<equiv> a0 * b1 + t1 mod B"
  shows "(a1 * B + a0) * (b1 * B + b0) div B ^ 2 = a1 * b1 + t1 div B + t2 div B"
proof -
  have p: "0 < B" using B by simp
  define l where "l = a0 * b0 mod B"
  define q1 m1 q2 m2 where "q1 = t1 div B" "m1 = t1 mod B" "q2 = t2 div B" "m2 = t2 mod B"
  note d = q1_m1_q2_m2_def
  have e1: "a1 * b0 + a0 * b0 div B = q1 * B + m1" and e2: "a0 * b1 + m1 = q2 * B + m2"
    using t1_def t2_def by (simp_all add: d)
  have e0: "a0 * b0 = a0 * b0 div B * B + l" by (simp add: l_def)
  have "(a1 * B + a0) * (b1 * B + b0) = a1 * b1 * B ^ 2 + (a1 * b0) * B + (a0 * b1) * B + a0 * b0"
    by (simp add: algebra_simps power2_eq_square)
  also have "\<dots> = a1 * b1 * B ^ 2 + (a1 * b0 + a0 * b0 div B) * B + (a0 * b1) * B + l"
    by (subst e0) (simp add: algebra_simps)
  also have "\<dots> = (a1 * b1 + q1) * B ^ 2 + (a0 * b1 + m1) * B + l"
    unfolding e1 by (simp add: algebra_simps power2_eq_square)
  also have "\<dots> = (a1 * b1 + q1 + q2) * B ^ 2 + (m2 * B + l)"
    unfolding e2 by (simp add: algebra_simps power2_eq_square)
  finally have e: "(a1 * B + a0) * (b1 * B + b0)
      = (a1 * b1 + t1 div B + t2 div B) * B ^ 2 + (t2 mod B * B + a0 * b0 mod B)"
    by (simp only: d l_def)
  have "t2 mod B * B + a0 * b0 mod B < B ^ 2"
  proof -
    have "t2 mod B \<le> B - 1" "a0 * b0 mod B < B" using p by (simp_all add: Suc_leI less_Suc_eq_le [symmetric])
    then have "t2 mod B * B + a0 * b0 mod B < (B - 1) * B + B" by (intro add_le_less_mono mult_le_mono1)
    also have "\<dots> = B ^ 2" using p by (simp add: power2_eq_square algebra_simps)
    finally show ?thesis .
  qed
  then show ?thesis unfolding e using p by simp
qed

lemma mulhu_result: "unat (mulhu a b) = unat a * unat b div 2 ^ 64"
proof -
  define B :: nat where "B = 2 ^ 32"
  define a0 a1 b0 b1 where "a0 = unat a mod B" "a1 = unat a div B" "b0 = unat b mod B" "b1 = unat b div B"
  have bd: "a0 < B" "a1 < B" "b0 < B" "b1 < B"
    using unat_lt_64 [of a] unat_lt_64 [of b] by (simp_all add: a0_a1_b0_b1_def B_def less_mult_imp_div_less)
  have ab: "unat a = a1 * B + a0" "unat b = b1 * B + b0" by (simp_all add: a0_a1_b0_b1_def)
  define t1 where "t1 = a1 * b0 + a0 * b0 div B"
  define t2 where "t2 = a0 * b1 + t1 mod B"
  define t3 where "t3 = a1 * b1 + t1 div B + t2 div B"
  have prod: "x * y \<le> (B - 1) * (B - 1)" if "x < B" "y < B" for x y using that by (intro mult_le_mono) simp_all
  have divb: "x * y div B \<le> B - 1" if "x < B" "y < B" for x y
  proof -
    have "x * y \<le> (B - 1) * B" using that by (intro mult_le_mono) simp_all
    then show ?thesis using div_le_mono [of "x * y" "(B - 1) * B" B] by (simp add: B_def)
  qed
  have l1: "t1 < 2 ^ 64" using prod [OF bd(2,3)] divb [OF bd(1,3)] by (simp add: t1_def B_def)
  have l2: "t2 < 2 ^ 64" using prod [OF bd(1,4)] mod_less_divisor [of B t1] by (simp add: t2_def B_def)
  have e3: "unat a * unat b div 2 ^ 64 = t3"
    using mulhu_nat [OF B_def bd(1,3), of a1 b1] unfolding ab t3_def t2_def t1_def by (simp add: B_def)
  have l3: "t3 < 2 ^ 64"
  proof -
    have "unat a * unat b < 2 ^ 64 * 2 ^ 64" using unat_lt_64 [of a] unat_lt_64 [of b] by (intro mult_strict_mono) simp_all
    then show ?thesis unfolding e3 [symmetric] by (simp add: less_mult_imp_div_less)
  qed
  have u: "unat (ucast (ucast a :: u32) :: u64) = a0" "unat (drop_bit 32 a) = a1"
    "unat (ucast (ucast b :: u32) :: u64) = b0" "unat (drop_bit 32 b) = b1"
    by (simp_all add: unat_ucast_mod unat_drop a0_a1_b0_b1_def B_def)
  define A0 A1 B0 B1 where "A0 = (ucast (ucast a :: u32) :: u64)" "A1 = drop_bit 32 a"
    "B0 = (ucast (ucast b :: u32) :: u64)" "B1 = drop_bit 32 b"
  note u' = u [folded A0_A1_B0_B1_def]
  have low: "unat (A0 * B0) = a0 * b0" using prod [OF bd(1,3)] by (subst unat_mult_no_wrap) (simp_all add: u' B_def)
  define T1 where "T1 = A1 * B0 + drop_bit 32 (A0 * B0)"
  have T1: "unat T1 = t1"
  proof -
    have "unat (A1 * B0) = a1 * b0" using prod [OF bd(2,3)] by (subst unat_mult_no_wrap) (simp_all add: u' B_def)
    then show ?thesis unfolding T1_def using l1
      by (subst unat_add_no_wrap) (simp_all add: unat_drop low t1_def B_def)
  qed
  define T2 where "T2 = A0 * B1 + ucast (ucast T1 :: u32)"
  have T2: "unat T2 = t2"
  proof -
    have "unat (A0 * B1) = a0 * b1" using prod [OF bd(1,4)] by (subst unat_mult_no_wrap) (simp_all add: u' B_def)
    moreover have "unat (ucast (ucast T1 :: u32) :: u64) = t1 mod B" by (simp add: unat_ucast_mod T1 B_def)
    ultimately show ?thesis unfolding T2_def using l2
      by (subst unat_add_no_wrap) (simp_all add: t2_def B_def)
  qed
  define T3 where "T3 = A1 * B1 + ucast (ucast (drop_bit 32 T1) :: u32) + drop_bit 32 T2"
  have T3: "unat T3 = t3"
  proof -
    have "unat (A1 * B1) = a1 * b1" using prod [OF bd(2,4)] by (subst unat_mult_no_wrap) (simp_all add: u' B_def)
    moreover have "unat (ucast (ucast (drop_bit 32 T1) :: u32) :: u64) = t1 div B"
      using l1 by (simp add: unat_ucast_mod unat_drop T1 B_def)
    moreover have "unat (drop_bit 32 T2) = t2 div B" by (simp add: unat_drop T2 B_def)
    ultimately show ?thesis unfolding T3_def using l3
      by (subst unat_add3) (simp_all add: t3_def)
  qed
  have "mulhu a b = push_bit 32 (ucast (ucast (drop_bit 32 T3) :: u32)) OR ucast (ucast T3 :: u32)"
    by (simp only: mulhu_def Let_def T3_def T2_def T1_def A0_A1_B0_B1_def)
  also have "\<dots> = T3" by (rule bit_eqI) (auto simp: bit_simps)
  finally show ?thesis by (simp only: T3 e3)
qed

lemma sless_0: "a <s 0 \<longleftrightarrow> sint (a :: 'w::len word) < 0"
  by (simp add: word_sless_alt)

lemma sint_word_of_int:
  "- (2 ^ (LENGTH('w) - 1)) \<le> k \<Longrightarrow> k < 2 ^ (LENGTH('w) - 1) \<Longrightarrow> sint (word_of_int k :: 'w::len word) = k"
  by (simp add: sint_sbintrunc' signed_take_bit_int_eq_self)

lemma unat_abs: "unat (if a <s 0 then - a else a) = nat \<bar>sint (a :: u64)\<bar>"
proof (cases "a <s 0")
  case True
  have n: "sint a < 0" "- (2 ^ 63) \<le> sint a" using True sint_ge [of a] by (simp_all add: sless_0)
  have "- a = word_of_int (- sint a)" by simp
  then have "uint (- a) = - sint a mod 2 ^ 64" by (simp only: uint_word_of_int) simp
  also have "\<dots> = - sint a" using n by (intro mod_pos_pos_trivial) simp_all
  finally have "uint (- a) = - sint a" .
  then show ?thesis using True n by (simp add: unat_eq_nat_uint)
next
  case False
  then have n: "0 \<le> sint a" "sint a < 2 ^ 63" using sint_lt [of a] by (simp_all add: sless_0)
  have "uint (word_of_int (sint a) :: u64) = sint a mod 2 ^ 64" by (simp only: uint_word_of_int) simp
  also have "\<dots> = sint a" using n by (intro mod_pos_pos_trivial) simp_all
  finally have "uint a = sint a" by simp
  then show ?thesis using False n by (simp add: unat_eq_nat_uint)
qed

lemma signed_high:
  fixes x y :: int
  assumes "unat A = nat \<bar>x\<bar>" "unat B = nat \<bar>y\<bar>" "ab = (word_of_int (x * y) :: u64)" "negate \<longleftrightarrow> (x < 0) \<noteq> (y < 0)"
  shows "(if negate then NOT (mulhu A B) + of_bool (ab = 0) else mulhu A B) = word_of_int (x * y div 2 ^ 64)"
proof -
  let ?P = "\<bar>x\<bar> * \<bar>y\<bar>"
  have "int (unat (mulhu A B)) = ?P div 2 ^ 64"
    unfolding mulhu_result assms(1,2) by (simp add: zdiv_int)
  moreover have "mulhu A B = word_of_int (int (unat (mulhu A B)))" by simp
  ultimately have h: "mulhu A B = word_of_int (?P div 2 ^ 64)" by (simp only:)
  have z: "ab = 0 \<longleftrightarrow> ?P mod 2 ^ 64 = 0"
  proof -
    have "ab = 0 \<longleftrightarrow> 2 ^ 64 dvd x * y" unfolding assms(3) word_of_int_eq_0_iff by simp
    also have "\<dots> \<longleftrightarrow> 2 ^ 64 dvd ?P" by (simp add: abs_mult [symmetric])
    finally show ?thesis by (simp add: dvd_eq_mod_eq_0)
  qed
  show ?thesis
  proof (cases negate)
    case True
    then have "x * y = - ?P" using assms(4) by (auto simp: abs_if)
    then have "x * y div 2 ^ 64 = - (?P div 2 ^ 64) - 1 + of_bool (?P mod 2 ^ 64 = 0)"
      by (simp add: zdiv_zminus1_eq_if)
    then show ?thesis using True z by (simp add: h not_eq_complement)
  next
    case False
    then have "x * y = ?P" using assms(4) by (auto simp: abs_if)
    then show ?thesis using False by (simp add: h)
  qed
qed

lemma high_word:
  fixes z :: int
  assumes "\<bar>z\<bar> \<le> 2 ^ 63 * (2 ^ 64 - 1)"
  shows "sint (word_of_int (z div 2 ^ 64) :: u64) = z div 2 ^ 64"
proof (rule sint_word_of_int)
  show "z div 2 ^ 64 < 2 ^ (LENGTH(64) - 1)"
    using zdiv_mono1 [of z "2 ^ 63 * (2 ^ 64 - 1)" "2 ^ 64"] assms by simp
  show "- (2 ^ (LENGTH(64) - 1)) \<le> z div 2 ^ 64"
    using zdiv_mono1 [of "- (2 ^ 63 * (2 ^ 64 - 1))" z "2 ^ 64"] assms by simp
qed

lemma mulh_result: "sint (mulh a b) = sint a * sint b div 2 ^ 64"
proof -
  have "a * b = word_of_int (sint a * sint b)" by simp
  then have "mulh a b = word_of_int (sint a * sint b div 2 ^ 64)"
    unfolding mulh_def Let_def
    by (intro signed_high unat_abs) (simp_all add: sless_0)
  moreover have "\<bar>sint a * sint b\<bar> \<le> 2 ^ 63 * (2 ^ 64 - 1)"
    unfolding abs_mult using sint_ge [of a] sint_lt [of a] sint_ge [of b] sint_lt [of b] by (intro mult_mono) auto
  from high_word [OF this] have "sint (word_of_int (sint a * sint b div 2 ^ 64) :: u64) = sint a * sint b div 2 ^ 64" .
  ultimately show ?thesis by (simp only:)
qed

lemma mulhsu_result: "sint (mulhsu a b) = sint a * uint b div 2 ^ 64"
proof -
  have "a * b = word_of_int (sint a * uint b)" by simp
  then have "mulhsu a b = word_of_int (sint a * uint b div 2 ^ 64)"
    unfolding mulhsu_def Let_def
    by (intro signed_high unat_abs) (simp_all add: sless_0)
  moreover have "\<bar>sint a * uint b\<bar> \<le> 2 ^ 63 * (2 ^ 64 - 1)"
    unfolding abs_mult using sint_ge [of a] sint_lt [of a] uint_lt2p [of b] by (intro mult_mono) auto
  from high_word [OF this] have "sint (word_of_int (sint a * uint b div 2 ^ 64) :: u64) = sint a * uint b div 2 ^ 64" .
  ultimately show ?thesis by (simp only:)
qed

section \<open>Saturation\<close>

definition clamp :: "int \<Rightarrow> int \<Rightarrow> int \<Rightarrow> int" where
  "clamp lo hi k = (if k < lo then lo else if hi < k then hi else k)"

abbreviation (input) smin :: "'w::len itself \<Rightarrow> int" where "smin w \<equiv> - (2 ^ (LENGTH('w) - 1))"
abbreviation (input) smax :: "'w::len itself \<Rightarrow> int" where "smax w \<equiv> 2 ^ (LENGTH('w) - 1) - 1"

lemma sint_range: "smin TYPE('w) \<le> sint (a :: 'w::len word)" "sint (a :: 'w::len word) \<le> smax TYPE('w)"
  using sint_ge [of a] sint_lt [of a] by simp_all

lemma sign_bit: "bit (a :: 'w::len word) (LENGTH('w) - 1) \<longleftrightarrow> sint a < 0"
  by (simp add: bit_last_iff)

lemma sint_wrap:
  fixes k :: int
  assumes "- (2 ^ LENGTH('w)) \<le> k" "k < 2 ^ LENGTH('w)"
  shows "sint (word_of_int k :: 'w::len word) = (if k < smin TYPE('w) then k + 2 ^ LENGTH('w)
    else if smax TYPE('w) < k then k - 2 ^ LENGTH('w) else k)"
proof -
  have p: "(2 :: int) ^ LENGTH('w) = 2 * 2 ^ (LENGTH('w) - 1)" by (simp add: power_Suc [symmetric])
  have "word_of_int (k + 2 ^ LENGTH('w)) = (word_of_int k :: 'w word)" "word_of_int (k - 2 ^ LENGTH('w)) = (word_of_int k :: 'w word)"
    by simp_all
  then show ?thesis
    using assms sint_word_of_int [of "k + 2 ^ LENGTH('w)", where 'w = 'w] sint_word_of_int [of "k - 2 ^ LENGTH('w)", where 'w = 'w]
      sint_word_of_int [of k, where 'w = 'w] unfolding p by auto
qed

lemma saturated_result: "sint (saturated_result (x :: 'w::len word)) = (if sint x < 0 then smin TYPE('w) else smax TYPE('w))"
proof -
  have d: "drop_bit (LENGTH('w) - 1) x = of_bool (sint x < 0)"
  proof (rule bit_eqI)
    fix n
    show "bit (drop_bit (LENGTH('w) - 1) x) n \<longleftrightarrow> bit (of_bool (sint x < 0) :: 'w word) n"
      unfolding sign_bit [symmetric]
      using bit_imp_le_length [of x "LENGTH('w) - 1 + n"]
      by (cases "n = 0") (auto simp: bit_simps)
  qed
  have "push_bit (LENGTH('w) - 1) 1 = (word_of_int (2 ^ (LENGTH('w) - 1)) :: 'w word)" by (simp add: push_bit_eq_mult)
  then have r: "sint x < 0 \<Longrightarrow> saturated_result x = word_of_int (2 ^ (LENGTH('w) - 1))"
    "\<not> sint x < 0 \<Longrightarrow> saturated_result x = word_of_int (smax TYPE('w))"
    unfolding saturated_result_def Let_def d by simp_all
  have m: "word_of_int (2 ^ (LENGTH('w) - 1)) = (word_of_int (smin TYPE('w)) :: 'w word)"
  proof -
    have "(2 :: 'w word) ^ (LENGTH('w) - 1) + 2 ^ (LENGTH('w) - 1) = 2 ^ LENGTH('w)"
      by (simp flip: mult_2 power_Suc)
    then show ?thesis by (simp add: eq_neg_iff_add_eq_0)
  qed
  show ?thesis
  proof (cases "sint x < 0")
    case True
    then show ?thesis by (simp only: r m if_True) (rule sint_word_of_int, simp_all)
  next
    case False
    then show ?thesis by (simp only: r simp_thms if_False) (rule sint_word_of_int, simp_all)
  qed
qed

lemma sign_ops:
  fixes a b :: "'w::len word"
  shows "sint (a XOR b) < 0 \<longleftrightarrow> (sint a < 0) \<noteq> (sint b < 0)" "sint (a OR b) < 0 \<longleftrightarrow> sint a < 0 \<or> sint b < 0"
    "sint (a AND b) < 0 \<longleftrightarrow> sint a < 0 \<and> sint b < 0" "sint (NOT a) < 0 \<longleftrightarrow> \<not> sint a < 0"
  by (simp_all add: sign_bit [symmetric] bit_simps)

lemma two_power_length: "(2 :: int) ^ LENGTH('w::len) = 2 * 2 ^ (LENGTH('w) - 1)"
  by (simp flip: power_Suc)

lemma sat_add_result:
  fixes x y :: "'w::len word"
  shows "sat_add x y = (word_of_int (clamp (smin TYPE('w)) (smax TYPE('w)) (sint x + sint y)),
    sint x + sint y < smin TYPE('w) \<or> smax TYPE('w) < sint x + sint y)"
proof -
  define H :: int where "H = 2 ^ (LENGTH('w) - 1)"
  have H: "0 < H" by (simp add: H_def)
  note rx = sint_range [of x, folded H_def] and ry = sint_range [of y, folded H_def]
  define S where "S = sint x + sint y"
  have S: "word_of_int S = x + y" by (simp add: S_def)
  have w: "sint (x + y) = (if S < - H then S + 2 * H else if H - 1 < S then S - 2 * H else S)"
    unfolding S [symmetric] using sint_wrap [of S, where 'w = 'w] rx ry
    by (simp add: two_power_length H_def S_def)
  note sr = saturated_result [of x, folded H_def]
  have sw: "saturated_result x = word_of_int (if sint x < 0 then - H else H - 1)"
    unfolding sr [symmetric] by simp
  have c: "0 \<le>s ((saturated_result x XOR y) OR NOT (y XOR (x + y))) \<longleftrightarrow> S < - H \<or> H - 1 < S"
    using rx ry H sr unfolding word_sle_eq sint_0 not_less [symmetric] sign_ops w S_def by (auto split: if_splits)
  show ?thesis
    using rx ry unfolding sat_add_def Let_def c unfolding sw H_def [symmetric] S_def [symmetric]
    by (auto simp: clamp_def S S_def)
qed

lemma sat_sub_result:
  fixes x y :: "'w::len word"
  shows "sat_sub x y = (word_of_int (clamp (smin TYPE('w)) (smax TYPE('w)) (sint x - sint y)),
    sint x - sint y < smin TYPE('w) \<or> smax TYPE('w) < sint x - sint y)"
proof -
  define H :: int where "H = 2 ^ (LENGTH('w) - 1)"
  have H: "0 < H" by (simp add: H_def)
  note rx = sint_range [of x, folded H_def] and ry = sint_range [of y, folded H_def]
  define S where "S = sint x - sint y"
  have S: "word_of_int S = x - y" by (simp add: S_def)
  have w: "sint (x - y) = (if S < - H then S + 2 * H else if H - 1 < S then S - 2 * H else S)"
    unfolding S [symmetric] using sint_wrap [of S, where 'w = 'w] rx ry
    by (simp add: two_power_length H_def S_def)
  note sr = saturated_result [of x, folded H_def]
  have sw: "saturated_result x = word_of_int (if sint x < 0 then - H else H - 1)"
    unfolding sr [symmetric] by simp
  have c: "(saturated_result x XOR y) AND (saturated_result x XOR (x - y)) <s 0 \<longleftrightarrow> S < - H \<or> H - 1 < S"
    using rx ry H sr unfolding sless_0 sign_ops w S_def by (auto split: if_splits)
  show ?thesis
    using rx ry unfolding sat_sub_def Let_def c unfolding sw H_def [symmetric] S_def [symmetric]
    by (auto simp: clamp_def S S_def)
qed

lemma sint_clamp:
  "sint (word_of_int (clamp (smin TYPE('w)) (smax TYPE('w)) k) :: 'w::len word) = clamp (smin TYPE('w)) (smax TYPE('w)) k"
proof (rule sint_word_of_int)
  define H :: int where "H = 2 ^ (LENGTH('w) - 1)"
  have H: "0 < H" by (simp add: H_def)
  then show "smin TYPE('w) \<le> clamp (smin TYPE('w)) (smax TYPE('w)) k" "clamp (smin TYPE('w)) (smax TYPE('w)) k < 2 ^ (LENGTH('w) - 1)"
    unfolding H_def [symmetric] by (auto simp: clamp_def)
qed

lemma sat_add3_result:
  fixes x y z :: "'w::len word"
  shows "sat_add3 x y z = (word_of_int (clamp (smin TYPE('w)) (smax TYPE('w)) (sint x + sint y + sint z)),
    sint x + sint y + sint z < smin TYPE('w) \<or> smax TYPE('w) < sint x + sint y + sint z)"
proof -
  define H :: int where "H = 2 ^ (LENGTH('w) - 1)"
  have H: "0 < H" by (simp add: H_def)
  note r = sint_range [of x, folded H_def] sint_range [of y, folded H_def] sint_range [of z, folded H_def]
  define C where "C = clamp (- H) (H - 1)"
  have add: "sat_add u v = (word_of_int (C (sint u + sint v)), sint u + sint v < - H \<or> H - 1 < sint u + sint v)"
    for u v :: "'w word"
    using sat_add_result [of u v] unfolding C_def H_def .
  have cl: "sint (word_of_int (C k) :: 'w word) = C k" for k
    using sint_clamp [where 'w = 'w] unfolding C_def H_def .
  have s: "(y XOR z) AND (x XOR z) <s 0 \<longleftrightarrow> (sint y < 0) \<noteq> (sint z < 0) \<and> (sint x < 0) \<noteq> (sint z < 0)"
    by (simp only: sless_0 sign_ops)
  show ?thesis
    unfolding sat_add3_def s H_def [symmetric] C_def [symmetric]
    using r H by (auto simp: add cl) (auto simp: C_def clamp_def split: if_splits)
qed

lemma sat_addu_result:
  fixes x y :: "'w::len word"
  shows "sat_addu x y = (word_of_nat (min (2 ^ LENGTH('w) - 1) (unat x + unat y)), 2 ^ LENGTH('w) \<le> unat x + unat y)"
proof (cases "unat x + unat y < 2 ^ LENGTH('w)")
  case True
  then have u: "unat (x + y) = unat x + unat y" by (rule unat_add_no_wrap)
  then have "\<not> x + y < x" by (simp add: word_less_nat_alt)
  moreover have "min (2 ^ LENGTH('w) - 1) (unat x + unat y) = unat (x + y)" using True u by simp
  then have "word_of_nat (min (2 ^ LENGTH('w) - 1) (unat x + unat y)) = x + y" by (simp only: of_nat_unat ucast_id)
  ultimately show ?thesis using True unfolding sat_addu_def Let_def by (simp only:) simp
next
  case False
  have b: "unat x < 2 ^ LENGTH('w)" "unat y < 2 ^ LENGTH('w)" by (rule unsigned_less)+
  have "unat (x + y) = unat x + unat y - 2 ^ LENGTH('w)"
  proof -
    have "unat x + unat y - 2 ^ LENGTH('w) < 2 ^ LENGTH('w)" using b by linarith
    then show ?thesis using False by (simp add: unat_word_ariths le_mod_geq)
  qed
  then have "unat (x + y) < unat x" using False b by linarith
  then have "x + y < x" by (simp add: word_less_nat_alt)
  moreover have "min (2 ^ LENGTH('w) - 1) (unat x + unat y) = 2 ^ LENGTH('w) - 1" using False by simp
  moreover have "word_of_nat (2 ^ LENGTH('w) - 1) = (- 1 :: 'w word)" by (simp add: of_nat_diff)
  ultimately show ?thesis using False unfolding sat_addu_def Let_def by simp
qed

lemma sat_subu_result:
  fixes x y :: "'w::len word"
  shows "sat_subu x y = (word_of_nat (unat x - unat y), unat x < unat y)"
proof (cases "y \<le> x")
  case True
  then have u: "unat (x - y) = unat x - unat y" by (simp add: unat_sub)
  then have "x - y \<le> x" by (simp add: word_le_nat_alt)
  moreover have "word_of_nat (unat x - unat y) = x - y" unfolding u [symmetric] by (simp only: of_nat_unat ucast_id)
  ultimately show ?thesis using True unfolding sat_subu_def Let_def by (simp only:) (simp add: word_le_nat_alt)
next
  case False
  then have "\<not> x - y \<le> x" by (simp add: word_sub_le_iff)
  then show ?thesis using False unfolding sat_subu_def Let_def by (simp add: word_le_nat_alt)
qed

section \<open>Bit counts\<close>

text \<open>The binary searches halve the window in which the first set bit lies.\<close>

lemma word_bit_ex: "(w :: 'w::len word) \<noteq> 0 \<Longrightarrow> \<exists>j. bit w j"
  by (rule ccontr) (auto intro: bit_eqI)

definition ctz_window :: "u64 \<Rightarrow> nat \<Rightarrow> nat \<times> u64 \<Rightarrow> bool" where
  "ctz_window val n st =
     (snd st = drop_bit (fst st) val \<and> take_bit (fst st) val = 0 \<and> take_bit n (snd st) \<noteq> 0)"

lemma ctz_window_step:
  assumes "ctz_window val (2 * k) (res, v)" "k \<le> 32"
  shows "ctz_window val k (if push_bit (64 - k) v = 0 then (res + k, drop_bit k v) else (res, v))"
proof -
  have p: "push_bit (64 - k) v = 0 \<longleftrightarrow> take_bit k v = 0"
  proof -
    have "push_bit (64 - k) v = 0 \<longleftrightarrow> (\<forall>i < k. \<not> bit v i)"
    proof
      assume z: "push_bit (64 - k) v = 0"
      show "\<forall>i < k. \<not> bit v i"
      proof (intro allI impI)
        fix i assume "i < k"
        then show "\<not> bit v i" using arg_cong [OF z, of "\<lambda>w. bit w (i + (64 - k))"] assms(2) by (simp add: bit_simps)
      qed
    qed (auto intro!: bit_eqI simp: bit_simps)
    also have "\<dots> \<longleftrightarrow> take_bit k v = 0"
      using word_bit_ex [of "take_bit k v"] by (auto simp: bit_simps dest: arg_cong [where f = "\<lambda>w. bit w _"])
    finally show ?thesis .
  qed
  note a = assms(1) [unfolded ctz_window_def fst_conv snd_conv]
  show ?thesis
  proof (cases "take_bit k v = 0")
    case True
    have "take_bit k (drop_bit k v) \<noteq> 0"
    proof
      assume z: "take_bit k (drop_bit k v) = 0"
      have "take_bit (2 * k) v = take_bit k v OR push_bit k (take_bit k (drop_bit k v))"
        by (rule bit_eqI) (auto simp: bit_simps)
      then have "take_bit (2 * k) v = 0" unfolding z True by simp
      then show False using a by blast
    qed
    moreover have "take_bit (res + k) val = 0"
    proof (rule bit_eqI)
      fix i
      have v: "bit v (i - res) \<longleftrightarrow> bit val i" if "res \<le> i"
        using a that by (simp add: bit_simps)
      have "\<not> bit val i" if "i < res + k"
      proof (cases "i < res")
        case True
        then show ?thesis using arg_cong [OF a [THEN conjunct2, THEN conjunct1], of "\<lambda>w. bit w i"] by (simp add: bit_simps)
      next
        case False
        then have "i - res < k" using that by simp
        then have "\<not> bit v (i - res)" using arg_cong [OF True, of "\<lambda>w. bit w (i - res)"] by (simp add: bit_simps)
        then show ?thesis using v False by simp
      qed
      then show "bit (take_bit (res + k) val) i = bit 0 i" by (auto simp: bit_simps)
    qed
    ultimately show ?thesis using p True a by (simp add: ctz_window_def drop_bit_drop_bit add.commute)
  next
    case False
    then show ?thesis using p a by (simp add: ctz_window_def)
  qed
qed

lemma drop_bit_64: "drop_bit 64 (val :: u64) = 0"
  by (rule bit_eqI) (simp add: bit_simps)

definition clz_window :: "u64 \<Rightarrow> nat \<Rightarrow> nat \<times> u64 \<Rightarrow> bool" where
  "clz_window val n st =
     (snd st = push_bit (fst st) val \<and> drop_bit (64 - fst st) val = 0 \<and> drop_bit (64 - n) (snd st) \<noteq> 0 \<and> fst st + n \<le> 64)"

lemma clz_window_step:
  assumes "clz_window val (2 * k) (res, v)"
  shows "clz_window val k (if drop_bit (64 - k) v = 0 then (res + k, push_bit k v) else (res, v))"
proof -
  note a = assms [unfolded clz_window_def fst_conv snd_conv]
  show ?thesis
  proof (cases "drop_bit (64 - k) v = 0")
    case True
    have nb: "\<not> bit v i" if "64 - k \<le> i" for i
      using arg_cong [OF True, of "\<lambda>w. bit w (i - (64 - k))"] that by (simp add: bit_simps)
    obtain i where i: "64 - 2 * k \<le> i" "bit v i" "i < 64"
    proof -
      obtain j where "bit (drop_bit (64 - 2 * k) v) j" using word_bit_ex a by blast
      then show ?thesis using that [of "64 - 2 * k + j"] bit_imp_le_length [of v "64 - 2 * k + j"] by (auto simp: bit_simps)
    qed
    then have "i < 64 - k" using nb not_le by blast
    then have "bit (drop_bit (64 - k) (push_bit k v)) (i - (64 - 2 * k))"
      using i a by (simp add: bit_simps)
    then have "drop_bit (64 - k) (push_bit k v) \<noteq> 0" by (metis bit_0_eq bot_apply bot_bool_def)
    moreover have "drop_bit (64 - (res + k)) val = 0"
    proof (rule bit_eqI)
      fix i :: nat
      show "bit (drop_bit (64 - (res + k)) val) i = bit 0 i"
      proof (cases "i < k")
        case True
        have n: "\<not> bit v (64 - k + i)" using nb by simp
        have "res \<le> 64 - k + i" "64 - k + i < 64" "64 - k + i - res = 64 - (res + k) + i" using a True by linarith+
        moreover have "bit v m \<longleftrightarrow> m < 64 \<and> res \<le> m \<and> bit val (m - res)" for m
          using a by (auto simp: bit_simps)
        ultimately have "\<not> bit val (64 - (res + k) + i)" using n by simp
        then show ?thesis by (simp add: bit_drop_bit_eq)
      next
        case False
        have "\<not> bit (drop_bit (64 - res) val) (i - k)" using a by simp
        moreover have "64 - res + (i - k) = 64 - (res + k) + i" using a False by linarith
        ultimately show ?thesis by (simp only: bit_drop_bit_eq comp_apply bit_0_eq bot_apply) simp
      qed
    qed
    ultimately show ?thesis using True a by (simp add: clz_window_def push_bit_push_bit add.commute)
  next
    case False
    then show ?thesis using a by (simp add: clz_window_def)
  qed
qed

lemma ctz_result:
  assumes "val \<noteq> 0"
  shows "bit val (ctz val)" "\<And>j. j < ctz val \<Longrightarrow> \<not> bit val j"
proof -
  define step :: "nat \<times> u64 \<Rightarrow> nat \<Rightarrow> nat \<times> u64" where
    "step = (\<lambda>(res, val) k. if push_bit (64 - k) val = 0 then (res + k, drop_bit k val) else (res, val))"
  have s: "ctz_window val k (step st k)" if "ctz_window val (2 * k) st" "k \<le> 32" for st k
  proof -
    obtain r v where st: "st = (r, v)" by (cases st)
    show ?thesis using ctz_window_step [of val k r v] that unfolding st step_def by simp
  qed
  have "ctz_window val (2 * 32) (0, val)" using assms by (simp add: ctz_window_def take_bit_length_eq [where 'a = 64, simplified])
  from s [OF this] have "ctz_window val (2 * 16) (step (0, val) 32)" by simp
  from s [OF this] have "ctz_window val (2 * 8) (step (step (0, val) 32) 16)" by simp
  from s [OF this] have "ctz_window val (2 * 4) (step (step (step (0, val) 32) 16) 8)" by simp
  from s [OF this] have "ctz_window val (2 * 2) (step (step (step (step (0, val) 32) 16) 8) 4)" by simp
  from s [OF this] have "ctz_window val (2 * 1) (step (step (step (step (step (0, val) 32) 16) 8) 4) 2)" by simp
  from s [OF this] have "ctz_window val 1 (foldl step (0, val) [32, 16, 8, 4, 2, 1])" by simp
  moreover have c: "ctz val = fst (foldl step (0, val) [32, 16, 8, 4, 2, 1])"
    using assms by (simp only: ctz_def if_False Let_def step_def)
  ultimately have w: "take_bit (ctz val) val = 0" "take_bit 1 (drop_bit (ctz val) val) \<noteq> 0"
    unfolding ctz_window_def c by (blast, metis)
  show "bit val (ctz val)"
  proof -
    obtain j where "bit (take_bit 1 (drop_bit (ctz val) val)) j" using word_bit_ex [OF w(2)] by blast
    then have "bit (drop_bit (ctz val) val) 0" by (metis bit_take_bit_iff less_one)
    then show ?thesis by (simp only: bit_drop_bit_eq comp_apply add_0_right)
  qed
  show "\<not> bit val j" if "j < ctz val" for j
    using arg_cong [OF w(1), of "\<lambda>w. bit w j"] that by (simp add: bit_simps)
qed

lemma clz_result:
  assumes "val \<noteq> 0"
  shows "clz val \<le> 63" "bit val (63 - clz val)" "\<And>j. 63 - clz val < j \<Longrightarrow> \<not> bit val j"
proof -
  define step :: "nat \<times> u64 \<Rightarrow> nat \<Rightarrow> nat \<times> u64" where
    "step = (\<lambda>(res, val) k. if drop_bit (64 - k) val = 0 then (res + k, push_bit k val) else (res, val))"
  have s: "clz_window val k (step st k)" if "clz_window val (2 * k) st" for st k
  proof -
    obtain r v where st: "st = (r, v)" by (cases st)
    show ?thesis using clz_window_step [of val k r v] that unfolding st step_def by simp
  qed
  have "clz_window val (2 * 32) (0, val)" using assms by (simp add: clz_window_def drop_bit_64)
  from s [OF this] have "clz_window val (2 * 16) (step (0, val) 32)" by simp
  from s [OF this] have "clz_window val (2 * 8) (step (step (0, val) 32) 16)" by simp
  from s [OF this] have "clz_window val (2 * 4) (step (step (step (0, val) 32) 16) 8)" by simp
  from s [OF this] have "clz_window val (2 * 2) (step (step (step (step (0, val) 32) 16) 8) 4)" by simp
  from s [OF this] have "clz_window val (2 * 1) (step (step (step (step (step (0, val) 32) 16) 8) 4) 2)" by simp
  from s [OF this] have "clz_window val 1 (foldl step (0, val) [32, 16, 8, 4, 2, 1])" by simp
  moreover have c: "clz val = fst (foldl step (0, val) [32, 16, 8, 4, 2, 1])"
    using assms by (simp only: clz_def if_False Let_def step_def)
  ultimately have w: "clz val + 1 \<le> 64" "drop_bit (64 - clz val) val = 0" "drop_bit (64 - 1) (push_bit (clz val) val) \<noteq> 0"
    unfolding clz_window_def c by (simp, blast, metis)
  show l: "clz val \<le> 63" using w(1) by simp
  show "bit val (63 - clz val)"
  proof -
    obtain j where j: "bit (drop_bit (64 - 1) (push_bit (clz val) val)) j" using word_bit_ex [OF w(3)] by blast
    then have "j = 0" using bit_imp_le_length [of "push_bit (clz val) val" "63 + j"] by (auto simp: bit_simps)
    then show ?thesis using j by (simp add: bit_simps)
  qed
  show "\<not> bit val j" if "63 - clz val < j" for j
    using arg_cong [OF w(2), of "\<lambda>w. bit w (j - (64 - clz val))"] that l by (simp add: bit_simps)
qed

lemma log2_result:
  assumes "val \<noteq> 0"
  shows "2 ^ log2 val \<le> unat val" "unat val < 2 ^ (log2 val + 1)"
proof -
  note c = clz_result [OF assms]
  have l: "log2 val = 63 - clz val" using assms by (simp add: log2_def)
  have "bit (unat val) (log2 val)" using c(2) by (simp add: bit_unsigned_iff l)
  then have "unat val div 2 ^ log2 val \<noteq> 0" by (metis bit_iff_odd even_zero)
  then show "2 ^ log2 val \<le> unat val" by (meson div_less not_le)
  have "drop_bit (log2 val + 1) val = 0" by (rule bit_eqI) (use c(3) in \<open>simp add: bit_simps l\<close>)
  then have "unat val div 2 ^ (log2 val + 1) = 0" using unat_drop [of "log2 val + 1" val] by simp
  then show "unat val < 2 ^ (log2 val + 1)" by (simp add: div_eq_0_iff)
qed

lemma cto_result: "j < cto val \<Longrightarrow> bit val j" "\<not> bit val (cto val)"
proof -
  have "(\<forall>j < cto val. bit val j) \<and> \<not> bit val (cto val)"
  proof (induction val rule: cto.induct)
    case (1 val)
    have b0: "val AND 1 = 1 \<longleftrightarrow> bit val 0" by (simp add: and_one_eq bit_0 odd_iff_mod_2_eq_one)
    show ?case
    proof (cases "bit val 0")
      case True
      then have c: "cto val = Suc (cto (drop_bit 1 val))" by (subst cto.simps) (simp only: b0 if_True)
      note ih = 1 [unfolded b0, OF True]
      have "bit val j" if "j < cto val" for j
        using ih that True unfolding c by (cases j) (simp_all add: bit_simps)
      moreover have "\<not> bit val (cto val)" using ih unfolding c by (simp add: bit_simps)
      ultimately show ?thesis by blast
    next
      case False
      then have "cto val = 0" by (subst cto.simps) (simp only: b0 if_False)
      then show ?thesis using False by simp
    qed
  qed
  then show "j < cto val \<Longrightarrow> bit val j" "\<not> bit val (cto val)" by blast+
qed

text \<open>A number as fields of \<open>k\<close> bits, lowest first, and the mask of every other field.\<close>

primrec fields :: "nat \<Rightarrow> nat list \<Rightarrow> nat" where
  "fields k [] = 0"
| "fields k (x # xs) = x + 2 ^ k * fields k xs"

primrec field_mask :: "nat \<Rightarrow> nat \<Rightarrow> nat" where
  "field_mask k 0 = 0"
| "field_mask k (Suc m) = (2 ^ k - 1) + 2 ^ (2 * k) * field_mask k m"

fun pair_sums :: "nat list \<Rightarrow> nat list" where
  "pair_sums (a # b # xs) = (a + b) # pair_sums xs"
| "pair_sums xs = xs"

lemma and_field_mask:
  "(x :: nat) AND ((2 ^ k - 1) + 2 ^ (2 * k) * F) = x mod 2 ^ k + 2 ^ (2 * k) * ((x div 2 ^ (2 * k)) AND F)"
proof -
  have p: "(2::nat) ^ k \<le> 2 ^ (2 * k)" "(0::nat) < 2 ^ k" "x mod 2 ^ k < 2 ^ k" by (simp_all add: power_increasing)
  have l: "(2::nat) ^ k - 1 < 2 ^ (2 * k)" "x mod 2 ^ k < 2 ^ (2 * k)" using p by linarith+
  have "(2 ^ k - 1) + 2 ^ (2 * k) * F = push_bit (2 * k) F OR mask k"
    using or_eq_add_nat [OF l(1), of F] by (simp add: push_bit_eq_mult mask_eq_exp_minus_1 ac_simps)
  moreover have "x mod 2 ^ k + 2 ^ (2 * k) * ((x div 2 ^ (2 * k)) AND F)
      = push_bit (2 * k) (drop_bit (2 * k) x AND F) OR take_bit k x"
    using or_eq_add_nat [OF l(2), of "(x div 2 ^ (2 * k)) AND F"]
    by (simp add: push_bit_eq_mult take_bit_eq_mod drop_bit_eq_div ac_simps)
  moreover have "x AND (push_bit (2 * k) F OR mask k) = push_bit (2 * k) (drop_bit (2 * k) x AND F) OR take_bit k x"
    by (rule bit_eqI) (auto simp: bit_simps)
  ultimately show ?thesis by simp
qed

lemma fields_step:
  "length xs = 2 * m \<Longrightarrow> \<forall>x \<in> set xs. x < 2 ^ k \<Longrightarrow>
    (fields k xs AND field_mask k m) + ((fields k xs div 2 ^ k) AND field_mask k m) = fields (2 * k) (pair_sums xs)"
proof (induction m arbitrary: xs)
  case 0
  then show ?case by simp
next
  case (Suc m)
  obtain a b r where xs: "xs = a # b # r" "length r = 2 * m"
    using Suc.prems(1) by (cases xs; cases "tl xs") auto
  have ab: "a < 2 ^ k" "b < 2 ^ k" using Suc.prems(2) xs by auto
  let ?R = "fields k r"
  have d: "(2::nat) ^ (2 * k) = 2 ^ k * 2 ^ k" by (simp add: power_add mult_2)
  have e: "fields k xs = a + 2 ^ k * (b + 2 ^ k * ?R)" by (simp add: xs)
  have s: "(a + 2 ^ k * (b + 2 ^ k * ?R)) div 2 ^ k = b + 2 ^ k * ?R" using ab by simp
  have q: "(a + 2 ^ k * (b + 2 ^ k * ?R)) div 2 ^ (2 * k) = ?R" "(b + 2 ^ k * ?R) div 2 ^ (2 * k) = ?R div 2 ^ k"
    using ab unfolding d by (simp_all add: div_mult2_eq)
  have "(fields k xs AND field_mask k (Suc m)) + ((fields k xs div 2 ^ k) AND field_mask k (Suc m))
      = (a + 2 ^ (2 * k) * (?R AND field_mask k m)) + (b + 2 ^ (2 * k) * ((?R div 2 ^ k) AND field_mask k m))"
    unfolding field_mask.simps e s and_field_mask q using ab by simp
  also have "\<dots> = (a + b) + 2 ^ (2 * k) * ((?R AND field_mask k m) + ((?R div 2 ^ k) AND field_mask k m))"
    by (simp add: algebra_simps)
  also have "\<dots> = fields (2 * k) (pair_sums xs)"
    using Suc.IH [OF xs(2)] Suc.prems(2) xs by simp
  finally show ?case .
qed

lemma pair_sums_sum: "sum_list (pair_sums xs) = sum_list xs"
  by (induction xs rule: pair_sums.induct) simp_all

lemma pair_sums_length: "length (pair_sums xs) = (length xs + 1) div 2"
  by (induction xs rule: pair_sums.induct) simp_all

lemma pair_sums_bound: "\<forall>x \<in> set xs. x \<le> b \<Longrightarrow> \<forall>x \<in> set (pair_sums xs). x \<le> 2 * b"
  by (induction xs rule: pair_sums.induct) auto

lemma fields_bound: "\<forall>x \<in> set xs. x < 2 ^ k \<Longrightarrow> fields k xs < 2 ^ (k * length xs)"
proof (induction xs)
  case (Cons x xs)
  then have "x < 2 ^ k" "fields k xs + 1 \<le> 2 ^ (k * length xs)" by simp_all
  then have "x + 2 ^ k * fields k xs < 2 ^ k * (fields k xs + 1)" by simp
  also have "\<dots> \<le> 2 ^ k * 2 ^ (k * length xs)" using \<open>fields k xs + 1 \<le> 2 ^ (k * length xs)\<close> by (rule mult_le_mono2)
  finally show ?case by (simp add: power_add)
qed simp

lemma fields_append: "fields k (xs @ ys) = fields k xs + 2 ^ (k * length xs) * fields k ys"
  by (induction xs) (simp_all add: algebra_simps power_add)

lemma fields_bits: "fields 1 (map (\<lambda>i. of_bool (bit n i)) [0..<m]) = take_bit m (n :: nat)"
  by (induction m) (simp_all add: fields_append take_bit_Suc_from_most)

definition pop_fields :: "nat \<Rightarrow> nat \<Rightarrow> nat \<Rightarrow> u64 \<Rightarrow> nat list \<Rightarrow> bool" where
  "pop_fields k m b w xs = (unat w = fields k xs \<and> length xs = m \<and> (\<forall>x \<in> set xs. x \<le> b))"

lemma pop_fields_step:
  assumes w: "pop_fields k (2 * m) b w xs" and b: "b < 2 ^ k" "2 * b < 2 ^ (2 * k)" and k: "2 * k * m \<le> 64"
    and M: "unat M = field_mask k m"
  shows "pop_fields (2 * k) m (2 * b) ((w AND M) + (drop_bit k w AND M)) (pair_sums xs)"
proof -
  have l: "length xs = 2 * m" "\<forall>x \<in> set xs. x \<le> b" "unat w = fields k xs" using w by (simp_all add: pop_fields_def)
  have ps: "length (pair_sums xs) = m" "\<forall>x \<in> set (pair_sums xs). x \<le> 2 * b"
    using l pair_sums_length [of xs] pair_sums_bound [OF l(2)] by simp_all
  have f: "(unat w AND unat M) + ((unat w div 2 ^ k) AND unat M) = fields (2 * k) (pair_sums xs)"
  proof -
    have "\<forall>x \<in> set xs. x < 2 ^ k" using l(2) b(1) le_less_trans by blast
    then show ?thesis unfolding l(3) M by (rule fields_step [OF l(1)])
  qed
  have "\<forall>x \<in> set (pair_sums xs). x < 2 ^ (2 * k)" using ps(2) b(2) le_less_trans by blast
  from fields_bound [OF this] have "fields (2 * k) (pair_sums xs) < 2 ^ (2 * k * m)" unfolding ps(1) .
  also have "\<dots> \<le> 2 ^ 64" by (rule power_increasing) (use k in simp_all)
  finally have lt: "fields (2 * k) (pair_sums xs) < 2 ^ LENGTH(64)" by simp
  have "unat (w AND M) + unat (drop_bit k w AND M) = fields (2 * k) (pair_sums xs)"
    unfolding unat_and unat_drop by (rule f)
  then have "unat ((w AND M) + (drop_bit k w AND M)) = fields (2 * k) (pair_sums xs)"
    using lt unat_add_no_wrap [of "w AND M" "drop_bit k w AND M"] by simp
  then show ?thesis using ps by (simp add: pop_fields_def)
qed

lemma field_mask_numeral:
  "field_mask k (numeral m) = (2 ^ k - 1) + 2 ^ (2 * k) * field_mask k (pred_numeral m)"
  by (simp add: numeral_eq_Suc)

lemma field_masks:
  "field_mask 1 32 = 0x5555555555555555" "field_mask 2 16 = 0x3333333333333333" "field_mask 4 8 = 0x0f0f0f0f0f0f0f0f"
  "field_mask 8 4 = 0x00ff00ff00ff00ff" "field_mask 16 2 = 0x0000ffff0000ffff" "field_mask 32 1 = 0x00000000ffffffff"
  by (simp_all add: field_mask_numeral)

lemma sum_list_bits: "sum_list (map (\<lambda>i. of_bool (bit (unat (v :: u64)) i)) [0..<64] :: nat list) = card {i. bit v i}"
proof -
  have "sum_list (map (\<lambda>i. of_bool (bit (unat v) i)) [0..<64] :: nat list) = (\<Sum>i\<in>{0..<64}. of_bool (bit v i))"
    by (simp add: interv_sum_list_conv_sum_set_nat bit_unsigned_iff)
  also have "\<dots> = card ({0..<64} \<inter> {i. bit v i})" by (simp add: of_bool_def sum.If_cases)
  also have "{0..<64} \<inter> {i. bit v i} = {i. bit v i}" using bit_imp_le_length [of v] by auto
  finally show ?thesis .
qed

lemma popcount_result: "unat (popcount v) = card {i. bit v i}"
proof -
  let ?xs = "map (\<lambda>i. of_bool (bit (unat v) i)) [0..<64] :: nat list"
  define step where "step = (\<lambda>(w :: u64) k M. (w AND M) + (drop_bit k w AND M))"
  have s: "pop_fields (2 * k) m (2 * b) (step w k M) (pair_sums xs)"
    if "pop_fields k (2 * m) b w xs" "b < 2 ^ k" "2 * b < 2 ^ (2 * k)" "2 * k * m \<le> 64" "unat M = field_mask k m"
    for k m b w M xs
    unfolding step_def by (rule pop_fields_step [OF that])
  have p: "popcount v = step (step (step (step (step (step v 1 0x5555555555555555) 2 0x3333333333333333) 4 0x0f0f0f0f0f0f0f0f)
      8 0x00ff00ff00ff00ff) 16 0x0000ffff0000ffff) 32 0x00000000ffffffff"
    by (simp only: popcount_def Let_def step_def)
  have "pop_fields 1 (2 * 32) 1 v ?xs"
    using fields_bits [of "unat v" 64] unat_lt_64 [of v] by (auto simp: pop_fields_def take_bit_nat_eq_self)
  from s [OF this, of "0x5555555555555555"] obtain ys1 where
    "pop_fields 2 (2 * 16) 2 (step v 1 0x5555555555555555) ys1" "sum_list ys1 = sum_list ?xs"
    unfolding field_masks by (auto simp: pair_sums_sum)
  from s [OF this(1), of "0x3333333333333333"] this(2) obtain ys2 where
    "pop_fields 4 (2 * 8) 4 (step (step v 1 0x5555555555555555) 2 0x3333333333333333) ys2" "sum_list ys2 = sum_list ?xs"
    unfolding field_masks by (auto simp: pair_sums_sum)
  from s [OF this(1), of "0x0f0f0f0f0f0f0f0f"] this(2) obtain ys3 where
    "pop_fields 8 (2 * 4) 8 (step (step (step v 1 0x5555555555555555) 2 0x3333333333333333) 4 0x0f0f0f0f0f0f0f0f) ys3"
    "sum_list ys3 = sum_list ?xs"
    unfolding field_masks by (auto simp: pair_sums_sum)
  from s [OF this(1), of "0x00ff00ff00ff00ff"] this(2) obtain ys4 where
    "pop_fields 16 (2 * 2) 16 (step (step (step (step v 1 0x5555555555555555) 2 0x3333333333333333) 4 0x0f0f0f0f0f0f0f0f)
      8 0x00ff00ff00ff00ff) ys4" "sum_list ys4 = sum_list ?xs"
    unfolding field_masks by (auto simp: pair_sums_sum)
  from s [OF this(1), of "0x0000ffff0000ffff"] this(2) obtain ys5 where
    "pop_fields 32 (2 * 1) 32 (step (step (step (step (step v 1 0x5555555555555555) 2 0x3333333333333333) 4 0x0f0f0f0f0f0f0f0f)
      8 0x00ff00ff00ff00ff) 16 0x0000ffff0000ffff) ys5" "sum_list ys5 = sum_list ?xs"
    unfolding field_masks by (auto simp: pair_sums_sum)
  from s [OF this(1), of "0x00000000ffffffff"] this(2) obtain ys6 where
    "pop_fields 64 1 64 (popcount v) ys6" "sum_list ys6 = sum_list ?xs"
    unfolding field_masks p by (auto simp: pair_sums_sum)
  moreover from this(1) obtain y where "ys6 = [y]" "unat (popcount v) = y"
    by (auto simp: pop_fields_def length_Suc_conv)
  ultimately show ?thesis using sum_list_bits [of v] by simp
qed

section \<open>Permutations\<close>

text \<open>The index in element \<open>j\<close> of \<open>rs2\<close>, and the bit of the result at position \<open>n\<close>.\<close>

definition xperm_index :: "nat \<Rightarrow> u64 \<Rightarrow> nat \<Rightarrow> nat" where
  "xperm_index sz rs2 j = unat (take_bit sz (drop_bit (j * sz) rs2))"

definition xperm_bit :: "nat \<Rightarrow> nat \<Rightarrow> u64 \<Rightarrow> u64 \<Rightarrow> nat \<Rightarrow> bool" where
  "xperm_bit sz len rs1 rs2 n =
     (let k = xperm_index sz rs2 (n div sz) in k * sz < len \<and> bit rs1 (k * sz + n mod sz))"

lemma xperm_loop_bits:
  assumes l: "l < 6" "len \<le> 64" "2 ^ l dvd len"
  shows "bit (xperm_loop l len rs1 rs2 (j * 2 ^ l) r) n
    \<longleftrightarrow> bit r n \<or> j * 2 ^ l \<le> n \<and> n < len \<and> xperm_bit (2 ^ l) len rs1 rs2 n"
proof (induction "len - j * 2 ^ l" arbitrary: j r rule: less_induct)
  case less
  define sz :: nat where "sz = 2 ^ l"
  have sz: "0 < sz" "sz \<le> 32" using power_increasing [of l 5 "2::nat"] l(1) by (simp_all add: sz_def)
  show ?case
  proof (cases "j * sz < len")
    case False
    then show ?thesis by (subst xperm_loop.simps) (auto simp: sz_def [symmetric])
  next
    case True
    have le: "(j + 1) * sz \<le> len"
    proof -
      obtain q where "len = sz * q" using l(3) unfolding sz_def by (rule dvdE)
      then have "j < q" using True sz by (simp add: mult.commute)
      then have "(j + 1) * sz \<le> q * sz" by (intro mult_le_mono1) simp
      then show ?thesis using \<open>len = sz * q\<close> by (simp add: mult.commute)
    qed
    define mask where "mask = push_bit sz 1 - (1 :: u64)"
    have mk: "w AND mask = take_bit sz w" for w :: u64
      by (simp add: mask_def take_bit_eq_mask mask_eq_exp_minus_1)
    define k where "k = xperm_index sz rs2 j"
    have kb: "k < 2 ^ 32"
    proof -
      have "k < 2 ^ sz" by (simp add: k_def xperm_index_def unsigned_take_bit_eq)
      also have "\<dots> \<le> 2 ^ 32" using sz(2) by (intro power_increasing) simp_all
      finally show ?thesis .
    qed
    define pos where "pos = push_bit l (drop_bit (j * sz) rs2 AND mask)"
    have pos: "unat pos = k * sz"
    proof -
      have u: "unat (drop_bit (j * sz) rs2 AND mask) = k" by (simp add: mk k_def xperm_index_def)
      have "k * sz < 2 ^ 32 * 2 ^ 6" using kb sz by (intro mult_strict_mono) simp_all
      then have "unat (drop_bit (j * sz) rs2 AND mask) * 2 ^ l < 2 ^ LENGTH(64)"
        unfolding u by (simp add: sz_def)
      then show ?thesis unfolding pos_def sz_def by (simp only: unat_push_no_wrap u [unfolded sz_def])
    qed
    define r' where "r' = (if pos < of_nat len then r OR push_bit (j * sz) (drop_bit (unat pos) rs1 AND mask) else r)"
    have r': "bit r' n \<longleftrightarrow> bit r n \<or> j * sz \<le> n \<and> n < (j + 1) * sz \<and> xperm_bit sz len rs1 rs2 n"
    proof -
      have "unat (of_nat len :: u64) = len" using l(2) by (intro unat_word_of_nat_lt) simp
      then have c: "pos < of_nat len \<longleftrightarrow> k * sz < len" by (simp only: word_less_nat_alt pos)
      have n64: "n < 64" if "n < (j + 1) * sz" using that le l(2) by linarith
      have d: "n div sz = j" "n mod sz = n - j * sz" if "j * sz \<le> n" "n < (j + 1) * sz"
      proof -
        show "n div sz = j" using that by (intro div_nat_eqI) (simp_all add: ac_simps)
        then show "n mod sz = n - j * sz" by (simp add: modulo_nat_def)
      qed
      show ?thesis
        unfolding r'_def c mk pos xperm_bit_def Let_def
        using n64 by (auto simp: bit_simps d k_def [symmetric])
    qed
    have e: "xperm_loop l len rs1 rs2 (j * sz) r = xperm_loop l len rs1 rs2 ((j + 1) * sz) r'"
      using True by (subst xperm_loop.simps)
        (simp only: if_True Let_def sz_def [symmetric] mask_def [symmetric] pos_def [symmetric] r'_def [symmetric],
          simp add: algebra_simps)
    have "len - (j + 1) * sz < len - j * sz" using True sz(1) by simp
    from less.hyps [of "j + 1" r', folded sz_def, OF this] show ?thesis
      unfolding sz_def [symmetric] e r' using le by auto
  qed
qed

lemma shift_amounts:
  fixes n :: u64
  assumes k: "k \<le> 6"
  shows "unat (n AND of_nat (2 ^ k - 1)) = unat n mod 2 ^ k"
    "unat (- (n AND of_nat (2 ^ k - 1)) AND of_nat (2 ^ k - 1)) = (2 ^ k - unat n mod 2 ^ k) mod 2 ^ k"
proof -
  have p: "(2::nat) ^ k dvd 2 ^ 64" by (rule le_imp_power_dvd) (use k in simp)
  have p': "(2::nat) ^ k \<le> 64" "(0::nat) < 2 ^ k" using k power_increasing [of k 6 "2::nat"] by simp_all
  then have m: "unat (of_nat (2 ^ k - 1) :: u64) = 2 ^ k - 1" using p' by (intro unat_word_of_nat_lt) simp
  have a: "unat (w AND of_nat (2 ^ k - 1) :: u64) = unat w mod 2 ^ k" for w :: u64
    by (simp only: unat_and m and_mask_mod)
  show r: "unat (n AND of_nat (2 ^ k - 1)) = unat n mod 2 ^ k" by (rule a)
  let ?r = "n AND of_nat (2 ^ k - 1)"
  show "unat (- ?r AND of_nat (2 ^ k - 1)) = (2 ^ k - unat n mod 2 ^ k) mod 2 ^ k"
  proof (cases "unat ?r = 0")
    case True
    then have "?r = 0" by (simp only: word_eq_0_iff)
    moreover have "unat n mod 2 ^ k = 0" using True unfolding r .
    ultimately have z: "?r = 0" "unat n mod 2 ^ k = 0" .
    show ?thesis unfolding a z by simp
  next
    case False
    then have nz: "?r \<noteq> 0" by auto
    have l: "unat ?r < 2 ^ k" unfolding r using p' by simp
    have u: "unat (- ?r) = 2 ^ 64 - unat ?r"
    proof -
      define w where "w = ?r"
      have w: "0 < unat w" "unat w < 2 ^ 64" using False unat_lt_64 [of w] by (simp_all add: w_def)
      have "- w = word_of_nat (2 ^ 64 - unat w)" using w by (simp add: of_nat_diff)
      moreover have "unat (word_of_nat (2 ^ 64 - unat w) :: u64) = 2 ^ 64 - unat w"
        by (rule unat_word_of_nat_lt) (use w in simp)
      ultimately show ?thesis unfolding w_def by (simp only:)
    qed
    obtain q where q: "(2::nat) ^ 64 = 2 ^ k * q" using p by (rule dvdE)
    have "0 < q" using q by (cases q) simp_all
    then obtain q' where "q = Suc q'" by (cases q) auto
    then have "(2::nat) ^ 64 - unat ?r = (2 ^ k - unat ?r) + 2 ^ k * q'" using q l by simp
    then show ?thesis unfolding a u by (simp only: mod_mult_self2 r)
  qed
qed

lemma rotate_right_bits:
  fixes x :: "'w::len word"
  assumes "r < LENGTH('w)"
  shows "push_bit ((LENGTH('w) - r) mod LENGTH('w)) x OR drop_bit r x = word_rotr r x"
proof -
  have m: "(i + r) mod LENGTH('w) = (if i + r < LENGTH('w) then i + r else i + r - LENGTH('w))" if "i < LENGTH('w)" for i
    using that assms by (simp add: mod_if [of "i + r - LENGTH('w)"] le_mod_geq)
  show "push_bit ((LENGTH('w) - r) mod LENGTH('w)) x OR drop_bit r x = word_rotr r x"
  proof (rule bit_word_eqI)
    fix i assume i: "i < LENGTH('w)"
    show "bit (push_bit ((LENGTH('w) - r) mod LENGTH('w)) x OR drop_bit r x) i = bit (word_rotr r x) i"
    proof (cases "r = 0")
      case False
      then have "(LENGTH('w) - r) mod LENGTH('w) = LENGTH('w) - r" using assms by simp
      moreover have "bit x (r + i) \<Longrightarrow> r + i < LENGTH('w)" by (rule bit_imp_le_length)
      moreover have "LENGTH('w) - r \<le> i \<Longrightarrow> i - (LENGTH('w) - r) = i + r - LENGTH('w)" using assms by simp
      ultimately show ?thesis using i assms m [OF i]
        by (auto simp: bit_simps bit_word_rotr_iff ac_simps)
    qed (use i in \<open>simp add: bit_word_rotr_iff\<close>)
  qed
qed

lemma rotate_left_bits:
  fixes x :: "'w::len word"
  assumes "r < LENGTH('w)"
  shows "push_bit r x OR drop_bit ((LENGTH('w) - r) mod LENGTH('w)) x = word_rotl r x"
proof (cases "r = 0")
    case True
    then show ?thesis by (auto intro!: bit_word_eqI simp: bit_word_rotl_iff)
  next
    case False
    define r' where "r' = LENGTH('w) - r"
    have r': "(LENGTH('w) - r) mod LENGTH('w) = r'" "LENGTH('w) - r' = r" "r mod LENGTH('w) = r" "r' < LENGTH('w)"
      using False assms by (simp_all add: r'_def)
    have "word_rotl r x = word_rotr r' x"
      by (rule bit_word_eqI) (simp add: bit_word_rotl_iff bit_word_rotr_iff r'(3) r'_def)
    moreover have "push_bit r x OR drop_bit r' x = word_rotr r' x"
      using rotate_right_bits [OF r'(4), of x] unfolding r'(2,3) .
    ultimately show ?thesis unfolding r'(1) by simp
qed

lemma rotate_result:
  assumes "LENGTH('w::len) = 2 ^ k" "k \<le> 6"
  shows "rotate_right (x :: 'w word) n = word_rotr (unat n) x" "rotate_left x n = word_rotl (unat n) x"
proof -
  note s = shift_amounts [OF assms(2), of n, folded assms(1)]
  have l: "unat n mod LENGTH('w) < LENGTH('w)" by simp
  have "word_rotr (unat n mod LENGTH('w)) x = word_rotr (unat n) x"
    by (rule bit_word_eqI) (simp add: bit_word_rotr_iff mod_simps)
  then show "rotate_right x n = word_rotr (unat n) x"
    unfolding rotate_right_def Let_def s using rotate_right_bits [OF l, of x] by simp
  have "word_rotl (unat n mod LENGTH('w)) x = word_rotl (unat n) x"
    by (rule bit_word_eqI) (simp add: bit_word_rotl_iff)
  then show "rotate_left x n = word_rotl (unat n) x"
    unfolding rotate_left_def Let_def s using rotate_left_bits [OF l, of x] by simp
qed

lemma rotl_rotr: "word_rotr n (word_rotl n x) = (x :: 'w::len word)"
proof (rule bit_word_eqI)
  fix i assume i: "i < LENGTH('w)"
  define r where "r = n mod LENGTH('w)"
  have r: "r < LENGTH('w)" by (simp add: r_def)
  have "((i + n) mod LENGTH('w) + (LENGTH('w) - r)) mod LENGTH('w) = (i + n + (LENGTH('w) - r)) mod LENGTH('w)"
    by (rule mod_add_left_eq)
  also have "i + n + (LENGTH('w) - r) = i + LENGTH('w) * (n div LENGTH('w) + 1)"
  proof -
    have "n = LENGTH('w) * (n div LENGTH('w)) + r" by (simp add: r_def)
    then have "i + n + (LENGTH('w) - r) = i + (LENGTH('w) * (n div LENGTH('w)) + r) + (LENGTH('w) - r)" by simp
    then show ?thesis using r by simp
  qed
  also have "\<dots> mod LENGTH('w) = i mod LENGTH('w)" by (rule mod_mult_self2)
  also have "\<dots> = i" using i r by simp
  finally show "bit (word_rotr n (word_rotl n x)) i = bit x i"
    using i by (simp add: bit_word_rotr_iff bit_word_rotl_iff r_def ac_simps)
qed

section \<open>Properties\<close>

lemma mulh_correct:
  "unat (mulhu a b) = unat a * unat b div 2 ^ 64
    \<and> sint (mulh a b) = sint a * sint b div 2 ^ 64 \<and> sint (mulhsu a b) = sint a * uint b div 2 ^ 64"
  by (simp only: mulhu_result mulh_result mulhsu_result simp_thms)

text \<open>C34: At every width the saturating additions (two and three operands) and subtractions,
  signed and unsigned, return the exact result clamped to the range of the type and report
  exactly when it was out of range.\<close>

theorem saturation_correct:
  fixes x y z :: "'w::len word"
  defines "lo \<equiv> - (2 ^ (LENGTH('w) - 1)) :: int" and "hi \<equiv> 2 ^ (LENGTH('w) - 1) - 1 :: int" and "m \<equiv> 2 ^ LENGTH('w) - 1 :: nat"
  shows "sint (fst (sat_add x y)) = clamp lo hi (sint x + sint y)
    \<and> (snd (sat_add x y) \<longleftrightarrow> sint x + sint y \<notin> {lo..hi})
    \<and> sint (fst (sat_add3 x y z)) = clamp lo hi (sint x + sint y + sint z)
    \<and> (snd (sat_add3 x y z) \<longleftrightarrow> sint x + sint y + sint z \<notin> {lo..hi})
    \<and> sint (fst (sat_sub x y)) = clamp lo hi (sint x - sint y)
    \<and> (snd (sat_sub x y) \<longleftrightarrow> sint x - sint y \<notin> {lo..hi})
    \<and> unat (fst (sat_addu x y)) = min m (unat x + unat y) \<and> (snd (sat_addu x y) \<longleftrightarrow> m < unat x + unat y)
    \<and> unat (fst (sat_subu x y)) = unat x - unat y \<and> (snd (sat_subu x y) \<longleftrightarrow> unat x < unat y)"
proof -
  have s: "sint (word_of_int (clamp lo hi k) :: 'w word) = clamp lo hi k" for k
    unfolding lo_def hi_def by (rule sint_clamp)
  have "unat (word_of_nat (min m (unat x + unat y)) :: 'w word) = min m (unat x + unat y)"
    by (rule unat_word_of_nat_lt) (rule le_less_trans [OF min.cobounded1], simp add: m_def)
  moreover have "unat (word_of_nat (unat x - unat y) :: 'w word) = unat x - unat y"
    by (rule unat_word_of_nat_lt) (rule le_less_trans [OF diff_le_self], rule unsigned_less)
  moreover have mm: "m < k \<longleftrightarrow> 2 ^ LENGTH('w) \<le> k" for k
    unfolding m_def by (metis Suc_pred' less_eq_Suc_le zero_less_numeral zero_less_power)
  ultimately show ?thesis
    unfolding sat_add_result sat_add3_result sat_sub_result sat_addu_result sat_subu_result
      lo_def [symmetric] hi_def [symmetric] fst_conv snd_conv s
    by (simp only: mm) (auto simp: m_def)
qed

lemma bit_counts_correct:
  "(val \<noteq> 0 \<longrightarrow> bit val (ctz val) \<and> (\<forall>j < ctz val. \<not> bit val j)
      \<and> bit val (63 - clz val) \<and> (\<forall>j > 63 - clz val. \<not> bit val j)
      \<and> 2 ^ log2 val \<le> unat val \<and> unat val < 2 ^ (log2 val + 1))
    \<and> (\<forall>j < cto val. bit val j) \<and> \<not> bit val (cto val)
    \<and> unat (popcount val) = card {i. bit val i}
    \<and> (0 \<le> pos \<and> 0 < len \<and> len \<le> 64 - pos \<longrightarrow>
        (\<exists>f. extract64 val pos len = Some f \<and> (\<forall>i. bit f i \<longleftrightarrow> i < nat len \<and> bit val (nat pos + i))))"
proof (intro conjI impI)
  show "\<exists>f. extract64 val pos len = Some f \<and> (\<forall>i. bit f i \<longleftrightarrow> i < nat len \<and> bit val (nat pos + i))"
    if "0 \<le> pos \<and> 0 < len \<and> len \<le> 64 - pos"
  proof -
    have "nat len \<le> 64" "nat (64 - len) = 64 - nat len" using that by linarith+
    then have "bit (drop_bit (nat pos) val AND drop_bit (nat (64 - len)) (NOT 0)) i \<longleftrightarrow> i < nat len \<and> bit val (nat pos + i)" for i
      using bit_imp_le_length [of val "nat pos + i"] by (auto simp: bit_simps)
    then show ?thesis using that by (simp add: extract64_def)
  qed
qed (use ctz_result clz_result log2_result cto_result popcount_result in blast)+

lemma bit_counts_correct_witness:
  "bit (0x5A00 :: u64) (ctz 0x5A00) \<and> 2 ^ log2 0x5A00 \<le> unat (0x5A00 :: u64) \<and> extract64 0x5A00 8 8 \<noteq> None"
  using bit_counts_correct [of "0x5A00" 8 8] by auto

lemma permutations_correct:
  assumes "LENGTH('w::len) = 2 ^ k" "k \<le> 6" "l < 6" "len \<le> 64" "2 ^ l dvd len"
  shows "rotate_right (x :: 'w word) n = word_rotr (unat n) x \<and> rotate_left x n = word_rotl (unat n) x
    \<and> rotate_right (rotate_left x n) n = x
    \<and> (\<exists>r. xperm rs1 rs2 l len = Some r \<and> (\<forall>i. bit r i \<longleftrightarrow> i < len \<and> xperm_bit (2 ^ l) len rs1 rs2 i))"
proof -
  have "xperm rs1 rs2 l len = Some (xperm_loop l len rs1 rs2 (0 * 2 ^ l) 0)" using assms by (simp add: xperm_def)
  moreover have "bit (xperm_loop l len rs1 rs2 (0 * 2 ^ l) 0) i \<longleftrightarrow> i < len \<and> xperm_bit (2 ^ l) len rs1 rs2 i" for i
    unfolding xperm_loop_bits [OF assms(3-5)] by simp
  ultimately show ?thesis
    using rotate_result [OF assms(1,2)] rotl_rotr [of "unat n" x] by simp
qed

lemma permutations_correct_witness:
  "rotate_right (rotate_left (0x12345678 :: u32) 100) 100 = 0x12345678
    \<and> (\<exists>r. xperm 0xFEDCBA9876543210 0x0123456789ABCDEF 2 64 = Some r)"
proof -
  have "LENGTH(32) = 2 ^ 5" "(5 :: nat) \<le> 6" "(2 :: nat) < 6" "(64 :: nat) \<le> 64" "(2 :: nat) ^ 2 dvd 64" by simp_all
  from permutations_correct [OF this, of "0x12345678" 100 "0xFEDCBA9876543210" "0x0123456789ABCDEF"] show ?thesis by blast
qed

text \<open>C33: mulhu, mulh and mulhsu return the high 64 bits of the 128-bit product for unsigned,
  signed and mixed operands; ctz and clz find the lowest and the highest set bit, log2 is
  the floor of the logarithm, cto counts the trailing ones, popcount the set bits, extract64
  returns the bit field; the rotations rotate by the amount modulo the width and undo each
  other; xperm puts in each element the element of rs1 its index in rs2 selects, or zero
  when the index is out of range.\<close>

theorem arith_helpers_correct:
  assumes "LENGTH('w::len) = 2 ^ k" "k \<le> 6" "l < 6" "xlen \<le> 64" "2 ^ l dvd xlen"
  shows "unat (mulhu a b) = unat a * unat b div 2 ^ 64
    \<and> sint (mulh a b) = sint a * sint b div 2 ^ 64 \<and> sint (mulhsu a b) = sint a * uint b div 2 ^ 64
    \<and> (a \<noteq> 0 \<longrightarrow> bit a (ctz a) \<and> (\<forall>j < ctz a. \<not> bit a j)
        \<and> bit a (63 - clz a) \<and> (\<forall>j > 63 - clz a. \<not> bit a j)
        \<and> 2 ^ log2 a \<le> unat a \<and> unat a < 2 ^ (log2 a + 1))
    \<and> (\<forall>j < cto a. bit a j) \<and> \<not> bit a (cto a) \<and> unat (popcount a) = card {i. bit a i}
    \<and> (0 \<le> pos \<and> 0 < len \<and> len \<le> 64 - pos \<longrightarrow>
        (\<exists>f. extract64 a pos len = Some f \<and> (\<forall>i. bit f i \<longleftrightarrow> i < nat len \<and> bit a (nat pos + i))))
    \<and> rotate_right (x :: 'w word) n = word_rotr (unat n) x \<and> rotate_left x n = word_rotl (unat n) x
    \<and> rotate_right (rotate_left x n) n = x
    \<and> (\<exists>r. xperm rs1 rs2 l xlen = Some r \<and> (\<forall>i. bit r i \<longleftrightarrow> i < xlen \<and> xperm_bit (2 ^ l) xlen rs1 rs2 i))"
  using mulh_correct [of a b] bit_counts_correct [of a pos len] permutations_correct [OF assms, of x n rs1 rs2]
  by (elim conjE, intro conjI) assumption+

theorem arith_helpers_correct_witness:
  "rotate_right (rotate_left (0x12345678 :: u32) 100) 100 = 0x12345678
    \<and> (\<exists>r. xperm 0xFEDCBA9876543210 0x0123456789ABCDEF 2 64 = Some r)
    \<and> unat (mulhu 0x123456789ABCDEF0 0x5A00) = unat (0x123456789ABCDEF0 :: u64) * unat (0x5A00 :: u64) div 2 ^ 64"
proof -
  have "LENGTH(32) = 2 ^ 5" "(5 :: nat) \<le> 6" "(2 :: nat) < 6" "(64 :: nat) \<le> 64" "(2 :: nat) ^ 2 dvd 64" by simp_all
  from arith_helpers_correct [OF this, of "0x123456789ABCDEF0" "0x5A00" 8 8 "0x12345678" 100 "0xFEDCBA9876543210" "0x0123456789ABCDEF"]
  show ?thesis by blast
qed

end
