(* ===== verification/Spike_MMU.thy ===== *)
theory Spike_MMU
  imports Spike_Arith
begin

text \<open>
  Address translation of the instruction-set simulator: \<open>decode_vm_info\<close> (\<open>mmu.h\<close>) and \<open>mmu_t::walk\<close> (\<open>mmu.cc\<close>) without a hypervisor (\<open>virt\<close> is false, so
  \<open>s2xlate\<close> is the identity) on RV64.  The reads of the processor's registers and
  configuration are the fields of \<open>mmu_env\<close>; \<open>pte_load\<close> is a function from physical
  addresses, all of which are legal (no access faults).  A walk yields the page's physical
  address, the page fault of its access type, the outcome of \<open>abort()\<close>, or \<open>Undefined\<close> where the
  code shifts by more than the width (six levels, which no write of \<open>satp\<close> selects), and the
  store to the page table it makes, if any.
\<close>

section \<open>Page-table entries\<close>

abbreviation (input) PGSHIFT :: nat where "PGSHIFT \<equiv> 12"

abbreviation (input) PTE_V :: u64 where "PTE_V \<equiv> 0x001"
abbreviation (input) PTE_R :: u64 where "PTE_R \<equiv> 0x002"
abbreviation (input) PTE_W :: u64 where "PTE_W \<equiv> 0x004"
abbreviation (input) PTE_X :: u64 where "PTE_X \<equiv> 0x008"
abbreviation (input) PTE_U :: u64 where "PTE_U \<equiv> 0x010"
abbreviation (input) PTE_A :: u64 where "PTE_A \<equiv> 0x040"
abbreviation (input) PTE_D :: u64 where "PTE_D \<equiv> 0x080"
abbreviation (input) PTE_RSVD :: u64 where "PTE_RSVD \<equiv> 0x1FC0000000000000"
abbreviation (input) PTE_PBMT :: u64 where "PTE_PBMT \<equiv> 0x6000000000000000"
abbreviation (input) PTE_N :: u64 where "PTE_N \<equiv> 0x8000000000000000"
abbreviation (input) PTE_ATTR :: u64 where "PTE_ATTR \<equiv> 0xFFC0000000000000"
abbreviation (input) PTE_PPN_SHIFT :: nat where "PTE_PPN_SHIFT \<equiv> 10"

definition PTE_TABLE :: "u64 \<Rightarrow> bool" where
  "PTE_TABLE pte = (pte AND (PTE_V OR PTE_R OR PTE_W OR PTE_X) = PTE_V)"

section \<open>Translation schemes\<close>

record vm_info =
  levels :: nat
  idxbits :: nat
  widenbits :: nat
  ptesize :: nat
  ptbase :: u64

definition no_vm :: vm_info where
  "no_vm = \<lparr>levels = 0, idxbits = 0, widenbits = 0, ptesize = 0, ptbase = 0\<rparr>"

definition get_field :: "u64 \<Rightarrow> u64 \<Rightarrow> u64" where
  "get_field reg fld = (reg AND fld) div (fld AND NOT (push_bit 1 fld))"

definition decode_vm_info :: "nat \<Rightarrow> bool \<Rightarrow> nat \<Rightarrow> u64 \<Rightarrow> vm_info option" where
  "decode_vm_info xlen stage2 prv satp =
     (let mk = (\<lambda>l i w p ppns. Some \<lparr>levels = l, idxbits = i, widenbits = w, ptesize = p,
                                    ptbase = push_bit PGSHIFT (satp AND ppns)\<rparr>)
      in if prv = 3 then Some no_vm
         else if \<not> stage2 \<and> prv \<le> 1 \<and> xlen = 32
         then let mode = get_field satp 0x80000000
              in if mode = 0 then Some no_vm
                 else if mode = 1 then mk 2 10 0 4 0x003FFFFF
                 else None
         else if \<not> stage2 \<and> prv \<le> 1 \<and> xlen = 64
         then let mode = get_field satp 0xF000000000000000
              in if mode = 0 then Some no_vm
                 else if mode = 8 then mk 3 9 0 8 0x00000FFFFFFFFFFF
                 else if mode = 9 then mk 4 9 0 8 0x00000FFFFFFFFFFF
                 else if mode = 10 then mk 5 9 0 8 0x00000FFFFFFFFFFF
                 else if mode = 11 then mk 6 9 0 8 0x00000FFFFFFFFFFF
                 else None
         else if stage2 \<and> xlen = 32
         then let mode = get_field satp 0x80000000
              in if mode = 0 then Some no_vm
                 else if mode = 1 then mk 2 10 2 4 0x003FFFFF
                 else None
         else if stage2 \<and> xlen = 64
         then let mode = get_field satp 0xF000000000000000
              in if mode = 0 then Some no_vm
                 else if mode = 8 then mk 3 9 2 8 0x00000FFFFFFFFFFF
                 else if mode = 9 then mk 4 9 2 8 0x00000FFFFFFFFFFF
                 else if mode = 10 then mk 5 9 2 8 0x00000FFFFFFFFFFF
                 else None
         else None)"

section \<open>The walk\<close>

datatype access_type = LOAD | STORE | FETCH

record mmu_env =
  satp_reg :: u64
  sstatus_sum :: bool
  sstatus_mxr :: bool
  ext_svnapot :: bool
  menvcfg_pbmte :: bool
  dirty_enabled :: bool

text \<open>The outcome of a walk, beside the store to the page table it makes, if any.\<close>

datatype walk_result = Mapped u64 | Page_Fault | Abort | Undefined

fun walk_levels ::
  "mmu_env \<Rightarrow> (u64 \<Rightarrow> u64) \<Rightarrow> access_type \<Rightarrow> bool \<Rightarrow> bool \<Rightarrow> vm_info \<Rightarrow> u64 \<Rightarrow> nat \<Rightarrow> u64
    \<Rightarrow> walk_result \<times> (u64 \<times> u64) option" where
  "walk_levels env pte_load type hlvx s_mode vm addr 0 base = (Page_Fault, None)"
| "walk_levels env pte_load type hlvx s_mode vm addr (Suc i) base =
     (let ptshift = i * idxbits vm;
          idx = drop_bit (PGSHIFT + ptshift) addr AND (push_bit (idxbits vm) 1 - 1);
          pte_paddr = base + idx * of_nat (ptesize vm);
          pte = pte_load pte_paddr;
          ppn = drop_bit PTE_PPN_SHIFT (pte AND NOT PTE_ATTR)
      in if pte AND PTE_RSVD \<noteq> 0 then (Page_Fault, None)
         else if \<not> ext_svnapot env \<and> pte AND PTE_N \<noteq> 0 then (Page_Fault, None)
         else if \<not> menvcfg_pbmte env \<and> pte AND PTE_PBMT \<noteq> 0 then (Page_Fault, None)
         else if pte AND PTE_PBMT = PTE_PBMT then (Page_Fault, None)
         else if PTE_TABLE pte
         then if pte AND (PTE_D OR PTE_A OR PTE_U OR PTE_N OR PTE_PBMT) \<noteq> 0 then (Page_Fault, None)
              else walk_levels env pte_load type hlvx s_mode vm addr i (push_bit PGSHIFT ppn)
         else if (if pte AND PTE_U \<noteq> 0 then s_mode \<and> (type = FETCH \<or> \<not> sstatus_sum env) else \<not> s_mode)
         then (Page_Fault, None)
         else if pte AND PTE_V = 0 \<or> pte AND PTE_R = 0 \<and> pte AND PTE_W \<noteq> 0 then (Page_Fault, None)
         else if (if type = FETCH \<or> hlvx then pte AND PTE_X = 0
                  else if type = LOAD then pte AND PTE_R = 0 \<and> \<not> (sstatus_mxr env \<and> pte AND PTE_X \<noteq> 0)
                  else \<not> (pte AND PTE_R \<noteq> 0 \<and> pte AND PTE_W \<noteq> 0))
         then (Page_Fault, None)
         else if ppn AND (push_bit ptshift 1 - 1) \<noteq> 0 then (Page_Fault, None)
         else let ad = PTE_A OR (if type = STORE then PTE_D else 0)
              in if pte AND ad \<noteq> ad \<and> \<not> dirty_enabled env then (Page_Fault, None)
                 else let store = (if pte AND ad \<noteq> ad then Some (pte_paddr, pte OR ad) else None);
                          vpn = drop_bit PGSHIFT addr;
                          napot_bits = (if pte AND PTE_N \<noteq> 0 then ctz ppn + 1 else 0)
                      in if pte AND PTE_N \<noteq> 0 \<and> (ppn = 0 \<or> i \<noteq> 0) \<or> napot_bits \<noteq> 0 \<and> napot_bits \<noteq> 4
                         then (Page_Fault, store)
                         else let page_base = push_bit PGSHIFT
                                    ((ppn AND NOT (push_bit napot_bits 1 - 1))
                                     OR (vpn AND (push_bit napot_bits 1 - 1))
                                     OR (vpn AND (push_bit ptshift 1 - 1)));
                                  phys = page_base OR (addr AND 0xFFF)
                              in (Mapped (phys AND NOT 0xFFF), store))"

definition walk ::
  "mmu_env \<Rightarrow> (u64 \<Rightarrow> u64) \<Rightarrow> access_type \<Rightarrow> bool \<Rightarrow> nat \<Rightarrow> u64
    \<Rightarrow> walk_result \<times> (u64 \<times> u64) option" where
  "walk env pte_load type hlvx mode addr =
     (case decode_vm_info 64 False mode (satp_reg env) of
        None \<Rightarrow> (Abort, None)
      | Some vm \<Rightarrow>
          if levels vm = 0 then (Mapped (addr AND NOT 0xFFF), None)
          else let va_bits = PGSHIFT + levels vm * idxbits vm
               in if 64 < va_bits - 1 then (Undefined, None)
               else let
                   msbs = push_bit (64 - (va_bits - 1)) 1 - 1;
                   masked_msbs = drop_bit (va_bits - 1) addr AND msbs
               in walk_levels env pte_load type hlvx (mode = 1) vm addr
                    (if masked_msbs \<noteq> 0 \<and> masked_msbs \<noteq> msbs then 0 else levels vm) (ptbase vm))"

text \<open>\<open>mmu_t::translate\<close>, with all of memory open to the physical memory protection.\<close>

definition translate ::
  "mmu_env \<Rightarrow> (u64 \<Rightarrow> u64) \<Rightarrow> access_type \<Rightarrow> nat \<Rightarrow> u64 \<Rightarrow> walk_result \<times> (u64 \<times> u64) option" where
  "translate env pte_load type mode addr =
     (case walk env pte_load type False mode addr of
        (Mapped page, store) \<Rightarrow> (Mapped (page OR (addr AND 0xFFF)), store)
      | (r, store) \<Rightarrow> (r, store))"

section \<open>Protection\<close>

text \<open>What a leaf entry must grant for an access, and the flags the access needs.\<close>

definition pte_permits :: "mmu_env \<Rightarrow> access_type \<Rightarrow> bool \<Rightarrow> bool \<Rightarrow> u64 \<Rightarrow> bool" where
  "pte_permits env type hlvx s_mode pte =
     (pte AND PTE_V \<noteq> 0 \<and> (pte AND PTE_W \<noteq> 0 \<longrightarrow> pte AND PTE_R \<noteq> 0) \<and> pte AND PTE_RSVD = 0
      \<and> (pte AND PTE_U \<noteq> 0 \<longrightarrow> s_mode \<longrightarrow> type \<noteq> FETCH \<and> sstatus_sum env) \<and> (pte AND PTE_U = 0 \<longrightarrow> s_mode)
      \<and> (if type = FETCH \<or> hlvx then pte AND PTE_X \<noteq> 0
         else if type = LOAD then pte AND PTE_R \<noteq> 0 \<or> sstatus_mxr env \<and> pte AND PTE_X \<noteq> 0
         else pte AND PTE_W \<noteq> 0))"

definition accessed_flags :: "access_type \<Rightarrow> u64" where
  "accessed_flags type = PTE_A OR (if type = STORE then PTE_D else 0)"

text \<open>
  The path of a walk, as the privileged architecture describes it: the table of \<open>n\<close> remaining levels that the walk of an
  address reaches, through entries that point to tables.
\<close>

definition entry_address :: "vm_info \<Rightarrow> u64 \<Rightarrow> nat \<Rightarrow> u64 \<Rightarrow> u64" where
  "entry_address vm va i base =
     base + take_bit (idxbits vm) (drop_bit (12 + i * idxbits vm) va) * of_nat (ptesize vm)"

definition entry_ppn :: "u64 \<Rightarrow> u64" where
  "entry_ppn pte = take_bit 44 (drop_bit 10 pte)"

inductive reaches :: "(u64 \<Rightarrow> u64) \<Rightarrow> vm_info \<Rightarrow> u64 \<Rightarrow> nat \<Rightarrow> u64 \<Rightarrow> bool" for ld vm va where
  root: "reaches ld vm va (levels vm) (ptbase vm)"
| table: "reaches ld vm va (Suc i) base \<Longrightarrow> PTE_TABLE (ld (entry_address vm va i base)) \<Longrightarrow>
    reaches ld vm va i (push_bit 12 (entry_ppn (ld (entry_address vm va i base))))"

text \<open>The bits of the address that a leaf at level \<open>i\<close> leaves alone: a page, a superpage, or a range of 16 pages.\<close>

definition leaf_shift :: "vm_info \<Rightarrow> nat \<Rightarrow> u64 \<Rightarrow> nat" where
  "leaf_shift vm i pte = (if pte AND PTE_N \<noteq> 0 then 16 else 12 + i * idxbits vm)"

definition aligned_leaf :: "vm_info \<Rightarrow> nat \<Rightarrow> u64 \<Rightarrow> bool" where
  "aligned_leaf vm i pte \<longleftrightarrow>
     (if pte AND PTE_N \<noteq> 0 then i = 0 \<and> take_bit 4 (entry_ppn pte) = 8 else take_bit (i * idxbits vm) (entry_ppn pte) = 0)"

lemma entry_index:
  "base + (drop_bit (PGSHIFT + i * idxbits vm) va AND (push_bit (idxbits vm) 1 - 1)) * of_nat (ptesize vm)
   = entry_address vm va i base"
  by (simp only: entry_address_def push_bit_of_1 mask_eq_exp_minus_1 [symmetric] take_bit_eq_mask)

lemma entry_field: "drop_bit PTE_PPN_SHIFT (pte AND NOT PTE_ATTR) = entry_ppn pte"
proof -
  have m: "NOT 0xFFC0000000000000 = (mask 54 :: u64)" by (simp add: mask_eq_exp_minus_1)
  show ?thesis unfolding m entry_ppn_def by (rule bit_eqI) (auto simp: bit_simps)
qed

lemma ctz_ppn_four:
  assumes "ppn \<noteq> (0 :: u64)" "ctz ppn = 3"
  shows "take_bit 4 ppn = 8"
proof (rule bit_word_eqI)
  have b: "bit ppn 3" "\<And>i. i < 3 \<Longrightarrow> \<not> bit ppn i" using ctz_result [of ppn] assms by auto
  have e: "(8 :: u64) = 2 ^ 3" by simp
  fix i assume "i < LENGTH(64)"
  have "i < 4 \<and> bit ppn i \<longleftrightarrow> i = 3"
  proof (cases "i < 3")
    case False
    then have "i < 4 \<longleftrightarrow> i = 3" by arith
    then show ?thesis using b(1) by auto
  qed (use b(2) in auto)
  then show "bit (take_bit 4 ppn) i \<longleftrightarrow> bit (8 :: u64) i"
    unfolding e bit_take_bit_iff bit_exp_iff by auto
qed

lemma leaf_page:
  fixes ppn va :: u64
  assumes "12 \<le> n" "n < 64" "k \<noteq> 0 \<longrightarrow> m = 0" "k = 0 \<longrightarrow> take_bit m ppn = 0"
  shows "bit (push_bit 12 ((ppn AND NOT (push_bit k 1 - 1)) OR (drop_bit 12 va AND (push_bit k 1 - 1))
      OR (drop_bit 12 va AND (push_bit m 1 - 1)))) n
    = (if n < 12 + (if k = 0 then m else k) then bit va n else bit ppn (n - 12))"
proof -
  have k: "push_bit j 1 - 1 = (mask j :: u64)" for j by (simp add: mask_eq_exp_minus_1)
  have "\<not> bit ppn j" if "k = 0" "j < m" for j
    using assms(4) that by (metis bit_0_eq bit_take_bit_iff bot_apply bot_bool_def)
  then show ?thesis
    unfolding k using assms(1-3) by (auto simp: bit_simps)
qed

lemma page_mask: "(push_bit 12 w OR (a AND 0xFFF)) AND NOT 0xFFF = push_bit 12 (w :: u64)"
proof -
  have m: "(0xFFF :: u64) = mask 12" by (simp add: mask_eq_exp_minus_1)
  show ?thesis unfolding m by (rule bit_eqI) (auto simp: bit_simps)
qed

definition granted_by :: "mmu_env \<Rightarrow> (u64 \<Rightarrow> u64) \<Rightarrow> access_type \<Rightarrow> bool \<Rightarrow> bool \<Rightarrow> vm_info \<Rightarrow> u64 \<Rightarrow> nat \<Rightarrow> u64
    \<Rightarrow> (u64 \<times> u64) option \<Rightarrow> bool" where
  "granted_by env ld type hlvx s_mode vm va i pa st \<longleftrightarrow>
     \<not> PTE_TABLE (ld pa) \<and> pte_permits env type hlvx s_mode (ld pa)
     \<and> (ld pa AND PTE_N \<noteq> 0 \<longrightarrow> ext_svnapot env) \<and> (ld pa AND PTE_PBMT \<noteq> 0 \<longrightarrow> menvcfg_pbmte env) \<and> aligned_leaf vm i (ld pa)
     \<and> (if ld pa AND accessed_flags type = accessed_flags type then st = None
        else dirty_enabled env \<and> st = Some (pa, ld pa OR accessed_flags type))"

lemma fault_if:
  "(if c then (Page_Fault, x) else r) = (Mapped p, st) \<longleftrightarrow> \<not> c \<and> r = (Mapped p, st)"
  "(if c then (Page_Fault, x) else (Mapped q, y)) = (Mapped p, st) \<longleftrightarrow> \<not> c \<and> q = p \<and> y = st"
  by auto

lemma leaf_level_mapped:
  assumes "walk_levels env ld type hlvx s_mode vm va (Suc i) base = (Mapped page, st)"
  defines "pa \<equiv> entry_address vm va i base"
  assumes leaf: "\<not> PTE_TABLE (ld pa)"
  shows "granted_by env ld type hlvx s_mode vm va i pa st" (is ?g)
    "\<exists>w. page = push_bit 12 w \<and> (\<forall>n. 12 \<le> n \<longrightarrow> n < 64 \<longrightarrow>
        bit page n = (if n < leaf_shift vm i (ld pa) then bit va n else bit (entry_ppn (ld pa)) (n - 12)))"
proof -
  let ?ppn = "entry_ppn (ld pa)" and ?N = "ld pa AND PTE_N \<noteq> 0"
  define k where "k = (if ?N then ctz ?ppn + 1 else 0)"
  note w = assms(1) [unfolded walk_levels.simps Let_def, unfolded entry_index entry_field,
      folded pa_def, folded accessed_flags_def, folded k_def, unfolded if_not_P [OF leaf] fault_if prod.inject walk_result.inject]
  have p: "pte_permits env type hlvx s_mode (ld pa)"
    using w unfolding pte_permits_def by (auto split: if_splits)
  have q: "?N \<longrightarrow> ext_svnapot env" "ld pa AND PTE_PBMT \<noteq> 0 \<longrightarrow> menvcfg_pbmte env"
    "?ppn AND (push_bit (i * idxbits vm) 1 - 1) = 0" "?N \<longrightarrow> ?ppn \<noteq> 0 \<and> i = 0" "k \<noteq> 0 \<longrightarrow> k = 4"
    using w by blast+
  note al = q(3) and nap = q(4,5)
  have page: "page = push_bit 12 ((?ppn AND NOT (push_bit k 1 - 1)) OR (drop_bit 12 va AND (push_bit k 1 - 1))
      OR (drop_bit 12 va AND (push_bit (i * idxbits vm) 1 - 1)))"
    using w unfolding page_mask by blast
  have st: "if ld pa AND accessed_flags type = accessed_flags type then st = None
      else dirty_enabled env \<and> st = Some (pa, ld pa OR accessed_flags type)"
    using w by (auto split: if_splits)
  have al': "take_bit (i * idxbits vm) ?ppn = 0"
    using al by (simp add: take_bit_eq_mask mask_eq_exp_minus_1)
  have "aligned_leaf vm i (ld pa)"
    using nap al' by (auto simp: aligned_leaf_def k_def intro!: ctz_ppn_four)
  then show ?g using leaf p q st unfolding granted_by_def by blast
  have "bit page n = (if n < leaf_shift vm i (ld pa) then bit va n else bit ?ppn (n - 12))" if "12 \<le> n" "n < 64" for n
    unfolding page leaf_shift_def
    by (subst leaf_page [OF that]) (use nap al' in \<open>auto simp: k_def split: if_splits\<close>)
  then show "\<exists>w. page = push_bit 12 w \<and> (\<forall>n. 12 \<le> n \<longrightarrow> n < 64 \<longrightarrow>
        bit page n = (if n < leaf_shift vm i (ld pa) then bit va n else bit ?ppn (n - 12)))"
    using page by blast
qed

lemma walk_levels_mapped:
  assumes "walk_levels env ld type hlvx s_mode vm va i base = (Mapped page, st)" "reaches ld vm va i base"
  shows "\<exists>j base'. reaches ld vm va (Suc j) base' \<and> (let pa = entry_address vm va j base' in
      granted_by env ld type hlvx s_mode vm va j pa st
      \<and> (\<exists>w. page = push_bit 12 w \<and> (\<forall>n. 12 \<le> n \<longrightarrow> n < 64 \<longrightarrow>
          bit page n = (if n < leaf_shift vm j (ld pa) then bit va n else bit (entry_ppn (ld pa)) (n - 12)))))"
  using assms
proof (induction i arbitrary: base)
  case (Suc i)
  let ?pa = "entry_address vm va i base"
  show ?case
  proof (cases "PTE_TABLE (ld ?pa)")
    case True
    have "walk_levels env ld type hlvx s_mode vm va i (push_bit 12 (entry_ppn (ld ?pa))) = (Mapped page, st)"
      using Suc.prems(1) [unfolded walk_levels.simps Let_def, unfolded entry_index entry_field] True by (simp split: if_splits)
    from Suc.IH [OF this reaches.table [OF Suc.prems(2) True]] show ?thesis .
  next
    case False
    show ?thesis
      using Suc.prems(2) leaf_level_mapped [OF Suc.prems(1) False] unfolding Let_def by blast
  qed
qed simp

text \<open>C15: Whenever the simulator translates an access (Sv39, Sv48, Sv57), the address is
  canonical and the entry that ends the walk of that address grants it: it is reached from
  the root table through entries that point to tables, it is a leaf, valid, readable if
  writable, without reserved bits, of the right privilege (SUM and MXR included) and right
  access type, and aligned for the level it was found at; the physical address is the
  entry's page number with the bits of the virtual address below that level; the store the
  walk makes, if any, sets exactly the accessed and dirty flags in that entry and needs
  hardware updating.\<close>

theorem walk_protects:
  assumes "decode_vm_info 64 False mode (satp_reg env) = Some vm" "levels vm \<noteq> 0"
    "translate env ld type mode va = (Mapped pa, st)"
  shows "(\<forall>n. 11 + levels vm * idxbits vm \<le> n \<longrightarrow> n < 64 \<longrightarrow> bit va n = bit va 63)
    \<and> (\<exists>i base. reaches ld vm va (Suc i) base \<and> i < levels vm
         \<and> (let pte_pa = entry_address vm va i base; pte = ld pte_pa in
              \<not> PTE_TABLE pte \<and> pte_permits env type False (mode = 1) pte
              \<and> (pte AND PTE_N \<noteq> 0 \<longrightarrow> ext_svnapot env) \<and> (pte AND PTE_PBMT \<noteq> 0 \<longrightarrow> menvcfg_pbmte env)
              \<and> (if pte AND PTE_N \<noteq> 0 then i = 0 \<and> take_bit 4 (entry_ppn pte) = 8
                 else take_bit (i * idxbits vm) (entry_ppn pte) = 0)
              \<and> (\<forall>n < 64. bit pa n = (if n < leaf_shift vm i pte then bit va n else bit (entry_ppn pte) (n - 12)))
              \<and> (if pte AND accessed_flags type = accessed_flags type then st = None
                 else dirty_enabled env \<and> st = Some (pte_pa, pte OR accessed_flags type))))"
proof -
  let ?v = "12 + levels vm * idxbits vm"
  obtain page where p: "walk env ld type False mode va = (Mapped page, st)" "pa = page OR (va AND 0xFFF)"
    using assms(3) by (auto simp: translate_def split: prod.splits walk_result.splits)
  have w: "?v - 1 \<le> 64"
    "drop_bit (?v - 1) va AND (push_bit (64 - (?v - 1)) 1 - 1) \<in> {0, push_bit (64 - (?v - 1)) 1 - 1}"
    "walk_levels env ld type False (mode = 1) vm va (levels vm) (ptbase vm) = (Mapped page, st)"
    using p(1) assms(1,2) by (auto simp: walk_def Let_def split: if_splits)
  have top: "take_bit (64 - (?v - 1)) (drop_bit (?v - 1) va) \<in> {0, mask (64 - (?v - 1))}"
    using w(2) unfolding push_bit_of_1 mask_eq_exp_minus_1 [symmetric] by (simp add: take_bit_eq_mask)
  have canon: "bit va n = bit va 63" if n: "11 + levels vm * idxbits vm \<le> n" "n < 64" for n
  proof -
    have b: "bit va m = bit (take_bit (64 - (?v - 1)) (drop_bit (?v - 1) va)) (m - (?v - 1))"
      if "11 + levels vm * idxbits vm \<le> m" "m < 64" for m
      using that by (auto simp: bit_simps)
    obtain c where "\<And>m. 11 + levels vm * idxbits vm \<le> m \<Longrightarrow> m < 64 \<Longrightarrow> bit va m = c"
    proof (cases "take_bit (64 - (?v - 1)) (drop_bit (?v - 1) va) = 0")
      case True
      show ?thesis by (rule that [of False]) (simp only: b True bit_0_eq bot_apply bot_bool_def)
    next
      case False
      then have m: "take_bit (64 - (?v - 1)) (drop_bit (?v - 1) va) = mask (64 - (?v - 1))" using top by blast
      show ?thesis by (rule that [of True]) (simp only: b m bit_mask_iff, simp, linarith)
    qed
    then show ?thesis using n by simp
  qed
  obtain i base where i: "reaches ld vm va (Suc i) base"
      "granted_by env ld type False (mode = 1) vm va i (entry_address vm va i base) st"
      "\<exists>w. page = push_bit 12 w"
      "\<forall>n. 12 \<le> n \<longrightarrow> n < 64 \<longrightarrow> bit page n = (if n < leaf_shift vm i (ld (entry_address vm va i base)) then bit va n
          else bit (entry_ppn (ld (entry_address vm va i base))) (n - 12))"
    using walk_levels_mapped [OF w(3) reaches.root] unfolding Let_def by blast
  have "i < levels vm"
  proof -
    have "reaches ld vm va k b \<Longrightarrow> k \<le> levels vm" for k b by (induction rule: reaches.induct) simp_all
    from this [OF i(1)] show ?thesis by simp
  qed
  moreover have "bit pa n = (if n < leaf_shift vm i (ld (entry_address vm va i base)) then bit va n
      else bit (entry_ppn (ld (entry_address vm va i base))) (n - 12))" if "n < 64" for n
  proof -
    have m: "(0xFFF :: u64) = mask 12" by (simp add: mask_eq_exp_minus_1)
    have "12 \<le> leaf_shift vm i (ld (entry_address vm va i base))" by (simp add: leaf_shift_def)
    moreover have "\<not> bit page n" if "n < 12" using i(3) that by (auto simp: bit_simps)
    ultimately show ?thesis
      using i(4) that unfolding p(2) m by (cases "n < 12") (auto simp: bit_simps)
  qed
  ultimately show ?thesis
    using i(1,2) canon unfolding granted_by_def aligned_leaf_def Let_def by blast
qed

definition demo_env :: mmu_env where
  "demo_env = \<lparr>satp_reg = 0x8000000000080000, sstatus_sum = False, sstatus_mxr = False, ext_svnapot = False,
     menvcfg_pbmte = False, dirty_enabled = False\<rparr>"

text \<open>A table whose first entry maps a gigapage.\<close>

definition demo_table :: "u64 \<Rightarrow> u64" where
  "demo_table a = (if a = 0x80000000 then 0x200000CF else 0)"

theorem walk_protects_witness:
  "translate demo_env demo_table STORE 1 0x1234 = (Mapped 0x80001234, None)
    \<and> (\<exists>i base. reaches demo_table \<lparr>levels = 3, idxbits = 9, widenbits = 0, ptesize = 8, ptbase = 0x80000000\<rparr> 0x1234 (Suc i) base
         \<and> pte_permits demo_env STORE False True (demo_table
             (entry_address \<lparr>levels = 3, idxbits = 9, widenbits = 0, ptesize = 8, ptbase = 0x80000000\<rparr> 0x1234 i base)))"
proof -
  have d: "decode_vm_info 64 False 1 (satp_reg demo_env) = Some \<lparr>levels = 3, idxbits = 9, widenbits = 0, ptesize = 8, ptbase = 0x80000000\<rparr>"
    by (simp add: demo_env_def decode_vm_info_def get_field_def Let_def)
  have t: "translate demo_env demo_table STORE 1 0x1234 = (Mapped 0x80001234, None)"
    unfolding translate_def walk_def d
    by (simp add: Let_def numeral_3_eq_3 demo_table_def demo_env_def PTE_TABLE_def)
  show ?thesis using walk_protects [OF d _ t] t by (auto simp: Let_def)
qed

end
