(* ===== verification/VM_Env.thy ===== *)
theory VM_Env
  imports Env_String Spike_MMU
begin

text \<open>
  The page-table manager of the virtual-memory test environment, \<open>riscv-tests/env/v/vm.c\<close>
  (RV64, Sv39, \<open>LFSR_BITS\<close> 6).  The program's objects (page tables, \<open>user_mapping\<close>, the
  free list) are fields of \<open>vm_state\<close>, with pointers to list nodes as values of
  \<open>node_ptr\<close>; \<open>mem\<close> is the physical memory beside them.  In the program these objects lie in
  memory too, in pages of the image that the linker chooses (\<open>env/v/link.ld\<close>; the alignment of \<open>pt\<close> puts \<open>.bss\<close> on pages of its own):
  \<open>own_page\<close> of the platform says which pages hold an object or the stack of \<open>vm.c\<close>, \<open>mem\<close> says nothing of
  their contents, and a bulk access of the kernel that would touch one ends in the outcome
  \<open>Aliased\<close>, where the model stops to speak for the program.  Kernel accesses go through the
  simulator's page walk (\<open>Spike_MMU.translate\<close>) on these page tables, so that \<open>memcpy\<close> between
  a user page and its kernel alias is a copy between two physical pages.  There is no TLB:
  \<open>flush_page\<close> and \<open>fence.i\<close> have no effect.  \<open>pf_filter\<close> and \<open>trap_filter\<close>, which a test
  supplies in assembly, are parameters, and so are the addresses the linker chooses.
\<close>

section \<open>Constants\<close>

abbreviation (input) PGSIZE :: u64 where "PGSIZE \<equiv> 0x1000"
abbreviation (input) MAX_TEST_PAGES :: nat where "MAX_TEST_PAGES \<equiv> 63"
abbreviation (input) PTES_PER_PT :: nat where "PTES_PER_PT \<equiv> 512"
abbreviation (input) MEGAPAGE_SIZE :: u64 where "MEGAPAGE_SIZE \<equiv> 0x200000"
abbreviation (input) DRAM_BASE :: u64 where "DRAM_BASE \<equiv> 0x80000000"
abbreviation (input) EXT_IO_BASE :: u64 where "EXT_IO_BASE \<equiv> 0x40000000"

abbreviation (input) CAUSE_ILLEGAL_INSTRUCTION :: u64 where "CAUSE_ILLEGAL_INSTRUCTION \<equiv> 0x2"
abbreviation (input) CAUSE_USER_ECALL :: u64 where "CAUSE_USER_ECALL \<equiv> 0x8"
abbreviation (input) CAUSE_FETCH_PAGE_FAULT :: u64 where "CAUSE_FETCH_PAGE_FAULT \<equiv> 0xc"
abbreviation (input) CAUSE_LOAD_PAGE_FAULT :: u64 where "CAUSE_LOAD_PAGE_FAULT \<equiv> 0xd"
abbreviation (input) CAUSE_STORE_PAGE_FAULT :: u64 where "CAUSE_STORE_PAGE_FAULT \<equiv> 0xf"

definition pa2kva :: "u64 \<Rightarrow> u64" where
  "pa2kva pa = pa - DRAM_BASE - MEGAPAGE_SIZE"

definition uva2kva :: "u64 \<Rightarrow> u64" where
  "uva2kva pa = pa - MEGAPAGE_SIZE"

definition lfsr63 :: "u64 \<Rightarrow> u64" where
  "lfsr63 x = (let b = (x XOR drop_bit 1 x) AND 1 in drop_bit 1 x OR push_bit 62 b)"

definition LFSR_NEXT :: "u64 \<Rightarrow> u64" where
  "LFSR_NEXT x = push_bit 5 ((x XOR drop_bit 1 x) AND 1) OR drop_bit 1 x"

section \<open>State\<close>

datatype node_ptr = NULL | User_Mapping nat | Freelist_Node nat

record freelist_t =
  addr :: u64
  next_node :: node_ptr

record trapframe_t =
  gpr :: "nat \<Rightarrow> u64"
  sr :: u64
  epc :: u64
  badvaddr :: u64
  cause :: u64

record csr_state =
  satp :: u64
  sum_bit :: bool
  stvec :: u64
  sscratch :: u64
  medeleg :: u64
  mstatus :: u64
  mie :: u64
  pmpaddr0 :: u64
  pmpcfg0 :: u64

record vm_state =
  pt :: "nat \<Rightarrow> nat \<Rightarrow> u64"
  user_mapping :: "nat \<Rightarrow> freelist_t"
  freelist_nodes :: "nat \<Rightarrow> freelist_t"
  freelist_head :: node_ptr
  freelist_tail :: node_ptr
  mem :: "u64 \<Rightarrow> u8"
  csr :: csr_state
  tohost :: "u64 list"

text \<open>
  What a handler does: it returns, it ends in \<open>terminate\<close>, a kernel access of its own faults,
  it reads or writes user data in a page that holds objects of the program itself, or a loop in it
  runs forever.
\<close>

datatype outcome =
  Running vm_state | Terminated vm_state | Nested_Fault vm_state | Aliased vm_state | Looping

fun and_then :: "outcome \<Rightarrow> (vm_state \<Rightarrow> outcome) \<Rightarrow> outcome" where
  "and_then (Running s) f = f s"
| "and_then r f = r"

text \<open>
  The addresses the linker assigns and the registers the code only reads.  \<open>own_page p\<close>: the
  physical page number \<open>p\<close> holds (part of) \<open>pt\<close>, \<open>user_mapping\<close>, \<open>freelist_nodes\<close>,
  \<open>freelist_head\<close>, \<open>freelist_tail\<close> or a stack of the environment.  \<open>own_code a\<close>: the byte at the
  physical address \<open>a\<close> belongs to its instructions or constants.
\<close>

record platform =
  own_page :: "u64 \<Rightarrow> bool"
  own_code :: "u64 \<Rightarrow> bool"
  pt_pa :: u64
  trap_entry_pa :: u64
  mscratch :: u64
  entropy :: u64
  hw_dirty :: bool

section \<open>Kernel accesses to memory\<close>

definition mmu_of :: "platform \<Rightarrow> vm_state \<Rightarrow> mmu_env" where
  "mmu_of P s = \<lparr>satp_reg = satp (csr s), sstatus_sum = sum_bit (csr s), sstatus_mxr = False,
     ext_svnapot = False, menvcfg_pbmte = False, dirty_enabled = hw_dirty P\<rparr>"

definition pte_load :: "platform \<Rightarrow> vm_state \<Rightarrow> u64 \<Rightarrow> u64" where
  "pte_load P s pa =
     (let off = pa - pt_pa P
      in if off < 0x4000 then pt s (unat off div 4096) (unat off mod 4096 div 8)
         else load_word (\<lambda>m a. m a) (mem s) pa)"

definition pte_store :: "platform \<Rightarrow> (u64 \<times> u64) option \<Rightarrow> vm_state \<Rightarrow> vm_state" where
  "pte_store P st s =
     (case st of None \<Rightarrow> s
      | Some (pa, pte) \<Rightarrow>
          let off = pa - pt_pa P
          in if off < 0x4000
             then s\<lparr>pt := (pt s)(unat off div 4096 := (pt s (unat off div 4096))(unat off mod 4096 div 8 := pte))\<rparr>
             else s\<lparr>mem := store_word (\<lambda>m a v. m(a := v)) (mem s) pa pte\<rparr>)"

definition kernel_access :: "platform \<Rightarrow> vm_state \<Rightarrow> access_type \<Rightarrow> u64 \<Rightarrow> u64 option" where
  "kernel_access P s type va =
     (case translate (mmu_of P s) (pte_load P s) type 1 va of (Mapped pa, _) \<Rightarrow> Some pa | _ \<Rightarrow> None)"

definition kread :: "platform \<Rightarrow> vm_state \<Rightarrow> u64 \<Rightarrow> u8" where
  "kread P s va = (case kernel_access P s LOAD va of Some pa \<Rightarrow> mem s pa | None \<Rightarrow> 0)"

definition kwrite :: "platform \<Rightarrow> vm_state \<Rightarrow> u64 \<Rightarrow> u8 \<Rightarrow> vm_state" where
  "kwrite P s va v =
     (case kernel_access P s STORE va of Some pa \<Rightarrow> s\<lparr>mem := (mem s)(pa := v)\<rparr> | None \<Rightarrow> s)"

text \<open>
  A copy or comparison of a page faults unless both pages are accessible, and the bytes of a page
  that holds objects of the program are those objects, not the ones of \<open>mem\<close>: \<open>kread\<close> and
  \<open>kwrite\<close> are used on other pages only.
\<close>

definition accessible :: "platform \<Rightarrow> vm_state \<Rightarrow> access_type \<Rightarrow> u64 \<Rightarrow> bool" where
  "accessible P s type va = (kernel_access P s type va \<noteq> None)"

definition own_access :: "platform \<Rightarrow> vm_state \<Rightarrow> access_type \<Rightarrow> u64 \<Rightarrow> bool" where
  "own_access P s type va =
     (case kernel_access P s type va of Some pa \<Rightarrow> own_page P (drop_bit PGSHIFT pa) | None \<Rightarrow> False)"

definition copy_page :: "platform \<Rightarrow> u64 \<Rightarrow> u64 \<Rightarrow> vm_state \<Rightarrow> outcome" where
  "copy_page P dest src s =
     (if accessible P s STORE dest \<and> accessible P s LOAD src
      then if own_access P s STORE dest \<or> own_access P s LOAD src then Aliased s
           else case memcpy (kread P) (kwrite P) dest src PGSIZE s of
                  None \<Rightarrow> Looping | Some s' \<Rightarrow> Running s'
      else Nested_Fault s)"

section \<open>Termination and assertions\<close>

definition do_tohost :: "u64 \<Rightarrow> vm_state \<Rightarrow> vm_state" where
  "do_tohost v s = s\<lparr>tohost := tohost s @ [v]\<rparr>"

definition cputchar :: "char \<Rightarrow> vm_state \<Rightarrow> vm_state" where
  "cputchar c s = do_tohost (0x0101000000000000 OR of_char c) s"

definition cputstring :: "string \<Rightarrow> vm_state \<Rightarrow> vm_state" where
  "cputstring msg s = fold cputchar msg s"

definition terminate :: "32 word \<Rightarrow> vm_state \<Rightarrow> outcome" where
  "terminate code s = Terminated (do_tohost (scast code) s)"

definition vm_assert :: "bool \<Rightarrow> string \<Rightarrow> vm_state \<Rightarrow> outcome" where
  "vm_assert b msg s =
     (if b then Running s
      else terminate 3 (cputstring (''Assertion failed: '' @ msg @ [CHR 0x0A]) s))"

definition wtf :: "vm_state \<Rightarrow> outcome" where
  "wtf s = terminate 841 s"

definition printhex :: "u64 \<Rightarrow> vm_state \<Rightarrow> vm_state" where
  "printhex x s =
     (let digit = (\<lambda>i. let d = unat (drop_bit (4 * i) x AND 0xF)
                        in char_of (d + (if d < 10 then 48 else 87)))
      in cputstring (map digit (rev [0..<16])) s)"

section \<open>evict\<close>

definition deref :: "vm_state \<Rightarrow> node_ptr \<Rightarrow> freelist_t" where
  "deref s p = (case p of User_Mapping i \<Rightarrow> user_mapping s i | Freelist_Node i \<Rightarrow> freelist_nodes s i
                | NULL \<Rightarrow> undefined)"

definition set_next :: "node_ptr \<Rightarrow> node_ptr \<Rightarrow> vm_state \<Rightarrow> vm_state" where
  "set_next p q s =
     (case p of
        User_Mapping i \<Rightarrow> s\<lparr>user_mapping := (user_mapping s)(i := (user_mapping s i)\<lparr>next_node := q\<rparr>)\<rparr>
      | Freelist_Node i \<Rightarrow> s\<lparr>freelist_nodes := (freelist_nodes s)(i := (freelist_nodes s i)\<lparr>next_node := q\<rparr>)\<rparr>
      | NULL \<Rightarrow> s)"

definition set_sum :: "bool \<Rightarrow> vm_state \<Rightarrow> vm_state" where
  "set_sum b s = s\<lparr>csr := (csr s)\<lparr>sum_bit := b\<rparr>\<rparr>"

definition release :: "nat \<Rightarrow> vm_state \<Rightarrow> vm_state" where
  "release i s =
     (let node = User_Mapping i;
          s = s\<lparr>user_mapping := (user_mapping s)(i := (user_mapping s i)\<lparr>addr := 0\<rparr>)\<rparr>
      in if freelist_tail s = NULL
         then s\<lparr>freelist_head := node, freelist_tail := node\<rparr>
         else (set_next (freelist_tail s) node s)\<lparr>freelist_tail := node\<rparr>)"

definition write_back :: "platform \<Rightarrow> u64 \<Rightarrow> nat \<Rightarrow> vm_state \<Rightarrow> outcome" where
  "write_back P va i s =
     (if accessible P s LOAD va \<and> accessible P s LOAD (uva2kva va)
      then if own_access P s LOAD va \<or> own_access P s LOAD (uva2kva va) then Aliased s
           else case memcmp (kread P) va (uva2kva va) PGSIZE s of
             None \<Rightarrow> Looping
           | Some c \<Rightarrow>
               if c \<noteq> 0
               then and_then (vm_assert (pt s 3 i AND PTE_D \<noteq> 0) ''pt[3][addr/(1UL << 12)] & 0x080'' s)
                      (copy_page P (uva2kva va) va)
               else Running s
      else Nested_Fault s)"

definition evict :: "platform \<Rightarrow> u64 \<Rightarrow> vm_state \<Rightarrow> outcome" where
  "evict P va s =
     and_then (vm_assert (PGSIZE \<le> va \<and> va < of_nat MAX_TEST_PAGES * PGSIZE)
                 ''addr >= (1UL << 12) && addr < ((1 << 6)-1) * (1UL << 12)'' s)
       (\<lambda>s. let va = va div PGSIZE * PGSIZE; i = unat (va div PGSIZE)
             in if addr (user_mapping s i) \<noteq> 0
                then and_then (vm_assert (pt s 3 i AND PTE_A \<noteq> 0) ''pt[3][addr/(1UL << 12)] & 0x040'' s)
                       (\<lambda>s. let saved = sum_bit (csr s)
                             in and_then (write_back P va i (set_sum True s))
                                  (\<lambda>s. Running (release i (set_sum saved s))))
                else Running s)"

section \<open>handle_fault\<close>

definition handle_fault :: "platform \<Rightarrow> (u64 \<Rightarrow> u64 option) \<Rightarrow> u64 \<Rightarrow> u64 \<Rightarrow> vm_state \<Rightarrow> outcome" where
  "handle_fault P pf_filter va why s =
     and_then (vm_assert (PGSIZE \<le> va \<and> va < of_nat MAX_TEST_PAGES * PGSIZE)
                 ''addr >= (1UL << 12) && addr < ((1 << 6)-1) * (1UL << 12)'' s)
       (\<lambda>s. let va = va div PGSIZE * PGSIZE;
                 i = unat (va div PGSIZE);
                 set_pte = (\<lambda>pte s. s\<lparr>pt := (pt s)(3 := (pt s 3)(i := pte))\<rparr>)
             in if pt s 3 i \<noteq> 0
                then if pt s 3 i AND PTE_A = 0
                     then Running (set_pte (pt s 3 i OR PTE_A) s)
                     else and_then (vm_assert (pt s 3 i AND PTE_D = 0 \<and> why = CAUSE_STORE_PAGE_FAULT)
                                      ''!(pt[3][addr/(1UL << 12)] & 0x080) && cause == 0xf'' s)
                            (\<lambda>s. Running (set_pte (pt s 3 i OR PTE_D) s))
                else and_then (vm_assert (freelist_head s \<noteq> NULL) ''node'' s)
                       (\<lambda>s. let node = deref s (freelist_head s);
                                 s = s\<lparr>freelist_head := next_node node\<rparr>;
                                 s = (if freelist_head s = freelist_tail s then s\<lparr>freelist_tail := NULL\<rparr> else s);
                                 ppn = push_bit PTE_PPN_SHIFT (drop_bit PGSHIFT (addr node));
                                 new_pte = (case pf_filter va of
                                     Some filter_encodings \<Rightarrow> ppn OR filter_encodings
                                   | None \<Rightarrow> ppn OR PTE_V OR PTE_U OR PTE_R OR PTE_W OR PTE_X)
                             in and_then (vm_assert (addr (user_mapping s i) = 0)
                                            ''user_mapping[addr/(1UL << 12)].addr == 0''
                                            (set_pte (new_pte OR PTE_A OR PTE_D) s))
                                  (\<lambda>s. let s = s\<lparr>user_mapping := (user_mapping s)(i := node)\<rparr>;
                                            saved = sum_bit (csr s)
                                        in and_then (copy_page P va (uva2kva va) (set_sum True s))
                                             (\<lambda>s. Running (set_pte new_pte (set_sum saved s))))))"

section \<open>handle_trap\<close>

text \<open>
  \<open>pop_tf\<close> returns to user mode, so it ends the handler: the result is the trap frame to
  resume with.  \<open>trap_filter\<close> yields the frame it leaves when it claims the trap; \<open>fssr\<close> is
  the encoding of the instruction the code compares with.
\<close>

definition read_insn :: "platform \<Rightarrow> vm_state \<Rightarrow> u64 \<Rightarrow> u32" where
  "read_insn P s a =
     ucast (word_of (load_bytes (kread P) s a 4))"

definition evict_all :: "platform \<Rightarrow> vm_state \<Rightarrow> outcome" where
  "evict_all P s = foldl (\<lambda>r i. and_then r (evict P (of_nat i * PGSIZE))) (Running s) [1..<MAX_TEST_PAGES]"

definition handle_trap ::
  "platform \<Rightarrow> (u64 \<Rightarrow> u64 option) \<Rightarrow> (trapframe_t \<Rightarrow> trapframe_t option) \<Rightarrow> u32 \<Rightarrow> trapframe_t \<Rightarrow> vm_state
    \<Rightarrow> outcome \<times> trapframe_t" where
  "handle_trap P pf_filter trap_filter fssr tf s =
     (case trap_filter tf of
        Some tf' \<Rightarrow> (Running s, tf')
      | None \<Rightarrow>
          if cause tf = CAUSE_USER_ECALL
          then (and_then (evict_all P s) (terminate (ucast (gpr tf 10))), tf)
          else if cause tf = CAUSE_ILLEGAL_INSTRUCTION
          then (and_then (vm_assert (epc tf mod 4 = 0) ''tf->epc % 4 == 0'' s)
                  (\<lambda>s. if \<not> accessible P s LOAD (epc tf) then Nested_Fault s
                       else if own_access P s LOAD (epc tf) then Aliased s
                       else if read_insn P s (epc tf) = fssr then terminate 1 s
                       else vm_assert False ''!\"illegal instruction\"'' s), tf)
          else if cause tf = CAUSE_FETCH_PAGE_FAULT \<or> cause tf = CAUSE_LOAD_PAGE_FAULT
                  \<or> cause tf = CAUSE_STORE_PAGE_FAULT
          then (handle_fault P pf_filter (badvaddr tf) (cause tf) s, tf)
          else (vm_assert False ''!\"unexpected exception\"'' s, tf))"

section \<open>vm_boot\<close>

definition table_entry :: "platform \<Rightarrow> nat \<Rightarrow> u64" where
  "table_entry P k = push_bit PTE_PPN_SHIFT (drop_bit PGSHIFT (pt_pa P + of_nat k * PGSIZE)) OR PTE_V"

definition kernel_leaf :: "u64 \<Rightarrow> u64" where
  "kernel_leaf base =
     push_bit PTE_PPN_SHIFT (base div PGSIZE) OR PTE_V OR PTE_R OR PTE_W OR PTE_X OR PTE_A OR PTE_D"

definition boot_tables :: "platform \<Rightarrow> vm_state \<Rightarrow> vm_state" where
  "boot_tables P s = s\<lparr>pt := (pt s)
     (0 := (pt s 0)(0 := table_entry P 1, PTES_PER_PT - 1 := table_entry P 2),
      2 := (pt s 2)(PTES_PER_PT - 1 := kernel_leaf DRAM_BASE, PTES_PER_PT - 2 := kernel_leaf EXT_IO_BASE),
      1 := (pt s 1)(0 := table_entry P 3))\<rparr>"

function boot_freelist :: "nat \<Rightarrow> u64 \<Rightarrow> (nat \<Rightarrow> freelist_t) \<Rightarrow> (nat \<Rightarrow> freelist_t)" where
  "boot_freelist i random nodes =
     (if i < MAX_TEST_PAGES
      then boot_freelist (i + 1) (LFSR_NEXT random)
             (nodes(i := \<lparr>addr = DRAM_BASE + (of_nat MAX_TEST_PAGES + random) * PGSIZE,
                         next_node = Freelist_Node (i + 1)\<rparr>))
      else nodes)"
  by pat_completeness auto
termination by (relation "measure (\<lambda>(i, _, _). MAX_TEST_PAGES - i)") auto

declare boot_freelist.simps [simp del]

definition vm_boot :: "platform \<Rightarrow> (u64 \<Rightarrow> u64) \<Rightarrow> u64 \<Rightarrow> vm_state \<Rightarrow> outcome \<times> trapframe_t" where
  "vm_boot P satp_warl test_addr s =
     (let s = boot_tables P s;
          satp_value = drop_bit PGSHIFT (pt_pa P) OR 8 * 0x1000000000000000;
          s = s\<lparr>csr := (csr s)\<lparr>satp := satp_warl satp_value\<rparr>\<rparr>;
          tf = \<lparr>gpr = (\<lambda>_. 0), sr = 0, epc = test_addr - DRAM_BASE, badvaddr = 0, cause = 0\<rparr>
      in (and_then (vm_assert (satp (csr s) = satp_value) ''!\"unsupported satp mode\"'' s)
            (\<lambda>s. let s = s\<lparr>csr := (csr s)\<lparr>pmpaddr0 := push_bit 53 1 - 1, pmpcfg0 := 0x18 OR 1 OR 2 OR 4,
                        stvec := pa2kva (trap_entry_pa P), sscratch := pa2kva (mscratch P),
                        medeleg := push_bit 8 1 OR push_bit 12 1 OR push_bit 13 1 OR push_bit 15 1,
                        mstatus := 0x6000 OR 0x18000 OR 0x600, sum_bit := False, mie := 0\<rparr>\<rparr>;
                      random = 1 + entropy P mod of_nat MAX_TEST_PAGES;
                      nodes = boot_freelist 0 random (freelist_nodes s);
                      last = nodes (MAX_TEST_PAGES - 1)
                  in Running (s\<lparr>freelist_head := Freelist_Node 0,
                                freelist_tail := Freelist_Node (MAX_TEST_PAGES - 1),
                                freelist_nodes := nodes(MAX_TEST_PAGES - 1 := last\<lparr>next_node := NULL\<rparr>)\<rparr>)),
          tf))"

text \<open>One round of \<open>coherence_torture\<close> on the other harts: the word it reads or adds zero to.\<close>

definition coherence_torture_step :: "u64 \<Rightarrow> u64 \<times> u64" where
  "coherence_torture_step random =
     (DRAM_BASE + (random mod (2 * (of_nat MAX_TEST_PAGES + 1) * PGSIZE) AND NOT 3), lfsr63 random)"

end
