(* ===== verification/VM_Tables.thy ===== *)
theory VM_Tables
  imports VM_Env
begin

text \<open>
  What the page walk of the simulator makes of the page tables \<open>vm_boot\<close> builds: every address
  of the test region goes through the user table (\<open>user_translate\<close>), and the kernel's window
  maps the same physical pages linearly (\<open>kernel_translate\<close>).
\<close>

section \<open>Fields of a page-table entry\<close>

definition mk_pte :: "u64 \<Rightarrow> u64 \<Rightarrow> u64" where
  "mk_pte ppn flags = push_bit 10 ppn OR flags"

lemma word_bit_bound:
  fixes w :: u64
  assumes "unat w < 2 ^ n" "bit w i"
  shows "i < n"
  using assms by (metis bit_take_bit_iff take_bit_nat_eq_self unsigned_take_bit_eq word_unat_eq_iff)

lemma mk_pte_low: "unat c < 2 ^ 10 \<Longrightarrow> mk_pte ppn flags AND c = flags AND c"
  unfolding mk_pte_def by (rule bit_eqI) (auto simp: bit_simps dest: word_bit_bound [of c 10, simplified])

lemma mk_pte_high:
  assumes ppn: "unat ppn < 2 ^ 44" and flags: "unat flags < 2 ^ 10" and "take_bit 54 c = 0"
  shows "mk_pte ppn flags AND c = 0"
proof -
  have c: "bit c i \<Longrightarrow> 54 \<le> i" for i
    using arg_cong [OF assms(3), of "\<lambda>w. bit w i"] by (auto simp: bit_take_bit_iff)
  show ?thesis unfolding mk_pte_def
    by (rule bit_eqI) (auto simp: bit_simps dest!: c dest: word_bit_bound [OF ppn] word_bit_bound [OF flags])
qed

lemma mk_pte_ppn:
  assumes ppn: "unat ppn < 2 ^ 44" and flags: "unat flags < 2 ^ 10"
  shows "drop_bit 10 (mk_pte ppn flags AND NOT 0xFFC0000000000000) = ppn"
proof -
  have n: "NOT 0xFFC0000000000000 = (mask 54 :: u64)" by (simp add: mask_eq_exp_minus_1)
  show ?thesis unfolding n mk_pte_def
    by (rule bit_eqI) (auto simp: bit_simps dest: word_bit_bound [OF ppn] word_bit_bound [OF flags])
qed

lemma mk_pte_or: "mk_pte ppn flags OR g = mk_pte ppn (flags OR g)"
  by (simp add: mk_pte_def or.assoc)

lemma mk_pte_masks:
  assumes "unat ppn < 2 ^ 44" "unat flags < 2 ^ 10"
  shows "mk_pte ppn flags AND 0x1FC0000000000000 = 0" "mk_pte ppn flags AND 0x8000000000000000 = 0"
    "mk_pte ppn flags AND 0x6000000000000000 = 0"
    "mk_pte ppn flags AND 0xE0000000000000D0 = flags AND 0xD0"
proof -
  show "mk_pte ppn flags AND 0x1FC0000000000000 = 0" "mk_pte ppn flags AND 0x8000000000000000 = 0"
    "mk_pte ppn flags AND 0x6000000000000000 = 0"
    by (rule mk_pte_high [OF assms], simp)+
  have "mk_pte ppn flags AND 0xE0000000000000D0 = (mk_pte ppn flags AND 0xE000000000000000) OR (mk_pte ppn flags AND 0xD0)"
    by (simp add: bit.conj_disj_distrib [symmetric])
  also have "\<dots> = flags AND 0xD0" using mk_pte_high [OF assms, of "0xE000000000000000"] mk_pte_low [of "0xD0"] by simp
  finally show "mk_pte ppn flags AND 0xE0000000000000D0 = flags AND 0xD0" .
qed

section \<open>Steps of the walk\<close>

text \<open>A pointer to the next level.\<close>

lemma walk_table:
  assumes "unat ppn < 2 ^ 44"
    and "ld (base + (drop_bit (12 + i * idxbits vm) adr AND (push_bit (idxbits vm) 1 - 1)) * of_nat (ptesize vm)) = mk_pte ppn 1"
  shows "walk_levels env ld type hlvx s_mode vm adr (Suc i) base
    = walk_levels env ld type hlvx s_mode vm adr i (push_bit 12 ppn)"
proof -
  have f: "unat (1 :: u64) < 2 ^ 10" by simp
  have "PTE_TABLE (mk_pte ppn 1)" using mk_pte_low [of "0xF"] by (simp add: PTE_TABLE_def)
  then show ?thesis
    unfolding walk_levels.simps Let_def assms(2)
    using mk_pte_masks [OF assms(1) f] mk_pte_ppn [OF assms(1) f] by simp
qed

text \<open>A leaf: the permissions decide, and the accessed and dirty bits.\<close>

definition leaf_permits :: "access_type \<Rightarrow> bool \<Rightarrow> bool \<Rightarrow> u64 \<Rightarrow> bool" where
  "leaf_permits type s_mode sm flags =
     ((if flags AND 0x10 \<noteq> 0 then \<not> s_mode \<or> type \<noteq> FETCH \<and> sm else s_mode)
      \<and> (case type of LOAD \<Rightarrow> flags AND 2 \<noteq> 0 | STORE \<Rightarrow> flags AND 2 \<noteq> 0 \<and> flags AND 4 \<noteq> 0 | FETCH \<Rightarrow> flags AND 8 \<noteq> 0))"

definition needed :: "access_type \<Rightarrow> u64" where
  "needed type = (if type = STORE then 0xC0 else 0x40)"

lemma walk_leaf:
  fixes flags :: u64
  assumes p: "unat ppn < 2 ^ 44" and f: "unat flags < 2 ^ 10"
    and v: "flags AND 1 = 1" "flags AND 0xF \<noteq> 1" "flags AND 2 = 0 \<Longrightarrow> flags AND 4 = 0"
    and ld: "ld pa = mk_pte ppn flags"
    and pa: "pa = base + (drop_bit (12 + i * idxbits vm) adr AND (push_bit (idxbits vm) 1 - 1)) * of_nat (ptesize vm)"
    and al: "ppn AND (push_bit (i * idxbits vm) 1 - 1) = 0"
    and mxr: "\<not> sstatus_mxr env"
  shows "walk_levels env ld type False s_mode vm adr (Suc i) base =
    (if leaf_permits type s_mode (sstatus_sum env) flags \<and> (flags AND needed type = needed type \<or> dirty_enabled env)
     then (Mapped (push_bit 12 (ppn OR (drop_bit 12 adr AND (push_bit (i * idxbits vm) 1 - 1)))),
           if flags AND needed type = needed type then None else Some (pa, mk_pte ppn (flags OR needed type)))
     else (Page_Fault, None))"
proof -
  have t: "\<not> PTE_TABLE (mk_pte ppn flags)" using mk_pte_low [of "0xF"] v(2) by (simp add: PTE_TABLE_def)
  note low = mk_pte_low [where ppn = ppn and flags = flags]
  have nb: "0x40 OR (if type = STORE then 0x80 else 0) = needed type" by (simp add: needed_def)
  have nd: "unat (needed type) < 2 ^ 10" by (simp add: needed_def)
  define page where "page = ppn OR (drop_bit 12 adr AND (push_bit (i * idxbits vm) 1 - 1))"
  have phys: "(push_bit 12 page OR (adr AND 0xFFF)) AND NOT 0xFFF = push_bit 12 page"
  proof -
    have m: "(0xFFF :: u64) = mask 12" by (simp add: mask_eq_exp_minus_1)
    show ?thesis unfolding m by (rule bit_eqI) (auto simp: bit_simps)
  qed
  have phys': "((push_bit 12 ppn OR push_bit 12 (drop_bit 12 adr) AND push_bit 12 (2 ^ (i * idxbits vm) - 1)) OR adr AND 4095)
      AND - 4096 = push_bit 12 ppn OR push_bit 12 (drop_bit 12 adr) AND push_bit 12 (2 ^ (i * idxbits vm) - 1)"
    using phys by (simp add: page_def)
  show ?thesis
    unfolding walk_levels.simps Let_def pa [symmetric] ld mk_pte_ppn [OF p f] mk_pte_masks [OF p f] nb
      low [OF nd] mk_pte_or
    using t v al mxr low [of 1] low [of 2] low [of 4] low [of 8] low [of "0x10"]
    by (cases type) (auto simp: leaf_permits_def phys')
qed

section \<open>The page tables of the environment\<close>

text \<open>
  What the linker guarantees: the tables are aligned to pages, in pages of the program's own, and
  none of its objects lies in the 63 frames above the image that it hands out.
\<close>

definition dram_page :: "nat \<Rightarrow> u64" where
  "dram_page k = drop_bit 12 (DRAM_BASE + of_nat k * PGSIZE)"

definition table_page :: "platform \<Rightarrow> nat \<Rightarrow> u64" where
  "table_page P k = drop_bit 12 (pt_pa P + of_nat k * PGSIZE)"

definition platform_ok :: "platform \<Rightarrow> bool" where
  "platform_ok P =
     (unat (pt_pa P) mod 4096 = 0 \<and> unat (pt_pa P) + 0x4000 \<le> 2 ^ 56
      \<and> (\<forall>k < 4. own_page P (table_page P k)) \<and> (\<forall>f \<in> {64..126}. \<not> own_page P (dram_page f)))"

definition tables_ok :: "platform \<Rightarrow> vm_state \<Rightarrow> bool" where
  "tables_ok P s =
     (pt s 0 0 = table_entry P 1 \<and> pt s 0 511 = table_entry P 2 \<and> pt s 1 0 = table_entry P 3
      \<and> pt s 2 511 = kernel_leaf DRAM_BASE
      \<and> satp (csr s) = drop_bit 12 (pt_pa P) OR 0x8000000000000000)"

lemma table_entry_mk: "table_entry P k = mk_pte (table_page P k) 1"
  by (simp add: table_entry_def mk_pte_def table_page_def)

lemma kernel_leaf_mk: "kernel_leaf DRAM_BASE = mk_pte 0x80000 0xCF"
  by (simp add: kernel_leaf_def mk_pte_def)

lemma table_address:
  assumes "platform_ok P" "k < 4"
  shows "unat (pt_pa P + of_nat k * PGSIZE) = unat (pt_pa P) + k * 4096"
    "unat (table_page P k) < 2 ^ 44" "push_bit 12 (table_page P k) = pt_pa P + of_nat k * PGSIZE"
proof -
  have k: "unat (of_nat k * PGSIZE) = k * 4096"
    using assms(2) by (subst unat_mult_no_wrap) (simp_all add: unat_of_nat)
  show u: "unat (pt_pa P + of_nat k * PGSIZE) = unat (pt_pa P) + k * 4096"
    using assms k by (subst unat_add_no_wrap) (simp_all add: platform_ok_def)
  have d: "unat (table_page P k) = (unat (pt_pa P) + k * 4096) div 4096"
    unfolding table_page_def by (simp only: unat_drop u) simp
  show "unat (table_page P k) < 2 ^ 44"
    unfolding d by (rule less_mult_imp_div_less) (use assms in \<open>simp add: platform_ok_def\<close>)
  have "(unat (pt_pa P) + k * 4096) mod 4096 = 0" using assms(1) by (simp add: platform_ok_def)
  then have "(unat (pt_pa P) + k * 4096) div 4096 * 4096 = unat (pt_pa P) + k * 4096"
    using div_mult_mod_eq [of "unat (pt_pa P) + k * 4096" 4096] by linarith
  moreover have "unat (pt_pa P) + k * 4096 < 2 ^ 64" using assms by (simp add: platform_ok_def)
  ultimately have "unat (table_page P k) * 2 ^ 12 = unat (pt_pa P) + k * 4096"
    "unat (table_page P k) * 2 ^ 12 < 2 ^ LENGTH(64)" unfolding d by simp_all
  then have "unat (push_bit 12 (table_page P k)) = unat (pt_pa P) + k * 4096"
    by (simp only: unat_push_no_wrap)
  then show "push_bit 12 (table_page P k) = pt_pa P + of_nat k * PGSIZE"
    using u by (simp only: word_eq_iff_unat)
qed

lemma pte_load_table:
  assumes "platform_ok P" "k < 4" "j < 512"
  shows "pte_load P s (pt_pa P + of_nat k * PGSIZE + of_nat j * of_nat 8) = pt s k j"
proof -
  have "of_nat k * PGSIZE + of_nat j * of_nat 8 = (word_of_nat (k * 4096 + j * 8) :: u64)" by simp
  moreover have "unat (word_of_nat (k * 4096 + j * 8) :: u64) = k * 4096 + j * 8"
    using assms(2,3) by (intro unat_word_of_nat_lt) simp
  ultimately have "unat (of_nat k * PGSIZE + of_nat j * of_nat 8 :: u64) = k * 4096 + j * 8" by (simp only:)
  then have o: "unat (pt_pa P + of_nat k * PGSIZE + of_nat j * of_nat 8 - pt_pa P) = k * 4096 + j * 8"
    by (simp add: algebra_simps)
  moreover have "(k * 4096 + j * 8) div 4096 = k" "(k * 4096 + j * 8) mod 4096 div 8 = j"
    using assms(3) by simp_all
  ultimately show ?thesis
    using assms(2,3) by (simp add: pte_load_def Let_def word_less_nat_alt)
qed


lemma decode_39:
  assumes "satp (csr s) = drop_bit 12 (pt_pa P) OR 0x8000000000000000" "platform_ok P" "mode \<le> 1"
  shows "decode_vm_info 64 False mode (satp (csr s))
    = Some \<lparr>levels = 3, idxbits = 9, widenbits = 0, ptesize = 8, ptbase = pt_pa P\<rparr>"
proof -
  define p where "p = drop_bit 12 (pt_pa P)"
  have p: "unat p < 2 ^ 44" and pp: "push_bit 12 p = pt_pa P"
    using table_address(2,3) [OF assms(2), of 0] by (simp_all add: table_page_def p_def)
  have b: "bit p i \<Longrightarrow> i < 44" for i by (rule word_bit_bound [OF p])
  have z: "p AND c = 0" if "take_bit 44 c = 0" for c
  proof -
    have "bit c i \<Longrightarrow> 44 \<le> i" for i
      using arg_cong [OF that, of "\<lambda>w. bit w i"] by (auto simp: bit_take_bit_iff)
    then show ?thesis by (intro bit_eqI) (fastforce simp: bit_simps dest: b)
  qed
  have "(p OR 0x8000000000000000) AND 0xF000000000000000 = 0x8000000000000000"
    using z [of "0xF000000000000000"] by (simp add: bit.conj_disj_distrib2)
  then have g: "get_field (p OR 0x8000000000000000) 0xF000000000000000 = 8"
    by (simp add: get_field_def)
  have a: "(p OR 0x8000000000000000) AND 0x00000FFFFFFFFFFF = p"
  proof -
    have m: "(0x00000FFFFFFFFFFF :: u64) = mask 44" by (simp add: mask_eq_exp_minus_1)
    have "p AND mask 44 = p" by (rule bit_eqI) (auto simp: bit_simps dest: b)
    then show ?thesis by (simp add: bit.conj_disj_distrib2 m [symmetric])
  qed
  have n: "mode \<noteq> 3" using assms(3) by simp
  show ?thesis
    unfolding decode_vm_info_def Let_def assms(1) p_def [symmetric] g a pp
    using n assms(3) by (simp only: if_False if_True simp_thms) simp
qed

lemma page_offset:
  fixes p w :: u64
  assumes "unat p < 2 ^ 52"
  shows "unat (push_bit 12 p OR (w AND 0xFFF)) = unat p * 4096 + unat w mod 4096"
proof -
  have m: "(0xFFF :: u64) = mask 12" by (simp add: mask_eq_exp_minus_1)
  have "unat (push_bit 12 p) = unat p * 2 ^ 12" using assms by (intro unat_push_no_wrap) simp
  then have "unat (push_bit 12 p OR (w AND 0xFFF)) = (unat p * 2 ^ 12) OR (unat w mod 2 ^ 12)"
    unfolding m by (simp only: unat_or unat_and_mask)
  also have "\<dots> = unat p * 2 ^ 12 + unat w mod 2 ^ 12" by (rule or_eq_add_nat) simp
  finally show ?thesis by simp
qed

text \<open>A virtual address of the test region, and its alias in the kernel's window.\<close>

lemma uva2kva_unat:
  fixes va :: u64
  assumes "unat va < 63 * 4096"
  shows "unat (uva2kva va) = 2 ^ 64 - 2 ^ 21 + unat va"
proof -
  have "uva2kva va = va + of_nat (2 ^ 64 - 2 ^ 21)" by (simp add: uva2kva_def)
  moreover have "unat (of_nat (2 ^ 64 - 2 ^ 21) :: u64) = 2 ^ 64 - 2 ^ 21" by (rule unat_word_of_nat_lt) simp
  ultimately show ?thesis using assms by (subst \<open>uva2kva va = _\<close>, subst unat_add_no_wrap) simp_all
qed

lemma va_fields:
  fixes va :: u64
  assumes "unat va < 63 * 4096"
  shows "drop_bit 38 va = 0" "drop_bit 30 va AND 0x1FF = 0" "drop_bit 21 va AND 0x1FF = 0"
    "drop_bit 12 va AND 0x1FF = of_nat (unat va div 4096)"
    "drop_bit 38 (uva2kva va) = 0x3FFFFFF"
    "drop_bit 30 (uva2kva va) AND 0x1FF = of_nat 511" "drop_bit 21 (uva2kva va) AND 0x1FF = of_nat 511"
    "drop_bit 12 (uva2kva va) AND 0x1FF = of_nat (unat va div 4096)"
proof -
  have m: "(0x1FF :: u64) = mask 9" by (simp add: mask_eq_exp_minus_1)
  note k = uva2kva_unat [OF assms]
  have f: "unat (drop_bit n w AND mask 9) = unat w div 2 ^ n mod 512" for n and w :: u64
    by (simp only: unat_and_mask unat_drop) simp
  have i: "unat va div 4096 < 512" using assms by simp
  have n: "unat (of_nat j :: u64) = j" if "j < 512" for j using that by (intro unat_word_of_nat_lt) simp
  have d1: "(2 ^ 64 - 2 ^ 21 + unat va) div 2 ^ 30 = 17179869183" and d2: "(2 ^ 64 - 2 ^ 21 + unat va) div 2 ^ 21 = 8796093022207"
    by (rule div_nat_eqI; use assms in simp)+
  show "drop_bit 38 va = 0" using assms by (simp only: word_eq_iff_unat unat_drop) simp
  show "drop_bit 30 va AND 0x1FF = 0" "drop_bit 21 va AND 0x1FF = 0"
    using assms unfolding m by (simp_all only: word_eq_iff_unat f) simp_all
  show "drop_bit 12 va AND 0x1FF = of_nat (unat va div 4096)"
    unfolding m by (simp only: word_eq_iff_unat f n [OF i]) (use i in simp)
  show "drop_bit 38 (uva2kva va) = 0x3FFFFFF"
    using assms by (simp only: word_eq_iff_unat unat_drop k) simp
  show "drop_bit 30 (uva2kva va) AND 0x1FF = of_nat 511" "drop_bit 21 (uva2kva va) AND 0x1FF = of_nat 511"
    unfolding m word_eq_iff_unat f k n [of 511, simplified] d1 d2 by simp_all
  show "drop_bit 12 (uva2kva va) AND 0x1FF = of_nat (unat va div 4096)"
  proof -
    have "2 ^ 64 - 2 ^ 21 + unat va = unat va + 4503599627369984 * 2 ^ 12" by simp
    then have "(2 ^ 64 - 2 ^ 21 + unat va) div 2 ^ 12 = 4503599627369984 + unat va div 2 ^ 12"
      by (simp only: div_mult_self1) simp
    moreover have "(4503599627369984 + unat va div 2 ^ 12) mod 512 = unat va div 4096"
      using i by (simp add: mod_add_eq [symmetric])
    ultimately show ?thesis unfolding m word_eq_iff_unat f k n [OF i] by simp
  qed
qed


abbreviation vm39 :: "platform \<Rightarrow> vm_info" where
  "vm39 P \<equiv> \<lparr>levels = 3, idxbits = 9, widenbits = 0, ptesize = 8, ptbase = pt_pa P\<rparr>"

lemma user_walk:
  assumes P: "platform_ok P" and t: "tables_ok P s" and va: "unat va < 63 * 4096" and m: "mode \<le> 1"
  shows "walk (mmu_of P s) (pte_load P s) type False mode va
    = walk_levels (mmu_of P s) (pte_load P s) type False (mode = 1) (vm39 P) va (Suc 0) (pt_pa P + of_nat 3 * PGSIZE)"
proof -
  have d: "decode_vm_info 64 False mode (satp_reg (mmu_of P s)) = Some (vm39 P)"
    using decode_39 [of s P mode] P t m by (simp add: mmu_of_def tables_ok_def)
  let ?w = "\<lambda>i base. walk_levels (mmu_of P s) (pte_load P s) type False (mode = 1) (vm39 P) va i base"
  have l2: "pte_load P s (pt_pa P + (drop_bit (12 + 2 * 9) va AND (push_bit 9 1 - 1)) * of_nat 8) = mk_pte (table_page P 1) 1"
    using pte_load_table [OF P, of 0 0 s] t va_fields(2) [OF va] by (simp add: tables_ok_def table_entry_mk)
  have "?w (Suc 2) (pt_pa P) = ?w 2 (push_bit 12 (table_page P 1))"
    by (rule walk_table) (use l2 table_address(2) [OF P, of 1] in simp_all)
  also have "push_bit 12 (table_page P 1) = pt_pa P + of_nat 1 * PGSIZE" by (rule table_address(3)) (use P in simp_all)
  also have "?w 2 (pt_pa P + of_nat 1 * PGSIZE) = ?w (Suc 1) (pt_pa P + of_nat 1 * PGSIZE)" by (simp only: Suc_1)
  also have "\<dots> = ?w 1 (push_bit 12 (table_page P 3))"
  proof (rule walk_table)
    show "unat (table_page P 3) < 2 ^ 44" using table_address(2) [OF P, of 3] by simp
    show "pte_load P s (pt_pa P + of_nat 1 * PGSIZE + (drop_bit (12 + 1 * idxbits (vm39 P)) va AND (push_bit (idxbits (vm39 P)) 1 - 1))
        * of_nat (ptesize (vm39 P))) = mk_pte (table_page P 3) 1"
      using pte_load_table [OF P, of 1 0 s] t va_fields(3) [OF va] by (simp add: tables_ok_def table_entry_mk)
  qed
  also have "push_bit 12 (table_page P 3) = pt_pa P + of_nat 3 * PGSIZE" by (rule table_address(3)) (use P in simp_all)
  finally have w: "?w (Suc 2) (pt_pa P) = ?w (Suc 0) (pt_pa P + of_nat 3 * PGSIZE)" by (simp only: One_nat_def)
  have "(12 + 3 * 9 - 1 :: nat) = 38" "Suc 2 = (3 :: nat)" by simp_all
  then show ?thesis
    unfolding walk_def d using va_fields(1) [OF va] w by (simp add: Let_def)
qed

lemma user_pte_load:
  assumes "platform_ok P" "unat va < 63 * 4096"
  shows "pte_load P s (pt_pa P + of_nat 3 * PGSIZE + (drop_bit (12 + 0 * 9) va AND (push_bit 9 1 - 1)) * of_nat 8)
    = pt s 3 (unat va div 4096)"
  using pte_load_table [OF assms(1), of 3 "unat va div 4096" s] va_fields(4) [OF assms(2)] assms(2) by simp

definition pte_address :: "platform \<Rightarrow> u64 \<Rightarrow> u64" where
  "pte_address P va = pt_pa P + of_nat 3 * PGSIZE + of_nat (unat va div 4096) * of_nat 8"

lemma user_translate:
  assumes P: "platform_ok P" and t: "tables_ok P s" and va: "unat va < 63 * 4096" and m: "mode \<le> 1"
    and e: "pt s 3 (unat va div 4096) = mk_pte ppn flags"
    and f: "unat ppn < 2 ^ 44" "unat flags < 2 ^ 10"
    and v: "flags AND 1 = 1" "flags AND 0xF \<noteq> 1" "flags AND 2 = 0 \<Longrightarrow> flags AND 4 = 0"
  shows "translate (mmu_of P s) (pte_load P s) type mode va =
    (if leaf_permits type (mode = 1) (sum_bit (csr s)) flags \<and> (flags AND needed type = needed type \<or> hw_dirty P)
     then (Mapped (push_bit 12 ppn OR (va AND 0xFFF)),
           if flags AND needed type = needed type then None
           else Some (pte_address P va, mk_pte ppn (flags OR needed type)))
     else (Page_Fault, None))"
proof -
  have pa: "pte_address P va = pt_pa P + of_nat 3 * PGSIZE
      + (drop_bit (12 + 0 * idxbits (vm39 P)) va AND (push_bit (idxbits (vm39 P)) 1 - 1)) * of_nat (ptesize (vm39 P))"
    using va_fields(4) [OF va] by (simp add: pte_address_def)
  have ld: "pte_load P s (pte_address P va) = mk_pte ppn flags"
    using user_pte_load [OF P va, of s] e unfolding pa by simp
  have w: "walk (mmu_of P s) (pte_load P s) type False mode va =
    (if leaf_permits type (mode = 1) (sum_bit (csr s)) flags \<and> (flags AND needed type = needed type \<or> hw_dirty P)
     then (Mapped (push_bit 12 ppn),
           if flags AND needed type = needed type then None
           else Some (pte_address P va, mk_pte ppn (flags OR needed type)))
     else (Page_Fault, None))"
    unfolding user_walk [OF P t va m]
    using walk_leaf [where i = 0 and vm = "vm39 P" and ld = "pte_load P s" and env = "mmu_of P s" and type = type
        and s_mode = "mode = 1", OF f v ld pa] by (simp add: mmu_of_def)
  show ?thesis unfolding translate_def w by simp
qed

lemma user_translate_unmapped:
  assumes P: "platform_ok P" and t: "tables_ok P s" and va: "unat va < 63 * 4096" and m: "mode \<le> 1"
    and e: "pt s 3 (unat va div 4096) = 0"
  shows "translate (mmu_of P s) (pte_load P s) type mode va = (Page_Fault, None)"
proof -
  have "walk (mmu_of P s) (pte_load P s) type False mode va = (Page_Fault, None)"
    unfolding user_walk [OF P t va m]
    using user_pte_load [OF P va, of s] e by (simp add: Let_def PTE_TABLE_def)
  then show ?thesis by (simp add: translate_def)
qed

lemma kernel_translate:
  assumes P: "platform_ok P" and t: "tables_ok P s" and va: "unat va < 63 * 4096"
    and ty: "type = LOAD \<or> type = STORE"
  shows "translate (mmu_of P s) (pte_load P s) type 1 (uva2kva va) = (Mapped (DRAM_BASE + va), None)"
proof -
  have d: "decode_vm_info 64 False 1 (satp_reg (mmu_of P s)) = Some (vm39 P)"
    using decode_39 [of s P 1] P t by (simp add: mmu_of_def tables_ok_def)
  let ?k = "uva2kva va"
  let ?w = "\<lambda>i base. walk_levels (mmu_of P s) (pte_load P s) type False True (vm39 P) ?k i base"
  have l2: "pte_load P s (pt_pa P + (drop_bit (12 + 2 * 9) ?k AND (push_bit 9 1 - 1)) * of_nat 8) = mk_pte (table_page P 2) 1"
    using pte_load_table [OF P, of 0 511 s] t va_fields(6) [OF va] by (simp add: tables_ok_def table_entry_mk)
  have "?w (Suc 2) (pt_pa P) = ?w 2 (push_bit 12 (table_page P 2))"
    by (rule walk_table) (use l2 table_address(2) [OF P, of 2] in simp_all)
  also have "push_bit 12 (table_page P 2) = pt_pa P + of_nat 2 * PGSIZE" by (rule table_address(3)) (use P in simp_all)
  also have "?w 2 (pt_pa P + of_nat 2 * PGSIZE) = ?w (Suc 1) (pt_pa P + of_nat 2 * PGSIZE)" by (simp only: Suc_1)
  also have "\<dots> = (Mapped (push_bit 12 (0x80000 OR (drop_bit 12 ?k AND (push_bit (1 * idxbits (vm39 P)) 1 - 1)))), None)"
  proof -
    define pa where "pa = pt_pa P + of_nat 2 * PGSIZE
      + (drop_bit (12 + 1 * idxbits (vm39 P)) ?k AND (push_bit (idxbits (vm39 P)) 1 - 1)) * of_nat (ptesize (vm39 P))"
    have ld: "pte_load P s pa = mk_pte 0x80000 0xCF"
      using pte_load_table [OF P, of 2 511 s] t va_fields(7) [OF va]
      by (simp add: tables_ok_def kernel_leaf_mk [symmetric] pa_def)
    have al: "(0x80000 :: u64) AND (push_bit (1 * idxbits (vm39 P)) 1 - 1) = 0" by simp
    have "leaf_permits type True b 0xCF" "0xCF AND needed type = needed type" for b
      using ty by (auto simp: leaf_permits_def needed_def)
    then show ?thesis
      using walk_leaf [where i = 1 and vm = "vm39 P" and ld = "pte_load P s" and env = "mmu_of P s" and type = type
        and s_mode = True, OF _ _ _ _ _ ld pa_def al] by (simp add: mmu_of_def)
  qed
  finally have w: "?w (Suc 2) (pt_pa P)
      = (Mapped (push_bit 12 (0x80000 OR (drop_bit 12 ?k AND (push_bit (1 * idxbits (vm39 P)) 1 - 1)))), None)" .
  have s: "(12 + 3 * 9 - 1 :: nat) = 38" "Suc 2 = (3 :: nat)" by simp_all
  have "walk (mmu_of P s) (pte_load P s) type False 1 ?k
      = (Mapped (push_bit 12 (0x80000 OR (drop_bit 12 ?k AND 0x1FF))), None)"
    unfolding walk_def d using va_fields(5) [OF va] w by (simp add: Let_def)
  moreover have "push_bit 12 (0x80000 OR (drop_bit 12 ?k AND 0x1FF)) OR (?k AND 0xFFF) = DRAM_BASE + va"
  proof -
    have i: "unat va div 4096 < 63" using va by (simp add: less_mult_imp_div_less)
    then have n: "unat (of_nat (unat va div 4096) :: u64) = unat va div 4096" by (intro unat_word_of_nat_lt) simp
    have "unat (0x80000 OR of_nat (unat va div 4096) :: u64) = 0x80000 OR (unat va div 4096)"
      by (simp only: unat_or n) simp
    also have "\<dots> = 1 * 2 ^ 19 + unat va div 4096" using or_eq_add_nat [of "unat va div 4096" 19 1] i by simp
    finally have p: "unat (0x80000 OR of_nat (unat va div 4096) :: u64) = 0x80000 + unat va div 4096" by simp
    have k: "unat ?k mod 4096 = unat va mod 4096" unfolding uva2kva_unat [OF va] by (simp add: mod_add_eq [symmetric])
    have "unat (push_bit 12 (0x80000 OR of_nat (unat va div 4096)) OR (?k AND 0xFFF))
        = (0x80000 + unat va div 4096) * 4096 + unat va mod 4096"
      using i by (subst page_offset) (simp_all only: p k, simp)
    also have "\<dots> = unat (DRAM_BASE + va)"
      using va by (subst unat_add_no_wrap) simp_all
    finally show ?thesis unfolding va_fields(8) [OF va] by (simp only: word_eq_iff_unat)
  qed
  ultimately show ?thesis by (simp add: translate_def)
qed

end
