(* ===== verification/VM_Memory.thy ===== *)
theory VM_Memory
  imports VM_Tables
begin

text \<open>
  Physical pages, and what a kernel access, a copy of a page (\<open>copy_page_result\<close>) and a
  comparison of two pages (\<open>memcmp_page\<close>) do to them: the kernel's view of memory is an instance
  of the interface \<open>byte_memory\<close> the string functions rely on.
\<close>

section \<open>Physical pages\<close>

text \<open>Byte \<open>j\<close> of page \<open>k\<close> of the memory, counted from \<open>DRAM_BASE\<close>.\<close>

definition pg :: "nat \<Rightarrow> nat \<Rightarrow> u64" where
  "pg k j = of_nat (0x80000000 + k * 4096 + j)"

lemma unat_pg: "k < 0x10000 \<Longrightarrow> j < 4096 \<Longrightarrow> unat (pg k j) = 0x80000000 + k * 4096 + j"
  unfolding pg_def by (rule unat_word_of_nat_lt) simp

lemma pg_inject:
  assumes "k < 0x10000" "j < 4096" "k' < 0x10000" "j' < 4096"
  shows "pg k j = pg k' j' \<longleftrightarrow> k = k' \<and> j = j'"
proof -
  have "pg k j = pg k' j' \<longleftrightarrow> k * 4096 + j = k' * 4096 + j'"
    using assms by (simp add: word_eq_iff_unat unat_pg)
  also have "\<dots> \<longleftrightarrow> k = k' \<and> j = j'"
  proof
    assume e: "k * 4096 + j = k' * 4096 + j'"
    have "(k * 4096 + j) div 4096 = k" "(k' * 4096 + j') div 4096 = k'" using assms(2,4) by simp_all
    with e have "k = k'" by simp
    with e show "k = k' \<and> j = j'" by simp
  qed simp
  finally show ?thesis .
qed

lemma pg_page: "drop_bit 12 (pg k 0) = dram_page k"
  by (simp add: pg_def dram_page_def)

lemma pg_add: "pg k 0 + of_nat j = pg k j"
  by (simp add: pg_def)

definition copy_frame :: "(u64 \<Rightarrow> u8) \<Rightarrow> nat \<Rightarrow> nat \<Rightarrow> (u64 \<Rightarrow> u8)" where
  "copy_frame m kd ks = store_bytes flat_write m (pg kd 0) (load_bytes flat_read m (pg ks 0) 4096)"

lemma copy_frame_byte:
  assumes "kd < 0x10000" "k < 0x10000" "j < 4096"
  shows "copy_frame m kd ks (pg k j) = (if k = kd then m (pg ks j) else m (pg k j))"
proof -
  have d: "unat (pg kd 0) = 0x80000000 + kd * 4096" and u: "unat (pg k j) = 0x80000000 + k * 4096 + j"
    using assms by (simp_all add: unat_pg)
  have f: "copy_frame m kd ks (pg k j) = (if unat (pg kd 0) \<le> unat (pg k j) \<and> unat (pg k j) < unat (pg kd 0) + 4096
      then load_bytes flat_read m (pg ks 0) 4096 ! (unat (pg k j) - unat (pg kd 0)) else m (pg k j))"
    unfolding copy_frame_def by (subst flat_store) (use assms d in simp_all)
  show ?thesis
  proof (cases "k = kd")
    case True
    then show ?thesis unfolding f d u using assms(3) by (simp add: flat_read_def pg_add)
  next
    case False
    then have c: "\<not> (0x80000000 + kd * 4096 \<le> 0x80000000 + k * 4096 + j
        \<and> 0x80000000 + k * 4096 + j < 0x80000000 + kd * 4096 + (4096 :: nat))"
      using assms(3) by auto
    show ?thesis unfolding f d u by (simp only: c False if_False)
  qed
qed

section \<open>Kernel accesses\<close>

definition in_region :: "u64 \<Rightarrow> bool" where
  "in_region a = (\<exists>va. unat va < 63 * 4096 \<and> (a = va \<or> a = uva2kva va))"

lemma kernel_alias: "platform_ok P \<Longrightarrow> tables_ok P s \<Longrightarrow> unat va < 63 * 4096 \<Longrightarrow> type = LOAD \<or> type = STORE \<Longrightarrow>
    kernel_access P s type (uva2kva va) = Some (DRAM_BASE + va)"
  by (simp only: kernel_access_def kernel_translate prod.case walk_result.case)

lemma walk_last_cong:
  assumes "ld (base + (drop_bit 12 a AND (push_bit (idxbits vm) 1 - 1)) * of_nat (ptesize vm))
    = ld' (base + (drop_bit 12 a AND (push_bit (idxbits vm) 1 - 1)) * of_nat (ptesize vm))"
  shows "walk_levels env ld type hlvx sm vm a (Suc 0) base = walk_levels env ld' type hlvx sm vm a (Suc 0) base"
  by (simp only: walk_levels.simps Let_def mult_0 add_0_right assms)

lemma kernel_access_cong:
  assumes P: "platform_ok P" and t: "tables_ok P s" and a: "in_region a" and ty: "type = LOAD \<or> type = STORE"
    and s': "pt s' = pt s" "csr s' = csr s"
  shows "kernel_access P s' type a = kernel_access P s type a"
proof -
  have t': "tables_ok P s'" using t s' by (simp add: tables_ok_def)
  obtain va where va: "unat va < 63 * 4096" "a = va \<or> a = uva2kva va" using a by (auto simp: in_region_def)
  show ?thesis
  proof (cases "a = uva2kva va")
    case True
    then show ?thesis using kernel_alias [OF P t va(1) ty] kernel_alias [OF P t' va(1) ty] by simp
  next
    case False
    then have [simp]: "a = va" using va(2) by simp
    have m: "mmu_of P s' = mmu_of P s" using s' by (simp add: mmu_of_def)
    have "walk (mmu_of P s') (pte_load P s') type False 1 va = walk (mmu_of P s) (pte_load P s) type False 1 va"
      unfolding user_walk [OF P t va(1) order_refl] user_walk [OF P t' va(1) order_refl]
      unfolding m by (rule walk_last_cong) (use user_pte_load [OF P va(1)] s' in simp)
    then show ?thesis by (simp add: kernel_access_def translate_def)
  qed
qed

definition readable :: "platform \<Rightarrow> vm_state \<Rightarrow> u64 \<Rightarrow> bool" where
  "readable P s a = (platform_ok P \<and> tables_ok P s \<and> in_region a \<and> kernel_access P s LOAD a \<noteq> None)"

definition writable :: "platform \<Rightarrow> vm_state \<Rightarrow> u64 \<Rightarrow> bool" where
  "writable P s a = (platform_ok P \<and> tables_ok P s \<and> in_region a \<and> kernel_access P s LOAD a \<noteq> None
     \<and> kernel_access P s STORE a = kernel_access P s LOAD a)"

lemma kwrite_frame: "pt (kwrite P s a v) = pt s" "csr (kwrite P s a v) = csr s"
  by (simp_all add: kwrite_def split: option.split)

interpretation kernel: byte_memory "kread P" "kwrite P" "\<lambda>s a. kernel_access P s LOAD a" "readable P" "writable P" for P
proof
  have c: "kernel_access P (kwrite P s a v) type b = kernel_access P s type b"
    if "platform_ok P" "tables_ok P s" "in_region b" "type = LOAD \<or> type = STORE" for s a b v type
    by (rule kernel_access_cong) (use that in \<open>simp_all add: kwrite_frame\<close>)
  have t: "tables_ok P (kwrite P s a v) = tables_ok P s" for s a v by (simp add: tables_ok_def kwrite_frame)
  fix s a b and v :: u8
  show "kread P (kwrite P s a v) b = (if kernel_access P s LOAD a = kernel_access P s LOAD b then v else kread P s b)"
    if w: "writable P s a" "readable P s b"
  proof -
    obtain pa pb where pa: "kernel_access P s LOAD a = Some pa" "kernel_access P s STORE a = Some pa"
        "kernel_access P s LOAD b = Some pb"
      using w by (auto simp: writable_def readable_def)
    moreover have "kernel_access P (kwrite P s a v) LOAD b = Some pb"
      using w pa(3) by (simp add: c readable_def)
    moreover have "mem (kwrite P s a v) = (mem s)(pa := v)" using pa(2) by (simp add: kwrite_def)
    ultimately show ?thesis by (simp add: kread_def)
  qed
  show "readable P (kwrite P s a v) b \<and> kernel_access P (kwrite P s a v) LOAD b = kernel_access P s LOAD b"
    if "writable P s a" "readable P s b"
    using that by (simp add: c t readable_def)
  show "writable P (kwrite P s a v) b \<and> kernel_access P (kwrite P s a v) LOAD b = kernel_access P s LOAD b"
    if "writable P s a" "writable P s b"
    using that by (simp add: c t writable_def)
qed

text \<open>A range of addresses that stands for a range of physical memory.\<close>

definition maps_to :: "platform \<Rightarrow> vm_state \<Rightarrow> access_type \<Rightarrow> u64 \<Rightarrow> u64 \<Rightarrow> nat \<Rightarrow> bool" where
  "maps_to P s type a q n = (\<forall>j < n. in_region (a + of_nat j) \<and> kernel_access P s type (a + of_nat j) = Some (q + of_nat j))"

lemma maps_to_tail:
  "maps_to P s type a q (Suc n) \<Longrightarrow> in_region a \<and> kernel_access P s type a = Some q \<and> maps_to P s type (a + 1) (q + 1) n"
proof -
  assume m: "maps_to P s type a q (Suc n)"
  have "maps_to P s type (a + 1) (q + 1) n"
    unfolding maps_to_def
  proof (intro allI impI)
    fix j assume "j < n"
    then show "in_region (a + 1 + of_nat j) \<and> kernel_access P s type (a + 1 + of_nat j) = Some (q + 1 + of_nat j)"
      using m [unfolded maps_to_def, rule_format, of "Suc j"] by (simp add: add.assoc)
  qed
  then show ?thesis using m [unfolded maps_to_def, rule_format, of 0] by simp
qed

lemma maps_to_cong:
  assumes "platform_ok P" "tables_ok P s" "type = LOAD \<or> type = STORE" "pt s' = pt s" "csr s' = csr s"
  shows "maps_to P s' type a q n = maps_to P s type a q n"
proof -
  have "in_region b \<Longrightarrow> kernel_access P s' type b = kernel_access P s type b" for b
    by (rule kernel_access_cong [OF assms(1,2) _ assms(3-5)])
  then show ?thesis unfolding maps_to_def by (simp cong: conj_cong)
qed

lemma load_bytes_kread:
  "maps_to P s LOAD a q n \<Longrightarrow> load_bytes (kread P) s a n = load_bytes flat_read (mem s) q n"
  by (rule nth_equalityI) (auto simp: maps_to_def kread_def flat_read_def)

lemma store_bytes_kwrite:
  "platform_ok P \<Longrightarrow> tables_ok P s \<Longrightarrow> maps_to P s STORE a q (length bs) \<Longrightarrow>
    store_bytes (kwrite P) s a bs = s\<lparr>mem := store_bytes flat_write (mem s) q bs\<rparr>"
proof (induction bs arbitrary: s a q)
  case (Cons b bs)
  note m = maps_to_tail [OF Cons.prems(3) [unfolded list.size(4) add_Suc_right add_0_right]]
  have w: "kwrite P s a b = s\<lparr>mem := flat_write (mem s) q b\<rparr>"
    using m by (simp add: kwrite_def flat_write_def)
  have "tables_ok P (s\<lparr>mem := flat_write (mem s) q b\<rparr>)" using Cons.prems(2) by (simp add: tables_ok_def)
  moreover have "maps_to P (s\<lparr>mem := flat_write (mem s) q b\<rparr>) STORE (a + 1) (q + 1) (length bs)"
    by (subst maps_to_cong [OF Cons.prems(1,2)]) (use m in simp_all)
  ultimately have "store_bytes (kwrite P) (s\<lparr>mem := flat_write (mem s) q b\<rparr>) (a + 1) bs
      = s\<lparr>mem := flat_write (mem s) q b\<rparr>\<lparr>mem := store_bytes flat_write (flat_write (mem s) q b) (q + 1) bs\<rparr>"
    using Cons.IH [OF Cons.prems(1)] by simp
  then show ?case by (simp only: store_bytes.simps w) simp
qed simp

lemma maps_to_own: "maps_to P s type a (pg k 0) 4096 \<Longrightarrow> \<not> own_page P (dram_page k) \<Longrightarrow> \<not> own_access P s type a"
  by (auto simp: maps_to_def own_access_def pg_page dest!: spec [of _ 0])

lemma copy_page_result:
  assumes P: "platform_ok P" and t: "tables_ok P s"
    and d: "maps_to P s STORE dest (pg kd 0) 4096" "maps_to P s LOAD dest (pg kd 0) 4096"
    and a: "maps_to P s LOAD src (pg ks 0) 4096"
    and k: "kd < 0x10000" "ks < 0x10000" "kd \<noteq> ks" and w: "unat dest + 4096 < 2 ^ 64"
    and own: "\<not> own_page P (dram_page kd)" "\<not> own_page P (dram_page ks)"
  shows "copy_page P dest src s = Running (s\<lparr>mem := copy_frame (mem s) kd ks\<rparr>)"
proof -
  have acc: "accessible P s STORE dest" "accessible P s LOAD src"
    using d(1) a [unfolded maps_to_def, rule_format, of 0] by (auto simp: accessible_def maps_to_def dest!: spec [of _ 0])
  have "memcpy (kread P) (kwrite P) dest src PGSIZE s
      = Some (store_bytes (kwrite P) s dest (load_bytes (kread P) s src (unat PGSIZE)))"
  proof (rule kernel.memcpy_result)
    show "unat dest + unat PGSIZE < 2 ^ 64" using w by simp
    show "span (writable P) s dest (unat PGSIZE)" "span (readable P) s src (unat PGSIZE)"
      using d a P t by (auto simp: span_def writable_def readable_def maps_to_def)
    show "apart (\<lambda>s a. kernel_access P s LOAD a) s dest src (unat PGSIZE)"
      unfolding apart_def
    proof (intro allI impI)
      fix i j assume ij: "i < unat PGSIZE" "j < unat PGSIZE"
      have "pg kd i \<noteq> pg ks j" using ij k by (subst pg_inject) simp_all
      then show "kernel_access P s LOAD (dest + of_nat i) \<noteq> kernel_access P s LOAD (src + of_nat j)"
        using d(2) a ij by (simp add: maps_to_def pg_add)
    qed
  qed
  also have "\<dots> = Some (s\<lparr>mem := copy_frame (mem s) kd ks\<rparr>)"
    using store_bytes_kwrite [OF P t, of dest "pg kd 0" "load_bytes flat_read (mem s) (pg ks 0) 4096"] d(1)
      load_bytes_kread [OF a]
    by (simp add: copy_frame_def)
  finally show ?thesis
    using acc maps_to_own [OF d(1) own(1)] maps_to_own [OF a own(2)] by (simp add: copy_page_def)
qed

lemma memcmp_page:
  assumes a: "maps_to P s LOAD a (pg ka 0) 4096" "maps_to P s LOAD b (pg kb 0) 4096" "unat a + 4096 < 2 ^ 64"
  shows "\<exists>c. memcmp (kread P) a b PGSIZE s = Some c \<and> (c = 0 \<longleftrightarrow> (\<forall>j < 4096. mem s (pg ka j) = mem s (pg kb j)))"
proof -
  have "memcmp (kread P) a b PGSIZE s = Some (first_diff (load_bytes flat_read (mem s) (pg ka 0) 4096)
      (load_bytes flat_read (mem s) (pg kb 0) 4096))"
    using memcmp_result [of a PGSIZE "kread P" b s] a load_bytes_kread [OF a(1)] load_bytes_kread [OF a(2)] by simp
  moreover have "first_diff (load_bytes flat_read (mem s) (pg ka 0) 4096) (load_bytes flat_read (mem s) (pg kb 0) 4096) = 0
      \<longleftrightarrow> (\<forall>j < 4096. mem s (pg ka j) = mem s (pg kb j))"
    by (subst first_diff_eq_0) (auto simp: list_eq_iff_nth_eq flat_read_def pg_add)
  ultimately show ?thesis by blast
qed

end
