(* ===== verification/VM_Invariant.thy ===== *)
theory VM_Invariant
  imports VM_Memory
begin

text \<open>
  The invariant of the page-table manager (\<open>vm_rep\<close>), what the user program sees of memory
  (\<open>umem\<close>), and the effect of each handler on both.
\<close>

section \<open>The invariant\<close>

text \<open>
  The state of the manager, abstractly: \<open>fr i\<close> is the frame user page \<open>i\<close> is mapped to, \<open>fl i\<close> the
  flags of its entry, \<open>free\<close> the frames on the free list.  \<open>pend\<close> is the page whose access is
  being retried: only its entry may lack the accessed bit.
\<close>

definition frame_ppn :: "nat \<Rightarrow> u64" where
  "frame_ppn f = drop_bit 12 (pg f 0)"

definition page_rep :: "vm_state \<Rightarrow> nat option \<Rightarrow> nat \<Rightarrow> nat \<Rightarrow> u64 \<Rightarrow> bool" where
  "page_rep s pend i f flags =
     (addr (user_mapping s i) = pg f 0 \<and> pt s 3 i = mk_pte (frame_ppn f) flags
      \<and> flags \<in> {0x1F, 0x5F, 0xDF} \<and> (flags = 0x1F \<longrightarrow> pend = Some i)
      \<and> (flags \<noteq> 0xDF \<longrightarrow> (\<forall>j < 4096. mem s (pg f j) = mem s (pg i j))))"

definition free_rep :: "nat list \<Rightarrow> vm_state \<Rightarrow> bool" where
  "free_rep free s =
     (length free \<le> 63
      \<and> (\<forall>j < length free. freelist_nodes s (63 - length free + j) =
           \<lparr>addr = pg (free ! j) 0,
            next_node = (if j + 1 < length free then Freelist_Node (63 - length free + j + 1) else NULL)\<rparr>)
      \<and> freelist_head s = (if free = [] then NULL else Freelist_Node (63 - length free))
      \<and> freelist_tail s = (if length free \<le> 1 then NULL else Freelist_Node 62))"

definition frames_ok :: "(nat \<Rightarrow> nat option) \<Rightarrow> nat list \<Rightarrow> bool" where
  "frames_ok fr free =
     (dom fr \<subseteq> {1..<63} \<and> inj_on fr (dom fr) \<and> ran fr \<subseteq> {64..126} \<and> set free \<subseteq> {64..126}
      \<and> ran fr \<inter> set free = {} \<and> distinct free \<and> card (dom fr) + length free = 63)"

text \<open>The pages of the image that hold no object of the environment: those a test may use.\<close>

definition test_page :: "platform \<Rightarrow> nat \<Rightarrow> bool" where
  "test_page P i \<longleftrightarrow> \<not> own_page P (dram_page i)"

definition vm_rep :: "platform \<Rightarrow> (nat \<Rightarrow> nat option) \<Rightarrow> (nat \<Rightarrow> u64) \<Rightarrow> nat list \<Rightarrow> nat option \<Rightarrow> vm_state \<Rightarrow> bool" where
  "vm_rep P fr fl free pend s =
     (platform_ok P \<and> tables_ok P s \<and> \<not> sum_bit (csr s) \<and> free_rep free s \<and> frames_ok fr free
      \<and> Ball (dom fr) (test_page P)
      \<and> (\<forall>i < 63. case fr i of
             None \<Rightarrow> addr (user_mapping s i) = 0 \<and> pt s 3 i = 0
           | Some f \<Rightarrow> page_rep s pend i f (fl i)))"

text \<open>What the user program sees.\<close>

definition umem :: "vm_state \<Rightarrow> u64 \<Rightarrow> u8" where
  "umem s va =
     (let a = addr (user_mapping s (unat va div 4096))
      in if a = 0 then mem s (DRAM_BASE + va) else mem s (a + of_nat (unat va mod 4096)))"

definition user_va :: "u64 \<Rightarrow> bool" where
  "user_va va = (4096 \<le> unat va \<and> unat va < 63 * 4096)"

text \<open>The addresses of the test's own text and data.\<close>

definition test_va :: "platform \<Rightarrow> u64 \<Rightarrow> bool" where
  "test_va P va \<longleftrightarrow> user_va va \<and> test_page P (unat va div 4096)"

section \<open>Consequences\<close>

lemma frame_ppn_less: "f < 0x10000 \<Longrightarrow> unat (frame_ppn f) = 0x80000 + f"
  by (simp add: frame_ppn_def unat_drop unat_pg)

lemma frame_address: "f < 0x10000 \<Longrightarrow> push_bit 12 (frame_ppn f) OR (va AND 0xFFF) = pg f (unat va mod 4096)"
  by (subst word_eq_iff_unat) (subst page_offset, simp_all add: frame_ppn_less unat_pg)

lemma dram_address: "unat va < 63 * 4096 \<Longrightarrow> DRAM_BASE + va = pg (unat va div 4096) (unat va mod 4096)"
proof -
  assume va: "unat va < 63 * 4096"
  have "unat va div 4096 < 63" using va by (simp add: less_mult_imp_div_less)
  then have "unat (pg (unat va div 4096) (unat va mod 4096)) = 0x80000000 + unat va"
    by (subst unat_pg) simp_all
  moreover have "unat (DRAM_BASE + va) = 0x80000000 + unat va" using va by (subst unat_add_no_wrap) simp_all
  ultimately show ?thesis by (simp only: word_eq_iff_unat)
qed

lemma pg_nonzero: "f < 0x10000 \<Longrightarrow> pg f 0 \<noteq> 0"
  by (simp add: word_eq_iff_unat unat_pg)

lemma page_index: "unat va < 63 * 4096 \<Longrightarrow> unat va div 4096 < 63"
  by (simp add: less_mult_imp_div_less)

lemma frames_range: "frames_ok fr free \<Longrightarrow> fr i = Some f \<Longrightarrow> 64 \<le> f \<and> f \<le> 126 \<and> 1 \<le> i \<and> i < 63"
  unfolding frames_ok_def by (auto dest: ranI domI)

lemma flags_ok:
  assumes "(flags :: u64) \<in> {0x1F, 0x5F, 0xDF}"
  shows "unat flags < 2 ^ 10" "flags AND 1 = 1" "flags AND 0xF \<noteq> 1" "flags AND 2 \<noteq> 0"
    "leaf_permits type False b flags" "leaf_permits type True True flags = (type \<noteq> FETCH)"
    "flags AND needed type = needed type \<longleftrightarrow> flags = 0xDF \<or> flags = 0x5F \<and> type \<noteq> STORE"
    "flags OR needed type = (if type = STORE \<or> flags = 0xDF then 0xDF else 0x5F)"
  using assms by (cases type; auto simp: leaf_permits_def needed_def)+

lemma rep_frame:
  assumes "vm_rep P fr fl free pend s" "fr i = Some f"
  shows "64 \<le> f" "f \<le> 126" "1 \<le> i" "i < 63" "page_rep s pend i f (fl i)"
proof -
  show i: "64 \<le> f" "f \<le> 126" "1 \<le> i" "i < 63"
    using frames_range [of fr free i f] assms by (simp_all add: vm_rep_def)
  show "page_rep s pend i f (fl i)" using assms i(4) unfolding vm_rep_def by (metis option.simps(5))
qed

lemma rep_unmapped:
  assumes "vm_rep P fr fl free pend s" "fr i = None" "i < 63"
  shows "addr (user_mapping s i) = 0" "pt s 3 i = 0"
  using assms unfolding vm_rep_def by (metis option.simps(4))+

lemma rep_umem:
  assumes r: "vm_rep P fr fl free pend s" and va: "unat va < 63 * 4096"
  shows "umem s va = mem s (pg (case fr (unat va div 4096) of None \<Rightarrow> unat va div 4096 | Some f \<Rightarrow> f) (unat va mod 4096))"
proof (cases "fr (unat va div 4096)")
  case None
  then show ?thesis
    using rep_unmapped(1) [OF r None page_index [OF va]] dram_address [OF va] by (simp add: umem_def)
next
  case (Some f)
  note f = rep_frame [OF r Some]
  have "addr (user_mapping s (unat va div 4096)) = pg f 0" using f(5) by (simp add: page_rep_def)
  then show ?thesis using f(2) pg_nonzero [of f] Some by (simp add: umem_def pg_add)
qed

lemma rep_translate:
  assumes r: "vm_rep P fr fl free pend s" and va: "unat va < 63 * 4096" and f: "fr (unat va div 4096) = Some f"
    and s': "pt s' = pt s" "satp (csr s') = satp (csr s)" and m: "mode \<le> 1"
  defines "flags \<equiv> fl (unat va div 4096)"
  shows "translate (mmu_of P s') (pte_load P s') type mode va =
    (if leaf_permits type (mode = 1) (sum_bit (csr s')) flags
        \<and> ((flags = 0xDF \<or> flags = 0x5F \<and> type \<noteq> STORE) \<or> hw_dirty P)
     then (Mapped (pg f (unat va mod 4096)),
           if flags = 0xDF \<or> flags = 0x5F \<and> type \<noteq> STORE then None
           else Some (pte_address P va, mk_pte (frame_ppn f) (flags OR needed type)))
     else (Page_Fault, None))"
proof -
  have P: "platform_ok P" and t: "tables_ok P s'" using r s' by (simp_all add: vm_rep_def tables_ok_def)
  have "page_rep s pend (unat va div 4096) f flags" using rep_frame(5) [OF r f] by (simp add: flags_def)
  then have e: "pt s' 3 (unat va div 4096) = mk_pte (frame_ppn f) flags" and fl: "flags \<in> {0x1F, 0x5F, 0xDF}"
    using s' by (simp_all add: page_rep_def)
  have fb: "f < 0x10000" using rep_frame(2) [OF r f] by simp
  then have ppn: "unat (frame_ppn f) < 2 ^ 44" by (simp add: frame_ppn_less)
  show ?thesis
    using user_translate [OF P t va m e ppn flags_ok(1) [OF fl] flags_ok(2) [OF fl] flags_ok(3) [OF fl], of type] flags_ok(4,7) [OF fl]
      frame_address [OF fb, of va] by simp
qed


section \<open>Pages of the test region\<close>

lemma page_va:
  fixes va :: u64
  assumes "unat va < 63 * 4096"
  shows "unat (va div 0x1000) = unat va div 4096" "va div 0x1000 * 0x1000 = of_nat (unat va div 4096 * 4096)"
proof -
  show d: "unat (va div 0x1000) = unat va div 4096" by (simp add: unat_div)
  have "unat (va div 0x1000 * 0x1000) = unat va div 4096 * 4096"
    using assms by (subst unat_mult_no_wrap) (simp_all add: d)
  moreover have "unat (of_nat (unat va div 4096 * 4096) :: u64) = unat va div 4096 * 4096"
    by (rule unat_word_of_nat_lt) (use assms in simp)
  ultimately show "va div 0x1000 * 0x1000 = of_nat (unat va div 4096 * 4096)" by (simp only: word_eq_iff_unat)
qed

lemma page_va_index: "i < 63 \<Longrightarrow> unat (of_nat (i * 4096) div 0x1000 :: u64) = i"
proof -
  assume i: "i < 63"
  have "unat (of_nat (i * 4096) :: u64) = i * 4096" by (rule unat_word_of_nat_lt) (use i in simp)
  then show ?thesis by (simp only: unat_div) simp
qed

lemma page_bytes:
  assumes "i < 63" "j < 4096"
  shows "unat (of_nat (i * 4096) + of_nat j :: u64) = i * 4096 + j"
    "unat (of_nat (i * 4096) + of_nat j :: u64) < 63 * 4096"
    "unat (of_nat (i * 4096) + of_nat j :: u64) div 4096 = i" "unat (of_nat (i * 4096) + of_nat j :: u64) mod 4096 = j"
proof -
  have "unat (of_nat (i * 4096 + j) :: u64) = i * 4096 + j" by (rule unat_word_of_nat_lt) (use assms in simp)
  then show u: "unat (of_nat (i * 4096) + of_nat j :: u64) = i * 4096 + j" by simp
  show "unat (of_nat (i * 4096) + of_nat j :: u64) < 63 * 4096"
    "unat (of_nat (i * 4096) + of_nat j :: u64) div 4096 = i" "unat (of_nat (i * 4096) + of_nat j :: u64) mod 4096 = j"
    unfolding u using assms by simp_all
qed

lemma user_maps:
  assumes P: "platform_ok P" and t: "tables_ok P s" and i: "i < 63" and f: "f < 0x10000"
    and e: "pt s 3 i = mk_pte (frame_ppn f) flags" and fl: "flags \<in> {0x1F, 0x5F, 0xDF}"
    and ok: "flags AND needed type = needed type" and sm: "sum_bit (csr s)" and ty: "type = LOAD \<or> type = STORE"
  shows "maps_to P s type (of_nat (i * 4096)) (pg f 0) 4096"
  unfolding maps_to_def
proof (intro allI impI conjI)
  fix j :: nat assume j: "j < 4096"
  let ?a = "of_nat (i * 4096) + of_nat j :: u64"
  note b = page_bytes [OF i j]
  show "in_region ?a" using b(2) by (auto simp: in_region_def)
  have e': "pt s 3 (unat ?a div 4096) = mk_pte (frame_ppn f) flags" using e b(3) by simp
  have ppn: "unat (frame_ppn f) < 2 ^ 44" using f by (simp add: frame_ppn_less)
  have "translate (mmu_of P s) (pte_load P s) type 1 ?a = (Mapped (pg f j), None)"
    using user_translate [OF P t b(2) order_refl e' ppn flags_ok(1) [OF fl] flags_ok(2) [OF fl] flags_ok(3) [OF fl], of type] flags_ok(4,6) [OF fl]
      frame_address [OF f, of ?a] b(4) ok sm ty by auto
  then show "kernel_access P s type ?a = Some (pg f 0 + of_nat j)"
    by (simp only: kernel_access_def prod.case walk_result.case pg_add)
qed

lemma alias_maps:
  assumes P: "platform_ok P" and t: "tables_ok P s" and i: "i < 63" and ty: "type = LOAD \<or> type = STORE"
  shows "maps_to P s type (uva2kva (of_nat (i * 4096))) (pg i 0) 4096"
  unfolding maps_to_def
proof (intro allI impI conjI)
  fix j :: nat assume j: "j < 4096"
  let ?a = "of_nat (i * 4096) + of_nat j :: u64"
  have k: "uva2kva (of_nat (i * 4096)) + of_nat j = uva2kva ?a" by (simp add: uva2kva_def)
  show "in_region (uva2kva (of_nat (i * 4096)) + of_nat j)"
    unfolding k in_region_def using page_bytes(2) [OF i j] by blast
  have "DRAM_BASE + ?a = pg i j"
    using dram_address [OF page_bytes(2) [OF i j]] page_bytes(3,4) [OF i j] by simp
  then show "kernel_access P s type (uva2kva (of_nat (i * 4096)) + of_nat j) = Some (pg i 0 + of_nat j)"
    unfolding k using kernel_alias [OF P t page_bytes(2) [OF i j] ty] by (simp only: pg_add)
qed

lemma kva_no_wrap: "i < 63 \<Longrightarrow> unat (uva2kva (of_nat (i * 4096))) + 4096 < 2 ^ 64"
proof -
  assume i: "i < 63"
  have u: "unat (of_nat (i * 4096) :: u64) = i * 4096" by (rule unat_word_of_nat_lt) (use i in simp)
  show ?thesis using uva2kva_unat [of "of_nat (i * 4096)"] i unfolding u by simp
qed


section \<open>Taking a frame\<close>

lemma frames_left:
  assumes "frames_ok fr free" "fr i = None" "1 \<le> i" "i < 63"
  shows "2 \<le> length free"
proof -
  have "dom fr \<subseteq> {1..<63} - {i}" using assms by (auto simp: frames_ok_def)
  then have "card (dom fr) \<le> card ({1..<63} - {i})" by (intro card_mono) simp_all
  also have "\<dots> = 61" using assms(3,4) by simp
  finally show ?thesis using assms(1) by (simp add: frames_ok_def)
qed

lemma frames_take:
  assumes "frames_ok fr (f # free)" "fr i = None" "1 \<le> i" "i < 63"
  shows "frames_ok (fr(i \<mapsto> f)) free"
proof -
  have fin: "finite (dom fr)" by (rule finite_subset [of _ "{1..<63}"]) (use assms(1) in \<open>simp_all add: frames_ok_def\<close>)
  have inj: "inj_on (fr(i \<mapsto> f)) (dom (fr(i \<mapsto> f)))"
    using assms(1,2) by (auto simp: frames_ok_def inj_on_def ran_def)
  have "card (insert i (dom fr)) = Suc (card (dom fr))"
    using fin assms(2) by (intro card_insert_disjoint) auto
  then show ?thesis using assms inj by (auto simp: frames_ok_def ran_def)
qed

definition pop_node :: "vm_state \<Rightarrow> vm_state" where
  "pop_node s =
     (let s = s\<lparr>freelist_head := next_node (deref s (freelist_head s))\<rparr>
      in if freelist_head s = freelist_tail s then s\<lparr>freelist_tail := NULL\<rparr> else s)"

lemma pop_node_result:
  assumes "free_rep (f # free) s" "free \<noteq> []"
  shows "free_rep free (pop_node s)" "freelist_head s \<noteq> NULL" "addr (deref s (freelist_head s)) = pg f 0"
    "pop_node s = s\<lparr>freelist_head := freelist_head (pop_node s), freelist_tail := freelist_tail (pop_node s)\<rparr>"
proof -
  define L where "L = length free"
  have L: "L \<le> 62" "1 \<le> L" using assms by (simp_all add: free_rep_def L_def Suc_le_eq)
  have N: "freelist_nodes s (62 - L + j) = \<lparr>addr = pg ((f # free) ! j) 0,
      next_node = (if j < L then Freelist_Node (62 - L + j + 1) else NULL)\<rparr>" if "j \<le> L" for j
  proof -
    have "63 - length (f # free) = 62 - L" "j < length (f # free)" "j + 1 < length (f # free) \<longleftrightarrow> j < L"
      using that by (simp_all add: L_def)
    then show ?thesis using assms(1) unfolding free_rep_def by metis
  qed
  have k: "62 - L + 1 = 63 - L" using L by simp
  have n: "freelist_nodes s (62 - L) = \<lparr>addr = pg f 0, next_node = Freelist_Node (63 - L)\<rparr>"
    using N [of 0] L(2) k by simp
  have h: "freelist_head s = Freelist_Node (62 - L)" and tail: "freelist_tail s = Freelist_Node 62"
    using assms by (simp_all add: free_rep_def L_def)
  show "freelist_head s \<noteq> NULL" "addr (deref s (freelist_head s)) = pg f 0" using h n by (simp_all add: deref_def)
  have p: "pop_node s = s\<lparr>freelist_head := Freelist_Node (63 - L),
      freelist_tail := (if L = 1 then NULL else Freelist_Node 62)\<rparr>"
    using h n tail L by (auto simp: pop_node_def Let_def deref_def)
  then show "pop_node s = s\<lparr>freelist_head := freelist_head (pop_node s), freelist_tail := freelist_tail (pop_node s)\<rparr>"
    by simp
  show "free_rep free (pop_node s)"
    unfolding free_rep_def L_def [symmetric]
  proof (intro conjI allI impI)
    fix j assume j: "j < L"
    have e: "62 - L + Suc j = 63 - L + j" using L by simp
    have "freelist_nodes s (63 - L + j) = \<lparr>addr = pg (free ! j) 0,
        next_node = (if j + 1 < L then Freelist_Node (63 - L + j + 1) else NULL)\<rparr>"
      using N [of "Suc j"] j unfolding e by simp
    moreover have "freelist_nodes (pop_node s) = freelist_nodes s" by (simp add: p)
    ultimately show "freelist_nodes (pop_node s) (63 - L + j) = \<lparr>addr = pg (free ! j) 0,
        next_node = (if j + 1 < L then Freelist_Node (63 - L + j + 1) else NULL)\<rparr>"
      by (simp only:)
  qed (use p assms(2) L in auto)
qed


lemma node_of_pop: "free_rep (f # free) s \<Longrightarrow> free \<noteq> [] \<Longrightarrow> next_node (deref s (freelist_head s)) = freelist_head (pop_node s)"
  by (simp add: pop_node_def Let_def)

lemma new_entry:
  "push_bit 10 (drop_bit 12 (pg f 0)) OR 1 OR 0x10 OR 2 OR 4 OR 8 = mk_pte (frame_ppn f) 0x1F"
  "mk_pte (frame_ppn f) 0x1F OR 0x40 OR 0x80 = mk_pte (frame_ppn f) 0xDF"
  by (simp_all add: mk_pte_def frame_ppn_def or.assoc)

text \<open>The state after a page was brought in.\<close>

definition mapped_in :: "nat \<Rightarrow> nat \<Rightarrow> vm_state \<Rightarrow> vm_state" where
  "mapped_in i f s =
     (let s' = pop_node s
      in s'\<lparr>pt := (pt s)(3 := (pt s 3)(i := mk_pte (frame_ppn f) 0x1F)),
            user_mapping := (user_mapping s)(i := deref s (freelist_head s)),
            mem := copy_frame (mem s) f i\<rparr>)"

lemma handle_fault_unmapped:
  assumes r: "vm_rep P fr fl (f # free) pend s" and va: "user_va va" "test_page P (unat va div 4096)"
    and i: "fr (unat va div 4096) = None"
    and pf: "\<And>a. pf_filter a = None"
  shows "handle_fault P pf_filter va why s = Running (mapped_in (unat va div 4096) f s)"
proof -
  let ?i = "unat va div 4096"
  have v: "unat va < 63 * 4096" "1 \<le> ?i" "?i < 63"
    using va page_index [of va] by (simp_all add: user_va_def div_greater_zero_iff Suc_le_eq)
  have P: "platform_ok P" and t: "tables_ok P s" and fo: "frames_ok fr (f # free)" and fr: "free_rep (f # free) s"
    and sm: "\<not> sum_bit (csr s)"
    using r by (simp_all add: vm_rep_def)
  have ne: "free \<noteq> []" using frames_left [OF fo i v(2,3)] by auto
  note pop = pop_node_result [OF fr ne]
  have f: "f < 0x10000" "f \<noteq> ?i" using fo v(3) by (auto simp: frames_ok_def)
  have own: "\<not> own_page P (dram_page f)" "\<not> own_page P (dram_page ?i)"
    using P fo va(2) by (auto simp: platform_ok_def frames_ok_def test_page_def)
  note un = rep_unmapped [OF r i v(3)]
  let ?df = "mk_pte (frame_ppn f) 0xDF"
  define s4 where "s4 = (pop_node s)\<lparr>pt := (pt s)(3 := (pt s 3)(?i := ?df)),
      user_mapping := (user_mapping s)(?i := deref s (freelist_head s)), csr := (csr s)\<lparr>sum_bit := True\<rparr>\<rparr>"
  have p: "pt (pop_node s) = pt s" "user_mapping (pop_node s) = user_mapping s" "csr (pop_node s) = csr s"
    "mem (pop_node s) = mem s"
    by (subst pop(4), simp)+
  have s4: "tables_ok P s4" "pt s4 3 ?i = ?df" "sum_bit (csr s4)" "mem s4 = mem s"
    using t by (simp_all add: s4_def tables_ok_def p)
  have d: "maps_to P s4 type (of_nat (?i * 4096)) (pg f 0) 4096" if "type = LOAD \<or> type = STORE" for type
    by (rule user_maps [OF P s4(1) v(3) f(1) s4(2) _ _ s4(3) that]) (use that in \<open>auto simp: needed_def\<close>)
  have a: "maps_to P s4 LOAD (uva2kva (of_nat (?i * 4096))) (pg ?i 0) 4096"
    by (rule alias_maps [OF P s4(1) v(3)]) simp
  have "unat (of_nat (?i * 4096) :: u64) = ?i * 4096" by (rule unat_word_of_nat_lt) (use v(3) in simp)
  then have c: "copy_page P (of_nat (?i * 4096)) (uva2kva (of_nat (?i * 4096))) s4
      = Running (s4\<lparr>mem := copy_frame (mem s) f ?i\<rparr>)"
    using copy_page_result [OF P s4(1) d d a f(1) _ f(2)] v(3) s4(4) own by simp
  have range: "PGSIZE \<le> va \<and> va < of_nat 63 * PGSIZE" using va by (simp add: user_va_def word_le_nat_alt word_less_nat_alt)
  have sm': "(csr s)\<lparr>sum_bit := False\<rparr> = csr s" using sm by simp
  define s1 where "s1 = pop_node s"
  have u1: "addr (user_mapping s1 ?i) = 0" by (simp add: s1_def p un)
  define s3 where "s3 = s1\<lparr>pt := (pt s1)(3 := (pt s1 3)(?i := ?df)), user_mapping := (user_mapping s1)(?i := deref s (freelist_head s))\<rparr>"
  have u3: "s1\<lparr>pt := (pt s1)(3 := (pt s1 3)(?i := ?df)), user_mapping := (user_mapping s1)(?i := deref s (freelist_head s))\<rparr> = s3"
    "addr (user_mapping (s1\<lparr>pt := (pt s1)(3 := (pt s1 3)(?i := ?df))\<rparr>) ?i) = 0"
    "user_mapping (s1\<lparr>pt := (pt s1)(3 := (pt s1 3)(?i := ?df))\<rparr>) = user_mapping s1"
    using u1 by (simp_all add: s3_def)
  have pop': "(if freelist_head (s\<lparr>freelist_head := next_node (deref s (freelist_head s))\<rparr>)
        = freelist_tail (s\<lparr>freelist_head := next_node (deref s (freelist_head s))\<rparr>)
      then s\<lparr>freelist_head := next_node (deref s (freelist_head s))\<rparr>\<lparr>freelist_tail := NULL\<rparr>
      else s\<lparr>freelist_head := next_node (deref s (freelist_head s))\<rparr>) = s1"
    by (simp only: s1_def pop_node_def Let_def)
  have s34: "set_sum True s3 = s4" by (simp add: s3_def s4_def s1_def set_sum_def p)
  have fin: "(set_sum (sum_bit (csr s3)) (s4\<lparr>mem := copy_frame (mem s) f ?i\<rparr>)) = s3\<lparr>mem := copy_frame (mem s) f ?i\<rparr>"
    using sm by (simp add: s3_def s4_def s1_def set_sum_def p)
  have "handle_fault P pf_filter va why s = Running ((s3\<lparr>mem := copy_frame (mem s) f ?i\<rparr>)
      \<lparr>pt := (pt s3)(3 := (pt s3 3)(?i := mk_pte (frame_ppn f) 0x1F))\<rparr>)"
    by (simp only: handle_fault_def vm_assert_def Let_def and_then.simps range page_va [OF v(1)] page_va_index [OF v(3)] un
          pop(2,3) pop' pf option.case new_entry u1 u3 s34 c fin simp_thms if_True if_False) (simp add: s3_def)
  also have "\<dots> = Running (mapped_in ?i f s)"
    by (simp add: mapped_in_def Let_def s3_def s1_def p)
  finally show ?thesis .
qed

end
