(* ===== verification/VM_Faults.thy ===== *)
theory VM_Faults
  imports VM_Invariant
begin

text \<open>
  \<open>handle_fault\<close> keeps the invariant and the user's view of memory: on an unmapped page it
  takes a frame from the free list (\<open>mapped_in\<close>), on a mapped one it sets the accessed or the
  dirty flag (\<open>set_flags\<close>).
\<close>

section \<open>The invariant is kept\<close>

lemma page_rep_frame:
  assumes "page_rep s pend i f flags" "user_mapping s' i = user_mapping s i" "pt s' 3 i = pt s 3 i"
    "\<And>j. j < 4096 \<Longrightarrow> mem s' (pg f j) = mem s (pg f j) \<and> mem s' (pg i j) = mem s (pg i j)"
    "pend = Some i \<longrightarrow> pend' = Some i"
  shows "page_rep s' pend' i f flags"
  using assms by (auto simp: page_rep_def)

lemma free_rep_frame:
  "free_rep free s \<Longrightarrow> freelist_nodes s' = freelist_nodes s \<Longrightarrow> freelist_head s' = freelist_head s \<Longrightarrow>
    freelist_tail s' = freelist_tail s \<Longrightarrow> free_rep free s'"
  unfolding free_rep_def by metis

lemma tables_ok_frame:
  "tables_ok P s \<Longrightarrow> (\<And>k. k \<noteq> 3 \<Longrightarrow> pt s' k = pt s k) \<Longrightarrow> satp (csr s') = satp (csr s) \<Longrightarrow> tables_ok P s'"
  by (simp add: tables_ok_def)

lemma mapped_in_fields:
  assumes "free_rep (f # free) s" "free \<noteq> []"
  shows "mapped_in i f s = s\<lparr>freelist_head := freelist_head (pop_node s), freelist_tail := freelist_tail (pop_node s),
      pt := (pt s)(3 := (pt s 3)(i := mk_pte (frame_ppn f) 0x1F)),
      user_mapping := (user_mapping s)(i := deref s (freelist_head s)), mem := copy_frame (mem s) f i\<rparr>"
  unfolding mapped_in_def Let_def by (subst pop_node_result(4) [OF assms]) simp

lemma mapped_in_rep:
  assumes r: "vm_rep P fr fl (f # free) pend s" and i: "1 \<le> i" "i < 63" "fr i = None" and pend: "pend = None \<or> pend = Some i"
    and tp: "test_page P i"
  shows "vm_rep P (fr(i \<mapsto> f)) (fl(i := 0x1F)) free (Some i) (mapped_in i f s)"
proof -
  have t: "tables_ok P s" and fo: "frames_ok fr (f # free)" and fre: "free_rep (f # free) s"
    using r by (simp_all add: vm_rep_def)
  have ne: "free \<noteq> []" using frames_left [OF fo i(3,1,2)] by auto
  note m = mapped_in_fields [OF fre ne, of i]
  note pop = pop_node_result [OF fre ne]
  have f: "64 \<le> f" "f \<le> 126" using fo by (auto simp: frames_ok_def)
  have byte: "mem (mapped_in i f s) (pg k j) = (if k = f then mem s (pg i j) else mem s (pg k j))"
    if "k < 0x10000" "j < 4096" for k j
    using that f unfolding m by (simp add: copy_frame_byte)
  have "free_rep free (mapped_in i f s)"
    by (rule free_rep_frame [OF pop(1)]) (simp_all add: m, subst pop(4), simp)
  moreover have "frames_ok (fr(i \<mapsto> f)) free" by (rule frames_take [OF fo i(3,1,2)])
  moreover have "tables_ok P (mapped_in i f s)" by (rule tables_ok_frame [OF t]) (simp_all add: m)
  moreover have "case (fr(i \<mapsto> f)) k of
        None \<Rightarrow> addr (user_mapping (mapped_in i f s) k) = 0 \<and> pt (mapped_in i f s) 3 k = 0
      | Some g \<Rightarrow> page_rep (mapped_in i f s) (Some i) k g ((fl(i := 0x1F)) k)" if k: "k < 63" for k
  proof (cases "k = i")
    case True
    have "addr (user_mapping (mapped_in i f s) i) = pg f 0" using pop(3) by (simp add: m)
    moreover have "pt (mapped_in i f s) 3 i = mk_pte (frame_ppn f) 0x1F" by (simp add: m)
    moreover have "\<forall>j < 4096. mem (mapped_in i f s) (pg f j) = mem (mapped_in i f s) (pg i j)"
      using byte f i by simp
    ultimately show ?thesis using True by (simp add: page_rep_def)
  next
    case False
    show ?thesis
    proof (cases "fr k")
      case None
      then show ?thesis using rep_unmapped [OF r None k] False by (simp add: m)
    next
      case (Some g)
      note g = rep_frame [OF r Some]
      have "g \<noteq> f" using Some fo by (auto simp: frames_ok_def dest: ranI)
      then have "page_rep (mapped_in i f s) (Some i) k g (fl k)"
        by (intro page_rep_frame [OF g(5)]) (use False g f byte pend in \<open>auto simp: m\<close>)
      then show ?thesis using Some False by simp
    qed
  qed
  moreover have "csr (mapped_in i f s) = csr s" by (simp add: m)
  ultimately show ?thesis using r tp unfolding vm_rep_def by simp
qed

lemma mapped_in_umem:
  assumes r: "vm_rep P fr fl (f # free) pend s" and i: "1 \<le> i" "i < 63" "fr i = None" and pend: "pend = None \<or> pend = Some i"
    and tp: "test_page P i" and va: "unat va < 63 * 4096"
  shows "umem (mapped_in i f s) va = umem s va"
proof -
  have fo: "frames_ok fr (f # free)" and fre: "free_rep (f # free) s" using r by (simp_all add: vm_rep_def)
  have ne: "free \<noteq> []" using frames_left [OF fo i(3,1,2)] by auto
  have f: "64 \<le> f" "f \<le> 126" using fo by (auto simp: frames_ok_def)
  have b: "mem (mapped_in i f s) (pg k j) = (if k = f then mem s (pg i j) else mem s (pg k j))"
    if "k < 0x10000" "j < 4096" for k j
    using that f unfolding mapped_in_fields [OF fre ne] by (simp add: copy_frame_byte)
  have k: "unat va div 4096 < 63" by (rule page_index [OF va])
  have fr: "g \<noteq> f \<and> g \<le> 126" if "fr (unat va div 4096) = Some g" for g
    using that fo by (auto simp: frames_ok_def dest: ranI)
  show ?thesis
    unfolding rep_umem [OF r va] rep_umem [OF mapped_in_rep [OF r i pend tp] va]
    using i(3) k f fr by (auto simp: b split: option.split)
qed

section \<open>Faults on a mapped page\<close>

definition set_flags :: "nat \<Rightarrow> nat \<Rightarrow> u64 \<Rightarrow> vm_state \<Rightarrow> vm_state" where
  "set_flags i f flags s = s\<lparr>pt := (pt s)(3 := (pt s 3)(i := mk_pte (frame_ppn f) flags))\<rparr>"

lemma set_flags_rep:
  assumes r: "vm_rep P fr fl free pend s" and f: "fr i = Some f"
    and fl: "flags = 0x5F \<and> fl i \<noteq> 0xDF \<or> flags = 0xDF" and pend: "pend = None \<or> pend = Some i \<or> pend' = pend"
  shows "vm_rep P fr (fl(i := flags)) free pend' (set_flags i f flags s)"
proof -
  note p = rep_frame [OF r f]
  have "page_rep (set_flags i f flags s) pend' i f flags"
    using p(5) fl by (auto simp: page_rep_def set_flags_def)
  moreover have "page_rep (set_flags i f flags s) pend' k g (fl k)" if "fr k = Some g" "k \<noteq> i" for k g
  proof -
    have "page_rep s pend k g (fl k)" by (rule rep_frame(5) [OF r that(1)])
    moreover have "fl k \<noteq> 0x1F \<or> pend = Some k"  using rep_frame(5) [OF r that(1)] by (auto simp: page_rep_def)
    ultimately show ?thesis using that(2) pend by (auto simp: page_rep_def set_flags_def)
  qed
  moreover have "addr (user_mapping (set_flags i f flags s) k) = 0 \<and> pt (set_flags i f flags s) 3 k = 0"
    if "fr k = None" "k < 63" for k
    using rep_unmapped [OF r that] that(1) f by (auto simp: set_flags_def)
  moreover have "tables_ok P (set_flags i f flags s)"
    by (rule tables_ok_frame [of P s]) (use r in \<open>simp_all add: vm_rep_def set_flags_def\<close>)
  moreover have "free_rep free (set_flags i f flags s)"
    by (rule free_rep_frame [of free s]) (use r in \<open>simp_all add: vm_rep_def set_flags_def\<close>)
  ultimately show ?thesis
    using r f unfolding vm_rep_def by (auto simp: set_flags_def split: option.split)
qed


lemma set_flags_umem: "umem (set_flags i f flags s) va = umem s va"
  by (simp add: umem_def set_flags_def Let_def)

lemma mk_pte_nonzero: "flags AND 1 = 1 \<Longrightarrow> unat ppn < 2 ^ 44 \<Longrightarrow> unat flags < 2 ^ 10 \<Longrightarrow> mk_pte ppn flags \<noteq> 0"
  using mk_pte_low [of 1 ppn flags] by auto

lemma handle_fault_mapped:
  assumes r: "vm_rep P fr fl free pend s" and va: "user_va va" and f: "fr (unat va div 4096) = Some f"
  shows "fl (unat va div 4096) = 0x1F \<Longrightarrow> handle_fault P pf_filter va why s = Running (set_flags (unat va div 4096) f 0x5F s)"
    "fl (unat va div 4096) = 0x5F \<Longrightarrow> why = CAUSE_STORE_PAGE_FAULT \<Longrightarrow>
      handle_fault P pf_filter va why s = Running (set_flags (unat va div 4096) f 0xDF s)"
proof -
  let ?i = "unat va div 4096"
  have v: "unat va < 63 * 4096" "?i < 63" using va page_index [of va] by (simp_all add: user_va_def)
  have range: "PGSIZE \<le> va \<and> va < of_nat 63 * PGSIZE" using va by (simp add: user_va_def word_le_nat_alt word_less_nat_alt)
  note p = rep_frame(5) [OF r f]
  have e: "pt s 3 ?i = mk_pte (frame_ppn f) (fl ?i)" and fl: "fl ?i \<in> {0x1F, 0x5F, 0xDF}"
    using p by (simp_all add: page_rep_def)
  have fb: "f < 0x10000" using rep_frame(2) [OF r f] by simp
  have nz: "mk_pte (frame_ppn f) (fl ?i) \<noteq> 0"
    using mk_pte_nonzero [of "fl ?i" "frame_ppn f"] flags_ok(1,2) [OF fl] frame_ppn_less [OF fb] fb by simp
  have low: "mk_pte (frame_ppn f) (fl ?i) AND 0x40 = fl ?i AND 0x40" "mk_pte (frame_ppn f) (fl ?i) AND 0x80 = fl ?i AND 0x80"
    by (rule mk_pte_low, simp)+
  have or: "mk_pte (frame_ppn f) 0x1F OR 0x40 = mk_pte (frame_ppn f) 0x5F" "mk_pte (frame_ppn f) 0x5F OR 0x80 = mk_pte (frame_ppn f) 0xDF"
    by (simp_all add: mk_pte_or)
  show "handle_fault P pf_filter va why s = Running (set_flags ?i f 0x5F s)" if "fl ?i = 0x1F"
    unfolding handle_fault_def vm_assert_def Let_def page_va [OF v(1)] page_va_index [OF v(2)]
    using e nz low or range that by (simp add: set_flags_def)
  show "handle_fault P pf_filter va why s = Running (set_flags ?i f 0xDF s)"
    if "fl ?i = 0x5F" "why = CAUSE_STORE_PAGE_FAULT"
    unfolding handle_fault_def vm_assert_def Let_def page_va [OF v(1)] page_va_index [OF v(2)]
    using e nz low or range that by (simp add: set_flags_def)
qed

end
