(* ===== verification/VM_Machine.thy ===== *)
theory VM_Machine
  imports VM_Faults
begin

text \<open>
  The program under test running on the environment, byte access by byte access: a labelled
  step relation in which an access goes through the simulator's page walk, a page fault runs
  \<open>handle_trap\<close> and the access is tried again after it.  The test sees flat memory.
\<close>

section \<open>The machine\<close>

text \<open>The filters of a test that defines none (\<open>riscv_test.h\<close>).\<close>

definition no_pf_filter :: "u64 \<Rightarrow> u64 option" where
  "no_pf_filter a = None"

definition no_trap_filter :: "trapframe_t \<Rightarrow> trapframe_t option" where
  "no_trap_filter tf = None"

definition page_fault_cause :: "access_type \<Rightarrow> u64" where
  "page_fault_cause type =
     (case type of FETCH \<Rightarrow> CAUSE_FETCH_PAGE_FAULT | LOAD \<Rightarrow> CAUSE_LOAD_PAGE_FAULT
      | STORE \<Rightarrow> CAUSE_STORE_PAGE_FAULT)"

definition user_translate_at :: "platform \<Rightarrow> vm_state \<Rightarrow> access_type \<Rightarrow> u64 \<Rightarrow> walk_result \<times> (u64 \<times> u64) option" where
  "user_translate_at P s type va = translate (mmu_of P s) (pte_load P s) type 0 va"

text \<open>\<open>retrying\<close> is the access whose page fault was just handled: the instruction is executed again.\<close>

record machine =
  vms :: vm_state
  retrying :: "(access_type \<times> u64) option"

datatype event = Read access_type u64 u8 | Wrote u64 u8 | Fault

text \<open>The test accesses its own pages, does not store into the code of the environment, and after a
  fault tries the access again.\<close>

definition may_access :: "platform \<Rightarrow> machine \<Rightarrow> access_type \<Rightarrow> u64 \<Rightarrow> bool" where
  "may_access P m type va = (test_va P va \<and> (type = STORE \<longrightarrow> \<not> own_code P (DRAM_BASE + va))
     \<and> (retrying m = None \<or> retrying m = Some (type, va)))"

inductive machine_step :: "platform \<Rightarrow> u32 \<Rightarrow> machine \<Rightarrow> event \<Rightarrow> machine \<Rightarrow> bool" for P fssr where
  read: "may_access P m type va \<Longrightarrow> type \<noteq> STORE \<Longrightarrow>
    user_translate_at P (vms m) type va = (Mapped pa, st) \<Longrightarrow> s' = pte_store P st (vms m) \<Longrightarrow>
    machine_step P fssr m (Read type va (mem s' pa)) \<lparr>vms = s', retrying = None\<rparr>"
| store: "may_access P m STORE va \<Longrightarrow>
    user_translate_at P (vms m) STORE va = (Mapped pa, st) \<Longrightarrow> s' = pte_store P st (vms m) \<Longrightarrow>
    machine_step P fssr m (Wrote va v) \<lparr>vms = s'\<lparr>mem := (mem s')(pa := v)\<rparr>, retrying = None\<rparr>"
| fault: "may_access P m type va \<Longrightarrow>
    user_translate_at P (vms m) type va = (Page_Fault, st) \<Longrightarrow>
    tf = \<lparr>gpr = g, sr = status, epc = pc, badvaddr = va, cause = page_fault_cause type\<rparr> \<Longrightarrow>
    handle_trap P no_pf_filter no_trap_filter fssr tf (pte_store P st (vms m)) = (Running s', tf) \<Longrightarrow>
    machine_step P fssr m Fault \<lparr>vms = s', retrying = Some (type, va)\<rparr>"

inductive machine_run :: "platform \<Rightarrow> u32 \<Rightarrow> machine \<Rightarrow> event list \<Rightarrow> machine \<Rightarrow> bool" for P fssr where
  stop: "machine_run P fssr m [] m"
| go: "machine_step P fssr m e m' \<Longrightarrow> machine_run P fssr m' es m'' \<Longrightarrow> machine_run P fssr m (e # es) m''"

inductive_cases machine_step_readE: "machine_step P fssr m (Read type va b) m'"
inductive_cases machine_step_wroteE: "machine_step P fssr m (Wrote va b) m'"
inductive_cases machine_step_faultE: "machine_step P fssr m Fault m'"
inductive_simps machine_run_Nil [simp]: "machine_run P fssr m [] m'"
inductive_simps machine_run_Cons: "machine_run P fssr m (e # es) m'"

lemmas machine_stepEs = machine_step_readE machine_step_wroteE machine_step_faultE

section \<open>Flat memory\<close>

text \<open>What the test relies on: one array of bytes.\<close>

fun flat_step :: "event \<Rightarrow> (u64 \<Rightarrow> u8) \<Rightarrow> (u64 \<Rightarrow> u8) option" where
  "flat_step (Read type va b) \<mu> = (if \<mu> va = b then Some \<mu> else None)"
| "flat_step (Wrote va b) \<mu> = Some (flat_write \<mu> va b)"
| "flat_step Fault \<mu> = Some \<mu>"

fun flat_run :: "event list \<Rightarrow> (u64 \<Rightarrow> u8) \<Rightarrow> (u64 \<Rightarrow> u8) option" where
  "flat_run [] \<mu> = Some \<mu>"
| "flat_run (e # es) \<mu> = (case flat_step e \<mu> of None \<Rightarrow> None | Some \<mu>' \<Rightarrow> flat_run es \<mu>')"

definition user_view :: "platform \<Rightarrow> vm_state \<Rightarrow> u64 \<Rightarrow> u8" where
  "user_view P s va = (if test_va P va then umem s va else 0)"

text \<open>A machine that simulates flat memory, step by step.\<close>

locale memory_refinement =
  fixes step :: "'m \<Rightarrow> event \<Rightarrow> 'm \<Rightarrow> bool" and run :: "'m \<Rightarrow> event list \<Rightarrow> 'm \<Rightarrow> bool"
    and inv :: "'m \<Rightarrow> bool" and view :: "'m \<Rightarrow> u64 \<Rightarrow> u8"
  assumes run_Nil: "run m [] m' \<Longrightarrow> m' = m"
    and run_Cons: "run m (e # es) m' \<Longrightarrow> \<exists>m1. step m e m1 \<and> run m1 es m'"
    and step_inv: "inv m \<Longrightarrow> step m e m' \<Longrightarrow> inv m'"
    and step_flat: "inv m \<Longrightarrow> step m e m' \<Longrightarrow> flat_step e (view m) = Some (view m')"
begin

lemma run_inv: "run m es m' \<Longrightarrow> inv m \<Longrightarrow> inv m'"
  by (induction es arbitrary: m) (auto dest: run_Nil run_Cons step_inv)

lemma run_flat: "run m es m' \<Longrightarrow> inv m \<Longrightarrow> flat_run es (view m) = Some (view m')"
proof (induction es arbitrary: m)
  case Nil
  then show ?case using run_Nil by fastforce
next
  case (Cons e es)
  obtain m1 where m1: "step m e m1" "run m1 es m'" using run_Cons [OF Cons.prems(1)] by blast
  show ?case using Cons.IH [OF m1(2) step_inv [OF Cons.prems(2) m1(1)]] step_flat [OF Cons.prems(2) m1(1)] by simp
qed

end

section \<open>User accesses\<close>

lemma user_va_index: "user_va va \<Longrightarrow> 1 \<le> unat va div 4096 \<and> unat va div 4096 < 63"
  using page_index [of va] by (simp add: user_va_def div_greater_zero_iff Suc_le_eq)

lemma pt_index:
  fixes n k :: nat
  assumes "k < 512"
  shows "(n * 4096 + k * 8) div 4096 = n" "(n * 4096 + k * 8) mod 4096 div 8 = k"
  using assms by simp_all

lemma pte_store_user:
  assumes "unat va < 63 * 4096"
  shows "pte_store P (Some (pte_address P va, mk_pte (frame_ppn f) flags)) s = set_flags (unat va div 4096) f flags s"
proof -
  let ?i = "unat va div 4096"
  have i: "?i < 63" by (rule page_index [OF assms])
  have "of_nat 3 * PGSIZE + of_nat ?i * of_nat 8 = (word_of_nat (3 * 4096 + ?i * 8) :: u64)" by simp
  moreover have "unat (word_of_nat (3 * 4096 + ?i * 8) :: u64) = 3 * 4096 + ?i * 8"
    using i by (intro unat_word_of_nat_lt) simp
  ultimately have "unat (of_nat 3 * PGSIZE + of_nat ?i * of_nat 8 :: u64) = 3 * 4096 + ?i * 8" by (simp only:)
  then have o: "unat (pte_address P va - pt_pa P) = 3 * 4096 + ?i * 8"
    by (simp add: pte_address_def algebra_simps)
  moreover have "3 * 4096 + ?i * 8 < 0x4000" "?i < 512" using i by simp_all
  ultimately show ?thesis
    using pt_index [of ?i 3]
    by (simp only: pte_store_def option.case prod.case Let_def word_less_nat_alt set_flags_def o) simp
qed

definition flags_permit :: "platform \<Rightarrow> access_type \<Rightarrow> u64 \<Rightarrow> bool" where
  "flags_permit P type flags = (flags = 0xDF \<or> flags = 0x5F \<and> type \<noteq> STORE \<or> hw_dirty P)"

lemma user_translate_mapped:
  assumes r: "vm_rep P fr fl free pend s" and va: "user_va va" and f: "fr (unat va div 4096) = Some f"
  defines "flags \<equiv> fl (unat va div 4096)"
  shows "user_translate_at P s type va =
    (if flags_permit P type flags
     then (Mapped (pg f (unat va mod 4096)),
           if flags = 0xDF \<or> flags = 0x5F \<and> type \<noteq> STORE then None
           else Some (pte_address P va, mk_pte (frame_ppn f) (flags OR needed type)))
     else (Page_Fault, None))"
proof -
  have v: "unat va < 63 * 4096" using va by (simp add: user_va_def)
  have "flags \<in> {0x1F, 0x5F, 0xDF}" using rep_frame(5) [OF r f] by (simp add: flags_def page_rep_def)
  then show ?thesis
    unfolding user_translate_at_def rep_translate [OF r v f refl refl le0] flags_def [symmetric]
    using flags_ok(5) [of flags] by (simp add: flags_permit_def)
qed

lemma user_translate_none:
  assumes r: "vm_rep P fr fl free pend s" and va: "user_va va" and f: "fr (unat va div 4096) = None"
  shows "user_translate_at P s type va = (Page_Fault, None)"
proof -
  have v: "unat va < 63 * 4096" using va by (simp add: user_va_def)
  have "platform_ok P" "tables_ok P s" using r by (simp_all add: vm_rep_def)
  then show ?thesis
    unfolding user_translate_at_def
    by (rule user_translate_unmapped [OF _ _ v le0]) (rule rep_unmapped(2) [OF r f page_index [OF v]])
qed


lemma store_rep:
  assumes r: "vm_rep P fr fl free pend s" and f: "fr i = Some f" "fl i = 0xDF" and j: "j < 4096"
  shows "vm_rep P fr fl free pend (s\<lparr>mem := (mem s)(pg f j := v)\<rparr>)"
proof -
  let ?s = "s\<lparr>mem := (mem s)(pg f j := v)\<rparr>"
  note fi = rep_frame [OF r f(1)]
  have fo: "frames_ok fr free" using r by (simp add: vm_rep_def)
  have "page_rep ?s pend k g (fl k)" if g: "fr k = Some g" for k g
  proof (cases "k = i")
    case True
    then show ?thesis using fi(5) f g by (simp add: page_rep_def)
  next
    case False
    note gk = rep_frame [OF r g]
    have "f \<noteq> g" using fo f(1) g False by (metis domI frames_ok_def inj_onD)
    then have "mem ?s (pg g l) = mem s (pg g l)" "mem ?s (pg k l) = mem s (pg k l)" if "l < 4096" for l
      using that j fi gk by (simp_all add: pg_inject)
    then show ?thesis by (intro page_rep_frame [OF gk(5)]) simp_all
  qed
  moreover have "tables_ok P ?s" by (rule tables_ok_frame [of P s]) (use r in \<open>simp_all add: vm_rep_def\<close>)
  moreover have "free_rep free ?s" by (rule free_rep_frame [of free s]) (use r in \<open>simp_all add: vm_rep_def\<close>)
  ultimately show ?thesis
    using r rep_unmapped [OF r] unfolding vm_rep_def by (auto split: option.split)
qed

lemma store_umem:
  assumes r: "vm_rep P fr fl free pend s" and f: "fr (unat va div 4096) = Some f" "fl (unat va div 4096) = 0xDF"
    and va: "user_va va" "user_va w"
  shows "umem (s\<lparr>mem := (mem s)(pg f (unat va mod 4096) := v)\<rparr>) w = (if w = va then v else umem s w)"
proof -
  have u: "unat va < 63 * 4096" "unat w < 63 * 4096" using va by (simp_all add: user_va_def)
  let ?i = "unat va div 4096" and ?k = "unat w div 4096"
  note fi = rep_frame [OF r f(1)]
  have fo: "frames_ok fr free" using r by (simp add: vm_rep_def)
  have eq: "w = va \<longleftrightarrow> ?k = ?i \<and> unat w mod 4096 = unat va mod 4096"
    by (metis div_mult_mod_eq word_eq_iff_unat)
  have ne: "f \<noteq> g" if "fr ?k = Some g" "?k \<noteq> ?i" for g
    using fo f(1) that by (metis domI frames_ok_def inj_onD)
  have b: "pg g (unat w mod 4096) = pg f (unat va mod 4096) \<longleftrightarrow> g = f \<and> unat w mod 4096 = unat va mod 4096"
    if "g \<le> 126" for g using that fi by (subst pg_inject) simp_all
  show ?thesis
  proof (cases "fr ?k")
    case None
    then show ?thesis
      unfolding rep_umem [OF r u(2)] rep_umem [OF store_rep [OF r f, of "unat va mod 4096" v, simplified] u(2)]
      using b [of ?k] fi(1,4) page_index [OF u(2)] f(1) by (auto simp: eq)
  next
    case (Some g)
    then have "g \<le> 126" using rep_frame(2) [OF r Some] by simp
    then show ?thesis
      unfolding rep_umem [OF r u(2)] rep_umem [OF store_rep [OF r f, of "unat va mod 4096" v, simplified] u(2)]
      using b [of g] Some f(1) ne [of g] by (auto simp: eq)
  qed
qed


section \<open>The invariant of the machine\<close>

definition pend_page :: "machine \<Rightarrow> nat option" where
  "pend_page m = map_option (\<lambda>(type, va). unat va div 4096) (retrying m)"

definition machine_ok :: "platform \<Rightarrow> machine \<Rightarrow> bool" where
  "machine_ok P m = (\<exists>fr fl free. vm_rep P fr fl free (pend_page m) (vms m))"

lemma may_access_pend: "may_access P m type va \<Longrightarrow> pend_page m = None \<or> pend_page m = Some (unat va div 4096)"
  by (auto simp: may_access_def pend_page_def)

lemma pend_done:
  assumes r: "vm_rep P fr fl free pend s" and pend: "pend = None \<or> pend = Some i \<and> (fr i \<noteq> None \<longrightarrow> fl i \<noteq> 0x1F)"
  shows "vm_rep P fr fl free None s"
proof -
  have "page_rep s None k g (fl k)" if "fr k = Some g" for k g
    using rep_frame(5) [OF r that] pend that by (auto simp: page_rep_def)
  then show ?thesis using r rep_unmapped [OF r] unfolding vm_rep_def by (auto split: option.split)
qed

lemma access_done:
  assumes r: "vm_rep P fr fl free pend s" and va: "user_va va" and f: "fr (unat va div 4096) = Some f"
    and pend: "pend = None \<or> pend = Some (unat va div 4096)"
    and t: "user_translate_at P s type va = (Mapped pa, st)"
  shows "pa = pg f (unat va mod 4096) \<and> (\<exists>fl'. vm_rep P fr fl' free None (pte_store P st s)
    \<and> (type = STORE \<longrightarrow> fl' (unat va div 4096) = 0xDF)) \<and> umem (pte_store P st s) = umem s
    \<and> mem (pte_store P st s) = mem s"
proof -
  let ?i = "unat va div 4096"
  have fl: "fl ?i \<in> {0x1F, 0x5F, 0xDF}" using rep_frame(5) [OF r f] by (simp add: page_rep_def)
  note tr = user_translate_mapped [OF r va f, of type]
  have pa: "pa = pg f (unat va mod 4096)" using t unfolding tr by (simp split: if_splits)
  show ?thesis
  proof (cases "fl ?i = 0xDF \<or> fl ?i = 0x5F \<and> type \<noteq> STORE")
    case True
    then have "st = None" using t unfolding tr by (auto simp: flags_permit_def)
    moreover have "vm_rep P fr fl free None s" by (rule pend_done [OF r]) (use pend True in auto)
    ultimately show ?thesis using pa True by (auto simp: pte_store_def)
  next
    case False
    let ?n = "fl ?i OR needed type"
    have st: "st = Some (pte_address P va, mk_pte (frame_ppn f) ?n)"
      using t False unfolding tr by (auto split: if_splits)
    have v: "unat va < 63 * 4096" using va by (simp add: user_va_def)
    have s': "pte_store P st s = set_flags ?i f ?n s" unfolding st by (rule pte_store_user [OF v])
    have n: "?n = 0x5F \<and> fl ?i \<noteq> 0xDF \<and> type \<noteq> STORE \<or> ?n = 0xDF" using flags_ok(8) [OF fl, of type] False by auto
    have "vm_rep P fr (fl(?i := ?n)) free pend (set_flags ?i f ?n s)"
      by (rule set_flags_rep [OF r f]) (use n in auto)
    then have "vm_rep P fr (fl(?i := ?n)) free None (set_flags ?i f ?n s)"
      by (rule pend_done) (use pend n in auto)
    moreover have "umem (set_flags ?i f ?n s) = umem s" by (rule ext) (rule set_flags_umem)
    moreover have "mem (set_flags ?i f ?n s) = mem s" by (simp add: set_flags_def)
    moreover have "type = STORE \<Longrightarrow> (fl(?i := ?n)) ?i = 0xDF" using n by auto
    ultimately show ?thesis unfolding s' using pa by blast
  qed
qed

text \<open>How many more faults an access can take.\<close>

definition faults_left :: "platform \<Rightarrow> (nat \<Rightarrow> nat option) \<Rightarrow> (nat \<Rightarrow> u64) \<Rightarrow> access_type \<Rightarrow> nat \<Rightarrow> nat" where
  "faults_left P fr fl type i =
     (if fr i = None then 3 else if flags_permit P type (fl i) then 0 else if fl i = 0x1F then 2 else 1)"

lemma handle_trap_page_fault:
  "cause tf = page_fault_cause type \<Longrightarrow>
    handle_trap P no_pf_filter no_trap_filter fssr tf s = (handle_fault P no_pf_filter (badvaddr tf) (page_fault_cause type) s, tf)"
  by (cases type) (simp_all add: handle_trap_def no_trap_filter_def page_fault_cause_def)

lemma fault_result:
  assumes r: "vm_rep P fr fl free pend s" and ta: "test_va P va"
    and pend: "pend = None \<or> pend = Some (unat va div 4096)"
    and t: "user_translate_at P s type va = (Page_Fault, st)"
  obtains s' fr' fl' free' where "st = None" "handle_fault P no_pf_filter va (page_fault_cause type) s = Running s'"
    "vm_rep P fr' fl' free' (Some (unat va div 4096)) s'" "faults_left P fr' fl' type (unat va div 4096) < faults_left P fr fl type (unat va div 4096)"
    "user_view P s' = user_view P s" "tohost s' = tohost s"
proof (cases "fr (unat va div 4096)")
  case None
  let ?i = "unat va div 4096"
  have va: "user_va va" and tp: "test_page P ?i" using ta by (simp_all add: test_va_def)
  note i = user_va_index [OF va]
  have "frames_ok fr free" using r by (simp add: vm_rep_def)
  from frames_left [OF this None i [THEN conjunct1] i [THEN conjunct2]]
  obtain g gs where free: "free = g # gs" by (cases free) auto
  note r' = r [unfolded free]
  have "st = None" using t unfolding user_translate_none [OF r va None] by simp
  moreover have "handle_fault P no_pf_filter va (page_fault_cause type) s = Running (mapped_in ?i g s)"
    by (rule handle_fault_unmapped [OF r' va tp None]) (simp add: no_pf_filter_def)
  moreover have "vm_rep P (fr(?i \<mapsto> g)) (fl(?i := 0x1F)) gs (Some ?i) (mapped_in ?i g s)"
    by (rule mapped_in_rep [OF r' _ _ None pend tp]) (use i in simp_all)
  moreover have "faults_left P (fr(?i \<mapsto> g)) (fl(?i := 0x1F)) type ?i < faults_left P fr fl type ?i"
    using None by (simp add: faults_left_def)
  moreover have "user_view P (mapped_in ?i g s) = user_view P s"
    using mapped_in_umem [OF r' _ _ None pend tp] i by (auto simp: user_view_def test_va_def user_va_def fun_eq_iff)
  moreover have "tohost (mapped_in ?i g s) = tohost s" by (simp add: mapped_in_def pop_node_def Let_def)
  ultimately show ?thesis by (rule that)
next
  case (Some f)
  let ?i = "unat va div 4096"
  have va: "user_va va" using ta by (simp add: test_va_def)
  have fl: "fl ?i \<in> {0x1F, 0x5F, 0xDF}" using rep_frame(5) [OF r Some] by (simp add: page_rep_def)
  note tr = user_translate_mapped [OF r va Some, of type]
  have na: "\<not> flags_permit P type (fl ?i)" and st: "st = None" using t unfolding tr by (simp_all split: if_splits)
  have view: "user_view P (set_flags ?i f n s) = user_view P s" for n
    by (simp add: user_view_def fun_eq_iff set_flags_umem)
  note result = that
  have step: thesis
    if "handle_fault P no_pf_filter va (page_fault_cause type) s = Running (set_flags ?i f n s)"
      "n = 0x5F \<and> fl ?i = 0x1F \<or> n = 0xDF \<and> fl ?i = 0x5F" for n
  proof (rule result [OF st])
    show "vm_rep P fr (fl(?i := n)) free (Some ?i) (set_flags ?i f n s)"
      by (rule set_flags_rep [OF r Some]) (use that pend in auto)
    show "faults_left P fr (fl(?i := n)) type ?i < faults_left P fr fl type ?i"
      using that(2) na Some by (auto simp: faults_left_def flags_permit_def)
  qed (use that view in \<open>simp_all add: set_flags_def\<close>)
  show ?thesis
  proof (cases "fl ?i = 0x1F")
    case True
    show ?thesis by (rule step [OF handle_fault_mapped(1) [OF r va Some True]]) (use True in simp)
  next
    case False
    then have five: "fl ?i = 0x5F" "type = STORE" using fl na by (auto simp: flags_permit_def)
    show ?thesis
      by (rule step [OF handle_fault_mapped(2) [OF r va Some five(1)]]) (use five in \<open>simp_all add: page_fault_cause_def\<close>)
  qed
qed


lemma machine_step_ok:
  assumes ok: "machine_ok P m" and st: "machine_step P fssr m e m'"
  shows "machine_ok P m' \<and> flat_step e (user_view P (vms m)) = Some (user_view P (vms m')) \<and> tohost (vms m') = tohost (vms m)"
proof -
  obtain fr fl free where r: "vm_rep P fr fl free (pend_page m) (vms m)" using ok by (auto simp: machine_ok_def)
  have mapped: "\<exists>f. fr (unat va div 4096) = Some f" if "user_va va" "user_translate_at P (vms m) type va = (Mapped pa, st)"
    for type va pa st
    using that user_translate_none [OF r that(1), of type] by (cases "fr (unat va div 4096)") auto
  have pt: "tohost (pte_store P x s) = tohost s" for x s
    by (simp add: pte_store_def Let_def split: option.split)
  from st show ?thesis
  proof cases
    case (read type va pa st s')
    have va: "user_va va" "test_va P va" using read by (simp_all add: may_access_def test_va_def)
    obtain f where f: "fr (unat va div 4096) = Some f" using mapped [OF va(1)] read by blast
    obtain fl' where a: "pa = pg f (unat va mod 4096)" "vm_rep P fr fl' free None s'" "umem s' = umem (vms m)" "mem s' = mem (vms m)"
      using access_done [OF r va(1) f may_access_pend [OF read(3)] read(5)] read by auto
    have "umem (vms m) va = mem (vms m) (pg f (unat va mod 4096))"
      using rep_umem [OF r] va f by (simp add: user_va_def)
    then show ?thesis
      using a va read pt by (auto simp: machine_ok_def pend_page_def user_view_def fun_eq_iff)
  next
    case (store va pa st s' v)
    have va: "user_va va" "test_va P va" using store by (simp_all add: may_access_def test_va_def)
    obtain f where f: "fr (unat va div 4096) = Some f" using mapped [OF va(1)] store by blast
    obtain fl' where a: "pa = pg f (unat va mod 4096)" "vm_rep P fr fl' free None s'" "fl' (unat va div 4096) = 0xDF"
        "umem s' = umem (vms m)"
      using access_done [OF r va(1) f may_access_pend [OF store(3)] store(4)] store by auto
    have "vm_rep P fr fl' free None (s'\<lparr>mem := (mem s')(pa := v)\<rparr>)"
      unfolding a(1) by (rule store_rep [OF a(2) f a(3)]) simp
    moreover have "user_view P (s'\<lparr>mem := (mem s')(pa := v)\<rparr>) = flat_write (user_view P (vms m)) va v"
      using store_umem [OF a(2) f a(3) va(1)] va unfolding a(1) user_view_def a(4) by (auto simp: flat_write_def fun_eq_iff test_va_def)
    ultimately show ?thesis using store pt by (auto simp: machine_ok_def pend_page_def)
  next
    case (fault type va st tf g status pc s')
    have va: "test_va P va" using fault by (simp add: may_access_def)
    obtain s'' fr' fl' free' where h: "st = None" "handle_fault P no_pf_filter va (page_fault_cause type) (vms m) = Running s''"
        "vm_rep P fr' fl' free' (Some (unat va div 4096)) s''" "user_view P s'' = user_view P (vms m)"
        "tohost s'' = tohost (vms m)"
      by (rule fault_result [OF r va may_access_pend fault(4)]) (use fault in auto)
    have "s'' = s'" using fault(6) h(1,2) fault(5) by (simp add: handle_trap_page_fault pte_store_def)
    then show ?thesis using h fault by (auto simp: machine_ok_def pend_page_def)
  qed
qed

interpretation vm: memory_refinement "machine_step P fssr" "machine_run P fssr" "machine_ok P" "\<lambda>m. user_view P (vms m)"
  for P fssr
  by unfold_locales (auto simp: machine_run_Cons dest: machine_step_ok)

lemma machine_run_tohost: "machine_run P fssr m es m' \<Longrightarrow> machine_ok P m \<Longrightarrow> tohost (vms m') = tohost (vms m)"
  by (induction rule: machine_run.induct) (auto dest: machine_step_ok)

lemma access_steps:
  assumes "machine_ok P m" "may_access P m type va"
  shows "\<exists>n \<le> 3. \<exists>e m'. machine_run P fssr m (replicate n Fault @ [e]) m'
    \<and> (if type = STORE then e = Wrote va v else e = Read type va (user_view P (vms m) va)) \<and> retrying m' = None"
proof -
  obtain fr fl free where "vm_rep P fr fl free (pend_page m) (vms m)" using assms(1) by (auto simp: machine_ok_def)
  then have "\<exists>n \<le> faults_left P fr fl type (unat va div 4096). \<exists>e m'. machine_run P fssr m (replicate n Fault @ [e]) m'
    \<and> (if type = STORE then e = Wrote va v else e = Read type va (user_view P (vms m) va)) \<and> retrying m' = None"
    using assms(2)
  proof (induction "faults_left P fr fl type (unat va div 4096)" arbitrary: fr fl free m rule: less_induct)
    case less
    have ta: "test_va P va" and va: "user_va va" using less.prems(2) by (simp_all add: may_access_def test_va_def)
    note pend = may_access_pend [OF less.prems(2)]
    obtain res st where t: "user_translate_at P (vms m) type va = (res, st)" by (cases "user_translate_at P (vms m) type va")
    have cases: "(\<exists>pa. res = Mapped pa) \<or> res = Page_Fault"
      using t user_translate_none [OF less.prems(1) va, of type] user_translate_mapped [OF less.prems(1) va, of _ type]
      by (cases "fr (unat va div 4096)") (auto split: if_splits)
    show ?case
    proof (cases "res = Page_Fault")
      case True
      obtain s' fr' fl' free' where h: "st = None" "handle_fault P no_pf_filter va (page_fault_cause type) (vms m) = Running s'"
          "vm_rep P fr' fl' free' (Some (unat va div 4096)) s'"
          "faults_left P fr' fl' type (unat va div 4096) < faults_left P fr fl type (unat va div 4096)"
          "user_view P s' = user_view P (vms m)"
        by (rule fault_result [OF less.prems(1) ta pend t [unfolded True]])
      define m1 where "m1 = \<lparr>vms = s', retrying = Some (type, va)\<rparr>"
      have "machine_step P fssr m Fault m1"
        unfolding m1_def
        by (rule machine_step.fault [OF less.prems(2) t [unfolded True], where g = "\<lambda>_. 0" and status = 0 and pc = 0])
          (rule refl, simp add: handle_trap_page_fault h pte_store_def)
      moreover have "vm_rep P fr' fl' free' (pend_page m1) (vms m1)" using h by (simp add: m1_def pend_page_def)
      moreover have "may_access P m1 type va" using less.prems(2) by (simp add: may_access_def m1_def)
      ultimately obtain n e m' where n: "n \<le> faults_left P fr' fl' type (unat va div 4096)" "machine_run P fssr m1 (replicate n Fault @ [e]) m'"
          "(if type = STORE then e = Wrote va v else e = Read type va (user_view P (vms m1) va))" "retrying m' = None"
        using less.hyps [OF h(4)] by blast
      have "machine_run P fssr m (replicate (Suc n) Fault @ [e]) m'"
        using \<open>machine_step P fssr m Fault m1\<close> n(2) by (auto simp: machine_run_Cons)
      moreover have "Suc n \<le> faults_left P fr fl type (unat va div 4096)" using n(1) h(4) by simp
      moreover have "user_view P (vms m1) = user_view P (vms m)" using h(5) by (simp add: m1_def)
      ultimately show ?thesis using n(3,4) by metis
    next
      case False
      then obtain pa where t: "user_translate_at P (vms m) type va = (Mapped pa, st)" using cases t by auto
      define s' where "s' = pte_store P st (vms m)"
      have "\<exists>e m'. machine_step P fssr m e m' \<and> (if type = STORE then e = Wrote va v else e = Read type va (user_view P (vms m) va))
          \<and> retrying m' = None"
      proof (cases "type = STORE")
        case True
        then show ?thesis using machine_step.store [of P m va pa st s' fssr v] less.prems(2) t s'_def by fastforce
      next
        case False
        have "machine_step P fssr m (Read type va (mem s' pa)) \<lparr>vms = s', retrying = None\<rparr>"
          by (rule machine_step.read [OF less.prems(2) False t s'_def])
        moreover have "machine_ok P m" using less.prems(1) by (auto simp: machine_ok_def)
        from machine_step_ok [OF this calculation] have "mem s' pa = user_view P (vms m) va"
          by (simp split: if_splits)
        ultimately show ?thesis using False by fastforce
      qed
      then show ?thesis by (intro exI [of _ 0]) (auto simp: machine_run_Cons)
    qed
  qed
  moreover have "faults_left P fr fl type (unat va div 4096) \<le> 3" by (simp add: faults_left_def)
  ultimately show ?thesis by (meson le_trans)
qed

end
