(* ===== verification/VM_Boot.thy ===== *)
theory VM_Boot
  imports VM_Machine
begin

text \<open>
  \<open>vm_boot\<close> establishes the invariant: the shift register visits each of 63 frames once, so the
  free list starts with 63 distinct frames.
\<close>

section \<open>The frame permutation\<close>

primrec orbit :: "nat \<Rightarrow> u64 \<Rightarrow> u64 list" where
  "orbit 0 x = []"
| "orbit (Suc n) x = x # orbit n (LFSR_NEXT x)"

lemma orbit_numeral: "orbit (numeral n) x = x # orbit (pred_numeral n) (LFSR_NEXT x)"
  by (simp add: numeral_eq_Suc)

lemma orbit_nth: "i < n \<Longrightarrow> orbit n x ! i = (LFSR_NEXT ^^ i) x"
  by (induction n arbitrary: i x) (auto simp: nth_Cons funpow_swap1 split: nat.split)

lemma length_orbit [simp]: "length (orbit n x) = n"
  by (induction n arbitrary: x) simp_all

lemma LFSR_NEXT_numerals: "LFSR_NEXT 1 = 32" "LFSR_NEXT (numeral n) = push_bit 5 ((numeral n XOR drop_bit 1 (numeral n)) AND 1) OR drop_bit 1 (numeral n)"
  by (simp_all add: LFSR_NEXT_def)

lemma orbit_1: "orbit 63 1 =
    [1, 32, 16, 8, 4, 2, 33, 48, 24, 12, 6, 35, 17, 40, 20, 10, 37, 50, 57, 60, 30, 47, 23, 11,
     5, 34, 49, 56, 28, 14, 39, 19, 9, 36, 18, 41, 52, 26, 45, 54, 59, 29, 46, 55, 27, 13, 38,
     51, 25, 44, 22, 43, 21, 42, 53, 58, 61, 62, 63, 31, 15, 7, 3]"
  by (simp add: orbit_numeral LFSR_NEXT_numerals)

lemma orbit_1_distinct: "distinct (orbit 63 1)" "set (orbit 63 1) = {x. 1 \<le> unat x \<and> unat x \<le> 63}"
proof -
  show d: "distinct (orbit 63 1)" unfolding orbit_1 by simp
  have "\<forall>x \<in> set (orbit 63 1). 1 \<le> unat x \<and> unat x \<le> 63" unfolding orbit_1 by simp
  moreover have "card (set (orbit 63 1)) = 63" using d by (simp add: distinct_card)
  moreover have "card {x :: u64. 1 \<le> unat x \<and> unat x \<le> 63} \<le> 63"
  proof -
    have "card (unat ` {x :: u64. 1 \<le> unat x \<and> unat x \<le> 63}) \<le> card {1..63 :: nat}"
      by (rule card_mono) auto
    moreover have "inj_on unat {x :: u64. 1 \<le> unat x \<and> unat x \<le> 63}" by (rule inj_onI) (simp add: word_eq_iff_unat)
    ultimately show ?thesis by (simp add: card_image)
  qed
  moreover have "finite {x :: u64. 1 \<le> unat x \<and> unat x \<le> 63}" by simp
  ultimately show "set (orbit 63 1) = {x. 1 \<le> unat x \<and> unat x \<le> 63}"
    by (intro card_seteq) auto
qed

lemma LFSR_NEXT_period: "(LFSR_NEXT ^^ 63) 1 = 1"
proof -
  have "(LFSR_NEXT ^^ 63) 1 = LFSR_NEXT ((LFSR_NEXT ^^ 62) 1)" by (simp add: numeral_eq_Suc)
  also have "(LFSR_NEXT ^^ 62) 1 = orbit 63 1 ! 62" by (simp add: orbit_nth)
  also have "\<dots> = 3" unfolding orbit_1 by simp
  finally show ?thesis by (simp add: LFSR_NEXT_numerals)
qed

text \<open>Every nonzero seed starts somewhere on the same cycle.\<close>

lemma orbit_seed:
  assumes "1 \<le> unat r" "unat r \<le> 63"
  shows "distinct (orbit 63 r)" "set (orbit 63 r) \<subseteq> {x. 1 \<le> unat x \<and> unat x \<le> 63}"
proof -
  have "r \<in> set (orbit 63 1)" using assms orbit_1_distinct(2) by blast
  then obtain k where k: "k < 63" "r = (LFSR_NEXT ^^ k) 1" by (auto simp: in_set_conv_nth orbit_nth)
  have n: "orbit 63 r ! i = orbit 63 1 ! ((i + k) mod 63)" if "i < 63" for i
  proof -
    have "orbit 63 r ! i = (LFSR_NEXT ^^ (i + k)) 1" using that k by (simp add: orbit_nth funpow_add)
    also have "\<dots> = (LFSR_NEXT ^^ ((i + k) mod 63)) 1" by (rule funpow_mod_eq [OF LFSR_NEXT_period, symmetric])
    finally show ?thesis by (simp add: orbit_nth)
  qed
  have inj: "i = j" if "(i + k) mod 63 = (j + k) mod 63" "i < 63" "j < 63" for i j :: nat
  proof -
    have m: "(n + k) mod 63 = (if n + k < 63 then n + k else n + k - 63)" if "n < 63" for n
      using that k(1) by (simp add: mod_if [of "n + k - 63"] le_mod_geq)
    show ?thesis using that k(1) unfolding m [OF that(2)] m [OF that(3)] by (auto split: if_splits)
  qed
  show "distinct (orbit 63 r)"
    unfolding distinct_conv_nth length_orbit
  proof (intro allI impI)
    fix i j :: nat assume ij: "i < 63" "j < 63" "i \<noteq> j"
    then have "(i + k) mod 63 \<noteq> (j + k) mod 63" using inj by blast
    then show "orbit 63 r ! i \<noteq> orbit 63 r ! j"
      unfolding n [OF ij(1)] n [OF ij(2)]
      by (subst nth_eq_iff_index_eq [OF orbit_1_distinct(1)]) simp_all
  qed
  have "x \<in> set (orbit 63 1)" if "x \<in> set (orbit 63 r)" for x
  proof -
    note x = that
    obtain i where i: "i < 63" "orbit 63 r ! i = x" using x unfolding in_set_conv_nth length_orbit by blast
    show ?thesis unfolding i(2) [symmetric] n [OF i(1)] by (rule nth_mem) simp
  qed
  then show "set (orbit 63 r) \<subseteq> {x. 1 \<le> unat x \<and> unat x \<le> 63}" using orbit_1_distinct(2) by blast
qed


section \<open>The free list\<close>

lemma boot_freelist_nth:
  "boot_freelist i r nodes k = (if i \<le> k \<and> k < 63
     then \<lparr>addr = DRAM_BASE + (of_nat 63 + (LFSR_NEXT ^^ (k - i)) r) * PGSIZE, next_node = Freelist_Node (k + 1)\<rparr>
     else nodes k)"
proof (induction i r nodes rule: boot_freelist.induct)
  case (1 i r nodes)
  show ?case
  proof (cases "i < 63")
    case True
    have e: "boot_freelist i r nodes k = boot_freelist (i + 1) (LFSR_NEXT r) (nodes(i := \<lparr>addr =
        DRAM_BASE + (of_nat 63 + r) * PGSIZE, next_node = Freelist_Node (i + 1)\<rparr>)) k"
      by (subst boot_freelist.simps) (simp only: True if_True)
    have "(LFSR_NEXT ^^ (k - (i + 1))) (LFSR_NEXT r) = (LFSR_NEXT ^^ (k - i)) r" if "i < k"
    proof -
      have "k - i = Suc (k - (i + 1))" using that by simp
      then show ?thesis by (simp only: funpow_Suc_right comp_apply)
    qed
    then show ?thesis unfolding e 1 [OF True] using True by (cases i k rule: linorder_cases) simp_all
  next
    case False
    then show ?thesis by (subst boot_freelist.simps) auto
  qed
qed

definition boot_frames :: "u64 \<Rightarrow> nat list" where
  "boot_frames r = map (\<lambda>x. 63 + unat x) (orbit 63 r)"

lemma boot_frames_ok:
  assumes "1 \<le> unat r" "unat r \<le> 63"
  shows "frames_ok (\<lambda>_. None) (boot_frames r)"
proof -
  note o = orbit_seed [OF assms]
  have "inj_on (\<lambda>x :: u64. 63 + unat x) (set (orbit 63 r))" by (rule inj_onI) (simp add: word_eq_iff_unat)
  then have "distinct (boot_frames r)" using o(1) by (simp add: boot_frames_def distinct_map)
  moreover have "set (boot_frames r) \<subseteq> {64..126}" using o(2) unfolding boot_frames_def by fastforce
  moreover have "length (boot_frames r) = 63" by (simp add: boot_frames_def)
  ultimately show ?thesis by (simp add: frames_ok_def)
qed

lemma boot_seed:
  "1 \<le> unat (1 + e mod of_nat 63 :: u64)" "unat (1 + e mod of_nat 63 :: u64) \<le> 63"
proof -
  have m: "unat (e mod of_nat 63 :: u64) = unat e mod 63" by (simp add: unat_mod)
  have "unat (1 + e mod of_nat 63 :: u64) = 1 + unat e mod 63"
    by (subst unat_add_no_wrap) (simp_all only: m, simp_all)
  then show "1 \<le> unat (1 + e mod of_nat 63 :: u64)" "unat (1 + e mod of_nat 63 :: u64) \<le> 63" by simp_all
qed

lemma boot_freelist_rep:
  fixes r :: u64 and nodes :: "nat \<Rightarrow> freelist_t"
  assumes r: "1 \<le> unat r" "unat r \<le> 63"
  defines "ns \<equiv> boot_freelist 0 r nodes"
  assumes s: "freelist_nodes s = ns(62 := ns 62\<lparr>next_node := NULL\<rparr>)"
    "freelist_head s = Freelist_Node 0" "freelist_tail s = Freelist_Node 62"
  shows "free_rep (boot_frames r) s"
proof -
  have l: "length (boot_frames r) = 63" by (simp add: boot_frames_def)
  have p: "DRAM_BASE + (of_nat 63 + x) * PGSIZE = pg (63 + unat x) 0" if "unat x \<le> 63" for x :: u64
  proof -
    have "unat ((of_nat 63 + x) * PGSIZE) = (63 + unat x) * 4096"
    proof -
      have a: "unat (of_nat 63 + x) = 63 + unat x" using that by (subst unat_add_no_wrap) simp_all
      then show ?thesis using that by (subst unat_mult_no_wrap) (simp_all only: a, simp_all)
    qed
    then have "unat (DRAM_BASE + (of_nat 63 + x) * PGSIZE) = 0x80000000 + (63 + unat x) * 4096"
      using that by (subst unat_add_no_wrap) (simp_all only:, simp_all)
    then show ?thesis using that by (simp only: word_eq_iff_unat) (simp add: unat_pg)
  qed
  have x: "unat ((LFSR_NEXT ^^ j) r) \<le> 63" if "j < 63" for j
    using orbit_seed(2) [OF r] nth_mem [of j "orbit 63 r"] that by (auto simp: orbit_nth)
  have "freelist_nodes s j = \<lparr>addr = pg (boot_frames r ! j) 0, next_node = (if j + 1 < 63 then Freelist_Node (j + 1) else NULL)\<rparr>"
    if "j < 63" for j
    using that p [OF x [OF that]]
    by (auto simp: s(1) ns_def boot_freelist_nth boot_frames_def orbit_nth simp del: of_nat_numeral)
  moreover have "boot_frames r \<noteq> []" using l by auto
  ultimately show ?thesis using s(2,3) unfolding free_rep_def l by simp
qed

text \<open>Memory as it is at reset: the program's zero-initialised data.\<close>

definition at_reset :: "vm_state \<Rightarrow> bool" where
  "at_reset s = (\<forall>i < 63. pt s 3 i = 0 \<and> addr (user_mapping s i) = 0)"

lemma vm_boot_result:
  assumes P: "platform_ok P" and z: "at_reset s" and w: "\<And>x. satp_warl x = x"
  obtains s' free where "vm_boot P satp_warl test_addr s = (Running s', \<lparr>gpr = (\<lambda>_. 0), sr = 0, epc = test_addr - DRAM_BASE, badvaddr = 0, cause = 0\<rparr>)"
    "vm_rep P (\<lambda>_. None) (\<lambda>_. 0) free None s'" "mem s' = mem s" "tohost s' = tohost s" "user_mapping s' = user_mapping s"
proof -
  define r :: u64 where "r = 1 + entropy P mod of_nat 63"
  define nodes where "nodes = boot_freelist 0 r (freelist_nodes s)"
  obtain s' where s': "fst (vm_boot P satp_warl test_addr s) = Running s'"
    by (simp add: vm_boot_def Let_def vm_assert_def w)
  have f: "pt s' = pt (boot_tables P s)" "satp (csr s') = drop_bit 12 (pt_pa P) OR 8 * 0x1000000000000000"
    "\<not> sum_bit (csr s')" "freelist_head s' = Freelist_Node 0" "freelist_tail s' = Freelist_Node 62"
    "freelist_nodes s' = nodes(62 := nodes 62\<lparr>next_node := NULL\<rparr>)" "mem s' = mem s" "tohost s' = tohost s"
    "user_mapping s' = user_mapping s"
    using s' by (auto simp: vm_boot_def Let_def vm_assert_def w nodes_def r_def boot_tables_def)
  have "tables_ok P s'" unfolding tables_ok_def f(1,2) by (simp add: boot_tables_def)
  moreover have "free_rep (boot_frames r) s'"
    by (rule boot_freelist_rep [where nodes = "freelist_nodes s"]) (use f boot_seed in \<open>simp_all add: r_def nodes_def\<close>)
  moreover have "frames_ok (\<lambda>_. None) (boot_frames r)" by (rule boot_frames_ok) (use boot_seed in \<open>simp_all add: r_def\<close>)
  moreover have "pt s' 3 i = 0" "addr (user_mapping s' i) = 0" if "i < 63" for i
    using z that unfolding f by (simp_all add: at_reset_def boot_tables_def)
  ultimately have rep: "vm_rep P (\<lambda>_. None) (\<lambda>_. 0) (boot_frames r) None s'"
    using P f(3) by (simp add: vm_rep_def)
  have "vm_boot P satp_warl test_addr s = (Running s', \<lparr>gpr = (\<lambda>_. 0), sr = 0, epc = test_addr - DRAM_BASE, badvaddr = 0, cause = 0\<rparr>)"
    using s' by (simp add: vm_boot_def Let_def)
  then show ?thesis using rep f(7-9) by (rule that)
qed

end
