(* ===== verification/VM_Exit.thy ===== *)
theory VM_Exit
  imports VM_Machine
begin

text \<open>
  The environment's exit: on the test's \<open>ecall\<close>, \<open>handle_trap\<close> evicts every page, so that the
  physical pages hold what the test wrote, and reports its code to the host.
\<close>

section \<open>evict\<close>

lemma page_start: "i < 63 \<Longrightarrow> unat (of_nat (i * 4096) :: u64) = i * 4096"
  by (rule unat_word_of_nat_lt) simp

lemma write_back_result:
  assumes P: "platform_ok P" and t: "tables_ok P s" and sm: "sum_bit (csr s)" and i: "i < 63" and f: "64 \<le> f" "f \<le> 126"
    and e: "pt s 3 i = mk_pte (frame_ppn f) flags" and fl: "flags \<in> {0x5F, 0xDF}"
    and same: "flags \<noteq> 0xDF \<Longrightarrow> \<forall>j < 4096. mem s (pg f j) = mem s (pg i j)" and tp: "test_page P i"
  obtains M where "write_back P (of_nat (i * 4096)) i s = Running (s\<lparr>mem := M\<rparr>)"
    "\<And>k j. k < 0x10000 \<Longrightarrow> j < 4096 \<Longrightarrow> M (pg k j) = (if k = i then mem s (pg f j) else mem s (pg k j))"
proof -
  let ?va = "of_nat (i * 4096) :: u64"
  have fl': "flags \<in> {0x1F, 0x5F, 0xDF}" using fl by auto
  have fb: "f < 0x10000" using f by simp
  have u: "maps_to P s LOAD ?va (pg f 0) 4096"
    by (rule user_maps [OF P t i fb e fl' _ sm]) (use fl in \<open>auto simp: needed_def\<close>)
  have a: "maps_to P s type (uva2kva ?va) (pg i 0) 4096" if "type = LOAD \<or> type = STORE" for type
    by (rule alias_maps [OF P t i that])
  have va: "unat ?va + 4096 < 2 ^ 64" unfolding page_start [OF i] using i by simp
  have acc: "accessible P s LOAD ?va" "accessible P s LOAD (uva2kva ?va)"
    using u a [of LOAD] by (auto simp: accessible_def maps_to_def dest!: spec [of _ 0])
  have own: "\<not> own_page P (dram_page f)" "\<not> own_page P (dram_page i)"
    using P f tp by (auto simp: platform_ok_def test_page_def)
  note no_own = maps_to_own [OF u own(1)] maps_to_own [OF a [OF disjI1, OF refl] own(2)]
  obtain c where c: "memcmp (kread P) ?va (uva2kva ?va) PGSIZE s = Some c"
      "c = 0 \<longleftrightarrow> (\<forall>j < 4096. mem s (pg f j) = mem s (pg i j))"
    using memcmp_page [OF u a va] by auto
  show ?thesis
  proof (cases "c = 0")
    case True
    show ?thesis
    proof (rule that [of "mem s"])
      show "write_back P ?va i s = Running (s\<lparr>mem := mem s\<rparr>)" using acc no_own c(1) True by (simp add: write_back_def)
    qed (use True c(2) in auto)
  next
    case False
    then have d: "flags = 0xDF" using same c(2) by auto
    have dirty: "pt s 3 i AND PTE_D \<noteq> 0" unfolding e d by (subst mk_pte_low) simp_all
    have cp: "copy_page P (uva2kva ?va) ?va s = Running (s\<lparr>mem := copy_frame (mem s) i f\<rparr>)"
      by (rule copy_page_result [OF P t a a u _ fb _ kva_no_wrap [OF i]]) (use i f own in auto)
    show ?thesis
    proof (rule that [of "copy_frame (mem s) i f"])
      show "write_back P ?va i s = Running (s\<lparr>mem := copy_frame (mem s) i f\<rparr>)"
        by (simp only: write_back_def acc no_own c(1) False dirty cp vm_assert_def and_then.simps option.case simp_thms if_True if_False)
    qed (use i fb in \<open>simp add: copy_frame_byte\<close>)
  qed
qed

text \<open>The state when the pages below \<open>k\<close> have been evicted, from a state that satisfied the invariant.\<close>

definition evicting :: "vm_state \<Rightarrow> (nat \<Rightarrow> nat option) \<Rightarrow> nat \<Rightarrow> vm_state \<Rightarrow> bool" where
  "evicting s fr k s' =
     (pt s' = pt s \<and> csr s' = csr s \<and> tohost s' = tohost s
      \<and> (\<forall>i. k \<le> i \<longrightarrow> user_mapping s' i = user_mapping s i)
      \<and> (\<forall>i. freelist_tail s' = User_Mapping i \<longrightarrow> i < k)
      \<and> (\<forall>g j. g < 0x10000 \<longrightarrow> j < 4096 \<longrightarrow> mem s' (pg g j) =
           mem s (pg (if 1 \<le> g \<and> g < k then case fr g of None \<Rightarrow> g | Some f \<Rightarrow> f else g) j)))"

lemma release_evicting:
  assumes "evicting s fr i s'" "fr i = Some f" "1 \<le> i" "f < 0x10000"
    "\<And>k j. k < 0x10000 \<Longrightarrow> j < 4096 \<Longrightarrow> M (pg k j) = (if k = i then mem s (pg f j) else mem s' (pg k j))"
  shows "evicting s fr (Suc i) (release i (s'\<lparr>mem := M\<rparr>))"
proof -
  have n: "freelist_tail s' = User_Mapping k \<Longrightarrow> k < i" for k using assms(1) by (simp add: evicting_def)
  have "user_mapping (release i (s'\<lparr>mem := M\<rparr>)) k = user_mapping s' k" if "Suc i \<le> k" for k
    using that n by (cases "freelist_tail s'") (auto simp: release_def Let_def set_next_def)
  moreover have "freelist_tail (release i (s'\<lparr>mem := M\<rparr>)) = User_Mapping i"
    by (simp add: release_def Let_def)
  moreover have "pt (release i (s'\<lparr>mem := M\<rparr>)) = pt s'" "csr (release i (s'\<lparr>mem := M\<rparr>)) = csr s'"
      "tohost (release i (s'\<lparr>mem := M\<rparr>)) = tohost s'" "mem (release i (s'\<lparr>mem := M\<rparr>)) = M"
    by (simp_all add: release_def Let_def set_next_def split: node_ptr.split)
  ultimately show ?thesis
    using assms unfolding evicting_def by (auto simp: less_Suc_eq)
qed

lemma evict_mapped:
  assumes r: "vm_rep P fr fl free None s" and f0: "fr i = Some f"
    and same: "pt s' = pt s" "csr s' = csr s" "user_mapping s' i = user_mapping s i"
    and b: "\<And>g j. g = i \<or> g = f \<Longrightarrow> j < 4096 \<Longrightarrow> mem s' (pg g j) = mem s (pg g j)"
  obtains M where "evict P (of_nat i * PGSIZE) s' = Running (release i (s'\<lparr>mem := M\<rparr>))"
    "\<And>k j. k < 0x10000 \<Longrightarrow> j < 4096 \<Longrightarrow> M (pg k j) = (if k = i then mem s' (pg f j) else mem s' (pg k j))"
proof -
  let ?va = "of_nat (i * 4096) :: u64"
  note f = rep_frame [OF r f0]
  have va: "of_nat i * PGSIZE = ?va" by simp
  have u: "unat ?va = i * 4096" by (rule page_start [OF f(4)])
  then have v: "unat ?va < 63 * 4096" "unat ?va div 4096 = i" using f(4) by simp_all
  have range: "(PGSIZE \<le> ?va \<and> ?va < of_nat 63 * PGSIZE) = True"
    using f(3,4) by (simp add: word_le_nat_alt word_less_nat_alt u del: of_nat_mult)
  note pv = page_va [OF v(1), unfolded v(2)]
  have fl: "fl i \<in> {0x5F, 0xDF}" and e: "pt s 3 i = mk_pte (frame_ppn f) (fl i)" and a: "addr (user_mapping s i) = pg f 0"
    using f(5) by (auto simp: page_rep_def)
  have nz: "(addr (user_mapping s i) \<noteq> 0) = True" using a pg_nonzero [of f] f by simp
  have A: "(pt s 3 i AND PTE_A \<noteq> 0) = True" unfolding e using fl by (subst mk_pte_low) auto
  let ?s = "set_sum True s'"
  have t: "platform_ok P" "tables_ok P s" and tp: "test_page P i" using r f0 by (auto simp: vm_rep_def)
  obtain M where M: "write_back P ?va i ?s = Running (?s\<lparr>mem := M\<rparr>)"
      "\<And>k j. k < 0x10000 \<Longrightarrow> j < 4096 \<Longrightarrow> M (pg k j) = (if k = i then mem ?s (pg f j) else mem ?s (pg k j))"
  proof (rule write_back_result [OF t(1) _ _ f(4) f(1,2) _ fl _ tp])
    show "tables_ok P ?s" using t(2) same by (simp add: tables_ok_def set_sum_def)
    show "fl i \<noteq> 0xDF \<Longrightarrow> \<forall>j < 4096. mem ?s (pg f j) = mem ?s (pg i j)"
      using f b by (simp add: page_rep_def set_sum_def)
  qed (use same e in \<open>simp_all add: set_sum_def\<close>)
  have "evict P (of_nat i * PGSIZE) s' = Running (release i (s'\<lparr>mem := M\<rparr>))"
    unfolding va
    by (simp only: evict_def vm_assert_def range Let_def if_True and_then.simps pv same nz A M(1))
      (simp add: set_sum_def same(2) [symmetric])
  moreover have "M (pg k j) = (if k = i then mem s' (pg f j) else mem s' (pg k j))" if "k < 0x10000" "j < 4096" for k j
    using M(2) [OF that] by (simp add: set_sum_def)
  ultimately show ?thesis by (rule that)
qed

lemma evict_result:
  assumes r: "vm_rep P fr fl free None s" and ev: "evicting s fr i s'" and i: "1 \<le> i" "i < 63"
  obtains s'' where "evict P (of_nat i * PGSIZE) s' = Running s''" "evicting s fr (Suc i) s''"
proof -
  have same: "pt s' = pt s" "csr s' = csr s" "user_mapping s' i = user_mapping s i"
    using ev by (simp_all add: evicting_def)
  show ?thesis
  proof (cases "fr i")
    case None
    let ?va = "of_nat (i * 4096) :: u64"
    have va: "of_nat i * PGSIZE = ?va" by simp
    have u: "unat ?va = i * 4096" by (rule page_start [OF i(2)])
    then have v: "unat ?va < 63 * 4096" "unat ?va div 4096 = i" using i by simp_all
    have range: "(PGSIZE \<le> ?va \<and> ?va < of_nat 63 * PGSIZE) = True"
      using i by (simp add: word_le_nat_alt word_less_nat_alt u del: of_nat_mult)
    have "evict P (of_nat i * PGSIZE) s' = Running s'"
      using rep_unmapped(1) [OF r None i(2)] unfolding va
      by (simp only: evict_def vm_assert_def range Let_def if_True and_then.simps page_va [OF v(1), unfolded v(2)] same) simp
    moreover have "evicting s fr (Suc i) s'" using ev None unfolding evicting_def by (auto simp: less_Suc_eq)
    ultimately show ?thesis by (rule that)
  next
    case (Some f)
    have f: "64 \<le> f" "f \<le> 126" using rep_frame [OF r Some] by simp_all
    have b: "mem s' (pg g j) = mem s (pg g j)" if "g = i \<or> g = f" "j < 4096" for g j
      using ev that i f unfolding evicting_def by auto
    obtain M where M: "evict P (of_nat i * PGSIZE) s' = Running (release i (s'\<lparr>mem := M\<rparr>))"
        "\<And>k j. k < 0x10000 \<Longrightarrow> j < 4096 \<Longrightarrow> M (pg k j) = (if k = i then mem s' (pg f j) else mem s' (pg k j))"
      by (rule evict_mapped [OF r Some same b]) (assumption, assumption, rule that)
    have "evicting s fr (Suc i) (release i (s'\<lparr>mem := M\<rparr>))"
      by (rule release_evicting [OF ev Some i(1)]) (use f b M(2) in simp_all)
    with M(1) show ?thesis by (rule that)
  qed
qed

lemma evict_all_result:
  assumes r: "vm_rep P fr fl free None s"
  obtains s' where "evict_all P s = Running s'" "evicting s fr 63 s'"
proof -
  have tail: "freelist_tail s \<noteq> User_Mapping i" for i using r by (auto simp: vm_rep_def free_rep_def split: if_splits)
  have "\<exists>s'. foldl (\<lambda>r i. and_then r (evict P (of_nat i * PGSIZE))) (Running s) [1..<Suc n] = Running s' \<and> evicting s fr (Suc n) s'"
    if "n < 63" for n
    using that
  proof (induction n)
    case 0
    show ?case using tail by (auto simp: evicting_def)
  next
    case (Suc n)
    obtain s1 where s1: "foldl (\<lambda>r i. and_then r (evict P (of_nat i * PGSIZE))) (Running s) [1..<Suc n] = Running s1"
        "evicting s fr (Suc n) s1"
      using Suc by auto
    obtain s2 where "evict P (of_nat (Suc n) * PGSIZE) s1 = Running s2" "evicting s fr (Suc (Suc n)) s2"
      by (rule evict_result [OF r s1(2)]) (use Suc.prems in auto)
    then show ?case using s1(1) by simp
  qed
  from this [of 62] show ?thesis using that by (auto simp: evict_all_def)
qed


section \<open>The ecall\<close>

lemma evicted_memory:
  assumes r: "vm_rep P fr fl free None s" and ev: "evicting s fr 63 s'" and va: "user_va va"
  shows "mem s' (DRAM_BASE + va) = umem s va"
proof -
  have u: "unat va < 63 * 4096" using va by (simp add: user_va_def)
  have i: "1 \<le> unat va div 4096" "unat va div 4096 < 63" using user_va_index [OF va] by simp_all
  show ?thesis
    unfolding dram_address [OF u] rep_umem [OF r u]
    using ev i unfolding evicting_def by (simp add: mod_less_divisor)
qed

lemma exit_result:
  assumes ok: "machine_ok P m" and m: "retrying m = None" and tf: "cause tf = CAUSE_USER_ECALL"
  obtains s' where "handle_trap P no_pf_filter no_trap_filter fssr tf (vms m) = (Terminated s', tf)"
    "\<And>va. user_va va \<Longrightarrow> mem s' (DRAM_BASE + va) = umem (vms m) va"
    "tohost s' = tohost (vms m) @ [scast (ucast (gpr tf 10) :: 32 word)]"
proof -
  obtain fr fl free where r: "vm_rep P fr fl free None (vms m)"
    using ok m by (auto simp: machine_ok_def pend_page_def)
  obtain s' where s': "evict_all P (vms m) = Running s'" "evicting (vms m) fr 63 s'"
    by (rule evict_all_result [OF r])
  have h: "handle_trap P no_pf_filter no_trap_filter fssr tf (vms m)
      = (Terminated (do_tohost (scast (ucast (gpr tf 10) :: 32 word)) s'), tf)"
    using tf s'(1) by (simp add: handle_trap_def no_trap_filter_def terminate_def)
  have t: "tohost s' = tohost (vms m)" using s'(2) by (simp add: evicting_def)
  show ?thesis
    by (rule that [OF h]) (use evicted_memory [OF r s'(2)] t in \<open>simp_all add: do_tohost_def\<close>)
qed

end
