(* ===== verification/VM_System.thy ===== *)
theory VM_System
  imports VM_Boot VM_Exit
begin

text \<open>
  The properties of the virtual-memory environment: boot, fault handling, the test's view of
  memory, and exit, each alone and composed.
\<close>

section \<open>A concrete platform\<close>

text \<open>The code below \<open>0x80000800\<close>, the tables at \<open>0x80002000\<close>, the lists and the stacks in the two pages after them.\<close>

definition demo_platform :: platform where
  "demo_platform = \<lparr>own_page = (\<lambda>p. 0x80002 \<le> p \<and> p < 0x80008), own_code = (\<lambda>a. a < 0x80000800), pt_pa = 0x80002000, trap_entry_pa = 0x80000100, mscratch = 0x80010000, entropy = 7, hw_dirty = False\<rparr>"

definition demo_reset :: vm_state where
  "demo_reset = \<lparr>pt = (\<lambda>_ _. 0), user_mapping = (\<lambda>_. \<lparr>addr = 0, next_node = NULL\<rparr>),
     freelist_nodes = (\<lambda>_. \<lparr>addr = 0, next_node = NULL\<rparr>), freelist_head = NULL, freelist_tail = NULL,
     mem = (\<lambda>_. 0), csr = \<lparr>satp = 0, sum_bit = False, stvec = 0, sscratch = 0, medeleg = 0, mstatus = 0, mie = 0,
       pmpaddr0 = 0, pmpcfg0 = 0\<rparr>, tohost = []\<rparr>"

definition demo_machine :: machine where
  "demo_machine = (case fst (vm_boot demo_platform id 0x80000000 demo_reset) of
     Running s \<Rightarrow> \<lparr>vms = s, retrying = None\<rparr> | _ \<Rightarrow> undefined)"

lemma demo_ok: "platform_ok demo_platform" "at_reset demo_reset"
proof -
  have "own_page demo_platform (table_page demo_platform k)" if "k < 4" for k
  proof -
    have "k = 0 \<or> k = 1 \<or> k = 2 \<or> k = 3" using that by linarith
    then show ?thesis by (elim disjE) (simp_all add: table_page_def demo_platform_def)
  qed
  moreover have "\<not> own_page demo_platform (dram_page f)" if "f \<in> {64..126}" for f
  proof -
    have "unat (dram_page f) = 0x80000 + f"
      using that frame_ppn_less [of f] by (simp add: frame_ppn_def pg_page)
    then show ?thesis using that by (simp add: demo_platform_def word_less_nat_alt)
  qed
  ultimately show "platform_ok demo_platform" by (simp add: platform_ok_def, simp add: demo_platform_def)
qed (simp add: at_reset_def demo_reset_def)

lemma demo_machine_boot:
  "\<exists>tf. vm_boot demo_platform id 0x80000000 demo_reset = (Running (vms demo_machine), tf)"
  "machine_ok demo_platform demo_machine" "retrying demo_machine = None" "tohost (vms demo_machine) = []"
proof -
  obtain s' free where s': "vm_boot demo_platform id 0x80000000 demo_reset
      = (Running s', \<lparr>gpr = (\<lambda>_. 0), sr = 0, epc = 0x80000000 - DRAM_BASE, badvaddr = 0, cause = 0\<rparr>)"
      "vm_rep demo_platform (\<lambda>_. None) (\<lambda>_. 0) free None s'" "tohost s' = tohost demo_reset"
    by (rule vm_boot_result [OF demo_ok, where satp_warl = id and test_addr = "0x80000000"]) auto
  have m: "demo_machine = \<lparr>vms = s', retrying = None\<rparr>" by (simp add: demo_machine_def s'(1))
  show "\<exists>tf. vm_boot demo_platform id 0x80000000 demo_reset = (Running (vms demo_machine), tf)"
    using s'(1) by (simp add: m)
  show "machine_ok demo_platform demo_machine" "retrying demo_machine = None" "tohost (vms demo_machine) = []"
    using s'(2,3) by (auto simp: m machine_ok_def pend_page_def demo_reset_def)
qed

lemma demo_access: "test_va demo_platform 0x1234" "may_access demo_platform demo_machine type 0x1234"
  by (simp_all add: may_access_def test_va_def test_page_def dram_page_def demo_platform_def demo_machine_boot user_va_def)

text \<open>The first store to a page faults three times; a load then reads it back.\<close>

lemma store_run:
  assumes r: "vm_rep P fr fl free None s" and va: "test_va P va" and u: "fr (unat va div 4096) = None" and hw: "\<not> hw_dirty P"
    and code: "\<not> own_code P (DRAM_BASE + va)"
  obtains m where "machine_run P fssr \<lparr>vms = s, retrying = None\<rparr> [Fault, Fault, Fault, Wrote va v, Read LOAD va v] m"
    "retrying m = None"
proof -
  define i where "i = unat va div 4096"
  have ua: "user_va va" and tp: "test_page P i" using va by (simp_all add: test_va_def i_def)
  have i: "1 \<le> i" "i < 63" using user_va_index [OF ua] by (simp_all add: i_def)
  note u = u [folded i_def]
  have "frames_ok fr free" using r by (simp add: vm_rep_def)
  from frames_left [OF this u i] obtain g gs where free: "free = g # gs" by (cases free) auto
  define s1 s2 s3 where "s1 = mapped_in i g s" and "s2 = set_flags i g 0x5F s1" and "s3 = set_flags i g 0xDF s2"
  let ?fr = "fr(i \<mapsto> g)"
  have r1: "vm_rep P ?fr (fl(i := 0x1F)) gs (Some i) s1"
    unfolding s1_def by (rule mapped_in_rep [OF r [unfolded free] i u _ tp]) simp
  have r2: "vm_rep P ?fr (fl(i := 0x1F, i := 0x5F)) gs (Some i) s2"
    unfolding s2_def by (rule set_flags_rep [OF r1]) simp_all
  have r3: "vm_rep P ?fr (fl(i := 0x1F, i := 0x5F, i := 0xDF)) gs (Some i) s3"
    unfolding s3_def by (rule set_flags_rep [OF r2]) simp_all
  have r4: "vm_rep P ?fr (fl(i := 0x1F, i := 0x5F, i := 0xDF)) gs None s3" by (rule pend_done [OF r3, where i = i]) simp
  let ?j = "unat va mod 4096"
  let ?s4 = "s3\<lparr>mem := (mem s3)(pg g ?j := v)\<rparr>"
  have r5: "vm_rep P ?fr (fl(i := 0x1F, i := 0x5F, i := 0xDF)) gs None ?s4" by (rule store_rep [OF r4, where i = i]) simp_all
  have fr: "?fr (unat va div 4096) = Some g" by (simp add: i_def)
  note tr = user_translate_mapped [where fr = ?fr and f = g, OF _ ua fr, folded i_def]
  let ?m = "\<lambda>s. \<lparr>vms = s, retrying = Some (STORE, va)\<rparr>"
  have fault: "machine_step P fssr \<lparr>vms = x, retrying = y\<rparr> Fault (?m x')"
    if "user_translate_at P x STORE va = (Page_Fault, None)" "handle_fault P no_pf_filter va CAUSE_STORE_PAGE_FAULT x = Running x'"
      "y = None \<or> y = Some (STORE, va)" for x y x'
  proof (rule machine_step.fault [where type = STORE and va = va and st = None and g = "\<lambda>_. 0" and status = 0 and pc = 0])
    show "may_access P \<lparr>vms = x, retrying = y\<rparr> STORE va" using that(3) va code by (auto simp: may_access_def)
  qed (use that in \<open>auto simp: handle_trap_page_fault [where type = STORE] page_fault_cause_def pte_store_def\<close>)
  have 1: "machine_step P fssr \<lparr>vms = s, retrying = None\<rparr> Fault (?m s1)"
    by (rule fault) (use user_translate_none [OF r ua u [unfolded i_def]]
      handle_fault_unmapped [OF r [unfolded free] ua tp [unfolded i_def] u [unfolded i_def], of no_pf_filter] in
      \<open>simp_all add: s1_def i_def no_pf_filter_def\<close>)
  have 2: "machine_step P fssr (?m s1) Fault (?m s2)"
    by (rule fault) (use tr [OF r1, of STORE] handle_fault_mapped(1) [where fr = ?fr and f = g, OF r1 ua fr] hw in
      \<open>simp_all add: s2_def flags_permit_def flip: i_def\<close>)
  have 3: "machine_step P fssr (?m s2) Fault (?m s3)"
    by (rule fault) (use tr [OF r2, of STORE] handle_fault_mapped(2) [where fr = ?fr and f = g, OF r2 ua fr] hw in
      \<open>simp_all add: s3_def flags_permit_def flip: i_def\<close>)
  have 4: "machine_step P fssr (?m s3) (Wrote va v) \<lparr>vms = ?s4, retrying = None\<rparr>"
    by (rule machine_step.store [where st = None]) (use tr [OF r3, of STORE] va code in
      \<open>simp_all add: may_access_def flags_permit_def pte_store_def\<close>)
  have 5: "machine_step P fssr \<lparr>vms = ?s4, retrying = None\<rparr> (Read LOAD va (mem ?s4 (pg g ?j))) \<lparr>vms = ?s4, retrying = None\<rparr>"
    by (rule machine_step.read [where st = None]) (use tr [OF r5, of LOAD] va in
      \<open>simp_all add: may_access_def flags_permit_def pte_store_def\<close>)
  have "machine_run P fssr \<lparr>vms = s, retrying = None\<rparr> [Fault, Fault, Fault, Wrote va v, Read LOAD va v] \<lparr>vms = ?s4, retrying = None\<rparr>"
    using 1 2 3 4 5 by (auto simp: machine_run_Cons)
  then show ?thesis by (rule that) simp
qed

lemma demo_run:
  obtains m where "machine_run demo_platform 0 demo_machine [Fault, Fault, Fault, Wrote 0x1234 0xAB, Read LOAD 0x1234 0xAB] m"
    "retrying m = None"
proof -
  obtain s' free where s': "vm_boot demo_platform id 0x80000000 demo_reset
      = (Running s', \<lparr>gpr = (\<lambda>_. 0), sr = 0, epc = 0x80000000 - DRAM_BASE, badvaddr = 0, cause = 0\<rparr>)"
      "vm_rep demo_platform (\<lambda>_. None) (\<lambda>_. 0) free None s'"
    by (rule vm_boot_result [OF demo_ok, where satp_warl = id and test_addr = "0x80000000"]) auto
  have m: "demo_machine = \<lparr>vms = s', retrying = None\<rparr>" by (simp add: demo_machine_def s'(1))
  show ?thesis
    unfolding m by (rule store_run [OF s'(2) demo_access(1), where fssr = 0 and v = "0xAB"])
      (simp_all add: demo_platform_def, rule that, simp_all add: m demo_platform_def)
qed

text \<open>A state with the first test page mapped and read.\<close>

lemma demo_mapped:
  obtains fr fl free s f where "vm_rep demo_platform fr fl free None s" "fr 1 = Some f" "fl 1 = 0x5F"
proof -
  obtain s free where r: "vm_rep demo_platform (\<lambda>_. None) (\<lambda>_. 0) free None s"
    by (rule vm_boot_result [OF demo_ok, where satp_warl = id and test_addr = 0]) auto
  then have fo: "frames_ok (\<lambda>_. None) free" by (simp add: vm_rep_def)
  obtain g gs where free: "free = g # gs"
    using frames_left [OF fo refl order_refl] by (cases free) auto
  have r1: "vm_rep demo_platform ((\<lambda>_. None)(1 \<mapsto> g)) ((\<lambda>_. 0)(1 := 0x1F)) gs (Some 1) (mapped_in 1 g s)"
    by (rule mapped_in_rep [OF r [unfolded free] order_refl])
      (simp_all add: test_page_def dram_page_def demo_platform_def)
  have "vm_rep demo_platform ((\<lambda>_. None)(1 \<mapsto> g)) ((\<lambda>_. 0)(1 := 0x1F, 1 := 0x5F)) gs (Some 1) (set_flags 1 g 0x5F (mapped_in 1 g s))"
    by (rule set_flags_rep [OF r1]) simp_all
  then have r3: "vm_rep demo_platform ((\<lambda>_. None)(1 \<mapsto> g)) ((\<lambda>_. 0)(1 := 0x1F, 1 := 0x5F)) gs None (set_flags 1 g 0x5F (mapped_in 1 g s))"
    by (rule pend_done) simp
  then show ?thesis by (rule that) simp_all
qed

section \<open>Boot\<close>

text \<open>C9: From zero-initialised data vm_boot passes its assertion and establishes the invariant:
  the tables map the test and the kernel, and the shift register puts 63 distinct frames on
  the free list, for every value of the entropy; the test sees its image, in the pages that
  hold no object of the environment.\<close>

theorem vm_boot_establishes:
  assumes "platform_ok P" "at_reset s" "\<And>x. satp_warl x = x"
  shows "\<exists>s'. vm_boot P satp_warl test_addr s
      = (Running s', \<lparr>gpr = (\<lambda>_. 0), sr = 0, epc = test_addr - DRAM_BASE, badvaddr = 0, cause = 0\<rparr>)
    \<and> machine_ok P \<lparr>vms = s', retrying = None\<rparr>
    \<and> user_view P s' = (\<lambda>va. if test_va P va then mem s (DRAM_BASE + va) else 0) \<and> tohost s' = tohost s"
proof -
  obtain s' free where s': "vm_boot P satp_warl test_addr s
      = (Running s', \<lparr>gpr = (\<lambda>_. 0), sr = 0, epc = test_addr - DRAM_BASE, badvaddr = 0, cause = 0\<rparr>)"
      "vm_rep P (\<lambda>_. None) (\<lambda>_. 0) free None s'" "mem s' = mem s" "tohost s' = tohost s" "user_mapping s' = user_mapping s"
    by (rule vm_boot_result [OF assms(1,2), where satp_warl = satp_warl and test_addr = test_addr]) (use assms(3) in auto)
  have "umem s' va = mem s (DRAM_BASE + va)" if "user_va va" for va
    using assms(2) user_va_index [OF that] s'(3,5) by (simp add: umem_def at_reset_def)
  then show ?thesis using s' by (auto simp: machine_ok_def pend_page_def user_view_def test_va_def fun_eq_iff)
qed

theorem vm_boot_establishes_witness:
  "\<exists>s'. fst (vm_boot demo_platform id 0x80000000 demo_reset) = Running s'
    \<and> machine_ok demo_platform \<lparr>vms = s', retrying = None\<rparr>"
  using vm_boot_establishes [OF demo_ok, where satp_warl = id and test_addr = "0x80000000"] by fastforce

section \<open>The test's view of memory\<close>

text \<open>C2: Every run of a test that keeps off the pages where the objects and stacks of the
  environment lie keeps the invariant of the page-table manager and is a run of flat memory:
  each load and fetch returns the byte last stored at its address, across page faults,
  allocation of frames and updates of accessed and dirty flags.\<close>

theorem vm_refines_flat_memory:
  assumes "machine_ok P m" "machine_run P fssr m es m'"
  shows "machine_ok P m' \<and> flat_run es (user_view P (vms m)) = Some (user_view P (vms m'))"
  using vm.run_inv [OF assms(2,1)] vm.run_flat [OF assms(2,1)] by simp

theorem vm_refines_flat_memory_witness:
  "\<exists>m'. machine_run demo_platform 0 demo_machine [Fault, Fault, Fault, Wrote 0x1234 0xAB, Read LOAD 0x1234 0xAB] m'
    \<and> flat_run [Fault, Fault, Fault, Wrote 0x1234 0xAB, Read LOAD 0x1234 0xAB]
        (user_view demo_platform (vms demo_machine)) = Some (user_view demo_platform (vms m'))
    \<and> user_view demo_platform (vms m') 0x1234 = 0xAB"
proof -
  obtain m where m: "machine_run demo_platform 0 demo_machine [Fault, Fault, Fault, Wrote 0x1234 0xAB, Read LOAD 0x1234 0xAB] m"
    using demo_run by blast
  from vm_refines_flat_memory [OF demo_machine_boot(2) m]
  have f: "flat_run [Fault, Fault, Fault, Wrote 0x1234 0xAB, Read LOAD 0x1234 0xAB]
      (user_view demo_platform (vms demo_machine)) = Some (user_view demo_platform (vms m))" ..
  then have "user_view demo_platform (vms m) = (user_view demo_platform (vms demo_machine))(0x1234 := 0xAB)"
    by (simp add: flat_write_def)
  then have "user_view demo_platform (vms m) 0x1234 = 0xAB" by simp
  with m f show ?thesis by blast
qed

text \<open>C7: From every reachable state each access to a page of the test completes after at most
  three page faults (allocation, accessed flag, dirty flag) and returns the byte of the flat
  memory.\<close>

theorem vm_access_completes:
  assumes "machine_ok P m" "may_access P m type va"
  shows "\<exists>n \<le> 3. \<exists>e m'. machine_run P fssr m (replicate n Fault @ [e]) m'
    \<and> (if type = STORE then e = Wrote va v else e = Read type va (user_view P (vms m) va)) \<and> retrying m' = None"
  by (rule access_steps [OF assms])

theorem vm_access_completes_witness:
  "\<exists>n \<le> 3. \<exists>m'. machine_run demo_platform 0 demo_machine (replicate n Fault @ [Wrote 0x1234 0xAB]) m'"
  using vm_access_completes [OF demo_machine_boot(2) demo_access(2), where type = STORE and fssr = 0 and v = "0xAB"] by auto

text \<open>C8: In every state of the invariant, the page walk of an access to a page of the test
  either maps it or faults without a store, and handle_trap then returns: no assertion
  fails, no kernel access faults or touches a page with objects of the environment, no loop
  runs forever, the invariant and the view of the test's pages are kept.\<close>

theorem vm_page_fault_handled:
  assumes "machine_ok P m" "may_access P m type va" "user_translate_at P (vms m) type va = (r, st)"
    "cause tf = page_fault_cause type" "badvaddr tf = va"
  shows "(\<exists>pa. r = Mapped pa) \<or> r = Page_Fault \<and> st = None
    \<and> (\<exists>s'. handle_trap P no_pf_filter no_trap_filter fssr tf (vms m) = (Running s', tf)
         \<and> machine_ok P \<lparr>vms = s', retrying = Some (type, va)\<rparr>
         \<and> user_view P s' = user_view P (vms m) \<and> tohost s' = tohost (vms m))"
proof -
  obtain fr fl free where r: "vm_rep P fr fl free (pend_page m) (vms m)" using assms(1) by (auto simp: machine_ok_def)
  have ta: "test_va P va" using assms(2) by (simp add: may_access_def)
  then have va: "user_va va" by (simp add: test_va_def)
  have cases: "(\<exists>pa. r = Mapped pa) \<or> r = Page_Fault"
    using assms(3) user_translate_none [OF r va, of type] user_translate_mapped [OF r va, of _ type]
    by (cases "fr (unat va div 4096)") (auto split: if_splits)
  show ?thesis
  proof (cases "r = Page_Fault")
    case True
    obtain s' fr' fl' free' where h: "st = None" "handle_fault P no_pf_filter va (page_fault_cause type) (vms m) = Running s'"
        "vm_rep P fr' fl' free' (Some (unat va div 4096)) s'" "user_view P s' = user_view P (vms m)" "tohost s' = tohost (vms m)"
      by (rule fault_result [OF r ta may_access_pend [OF assms(2)] assms(3) [unfolded True]])
    then show ?thesis
      using True assms(4,5) handle_trap_page_fault [OF assms(4)] by (auto simp: machine_ok_def pend_page_def)
  qed (use cases in blast)
qed

theorem vm_page_fault_handled_witness:
  "\<exists>s'. handle_trap demo_platform no_pf_filter no_trap_filter 0
      \<lparr>gpr = (\<lambda>_. 0), sr = 0, epc = 0, badvaddr = 0x1234, cause = CAUSE_STORE_PAGE_FAULT\<rparr> (vms demo_machine)
    = (Running s', \<lparr>gpr = (\<lambda>_. 0), sr = 0, epc = 0, badvaddr = 0x1234, cause = CAUSE_STORE_PAGE_FAULT\<rparr>)"
proof -
  obtain s' free where s': "vm_boot demo_platform id 0x80000000 demo_reset
      = (Running s', \<lparr>gpr = (\<lambda>_. 0), sr = 0, epc = 0x80000000 - DRAM_BASE, badvaddr = 0, cause = 0\<rparr>)"
      "vm_rep demo_platform (\<lambda>_. None) (\<lambda>_. 0) free None s'"
    by (rule vm_boot_result [OF demo_ok, where satp_warl = id and test_addr = "0x80000000"]) auto
  have m: "vms demo_machine = s'" by (simp add: demo_machine_def s'(1))
  have "user_translate_at demo_platform (vms demo_machine) STORE 0x1234 = (Page_Fault, None)"
    unfolding m by (rule user_translate_none [OF s'(2)]) (simp_all add: user_va_def)
  from vm_page_fault_handled [OF demo_machine_boot(2) demo_access(2) this,
      of "\<lparr>gpr = (\<lambda>_. 0), sr = 0, epc = 0, badvaddr = 0x1234, cause = CAUSE_STORE_PAGE_FAULT\<rparr>" 0] show ?thesis
    by (auto simp: page_fault_cause_def)
qed




section \<open>Exit\<close>

text \<open>C10: On the ecall of a test handle_trap evicts all pages without a failed assertion and
  without touching a page that holds objects of the environment, so that every other
  physical page of the image holds what the test saw at its virtual address, and sends the
  32-bit code, sign-extended, to the host.\<close>

theorem vm_exit_writes_back:
  assumes "machine_ok P m" "retrying m = None" "cause tf = CAUSE_USER_ECALL"
  shows "\<exists>s'. handle_trap P no_pf_filter no_trap_filter fssr tf (vms m) = (Terminated s', tf)
    \<and> (\<forall>va. test_va P va \<longrightarrow> mem s' (DRAM_BASE + va) = user_view P (vms m) va)
    \<and> tohost s' = tohost (vms m) @ [scast (ucast (gpr tf 10) :: 32 word)]"
  by (rule exit_result [OF assms, where fssr = fssr]) (auto simp: user_view_def test_va_def)

theorem vm_exit_writes_back_witness:
  "\<exists>m s'. machine_run demo_platform 0 demo_machine [Fault, Fault, Fault, Wrote 0x1234 0xAB, Read LOAD 0x1234 0xAB] m
    \<and> handle_trap demo_platform no_pf_filter no_trap_filter 0
      \<lparr>gpr = (\<lambda>_. 1), sr = 0, epc = 0, badvaddr = 0, cause = CAUSE_USER_ECALL\<rparr> (vms m)
    = (Terminated s', \<lparr>gpr = (\<lambda>_. 1), sr = 0, epc = 0, badvaddr = 0, cause = CAUSE_USER_ECALL\<rparr>)
    \<and> mem s' 0x80001234 = 0xAB \<and> tohost s' = [1]"
proof -
  obtain m where m: "machine_run demo_platform 0 demo_machine [Fault, Fault, Fault, Wrote 0x1234 0xAB, Read LOAD 0x1234 0xAB] m"
      "retrying m = None"
    by (rule demo_run)
  have ok: "machine_ok demo_platform m" by (rule vm.run_inv [OF m(1) demo_machine_boot(2)])
  have v: "user_view demo_platform (vms m) 0x1234 = 0xAB"
    using vm.run_flat [OF m(1) demo_machine_boot(2)] by (auto simp: flat_write_def dest: sym)
  have t: "tohost (vms m) = []" using machine_run_tohost [OF m(1) demo_machine_boot(2)] demo_machine_boot(4) by simp
  have c: "cause \<lparr>gpr = (\<lambda>_. 1), sr = 0, epc = 0, badvaddr = 0, cause = CAUSE_USER_ECALL\<rparr> = CAUSE_USER_ECALL" by simp
  show ?thesis
    using vm_exit_writes_back [OF ok m(2) c, of 0] m(1) v t demo_access(1) by (fastforce simp: spec [of _ "0x1234"])
qed

text \<open>C1: A whole test on the virtual-memory environment: boot from reset, any run of the test
  (every access through the page walk, every fault through handle_trap) that keeps off the
  pages where the objects and stacks of the environment lie, then an ecall. The events are
  those of a flat memory initialised with the test image, at the end the physical pages of
  the image, those pages apart, hold what the test wrote, and the only value sent to the
  host is the test code.\<close>

theorem vm_test_end_to_end:
  assumes "platform_ok P" "at_reset s" "vm_boot P id test_addr s = (Running s0, tf0)"
    "machine_run P fssr \<lparr>vms = s0, retrying = None\<rparr> es m" "retrying m = None" "cause tf = CAUSE_USER_ECALL"
  shows "\<exists>\<mu> s'. flat_run es (\<lambda>va. if test_va P va then mem s (DRAM_BASE + va) else 0) = Some \<mu>
    \<and> handle_trap P no_pf_filter no_trap_filter fssr tf (vms m) = (Terminated s', tf)
    \<and> (\<forall>va. test_va P va \<longrightarrow> mem s' (DRAM_BASE + va) = \<mu> va)
    \<and> tohost s' = tohost s @ [scast (ucast (gpr tf 10) :: 32 word)]"
proof -
  obtain s1 free where b: "vm_boot P id test_addr s
      = (Running s1, \<lparr>gpr = (\<lambda>_. 0), sr = 0, epc = test_addr - DRAM_BASE, badvaddr = 0, cause = 0\<rparr>)"
      "vm_rep P (\<lambda>_. None) (\<lambda>_. 0) free None s1" "mem s1 = mem s" "tohost s1 = tohost s" "user_mapping s1 = user_mapping s"
    by (rule vm_boot_result [OF assms(1,2), where satp_warl = id and test_addr = test_addr]) auto
  have s1: "s1 = s0" using assms(3) b(1) by simp
  have ok: "machine_ok P \<lparr>vms = s0, retrying = None\<rparr>" using b(2) by (auto simp: s1 machine_ok_def pend_page_def)
  have v0: "user_view P s0 = (\<lambda>va. if test_va P va then mem s (DRAM_BASE + va) else 0)"
    using assms(2) b(3,5) user_va_index unfolding s1 by (auto simp: fun_eq_iff user_view_def test_va_def umem_def at_reset_def)
  note run = vm.run_inv [OF assms(4) ok] vm.run_flat [OF assms(4) ok]
  obtain s' where s': "handle_trap P no_pf_filter no_trap_filter fssr tf (vms m) = (Terminated s', tf)"
      "\<And>va. user_va va \<Longrightarrow> mem s' (DRAM_BASE + va) = umem (vms m) va"
      "tohost s' = tohost (vms m) @ [scast (ucast (gpr tf 10) :: 32 word)]"
    by (rule exit_result [OF run(1) assms(5,6), where fssr = fssr]) blast
  have "tohost (vms m) = tohost s" using machine_run_tohost [OF assms(4) ok] b(4) s1 by simp
  then show ?thesis
    using run(2) s' v0 by (intro exI [of _ "user_view P (vms m)"] exI [of _ s']) (auto simp: user_view_def test_va_def)
qed


theorem vm_test_end_to_end_witness:
  "\<exists>s0 tf0 m s'. vm_boot demo_platform id 0x80000000 demo_reset = (Running s0, tf0)
    \<and> machine_run demo_platform 0 \<lparr>vms = s0, retrying = None\<rparr>
        [Fault, Fault, Fault, Wrote 0x1234 0xAB, Read LOAD 0x1234 0xAB] m
    \<and> handle_trap demo_platform no_pf_filter no_trap_filter 0
        \<lparr>gpr = (\<lambda>_. 1), sr = 0, epc = 0, badvaddr = 0, cause = CAUSE_USER_ECALL\<rparr> (vms m)
      = (Terminated s', \<lparr>gpr = (\<lambda>_. 1), sr = 0, epc = 0, badvaddr = 0, cause = CAUSE_USER_ECALL\<rparr>)
    \<and> mem s' 0x80001234 = 0xAB \<and> mem s' 0x80001235 = 0 \<and> tohost s' = [1]"
proof -
  obtain tf0 where b: "vm_boot demo_platform id 0x80000000 demo_reset = (Running (vms demo_machine), tf0)"
    using demo_machine_boot(1) by blast
  have d: "\<lparr>vms = vms demo_machine, retrying = None\<rparr> = demo_machine" using demo_machine_boot(3) by simp
  obtain m where run: "machine_run demo_platform 0 \<lparr>vms = vms demo_machine, retrying = None\<rparr>
      [Fault, Fault, Fault, Wrote 0x1234 0xAB, Read LOAD 0x1234 0xAB] m" "retrying m = None"
    unfolding d by (rule demo_run)
  let ?tf = "\<lparr>gpr = (\<lambda>_. 1), sr = 0, epc = 0, badvaddr = 0, cause = CAUSE_USER_ECALL\<rparr> :: trapframe_t"
  have c: "cause ?tf = CAUSE_USER_ECALL" by simp
  obtain \<mu> s' where e: "flat_run [Fault, Fault, Fault, Wrote 0x1234 0xAB, Read LOAD 0x1234 0xAB]
        (\<lambda>va. if test_va demo_platform va then mem demo_reset (DRAM_BASE + va) else 0) = Some \<mu>"
      "handle_trap demo_platform no_pf_filter no_trap_filter 0 ?tf (vms m) = (Terminated s', ?tf)"
      "\<forall>va. test_va demo_platform va \<longrightarrow> mem s' (DRAM_BASE + va) = \<mu> va"
      "tohost s' = tohost demo_reset @ [scast (ucast (gpr ?tf 10) :: 32 word)]"
    using vm_test_end_to_end [OF demo_ok b run c] by blast
  have z: "(\<lambda>va. if test_va demo_platform va then mem demo_reset (DRAM_BASE + va) else 0) = (\<lambda>va. 0)" "tohost demo_reset = []"
    by (simp_all add: demo_reset_def cong: if_cong)
  have \<mu>: "\<mu> 0x1234 = 0xAB" "\<mu> 0x1235 = 0" using e(1) unfolding z by (auto simp: flat_write_def dest: sym)
  have "test_va demo_platform 0x1235"
    by (simp add: test_va_def test_page_def dram_page_def demo_platform_def user_va_def)
  then have "mem s' 0x80001234 = 0xAB" "mem s' 0x80001235 = 0"
    using e(3) [rule_format, OF demo_access(1)] e(3) [rule_format, of "0x1235"] \<mu> by simp_all
  then show ?thesis using b run(1) e(2,4) z(2) by auto
qed

section \<open>Assertions\<close>

lemma fold_cputchar: "fold cputchar msg s = s\<lparr>tohost := tohost s @ map (\<lambda>c. 0x0101000000000000 OR of_char c) msg\<rparr>"
  by (induction msg arbitrary: s) (simp_all add: cputchar_def do_tohost_def)

definition failed_assertion :: "string \<Rightarrow> vm_state \<Rightarrow> outcome" where
  "failed_assertion msg s = Terminated (s\<lparr>tohost := tohost s
     @ map (\<lambda>c. 0x0101000000000000 OR of_char c) (''Assertion failed: '' @ msg @ [CHR 0x0A]) @ [3]\<rparr>)"

lemma vm_assert_result: "vm_assert b msg s = (if b then Running s else failed_assertion msg s)"
  by (simp only: vm_assert_def failed_assertion_def terminate_def do_tohost_def cputstring_def fold_cputchar)
    (simp add: scast_eq)

text \<open>C39: A page fault outside the test region, an unexpected cause and a misaligned illegal
  instruction end in the failed assertion of the code: its message, character by character,
  then code 3.\<close>

theorem vm_errors:
  "(\<not> user_va va \<longrightarrow> handle_fault P pf_filter va why s
      = failed_assertion ''addr >= (1UL << 12) && addr < ((1 << 6)-1) * (1UL << 12)'' s)
    \<and> (cause tf \<notin> {CAUSE_USER_ECALL, CAUSE_ILLEGAL_INSTRUCTION, CAUSE_FETCH_PAGE_FAULT, CAUSE_LOAD_PAGE_FAULT,
        CAUSE_STORE_PAGE_FAULT} \<longrightarrow>
      handle_trap P pf_filter no_trap_filter fssr tf s = (failed_assertion ''!\"unexpected exception\"'' s, tf))
    \<and> (cause tf = CAUSE_ILLEGAL_INSTRUCTION \<and> epc tf mod 4 \<noteq> 0 \<longrightarrow>
      handle_trap P pf_filter no_trap_filter fssr tf s = (failed_assertion ''tf->epc % 4 == 0'' s, tf))"
proof (intro conjI impI)
  show "handle_fault P pf_filter va why s = failed_assertion ''addr >= (1UL << 12) && addr < ((1 << 6)-1) * (1UL << 12)'' s"
    if "\<not> user_va va"
  proof -
    have r: "(PGSIZE \<le> va \<and> va < of_nat 63 * PGSIZE) = False" using that by (auto simp: user_va_def word_le_nat_alt word_less_nat_alt)
    show ?thesis by (simp only: handle_fault_def vm_assert_result r if_False failed_assertion_def and_then.simps)
  qed
qed (simp_all add: handle_trap_def no_trap_filter_def vm_assert_result failed_assertion_def)

theorem vm_errors_witness:
  "handle_fault demo_platform no_pf_filter 0x10 CAUSE_LOAD_PAGE_FAULT demo_reset
      = failed_assertion ''addr >= (1UL << 12) && addr < ((1 << 6)-1) * (1UL << 12)'' demo_reset
    \<and> fst (handle_trap demo_platform no_pf_filter no_trap_filter 0
        \<lparr>gpr = (\<lambda>_. 1), sr = 0, epc = 0, badvaddr = 0, cause = 5\<rparr> demo_reset)
      = failed_assertion ''!\"unexpected exception\"'' demo_reset"
  using vm_errors [of "0x10" demo_platform no_pf_filter CAUSE_LOAD_PAGE_FAULT demo_reset
      "\<lparr>gpr = (\<lambda>_. 1), sr = 0, epc = 0, badvaddr = 0, cause = 5\<rparr>" 0]
  by (simp add: user_va_def)

section \<open>A latent defect of evict\<close>

text \<open>
  \<open>evict\<close> zeroes the frame address before it puts the node on the free list, and leaves the page's
  entry in the last-level table: the frame is lost and the page stays mapped.  Nothing runs after
  it in this environment, since \<open>handle_trap\<close> calls it only to exit.
\<close>

lemma evict_loses_frame:
  assumes "vm_rep P fr fl free None s" "fr i = Some f"
  shows "\<exists>s'. evict P (of_nat i * PGSIZE) s = Running s' \<and> freelist_tail s' = User_Mapping i
    \<and> addr (deref s' (freelist_tail s')) = 0 \<and> pt s' 3 i = pt s 3 i \<and> pt s' 3 i \<noteq> 0
    \<and> (\<forall>j < 4096. mem s' (pg i j) = mem s (pg f j))"
proof -
  note f = rep_frame [OF assms]
  obtain M where M: "evict P (of_nat i * PGSIZE) s = Running (release i (s\<lparr>mem := M\<rparr>))"
      "\<And>k j. k < 0x10000 \<Longrightarrow> j < 4096 \<Longrightarrow> M (pg k j) = (if k = i then mem s (pg f j) else mem s (pg k j))"
    by (rule evict_mapped [OF assms refl refl refl refl]) (rule that)
  let ?s = "release i (s\<lparr>mem := M\<rparr>)"
  have "freelist_tail s \<noteq> User_Mapping i" using assms(1) by (auto simp: vm_rep_def free_rep_def split: if_splits)
  then have t: "freelist_tail ?s = User_Mapping i" "addr (deref ?s (User_Mapping i)) = 0" "pt ?s = pt s" "mem ?s = M"
    by (simp_all add: release_def Let_def set_next_def deref_def split: node_ptr.split)
  have fl: "fl i \<in> {0x1F, 0x5F, 0xDF}" and e: "pt s 3 i = mk_pte (frame_ppn f) (fl i)"
    using f(5) by (auto simp: page_rep_def)
  have "pt s 3 i \<noteq> 0"
    unfolding e using mk_pte_nonzero [of "fl i" "frame_ppn f"] flags_ok(1,2) [OF fl] frame_ppn_less [of f] f by simp
  then show ?thesis using M t f by (intro exI [of _ ?s]) simp
qed

lemma evict_loses_frame_witness:
  "\<exists>s s'. evict demo_platform (of_nat 1 * PGSIZE) s = Running s' \<and> freelist_tail s' = User_Mapping 1
    \<and> addr (deref s' (freelist_tail s')) = 0"
proof -
  obtain fr fl free s f where r: "vm_rep demo_platform fr fl free None s" "fr 1 = Some f" "fl 1 = 0x5F"
    by (rule demo_mapped)
  show ?thesis using evict_loses_frame [OF r(1,2)] by blast
qed

end
