(* ===== verification/Spike_Devices.thy ===== *)
theory Spike_Devices
  imports Prelude
begin

text \<open>
  What the devices of the instruction-set simulator share (\<open>devices.h\<close>): the two helpers that
  move a memory-mapped register to and from the bytes of an access.  The template parameter
  \<open>T\<close> is the word type, \<open>sizeof(T)\<close> its length divided by eight.
\<close>

section \<open>Registers and bytes\<close>

definition write_little_endian_reg :: "'a::len word \<Rightarrow> u64 \<Rightarrow> nat \<Rightarrow> u8 list \<Rightarrow> 'a word" where
  "write_little_endian_reg w addr len bytes =
     fold (\<lambda>i w. let shift = 8 * (unat (addr + of_nat i) mod (LENGTH('a) div 8))
                 in (w AND NOT (push_bit shift 0xFF)) OR push_bit shift (ucast (bytes ! i)))
          [0..<len] w"

definition read_little_endian_reg :: "'a::len word \<Rightarrow> u64 \<Rightarrow> nat \<Rightarrow> u8 list" where
  "read_little_endian_reg w addr len =
     map (\<lambda>i. ucast (drop_bit (8 * (unat (addr + of_nat i) mod (LENGTH('a) div 8))) w)) [0..<len]"

lemma length_read_little_endian_reg [simp]: "length (read_little_endian_reg w addr len) = len"
  by (simp add: read_little_endian_reg_def)

lemma unat_add_mod_pow2:
  fixes a :: u64
  assumes "k dvd 2 ^ 64"
  shows "unat (a + of_nat i) mod k = (unat a + i) mod k"
proof -
  have "unat (a + of_nat i) = (unat a + i) mod 2 ^ 64"
    by (simp add: unat_word_ariths mod_simps take_bit_eq_mod unat_of_nat)
  then show ?thesis using assms by (simp add: mod_mod_cancel)
qed

lemma read_little_endian_reg_offset:
  assumes "LENGTH('a) = 8 * k" "k dvd 2 ^ 64" "unat addr mod k = unat addr' mod k"
  shows "read_little_endian_reg (w :: 'a::len word) addr len = read_little_endian_reg w addr' len"
  using assms by (simp add: read_little_endian_reg_def unat_add_mod_pow2) (metis mod_add_left_eq)

lemma bit_set_byte:
  fixes w :: "'a::len word" and b :: u8
  assumes n: "n < LENGTH('a)"
  shows "bit ((w AND NOT (push_bit (8 * p) 0xFF)) OR push_bit (8 * p) (ucast b)) n
         \<longleftrightarrow> (if p = n div 8 then bit b (n mod 8) else bit w n)"
proof -
  have m: "(0xFF :: 'a word) = mask 8" by (simp add: mask_eq_exp_minus_1)
  have "bit (push_bit (8 * p) (0xFF :: 'a word)) n \<longleftrightarrow> p = n div 8"
    unfolding m using n by (auto simp: bit_push_bit_iff bit_mask_iff)
  moreover have "bit (push_bit (8 * p) (ucast b :: 'a word)) n \<longleftrightarrow> p = n div 8 \<and> bit b (n mod 8)"
  proof (cases "p = n div 8")
    case True
    then have "n - 8 * p = n mod 8" by (simp add: minus_mult_div_eq_mod)
    then show ?thesis using n True by (auto simp: bit_push_bit_iff bit_unsigned_iff)
  next
    case False
    then have "8 * p \<le> n \<Longrightarrow> 8 \<le> n - 8 * p" by linarith
    then show ?thesis using False by (auto simp: bit_push_bit_iff bit_unsigned_iff dest: bit_imp_le_length)
  qed
  ultimately show ?thesis using n by (auto simp: bit_or_iff bit_and_iff bit_not_iff)
qed

text \<open>Each byte written is the byte of the register it lands on; the others keep their value.\<close>

lemma bit_write_little_endian_reg:
  fixes w :: "'a::len word"
  assumes k: "LENGTH('a) = 8 * k" "k dvd 2 ^ 64" "len \<le> k" "length bytes \<ge> len" and n: "n < LENGTH('a)"
  shows "bit (write_little_endian_reg w addr len bytes) n \<longleftrightarrow>
         (if \<exists>i<len. (unat addr + i) mod k = n div 8
          then \<exists>i<len. (unat addr + i) mod k = n div 8 \<and> bit (bytes ! i) (n mod 8) else bit w n)"
  using k(3,4)
proof (induction len)
  case 0 then show ?case by (simp add: write_little_endian_reg_def)
next
  case (Suc l)
  have s: "unat (addr + of_nat l) mod (LENGTH('a) div 8) = (unat addr + l) mod k"
    using k(1,2) by (simp add: unat_add_mod_pow2)
  let ?p = "(unat addr + l) mod k"
  have inj: "i = l" if "i < Suc l" "(unat addr + i) mod k = ?p" for i
  proof (rule ccontr)
    assume "i \<noteq> l"
    then have "i < l" "l < k" using that Suc.prems by auto
    have "k dvd (unat addr + l) - (unat addr + i)"
      using that(2) by (metis mod_eq_dvd_iff_nat nat_add_left_cancel_le \<open>i < l\<close> less_imp_le)
    then show False using \<open>i < l\<close> \<open>l < k\<close> by (simp add: nat_dvd_not_less)
  qed
  have "write_little_endian_reg w addr (Suc l) bytes =
        (write_little_endian_reg w addr l bytes AND NOT (push_bit (8 * ?p) 0xFF))
          OR push_bit (8 * ?p) (ucast (bytes ! l))"
    unfolding write_little_endian_reg_def upt_Suc_append [OF le0] fold_append
      comp_apply fold_simps Let_def s ..
  then have "bit (write_little_endian_reg w addr (Suc l) bytes) n =
        (if ?p = n div 8 then bit (bytes ! l) (n mod 8)
         else bit (write_little_endian_reg w addr l bytes) n)"
    using n by (simp only: bit_set_byte)
  note step = this
  show ?case
  proof (cases "?p = n div 8")
    case True
    then have "i = l" if "i < Suc l" "(unat addr + i) mod k = n div 8" for i
      using inj that by simp
    then show ?thesis using True step by (metis lessI)
  next
    case False
    then have "(\<exists>i<Suc l. (unat addr + i) mod k = n div 8 \<and> P i) \<longleftrightarrow>
               (\<exists>i<l. (unat addr + i) mod k = n div 8 \<and> P i)" for P
      by (metis less_Suc_eq)
    note this [of "\<lambda>_. True"] this [of "\<lambda>i. bit (bytes ! i) (n mod 8)"]
    then show ?thesis using False step Suc.IH Suc.prems by simp blast
  qed
qed

lemma write_read_little_endian_reg:
  fixes v w :: "'a::len word"
  assumes k: "LENGTH('a) = 8 * k" "k dvd 2 ^ 64"
  shows "write_little_endian_reg w addr k (read_little_endian_reg v addr k) = v"
proof (rule bit_word_eqI)
  fix n assume n: "n < LENGTH('a)"
  then have "n div 8 < k" using k by auto
  have "0 < k" using \<open>n div 8 < k\<close> by simp
  have "\<exists>i<k. (unat addr + i) mod k = n div 8"
  proof -
    let ?i = "(n div 8 + k - unat addr mod k) mod k"
    have "(unat addr + ?i) mod k = (unat addr mod k + (n div 8 + k - unat addr mod k)) mod k"
      by (simp add: mod_simps)
    also have "\<dots> = (n div 8 + k) mod k"
      using \<open>0 < k\<close> by (metis le_add_diff_inverse mod_less_divisor less_imp_le trans_le_add2)
    finally show ?thesis using \<open>n div 8 < k\<close> \<open>0 < k\<close> by (intro exI [of _ ?i]) simp
  qed
  moreover have "bit (read_little_endian_reg v addr k ! i) (n mod 8) = bit v n"
    if "i < k" "(unat addr + i) mod k = n div 8" for i
  proof -
    have "unat (addr + of_nat i) mod (LENGTH('a) div 8) = n div 8"
      using that k by (simp add: unat_add_mod_pow2)
    then show ?thesis using that n by (simp add: read_little_endian_reg_def bit_simps)
  qed
  ultimately show "bit (write_little_endian_reg w addr k (read_little_endian_reg v addr k)) n = bit v n"
    using n k by (subst bit_write_little_endian_reg [of k]) auto
qed

lemma write_read_reg32 [simp]:
  "write_little_endian_reg (w :: u32) addr 4 (read_little_endian_reg v addr 4) = v"
  by (rule write_read_little_endian_reg) simp_all

lemma write_read_reg64 [simp]:
  "write_little_endian_reg (w :: u64) addr 8 (read_little_endian_reg v addr 8) = v"
  by (rule write_read_little_endian_reg) simp_all

end
