(* ===== verification/Spike_Memory.thy ===== *)
theory Spike_Memory
  imports Spike_Devices
begin

text \<open>
  The memory of the instruction-set simulator: \<open>mem_t\<close>, a sparse memory whose 4 KiB pages are
  allocated on first use, and \<open>bus_t\<close>, which finds the device of an address (\<open>devices.cc\<close>),
  with \<open>rom_device_t\<close> (\<open>rom.cc\<close>).  The \<open>char *\<close> that \<open>contents\<close> returns is a page number and
  an offset into the page, which \<open>calloc\<close> has filled with zeros and which is never freed while
  the memory is in use.  Memory-mapped devices other than memories and ROMs are the values of a
  type parameter, with their virtual \<open>load\<close> and \<open>store\<close> as arguments of the bus's operations.
\<close>

section \<open>Sparse memory\<close>

abbreviation (input) PGSIZE :: nat where "PGSIZE \<equiv> 4096"

record mem_t =
  sparse_memory_map :: "u64 \<Rightarrow> u8 list option"
  sz :: u64

text \<open>The constructor, which throws for a size that is not a positive multiple of a page.\<close>

definition new_mem_t :: "u64 \<Rightarrow> mem_t option" where
  "new_mem_t bytes =
     (if bytes = 0 \<or> unat bytes mod PGSIZE \<noteq> 0 then None
      else Some \<lparr>sparse_memory_map = (\<lambda>_. None), sz = bytes\<rparr>)"

definition contents :: "u64 \<Rightarrow> mem_t \<Rightarrow> mem_t \<times> u64 \<times> nat" where
  "contents addr m =
     (let ppn = drop_bit 12 addr; pgoff = unat addr mod PGSIZE
      in case sparse_memory_map m ppn of
           None \<Rightarrow> (m\<lparr>sparse_memory_map := (sparse_memory_map m)(ppn \<mapsto> replicate PGSIZE 0)\<rparr>, ppn, pgoff)
         | Some page \<Rightarrow> (m, ppn, pgoff))"

text \<open>\<open>memcpy\<close> from and to the page a pointer of \<open>contents\<close> points into.\<close>

definition read_host :: "mem_t \<Rightarrow> u64 \<times> nat \<Rightarrow> nat \<Rightarrow> u8 list" where
  "read_host m p n = take n (drop (snd p) (case sparse_memory_map m (fst p) of Some page \<Rightarrow> page | None \<Rightarrow> []))"

definition write_host :: "u64 \<times> nat \<Rightarrow> u8 list \<Rightarrow> mem_t \<Rightarrow> mem_t" where
  "write_host p bytes m =
     (case sparse_memory_map m (fst p) of
        None \<Rightarrow> m
      | Some page \<Rightarrow> m\<lparr>sparse_memory_map := (sparse_memory_map m)
          (fst p \<mapsto> take (snd p) page @ bytes @ drop (snd p + length bytes) page)\<rparr>)"

text \<open>The loop of \<open>load_store\<close>, for loads and for stores.\<close>

function mem_load_loop :: "u64 \<Rightarrow> nat \<Rightarrow> mem_t \<Rightarrow> mem_t \<times> u8 list" where
  "mem_load_loop addr len m =
     (if len = 0 then (m, [])
      else let n = min (PGSIZE - unat addr mod PGSIZE) len;
               (m1, p) = contents addr m;
               (m2, bytes) = mem_load_loop (addr + of_nat n) (len - n) m1
           in (m2, read_host m1 p n @ bytes))"
  by auto
termination by (relation "measure (\<lambda>(addr, len, m). len)") (auto simp: not_le)

function mem_store_loop :: "u64 \<Rightarrow> u8 list \<Rightarrow> mem_t \<Rightarrow> mem_t" where
  "mem_store_loop addr bytes m =
     (if bytes = [] then m
      else let n = min (PGSIZE - unat addr mod PGSIZE) (length bytes);
               (m1, p) = contents addr m
           in mem_store_loop (addr + of_nat n) (drop n bytes) (write_host p (take n bytes) m1))"
  by auto
termination by (relation "measure (\<lambda>(addr, bytes, m). length bytes)") (auto simp: not_le)

declare mem_load_loop.simps [simp del] mem_store_loop.simps [simp del]

definition mem_range_ok :: "mem_t \<Rightarrow> u64 \<Rightarrow> nat \<Rightarrow> bool" where
  "mem_range_ok m addr len \<longleftrightarrow> \<not> (addr + of_nat len < addr \<or> addr + of_nat len > sz m)"

definition mem_load :: "u64 \<Rightarrow> nat \<Rightarrow> mem_t \<Rightarrow> mem_t \<times> bool \<times> u8 list" where
  "mem_load addr len m =
     (if mem_range_ok m addr len
      then let (m', bytes) = mem_load_loop addr len m in (m', True, bytes) else (m, False, []))"

definition mem_store :: "u64 \<Rightarrow> nat \<Rightarrow> u8 list \<Rightarrow> mem_t \<Rightarrow> mem_t \<times> bool" where
  "mem_store addr len bytes m =
     (if mem_range_ok m addr len then (mem_store_loop addr (take len bytes) m, True) else (m, False))"

section \<open>The memory as a flat array\<close>

definition mem_ok :: "mem_t \<Rightarrow> bool" where
  "mem_ok m \<longleftrightarrow> (\<forall>ppn page. sparse_memory_map m ppn = Some page \<longrightarrow> length page = PGSIZE)"

definition mem_byte :: "mem_t \<Rightarrow> u64 \<Rightarrow> u8" where
  "mem_byte m a = (case sparse_memory_map m (drop_bit 12 a) of
                     None \<Rightarrow> 0 | Some page \<Rightarrow> page ! (unat a mod PGSIZE))"

lemma div_mod_offset: "x mod k + i < k \<Longrightarrow> (x + i) div k = x div k \<and> (x + i) mod k = x mod k + (i :: nat)"
proof -
  assume a: "x mod k + i < k"
  have "x + i = x div k * k + (x mod k + i)" by simp
  then show ?thesis using a by (metis div_mult_self3 div_less mod_less mod_mult_self3 add_0_right add.right_neutral less_nat_zero_code)
qed

lemma unat_page: "unat (drop_bit 12 (a :: u64)) = unat a div PGSIZE"
  by (simp add: drop_bit_eq_div unat_div_distrib)

lemma page_of:
  assumes "i < PGSIZE - unat a mod PGSIZE"
  shows "unat ((a :: u64) + of_nat i) = unat a + i"
    and "drop_bit 12 (a + of_nat i) = drop_bit 12 a"
    and "unat (a + of_nat i) mod PGSIZE = unat a mod PGSIZE + i"
proof -
  have d: "unat a = PGSIZE * (unat a div PGSIZE) + unat a mod PGSIZE" by simp
  have "unat a div PGSIZE < 4503599627370496" using unat_lt_64 [of a] by (simp add: div_less_iff_less_mult)
  then have "unat a + i < 18446744073709551616" using assms d by linarith
  then show u: "unat (a + of_nat i) = unat a + i"
    by (simp add: unat_word_ariths unat_of_nat mod_simps take_bit_eq_mod)
  have m: "(unat a + i) div PGSIZE = unat a div PGSIZE \<and> (unat a + i) mod PGSIZE = unat a mod PGSIZE + i"
    by (rule div_mod_offset) (use assms in linarith)
  show "drop_bit 12 (a + of_nat i) = drop_bit 12 a"
    using m unfolding word_unat_eq_iff unat_page u by simp
  show "unat (a + of_nat i) mod PGSIZE = unat a mod PGSIZE + i" using u m by simp
qed

lemma contents_props:
  assumes "mem_ok m" "contents a m = (m', p)"
  shows "mem_ok m'" "sz m' = sz m" "mem_byte m' = mem_byte m" "p = (drop_bit 12 a, unat a mod PGSIZE)"
    "\<exists>page. sparse_memory_map m' (drop_bit 12 a) = Some page \<and> length page = PGSIZE"
  using assms
  by (auto simp: contents_def Let_def mem_ok_def mem_byte_def fun_eq_iff split: option.splits if_splits)

lemma read_contents:
  assumes "mem_ok m" "contents a m = (m', p)" "n \<le> PGSIZE - unat a mod PGSIZE"
  shows "read_host m' p n = map (\<lambda>i. mem_byte m (a + of_nat i)) [0..<n]"
proof -
  note c = contents_props [OF assms(1,2)]
  obtain page where page: "sparse_memory_map m' (drop_bit 12 a) = Some page" "length page = PGSIZE" using c(5) by blast
  show ?thesis
  proof (rule nth_equalityI)
    show "length (read_host m' p n) = length (map (\<lambda>i. mem_byte m (a + of_nat i)) [0..<n])"
      using page assms(3) by (simp add: read_host_def c(4))
  next
    fix i assume "i < length (read_host m' p n)"
    then have i: "i < n" by (simp add: read_host_def)
    then have i': "i < PGSIZE - unat a mod PGSIZE" using assms(3) by simp
    have "mem_byte m' (a + of_nat i) = page ! (unat a mod PGSIZE + i)"
      by (simp add: mem_byte_def page_of(2,3) [OF i'] page(1))
    then show "read_host m' p n ! i = map (\<lambda>i. mem_byte m (a + of_nat i)) [0..<n] ! i"
      using i page assms(3) by (simp add: read_host_def c(3,4) add.commute)
  qed
qed

lemma mem_load_loop_bytes:
  assumes "mem_ok m" "mem_load_loop addr len m = (m', bytes)"
  shows "bytes = map (\<lambda>i. mem_byte m (addr + of_nat i)) [0..<len] \<and> mem_byte m' = mem_byte m \<and> mem_ok m' \<and> sz m' = sz m"
  using assms
proof (induction addr len m arbitrary: m' bytes rule: mem_load_loop.induct)
  case (1 addr len m)
  show ?case
  proof (cases "len = 0")
    case True then show ?thesis using "1.prems" by (simp add: mem_load_loop.simps)
  next
    case False
    define n where "n = min (PGSIZE - unat addr mod PGSIZE) len"
    obtain m1 p where c: "contents addr m = (m1, p)" by (metis prod.exhaust)
    obtain bs where r: "mem_load_loop (addr + of_nat n) (len - n) m1 = (m', bs)"
      and b: "bytes = read_host m1 p n @ bs"
      using "1.prems"(2) False c by (subst (asm) mem_load_loop.simps) (auto simp: n_def Let_def split: prod.splits)
    note k = contents_props [OF "1.prems"(1) c]
    have ih: "bs = map (\<lambda>i. mem_byte m1 (addr + of_nat n + of_nat i)) [0..<len - n] \<and> mem_byte m' = mem_byte m1 \<and> mem_ok m' \<and> sz m' = sz m1"
      using "1.IH" [OF False n_def c [symmetric] refl k(1) r] by blast
    have "n \<le> len" by (simp add: n_def)
    then have "[0..<len] = [0..<n] @ map (\<lambda>i. n + i) [0..<len - n]"
      using upt_add_eq_append [of 0 n "len - n"] map_add_upt [of n "len - n"] by (simp add: add.commute)
    moreover have "read_host m1 p n = map (\<lambda>i. mem_byte m (addr + of_nat i)) [0..<n]"
      by (rule read_contents [OF "1.prems"(1) c]) (simp add: n_def)
    moreover have "map (\<lambda>i. mem_byte m (addr + of_nat i)) (map (\<lambda>i. n + i) [0..<len - n]) = bs"
      using ih by (simp add: k(3) comp_def add.assoc)
    ultimately have "bytes = map (\<lambda>i. mem_byte m (addr + of_nat i)) [0..<len]" unfolding b by (metis map_append)
    then show ?thesis using ih k(2,3) by metis
  qed
qed

lemma write_host_byte:
  assumes "mem_ok m" "contents a m = (m1, p)" "length bytes \<le> PGSIZE - unat a mod PGSIZE"
  shows "mem_ok (write_host p bytes m1)" "sz (write_host p bytes m1) = sz m"
    "mem_byte (write_host p bytes m1) b =
       (if unat (b - a) < length bytes then bytes ! unat (b - a) else mem_byte m b)"
proof -
  note c = contents_props [OF assms(1,2)]
  obtain page where page: "sparse_memory_map m1 (drop_bit 12 a) = Some page" "length page = PGSIZE" using c(5) by blast
  let ?r = "unat a mod PGSIZE" and ?l = "length bytes"
  have len: "?r + ?l \<le> PGSIZE" using assms(3) mod_less_divisor [of PGSIZE "unat a"] by simp
  have w: "write_host p bytes m1 = m1\<lparr>sparse_memory_map := (sparse_memory_map m1)
             (drop_bit 12 a \<mapsto> take ?r page @ bytes @ drop (?r + ?l) page)\<rparr>"
    using page by (simp add: write_host_def c(4))
  show "sz (write_host p bytes m1) = sz m" using c w by simp
  show "mem_ok (write_host p bytes m1)" using c(1) page len by (auto simp: mem_ok_def w)
  show "mem_byte (write_host p bytes m1) b =
       (if unat (b - a) < length bytes then bytes ! unat (b - a) else mem_byte m b)"
  proof (cases "unat (b - a) < ?l")
    case True
    let ?i = "unat (b - a)"
    have b: "b = a + of_nat ?i" by simp
    have i: "?i < PGSIZE - ?r" using True assms(3) by simp
    have at: "drop_bit 12 b = drop_bit 12 a" "unat b mod PGSIZE = ?r + ?i"
      using page_of(2,3) [OF i] b by metis+
    show ?thesis using True page len unfolding mem_byte_def w at by (simp add: nth_append)
  next
    case False
    have "(take ?r page @ bytes @ drop (?r + ?l) page) ! (unat b mod PGSIZE) = page ! (unat b mod PGSIZE)"
      if same: "drop_bit 12 b = drop_bit 12 a"
    proof (cases "unat b mod PGSIZE < ?r")
      case True then show ?thesis using page by (simp add: nth_append)
    next
      case off: False
      let ?i = "unat b mod PGSIZE - ?r"
      have "unat b div PGSIZE = unat a div PGSIZE"
        using arg_cong [OF same, of unat] by (simp only: unat_page)
      then have ub: "unat b = unat a + ?i" using off by (metis add_diff_inverse_nat div_mult_mod_eq add.assoc)
      then have "unat (b - a) = ?i" by (metis add_diff_cancel_left' le_add1 unat_sub word_le_nat_alt)
      then have "?l \<le> ?i" using False by simp
      then show ?thesis using page len off by (simp add: nth_append not_less)
    qed
    then have "mem_byte (write_host p bytes m1) b = mem_byte m1 b"
      using page by (cases "drop_bit 12 b = drop_bit 12 a") (simp_all add: mem_byte_def w)
    then show ?thesis using False by (simp add: c(3))
  qed
qed

lemma unat_minus_of_nat:
  assumes "n < 2 ^ 64"
  shows "unat ((x :: u64) - of_nat n) = (if n \<le> unat x then unat x - n else unat x + 2 ^ 64 - n)"
proof -
  have "unat (of_nat n :: u64) = n" using assms by (simp add: unat_of_nat take_bit_nat_eq_self)
  then show ?thesis by (simp add: unat_sub_if_size word_size)
qed

lemma mem_store_loop_bytes:
  assumes "mem_ok m" "length bytes \<le> 2 ^ 64"
  shows "mem_ok (mem_store_loop addr bytes m) \<and> sz (mem_store_loop addr bytes m) = sz m \<and>
         mem_byte (mem_store_loop addr bytes m) b =
           (if unat (b - addr) < length bytes then bytes ! unat (b - addr) else mem_byte m b)"
  using assms
proof (induction addr bytes m rule: mem_store_loop.induct)
  case (1 addr bytes m)
  show ?case
  proof (cases "bytes = []")
    case True then show ?thesis using "1.prems" by (simp add: mem_store_loop.simps)
  next
    case False
    define n where "n = min (PGSIZE - unat addr mod PGSIZE) (length bytes)"
    obtain m1 p where c: "contents addr m = (m1, p)" by (metis prod.exhaust)
    let ?m2 = "write_host p (take n bytes) m1"
    have n: "n \<le> length bytes" "0 < n" "n \<le> PGSIZE" "length (take n bytes) = n"
      using False by (simp_all add: n_def)
    have step: "mem_store_loop addr bytes m = mem_store_loop (addr + of_nat n) (drop n bytes) ?m2"
      using False c by (subst mem_store_loop.simps) (simp add: n_def Let_def)
    have w: "mem_ok ?m2" "sz ?m2 = sz m"
      "mem_byte ?m2 b = (if unat (b - addr) < n then take n bytes ! unat (b - addr) else mem_byte m b)" for b
      using write_host_byte [OF "1.prems"(1) c, of "take n bytes"] by (simp_all add: n_def)
    have ih: "mem_ok (mem_store_loop addr bytes m) \<and> sz (mem_store_loop addr bytes m) = sz m \<and>
         mem_byte (mem_store_loop addr bytes m) b =
           (if unat (b - (addr + of_nat n)) < length bytes - n
            then drop n bytes ! unat (b - (addr + of_nat n)) else mem_byte ?m2 b)"
      using "1.IH" [OF False n_def c [symmetric] refl w(1)] "1.prems"(2) w(2) unfolding step by simp
    have sub: "unat (b - (addr + of_nat n)) = (if n \<le> unat (b - addr) then unat (b - addr) - n else unat (b - addr) + 2 ^ 64 - n)"
      using unat_minus_of_nat [of n "b - addr"] n by (simp add: diff_diff_add)
    show ?thesis
    proof (cases "n \<le> unat (b - addr)")
      case True
      then show ?thesis using ih n by (auto simp: sub w(3) nth_append le_diff_conv2)
    next
      case below: False
      then have "\<not> unat (b - (addr + of_nat n)) < length bytes - n"
        using "1.prems"(2) n unfolding sub by (simp add: not_less)
      then show ?thesis using ih below n by (simp add: w(3))
    qed
  qed
qed

lemma mem_range_ok_iff:
  assumes "len \<le> 2 ^ 63"
  shows "mem_range_ok m addr len \<longleftrightarrow> unat addr + len < 2 ^ 64 \<and> unat addr + len \<le> unat (sz m)"
proof -
  have "unat (of_nat len :: u64) = len" using assms by (simp add: unat_of_nat take_bit_nat_eq_self)
  then have "unat (addr + of_nat len) = (if unat addr + len < 2 ^ 64 then unat addr + len else unat addr + len - 2 ^ 64)"
    using unsigned_less [of addr, where 'a = nat] assms
    by (auto simp: unat_add_lem unat_word_ariths take_bit_eq_mod mod_if)
  then show ?thesis
    using unsigned_less [of addr, where 'a = nat] assms
    by (auto simp: mem_range_ok_def word_less_nat_alt split: if_splits)
qed

text \<open>Loads and stores of the sparse memory, as a byte array of \<open>sz\<close> bytes.\<close>

lemma mem_load_spec:
  assumes "mem_ok m"
  shows "case mem_load addr len m of (m', ok, bytes) \<Rightarrow>
           mem_ok m' \<and> sz m' = sz m \<and> mem_byte m' = mem_byte m \<and> ok = mem_range_ok m addr len
           \<and> bytes = (if ok then map (\<lambda>i. mem_byte m (addr + of_nat i)) [0..<len] else [])"
  using mem_load_loop_bytes [OF assms, of addr len] assms by (auto simp: mem_load_def split: prod.splits)

lemma mem_store_spec:
  assumes "mem_ok m" "length bytes = len" "len \<le> 2 ^ 64"
  shows "case mem_store addr len bytes m of (m', ok) \<Rightarrow>
           mem_ok m' \<and> sz m' = sz m \<and> ok = mem_range_ok m addr len
           \<and> (\<forall>b. mem_byte m' b = (if ok \<and> unat (b - addr) < len then bytes ! unat (b - addr) else mem_byte m b))"
  using mem_store_loop_bytes [OF assms(1), of bytes addr] assms by (simp add: mem_store_def)

lemma mem_load_loop_dom:
  "dom (sparse_memory_map m) \<subseteq> dom (sparse_memory_map (fst (mem_load_loop addr len m)))"
proof (induction addr len m rule: mem_load_loop.induct)
  case (1 addr len m)
  show ?case
  proof (cases "len = 0")
    case True then show ?thesis by (simp add: mem_load_loop.simps)
  next
    case False
    define n where "n = min (PGSIZE - unat addr mod PGSIZE) len"
    obtain m1 p where c: "contents addr m = (m1, p)" by (metis prod.exhaust)
    have "dom (sparse_memory_map m) \<subseteq> dom (sparse_memory_map m1)"
      using c by (auto simp: contents_def Let_def split: option.splits)
    moreover have "fst (mem_load_loop addr len m) = fst (mem_load_loop (addr + of_nat n) (len - n) m1)"
      using False c by (subst mem_load_loop.simps) (simp add: n_def Let_def split: prod.split)
    ultimately show ?thesis using "1.IH" [OF False n_def c [symmetric] refl] by simp
  qed
qed

lemma mem_load_dom:
  "dom (sparse_memory_map m) \<subseteq> dom (sparse_memory_map (fst (mem_load addr len m)))"
  using mem_load_loop_dom [of m addr len] by (auto simp: mem_load_def split: prod.split)

section \<open>Read-only memory\<close>

definition rom_load :: "u64 \<Rightarrow> nat \<Rightarrow> u8 list \<Rightarrow> bool \<times> u8 list" where
  "rom_load addr len data =
     (if addr + of_nat len > of_nat (length data) then (False, []) else (True, take len (drop (unat addr) data)))"

section \<open>The bus\<close>

datatype 'io device = Memory mem_t | Rom "u8 list" | Io 'io

text \<open>A \<open>std::map\<close> is the list of its entries in the order of their keys.\<close>

type_synonym 'io bus_t = "(u64 \<times> 'io device) list"

fun add_device :: "u64 \<Rightarrow> 'io device \<Rightarrow> 'io bus_t \<Rightarrow> 'io bus_t" where
  "add_device addr dev [] = [(addr, dev)]"
| "add_device addr dev ((a, d) # ds) =
     (if addr < a then (addr, dev) # (a, d) # ds
      else if addr = a then (addr, dev) # ds
      else (a, d) # add_device addr dev ds)"

text \<open>The position of \<open>devices.upper_bound(addr)\<close>; zero is \<open>devices.begin()\<close>.\<close>

definition upper_bound :: "u64 \<Rightarrow> 'io bus_t \<Rightarrow> nat" where
  "upper_bound addr ds = length (takeWhile (\<lambda>e. fst e \<le> addr) ds)"

definition find_device :: "u64 \<Rightarrow> 'io bus_t \<Rightarrow> (u64 \<times> 'io device) option" where
  "find_device addr ds =
     (let it = upper_bound addr ds in if ds = [] \<or> it = 0 then None else Some (ds ! (it - 1)))"

text \<open>The virtual calls.\<close>

definition device_load ::
  "(u64 \<Rightarrow> nat \<Rightarrow> 'io \<Rightarrow> 'io \<times> bool \<times> u8 list) \<Rightarrow> u64 \<Rightarrow> nat \<Rightarrow> 'io device \<Rightarrow> 'io device \<times> bool \<times> u8 list" where
  "device_load io_load addr len dev =
     (case dev of
        Memory m \<Rightarrow> let (m', r) = mem_load addr len m in (Memory m', r)
      | Rom data \<Rightarrow> (dev, rom_load addr len data)
      | Io d \<Rightarrow> let (d', r) = io_load addr len d in (Io d', r))"

definition device_store ::
  "(u64 \<Rightarrow> nat \<Rightarrow> u8 list \<Rightarrow> 'io \<Rightarrow> 'io \<times> bool) \<Rightarrow> u64 \<Rightarrow> nat \<Rightarrow> u8 list \<Rightarrow> 'io device \<Rightarrow> 'io device \<times> bool" where
  "device_store io_store addr len bytes dev =
     (case dev of
        Memory m \<Rightarrow> let (m', r) = mem_store addr len bytes m in (Memory m', r)
      | Rom data \<Rightarrow> (dev, False)
      | Io d \<Rightarrow> let (d', r) = io_store addr len bytes d in (Io d', r))"

definition bus_load ::
  "(u64 \<Rightarrow> nat \<Rightarrow> 'io \<Rightarrow> 'io \<times> bool \<times> u8 list) \<Rightarrow> u64 \<Rightarrow> nat \<Rightarrow> 'io bus_t \<Rightarrow> 'io bus_t \<times> bool \<times> u8 list" where
  "bus_load io_load addr len ds =
     (let it = upper_bound addr ds
      in if ds = [] \<or> it = 0 then (ds, False, [])
         else let (base, dev) = ds ! (it - 1);
                  (dev', r) = device_load io_load (addr - base) len dev
              in (ds[it - 1 := (base, dev')], r))"

definition bus_store ::
  "(u64 \<Rightarrow> nat \<Rightarrow> u8 list \<Rightarrow> 'io \<Rightarrow> 'io \<times> bool) \<Rightarrow> u64 \<Rightarrow> nat \<Rightarrow> u8 list \<Rightarrow> 'io bus_t \<Rightarrow> 'io bus_t \<times> bool" where
  "bus_store io_store addr len bytes ds =
     (let it = upper_bound addr ds
      in if ds = [] \<or> it = 0 then (ds, False)
         else let (base, dev) = ds ! (it - 1);
                  (dev', r) = device_store io_store (addr - base) len bytes dev
              in (ds[it - 1 := (base, dev')], r))"

end
