(* ===== verification/Spike_Sim.thy ===== *)
theory Spike_Sim
  imports Spike_Memory
begin

text \<open>
  How the simulator reaches memory on behalf of the host (\<open>sim.cc\<close>, \<open>mmu.cc\<close>, \<open>mmu.h\<close>): the
  debug MMU, an \<open>mmu_t\<close> without a processor.  Without a processor translation is the identity,
  there are no triggers, no PMP and no misaligned accesses; what remains is the TLB, the pages
  of host memory it points into, and the devices on the bus.  A host pointer is the base address
  of its memory on the bus, a page number of that memory, and an offset.
\<close>

section \<open>State\<close>

record host_ptr =
  host_base :: u64
  host_ppn :: u64
  host_off :: u64

record tlb_entry_t =
  host_offset :: host_ptr
  target_offset :: u64

record 'io sim_t =
  bus :: "'io bus_t"
  tlb_insn_tag :: "u64 list"
  tlb_load_tag :: "u64 list"
  tlb_store_tag :: "u64 list"
  tlb_data :: "tlb_entry_t list"

datatype trap = Load_Access_Fault u64 | Store_Access_Fault u64
  | Load_Address_Misaligned u64 | Store_Address_Misaligned u64

abbreviation (input) TLB_ENTRIES :: nat where "TLB_ENTRIES \<equiv> 256"
abbreviation (input) TLB_CHECK_TRIGGERS :: u64 where "TLB_CHECK_TRIGGERS \<equiv> 0x8000000000000000"

text \<open>Pointer arithmetic.\<close>

definition ptr_add :: "host_ptr \<Rightarrow> u64 \<Rightarrow> host_ptr" where
  "ptr_add p d = p\<lparr>host_off := host_off p + d\<rparr>"

definition flush_tlb :: "'io sim_t \<Rightarrow> 'io sim_t" where
  "flush_tlb s = s\<lparr>tlb_insn_tag := replicate TLB_ENTRIES (- 1), tlb_load_tag := replicate TLB_ENTRIES (- 1),
                   tlb_store_tag := replicate TLB_ENTRIES (- 1)\<rparr>"

section \<open>Memory and devices behind an address\<close>

definition paddr_ok :: "u64 \<Rightarrow> bool" where
  "paddr_ok addr \<longleftrightarrow> drop_bit 56 addr = 0"

definition addr_to_mem :: "u64 \<Rightarrow> 'io sim_t \<Rightarrow> 'io sim_t \<times> host_ptr option" where
  "addr_to_mem paddr s =
     (if \<not> paddr_ok paddr then (s, None)
      else case find_device paddr (bus s) of
             Some (base, Memory m) \<Rightarrow>
               if paddr - base < sz m
               then let (m', ppn, pgoff) = contents (paddr - base) m
                    in (s\<lparr>bus := (bus s)[upper_bound paddr (bus s) - 1 := (base, Memory m')]\<rparr>,
                        Some \<lparr>host_base = base, host_ppn = ppn, host_off = of_nat pgoff\<rparr>)
               else (s, None)
           | _ \<Rightarrow> (s, None))"

definition sim_mmio_load ::
  "(u64 \<Rightarrow> nat \<Rightarrow> 'io \<Rightarrow> 'io \<times> bool \<times> u8 list) \<Rightarrow> u64 \<Rightarrow> nat \<Rightarrow> 'io sim_t \<Rightarrow> 'io sim_t \<times> bool \<times> u8 list" where
  "sim_mmio_load io_load paddr len s =
     (if paddr + of_nat len < paddr \<or> \<not> paddr_ok (paddr + of_nat len - 1) then (s, False, [])
      else let (b, r) = bus_load io_load paddr len (bus s) in (s\<lparr>bus := b\<rparr>, r))"

definition sim_mmio_store ::
  "(u64 \<Rightarrow> nat \<Rightarrow> u8 list \<Rightarrow> 'io \<Rightarrow> 'io \<times> bool) \<Rightarrow> u64 \<Rightarrow> nat \<Rightarrow> u8 list \<Rightarrow> 'io sim_t \<Rightarrow> 'io sim_t \<times> bool" where
  "sim_mmio_store io_store paddr len bytes s =
     (if paddr + of_nat len < paddr \<or> \<not> paddr_ok (paddr + of_nat len - 1) then (s, False)
      else let (b, r) = bus_store io_store paddr len bytes (bus s) in (s\<lparr>bus := b\<rparr>, r))"

text \<open>\<open>mmu_t::mmio\<close>: an access that is not a naturally aligned power of two is made byte by byte.\<close>

fun mmio_load_bytes ::
  "(u64 \<Rightarrow> nat \<Rightarrow> 'io \<Rightarrow> 'io \<times> bool \<times> u8 list) \<Rightarrow> u64 \<Rightarrow> nat \<Rightarrow> 'io sim_t \<Rightarrow> 'io sim_t \<times> bool \<times> u8 list" where
  "mmio_load_bytes io_load paddr 0 s = (s, True, [])"
| "mmio_load_bytes io_load paddr (Suc n) s =
     (let (s1, ok, b) = sim_mmio_load io_load paddr 1 s
      in if ok then let (s2, ok2, bs) = mmio_load_bytes io_load (paddr + 1) n s1 in (s2, ok2, b @ bs)
         else (s1, False, b))"

definition mmio_load ::
  "(u64 \<Rightarrow> nat \<Rightarrow> 'io \<Rightarrow> 'io \<times> bool \<times> u8 list) \<Rightarrow> u64 \<Rightarrow> nat \<Rightarrow> 'io sim_t \<Rightarrow> 'io sim_t \<times> bool \<times> u8 list" where
  "mmio_load io_load paddr len s =
     (if len AND (len - 1) = 0 \<and> paddr AND of_nat (len - 1) = 0 then sim_mmio_load io_load paddr len s
      else mmio_load_bytes io_load paddr len s)"

fun mmio_store_bytes ::
  "(u64 \<Rightarrow> nat \<Rightarrow> u8 list \<Rightarrow> 'io \<Rightarrow> 'io \<times> bool) \<Rightarrow> u64 \<Rightarrow> u8 list \<Rightarrow> 'io sim_t \<Rightarrow> 'io sim_t \<times> bool" where
  "mmio_store_bytes io_store paddr [] s = (s, True)"
| "mmio_store_bytes io_store paddr (b # bs) s =
     (let (s1, ok) = sim_mmio_store io_store paddr 1 [b] s
      in if ok then mmio_store_bytes io_store (paddr + 1) bs s1 else (s1, False))"

definition mmio_store ::
  "(u64 \<Rightarrow> nat \<Rightarrow> u8 list \<Rightarrow> 'io \<Rightarrow> 'io \<times> bool) \<Rightarrow> u64 \<Rightarrow> nat \<Rightarrow> u8 list \<Rightarrow> 'io sim_t \<Rightarrow> 'io sim_t \<times> bool" where
  "mmio_store io_store paddr len bytes s =
     (if len AND (len - 1) = 0 \<and> paddr AND of_nat (len - 1) = 0 then sim_mmio_store io_store paddr len bytes s
      else mmio_store_bytes io_store paddr (take len bytes) s)"

section \<open>The TLB\<close>

text \<open>A tag without its trigger flag.\<close>

definition tag_vpn :: "u64 \<Rightarrow> u64" where
  "tag_vpn tag = tag AND NOT TLB_CHECK_TRIGGERS"

datatype tlb_access = TLB_Load | TLB_Store

definition keep_tag :: "nat \<Rightarrow> u64 \<Rightarrow> u64 list \<Rightarrow> u64 list" where
  "keep_tag idx expected_tag tags =
     (if tag_vpn (tags ! idx) \<noteq> expected_tag then tags[idx := - 1] else tags)"

definition refill_tlb :: "u64 \<Rightarrow> u64 \<Rightarrow> host_ptr \<Rightarrow> tlb_access \<Rightarrow> 'io sim_t \<Rightarrow> 'io sim_t" where
  "refill_tlb vaddr paddr host_addr type s =
     (let idx = unat (drop_bit 12 vaddr) mod TLB_ENTRIES;
          expected_tag = drop_bit 12 vaddr;
          entry = \<lparr>host_offset = ptr_add host_addr (- vaddr), target_offset = paddr - vaddr\<rparr>;
          insn = keep_tag idx expected_tag (tlb_insn_tag s);
          load = keep_tag idx expected_tag (tlb_load_tag s);
          store = keep_tag idx expected_tag (tlb_store_tag s)
      in s\<lparr>tlb_insn_tag := insn,
           tlb_load_tag := (if type = TLB_Load then load[idx := expected_tag] else load),
           tlb_store_tag := (if type = TLB_Store then store[idx := expected_tag] else store),
           tlb_data := (tlb_data s)[idx := entry]\<rparr>)"

text \<open>\<open>memcpy\<close> through a host pointer.\<close>

fun find_memory :: "u64 \<Rightarrow> 'io bus_t \<Rightarrow> mem_t option" where
  "find_memory base [] = None"
| "find_memory base ((a, d) # ds) =
     (if a = base then case d of Memory m \<Rightarrow> Some m | _ \<Rightarrow> None else find_memory base ds)"

fun update_memory :: "u64 \<Rightarrow> (mem_t \<Rightarrow> mem_t) \<Rightarrow> 'io bus_t \<Rightarrow> 'io bus_t" where
  "update_memory base f [] = []"
| "update_memory base f ((a, d) # ds) =
     (if a = base then (a, case d of Memory m \<Rightarrow> Memory (f m) | _ \<Rightarrow> d) # ds else (a, d) # update_memory base f ds)"

definition memcpy_from :: "host_ptr \<Rightarrow> nat \<Rightarrow> 'io sim_t \<Rightarrow> u8 list" where
  "memcpy_from p len s =
     (case find_memory (host_base p) (bus s) of
        Some m \<Rightarrow> read_host m (host_ppn p, unat (host_off p)) len | None \<Rightarrow> [])"

definition memcpy_to :: "host_ptr \<Rightarrow> u8 list \<Rightarrow> 'io sim_t \<Rightarrow> 'io sim_t" where
  "memcpy_to p bytes s = s\<lparr>bus := update_memory (host_base p) (write_host (host_ppn p, unat (host_off p)) bytes) (bus s)\<rparr>"

section \<open>Loads and stores\<close>

definition load_slow_path_intrapage ::
  "(u64 \<Rightarrow> nat \<Rightarrow> 'io \<Rightarrow> 'io \<times> bool \<times> u8 list) \<Rightarrow> u64 \<Rightarrow> nat \<Rightarrow> 'io sim_t \<Rightarrow> 'io sim_t \<times> (trap + u8 list)" where
  "load_slow_path_intrapage io_load addr len s =
     (let vpn = drop_bit 12 addr; idx = unat vpn mod TLB_ENTRIES
      in if vpn = tag_vpn (tlb_load_tag s ! idx)
         then (s, Inr (memcpy_from (ptr_add (host_offset (tlb_data s ! idx)) addr) len s))
         else case addr_to_mem addr s of
                (s1, Some host_addr) \<Rightarrow>
                  let bytes = memcpy_from host_addr len s1
                  in (refill_tlb addr addr host_addr TLB_Load s1, Inr bytes)
              | (s1, None) \<Rightarrow>
                  let (s2, ok, bytes) = mmio_load io_load addr len s1
                  in (s2, if ok then Inr bytes else Inl (Load_Access_Fault addr)))"

definition load_slow_path ::
  "(u64 \<Rightarrow> nat \<Rightarrow> 'io \<Rightarrow> 'io \<times> bool \<times> u8 list) \<Rightarrow> u64 \<Rightarrow> nat \<Rightarrow> 'io sim_t \<Rightarrow> 'io sim_t \<times> (trap + u8 list)" where
  "load_slow_path io_load addr len s =
     (if addr AND of_nat (len - 1) = 0 then load_slow_path_intrapage io_load addr len s
      else (s, Inl (Load_Address_Misaligned addr)))"

definition mmu_load ::
  "(u64 \<Rightarrow> nat \<Rightarrow> 'io \<Rightarrow> 'io \<times> bool \<times> u8 list) \<Rightarrow> u64 \<Rightarrow> nat \<Rightarrow> 'io sim_t \<Rightarrow> 'io sim_t \<times> (trap + u8 list)" where
  "mmu_load io_load addr len s =
     (let vpn = drop_bit 12 addr; idx = unat vpn mod TLB_ENTRIES
      in if addr AND of_nat (len - 1) = 0 \<and> tlb_load_tag s ! idx = vpn
         then (s, Inr (memcpy_from (ptr_add (host_offset (tlb_data s ! idx)) addr) len s))
         else load_slow_path io_load addr len s)"

definition store_slow_path_intrapage ::
  "(u64 \<Rightarrow> nat \<Rightarrow> u8 list \<Rightarrow> 'io \<Rightarrow> 'io \<times> bool) \<Rightarrow> u64 \<Rightarrow> nat \<Rightarrow> u8 list \<Rightarrow> 'io sim_t \<Rightarrow> 'io sim_t \<times> (trap + unit)" where
  "store_slow_path_intrapage io_store addr len bytes s =
     (let vpn = drop_bit 12 addr; idx = unat vpn mod TLB_ENTRIES
      in if vpn = tag_vpn (tlb_store_tag s ! idx)
         then (memcpy_to (ptr_add (host_offset (tlb_data s ! idx)) addr) (take len bytes) s, Inr ())
         else case addr_to_mem addr s of
                (s1, Some host_addr) \<Rightarrow>
                  (refill_tlb addr addr host_addr TLB_Store (memcpy_to host_addr (take len bytes) s1), Inr ())
              | (s1, None) \<Rightarrow>
                  let (s2, ok) = mmio_store io_store addr len bytes s1
                  in (s2, if ok then Inr () else Inl (Store_Access_Fault addr)))"

definition store_slow_path ::
  "(u64 \<Rightarrow> nat \<Rightarrow> u8 list \<Rightarrow> 'io \<Rightarrow> 'io \<times> bool) \<Rightarrow> u64 \<Rightarrow> nat \<Rightarrow> u8 list \<Rightarrow> 'io sim_t \<Rightarrow> 'io sim_t \<times> (trap + unit)" where
  "store_slow_path io_store addr len bytes s =
     (if addr AND of_nat (len - 1) \<noteq> 0 then (s, Inl (Store_Address_Misaligned addr))
      else store_slow_path_intrapage io_store addr len bytes s)"

definition mmu_store ::
  "(u64 \<Rightarrow> nat \<Rightarrow> u8 list \<Rightarrow> 'io \<Rightarrow> 'io \<times> bool) \<Rightarrow> u64 \<Rightarrow> nat \<Rightarrow> u8 list \<Rightarrow> 'io sim_t \<Rightarrow> 'io sim_t \<times> (trap + unit)" where
  "mmu_store io_store addr len bytes s =
     (let vpn = drop_bit 12 addr; idx = unat vpn mod TLB_ENTRIES
      in if addr AND of_nat (len - 1) = 0 \<and> tlb_store_tag s ! idx = vpn
         then (memcpy_to (ptr_add (host_offset (tlb_data s ! idx)) addr) (take len bytes) s, Inr ())
         else store_slow_path io_store addr len bytes s)"

section \<open>The flat memory behind the bus\<close>

text \<open>The byte of RAM at a physical address, \<open>None\<close> where there is no RAM.\<close>

definition sim_byte :: "'io bus_t \<Rightarrow> u64 \<Rightarrow> u8 option" where
  "sim_byte ds a =
     (if paddr_ok a
      then case find_device a ds of
             Some (base, Memory m) \<Rightarrow> if a - base < sz m then Some (mem_byte m (a - base)) else None
           | _ \<Rightarrow> None
      else None)"

text \<open>Devices start at page boundaries, memories are well-formed and of whole pages.\<close>

definition device_ok :: "u64 \<times> 'io device \<Rightarrow> bool" where
  "device_ok e \<longleftrightarrow> unat (fst e) mod PGSIZE = 0 \<and>
     (case snd e of Memory m \<Rightarrow> mem_ok m \<and> unat (sz m) mod PGSIZE = 0 | _ \<Rightarrow> True)"

definition bus_ok :: "'io bus_t \<Rightarrow> bool" where
  "bus_ok ds \<longleftrightarrow> sorted_wrt (<) (map fst ds) \<and> (\<forall>e\<in>set ds. device_ok e)"

text \<open>What the operations keep of the devices: their places, kinds and sizes, and the pages
  already allocated.\<close>

fun same_device :: "'io device \<Rightarrow> 'io device \<Rightarrow> bool" where
  "same_device (Memory m) (Memory m') \<longleftrightarrow>
     sz m' = sz m \<and> mem_ok m' \<and> dom (sparse_memory_map m) \<subseteq> dom (sparse_memory_map m')"
| "same_device (Rom r) (Rom r') \<longleftrightarrow> r' = r"
| "same_device (Io d) (Io d') \<longleftrightarrow> True"
| "same_device _ _ \<longleftrightarrow> False"

definition same_bus :: "'io bus_t \<Rightarrow> 'io bus_t \<Rightarrow> bool" where
  "same_bus ds ds' \<longleftrightarrow> list_all2 (\<lambda>e e'. fst e' = fst e \<and> same_device (snd e) (snd e')) ds ds'"

lemma upper_bound_le: "upper_bound a ds \<le> length ds"
  by (simp add: upper_bound_def length_takeWhile_le)

lemma find_device_Some:
  assumes "find_device a ds = Some (base, d)"
  shows "upper_bound a ds - 1 < length ds" "ds ! (upper_bound a ds - 1) = (base, d)" "base \<le> a" "(base, d) \<in> set ds"
    "ds \<noteq> []" "upper_bound a ds \<noteq> 0"
proof -
  let ?k = "upper_bound a ds"
  have k: "?k \<noteq> 0" "ds \<noteq> []" and at: "ds ! (?k - 1) = (base, d)"
    using assms by (auto simp: find_device_def Let_def split: if_splits)
  then show lt: "?k - 1 < length ds" and "ds ! (?k - 1) = (base, d)" "ds \<noteq> []" "?k \<noteq> 0"
    using upper_bound_le [of a ds] by auto
  have "takeWhile (\<lambda>e. fst e \<le> a) ds ! (?k - 1) \<in> set (takeWhile (\<lambda>e. fst e \<le> a) ds)"
    by (rule nth_mem) (use k in \<open>simp add: upper_bound_def\<close>)
  moreover have "takeWhile (\<lambda>e. fst e \<le> a) ds ! (?k - 1) = ds ! (?k - 1)"
    by (rule takeWhile_nth) (use k in \<open>simp add: upper_bound_def\<close>)
  ultimately show "base \<le> a" using at by (auto dest: set_takeWhileD)
  show "(base, d) \<in> set ds" using at lt by (metis nth_mem)
qed

lemma keys_mono:
  fixes ds :: "'io bus_t"
  assumes "sorted_wrt (<) (map fst ds)" "i \<le> j" "j < length ds"
  shows "fst (ds ! i) \<le> fst (ds ! j)"
  using assms by (cases "i = j") (auto simp: sorted_wrt_iff_nth_less less_imp_le)

text \<open>The device of an address is the one with the greatest base that is not above it.\<close>

lemma find_device_greatest:
  assumes "find_device a ds = Some (base, d)" "sorted_wrt (<) (map fst ds)" "e \<in> set ds" "fst e \<le> a"
  shows "fst e \<le> base"
proof -
  let ?k = "upper_bound a ds"
  obtain j where j: "j < length ds" "e = ds ! j" using assms(3) by (auto simp: in_set_conv_nth)
  note f = find_device_Some [OF assms(1)]
  have "j < ?k"
  proof (rule ccontr)
    assume "\<not> j < ?k"
    then have k: "?k \<le> j" by simp
    then have "\<not> fst (ds ! ?k) \<le> a" using nth_length_takeWhile [of "\<lambda>e. fst e \<le> a" ds] j by (simp add: upper_bound_def)
    moreover have "fst (ds ! ?k) \<le> fst (ds ! j)"
      using keys_mono [OF assms(2) k j(1)] .
    ultimately show False using j assms(4) by auto
  qed
  then have "j \<le> ?k - 1" by simp
  then show ?thesis using keys_mono [OF assms(2) _ f(1)] j f(2) by fastforce
qed

lemma find_device_eqI:
  assumes "sorted_wrt (<) (map fst ds)" "(base, d) \<in> set ds" "base \<le> a"
    and "\<And>e. e \<in> set ds \<Longrightarrow> fst e \<le> a \<Longrightarrow> fst e \<le> base"
  shows "find_device a ds = Some (base, d)"
proof -
  have "ds \<noteq> []" using assms(2) by auto
  moreover have "upper_bound a ds \<noteq> 0"
  proof
    assume "upper_bound a ds = 0"
    then have hd: "\<not> fst (ds ! 0) \<le> a" using \<open>ds \<noteq> []\<close> nth_length_takeWhile [of "\<lambda>e. fst e \<le> a" ds] by (simp add: upper_bound_def)
    obtain j where "j < length ds" "(base, d) = ds ! j" using assms(2) by (auto simp: in_set_conv_nth)
    then have "fst (ds ! 0) \<le> base"
      using keys_mono [OF assms(1), of 0 j] by (metis fst_conv le0)
    then show False using hd assms(3) by auto
  qed
  moreover obtain b d' where "ds ! (upper_bound a ds - 1) = (b, d')" by (metis surj_pair)
  ultimately have f: "find_device a ds = Some (b, d')" by (simp add: find_device_def)
  have "b = base"
    using find_device_greatest [OF f assms(1,2)] assms(3) assms(4) [of "(b, d')"] find_device_Some(3,4) [OF f]
    by (simp add: order.antisym)
  then have "d' = d" using assms(1,2) find_device_Some(4) [OF f]
    by (metis eq_key_imp_eq_value strict_sorted_iff)
  then show ?thesis using f \<open>b = base\<close> by simp
qed

text \<open>Offsets within a page.\<close>

lemma page_aligned_le:
  assumes "unat (base :: u64) mod PGSIZE = 0" "drop_bit 12 a = drop_bit 12 a'"
  shows "base \<le> a \<longleftrightarrow> base \<le> (a' :: u64)"
proof -
  have "unat a div PGSIZE = unat a' div PGSIZE" using arg_cong [OF assms(2), of unat] by (simp only: unat_page)
  moreover obtain q where "unat base = q * PGSIZE" using assms(1) by (metis mod_0_imp_dvd dvd_def mult.commute)
  ultimately show ?thesis by (simp add: word_le_nat_alt flip: less_eq_div_iff_mult_less_eq)
qed

lemma page_aligned_less:
  assumes "unat (z :: u64) mod PGSIZE = 0" "drop_bit 12 a = drop_bit 12 a'"
  shows "a < z \<longleftrightarrow> (a' :: u64) < z"
  using page_aligned_le [OF assms] by (meson not_le)

lemma minus_mult_div_mod:
  assumes "q * k \<le> n" "0 < (k :: nat)"
  shows "(n - q * k) mod k = n mod k" "(n - q * k) div k = n div k - q"
proof -
  obtain m where "n = q * k + m" using assms(1) le_Suc_ex by blast
  then show "(n - q * k) mod k = n mod k" "(n - q * k) div k = n div k - q" using assms(2) by simp_all
qed

lemma offset_page:
  assumes "unat (base :: u64) mod PGSIZE = 0" "base \<le> a"
  shows "unat (a - base) mod PGSIZE = unat a mod PGSIZE"
    and "unat (drop_bit 12 (a - base)) = unat (drop_bit 12 a) - unat (drop_bit 12 base)"
proof -
  obtain q where q: "unat base = q * PGSIZE" using assms(1) by (metis mod_0_imp_dvd dvd_def mult.commute)
  have u: "unat (a - base) = unat a - unat base" using assms(2) by (simp add: unat_sub word_le_nat_alt)
  have le: "q * PGSIZE \<le> unat a" using assms(2) q by (simp add: word_le_nat_alt)
  show "unat (a - base) mod PGSIZE = unat a mod PGSIZE"
    unfolding u q by (rule minus_mult_div_mod(1) [OF le]) simp
  show "unat (drop_bit 12 (a - base)) = unat (drop_bit 12 a) - unat (drop_bit 12 base)"
    unfolding unat_page u q using minus_mult_div_mod(2) [OF le] by simp
qed

lemma same_page_offset:
  assumes "unat (base :: u64) mod PGSIZE = 0" "base \<le> a" "drop_bit 12 a = drop_bit 12 a'"
  shows "drop_bit 12 (a' - base) = drop_bit 12 (a - base)"
  using offset_page(2) [OF assms(1,2)] offset_page(2) [OF assms(1), of a'] page_aligned_le [OF assms(1,3)] assms(2,3)
  by (simp add: word_unat_eq_iff)

lemma paddr_ok_page: "drop_bit 12 a = drop_bit 12 a' \<Longrightarrow> paddr_ok a = paddr_ok a'"
proof -
  have "drop_bit 56 x = drop_bit 44 (drop_bit 12 x)" for x :: u64 by simp
  then show "drop_bit 12 a = drop_bit 12 a' \<Longrightarrow> paddr_ok a = paddr_ok a'" by (metis paddr_ok_def)
qed

lemma find_device_page:
  assumes "bus_ok ds" "find_device a ds = Some (base, d)" "drop_bit 12 a = drop_bit 12 a'"
  shows "find_device a' ds = Some (base, d)"
proof (rule find_device_eqI)
  note f = find_device_Some [OF assms(2)]
  have al: "e \<in> set ds \<Longrightarrow> unat (fst e) mod PGSIZE = 0" for e using assms(1) by (simp add: bus_ok_def device_ok_def)
  show sorted: "sorted_wrt (<) (map fst ds)" using assms(1) by (simp add: bus_ok_def)
  show "(base, d) \<in> set ds" by (rule f(4))
  show "base \<le> a'" using page_aligned_le [OF _ assms(3), of base] al [OF f(4)] f(3) by simp
  show "fst e \<le> base" if "e \<in> set ds" "fst e \<le> a'" for e
    using find_device_greatest [OF assms(2) sorted that(1)] page_aligned_le [OF al [OF that(1)] assms(3)] that by simp
qed

section \<open>Replacing a device\<close>

lemma distinct_keys: "bus_ok ds \<Longrightarrow> distinct (map fst ds)"
  by (simp add: bus_ok_def strict_sorted_iff)

lemma upper_bound_map: "upper_bound a (map (\<lambda>(b, d). (b, g b d)) ds) = upper_bound a ds"
  unfolding upper_bound_def by (induction ds) auto

lemma find_device_map:
  "find_device a (map (\<lambda>(b, d). (b, g b d)) ds) = map_option (\<lambda>(b, d). (b, g b d)) (find_device a ds)"
proof (cases "ds = [] \<or> upper_bound a ds = 0")
  case False
  then have "upper_bound a ds - 1 < length ds" using upper_bound_le [of a ds] by (cases ds) auto
  then show ?thesis using False by (simp add: find_device_def upper_bound_map split: prod.split)
qed (auto simp: find_device_def upper_bound_map)

lemma update_device:
  assumes "distinct (map fst ds)" "k < length ds" "ds ! k = (base, d)"
  shows "ds[k := (base, x)] = map (\<lambda>(b, d). (b, if b = base then x else d)) ds"
proof (rule nth_equalityI)
  fix i assume i: "i < length (ds[k := (base, x)])"
  have "fst (ds ! i) = base \<longleftrightarrow> i = k"
    using assms i by (metis (no_types, lifting) distinct_conv_nth fst_conv length_list_update length_map nth_map)
  then show "ds[k := (base, x)] ! i = map (\<lambda>(b, d). (b, if b = base then x else d)) ds ! i"
    using i by (cases "ds ! i") (auto simp: nth_list_update)
qed simp

lemma find_memory_mem:
  "distinct (map fst ds) \<Longrightarrow> (base, Memory m) \<in> set ds \<Longrightarrow> find_memory base ds = Some m"
  by (induction base ds rule: find_memory.induct) (auto simp: rev_image_eqI)

lemma update_memory_map:
  assumes "distinct (map fst ds)" "(base, Memory m) \<in> set ds"
  shows "update_memory base f ds = map (\<lambda>(b, d). (b, if b = base then Memory (f m) else d)) ds"
  using assms
proof (induction base f ds rule: update_memory.induct)
  case (2 base f a d ds)
  show ?case
  proof (cases "a = base")
    case True
    then have "base \<notin> fst ` set ds" "d = Memory m" using "2.prems" by (auto simp: rev_image_eqI)
    then have "map (\<lambda>(b, d). (b, if b = base then Memory (f m) else d)) ds = ds"
      by (intro map_idI) (auto simp: rev_image_eqI)
    then show ?thesis using True \<open>d = Memory m\<close> by simp
  next
    case False then show ?thesis using 2 by auto
  qed
qed simp

lemma same_bus_map:
  assumes "\<And>b d. (b, d) \<in> set ds \<Longrightarrow> same_device d (g b d)"
  shows "same_bus ds (map (\<lambda>(b, d). (b, g b d)) ds)"
  using assms unfolding same_bus_def list_all2_map2 list_all2_same by auto

lemma same_device_refl:
  assumes "device_ok (b, d)" shows "same_device d d"
  using assms by (cases d) (simp_all add: device_ok_def)

lemma same_bus_refl: "bus_ok ds \<Longrightarrow> same_bus ds ds"
  using same_device_refl unfolding same_bus_def bus_ok_def list_all2_same by (metis prod.collapse)

lemma same_device_trans: "same_device d1 d2 \<Longrightarrow> same_device d2 d3 \<Longrightarrow> same_device d1 d3"
  by (cases d1; cases d2; cases d3) auto

lemma same_bus_trans: "same_bus ds1 ds2 \<Longrightarrow> same_bus ds2 ds3 \<Longrightarrow> same_bus ds1 ds3"
  unfolding same_bus_def list_all2_conv_all_nth using same_device_trans by fastforce

lemma same_bus_upper_bound: "same_bus ds ds' \<Longrightarrow> upper_bound a ds' = upper_bound a ds"
  unfolding upper_bound_def same_bus_def by (induction rule: list_all2_induct) auto

lemma same_bus_keys: "same_bus ds ds' \<Longrightarrow> map fst ds' = map fst ds"
  unfolding same_bus_def by (induction rule: list_all2_induct) auto

lemma same_bus_ok:
  assumes "bus_ok ds" "same_bus ds ds'"
  shows "bus_ok ds'"
proof -
  have "device_ok e'" if e': "e' \<in> set ds'" for e'
  proof -
    obtain i where i: "i < length ds'" "e' = ds' ! i" using e' by (auto simp: in_set_conv_nth)
    then have s: "fst e' = fst (ds ! i)" "same_device (snd (ds ! i)) (snd e')" "i < length ds"
      using assms(2) by (auto simp: same_bus_def list_all2_conv_all_nth)
    then have "device_ok (ds ! i)" using assms(1) by (simp add: bus_ok_def)
    then show ?thesis using s by (cases "snd (ds ! i)"; cases "snd e'") (auto simp: device_ok_def)
  qed
  then show ?thesis using assms same_bus_keys [OF assms(2)] by (simp add: bus_ok_def)
qed

lemma same_bus_find:
  assumes "same_bus ds ds'" "find_device a ds = Some (b, d)"
  obtains d' where "find_device a ds' = Some (b, d')" "same_device d d'"
proof -
  note f = find_device_Some [OF assms(2)]
  let ?k = "upper_bound a ds - 1"
  have "fst (ds' ! ?k) = b" "same_device d (snd (ds' ! ?k))" "ds' \<noteq> []"
    using assms(1) f by (auto simp: same_bus_def list_all2_conv_all_nth)
  then have "find_device a ds' = Some (b, snd (ds' ! ?k))"
    using f(6) by (auto simp: find_device_def same_bus_upper_bound [OF assms(1)] Let_def)
  then show ?thesis using \<open>same_device d (snd (ds' ! ?k))\<close> by (rule that)
qed

section \<open>Host pointers\<close>

text \<open>The host pointer of an address: the byte of RAM behind it, on an allocated page.\<close>

definition points_to :: "'io bus_t \<Rightarrow> u64 \<Rightarrow> host_ptr \<Rightarrow> bool" where
  "points_to ds a p \<longleftrightarrow> paddr_ok a \<and> host_off p = of_nat (unat a mod PGSIZE) \<and>
     (\<exists>m. find_device a ds = Some (host_base p, Memory m) \<and> a - host_base p < sz m
          \<and> host_ppn p = drop_bit 12 (a - host_base p) \<and> host_ppn p \<in> dom (sparse_memory_map m))"

lemma points_to_same_bus:
  assumes "same_bus ds ds'" "points_to ds a p"
  shows "points_to ds' a p"
proof -
  obtain m where m: "find_device a ds = Some (host_base p, Memory m)" "a - host_base p < sz m"
    "host_ppn p = drop_bit 12 (a - host_base p)" "host_ppn p \<in> dom (sparse_memory_map m)"
    using assms(2) unfolding points_to_def by blast
  obtain d' where "find_device a ds' = Some (host_base p, d')" "same_device (Memory m) d'"
    by (rule same_bus_find [OF assms(1) m(1)])
  then show ?thesis using m assms(2) by (cases d') (auto simp: points_to_def)
qed

lemma bus_ok_memory:
  assumes "bus_ok ds" "find_device a ds = Some (base, Memory m)"
  shows "unat base mod PGSIZE = 0" "mem_ok m" "unat (sz m) mod PGSIZE = 0" "base \<le> a"
  using assms(1) find_device_Some(3,4) [OF assms(2)] by (auto simp: bus_ok_def device_ok_def)

lemma word_page_off:
  fixes a a' :: u64
  assumes "drop_bit 12 a = drop_bit 12 a'"
  shows "of_nat (unat a mod PGSIZE) + (a' - a) = (of_nat (unat a' mod PGSIZE) :: u64)"
proof -
  have x: "x = of_nat (unat x div PGSIZE * PGSIZE) + of_nat (unat x mod PGSIZE)" for x :: u64
    unfolding of_nat_add [symmetric] by simp
  have "unat a div PGSIZE = unat a' div PGSIZE" using arg_cong [OF assms, of unat] by (simp only: unat_page)
  then have "a' - a = of_nat (unat a' mod PGSIZE) - of_nat (unat a mod PGSIZE)"
    using x [of a] x [of a'] by (metis add_diff_cancel_left)
  then show ?thesis by simp
qed

lemma points_to_page:
  assumes "bus_ok ds" "points_to ds a p" "drop_bit 12 a = drop_bit 12 a'"
  shows "points_to ds a' (ptr_add p (a' - a))"
proof -
  obtain m where m: "find_device a ds = Some (host_base p, Memory m)" "a - host_base p < sz m"
    "host_ppn p = drop_bit 12 (a - host_base p)" "host_ppn p \<in> dom (sparse_memory_map m)"
    using assms(2) unfolding points_to_def by blast
  note ok = bus_ok_memory [OF assms(1) m(1)]
  have same: "drop_bit 12 (a' - host_base p) = drop_bit 12 (a - host_base p)"
    by (rule same_page_offset [OF ok(1,4) assms(3)])
  show ?thesis
    using assms(2) m find_device_page [OF assms(1) m(1) assms(3)] page_aligned_less [OF ok(3) same]
      paddr_ok_page [OF assms(3)] word_page_off [OF assms(3)] same
    by (simp add: points_to_def ptr_add_def)
qed

lemma unat_page_off: "unat (of_nat (unat (a :: u64) mod PGSIZE) :: u64) = unat a mod PGSIZE"
proof -
  have "unat a mod PGSIZE < PGSIZE" by simp
  then show ?thesis by (simp add: unat_of_nat take_bit_nat_eq_self)
qed

text \<open>Within the page, a copy from a host pointer reads the RAM behind the address.\<close>

lemma memcpy_from_bytes:
  assumes ok: "bus_ok (bus s)" and p: "points_to (bus s) a p" and len: "len \<le> PGSIZE - unat a mod PGSIZE"
  shows "map Some (memcpy_from p len s) = map (\<lambda>i. sim_byte (bus s) (a + of_nat i)) [0..<len]"
proof -
  obtain m page where m: "find_device a (bus s) = Some (host_base p, Memory m)" "a - host_base p < sz m"
    "host_ppn p = drop_bit 12 (a - host_base p)" "sparse_memory_map m (host_ppn p) = Some page"
    using p by (auto simp: points_to_def)
  note k = bus_ok_memory [OF ok m(1)]
  let ?o = "a - host_base p"
  have pg: "unat ?o mod PGSIZE = unat a mod PGSIZE" by (rule offset_page(1) [OF k(1,4)])
  have c: "contents ?o m = (m, host_ppn p, unat a mod PGSIZE)"
    using m(3,4) pg by (simp add: contents_def Let_def)
  have "find_memory (host_base p) (bus s) = Some m"
    by (rule find_memory_mem [OF distinct_keys [OF ok] find_device_Some(4) [OF m(1)]])
  moreover have "unat (host_off p) = unat a mod PGSIZE" using p unat_page_off by (simp add: points_to_def)
  ultimately have r: "memcpy_from p len s = map (\<lambda>i. mem_byte m (?o + of_nat i)) [0..<len]"
    using read_contents [OF k(2) c, of len] len pg by (simp add: memcpy_from_def)
  have "sim_byte (bus s) (a + of_nat i) = Some (mem_byte m (?o + of_nat i))" if "i < len" for i
  proof -
    have i: "i < PGSIZE - unat a mod PGSIZE" "i < PGSIZE - unat ?o mod PGSIZE" using that len pg by simp_all
    note same = page_of(2) [OF i(1), symmetric]
    have e: "a + of_nat i - host_base p = ?o + of_nat i" by simp
    have "?o + of_nat i < sz m"
      using page_aligned_less [OF k(3) page_of(2) [OF i(2), symmetric]] m(2) by simp
    then show ?thesis
      using find_device_page [OF ok m(1) same] paddr_ok_page [OF same] p by (simp add: sim_byte_def points_to_def e)
  qed
  then show ?thesis unfolding r by simp
qed

text \<open>A copy to a host pointer updates the RAM behind the address, and nothing else.\<close>

lemma memcpy_to_bytes:
  assumes ok: "bus_ok (bus s)" and p: "points_to (bus s) a p" and len: "length bytes \<le> PGSIZE - unat a mod PGSIZE"
  shows "same_bus (bus s) (bus (memcpy_to p bytes s))"
    "sim_byte (bus (memcpy_to p bytes s)) b =
       (if unat (b - a) < length bytes then Some (bytes ! unat (b - a)) else sim_byte (bus s) b)"
proof -
  obtain m page where m: "find_device a (bus s) = Some (host_base p, Memory m)" "a - host_base p < sz m"
    "host_ppn p = drop_bit 12 (a - host_base p)" "sparse_memory_map m (host_ppn p) = Some page"
    using p by (auto simp: points_to_def)
  note k = bus_ok_memory [OF ok m(1)]
  let ?o = "a - host_base p" and ?m' = "write_host (host_ppn p, unat (host_off p)) bytes m"
  have pg: "unat ?o mod PGSIZE = unat a mod PGSIZE" by (rule offset_page(1) [OF k(1,4)])
  have off: "unat (host_off p) = unat a mod PGSIZE" using p unat_page_off by (simp add: points_to_def)
  have c: "contents ?o m = (m, host_ppn p, unat (host_off p))"
    using m(3,4) pg off by (simp add: contents_def Let_def)
  have len': "length bytes \<le> PGSIZE - unat ?o mod PGSIZE" using len pg by simp
  note w = write_host_byte [OF k(2) c len']
  have mem: "(host_base p, Memory m) \<in> set (bus s)" by (rule find_device_Some(4) [OF m(1)])
  note dist = distinct_keys [OF ok]
  have bus: "bus (memcpy_to p bytes s) = map (\<lambda>(b, d). (b, if b = host_base p then Memory ?m' else d)) (bus s)"
    using update_memory_map [OF dist mem] by (simp add: memcpy_to_def)
  have dev: "(host_base p, d) \<in> set (bus s) \<Longrightarrow> d = Memory m" for d
    using dist mem by (metis eq_key_imp_eq_value)
  have refl: "same_device d d" if "(b, d) \<in> set (bus s)" for b d
    using that ok same_device_refl by (auto simp: bus_ok_def)
  have wr: "same_device (Memory m) (Memory ?m')"
    using w(1,2) m(4) by (auto simp: write_host_def split: option.split)
  show "same_bus (bus s) (bus (memcpy_to p bytes s))"
    unfolding bus
  proof (rule same_bus_map)
    fix b d assume "(b, d) \<in> set (bus s)"
    then show "same_device d (if b = host_base p then Memory ?m' else d)"
      using dev [of d] refl wr by (cases "b = host_base p") (simp_all del: same_device.simps)
  qed
  show "sim_byte (bus (memcpy_to p bytes s)) b =
       (if unat (b - a) < length bytes then Some (bytes ! unat (b - a)) else sim_byte (bus s) b)"
  proof (cases "unat (b - a) < length bytes")
    case True
    let ?i = "unat (b - a)"
    have b: "b = a + of_nat ?i" by simp
    have i: "?i < PGSIZE - unat a mod PGSIZE" "?i < PGSIZE - unat ?o mod PGSIZE" using True len pg by simp_all
    have same: "drop_bit 12 a = drop_bit 12 b" using page_of(2) [OF i(1)] b by metis
    have "b - host_base p = ?o + of_nat ?i" by simp
    then have "b - host_base p < sz m"
      using page_aligned_less [OF k(3) page_of(2) [OF i(2), symmetric]] m(2) by metis
    moreover have "b - host_base p - ?o = b - a" by simp
    ultimately show ?thesis
      using True find_device_page [OF ok m(1) same] paddr_ok_page [OF same] p w
      by (simp add: sim_byte_def bus find_device_map points_to_def)
  next
    case False
    show ?thesis
    proof (cases "find_device b (bus s)")
      case None then show ?thesis using False by (simp add: sim_byte_def bus find_device_map)
    next
      case (Some e)
      obtain base d where e: "e = (base, d)" by (cases e)
      show ?thesis
      proof (cases "base = host_base p")
        case True
        then have "d = Memory m" using dev find_device_Some(4) Some e by metis
        moreover have "b - host_base p - ?o = b - a" by simp
        ultimately show ?thesis using True False Some e w by (simp add: sim_byte_def bus find_device_map)
      next
        case ne: False
        then show ?thesis using False Some e by (simp add: sim_byte_def bus find_device_map)
      qed
    qed
  qed
qed

section \<open>The TLB agrees with the bus\<close>

text \<open>An entry whose tag matches the page of an address leads to the RAM behind that address.\<close>

definition tlb_ok :: "'io sim_t \<Rightarrow> bool" where
  "tlb_ok s \<longleftrightarrow>
     length (tlb_insn_tag s) = TLB_ENTRIES \<and> length (tlb_load_tag s) = TLB_ENTRIES
     \<and> length (tlb_store_tag s) = TLB_ENTRIES \<and> length (tlb_data s) = TLB_ENTRIES
     \<and> (\<forall>addr. let vpn = drop_bit 12 addr; idx = unat vpn mod TLB_ENTRIES in
          tag_vpn (tlb_load_tag s ! idx) = vpn \<or> tag_vpn (tlb_store_tag s ! idx) = vpn
          \<longrightarrow> points_to (bus s) addr (ptr_add (host_offset (tlb_data s ! idx)) addr))"

definition sim_ok :: "'io sim_t \<Rightarrow> bool" where
  "sim_ok s \<longleftrightarrow> bus_ok (bus s) \<and> tlb_ok s"

lemma bit_tag_vpn: "bit (tag_vpn t) n \<longleftrightarrow> bit t n \<and> n \<noteq> 63"
proof -
  have e: "TLB_CHECK_TRIGGERS = 2 ^ 63" by simp
  show ?thesis unfolding tag_vpn_def e bit_and_iff bit_not_iff bit_exp_iff
    by (auto dest: bit_imp_le_length)
qed

lemma vpn_tag: "tag_vpn (drop_bit 12 (a :: u64)) = drop_bit 12 a"
  by (rule bit_word_eqI) (auto simp: bit_tag_vpn bit_drop_bit_eq dest: bit_imp_le_length)

lemma flushed_tag: "tag_vpn (- 1) \<noteq> drop_bit 12 (a :: u64)"
proof
  assume "tag_vpn (- 1) = drop_bit 12 a"
  then have "bit (tag_vpn (- 1)) 62 = bit (drop_bit 12 a) 62" by simp
  moreover have "\<not> bit (drop_bit 12 a) 62" by (auto simp: bit_drop_bit_eq dest: bit_imp_le_length)
  ultimately show False by (simp add: bit_tag_vpn)
qed

lemma flush_tlb_ok: "tlb_data s = d \<Longrightarrow> length d = TLB_ENTRIES \<Longrightarrow> tlb_ok (flush_tlb s)"
  using flushed_tag unfolding tlb_ok_def flush_tlb_def Let_def by (simp)

lemma tlb_ok_entry:
  assumes "tlb_ok s" "tag_vpn (tlb_load_tag s ! (unat (drop_bit 12 a) mod TLB_ENTRIES)) = drop_bit 12 a
     \<or> tag_vpn (tlb_store_tag s ! (unat (drop_bit 12 a) mod TLB_ENTRIES)) = drop_bit 12 a"
  shows "points_to (bus s) a (ptr_add (host_offset (tlb_data s ! (unat (drop_bit 12 a) mod TLB_ENTRIES))) a)"
  using assms unfolding tlb_ok_def Let_def by blast

lemma tlb_ok_same_bus: "tlb_ok s \<Longrightarrow> same_bus (bus s) b \<Longrightarrow> tlb_ok (s\<lparr>bus := b\<rparr>)"
  using points_to_same_bus unfolding tlb_ok_def Let_def by (simp add: points_to_same_bus)

lemma ptr_add_add [simp]: "ptr_add (ptr_add p d) e = ptr_add p (d + e)" "ptr_add p 0 = p"
  by (simp_all add: ptr_add_def add.assoc)

lemma keep_tag_length [simp]: "length (keep_tag i t tags) = length tags"
  by (simp add: keep_tag_def)

lemma keep_tag_nth:
  "i < length tags \<Longrightarrow> keep_tag i t tags ! j = (if j = i \<and> tag_vpn (tags ! i) \<noteq> t then - 1 else tags ! j)"
  by (auto simp: keep_tag_def nth_list_update)

lemma refill_tlb_ok:
  assumes tlb: "tlb_ok s" and bus: "bus_ok (bus s)" and p: "points_to (bus s) a p"
  shows "tlb_ok (refill_tlb a a p type s)"
proof -
  let ?s = "refill_tlb a a p type s" and ?idx = "unat (drop_bit 12 a) mod TLB_ENTRIES"
  have len: "length (tlb_insn_tag s) = TLB_ENTRIES" "length (tlb_load_tag s) = TLB_ENTRIES"
     "length (tlb_store_tag s) = TLB_ENTRIES" "length (tlb_data s) = TLB_ENTRIES"
    using tlb by (simp_all add: tlb_ok_def)
  have idx: "?idx < TLB_ENTRIES" by simp
  have bus_s: "bus ?s = bus s" by (simp add: refill_tlb_def Let_def)
  have "points_to (bus ?s) b (ptr_add (host_offset (tlb_data ?s ! i)) b)"
    if i: "i = unat (drop_bit 12 b) mod TLB_ENTRIES"
      and hit: "tag_vpn (tlb_load_tag ?s ! i) = drop_bit 12 b \<or> tag_vpn (tlb_store_tag ?s ! i) = drop_bit 12 b"
    for b i
  proof (cases "i = ?idx")
    case True
    have data: "host_offset (tlb_data ?s ! i) = ptr_add p (- a)"
      using len True idx by (simp add: refill_tlb_def Let_def)
    have "tag_vpn (tlb_load_tag ?s ! i) \<in> {drop_bit 12 a, tag_vpn (- 1)}"
      "tag_vpn (tlb_store_tag ?s ! i) \<in> {drop_bit 12 a, tag_vpn (- 1)}"
      using len idx vpn_tag [of a] unfolding True refill_tlb_def Let_def by (cases type; simp add: keep_tag_nth)+
    then have "drop_bit 12 a = drop_bit 12 b" using hit flushed_tag [of b] by auto
    then show ?thesis using points_to_page [OF bus p] unfolding data bus_s by simp
  next
    case False
    have "tlb_load_tag ?s ! i = tlb_load_tag s ! i" "tlb_store_tag ?s ! i = tlb_store_tag s ! i" "tlb_data ?s ! i = tlb_data s ! i"
      using False len idx by (simp_all add: refill_tlb_def Let_def keep_tag_nth)
    then show ?thesis using tlb_ok_entry [OF tlb, of b] hit i bus_s by simp
  qed
  then show ?thesis using len unfolding tlb_ok_def Let_def by (simp add: refill_tlb_def Let_def)
qed

lemma addr_to_mem_ram:
  assumes ok: "bus_ok (bus s)" and ram: "sim_byte (bus s) a \<noteq> None"
  obtains p b where "addr_to_mem a s = (s\<lparr>bus := b\<rparr>, Some p)" "points_to b a p" "same_bus (bus s) b" "sim_byte b = sim_byte (bus s)"
proof -
  obtain base m where m: "paddr_ok a" "find_device a (bus s) = Some (base, Memory m)" "a - base < sz m"
    using ram by (auto simp: sim_byte_def split: if_splits option.splits device.splits prod.splits)
  note k = bus_ok_memory [OF ok m(2)] and f = find_device_Some [OF m(2)] and dist = distinct_keys [OF ok]
  obtain m' ptr where c: "contents (a - base) m = (m', ptr)" by (metis prod.exhaust)
  note cp = contents_props [OF k(2) c]
  let ?p = "\<lparr>host_base = base, host_ppn = fst ptr, host_off = of_nat (snd ptr)\<rparr>"
  let ?b = "(bus s)[upper_bound a (bus s) - 1 := (base, Memory m')]"
  have b: "?b = map (\<lambda>(b, d). (b, if b = base then Memory m' else d)) (bus s)"
    by (rule update_device [OF dist f(1,2)])
  have dev: "(base, d) \<in> set (bus s) \<Longrightarrow> d = Memory m" for d
    using dist f(4) by (metis eq_key_imp_eq_value)
  have grow: "same_device (Memory m) (Memory m')"
    using cp(1,2) c by (auto simp: contents_def Let_def split: option.splits)
  have sb: "same_bus (bus s) ?b"
    unfolding b
  proof (rule same_bus_map)
    fix b d assume bd: "(b, d) \<in> set (bus s)"
    have "same_device d d" using bd ok same_device_refl by (auto simp: bus_ok_def)
    then show "same_device d (if b = base then Memory m' else d)"
      using dev [of d] grow bd by (cases "b = base") (simp_all del: same_device.simps)
  qed
  have bytes: "sim_byte ?b x = sim_byte (bus s) x" for x
  proof (cases "find_device x (bus s)")
    case None then show ?thesis unfolding b by (simp add: sim_byte_def find_device_map)
  next
    case (Some e)
    obtain b' d where e: "e = (b', d)" by (cases e)
    show ?thesis
    proof (cases "b' = base")
      case True
      then have "d = Memory m" using dev find_device_Some(4) Some e by metis
      then show ?thesis unfolding b using True Some e cp by (simp add: sim_byte_def find_device_map)
    next
      case False then show ?thesis unfolding b using Some e by (simp add: sim_byte_def find_device_map)
    qed
  qed
  have "points_to ?b a ?p"
    unfolding b using m cp offset_page(1) [OF k(1,4)] by (auto simp: points_to_def find_device_map)
  moreover have "addr_to_mem a s = (s\<lparr>bus := ?b\<rparr>, Some ?p)"
    using m c by (cases ptr) (simp add: addr_to_mem_def)
  moreover have "sim_byte ?b = sim_byte (bus s)" using bytes by (rule ext)
  ultimately show ?thesis using sb by (intro that)
qed

lemma addr_to_mem_none: "sim_byte (bus s) a = None \<Longrightarrow> addr_to_mem a s = (s, None)"
  by (auto simp: sim_byte_def addr_to_mem_def split: if_splits option.splits device.splits prod.splits)

section \<open>Loads and stores of RAM\<close>

lemma aligned_in_page:
  assumes "addr AND of_nat (2 ^ k - 1) = (0 :: u64)" "k \<le> 12"
  shows "2 ^ k \<le> PGSIZE - unat addr mod PGSIZE"
proof -
  have "of_nat (2 ^ k - 1) = (mask k :: u64)" by (simp add: mask_eq_exp_minus_1)
  then have "take_bit k addr = 0" using assms(1) by (simp add: take_bit_eq_mask)
  then have "unat addr mod 2 ^ k = 0" by (metis unsigned_take_bit_eq take_bit_eq_mod unsigned_0)
  moreover have d: "(2 :: nat) ^ k dvd PGSIZE" using le_imp_power_dvd [OF assms(2), of 2] by simp
  ultimately have "2 ^ k dvd PGSIZE - unat addr mod PGSIZE" by (simp add: dvd_mod mod_0_imp_dvd)
  moreover have "0 < PGSIZE - unat addr mod PGSIZE" by simp
  ultimately show ?thesis by (rule dvd_imp_le)
qed

definition ram_at :: "'io sim_t \<Rightarrow> u64 \<Rightarrow> bool" where
  "ram_at s a \<longleftrightarrow> sim_byte (bus s) a \<noteq> None"

lemma load_intrapage_ram:
  assumes ok: "sim_ok s" and ram: "ram_at s addr" and len: "len \<le> PGSIZE - unat addr mod PGSIZE"
  obtains s' bytes where "load_slow_path_intrapage io_load addr len s = (s', Inr bytes)" "sim_ok s'"
    "sim_byte (bus s') = sim_byte (bus s)" "map Some bytes = map (\<lambda>i. sim_byte (bus s) (addr + of_nat i)) [0..<len]"
proof -
  let ?idx = "unat (drop_bit 12 addr) mod TLB_ENTRIES"
  have bus: "bus_ok (bus s)" and tlb: "tlb_ok s" using ok by (simp_all add: sim_ok_def)
  show ?thesis
  proof (cases "drop_bit 12 addr = tag_vpn (tlb_load_tag s ! ?idx)")
    case True
    have "points_to (bus s) addr (ptr_add (host_offset (tlb_data s ! ?idx)) addr)"
      by (rule tlb_ok_entry [OF tlb]) (simp flip: True)
    from memcpy_from_bytes [OF bus this len] show ?thesis
      using True ok by (intro that) (auto simp: load_slow_path_intrapage_def Let_def)
  next
    case False
    obtain p b where a: "addr_to_mem addr s = (s\<lparr>bus := b\<rparr>, Some p)" "points_to b addr p" "same_bus (bus s) b"
      "sim_byte b = sim_byte (bus s)" using addr_to_mem_ram [OF bus] ram unfolding ram_at_def by metis
    let ?s = "s\<lparr>bus := b\<rparr>"
    have bus': "bus_ok b" by (rule same_bus_ok [OF bus a(3)])
    have "tlb_ok (refill_tlb addr addr p TLB_Load ?s)"
      by (rule refill_tlb_ok [OF tlb_ok_same_bus [OF tlb a(3)]]) (simp_all add: bus' a(2))
    moreover have bus_r: "bus (refill_tlb addr addr p TLB_Load ?s) = b" by (simp add: refill_tlb_def Let_def)
    moreover have "map Some (memcpy_from p len ?s) = map (\<lambda>i. sim_byte (bus s) (addr + of_nat i)) [0..<len]"
      using memcpy_from_bytes [of ?s addr p len] bus' a(2,4) len by simp
    ultimately show ?thesis using a(1,4) bus' False
      by (intro that [of "refill_tlb addr addr p TLB_Load ?s" "memcpy_from p len ?s"])
         (simp_all add: load_slow_path_intrapage_def Let_def sim_ok_def)
  qed
qed

lemma store_intrapage_ram:
  assumes ok: "sim_ok s" and ram: "ram_at s addr" and len: "length bytes \<le> PGSIZE - unat addr mod PGSIZE"
  obtains s' where "store_slow_path_intrapage io_store addr (length bytes) bytes s = (s', Inr ())" "sim_ok s'"
    "\<And>b. sim_byte (bus s') b = (if unat (b - addr) < length bytes then Some (bytes ! unat (b - addr)) else sim_byte (bus s) b)"
proof -
  let ?idx = "unat (drop_bit 12 addr) mod TLB_ENTRIES"
  have bus: "bus_ok (bus s)" and tlb: "tlb_ok s" using ok by (simp_all add: sim_ok_def)
  have cp: "memcpy_to p bytes t = t\<lparr>bus := bus (memcpy_to p bytes t)\<rparr>" for p and t :: "'a sim_t"
    by (simp add: memcpy_to_def)
  show ?thesis
  proof (cases "drop_bit 12 addr = tag_vpn (tlb_store_tag s ! ?idx)")
    case True
    let ?p = "ptr_add (host_offset (tlb_data s ! ?idx)) addr"
    have "points_to (bus s) addr ?p" by (rule tlb_ok_entry [OF tlb]) (simp flip: True)
    note m = memcpy_to_bytes [OF bus this len]
    have "sim_ok (memcpy_to ?p bytes s)"
      using same_bus_ok [OF bus m(1)] tlb_ok_same_bus [OF tlb m(1)] cp [of ?p s] by (simp add: sim_ok_def)
    then show ?thesis using True m(2)
      by (intro that [of "memcpy_to ?p bytes s"]) (simp_all add: store_slow_path_intrapage_def Let_def)
  next
    case False
    obtain p b where a: "addr_to_mem addr s = (s\<lparr>bus := b\<rparr>, Some p)" "points_to b addr p" "same_bus (bus s) b"
      "sim_byte b = sim_byte (bus s)" using addr_to_mem_ram [OF bus] ram unfolding ram_at_def by metis
    let ?s = "s\<lparr>bus := b\<rparr>" and ?m = "memcpy_to p bytes (s\<lparr>bus := b\<rparr>)"
    have bus': "bus_ok (bus ?s)" using same_bus_ok [OF bus a(3)] by simp
    have p: "points_to (bus ?s) addr p" using a(2) by simp
    note m = memcpy_to_bytes [OF bus' p len]
    have bm: "bus_ok (bus ?m)" by (rule same_bus_ok [OF bus' m(1)])
    have tm: "tlb_ok ?m" using tlb_ok_same_bus [OF tlb_ok_same_bus [OF tlb a(3)] m(1)] cp [of p ?s] by simp
    have "tlb_ok (refill_tlb addr addr p TLB_Store ?m)"
      by (rule refill_tlb_ok [OF tm bm points_to_same_bus [OF m(1) p]])
    moreover have "bus (refill_tlb addr addr p TLB_Store ?m) = bus ?m" by (simp add: refill_tlb_def Let_def)
    ultimately show ?thesis using a(1,4) bm m(2) False
      by (intro that [of "refill_tlb addr addr p TLB_Store ?m"])
         (simp_all add: store_slow_path_intrapage_def Let_def sim_ok_def)
  qed
qed

text \<open>The fast path is the slow path's hit.\<close>

lemma mmu_load_slow:
  "addr AND of_nat (len - 1) = 0 \<Longrightarrow> mmu_load io_load addr len s = load_slow_path_intrapage io_load addr len s"
  by (auto simp: mmu_load_def load_slow_path_def load_slow_path_intrapage_def Let_def vpn_tag)

lemma mmu_store_slow:
  "addr AND of_nat (len - 1) = 0 \<Longrightarrow> mmu_store io_store addr len bytes s = store_slow_path_intrapage io_store addr len bytes s"
  by (auto simp: mmu_store_def store_slow_path_def store_slow_path_intrapage_def Let_def vpn_tag)

section \<open>Accesses that miss the RAM\<close>

definition device_byte :: "'io device \<Rightarrow> u64 \<Rightarrow> u8 option" where
  "device_byte d a = (case d of Memory m \<Rightarrow> if a < sz m then Some (mem_byte m a) else None | _ \<Rightarrow> None)"

lemma sim_byte_device:
  "sim_byte ds a = (if paddr_ok a then case find_device a ds of None \<Rightarrow> None | Some (b, d) \<Rightarrow> device_byte d (a - b) else None)"
  by (simp add: sim_byte_def device_byte_def split: option.split prod.split device.split)

text \<open>Replacing the device of an address by one of the same kind and contents.\<close>

lemma replace_device:
  assumes ok: "bus_ok ds" and f: "find_device a ds = Some (base, d)" and d': "same_device d d'"
    and bytes: "device_byte d' = device_byte d"
  shows "same_bus ds (ds[upper_bound a ds - 1 := (base, d')])"
    and "sim_byte (ds[upper_bound a ds - 1 := (base, d')]) = sim_byte ds"
proof -
  note g = find_device_Some [OF f] and dist = distinct_keys [OF ok]
  have b: "ds[upper_bound a ds - 1 := (base, d')] = map (\<lambda>(b, x). (b, if b = base then d' else x)) ds"
    by (rule update_device [OF dist g(1,2)])
  have dev: "(base, x) \<in> set ds \<Longrightarrow> x = d" for x
    using dist g(4) by (metis eq_key_imp_eq_value)
  show "same_bus ds (ds[upper_bound a ds - 1 := (base, d')])"
    unfolding b
  proof (rule same_bus_map)
    fix c x assume bx: "(c, x) \<in> set ds"
    have "same_device x x" using bx ok same_device_refl by (auto simp: bus_ok_def)
    then show "same_device x (if c = base then d' else x)"
      using dev [of x] d' bx by (cases "c = base") (simp_all del: same_device.simps)
  qed
  have "device_byte (if c = base then d' else y) = device_byte y" if "find_device x ds = Some (c, y)" for x c y
    using dev [of y] find_device_Some(4) [OF that] bytes by (cases "c = base") simp_all
  then show "sim_byte (ds[upper_bound a ds - 1 := (base, d')]) = sim_byte ds"
    unfolding b fun_eq_iff sim_byte_device find_device_map by (auto split: option.split)
qed

lemma bus_load_frame:
  assumes ok: "bus_ok ds"
  shows "same_bus ds (fst (bus_load io_load a len ds)) \<and> sim_byte (fst (bus_load io_load a len ds)) = sim_byte ds"
proof (cases "find_device a ds")
  case None
  then show ?thesis using same_bus_refl [OF ok] by (auto simp: bus_load_def find_device_def Let_def split: if_splits)
next
  case (Some e)
  obtain base d where e: "e = (base, d)" by (cases e)
  note f = Some [unfolded e]
  note g = find_device_Some [OF f]
  obtain d' r where l: "device_load io_load (a - base) len d = (d', r)" by (metis prod.exhaust)
  have b: "fst (bus_load io_load a len ds) = ds[upper_bound a ds - 1 := (base, d')]"
    using g l by (simp add: bus_load_def Let_def)
  have "same_device d d' \<and> device_byte d' = device_byte d"
  proof (cases d)
    case (Memory m)
    have "mem_ok m" using bus_ok_memory(2) [OF ok] f Memory by simp
    obtain m' r' where m': "mem_load (a - base) len m = (m', r')" by (metis prod.exhaust)
    have "dom (sparse_memory_map m) \<subseteq> dom (sparse_memory_map m')"
      using mem_load_dom [of m "a - base" len] m' by simp
    then show ?thesis using mem_load_spec [OF \<open>mem_ok m\<close>, of "a - base" len] l m' Memory
      by (auto simp: device_load_def device_byte_def)
  qed (use l in \<open>auto simp: device_load_def device_byte_def split: prod.splits\<close>)
  then show ?thesis unfolding b using replace_device [OF ok f] by blast
qed

lemma mem_range_miss: "\<not> o' < sz m \<Longrightarrow> 0 < len \<Longrightarrow> len \<le> 8 \<Longrightarrow> \<not> mem_range_ok m o' len"
  by (auto simp: mem_range_ok_iff word_less_nat_alt)

lemma pow2_len: "k \<le> 3 \<Longrightarrow> (2 :: nat) ^ k AND (2 ^ k - 1) = 0"
proof -
  assume "k \<le> 3"
  then have "k = 0 \<or> k = 1 \<or> k = 2 \<or> k = 3" by auto
  then show ?thesis by auto
qed

lemma mmio_load_pow2:
  assumes "addr AND of_nat (2 ^ k - 1) = 0" "k \<le> 3"
  shows "mmio_load io_load addr (2 ^ k) s = sim_mmio_load io_load addr (2 ^ k) s"
  using assms pow2_len by (simp add: mmio_load_def)

lemma mmio_store_pow2:
  assumes "addr AND of_nat (2 ^ k - 1) = 0" "k \<le> 3"
  shows "mmio_store io_store addr (2 ^ k) bytes s = sim_mmio_store io_store addr (2 ^ k) bytes s"
  using assms pow2_len by (simp add: mmio_store_def)

lemma two_power_le_8: "k \<le> 3 \<Longrightarrow> 0 < (2 :: nat) ^ k \<and> (2 :: nat) ^ k \<le> 8"
  using power_increasing [of k 3 "2 :: nat"] by simp

text \<open>What lies on the bus where there is no memory: an access is on the bus when all its bytes are
  below the 56-bit limit of physical addresses; a device answers a load as it likes, a ROM with
  the bytes it has at the offset, and nothing else answers.\<close>

definition on_bus :: "u64 \<Rightarrow> nat \<Rightarrow> bool" where
  "on_bus addr len \<longleftrightarrow> unat addr + len \<le> 2 ^ 56"

definition load_answer ::
  "(u64 \<Rightarrow> nat \<Rightarrow> 'io \<Rightarrow> 'io \<times> bool \<times> u8 list) \<Rightarrow> u64 \<Rightarrow> nat \<Rightarrow> 'io bus_t \<Rightarrow> u8 list option" where
  "load_answer io_load addr len ds =
     (case find_device addr ds of
        Some (base, Io d) \<Rightarrow> (case io_load (addr - base) len d of (_, ok, bytes) \<Rightarrow> if ok then Some bytes else None)
      | Some (base, Rom data) \<Rightarrow>
          if unat (addr - base) + len \<le> length data then Some (take len (drop (unat (addr - base)) data)) else None
      | _ \<Rightarrow> None)"

definition store_answer ::
  "(u64 \<Rightarrow> nat \<Rightarrow> u8 list \<Rightarrow> 'io \<Rightarrow> 'io \<times> bool) \<Rightarrow> u64 \<Rightarrow> nat \<Rightarrow> u8 list \<Rightarrow> 'io bus_t \<Rightarrow> bool" where
  "store_answer io_store addr len bytes ds =
     (case find_device addr ds of Some (base, Io d) \<Rightarrow> snd (io_store (addr - base) len bytes d) | _ \<Rightarrow> False)"

text \<open>The device an address reaches, with the offset it sees.\<close>

definition io_at :: "u64 \<Rightarrow> 'io bus_t \<Rightarrow> (u64 \<times> 'io) option" where
  "io_at addr ds = (case find_device addr ds of Some (base, Io d) \<Rightarrow> Some (addr - base, d) | _ \<Rightarrow> None)"

text \<open>A ROM is a vector of the host, whose size fits its 64-bit \<open>size_t\<close>.\<close>

definition rom_sizes :: "'io bus_t \<Rightarrow> bool" where
  "rom_sizes ds \<longleftrightarrow> (\<forall>base data. (base, Rom data) \<in> set ds \<longrightarrow> length data < 2 ^ 64)"

lemma paddr_ok_iff: "paddr_ok a \<longleftrightarrow> unat a < 2 ^ 56"
  unfolding paddr_ok_def word_unat_eq_iff unat_drop_bit_eq unfolding drop_bit_eq_div by (simp add: div_eq_0_iff)

lemma on_bus_iff:
  assumes "0 < len" "len \<le> 8"
  shows "on_bus addr len \<longleftrightarrow> \<not> (addr + of_nat len < addr \<or> \<not> paddr_ok (addr + of_nat len - 1))"
proof -
  have l: "unat (of_nat len :: u64) = len" using assms by (simp add: unat_of_nat take_bit_nat_eq_self)
  have s: "unat (addr + of_nat len) = (unat addr + len) mod 2 ^ 64" by (simp add: unat_word_ariths l)
  show ?thesis
  proof (cases "2 ^ 64 \<le> unat addr + len")
    case True
    moreover have "unat addr < 2 ^ 64" using unsigned_less [of addr] by simp
    ultimately have "(unat addr + len) mod 2 ^ 64 = unat addr + len - 2 ^ 64"
      using assms(2) by (subst le_mod_geq) simp_all
    then have "addr + of_nat len < addr" using s assms(2) \<open>unat addr < 2 ^ 64\<close> True by (simp add: word_less_nat_alt)
    then show ?thesis using True by (simp add: on_bus_def)
  next
    case False
    then have u: "unat (addr + of_nat len) = unat addr + len" using s by simp
    then have "unat (addr + of_nat len - 1) = unat addr + len - 1"
      using assms(1) by (subst unat_sub) (simp_all add: word_le_nat_alt)
    then show ?thesis using u assms(1) by (simp add: on_bus_def paddr_ok_iff word_less_nat_alt) arith
  qed
qed

lemma on_bus_paddr: "on_bus addr len \<Longrightarrow> 0 < len \<Longrightarrow> paddr_ok addr"
  by (simp add: on_bus_def paddr_ok_iff)

lemma rom_load_answer:
  assumes "on_bus addr len" "base \<le> addr" "length data < 2 ^ 64"
  shows "rom_load (addr - base) len data =
    (if unat (addr - base) + len \<le> length data then (True, take len (drop (unat (addr - base)) data)) else (False, []))"
proof -
  have o: "unat (addr - base) + len \<le> 2 ^ 56" using assms(1,2) by (simp add: on_bus_def unat_sub word_le_nat_alt)
  have "unat (addr - base + of_nat len) = unat (addr - base) + len"
    using o by (subst unat_word_ariths) (simp add: unat_of_nat)
  moreover have "unat (of_nat (length data) :: u64) = length data" using assms(3) by (simp add: unat_of_nat)
  ultimately show ?thesis by (simp add: rom_load_def word_less_nat_alt not_le)
qed

lemma find_device_update:
  assumes "find_device a ds = Some (base, d)"
  shows "find_device a (ds[upper_bound a ds - 1 := (base, d')]) = Some (base, d')"
proof -
  note f = find_device_Some [OF assms]
  have keys: "map fst (ds[upper_bound a ds - 1 := (base, d')]) = map fst ds"
    using f(1,2) by (simp add: map_update list_update_same_conv)
  have ub: "upper_bound a es = length (takeWhile (\<lambda>k. k \<le> a) (map fst es))" for es :: "'a bus_t"
    by (simp add: upper_bound_def takeWhile_map comp_def)
  have "upper_bound a (ds[upper_bound a ds - 1 := (base, d')]) = upper_bound a ds"
    using ub keys by metis
  then show ?thesis using f(1,5,6) by (simp add: find_device_def)
qed

lemma bus_load_answer:
  assumes none: "sim_byte ds addr = None" and on: "on_bus addr len" and len: "0 < len" "len \<le> 8" and roms: "rom_sizes ds"
    and l: "bus_load io_load addr len ds = (b, okl, bytes)"
  shows "(if okl then Some bytes else None) = load_answer io_load addr len ds"
    and "io_at addr b = map_option (\<lambda>(off, d). (off, fst (io_load off len d))) (io_at addr ds)"
proof -
  have "(if okl then Some bytes else None) = load_answer io_load addr len ds
      \<and> io_at addr b = map_option (\<lambda>(off, d). (off, fst (io_load off len d))) (io_at addr ds)"
  proof (cases "find_device addr ds")
    case None
    then show ?thesis using l
      by (auto simp: load_answer_def io_at_def bus_load_def find_device_def Let_def split: if_splits prod.splits)
  next
    case (Some e)
    obtain base d where e: "e = (base, d)" by (cases e)
    note f = Some [unfolded e]
    note g = find_device_Some [OF f]
    obtain d' where d': "device_load io_load (addr - base) len d = (d', okl, bytes)"
      "b = ds[upper_bound addr ds - 1 := (base, d')]"
      using l g by (auto simp: bus_load_def Let_def split: prod.splits)
    note u = find_device_update [OF f, of d']
    show ?thesis
    proof (cases d)
      case (Memory m)
      have "\<not> mem_range_ok m (addr - base) len"
        by (rule mem_range_miss) (use none f Memory on_bus_paddr [OF on len(1)] len in \<open>simp_all add: sim_byte_def split: if_splits\<close>)
      then show ?thesis using d' u f Memory
        by (auto simp: load_answer_def io_at_def device_load_def mem_load_def split: prod.splits)
    next
      case (Rom data)
      have "length data < 2 ^ 64" using roms g(4) Rom unfolding rom_sizes_def by blast
      note r = rom_load_answer [OF on g(3) this]
      show ?thesis using d' u f unfolding device_load_def Rom
        by (auto simp: r load_answer_def io_at_def split: if_splits)
    next
      case (Io x)
      then show ?thesis using d' u f
        by (auto simp: load_answer_def io_at_def device_load_def split: prod.splits)
    qed
  qed
  then show "(if okl then Some bytes else None) = load_answer io_load addr len ds"
    and "io_at addr b = map_option (\<lambda>(off, d). (off, fst (io_load off len d))) (io_at addr ds)" by simp_all
qed

lemma bus_store_answer:
  assumes none: "sim_byte ds addr = None" and on: "on_bus addr len" and len: "0 < len" "len \<le> 8"
    and l: "bus_store io_store addr len bytes ds = (b, oks)"
  shows "oks = store_answer io_store addr len bytes ds"
    and "io_at addr b = map_option (\<lambda>(off, d). (off, fst (io_store off len bytes d))) (io_at addr ds)"
proof -
  have "oks = store_answer io_store addr len bytes ds
      \<and> io_at addr b = map_option (\<lambda>(off, d). (off, fst (io_store off len bytes d))) (io_at addr ds)"
  proof (cases "find_device addr ds")
    case None
    then show ?thesis using l
      by (auto simp: store_answer_def io_at_def bus_store_def find_device_def Let_def split: if_splits prod.splits)
  next
    case (Some e)
    obtain base d where e: "e = (base, d)" by (cases e)
    note f = Some [unfolded e]
    note g = find_device_Some [OF f]
    obtain d' where d': "device_store io_store (addr - base) len bytes d = (d', oks)"
      "b = ds[upper_bound addr ds - 1 := (base, d')]"
      using l g by (auto simp: bus_store_def Let_def split: prod.splits)
    note u = find_device_update [OF f, of d']
    show ?thesis
    proof (cases d)
      case (Memory m)
      have "\<not> mem_range_ok m (addr - base) len"
        by (rule mem_range_miss) (use none f Memory on_bus_paddr [OF on len(1)] len in \<open>simp_all add: sim_byte_def split: if_splits\<close>)
      then show ?thesis using d' u f Memory
        by (auto simp: store_answer_def io_at_def device_store_def mem_store_def split: prod.splits)
    qed (use d' u f in \<open>auto simp: store_answer_def io_at_def device_store_def split: prod.splits\<close>)
  qed
  then show "oks = store_answer io_store addr len bytes ds"
    and "io_at addr b = map_option (\<lambda>(off, d). (off, fst (io_store off len bytes d))) (io_at addr ds)" by simp_all
qed

lemma bus_store_frame:
  assumes ok: "bus_ok ds" and none: "sim_byte ds addr = None" and on: "on_bus addr len" and len: "0 < len" "len \<le> 8"
  shows "same_bus ds (fst (bus_store io_store addr len bytes ds)) \<and> sim_byte (fst (bus_store io_store addr len bytes ds)) = sim_byte ds"
proof (cases "find_device addr ds")
  case None
  then show ?thesis using same_bus_refl [OF ok] by (auto simp: bus_store_def find_device_def Let_def split: if_splits)
next
  case (Some e)
  obtain base d where e: "e = (base, d)" by (cases e)
  note f = Some [unfolded e]
  note g = find_device_Some [OF f]
  obtain d' r where l: "device_store io_store (addr - base) len bytes d = (d', r)" by (metis prod.exhaust)
  have b: "fst (bus_store io_store addr len bytes ds) = ds[upper_bound addr ds - 1 := (base, d')]"
    using g l by (simp add: bus_store_def Let_def)
  have "same_device d d' \<and> device_byte d' = device_byte d"
  proof (cases d)
    case (Memory m)
    have m: "mem_ok m" using bus_ok_memory(2) [OF ok] f Memory by simp
    have "\<not> mem_range_ok m (addr - base) len"
      by (rule mem_range_miss) (use none f Memory on_bus_paddr [OF on len(1)] len in \<open>simp_all add: sim_byte_def split: if_splits\<close>)
    then show ?thesis using l Memory m by (auto simp: device_store_def mem_store_def)
  qed (use l in \<open>auto simp: device_store_def device_byte_def split: prod.splits\<close>)
  then show ?thesis unfolding b using replace_device [OF ok f] by blast
qed

lemma mmu_load_other:
  assumes ok: "sim_ok s" and none: "\<not> ram_at s addr" and al: "addr AND of_nat (2 ^ k - 1) = 0" "k \<le> 3"
    and roms: "rom_sizes (bus s)"
  shows "case mmu_load io_load addr (2 ^ k) s of (s', r) \<Rightarrow>
           sim_ok s' \<and> sim_byte (bus s') = sim_byte (bus s) \<and>
           r = (case if on_bus addr (2 ^ k) then load_answer io_load addr (2 ^ k) (bus s) else None of
                  Some bytes \<Rightarrow> Inr bytes | None \<Rightarrow> Inl (Load_Access_Fault addr)) \<and>
           io_at addr (bus s') = map_option (\<lambda>(off, d). (off, if on_bus addr (2 ^ k) then fst (io_load off (2 ^ k) d) else d)) (io_at addr (bus s))"
proof -
  let ?len = "2 ^ k :: nat" and ?idx = "unat (drop_bit 12 addr) mod TLB_ENTRIES"
  have bus: "bus_ok (bus s)" and tlb: "tlb_ok s" using ok by (simp_all add: sim_ok_def)
  note len = two_power_le_8 [OF al(2)]
  have "drop_bit 12 addr \<noteq> tag_vpn (tlb_load_tag s ! ?idx)"
  proof
    assume h: "drop_bit 12 addr = tag_vpn (tlb_load_tag s ! ?idx)"
    have "points_to (bus s) addr (ptr_add (host_offset (tlb_data s ! ?idx)) addr)"
      by (rule tlb_ok_entry [OF tlb]) (simp flip: h)
    then show False using none by (auto simp: ram_at_def sim_byte_def points_to_def)
  qed
  then have load: "mmu_load io_load addr ?len s =
      (let (s', ok, bytes) = sim_mmio_load io_load addr ?len s
       in (s', if ok then Inr bytes else Inl (Load_Access_Fault addr)))"
    using none unfolding mmu_load_slow [of addr ?len, OF al(1)]
    by (simp add: load_slow_path_intrapage_def addr_to_mem_none ram_at_def mmio_load_pow2 [OF al])
  show ?thesis
  proof (cases "on_bus addr ?len")
    case False
    then have "sim_mmio_load io_load addr ?len s = (s, False, [])"
      using on_bus_iff [of ?len addr] len by (simp add: sim_mmio_load_def)
    then show ?thesis unfolding load using ok False by (simp add: option.map_ident_strong split: prod.splits)
  next
    case True
    obtain b okl bytes where l: "bus_load io_load addr ?len (bus s) = (b, okl, bytes)" by (metis prod_cases3)
    then have m: "sim_mmio_load io_load addr ?len s = (s\<lparr>bus := b\<rparr>, okl, bytes)"
      using on_bus_iff [of ?len addr] len True by (simp add: sim_mmio_load_def)
    have s': "sim_ok (s\<lparr>bus := b\<rparr>) \<and> sim_byte b = sim_byte (bus s)"
      using l bus_load_frame [OF bus, of io_load addr ?len] same_bus_ok [OF bus] tlb_ok_same_bus [OF tlb] ok
      by (simp add: sim_ok_def)
    have none': "sim_byte (bus s) addr = None" using none by (simp add: ram_at_def)
    note a = bus_load_answer [OF none' True _ _ roms l]
    show ?thesis
      unfolding load m using s' a len True by (simp flip: a(1))
  qed
qed

lemma mmu_store_other:
  assumes ok: "sim_ok s" and none: "\<not> ram_at s addr" and al: "addr AND of_nat (2 ^ k - 1) = 0" "k \<le> 3"
  shows "case mmu_store io_store addr (2 ^ k) bytes s of (s', r) \<Rightarrow>
           sim_ok s' \<and> sim_byte (bus s') = sim_byte (bus s) \<and>
           r = (if on_bus addr (2 ^ k) \<and> store_answer io_store addr (2 ^ k) bytes (bus s) then Inr () else Inl (Store_Access_Fault addr)) \<and>
           io_at addr (bus s') = map_option (\<lambda>(off, d). (off, if on_bus addr (2 ^ k) then fst (io_store off (2 ^ k) bytes d) else d)) (io_at addr (bus s))"
proof -
  let ?len = "2 ^ k :: nat" and ?idx = "unat (drop_bit 12 addr) mod TLB_ENTRIES"
  have bus: "bus_ok (bus s)" and tlb: "tlb_ok s" using ok by (simp_all add: sim_ok_def)
  note len = two_power_le_8 [OF al(2)]
  have "drop_bit 12 addr \<noteq> tag_vpn (tlb_store_tag s ! ?idx)"
  proof
    assume h: "drop_bit 12 addr = tag_vpn (tlb_store_tag s ! ?idx)"
    have "points_to (bus s) addr (ptr_add (host_offset (tlb_data s ! ?idx)) addr)"
      by (rule tlb_ok_entry [OF tlb]) (simp flip: h)
    then show False using none by (auto simp: ram_at_def sim_byte_def points_to_def)
  qed
  then have store: "mmu_store io_store addr ?len bytes s =
      (let (s', ok) = sim_mmio_store io_store addr ?len bytes s
       in (s', if ok then Inr () else Inl (Store_Access_Fault addr)))"
    using none unfolding mmu_store_slow [of addr ?len, OF al(1)]
    by (simp add: store_slow_path_intrapage_def addr_to_mem_none ram_at_def mmio_store_pow2 [OF al])
  show ?thesis
  proof (cases "on_bus addr ?len")
    case False
    then have "sim_mmio_store io_store addr ?len bytes s = (s, False)"
      using on_bus_iff [of ?len addr] len by (simp add: sim_mmio_store_def)
    then show ?thesis unfolding store using ok False by (simp add: option.map_ident_strong split: prod.splits)
  next
    case True
    obtain b oks where l: "bus_store io_store addr ?len bytes (bus s) = (b, oks)" by (metis surj_pair)
    then have m: "sim_mmio_store io_store addr ?len bytes s = (s\<lparr>bus := b\<rparr>, oks)"
      using on_bus_iff [of ?len addr] len True by (simp add: sim_mmio_store_def)
    have none': "sim_byte (bus s) addr = None" using none by (simp add: ram_at_def)
    have s': "sim_ok (s\<lparr>bus := b\<rparr>) \<and> sim_byte b = sim_byte (bus s)"
      using l bus_store_frame [OF bus none' True, of io_store bytes] len same_bus_ok [OF bus] tlb_ok_same_bus [OF tlb] ok
      by (simp add: sim_ok_def)
    note a = bus_store_answer [OF none' True _ _ l]
    show ?thesis
      unfolding store m using s' a len True by (simp flip: a(1))
  qed
qed

section \<open>Construction\<close>

text \<open>The simulator with an empty TLB on a given bus.\<close>

definition new_sim :: "'io bus_t \<Rightarrow> 'io sim_t" where
  "new_sim ds = flush_tlb \<lparr>bus = ds, tlb_insn_tag = [], tlb_load_tag = [], tlb_store_tag = [],
     tlb_data = replicate TLB_ENTRIES \<lparr>host_offset = \<lparr>host_base = 0, host_ppn = 0, host_off = 0\<rparr>, target_offset = 0\<rparr>\<rparr>"

lemma new_sim_ok: "bus_ok ds \<Longrightarrow> sim_ok (new_sim ds)"
proof -
  have "tlb_ok (new_sim ds)" unfolding new_sim_def by (rule flush_tlb_ok [OF refl]) simp
  then show "bus_ok ds \<Longrightarrow> sim_ok (new_sim ds)" by (simp add: sim_ok_def new_sim_def flush_tlb_def)
qed

lemma add_device_keys: "set (map fst (add_device a d ds)) = insert a (set (map fst ds))"
  by (induction a d ds rule: add_device.induct) auto

lemma add_device_sorted: "sorted_wrt (<) (map fst ds) \<Longrightarrow> sorted_wrt (<) (map fst (add_device a d ds))"
proof (induction a d ds rule: add_device.induct)
  case (2 addr dev a d ds)
  then show ?case using add_device_keys [of addr dev ds] by (auto simp: not_less)
qed simp

lemma add_device_set: "e \<in> set (add_device a d ds) \<Longrightarrow> e = (a, d) \<or> e \<in> set ds"
  by (induction a d ds rule: add_device.induct) (auto split: if_splits)

lemma add_device_ok: "bus_ok ds \<Longrightarrow> device_ok (a, d) \<Longrightarrow> bus_ok (add_device a d ds)"
  using add_device_set [of _ a d ds] add_device_sorted [of ds a d] by (auto simp: bus_ok_def)

lemma new_mem_device_ok: "new_mem_t bytes = Some m \<Longrightarrow> unat base mod PGSIZE = 0 \<Longrightarrow> device_ok (base, Memory m)"
  by (auto simp: new_mem_t_def device_ok_def mem_ok_def split: if_splits)

end
