(* ===== verification/Spike_PLIC.thy ===== *)
theory Spike_PLIC
  imports Spike_Devices
begin

text \<open>
  The platform-level interrupt controller of the instruction-set simulator (\<open>plic.cc\<close>): the
  contexts (a hart in machine or supervisor mode), the registers of the memory map, the claim
  and completion of interrupts, and the interrupt lines the controller drives in the \<open>mip\<close>
  registers of the harts.  The arrays of \<open>plic_t\<close> and \<open>plic_context_t\<close> are lists of their
  length; a source number indexes them as the code does (word \<open>id / 32\<close>, bit \<open>id % 32\<close>).
  The operations on a context take its index in \<open>contexts\<close>.  The \<open>mip\<close> registers, which
  belong to the processors, are a component of the state, by hart.
\<close>

section \<open>State\<close>

record plic_context =
  proc :: nat
  mmode :: bool
  priority_threshold :: u8
  enable :: "u32 list"
  pending :: "u32 list"
  pending_priority :: "u8 list"
  claimed :: "u32 list"

record plic =
  contexts :: "plic_context list"
  num_ids :: nat
  num_ids_word :: nat
  max_prio :: u32
  priority :: "u8 list"
  level :: "u32 list"
  mip :: "nat \<Rightarrow> u64"

abbreviation (input) MIP_SEIP :: u64 where "MIP_SEIP \<equiv> 0x200"
abbreviation (input) MIP_MEIP :: u64 where "MIP_MEIP \<equiv> 0x800"

definition PLIC_PRIO_BITS :: nat where "PLIC_PRIO_BITS = 4"

definition plic_context_t :: "nat \<Rightarrow> bool \<Rightarrow> plic_context" where
  "plic_context_t p m =
     \<lparr>proc = p, mmode = m, priority_threshold = 0, enable = replicate 32 0, pending = replicate 32 0,
      pending_priority = replicate 1024 0, claimed = replicate 32 0\<rparr>"

text \<open>The constructor; each hart comes with whether it has supervisor mode.\<close>

definition plic_t :: "(nat \<times> bool) list \<Rightarrow> nat \<Rightarrow> (nat \<Rightarrow> u64) \<Rightarrow> plic" where
  "plic_t harts ndev mip0 =
     \<lparr>contexts = concat (map (\<lambda>(h, s). plic_context_t h True # (if s then [plic_context_t h False] else [])) harts),
      num_ids = ndev + 1, num_ids_word = (ndev + 1 + (32 - 1)) div 32,
      max_prio = push_bit PLIC_PRIO_BITS 1 - 1, priority = replicate 1024 0, level = replicate 32 0,
      mip = mip0\<rparr>"

section \<open>Choosing an interrupt\<close>

definition best_pending_step :: "plic \<Rightarrow> plic_context \<Rightarrow> nat \<Rightarrow> nat \<times> u8 \<Rightarrow> nat \<times> u8" where
  "best_pending_step s c src best =
     (if num_ids s \<le> src \<or> pending c ! (src div 32) AND push_bit (src mod 32) 1 = 0
         \<or> claimed c ! (src div 32) AND push_bit (src mod 32) 1 \<noteq> 0
      then best
      else if fst best = 0 \<or> snd best < pending_priority c ! src
      then (src, pending_priority c ! src)
      else best)"

definition context_best_pending :: "plic \<Rightarrow> plic_context \<Rightarrow> nat" where
  "context_best_pending s c =
     fst (fold (\<lambda>i best. if pending c ! i = 0 then best
                         else fold (\<lambda>j. best_pending_step s c (i * 32 + j)) [0..<32] best)
               [0..<num_ids_word s] (0, 0))"

definition backdoor_write_with_mask :: "u64 \<Rightarrow> u64 \<Rightarrow> u64 \<Rightarrow> u64" where
  "backdoor_write_with_mask old msk val = (old AND NOT msk) OR (val AND msk)"

definition context_update :: "nat \<Rightarrow> plic \<Rightarrow> plic" where
  "context_update k s =
     (let c = contexts s ! k;
          best_id = context_best_pending s c;
          msk = (if mmode c then MIP_MEIP else MIP_SEIP)
      in s\<lparr>mip := (mip s)(proc c := backdoor_write_with_mask (mip s (proc c)) msk (if best_id \<noteq> 0 then msk else 0))\<rparr>)"

definition set_context :: "nat \<Rightarrow> plic_context \<Rightarrow> plic \<Rightarrow> plic" where
  "set_context k c s = s\<lparr>contexts := (contexts s)[k := c]\<rparr>"

section \<open>The registers\<close>

definition context_claim :: "nat \<Rightarrow> plic \<Rightarrow> plic \<times> nat" where
  "context_claim k s =
     (let c = contexts s ! k;
          best_id = context_best_pending s c;
          best_id_word = best_id div 32;
          best_id_mask = push_bit (best_id mod 32) 1;
          s' = (if best_id \<noteq> 0
                then set_context k (c\<lparr>claimed := (claimed c)[best_id_word := claimed c ! best_id_word OR best_id_mask]\<rparr>) s
                else s)
      in (context_update k s', best_id))"

definition priority_read :: "plic \<Rightarrow> u64 \<Rightarrow> u32" where
  "priority_read s offset =
     (let src = unat (drop_bit 2 offset)
      in if 0 < src \<and> src < num_ids s then ucast (priority s ! src) else 0)"

definition priority_write :: "u64 \<Rightarrow> u32 \<Rightarrow> plic \<Rightarrow> plic" where
  "priority_write offset val s =
     (let src = unat (drop_bit 2 offset)
      in if 0 < src \<and> src < num_ids s
         then s\<lparr>priority := (priority s)[src := ucast (val AND (push_bit PLIC_PRIO_BITS 1 - 1))]\<rparr>
         else s)"

definition pending_read :: "plic \<Rightarrow> u64 \<Rightarrow> u32" where
  "pending_read s offset =
     (let id_word = unat (drop_bit 2 offset)
      in if id_word < num_ids_word s
         then fold (\<lambda>c val. val OR pending c ! id_word) (contexts s) 0
         else 0)"

definition context_enable_read :: "nat \<Rightarrow> plic \<Rightarrow> u64 \<Rightarrow> u32" where
  "context_enable_read k s offset =
     (let id_word = unat (drop_bit 2 offset)
      in if id_word < num_ids_word s then enable (contexts s ! k) ! id_word else 0)"

text \<open>The body of the loop of \<open>context_enable_write\<close>, for bit \<open>i\<close>.\<close>

definition enable_write_step ::
  "plic \<Rightarrow> nat \<Rightarrow> u32 \<Rightarrow> u32 \<Rightarrow> nat \<Rightarrow> plic_context \<Rightarrow> plic_context" where
  "enable_write_step s id_word xor_val new_val i c =
     (let src = id_word * 32 + i;
          id_mask = push_bit i 1;
          id_prio = priority s ! src
      in if xor_val AND id_mask = 0 then c
         else if new_val AND id_mask \<noteq> 0 \<and> level s ! id_word AND id_mask \<noteq> 0
         then c\<lparr>pending := (pending c)[id_word := pending c ! id_word OR id_mask],
                pending_priority := (pending_priority c)[src := id_prio]\<rparr>
         else if new_val AND id_mask = 0
         then c\<lparr>pending := (pending c)[id_word := pending c ! id_word AND NOT id_mask],
                pending_priority := (pending_priority c)[src := 0],
                claimed := (claimed c)[id_word := claimed c ! id_word AND NOT id_mask]\<rparr>
         else c)"

definition context_enable_write :: "nat \<Rightarrow> u64 \<Rightarrow> u32 \<Rightarrow> plic \<Rightarrow> plic" where
  "context_enable_write k offset val s =
     (let id_word = unat (drop_bit 2 offset)
      in if id_word \<ge> num_ids_word s then s
         else let c = contexts s ! k;
                  old_val = enable c ! id_word;
                  new_val = (if id_word = 0 then val AND NOT 1 else val);
                  xor_val = old_val XOR new_val;
                  c' = fold (enable_write_step s id_word xor_val new_val) [0..<32]
                         (c\<lparr>enable := (enable c)[id_word := new_val]\<rparr>)
              in context_update k (set_context k c' s))"

definition context_read :: "nat \<Rightarrow> u64 \<Rightarrow> plic \<Rightarrow> plic \<times> u32" where
  "context_read k offset s =
     (if offset = 0 then (s, ucast (priority_threshold (contexts s ! k)))
      else if offset = 4 then (let (s', src) = context_claim k s in (s', of_nat src))
      else (s, 0))"

definition context_write :: "nat \<Rightarrow> u64 \<Rightarrow> u32 \<Rightarrow> plic \<Rightarrow> plic \<times> bool" where
  "context_write k offset val s =
     (let c = contexts s ! k
      in if offset = 0
         then let v = val AND (push_bit PLIC_PRIO_BITS 1 - 1)
              in if v \<le> max_prio s
                 then (context_update k (set_context k (c\<lparr>priority_threshold := ucast v\<rparr>) s), True)
                 else (s, False)
         else if offset = 4
         then let id_word = unat val div 32;
                  id_mask = push_bit (unat val mod 32) 1
              in if unat val < num_ids s \<and> enable c ! id_word AND id_mask \<noteq> 0
                 then (context_update k
                         (set_context k (c\<lparr>claimed := (claimed c)[id_word := claimed c ! id_word AND NOT id_mask]\<rparr>) s), True)
                 else (s, True)
         else (s, False))"

section \<open>Interrupt sources\<close>

definition deliver_level :: "nat \<Rightarrow> bool \<Rightarrow> u8 \<Rightarrow> plic_context \<Rightarrow> plic_context" where
  "deliver_level src lvl id_prio c =
     (let id_word = src div 32;
          id_mask = push_bit (src mod 32) 1
      in if lvl
         then c\<lparr>pending := (pending c)[id_word := pending c ! id_word OR id_mask],
                pending_priority := (pending_priority c)[src := id_prio]\<rparr>
         else c\<lparr>pending := (pending c)[id_word := pending c ! id_word AND NOT id_mask],
                pending_priority := (pending_priority c)[src := 0],
                claimed := (claimed c)[id_word := claimed c ! id_word AND NOT id_mask]\<rparr>)"

text \<open>The loop over the contexts: the first one that has the source enabled ends it.\<close>

fun deliver_loop :: "nat \<Rightarrow> bool \<Rightarrow> u8 \<Rightarrow> nat list \<Rightarrow> plic \<Rightarrow> plic" where
  "deliver_loop src lvl id_prio [] s = s"
| "deliver_loop src lvl id_prio (k # ks) s =
     (if enable (contexts s ! k) ! (src div 32) AND push_bit (src mod 32) 1 \<noteq> 0
      then context_update k (set_context k (deliver_level src lvl id_prio (contexts s ! k)) s)
      else deliver_loop src lvl id_prio ks s)"

definition set_interrupt_level :: "nat \<Rightarrow> bool \<Rightarrow> plic \<Rightarrow> plic" where
  "set_interrupt_level src lvl s =
     (if src = 0 \<or> num_ids s \<le> src then s
      else let id_prio = priority s ! src;
               id_word = src div 32;
               id_mask = push_bit (src mod 32) 1;
               s' = s\<lparr>level := (level s)[id_word := if lvl then level s ! id_word OR id_mask
                                                  else level s ! id_word AND NOT id_mask]\<rparr>
           in deliver_loop src lvl id_prio [0..<length (contexts s)] s')"

section \<open>The memory map\<close>

text \<open>
  Loads return whether the access succeeded and the bytes written to the buffer of the caller.
\<close>

definition plic_load_word :: "u64 \<Rightarrow> plic \<Rightarrow> plic \<times> bool \<times> u8 list" where
  "plic_load_word addr s =
     (if addr < 0x1000 then (s, True, read_little_endian_reg (priority_read s addr) addr 4)
      else if addr < 0x2000
      then (s, True, read_little_endian_reg (pending_read s (addr - 0x1000)) addr 4)
      else if addr < 0x200000
      then let cntx = unat ((addr - 0x2000) div 0x80);
               a = addr - (of_nat cntx * 0x80 + 0x2000)
           in if cntx < length (contexts s)
              then (s, True, read_little_endian_reg (context_enable_read cntx s a) a 4)
              else (s, False, read_little_endian_reg (0 :: u32) a 4)
      else if addr < 0x1000000
      then let cntx = unat ((addr - 0x200000) div 0x1000);
               a = addr - (of_nat cntx * 0x1000 + 0x200000)
           in if cntx < length (contexts s)
              then let (s', val) = context_read cntx a s in (s', True, read_little_endian_reg val a 4)
              else (s, False, read_little_endian_reg (0 :: u32) a 4)
      else (s, False, read_little_endian_reg (0 :: u32) addr 4))"

definition plic_load :: "u64 \<Rightarrow> nat \<Rightarrow> plic \<Rightarrow> plic \<times> bool \<times> u8 list" where
  "plic_load addr len s =
     (if len = 4 then plic_load_word addr s
      else if len = 8
      then let (s1, ok1, bs1) = plic_load_word addr s
           in if ok1 then let (s2, ok2, bs2) = plic_load_word (addr + 4) s1 in (s2, ok2, bs1 @ bs2)
              else (s1, False, bs1)
      else (s, False, []))"

definition plic_store_word :: "u64 \<Rightarrow> u8 list \<Rightarrow> plic \<Rightarrow> plic \<times> bool" where
  "plic_store_word addr bytes s =
     (let val = write_little_endian_reg (0 :: u32) addr 4 bytes
      in if addr < 0x2000 then (priority_write addr val s, True)
         else if addr < 0x200000
         then let cntx = unat ((addr - 0x2000) div 0x80);
                  a = addr - (of_nat cntx * 0x80 + 0x2000)
              in if cntx < length (contexts s) then (context_enable_write cntx a val s, True) else (s, False)
         else if addr < 0x1000000
         then let cntx = unat ((addr - 0x200000) div 0x1000);
                  a = addr - (of_nat cntx * 0x1000 + 0x200000)
              in if cntx < length (contexts s) then context_write cntx a val s else (s, False)
         else (s, False))"

definition plic_store :: "u64 \<Rightarrow> nat \<Rightarrow> u8 list \<Rightarrow> plic \<Rightarrow> plic \<times> bool" where
  "plic_store addr len bytes s =
     (if len = 4 then plic_store_word addr bytes s
      else if len = 8
      then let (s1, ok) = plic_store_word addr (take 4 bytes) s
           in if ok then plic_store_word (addr + 4) (drop 4 bytes) s1 else (s1, False)
      else (s, False))"

section \<open>Sets of interrupt sources\<close>

text \<open>A vector of 32-bit words as the set of source numbers whose bit is set.\<close>

definition has_source :: "u32 list \<Rightarrow> nat \<Rightarrow> bool" where
  "has_source ws i = bit (ws ! (i div 32)) (i mod 32)"

lemma source_mask: "(w :: u32) AND push_bit n 1 = 0 \<longleftrightarrow> \<not> bit w n"
  by (simp add: and_exp_eq_0_iff_not_bit)

lemma has_source_replicate [simp]: "i < 32 * n \<Longrightarrow> \<not> has_source (replicate n 0) i"
  by (simp add: has_source_def div_less_iff_less_mult mult.commute)

lemma has_source_word:
  assumes "k < length ws"
  shows "has_source (ws[k := w]) i \<longleftrightarrow> (if i div 32 = k then bit w (i mod 32) else has_source ws i)"
  using assms by (simp add: has_source_def nth_list_update)

lemma source_eq: "i div 32 = j div 32 \<Longrightarrow> i mod 32 = j mod 32 \<longleftrightarrow> i = (j :: nat)"
  by (metis div_mult_mod_eq)

lemma bit_source_mask: "bit (2 ^ n :: u32) m \<longleftrightarrow> m = n \<and> n < 32"
  by (auto simp: bit_exp_iff)

lemma has_source_set:
  assumes "length ws = 32" "j < 1024"
  shows "has_source (ws[j div 32 := ws ! (j div 32) OR push_bit (j mod 32) 1]) i
         \<longleftrightarrow> i = j \<or> has_source ws i"
proof -
  have "j div 32 < length ws" using assms by (simp add: div_less_iff_less_mult)
  then show ?thesis unfolding has_source_word [OF \<open>j div 32 < length ws\<close>]
    using source_eq [of i j] by (auto simp: bit_or_iff bit_source_mask has_source_def)
qed

lemma has_source_clear:
  assumes "length ws = 32" "j < 1024"
  shows "has_source (ws[j div 32 := ws ! (j div 32) AND NOT (push_bit (j mod 32) 1)]) i
         \<longleftrightarrow> i \<noteq> j \<and> has_source ws i"
proof -
  have "j div 32 < length ws" using assms by (simp add: div_less_iff_less_mult)
  then show ?thesis unfolding has_source_word [OF \<open>j div 32 < length ws\<close>]
    using source_eq [of i j]
    by (auto simp: bit_and_iff bit_not_iff bit_source_mask has_source_def)
qed

lemmas source_update = has_source_set [unfolded push_bit_of_1] has_source_clear [unfolded push_bit_of_1]

section \<open>The chosen interrupt\<close>

definition candidate :: "plic \<Rightarrow> plic_context \<Rightarrow> nat \<Rightarrow> bool" where
  "candidate s c i \<longleftrightarrow> i < num_ids s \<and> has_source (pending c) i \<and> \<not> has_source (claimed c) i"

lemma fold_blocks:
  "fold (\<lambda>i. fold (\<lambda>j. f (i * m + j)) [0..<m]) [0..<n] b = fold f [0..<n * m] b"
proof (induction n)
  case (Suc n)
  have "[0..<Suc n * m] = [0..<n * m] @ map (\<lambda>j. n * m + j) [0..<m]"
    unfolding mult_Suc add.commute [of m] upt_add_eq_append [OF le0]
    using map_add_upt [of "n * m" m] by (simp add: add.commute)
  then show ?case using Suc by (simp add: fold_map comp_def del: mult_Suc)
qed simp

lemma best_pending_step_candidate:
  "best_pending_step s c i best =
     (if candidate s c i \<and> (fst best = 0 \<or> snd best < pending_priority c ! i)
      then (i, pending_priority c ! i) else best)"
  unfolding best_pending_step_def candidate_def source_mask has_source_def by auto

lemma context_best_pending_fold:
  "context_best_pending s c = fst (fold (best_pending_step s c) [0..<num_ids_word s * 32] (0, 0))"
proof -
  have skip: "fold (\<lambda>j. best_pending_step s c (i * 32 + j)) js best = best"
    if "pending c ! i = 0" "\<forall>j\<in>set js. j < 32" for i js best
    using that by (induction js) (auto simp: best_pending_step_candidate candidate_def has_source_def)
  have "(\<lambda>i best. if pending c ! i = 0 then best
              else fold (\<lambda>j. best_pending_step s c (i * 32 + j)) [0..<32] best)
        = (\<lambda>i. fold (\<lambda>j. best_pending_step s c (i * 32 + j)) [0..<32])"
    by (auto simp: fun_eq_iff skip)
  then show ?thesis unfolding context_best_pending_def by (simp only: fold_blocks)
qed

lemma best_pending_prefix:
  assumes "\<not> candidate s c 0"
  shows "case fold (best_pending_step s c) [0..<n] (0, 0) of (b, p) \<Rightarrow>
           if b = 0 then p = 0 \<and> (\<forall>i<n. \<not> candidate s c i)
           else b < n \<and> candidate s c b \<and> p = pending_priority c ! b \<and>
                (\<forall>i<n. candidate s c i \<longrightarrow> pending_priority c ! i < pending_priority c ! b
                                       \<or> pending_priority c ! i = pending_priority c ! b \<and> b \<le> i)"
proof (induction n)
  case (Suc n)
  obtain b p where r: "fold (best_pending_step s c) [0..<n] (0, 0) = (b, p)" by fastforce
  have nz: "candidate s c n \<Longrightarrow> n \<noteq> 0" using assms by metis
  have step: "fold (best_pending_step s c) [0..<Suc n] (0, 0) =
      (if candidate s c n \<and> (b = 0 \<or> p < pending_priority c ! n) then (n, pending_priority c ! n) else (b, p))"
    by (simp add: r best_pending_step_candidate)
  have ih: "if b = 0 then p = 0 \<and> (\<forall>i<n. \<not> candidate s c i)
           else b < n \<and> candidate s c b \<and> p = pending_priority c ! b \<and>
                (\<forall>i<n. candidate s c i \<longrightarrow> pending_priority c ! i < pending_priority c ! b
                                       \<or> pending_priority c ! i = pending_priority c ! b \<and> b \<le> i)"
    using Suc.IH unfolding r by simp
  show ?case
  proof (cases "candidate s c n \<and> (b = 0 \<or> p < pending_priority c ! n)")
    case True
    then show ?thesis using ih nz unfolding step
      by (fastforce simp: less_Suc_eq split: if_splits)
  next
    case False
    then show ?thesis using ih unfolding step
      by (auto simp: less_Suc_eq not_less le_less split: if_splits)
  qed
qed simp

lemma context_best_pending_spec:
  assumes "\<not> candidate s c 0" "num_ids s \<le> num_ids_word s * 32"
  shows "context_best_pending s c = 0 \<longleftrightarrow> (\<forall>i. \<not> candidate s c i)"
    and "context_best_pending s c \<noteq> 0 \<Longrightarrow> candidate s c (context_best_pending s c) \<and>
           (\<forall>i. candidate s c i \<longrightarrow>
                 pending_priority c ! i < pending_priority c ! context_best_pending s c
               \<or> pending_priority c ! i = pending_priority c ! context_best_pending s c
                   \<and> context_best_pending s c \<le> i)"
proof -
  have lt: "i < num_ids_word s * 32" if "candidate s c i" for i
    using that assms(2) by (simp add: candidate_def)
  note spec = best_pending_prefix [OF assms(1), of "num_ids_word s * 32"]
  show "context_best_pending s c = 0 \<longleftrightarrow> (\<forall>i. \<not> candidate s c i)"
    using spec lt unfolding context_best_pending_fold by (auto split: prod.splits if_splits)
  show "context_best_pending s c \<noteq> 0 \<Longrightarrow> candidate s c (context_best_pending s c) \<and>
           (\<forall>i. candidate s c i \<longrightarrow>
                 pending_priority c ! i < pending_priority c ! context_best_pending s c
               \<or> pending_priority c ! i = pending_priority c ! context_best_pending s c
                   \<and> context_best_pending s c \<le> i)"
    using spec lt unfolding context_best_pending_fold by (auto split: prod.splits if_splits)
qed

section \<open>The invariant\<close>

text \<open>
  Of a context: a claimed interrupt is pending, a pending one enabled, source 0 never, and a
  source that is not pending has no pending priority.
\<close>

definition context_ok :: "nat \<Rightarrow> plic_context \<Rightarrow> bool" where
  "context_ok n c \<longleftrightarrow>
     length (enable c) = 32 \<and> length (pending c) = 32 \<and> length (claimed c) = 32
     \<and> length (pending_priority c) = 1024 \<and> \<not> has_source (enable c) 0
     \<and> (\<forall>i<1024. (has_source (claimed c) i \<longrightarrow> has_source (pending c) i)
               \<and> (has_source (pending c) i \<longrightarrow> has_source (enable c) i \<and> i < n)
               \<and> (\<not> has_source (pending c) i \<longrightarrow> pending_priority c ! i = 0))"

text \<open>The interrupt line of a context: its bit in the \<open>mip\<close> register of its hart.\<close>

definition interrupt_line :: "plic \<Rightarrow> plic_context \<Rightarrow> bool" where
  "interrupt_line s c = bit (mip s (proc c)) (if mmode c then 11 else 9)"

definition plic_ok :: "plic \<Rightarrow> bool" where
  "plic_ok s \<longleftrightarrow>
     0 < num_ids s \<and> num_ids s \<le> 1024 \<and> num_ids_word s = (num_ids s + 31) div 32 \<and> max_prio s = 15
     \<and> length (level s) = 32 \<and> length (priority s) = 1024
     \<and> (\<forall>i<1024. has_source (level s) i \<longrightarrow> 0 < i \<and> i < num_ids s)
     \<and> distinct (map (\<lambda>c. (proc c, mmode c)) (contexts s))
     \<and> (\<forall>c\<in>set (contexts s). context_ok (num_ids s) c \<and> (interrupt_line s c \<longleftrightarrow> (\<exists>i. candidate s c i)))"

lemma plic_ok_context:
  "plic_ok s \<Longrightarrow> k < length (contexts s) \<Longrightarrow> context_ok (num_ids s) (contexts s ! k)"
  by (simp add: plic_ok_def)

lemma plic_ok_words: "plic_ok s \<Longrightarrow> num_ids s \<le> num_ids_word s * 32 \<and> num_ids_word s \<le> 32"
  by (auto simp: plic_ok_def)

lemma not_candidate_0: "context_ok n c \<Longrightarrow> \<not> candidate s c 0"
  by (auto simp: candidate_def context_ok_def)

lemma bit_backdoor: "bit (backdoor_write_with_mask old m v) n = (if bit m n then bit v n else bit old n)"
  by (auto simp: backdoor_write_with_mask_def bit_simps dest: bit_imp_le_length)

lemma bit_MIP: "bit MIP_MEIP n \<longleftrightarrow> n = 11" "bit MIP_SEIP n \<longleftrightarrow> n = 9"
proof -
  have m: "MIP_MEIP = 2 ^ 11" "MIP_SEIP = 2 ^ 9" by simp_all
  show "bit MIP_MEIP n \<longleftrightarrow> n = 11" "bit MIP_SEIP n \<longleftrightarrow> n = 9"
    unfolding m bit_exp_iff by auto
qed

text \<open>Every operation ends by replacing one context and updating its line.\<close>

lemma interrupt_line_update:
  "interrupt_line (context_update k s) c =
     (if proc c = proc (contexts s ! k) \<and> mmode c = mmode (contexts s ! k)
      then context_best_pending s (contexts s ! k) \<noteq> 0 else interrupt_line s c)"
  by (auto simp: interrupt_line_def context_update_def Let_def bit_backdoor bit_MIP)

lemma context_update_fields [simp]:
  "contexts (context_update k s) = contexts s" "num_ids (context_update k s) = num_ids s"
  "num_ids_word (context_update k s) = num_ids_word s" "max_prio (context_update k s) = max_prio s"
  "priority (context_update k s) = priority s" "level (context_update k s) = level s"
  by (simp_all add: context_update_def Let_def)

lemma set_context_fields [simp]:
  "contexts (set_context k c s) = (contexts s)[k := c]" "num_ids (set_context k c s) = num_ids s"
  "num_ids_word (set_context k c s) = num_ids_word s" "max_prio (set_context k c s) = max_prio s"
  "priority (set_context k c s) = priority s" "level (set_context k c s) = level s"
  "mip (set_context k c s) = mip s"
  by (simp_all add: set_context_def)

lemma candidate_frame: "num_ids s' = num_ids s \<Longrightarrow> candidate s' c = candidate s c"
  by (simp add: candidate_def fun_eq_iff)

lemma plic_ok_set_context:
  assumes ok: "plic_ok s" and k: "k < length (contexts s)" and c: "context_ok (num_ids s) c"
    and same: "proc c = proc (contexts s ! k)" "mmode c = mmode (contexts s ! k)"
  shows "plic_ok (context_update k (set_context k c s))"
proof -
  let ?s = "context_update k (set_context k c s)"
  let ?key = "\<lambda>c. (proc c, mmode c)"
  have dist: "distinct (map ?key (contexts s))" using ok by (simp add: plic_ok_def)
  have keys: "map ?key ((contexts s)[k := c]) = map ?key (contexts s)"
    using k same by (simp add: map_update list_update_same_conv)
  have "interrupt_line ?s d \<longleftrightarrow> (\<exists>i. candidate ?s d i)" if d: "d \<in> set ((contexts s)[k := c])" for d
  proof -
    obtain j where j: "j < length (contexts s)" "d = (contexts s)[k := c] ! j"
      using d by (auto simp: in_set_conv_nth)
    have cd: "candidate ?s d = candidate s d" for d by (rule candidate_frame) simp
    show ?thesis
    proof (cases "j = k")
      case True
      have "context_best_pending (set_context k c s) c \<noteq> 0 \<longleftrightarrow> (\<exists>i. candidate (set_context k c s) c i)"
        using context_best_pending_spec(1) [of "set_context k c s" c] not_candidate_0 [OF c] plic_ok_words [OF ok]
        by simp
      then show ?thesis
        using True j k by (simp add: interrupt_line_update cd candidate_frame [of "set_context k c s" s])
    next
      case False
      then have "d = contexts s ! j" using j by simp
      moreover have "?key (contexts s ! j) \<noteq> ?key (contexts s ! k)"
        using dist False j(1) k by (metis (no_types, lifting) distinct_conv_nth length_map nth_map)
      moreover have "interrupt_line s (contexts s ! j) \<longleftrightarrow> (\<exists>i. candidate s (contexts s ! j) i)"
        using ok j(1) by (auto simp: plic_ok_def)
      ultimately show ?thesis
        using k same by (auto simp: interrupt_line_update cd) (auto simp: interrupt_line_def)
    qed
  qed
  moreover have "context_ok (num_ids s) d" if "d \<in> set ((contexts s)[k := c])" for d
    using that c ok set_update_subset_insert [of "contexts s" k c] by (auto simp: plic_ok_def)
  ultimately show ?thesis using ok keys by (simp add: plic_ok_def)
qed

lemma plic_ok_update:
  assumes "plic_ok s" "k < length (contexts s)"
  shows "plic_ok (context_update k s)"
proof -
  have "set_context k (contexts s ! k) s = s" by (simp add: set_context_def)
  then show ?thesis using plic_ok_set_context [OF assms plic_ok_context [OF assms] refl refl] by metis
qed

section \<open>The operations keep the invariant\<close>

lemma context_ok_claim:
  assumes "context_ok n c" "has_source (pending c) i" "i < 1024"
  shows "context_ok n (c\<lparr>claimed := (claimed c)[i div 32 := claimed c ! (i div 32) OR push_bit (i mod 32) 1]\<rparr>)"
  using assms by (auto simp: context_ok_def source_update)

lemma context_ok_complete:
  assumes "context_ok n c" "i < 1024"
  shows "context_ok n (c\<lparr>claimed := (claimed c)[i div 32 := claimed c ! (i div 32) AND NOT (push_bit (i mod 32) 1)]\<rparr>)"
  using assms by (auto simp: context_ok_def source_update)

lemma context_ok_deliver:
  assumes "context_ok n c" "has_source (enable c) i" "i < n" "n \<le> 1024"
  shows "context_ok n (deliver_level i lvl p c)"
  using assms
  by (cases lvl) (auto simp: context_ok_def deliver_level_def Let_def source_update nth_list_update)

text \<open>The loop of \<open>context_enable_write\<close>, after its first \<open>m\<close> bits.\<close>

lemma div_mod_word: "i < (32 :: nat) \<Longrightarrow> (w * 32 + i) div 32 = w \<and> (w * 32 + i) mod 32 = i"
  by simp

lemma has_source_at: "i < 32 \<Longrightarrow> bit (ws ! w) i \<longleftrightarrow> has_source ws (w * 32 + i)"
  by (simp add: has_source_def)

lemma same_source: "i < 32 \<Longrightarrow> j = w * 32 + i \<longleftrightarrow> j div 32 = w \<and> j mod 32 = (i :: nat)"
  by auto

definition touched :: "nat \<Rightarrow> nat \<Rightarrow> u32 \<Rightarrow> nat \<Rightarrow> bool" where
  "touched w m x i \<longleftrightarrow> i div 32 = w \<and> i mod 32 < m \<and> bit x (i mod 32)"

definition enable_written :: "plic \<Rightarrow> nat \<Rightarrow> u32 \<Rightarrow> u32 \<Rightarrow> nat \<Rightarrow> plic_context \<Rightarrow> plic_context \<Rightarrow> bool" where
  "enable_written s w x v m c c' \<longleftrightarrow>
     proc c' = proc c \<and> mmode c' = mmode c \<and> priority_threshold c' = priority_threshold c \<and> enable c' = enable c
     \<and> length (pending c') = 32 \<and> length (claimed c') = 32 \<and> length (pending_priority c') = 1024
     \<and> (\<forall>i<1024.
          has_source (pending c') i =
            (if touched w m x i then bit v (i mod 32) \<and> (has_source (level s) i \<or> has_source (pending c) i)
             else has_source (pending c) i)
          \<and> has_source (claimed c') i = (has_source (claimed c) i \<and> \<not> (touched w m x i \<and> \<not> bit v (i mod 32)))
          \<and> pending_priority c' ! i =
              (if touched w m x i \<and> bit v (i mod 32) \<and> has_source (level s) i then priority s ! i
               else if touched w m x i \<and> \<not> bit v (i mod 32) then 0 else pending_priority c ! i))"

lemma enable_write_step_fields [simp]:
  "proc (enable_write_step s w x v m c) = proc c" "mmode (enable_write_step s w x v m c) = mmode c"
  "priority_threshold (enable_write_step s w x v m c) = priority_threshold c"
  "enable (enable_write_step s w x v m c) = enable c"
  "length (pending (enable_write_step s w x v m c)) = length (pending c)"
  "length (claimed (enable_write_step s w x v m c)) = length (claimed c)"
  "length (pending_priority (enable_write_step s w x v m c)) = length (pending_priority c)"
  by (simp_all add: enable_write_step_def Let_def)

lemma enable_write_step_source:
  fixes x v :: u32 and w m :: nat
  assumes w: "w < 32" "m < 32"
    and lens: "length (pending c) = 32" "length (claimed c) = 32" "length (pending_priority c) = 1024"
  defines "j \<equiv> w * 32 + m"
  defines "hit \<equiv> \<lambda>i. i = j \<and> bit x m"
  shows "has_source (pending (enable_write_step s w x v m c)) i =
           (if hit i then bit v m \<and> (has_source (level s) i \<or> has_source (pending c) i) else has_source (pending c) i)"
    and "has_source (claimed (enable_write_step s w x v m c)) i = (has_source (claimed c) i \<and> \<not> (hit i \<and> \<not> bit v m))"
    and "pending_priority (enable_write_step s w x v m c) ! i =
           (if hit i \<and> bit v m \<and> has_source (level s) i then priority s ! i
            else if hit i \<and> \<not> bit v m then 0 else pending_priority c ! i)"
proof -
  have j: "j < 1024" "j mod 32 = m" "j div 32 = w" using w unfolding j_def by simp_all
  note upd = has_source_set [where j = j, unfolded j(2,3)] has_source_clear [where j = j, unfolded j(2,3)]
  have lev: "bit (level s ! w) m = has_source (level s) j" by (simp add: has_source_def j)
  note step = enable_write_step_def [of s w x v m c, folded j_def, unfolded Let_def source_mask lev]
  show "has_source (pending (enable_write_step s w x v m c)) i =
           (if hit i then bit v m \<and> (has_source (level s) i \<or> has_source (pending c) i) else has_source (pending c) i)"
    unfolding step hit_def using upd [OF lens(1) j(1), of i] by (auto simp del: push_bit_of_1)
  show "has_source (claimed (enable_write_step s w x v m c)) i = (has_source (claimed c) i \<and> \<not> (hit i \<and> \<not> bit v m))"
    unfolding step hit_def using upd [OF lens(2) j(1), of i] by (auto simp del: push_bit_of_1)
  show "pending_priority (enable_write_step s w x v m c) ! i =
           (if hit i \<and> bit v m \<and> has_source (level s) i then priority s ! i
            else if hit i \<and> \<not> bit v m then 0 else pending_priority c ! i)"
    unfolding step hit_def using lens(3) j(1) by (auto simp: nth_list_update)
qed

lemma touched_Suc: "m < 32 \<Longrightarrow> touched w (Suc m) x i \<longleftrightarrow> touched w m x i \<or> i = w * 32 + m \<and> bit x m"
  using same_source [of m i w] by (auto simp: touched_def less_Suc_eq)

lemma touched_not: "m < 32 \<Longrightarrow> \<not> touched w m x (w * 32 + m)"
  by (simp add: touched_def)

lemma enable_write_step_written:
  assumes w: "w < 32" "m < 32" and c': "enable_written s w x v m c c'"
  shows "enable_written s w x v (Suc m) c (enable_write_step s w x v m c')"
proof -
  have lens: "length (pending c') = 32" "length (claimed c') = 32" "length (pending_priority c') = 1024"
    using c' by (simp_all add: enable_written_def)
  have on: "i = w * 32 + m \<Longrightarrow> bit v (i mod 32) = bit v m" for i using w by simp
  note at = enable_write_step_source [OF w lens] and t = touched_Suc [OF w(2)] touched_not [OF w(2), of w x]
  have old: "has_source (pending c') i =
            (if touched w m x i then bit v (i mod 32) \<and> (has_source (level s) i \<or> has_source (pending c) i)
             else has_source (pending c) i)"
    "has_source (claimed c') i = (has_source (claimed c) i \<and> \<not> (touched w m x i \<and> \<not> bit v (i mod 32)))"
    "pending_priority c' ! i =
              (if touched w m x i \<and> bit v (i mod 32) \<and> has_source (level s) i then priority s ! i
               else if touched w m x i \<and> \<not> bit v (i mod 32) then 0 else pending_priority c ! i)"
    if "i < 1024" for i
    using c' that unfolding enable_written_def by blast+
  have "has_source (pending (enable_write_step s w x v m c')) i =
            (if touched w (Suc m) x i then bit v (i mod 32) \<and> (has_source (level s) i \<or> has_source (pending c) i)
             else has_source (pending c) i)
        \<and> has_source (claimed (enable_write_step s w x v m c')) i =
            (has_source (claimed c) i \<and> \<not> (touched w (Suc m) x i \<and> \<not> bit v (i mod 32)))
        \<and> pending_priority (enable_write_step s w x v m c') ! i =
              (if touched w (Suc m) x i \<and> bit v (i mod 32) \<and> has_source (level s) i then priority s ! i
               else if touched w (Suc m) x i \<and> \<not> bit v (i mod 32) then 0 else pending_priority c ! i)"
    if "i < 1024" for i
    unfolding at t(1) old [OF that] using on [of i] t(2) by (cases "i = w * 32 + m") auto
  then show ?thesis using c' unfolding enable_written_def by simp
qed

lemma enable_write_loop:
  assumes "w < 32" "length (pending c) = 32" "length (claimed c) = 32" "length (pending_priority c) = 1024" "m \<le> 32"
  shows "enable_written s w x v m c (fold (enable_write_step s w x v) [0..<m] c)"
  using assms(5)
proof (induction m)
  case 0 then show ?case using assms by (simp add: enable_written_def touched_def)
next
  case (Suc m) then show ?case using enable_write_step_written [OF assms(1), of m] by simp
qed

lemma context_ok_enable_write:
  fixes s :: plic and c :: plic_context and v :: u32 and w :: nat
  defines "c' \<equiv> fold (enable_write_step s w (enable c ! w XOR v) v) [0..<32] (c\<lparr>enable := (enable c)[w := v]\<rparr>)"
  assumes ok: "context_ok (num_ids s) c" and w: "w < 32" and v0: "w = 0 \<Longrightarrow> \<not> bit v 0"
    and lev: "\<forall>i<1024. has_source (level s) i \<longrightarrow> 0 < i \<and> i < num_ids s"
  shows "context_ok (num_ids s) c'" and "proc c' = proc c" and "mmode c' = mmode c"
    and "enable c' = (enable c)[w := v]"
    and "i < 1024 \<Longrightarrow> has_source (pending c') i \<longleftrightarrow>
           has_source (enable c') i \<and> (has_source (pending c) i \<or> has_source (level s) i \<and> \<not> has_source (enable c) i)"
    and "i < 1024 \<Longrightarrow> has_source (claimed c') i \<longleftrightarrow> has_source (claimed c) i \<and> has_source (enable c') i"
proof -
  let ?c = "c\<lparr>enable := (enable c)[w := v]\<rparr>"
  note k = ok [unfolded context_ok_def]
  have wr: "enable_written s w (enable c ! w XOR v) v 32 ?c c'"
    unfolding c'_def using k w by (intro enable_write_loop) simp_all
  then show fields: "proc c' = proc c" "mmode c' = mmode c" "enable c' = (enable c)[w := v]"
    by (simp_all add: enable_written_def)
  have len: "w < length (enable c)" using k w by simp
  have en: "has_source (enable c') j \<longleftrightarrow> (if j div 32 = w then bit v (j mod 32) else has_source (enable c) j)" for j
    unfolding fields by (rule has_source_word [OF len])
  have tch: "touched w 32 (enable c ! w XOR v) j \<longleftrightarrow> j div 32 = w \<and> has_source (enable c) j \<noteq> bit v (j mod 32)" for j
    by (auto simp: touched_def has_source_def bit_xor_iff)
  have src: "has_source (claimed c) j \<longrightarrow> has_source (pending c) j"
    "has_source (pending c) j \<longrightarrow> has_source (enable c) j \<and> j < num_ids s"
    "\<not> has_source (pending c) j \<longrightarrow> pending_priority c ! j = 0" if "j < 1024" for j
    using k that by blast+
  have new: "has_source (pending c') j =
      (if touched w 32 (enable c ! w XOR v) j then bit v (j mod 32) \<and> (has_source (level s) j \<or> has_source (pending c) j)
       else has_source (pending c) j)"
    "has_source (claimed c') j = (has_source (claimed c) j \<and> \<not> (touched w 32 (enable c ! w XOR v) j \<and> \<not> bit v (j mod 32)))"
    "pending_priority c' ! j =
      (if touched w 32 (enable c ! w XOR v) j \<and> bit v (j mod 32) \<and> has_source (level s) j then priority s ! j
       else if touched w 32 (enable c ! w XOR v) j \<and> \<not> bit v (j mod 32) then 0 else pending_priority c ! j)"
    if "j < 1024" for j
    using wr that unfolding enable_written_def by simp_all
  show pend: "has_source (pending c') i \<longleftrightarrow>
           has_source (enable c') i \<and> (has_source (pending c) i \<or> has_source (level s) i \<and> \<not> has_source (enable c) i)"
    if "i < 1024" for i
    using src [OF that] unfolding new(1) [OF that] en tch by auto
  show clm: "has_source (claimed c') i \<longleftrightarrow> has_source (claimed c) i \<and> has_source (enable c') i"
    if "i < 1024" for i
    using src [OF that] unfolding new(2) [OF that] en tch by auto
  have prio: "\<not> has_source (pending c') j \<longrightarrow> pending_priority c' ! j = 0" if "j < 1024" for j
    using src [OF that] unfolding pend [OF that] new(3) [OF that] en tch by auto
  have "\<not> has_source (enable c') 0" using k v0 unfolding en by simp
  moreover have "length (enable c') = 32" "length (pending c') = 32" "length (claimed c') = 32" "length (pending_priority c') = 1024"
    using wr k fields by (simp_all add: enable_written_def)
  moreover have "has_source (claimed c') j \<longrightarrow> has_source (pending c') j" if "j < 1024" for j
    using src [OF that] unfolding pend [OF that] clm [OF that] by blast
  moreover have "has_source (pending c') j \<longrightarrow> has_source (enable c') j \<and> j < num_ids s" if "j < 1024" for j
    using src [OF that] lev that unfolding pend [OF that] by blast
  ultimately show "context_ok (num_ids s) c'" using prio unfolding context_ok_def by blast
qed

lemma plic_ok_enable_write:
  assumes ok: "plic_ok s" and k: "k < length (contexts s)"
  shows "plic_ok (context_enable_write k offset val s)"
proof (cases "unat (drop_bit 2 offset) \<ge> num_ids_word s")
  case True then show ?thesis using ok by (simp add: context_enable_write_def)
next
  case False
  let ?w = "unat (drop_bit 2 offset)"
  let ?v = "if ?w = 0 then val AND NOT 1 else val"
  let ?c = "contexts s ! k"
  let ?c' = "fold (enable_write_step s ?w (enable ?c ! ?w XOR ?v) ?v) [0..<32] (?c\<lparr>enable := (enable ?c)[?w := ?v]\<rparr>)"
  have w: "?w < 32" using False plic_ok_words [OF ok] by linarith
  have lev: "\<forall>i<1024. has_source (level s) i \<longrightarrow> 0 < i \<and> i < num_ids s" using ok by (simp add: plic_ok_def)
  have v0: "?w = 0 \<Longrightarrow> \<not> bit ?v 0" by (simp add: bit_and_iff bit_not_iff)
  note new = context_ok_enable_write [OF plic_ok_context [OF ok k] w v0 lev]
  have "context_enable_write k offset val s = context_update k (set_context k ?c' s)"
    using False unfolding context_enable_write_def Let_def by simp
  then show ?thesis using plic_ok_set_context [OF ok k new(1,2,3)] by simp
qed

lemma plic_ok_claim:
  assumes ok: "plic_ok s" and k: "k < length (contexts s)"
  shows "plic_ok (fst (context_claim k s))"
proof -
  let ?c = "contexts s ! k"
  let ?b = "context_best_pending s ?c"
  note c = plic_ok_context [OF ok k]
  have "candidate s ?c ?b" if "?b \<noteq> 0"
    using context_best_pending_spec(2) [OF not_candidate_0 [OF c]] plic_ok_words [OF ok] that by blast
  then have b: "has_source (pending ?c) ?b \<and> ?b < 1024" if "?b \<noteq> 0"
    using that ok by (auto simp: candidate_def plic_ok_def)
  show ?thesis
    using plic_ok_set_context [OF ok k context_ok_claim [OF c]] b plic_ok_update [OF ok k]
    by (simp add: context_claim_def Let_def)
qed

lemma plic_ok_priority_write: "plic_ok s \<Longrightarrow> plic_ok (priority_write offset val s)"
  unfolding priority_write_def Let_def plic_ok_def
  by (auto simp: interrupt_line_def candidate_def)

lemma plic_ok_context_write:
  assumes ok: "plic_ok s" and k: "k < length (contexts s)"
  shows "plic_ok (fst (context_write k offset val s))"
proof -
  let ?c = "contexts s ! k"
  note c = plic_ok_context [OF ok k]
  have t: "context_ok (num_ids s) (?c\<lparr>priority_threshold := p\<rparr>)" for p
    using c by (simp add: context_ok_def)
  have i: "unat val < num_ids s \<Longrightarrow> unat val < 1024" using ok by (simp add: plic_ok_def)
  show ?thesis
    unfolding context_write_def Let_def
    using plic_ok_set_context [OF ok k t] plic_ok_set_context [OF ok k context_ok_complete [OF c i]] ok
    by simp
qed

text \<open>The first context that has a source enabled, the only one a change of level reaches.\<close>

definition first_enabled :: "plic \<Rightarrow> nat \<Rightarrow> nat option" where
  "first_enabled s src = List.find (\<lambda>k. has_source (enable (contexts s ! k)) src) [0..<length (contexts s)]"

definition set_source_level :: "nat \<Rightarrow> bool \<Rightarrow> plic \<Rightarrow> plic" where
  "set_source_level src lvl s =
     s\<lparr>level := (level s)[src div 32 := if lvl then level s ! (src div 32) OR push_bit (src mod 32) 1
                                       else level s ! (src div 32) AND NOT (push_bit (src mod 32) 1)]\<rparr>"

lemma deliver_loop_find:
  "deliver_loop src lvl p ks s =
     (case List.find (\<lambda>k. has_source (enable (contexts s ! k)) src) ks of
        None \<Rightarrow> s
      | Some k \<Rightarrow> context_update k (set_context k (deliver_level src lvl p (contexts s ! k)) s))"
proof (induction ks)
  case (Cons k ks)
  have "(enable (contexts s ! k) ! (src div 32) AND push_bit (src mod 32) 1 \<noteq> 0)
        = has_source (enable (contexts s ! k)) src"
    unfolding source_mask has_source_def by simp
  then show ?case using Cons by (simp only: deliver_loop.simps find.simps split: if_split) simp
qed simp

lemma set_interrupt_level_first:
  "set_interrupt_level src lvl s =
     (if src = 0 \<or> num_ids s \<le> src then s
      else let s' = set_source_level src lvl s in
           case first_enabled s src of
             None \<Rightarrow> s'
           | Some k \<Rightarrow> context_update k (set_context k (deliver_level src lvl (priority s ! src) (contexts s ! k)) s'))"
  unfolding set_interrupt_level_def Let_def deliver_loop_find first_enabled_def set_source_level_def
  by (simp split: option.split)

lemma first_enabled_Some:
  assumes "first_enabled s src = Some k"
  shows "k < length (contexts s)" "has_source (enable (contexts s ! k)) src"
    "\<forall>j<k. \<not> has_source (enable (contexts s ! j)) src"
  using assms by (auto simp: first_enabled_def find_Some_iff)

lemma plic_ok_set_source_level:
  assumes "plic_ok s" "0 < src" "src < num_ids s"
  shows "plic_ok (set_source_level src lvl s)"
proof -
  have "src < 1024" "length (level s) = 32" using assms by (auto simp: plic_ok_def)
  then show ?thesis using assms
    by (cases lvl)
       (auto simp: plic_ok_def set_source_level_def source_update interrupt_line_def candidate_def)
qed

lemma plic_ok_set_interrupt_level:
  assumes ok: "plic_ok s"
  shows "plic_ok (set_interrupt_level src lvl s)"
proof (cases "src = 0 \<or> num_ids s \<le> src")
  case False
  let ?s = "set_source_level src lvl s"
  have s': "plic_ok ?s" using plic_ok_set_source_level [OF ok] False by simp
  have same: "contexts ?s = contexts s" "num_ids ?s = num_ids s" by (simp_all add: set_source_level_def)
  show ?thesis
  proof (cases "first_enabled s src")
    case None then show ?thesis using False s' by (simp add: set_interrupt_level_first)
  next
    case (Some k)
    note first = first_enabled_Some [OF Some]
    have "context_ok (num_ids s) (deliver_level src lvl (priority s ! src) (contexts s ! k))"
      using plic_ok_context [OF ok first(1)] first(2) False ok
      by (intro context_ok_deliver) (auto simp: plic_ok_def)
    moreover have "proc (deliver_level src lvl p c) = proc c \<and> mmode (deliver_level src lvl p c) = mmode c" for p c
      by (simp add: deliver_level_def Let_def)
    ultimately show ?thesis
      using plic_ok_set_context [OF s', of k "deliver_level src lvl (priority s ! src) (contexts s ! k)"]
        first(1) False Some by (simp add: set_interrupt_level_first same Let_def)
  qed
qed (use ok in \<open>simp add: set_interrupt_level_first\<close>)

lemma plic_ok_store_word: "plic_ok s \<Longrightarrow> plic_ok (fst (plic_store_word addr bytes s))"
  using plic_ok_priority_write plic_ok_enable_write plic_ok_context_write
  by (simp add: plic_store_word_def Let_def)

lemma plic_ok_store: "plic_ok s \<Longrightarrow> plic_ok (fst (plic_store addr len bytes s))"
  using plic_ok_store_word [of s addr "take 4 bytes"] plic_ok_store_word
  by (simp add: plic_store_def split: prod.split) (metis fst_conv)

lemma plic_ok_context_read:
  "plic_ok s \<Longrightarrow> k < length (contexts s) \<Longrightarrow> plic_ok (fst (context_read k offset s))"
  using plic_ok_claim [of s k] by (auto simp: context_read_def split: prod.split)

lemma plic_ok_load_word: "plic_ok s \<Longrightarrow> plic_ok (fst (plic_load_word addr s))"
  unfolding plic_load_word_def Let_def
  by (auto simp: plic_ok_context_read split: prod.split) (metis fst_conv plic_ok_context_read)

lemma plic_ok_load: "plic_ok s \<Longrightarrow> plic_ok (fst (plic_load addr len s))"
  using plic_ok_load_word [of s addr] plic_ok_load_word
  by (simp add: plic_load_def split: prod.split) (metis fst_conv)

section \<open>The controller in use\<close>

text \<open>What the rest of the simulator does with the controller, one constructor per call.\<close>

datatype plic_op = Plic_Load u64 nat | Plic_Store u64 nat "u8 list" | Plic_Level nat bool

fun plic_step :: "plic_op \<Rightarrow> plic \<Rightarrow> plic" where
  "plic_step (Plic_Load addr len) s = fst (plic_load addr len s)"
| "plic_step (Plic_Store addr len bytes) s = fst (plic_store addr len bytes s)"
| "plic_step (Plic_Level src lvl) s = set_interrupt_level src lvl s"

lemma plic_ok_step: "plic_ok s \<Longrightarrow> plic_ok (plic_step op s)"
  by (cases op) (simp_all add: plic_ok_load plic_ok_store plic_ok_set_interrupt_level)

section \<open>Priorities\<close>

text \<open>Every priority the controller holds has \<open>PLIC_PRIO_BITS\<close> bits.\<close>

definition context_prio_ok :: "plic_context \<Rightarrow> bool" where
  "context_prio_ok c \<longleftrightarrow> priority_threshold c \<le> 15 \<and> (\<forall>p\<in>set (pending_priority c). p \<le> 15)"

definition prio_ok :: "plic \<Rightarrow> bool" where
  "prio_ok s \<longleftrightarrow> (\<forall>p\<in>set (priority s). p \<le> 15) \<and> (\<forall>c\<in>set (contexts s). context_prio_ok c)"

lemma four_bits: "(ucast (val AND (push_bit PLIC_PRIO_BITS 1 - 1) :: u32) :: u8) \<le> 15"
proof -
  have m: "(push_bit PLIC_PRIO_BITS 1 - 1 :: u32) = mask 4" by (simp add: PLIC_PRIO_BITS_def mask_eq_exp_minus_1)
  have "unat (val AND mask 4 :: u32) < 16" unfolding unat_and_mask by simp
  then have "unat (ucast (val AND mask 4) :: u8) < 16" by (simp add: unsigned_ucast_eq unsigned_take_bit_eq take_bit_eq_mod)
  then show ?thesis unfolding m by (simp add: word_le_nat_alt)
qed

lemma in_set_update: "x \<in> set (xs[i := y]) \<Longrightarrow> x = y \<or> x \<in> set xs"
  using set_update_subset_insert [of xs i y] by auto

lemma prio_ok_context: "prio_ok s \<Longrightarrow> k < length (contexts s) \<Longrightarrow> context_prio_ok (contexts s ! k)"
  by (simp add: prio_ok_def)

lemma prio_ok_priority: "plic_ok s \<Longrightarrow> prio_ok s \<Longrightarrow> src < 1024 \<Longrightarrow> priority s ! src \<le> 15"
  by (auto simp: prio_ok_def plic_ok_def)

lemma prio_ok_update [simp]: "prio_ok (context_update k s) = prio_ok s"
  by (simp add: prio_ok_def)

lemma prio_ok_set_context: "prio_ok s \<Longrightarrow> context_prio_ok c \<Longrightarrow> prio_ok (set_context k c s)"
  by (auto simp: prio_ok_def dest: in_set_update)

lemma prio_ok_claim: "prio_ok s \<Longrightarrow> k < length (contexts s) \<Longrightarrow> prio_ok (fst (context_claim k s))"
  using prio_ok_context [of s k]
  by (auto simp: context_claim_def Let_def context_prio_ok_def intro: prio_ok_set_context)

lemma prio_ok_priority_write: "prio_ok s \<Longrightarrow> prio_ok (priority_write offset val s)"
  using four_bits [of val] by (auto simp: priority_write_def Let_def prio_ok_def dest!: in_set_update)

lemma prio_ok_context_write:
  assumes "prio_ok s" "k < length (contexts s)"
  shows "prio_ok (fst (context_write k offset val s))"
  using prio_ok_context [OF assms] four_bits [of val] assms(1)
  by (auto simp: context_write_def Let_def context_prio_ok_def intro!: prio_ok_set_context)

lemma enable_write_step_prio:
  assumes "context_prio_ok c" "priority s ! (w * 32 + i) \<le> 15"
  shows "context_prio_ok (enable_write_step s w x v i c)"
  using assms by (auto simp: enable_write_step_def Let_def context_prio_ok_def dest!: in_set_update)

lemma prio_ok_enable_write:
  assumes ok: "plic_ok s" "prio_ok s" and k: "k < length (contexts s)"
  shows "prio_ok (context_enable_write k offset val s)"
proof (cases "unat (drop_bit 2 offset) \<ge> num_ids_word s")
  case False
  let ?w = "unat (drop_bit 2 offset)"
  have "?w < 32" using False plic_ok_words [OF ok(1)] by linarith
  then have p: "priority s ! (?w * 32 + i) \<le> 15" if "i < 32" for i
    using that by (intro prio_ok_priority [OF ok]) linarith
  have "context_prio_ok c \<Longrightarrow> \<forall>i\<in>set is. i < 32 \<Longrightarrow> context_prio_ok (fold (enable_write_step s ?w x v) is c)" for x v c "is"
    using p by (induction "is" arbitrary: c) (simp_all add: enable_write_step_prio)
  moreover have "context_prio_ok ((contexts s ! k)\<lparr>enable := e\<rparr>)" for e
    using prio_ok_context [OF ok(2) k] by (simp add: context_prio_ok_def)
  ultimately show ?thesis
    using ok(2) by (auto simp: context_enable_write_def Let_def intro!: prio_ok_set_context)
qed (use ok in \<open>simp add: context_enable_write_def\<close>)

lemma prio_ok_set_interrupt_level:
  assumes ok: "plic_ok s" "prio_ok s"
  shows "prio_ok (set_interrupt_level src lvl s)"
proof (cases "src = 0 \<or> num_ids s \<le> src")
  case False
  have s': "prio_ok (set_source_level src lvl s)" using ok(2) by (simp add: prio_ok_def set_source_level_def)
  have "src < 1024" using False ok(1) by (auto simp: plic_ok_def)
  then have "context_prio_ok (deliver_level src lvl (priority s ! src) (contexts s ! k))"
    if "k < length (contexts s)" for k
    using prio_ok_priority [OF ok] prio_ok_context [OF ok(2) that]
    by (auto simp: deliver_level_def Let_def context_prio_ok_def dest!: in_set_update)
  then show ?thesis
    using False s' first_enabled_Some(1) [of s src]
    by (auto simp: set_interrupt_level_first Let_def split: option.split intro!: prio_ok_set_context)
qed (use ok in \<open>simp add: set_interrupt_level_first\<close>)

lemma prio_ok_store_word: "plic_ok s \<Longrightarrow> prio_ok s \<Longrightarrow> prio_ok (fst (plic_store_word addr bytes s))"
  using prio_ok_priority_write prio_ok_enable_write prio_ok_context_write
  by (simp add: plic_store_word_def Let_def)

lemma prio_ok_store: "plic_ok s \<Longrightarrow> prio_ok s \<Longrightarrow> prio_ok (fst (plic_store addr len bytes s))"
  using plic_ok_store_word [of s addr "take 4 bytes"] prio_ok_store_word [of s addr "take 4 bytes"] prio_ok_store_word
  by (simp add: plic_store_def split: prod.split) (metis fst_conv)

lemma prio_ok_context_read: "prio_ok s \<Longrightarrow> k < length (contexts s) \<Longrightarrow> prio_ok (fst (context_read k offset s))"
  using prio_ok_claim [of s k] by (auto simp: context_read_def split: prod.split)

lemma prio_ok_load_word: "prio_ok s \<Longrightarrow> prio_ok (fst (plic_load_word addr s))"
  unfolding plic_load_word_def Let_def
  by (auto simp: prio_ok_context_read split: prod.split) (metis fst_conv prio_ok_context_read)

lemma prio_ok_load: "prio_ok s \<Longrightarrow> prio_ok (fst (plic_load addr len s))"
  using prio_ok_load_word [of s addr] prio_ok_load_word
  by (simp add: plic_load_def split: prod.split) (metis fst_conv)

lemma prio_ok_step: "plic_ok s \<Longrightarrow> prio_ok s \<Longrightarrow> prio_ok (plic_step op s)"
  by (cases op) (simp_all add: prio_ok_load prio_ok_store prio_ok_set_interrupt_level)

lemma prio_ok_init: "prio_ok (plic_t harts ndev mip0)"
  by (auto simp: prio_ok_def plic_t_def context_prio_ok_def plic_context_t_def)

section \<open>The initial state\<close>

lemma context_ok_init: "n \<le> 1024 \<Longrightarrow> context_ok n (plic_context_t p m)"
  by (auto simp: context_ok_def plic_context_t_def)

lemma plic_ok_init:
  assumes "ndev \<le> 1023" "distinct (map fst harts)"
    and "\<forall>h\<in>fst ` set harts. \<not> bit (mip0 h) 11 \<and> \<not> bit (mip0 h) 9"
  shows "plic_ok (plic_t harts ndev mip0)"
proof -
  let ?cs = "\<lambda>harts. concat (map (\<lambda>(h, s). plic_context_t h True # (if s then [plic_context_t h False] else [])) harts)"
  have pm: "proc (plic_context_t h m) = h" "mmode (plic_context_t h m) = m" for h m
    by (simp_all add: plic_context_t_def)
  have procs: "c \<in> set (?cs harts) \<Longrightarrow> proc c \<in> fst ` set harts" for c harts
    by (force simp: pm split: if_splits)
  have "distinct (map (\<lambda>c. (proc c, mmode c)) (?cs harts))"
    using assms(2)
  proof (induction harts)
    case (Cons h hs)
    then have "c \<in> set (?cs hs) \<Longrightarrow> proc c \<noteq> fst h" for c using procs [of c hs] by (metis distinct.simps(2) list.simps(9) set_map)
    then have "(fst h, m) \<notin> (\<lambda>c. (proc c, mmode c)) ` set (?cs hs)" for m by (metis (no_types, lifting) fst_conv imageE)
    moreover have "?cs (h # hs) = plic_context_t (fst h) True # (if snd h then [plic_context_t (fst h) False] else []) @ ?cs hs"
      by (simp split: prod.split)
    ultimately show ?case using Cons by (simp add: pm)
  qed simp
  moreover have "context_ok (ndev + 1) c \<and> \<not> interrupt_line (plic_t harts ndev mip0) c
      \<and> (\<forall>i. \<not> candidate (plic_t harts ndev mip0) c i)" if "c \<in> set (?cs harts)" for c
  proof -
    have "\<exists>h m. c = plic_context_t h m" using that by (auto split: if_splits)
    then obtain h m where c: "c = plic_context_t h m" by blast
    have "h \<in> fst ` set harts" using procs [OF that] by (simp add: c pm)
    then show ?thesis using context_ok_init [of "ndev + 1"] assms(1,3)
      by (auto simp: c candidate_def interrupt_line_def pm plic_t_def plic_context_t_def)
  qed
  ultimately show ?thesis using assms(1)
    by (auto simp: plic_ok_def plic_t_def PLIC_PRIO_BITS_def)
qed

section \<open>Claiming and completing\<close>

text \<open>The claim/complete register of context \<open>k\<close>.\<close>

definition claim_address :: "nat \<Rightarrow> u64" where
  "claim_address k = 0x200004 + of_nat k * 0x1000"

lemma claim_address:
  assumes "k < 3584"
  shows "\<not> claim_address k < 0x1000" "\<not> claim_address k < 0x2000" "\<not> claim_address k < 0x200000"
    "claim_address k < 0x1000000" "unat ((claim_address k - 0x200000) div 0x1000) = k"
    "claim_address k - (of_nat k * 0x1000 + 0x200000) = 4" "unat (claim_address k) mod 4 = 0"
proof -
  have u: "unat (claim_address k) = 0x200004 + k * 0x1000"
    using assms unfolding claim_address_def
    by (simp add: unat_word_ariths unat_of_nat take_bit_nat_eq_self)
  then show "\<not> claim_address k < 0x1000" "\<not> claim_address k < 0x2000" "\<not> claim_address k < 0x200000"
    "claim_address k < 0x1000000" "unat (claim_address k) mod 4 = 0"
    using assms by (simp_all add: word_less_nat_alt)
  have "claim_address k - 0x200000 = of_nat (4 + k * 0x1000)" by (simp add: claim_address_def algebra_simps)
  then have "unat (claim_address k - 0x200000) = 4 + k * 0x1000"
    using assms by (simp only: unat_of_nat) (simp add: take_bit_nat_eq_self)
  then show "unat ((claim_address k - 0x200000) div 0x1000) = k" by (simp add: unat_div_distrib)
  show "claim_address k - (of_nat k * 0x1000 + 0x200000) = 4" by (simp add: claim_address_def)
qed

lemma plic_load_claim:
  assumes "k < length (contexts s)" "k < 3584"
  shows "plic_load (claim_address k) 4 s =
         (fst (context_claim k s), True, read_little_endian_reg (of_nat (snd (context_claim k s)) :: u32) 4 4)"
  by (simp add: plic_load_def plic_load_word_def Let_def context_read_def claim_address [OF assms(2)] assms(1)
           split: prod.split)

lemma context_claim_contexts:
  "contexts (fst (context_claim k s)) =
     (if snd (context_claim k s) = 0 then contexts s
      else let c = contexts s ! k; b = snd (context_claim k s)
           in (contexts s)[k := c\<lparr>claimed := (claimed c)[b div 32 := claimed c ! (b div 32) OR push_bit (b mod 32) 1]\<rparr>])"
  "num_ids (fst (context_claim k s)) = num_ids s"
  "snd (context_claim k s) = context_best_pending s (contexts s ! k)"
  by (simp_all add: context_claim_def Let_def)

text \<open>The write that completes interrupt \<open>b\<close> on context \<open>k\<close>.\<close>

lemma plic_store_claim:
  assumes "k < length (contexts s)" "k < 3584" "b < num_ids s" "num_ids s \<le> 1024"
  shows "plic_store (claim_address k) 4 (read_little_endian_reg (of_nat b :: u32) (claim_address k) 4) s =
         context_write k 4 (of_nat b) s"
  by (simp add: plic_store_def plic_store_word_def Let_def claim_address [OF assms(2)] assms)

lemma unat_source: "b < 1024 \<Longrightarrow> unat (of_nat b :: u32) = b"
  by (simp add: unat_of_nat take_bit_nat_eq_self)

lemma context_write_complete:
  assumes "b < num_ids s" "num_ids s \<le> 1024"
  shows "context_write k 4 (of_nat b) s =
     (let c = contexts s ! k in
      (if has_source (enable c) b
       then context_update k (set_context k (c\<lparr>claimed := (claimed c)[b div 32 := claimed c ! (b div 32) AND NOT (push_bit (b mod 32) 1)]\<rparr>) s)
       else s, True))"
proof -
  have "b < 1024" using assms by simp
  then show ?thesis
    using assms(1) source_mask [of "enable (contexts s ! k) ! (b div 32)" "b mod 32"]
    by (simp add: context_write_def Let_def unat_source has_source_def)
qed

lemma or_and_not_bit: "\<not> bit (w :: u32) n \<Longrightarrow> (w OR push_bit n 1) AND NOT (push_bit n 1) = w"
  by (rule bit_word_eqI) (auto simp: bit_simps)

lemma context_update_id:
  assumes "plic_ok s" "k < length (contexts s)"
  shows "context_update k s = s"
proof -
  let ?c = "contexts s ! k"
  let ?n = "if mmode ?c then 11 else 9 :: nat" and ?m = "if mmode ?c then MIP_MEIP else MIP_SEIP"
  have "interrupt_line s ?c \<longleftrightarrow> context_best_pending s ?c \<noteq> 0"
    using context_best_pending_spec(1) [OF not_candidate_0 [OF plic_ok_context [OF assms]]] plic_ok_words [OF assms(1)] assms
    by (auto simp: plic_ok_def)
  then have "backdoor_write_with_mask (mip s (proc ?c)) ?m (if context_best_pending s ?c \<noteq> 0 then ?m else 0) = mip s (proc ?c)"
    by (intro bit_word_eqI, unfold bit_backdoor interrupt_line_def)
       (cases "mmode ?c"; cases "context_best_pending s ?c = 0"; auto simp: bit_MIP simp del: bit_numeral_word_iff)
  then show ?thesis by (simp add: context_update_def Let_def)
qed

lemma backdoor_twice:
  "backdoor_write_with_mask (backdoor_write_with_mask old m v) m v' = backdoor_write_with_mask old m v'"
  by (rule bit_eqI) (simp add: bit_backdoor)

lemma context_best_pending_frame:
  assumes "num_ids s' = num_ids s" "num_ids_word s' = num_ids_word s"
  shows "context_best_pending s' c = context_best_pending s c"
  unfolding context_best_pending_def best_pending_step_def assms ..

lemma context_update_restore:
  assumes "plic_ok s" "k < length (contexts s)" "proc c1 = proc (contexts s ! k)" "mmode c1 = mmode (contexts s ! k)"
  shows "context_update k (set_context k (contexts s ! k) (context_update k (set_context k c1 s))) = s"
proof -
  have "context_update k (set_context k (contexts s ! k) (context_update k (set_context k c1 s))) = context_update k s"
    using assms(2-4) context_best_pending_frame [of "set_context k (contexts s ! k) (context_update k (set_context k c1 s))" s]
    by (simp add: context_update_def set_context_def Let_def backdoor_twice)
  then show ?thesis using context_update_id [OF assms(1,2)] by simp
qed

text \<open>The interrupt a context delivers next, as a specification.\<close>

definition best_source :: "plic \<Rightarrow> plic_context \<Rightarrow> nat \<Rightarrow> bool" where
  "best_source s c b \<longleftrightarrow>
     (if b = 0 then \<forall>i. \<not> candidate s c i
      else candidate s c b \<and>
           (\<forall>i. candidate s c i \<longrightarrow> pending_priority c ! i < pending_priority c ! b
                                 \<or> pending_priority c ! i = pending_priority c ! b \<and> b \<le> i))"

lemma context_best_pending_best:
  assumes "plic_ok s" "k < length (contexts s)"
  shows "best_source s (contexts s ! k) (context_best_pending s (contexts s ! k))"
  using context_best_pending_spec [OF not_candidate_0 [OF plic_ok_context [OF assms]]] plic_ok_words [OF assms(1)]
  by (simp add: best_source_def)

lemma candidate_claimed:
  assumes "length (claimed c) = 32" "b < 1024"
  shows "candidate s (c\<lparr>claimed := (claimed c)[b div 32 := claimed c ! (b div 32) OR push_bit (b mod 32) 1]\<rparr>) i
         \<longleftrightarrow> candidate s c i \<and> i \<noteq> b"
  using assms by (auto simp: candidate_def source_update)

lemma level_delivery:
  fixes s :: plic and src :: nat and lvl :: bool
  assumes ok: "plic_ok s" and src: "0 < src" "src < num_ids s"
  defines "s' \<equiv> set_interrupt_level src lvl s"
  shows "plic_ok s' \<and> (has_source (level s') src \<longleftrightarrow> lvl)
     \<and> (\<forall>i. i \<noteq> src \<longrightarrow> (has_source (level s') i \<longleftrightarrow> has_source (level s) i))
     \<and> (case first_enabled s src of
          None \<Rightarrow> contexts s' = contexts s
        | Some k \<Rightarrow>
            let c = contexts s ! k; c' = contexts s' ! k in
            contexts s' = (contexts s)[k := c'] \<and> enable c' = enable c
            \<and> (\<forall>i. candidate s' c' i \<longleftrightarrow> (if i = src then lvl \<and> \<not> has_source (claimed c) src else candidate s c i))
            \<and> (\<forall>i. i \<noteq> src \<longrightarrow> pending_priority c' ! i = pending_priority c ! i)
            \<and> pending_priority c' ! src = (if lvl then priority s ! src else 0)
            \<and> (interrupt_line s' c' \<longleftrightarrow> (\<exists>i. candidate s' c' i)))"
proof -
  have ok': "plic_ok s'" unfolding s'_def by (rule plic_ok_set_interrupt_level [OF ok])
  have n: "src < 1024" "length (level s) = 32" using ok src by (auto simp: plic_ok_def)
  have eq: "s' = (let s1 = set_source_level src lvl s in
           case first_enabled s src of
             None \<Rightarrow> s1
           | Some k \<Rightarrow> context_update k (set_context k (deliver_level src lvl (priority s ! src) (contexts s ! k)) s1))"
    unfolding s'_def using src by (simp add: set_interrupt_level_first)
  have same: "contexts (set_source_level src lvl s) = contexts s" "num_ids s' = num_ids s"
    "level s' = level (set_source_level src lvl s)"
    unfolding eq by (simp_all add: set_source_level_def Let_def split: option.split)
  have lev: "has_source (level s') i \<longleftrightarrow> (if i = src then lvl else has_source (level s) i)" for i
    unfolding same(3) set_source_level_def using n by (cases lvl) (auto simp: source_update)
  show ?thesis
  proof (cases "first_enabled s src")
    case None
    then show ?thesis using ok' lev eq same(1) by simp
  next
    case (Some k)
    let ?c = "contexts s ! k" and ?d = "deliver_level src lvl (priority s ! src) (contexts s ! k)"
    have k: "k < length (contexts s)" using first_enabled_Some [OF Some] by simp
    have ctx: "contexts s' = (contexts s)[k := ?d]" unfolding eq by (simp add: Some same)
    have len: "length (pending ?c) = 32" "length (claimed ?c) = 32" "length (pending_priority ?c) = 1024"
      using plic_ok_context [OF ok k] by (simp_all add: context_ok_def)
    have "candidate s' ?d = (\<lambda>i. if i = src then lvl \<and> \<not> has_source (claimed ?c) src else candidate s ?c i)"
      using len n src by (cases lvl) (auto simp: candidate_def same deliver_level_def Let_def source_update fun_eq_iff)
    moreover have "pending_priority ?d ! i = (if i = src then if lvl then priority s ! src else 0 else pending_priority ?c ! i)" for i
      using len n by (cases lvl) (simp_all add: deliver_level_def Let_def nth_list_update)
    moreover have "interrupt_line s' ?d \<longleftrightarrow> (\<exists>i. candidate s' ?d i)"
      using ok' k unfolding plic_ok_def ctx by (metis nth_list_update_eq nth_mem length_list_update ctx)
    moreover have "enable ?d = enable ?c" by (simp add: deliver_level_def Let_def)
    ultimately show ?thesis using ok' lev k Some by (simp add: ctx Let_def)
  qed
qed

section \<open>Properties\<close>

text \<open>C6: Whatever sequence of loads, stores and source level changes the interrupt controller
  sees after its construction, its invariant holds: in every context a claimed source is
  pending, a pending one enabled, source 0 never, and ids are in range; every priority,
  pending priority and threshold has four bits; and each external interrupt line of a hart
  is raised exactly when its context has a pending source that is not claimed, whatever its
  priority and the threshold, which the code stores and never compares.\<close>

theorem plic_interrupt_lines:
  assumes "ndev \<le> 1023" "distinct (map fst harts)"
    and "\<forall>h\<in>fst ` set harts. \<not> bit (mip0 h) 11 \<and> \<not> bit (mip0 h) 9"
  shows "let s = fold plic_step ops (plic_t harts ndev mip0) in
     plic_ok s
     \<and> (\<forall>c\<in>set (contexts s). bit (mip s (proc c)) (if mmode c then 11 else 9)
          \<longleftrightarrow> (\<exists>i < num_ids s. has_source (pending c) i \<and> \<not> has_source (claimed c) i))
     \<and> (\<forall>p\<in>set (priority s). p \<le> 15)
     \<and> (\<forall>c\<in>set (contexts s). priority_threshold c \<le> 15 \<and> (\<forall>p\<in>set (pending_priority c). p \<le> 15))"
proof -
  have "plic_ok s \<Longrightarrow> prio_ok s \<Longrightarrow> plic_ok (fold plic_step ops s) \<and> prio_ok (fold plic_step ops s)" for s
    by (induction ops arbitrary: s) (simp_all add: plic_ok_step prio_ok_step)
  then have "plic_ok (fold plic_step ops (plic_t harts ndev mip0))" "prio_ok (fold plic_step ops (plic_t harts ndev mip0))"
    using plic_ok_init [OF assms] prio_ok_init by blast+
  then show ?thesis
    unfolding Let_def prio_ok_def context_prio_ok_def plic_ok_def interrupt_line_def candidate_def by auto
qed

lemma plic_interrupt_lines_witness:
  "let s = fold plic_step [Plic_Store 12 4 [5, 0, 0, 0], Plic_Store 0x2000 4 [8, 0, 0, 0], Plic_Level 3 True,
                            Plic_Load 0x200004 4] (plic_t [(0, True), (1, False)] 31 (\<lambda>h. 0))
   in plic_ok s \<and> (\<forall>p\<in>set (priority s). p \<le> 15)"
  using plic_interrupt_lines [of 31 "[(0, True), (1, False)]" "\<lambda>h. 0"
      "[Plic_Store 12 4 [5, 0, 0, 0], Plic_Store 0x2000 4 [8, 0, 0, 0], Plic_Level 3 True, Plic_Load 0x200004 4]"]
  by (simp add: Let_def del: plic_step.simps)

text \<open>C14: A read of the claim register returns what a reference definition chooses, the pending
  unclaimed source of the highest recorded priority, the lowest id on ties, zero when there
  is none; it claims that source and nothing else, in that context only.\<close>

theorem plic_claim_correct:
  assumes ok: "plic_ok s" and k: "k < length (contexts s)" "k < 3584"
  shows "\<exists>b s'. plic_load (claim_address k) 4 s = (s', True, read_little_endian_reg (of_nat b :: u32) 4 4)
           \<and> best_source s (contexts s ! k) b
           \<and> plic_ok s'
           \<and> (\<forall>i. candidate s' (contexts s' ! k) i \<longleftrightarrow> candidate s (contexts s ! k) i \<and> i \<noteq> b)
           \<and> (\<forall>j. j \<noteq> k \<longrightarrow> contexts s' ! j = contexts s ! j)"
proof -
  let ?c = "contexts s ! k"
  let ?b = "context_best_pending s ?c" and ?s = "fst (context_claim k s)"
  note c = plic_ok_context [OF ok k(1)]
  have best: "best_source s ?c ?b" by (rule context_best_pending_best [OF ok k(1)])
  have "?b < 1024" "length (claimed ?c) = 32"
    using best c ok by (auto simp: best_source_def candidate_def context_ok_def plic_ok_def split: if_splits)
  moreover have "\<not> candidate s ?c 0" by (rule not_candidate_0 [OF c])
  ultimately have "candidate ?s (contexts ?s ! k) i \<longleftrightarrow> candidate s ?c i \<and> i \<noteq> ?b" for i
    using k best unfolding candidate_frame [OF context_claim_contexts(2)] context_claim_contexts(1,3) Let_def
    by (cases "?b = 0") (auto simp: candidate_claimed best_source_def simp del: push_bit_of_1)
  moreover have "j \<noteq> k \<Longrightarrow> contexts ?s ! j = contexts s ! j" for j
    unfolding context_claim_contexts(1) Let_def by simp
  ultimately show ?thesis
    using plic_load_claim [OF k] context_claim_contexts(3) [of k s] best plic_ok_claim [OF ok k(1)]
    by (intro exI [of _ ?b] exI [of _ ?s]) simp
qed

text \<open>C26: Writing back to the claim register what a claim returned completes it: the controller
  is in the state it had before the claim, interrupt lines included.\<close>

theorem plic_claim_complete:
  assumes ok: "plic_ok s" and k: "k < length (contexts s)" "k < 3584"
    and claim: "plic_load (claim_address k) 4 s = (s', True, bytes)"
  shows "plic_store (claim_address k) 4 bytes s' = (s, True)"
proof -
  let ?c = "contexts s ! k"
  let ?b = "context_best_pending s ?c"
  note c = plic_ok_context [OF ok k(1)]
  have s': "s' = fst (context_claim k s)"
    and bytes: "bytes = read_little_endian_reg (of_nat ?b :: u32) (claim_address k) 4"
    using claim read_little_endian_reg_offset [where 'a = 32, of 4 4 "claim_address k"] claim_address(7) [OF k(2)]
    unfolding plic_load_claim [OF k] context_claim_contexts(3) by auto
  have best: "best_source s ?c ?b" by (rule context_best_pending_best [OF ok k(1)])
  have n: "num_ids s \<le> 1024" "0 < num_ids s" using ok by (simp_all add: plic_ok_def)
  have b: "?b < num_ids s" using best n by (auto simp: best_source_def candidate_def split: if_splits)
  have store: "plic_store (claim_address k) 4 bytes s' = context_write k 4 (of_nat ?b) s'"
    unfolding bytes using k b n by (intro plic_store_claim) (simp_all add: s' context_claim_contexts(1,2) Let_def)
  have complete: "context_write k 4 (of_nat ?b) s' =
     (let c = contexts s' ! k in
      (if has_source (enable c) ?b
       then context_update k (set_context k (c\<lparr>claimed := (claimed c)[?b div 32 := claimed c ! (?b div 32) AND NOT (push_bit (?b mod 32) 1)]\<rparr>) s')
       else s', True))"
    using b n by (intro context_write_complete) (simp_all add: s' context_claim_contexts(2))
  show ?thesis
  proof (cases "?b = 0")
    case True
    then have "s' = s" using context_update_id [OF ok k(1)] by (simp add: s' context_claim_def Let_def)
    then show ?thesis using c True unfolding store complete by (simp add: context_ok_def)
  next
    case False
    let ?c1 = "?c\<lparr>claimed := (claimed ?c)[?b div 32 := claimed ?c ! (?b div 32) OR push_bit (?b mod 32) 1]\<rparr>"
    have s1: "s' = context_update k (set_context k ?c1 s)"
      using False by (simp add: s' context_claim_def Let_def)
    then have ck: "contexts s' ! k = ?c1" using k by simp
    have "candidate s ?c ?b" using best False by (simp add: best_source_def)
    then have e: "has_source (enable ?c) ?b" and ncl: "\<not> bit (claimed ?c ! (?b div 32)) (?b mod 32)"
      and blen: "?b div 32 < length (claimed ?c)"
      using c b n by (auto simp: candidate_def context_ok_def has_source_def div_less_iff_less_mult)
    have "?c1\<lparr>claimed := (claimed ?c1)[?b div 32 := claimed ?c1 ! (?b div 32) AND NOT (push_bit (?b mod 32) 1)]\<rparr> = ?c"
      using or_and_not_bit [OF ncl] blen by (simp del: push_bit_of_1)
    then show ?thesis
      unfolding store complete ck Let_def using e context_update_restore [OF ok k(1), of ?c1] s1 by simp
  qed
qed

text \<open>C28: A change of the level of a source reaches the first context that enables it, and only
  that one: there the source becomes a candidate (unless claimed) with its priority, or is
  cleared, and the line follows; no other context and no other source changes.\<close>

theorem plic_level_delivery:
  assumes "plic_ok s" "0 < src" "src < num_ids s"
  shows "let s' = set_interrupt_level src lvl s in
     plic_ok s' \<and> (has_source (level s') src \<longleftrightarrow> lvl)
     \<and> (\<forall>i. i \<noteq> src \<longrightarrow> (has_source (level s') i \<longleftrightarrow> has_source (level s) i))
     \<and> (case first_enabled s src of
          None \<Rightarrow> contexts s' = contexts s
        | Some k \<Rightarrow>
            let c = contexts s ! k; c' = contexts s' ! k in
            contexts s' = (contexts s)[k := c'] \<and> enable c' = enable c
            \<and> (\<forall>i. candidate s' c' i \<longleftrightarrow> (if i = src then lvl \<and> \<not> has_source (claimed c) src else candidate s c i))
            \<and> (\<forall>i. i \<noteq> src \<longrightarrow> pending_priority c' ! i = pending_priority c ! i)
            \<and> pending_priority c' ! src = (if lvl then priority s ! src else 0)
            \<and> (interrupt_line s' c' \<longleftrightarrow> (\<exists>i. candidate s' c' i)))"
  unfolding Let_def by (rule level_delivery [OF assms, unfolded Let_def])

section \<open>A run\<close>

text \<open>
  One hart with supervisor mode: source 3 has priority 5, both of its contexts enable it, and
  its level rises before the supervisor context enables it.
\<close>

definition demo_plic :: plic where
  "demo_plic = fold plic_step
     [Plic_Store 12 4 [5, 0, 0, 0], Plic_Store 0x2000 4 [8, 0, 0, 0], Plic_Level 3 True,
      Plic_Store 0x2080 4 [8, 0, 0, 0]] (plic_t [(0, True)] 31 (\<lambda>h. 0))"

lemma demo_plic_ok: "plic_ok demo_plic"
proof -
  have "plic_ok (plic_t [(0, True)] 31 (\<lambda>h. 0))" by (rule plic_ok_init) auto
  then show ?thesis unfolding demo_plic_def by (simp add: plic_ok_step del: plic_step.simps)
qed

lemma context_update_length: "length (contexts (context_update k s)) = length (contexts s)"
  by simp

lemma plic_step_size: "length (contexts (plic_step op s)) = length (contexts s) \<and> num_ids (plic_step op s) = num_ids s"
proof -
  have u: "length (contexts (set_interrupt_level src lvl s)) = length (contexts s) \<and> num_ids (set_interrupt_level src lvl s) = num_ids s" for src lvl s
    by (simp add: set_interrupt_level_first set_source_level_def Let_def split: option.split)
  have w: "length (contexts (fst (plic_store_word a b s))) = length (contexts s) \<and> num_ids (fst (plic_store_word a b s)) = num_ids s" for a b s
    by (simp add: plic_store_word_def priority_write_def context_enable_write_def context_write_def Let_def)
  have c: "length (contexts (fst (context_read k a s))) = length (contexts s) \<and> num_ids (fst (context_read k a s)) = num_ids s" for k a s
    using context_claim_contexts(1,2) [of k s] by (auto simp: context_read_def Let_def split: prod.split if_splits)
  have r: "length (contexts (fst (plic_load_word a s))) = length (contexts s) \<and> num_ids (fst (plic_load_word a s)) = num_ids s" for a s
    using c unfolding plic_load_word_def Let_def by (auto split: prod.split) (metis fst_conv)+
  show ?thesis
  proof (cases op)
    case (Plic_Load a l)
    then show ?thesis using r [of a s] r [of "a + 4" "fst (plic_load_word a s)"]
      by (auto simp: plic_load_def split: prod.split if_splits)
  next
    case (Plic_Store a l b)
    then show ?thesis using w [of a b s] w [of a "take 4 b" s] w [of "a + 4" "drop 4 b" "fst (plic_store_word a (take 4 b) s)"]
      by (auto simp: plic_store_def split: prod.split if_splits)
  qed (use u in simp)
qed

lemma demo_plic_size: "length (contexts demo_plic) = 2" "num_ids demo_plic = 32"
  by (simp_all add: demo_plic_def plic_step_size del: plic_step.simps) (simp_all add: plic_t_def)

lemma plic_claim_correct_witness:
  "\<exists>b s'. plic_load (claim_address 1) 4 demo_plic = (s', True, read_little_endian_reg (of_nat b :: u32) 4 4)
     \<and> best_source demo_plic (contexts demo_plic ! 1) b \<and> plic_ok s'
     \<and> (\<forall>i. candidate s' (contexts s' ! 1) i \<longleftrightarrow> candidate demo_plic (contexts demo_plic ! 1) i \<and> i \<noteq> b)
     \<and> (\<forall>j. j \<noteq> 1 \<longrightarrow> contexts s' ! j = contexts demo_plic ! j)"
  by (rule plic_claim_correct) (simp_all add: demo_plic_ok demo_plic_size)

lemma plic_claim_complete_witness:
  "case plic_load (claim_address 1) 4 demo_plic of (s', ok, bytes) \<Rightarrow>
     plic_store (claim_address 1) 4 bytes s' = (demo_plic, True)"
proof -
  obtain s' ok bytes where e: "plic_load (claim_address 1) 4 demo_plic = (s', ok, bytes)" by (metis prod_cases3)
  moreover have ok by (use e in \<open>simp add: plic_load_claim demo_plic_size\<close>)
  ultimately show ?thesis
    using plic_claim_complete [of demo_plic 1 s' bytes] by (simp add: demo_plic_ok demo_plic_size)
qed

lemma plic_level_delivery_witness:
  "has_source (level (set_interrupt_level 3 False demo_plic)) 3 \<longleftrightarrow> False"
  using plic_level_delivery [of demo_plic 3 False, unfolded Let_def, OF demo_plic_ok] demo_plic_size by simp

end
