(* ===== verification/Spike_Memif.thy ===== *)
theory Spike_Memif
  imports Spike_Sim Spike_PLIC
begin

text \<open>
  The host's view of the target's memory (\<open>memif.cc\<close>): byte arrays of any address and length
  over an interface that moves aligned chunks (\<open>chunked_memif_t\<close>).  The interface is a record of
  operations on a state; an operation may fail, and the failure ends the call, as the exceptions
  of the simulator do.  The locale states what the interface promises, and the simulator's own
  \<open>read_chunk\<close> and \<open>write_chunk\<close>, with \<open>htif_t::clear_chunk\<close>, keep that promise.
\<close>

section \<open>The interface\<close>

datatype 'e failure = Chunk 'e | Misaligned_Address | Assertion_Failed | Diverges

record ('s, 'e) chunked_memif_t =
  chunk_align :: nat
  chunk_max_size :: nat
  chunk_read :: "u64 \<Rightarrow> nat \<Rightarrow> 's \<Rightarrow> 's \<times> ('e failure + u8 list)"
  chunk_write :: "u64 \<Rightarrow> nat \<Rightarrow> u8 list \<Rightarrow> 's \<Rightarrow> 's \<times> ('e failure + unit)"
  chunk_clear :: "u64 \<Rightarrow> nat \<Rightarrow> 's \<Rightarrow> 's \<times> ('e failure + unit)"

text \<open>Sequencing: a failure ends the call.\<close>

definition memif_then :: "'s \<times> ('e + 'a) \<Rightarrow> ('a \<Rightarrow> 's \<Rightarrow> 's \<times> ('e + 'b)) \<Rightarrow> 's \<times> ('e + 'b)" where
  "memif_then r k = (case r of (s, Inl e) \<Rightarrow> (s, Inl e) | (s, Inr a) \<Rightarrow> k a s)"

lemma memif_then_simps [simp]: "memif_then (s, Inr a) k = k a s" "memif_then (s, Inl e) k = (s, Inl e)"
  by (simp_all add: memif_then_def)

section \<open>Reading\<close>

text \<open>The loop over whole chunks; with a maximal size of zero it would not end.\<close>

function read_chunks ::
  "('s, 'e) chunked_memif_t \<Rightarrow> u64 \<Rightarrow> nat \<Rightarrow> nat \<Rightarrow> 's \<Rightarrow> 's \<times> ('e failure + u8 list)" where
  "read_chunks ops addr len pos s =
     (if \<not> pos < len then (s, Inr [])
      else if chunk_max_size ops = 0 then (s, Inl Diverges)
      else case chunk_read ops (addr + of_nat pos) (min (chunk_max_size ops) (len - pos)) s of
             (s1, Inl e) \<Rightarrow> (s1, Inl e)
           | (s1, Inr bs) \<Rightarrow>
               (case read_chunks ops addr len (pos + chunk_max_size ops) s1 of
                  (s2, Inl e) \<Rightarrow> (s2, Inl e)
                | (s2, Inr rest) \<Rightarrow> (s2, Inr (bs @ rest))))"
  by auto
termination by (relation "measure (\<lambda>(ops, addr, len, pos, s). len - pos)") auto

declare read_chunks.simps [simp del]

text \<open>The bytes before the first chunk boundary, with the address and length that remain.\<close>

definition read_head ::
  "('s, 'e) chunked_memif_t \<Rightarrow> u64 \<Rightarrow> nat \<Rightarrow> 's \<Rightarrow> 's \<times> ('e failure + u8 list \<times> u64 \<times> nat)" where
  "read_head ops addr len s =
     (let align = chunk_align ops; mis = addr AND of_nat (align - 1)
      in if len \<noteq> 0 \<and> mis \<noteq> 0
         then let this_len = min len (align - unat mis)
              in memif_then (chunk_read ops (addr AND NOT (of_nat (align - 1))) align s)
                   (\<lambda>chunk s. (s, Inr (take this_len (drop (unat mis) chunk), addr + of_nat this_len, len - this_len)))
         else (s, Inr ([], addr, len)))"

text \<open>The bytes after the last chunk boundary, with the length that remains.\<close>

definition read_tail ::
  "('s, 'e) chunked_memif_t \<Rightarrow> u64 \<Rightarrow> nat \<Rightarrow> 's \<Rightarrow> 's \<times> ('e failure + u8 list \<times> nat)" where
  "read_tail ops addr len s =
     (let align = chunk_align ops; this_len = len AND (align - 1); start = len - this_len
      in if this_len \<noteq> 0
         then memif_then (chunk_read ops (addr + of_nat start) align s)
                (\<lambda>chunk s. (s, Inr (take this_len chunk, start)))
         else (s, Inr ([], len)))"

definition memif_read ::
  "('s, 'e) chunked_memif_t \<Rightarrow> u64 \<Rightarrow> nat \<Rightarrow> 's \<Rightarrow> 's \<times> ('e failure + u8 list)" where
  "memif_read ops addr len s =
     memif_then (read_head ops addr len s) (\<lambda>(head, addr, len) s.
       memif_then (read_tail ops addr len s) (\<lambda>(tail, len) s.
         memif_then (read_chunks ops addr len 0 s) (\<lambda>body s. (s, Inr (head @ body @ tail)))))"

section \<open>Writing\<close>

function write_chunks ::
  "('s, 'e) chunked_memif_t \<Rightarrow> u64 \<Rightarrow> u8 list \<Rightarrow> nat \<Rightarrow> 's \<Rightarrow> 's \<times> ('e failure + unit)" where
  "write_chunks ops addr bytes pos s =
     (if \<not> pos < length bytes then (s, Inr ())
      else if chunk_max_size ops = 0 then (s, Inl Diverges)
      else let n = min (chunk_max_size ops) (length bytes - pos)
           in case chunk_write ops (addr + of_nat pos) n (take n (drop pos bytes)) s of
                (s1, Inl e) \<Rightarrow> (s1, Inl e)
              | (s1, Inr _) \<Rightarrow> write_chunks ops addr bytes (pos + chunk_max_size ops) s1)"
  by auto
termination by (relation "measure (\<lambda>(ops, addr, bytes, pos, s). length bytes - pos)") auto

declare write_chunks.simps [simp del]

text \<open>A partial chunk is read, changed and written back.\<close>

definition patch_chunk ::
  "('s, 'e) chunked_memif_t \<Rightarrow> u64 \<Rightarrow> nat \<Rightarrow> u8 list \<Rightarrow> 's \<Rightarrow> 's \<times> ('e failure + unit)" where
  "patch_chunk ops addr off bytes s =
     memif_then (chunk_read ops addr (chunk_align ops) s)
       (\<lambda>chunk. chunk_write ops addr (chunk_align ops)
                  (take off chunk @ bytes @ drop (off + length bytes) chunk))"

definition write_head ::
  "('s, 'e) chunked_memif_t \<Rightarrow> u64 \<Rightarrow> u8 list \<Rightarrow> 's \<Rightarrow> 's \<times> ('e failure + u64 \<times> u8 list)" where
  "write_head ops addr bytes s =
     (let align = chunk_align ops; mis = addr AND of_nat (align - 1)
      in if bytes \<noteq> [] \<and> mis \<noteq> 0
         then let this_len = min (length bytes) (align - unat mis)
              in memif_then (patch_chunk ops (addr AND NOT (of_nat (align - 1))) (unat mis) (take this_len bytes) s)
                   (\<lambda>_ s. (s, Inr (addr + of_nat this_len, drop this_len bytes)))
         else (s, Inr (addr, bytes)))"

definition write_tail ::
  "('s, 'e) chunked_memif_t \<Rightarrow> u64 \<Rightarrow> u8 list \<Rightarrow> 's \<Rightarrow> 's \<times> ('e failure + u8 list)" where
  "write_tail ops addr bytes s =
     (let this_len = length bytes AND (chunk_align ops - 1); start = length bytes - this_len
      in if this_len \<noteq> 0
         then memif_then (patch_chunk ops (addr + of_nat start) 0 (drop start bytes) s)
                (\<lambda>_ s. (s, Inr (take start bytes)))
         else (s, Inr bytes))"

text \<open>Whole chunks; a run of zeros is cleared.\<close>

definition write_body ::
  "('s, 'e) chunked_memif_t \<Rightarrow> u64 \<Rightarrow> u8 list \<Rightarrow> 's \<Rightarrow> 's \<times> ('e failure + unit)" where
  "write_body ops addr bytes s =
     (if bytes \<noteq> [] \<and> (\<forall>b\<in>set bytes. b = 0) then chunk_clear ops addr (length bytes) s
      else write_chunks ops addr bytes 0 s)"

definition memif_write ::
  "('s, 'e) chunked_memif_t \<Rightarrow> u64 \<Rightarrow> u8 list \<Rightarrow> 's \<Rightarrow> 's \<times> ('e failure + unit)" where
  "memif_write ops addr bytes s =
     memif_then (write_head ops addr bytes s) (\<lambda>(addr, bytes) s.
       memif_then (write_tail ops addr bytes s) (\<lambda>bytes s. write_body ops addr bytes s))"

text \<open>The typed accessors: an unsigned or signed integer of \<open>n\<close> bytes, as its bytes in the
  target's memory (\<open>target_endian\<close>).\<close>

definition memif_read_val :: "nat \<Rightarrow> ('s, 'e) chunked_memif_t \<Rightarrow> u64 \<Rightarrow> 's \<Rightarrow> 's \<times> ('e failure + u8 list)" where
  "memif_read_val n ops addr s =
     (if addr AND of_nat (n - 1) \<noteq> 0 then (s, Inl Misaligned_Address) else memif_read ops addr n s)"

definition memif_write_val :: "('s, 'e) chunked_memif_t \<Rightarrow> u64 \<Rightarrow> u8 list \<Rightarrow> 's \<Rightarrow> 's \<times> ('e failure + unit)" where
  "memif_write_val ops addr val s =
     (if addr AND of_nat (length val - 1) \<noteq> 0 then (s, Inl Misaligned_Address) else memif_write ops addr val s)"

section \<open>Flat memories\<close>

type_synonym flat = "u64 \<Rightarrow> u8 option"

definition flat_get :: "flat \<Rightarrow> u64 \<Rightarrow> nat \<Rightarrow> u8 option list" where
  "flat_get m a n = map (\<lambda>i. m (a + of_nat i)) [0..<n]"

definition flat_put :: "flat \<Rightarrow> u64 \<Rightarrow> u8 list \<Rightarrow> flat" where
  "flat_put m a bs = (\<lambda>b. if unat (b - a) < length bs then Some (bs ! unat (b - a)) else m b)"

lemma length_flat_get [simp]: "length (flat_get m a n) = n"
  by (simp add: flat_get_def)

lemma flat_get_nth [simp]: "i < n \<Longrightarrow> flat_get m a n ! i = m (a + of_nat i)"
  by (simp add: flat_get_def)

lemma flat_get_0 [simp]: "flat_get m a 0 = []"
  by (simp add: flat_get_def)

lemma flat_get_at: "None \<notin> set (flat_get f a n) \<Longrightarrow> i < n \<Longrightarrow> f (a + of_nat i) \<noteq> None"
  using nth_mem [of i "flat_get f a n"] by (simp only: flat_get_nth length_flat_get) metis

lemma flat_get_append: "flat_get m a (n + k) = flat_get m a n @ flat_get m (a + of_nat n) k"
  by (rule nth_equalityI) (auto simp: nth_append algebra_simps)

lemma flat_get_sub: "off + n \<le> k \<Longrightarrow> take n (drop off (flat_get m a k)) = flat_get m (a + of_nat off) n"
  by (rule nth_equalityI) (auto simp: algebra_simps)

lemma flat_put_Nil [simp]: "flat_put m a [] = m"
  by (simp add: flat_put_def)

lemma flat_put_ram: "None \<notin> set (flat_get f a n) \<Longrightarrow> None \<notin> set (flat_get (flat_put f b bs) a n)"
  by (auto simp: flat_get_def flat_put_def)

lemma flat_put_append:
  assumes "length xs + length ys \<le> 2 ^ 64"
  shows "flat_put (flat_put m a xs) (a + of_nat (length xs)) ys = flat_put m a (xs @ ys)"
proof (rule ext)
  fix b
  show "flat_put (flat_put m a xs) (a + of_nat (length xs)) ys b = flat_put m a (xs @ ys) b"
  proof (cases "ys = []")
    case False
    then have l: "length xs < 2 ^ 64" using assms by (cases ys) auto
    have e: "unat (b - (a + of_nat (length xs))) =
        (if length xs \<le> unat (b - a) then unat (b - a) - length xs else unat (b - a) + 2 ^ 64 - length xs)"
      using unat_minus_of_nat [OF l, of "b - a"] by (simp add: diff_diff_add)
    show ?thesis
    proof (cases "length xs \<le> unat (b - a)")
      case True then show ?thesis by (simp add: flat_put_def e nth_append less_diff_conv2 add.commute)
    next
      case below: False
      then have "\<not> unat (b - a) + 2 ^ 64 - length xs < length ys" using assms l by linarith
      then show ?thesis using below by (simp add: flat_put_def e nth_append)
    qed
  qed simp
qed

lemma flat_put_commute:
  assumes "length xs + length ys \<le> 2 ^ 64"
  shows "flat_put (flat_put m (a + of_nat (length xs)) ys) a xs = flat_put m a (xs @ ys)"
proof (rule ext)
  fix b
  show "flat_put (flat_put m (a + of_nat (length xs)) ys) a xs b = flat_put m a (xs @ ys) b"
  proof (cases "unat (b - a) < length xs")
    case True then show ?thesis by (simp add: flat_put_def nth_append)
  next
    case False
    then have "flat_put (flat_put m (a + of_nat (length xs)) ys) a xs b = flat_put (flat_put m a xs) (a + of_nat (length xs)) ys b"
      by (simp add: flat_put_def)
    then show ?thesis by (simp only: flat_put_append [OF assms])
  qed
qed

text \<open>Writing back a chunk with some of its bytes changed changes those bytes.\<close>

lemma flat_put_patch:
  assumes chunk: "map Some chunk = flat_get m a n" and len: "off + length bs \<le> n" "n < 2 ^ 64"
  shows "flat_put m a (take off chunk @ bs @ drop (off + length bs) chunk) = flat_put m (a + of_nat off) bs"
proof -
  have n: "length chunk = n" using arg_cong [OF chunk, of length] by simp
  have same: "flat_put (f :: flat) c xs = f" if x: "map Some xs = flat_get f c (length xs)" for f c xs
  proof (rule ext)
    fix b show "flat_put f c xs b = f b"
    proof (cases "unat (b - c) < length xs")
      case True
      then have "Some (xs ! unat (b - c)) = f (c + of_nat (unat (b - c)))"
        using arg_cong [OF x, of "\<lambda>l. l ! unat (b - c)"] by simp
      then show ?thesis using True by (simp add: flat_put_def)
    qed (simp add: flat_put_def)
  qed
  have at: "Some (chunk ! i) = m (a + of_nat i)" if "i < n" for i
    using arg_cong [OF chunk, of "\<lambda>l. l ! i"] that n by simp
  let ?h = "take off chunk" and ?t = "drop (off + length bs) chunk"
  have lens: "length ?h = off" "length ?h + (length bs + length ?t) \<le> 2 ^ 64" "length bs + length ?t \<le> 2 ^ 64"
    using len n by auto
  have t: "flat_put m (a + of_nat off + of_nat (length bs)) ?t = m"
    by (rule same) (rule nth_equalityI, use n at len in \<open>auto simp: algebra_simps\<close>)
  have h: "flat_put (flat_put m (a + of_nat off) bs) a ?h = flat_put m (a + of_nat off) bs"
  proof (rule same, rule nth_equalityI)
    fix i assume "i < length (map Some ?h)"
    then have i: "i < off" "i < n" using n by simp_all
    have "unat (a + of_nat i - (a + of_nat off)) = i + 2 ^ 64 - off"
      using unat_minus_of_nat [of off "of_nat i"] i len by (simp add: unat_of_nat take_bit_nat_eq_self)
    moreover have "\<not> i + 2 ^ 64 - off < length bs" using len i by linarith
    ultimately show "map Some ?h ! i = flat_get (flat_put m (a + of_nat off) bs) a (length ?h) ! i"
      using i n at [of i] by (simp add: flat_put_def)
  qed simp
  have "flat_put m a (?h @ bs @ ?t) = flat_put (flat_put m (a + of_nat off) (bs @ ?t)) a ?h"
    using flat_put_commute [of ?h "bs @ ?t" m a] lens by simp
  also have "\<dots> = flat_put (flat_put (flat_put m (a + of_nat off + of_nat (length bs)) ?t) (a + of_nat off) bs) a ?h"
    using flat_put_commute [OF lens(3), of m "a + of_nat off"] by simp
  finally show ?thesis unfolding t h .
qed

section \<open>What the interface promises\<close>

text \<open>
  \<open>ram\<close> is the memory the chunks are of, on the addresses where there is any; it consists of
  whole chunks.  Reads of RAM return it and keep it, writes and clears change the chunk written.
\<close>

locale chunk_memory =
  fixes ops :: "('s, 'e) chunked_memif_t" and ok :: "'s \<Rightarrow> bool" and ram :: "'s \<Rightarrow> flat" and k m :: nat
  assumes align_law: "chunk_align ops = 2 ^ k" "k < 64"
    and size_law: "chunk_max_size ops = m * 2 ^ k" "0 < m"
    and whole_law: "ok s \<Longrightarrow> ram s a \<noteq> None \<Longrightarrow> drop_bit k a' = drop_bit k a \<Longrightarrow> ram s a' \<noteq> None"
    and read_law: "ok s \<Longrightarrow> 2 ^ k dvd unat a \<Longrightarrow> 2 ^ k dvd n \<Longrightarrow> 0 < n \<Longrightarrow> n \<le> chunk_max_size ops
       \<Longrightarrow> None \<notin> set (flat_get (ram s) a n)
       \<Longrightarrow> \<exists>s' bs. chunk_read ops a n s = (s', Inr bs) \<and> ok s' \<and> ram s' = ram s \<and> map Some bs = flat_get (ram s) a n"
    and write_law: "ok s \<Longrightarrow> 2 ^ k dvd unat a \<Longrightarrow> 2 ^ k dvd length bs \<Longrightarrow> bs \<noteq> [] \<Longrightarrow> length bs \<le> chunk_max_size ops
       \<Longrightarrow> None \<notin> set (flat_get (ram s) a (length bs))
       \<Longrightarrow> \<exists>s'. chunk_write ops a (length bs) bs s = (s', Inr ()) \<and> ok s' \<and> ram s' = flat_put (ram s) a bs"
    and clear_law: "ok s \<Longrightarrow> 2 ^ k dvd unat a \<Longrightarrow> 2 ^ k dvd n \<Longrightarrow> 0 < n \<Longrightarrow> unat a + n \<le> 2 ^ 64
       \<Longrightarrow> None \<notin> set (flat_get (ram s) a n)
       \<Longrightarrow> \<exists>s'. chunk_clear ops a n s = (s', Inr ()) \<and> ok s' \<and> ram s' = flat_put (ram s) a (replicate n 0)"
begin

lemma align_mask: "of_nat (chunk_align ops - 1) = (mask k :: u64)"
  by (simp add: align_law(1) mask_eq_exp_minus_1)

lemma two_k: "(2 :: nat) ^ k dvd 2 ^ 64" "(2 :: nat) ^ k < 2 ^ 64"
  using le_imp_power_dvd [of k 64 "2 :: nat"] power_strict_increasing [of k 64 "2 :: nat"] align_law(2)
  by (simp_all only: less_imp_le one_less_numeral_iff semiring_norm simp_thms)

lemma misaligned: "unat (a AND of_nat (chunk_align ops - 1)) = unat (a :: u64) mod 2 ^ k"
  unfolding align_mask take_bit_eq_mask [symmetric] unsigned_take_bit_eq
  unfolding take_bit_eq_mod ..

lemma length_mask: "n AND (chunk_align ops - 1) = n mod (2 :: nat) ^ k"
  unfolding align_law(1) using take_bit_eq_mask [of k n] by (simp add: mask_eq_exp_minus_1 take_bit_eq_mod)

lemma unat_chunk_offset: "i + unat a < 2 ^ 64 \<Longrightarrow> unat ((a :: u64) + of_nat i) = unat a + i"
  by (simp add: unat_word_ariths unat_of_nat take_bit_eq_mod mod_simps)

text \<open>The start of a chunk.\<close>

lemma chunk_base:
  shows "unat ((a :: u64) AND NOT (of_nat (chunk_align ops - 1))) = unat a - unat a mod 2 ^ k"
    and "(a AND NOT (of_nat (chunk_align ops - 1))) + of_nat (unat a mod 2 ^ k) = a"
proof -
  let ?b = "a AND NOT (of_nat (chunk_align ops - 1))"
  have "?b = push_bit k (drop_bit k a)"
    unfolding align_mask by (rule bit_word_eqI) (auto simp: bit_simps)
  then have s: "(a AND of_nat (chunk_align ops - 1)) + ?b = a"
    using bits_ident [of k a] by (simp only: align_mask take_bit_eq_mask add.commute)
  have o: "a AND of_nat (chunk_align ops - 1) = of_nat (unat a mod 2 ^ k)"
    unfolding misaligned [symmetric] by simp
  show e: "?b + of_nat (unat a mod 2 ^ k) = a" using s unfolding o by (simp add: add.commute)
  have "?b = a - of_nat (unat a mod 2 ^ k)" using e by (metis add_diff_cancel_right')
  moreover have "unat a mod 2 ^ k < 2 ^ 64" using two_k(2) by (meson mod_less_divisor order.strict_trans zero_less_numeral zero_less_power)
  ultimately show "unat ?b = unat a - unat a mod 2 ^ k"
    using unat_minus_of_nat [of "unat a mod 2 ^ k" a] by simp
qed

lemma chunk_end:
  assumes "2 ^ k dvd unat (b :: u64)"
  shows "unat b + 2 ^ k \<le> 2 ^ 64"
proof -
  obtain q where q: "unat b = 2 ^ k * q" using assms by (auto simp: dvd_def)
  obtain r where r: "(2 :: nat) ^ 64 = 2 ^ k * r" using two_k(1) unfolding dvd_def by blast
  have "2 ^ k * q < 2 ^ k * r" using unsigned_less [of b, where 'a = nat] unfolding q r [symmetric] by simp
  then have "q + 1 \<le> r" by simp
  then have "2 ^ k * (q + 1) \<le> 2 ^ k * r" by (rule mult_le_mono2)
  then show ?thesis unfolding q r by simp
qed

lemma chunk_whole:
  assumes "ok s" "ram s x \<noteq> None" "2 ^ k dvd unat b" "unat b \<le> unat x" "unat x < unat b + 2 ^ k"
  shows "None \<notin> set (flat_get (ram s) b (2 ^ k))"
proof -
  have "ram s (b + of_nat i) \<noteq> None" if i: "i < 2 ^ k" for i
  proof (rule whole_law [OF assms(1,2)])
    have u: "unat (b + of_nat i) = unat b + i"
      by (rule unat_chunk_offset) (use chunk_end [OF assms(3)] i in linarith)
    obtain q where q: "unat b = 2 ^ k * q" using assms(3) by (auto simp: dvd_def)
    have "(unat b + i) div 2 ^ k = unat x div 2 ^ k"
      using assms(4,5) i unfolding q by (metis add.commute div_nat_eqI mult.commute mult_Suc_right nat_add_left_cancel_less trans_le_add1 order_refl)
    then show "drop_bit k (b + of_nat i) = drop_bit k x"
      unfolding word_unat_eq_iff unat_drop_bit_eq u unfolding drop_bit_eq_div .
  qed
  then show ?thesis by (auto simp: flat_get_def) (metis option.distinct(1))
qed

lemma flat_get_ram:
  assumes "None \<notin> set (flat_get f a len)" "off + n \<le> len"
  shows "None \<notin> set (flat_get f (a + of_nat off) n)"
  using assms flat_get_sub [OF assms(2), of f a] by (metis in_set_dropD in_set_takeD)

lemma dvd_offset: "2 ^ k dvd unat (a :: u64) \<Longrightarrow> 2 ^ k dvd i \<Longrightarrow> unat a + i < 2 ^ 64 \<Longrightarrow> 2 ^ k dvd unat (a + of_nat i)"
  by (simp add: unat_chunk_offset add.commute)

lemma read_chunks_ram:
  assumes "2 ^ k dvd unat addr" "2 ^ k dvd len" "unat addr + len \<le> 2 ^ 64"
  shows "ok s \<Longrightarrow> None \<notin> set (flat_get (ram s) addr len) \<Longrightarrow> 2 ^ k dvd pos \<Longrightarrow>
     \<exists>s' bs. read_chunks ops addr len pos s = (s', Inr bs) \<and> ok s' \<and> ram s' = ram s
       \<and> map Some bs = flat_get (ram s) (addr + of_nat pos) (len - pos)"
proof (induction "len - pos" arbitrary: pos s rule: less_induct)
  case less
  show ?case
  proof (cases "pos < len")
    case False then show ?thesis using less.prems by (simp add: read_chunks.simps)
  next
    case True
    let ?n = "min (chunk_max_size ops) (len - pos)"
    have n: "2 ^ k dvd ?n" "0 < ?n" "?n \<le> chunk_max_size ops" "pos + ?n \<le> len"
      using size_law assms(2) less.prems(3) True by (auto simp: min_def)
    have al: "2 ^ k dvd unat (addr + of_nat pos)"
      by (rule dvd_offset [OF assms(1) less.prems(3)]) (use assms(3) True in linarith)
    obtain s1 bs where r: "chunk_read ops (addr + of_nat pos) ?n s = (s1, Inr bs)" "ok s1" "ram s1 = ram s"
      "map Some bs = flat_get (ram s) (addr + of_nat pos) ?n"
      using read_law [OF less.prems(1) al n(1-3) flat_get_ram [OF less.prems(2) n(4)]] by blast
    let ?pos = "pos + chunk_max_size ops"
    have mx: "0 < chunk_max_size ops" "2 ^ k dvd ?pos" using size_law less.prems(3) by auto
    obtain s2 rest where ih: "read_chunks ops addr len ?pos s1 = (s2, Inr rest)" "ok s2" "ram s2 = ram s1"
      "map Some rest = flat_get (ram s) (addr + of_nat ?pos) (len - ?pos)"
      using less.hyps [of ?pos s1] True mx less.prems(2) r(2,3) by (metis diff_less_mono2 less_add_same_cancel1)
    have "len - pos = ?n + (len - ?pos)" by simp
    moreover have "flat_get (ram s) (addr + of_nat pos + of_nat ?n) (len - ?pos) = flat_get (ram s) (addr + of_nat ?pos) (len - ?pos)"
      by (cases "len \<le> ?pos") (simp_all add: min_def add.assoc)
    ultimately have "map Some (bs @ rest) = flat_get (ram s) (addr + of_nat pos) (len - pos)"
      using r(4) ih(4) by (metis flat_get_append map_append)
    then show ?thesis using True mx r ih by (simp add: read_chunks.simps [of ops addr len pos])
  qed
qed

text \<open>The first part of an access ends at a chunk boundary, or ends the access.\<close>

lemma head_split:
  fixes addr :: u64
  assumes "unat addr + len \<le> 2 ^ 64" "len \<noteq> 0"
  defines "mis \<equiv> unat addr mod 2 ^ k"
  defines "n \<equiv> min len (2 ^ k - mis)"
  shows "n \<le> len" "0 < n" "len - n = 0 \<or> 2 ^ k dvd unat (addr + of_nat n)" "mis + n \<le> 2 ^ k"
proof -
  have mis: "mis < 2 ^ k" by (simp add: mis_def)
  then show "n \<le> len" "0 < n" "mis + n \<le> 2 ^ k" using assms(2) by (auto simp: n_def)
  show "len - n = 0 \<or> 2 ^ k dvd unat (addr + of_nat n)"
  proof (cases "len \<le> 2 ^ k - mis")
    case True then show ?thesis by (simp add: n_def)
  next
    case False
    then have n: "n = 2 ^ k - mis" by (simp add: n_def)
    have "unat (addr + of_nat n) = unat addr + n" by (rule unat_chunk_offset) (use assms(1) False n in linarith)
    also have "\<dots> = (unat addr - mis) + 2 ^ k" using mis n by (simp add: mis_def)
    finally show ?thesis unfolding mis_def by (simp only: dvd_add dvd_minus_mod dvd_refl simp_thms)
  qed
qed

text \<open>The last part starts at a chunk boundary.\<close>

lemma tail_split:
  fixes addr :: u64
  assumes "unat addr + len \<le> 2 ^ 64" "len mod 2 ^ k \<noteq> 0" "2 ^ k dvd unat addr"
  shows "2 ^ k dvd unat (addr + of_nat (len - len mod 2 ^ k))" "len - len mod 2 ^ k < len" "len mod 2 ^ k < 2 ^ k"
proof -
  show "len - len mod 2 ^ k < len" using assms(2) by (metis diff_less mod_0 neq0_conv)
  then show "2 ^ k dvd unat (addr + of_nat (len - len mod 2 ^ k))"
    using assms(1) by (intro dvd_offset [OF assms(3)]) auto
qed simp

lemma head_chunk:
  assumes "ok s" "unat addr + len \<le> 2 ^ 64" "len \<noteq> 0" "None \<notin> set (flat_get (ram s) addr len)"
  shows "2 ^ k dvd unat (addr AND NOT (of_nat (chunk_align ops - 1)))"
    "None \<notin> set (flat_get (ram s) (addr AND NOT (of_nat (chunk_align ops - 1))) (2 ^ k))"
proof -
  show d: "2 ^ k dvd unat (addr AND NOT (of_nat (chunk_align ops - 1)))" unfolding chunk_base(1) by (rule dvd_minus_mod)
  have r: "ram s addr \<noteq> None" using flat_get_at [OF assms(4), of 0] assms(3) by simp
  have "unat addr mod 2 ^ k < 2 ^ k" "unat addr mod 2 ^ k \<le> unat addr" by simp_all
  then have "unat (addr AND NOT (of_nat (chunk_align ops - 1))) \<le> unat addr"
    "unat addr < unat (addr AND NOT (of_nat (chunk_align ops - 1))) + 2 ^ k"
    unfolding chunk_base(1) by linarith+
  then show "None \<notin> set (flat_get (ram s) (addr AND NOT (of_nat (chunk_align ops - 1))) (2 ^ k))"
    by (rule chunk_whole [OF assms(1) r d])
qed

lemma tail_chunk:
  assumes "ok s" "unat addr + len \<le> 2 ^ 64" "len mod 2 ^ k \<noteq> 0" "2 ^ k dvd unat addr"
    "None \<notin> set (flat_get (ram s) addr len)"
  shows "None \<notin> set (flat_get (ram s) (addr + of_nat (len - len mod 2 ^ k)) (2 ^ k))"
proof -
  note t = tail_split [OF assms(2-4)]
  have "ram s (addr + of_nat (len - len mod 2 ^ k)) \<noteq> None"
    by (rule flat_get_at [OF assms(5) t(2)])
  then show ?thesis by (intro chunk_whole [OF assms(1) _ t(1)]) auto
qed

lemma one_chunk: "2 ^ k \<le> chunk_max_size ops"
  using size_law by (cases m) simp_all

text \<open>The length of the first part.\<close>

definition head_len :: "u64 \<Rightarrow> nat \<Rightarrow> nat" where
  "head_len addr len = (if len \<noteq> 0 \<and> unat addr mod 2 ^ k \<noteq> 0 then min len (2 ^ k - unat addr mod 2 ^ k) else 0)"

lemma head_len:
  assumes "unat addr + len \<le> 2 ^ 64"
  shows "head_len addr len \<le> len" "len - head_len addr len = 0 \<or> 2 ^ k dvd unat (addr + of_nat (head_len addr len))"
    "len - head_len addr len = 0 \<or> unat (addr + of_nat (head_len addr len)) + (len - head_len addr len) \<le> 2 ^ 64"
proof -
  show le: "head_len addr len \<le> len" by (simp add: head_len_def)
  show "len - head_len addr len = 0 \<or> 2 ^ k dvd unat (addr + of_nat (head_len addr len))"
  proof (cases "len \<noteq> 0 \<and> unat addr mod 2 ^ k \<noteq> 0")
    case True
    then have "head_len addr len = min len (2 ^ k - unat addr mod 2 ^ k)" by (simp add: head_len_def)
    then show ?thesis using head_split(3) [OF assms, OF conjunct1 [OF True]] by (simp only:)
  qed (auto simp: head_len_def)
  show "len - head_len addr len = 0 \<or> unat (addr + of_nat (head_len addr len)) + (len - head_len addr len) \<le> 2 ^ 64"
  proof (cases "len - head_len addr len = 0")
    case False
    have "unat (addr + of_nat (head_len addr len)) = unat addr + head_len addr len"
      by (rule unat_chunk_offset) (use assms False le in linarith)
    then show ?thesis using assms le by simp
  qed simp
qed

lemma misaligned_0: "(addr :: u64) AND of_nat (chunk_align ops - 1) = 0 \<longleftrightarrow> unat addr mod 2 ^ k = 0"
  unfolding misaligned [symmetric] by (simp only: unsigned_eq_0_iff)

lemma read_head_ram:
  assumes ok: "ok s" and len: "unat addr + len \<le> 2 ^ 64" and ram: "None \<notin> set (flat_get (ram s) addr len)"
  shows "\<exists>s' head. read_head ops addr len s = (s', Inr (head, addr + of_nat (head_len addr len), len - head_len addr len))
     \<and> ok s' \<and> ram s' = ram s \<and> map Some head = flat_get (ram s) addr (head_len addr len)"
proof -
  define al b where "al = addr AND of_nat (chunk_align ops - 1)" and "b = addr AND NOT (of_nat (chunk_align ops - 1))"
  let ?mis = "unat addr mod 2 ^ k"
  have al: "unat al = ?mis" "al = 0 \<longleftrightarrow> ?mis = 0" unfolding al_def by (rule misaligned, rule misaligned_0)
  note def = read_head_def [of ops addr len s, unfolded Let_def, folded al_def b_def]
  show ?thesis
  proof (cases "len \<noteq> 0 \<and> ?mis \<noteq> 0")
    case True
    let ?n = "min len (2 ^ k - ?mis)"
    note h = head_chunk [OF ok len _ ram, folded b_def]
    obtain s1 chunk where r: "chunk_read ops b (2 ^ k) s = (s1, Inr chunk)" "ok s1" "ram s1 = ram s"
      "map Some chunk = flat_get (ram s) b (2 ^ k)"
      using read_law [OF ok h(1) dvd_refl _ one_chunk h(2)] True by auto
    have "?mis + ?n \<le> 2 ^ k" by (rule head_split(4) [OF len, OF conjunct1 [OF True]])
    moreover have "b + of_nat ?mis = addr" unfolding b_def by (rule chunk_base(2))
    ultimately have "map Some (take ?n (drop ?mis chunk)) = flat_get (ram s) addr ?n"
      unfolding take_map [symmetric] drop_map [symmetric] r(4) by (simp only: flat_get_sub)
    then show ?thesis using True r al unfolding def by (simp add: align_law(1) head_len_def)
  next
    case False
    then show ?thesis using ok al unfolding def by (auto simp: head_len_def)
  qed
qed

lemma read_tail_ram:
  assumes ok: "ok s" and len: "len = 0 \<or> unat addr + len \<le> 2 ^ 64 \<and> 2 ^ k dvd unat addr"
    and ram: "None \<notin> set (flat_get (ram s) addr len)"
  shows "\<exists>s' tail. read_tail ops addr len s = (s', Inr (tail, len - len mod 2 ^ k))
     \<and> ok s' \<and> ram s' = ram s \<and> map Some tail = flat_get (ram s) (addr + of_nat (len - len mod 2 ^ k)) (len mod 2 ^ k)"
proof -
  note def = read_tail_def [of ops addr len s, unfolded Let_def, unfolded length_mask]
  show ?thesis
  proof (cases "len mod 2 ^ k = 0")
    case True then show ?thesis using ok unfolding def by simp
  next
    case False
    then have l: "unat addr + len \<le> 2 ^ 64" "2 ^ k dvd unat addr" using len by auto
    note t = tail_split [OF l(1) False l(2)] tail_chunk [OF ok l(1) False l(2) ram]
    obtain s1 chunk where r: "chunk_read ops (addr + of_nat (len - len mod 2 ^ k)) (2 ^ k) s = (s1, Inr chunk)" "ok s1"
      "ram s1 = ram s" "map Some chunk = flat_get (ram s) (addr + of_nat (len - len mod 2 ^ k)) (2 ^ k)"
      using read_law [OF ok t(1) dvd_refl _ one_chunk t(4)] by auto
    have "map Some (take (len mod 2 ^ k) chunk) = flat_get (ram s) (addr + of_nat (len - len mod 2 ^ k)) (len mod 2 ^ k)"
      using flat_get_sub [of 0 "len mod 2 ^ k" "2 ^ k"] t(3) by (simp add: r(4) less_imp_le flip: take_map)
    then show ?thesis using False r unfolding def align_law(1) by simp
  qed
qed

text \<open>Every read of RAM returns it, whatever its address and length.\<close>

theorem memif_read_ram:
  assumes ok: "ok s" and len: "unat addr + len \<le> 2 ^ 64" and ram: "None \<notin> set (flat_get (ram s) addr len)"
  shows "\<exists>s' bs. memif_read ops addr len s = (s', Inr bs) \<and> ok s' \<and> ram s' = ram s \<and> map Some bs = flat_get (ram s) addr len"
proof -
  define n where "n = head_len addr len"
  define addr1 len1 where "addr1 = addr + of_nat n" and "len1 = len - n"
  define t where "t = len1 mod 2 ^ k"
  note h = head_len [OF len, folded n_def, folded addr1_def len1_def]
  have "t \<le> len1" unfolding t_def by (rule mod_less_eq_dividend)
  then have le: "len = n + ((len1 - t) + t)" using h(1) by (simp add: len1_def)
  obtain s1 head where head: "read_head ops addr len s = (s1, Inr (head, addr1, len1))" "ok s1" "ram s1 = ram s"
    "map Some head = flat_get (ram s) addr n"
    using read_head_ram [OF ok len ram] unfolding n_def addr1_def len1_def by blast
  have ram1: "None \<notin> set (flat_get (ram s) addr1 len1)"
    unfolding addr1_def by (rule flat_get_ram [OF ram]) (use h(1) in \<open>simp add: len1_def\<close>)
  obtain s2 tail where tail: "read_tail ops addr1 len1 s1 = (s2, Inr (tail, len1 - t))" "ok s2" "ram s2 = ram s"
    "map Some tail = flat_get (ram s) (addr1 + of_nat (len1 - t)) t"
    using read_tail_ram [OF head(2), of len1 addr1] h ram1 unfolding head(3) t_def by blast
  have a: "len1 - t = 0 \<or> 2 ^ k dvd unat addr1 \<and> unat addr1 + (len1 - t) \<le> 2 ^ 64" using h(2,3) by auto
  have d: "2 ^ k dvd len1 - t" unfolding t_def by (rule dvd_minus_mod)
  have r2: "None \<notin> set (flat_get (ram s2) addr1 (len1 - t))"
    using flat_get_ram [OF ram1, of 0 "len1 - t"] by (simp add: tail(3))
  obtain s3 body where body: "read_chunks ops addr1 (len1 - t) 0 s2 = (s3, Inr body)" "ok s3" "ram s3 = ram s"
    "map Some body = flat_get (ram s) addr1 (len1 - t)"
  proof (cases "len1 - t = 0")
    case True
    then have "read_chunks ops addr1 (len1 - t) 0 s2 = (s2, Inr [])" unfolding True by (simp add: read_chunks.simps)
    then show ?thesis using tail(2,3) True by (intro that [of s2 "[]"]) simp_all
  next
    case False
    then show ?thesis using read_chunks_ram [OF _ d _ tail(2) r2 dvd_0_right] a tail(3) by (auto intro: that)
  qed
  have "map Some (head @ body @ tail) = flat_get (ram s) addr len"
    using head(4) body(4) tail(4) unfolding le addr1_def by (simp only: flat_get_append map_append)
  then show ?thesis using body(2,3) unfolding memif_read_def by (simp add: head(1) tail(1) body(1))
qed

lemma patch_chunk_ram:
  assumes "ok s" "2 ^ k dvd unat b" "None \<notin> set (flat_get (ram s) b (2 ^ k))" "off + length bs \<le> 2 ^ k"
  shows "\<exists>s'. patch_chunk ops b off bs s = (s', Inr ()) \<and> ok s' \<and> ram s' = flat_put (ram s) (b + of_nat off) bs"
proof -
  obtain s1 chunk where r: "chunk_read ops b (2 ^ k) s = (s1, Inr chunk)" "ok s1" "ram s1 = ram s"
    "map Some chunk = flat_get (ram s) b (2 ^ k)"
    using read_law [OF assms(1,2) dvd_refl _ one_chunk assms(3)] by auto
  let ?new = "take off chunk @ bs @ drop (off + length bs) chunk"
  have l: "length chunk = 2 ^ k" using arg_cong [OF r(4), of length] by simp
  then have new: "length ?new = 2 ^ k" using assms(4) by simp
  then have "?new \<noteq> []" by (metis list.size(3) power_not_zero zero_neq_numeral)
  then obtain s2 where w: "chunk_write ops b (2 ^ k) ?new s1 = (s2, Inr ())" "ok s2" "ram s2 = flat_put (ram s1) b ?new"
    using write_law [OF r(2) assms(2), of ?new] assms(3) one_chunk unfolding new r(3) by auto
  have "ram s2 = flat_put (ram s) (b + of_nat off) bs"
    unfolding w(3) r(3) by (rule flat_put_patch [OF r(4) assms(4) two_k(2)])
  then show ?thesis using w(2) unfolding patch_chunk_def align_law(1) by (simp add: r(1) w(1))
qed

lemma write_head_ram:
  assumes ok: "ok s" and len: "unat addr + length bytes \<le> 2 ^ 64" and ram: "None \<notin> set (flat_get (ram s) addr (length bytes))"
  shows "\<exists>s'. write_head ops addr bytes s =
             (s', Inr (addr + of_nat (head_len addr (length bytes)), drop (head_len addr (length bytes)) bytes))
     \<and> ok s' \<and> ram s' = flat_put (ram s) addr (take (head_len addr (length bytes)) bytes)"
proof -
  define al b where "al = addr AND of_nat (chunk_align ops - 1)" and "b = addr AND NOT (of_nat (chunk_align ops - 1))"
  let ?mis = "unat addr mod 2 ^ k"
  have al: "unat al = ?mis" "al = 0 \<longleftrightarrow> ?mis = 0" unfolding al_def by (rule misaligned, rule misaligned_0)
  note def = write_head_def [of ops addr bytes s, unfolded Let_def, folded al_def b_def]
  show ?thesis
  proof (cases "length bytes \<noteq> 0 \<and> ?mis \<noteq> 0")
    case True
    define n where "n = min (length bytes) (2 ^ k - ?mis)"
    note h = head_chunk [OF ok len _ ram, folded b_def]
    have n: "?mis + length (take n bytes) \<le> 2 ^ k"
      using head_split(4) [OF len, OF conjunct1 [OF True]] by (simp add: n_def)
    have "b + of_nat ?mis = addr" unfolding b_def by (rule chunk_base(2))
    then obtain s1 where "patch_chunk ops b ?mis (take n bytes) s = (s1, Inr ())" "ok s1"
      "ram s1 = flat_put (ram s) addr (take n bytes)"
      using patch_chunk_ram [OF ok h n] True by auto
    moreover have "head_len addr (length bytes) = n" using True by (simp add: head_len_def n_def)
    ultimately show ?thesis using True al unfolding def by (simp add: align_law(1) n_def)
  next
    case False
    then have "head_len addr (length bytes) = 0" by (auto simp: head_len_def)
    moreover have "\<not> (bytes \<noteq> [] \<and> al \<noteq> 0)" using False al by auto
    ultimately show ?thesis using ok unfolding def by auto
  qed
qed

lemma write_tail_ram:
  assumes ok: "ok s" and len: "length bytes = 0 \<or> unat addr + length bytes \<le> 2 ^ 64 \<and> 2 ^ k dvd unat addr"
    and ram: "None \<notin> set (flat_get (ram s) addr (length bytes))"
  defines "start \<equiv> length bytes - length bytes mod 2 ^ k"
  shows "\<exists>s'. write_tail ops addr bytes s = (s', Inr (take start bytes))
     \<and> ok s' \<and> ram s' = flat_put (ram s) (addr + of_nat start) (drop start bytes)"
proof -
  note def = write_tail_def [of ops addr bytes s, unfolded Let_def, unfolded length_mask]
  show ?thesis
  proof (cases "length bytes mod 2 ^ k = 0")
    case True then show ?thesis using ok unfolding def start_def by simp
  next
    case False
    then have l: "unat addr + length bytes \<le> 2 ^ 64" "2 ^ k dvd unat addr" using len by auto
    note t = tail_split [OF l(1) False l(2)] tail_chunk [OF ok l(1) False l(2) ram]
    have n: "0 + length (drop start bytes) \<le> 2 ^ k" using t(3) by (simp add: start_def)
    then show ?thesis using patch_chunk_ram [OF ok t(1) t(4) n [unfolded start_def]] False
      unfolding def start_def by auto
  qed
qed

lemma write_chunks_ram:
  assumes "2 ^ k dvd unat addr" "2 ^ k dvd length bytes" "unat addr + length bytes \<le> 2 ^ 64"
  shows "ok s \<Longrightarrow> None \<notin> set (flat_get (ram s) addr (length bytes)) \<Longrightarrow> 2 ^ k dvd pos \<Longrightarrow>
     \<exists>s'. write_chunks ops addr bytes pos s = (s', Inr ()) \<and> ok s'
       \<and> ram s' = flat_put (ram s) (addr + of_nat pos) (drop pos bytes)"
proof (induction "length bytes - pos" arbitrary: pos s rule: less_induct)
  case less
  show ?case
  proof (cases "pos < length bytes")
    case False then show ?thesis using less.prems by (simp add: write_chunks.simps)
  next
    case True
    define n where "n = min (chunk_max_size ops) (length bytes - pos)"
    let ?bs = "take n (drop pos bytes)"
    have n: "2 ^ k dvd n" "0 < n" "n \<le> chunk_max_size ops" "pos + n \<le> length bytes" "length ?bs = n"
      using size_law assms(2) less.prems(3) True by (auto simp: min_def n_def)
    have al: "2 ^ k dvd unat (addr + of_nat pos)"
      by (rule dvd_offset [OF assms(1) less.prems(3)]) (use assms(3) True in linarith)
    obtain s1 where w: "chunk_write ops (addr + of_nat pos) n ?bs s = (s1, Inr ())" "ok s1"
      "ram s1 = flat_put (ram s) (addr + of_nat pos) ?bs"
      using write_law [OF less.prems(1) al, of ?bs, unfolded n(5), OF n(1) _ n(3) flat_get_ram [OF less.prems(2) n(4)]] n(2,5)
      by fastforce
    let ?pos = "pos + chunk_max_size ops"
    have mx: "0 < chunk_max_size ops" "2 ^ k dvd ?pos" using size_law less.prems(3) by auto
    have "length bytes - ?pos < length bytes - pos" using True mx(1) by simp
    then obtain s2 where ih: "write_chunks ops addr bytes ?pos s1 = (s2, Inr ())" "ok s2"
      "ram s2 = flat_put (ram s1) (addr + of_nat ?pos) (drop ?pos bytes)"
      using less.hyps [of ?pos s1] mx(2) w(2) flat_put_ram [OF less.prems(2)] unfolding w(3) by blast
    have "flat_put f (addr + of_nat ?pos) (drop ?pos bytes) = flat_put f (addr + of_nat pos + of_nat n) (drop (pos + n) bytes)" for f
      by (cases "length bytes \<le> ?pos") (simp_all add: n_def min_def add.assoc)
    moreover have "?bs @ drop (pos + n) bytes = drop pos bytes"
      by (metis append_take_drop_id drop_drop add.commute)
    ultimately have "ram s2 = flat_put (ram s) (addr + of_nat pos) (drop pos bytes)"
      using flat_put_append [of ?bs "drop (pos + n) bytes" "ram s" "addr + of_nat pos"] assms(3) n(4,5)
      unfolding ih(3) w(3) by simp
    then show ?thesis using True mx ih(2) w(1) ih(1)
      by (simp add: write_chunks.simps [of ops addr bytes pos] Let_def flip: n_def)
  qed
qed

lemma write_body_ram:
  assumes "ok s" "2 ^ k dvd length bytes" "length bytes = 0 \<or> unat addr + length bytes \<le> 2 ^ 64 \<and> 2 ^ k dvd unat addr"
    "None \<notin> set (flat_get (ram s) addr (length bytes))"
  shows "\<exists>s'. write_body ops addr bytes s = (s', Inr ()) \<and> ok s' \<and> ram s' = flat_put (ram s) addr bytes"
proof (cases "bytes = []")
  case True then show ?thesis using assms(1) by (simp add: write_body_def write_chunks.simps)
next
  case ne: False
  then have a: "2 ^ k dvd unat addr" "unat addr + length bytes \<le> 2 ^ 64" using assms(3) by auto
  show ?thesis
  proof (cases "\<forall>b\<in>set bytes. b = 0")
    case True
    then have "bytes = replicate (length bytes) 0" by (simp add: replicate_length_same)
    then show ?thesis using clear_law [OF assms(1) a(1) assms(2) _ a(2) assms(4)] ne True
      by (simp add: write_body_def)
  next
    case False
    then show ?thesis using write_chunks_ram [OF a(1) assms(2) a(2) assms(1,4) dvd_0_right] ne
      by (auto simp: write_body_def)
  qed
qed

text \<open>Every write of RAM changes the bytes written and no others.\<close>

theorem memif_write_ram:
  assumes ok: "ok s" and len: "unat addr + length bytes \<le> 2 ^ 64" and ram: "None \<notin> set (flat_get (ram s) addr (length bytes))"
  shows "\<exists>s'. memif_write ops addr bytes s = (s', Inr ()) \<and> ok s' \<and> ram s' = flat_put (ram s) addr bytes"
proof -
  define n where "n = head_len addr (length bytes)"
  define addr1 bytes1 where "addr1 = addr + of_nat n" and "bytes1 = drop n bytes"
  define st where "st = length bytes1 - length bytes1 mod 2 ^ k"
  note h = head_len [OF len, folded n_def, folded addr1_def]
  have l1: "length bytes1 = length bytes - n" by (simp add: bytes1_def)
  obtain s1 where head: "write_head ops addr bytes s = (s1, Inr (addr1, bytes1))" "ok s1" "ram s1 = flat_put (ram s) addr (take n bytes)"
    using write_head_ram [OF ok len ram] unfolding n_def addr1_def bytes1_def by blast
  have ram1: "None \<notin> set (flat_get (ram s1) addr1 (length bytes1))"
    unfolding head(3) addr1_def by (rule flat_put_ram [OF flat_get_ram [OF ram]]) (use h(1) l1 in simp)
  have a: "length bytes1 = 0 \<or> unat addr1 + length bytes1 \<le> 2 ^ 64 \<and> 2 ^ k dvd unat addr1" using h(2,3) l1 by auto
  obtain s2 where tail: "write_tail ops addr1 bytes1 s1 = (s2, Inr (take st bytes1))" "ok s2"
    "ram s2 = flat_put (ram s1) (addr1 + of_nat st) (drop st bytes1)"
    using write_tail_ram [OF head(2) a ram1] unfolding st_def by blast
  have st: "st \<le> length bytes1" "length (take st bytes1) = st" by (simp_all add: st_def)
  have "2 ^ k dvd length (take st bytes1)" unfolding st(2) unfolding st_def by (rule dvd_minus_mod)
  moreover have "None \<notin> set (flat_get (ram s2) addr1 (length (take st bytes1)))"
    unfolding tail(3) st(2) using flat_put_ram [OF flat_get_ram [OF ram1, of 0 st]] st(1) by simp
  moreover have "length (take st bytes1) = 0 \<or> unat addr1 + length (take st bytes1) \<le> 2 ^ 64 \<and> 2 ^ k dvd unat addr1"
    using a st by auto
  ultimately obtain s3 where body: "write_body ops addr1 (take st bytes1) s2 = (s3, Inr ())" "ok s3"
    "ram s3 = flat_put (ram s2) addr1 (take st bytes1)"
    using write_body_ram [OF tail(2)] by blast
  have "flat_put (ram s2) addr1 (take st bytes1) = flat_put (ram s1) addr1 (take st bytes1 @ drop st bytes1)"
    using flat_put_commute [of "take st bytes1" "drop st bytes1" "ram s1" addr1] len l1 st unfolding tail(3) by simp
  also have "\<dots> = flat_put (ram s1) addr1 bytes1" by (simp only: append_take_drop_id)
  also have "\<dots> = flat_put (flat_put (ram s) addr (take n bytes)) (addr + of_nat (length (take n bytes))) (drop n bytes)"
    using h(1) by (simp add: head(3) addr1_def bytes1_def min_absorb2)
  also have "\<dots> = flat_put (ram s) addr bytes" using flat_put_append [of "take n bytes" "drop n bytes"] len by simp
  finally show ?thesis using body unfolding memif_write_def by (simp add: head(1) tail(1))
qed

end

section \<open>The simulator's chunks\<close>

definition sim_read_chunk ::
  "(u64 \<Rightarrow> nat \<Rightarrow> 'io \<Rightarrow> 'io \<times> bool \<times> u8 list) \<Rightarrow> u64 \<Rightarrow> nat \<Rightarrow> 'io sim_t \<Rightarrow> 'io sim_t \<times> (trap failure + u8 list)" where
  "sim_read_chunk io_load taddr len s =
     (if len \<noteq> 8 then (s, Inl Assertion_Failed)
      else case mmu_load io_load taddr 8 s of
             (s', Inl t) \<Rightarrow> (s', Inl (Chunk t)) | (s', Inr bytes) \<Rightarrow> (s', Inr bytes))"

definition sim_write_chunk ::
  "(u64 \<Rightarrow> nat \<Rightarrow> u8 list \<Rightarrow> 'io \<Rightarrow> 'io \<times> bool) \<Rightarrow> u64 \<Rightarrow> nat \<Rightarrow> u8 list \<Rightarrow> 'io sim_t \<Rightarrow> 'io sim_t \<times> (trap failure + unit)" where
  "sim_write_chunk io_store taddr len src s =
     (if len \<noteq> 8 then (s, Inl Assertion_Failed)
      else case mmu_store io_store taddr 8 src s of
             (s', Inl t) \<Rightarrow> (s', Inl (Chunk t)) | (s', Inr u) \<Rightarrow> (s', Inr u))"

text \<open>\<open>htif_t::clear_chunk\<close>, which writes chunks of zeros.\<close>

function htif_clear_chunk ::
  "nat \<Rightarrow> (u64 \<Rightarrow> nat \<Rightarrow> u8 list \<Rightarrow> 's \<Rightarrow> 's \<times> ('e failure + unit)) \<Rightarrow> u64 \<Rightarrow> nat \<Rightarrow> nat \<Rightarrow> 's \<Rightarrow> 's \<times> ('e failure + unit)" where
  "htif_clear_chunk max_size wr taddr len pos s =
     (if \<not> pos < len then (s, Inr ())
      else if max_size = 0 then (s, Inl Diverges)
      else case wr (taddr + of_nat pos) (min (len - pos) max_size) (replicate max_size 0) s of
             (s1, Inl e) \<Rightarrow> (s1, Inl e)
           | (s1, Inr _) \<Rightarrow> htif_clear_chunk max_size wr taddr len (pos + max_size) s1)"
  by auto
termination by (relation "measure (\<lambda>(max_size, wr, taddr, len, pos, s). len - pos)") auto

declare htif_clear_chunk.simps [simp del]

definition sim_memif ::
  "(u64 \<Rightarrow> nat \<Rightarrow> 'io \<Rightarrow> 'io \<times> bool \<times> u8 list) \<Rightarrow> (u64 \<Rightarrow> nat \<Rightarrow> u8 list \<Rightarrow> 'io \<Rightarrow> 'io \<times> bool)
    \<Rightarrow> ('io sim_t, trap) chunked_memif_t" where
  "sim_memif io_load io_store =
     \<lparr>chunk_align = 8, chunk_max_size = 8, chunk_read = sim_read_chunk io_load,
      chunk_write = sim_write_chunk io_store,
      chunk_clear = (\<lambda>taddr len. htif_clear_chunk 8 (sim_write_chunk io_store) taddr len 0)\<rparr>"

abbreviation sim_ram :: "'io sim_t \<Rightarrow> flat" where
  "sim_ram s \<equiv> sim_byte (bus s)"

lemma aligned8: "8 dvd unat a \<Longrightarrow> (a :: u64) AND of_nat (8 - 1) = 0"
proof -
  assume "8 dvd unat a"
  then have "take_bit 3 (unat a) = 0" by (simp add: take_bit_eq_mod dvd_eq_mod_eq_0)
  then have "unat (take_bit 3 a) = 0" by (simp only: unsigned_take_bit_eq)
  then have "take_bit 3 a = 0" by (simp only: unsigned_eq_0_iff)
  then show ?thesis by (simp add: take_bit_eq_mask mask_eq_exp_minus_1)
qed

lemma in_page8: "8 dvd unat (a :: u64) \<Longrightarrow> 8 \<le> PGSIZE - unat a mod PGSIZE"
  using aligned_in_page [of a 3] aligned8 [of a] by simp

lemma sim_byte_page:
  assumes "bus_ok ds" "sim_byte ds a \<noteq> None" "drop_bit 12 a' = drop_bit 12 a"
  shows "sim_byte ds a' \<noteq> None"
proof -
  obtain base m where m: "paddr_ok a" "find_device a ds = Some (base, Memory m)" "a - base < sz m"
    using assms(2) by (auto simp: sim_byte_def split: if_splits option.splits device.splits prod.splits)
  note k = bus_ok_memory [OF assms(1) m(2)]
  show ?thesis
    using find_device_page [OF assms(1) m(2) assms(3) [symmetric]] paddr_ok_page [OF assms(3)] m(1,3)
      page_aligned_less [OF k(3) same_page_offset [OF k(1,4) assms(3) [symmetric]]]
    by (simp add: sim_byte_def)
qed

lemma sim_read_chunk_ram:
  assumes "sim_ok s" "8 dvd unat a" "None \<notin> set (flat_get (sim_ram s) a 8)"
  shows "\<exists>s' bs. sim_read_chunk io_load a 8 s = (s', Inr bs) \<and> sim_ok s' \<and> sim_ram s' = sim_ram s
     \<and> map Some bs = flat_get (sim_ram s) a 8"
proof -
  have "ram_at s a" using flat_get_at [OF assms(3), of 0] by (simp add: ram_at_def)
  then obtain s' bs where "load_slow_path_intrapage io_load a 8 s = (s', Inr bs)" "sim_ok s'"
    "sim_ram s' = sim_ram s" "map Some bs = flat_get (sim_ram s) a 8"
    using load_intrapage_ram [OF assms(1) _ in_page8 [OF assms(2)]] unfolding flat_get_def by metis
  then show ?thesis by (simp add: sim_read_chunk_def mmu_load_slow [OF aligned8 [OF assms(2)]])
qed

lemma sim_write_chunk_ram:
  assumes "sim_ok s" "8 dvd unat a" "None \<notin> set (flat_get (sim_ram s) a 8)" "length bs = 8"
  shows "\<exists>s'. sim_write_chunk io_store a 8 bs s = (s', Inr ()) \<and> sim_ok s' \<and> sim_ram s' = flat_put (sim_ram s) a bs"
proof -
  have "ram_at s a" using flat_get_at [OF assms(3), of 0] by (simp add: ram_at_def)
  moreover have "length bs \<le> PGSIZE - unat a mod PGSIZE" using in_page8 [OF assms(2)] assms(4) by simp
  ultimately obtain s' where s': "store_slow_path_intrapage io_store a (length bs) bs s = (s', Inr ())" "sim_ok s'"
    "\<And>b. sim_byte (bus s') b = (if unat (b - a) < length bs then Some (bs ! unat (b - a)) else sim_byte (bus s) b)"
    using store_intrapage_ram [OF assms(1)] by metis
  then show ?thesis
    using assms(4) by (auto simp: sim_write_chunk_def mmu_store_slow [OF aligned8 [OF assms(2)]] flat_put_def fun_eq_iff)
qed

lemma sim_clear_ram:
  assumes "8 dvd unat a" "8 dvd len" "unat a + len \<le> 2 ^ 64"
  shows "sim_ok s \<Longrightarrow> None \<notin> set (flat_get (sim_ram s) a len) \<Longrightarrow> 8 dvd pos \<Longrightarrow> pos \<le> len \<Longrightarrow>
    \<exists>s'. htif_clear_chunk 8 (sim_write_chunk io_store) a len pos s = (s', Inr ()) \<and> sim_ok s'
       \<and> sim_ram s' = flat_put (sim_ram s) (a + of_nat pos) (replicate (len - pos) 0)"
proof (induction "len - pos" arbitrary: pos s rule: less_induct)
  case less
  show ?case
  proof (cases "pos < len")
    case False then show ?thesis using less.prems by (simp add: htif_clear_chunk.simps)
  next
    case True
    have "8 dvd len - pos" using assms(2) less.prems(3) by simp
    then have n: "8 \<le> len - pos" using True by (simp add: dvd_imp_le)
    have u: "unat (a + of_nat pos) = unat a + pos"
      using assms(3) True by (simp add: unat_word_ariths unat_of_nat take_bit_eq_mod mod_simps)
    have al: "8 dvd unat (a + of_nat pos)" unfolding u using assms(1) less.prems(3) by simp
    have "None \<notin> set (flat_get (sim_ram s) (a + of_nat pos) 8)"
      using flat_get_sub [of pos 8 len "sim_ram s" a] n less.prems(2) by (metis in_set_dropD in_set_takeD le_diff_conv2 True less_imp_le add.commute)
    then obtain s1 where w: "sim_write_chunk io_store (a + of_nat pos) 8 (replicate 8 0) s = (s1, Inr ())" "sim_ok s1"
      "sim_ram s1 = flat_put (sim_ram s) (a + of_nat pos) (replicate 8 0)"
      using sim_write_chunk_ram [OF less.prems(1) al, of "replicate 8 0"] by auto
    obtain s2 where ih: "htif_clear_chunk 8 (sim_write_chunk io_store) a len (pos + 8) s1 = (s2, Inr ())" "sim_ok s2"
      "sim_ram s2 = flat_put (sim_ram s1) (a + of_nat (pos + 8)) (replicate (len - (pos + 8)) 0)"
      using less.hyps [of "pos + 8" s1] n less.prems(3) w(2) True flat_put_ram [OF less.prems(2)]
      by (fastforce simp: w(3))
    have "replicate 8 (0 :: u8) @ replicate (len - (pos + 8)) 0 = replicate (len - pos) 0"
      using n by (simp only: replicate_add [symmetric]) simp
    then have "sim_ram s2 = flat_put (sim_ram s) (a + of_nat pos) (replicate (len - pos) 0)"
      using flat_put_append [of "replicate 8 0" "replicate (len - (pos + 8)) 0" "sim_ram s" "a + of_nat pos"] assms(3) n
      unfolding ih(3) w(3) by (simp add: add.assoc)
    then show ?thesis using True n ih w(1) by (simp add: htif_clear_chunk.simps [of 8 _ a len pos] min_absorb2)
  qed
qed

interpretation simmem: chunk_memory "sim_memif io_load io_store" sim_ok sim_ram 3 1
proof unfold_locales
  show "chunk_align (sim_memif io_load io_store) = 2 ^ 3" "(3 :: nat) < 64"
    "chunk_max_size (sim_memif io_load io_store) = 1 * 2 ^ 3" "0 < (1 :: nat)" by (simp_all add: sim_memif_def)
next
  fix s :: "'a sim_t" and a a' :: u64
  assume h: "sim_ok s" "sim_ram s a \<noteq> None" "drop_bit 3 a' = drop_bit 3 a"
  have "drop_bit 9 (drop_bit 3 a') = drop_bit 9 (drop_bit 3 a)" using h(3) by simp
  then have "drop_bit 12 a' = drop_bit 12 a" by simp
  then show "sim_ram s a' \<noteq> None" using sim_byte_page [of "bus s" a a'] h(1,2) by (simp add: sim_ok_def)
next
  fix s :: "'a sim_t" and a :: u64 and n :: nat
  assume h: "sim_ok s" "2 ^ 3 dvd unat a" "2 ^ 3 dvd n" "0 < n" "n \<le> chunk_max_size (sim_memif io_load io_store)"
    "None \<notin> set (flat_get (sim_ram s) a n)"
  then have "n = 8" by (auto simp: sim_memif_def dvd_def)
  then show "\<exists>s' bs. chunk_read (sim_memif io_load io_store) a n s = (s', Inr bs) \<and> sim_ok s' \<and> sim_ram s' = sim_ram s
     \<and> map Some bs = flat_get (sim_ram s) a n"
    using sim_read_chunk_ram [OF h(1)] h(2,6) by (simp add: sim_memif_def)
next
  fix s :: "'a sim_t" and a :: u64 and bs :: "u8 list"
  assume h: "sim_ok s" "2 ^ 3 dvd unat a" "2 ^ 3 dvd length bs" "bs \<noteq> []"
    "length bs \<le> chunk_max_size (sim_memif io_load io_store)" "None \<notin> set (flat_get (sim_ram s) a (length bs))"
  have "0 < length bs" "length bs \<le> 8" "8 dvd length bs" using h(3-5) by (simp_all add: sim_memif_def)
  then have "length bs = 8" by (simp only: dvd_imp_le le_antisym)
  then show "\<exists>s'. chunk_write (sim_memif io_load io_store) a (length bs) bs s = (s', Inr ()) \<and> sim_ok s'
     \<and> sim_ram s' = flat_put (sim_ram s) a bs"
    using sim_write_chunk_ram [OF h(1)] h(2,6) by (simp add: sim_memif_def)
next
  fix s :: "'a sim_t" and a :: u64 and n :: nat
  assume h: "sim_ok s" "2 ^ 3 dvd unat a" "2 ^ 3 dvd n" "0 < n" "unat a + n \<le> 2 ^ 64"
    "None \<notin> set (flat_get (sim_ram s) a n)"
  then show "\<exists>s'. chunk_clear (sim_memif io_load io_store) a n s = (s', Inr ()) \<and> sim_ok s'
     \<and> sim_ram s' = flat_put (sim_ram s) a (replicate n 0)"
    using sim_clear_ram [of a n s 0 io_store] by (simp add: sim_memif_def)
qed

section \<open>Properties\<close>

text \<open>C4: From every state of the simulator that keeps its invariant, a host write of any bytes
  to any range of memory (unaligned ends by read, modify, write, zero data by clear_chunk)
  and the read after it go through the debug MMU, its TLB, the bus and the sparse pages as
  writes and reads of a flat byte memory: exactly those bytes change, and the read returns
  them.\<close>

theorem memif_refines_flat:
  assumes "sim_ok s" "unat addr + length bytes \<le> 2 ^ 64" "None \<notin> set (flat_get (sim_ram s) addr (length bytes))"
  shows "\<exists>s1 s2. memif_write (sim_memif io_load io_store) addr bytes s = (s1, Inr ())
     \<and> sim_ok s1 \<and> sim_ram s1 = flat_put (sim_ram s) addr bytes
     \<and> memif_read (sim_memif io_load io_store) addr (length bytes) s1 = (s2, Inr bytes)
     \<and> sim_ok s2 \<and> sim_ram s2 = sim_ram s1"
proof -
  obtain s1 where w: "memif_write (sim_memif io_load io_store) addr bytes s = (s1, Inr ())" "sim_ok s1"
    "sim_ram s1 = flat_put (sim_ram s) addr bytes"
    using simmem.memif_write_ram [OF assms] by blast
  have "None \<notin> set (flat_get (sim_ram s1) addr (length bytes))"
    unfolding w(3) by (rule flat_put_ram [OF assms(3)])
  then obtain s2 bs where r: "memif_read (sim_memif io_load io_store) addr (length bytes) s1 = (s2, Inr bs)" "sim_ok s2"
    "sim_ram s2 = sim_ram s1" "map Some bs = flat_get (sim_ram s1) addr (length bytes)"
    using simmem.memif_read_ram [OF w(2) assms(2)] by blast
  have "flat_get (flat_put f addr bytes) addr (length bytes) = map Some bytes" if "length bytes < 2 ^ 64" for f
    by (rule nth_equalityI) (use that in \<open>auto simp: flat_put_def unat_of_nat take_bit_nat_eq_self\<close>)
  moreover have "flat_get (flat_put f addr bytes) addr (length bytes) = map Some bytes" if "length bytes = 2 ^ 64" for f
    by (rule nth_equalityI) (use that in \<open>auto simp: flat_put_def unat_of_nat take_bit_nat_eq_self\<close>)
  ultimately have "bs = bytes"
    using r(4) w(3) assms(2) by (metis inj_Some inj_map_eq_map le_add2 le_neq_implies_less le_trans)
  then show ?thesis using w r by blast
qed

section \<open>A machine with RAM and an interrupt controller\<close>

text \<open>Two pages of RAM at \<open>0x80000000\<close> and an interrupt controller at \<open>0xc000000\<close>.\<close>

definition demo_bus :: "plic bus_t" where
  "demo_bus = add_device 0x80000000 (Memory \<lparr>sparse_memory_map = (\<lambda>_. None), sz = 0x2000\<rparr>)
                (add_device 0xc000000 (Io demo_plic) [])"

lemma demo_bus_eq: "demo_bus = [(0xc000000, Io demo_plic), (0x80000000, Memory \<lparr>sparse_memory_map = (\<lambda>_. None), sz = 0x2000\<rparr>)]"
  by (simp add: demo_bus_def)

lemma demo_sim_ok: "sim_ok (new_sim demo_bus)"
  by (rule new_sim_ok) (simp add: demo_bus_eq bus_ok_def device_ok_def mem_ok_def)

lemma demo_ram: "0x80000000 \<le> a \<Longrightarrow> a < 0x80002000 \<Longrightarrow> sim_ram (new_sim demo_bus) a = Some 0"
proof -
  assume a: "(0x80000000 :: u64) \<le> a" "a < 0x80002000"
  have n: "2147483648 \<le> unat a" "unat a < 2147491840" using a by (simp_all add: word_le_nat_alt word_less_nat_alt)
  have "paddr_ok a"
    using n unfolding paddr_ok_def word_unat_eq_iff unat_drop_bit_eq unfolding drop_bit_eq_div by simp
  moreover have "(0xc000000 :: u64) \<le> a" using n by (simp add: word_le_nat_alt)
  moreover have "a - 0x80000000 < 0x2000"
    using n by (simp add: word_less_nat_alt unat_sub a)
  ultimately show ?thesis using a
    by (simp add: sim_byte_def new_sim_def flush_tlb_def demo_bus_eq find_device_def upper_bound_def mem_byte_def)
qed

lemma memif_refines_flat_witness:
  "\<exists>s1 s2. memif_write (sim_memif plic_load plic_store) 0x80000FFD [1, 2, 3, 4, 5, 6, 7, 8, 9, 10, 11] (new_sim demo_bus) = (s1, Inr ())
     \<and> sim_ok s1 \<and> sim_ram s1 = flat_put (sim_ram (new_sim demo_bus)) 0x80000FFD [1, 2, 3, 4, 5, 6, 7, 8, 9, 10, 11]
     \<and> memif_read (sim_memif plic_load plic_store) 0x80000FFD 11 s1 = (s2, Inr [1, 2, 3, 4, 5, 6, 7, 8, 9, 10, 11])
     \<and> sim_ok s2 \<and> sim_ram s2 = sim_ram s1"
proof -
  have "None \<notin> set (flat_get (sim_ram (new_sim demo_bus)) 0x80000FFD 11)"
    by (simp add: flat_get_def upt_rec demo_ram)
  moreover have len: "length [1, 2, 3, 4, 5, 6, 7, 8, 9, 10, 11 :: u8] = 11" by simp
  ultimately show ?thesis
    using memif_refines_flat [OF demo_sim_ok, where addr = "0x80000FFD" and bytes = "[1, 2, 3, 4, 5, 6, 7, 8, 9, 10, 11]"
        and io_load = plic_load and io_store = plic_store, unfolded len] by simp
qed

text \<open>C13: An aligned load or store of 1, 2, 4 or 8 bytes by the debug MMU, through the TLB or
  past it, acts on memory as on a flat memory and keeps the TLB consistent with it. Where
  there is no memory: if its bytes lie below the 56-bit limit of physical addresses, a
  device gets the access at its offset and moves to its next state, and the load returns
  exactly what the device answers, or the bytes of the ROM when all of them lie inside it; a
  store succeeds exactly when the device accepts it. Every other access (no device, past the
  end of a ROM or of a memory, refused by the device, a store to ROM, above the limit) is
  the access fault of its address.\<close>

theorem mmu_access_correct:
  assumes ok: "sim_ok s" and al: "addr AND of_nat (2 ^ k - 1) = 0" "k \<le> 3" and bytes: "length bytes = 2 ^ k"
    and roms: "rom_sizes (bus s)"
  shows "(case mmu_load io_load addr (2 ^ k) s of (s', r) \<Rightarrow>
            sim_ok s' \<and> sim_ram s' = sim_ram s \<and>
            (if ram_at s addr then \<exists>bs. r = Inr bs \<and> map Some bs = flat_get (sim_ram s) addr (2 ^ k)
             else r = (case if on_bus addr (2 ^ k) then load_answer io_load addr (2 ^ k) (bus s) else None of
                         Some bs \<Rightarrow> Inr bs | None \<Rightarrow> Inl (Load_Access_Fault addr)) \<and>
                  io_at addr (bus s') =
                    map_option (\<lambda>(off, d). (off, if on_bus addr (2 ^ k) then fst (io_load off (2 ^ k) d) else d)) (io_at addr (bus s))))
       \<and> (case mmu_store io_store addr (2 ^ k) bytes s of (s', r) \<Rightarrow>
            sim_ok s' \<and>
            (if ram_at s addr then r = Inr () \<and> sim_ram s' = flat_put (sim_ram s) addr bytes
             else sim_ram s' = sim_ram s \<and>
                  r = (if on_bus addr (2 ^ k) \<and> store_answer io_store addr (2 ^ k) bytes (bus s) then Inr ()
                       else Inl (Store_Access_Fault addr)) \<and>
                  io_at addr (bus s') =
                    map_option (\<lambda>(off, d). (off, if on_bus addr (2 ^ k) then fst (io_store off (2 ^ k) bytes d) else d)) (io_at addr (bus s))))"
proof (cases "ram_at s addr")
  case True
  have len: "2 ^ k \<le> PGSIZE - unat addr mod PGSIZE" by (rule aligned_in_page [OF al(1)]) (use al(2) in simp)
  obtain s1 bs where l: "load_slow_path_intrapage io_load addr (2 ^ k) s = (s1, Inr bs)" "sim_ok s1" "sim_ram s1 = sim_ram s"
    "map Some bs = flat_get (sim_ram s) addr (2 ^ k)"
    using load_intrapage_ram [OF ok True len] unfolding flat_get_def by metis
  obtain s2 where w: "store_slow_path_intrapage io_store addr (2 ^ k) bytes s = (s2, Inr ())" "sim_ok s2"
    "\<And>b. sim_byte (bus s2) b = (if unat (b - addr) < length bytes then Some (bytes ! unat (b - addr)) else sim_byte (bus s) b)"
    using store_intrapage_ram [OF ok True, of bytes] len bytes by metis
  show ?thesis
    using True l w bytes unfolding mmu_load_slow [OF al(1)] mmu_store_slow [OF al(1)]
    by (auto simp: flat_put_def fun_eq_iff)
next
  case False
  then show ?thesis using mmu_load_other [OF ok False al roms, of io_load] mmu_store_other [OF ok False al, of io_store bytes]
    by (auto split: prod.splits)
qed

text \<open>The same machine with a boot ROM of twelve bytes at \<open>0x1000\<close>.\<close>

definition demo_rom_bus :: "plic bus_t" where
  "demo_rom_bus = add_device 0x1000 (Rom [10, 11, 12, 13, 14, 15, 16, 17, 18, 19, 20, 21]) demo_bus"

lemma demo_rom_bus_eq: "demo_rom_bus =
    [(0x1000, Rom [10, 11, 12, 13, 14, 15, 16, 17, 18, 19, 20, 21]), (0xc000000, Io demo_plic),
     (0x80000000, Memory \<lparr>sparse_memory_map = (\<lambda>_. None), sz = 0x2000\<rparr>)]"
  by (simp add: demo_rom_bus_def demo_bus_eq)

lemma demo_rom_ok: "sim_ok (new_sim demo_rom_bus)" "rom_sizes (bus (new_sim demo_rom_bus))"
  by (rule new_sim_ok, simp add: demo_rom_bus_eq bus_ok_def device_ok_def mem_ok_def)
    (simp add: rom_sizes_def new_sim_def flush_tlb_def demo_rom_bus_eq)

lemma demo_rom_find: "find_device 0x1008 (bus (new_sim demo_rom_bus)) = Some (0x1000, Rom [10, 11, 12, 13, 14, 15, 16, 17, 18, 19, 20, 21])"
  by (simp add: new_sim_def flush_tlb_def demo_rom_bus_eq find_device_def upper_bound_def)

lemma demo_rom_ram: "ram_at (new_sim demo_rom_bus) 0x80001FF8" "\<not> ram_at (new_sim demo_rom_bus) 0x1008"
  by (simp_all add: ram_at_def new_sim_def flush_tlb_def demo_rom_bus_eq sim_byte_def find_device_def upper_bound_def mem_byte_def paddr_ok_iff)

text \<open>A store to RAM, a load inside the ROM, a load past its end, a store to it.\<close>

lemma mmu_access_correct_witness:
  "snd (mmu_store plic_store 0x80001FF8 8 [1, 2, 3, 4, 5, 6, 7, 8] (new_sim demo_rom_bus)) = Inr ()
   \<and> sim_ram (fst (mmu_store plic_store 0x80001FF8 8 [1, 2, 3, 4, 5, 6, 7, 8] (new_sim demo_rom_bus)))
     = flat_put (sim_ram (new_sim demo_rom_bus)) 0x80001FF8 [1, 2, 3, 4, 5, 6, 7, 8]
   \<and> snd (mmu_load plic_load 0x1008 4 (new_sim demo_rom_bus)) = Inr [18, 19, 20, 21]
   \<and> snd (mmu_load plic_load 0x1008 8 (new_sim demo_rom_bus)) = Inl (Load_Access_Fault 0x1008)
   \<and> snd (mmu_store plic_store 0x1008 8 [1, 2, 3, 4, 5, 6, 7, 8] (new_sim demo_rom_bus)) = Inl (Store_Access_Fault 0x1008)"
proof -
  note c = mmu_access_correct [OF demo_rom_ok(1) _ _ _ demo_rom_ok(2), where io_load = plic_load and io_store = plic_store]
  have on: "on_bus 0x1008 4" "on_bus 0x1008 8" by (simp_all add: on_bus_def)
  note ans = on demo_rom_ram demo_rom_find load_answer_def store_answer_def split_beta
  show ?thesis
    using c [of "0x80001FF8" 3 "[1, 2, 3, 4, 5, 6, 7, 8]"] c [of "0x1008" 2 "[1, 2, 3, 4]"]
      c [of "0x1008" 3 "[1, 2, 3, 4, 5, 6, 7, 8]"] by (simp add: ans)
qed

end
