(* ===== verification/Spike_Cache.thy ===== *)
theory Spike_Cache
  imports Prelude
begin

text \<open>
  The cache simulator (\<open>cachesim.cc\<close>, \<open>cachesim.h\<close>): set-associative and fully associative
  caches with pseudo-random replacement, chained by their miss handlers.  A cache is the record
  of its members; a pointer to a tag is its position in the tag array, or in the order of the
  map for the fully associative cache.  A chain of caches, each the miss handler of the one
  before it, is a list.
\<close>

section \<open>The pseudo-random generator\<close>

definition lfsr_next :: "u32 \<Rightarrow> u32" where
  "lfsr_next reg = drop_bit 1 reg XOR (- (reg AND 1) AND 0xd0000001)"

section \<open>State\<close>

abbreviation (input) VALID :: u64 where "VALID \<equiv> 0x8000000000000000"
abbreviation (input) DIRTY :: u64 where "DIRTY \<equiv> 0x4000000000000000"

text \<open>The tags: an array, or a map from line numbers in the order of its keys.\<close>

datatype tag_store = Tag_Array "u64 list" | Tag_Map "(u64 \<times> u64) list"

record cache_sim_t =
  sets :: u64
  ways :: nat
  linesz :: u64
  idx_shift :: nat
  tags :: tag_store
  lfsr :: u32
  read_accesses :: u64
  read_misses :: u64
  bytes_read :: u64
  write_accesses :: u64
  write_misses :: u64
  bytes_written :: u64
  writebacks :: u64

text \<open>The loop that computes \<open>idx_shift\<close>.\<close>

function shift_loop :: "u64 \<Rightarrow> nat" where
  "shift_loop x = (if x > 1 then Suc (shift_loop (drop_bit 1 x)) else 0)"
  by auto
termination
proof (relation "measure unat")
  fix x :: u64 assume "1 < x"
  then have "unat x \<noteq> 0" by (auto simp: word_less_nat_alt)
  then show "(drop_bit 1 x, x) \<in> measure unat"
    by (simp add: unat_drop_bit_eq drop_bit_eq_div unat_div_distrib)
qed simp

declare shift_loop.simps [simp del]

text \<open>\<open>init\<close>, which exits with a usage message for a bad geometry; \<open>fa\<close> selects the fully
  associative cache, whose base class also has one set.\<close>

definition init :: "bool \<Rightarrow> u64 \<Rightarrow> nat \<Rightarrow> u64 \<Rightarrow> cache_sim_t option" where
  "init fa sts wys lsz =
     (if sts = 0 \<or> sts AND (sts - 1) \<noteq> 0 then None
      else if lsz < 8 \<or> lsz AND (lsz - 1) \<noteq> 0 then None
      else Some \<lparr>sets = sts, ways = wys, linesz = lsz, idx_shift = shift_loop lsz,
             tags = (if fa then Tag_Map [] else Tag_Array (replicate (unat sts * wys) 0)), lfsr = 1,
             read_accesses = 0, read_misses = 0, bytes_read = 0,
             write_accesses = 0, write_misses = 0, bytes_written = 0, writebacks = 0\<rparr>)"

text \<open>The geometry a configuration selects: a fully associative cache for one set of more than
  four ways.\<close>

definition construct :: "u64 \<Rightarrow> nat \<Rightarrow> u64 \<Rightarrow> cache_sim_t option" where
  "construct sts wys lsz = (if wys > 4 \<and> sts = 1 then init True 1 wys lsz else init False sts wys lsz)"

section \<open>Tags\<close>

definition cache_set :: "cache_sim_t \<Rightarrow> u64 \<Rightarrow> nat" where
  "cache_set c addr = unat (drop_bit (idx_shift c) addr AND (sets c - 1))"

fun map_find :: "u64 \<Rightarrow> (u64 \<times> u64) list \<Rightarrow> nat option" where
  "map_find key [] = None"
| "map_find key ((k, v) # m) = (if k = key then Some 0 else map_option Suc (map_find key m))"

fun map_set :: "u64 \<Rightarrow> u64 \<Rightarrow> (u64 \<times> u64) list \<Rightarrow> (u64 \<times> u64) list" where
  "map_set key v [] = [(key, v)]"
| "map_set key v ((k, w) # m) =
     (if key < k then (key, v) # (k, w) # m
      else if key = k then (key, v) # m
      else (k, w) # map_set key v m)"

definition check_tag :: "cache_sim_t \<Rightarrow> u64 \<Rightarrow> nat option" where
  "check_tag c addr =
     (case tags c of
        Tag_Array ts \<Rightarrow>
          let idx = cache_set c addr; tag = drop_bit (idx_shift c) addr OR VALID
          in map_option (\<lambda>i. idx * ways c + i)
               (List.find (\<lambda>i. tag = ts ! (idx * ways c + i) AND NOT DIRTY) [0..<ways c])
      | Tag_Map m \<Rightarrow> map_find (drop_bit (idx_shift c) addr) m)"

text \<open>Reading and writing through the pointer \<open>check_tag\<close> returns.\<close>

definition get_tag :: "cache_sim_t \<Rightarrow> nat \<Rightarrow> u64" where
  "get_tag c p = (case tags c of Tag_Array ts \<Rightarrow> ts ! p | Tag_Map m \<Rightarrow> snd (m ! p))"

definition set_tag :: "nat \<Rightarrow> u64 \<Rightarrow> cache_sim_t \<Rightarrow> cache_sim_t" where
  "set_tag p v c =
     c\<lparr>tags := (case tags c of
                  Tag_Array ts \<Rightarrow> Tag_Array (ts[p := v])
                | Tag_Map m \<Rightarrow> Tag_Map (m[p := (fst (m ! p), v)]))\<rparr>"

definition victimize :: "u64 \<Rightarrow> cache_sim_t \<Rightarrow> u64 \<times> cache_sim_t" where
  "victimize addr c =
     (let line = drop_bit (idx_shift c) addr
      in case tags c of
           Tag_Array ts \<Rightarrow>
             let r = lfsr_next (lfsr c);
                 p = cache_set c addr * ways c + unat r mod ways c
             in (ts ! p, c\<lparr>lfsr := r, tags := Tag_Array (ts[p := line OR VALID])\<rparr>)
         | Tag_Map m \<Rightarrow>
             if length m = ways c
             then let r = lfsr_next (lfsr c);
                      p = unat r mod ways c
                  in (snd (m ! p), c\<lparr>lfsr := r, tags := Tag_Map (map_set line (line OR VALID) (take p m @ drop (Suc p) m))\<rparr>)
             else (0, c\<lparr>tags := Tag_Map (map_set line (line OR VALID) m)\<rparr>))"

section \<open>Accesses\<close>

definition count_access :: "nat \<Rightarrow> bool \<Rightarrow> cache_sim_t \<Rightarrow> cache_sim_t" where
  "count_access bytes store c =
     (if store
      then c\<lparr>write_accesses := write_accesses c + 1, bytes_written := bytes_written c + of_nat bytes\<rparr>
      else c\<lparr>read_accesses := read_accesses c + 1, bytes_read := bytes_read c + of_nat bytes\<rparr>)"

definition count_miss :: "bool \<Rightarrow> cache_sim_t \<Rightarrow> cache_sim_t" where
  "count_miss store c =
     (if store then c\<lparr>write_misses := write_misses c + 1\<rparr> else c\<lparr>read_misses := read_misses c + 1\<rparr>)"

definition mark_dirty :: "u64 \<Rightarrow> cache_sim_t \<Rightarrow> cache_sim_t" where
  "mark_dirty addr c =
     (case check_tag c addr of None \<Rightarrow> c | Some p \<Rightarrow> set_tag p (get_tag c p OR DIRTY) c)"

definition needs_writeback :: "u64 \<Rightarrow> bool" where
  "needs_writeback victim \<longleftrightarrow> victim AND (VALID OR DIRTY) = VALID OR DIRTY"

definition dirty_addr :: "cache_sim_t \<Rightarrow> u64 \<Rightarrow> u64" where
  "dirty_addr c victim = push_bit (idx_shift c) (victim AND NOT (VALID OR DIRTY))"

definition line_addr :: "cache_sim_t \<Rightarrow> u64 \<Rightarrow> u64" where
  "line_addr c addr = addr AND NOT (linesz c - 1)"

text \<open>A hit, and what a miss does to the cache itself: the victim and the cache afterwards.\<close>

definition cache_hit :: "nat \<Rightarrow> bool \<Rightarrow> cache_sim_t \<Rightarrow> cache_sim_t" where
  "cache_hit hit_way store c = (if store then set_tag hit_way (get_tag c hit_way OR DIRTY) c else c)"

definition cache_miss :: "u64 \<Rightarrow> bool \<Rightarrow> cache_sim_t \<Rightarrow> u64 \<times> cache_sim_t" where
  "cache_miss addr store c =
     (let (victim, c1) = victimize addr (count_miss store c);
          c2 = (if needs_writeback victim then c1\<lparr>writebacks := writebacks c1 + 1\<rparr> else c1)
      in (victim, if store then mark_dirty addr c2 else c2))"

text \<open>The miss handler sees the write of a dirty victim, then the read of the line.\<close>

function access :: "u64 \<Rightarrow> nat \<Rightarrow> bool \<Rightarrow> cache_sim_t list \<Rightarrow> cache_sim_t list" where
  "access addr bytes store [] = []"
| "access addr bytes store (c # miss_handler) =
     (let c1 = count_access bytes store c
      in case check_tag c1 addr of
           Some hit_way \<Rightarrow> cache_hit hit_way store c1 # miss_handler
         | None \<Rightarrow>
             let (victim, c2) = cache_miss addr store c1;
                 mh = (if needs_writeback victim
                       then access (dirty_addr c victim) (unat (linesz c)) True miss_handler else miss_handler)
             in c2 # access (line_addr c addr) (unat (linesz c)) False mh)"
  by pat_completeness auto

termination
proof -
  have len: "length (access addr bytes store cs) = length cs" if "access_dom (addr, bytes, store, cs)" for addr bytes store cs
    using that
  proof (induction rule: access.pinduct)
    case (1 addr bytes store)
    then show ?case by (simp add: access.psimps)
  next
    case (2 addr bytes store c mh)
    let ?c1 = "count_access bytes store c"
    show ?case
    proof (cases "check_tag ?c1 addr")
      case None
      obtain v c2 where m: "cache_miss addr store ?c1 = (v, c2)" by (metis prod.exhaust)
      show ?thesis
        using "2.hyps" "2.IH"(1) [OF refl None m [symmetric] refl] "2.IH"(2) [OF refl None m [symmetric] refl refl] None
        by (simp add: access.psimps m)
    qed (simp add: access.psimps "2.hyps")
  qed
  show ?thesis by (relation "measure (\<lambda>(addr, bytes, store, cs). length cs)") (auto simp: len)
qed

declare access.simps [simp del]

text \<open>The body of the loop of \<open>clean_invalidate\<close>, for one line.\<close>

definition clean_line :: "bool \<Rightarrow> bool \<Rightarrow> u64 \<Rightarrow> cache_sim_t \<Rightarrow> cache_sim_t" where
  "clean_line clean inval addr c =
     (case check_tag c addr of
        None \<Rightarrow> c
      | Some p \<Rightarrow>
          let c1 = (if clean \<and> get_tag c p AND DIRTY \<noteq> 0
                    then set_tag p (get_tag c p AND NOT DIRTY) (c\<lparr>writebacks := writebacks c + 1\<rparr>) else c)
          in if inval then set_tag p (get_tag c1 p AND NOT VALID) c1 else c1)"

text \<open>The loop, which for a line size of zero would not end.\<close>

partial_function (option) clean_loop ::
  "bool \<Rightarrow> bool \<Rightarrow> u64 \<Rightarrow> u64 \<Rightarrow> cache_sim_t \<Rightarrow> cache_sim_t option" where
  "clean_loop clean inval cur_addr end_addr c =
     (if cur_addr < end_addr
      then clean_loop clean inval (cur_addr + linesz c) end_addr (clean_line clean inval cur_addr c)
      else Some c)"

fun clean_invalidate :: "u64 \<Rightarrow> nat \<Rightarrow> bool \<Rightarrow> bool \<Rightarrow> cache_sim_t list \<Rightarrow> cache_sim_t list option" where
  "clean_invalidate addr bytes clean inval [] = Some []"
| "clean_invalidate addr bytes clean inval (c # miss_handler) =
     (let start_addr = addr AND NOT (linesz c - 1);
          end_addr = (addr + of_nat bytes + linesz c - 1) AND NOT (linesz c - 1)
      in case clean_loop clean inval start_addr end_addr c of
           None \<Rightarrow> None
         | Some c' \<Rightarrow> map_option ((#) c') (clean_invalidate addr bytes clean inval miss_handler))"

section \<open>Tag words\<close>

text \<open>A tag word: the line number and the two flags.\<close>

abbreviation valid :: "u64 \<Rightarrow> bool" where "valid w \<equiv> bit w 63"
abbreviation dirty :: "u64 \<Rightarrow> bool" where "dirty w \<equiv> bit w 62"

definition line_of :: "u64 \<Rightarrow> u64" where
  "line_of w = w AND NOT (VALID OR DIRTY)"

lemma flags: "VALID = 2 ^ 63" "DIRTY = 2 ^ 62"
  by simp_all

lemma bit_VALID: "bit VALID n \<longleftrightarrow> n = 63" and bit_DIRTY: "bit DIRTY n \<longleftrightarrow> n = 62"
  unfolding flags bit_exp_iff by auto

lemmas bit_flags = bit_VALID bit_DIRTY bit_and_iff bit_or_iff bit_not_iff

lemma bit_line_of: "bit (line_of w) n \<longleftrightarrow> bit w n \<and> n \<noteq> 62 \<and> n \<noteq> 63"
  unfolding line_of_def bit_flags by (auto dest: bit_imp_le_length)

lemma needs_writeback_iff: "needs_writeback w \<longleftrightarrow> valid w \<and> dirty w"
proof
  assume "needs_writeback w"
  then have "\<And>n. bit (w AND (VALID OR DIRTY)) n = bit (VALID OR DIRTY) n" by (simp only: needs_writeback_def)
  from this [of 63] this [of 62] show "valid w \<and> dirty w" unfolding bit_flags by simp
next
  assume h: "valid w \<and> dirty w"
  have "w AND (VALID OR DIRTY) = VALID OR DIRTY"
    by (rule bit_eqI) (unfold bit_flags, use h in auto)
  then show "needs_writeback w" unfolding needs_writeback_def .
qed

lemma and_DIRTY: "w AND DIRTY = 0 \<longleftrightarrow> \<not> dirty w"
  unfolding flags by (rule and_exp_eq_0_iff_not_bit)

text \<open>Line numbers leave the flags free.\<close>

lemma line_bits: "3 \<le> sh \<Longrightarrow> \<not> bit (drop_bit sh (a :: u64)) 62 \<and> \<not> bit (drop_bit sh a) 63"
  by (auto simp: bit_drop_bit_eq dest: bit_imp_le_length)

lemma new_word:
  assumes "3 \<le> sh"
  shows "valid (drop_bit sh (a :: u64) OR VALID)" "\<not> dirty (drop_bit sh a OR VALID)" "line_of (drop_bit sh a OR VALID) = drop_bit sh a"
proof -
  show "valid (drop_bit sh a OR VALID)" "\<not> dirty (drop_bit sh a OR VALID)"
    using line_bits [OF assms, of a] unfolding bit_flags by auto
  show "line_of (drop_bit sh a OR VALID) = drop_bit sh a"
    by (rule bit_eqI) (unfold bit_line_of bit_flags, use line_bits [OF assms, of a] in auto)
qed

lemma line_eqD: "line_of w = x \<Longrightarrow> (bit w n \<and> n \<noteq> 62 \<and> n \<noteq> 63) = bit x n"
  using bit_line_of [of w n] by simp

lemma tag_match:
  assumes "3 \<le> sh"
  shows "drop_bit sh (a :: u64) OR VALID = w AND NOT DIRTY \<longleftrightarrow> valid w \<and> line_of w = drop_bit sh a"
proof
  assume "drop_bit sh a OR VALID = w AND NOT DIRTY"
  then have "bit (drop_bit sh a OR VALID) n = bit (w AND NOT DIRTY) n" for n by (simp only:)
  then have e: "(bit (drop_bit sh a) n \<or> n = 63) = (bit w n \<and> n < 64 \<and> n \<noteq> 62)" for n
    unfolding bit_flags by (auto dest: bit_imp_le_length)
  have "valid w" using e [of 63] by simp
  moreover have "line_of w = drop_bit sh a"
    by (rule bit_eqI) (unfold bit_line_of, use e line_bits [OF assms, of a] in auto)
  ultimately show "valid w \<and> line_of w = drop_bit sh a" ..
next
  assume h: "valid w \<and> line_of w = drop_bit sh a"
  show "drop_bit sh a OR VALID = w AND NOT DIRTY"
    by (rule bit_eqI) (unfold bit_flags line_eqD [OF conjunct2 [OF h], symmetric], use h in auto)
qed

lemma set_dirty: "valid (w OR DIRTY) = valid w" "dirty (w OR DIRTY)" "line_of (w OR DIRTY) = line_of w"
proof -
  show "valid (w OR DIRTY) = valid w" "dirty (w OR DIRTY)" unfolding bit_flags by auto
  show "line_of (w OR DIRTY) = line_of w" by (rule bit_eqI) (unfold bit_line_of bit_flags, auto)
qed

lemma clear_dirty: "valid (w AND NOT DIRTY) = valid w" "\<not> dirty (w AND NOT DIRTY)" "line_of (w AND NOT DIRTY) = line_of w"
proof -
  show "valid (w AND NOT DIRTY) = valid w" "\<not> dirty (w AND NOT DIRTY)" unfolding bit_flags by auto
  show "line_of (w AND NOT DIRTY) = line_of w" by (rule bit_eqI) (unfold bit_line_of bit_flags, auto)
qed

lemma clear_valid: "\<not> valid (w AND NOT VALID)" "line_of (w AND NOT VALID) = line_of w"
proof -
  show "\<not> valid (w AND NOT VALID)" unfolding bit_flags by auto
  show "line_of (w AND NOT VALID) = line_of w" by (rule bit_eqI) (unfold bit_line_of bit_flags, auto)
qed

section \<open>The invariant\<close>

definition slots :: "cache_sim_t \<Rightarrow> u64 list" where
  "slots c = (case tags c of Tag_Array ts \<Rightarrow> ts | Tag_Map m \<Rightarrow> map snd m)"

text \<open>Geometry: sets and line size are powers of two and there is a way.\<close>

definition geometry_ok :: "cache_sim_t \<Rightarrow> bool" where
  "geometry_ok c \<longleftrightarrow> (\<exists>k<64. sets c = 2 ^ k) \<and> linesz c = 2 ^ idx_shift c \<and> 3 \<le> idx_shift c \<and> idx_shift c < 64 \<and> 0 < ways c"

text \<open>No line is held twice.\<close>

definition unique_lines :: "u64 list \<Rightarrow> bool" where
  "unique_lines ws \<longleftrightarrow> (\<forall>p<length ws. \<forall>q<length ws. valid (ws ! p) \<longrightarrow> valid (ws ! q) \<longrightarrow> line_of (ws ! p) = line_of (ws ! q) \<longrightarrow> p = q)"

text \<open>Valid tags of the array are in the set of their line; the map is in order, within its
  capacity, and holds valid tags under their line numbers.\<close>

definition tags_ok :: "cache_sim_t \<Rightarrow> bool" where
  "tags_ok c \<longleftrightarrow>
     (case tags c of
        Tag_Array ts \<Rightarrow> length ts = unat (sets c) * ways c
          \<and> (\<forall>p<length ts. valid (ts ! p) \<longrightarrow> p div ways c = unat (line_of (ts ! p) AND (sets c - 1)))
      | Tag_Map m \<Rightarrow> sorted_wrt (<) (map fst m) \<and> length m \<le> ways c \<and> sets c = 1
          \<and> (\<forall>(k, v)\<in>set m. valid v \<and> line_of v = k))"

definition cache_ok :: "cache_sim_t \<Rightarrow> bool" where
  "cache_ok c \<longleftrightarrow> geometry_ok c \<and> tags_ok c \<and> unique_lines (slots c)"

text \<open>The valid tags of a cache, and what they say of an address.\<close>

definition words :: "cache_sim_t \<Rightarrow> u64 set" where
  "words c = {w \<in> set (slots c). valid w}"

definition resident :: "cache_sim_t \<Rightarrow> u64 \<Rightarrow> bool" where
  "resident c a \<longleftrightarrow> (\<exists>w\<in>words c. line_of w = drop_bit (idx_shift c) a)"

lemma map_find_Some:
  "distinct (map fst m) \<Longrightarrow> map_find key m = Some p \<longleftrightarrow> p < length m \<and> fst (m ! p) = key"
proof (induction key m arbitrary: p rule: map_find.induct)
  case (2 key k v m)
  show ?case
  proof (cases "k = key")
    case True
    then have "\<not> (p < length m \<and> fst (m ! p) = key)" for p using "2.prems" by (auto dest: nth_mem)
    then show ?thesis using True by (cases p) auto
  next
    case False then show ?thesis using 2 by (cases p) auto
  qed
qed simp

lemma unat_power2: "k < 64 \<Longrightarrow> unat (2 ^ k :: u64) = 2 ^ k"
proof -
  assume k: "k < 64"
  have "unat (of_nat (2 ^ k) :: u64) = 2 ^ k mod 2 ^ 64" by (simp only: unat_of_nat len_num1 len_bit0) simp
  also have "\<dots> = 2 ^ k" using k by (intro mod_less power_strict_increasing) auto
  finally show ?thesis by simp
qed

lemma idx_less: "geometry_ok c \<Longrightarrow> unat (x AND (sets c - 1)) < unat (sets c)"
proof -
  assume "geometry_ok c"
  then obtain k where k: "k < 64" "sets c = 2 ^ k" by (auto simp: geometry_ok_def)
  have "x AND (sets c - 1) = take_bit k x" unfolding k(2) by (simp add: take_bit_eq_mask mask_eq_exp_minus_1)
  moreover have "unat (take_bit k x) < 2 ^ k" by (simp add: unsigned_take_bit_eq)
  moreover have "unat (sets c) = 2 ^ k" using k by (simp add: unat_power2)
  ultimately show ?thesis by simp
qed

text \<open>\<open>check_tag\<close> finds the line's tag exactly when the cache holds the line.\<close>

lemma check_tag_Some:
  assumes ok: "cache_ok c"
  shows "check_tag c a = Some p \<longleftrightarrow>
    p < length (slots c) \<and> valid (slots c ! p) \<and> line_of (slots c ! p) = drop_bit (idx_shift c) a"
proof (cases "tags c")
  case (Tag_Map m)
  then have m: "sorted_wrt (<) (map fst m)" "\<forall>(k, v)\<in>set m. valid v \<and> line_of v = k"
    using ok by (auto simp: cache_ok_def tags_ok_def)
  then have "p < length m \<Longrightarrow> valid (snd (m ! p)) \<and> line_of (snd (m ! p)) = fst (m ! p)"
    by (metis (mono_tags, lifting) case_prodD nth_mem prod.collapse)
  then show ?thesis using Tag_Map m(1)
    by (auto simp: check_tag_def slots_def map_find_Some strict_sorted_iff)
next
  case (Tag_Array ts)
  have g: "geometry_ok c" and ts: "length ts = unat (sets c) * ways c"
    "\<And>p. p < length ts \<Longrightarrow> valid (ts ! p) \<Longrightarrow> p div ways c = unat (line_of (ts ! p) AND (sets c - 1))"
    and uniq: "unique_lines ts"
    using ok Tag_Array by (auto simp: cache_ok_def tags_ok_def slots_def)
  have sh: "3 \<le> idx_shift c" and w: "0 < ways c" using g by (simp_all add: geometry_ok_def)
  let ?l = "drop_bit (idx_shift c) a"
  let ?idx = "unat (?l AND (sets c - 1))"
  have idx: "?idx < unat (sets c)" by (rule idx_less [OF g])
  have at: "?idx * ways c + i < length ts" if "i < ways c" for i
  proof -
    have "?idx * ways c + i < (?idx + 1) * ways c" using that by simp
    also have "\<dots> \<le> length ts" unfolding ts(1) using idx by (intro mult_le_mono1) simp
    finally show ?thesis .
  qed
  let ?hit = "\<lambda>i. valid (ts ! (?idx * ways c + i)) \<and> line_of (ts ! (?idx * ways c + i)) = ?l"
  have c: "check_tag c a = map_option (\<lambda>i. ?idx * ways c + i) (List.find ?hit [0..<ways c])"
    using Tag_Array tag_match [OF sh, of a] by (simp add: check_tag_def cache_set_def Let_def)
  show ?thesis
  proof
    assume "check_tag c a = Some p"
    then obtain i where "List.find ?hit [0..<ways c] = Some i" "p = ?idx * ways c + i" unfolding c by auto
    then show "p < length (slots c) \<and> valid (slots c ! p) \<and> line_of (slots c ! p) = ?l"
      using at by (auto simp: find_Some_iff slots_def Tag_Array)
  next
    assume p: "p < length (slots c) \<and> valid (slots c ! p) \<and> line_of (slots c ! p) = ?l"
    then have pt: "p < length ts" "valid (ts ! p)" "line_of (ts ! p) = ?l" by (simp_all add: slots_def Tag_Array)
    then have "p div ways c = ?idx" using ts(2) by metis
    then have pe: "p = ?idx * ways c + p mod ways c" by (metis div_mult_mod_eq)
    have "p mod ways c < ways c" using w by simp
    moreover have "?hit (p mod ways c)" unfolding pe [symmetric] using pt by simp
    ultimately have "List.find ?hit [0..<ways c] \<noteq> None" unfolding find_None_iff by auto
    then obtain i where i: "List.find ?hit [0..<ways c] = Some i" by auto
    then have "i < ways c" "?hit i" by (auto simp: find_Some_iff)
    then have "?idx * ways c + i = p"
      using uniq pt at [of i] unfolding unique_lines_def by metis
    then show "check_tag c a = Some p" unfolding c i by simp
  qed
qed

lemma get_tag_slot: "p < length (slots c) \<Longrightarrow> get_tag c p = slots c ! p"
  by (auto simp: get_tag_def slots_def split: tag_store.splits)

lemma check_tag_resident: "cache_ok c \<Longrightarrow> check_tag c a = None \<longleftrightarrow> \<not> resident c a"
  using check_tag_Some [of c a] unfolding resident_def words_def
  by (cases "check_tag c a") (auto simp: in_set_conv_nth)
section \<open>The lines a cache holds\<close>

text \<open>What the cache promises: a finite map from line numbers to whether the line is dirty.\<close>

definition lines_held :: "cache_sim_t \<Rightarrow> u64 \<Rightarrow> bool option" where
  "lines_held c = map_of (map (\<lambda>w. (line_of w, dirty w)) (filter valid (slots c)))"

definition line_no :: "cache_sim_t \<Rightarrow> u64 \<Rightarrow> u64" where
  "line_no c a = drop_bit (idx_shift c) a"

lemma words_unique:
  assumes "unique_lines (slots c)" "v \<in> words c" "w \<in> words c" "line_of v = line_of w"
  shows "v = w"
  using assms unfolding unique_lines_def words_def mem_Collect_eq in_set_conv_nth by metis

lemma lines_held_Some:
  assumes "unique_lines (slots c)"
  shows "lines_held c l = Some d \<longleftrightarrow> (\<exists>w\<in>words c. line_of w = l \<and> dirty w = d)"
proof
  assume "lines_held c l = Some d"
  then have "(l, d) \<in> set (map (\<lambda>w. (line_of w, dirty w)) (filter valid (slots c)))"
    unfolding lines_held_def by (rule map_of_SomeD)
  then show "\<exists>w\<in>words c. line_of w = l \<and> dirty w = d" by (auto simp: words_def)
next
  assume "\<exists>w\<in>words c. line_of w = l \<and> dirty w = d"
  then obtain w where w: "w \<in> words c" "line_of w = l" "dirty w = d" by blast
  then have "lines_held c l \<noteq> None" unfolding lines_held_def map_of_eq_None_iff by (force simp: words_def)
  then obtain d' where d': "lines_held c l = Some d'" by blast
  then have "(l, d') \<in> set (map (\<lambda>w. (line_of w, dirty w)) (filter valid (slots c)))"
    unfolding lines_held_def by (rule map_of_SomeD)
  then obtain v where "v \<in> words c" "line_of v = l" "dirty v = d'" by (auto simp: words_def)
  moreover have "v = w" using words_unique [OF assms \<open>v \<in> words c\<close> w(1)] \<open>line_of v = l\<close> w(2) by simp
  ultimately show "lines_held c l = Some d" using w(3) d' by simp
qed

lemma lines_held_None:
  "unique_lines (slots c) \<Longrightarrow> lines_held c l = None \<longleftrightarrow> (\<forall>w\<in>words c. line_of w \<noteq> l)"
  using lines_held_Some [of c l] by (metis option.exhaust option.distinct(1))

text \<open>The map after one word has replaced another, or none.\<close>

lemma lines_held_replace:
  assumes "unique_lines (slots c)" "unique_lines (slots c')" "words c' = insert w (words c - {v})"
  shows "lines_held c' = (if v \<in> words c then (lines_held c)(line_of v := None) else lines_held c)(line_of w \<mapsto> dirty w)"
    (is "_ = ?m")
proof
  fix l
  have some: "lines_held c' l = Some d \<longleftrightarrow> (\<exists>x\<in>insert w (words c - {v}). line_of x = l \<and> dirty x = d)" for d
    unfolding assms(3) [symmetric] by (rule lines_held_Some [OF assms(2)])
  show "lines_held c' l = ?m l"
  proof (cases "l = line_of w")
    case True
    then have "lines_held c' l = Some (dirty w)" unfolding some by blast
    then show ?thesis using True by simp
  next
    case False
    show ?thesis
    proof (cases "v \<in> words c \<and> line_of v = l")
      case True
      then have "lines_held c' l \<noteq> Some d" for d
        unfolding some using False words_unique [OF assms(1)] by blast
      then show ?thesis using True False by (cases "lines_held c' l") auto
    next
      case v: False
      have "lines_held c' l = Some d \<longleftrightarrow> lines_held c l = Some d" for d
        unfolding some lines_held_Some [OF assms(1)] using False v by blast
      then have "lines_held c' l = lines_held c l" by (metis option.exhaust)
      then show ?thesis using False v by auto
    qed
  qed
qed

text \<open>And after one word has gone.\<close>

lemma lines_held_remove:
  assumes "unique_lines (slots c)" "unique_lines (slots c')" "words c' = words c - {v}" "v \<in> words c"
  shows "lines_held c' = (lines_held c)(line_of v := None)"
proof
  fix l
  have some: "lines_held c' l = Some d \<longleftrightarrow> (\<exists>x\<in>words c - {v}. line_of x = l \<and> dirty x = d)" for d
    unfolding assms(3) [symmetric] by (rule lines_held_Some [OF assms(2)])
  show "lines_held c' l = ((lines_held c)(line_of v := None)) l"
  proof (cases "line_of v = l")
    case True
    then have "lines_held c' l \<noteq> Some d" for d unfolding some using words_unique [OF assms(1)] assms(4) by blast
    then show ?thesis using True by (cases "lines_held c' l") auto
  next
    case False
    have "lines_held c' l = Some d \<longleftrightarrow> lines_held c l = Some d" for d
      unfolding some lines_held_Some [OF assms(1)] using False by blast
    then have "lines_held c' l = lines_held c l" by (metis option.exhaust)
    then show ?thesis using False by auto
  qed
qed

section \<open>Writing a slot\<close>

lemma words_update:
  assumes "unique_lines ws" "p < length ws"
  shows "{x \<in> set (ws[p := w]). valid x} = {x. x = w \<and> valid w} \<union> ({x \<in> set ws. valid x} - {ws ! p})"
proof -
  have "x \<in> set (ws[p := w]) \<longleftrightarrow> x = w \<or> (\<exists>q<length ws. q \<noteq> p \<and> x = ws ! q)" for x
    unfolding in_set_conv_nth using assms(2) by (auto simp: nth_list_update)
  moreover have "(\<exists>q<length ws. q \<noteq> p \<and> x = ws ! q) \<longleftrightarrow> x \<in> set ws \<and> x \<noteq> ws ! p" if "valid x" for x
    using assms that unfolding unique_lines_def in_set_conv_nth by metis
  ultimately show ?thesis by auto
qed

lemma unique_update:
  assumes u: "unique_lines ws" and "p < length ws"
    and new: "\<And>q. \<lbrakk>valid w; q < length ws; q \<noteq> p; valid (ws ! q)\<rbrakk> \<Longrightarrow> line_of (ws ! q) \<noteq> line_of w"
  shows "unique_lines (ws[p := w])"
  unfolding unique_lines_def length_list_update
proof (intro allI impI)
  fix i j
  assume h: "i < length ws" "j < length ws" "valid (ws[p := w] ! i)" "valid (ws[p := w] ! j)"
    "line_of (ws[p := w] ! i) = line_of (ws[p := w] ! j)"
  consider "i = p" "j = p" | "i = p" "j \<noteq> p" | "i \<noteq> p" "j = p" | "i \<noteq> p" "j \<noteq> p" by blast
  then show "i = j"
  proof cases
    case 2 then show ?thesis using new [of j] h by simp
  next
    case 3 then show ?thesis using new [of i] h by simp
  next
    case 4
    then have "valid (ws ! i)" "valid (ws ! j)" "line_of (ws ! i) = line_of (ws ! j)" using h by simp_all
    then show ?thesis using u h(1,2) unfolding unique_lines_def by metis
  qed simp
qed

lemma slots_set_tag: "p < length (slots c) \<Longrightarrow> slots (set_tag p w c) = (slots c)[p := w]"
  by (auto simp: slots_def set_tag_def map_update split: tag_store.splits)

lemma set_tag_fields:
  "sets (set_tag p w c) = sets c" "ways (set_tag p w c) = ways c" "linesz (set_tag p w c) = linesz c"
  "idx_shift (set_tag p w c) = idx_shift c" "lfsr (set_tag p w c) = lfsr c"
  "read_accesses (set_tag p w c) = read_accesses c" "write_accesses (set_tag p w c) = write_accesses c"
  "read_misses (set_tag p w c) = read_misses c" "write_misses (set_tag p w c) = write_misses c"
  "writebacks (set_tag p w c) = writebacks c"
  by (simp_all add: set_tag_def)

lemma geometry_cong:
  "\<lbrakk>sets c' = sets c; ways c' = ways c; linesz c' = linesz c; idx_shift c' = idx_shift c\<rbrakk> \<Longrightarrow> geometry_ok c' = geometry_ok c"
  by (simp add: geometry_ok_def)

lemma words_set_tag:
  "\<lbrakk>unique_lines (slots c); p < length (slots c)\<rbrakk>
    \<Longrightarrow> words (set_tag p w c) = {x. x = w \<and> valid w} \<union> (words c - {slots c ! p})"
  unfolding words_def by (simp only: slots_set_tag words_update)

text \<open>Writing the same line with other flags: any flags for the array, valid ones for the map.\<close>

lemma set_tag_ok:
  assumes ok: "cache_ok c" and p: "p < length (slots c)" "valid (slots c ! p)"
    and w: "line_of w = line_of (slots c ! p)" "valid w \<or> (\<exists>ts. tags c = Tag_Array ts)"
  shows "cache_ok (set_tag p w c)"
proof -
  have g: "geometry_ok (set_tag p w c)"
    using ok geometry_cong [of "set_tag p w c" c] by (simp add: cache_ok_def set_tag_fields)
  have u: "unique_lines (slots c)" using ok by (simp add: cache_ok_def)
  have "unique_lines (slots (set_tag p w c))"
    unfolding slots_set_tag [OF p(1)]
    by (rule unique_update [OF u p(1)]) (use u p w(1) in \<open>unfold unique_lines_def, metis\<close>)
  moreover have "tags_ok (set_tag p w c)"
  proof (cases "tags c")
    case (Tag_Array ts)
    then have "p < length ts" "valid (ts ! p)" "line_of w = line_of (ts ! p)" "tags_ok c"
      using p w(1) ok by (simp_all add: slots_def cache_ok_def)
    then show ?thesis using Tag_Array by (auto simp: tags_ok_def set_tag_def nth_list_update)
  next
    case (Tag_Map m)
    then have pm: "p < length m" and wv: "valid w" and l: "line_of w = line_of (snd (m ! p))" and t: "tags_ok c"
      using p w ok by (simp_all add: slots_def cache_ok_def)
    have k: "\<forall>(k, v)\<in>set m. valid v \<and> line_of v = k" and srt: "sorted_wrt (<) (map fst m)" "length m \<le> ways c" "sets c = 1"
      using t by (simp_all add: tags_ok_def Tag_Map)
    have "m ! p \<in> set m" using pm by simp
    then have lk: "line_of (snd (m ! p)) = fst (m ! p)" using k by (metis (mono_tags, lifting) case_prodD prod.collapse)
    have keys: "map fst (m[p := (fst (m ! p), w)]) = map fst m"
      by (simp add: map_update) (metis list_update_id nth_map pm)
    have "\<forall>(k, v)\<in>set (m[p := (fst (m ! p), w)]). valid v \<and> line_of v = k"
    proof
      fix x assume "x \<in> set (m[p := (fst (m ! p), w)])"
      then have "x = (fst (m ! p), w) \<or> x \<in> set m" using set_update_subset_insert by fastforce
      then show "case x of (k, v) \<Rightarrow> valid v \<and> line_of v = k" using k wv l lk by auto
    qed
    then show ?thesis using Tag_Map srt by (simp add: tags_ok_def set_tag_def keys)
  qed
  ultimately show ?thesis using g by (simp add: cache_ok_def)
qed

section \<open>Replacement\<close>

lemma victimize_fields:
  assumes "victimize a c = (v, c')"
  shows "sets c' = sets c" "ways c' = ways c" "linesz c' = linesz c" "idx_shift c' = idx_shift c"
    "read_accesses c' = read_accesses c" "write_accesses c' = write_accesses c"
    "read_misses c' = read_misses c" "write_misses c' = write_misses c" "writebacks c' = writebacks c"
  using assms by (auto simp: victimize_def Let_def split: tag_store.splits if_splits)

lemma set_map_set:
  "sorted_wrt (<) (map fst m) \<Longrightarrow> set (map_set k v m) = insert (k, v) {x \<in> set m. fst x \<noteq> k}"
  by (induction k v m rule: map_set.induct) (auto simp: less_imp_neq)

lemma sorted_map_set:
  "sorted_wrt (<) (map fst m) \<Longrightarrow> sorted_wrt (<) (map fst (map_set k v m))"
  by (induction k v m rule: map_set.induct) (auto simp: set_map_set not_less_iff_gr_or_eq intro: less_trans)

lemma length_map_set:
  "\<forall>x\<in>set m. fst x \<noteq> k \<Longrightarrow> length (map_set k v m) = Suc (length m)"
  by (induction k v m rule: map_set.induct) auto

lemma sorted_erase:
  assumes "sorted_wrt (<) (map fst m)" "p < length m"
  shows "sorted_wrt (<) (map fst (take p m @ drop (Suc p) m))"
proof -
  have "sorted_wrt (<) (map fst (take p m @ m ! p # drop (Suc p) m))"
    using assms by (simp only: id_take_nth_drop [symmetric])
  then show ?thesis by (auto simp: sorted_wrt_append)
qed

lemma set_erase:
  assumes "distinct m" "p < length m"
  shows "set (take p m @ drop (Suc p) m) = set m - {m ! p}"
proof -
  have "m = take p m @ m ! p # drop (Suc p) m" using assms(2) by (rule id_take_nth_drop)
  then have "set m = set (take p m) \<union> insert (m ! p) (set (drop (Suc p) m))"
    "m ! p \<notin> set (take p m)" "m ! p \<notin> set (drop (Suc p) m)"
    using assms(1) by (metis set_append list.set(2), metis distinct_append disjoint_iff list.set_intros(1),
      metis distinct_append distinct.simps(2))
  then show ?thesis by auto
qed

lemma keys_unique:
  assumes "sorted_wrt (<) (map fst m)" "\<forall>(k, v)\<in>set m. valid v \<and> line_of v = k"
  shows "unique_lines (map snd m)"
  unfolding unique_lines_def length_map
proof (intro allI impI)
  fix i j
  assume ij: "i < length m" "j < length m" "line_of (map snd m ! i) = line_of (map snd m ! j)"
  have "line_of (snd (m ! i)) = fst (m ! i)" if "i < length m" for i
    using assms(2) that by (metis (mono_tags, lifting) case_prodD nth_mem prod.collapse)
  then have "map fst m ! i = map fst m ! j" using ij by simp
  moreover have "distinct (map fst m)" using assms(1) by (simp add: strict_sorted_iff)
  ultimately show "i = j" using ij by (metis nth_eq_iff_index_eq length_map)
qed


text \<open>The victim leaves, a clean valid word for the line comes.\<close>

lemma victimize_ok:
  assumes ok: "cache_ok c" and miss: "check_tag c a = None" and v: "victimize a c = (v, c')"
  shows "cache_ok c' \<and> words c' = insert (line_no c a OR VALID) (words c - {v}) \<and> (valid v \<longrightarrow> v \<in> words c)"
proof -
  have g: "geometry_ok c" and sh: "3 \<le> idx_shift c" and w: "0 < ways c" and u: "unique_lines (slots c)"
    using ok by (simp_all add: cache_ok_def geometry_ok_def)
  have g': "geometry_ok c'" using g geometry_cong [of c' c] victimize_fields [OF v] by simp
  let ?l = "drop_bit (idx_shift c) a"
  note new = new_word [OF sh, of a]
  have no: "line_of x \<noteq> ?l" if "x \<in> words c" for x
    using miss that unfolding check_tag_resident [OF ok] resident_def by blast
  show ?thesis
  proof (cases "tags c")
    case (Tag_Array ts)
    define p where "p = cache_set c a * ways c + unat (lfsr_next (lfsr c)) mod ways c"
    have vc: "v = ts ! p" "c' = c\<lparr>lfsr := lfsr_next (lfsr c), tags := Tag_Array (ts[p := ?l OR VALID])\<rparr>"
      using v Tag_Array by (simp_all add: victimize_def Let_def p_def)
    have sl: "slots c = ts" by (simp add: slots_def Tag_Array)
    have t: "length ts = unat (sets c) * ways c"
      "\<And>q. q < length ts \<Longrightarrow> valid (ts ! q) \<Longrightarrow> q div ways c = unat (line_of (ts ! q) AND (sets c - 1))"
      using ok Tag_Array by (simp_all add: cache_ok_def tags_ok_def)
    have "p < (cache_set c a + 1) * ways c" unfolding p_def using w by simp
    also have "\<dots> \<le> length ts"
      unfolding t(1) cache_set_def using idx_less [OF g, of ?l] by (intro mult_le_mono1) simp
    finally have p: "p < length ts" .
    have pd: "p div ways c = unat (?l AND (sets c - 1))" using w by (simp add: p_def cache_set_def)
    have sl': "slots c' = (slots c)[p := ?l OR VALID]" by (simp add: vc(2) slots_def Tag_Array)
    have nol: "line_of (slots c ! q) \<noteq> line_of (?l OR VALID)" if "q < length (slots c)" "valid (slots c ! q)" for q
      unfolding new(3) by (rule no) (use that in \<open>simp add: words_def\<close>)
    have "unique_lines (slots c')" unfolding sl' by (rule unique_update) (use u p sl nol in auto)
    moreover have "tags_ok c'"
      using p pd t new(3) by (auto simp: tags_ok_def vc(2) nth_list_update)
    moreover have "words c' = {x. x = ?l OR VALID \<and> valid (?l OR VALID)} \<union> (words c - {slots c ! p})"
      unfolding words_def sl' by (rule words_update [OF u]) (simp add: p sl)
    moreover have "v \<in> words c" if "valid v" using that p vc(1) sl by (simp add: words_def)
    ultimately show ?thesis using g' new(1) vc(1) sl by (auto simp: cache_ok_def line_no_def)
  next
    case (Tag_Map m)
    have srt: "sorted_wrt (<) (map fst m)" and len: "length m \<le> ways c" and k: "\<forall>(k, v)\<in>set m. valid v \<and> line_of v = k"
      and one: "sets c = 1"
      using ok Tag_Map by (auto simp: cache_ok_def tags_ok_def)
    have d: "distinct m" "distinct (map snd m)"
    proof -
      have "distinct (map fst m)" using srt by (simp add: strict_sorted_iff)
      then show "distinct m" by (simp add: distinct_map)
      have "map fst m = map line_of (map snd m)" using k by (auto simp: case_prod_beta)
      then show "distinct (map snd m)" using \<open>distinct (map fst m)\<close> by (metis distinct_map)
    qed
    define m1 where "m1 = (if length m = ways c then let p = unat (lfsr_next (lfsr c)) mod ways c in take p m @ drop (Suc p) m else m)"
    have m1: "sorted_wrt (<) (map fst m1)" "set m1 \<subseteq> set m" "length m1 < ways c"
      "snd ` set m1 = words c - {v}" "valid v \<longrightarrow> v \<in> words c"
      "tags c' = Tag_Map (map_set ?l (?l OR VALID) m1)"
    proof -
      have wc: "words c = snd ` set m" using k by (auto simp: words_def slots_def Tag_Map)
      have "sorted_wrt (<) (map fst m1) \<and> set m1 \<subseteq> set m \<and> length m1 < ways c \<and> snd ` set m1 = words c - {v}
        \<and> (valid v \<longrightarrow> v \<in> words c) \<and> tags c' = Tag_Map (map_set ?l (?l OR VALID) m1)"
      proof (cases "length m = ways c")
        case True
        define p where "p = unat (lfsr_next (lfsr c)) mod ways c"
        have p: "p < length m" unfolding p_def True using w by simp
        have m1e: "m1 = take p m @ drop (Suc p) m" by (simp add: m1_def True p_def Let_def)
        have vc: "v = snd (m ! p)" "tags c' = Tag_Map (map_set ?l (?l OR VALID) m1)"
          using v True Tag_Map by (auto simp: victimize_def Let_def p_def m1e)
        have s1: "set m1 = set m - {m ! p}" unfolding m1e by (rule set_erase [OF d(1) p])
        have "inj_on snd (set m)" using d(2) by (simp add: distinct_map)
        then have "snd ` set m1 = snd ` set m - {snd (m ! p)}"
          unfolding s1 using p by (simp add: inj_on_image_set_diff)
        moreover have "length m1 = length m - 1" unfolding m1e using p by simp
        moreover have "sorted_wrt (<) (map fst m1)" unfolding m1e by (rule sorted_erase [OF srt p])
        ultimately show ?thesis using vc s1 p w True by (auto simp: wc)
      next
        case False
        then have "m1 = m" "v = 0" "tags c' = Tag_Map (map_set ?l (?l OR VALID) m)"
          using v Tag_Map by (auto simp: m1_def victimize_def Let_def)
        moreover have "0 \<notin> words c" by (simp add: words_def)
        ultimately show ?thesis using srt len False by (simp add: wc)
      qed
      then show "sorted_wrt (<) (map fst m1)" "set m1 \<subseteq> set m" "length m1 < ways c"
        "snd ` set m1 = words c - {v}" "valid v \<longrightarrow> v \<in> words c"
        "tags c' = Tag_Map (map_set ?l (?l OR VALID) m1)" by simp_all
    qed
    have nokey: "\<forall>x\<in>set m1. fst x \<noteq> ?l"
    proof
      fix x assume x: "x \<in> set m1"
      then have "snd x \<in> words c" using m1(4) by blast
      moreover have "line_of (snd x) = fst x" using k m1(2) x by (auto simp: case_prod_beta)
      ultimately show "fst x \<noteq> ?l" using no by metis
    qed
    then have s2: "set (map_set ?l (?l OR VALID) m1) = insert (?l, ?l OR VALID) (set m1)"
      unfolding set_map_set [OF m1(1)] by auto
    have k2: "\<forall>(k, v)\<in>set (map_set ?l (?l OR VALID) m1). valid v \<and> line_of v = k"
      unfolding s2 using k m1(2) new by auto
    note srt2 = sorted_map_set [OF m1(1), of ?l "?l OR VALID"]
    have "tags_ok c'"
      using srt2 k2 length_map_set [OF nokey] m1(3) one victimize_fields [OF v] by (simp add: tags_ok_def m1(6))
    moreover have "unique_lines (slots c')" using keys_unique [OF srt2 k2] by (simp add: slots_def m1(6))
    moreover have "words c' = snd ` set (map_set ?l (?l OR VALID) m1)"
      using k2 by (auto simp: words_def slots_def m1(6))
    ultimately show ?thesis using g' m1(4,5) by (simp add: cache_ok_def s2 line_no_def)
  qed
qed

section \<open>What an access does\<close>

text \<open>Counters do not matter to the tags.\<close>

lemma cache_cong:
  assumes "sets c' = sets c" "ways c' = ways c" "linesz c' = linesz c" "idx_shift c' = idx_shift c" "tags c' = tags c"
  shows "cache_ok c' = cache_ok c" "lines_held c' = lines_held c" "words c' = words c" "line_no c' = line_no c"
    "check_tag c' = check_tag c"
  by (auto simp: assms cache_ok_def geometry_ok_def tags_ok_def slots_def lines_held_def words_def line_no_def
      check_tag_def cache_set_def fun_eq_iff cong: tag_store.case_cong)

lemma count_access_same:
  "sets (count_access b st c) = sets c" "ways (count_access b st c) = ways c" "linesz (count_access b st c) = linesz c"
  "idx_shift (count_access b st c) = idx_shift c" "tags (count_access b st c) = tags c"
  "read_misses (count_access b st c) = read_misses c" "write_misses (count_access b st c) = write_misses c"
  "writebacks (count_access b st c) = writebacks c"
  by (simp_all add: count_access_def)

lemma count_miss_same:
  "sets (count_miss st c) = sets c" "ways (count_miss st c) = ways c" "linesz (count_miss st c) = linesz c"
  "idx_shift (count_miss st c) = idx_shift c" "tags (count_miss st c) = tags c" "writebacks (count_miss st c) = writebacks c"
  by (simp_all add: count_miss_def)

lemmas count_cong = cache_cong [OF count_access_same(1-5)] cache_cong [OF count_miss_same(1-5)]

lemma line_no_bits: "cache_ok c \<Longrightarrow> 3 \<le> idx_shift c"
  by (simp add: cache_ok_def geometry_ok_def)

lemma held_check_tag: "cache_ok c \<Longrightarrow> lines_held c (line_no c a) = None \<longleftrightarrow> check_tag c a = None"
  by (simp add: check_tag_resident lines_held_None resident_def line_no_def cache_ok_def)

lemma words_check_tag:
  assumes "cache_ok c" "check_tag c a = Some p"
  shows "p < length (slots c)" "valid (slots c ! p)" "slots c ! p \<in> words c" "line_of (slots c ! p) = line_no c a"
  using assms(2) nth_mem [of p "slots c"] unfolding check_tag_Some [OF assms(1)] by (auto simp: words_def line_no_def)

text \<open>A slot rewritten with new flags for the same line.\<close>

lemma set_tag_held:
  assumes ok: "cache_ok c" and p: "check_tag c a = Some p" and w: "line_of w = line_no c a" "valid w"
  shows "cache_ok (set_tag p w c)" "lines_held (set_tag p w c) = (lines_held c)(line_no c a \<mapsto> dirty w)"
proof -
  note s = words_check_tag [OF ok p]
  have u: "unique_lines (slots c)" using ok by (simp add: cache_ok_def)
  show ok': "cache_ok (set_tag p w c)" by (rule set_tag_ok [OF ok s(1,2)]) (simp_all add: s(4) w)
  then have u': "unique_lines (slots (set_tag p w c))" by (simp add: cache_ok_def)
  have "words (set_tag p w c) = insert w (words c - {slots c ! p})" using words_set_tag [OF u s(1)] w(2) by auto
  from lines_held_replace [OF u u' this]
  show "lines_held (set_tag p w c) = (lines_held c)(line_no c a \<mapsto> dirty w)" using s(3,4) w(1) by simp
qed

lemma set_tag_dropped:
  assumes ok: "cache_ok c" and p: "check_tag c a = Some p" and w: "line_of w = line_no c a" "\<not> valid w" "tags c = Tag_Array ts"
  shows "cache_ok (set_tag p w c)" "lines_held (set_tag p w c) = (lines_held c)(line_no c a := None)"
proof -
  note s = words_check_tag [OF ok p]
  have u: "unique_lines (slots c)" using ok by (simp add: cache_ok_def)
  show ok': "cache_ok (set_tag p w c)" by (rule set_tag_ok [OF ok s(1,2)]) (simp_all add: s(4) w)
  then have u': "unique_lines (slots (set_tag p w c))" by (simp add: cache_ok_def)
  have "words (set_tag p w c) = words c - {slots c ! p}" using words_set_tag [OF u s(1)] w(2) by auto
  from lines_held_remove [OF u u' this s(3)]
  show "lines_held (set_tag p w c) = (lines_held c)(line_no c a := None)" by (simp only: s(4))
qed

lemma cache_hit_correct:
  assumes ok: "cache_ok c" and p: "check_tag c a = Some p"
  shows "cache_ok (cache_hit p st c)"
    "lines_held (cache_hit p st c) = (if st then (lines_held c)(line_no c a \<mapsto> True) else lines_held c)"
proof -
  note s = words_check_tag [OF ok p]
  have g: "get_tag c p = slots c ! p" by (rule get_tag_slot [OF s(1)])
  have "line_of (slots c ! p OR DIRTY) = line_no c a" "valid (slots c ! p OR DIRTY)" "dirty (slots c ! p OR DIRTY)"
    using s set_dirty [of "slots c ! p"] by simp_all
  with set_tag_held [OF ok p this(1,2)] ok
  show "cache_ok (cache_hit p st c)"
    "lines_held (cache_hit p st c) = (if st then (lines_held c)(line_no c a \<mapsto> True) else lines_held c)"
    by (simp_all add: cache_hit_def g)
qed

text \<open>The line a victim held, if it held one.\<close>

definition victim_line :: "u64 \<Rightarrow> u64 option" where
  "victim_line v = (if valid v then Some (line_of v) else None)"

definition without :: "u64 option \<Rightarrow> (u64 \<Rightarrow> bool option) \<Rightarrow> u64 \<Rightarrow> bool option" where
  "without l held = (case l of None \<Rightarrow> held | Some x \<Rightarrow> held(x := None))"

lemma victimize_held:
  assumes ok: "cache_ok c" and miss: "check_tag c a = None" and v: "victimize a c = (v, c')"
  shows "cache_ok c'" "lines_held c' = (without (victim_line v) (lines_held c))(line_no c a \<mapsto> False)"
    "\<And>x. victim_line v = Some x \<Longrightarrow> lines_held c x = Some (dirty v)"
proof -
  note vo = victimize_ok [OF ok miss v]
  have u: "unique_lines (slots c)" "unique_lines (slots c')" using ok vo by (simp_all add: cache_ok_def)
  note new = new_word [OF line_no_bits [OF ok], of a, folded line_no_def]
  show "cache_ok c'" using vo by simp
  have e: "lines_held c' = (if v \<in> words c then (lines_held c)(line_of v := None) else lines_held c)(line_no c a \<mapsto> False)"
    using lines_held_replace [OF u, of "line_no c a OR VALID" v] vo new by simp
  have "v \<in> words c \<longleftrightarrow> valid v" using vo by (auto simp: words_def)
  then show "lines_held c' = (without (victim_line v) (lines_held c))(line_no c a \<mapsto> False)"
    unfolding e by (simp add: without_def victim_line_def)
  show "lines_held c x = Some (dirty v)" if "victim_line v = Some x" for x
    using that vo unfolding lines_held_Some [OF u(1)] victim_line_def by (auto split: if_splits)
qed

lemma mark_dirty_held:
  assumes ok: "cache_ok c" and held: "lines_held c (line_no c a) \<noteq> None"
  shows "cache_ok (mark_dirty a c)" "lines_held (mark_dirty a c) = (lines_held c)(line_no c a \<mapsto> True)"
proof -
  obtain p where p: "check_tag c a = Some p" using held held_check_tag [OF ok, of a] by auto
  have "mark_dirty a c = cache_hit p True c" by (simp add: mark_dirty_def cache_hit_def p)
  then show "cache_ok (mark_dirty a c)" "lines_held (mark_dirty a c) = (lines_held c)(line_no c a \<mapsto> True)"
    using cache_hit_correct [OF ok p, of True] by simp_all
qed

text \<open>The two requests a miss sends down the chain.\<close>

definition writeback_request :: "cache_sim_t \<Rightarrow> u64 option \<Rightarrow> (u64 \<times> nat \<times> bool) list" where
  "writeback_request c v =
     (case v of None \<Rightarrow> []
      | Some x \<Rightarrow> if lines_held c x = Some True then [(push_bit (idx_shift c) x, unat (linesz c), True)] else [])"

definition refill_request :: "cache_sim_t \<Rightarrow> u64 \<Rightarrow> u64 \<times> nat \<times> bool" where
  "refill_request c a = (push_bit (idx_shift c) (line_no c a), unat (linesz c), False)"

text \<open>Later caches serve requests in order.\<close>

definition serve :: "(u64 \<times> nat \<times> bool) list \<Rightarrow> cache_sim_t list \<Rightarrow> cache_sim_t list" where
  "serve reqs cs = fold (\<lambda>(a, n, st). access a n st) reqs cs"

lemma line_addr_eq:
  assumes "linesz c = 2 ^ idx_shift c" "idx_shift c < 64"
  shows "line_addr c a = push_bit (idx_shift c) (line_no c a)"
proof -
  have "linesz c - 1 = mask (idx_shift c)" by (simp add: assms(1) mask_eq_exp_minus_1)
  then show ?thesis by (simp add: line_addr_def line_no_def push_bit_take_bit drop_bit_push_bit)
    (rule bit_eqI, auto simp: bit_flags bit_mask_iff bit_push_bit_iff bit_drop_bit_eq)
qed

lemma line_addr_ok: "cache_ok c \<Longrightarrow> line_addr c a = push_bit (idx_shift c) (line_no c a)"
  by (rule line_addr_eq) (simp_all add: cache_ok_def geometry_ok_def)

lemma cache_miss_correct:
  assumes ok: "cache_ok c" and miss: "check_tag c a = None" and m: "cache_miss a st c = (v, c')"
  shows "cache_ok c'" "lines_held c' = (without (victim_line v) (lines_held c))(line_no c a \<mapsto> st)"
    "\<And>x. victim_line v = Some x \<Longrightarrow> lines_held c x = Some (dirty v)"
proof -
  let ?c0 = "count_miss st c"
  have ok0: "cache_ok ?c0" and miss0: "check_tag ?c0 a = None" using ok miss by (simp_all add: count_cong)
  obtain v1 c1 where v: "victimize a ?c0 = (v1, c1)" by (metis prod.exhaust)
  define c2 where "c2 = (if needs_writeback v then c1\<lparr>writebacks := writebacks c1 + 1\<rparr> else c1)"
  have vc: "v1 = v" "c' = (if st then mark_dirty a c2 else c2)"
    using m v by (auto simp: cache_miss_def c2_def Let_def)
  note h = victimize_held [OF ok0 miss0 v, unfolded count_cong vc(1)]
  have c2: "cache_ok c2 = cache_ok c1" "lines_held c2 = lines_held c1" "line_no c2 = line_no c1"
    using cache_cong [of c2 c1] by (simp_all add: c2_def)
  have ln: "line_no c1 = line_no c"
    using victimize_fields(4) [OF v] by (simp add: line_no_def fun_eq_iff count_miss_same)
  have ok2: "cache_ok c2" using h(1) c2 by simp
  have "lines_held c2 (line_no c2 a) \<noteq> None" by (simp add: c2 ln h(2))
  note d = mark_dirty_held [OF ok2 this]
  show "cache_ok c'" using vc(2) ok2 d(1) by simp
  show "lines_held c' = (without (victim_line v) (lines_held c))(line_no c a \<mapsto> st)"
    using vc(2) d(2) by (simp add: c2 ln h(2))
  show "\<And>x. victim_line v = Some x \<Longrightarrow> lines_held c x = Some (dirty v)" by (rule h(3))
qed

lemma writeback_iff:
  assumes "\<And>x. victim_line v = Some x \<Longrightarrow> lines_held c x = Some (dirty v)"
  shows "writeback_request c (victim_line v) = (if needs_writeback v then [(dirty_addr c v, unat (linesz c), True)] else [])"
  using assms by (auto simp: writeback_request_def victim_line_def needs_writeback_iff dirty_addr_def line_of_def split: if_splits)

text \<open>The outcome of one access, stated over the lines.\<close>

definition access_outcome :: "u64 \<Rightarrow> bool \<Rightarrow> cache_sim_t \<Rightarrow> cache_sim_t \<Rightarrow> (u64 \<times> nat \<times> bool) list \<Rightarrow> bool" where
  "access_outcome a st c c' reqs \<longleftrightarrow>
     (if lines_held c (line_no c a) \<noteq> None
      then reqs = [] \<and> lines_held c' = (if st then (lines_held c)(line_no c a \<mapsto> True) else lines_held c)
      else \<exists>v. (\<forall>x. v = Some x \<longrightarrow> lines_held c x \<noteq> None)
             \<and> lines_held c' = (without v (lines_held c))(line_no c a \<mapsto> st)
             \<and> reqs = writeback_request c v @ [refill_request c a])"

lemma access_step:
  assumes ok: "cache_ok c"
  shows "\<exists>c' reqs. access a n st (c # mh) = c' # serve reqs mh \<and> cache_ok c' \<and> access_outcome a st c c' reqs"
proof -
  let ?c1 = "count_access n st c"
  note same = count_cong count_access_same
  have ok1: "cache_ok ?c1" using ok by (simp add: same)
  show ?thesis
  proof (cases "check_tag ?c1 a")
    case (Some p)
    have "access a n st (c # mh) = cache_hit p st ?c1 # serve [] mh" by (simp add: access.simps Some serve_def)
    moreover have "access_outcome a st c (cache_hit p st ?c1) []"
      using cache_hit_correct(2) [OF ok1 Some, of st] held_check_tag [OF ok1, of a] Some
      by (simp add: access_outcome_def same)
    ultimately show ?thesis using cache_hit_correct(1) [OF ok1 Some, of st] by blast
  next
    case None
    obtain v c2 where m: "cache_miss a st ?c1 = (v, c2)" by (metis prod.exhaust)
    note mc = cache_miss_correct [OF ok1 None m, unfolded same]
    let ?reqs = "writeback_request c (victim_line v) @ [refill_request c a]"
    have "access a n st (c # mh) = c2 # serve ?reqs mh"
      using writeback_iff [of v c] mc(3)
      by (simp add: access.simps None m serve_def refill_request_def line_addr_ok [OF ok])
    moreover have "access_outcome a st c c2 ?reqs"
      using mc held_check_tag [OF ok1, of a] None by (auto simp: access_outcome_def same)
    ultimately show ?thesis using mc(1) by blast
  qed
qed

section \<open>Chains\<close>

lemma serve_Nil [simp]: "serve [] cs = cs" and serve_Cons: "serve ((a, n, st) # reqs) cs = serve reqs (access a n st cs)"
  by (simp_all add: serve_def)

lemma serve_append: "serve (xs @ ys) cs = serve ys (serve xs cs)"
  by (simp add: serve_def)

lemma serve_invariant:
  assumes "P cs" "\<And>a n st cs. P cs \<Longrightarrow> P (access a n st cs)"
  shows "P (serve reqs cs)"
  using assms(1)
proof (induction reqs arbitrary: cs)
  case (Cons r reqs)
  then show ?case by (cases r) (auto simp: serve_Cons intro: assms(2))
qed simp

lemma length_access: "length (access a n st cs) = length cs"
  by (induction a n st cs rule: access.induct) (auto simp: access.simps Let_def split: option.splits prod.splits)

lemma access_ok_length:
  "length cs = k \<Longrightarrow> list_all cache_ok cs \<Longrightarrow> list_all cache_ok (access a n st cs)"
proof (induction k arbitrary: cs a n st)
  case 0 then show ?case by (simp add: access.simps)
next
  case (Suc k)
  then obtain c mh where cs: "cs = c # mh" "length mh = k" by (auto simp: length_Suc_conv)
  obtain c' reqs where "access a n st cs = c' # serve reqs mh" "cache_ok c'"
    using access_step [of c a n st mh] Suc.prems cs by auto
  moreover have "length (serve reqs mh) = k \<and> list_all cache_ok (serve reqs mh)"
    by (rule serve_invariant) (use Suc cs in \<open>auto simp: length_access\<close>)
  ultimately show ?case by simp
qed

lemmas access_all_ok = access_ok_length [OF refl]

section \<open>Geometry\<close>

lemma power_of_two:
  assumes "x \<noteq> 0" "x AND (x - 1) = 0"
  shows "\<exists>k<64. x = (2 ^ k :: u64)"
proof -
  have x0: "1 \<le> unat x" using assms(1) by (simp add: Suc_leI unat_gt_0)
  obtain n where n: "2 ^ n \<le> unat x" "unat x < 2 ^ (n + 1)" using ex_power_ivl1 [of 2 "unat x"] x0 by auto
  have "unat x < 2 ^ LENGTH(64)" by (rule unsigned_less)
  then have "(2::nat) ^ n < 2 ^ 64" using n(1) by simp
  then have n64: "n < 64" by (simp only: power_strict_increasing_iff)
  have b: "bit y n" if "2 ^ n \<le> unat y" "unat y < 2 ^ (n + 1)" for y :: u64
  proof -
    have "unat y div 2 ^ n = 1" by (rule div_nat_eqI) (use that in auto)
    then have "bit (unat y) n" by (simp add: bit_iff_odd)
    then show ?thesis using n64 by (simp add: bit_unsigned_iff)
  qed
  have "unat x = 2 ^ n"
  proof (rule ccontr)
    assume "unat x \<noteq> 2 ^ n"
    moreover have "unat (x - 1) = unat x - 1" using x0 by (simp add: unat_sub word_le_nat_alt)
    ultimately have "bit (x - 1) n" using n by (intro b) simp_all
    then have "bit (x AND (x - 1)) n" using b [OF n] by (simp add: bit_and_iff)
    then show False using assms(2) by simp
  qed
  then have "x = 2 ^ n" using unat_power2 [OF n64] by (intro word_unat_eq_iff [THEN iffD2]) simp
  then show ?thesis using n64 by blast
qed

lemma shift_loop_power: "k < 64 \<Longrightarrow> shift_loop (2 ^ k) = k"
proof (induction k)
  case 0 then show ?case by (simp add: shift_loop.simps)
next
  case (Suc k)
  have "unat (1 :: u64) < unat (2 ^ Suc k :: u64)" 
    unfolding unat_power2 [OF Suc.prems] using one_less_power [of "2 :: nat" "Suc k"] by simp
  then have "(1 :: u64) < 2 ^ Suc k" by (simp only: word_less_nat_alt)
  moreover have "drop_bit 1 (2 ^ Suc k :: u64) = 2 ^ k"
    by (rule bit_eqI) (use Suc.prems in \<open>auto simp: bit_drop_bit_eq bit_exp_iff simp del: power_Suc\<close>)
  ultimately show ?case using Suc shift_loop.simps [of "2 ^ Suc k"] by simp
qed

lemma init_ok:
  assumes "init fa sts wys lsz = Some c" "0 < wys" "fa \<longrightarrow> sts = 1"
  shows "cache_ok c" "lines_held c = Map.empty"
proof -
  have h: "sts \<noteq> 0" "sts AND (sts - 1) = 0" "8 \<le> lsz" "lsz AND (lsz - 1) = 0"
    and c: "sets c = sts" "ways c = wys" "linesz c = lsz" "idx_shift c = shift_loop lsz"
    "tags c = (if fa then Tag_Map [] else Tag_Array (replicate (unat sts * wys) 0))"
    using assms(1) by (auto simp: init_def not_less split: if_splits)
  obtain k where k: "k < 64" "lsz = 2 ^ k" using power_of_two [of lsz] h(3,4) by fastforce
  have "unat (8 :: u64) \<le> unat lsz" using h(3) by (simp only: word_le_nat_alt)
  then have "(2 :: nat) ^ 3 \<le> 2 ^ k" unfolding k(2) unat_power2 [OF k(1)] by simp
  then have "3 \<le> k" by (simp only: power_increasing_iff)
  then have g: "geometry_ok c"
    using power_of_two [OF h(1,2)] k assms(2) by (simp add: geometry_ok_def c shift_loop_power)
  show "lines_held c = Map.empty" by (simp add: lines_held_def slots_def c)
  show "cache_ok c" using g assms(3) by (simp add: cache_ok_def tags_ok_def slots_def unique_lines_def c)
qed

lemma construct_ok:
  assumes "construct sts wys lsz = Some c" "0 < wys"
  shows "cache_ok c" "lines_held c = Map.empty"
  using assms init_ok [of True 1 wys lsz c] init_ok [of False sts wys lsz c]
  by (auto simp: construct_def split: if_splits)

section \<open>Traffic\<close>

text \<open>The counters of one access, and of the requests it sends.\<close>

definition misses :: "cache_sim_t \<Rightarrow> u64" where
  "misses c = read_misses c + write_misses c"

lemma cache_miss_counters:
  assumes "cache_miss a st c = (v, c')"
  shows "misses c' = misses c + 1" "writebacks c' = writebacks c + (if needs_writeback v then 1 else 0)"
    "linesz c' = linesz c"
proof -
  obtain v1 c1 where v: "victimize a (count_miss st c) = (v1, c1)" by (metis prod.exhaust)
  note f = victimize_fields [OF v]
  define c2 where "c2 = (if needs_writeback v then c1\<lparr>writebacks := writebacks c1 + 1\<rparr> else c1)"
  have c': "c' = (if st then mark_dirty a c2 else c2)"
    using assms v by (auto simp: cache_miss_def c2_def Let_def)
  have m: "misses (mark_dirty a x) = misses x" "writebacks (mark_dirty a x) = writebacks x" "linesz (mark_dirty a x) = linesz x" for x
    by (simp_all add: mark_dirty_def misses_def set_tag_fields split: option.split)
  have "misses c' = misses (count_miss st c)" using f by (simp add: c' m c2_def) (simp add: misses_def)
  then show "misses c' = misses c + 1" by (simp add: misses_def count_miss_def)
  show "writebacks c' = writebacks c + (if needs_writeback v then 1 else 0)" "linesz c' = linesz c"
    using f by (simp_all add: c' m c2_def count_miss_same)
qed

lemma cache_hit_counters:
  "misses (cache_hit p st c) = misses c" "writebacks (cache_hit p st c) = writebacks c" "linesz (cache_hit p st c) = linesz c"
  by (simp_all add: cache_hit_def misses_def set_tag_fields)

text \<open>What arrives at a cache, as its counters say.\<close>

datatype traffic = Reads | Read_Bytes | Writes | Write_Bytes

fun arrived :: "cache_sim_t \<Rightarrow> traffic \<Rightarrow> u64" where
  "arrived c Reads = read_accesses c"
| "arrived c Read_Bytes = bytes_read c"
| "arrived c Writes = write_accesses c"
| "arrived c Write_Bytes = bytes_written c"

lemma arrived_eq:
  "arrived c' = arrived c \<longleftrightarrow> read_accesses c' = read_accesses c \<and> bytes_read c' = bytes_read c
    \<and> write_accesses c' = write_accesses c \<and> bytes_written c' = bytes_written c"
  unfolding fun_eq_iff by (metis arrived.simps traffic.exhaust)

lemma arrived_access:
  "access a n st (c # mh) = c' # mh' \<Longrightarrow> arrived c' = arrived (count_access n st c)"
proof -
  have "arrived (cache_hit p st x) = arrived x" for p x by (simp add: arrived_eq cache_hit_def set_tag_def)
  moreover have "arrived x' = arrived x" if m: "cache_miss a st x = (v, x')" for x x' v
  proof -
    obtain v1 c1 where v: "victimize a (count_miss st x) = (v1, c1)" by (metis prod.exhaust)
    then have "arrived c1 = arrived x"
      by (auto simp: arrived_eq victimize_def count_miss_def Let_def split: tag_store.splits if_splits)
    moreover have "arrived (mark_dirty a y) = arrived y" for y
      by (simp add: mark_dirty_def arrived_eq set_tag_def split: option.split)
    moreover have "arrived (y\<lparr>writebacks := k\<rparr>) = arrived y" for y k by (simp add: arrived_eq)
    ultimately show ?thesis using m v by (auto simp: cache_miss_def Let_def split: if_splits)
  qed
  ultimately show "access a n st (c # mh) = c' # mh' \<Longrightarrow> arrived c' = arrived (count_access n st c)"
    by (auto simp: access.simps Let_def split: option.splits prod.splits)
qed

lemma access_Cons: "\<exists>c' mh'. access a n st (c # mh) = c' # mh' \<and> length mh' = length mh"
  using length_access [of a n st "c # mh"] by (cases "access a n st (c # mh)") auto

text \<open>The traffic a cache has sent: one read of a line for every miss, one write of a line for
  every writeback.\<close>

fun sent :: "cache_sim_t \<Rightarrow> traffic \<Rightarrow> u64" where
  "sent c Reads = misses c"
| "sent c Read_Bytes = misses c * linesz c"
| "sent c Writes = writebacks c"
| "sent c Write_Bytes = writebacks c * linesz c"

text \<open>What one access adds to the traffic sent is what arrives at the next cache.\<close>

lemma access_traffic:
  assumes acc: "access a n st (c # d # rest) = c' # d' # rest'"
  shows "arrived d' k = arrived d k + (sent c' k - sent c k)" "linesz c' = linesz c"
proof -
  let ?c1 = "count_access n st c" and ?n = "unat (linesz c)"
  have c1: "misses ?c1 = misses c" by (simp add: misses_def count_access_same)
  have "arrived d' k = arrived d k + (sent c' k - sent c k) \<and> linesz c' = linesz c"
  proof (cases "check_tag ?c1 a")
    case (Some p)
    then show ?thesis using acc
      by (cases k) (auto simp: access.simps cache_hit_counters c1 count_access_same)
  next
    case None
    obtain v c2 where m: "cache_miss a st ?c1 = (v, c2)" by (metis prod.exhaust)
    note cm = cache_miss_counters [OF m, unfolded c1 count_access_same]
    obtain d1 r1 where w: "(if needs_writeback v then access (dirty_addr c v) ?n True (d # rest) else d # rest) = d1 # r1"
      using access_Cons [of "dirty_addr c v" ?n True d rest] by (cases "needs_writeback v") auto
    have "c' = c2" and r: "access (line_addr c a) ?n False (d1 # r1) = d' # rest'"
      using acc w by (simp_all add: access.simps [of a] None m)
    have "arrived d1 = (if needs_writeback v then arrived (count_access ?n True d) else arrived d)"
      using w arrived_access [of "dirty_addr c v" ?n True d rest] by (auto split: if_splits)
    then show ?thesis
      using arrived_access [OF r] cm \<open>c' = c2\<close> 
      by (cases "needs_writeback v"; cases k) (auto simp: arrived_eq count_access_def algebra_simps)
  qed
  then show "arrived d' k = arrived d k + (sent c' k - sent c k)" "linesz c' = linesz c" by simp_all
qed

section \<open>Cleaning and invalidating\<close>

definition cleaned :: "bool \<Rightarrow> bool \<Rightarrow> bool option \<Rightarrow> bool option" where
  "cleaned clean inval x = (if inval then None else if clean then map_option (\<lambda>_. False) x else x)"

text \<open>Invalidation is only right for the array: the map's \<open>check_tag\<close> does not look at the flag.\<close>

definition can_clean :: "bool \<Rightarrow> cache_sim_t \<Rightarrow> bool" where
  "can_clean inval c \<longleftrightarrow> cache_ok c \<and> (inval \<longrightarrow> (\<exists>ts. tags c = Tag_Array ts))"

lemma set_tag_array: "(\<exists>ts. tags (set_tag p w c) = Tag_Array ts) = (\<exists>ts. tags c = Tag_Array ts)"
  by (simp add: set_tag_def split: tag_store.split)

lemma clean_line_geometry:
  "geometry_ok (clean_line cl iv a c) = geometry_ok c" "linesz (clean_line cl iv a c) = linesz c"
  "idx_shift (clean_line cl iv a c) = idx_shift c"
  by (auto simp: clean_line_def geometry_ok_def set_tag_fields Let_def split: option.split)

lemma clean_line_held:
  assumes can: "can_clean iv c"
  shows "can_clean iv (clean_line cl iv a c)"
    "lines_held (clean_line cl iv a c) = (lines_held c)(line_no c a := cleaned cl iv (lines_held c (line_no c a)))"
proof -
  have ok: "cache_ok c" using can by (simp add: can_clean_def)
  let ?h = "lines_held c" and ?l = "line_no c a"
  have "can_clean iv (clean_line cl iv a c) \<and> lines_held (clean_line cl iv a c) = ?h(?l := cleaned cl iv (?h ?l))"
  proof (cases "check_tag c a")
    case None
    then have "?h ?l = None" using held_check_tag [OF ok] by simp
    then show ?thesis using None can by (simp add: clean_line_def cleaned_def fun_eq_iff)
  next
    case (Some p)
    note s = words_check_tag [OF ok Some]
    let ?w = "slots c ! p"
    have g: "get_tag c p = ?w" by (rule get_tag_slot [OF s(1)])
    have u: "unique_lines (slots c)" using ok by (simp add: cache_ok_def)
    have h: "?h ?l = Some (dirty ?w)" unfolding lines_held_Some [OF u] using s by blast
    define wb where "wb = c\<lparr>writebacks := writebacks c + 1\<rparr>"
    have wbs: "cache_ok wb" "lines_held wb = ?h" "line_no wb = line_no c" "check_tag wb = check_tag c"
      using ok cache_cong [of wb c] by (simp_all add: wb_def)
    define c1 where "c1 = (if cl \<and> dirty ?w then set_tag p (?w AND NOT DIRTY) wb else c)"
    have e: "clean_line cl iv a c = (if iv then set_tag p (get_tag c1 p AND NOT VALID) c1 else c1)"
      by (simp add: clean_line_def Some g and_DIRTY c1_def wb_def Let_def)
    have "line_of (?w AND NOT DIRTY) = line_no wb a" "valid (?w AND NOT DIRTY)"
      using s clear_dirty [of ?w] by (simp_all add: wbs)
    note st = set_tag_held [OF wbs(1) Some [folded wbs(4)] this]
    have c1: "cache_ok c1" "line_no c1 = line_no c"
      using st(1) ok by (auto simp: c1_def line_no_def set_tag_fields wb_def)
    have held1: "lines_held c1 = ?h(?l := cleaned cl False (?h ?l))"
      using st(2) h clear_dirty(2) [of ?w] by (auto simp: c1_def cleaned_def wbs fun_eq_iff)
    show ?thesis
    proof (cases iv)
      case False
      then have "clean_line cl iv a c = c1" unfolding e by simp
      then show ?thesis using c1 held1 False by (simp add: can_clean_def)
    next
      case True
      then have "\<exists>ts. tags c = Tag_Array ts" using can by (simp add: can_clean_def)
      then have "\<exists>ts. tags c1 = Tag_Array ts"
        by (auto simp: c1_def set_tag_array wb_def)
      then obtain ts where ts: "tags c1 = Tag_Array ts" by blast
      have "slots c1 = (if cl \<and> dirty ?w then (slots c)[p := ?w AND NOT DIRTY] else slots c)"
        using s(1) slots_set_tag [of p wb] by (simp add: c1_def wb_def slots_def)
      then have p1: "p < length (slots c1)" "valid (slots c1 ! p)" "line_of (slots c1 ! p) = ?l"
        using s clear_dirty [of ?w] by auto
      then have q: "check_tag c1 a = Some p"
        unfolding check_tag_Some [OF c1(1)] using c1(2) by (simp add: line_no_def fun_eq_iff)
      have g1: "get_tag c1 p = slots c1 ! p" by (rule get_tag_slot [OF p1(1)])
      have "line_of (slots c1 ! p AND NOT VALID) = line_no c1 a" 
        using p1(3) c1(2) clear_valid(2) [of "slots c1 ! p"] by simp
      note sd = set_tag_dropped [OF c1(1) q this clear_valid(1) ts]
      have "clean_line cl iv a c = set_tag p (slots c1 ! p AND NOT VALID) c1" 
        unfolding e g1 by (simp only: True if_True)
      then show ?thesis using True sd ts by (simp add: c1 held1 can_clean_def cleaned_def set_tag_array)
    qed
  qed
  then show "can_clean iv (clean_line cl iv a c)"
    "lines_held (clean_line cl iv a c) = ?h(?l := cleaned cl iv (?h ?l))" by simp_all
qed

text \<open>Line numbers that are still addresses.\<close>

definition addressable :: "nat \<Rightarrow> u64 \<Rightarrow> bool" where
  "addressable sh l \<longleftrightarrow> unat l * 2 ^ sh < 2 ^ 64"

lemma addressable_drop: "addressable sh (drop_bit sh (a :: u64))"
proof -
  have "unat (drop_bit sh a) * 2 ^ sh \<le> unat a"
    unfolding unat_drop_bit_eq unfolding drop_bit_eq_div by (rule div_times_less_eq_dividend)
  moreover have "unat a < 2 ^ LENGTH(64)" by (rule unsigned_less)
  ultimately show ?thesis by (simp add: addressable_def)
qed

lemma unat_push_line: "addressable sh l \<Longrightarrow> unat (push_bit sh l) = unat l * 2 ^ sh"
  unfolding addressable_def
proof -
  assume a: "unat l * 2 ^ sh < 2 ^ 64"
  have "unat (push_bit sh l) = take_bit LENGTH(64) (push_bit sh (unat l))" by (rule unsigned_push_bit_eq)
  also have "\<dots> = unat l * 2 ^ sh" unfolding push_bit_eq_mult by (rule take_bit_nat_eq_self) (use a in simp)
  finally show ?thesis .
qed

lemma push_line_less:
  "addressable sh l \<Longrightarrow> addressable sh m \<Longrightarrow> push_bit sh l < push_bit sh m \<longleftrightarrow> l < m"
  by (simp add: word_less_nat_alt unat_push_line)

lemma drop_push_line:
  assumes "addressable sh l"
  shows "drop_bit sh (push_bit sh l) = l"
proof -
  have "unat (drop_bit sh (push_bit sh l)) = unat l"
    unfolding unat_drop_bit_eq unat_push_line [OF assms] by (simp add: drop_bit_eq_div)
  then show ?thesis by (simp only: word_unat_eq_iff)
qed

text \<open>From the line \<open>s\<close> to the line \<open>e\<close>, the loop cleans the lines in between and returns.\<close>

lemma clean_loop_step:
  "clean_loop cl iv s e c = (if s < e then clean_loop cl iv (s + linesz c) e (clean_line cl iv s c) else Some c)"
  by (rule clean_loop.simps)

lemma clean_loop_lines:
  assumes "geometry_ok c" "addressable (idx_shift c) s" "addressable (idx_shift c) e"
  shows "\<exists>c'. clean_loop cl iv (push_bit (idx_shift c) s) (push_bit (idx_shift c) e) c = Some c' \<and> geometry_ok c' \<and> idx_shift c' = idx_shift c
    \<and> (can_clean iv c \<longrightarrow> can_clean iv c'
         \<and> lines_held c' = (\<lambda>l. if s \<le> l \<and> l < e then cleaned cl iv (lines_held c l) else lines_held c l))"
  using assms
proof (induction "unat e - unat s" arbitrary: s c)
  case 0
  then have "\<not> s < e" by (simp add: word_less_nat_alt)
  moreover from this have "\<not> (s \<le> l \<and> l < e)" for l by auto
  then have "(\<lambda>l. if s \<le> l \<and> l < e then cleaned cl iv (lines_held c l) else lines_held c l) = lines_held c" by (intro ext if_not_P)
  ultimately show ?case using 0 by (subst clean_loop_step) (simp add: push_line_less)
next
  case (Suc n)
  let ?sh = "idx_shift c" and ?c = "clean_line cl iv (push_bit (idx_shift c) s) c"
  have se: "s < e" using Suc.hyps(2) by (simp add: word_less_nat_alt)
  have "unat s < unat e" "unat e < 2 ^ LENGTH(64)" using se unsigned_less [of e] by (simp_all add: word_less_nat_alt)
  then have s1: "unat (s + 1) = unat s + 1" by (simp add: unat_word_ariths)
  have "unat (s + 1) \<le> unat e" using se s1 by (simp add: word_less_nat_alt)
  then have "unat (s + 1) * 2 ^ ?sh \<le> unat e * 2 ^ ?sh" by simp
  then have a1: "addressable ?sh (s + 1)" using Suc.prems(3) unfolding addressable_def by (rule le_less_trans)
  have lz: "linesz c = 2 ^ ?sh" using Suc.prems(1) by (simp add: geometry_ok_def)
  have st: "push_bit ?sh s + linesz c = push_bit ?sh (s + 1)" by (simp add: lz push_bit_eq_mult ring_distribs)
  note geo = clean_line_geometry [of cl iv "push_bit ?sh s" c]
  have "n = unat e - unat (s + 1)" using Suc.hyps(2) s1 by simp
  from Suc.hyps(1) [OF this, of ?c] obtain c' where c': "clean_loop cl iv (push_bit ?sh (s + 1)) (push_bit ?sh e) ?c = Some c'"
    "geometry_ok c'" "idx_shift c' = ?sh"
    "can_clean iv ?c \<longrightarrow> can_clean iv c'
      \<and> lines_held c' = (\<lambda>l. if s + 1 \<le> l \<and> l < e then cleaned cl iv (lines_held ?c l) else lines_held ?c l)"
    using Suc.prems a1 by (auto simp: geo)
  have "can_clean iv c' \<and> lines_held c' = (\<lambda>l. if s \<le> l \<and> l < e then cleaned cl iv (lines_held c l) else lines_held c l)"
    if can: "can_clean iv c"
  proof -
    note h = clean_line_held [OF can, of cl "push_bit ?sh s"]
    have ln: "line_no c (push_bit ?sh s) = s" unfolding line_no_def by (rule drop_push_line [OF Suc.prems(2)])
    have le: "s + 1 \<le> l \<longleftrightarrow> s < l" for l using s1 by (simp add: word_less_nat_alt word_le_nat_alt Suc_le_eq)
    show ?thesis using c'(4) h se unfolding ln by (auto simp: le fun_eq_iff)
  qed
  moreover have "clean_loop cl iv (push_bit ?sh s) (push_bit ?sh e) c = Some c'"
    using se c'(1) by (subst clean_loop_step) (simp add: push_line_less Suc.prems st)
  ultimately show ?case using c' by auto
qed

text \<open>The lines that the loop visits for an operation on \<open>bytes\<close> bytes at \<open>addr\<close>; the end wraps.\<close>

definition visited :: "cache_sim_t \<Rightarrow> u64 \<Rightarrow> nat \<Rightarrow> u64 \<Rightarrow> bool" where
  "visited c addr bytes l \<longleftrightarrow> line_no c addr \<le> l \<and> l < line_no c (addr + of_nat bytes + linesz c - 1)"

text \<open>The lines an operation is for: line \<open>l\<close> is the bytes from \<open>l * linesz\<close> up to the next line, and some
  byte of the range is among them.\<close>

definition covered :: "cache_sim_t \<Rightarrow> u64 \<Rightarrow> nat \<Rightarrow> u64 \<Rightarrow> bool" where
  "covered c addr bytes l \<longleftrightarrow>
     0 < bytes \<and> unat l * unat (linesz c) < unat addr + bytes \<and> unat addr < (unat l + 1) * unat (linesz c)"

lemma line_size:
  assumes "geometry_ok c"
  shows "unat (linesz c) = 2 ^ idx_shift c" "unat (line_no c a) = unat a div unat (linesz c)" "0 < unat (linesz c)"
proof -
  have s: "idx_shift c < 64" "linesz c = 2 ^ idx_shift c" using assms by (simp_all add: geometry_ok_def)
  then show l: "unat (linesz c) = 2 ^ idx_shift c" by (simp only: unat_power2)
  show "unat (line_no c a) = unat a div unat (linesz c)"
    unfolding l line_no_def unat_drop_bit_eq by (simp add: drop_bit_eq_div)
  show "0 < unat (linesz c)" unfolding l by simp
qed

lemma clean_end:
  assumes "geometry_ok c"
  shows "unat (addr + of_nat bytes + linesz c - 1) = (unat addr + bytes + unat (linesz c) - 1) mod 2 ^ 64"
proof -
  have "addr + of_nat bytes + linesz c - 1 = of_nat (unat addr + bytes + unat (linesz c) - 1)"
    using line_size(3) [OF assms] by (simp add: of_nat_diff)
  then show ?thesis by (simp add: unat_of_nat)
qed

lemma line_before:
  assumes "0 < (n :: nat)" "0 < x"
  shows "l < (x + n - 1) div n \<longleftrightarrow> l * n < x"
proof -
  have "l < (x + n - 1) div n \<longleftrightarrow> Suc l * n \<le> x + n - 1" 
    using less_eq_div_iff_mult_less_eq [OF assms(1), of "Suc l" "x + n - 1"] by (simp only: Suc_le_eq)
  then show ?thesis using assms by auto
qed

lemma line_after: "0 < (n :: nat) \<Longrightarrow> x div n \<le> l \<longleftrightarrow> x < (l + 1) * n"
  using div_less_iff_less_mult [of n x "Suc l"] by (simp add: less_Suc_eq_le)

text \<open>Without a wrap of the end the loop visits the lines of the range, and nothing otherwise.\<close>

lemma visited_covered:
  assumes "geometry_ok c" "0 < bytes" "unat addr + bytes + unat (linesz c) \<le> 2 ^ 64"
  shows "visited c addr bytes = covered c addr bytes"
proof (rule ext)
  fix l
  note s = line_size [OF assms(1)]
  have "unat (addr + of_nat bytes + linesz c - 1) = unat addr + bytes + unat (linesz c) - 1"
    unfolding clean_end [OF assms(1)] using assms(3) s(3) by (intro mod_less) simp
  then show "visited c addr bytes l = covered c addr bytes l"
    using line_before [OF s(3), of "unat addr + bytes" "unat l"] line_after [OF s(3), of "unat addr" "unat l"] assms(2)
    unfolding visited_def covered_def word_le_nat_alt word_less_nat_alt s(2) by auto
qed

lemma visited_wrapped:
  assumes "geometry_ok c" "2 ^ 64 < unat addr + bytes + unat (linesz c)" "bytes + unat (linesz c) \<le> 2 ^ 64"
  shows "\<not> visited c addr bytes l"
proof -
  note s = line_size [OF assms(1)]
  have "unat (addr + of_nat bytes + linesz c - 1) = unat addr + bytes + unat (linesz c) - 1 - 2 ^ 64"
    unfolding clean_end [OF assms(1)] using assms(2,3) unat_lt_64 [of addr] s(3)
    by (subst le_mod_geq) simp_all
  then have "unat (line_no c (addr + of_nat bytes + linesz c - 1)) \<le> unat (line_no c addr)"
    unfolding s(2) using assms(3) by (intro div_le_mono) simp
  then show ?thesis unfolding visited_def word_le_nat_alt word_less_nat_alt by linarith
qed

lemma clean_invalidate_lines:
  assumes "list_all geometry_ok cs"
  shows "\<exists>cs'. clean_invalidate addr bytes cl iv cs = Some cs' \<and> length cs' = length cs
    \<and> (\<forall>i<length cs. can_clean iv (cs ! i) \<longrightarrow> can_clean iv (cs' ! i)
         \<and> lines_held (cs' ! i) = (\<lambda>l. if visited (cs ! i) addr bytes l then cleaned cl iv (lines_held (cs ! i) l) else lines_held (cs ! i) l))"
  using assms
proof (induction cs)
  case (Cons c cs)
  then have g: "geometry_ok c" by simp
  have al: "x AND NOT (linesz c - 1) = push_bit (idx_shift c) (line_no c x)" for x
    using g line_addr_eq [of c x] by (simp add: geometry_ok_def line_addr_def)
  from clean_loop_lines [OF g addressable_drop addressable_drop, of cl iv addr "addr + of_nat bytes + linesz c - 1", folded line_no_def]
  obtain c' where c': "clean_loop cl iv (push_bit (idx_shift c) (line_no c addr))
      (push_bit (idx_shift c) (line_no c (addr + of_nat bytes + linesz c - 1))) c = Some c'"
    "can_clean iv c \<longrightarrow> can_clean iv c' \<and> lines_held c' = (\<lambda>l. if visited c addr bytes l then cleaned cl iv (lines_held c l) else lines_held c l)"
    unfolding visited_def by blast
  have "list_all geometry_ok cs" using Cons.prems by simp
  from Cons.IH [OF this] obtain cs' where cs': "clean_invalidate addr bytes cl iv cs = Some cs'" "length cs' = length cs"
    "\<forall>i<length cs. can_clean iv (cs ! i) \<longrightarrow> can_clean iv (cs' ! i)
         \<and> lines_held (cs' ! i) = (\<lambda>l. if visited (cs ! i) addr bytes l then cleaned cl iv (lines_held (cs ! i) l) else lines_held (cs ! i) l)"
    by blast
  have "clean_invalidate addr bytes cl iv (c # cs) = Some (c' # cs')" by (simp add: Let_def al c'(1) cs'(1))
  moreover have "can_clean iv ((c # cs) ! i) \<longrightarrow> can_clean iv ((c' # cs') ! i)
         \<and> lines_held ((c' # cs') ! i) = (\<lambda>l. if visited ((c # cs) ! i) addr bytes l then cleaned cl iv (lines_held ((c # cs) ! i) l) else lines_held ((c # cs) ! i) l)"
    if "i < length (c # cs)" for i
    using c'(2) cs'(3) that by (cases i) auto
  ultimately show ?case using cs'(2) by (intro exI [of _ "c' # cs'"]) simp
qed simp

lemma construct_counters:
  "construct sts wys lsz = Some c \<Longrightarrow> arrived c k = 0 \<and> sent c k = 0"
  by (cases k) (auto simp: construct_def init_def misses_def split: if_splits)

section \<open>Properties\<close>

text \<open>A chain of two caches: four sets of two ways, then a fully associative cache of five ways.\<close>

definition demo_l1 :: cache_sim_t where "demo_l1 = the (construct 4 2 16)"
definition demo_l2 :: cache_sim_t where "demo_l2 = the (construct 1 5 16)"

lemma demo_construct: "construct 4 2 16 = Some demo_l1" "construct 1 5 16 = Some demo_l2"
  by (simp_all add: construct_def init_def demo_l1_def demo_l2_def)

lemma demo_caches_ok: "cache_ok demo_l1" "cache_ok demo_l2" "lines_held demo_l1 = Map.empty" "lines_held demo_l2 = Map.empty"
  using construct_ok [OF demo_construct(1)] construct_ok [OF demo_construct(2)] by simp_all

text \<open>C12: An access of a set-associative or fully associative cache acts on a finite map from
  lines to dirty flags: a hit marks the line dirty on a store, a miss replaces at most one
  line, which was present, by the accessed one, and the next cache sees the write of that
  line exactly when it was dirty, then the read of the accessed line; no line is ever held
  twice.\<close>

theorem cache_access_correct:
  assumes "cache_ok c"
  shows "\<exists>c' reqs. access a n st (c # mh) = c' # serve reqs mh \<and> cache_ok c' \<and> access_outcome a st c c' reqs"
  by (rule access_step [OF assms])

lemma cache_access_correct_witness:
  "\<exists>c' reqs. access 0x1230 4 True [demo_l1, demo_l2] = c' # serve reqs [demo_l2] \<and> cache_ok c' \<and> access_outcome 0x1230 True demo_l1 c' reqs"
  using cache_access_correct [OF demo_caches_ok(1), of "0x1230" 4 True "[demo_l2]"] .

text \<open>C27: clean_invalidate returns for every address and size, on every cache of the chain,
  although its loop steps through addresses modulo 2^64. For a range of at least one byte
  whose end, rounded up to a line, is an address, every cache cleans or drops exactly its
  own lines that hold a byte of the range, and no other line changes (dropping, for the
  set-associative cache).\<close>

theorem cache_clean_returns:
  assumes "list_all geometry_ok cs"
  shows "\<exists>cs'. clean_invalidate addr bytes cl iv cs = Some cs' \<and> length cs' = length cs
    \<and> (\<forall>i<length cs. can_clean iv (cs ! i) \<and> 0 < bytes \<and> unat addr + bytes + unat (linesz (cs ! i)) \<le> 2 ^ 64 \<longrightarrow>
         can_clean iv (cs' ! i)
         \<and> lines_held (cs' ! i) = (\<lambda>l. if covered (cs ! i) addr bytes l then cleaned cl iv (lines_held (cs ! i) l) else lines_held (cs ! i) l))"
proof -
  obtain cs' where cs': "clean_invalidate addr bytes cl iv cs = Some cs'" "length cs' = length cs"
    "\<forall>i<length cs. can_clean iv (cs ! i) \<longrightarrow> can_clean iv (cs' ! i)
         \<and> lines_held (cs' ! i) = (\<lambda>l. if visited (cs ! i) addr bytes l then cleaned cl iv (lines_held (cs ! i) l) else lines_held (cs ! i) l)"
    using clean_invalidate_lines [OF assms] by blast
  have "geometry_ok (cs ! i)" if "i < length cs" for i using assms that by (simp add: list_all_length)
  then show ?thesis using cs' visited_covered by (intro exI [of _ cs']) simp
qed

text \<open>A store makes a line dirty; a clean of sixteen bytes from inside the line before it clears the flag.\<close>

lemma cache_clean_returns_witness:
  "\<exists>c c'. access 0x1240 4 True [demo_l2] = [c] \<and> lines_held c = [0x124 \<mapsto> True]
     \<and> clean_invalidate 0x1238 16 True False [c] = Some [c'] \<and> lines_held c' = [0x124 \<mapsto> False]"
proof -
  obtain c reqs where a: "access 0x1240 4 True [demo_l2] = c # serve reqs []" "cache_ok c" "access_outcome 0x1240 True demo_l2 c reqs"
    using access_step [OF demo_caches_ok(2), of "0x1240" 4 True "[]"] by blast
  have "serve rs [] = []" for rs by (induction rs) (auto simp: serve_def access.simps)
  then have c: "access 0x1240 4 True [demo_l2] = [c]" using a(1) by simp
  have "linesz (hd (access 0x1240 4 True [demo_l2])) = 16" "line_no demo_l2 0x1240 = 0x124" by code_simp+
  then have n: "linesz c = 16" "line_no demo_l2 0x1240 = 0x124" unfolding c by simp_all
  have held: "lines_held c = [0x124 \<mapsto> True]"
    using a(3) unfolding access_outcome_def demo_caches_ok n by (auto simp: without_def)
  have g: "list_all geometry_ok [c]" using a(2) by (simp add: cache_ok_def)
  obtain cs' where cs': "clean_invalidate 0x1238 16 True False [c] = Some cs'" "length cs' = 1"
    "lines_held (cs' ! 0) = (\<lambda>l. if covered c 0x1238 16 l then cleaned True False (lines_held c l) else lines_held c l)"
    using cache_clean_returns [OF g, of "0x1238" 16 True False] a(2) by (auto simp: can_clean_def n simp del: clean_invalidate.simps cong: if_cong)
  have "lines_held (cs' ! 0) = [0x124 \<mapsto> False]"
    unfolding cs'(3) held by (auto simp: fun_eq_iff covered_def n cleaned_def)
  then show ?thesis using c held cs'(1,2) by (metis length_Cons length_0_conv list.size(3) nth_Cons_0 One_nat_def length_Suc_conv)
qed

text \<open>At the end of the address space the rounded end wraps to a smaller address, the loop is not entered
  and the last line is neither cleaned nor dropped; and of zero bytes from inside a line the
  loop cleans that line.\<close>

lemma clean_wrap_skips:
  assumes "geometry_ok c" "2 ^ 64 < unat addr + bytes + unat (linesz c)" "bytes + unat (linesz c) \<le> 2 ^ 64" "can_clean iv c"
  shows "\<exists>c'. clean_invalidate addr bytes cl iv [c] = Some [c'] \<and> lines_held c' = lines_held c"
proof -
  obtain cs' where cs': "clean_invalidate addr bytes cl iv [c] = Some cs'" "length cs' = 1" "lines_held (cs' ! 0) = lines_held c"
    using clean_invalidate_lines [of "[c]" addr bytes cl iv] assms visited_wrapped [OF assms(1-3)] by auto
  then show ?thesis by (auto simp: length_Suc_conv)
qed

lemma clean_wrap_last_line:
  "clean_invalidate 0xFFFFFFFFFFFFFFF0 16 cl iv [demo_l1] = Some [demo_l1] \<and> covered demo_l1 0xFFFFFFFFFFFFFFF0 16 0xFFFFFFFFFFFFFFF"
proof -
  have "linesz demo_l1 = 16" by code_simp
  then show ?thesis by (simp add: clean_loop_step Let_def covered_def)
qed

lemma clean_zero_bytes:
  "clean_invalidate 0x1238 0 cl iv [demo_l1] = Some [clean_line cl iv 0x1230 demo_l1] \<and> (\<forall>l. \<not> covered demo_l1 0x1238 0 l)"
proof -
  have "linesz demo_l1 = 16" "linesz (clean_line cl iv 0x1230 demo_l1) = 16" by (cases cl; cases iv; code_simp)+
  then show ?thesis by (simp add: clean_loop_step Let_def covered_def)
qed

text \<open>Invalidating a line of a fully associative cache leaves it a hit, and once its flag is gone
  its eviction writes nothing back.\<close>

lemma fully_associative_invalidate_hits:
  "\<exists>c'. clean_invalidate 0x40 16 False True (access 0x40 4 True [demo_l2]) = Some [c']
    \<and> check_tag c' 0x40 = Some 0 \<and> dirty (get_tag c' 0) \<and> \<not> needs_writeback (get_tag c' 0)"
proof -
  have a: "access 0x40 4 True [demo_l2] = [demo_l2\<lparr>tags := Tag_Map [(4, 0xC000000000000004)],
      write_accesses := 1, write_misses := 1, bytes_written := 4\<rparr>]"
    by code_simp
  let ?c = "demo_l2\<lparr>tags := Tag_Map [(4, 0xC000000000000004)], write_accesses := 1, write_misses := 1, bytes_written := 4\<rparr>"
  let ?c' = "?c\<lparr>tags := Tag_Map [(4, 0x4000000000000004)]\<rparr>"
  have "clean_line False True 0x40 ?c = ?c'" "linesz ?c = 16" "linesz ?c' = 16" by code_simp+
  then have "clean_invalidate 0x40 16 False True [?c] = Some [?c']"
    by (simp add: clean_loop_step Let_def)
  moreover have "check_tag ?c' 0x40 = Some 0" "get_tag ?c' 0 = 0x4000000000000004" by code_simp+
  moreover have "\<not> needs_writeback 0x4000000000000004" "dirty 0x4000000000000004" by code_simp+
  ultimately show ?thesis unfolding a by metis
qed

end
