(* ===== verification/Spike_Tracers.thy ===== *)
theory Spike_Tracers
  imports Spike_Cache Spike_MMU
begin

text \<open>
  The caches of a simulated system (\<open>memtracer.h\<close>, \<open>icache_sim_t\<close> and \<open>dcache_sim_t\<close> in
  \<open>cachesim.h\<close>, and the way \<open>main\<close> in \<open>spike.cc\<close> joins them): an instruction cache and a data
  cache are memory tracers, and both hand their misses to one shared second-level cache.  Here
  the two tracers act on one state; a cache that was not configured is absent.
\<close>

section \<open>The tracers\<close>

record cache_system =
  icache :: "cache_sim_t option"
  dcache :: "cache_sim_t option"
  l2 :: "cache_sim_t list"

text \<open>Which accesses a tracer wants to see.\<close>

definition icache_interested :: "access_type \<Rightarrow> bool" where
  "icache_interested type \<longleftrightarrow> type = FETCH"

definition dcache_interested :: "access_type \<Rightarrow> bool" where
  "dcache_interested type \<longleftrightarrow> type = LOAD \<or> type = STORE"

text \<open>A call on a first-level cache, which passes requests to the shared second level.\<close>

definition icache_trace :: "u64 \<Rightarrow> nat \<Rightarrow> access_type \<Rightarrow> cache_system \<Rightarrow> cache_system" where
  "icache_trace addr bytes type sys =
     (case icache sys of
        Some c \<Rightarrow> if type = FETCH then (let cs = access addr bytes False (c # l2 sys) in sys\<lparr>icache := Some (hd cs), l2 := tl cs\<rparr>) else sys
      | None \<Rightarrow> sys)"

definition dcache_trace :: "u64 \<Rightarrow> nat \<Rightarrow> access_type \<Rightarrow> cache_system \<Rightarrow> cache_system" where
  "dcache_trace addr bytes type sys =
     (case dcache sys of
        Some c \<Rightarrow> if type = LOAD \<or> type = STORE
                  then (let cs = access addr bytes (type = STORE) (c # l2 sys) in sys\<lparr>dcache := Some (hd cs), l2 := tl cs\<rparr>) else sys
      | None \<Rightarrow> sys)"

text \<open>The list of tracers, in the order \<open>main\<close> registers them.\<close>

definition list_interested :: "access_type \<Rightarrow> cache_system \<Rightarrow> bool" where
  "list_interested type sys \<longleftrightarrow>
     icache sys \<noteq> None \<and> icache_interested type \<or> dcache sys \<noteq> None \<and> dcache_interested type"

definition list_trace :: "u64 \<Rightarrow> nat \<Rightarrow> access_type \<Rightarrow> cache_system \<Rightarrow> cache_system" where
  "list_trace addr bytes type sys = dcache_trace addr bytes type (icache_trace addr bytes type sys)"

definition list_clean_invalidate :: "u64 \<Rightarrow> nat \<Rightarrow> bool \<Rightarrow> bool \<Rightarrow> cache_system \<Rightarrow> cache_system option" where
  "list_clean_invalidate addr bytes clean inval sys =
     (let step_ic = (case icache sys of
            None \<Rightarrow> Some sys
          | Some c \<Rightarrow> map_option (\<lambda>cs. sys\<lparr>icache := Some (hd cs), l2 := tl cs\<rparr>) (clean_invalidate addr bytes clean inval (c # l2 sys)))
      in case step_ic of
           None \<Rightarrow> None
         | Some sys1 \<Rightarrow>
             (case dcache sys1 of
                None \<Rightarrow> Some sys1
              | Some c \<Rightarrow> map_option (\<lambda>cs. sys1\<lparr>dcache := Some (hd cs), l2 := tl cs\<rparr>) (clean_invalidate addr bytes clean inval (c # l2 sys1))))"

text \<open>An access of the memory management unit to a physical address, and a cache-block operation
  on the block size \<open>blocksz\<close>.\<close>

definition mmu_trace :: "u64 \<Rightarrow> nat \<Rightarrow> access_type \<Rightarrow> cache_system \<Rightarrow> cache_system" where
  "mmu_trace paddr len type sys = (if list_interested type sys then list_trace paddr len type sys else sys)"

definition mmu_clean_inval :: "nat \<Rightarrow> u64 \<Rightarrow> bool \<Rightarrow> bool \<Rightarrow> cache_system \<Rightarrow> cache_system option" where
  "mmu_clean_inval blocksz paddr clean inval sys =
     (if list_interested LOAD sys then list_clean_invalidate paddr blocksz clean inval sys else Some sys)"

text \<open>The system \<open>main\<close> builds from the three configurations.\<close>

definition new_caches :: "cache_sim_t option \<Rightarrow> cache_sim_t option \<Rightarrow> cache_sim_t option \<Rightarrow> cache_system" where
  "new_caches ic dc l = \<lparr>icache = ic, dcache = dc, l2 = (case l of None \<Rightarrow> [] | Some d \<Rightarrow> [d])\<rparr>"

section \<open>Invariants\<close>

definition system_ok :: "cache_system \<Rightarrow> bool" where
  "system_ok sys \<longleftrightarrow> pred_option cache_ok (icache sys) \<and> pred_option cache_ok (dcache sys) \<and> list_all cache_ok (l2 sys)"

text \<open>What the first-level caches have sent, and that it has arrived.\<close>

definition sent_by :: "cache_sim_t option \<Rightarrow> traffic \<Rightarrow> u64" where
  "sent_by c k = (case c of None \<Rightarrow> 0 | Some c \<Rightarrow> sent c k)"

definition traffic_ok :: "cache_system \<Rightarrow> bool" where
  "traffic_ok sys \<longleftrightarrow> (\<forall>d\<in>set (l2 sys). \<forall>k. arrived d k = sent_by (icache sys) k + sent_by (dcache sys) k) \<and> length (l2 sys) \<le> 1"

lemma icache_trace_ok: "system_ok sys \<Longrightarrow> system_ok (icache_trace a n ty sys)"
  using access_all_ok [of "the (icache sys) # l2 sys" a n False] access_Cons [of a n False "the (icache sys)" "l2 sys"]
  by (auto simp: system_ok_def icache_trace_def Let_def split: option.split)

lemma dcache_trace_ok: "system_ok sys \<Longrightarrow> system_ok (dcache_trace a n ty sys)"
  using access_all_ok [of "the (dcache sys) # l2 sys" a n "ty = STORE"] access_Cons [of a n "ty = STORE" "the (dcache sys)" "l2 sys"]
  by (auto simp: system_ok_def dcache_trace_def Let_def split: option.split)

lemma l2_arrives:
  assumes "access a n st (c # ds) = c' # ds'" "\<forall>d\<in>set ds. \<forall>k. arrived d k = sent c k + f k" "length ds \<le> 1"
  shows "(\<forall>d\<in>set ds'. \<forall>k. arrived d k = sent c' k + f k) \<and> length ds' \<le> 1"
proof (cases ds)
  case Nil
  then show ?thesis using assms(1) length_access [of a n st "c # ds"] by simp
next
  case (Cons d rest)
  then have ds: "ds = [d]" using assms(3) by simp
  then obtain d' where d': "ds' = [d']" using assms(1) length_access [of a n st "c # ds"] by (auto simp: length_Suc_conv)
  have "arrived d' k = sent c' k + f k" for k
    using access_traffic(1) [of a n st c d "[]" c' d' "[]" k] assms(1,2) by (simp add: ds d')
  then show ?thesis by (simp add: d')
qed

lemma icache_trace_traffic:
  assumes "traffic_ok sys"
  shows "traffic_ok (icache_trace a n ty sys)"
proof (cases "icache sys")
  case (Some c)
  obtain c' ds' where e: "access a n False (c # l2 sys) = c' # ds'" using access_Cons by blast
  from l2_arrives [OF e, of "sent_by (dcache sys)"] assms
  have "(\<forall>d\<in>set ds'. \<forall>k. arrived d k = sent c' k + sent_by (dcache sys) k) \<and> length ds' \<le> 1"
    by (simp add: traffic_ok_def sent_by_def Some)
  then have "traffic_ok (sys\<lparr>icache := Some c', l2 := ds'\<rparr>)" by (simp add: traffic_ok_def sent_by_def)
  then show ?thesis using assms by (simp add: icache_trace_def Some e)
qed (use assms in \<open>simp add: icache_trace_def\<close>)

lemma dcache_trace_traffic:
  assumes "traffic_ok sys"
  shows "traffic_ok (dcache_trace a n ty sys)"
proof (cases "dcache sys")
  case (Some c)
  obtain c' ds' where e: "access a n (ty = STORE) (c # l2 sys) = c' # ds'" using access_Cons by blast
  from l2_arrives [OF e, of "sent_by (icache sys)"] assms
  have "(\<forall>d\<in>set ds'. \<forall>k. arrived d k = sent_by (icache sys) k + sent c' k) \<and> length ds' \<le> 1"
    by (simp add: traffic_ok_def sent_by_def Some add.commute)
  then have "traffic_ok (sys\<lparr>dcache := Some c', l2 := ds'\<rparr>)" by (simp add: traffic_ok_def sent_by_def)
  then show ?thesis using assms by (simp add: dcache_trace_def Some e)
qed (use assms in \<open>simp add: dcache_trace_def\<close>)

lemma mmu_trace_ok:
  "system_ok sys \<Longrightarrow> system_ok (mmu_trace a n ty sys)" "traffic_ok sys \<Longrightarrow> traffic_ok (mmu_trace a n ty sys)"
  by (simp_all add: mmu_trace_def list_trace_def icache_trace_ok dcache_trace_ok icache_trace_traffic dcache_trace_traffic)

text \<open>A run of accesses.\<close>

definition run_traces :: "(u64 \<times> nat \<times> access_type) list \<Rightarrow> cache_system \<Rightarrow> cache_system" where
  "run_traces ts sys = fold (\<lambda>(a, n, ty). mmu_trace a n ty) ts sys"

lemma run_traces_ok:
  "system_ok sys \<Longrightarrow> system_ok (run_traces ts sys)" "traffic_ok sys \<Longrightarrow> traffic_ok (run_traces ts sys)"
  unfolding run_traces_def by (induction ts arbitrary: sys) (auto simp: mmu_trace_ok)

definition configured :: "cache_sim_t option \<Rightarrow> bool" where
  "configured c \<longleftrightarrow> (case c of None \<Rightarrow> True | Some c \<Rightarrow> \<exists>sts wys lsz. construct sts wys lsz = Some c \<and> 0 < wys)"

lemma configured_ok: "configured c \<Longrightarrow> pred_option cache_ok c" "configured (Some d) \<Longrightarrow> arrived d k = 0"
  and configured_sent: "configured c \<Longrightarrow> sent_by c k = 0"
  using construct_ok(1) construct_counters by (fastforce simp: configured_def sent_by_def split: option.splits)+

section \<open>Properties\<close>

text \<open>C16: For every configuration the constructor accepts with at least one way and every
  sequence of fetches, loads and stores, all caches keep their invariant, and the
  second-level cache has counted one read of a line for every miss and one write of a line
  for every writeback of the instruction and data caches together, bytes included.\<close>

theorem cache_system_traffic:
  assumes "configured ic" "configured dc" "configured l"
  shows "system_ok (run_traces ts (new_caches ic dc l)) \<and> traffic_ok (run_traces ts (new_caches ic dc l))"
proof
  have "system_ok (new_caches ic dc l)"
    using configured_ok(1) [OF assms(1)] configured_ok(1) [OF assms(2)] configured_ok(1) [OF assms(3)]
    by (cases l) (simp_all add: system_ok_def new_caches_def)
  then show "system_ok (run_traces ts (new_caches ic dc l))" by (rule run_traces_ok)
  have "traffic_ok (new_caches ic dc l)"
    using configured_ok(2) assms by (auto simp: traffic_ok_def new_caches_def configured_sent split: option.split)
  then show "traffic_ok (run_traces ts (new_caches ic dc l))" by (rule run_traces_ok)
qed

lemma cache_system_traffic_witness:
  "traffic_ok (run_traces [(0x1000, 4, FETCH), (0x2008, 8, STORE), (0x1004, 4, FETCH)] (new_caches (Some demo_l1) (Some demo_l1) (Some demo_l2)))"
proof -
  have "configured (Some demo_l1)" "configured (Some demo_l2)"
    unfolding configured_def using demo_construct by fastforce+
  then show ?thesis using cache_system_traffic [of "Some demo_l1" "Some demo_l1" "Some demo_l2"] by blast
qed

text \<open>A cache-block operation passes the address itself, not the start of its block, so for an
  address inside a block the next block is covered too.\<close>

lemma cache_block_operation_covers_two:
  "\<exists>c. construct 4 2 64 = Some c \<and> covered c 0x44 64 1 \<and> covered c 0x44 64 2 \<and> \<not> covered c 0x40 64 2"
proof -
  define c where "c = the (construct 4 2 64)"
  have c: "construct 4 2 64 = Some c" "linesz c = 64" "idx_shift c = 6" unfolding c_def by code_simp+
  then show ?thesis by (auto simp: covered_def)
qed

end
