(* ===== verification/Spike_PMP.thy ===== *)
theory Spike_PMP
  imports Spike_MMU
begin

text \<open>
  Physical memory protection: the registers \<open>pmpaddr\<close>, \<open>pmpcfg\<close> and \<open>mseccfg\<close> (\<open>csrs.cc\<close>), the
  check of an access and the test that lets a page into the TLB (\<open>mmu.cc\<close>).  The state is the
  array of entries of the hart with its three parameters; \<open>flushes\<close> counts the calls of
  \<open>flush_tlb\<close>, which is all a write to these registers does to the TLB.
\<close>

section \<open>State\<close>

abbreviation (input) PMP_R :: u8 where "PMP_R \<equiv> 0x01"
abbreviation (input) PMP_W :: u8 where "PMP_W \<equiv> 0x02"
abbreviation (input) PMP_X :: u8 where "PMP_X \<equiv> 0x04"
abbreviation (input) PMP_A :: u8 where "PMP_A \<equiv> 0x18"
abbreviation (input) PMP_L :: u8 where "PMP_L \<equiv> 0x80"
abbreviation (input) PMP_TOR :: u8 where "PMP_TOR \<equiv> 0x08"
abbreviation (input) PMP_NA4 :: u8 where "PMP_NA4 \<equiv> 0x10"
abbreviation (input) PMP_NAPOT :: u8 where "PMP_NAPOT \<equiv> 0x18"
abbreviation (input) PMP_SHIFT :: nat where "PMP_SHIFT \<equiv> 2"
abbreviation (input) MAX_PADDR_BITS :: nat where "MAX_PADDR_BITS \<equiv> 56"
abbreviation (input) max_pmp :: nat where "max_pmp \<equiv> 64"
abbreviation (input) MSECCFG_MML :: u64 where "MSECCFG_MML \<equiv> 1"
abbreviation (input) MSECCFG_MMWP :: u64 where "MSECCFG_MMWP \<equiv> 2"
abbreviation (input) MSECCFG_RLB :: u64 where "MSECCFG_RLB \<equiv> 4"
abbreviation (input) PRV_M :: u64 where "PRV_M \<equiv> 3"

record pmpaddr_csr_t =
  pmp_val :: u64
  pmp_cfg :: u8

record pmp_state =
  pmpaddr :: "pmpaddr_csr_t list"
  mseccfg :: u64
  n_pmp :: nat
  lg_pmp_granularity :: nat
  pmp_xlen :: nat
  flushes :: nat

definition get_mml :: "pmp_state \<Rightarrow> bool" where "get_mml s \<longleftrightarrow> mseccfg s AND MSECCFG_MML \<noteq> 0"
definition get_mmwp :: "pmp_state \<Rightarrow> bool" where "get_mmwp s \<longleftrightarrow> mseccfg s AND MSECCFG_MMWP \<noteq> 0"
definition get_rlb :: "pmp_state \<Rightarrow> bool" where "get_rlb s \<longleftrightarrow> mseccfg s AND MSECCFG_RLB \<noteq> 0"

definition is_locked :: "pmpaddr_csr_t \<Rightarrow> bool" where
  "is_locked e \<longleftrightarrow> pmp_cfg e AND PMP_L \<noteq> 0"

definition pmp_flush :: "pmp_state \<Rightarrow> pmp_state" where
  "pmp_flush s = s\<lparr>flushes := flushes s + 1\<rparr>"

section \<open>Matching\<close>

definition pmp_tor_mask :: "pmp_state \<Rightarrow> u64" where
  "pmp_tor_mask s = - push_bit (lg_pmp_granularity s - PMP_SHIFT) 1"

definition tor_paddr :: "pmp_state \<Rightarrow> nat \<Rightarrow> u64" where
  "tor_paddr s i = push_bit PMP_SHIFT (pmp_val (pmpaddr s ! i) AND pmp_tor_mask s)"

definition tor_base_paddr :: "pmp_state \<Rightarrow> nat \<Rightarrow> u64" where
  "tor_base_paddr s i = (if i = 0 then 0 else tor_paddr s (i - 1))"

definition napot_mask :: "pmp_state \<Rightarrow> nat \<Rightarrow> u64" where
  "napot_mask s i =
     (let is_na4 = (pmp_cfg (pmpaddr s ! i) AND PMP_A = PMP_NA4);
          mask = push_bit 1 (pmp_val (pmpaddr s ! i)) OR of_bool (\<not> is_na4) OR NOT (pmp_tor_mask s)
      in push_bit PMP_SHIFT (NOT (mask AND NOT (mask + 1))))"

definition match4 :: "pmp_state \<Rightarrow> nat \<Rightarrow> u64 \<Rightarrow> bool" where
  "match4 s i addr =
     (if pmp_cfg (pmpaddr s ! i) AND PMP_A = 0 then False
      else if pmp_cfg (pmpaddr s ! i) AND PMP_A = PMP_TOR
      then tor_base_paddr s i \<le> addr \<and> addr < tor_paddr s i
      else (addr XOR tor_paddr s i) AND napot_mask s i = 0)"

text \<open>\<open>None\<close> is \<open>abort\<close>.\<close>

definition subset_match :: "pmp_state \<Rightarrow> nat \<Rightarrow> u64 \<Rightarrow> u64 \<Rightarrow> bool option" where
  "subset_match s i addr len =
     (if (addr OR len) AND (len - 1) \<noteq> 0 then None
      else let base = tor_base_paddr s i; tor = tor_paddr s i
           in if pmp_cfg (pmpaddr s ! i) AND PMP_A = 0 then Some False
              else let is_tor = (pmp_cfg (pmpaddr s ! i) AND PMP_A = PMP_TOR);
                       begins_after_lower = (addr \<ge> base);
                       begins_after_upper = (addr \<ge> tor);
                       ends_before_lower = (addr AND - len < base AND - len);
                       ends_before_upper = (addr AND - len < tor AND - len);
                       tor_homogeneous = (ends_before_lower \<or> begins_after_upper \<or> begins_after_lower \<and> ends_before_upper);
                       mask_homogeneous = (NOT (push_bit 1 (napot_mask s i)) AND len \<noteq> 0);
                       napot_homogeneous = (mask_homogeneous \<or> (addr XOR tor) div len \<noteq> 0)
                   in Some (\<not> (if is_tor then tor_homogeneous else napot_homogeneous)))"

section \<open>Permissions\<close>

definition access_ok :: "pmp_state \<Rightarrow> nat \<Rightarrow> access_type \<Rightarrow> u64 \<Rightarrow> bool" where
  "access_ok s i type mode =
     (let cfg = pmp_cfg (pmpaddr s ! i);
          cfgx = (cfg AND PMP_X \<noteq> 0); cfgw = (cfg AND PMP_W \<noteq> 0);
          cfgr = (cfg AND PMP_R \<noteq> 0); cfgl = (cfg AND PMP_L \<noteq> 0);
          prvm = (mode = PRV_M);
          typer = (type = LOAD); typex = (type = FETCH); typew = (type = STORE);
          normal_rwx = (typer \<and> cfgr \<or> typew \<and> cfgw \<or> typex \<and> cfgx)
      in if get_mml s
         then if cfgx \<and> cfgw \<and> cfgr \<and> cfgl then typer
              else let mml_shared_region = (\<not> cfgr \<and> cfgw);
                       mml_chk_normal = ((prvm = cfgl) \<and> normal_rwx);
                       mml_chk_shared =
                         (\<not> cfgl \<and> cfgx \<and> (typer \<or> typew) \<or>
                          \<not> cfgl \<and> \<not> cfgx \<and> (typer \<or> typew \<and> prvm) \<or>
                          cfgl \<and> typex \<or>
                          cfgl \<and> typer \<and> cfgx \<and> prvm)
                   in if mml_shared_region then mml_chk_shared else mml_chk_normal
         else let m_bypass = (prvm \<and> \<not> cfgl) in m_bypass \<or> normal_rwx)"

text \<open>The offsets of the four-byte sectors \<open>pmp_ok\<close> looks at.\<close>

definition sectors :: "nat \<Rightarrow> u64 list" where
  "sectors len = map (\<lambda>k. of_nat (4 * k)) [0..<(len + 3) div 4]"

fun pmp_scan :: "nat list \<Rightarrow> u64 \<Rightarrow> nat \<Rightarrow> access_type \<Rightarrow> u64 \<Rightarrow> pmp_state \<Rightarrow> bool" where
  "pmp_scan [] addr len type mode s =
     (mode = PRV_M \<and> \<not> get_mmwp s \<and> (\<not> get_mml s \<or> type = LOAD \<or> type = STORE))"
| "pmp_scan (i # is) addr len type mode s =
     (let matches = map (\<lambda>off. match4 s i (addr + off)) (sectors len)
      in if True \<in> set matches
         then if False \<in> set matches then False else access_ok s i type mode
         else pmp_scan is addr len type mode s)"

definition pmp_ok :: "u64 \<Rightarrow> nat \<Rightarrow> access_type \<Rightarrow> u64 \<Rightarrow> pmp_state \<Rightarrow> bool" where
  "pmp_ok addr len type mode s =
     (if n_pmp s = 0 then True else pmp_scan [0..<n_pmp s] addr len type mode s)"

fun homogeneous_scan :: "nat list \<Rightarrow> u64 \<Rightarrow> u64 \<Rightarrow> pmp_state \<Rightarrow> bool option" where
  "homogeneous_scan [] addr len s = Some True"
| "homogeneous_scan (i # is) addr len s =
     (case subset_match s i addr len of
        None \<Rightarrow> None
      | Some b \<Rightarrow> if b then Some False else homogeneous_scan is addr len s)"

definition pmp_homogeneous :: "u64 \<Rightarrow> u64 \<Rightarrow> pmp_state \<Rightarrow> bool option" where
  "pmp_homogeneous addr len s =
     (if (addr OR len) AND (len - 1) \<noteq> 0 then None else homogeneous_scan [0..<n_pmp s] addr len s)"

section \<open>Registers\<close>

definition pmpaddr_read :: "nat \<Rightarrow> pmp_state \<Rightarrow> u64" where
  "pmpaddr_read i s =
     (let e = pmpaddr s ! i
      in if pmp_cfg e AND PMP_A \<ge> PMP_NAPOT then pmp_val e OR drop_bit 1 (NOT (pmp_tor_mask s))
         else pmp_val e AND pmp_tor_mask s)"

definition next_locked_and_tor :: "nat \<Rightarrow> pmp_state \<Rightarrow> bool" where
  "next_locked_and_tor i s =
     (if i + 1 \<ge> max_pmp then False
      else let lock_bypass = get_rlb s;
               next_locked = (\<not> lock_bypass \<and> pmp_cfg (pmpaddr s ! (i + 1)) AND PMP_L \<noteq> 0);
               next_tor = (pmp_cfg (pmpaddr s ! (i + 1)) AND PMP_A = PMP_TOR)
           in next_locked \<and> next_tor)"

definition pmpaddr_write :: "nat \<Rightarrow> u64 \<Rightarrow> pmp_state \<Rightarrow> pmp_state \<times> bool" where
  "pmpaddr_write i v s =
     (if n_pmp s = 0 then (s, False)
      else let lock_bypass = get_rlb s;
               locked = (\<not> lock_bypass \<and> pmp_cfg (pmpaddr s ! i) AND PMP_L \<noteq> 0)
           in if i < n_pmp s \<and> \<not> locked \<and> \<not> next_locked_and_tor i s
              then (pmp_flush (s\<lparr>pmpaddr := (pmpaddr s)[i := (pmpaddr s ! i)
                      \<lparr>pmp_val := v AND (push_bit (MAX_PADDR_BITS - PMP_SHIFT) 1 - 1)\<rparr>]\<rparr>), True)
              else (s, False))"

definition pmpcfg_read :: "nat \<Rightarrow> pmp_state \<Rightarrow> u64" where
  "pmpcfg_read k s =
     (let i0 = k * 4
      in fold (\<lambda>i res. if i < max_pmp then res OR push_bit (8 * (i - i0)) (ucast (pmp_cfg (pmpaddr s ! i))) else res)
           [i0..<i0 + pmp_xlen s div 8] 0)"

text \<open>The configuration byte a write leaves, if the rule may be added.\<close>

definition legal_cfg :: "u8 \<Rightarrow> pmp_state \<Rightarrow> u8" where
  "legal_cfg byte s =
     (let cfg = byte AND (PMP_R OR PMP_W OR PMP_X OR PMP_A OR PMP_L);
          cfg1 = (if \<not> get_mml s then cfg AND (NOT PMP_W OR (if cfg AND PMP_R \<noteq> 0 then PMP_W else 0)) else cfg)
      in if lg_pmp_granularity s \<noteq> PMP_SHIFT \<and> cfg1 AND PMP_A = PMP_NA4 then cfg1 OR PMP_NAPOT else cfg1)"

definition addable_cfg :: "u8 \<Rightarrow> pmp_state \<Rightarrow> bool" where
  "addable_cfg cfg s =
     (let cfgx = (cfg AND PMP_X \<noteq> 0); cfgw = (cfg AND PMP_W \<noteq> 0); cfgr = (cfg AND PMP_R \<noteq> 0)
      in get_rlb s \<or> \<not> (get_mml s \<and> (cfg AND PMP_L \<noteq> 0 \<and> \<not> (cfgx \<and> cfgw \<and> cfgr) \<and> (cfgx \<or> cfgw \<and> \<not> cfgr))))"

definition pmpcfg_step :: "nat \<Rightarrow> u64 \<Rightarrow> nat \<Rightarrow> pmp_state \<times> bool \<Rightarrow> pmp_state \<times> bool" where
  "pmpcfg_step i0 v i sr =
     (let (s, success) = sr
      in if i < n_pmp s
         then let locked = (pmp_cfg (pmpaddr s ! i) AND PMP_L \<noteq> 0)
              in if get_rlb s \<or> \<not> locked
                 then let cfg = legal_cfg (ucast (drop_bit (8 * (i - i0)) v)) s
                      in if addable_cfg cfg s
                         then (s\<lparr>pmpaddr := (pmpaddr s)[i := (pmpaddr s ! i)\<lparr>pmp_cfg := cfg\<rparr>]\<rparr>, True)
                         else (s, True)
                 else (s, True)
         else (s, success))"

definition pmpcfg_write :: "nat \<Rightarrow> u64 \<Rightarrow> pmp_state \<Rightarrow> pmp_state \<times> bool" where
  "pmpcfg_write k v s =
     (if n_pmp s = 0 then (s, False)
      else let (s', success) = fold (pmpcfg_step (k * 4) v) [k * 4..<k * 4 + pmp_xlen s div 8] (s, False)
           in (pmp_flush s', success))"

definition mseccfg_write :: "u64 \<Rightarrow> pmp_state \<Rightarrow> pmp_state \<times> bool" where
  "mseccfg_write v s =
     (if n_pmp s = 0 then (s, False)
      else let pmplock_recorded = list_ex is_locked (take (n_pmp s) (pmpaddr s));
               new_val = mseccfg s;
               new_val1 = (if \<not> (pmplock_recorded \<and> mseccfg s AND MSECCFG_RLB = 0)
                           then (new_val AND NOT MSECCFG_RLB) OR (v AND MSECCFG_RLB) else new_val);
               new_val2 = new_val1 OR (v AND MSECCFG_MMWP);
               new_val3 = new_val2 OR (v AND MSECCFG_MML)
           in ((pmp_flush s)\<lparr>mseccfg := new_val3\<rparr>, True))"

text \<open>Configuration, and the reset values that leave memory open to software unaware of the
  protection.\<close>

definition set_pmp_num :: "nat \<Rightarrow> pmp_state \<Rightarrow> pmp_state option" where
  "set_pmp_num n s = (if n > max_pmp then None else Some (s\<lparr>n_pmp := n\<rparr>))"

definition set_pmp_granularity :: "u64 \<Rightarrow> pmp_state \<Rightarrow> pmp_state option" where
  "set_pmp_granularity gran s =
     (if gran < 4 \<or> gran AND (gran - 1) \<noteq> 0 then None
      else Some (s\<lparr>lg_pmp_granularity := ctz gran\<rparr>))"

definition pmp_reset :: "pmp_state \<Rightarrow> pmp_state" where
  "pmp_reset s =
     (let s0 = s\<lparr>pmpaddr := replicate max_pmp \<lparr>pmp_val = 0, pmp_cfg = 0\<rparr>, mseccfg := 0\<rparr>
      in if n_pmp s > 0
         then fst (pmpcfg_write 0 (ucast (PMP_R OR PMP_W OR PMP_X OR PMP_NAPOT)) (fst (pmpaddr_write 0 (- 1) s0)))
         else s0)"

section \<open>Words\<close>

text \<open>The lowest clear bit of a word.\<close>

definition trailing_ones :: "u64 \<Rightarrow> nat" where
  "trailing_ones m = length (takeWhile (bit m) [0..<64])"

lemma trailing_ones:
  assumes "\<not> bit m 63"
  shows "trailing_ones m < 64" "\<not> bit m (trailing_ones m)" "\<And>j. j < trailing_ones m \<Longrightarrow> bit m j"
proof -
  let ?xs = "[0..<64] :: nat list"
  have ne: "takeWhile (bit m) ?xs \<noteq> ?xs" using assms by (auto simp: takeWhile_eq_all_conv)
  have le: "trailing_ones m \<le> 64" using length_takeWhile_le [of "bit m" ?xs] by (simp add: trailing_ones_def)
  show lt: "trailing_ones m < 64"
  proof (rule ccontr)
    assume "\<not> trailing_ones m < 64"
    then have "length (takeWhile (bit m) ?xs) = length ?xs" using le by (simp add: trailing_ones_def)
    then show False using ne takeWhile_eq_take [of "bit m" ?xs] by simp
  qed
  show "\<not> bit m (trailing_ones m)"
    using nth_length_takeWhile [of "bit m" ?xs] lt by (simp add: trailing_ones_def)
  show "bit m j" if "j < trailing_ones m" for j
  proof -
    have "j < length (takeWhile (bit m) ?xs)" using that by (simp add: trailing_ones_def)
    moreover from this have "takeWhile (bit m) ?xs ! j = j" using lt that by (simp add: takeWhile_nth)
    ultimately show ?thesis by (metis nth_mem set_takeWhileD)
  qed
qed

lemma mask_below_clear_bit:
  fixes m :: u64
  assumes "n < 64" "\<not> bit m n" "\<And>j. j < n \<Longrightarrow> bit m j"
  shows "m AND NOT (m + 1) = mask n"
proof -
  define h where "h = m AND NOT (mask (Suc n))"
  have m: "m = h OR mask n"
    by (rule bit_eqI) (use assms in \<open>auto simp: h_def bit_simps less_Suc_eq\<close>)
  have "h AND mask n = 0"
    by (rule bit_eqI) (auto simp: h_def bit_simps)
  then have "m = h + mask n" unfolding m by (simp add: disjunctive_add_eq_or)
  then have "m + 1 = h + 2 ^ n" by (simp add: mask_eq_exp_minus_1)
  moreover have "h AND 2 ^ n = 0"
    by (rule bit_eqI) (auto simp: h_def bit_simps)
  ultimately have "m + 1 = h OR 2 ^ n" by (simp add: disjunctive_add_eq_or)
  then show ?thesis unfolding m
    by simp (rule bit_eqI, use assms in \<open>auto simp: h_def bit_simps\<close>)
qed

lemma same_block:
  fixes x y :: u64
  shows "(x XOR y) AND NOT (mask k) = 0 \<longleftrightarrow> drop_bit k x = drop_bit k y"
proof
  assume "(x XOR y) AND NOT (mask k) = 0"
  then have b: "\<not> bit ((x XOR y) AND NOT (mask k)) n" for n by simp
  show "drop_bit k x = drop_bit k y"
  proof (rule bit_eqI)
    fix n
    show "bit (drop_bit k x) n = bit (drop_bit k y) n"
      using b [of "k + n"] by (auto simp: bit_simps dest: bit_imp_le_length)
  qed
next
  assume "drop_bit k x = drop_bit k y"
  then have b: "bit x (k + n) = bit y (k + n)" for n by (metis bit_drop_bit_eq comp_apply)
  show "(x XOR y) AND NOT (mask k) = 0"
  proof (rule bit_eqI)
    fix n
    show "bit ((x XOR y) AND NOT (mask k)) n = bit 0 n"
      using b [of "n - k"] by (cases "k \<le> n") (simp_all add: bit_simps)
  qed
qed

lemma drop_bit_coarser:
  assumes "drop_bit j x = drop_bit j (y :: u64)" "j \<le> k"
  shows "drop_bit k x = drop_bit k y"
proof -
  have "drop_bit (k - j) (drop_bit j x) = drop_bit (k - j) (drop_bit j y)" using assms(1) by (rule arg_cong)
  then show ?thesis using assms(2) by (simp add: drop_bit_drop_bit)
qed

lemma drop_bit_mono: "x \<le> y \<Longrightarrow> drop_bit k x \<le> drop_bit k (y :: u64)"
  unfolding word_le_nat_alt unat_drop_bit_eq drop_bit_eq_div [where 'a = nat] by (rule div_le_mono)

lemma drop_bit_less: "drop_bit k x < drop_bit k y \<Longrightarrow> x < (y :: u64)"
  using drop_bit_mono [of y x k] by (meson linorder_not_le)

section \<open>Regions\<close>

text \<open>A well-formed unit: 64 entries whose addresses have 54 bits, and a granularity that leaves
  an address bit.  The flag field \<open>A\<close> has four values.\<close>

definition pmp_wf :: "pmp_state \<Rightarrow> bool" where
  "pmp_wf s \<longleftrightarrow> length (pmpaddr s) = max_pmp \<and> n_pmp s \<le> max_pmp
     \<and> (\<forall>e\<in>set (pmpaddr s). pmp_val e < 2 ^ 54)
     \<and> 2 \<le> lg_pmp_granularity s \<and> lg_pmp_granularity s < 64 \<and> (pmp_xlen s = 32 \<or> pmp_xlen s = 64)"

text \<open>The size of an aligned region, as an exponent: three more than the trailing ones of the
  register, where bits below the granularity count as ones.\<close>

definition napot_bits :: "pmp_state \<Rightarrow> nat \<Rightarrow> nat" where
  "napot_bits s i =
     2 + trailing_ones (push_bit 1 (pmp_val (pmpaddr s ! i)) OR of_bool (pmp_cfg (pmpaddr s ! i) AND PMP_A \<noteq> PMP_NA4)
           OR mask (lg_pmp_granularity s - 2))"

text \<open>The addresses an entry is about: none, the interval up from the entry before it, or an
  aligned block.\<close>

definition region :: "pmp_state \<Rightarrow> nat \<Rightarrow> u64 \<Rightarrow> bool" where
  "region s i a \<longleftrightarrow>
     (let A = pmp_cfg (pmpaddr s ! i) AND PMP_A
      in if A = 0 then False
         else if A = PMP_TOR then tor_base_paddr s i \<le> a \<and> a < tor_paddr s i
         else drop_bit (napot_bits s i) a = drop_bit (napot_bits s i) (tor_paddr s i))"

lemma tor_mask_not: "lg_pmp_granularity s < 66 \<Longrightarrow> pmp_tor_mask s = NOT (mask (lg_pmp_granularity s - 2))"
  by (simp add: pmp_tor_mask_def mask_eq_exp_minus_1 minus_eq_not_minus_1)

lemma val_bits: "v < (2 ^ 54 :: u64) \<Longrightarrow> bit v n \<Longrightarrow> n < 54"
proof (rule ccontr)
  assume v: "v < 2 ^ 54" "bit v n" "\<not> n < 54"
  then have "n < 64" by (auto dest: bit_imp_le_length)
  have "unat v < unat (2 ^ 54 :: u64)" using v(1) by (simp only: word_less_nat_alt)
  then have "take_bit 54 (unat v) = unat v" by (intro take_bit_nat_eq_self) simp
  moreover have "bit (unat v) n" using v(2) by (simp add: bit_unsigned_iff)
  ultimately have "bit (take_bit 54 (unat v)) n" by simp
  then show False using v(3) by (simp add: bit_take_bit_iff)
qed

lemma napot_word_top:
  assumes "pmp_wf s" "i < max_pmp"
  shows "\<not> bit (push_bit 1 (pmp_val (pmpaddr s ! i)) OR of_bool b OR mask (lg_pmp_granularity s - 2) :: u64) 63"
proof -
  have "pmp_val (pmpaddr s ! i) < 2 ^ 54" using assms nth_mem [of i "pmpaddr s"] by (simp add: pmp_wf_def)
  then have "\<not> bit (pmp_val (pmpaddr s ! i)) 62" using val_bits by fastforce
  moreover have "\<not> bit (of_bool b :: u64) 63" "\<not> bit (mask (lg_pmp_granularity s - 2) :: u64) 63"
    using assms(1) by (auto simp: pmp_wf_def bit_mask_iff)
  ultimately show ?thesis unfolding bit_or_iff bit_push_bit_iff by simp
qed

lemma napot_mask_eq:
  assumes "pmp_wf s" "i < max_pmp"
  shows "napot_mask s i = NOT (mask (napot_bits s i))"
proof -
  let ?m = "push_bit 1 (pmp_val (pmpaddr s ! i)) OR of_bool (pmp_cfg (pmpaddr s ! i) AND PMP_A \<noteq> PMP_NA4) OR mask (lg_pmp_granularity s - 2) :: u64"
  note t = trailing_ones [OF napot_word_top [OF assms, of "pmp_cfg (pmpaddr s ! i) AND PMP_A \<noteq> PMP_NA4"]]
  have m: "?m AND NOT (?m + 1) = mask (trailing_ones ?m)" by (rule mask_below_clear_bit) (use t in auto)
  have "NOT (pmp_tor_mask s) = mask (lg_pmp_granularity s - 2)"
    using tor_mask_not [of s] assms(1) by (simp add: pmp_wf_def)
  then have "napot_mask s i = push_bit 2 (NOT (?m AND NOT (?m + 1)))"
    by (simp only: napot_mask_def Let_def)
  also have "\<dots> = push_bit 2 (NOT (mask (trailing_ones ?m)))" by (simp only: m)
  also have "\<dots> = NOT (mask (2 + trailing_ones ?m))"
    by (rule bit_eqI) (auto simp: bit_simps)
  finally show ?thesis by (simp add: napot_bits_def)
qed

lemma match4_region:
  assumes "pmp_wf s" "i < max_pmp"
  shows "match4 s i a = region s i a"
  unfolding match4_def region_def Let_def napot_mask_eq [OF assms] same_block ..

lemma napot_bits_bounds:
  assumes "pmp_wf s" "i < max_pmp"
  shows "2 \<le> napot_bits s i" "napot_bits s i < 66"
  using trailing_ones(1) [OF napot_word_top [OF assms]] by (auto simp: napot_bits_def)

text \<open>Regions are made of words of four bytes.\<close>

lemma tor_paddr_aligned: "take_bit 2 (tor_paddr s i) = 0"
  unfolding tor_paddr_def by (rule bit_eqI) (auto simp: bit_simps)

lemma aligned_le:
  assumes "take_bit k b = (0 :: u64)"
  shows "b \<le> x \<longleftrightarrow> drop_bit k b \<le> drop_bit k x"
proof -
  have "unat (take_bit k b) = 0" by (simp add: assms)
  then have "unat b mod 2 ^ k = 0" unfolding unsigned_take_bit_eq take_bit_eq_mod [where 'a = nat] .
  then have b: "unat b = unat b div 2 ^ k * 2 ^ k" by auto
  have "unat b \<le> unat x" if "unat b div 2 ^ k \<le> unat x div 2 ^ k"
  proof -
    have "unat b = unat b div 2 ^ k * 2 ^ k" by (rule b)
    also have "\<dots> \<le> unat x div 2 ^ k * 2 ^ k" using that by simp
    also have "\<dots> \<le> unat x" by (rule div_times_less_eq_dividend)
    finally show ?thesis .
  qed
  then show ?thesis
    unfolding word_le_nat_alt unat_drop_bit_eq drop_bit_eq_div [where 'a = nat] using div_le_mono by blast
qed

lemma aligned_less: "take_bit k b = (0 :: u64) \<Longrightarrow> x < b \<longleftrightarrow> drop_bit k x < drop_bit k b"
  using aligned_le [of k b x] by (simp add: not_le [symmetric])

lemma tor_base_aligned: "take_bit 2 (tor_base_paddr s i) = 0"
  using tor_paddr_aligned by (simp add: tor_base_paddr_def)

lemma region_sector:
  assumes "pmp_wf s" "i < max_pmp" "drop_bit 2 x = drop_bit 2 y"
  shows "region s i x = region s i y"
proof -
  have "drop_bit (napot_bits s i) x = drop_bit (napot_bits s i) y"
    by (rule drop_bit_coarser [OF assms(3) napot_bits_bounds(1) [OF assms(1,2)]])
  then show ?thesis
    unfolding region_def Let_def aligned_le [OF tor_base_aligned] aligned_less [OF tor_paddr_aligned] assms(3) by simp
qed

section \<open>The check of an access\<close>

text \<open>The bytes of an access, and the decision as a specification: the first entry whose region
  meets the access decides, and it must hold all of it.\<close>

definition access_bytes :: "u64 \<Rightarrow> nat \<Rightarrow> u64 list" where
  "access_bytes addr len = map (\<lambda>j. addr + of_nat j) [0..<len]"

definition pmp_spec :: "u64 \<Rightarrow> nat \<Rightarrow> access_type \<Rightarrow> u64 \<Rightarrow> pmp_state \<Rightarrow> bool" where
  "pmp_spec addr len type mode s =
     (case List.find (\<lambda>i. list_ex (region s i) (access_bytes addr len)) [0..<n_pmp s] of
        Some i \<Rightarrow> list_all (region s i) (access_bytes addr len) \<and> access_ok s i type mode
      | None \<Rightarrow> n_pmp s = 0 \<or> mode = PRV_M \<and> \<not> get_mmwp s \<and> (\<not> get_mml s \<or> type = LOAD \<or> type = STORE))"

text \<open>Accesses whose bytes are all in the sectors that are looked at: within one word, or starting
  at a word.\<close>

definition sector_access :: "u64 \<Rightarrow> nat \<Rightarrow> bool" where
  "sector_access addr len \<longleftrightarrow> unat addr + len \<le> 2 ^ 64 \<and> (unat addr mod 4 = 0 \<or> unat addr mod 4 + len \<le> 4)"

lemma unat_addr_plus: "unat (addr :: u64) + len \<le> 2 ^ 64 \<Longrightarrow> j < len \<Longrightarrow> unat (addr + of_nat j) = unat addr + j"
proof -
  assume h: "unat addr + len \<le> 2 ^ 64" "j < len"
  then have "unat (of_nat j :: u64) = j" by (simp add: unat_of_nat)
  moreover have "unat addr + j < 2 ^ LENGTH(64)" using h by simp
  ultimately show ?thesis by (simp add: unat_add_lem [THEN iffD1])
qed

lemma byte_sector:
  assumes acc: "sector_access addr len" and j: "j < len"
  shows "drop_bit 2 (addr + of_nat j) = drop_bit 2 (addr + of_nat (4 * (j div 4)))"
proof -
  have len: "unat addr + len \<le> 2 ^ 64" using acc by (simp add: sector_access_def)
  have j4: "4 * (j div 4) < len" using j by (metis le_less_trans mult.commute div_times_less_eq_dividend)
  have "unat addr mod 4 + j mod 4 < 4"
  proof (cases "unat addr mod 4 = 0")
    case False
    then have "unat addr mod 4 + len \<le> 4" using acc by (simp add: sector_access_def)
    then show ?thesis using j by (simp add: mod_less)
  qed simp
  then have "(unat addr + j) div 4 = (unat addr + 4 * (j div 4)) div 4"
    by (simp add: div_add1_eq [of "unat addr" j])
  then have "unat (addr + of_nat j) div 4 = unat (addr + of_nat (4 * (j div 4))) div 4"
    unfolding unat_addr_plus [OF len j] unat_addr_plus [OF len j4] .
  then have "unat (drop_bit 2 (addr + of_nat j)) = unat (drop_bit 2 (addr + of_nat (4 * (j div 4))))"
    unfolding unat_drop_bit_eq by (simp add: drop_bit_eq_div)
  then show ?thesis by (simp only: word_unat_eq_iff)
qed

lemma sectors_bytes:
  assumes wf: "pmp_wf s" "i < max_pmp" and acc: "sector_access addr len"
  shows "(\<lambda>off. match4 s i (addr + off)) ` set (sectors len) = region s i ` set (access_bytes addr len)"
proof (rule set_eqI)
  fix b
  let ?P = "\<lambda>k. region s i (addr + of_nat (4 * k)) = b"
  have "b \<in> (\<lambda>off. match4 s i (addr + off)) ` set (sectors len) \<longleftrightarrow> (\<exists>k<(len + 3) div 4. ?P k)"
    unfolding match4_region [OF wf] sectors_def by auto
  also have "\<dots> \<longleftrightarrow> (\<exists>j<len. ?P (j div 4))"
  proof
    assume "\<exists>k<(len + 3) div 4. ?P k"
    then obtain k where k: "k < (len + 3) div 4" "?P k" by blast
    then have "4 * k < len" by linarith
    moreover have "?P (4 * k div 4)" using k by simp
    ultimately show "\<exists>j<len. ?P (j div 4)" by blast
  next
    assume "\<exists>j<len. ?P (j div 4)"
    then obtain j where "j < len" "?P (j div 4)" by blast
    moreover from this have "j div 4 < (len + 3) div 4" by linarith
    ultimately show "\<exists>k<(len + 3) div 4. ?P k" by blast
  qed
  also have "\<dots> \<longleftrightarrow> (\<exists>j<len. region s i (addr + of_nat j) = b)"
    using region_sector [OF wf byte_sector [OF acc]] by metis
  also have "\<dots> \<longleftrightarrow> b \<in> region s i ` set (access_bytes addr len)"
    by (auto simp: access_bytes_def)
  finally show "b \<in> (\<lambda>off. match4 s i (addr + off)) ` set (sectors len) \<longleftrightarrow> b \<in> region s i ` set (access_bytes addr len)" .
qed

lemma pmp_scan_spec:
  assumes "pmp_wf s" "\<forall>i\<in>set is. i < max_pmp" "sector_access addr len"
  shows "pmp_scan is addr len type mode s =
     (case List.find (\<lambda>i. list_ex (region s i) (access_bytes addr len)) is of
        Some i \<Rightarrow> list_all (region s i) (access_bytes addr len) \<and> access_ok s i type mode
      | None \<Rightarrow> mode = PRV_M \<and> \<not> get_mmwp s \<and> (\<not> get_mml s \<or> type = LOAD \<or> type = STORE))"
  using assms(2)
proof (induction "is")
  case (Cons i "is")
  then have sb: "set (map (\<lambda>off. match4 s i (addr + off)) (sectors len)) = region s i ` set (access_bytes addr len)"
    using sectors_bytes [OF assms(1) _ assms(3), of i] by simp
  have "True \<in> region s i ` set (access_bytes addr len) \<longleftrightarrow> list_ex (region s i) (access_bytes addr len)"
    "False \<in> region s i ` set (access_bytes addr len) \<longleftrightarrow> \<not> list_all (region s i) (access_bytes addr len)"
    by (auto simp: list_ex_iff list_all_iff image_iff)
  then show ?case using Cons sb by (simp only: pmp_scan.simps Let_def) simp
qed simp

lemma pmp_ok_spec:
  "\<lbrakk>pmp_wf s; sector_access addr len\<rbrakk> \<Longrightarrow> pmp_ok addr len type mode s = pmp_spec addr len type mode s"
  using pmp_scan_spec [of s "[0..<n_pmp s]" addr len type mode]
  by (simp add: pmp_ok_def pmp_spec_def pmp_wf_def split: option.split)

section \<open>Pages in the TLB\<close>

lemma page_aligned:
  assumes "(a OR 2 ^ k) AND (2 ^ k - 1) = (0 :: u64)"
  shows "take_bit k a = 0"
proof (rule bit_eqI)
  fix n
  have "\<not> bit ((a OR 2 ^ k) AND mask k) n" unfolding mask_eq_exp_minus_1 assms by simp
  then show "bit (take_bit k a) n = bit 0 n" by (auto simp: bit_simps dest: bit_imp_le_length)
qed

lemma page_less: "a AND - (2 ^ k) < b AND - (2 ^ k) \<longleftrightarrow> drop_bit k a < drop_bit k (b :: u64)"
proof -
  have m: "- (2 ^ k) = (NOT (mask k) :: u64)" by (simp add: mask_eq_exp_minus_1 minus_eq_not_minus_1)
  have "take_bit k (b AND NOT (mask k)) = 0" by (rule bit_eqI) (auto simp: bit_simps)
  moreover have "drop_bit k (x AND NOT (mask k)) = drop_bit k x" for x :: u64
    by (rule bit_eqI) (auto simp: bit_simps dest: bit_imp_le_length)
  ultimately show ?thesis using aligned_less [of k "b AND NOT (mask k)" "a AND NOT (mask k)"] by (simp only: m)
qed

lemma xor_zero: "u XOR v = 0 \<longleftrightarrow> u = (v :: u64)"
proof
  assume "u XOR v = 0"
  then have b: "\<not> bit (u XOR v) n" for n by simp
  show "u = v"
  proof (rule bit_eqI)
    fix n show "bit u n = bit v n" using b [of n] by (simp add: bit_xor_iff)
  qed
qed simp

lemma drop_bit_differ: "(a XOR b) div 2 ^ k \<noteq> 0 \<longleftrightarrow> drop_bit k a \<noteq> drop_bit k (b :: u64)"
proof -
  have "(a XOR b) div 2 ^ k = drop_bit k a XOR drop_bit k b"
    by (simp add: drop_bit_eq_div [symmetric] drop_bit_xor)
  then show ?thesis by (simp add: xor_zero)
qed

text \<open>A page an entry does not cut is inside its region or outside.\<close>

lemma subset_match_sound:
  assumes wf: "pmp_wf s" "i < max_pmp" and k: "k < 64"
    and sm: "subset_match s i a (2 ^ k) = Some False"
    and x: "drop_bit k x = drop_bit k a" and y: "drop_bit k y = drop_bit k a"
  shows "region s i x = region s i y"
proof -
  let ?A = "pmp_cfg (pmpaddr s ! i) AND PMP_A" and ?base = "tor_base_paddr s i" and ?tor = "tor_paddr s i"
  have al: "take_bit k a = 0"
    by (rule page_aligned) (use sm in \<open>simp add: subset_match_def split: if_splits\<close>)
  consider "?A = 0" | "?A = PMP_TOR" | "?A \<noteq> 0" "?A \<noteq> PMP_TOR" by blast
  then show ?thesis
  proof cases
    case 1 then show ?thesis by (simp add: region_def)
  next
    case 2
    then have "drop_bit k a < drop_bit k ?base \<or> ?tor \<le> a \<or> ?base \<le> a \<and> drop_bit k a < drop_bit k ?tor"
      using sm unfolding subset_match_def Let_def page_less by (simp split: if_splits)
    then consider "drop_bit k a < drop_bit k ?base" | "?tor \<le> a" | "?base \<le> a" "drop_bit k a < drop_bit k ?tor" by blast
    then have "region s i z \<longleftrightarrow> \<not> (drop_bit k a < drop_bit k ?base \<or> ?tor \<le> a)" if z: "drop_bit k z = drop_bit k a" for z
    proof cases
      case 1
      have "z < ?base" by (rule drop_bit_less [of k]) (unfold z, rule 1)
      then have "\<not> ?base \<le> z" unfolding linorder_not_le .
      then show ?thesis using 1 2 by (simp add: region_def)
    next
      case t: 2
      have "a \<le> z" unfolding aligned_le [OF al] z by simp
      then have "?tor \<le> z" using t by (rule order_trans [rotated])
      then have "\<not> z < ?tor" unfolding linorder_not_less .
      then show ?thesis using t 2 by (simp add: region_def)
    next
      case c: 3
      have "a \<le> z" unfolding aligned_le [OF al] z by simp
      then have "?base \<le> z" using c(1) by (rule order_trans [rotated])
      moreover have "z < ?tor" by (rule drop_bit_less [of k]) (unfold z, rule c(2))
      moreover have "\<not> ?tor \<le> a" using drop_bit_less [OF c(2)] unfolding linorder_not_le .
      moreover have "\<not> drop_bit k a < drop_bit k ?base" using drop_bit_mono [OF c(1), of k] unfolding linorder_not_less .
      ultimately show ?thesis using 2 by (simp add: region_def)
    qed
    then show ?thesis using x y by blast
  next
    case 3
    let ?r = "napot_bits s i"
    have "NOT (push_bit 1 (napot_mask s i)) AND 2 ^ k \<noteq> 0 \<or> (a XOR ?tor) div 2 ^ k \<noteq> 0"
      using sm 3 by (simp only: subset_match_def Let_def) (simp split: if_splits)
    moreover have "NOT (push_bit 1 (napot_mask s i)) AND 2 ^ k \<noteq> 0 \<longleftrightarrow> k \<le> ?r"
    proof -
      have "NOT (push_bit 1 (napot_mask s i)) AND 2 ^ k \<noteq> 0 \<longleftrightarrow> bit (NOT (push_bit 1 (NOT (mask ?r :: u64)))) k"
        unfolding napot_mask_eq [OF wf] and_exp_eq_0_iff_not_bit by simp
      also have "\<dots> \<longleftrightarrow> k = 0 \<or> k - 1 < ?r"
        unfolding bit_not_iff bit_push_bit_iff bit_mask_iff using k by auto
      also have "\<dots> \<longleftrightarrow> k \<le> ?r" by auto
      finally show ?thesis .
    qed
    ultimately have "k \<le> ?r \<or> drop_bit k a \<noteq> drop_bit k ?tor" unfolding drop_bit_differ by blast
    then show ?thesis
    proof
      assume "k \<le> ?r"
      then have "drop_bit ?r x = drop_bit ?r y" using drop_bit_coarser x y by metis
      then show ?thesis using 3 by (simp add: region_def)
    next
      assume d: "drop_bit k a \<noteq> drop_bit k ?tor"
      show ?thesis
      proof (cases "k \<le> ?r")
        case True
        then have "drop_bit ?r x = drop_bit ?r y" using drop_bit_coarser x y by metis
        then show ?thesis using 3 by (simp add: region_def)
      next
        case False
        then have "drop_bit ?r z \<noteq> drop_bit ?r ?tor" if "drop_bit k z = drop_bit k a" for z
          using d that drop_bit_coarser [of ?r z ?tor k] by auto
        then show ?thesis using 3 x y by (simp add: region_def)
      qed
    qed
  qed
qed

lemma homogeneous_scan_sound:
  "homogeneous_scan is a len s = Some True \<longleftrightarrow> (\<forall>i\<in>set is. subset_match s i a len = Some False)"
  by (induction "is") (auto split: option.split)

text \<open>An access inside a page.\<close>

definition in_page :: "nat \<Rightarrow> u64 \<Rightarrow> u64 \<Rightarrow> nat \<Rightarrow> bool" where
  "in_page k page addr len \<longleftrightarrow> 0 < len \<and> drop_bit k addr = drop_bit k page \<and> unat addr mod 2 ^ k + len \<le> 2 ^ k"

lemma in_page_offset:
  assumes "in_page k page addr len" "k < 64" "j < len"
  shows "drop_bit k (addr + of_nat j) = drop_bit k page"
proof -
  have "unat addr < 2 ^ LENGTH(64)" by (rule unsigned_less)
  then have hi: "unat addr div 2 ^ k * 2 ^ k + 2 ^ k \<le> 2 ^ 64"
  proof -
    have "unat addr div 2 ^ k < 2 ^ (64 - k)"
      by (rule less_mult_imp_div_less) (use \<open>unat addr < _\<close> assms(2) in \<open>simp add: power_add [symmetric]\<close>)
    then have "(unat addr div 2 ^ k + 1) * 2 ^ k \<le> 2 ^ (64 - k) * 2 ^ k" by (intro mult_le_mono1) simp
    then show ?thesis using assms(2) by (simp add: power_add [symmetric])
  qed
  have m: "unat addr mod 2 ^ k + j < 2 ^ k" using assms by (simp add: in_page_def)
  then have "unat addr + (j + 1) \<le> 2 ^ 64" using hi div_mult_mod_eq [of "unat addr" "2 ^ k"] by linarith
  then have u: "unat (addr + of_nat j) = unat addr + j" by (rule unat_addr_plus) simp
  have "(unat addr + j) div 2 ^ k = unat addr div 2 ^ k"
  proof -
    have "unat addr + j = (unat addr mod 2 ^ k + j) + unat addr div 2 ^ k * 2 ^ k"
      using div_mult_mod_eq [of "unat addr" "2 ^ k"] by linarith
    then show ?thesis using m by (simp only: div_mult_self1) simp
  qed
  then have "unat (drop_bit k (addr + of_nat j)) = unat (drop_bit k addr)"
    unfolding unat_drop_bit_eq u by (simp add: drop_bit_eq_div)
  then show ?thesis using assms(1) by (simp add: in_page_def word_unat_eq_iff)
qed

lemma scan_in_page:
  assumes wf: "pmp_wf s" and k: "k < 64" and h: "\<forall>i\<in>set is. i < max_pmp \<and> subset_match s i page (2 ^ k) = Some False"
    and acc: "in_page k page addr len"
  shows "pmp_scan is addr len type mode s =
    (case List.find (\<lambda>i. region s i page) is of
       Some i \<Rightarrow> access_ok s i type mode
     | None \<Rightarrow> mode = PRV_M \<and> \<not> get_mmwp s \<and> (\<not> get_mml s \<or> type = LOAD \<or> type = STORE))"
  using h
proof (induction "is")
  case (Cons i "is")
  then have i: "i < max_pmp" "subset_match s i page (2 ^ k) = Some False" by simp_all
  have "match4 s i (addr + off) = region s i page" if off: "off \<in> set (sectors len)" for off
  proof -
    obtain j where j: "off = of_nat (4 * j)" "4 * j < len" using off by (auto simp: sectors_def)
    show ?thesis
      unfolding match4_region [OF wf i(1)]
      by (rule subset_match_sound [OF wf i(1) k i(2) _ refl]) (unfold j(1), rule in_page_offset [OF acc k j(2)])
  qed
  moreover have "0 \<in> set (sectors len)" using acc by (auto simp: sectors_def in_page_def intro!: image_eqI [of _ _ 0])
  ultimately have "set (map (\<lambda>off. match4 s i (addr + off)) (sectors len)) = {region s i page}" by auto
  then show ?case using Cons by (simp only: pmp_scan.simps Let_def) simp
qed simp

text \<open>Once a page is in the TLB, the answer for one access in it is the answer for all.\<close>

lemma homogeneous_page:
  assumes "pmp_wf s" "k < 64" "pmp_homogeneous page (2 ^ k) s = Some True" "in_page k page x m" "in_page k page y n"
  shows "pmp_ok x m type mode s = pmp_ok y n type mode s"
proof -
  have "homogeneous_scan [0..<n_pmp s] page (2 ^ k) s = Some True"
    using assms(3) by (simp add: pmp_homogeneous_def split: if_splits)
  then have "\<forall>i\<in>set [0..<n_pmp s]. i < max_pmp \<and> subset_match s i page (2 ^ k) = Some False"
    using assms(1) unfolding homogeneous_scan_sound pmp_wf_def by auto
  then show ?thesis
    using scan_in_page [OF assms(1,2) _ assms(4)] scan_in_page [OF assms(1,2) _ assms(5)] by (simp add: pmp_ok_def)
qed

section \<open>Writes\<close>

datatype pmp_op = Write_Pmpaddr nat u64 | Write_Pmpcfg nat u64 | Write_Mseccfg u64

fun pmp_step :: "pmp_op \<Rightarrow> pmp_state \<Rightarrow> pmp_state" where
  "pmp_step (Write_Pmpaddr i v) s = fst (pmpaddr_write i v s)"
| "pmp_step (Write_Pmpcfg k v) s = fst (pmpcfg_write k v s)"
| "pmp_step (Write_Mseccfg v) s = fst (mseccfg_write v s)"

text \<open>What no write changes.\<close>

lemma pmp_flush_simps [simp]:
  "pmpaddr (pmp_flush s) = pmpaddr s" "mseccfg (pmp_flush s) = mseccfg s" "n_pmp (pmp_flush s) = n_pmp s"
  "lg_pmp_granularity (pmp_flush s) = lg_pmp_granularity s" "pmp_xlen (pmp_flush s) = pmp_xlen s"
  "flushes (pmp_flush s) = flushes s + 1"
  by (simp_all add: pmp_flush_def)

text \<open>The loop of \<open>pmpcfg_write\<close>, from an invariant of its body.\<close>

lemma pmpcfg_loop:
  assumes "P s" and "\<And>s i r. \<lbrakk>P s; i \<in> set is\<rbrakk> \<Longrightarrow> P (fst (pmpcfg_step i0 v i (s, r)))"
  shows "P (fst (fold (pmpcfg_step i0 v) is (s, r)))"
  using assms
proof (induction "is" arbitrary: s r)
  case (Cons i "is")
  obtain s' r' where s': "pmpcfg_step i0 v i (s, r) = (s', r')" by (metis prod.exhaust)
  then have "P s'" using Cons.prems(2) [OF Cons.prems(1), of i r] by simp
  then show ?case using Cons.IH [of s' r'] Cons.prems(2) s' by simp
qed simp

lemma pmp_step_invariant:
  assumes "P s" and "\<And>s. P (pmp_flush s) = P s"
    and "\<And>s i v. \<lbrakk>P s; i < n_pmp s; get_rlb s \<or> pmp_cfg (pmpaddr s ! i) AND PMP_L = 0; \<not> next_locked_and_tor i s\<rbrakk>
        \<Longrightarrow> P (s\<lparr>pmpaddr := (pmpaddr s)[i := (pmpaddr s ! i)\<lparr>pmp_val := v AND (2 ^ 54 - 1)\<rparr>]\<rparr>)"
    and "\<And>s i b. \<lbrakk>P s; i < n_pmp s; get_rlb s \<or> pmp_cfg (pmpaddr s ! i) AND PMP_L = 0\<rbrakk>
        \<Longrightarrow> P (s\<lparr>pmpaddr := (pmpaddr s)[i := (pmpaddr s ! i)\<lparr>pmp_cfg := legal_cfg b s\<rparr>]\<rparr>)"
    and "\<And>s v. \<lbrakk>P s; 0 < n_pmp s\<rbrakk> \<Longrightarrow> P (fst (mseccfg_write v s))"
  shows "P (pmp_step oper s)"
proof (cases oper)
  case (Write_Pmpaddr i v)
  then show ?thesis using assms(1,2) assms(3) [of s i v]
    by (auto simp: pmpaddr_write_def Let_def)
next
  case (Write_Pmpcfg k v)
  have body: "P (fst (pmpcfg_step i0 v i (s, r)))" if "P s" for s i r i0
    using that assms(4) [of s i "ucast (drop_bit (8 * (i - i0)) v)"] by (auto simp: pmpcfg_step_def Let_def)
  obtain s' r' where s': "fold (pmpcfg_step (k * 4) v) [k * 4..<k * 4 + pmp_xlen s div 8] (s, False) = (s', r')"
    by (metis prod.exhaust)
  have "P (fst (fold (pmpcfg_step (k * 4) v) [k * 4..<k * 4 + pmp_xlen s div 8] (s, False)))"
    by (rule pmpcfg_loop [OF assms(1) body])
  then have "P s'" using s' by simp
  then show ?thesis using Write_Pmpcfg assms(1,2) s' by (simp add: pmpcfg_write_def)
next
  case (Write_Mseccfg v)
  then show ?thesis using assms(1,5) by (cases "n_pmp s = 0") (auto simp: mseccfg_write_def)
qed

text \<open>Legal configurations: no bits outside the fields, no four-byte region below the granularity,
  and no writing without reading unless the machine-mode lockdown is on.\<close>

definition cfg_legal :: "pmp_state \<Rightarrow> u8 \<Rightarrow> bool" where
  "cfg_legal s cfg \<longleftrightarrow> cfg AND NOT (PMP_R OR PMP_W OR PMP_X OR PMP_A OR PMP_L) = 0
     \<and> (lg_pmp_granularity s = PMP_SHIFT \<or> cfg AND PMP_A \<noteq> PMP_NA4)
     \<and> (get_mml s \<or> cfg AND PMP_R \<noteq> 0 \<or> cfg AND PMP_W = 0)"

definition pmp_typed :: "pmp_state \<Rightarrow> bool" where
  "pmp_typed s \<longleftrightarrow> pmp_wf s \<and> (\<forall>e\<in>set (pmpaddr s). cfg_legal s (pmp_cfg e))"

lemma u8_eq:
  "(x :: u8) = y \<longleftrightarrow> bit x 0 = bit y 0 \<and> bit x 1 = bit y 1 \<and> bit x 2 = bit y 2 \<and> bit x 3 = bit y 3
     \<and> bit x 4 = bit y 4 \<and> bit x 5 = bit y 5 \<and> bit x 6 = bit y 6 \<and> bit x 7 = bit y 7" (is "_ \<longleftrightarrow> ?b")
proof
  assume b: ?b
  show "x = y"
  proof (rule bit_word_eqI)
    fix n assume "n < LENGTH(8)"
    then have "n = 0 \<or> n = 1 \<or> n = 2 \<or> n = 3 \<or> n = 4 \<or> n = 5 \<or> n = 6 \<or> n = 7" by simp arith
    then show "bit x n = bit y n" using b by blast
  qed
qed simp

lemma cfg_fields:
  fixes c :: u8
  shows "c AND PMP_R = 0 \<longleftrightarrow> \<not> bit c 0" "c AND PMP_W = 0 \<longleftrightarrow> \<not> bit c 1" "c AND PMP_X = 0 \<longleftrightarrow> \<not> bit c 2"
    "c AND PMP_L = 0 \<longleftrightarrow> \<not> bit c 7" "c AND PMP_A = 0 \<longleftrightarrow> \<not> bit c 3 \<and> \<not> bit c 4"
    "c AND PMP_A = PMP_TOR \<longleftrightarrow> bit c 3 \<and> \<not> bit c 4" "c AND PMP_A = PMP_NA4 \<longleftrightarrow> \<not> bit c 3 \<and> bit c 4"
    "c AND NOT (PMP_R OR PMP_W OR PMP_X OR PMP_A OR PMP_L) = 0 \<longleftrightarrow> \<not> bit c 5 \<and> \<not> bit c 6"
  unfolding u8_eq by (simp_all add: bit_and_iff bit_or_iff bit_not_iff)

lemma legal_cfg_bits:
  "bit (legal_cfg b s) 0 = bit b 0" "bit (legal_cfg b s) 1 = (bit b 1 \<and> (get_mml s \<or> bit b 0))"
  "bit (legal_cfg b s) 2 = bit b 2" "bit (legal_cfg b s) 3 = (bit b 3 \<or> lg_pmp_granularity s \<noteq> PMP_SHIFT \<and> bit b 4)"
  "bit (legal_cfg b s) 4 = bit b 4" "bit (legal_cfg b s) 5 = False" "bit (legal_cfg b s) 6 = False" "bit (legal_cfg b s) 7 = bit b 7"
  by (auto simp: legal_cfg_def Let_def cfg_fields bit_and_iff bit_or_iff bit_not_iff)

lemma legal_cfg_legal: "cfg_legal s (legal_cfg b s)"
  unfolding cfg_legal_def cfg_fields legal_cfg_bits by auto

lemma cfg_legal_cong:
  "\<lbrakk>lg_pmp_granularity s' = lg_pmp_granularity s; get_mml s \<longrightarrow> get_mml s'; cfg_legal s c\<rbrakk> \<Longrightarrow> cfg_legal s' c"
  by (auto simp: cfg_legal_def)

text \<open>The three flags of \<open>mseccfg\<close>.\<close>

lemma seccfg_flags:
  "get_mml s \<longleftrightarrow> bit (mseccfg s) 0" "get_mmwp s \<longleftrightarrow> bit (mseccfg s) 1" "get_rlb s \<longleftrightarrow> bit (mseccfg s) 2"
  using and_exp_eq_0_iff_not_bit [of "mseccfg s" 0] and_exp_eq_0_iff_not_bit [of "mseccfg s" 1]
    and_exp_eq_0_iff_not_bit [of "mseccfg s" 2]
  by (simp_all add: get_mml_def get_mmwp_def get_rlb_def)

lemma mseccfg_write_flags:
  assumes "0 < n_pmp s"
  shows "get_mml (fst (mseccfg_write v s)) \<longleftrightarrow> get_mml s \<or> bit v 0"
    "get_mmwp (fst (mseccfg_write v s)) \<longleftrightarrow> get_mmwp s \<or> bit v 1"
    "get_rlb (fst (mseccfg_write v s)) \<longleftrightarrow>
       (if list_ex is_locked (take (n_pmp s) (pmpaddr s)) \<and> \<not> get_rlb s then get_rlb s else bit v 2)"
    "pmpaddr (fst (mseccfg_write v s)) = pmpaddr s" "n_pmp (fst (mseccfg_write v s)) = n_pmp s"
    "lg_pmp_granularity (fst (mseccfg_write v s)) = lg_pmp_granularity s" "pmp_xlen (fst (mseccfg_write v s)) = pmp_xlen s"
  using assms get_rlb_def [of s]
  by (auto simp: mseccfg_write_def Let_def seccfg_flags bit_and_iff bit_or_iff bit_not_iff)

lemma pmp_typed_step: "pmp_typed s \<Longrightarrow> pmp_typed (pmp_step oper s)"
proof (rule pmp_step_invariant [where P = pmp_typed])
  show "pmp_typed (pmp_flush s) = pmp_typed s" for s
    by (simp add: pmp_typed_def pmp_wf_def cfg_legal_def get_mml_def)
  have mem: "pmpaddr s ! i \<in> set (pmpaddr s)" if "pmp_typed s" "i < n_pmp s" for s i
    using that by (simp add: pmp_typed_def pmp_wf_def)
  show "pmp_typed (s\<lparr>pmpaddr := (pmpaddr s)[i := (pmpaddr s ! i)\<lparr>pmp_val := v AND (2 ^ 54 - 1)\<rparr>]\<rparr>)"
    if h: "pmp_typed s" "i < n_pmp s" for s i v
  proof -
    have "v AND (2 ^ 54 - 1) = take_bit 54 v" by (simp only: take_bit_eq_mask mask_eq_exp_minus_1)
    moreover have "unat (take_bit 54 v) < 2 ^ 54"
      unfolding unsigned_take_bit_eq by (rule take_bit_nat_less_exp)
    ultimately have "v AND (2 ^ 54 - 1) < 2 ^ 54" by (simp add: word_less_nat_alt)
    then show ?thesis using h mem [OF h] set_update_subset_insert [of "pmpaddr s" i]
      by (auto simp: pmp_typed_def pmp_wf_def cfg_legal_def get_mml_def dest!: subsetD [OF set_update_subset_insert])
  qed
  show "pmp_typed (s\<lparr>pmpaddr := (pmpaddr s)[i := (pmpaddr s ! i)\<lparr>pmp_cfg := legal_cfg b s\<rparr>]\<rparr>)"
    if h: "pmp_typed s" "i < n_pmp s" for s i b
    using h mem [OF h] legal_cfg_legal [of s b]
    by (auto simp: pmp_typed_def pmp_wf_def cfg_legal_def get_mml_def dest!: subsetD [OF set_update_subset_insert])
  show "pmp_typed (fst (mseccfg_write v s))" if h: "pmp_typed s" "0 < n_pmp s" for s v
    using h mseccfg_write_flags [OF h(2), of v] cfg_legal_cong [of "fst (mseccfg_write v s)" s]
    by (auto simp: pmp_typed_def pmp_wf_def)
qed

text \<open>A locked entry, with bypassing off: no write changes the entry, the register below it when it
  bounds the region, or the bypass flag.\<close>

definition frozen :: "nat \<Rightarrow> pmp_state \<Rightarrow> pmp_state \<Rightarrow> bool" where
  "frozen i s0 s \<longleftrightarrow>
     length (pmpaddr s) = max_pmp \<and> n_pmp s = n_pmp s0 \<and> lg_pmp_granularity s = lg_pmp_granularity s0
     \<and> pmpaddr s ! i = pmpaddr s0 ! i \<and> \<not> get_rlb s
     \<and> (i \<noteq> 0 \<longrightarrow> pmp_cfg (pmpaddr s0 ! i) AND PMP_A = PMP_TOR \<longrightarrow> pmp_val (pmpaddr s ! (i - 1)) = pmp_val (pmpaddr s0 ! (i - 1)))
     \<and> (get_mml s0 \<longrightarrow> get_mml s) \<and> (get_mmwp s0 \<longrightarrow> get_mmwp s)"

lemma frozen_step:
  assumes i: "i < n_pmp s0" "n_pmp s0 \<le> max_pmp" and lock: "is_locked (pmpaddr s0 ! i)"
  shows "frozen i s0 s \<Longrightarrow> frozen i s0 (pmp_step oper s)"
proof (rule pmp_step_invariant [where P = "frozen i s0"])
  show "frozen i s0 (pmp_flush s) = frozen i s0 s" for s
    by (simp add: frozen_def get_rlb_def get_mml_def get_mmwp_def)
  show "frozen i s0 (s\<lparr>pmpaddr := (pmpaddr s)[j := (pmpaddr s ! j)\<lparr>pmp_val := v AND (2 ^ 54 - 1)\<rparr>]\<rparr>)"
    if h: "frozen i s0 s" "j < n_pmp s" "get_rlb s \<or> pmp_cfg (pmpaddr s ! j) AND PMP_L = 0" "\<not> next_locked_and_tor j s" for s j v
  proof -
    have "j \<noteq> i" using h lock by (auto simp: frozen_def is_locked_def)
    moreover have "\<not> (i \<noteq> 0 \<and> pmp_cfg (pmpaddr s0 ! i) AND PMP_A = PMP_TOR \<and> j = i - 1)"
    proof
      assume b: "i \<noteq> 0 \<and> pmp_cfg (pmpaddr s0 ! i) AND PMP_A = PMP_TOR \<and> j = i - 1"
      then have "j + 1 = i" by simp
      then have "next_locked_and_tor j s" using h(1) i lock b
        by (simp add: frozen_def is_locked_def next_locked_and_tor_def)
      then show False using h(4) by simp
    qed
    ultimately show ?thesis using h by (auto simp: frozen_def get_rlb_def get_mml_def get_mmwp_def nth_list_update)
  qed
  show "frozen i s0 (s\<lparr>pmpaddr := (pmpaddr s)[j := (pmpaddr s ! j)\<lparr>pmp_cfg := legal_cfg b s\<rparr>]\<rparr>)"
    if h: "frozen i s0 s" "j < n_pmp s" "get_rlb s \<or> pmp_cfg (pmpaddr s ! j) AND PMP_L = 0" for s j b
  proof -
    have "j \<noteq> i" using h lock by (auto simp: frozen_def is_locked_def)
    moreover have "pmp_val ((pmpaddr s)[j := (pmpaddr s ! j)\<lparr>pmp_cfg := c\<rparr>] ! m) = pmp_val (pmpaddr s ! m)" for m c
      by (cases "j < length (pmpaddr s)"; cases "m = j") (auto simp: list_update_beyond)
    ultimately show ?thesis using h by (simp add: frozen_def get_rlb_def get_mml_def get_mmwp_def)
  qed
  show "frozen i s0 (fst (mseccfg_write v s))" if h: "frozen i s0 s" "0 < n_pmp s" for s v
  proof -
    have "take (n_pmp s) (pmpaddr s) ! i = pmpaddr s0 ! i" "i < length (take (n_pmp s) (pmpaddr s))"
      using h i by (simp_all add: frozen_def)
    then have "list_ex is_locked (take (n_pmp s) (pmpaddr s))" using lock by (metis list_ex_length)
    then show ?thesis using h mseccfg_write_flags [OF h(2), of v] by (simp add: frozen_def)
  qed
qed

lemma frozen_match:
  assumes "frozen i s0 s"
  shows "match4 s i a = match4 s0 i a"
proof -
  have tor: "tor_paddr s i = tor_paddr s0 i" "napot_mask s i = napot_mask s0 i"
    using assms by (simp_all add: tor_paddr_def napot_mask_def pmp_tor_mask_def frozen_def)
  have "tor_base_paddr s i = tor_base_paddr s0 i" if "pmp_cfg (pmpaddr s0 ! i) AND PMP_A = PMP_TOR"
    using assms that by (auto simp: tor_base_paddr_def tor_paddr_def pmp_tor_mask_def frozen_def)
  then show ?thesis using assms tor by (auto simp: match4_def frozen_def)
qed

section \<open>Reset\<close>

lemma pmp_reset_entry:
  assumes n: "0 < n_pmp s" and x: "pmp_xlen s = 32 \<or> pmp_xlen s = 64"
  shows "pmpaddr (pmp_reset s) ! 0 = \<lparr>pmp_val = 2 ^ 54 - 1, pmp_cfg = 0x1F\<rparr> \<and> mseccfg (pmp_reset s) = 0 \<and> n_pmp (pmp_reset s) = n_pmp s"
proof -
  define s0 where "s0 = s\<lparr>pmpaddr := replicate max_pmp \<lparr>pmp_val = 0, pmp_cfg = 0\<rparr>, mseccfg := 0\<rparr>"
  define s1 where "s1 = fst (pmpaddr_write 0 (- 1) s0)"
  have s1: "pmpaddr s1 = (pmpaddr s0)[0 := \<lparr>pmp_val = 2 ^ 54 - 1, pmp_cfg = 0\<rparr>]" "mseccfg s1 = 0" "n_pmp s1 = n_pmp s" "pmp_xlen s1 = pmp_xlen s"
    using n by (simp_all add: s1_def s0_def pmpaddr_write_def next_locked_and_tor_def get_rlb_def)
  let ?v = "ucast (PMP_R OR PMP_W OR PMP_X OR PMP_NAPOT) :: u64"
  let ?P = "\<lambda>s'. pmpaddr s' ! 0 = \<lparr>pmp_val = 2 ^ 54 - 1, pmp_cfg = 0x1F\<rparr> \<and> mseccfg s' = 0 \<and> n_pmp s' = n_pmp s"
  have "legal_cfg 0x1F s1 = 0x1F" by (simp add: legal_cfg_def)
  then have first: "?P (fst (pmpcfg_step 0 ?v 0 (s1, False)))"
    using n s1 by (simp add: pmpcfg_step_def addable_cfg_def get_mml_def s0_def)
  obtain s2 r2 where s2: "pmpcfg_step 0 ?v 0 (s1, False) = (s2, r2)" by (metis prod.exhaust)
  have up: "[0..<pmp_xlen s div 8] = 0 # [1..<pmp_xlen s div 8]" using x by (auto simp: upt_conv_Cons)
  obtain s3 r3 where s3: "fold (pmpcfg_step 0 ?v) [1..<pmp_xlen s div 8] (s2, r2) = (s3, r3)" by (metis prod.exhaust)
  have "?P (fst (fold (pmpcfg_step 0 ?v) [1..<pmp_xlen s div 8] (s2, r2)))"
    by (rule pmpcfg_loop) (use first s2 in \<open>auto simp: pmpcfg_step_def Let_def\<close>)
  then have p3: "?P s3" using s3 by simp
  have "pmp_reset s = pmp_flush s3"
    using n s1(3,4) s2 s3 up by (simp add: pmp_reset_def s0_def [symmetric] s1_def [symmetric] pmpcfg_write_def)
  then show ?thesis using p3 by simp
qed

lemma sector_offset: "q < (len + 3) div 4 \<Longrightarrow> 4 * q < (len :: nat)"
  by linarith

lemma pmp_reset_open:
  assumes wf: "pmp_wf (pmp_reset s)" and n: "0 < n_pmp s" "pmp_xlen s = 32 \<or> pmp_xlen s = 64"
    and len: "0 < len" "unat addr + len \<le> 2 ^ 56"
  shows "pmp_ok addr len type mode (pmp_reset s)"
proof -
  let ?s = "pmp_reset s"
  note e = pmp_reset_entry [OF n]
  have cfg: "pmp_cfg (pmpaddr ?s ! 0) AND PMP_A = PMP_NAPOT" using e by simp
  let ?m = "push_bit 1 (pmp_val (pmpaddr ?s ! 0)) OR of_bool (pmp_cfg (pmpaddr ?s ! 0) AND PMP_A \<noteq> PMP_NA4) OR mask (lg_pmp_granularity ?s - 2) :: u64"
  have v: "pmp_val (pmpaddr ?s ! 0) = mask 54" using e by (simp add: mask_eq_exp_minus_1)
  have "\<not> bit ?m 63" by (rule napot_word_top [OF wf]) simp
  note t = trailing_ones [OF this]
  have "54 < trailing_ones ?m"
  proof (rule ccontr)
    assume "\<not> 54 < trailing_ones ?m"
    moreover have "bit ?m j" if "j \<le> 54" for j
      using that cfg unfolding v bit_or_iff bit_push_bit_iff bit_mask_iff by (cases j) auto
    ultimately show False using t(2) by simp
  qed
  then have k: "56 \<le> napot_bits ?s 0" by (simp add: napot_bits_def)
  have small: "drop_bit (napot_bits ?s 0) a = 0" if "unat a < 2 ^ 56" for a :: u64
  proof -
    have "unat a < 2 ^ napot_bits ?s 0" using that k by (meson less_le_trans one_le_numeral power_increasing)
    then have "unat (drop_bit (napot_bits ?s 0) a) = 0" unfolding unat_drop_bit_eq by (simp add: drop_bit_eq_div)
    then show ?thesis by (simp add: unsigned_eq_0_iff)
  qed
  have "unat (tor_paddr ?s 0) < 2 ^ 56"
  proof -
    have "tor_paddr ?s 0 = take_bit 56 (tor_paddr ?s 0)"
      unfolding tor_paddr_def v by (rule bit_eqI) (auto simp: bit_simps)
    then show ?thesis by (metis unsigned_take_bit_eq take_bit_nat_less_exp)
  qed
  then have "match4 ?s 0 (addr + off) = True" if "off \<in> set (sectors len)" for off
  proof -
    note off = that
    obtain q where "off = of_nat (4 * q)" "q < (len + 3) div 4" using off by (auto simp: sectors_def)
    then obtain j where j: "off = of_nat j" "j < len" using sector_offset by blast
    have "unat (addr + of_nat j) = unat addr + j" by (rule unat_addr_plus [OF _ j(2)]) (use len in simp)
    then have "unat (addr + off) < 2 ^ 56" using j len by simp
    then have "drop_bit (napot_bits ?s 0) (addr + off) = drop_bit (napot_bits ?s 0) (tor_paddr ?s 0)"
      using small \<open>unat (tor_paddr ?s 0) < 2 ^ 56\<close> by simp
    then show ?thesis using cfg by (simp add: match4_region [OF wf] region_def)
  qed
  moreover have "0 \<in> set (sectors len)" using len(1) by (auto simp: sectors_def intro!: image_eqI [of _ _ 0])
  ultimately have m: "set (map (\<lambda>off. match4 ?s 0 (addr + off)) (sectors len)) = {True}" by auto
  have "access_ok ?s 0 type mode" using e by (cases type) (simp_all add: access_ok_def get_mml_def)
  then have "pmp_scan (0 # is) addr len type mode ?s" for "is" using m by (simp only: pmp_scan.simps Let_def) simp
  moreover have "[0..<n_pmp ?s] = 0 # [1..<n_pmp ?s]" using n(1) e by (simp add: upt_conv_Cons)
  ultimately show ?thesis by (simp only: pmp_ok_def if_cancel)
qed

lemma pmp_reset_typed:
  assumes "n_pmp s \<le> max_pmp" "2 \<le> lg_pmp_granularity s" "lg_pmp_granularity s < 64" "pmp_xlen s = 32 \<or> pmp_xlen s = 64"
  shows "pmp_typed (pmp_reset s)"
proof -
  define s0 where "s0 = s\<lparr>pmpaddr := replicate max_pmp \<lparr>pmp_val = 0, pmp_cfg = 0\<rparr>, mseccfg := 0\<rparr>"
  have "pmp_typed s0" using assms by (simp add: pmp_typed_def pmp_wf_def cfg_legal_def s0_def)
  then have "pmp_typed (pmp_step (Write_Pmpcfg 0 v) (pmp_step (Write_Pmpaddr 0 (- 1)) s0))" for v
    by (intro pmp_typed_step)
  then show ?thesis using \<open>pmp_typed s0\<close> by (simp add: pmp_reset_def s0_def Let_def)
qed

section \<open>Properties\<close>

text \<open>Eight entries at the smallest granularity: entry 1 gives read access to the top of a TOR
  region and entry 2 is a locked page without access.\<close>

definition demo_pmp :: pmp_state where
  "demo_pmp = \<lparr>pmpaddr = [\<lparr>pmp_val = 0x20000000, pmp_cfg = 0\<rparr>, \<lparr>pmp_val = 0x20000003, pmp_cfg = 0x89\<rparr>, \<lparr>pmp_val = 0x200005FF, pmp_cfg = 0x98\<rparr>]
       @ replicate 61 \<lparr>pmp_val = 0, pmp_cfg = 0\<rparr>,
     mseccfg = 0, n_pmp = 8, lg_pmp_granularity = 2, pmp_xlen = 64, flushes = 0\<rparr>"

lemma demo_pmp_wf: "pmp_typed demo_pmp"
  by (simp add: demo_pmp_def pmp_typed_def pmp_wf_def cfg_legal_def)

text \<open>C23: For an access inside one word, or word-aligned, the physical memory protection check
  equals its specification over single bytes: the first entry that matches some byte must
  match them all and grants or denies the access, and where no entry matches the mode
  decides.\<close>

theorem pmp_check_correct:
  assumes "pmp_wf s" "sector_access addr len"
  shows "pmp_ok addr len type mode s = pmp_spec addr len type mode s"
  by (rule pmp_ok_spec [OF assms])

lemma pmp_check_correct_witness:
  "pmp_ok 0x80000008 4 LOAD 1 demo_pmp = pmp_spec 0x80000008 4 LOAD 1 demo_pmp \<and> pmp_ok 0x80000008 4 LOAD 1 demo_pmp"
  using pmp_check_correct [of demo_pmp "0x80000008" 4 LOAD 1] demo_pmp_wf
  by (simp add: pmp_typed_def sector_access_def) code_simp

text \<open>C24: A page pmp_homogeneous accepts (one that may enter the TLB) gives the same answer to
  every access inside it of the same type and mode, whatever its address, size and
  alignment, so that the check made at the refill speaks for the whole page.\<close>

theorem pmp_page_cacheable:
  assumes "pmp_wf s" "k < 64" "pmp_homogeneous page (2 ^ k) s = Some True"
    and "in_page k page x m" "in_page k page y n"
  shows "pmp_ok x m type mode s = pmp_ok y n type mode s"
  by (rule homogeneous_page [OF assms])

lemma pmp_page_cacheable_witness:
  "pmp_ok 0x80001004 8 LOAD 1 demo_pmp = pmp_ok 0x80001FF0 1 LOAD 1 demo_pmp"
proof -
  have "pmp_homogeneous 0x80001000 4096 demo_pmp = Some True" by code_simp
  then show ?thesis
    using pmp_page_cacheable [of demo_pmp 12 "0x80001000" "0x80001004" 8 "0x80001FF0" 1 LOAD 1] demo_pmp_wf
    by (simp add: pmp_typed_def in_page_def)
qed

text \<open>C19: Once an entry of the physical memory protection is locked and rule-locking bypass is
  off, no sequence of writes to the address, configuration and security registers changes
  the entry, the set of addresses it matches (the entry below it included when it bounds its
  range), or turns the bypass on; the two sticky security modes stay on.\<close>

theorem pmp_lock_holds:
  assumes "pmp_wf s" "i < n_pmp s" "is_locked (pmpaddr s ! i)" "\<not> get_rlb s"
  shows "pmpaddr (fold pmp_step ops s) ! i = pmpaddr s ! i \<and> \<not> get_rlb (fold pmp_step ops s)
    \<and> (\<forall>a. match4 (fold pmp_step ops s) i a = match4 s i a)
    \<and> (get_mml s \<longrightarrow> get_mml (fold pmp_step ops s)) \<and> (get_mmwp s \<longrightarrow> get_mmwp (fold pmp_step ops s))"
proof -
  have "frozen i s t \<Longrightarrow> frozen i s (fold pmp_step ops t)" for t
    using assms by (induction ops arbitrary: t) (simp_all add: frozen_step pmp_wf_def)
  moreover have "frozen i s s" using assms by (simp add: frozen_def pmp_wf_def)
  ultimately have f: "frozen i s (fold pmp_step ops s)" by blast
  then show ?thesis using frozen_match [OF f] by (simp add: frozen_def)
qed

lemma pmp_lock_holds_witness:
  "pmpaddr (fold pmp_step [Write_Pmpaddr 0 5, Write_Pmpcfg 0 0x1F1F1F, Write_Mseccfg 4] demo_pmp) ! 1 = \<lparr>pmp_val = 0x20000003, pmp_cfg = 0x89\<rparr>"
  using pmp_lock_holds [of demo_pmp 1 "[Write_Pmpaddr 0 5, Write_Pmpcfg 0 0x1F1F1F, Write_Mseccfg 4]"] demo_pmp_wf
  by (simp add: pmp_typed_def) (simp add: demo_pmp_def is_locked_def get_rlb_def)

text \<open>C25: From reset, under every sequence of writes, the protection registers hold only legal
  values (addresses of 54 bits, no reserved configuration bit, no write without read outside
  the machine-mode lockdown, no four-byte region at a coarser granularity), and the reset
  state allows every access below 2^56.\<close>

theorem pmp_registers_legal:
  assumes "n_pmp s \<le> max_pmp" "2 \<le> lg_pmp_granularity s" "lg_pmp_granularity s < 64" "pmp_xlen s = 32 \<or> pmp_xlen s = 64"
  shows "pmp_typed (fold pmp_step ops (pmp_reset s))
    \<and> (0 < len \<longrightarrow> unat addr + len \<le> 2 ^ 56 \<longrightarrow> pmp_ok addr len type mode (pmp_reset s))"
proof
  have "pmp_typed t \<Longrightarrow> pmp_typed (fold pmp_step ops t)" for t
    by (induction ops arbitrary: t) (simp_all add: pmp_typed_step)
  then show "pmp_typed (fold pmp_step ops (pmp_reset s))" using pmp_reset_typed [OF assms] by blast
  have "pmp_wf (pmp_reset s)" using pmp_reset_typed [OF assms] by (simp add: pmp_typed_def)
  moreover have "n_pmp (pmp_reset s) = 0" if "n_pmp s = 0" using that by (simp add: pmp_reset_def)
  ultimately show "0 < len \<longrightarrow> unat addr + len \<le> 2 ^ 56 \<longrightarrow> pmp_ok addr len type mode (pmp_reset s)"
    using pmp_reset_open [of s len addr type mode] assms(4) by (cases "n_pmp s = 0") (auto simp: pmp_ok_def)
qed

lemma pmp_registers_legal_witness:
  "pmp_typed (fold pmp_step [Write_Pmpcfg 0 0x12] (pmp_reset demo_pmp)) \<and> pmp_ok 0x80000002 8 STORE 0 (pmp_reset demo_pmp)"
  using pmp_registers_legal [of demo_pmp "[Write_Pmpcfg 0 0x12]" 8 "0x80000002" STORE 0] by (simp add: demo_pmp_def)

text \<open>A misaligned access is looked at only at its first byte and at every fourth after it, so its last
  bytes may lie where no entry allows them.\<close>

lemma misaligned_escapes:
  "pmp_ok 0x80000006 8 LOAD 1 demo_pmp \<and> \<not> pmp_spec 0x80000006 8 LOAD 1 demo_pmp \<and> \<not> pmp_ok 0x8000000C 1 LOAD 1 demo_pmp"
  by code_simp

end
