(* ===== verification/Spike_Trap.thy ===== *)
theory Spike_Trap
  imports Spike_MMU
begin

text \<open>
  The privileged machine of the simulator on a 64-bit hart, with the supervisor and hypervisor
  modes: the status and delegation registers (\<open>csrs.cc\<close>), the choice of an interrupt, trap entry
  and changes of privilege (\<open>processor.cc\<close>), debug mode, and the instructions that return
  (\<open>mret\<close>, \<open>sret\<close>, \<open>mnret\<close>, \<open>dret\<close>), wait and call the environment.  \<open>hart_cfg\<close> holds what the
  code asks of the extensions (\<open>misa\<close> is not written here); \<open>hart_state\<close> the registers these
  functions read or write, as the values stored in the register objects.  No trigger counts
  instructions, and logging is not modelled.
\<close>

section \<open>Constants\<close>

abbreviation (input) MSTATUS_SIE :: u64 where "MSTATUS_SIE \<equiv> 0x2"
abbreviation (input) MSTATUS_MIE :: u64 where "MSTATUS_MIE \<equiv> 0x8"
abbreviation (input) MSTATUS_SPIE :: u64 where "MSTATUS_SPIE \<equiv> 0x20"
abbreviation (input) MSTATUS_UBE :: u64 where "MSTATUS_UBE \<equiv> 0x40"
abbreviation (input) MSTATUS_MPIE :: u64 where "MSTATUS_MPIE \<equiv> 0x80"
abbreviation (input) MSTATUS_SPP :: u64 where "MSTATUS_SPP \<equiv> 0x100"
abbreviation (input) MSTATUS_VS :: u64 where "MSTATUS_VS \<equiv> 0x600"
abbreviation (input) MSTATUS_MPP :: u64 where "MSTATUS_MPP \<equiv> 0x1800"
abbreviation (input) MSTATUS_FS :: u64 where "MSTATUS_FS \<equiv> 0x6000"
abbreviation (input) MSTATUS_XS :: u64 where "MSTATUS_XS \<equiv> 0x18000"
abbreviation (input) MSTATUS_MPRV :: u64 where "MSTATUS_MPRV \<equiv> 0x20000"
abbreviation (input) MSTATUS_SUM :: u64 where "MSTATUS_SUM \<equiv> 0x40000"
abbreviation (input) MSTATUS_MXR :: u64 where "MSTATUS_MXR \<equiv> 0x80000"
abbreviation (input) MSTATUS_TVM :: u64 where "MSTATUS_TVM \<equiv> 0x100000"
abbreviation (input) MSTATUS_TW :: u64 where "MSTATUS_TW \<equiv> 0x200000"
abbreviation (input) MSTATUS_TSR :: u64 where "MSTATUS_TSR \<equiv> 0x400000"
abbreviation (input) MSTATUS_GVA :: u64 where "MSTATUS_GVA \<equiv> 0x4000000000"
abbreviation (input) MSTATUS_MPV :: u64 where "MSTATUS_MPV \<equiv> 0x8000000000"
abbreviation (input) SSTATUS_UXL :: u64 where "SSTATUS_UXL \<equiv> 0x300000000"
abbreviation (input) SSTATUS64_SD :: u64 where "SSTATUS64_SD \<equiv> 0x8000000000000000"
abbreviation (input) HSTATUS_VTSR :: u64 where "HSTATUS_VTSR \<equiv> 0x400000"
abbreviation (input) HSTATUS_VTW :: u64 where "HSTATUS_VTW \<equiv> 0x200000"
abbreviation (input) HSTATUS_VTVM :: u64 where "HSTATUS_VTVM \<equiv> 0x100000"
abbreviation (input) HSTATUS_HU :: u64 where "HSTATUS_HU \<equiv> 0x200"
abbreviation (input) HSTATUS_SPVP :: u64 where "HSTATUS_SPVP \<equiv> 0x100"
abbreviation (input) HSTATUS_SPV :: u64 where "HSTATUS_SPV \<equiv> 0x80"
abbreviation (input) HSTATUS_GVA :: u64 where "HSTATUS_GVA \<equiv> 0x40"
abbreviation (input) MNSTATUS_NMIE :: u64 where "MNSTATUS_NMIE \<equiv> 0x8"
abbreviation (input) MNSTATUS_MNPV :: u64 where "MNSTATUS_MNPV \<equiv> 0x80"
abbreviation (input) MNSTATUS_MNPP :: u64 where "MNSTATUS_MNPP \<equiv> 0x1800"
abbreviation (input) MIP_SSIP :: u64 where "MIP_SSIP \<equiv> 0x2"
abbreviation (input) MIP_VSSIP :: u64 where "MIP_VSSIP \<equiv> 0x4"
abbreviation (input) MIP_MSIP :: u64 where "MIP_MSIP \<equiv> 0x8"
abbreviation (input) MIP_STIP :: u64 where "MIP_STIP \<equiv> 0x20"
abbreviation (input) MIP_VSTIP :: u64 where "MIP_VSTIP \<equiv> 0x40"
abbreviation (input) MIP_MTIP :: u64 where "MIP_MTIP \<equiv> 0x80"
abbreviation (input) MIP_SEIP :: u64 where "MIP_SEIP \<equiv> 0x200"
abbreviation (input) MIP_VSEIP :: u64 where "MIP_VSEIP \<equiv> 0x400"
abbreviation (input) MIP_MEIP :: u64 where "MIP_MEIP \<equiv> 0x800"
abbreviation (input) MIP_LCOFIP :: u64 where "MIP_LCOFIP \<equiv> 0x2000"
abbreviation (input) MIP_VS_MASK :: u64 where "MIP_VS_MASK \<equiv> 0x444"
abbreviation (input) MIP_HS_MASK :: u64 where "MIP_HS_MASK \<equiv> 0x1444"
abbreviation (input) IRQ_M_EXT :: nat where "IRQ_M_EXT \<equiv> 11"
abbreviation (input) IRQ_COP :: nat where "IRQ_COP \<equiv> 12"
abbreviation (input) PRV_U :: u64 where "PRV_U \<equiv> 0"
abbreviation (input) PRV_S :: u64 where "PRV_S \<equiv> 1"
abbreviation (input) PRV_HS :: u64 where "PRV_HS \<equiv> 2"
abbreviation (input) PRV_M :: u64 where "PRV_M \<equiv> 3"
abbreviation (input) CAUSE_BREAKPOINT :: u64 where "CAUSE_BREAKPOINT \<equiv> 3"
abbreviation (input) DEBUG_ROM_ENTRY :: u64 where "DEBUG_ROM_ENTRY \<equiv> 0x800"
abbreviation (input) DEBUG_ROM_TVEC :: u64 where "DEBUG_ROM_TVEC \<equiv> 0x808"

text \<open>The causes \<open>medeleg\<close> can delegate, those of the hypervisor, and those of \<open>hedeleg\<close>.\<close>

abbreviation (input) MEDELEG_MASK :: u64 where "MEDELEG_MASK \<equiv> 0xB3FF"
abbreviation (input) HYPERVISOR_EXCEPTIONS :: u64 where "HYPERVISOR_EXCEPTIONS \<equiv> 0xF00400"
abbreviation (input) HEDELEG_MASK :: u64 where "HEDELEG_MASK \<equiv> 0xB1FF"

section \<open>State\<close>

record hart_cfg =
  ext_u :: bool
  ext_s :: bool
  ext_h :: bool
  ext_f :: bool
  ext_v :: bool
  ext_zfinx :: bool
  ext_zca :: bool
  ext_sscofpmf :: bool
  ext_smrnmi :: bool
  any_custom_extensions :: bool
  impl_mmu :: bool

datatype step_t = STEP_NONE | STEP_STEPPING | STEP_STEPPED

record hart_state =
  pc :: u64
  prv :: u64
  v_mode :: bool
  prev_prv :: u64
  prev_v :: bool
  prv_changed :: bool
  v_changed :: bool
  debug_mode :: bool
  in_wfi :: bool
  tlb_flushes :: nat
  mstatus :: u64
  mepc :: u64
  mtvec :: u64
  mcause :: u64
  mtval :: u64
  mtval2 :: u64
  mtinst :: u64
  medeleg :: u64
  mideleg :: u64
  sepc :: u64
  stvec :: u64
  scause :: u64
  stval :: u64
  hstatus :: u64
  hedeleg :: u64
  hideleg :: u64
  htval :: u64
  htinst :: u64
  vsstatus :: u64
  vsepc :: u64
  vstvec :: u64
  vscause :: u64
  vstval :: u64
  mie :: u64
  mip :: u64
  mnstatus :: "u64 option"
  mnepc :: u64
  dpc :: u64
  dcsr_prv :: u64
  dcsr_v :: bool
  dcsr_cause :: u8
  dcsr_step :: bool
  dcsr_ebreakm :: bool
  dcsr_ebreaks :: bool
  dcsr_ebreaku :: bool
  dcsr_ebreakvs :: bool
  dcsr_ebreakvu :: bool
  dcsr_halt :: bool
  single_step :: step_t

record trap_t =
  trap_cause :: u64
  trap_gva :: bool
  trap_tval :: u64
  trap_tval2 :: u64
  trap_tinst :: u64

section \<open>Fields and registers\<close>

definition set_field :: "u64 \<Rightarrow> u64 \<Rightarrow> u64 \<Rightarrow> u64" where
  "set_field reg fld val = (reg AND NOT fld) OR ((val * (fld AND NOT (push_bit 1 fld))) AND fld)"

definition pc_alignment_mask :: "hart_cfg \<Rightarrow> u64" where
  "pc_alignment_mask cfg = NOT (if ext_zca cfg then 0 else 2)"

definition epc_write :: "u64 \<Rightarrow> u64" where "epc_write val = val AND NOT 1"
definition epc_read :: "hart_cfg \<Rightarrow> u64 \<Rightarrow> u64" where "epc_read cfg val = val AND pc_alignment_mask cfg"
definition tvec_write :: "u64 \<Rightarrow> u64" where "tvec_write val = val AND NOT 2"

definition has_page :: "hart_cfg \<Rightarrow> bool" where "has_page cfg = (ext_s cfg \<and> impl_mmu cfg)"

definition sstatus_write_mask :: "hart_cfg \<Rightarrow> u64" where
  "sstatus_write_mask cfg =
     (let has_fs = ((ext_s cfg \<or> ext_f cfg \<or> ext_v cfg) \<and> \<not> ext_zfinx cfg);
          has_vs = ext_v cfg
      in (if ext_s cfg then MSTATUS_SIE OR MSTATUS_SPIE OR MSTATUS_SPP else 0)
         OR (if has_page cfg then MSTATUS_SUM OR MSTATUS_MXR else 0)
         OR (if has_fs then MSTATUS_FS else 0)
         OR (if any_custom_extensions cfg then MSTATUS_XS else 0)
         OR (if has_vs then MSTATUS_VS else 0))"

definition sstatus_read_mask :: "hart_cfg \<Rightarrow> u64" where
  "sstatus_read_mask cfg = sstatus_write_mask cfg OR MSTATUS_UBE OR SSTATUS_UXL OR SSTATUS64_SD"

definition adjust_sd :: "u64 \<Rightarrow> u64" where
  "adjust_sd val =
     (if val AND MSTATUS_FS = MSTATUS_FS \<or> val AND MSTATUS_VS = MSTATUS_VS \<or> val AND MSTATUS_XS = MSTATUS_XS
      then val OR SSTATUS64_SD else val AND NOT SSTATUS64_SD)"

definition hart_flush_tlb :: "hart_state \<Rightarrow> hart_state" where
  "hart_flush_tlb s = s\<lparr>tlb_flushes := tlb_flushes s + 1\<rparr>"

definition maybe_flush_tlb :: "hart_cfg \<Rightarrow> u64 \<Rightarrow> u64 \<Rightarrow> hart_state \<Rightarrow> hart_state" where
  "maybe_flush_tlb cfg old new s =
     (if (new XOR old) AND (MSTATUS_MPP OR MSTATUS_MPRV OR (if has_page cfg then MSTATUS_MXR OR MSTATUS_SUM else 0)) \<noteq> 0
      then hart_flush_tlb s else s)"

text \<open>\<open>None\<close> is the failed assertion.\<close>

definition legalize_privilege :: "hart_cfg \<Rightarrow> u64 \<Rightarrow> u64 option" where
  "legalize_privilege cfg p =
     (if \<not> p \<le> PRV_M then None
      else if \<not> ext_u cfg then Some PRV_M
      else if p = PRV_HS \<or> p = PRV_S \<and> \<not> ext_s cfg then Some PRV_U
      else Some p)"

definition set_privilege :: "hart_cfg \<Rightarrow> u64 \<Rightarrow> bool \<Rightarrow> hart_state \<Rightarrow> hart_state option" where
  "set_privilege cfg p virt s =
     (let s1 = (hart_flush_tlb s)\<lparr>prev_prv := prv s, prev_v := v_mode s\<rparr>
      in case legalize_privilege cfg p of
           None \<Rightarrow> None
         | Some p' \<Rightarrow> Some (s1\<lparr>prv := p', v_mode := virt \<and> p' \<noteq> PRV_M,
              prv_changed := p' \<noteq> prv s, v_changed := (virt \<and> p' \<noteq> PRV_M) \<noteq> v_mode s\<rparr>))"

definition mstatus_write :: "hart_cfg \<Rightarrow> u64 \<Rightarrow> hart_state \<Rightarrow> hart_state option" where
  "mstatus_write cfg val s =
     (let has_mpv = ext_h cfg; has_gva = has_mpv;
          wmask = sstatus_write_mask cfg OR MSTATUS_MIE OR MSTATUS_MPIE
            OR (if ext_u cfg then MSTATUS_MPRV else 0) OR MSTATUS_MPP OR MSTATUS_TW
            OR (if ext_s cfg then MSTATUS_TSR else 0) OR (if has_page cfg then MSTATUS_TVM else 0)
            OR (if has_gva then MSTATUS_GVA else 0) OR (if has_mpv then MSTATUS_MPV else 0)
      in case legalize_privilege cfg (get_field val MSTATUS_MPP) of
           None \<Rightarrow> None
         | Some requested_mpp \<Rightarrow>
             let adjusted_val = set_field val MSTATUS_MPP requested_mpp;
                 new_mstatus = (mstatus s AND NOT wmask) OR (adjusted_val AND wmask)
             in Some ((maybe_flush_tlb cfg (mstatus s) new_mstatus s)\<lparr>mstatus := adjust_sd new_mstatus\<rparr>))"

definition nonvirtual_sstatus_read :: "hart_cfg \<Rightarrow> hart_state \<Rightarrow> u64" where
  "nonvirtual_sstatus_read cfg s = mstatus s AND sstatus_read_mask cfg"

definition nonvirtual_sstatus_write :: "hart_cfg \<Rightarrow> u64 \<Rightarrow> hart_state \<Rightarrow> hart_state option" where
  "nonvirtual_sstatus_write cfg val s =
     (let new_mstatus = (mstatus s AND NOT (sstatus_write_mask cfg)) OR (val AND sstatus_write_mask cfg)
      in if sstatus_write_mask cfg AND 0xFFFFFFFF = sstatus_write_mask cfg then mstatus_write cfg new_mstatus s else None)"

definition vsstatus_write :: "hart_cfg \<Rightarrow> u64 \<Rightarrow> hart_state \<Rightarrow> hart_state" where
  "vsstatus_write cfg val s =
     (let newval = (vsstatus s AND NOT (sstatus_write_mask cfg)) OR (val AND sstatus_write_mask cfg);
          s1 = (if v_mode s then maybe_flush_tlb cfg (vsstatus s) newval s else s)
      in s1\<lparr>vsstatus := adjust_sd newval\<rparr>)"

definition sstatus_read :: "hart_cfg \<Rightarrow> hart_state \<Rightarrow> u64" where
  "sstatus_read cfg s = (if v_mode s then vsstatus s else nonvirtual_sstatus_read cfg s)"

definition sstatus_write :: "hart_cfg \<Rightarrow> u64 \<Rightarrow> hart_state \<Rightarrow> hart_state option" where
  "sstatus_write cfg val s =
     (if v_mode s then Some (vsstatus_write cfg val s) else nonvirtual_sstatus_write cfg val s)"

definition sepc_read :: "hart_cfg \<Rightarrow> hart_state \<Rightarrow> u64" where
  "sepc_read cfg s = epc_read cfg (if v_mode s then vsepc s else sepc s)"

definition masked_write :: "u64 \<Rightarrow> u64 \<Rightarrow> u64 \<Rightarrow> u64" where
  "masked_write wmask old val = (old AND NOT wmask) OR (val AND wmask)"

definition hstatus_write :: "hart_cfg \<Rightarrow> u64 \<Rightarrow> hart_state \<Rightarrow> hart_state" where
  "hstatus_write cfg val s =
     s\<lparr>hstatus := masked_write (HSTATUS_VTSR OR HSTATUS_VTW OR (if impl_mmu cfg then HSTATUS_VTVM else 0)
        OR HSTATUS_HU OR HSTATUS_SPVP OR HSTATUS_SPV OR HSTATUS_GVA) (hstatus s) val\<rparr>"

definition mnstatus_write :: "hart_cfg \<Rightarrow> u64 \<Rightarrow> u64 \<Rightarrow> u64 option" where
  "mnstatus_write cfg old val =
     (let wmask = (NOT old AND MNSTATUS_NMIE) OR (if ext_h cfg then MNSTATUS_MNPV else 0) OR MNSTATUS_MNPP
      in case legalize_privilege cfg (get_field val MNSTATUS_MNPP) of
           None \<Rightarrow> None
         | Some requested_mnpp \<Rightarrow>
             let adjusted_val = set_field val MNSTATUS_MNPP requested_mnpp
             in Some ((old AND NOT wmask) OR (adjusted_val AND wmask)))"
section \<open>Delegation and interrupt registers\<close>

definition mideleg_read :: "hart_cfg \<Rightarrow> hart_state \<Rightarrow> u64" where
  "mideleg_read cfg s = (if ext_h cfg then mideleg s OR MIP_HS_MASK else mideleg s)"

definition mideleg_write :: "hart_cfg \<Rightarrow> u64 \<Rightarrow> hart_state \<Rightarrow> hart_state" where
  "mideleg_write cfg val s =
     (let supervisor_ints = (if ext_s cfg then MIP_SSIP OR MIP_STIP OR MIP_SEIP else 0);
          lscof_int = (if ext_sscofpmf cfg then MIP_LCOFIP else 0);
          coprocessor_ints = push_bit IRQ_COP (of_bool (any_custom_extensions cfg))
      in s\<lparr>mideleg := val AND (supervisor_ints OR coprocessor_ints OR lscof_int)\<rparr>)"

definition medeleg_write :: "hart_cfg \<Rightarrow> u64 \<Rightarrow> hart_state \<Rightarrow> hart_state" where
  "medeleg_write cfg val s =
     s\<lparr>medeleg := masked_write (MEDELEG_MASK OR (if ext_h cfg then HYPERVISOR_EXCEPTIONS else 0)) (medeleg s) val\<rparr>"

definition hideleg_read :: "hart_cfg \<Rightarrow> hart_state \<Rightarrow> u64" where
  "hideleg_read cfg s = hideleg s AND mideleg_read cfg s"

definition hideleg_write :: "hart_cfg \<Rightarrow> u64 \<Rightarrow> hart_state \<Rightarrow> hart_state" where
  "hideleg_write cfg val s = s\<lparr>hideleg := masked_write MIP_VS_MASK (hideleg_read cfg s) val\<rparr>"

definition hedeleg_write :: "u64 \<Rightarrow> hart_state \<Rightarrow> hart_state" where
  "hedeleg_write val s = s\<lparr>hedeleg := masked_write HEDELEG_MASK (hedeleg s) val\<rparr>"

definition mie_write :: "hart_cfg \<Rightarrow> u64 \<Rightarrow> hart_state \<Rightarrow> hart_state" where
  "mie_write cfg val s =
     (let supervisor_ints = (if ext_s cfg then MIP_SSIP OR MIP_STIP OR MIP_SEIP else 0);
          lscof_int = (if ext_sscofpmf cfg then MIP_LCOFIP else 0);
          hypervisor_ints = (if ext_h cfg then MIP_HS_MASK else 0);
          coprocessor_ints = push_bit IRQ_COP (of_bool (any_custom_extensions cfg));
          delegable_ints = supervisor_ints OR coprocessor_ints OR lscof_int;
          all_ints = delegable_ints OR hypervisor_ints OR MIP_MSIP OR MIP_MTIP OR MIP_MEIP
      in s\<lparr>mie := masked_write all_ints (mie s) val\<rparr>)"

text \<open>\<open>stce\<close> is the bit of \<open>menvcfg\<close> that makes the supervisor timer bit read-only.\<close>

definition mip_write :: "hart_cfg \<Rightarrow> bool \<Rightarrow> u64 \<Rightarrow> hart_state \<Rightarrow> hart_state" where
  "mip_write cfg stce val s =
     (let supervisor_ints = (if ext_s cfg then MIP_SSIP OR (if stce then 0 else MIP_STIP) OR MIP_SEIP else 0);
          lscof_int = (if ext_sscofpmf cfg then MIP_LCOFIP else 0);
          vssip_int = (if ext_h cfg then MIP_VSSIP else 0);
          hypervisor_ints = (if ext_h cfg then MIP_HS_MASK else 0)
      in s\<lparr>mip := masked_write ((supervisor_ints OR hypervisor_ints OR lscof_int)
           AND (MIP_SEIP OR MIP_SSIP OR MIP_STIP OR MIP_LCOFIP OR vssip_int)) (mip s) val\<rparr>)"

section \<open>Interrupts\<close>

text \<open>\<open>take_interrupt\<close> returns, throws a trap with the given cause, or calls \<open>abort\<close>.\<close>

datatype interrupt_result = No_Trap | Throw u64 | Abort_Sim

abbreviation (input) all_ones :: "bool \<Rightarrow> u64" where "all_ones b \<equiv> - of_bool b"

definition m_enabled_interrupts :: "hart_cfg \<Rightarrow> u64 \<Rightarrow> hart_state \<Rightarrow> u64" where
  "m_enabled_interrupts cfg pending s =
     (let mie = get_field (mstatus s) MSTATUS_MIE;
          m_enabled = (prv s < PRV_M \<or> prv s = PRV_M \<and> mie \<noteq> 0)
      in pending AND NOT (mideleg_read cfg s) AND all_ones m_enabled)"

definition enabled_interrupts :: "hart_cfg \<Rightarrow> u64 \<Rightarrow> hart_state \<Rightarrow> u64" where
  "enabled_interrupts cfg pending s =
     (let m = m_enabled_interrupts cfg pending s
      in if m = 0
         then let deleg_to_hs = mideleg_read cfg s AND NOT (hideleg_read cfg s);
                  sie = get_field (sstatus_read cfg s) MSTATUS_SIE;
                  hs_enabled = (v_mode s \<or> prv s < PRV_S \<or> prv s = PRV_S \<and> sie \<noteq> 0);
                  hs = pending AND deleg_to_hs AND all_ones hs_enabled
              in if v_mode s \<and> hs = 0
                 then let deleg_to_vs = hideleg_read cfg s;
                          vs_enabled = (prv s < PRV_S \<or> prv s = PRV_S \<and> sie \<noteq> 0)
                      in pending AND deleg_to_vs AND all_ones vs_enabled
                 else hs
         else m)"

definition select_interrupts :: "u64 \<Rightarrow> u64 option" where
  "select_interrupts enabled =
     (if drop_bit (IRQ_M_EXT + 1) enabled \<noteq> 0
      then Some (push_bit (IRQ_M_EXT + 1) (drop_bit (IRQ_M_EXT + 1) enabled))
      else if enabled AND MIP_MEIP \<noteq> 0 then Some MIP_MEIP
      else if enabled AND MIP_MSIP \<noteq> 0 then Some MIP_MSIP
      else if enabled AND MIP_MTIP \<noteq> 0 then Some MIP_MTIP
      else if enabled AND MIP_SEIP \<noteq> 0 then Some MIP_SEIP
      else if enabled AND MIP_SSIP \<noteq> 0 then Some MIP_SSIP
      else if enabled AND MIP_STIP \<noteq> 0 then Some MIP_STIP
      else if enabled AND MIP_LCOFIP \<noteq> 0 then Some MIP_LCOFIP
      else if enabled AND MIP_VSEIP \<noteq> 0 then Some MIP_VSEIP
      else if enabled AND MIP_VSSIP \<noteq> 0 then Some MIP_VSSIP
      else if enabled AND MIP_VSTIP \<noteq> 0 then Some MIP_VSTIP
      else None)"

definition nmie :: "hart_state \<Rightarrow> bool" where
  "nmie s = (case mnstatus s of None \<Rightarrow> True | Some mn \<Rightarrow> get_field mn MNSTATUS_NMIE \<noteq> 0)"

definition take_interrupt :: "hart_cfg \<Rightarrow> u64 \<Rightarrow> hart_state \<Rightarrow> hart_state \<times> interrupt_result" where
  "take_interrupt cfg pending s =
     (if pending = 0 then (s, No_Trap)
      else let s1 = s\<lparr>in_wfi := False\<rparr>;
               enabled = enabled_interrupts cfg pending s1
           in if \<not> debug_mode s1 \<and> nmie s1 \<and> enabled \<noteq> 0
              then (case select_interrupts enabled of
                      None \<Rightarrow> (s1, Abort_Sim)
                    | Some one \<Rightarrow> (s1, Throw (push_bit 63 1 OR of_nat (ctz one))))
              else (s1, No_Trap))"

definition take_pending_interrupt :: "hart_cfg \<Rightarrow> hart_state \<Rightarrow> hart_state \<times> interrupt_result" where
  "take_pending_interrupt cfg s = take_interrupt cfg (mip s AND mie s) s"

section \<open>Traps\<close>

definition trap_vector :: "u64 \<Rightarrow> bool \<Rightarrow> u64 \<Rightarrow> u64" where
  "trap_vector tvec interrupt code = (tvec AND NOT 1) + (if tvec AND 1 \<noteq> 0 \<and> interrupt then 4 * code else 0)"

definition push_sstatus :: "u64 \<Rightarrow> u64 \<Rightarrow> u64" where
  "push_sstatus s p =
     (let s1 = set_field s MSTATUS_SPIE (get_field s MSTATUS_SIE);
          s2 = set_field s1 MSTATUS_SPP p
      in set_field s2 MSTATUS_SIE 0)"

definition trap_to_vs :: "hart_cfg \<Rightarrow> trap_t \<Rightarrow> u64 \<Rightarrow> bool \<Rightarrow> u64 \<Rightarrow> hart_state \<Rightarrow> hart_state option" where
  "trap_to_vs cfg t epc interrupt code s =
     (let s1 = s\<lparr>pc := trap_vector (vstvec s) interrupt code,
                 vscause := (if interrupt then trap_cause t - 1 else trap_cause t),
                 vsepc := epc_write epc, vstval := trap_tval t\<rparr>
      in case sstatus_write cfg (push_sstatus (sstatus_read cfg s1) (prv s1)) s1 of
           None \<Rightarrow> None
         | Some s2 \<Rightarrow> set_privilege cfg PRV_S True s2)"

definition trap_to_hs :: "hart_cfg \<Rightarrow> trap_t \<Rightarrow> u64 \<Rightarrow> bool \<Rightarrow> u64 \<Rightarrow> hart_state \<Rightarrow> hart_state option" where
  "trap_to_hs cfg t epc interrupt code s =
     (let s1 = s\<lparr>pc := trap_vector (stvec s) interrupt code, scause := trap_cause t,
                 sepc := epc_write epc, stval := trap_tval t, htval := trap_tval2 t, htinst := trap_tinst t\<rparr>
      in case nonvirtual_sstatus_write cfg (push_sstatus (nonvirtual_sstatus_read cfg s1) (prv s1)) s1 of
           None \<Rightarrow> None
         | Some s2 \<Rightarrow>
             let s3 = (if ext_h cfg
                       then let h1 = hstatus s2;
                                h2 = (if v_mode s then set_field h1 HSTATUS_SPVP (prv s2) else h1);
                                h3 = set_field h2 HSTATUS_SPV (of_bool (v_mode s));
                                h4 = set_field h3 HSTATUS_GVA (of_bool (trap_gva t))
                            in hstatus_write cfg h4 s2
                       else s2)
             in set_privilege cfg PRV_S False s3)"

definition trap_to_m :: "hart_cfg \<Rightarrow> trap_t \<Rightarrow> u64 \<Rightarrow> bool \<Rightarrow> u64 \<Rightarrow> hart_state \<Rightarrow> hart_state option" where
  "trap_to_m cfg t epc interrupt code s =
     (let s1 = s\<lparr>pc := (if \<not> nmie s then 0 else trap_vector (mtvec s) interrupt code),
                 mepc := epc_write epc, mcause := trap_cause t, mtval := trap_tval t,
                 mtval2 := trap_tval2 t, mtinst := trap_tinst t\<rparr>;
          m1 = set_field (mstatus s1) MSTATUS_MPIE (get_field (mstatus s1) MSTATUS_MIE);
          m2 = set_field m1 MSTATUS_MPP (prv s1);
          m3 = set_field m2 MSTATUS_MIE 0;
          m4 = set_field m3 MSTATUS_MPV (of_bool (v_mode s));
          m5 = set_field m4 MSTATUS_GVA (of_bool (trap_gva t))
      in case mstatus_write cfg m5 s1 of
           None \<Rightarrow> None
         | Some s2 \<Rightarrow> set_privilege cfg PRV_M False s2)"

definition trap_interrupt :: "trap_t \<Rightarrow> bool" where "trap_interrupt t = (trap_cause t AND push_bit 63 1 \<noteq> 0)"
definition trap_code :: "trap_t \<Rightarrow> u64" where
  "trap_code t = (if trap_interrupt t then trap_cause t AND NOT (push_bit 63 1) else trap_cause t)"

definition vsdeleg :: "hart_cfg \<Rightarrow> trap_t \<Rightarrow> hart_state \<Rightarrow> u64" where
  "vsdeleg cfg t s =
     (if v_mode s \<and> prv s \<le> PRV_S
      then (if trap_interrupt t then hideleg_read cfg s else medeleg s AND hedeleg s) else 0)"

definition hsdeleg :: "hart_cfg \<Rightarrow> trap_t \<Rightarrow> hart_state \<Rightarrow> u64" where
  "hsdeleg cfg t s =
     (if prv s \<le> PRV_S then (if trap_interrupt t then mideleg_read cfg s else medeleg s) else 0)"

definition take_trap :: "hart_cfg \<Rightarrow> trap_t \<Rightarrow> u64 \<Rightarrow> hart_state \<Rightarrow> hart_state option" where
  "take_trap cfg t epc s =
     (if debug_mode s
      then Some (s\<lparr>pc := (if trap_cause t = CAUSE_BREAKPOINT then DEBUG_ROM_ENTRY else DEBUG_ROM_TVEC)\<rparr>)
      else let interrupt = trap_interrupt t; code = trap_code t
           in if prv s \<le> PRV_S \<and> code < 64 \<and> drop_bit (unat code) (vsdeleg cfg t s) AND 1 \<noteq> 0
              then trap_to_vs cfg t epc interrupt code s
              else if prv s \<le> PRV_S \<and> code < 64 \<and> drop_bit (unat code) (hsdeleg cfg t s) AND 1 \<noteq> 0
              then trap_to_hs cfg t epc interrupt code s
              else trap_to_m cfg t epc interrupt code s)"

definition enter_debug_mode :: "hart_cfg \<Rightarrow> u8 \<Rightarrow> hart_state \<Rightarrow> hart_state option" where
  "enter_debug_mode cfg cause s =
     (case set_privilege cfg PRV_M False
             (s\<lparr>debug_mode := True, dcsr_cause := cause, dcsr_prv := prv s, dcsr_v := v_mode s\<rparr>) of
        None \<Rightarrow> None
      | Some s1 \<Rightarrow> Some (s1\<lparr>dpc := epc_write (pc s1), pc := DEBUG_ROM_ENTRY, in_wfi := False\<rparr>))"
section \<open>Instructions\<close>

text \<open>An instruction is done, waits for an interrupt, raises the exception of the given cause (for
  \<open>Illegal\<close> and \<open>Virtual\<close> before it has changed anything), or runs into a failed assertion.\<close>

datatype exec_result = Done hart_state | Wait hart_state | Raise u64 | Illegal | Virtual | Aborted

definition insn_done :: "hart_state option \<Rightarrow> exec_result" where
  "insn_done r = (case r of None \<Rightarrow> Aborted | Some s \<Rightarrow> Done s)"

definition set_pc_and_serialize :: "hart_cfg \<Rightarrow> u64 \<Rightarrow> hart_state \<Rightarrow> hart_state" where
  "set_pc_and_serialize cfg x s = s\<lparr>pc := x AND pc_alignment_mask cfg\<rparr>"

definition mret :: "hart_cfg \<Rightarrow> hart_state \<Rightarrow> exec_result" where
  "mret cfg s =
     (if prv s < PRV_M then Illegal
      else let s1 = set_pc_and_serialize cfg (epc_read cfg (mepc s)) s;
               m = mstatus s1;
               prev = get_field m MSTATUS_MPP;
               prev_virt = get_field m MSTATUS_MPV;
               m1 = (if prev \<noteq> PRV_M then set_field m MSTATUS_MPRV 0 else m);
               m2 = set_field m1 MSTATUS_MIE (get_field m1 MSTATUS_MPIE);
               m3 = set_field m2 MSTATUS_MPIE 1;
               m4 = set_field m3 MSTATUS_MPP (if ext_u cfg then PRV_U else PRV_M);
               m5 = set_field m4 MSTATUS_MPV 0
           in case mstatus_write cfg m5 s1 of
                None \<Rightarrow> Aborted
              | Some s2 \<Rightarrow> insn_done (set_privilege cfg prev (prev_virt \<noteq> 0) s2))"

definition sret_permission :: "hart_cfg \<Rightarrow> hart_state \<Rightarrow> exec_result option" where
  "sret_permission cfg s =
     (if \<not> ext_s cfg then Some Illegal
      else if v_mode s
      then (if prv s = PRV_U \<or> get_field (hstatus s) HSTATUS_VTSR \<noteq> 0 then Some Virtual else None)
      else if prv s < (if get_field (mstatus s) MSTATUS_TSR \<noteq> 0 then PRV_M else PRV_S) then Some Illegal
      else None)"

definition pop_sstatus :: "u64 \<Rightarrow> u64" where
  "pop_sstatus m =
     (let m1 = set_field m MSTATUS_SIE (get_field m MSTATUS_SPIE);
          m2 = set_field m1 MSTATUS_SPIE 1
      in set_field m2 MSTATUS_SPP PRV_U)"

definition sret_leave :: "hart_cfg \<Rightarrow> u64 \<Rightarrow> hart_state \<Rightarrow> (hart_state \<times> bool) option" where
  "sret_leave cfg prev_hstatus s =
     (if \<not> v_mode s
      then let prev_virt = (if ext_h cfg then get_field prev_hstatus HSTATUS_SPV \<noteq> 0 else v_mode s);
               s1 = (if ext_h cfg then hstatus_write cfg (set_field prev_hstatus HSTATUS_SPV 0) s else s)
           in map_option (\<lambda>s2. (s2, prev_virt)) (mstatus_write cfg (set_field (mstatus s1) MSTATUS_MPRV 0) s1)
      else Some (s, v_mode s))"

definition sret :: "hart_cfg \<Rightarrow> hart_state \<Rightarrow> exec_result" where
  "sret cfg s =
     (case sret_permission cfg s of
        Some r \<Rightarrow> r
      | None \<Rightarrow>
          let s1 = set_pc_and_serialize cfg (sepc_read cfg s) s;
              m = sstatus_read cfg s1;
              prev = get_field m MSTATUS_SPP
          in case sstatus_write cfg (pop_sstatus m) s1 of
               None \<Rightarrow> Aborted
             | Some s2 \<Rightarrow>
                 (case sret_leave cfg (hstatus s) s2 of
                    None \<Rightarrow> Aborted
                  | Some (s3, prev_virt) \<Rightarrow> insn_done (set_privilege cfg prev prev_virt s3)))"

definition mnret :: "hart_cfg \<Rightarrow> hart_state \<Rightarrow> exec_result" where
  "mnret cfg s =
     (if \<not> ext_smrnmi cfg \<or> prv s < PRV_M then Illegal
      else case mnstatus s of
             None \<Rightarrow> Aborted
           | Some m \<Rightarrow>
               let s1 = set_pc_and_serialize cfg (epc_read cfg (mnepc s)) s;
                   prev = get_field m MNSTATUS_MNPP;
                   prev_virt = get_field m MNSTATUS_MNPV
               in case (if prev \<noteq> PRV_M then mstatus_write cfg (set_field (mstatus s1) MSTATUS_MPRV 0) s1 else Some s1) of
                    None \<Rightarrow> Aborted
                  | Some s2 \<Rightarrow>
                      (case mnstatus_write cfg m (set_field m MNSTATUS_NMIE 1) of
                         None \<Rightarrow> Aborted
                       | Some m' \<Rightarrow> insn_done (set_privilege cfg prev (prev_virt \<noteq> 0) (s2\<lparr>mnstatus := Some m'\<rparr>))))"

definition dret :: "hart_cfg \<Rightarrow> hart_state \<Rightarrow> exec_result" where
  "dret cfg s =
     (if \<not> debug_mode s then Illegal
      else case set_privilege cfg (dcsr_prv s) (dcsr_v s) (set_pc_and_serialize cfg (epc_read cfg (dpc s)) s) of
             None \<Rightarrow> Aborted
           | Some s1 \<Rightarrow>
               (case (if prv s1 < PRV_M then mstatus_write cfg (mstatus s1 AND NOT MSTATUS_MPRV) s1 else Some s1) of
                  None \<Rightarrow> Aborted
                | Some s2 \<Rightarrow> Done (s2\<lparr>debug_mode := False, single_step := (if dcsr_step s2 then STEP_STEPPING else single_step s2)\<rparr>)))"

definition wfi :: "hart_cfg \<Rightarrow> u64 \<Rightarrow> hart_state \<Rightarrow> exec_result" where
  "wfi cfg npc s =
     (let go = Wait ((set_pc_and_serialize cfg npc s)\<lparr>in_wfi := True\<rparr>)
      in if v_mode s \<and> prv s = PRV_U then Virtual
         else if get_field (mstatus s) MSTATUS_TW \<noteq> 0 then (if prv s \<ge> PRV_M then go else Illegal)
         else if v_mode s then (if get_field (hstatus s) HSTATUS_VTW \<noteq> 0 then Virtual else go)
         else if ext_s cfg then (if prv s \<ge> PRV_S then go else Illegal)
         else go)"

definition ecall :: "hart_state \<Rightarrow> exec_result" where
  "ecall s =
     (if prv s = PRV_U then Raise 8
      else if prv s = PRV_S then (if v_mode s then Raise 10 else Raise 9)
      else if prv s = PRV_M then Raise 11
      else Aborted)"

section \<open>Access to the registers\<close>

datatype csr_t =
    MSTATUS | MEPC | MTVEC | MCAUSE | MTVAL | MTVAL2 | MTINST | MEDELEG | MIDELEG | MIE | MIP
  | SSTATUS | SEPC | STVEC | SCAUSE | STVAL | SIE | SIP
  | HSTATUS | HEDELEG | HIDELEG | HIE | HIP | HVIP | HTVAL | HTINST
  | VSSTATUS | VSEPC | VSTVEC | VSCAUSE | VSTVAL | VSIE | VSIP
  | MNSTATUS | MNEPC | DCSR | DPC

fun csr_address :: "csr_t \<Rightarrow> u64" where
  "csr_address MSTATUS = 0x300"
| "csr_address MEDELEG = 0x302"
| "csr_address MIDELEG = 0x303"
| "csr_address MIE = 0x304"
| "csr_address MTVEC = 0x305"
| "csr_address MEPC = 0x341"
| "csr_address MCAUSE = 0x342"
| "csr_address MTVAL = 0x343"
| "csr_address MIP = 0x344"
| "csr_address MTINST = 0x34A"
| "csr_address MTVAL2 = 0x34B"
| "csr_address SSTATUS = 0x100"
| "csr_address SIE = 0x104"
| "csr_address STVEC = 0x105"
| "csr_address SEPC = 0x141"
| "csr_address SCAUSE = 0x142"
| "csr_address STVAL = 0x143"
| "csr_address SIP = 0x144"
| "csr_address VSSTATUS = 0x200"
| "csr_address VSIE = 0x204"
| "csr_address VSTVEC = 0x205"
| "csr_address VSEPC = 0x241"
| "csr_address VSCAUSE = 0x242"
| "csr_address VSTVAL = 0x243"
| "csr_address VSIP = 0x244"
| "csr_address HSTATUS = 0x600"
| "csr_address HEDELEG = 0x602"
| "csr_address HIDELEG = 0x603"
| "csr_address HIE = 0x604"
| "csr_address HTVAL = 0x643"
| "csr_address HIP = 0x644"
| "csr_address HVIP = 0x645"
| "csr_address HTINST = 0x64A"
| "csr_address MNEPC = 0x741"
| "csr_address MNSTATUS = 0x744"
| "csr_address DCSR = 0x7B0"
| "csr_address DPC = 0x7B1"

definition csr_exists :: "hart_cfg \<Rightarrow> csr_t \<Rightarrow> bool" where
  "csr_exists cfg r = (if r = MNSTATUS \<or> r = MNEPC then ext_smrnmi cfg else True)"

definition csr_priv :: "csr_t \<Rightarrow> u64" where "csr_priv r = get_field (csr_address r) 0x300"
definition csr_read_only :: "csr_t \<Rightarrow> bool" where "csr_read_only r = (get_field (csr_address r) 0xC00 = 3)"

text \<open>\<open>None\<close> is permission; the second definition has the checks single registers add.\<close>

definition csr_verify_permissions :: "hart_cfg \<Rightarrow> csr_t \<Rightarrow> bool \<Rightarrow> hart_state \<Rightarrow> exec_result option" where
  "csr_verify_permissions cfg r write_csr s =
     (let priv = (if prv s = PRV_S \<and> \<not> v_mode s then PRV_HS else prv s)
      in if csr_priv r = PRV_S \<and> \<not> ext_s cfg \<or> csr_priv r = PRV_HS \<and> \<not> ext_h cfg then Some Illegal
         else if write_csr \<and> csr_read_only r then Some Illegal
         else if priv < csr_priv r then (if v_mode s \<and> csr_priv r \<le> PRV_HS then Some Virtual else Some Illegal)
         else None)"

definition verify_permissions :: "hart_cfg \<Rightarrow> csr_t \<Rightarrow> bool \<Rightarrow> hart_state \<Rightarrow> exec_result option" where
  "verify_permissions cfg r write_csr s =
     (case csr_verify_permissions cfg r write_csr s of
        Some e \<Rightarrow> Some e
      | None \<Rightarrow>
          if (r = MEDELEG \<or> r = MIDELEG) \<and> \<not> ext_s cfg then Some Illegal
          else if (r = MTVAL2 \<or> r = MTINST) \<and> \<not> ext_h cfg then Some Illegal
          else if (r = DCSR \<or> r = DPC) \<and> \<not> debug_mode s then Some Illegal
          else None)"
text \<open>The views of the interrupt registers the lower modes have.\<close>

record generic_int_accessor_t =
  read_mask :: u64
  ip_write_mask :: u64
  ie_write_mask :: u64
  mask_mideleg :: bool
  mask_hideleg :: bool
  shiftamt :: nat

definition sip_sie_accr :: generic_int_accessor_t where
  "sip_sie_accr = \<lparr>read_mask = NOT MIP_HS_MASK, ip_write_mask = MIP_SSIP OR MIP_LCOFIP, ie_write_mask = NOT MIP_HS_MASK,
     mask_mideleg = True, mask_hideleg = False, shiftamt = 0\<rparr>"

definition hip_hie_accr :: generic_int_accessor_t where
  "hip_hie_accr = \<lparr>read_mask = MIP_HS_MASK, ip_write_mask = MIP_VSSIP, ie_write_mask = MIP_HS_MASK,
     mask_mideleg = True, mask_hideleg = False, shiftamt = 0\<rparr>"

definition hvip_accr :: generic_int_accessor_t where
  "hvip_accr = \<lparr>read_mask = MIP_VS_MASK, ip_write_mask = MIP_VS_MASK, ie_write_mask = MIP_VS_MASK,
     mask_mideleg = False, mask_hideleg = False, shiftamt = 0\<rparr>"

definition vsip_vsie_accr :: generic_int_accessor_t where
  "vsip_vsie_accr = \<lparr>read_mask = MIP_VS_MASK, ip_write_mask = MIP_VSSIP, ie_write_mask = MIP_VS_MASK,
     mask_mideleg = False, mask_hideleg = True, shiftamt = 1\<rparr>"

definition deleg_mask :: "hart_cfg \<Rightarrow> generic_int_accessor_t \<Rightarrow> hart_state \<Rightarrow> u64" where
  "deleg_mask cfg a s =
     (if mask_hideleg a then hideleg_read cfg s else NOT 0) AND (if mask_mideleg a then mideleg_read cfg s else NOT 0)"

definition ip_read :: "hart_cfg \<Rightarrow> generic_int_accessor_t \<Rightarrow> hart_state \<Rightarrow> u64" where
  "ip_read cfg a s = drop_bit (shiftamt a) (mip s AND deleg_mask cfg a s AND read_mask a)"

definition ie_read :: "hart_cfg \<Rightarrow> generic_int_accessor_t \<Rightarrow> hart_state \<Rightarrow> u64" where
  "ie_read cfg a s = drop_bit (shiftamt a) (mie s AND deleg_mask cfg a s AND read_mask a)"

definition ip_write :: "hart_cfg \<Rightarrow> generic_int_accessor_t \<Rightarrow> u64 \<Rightarrow> hart_state \<Rightarrow> hart_state" where
  "ip_write cfg a val s = s\<lparr>mip := masked_write (deleg_mask cfg a s AND ip_write_mask a) (mip s) (push_bit (shiftamt a) val)\<rparr>"

definition ie_write :: "hart_cfg \<Rightarrow> generic_int_accessor_t \<Rightarrow> u64 \<Rightarrow> hart_state \<Rightarrow> hart_state" where
  "ie_write cfg a val s = s\<lparr>mie := masked_write (deleg_mask cfg a s AND ie_write_mask a) (mie s) (push_bit (shiftamt a) val)\<rparr>"

definition dcsr_read :: "hart_state \<Rightarrow> u64" where
  "dcsr_read s =
     (let r0 = set_field 0 0xC0000000 1;
          r1 = set_field r0 0x8000 (of_bool (dcsr_ebreakm s));
          r2 = set_field r1 0x2000 (of_bool (dcsr_ebreaks s));
          r3 = set_field r2 0x1000 (of_bool (dcsr_ebreaku s));
          r4 = set_field r3 0x20000 (of_bool (dcsr_ebreakvs s));
          r5 = set_field r4 0x10000 (of_bool (dcsr_ebreakvu s));
          r6 = set_field r5 0x400 0;
          r7 = set_field r6 0x200 0;
          r8 = set_field r7 0x1C0 (ucast (dcsr_cause s));
          r9 = set_field r8 0x4 (of_bool (dcsr_step s));
          r10 = set_field r9 0x3 (dcsr_prv s)
      in set_field r10 0x20 (of_bool (dcsr_v s)))"

definition dcsr_write :: "hart_cfg \<Rightarrow> u64 \<Rightarrow> hart_state \<Rightarrow> hart_state" where
  "dcsr_write cfg val s =
     s\<lparr>dcsr_prv := get_field val 0x3, dcsr_step := get_field val 0x4 \<noteq> 0,
       dcsr_ebreakm := get_field val 0x8000 \<noteq> 0, dcsr_ebreaks := get_field val 0x2000 \<noteq> 0,
       dcsr_ebreaku := get_field val 0x1000 \<noteq> 0, dcsr_ebreakvs := get_field val 0x20000 \<noteq> 0,
       dcsr_ebreakvu := get_field val 0x10000 \<noteq> 0, dcsr_halt := get_field val 0x8 \<noteq> 0,
       dcsr_v := (if ext_h cfg then get_field val 0x20 \<noteq> 0 else False)\<rparr>"

text \<open>Reads and writes by register; a write yields \<open>None\<close> on a failed assertion.\<close>

fun csr_read :: "hart_cfg \<Rightarrow> csr_t \<Rightarrow> hart_state \<Rightarrow> u64" where
  "csr_read cfg MSTATUS s = mstatus s"
| "csr_read cfg MEPC s = epc_read cfg (mepc s)"
| "csr_read cfg MTVEC s = mtvec s"
| "csr_read cfg MCAUSE s = mcause s"
| "csr_read cfg MTVAL s = mtval s"
| "csr_read cfg MTVAL2 s = mtval2 s"
| "csr_read cfg MTINST s = mtinst s"
| "csr_read cfg MEDELEG s = medeleg s"
| "csr_read cfg MIDELEG s = mideleg_read cfg s"
| "csr_read cfg MIE s = mie s"
| "csr_read cfg MIP s = mip s"
| "csr_read cfg SSTATUS s = sstatus_read cfg s"
| "csr_read cfg SEPC s = sepc_read cfg s"
| "csr_read cfg STVEC s = (if v_mode s then vstvec s else stvec s)"
| "csr_read cfg SCAUSE s = (if v_mode s then vscause s else scause s)"
| "csr_read cfg STVAL s = (if v_mode s then vstval s else stval s)"
| "csr_read cfg SIE s = (if v_mode s then ie_read cfg vsip_vsie_accr s else ie_read cfg sip_sie_accr s)"
| "csr_read cfg SIP s = (if v_mode s then ip_read cfg vsip_vsie_accr s else ip_read cfg sip_sie_accr s)"
| "csr_read cfg HSTATUS s = hstatus s"
| "csr_read cfg HEDELEG s = hedeleg s"
| "csr_read cfg HIDELEG s = hideleg_read cfg s"
| "csr_read cfg HIE s = ie_read cfg hip_hie_accr s"
| "csr_read cfg HIP s = ip_read cfg hip_hie_accr s"
| "csr_read cfg HVIP s = ip_read cfg hvip_accr s"
| "csr_read cfg HTVAL s = htval s"
| "csr_read cfg HTINST s = htinst s"
| "csr_read cfg VSSTATUS s = vsstatus s"
| "csr_read cfg VSEPC s = epc_read cfg (vsepc s)"
| "csr_read cfg VSTVEC s = vstvec s"
| "csr_read cfg VSCAUSE s = vscause s"
| "csr_read cfg VSTVAL s = vstval s"
| "csr_read cfg VSIE s = ie_read cfg vsip_vsie_accr s"
| "csr_read cfg VSIP s = ip_read cfg vsip_vsie_accr s"
| "csr_read cfg MNSTATUS s = (case mnstatus s of None \<Rightarrow> 0 | Some m \<Rightarrow> m)"
| "csr_read cfg MNEPC s = epc_read cfg (mnepc s)"
| "csr_read cfg DCSR s = dcsr_read s"
| "csr_read cfg DPC s = epc_read cfg (dpc s)"

fun csr_write :: "hart_cfg \<Rightarrow> bool \<Rightarrow> csr_t \<Rightarrow> u64 \<Rightarrow> hart_state \<Rightarrow> hart_state option" where
  "csr_write cfg stce MSTATUS val s = mstatus_write cfg val s"
| "csr_write cfg stce MEPC val s = Some (s\<lparr>mepc := epc_write val\<rparr>)"
| "csr_write cfg stce MTVEC val s = Some (s\<lparr>mtvec := tvec_write val\<rparr>)"
| "csr_write cfg stce MCAUSE val s = Some (s\<lparr>mcause := val\<rparr>)"
| "csr_write cfg stce MTVAL val s = Some (s\<lparr>mtval := val\<rparr>)"
| "csr_write cfg stce MTVAL2 val s = Some (s\<lparr>mtval2 := val\<rparr>)"
| "csr_write cfg stce MTINST val s = Some (s\<lparr>mtinst := val\<rparr>)"
| "csr_write cfg stce MEDELEG val s = Some (medeleg_write cfg val s)"
| "csr_write cfg stce MIDELEG val s = Some (mideleg_write cfg val s)"
| "csr_write cfg stce MIE val s = Some (mie_write cfg val s)"
| "csr_write cfg stce MIP val s = Some (mip_write cfg stce val s)"
| "csr_write cfg stce SSTATUS val s = sstatus_write cfg val s"
| "csr_write cfg stce SEPC val s = Some (if v_mode s then s\<lparr>vsepc := epc_write val\<rparr> else s\<lparr>sepc := epc_write val\<rparr>)"
| "csr_write cfg stce STVEC val s = Some (if v_mode s then s\<lparr>vstvec := tvec_write val\<rparr> else s\<lparr>stvec := tvec_write val\<rparr>)"
| "csr_write cfg stce SCAUSE val s = Some (if v_mode s then s\<lparr>vscause := val\<rparr> else s\<lparr>scause := val\<rparr>)"
| "csr_write cfg stce STVAL val s = Some (if v_mode s then s\<lparr>vstval := val\<rparr> else s\<lparr>stval := val\<rparr>)"
| "csr_write cfg stce SIE val s = Some (if v_mode s then ie_write cfg vsip_vsie_accr val s else ie_write cfg sip_sie_accr val s)"
| "csr_write cfg stce SIP val s = Some (if v_mode s then ip_write cfg vsip_vsie_accr val s else ip_write cfg sip_sie_accr val s)"
| "csr_write cfg stce HSTATUS val s = Some (hstatus_write cfg val s)"
| "csr_write cfg stce HEDELEG val s = Some (hedeleg_write val s)"
| "csr_write cfg stce HIDELEG val s = Some (hideleg_write cfg val s)"
| "csr_write cfg stce HIE val s = Some (ie_write cfg hip_hie_accr val s)"
| "csr_write cfg stce HIP val s = Some (ip_write cfg hip_hie_accr val s)"
| "csr_write cfg stce HVIP val s = Some (ip_write cfg hvip_accr val s)"
| "csr_write cfg stce HTVAL val s = Some (s\<lparr>htval := val\<rparr>)"
| "csr_write cfg stce HTINST val s = Some (s\<lparr>htinst := val\<rparr>)"
| "csr_write cfg stce VSSTATUS val s = Some (vsstatus_write cfg val s)"
| "csr_write cfg stce VSEPC val s = Some (s\<lparr>vsepc := epc_write val\<rparr>)"
| "csr_write cfg stce VSTVEC val s = Some (s\<lparr>vstvec := tvec_write val\<rparr>)"
| "csr_write cfg stce VSCAUSE val s = Some (s\<lparr>vscause := val\<rparr>)"
| "csr_write cfg stce VSTVAL val s = Some (s\<lparr>vstval := val\<rparr>)"
| "csr_write cfg stce VSIE val s = Some (ie_write cfg vsip_vsie_accr val s)"
| "csr_write cfg stce VSIP val s = Some (ip_write cfg vsip_vsie_accr val s)"
| "csr_write cfg stce MNSTATUS val s =
     (case mnstatus s of None \<Rightarrow> None | Some m \<Rightarrow> map_option (\<lambda>m'. s\<lparr>mnstatus := Some m'\<rparr>) (mnstatus_write cfg m val))"
| "csr_write cfg stce MNEPC val s = Some (s\<lparr>mnepc := epc_write val\<rparr>)"
| "csr_write cfg stce DCSR val s = Some (dcsr_write cfg val s)"
| "csr_write cfg stce DPC val s = Some (s\<lparr>dpc := epc_write val\<rparr>)"

text \<open>The instructions that read and write a register; \<open>csrrw\<close>, \<open>csrrs\<close> and \<open>csrrc\<close> differ in the
  new value and in whether they write, their forms with an immediate in where the operand comes
  from.  The old value goes to the destination register.\<close>

definition get_csr :: "hart_cfg \<Rightarrow> csr_t \<Rightarrow> bool \<Rightarrow> hart_state \<Rightarrow> exec_result + u64" where
  "get_csr cfg r write_csr s =
     (if csr_exists cfg r
      then (case verify_permissions cfg r write_csr s of Some e \<Rightarrow> Inl e | None \<Rightarrow> Inr (csr_read cfg r s))
      else Inl Illegal)"

definition put_csr :: "hart_cfg \<Rightarrow> bool \<Rightarrow> csr_t \<Rightarrow> u64 \<Rightarrow> hart_state \<Rightarrow> hart_state option" where
  "put_csr cfg stce r val s = (if csr_exists cfg r then csr_write cfg stce r val s else Some s)"

definition csrrw :: "hart_cfg \<Rightarrow> bool \<Rightarrow> csr_t \<Rightarrow> u64 \<Rightarrow> hart_state \<Rightarrow> exec_result" where
  "csrrw cfg stce r rs1 s =
     (case get_csr cfg r True s of Inl e \<Rightarrow> e | Inr old \<Rightarrow> insn_done (put_csr cfg stce r rs1 s))"

definition csrrs :: "hart_cfg \<Rightarrow> bool \<Rightarrow> csr_t \<Rightarrow> bool \<Rightarrow> u64 \<Rightarrow> hart_state \<Rightarrow> exec_result" where
  "csrrs cfg stce r rs1_nonzero rs1 s =
     (case get_csr cfg r rs1_nonzero s of
        Inl e \<Rightarrow> e
      | Inr old \<Rightarrow> if rs1_nonzero then insn_done (put_csr cfg stce r (old OR rs1) s) else Done s)"

definition csrrc :: "hart_cfg \<Rightarrow> bool \<Rightarrow> csr_t \<Rightarrow> bool \<Rightarrow> u64 \<Rightarrow> hart_state \<Rightarrow> exec_result" where
  "csrrc cfg stce r rs1_nonzero rs1 s =
     (case get_csr cfg r rs1_nonzero s of
        Inl e \<Rightarrow> e
      | Inr old \<Rightarrow> if rs1_nonzero then insn_done (put_csr cfg stce r (old AND NOT rs1) s) else Done s)"

text \<open>The part of \<open>step\<close> that takes an interrupt: the trap it throws is caught at the pc.\<close>

definition plain_trap :: "u64 \<Rightarrow> trap_t" where
  "plain_trap c = \<lparr>trap_cause = c, trap_gva = False, trap_tval = 0, trap_tval2 = 0, trap_tinst = 0\<rparr>"

definition interrupt_step :: "hart_cfg \<Rightarrow> hart_state \<Rightarrow> hart_state option" where
  "interrupt_step cfg s =
     (case take_pending_interrupt cfg s of
        (s1, No_Trap) \<Rightarrow> Some s1
      | (s1, Throw c) \<Rightarrow> take_trap cfg (plain_trap c) (pc s1) s1
      | (s1, Abort_Sim) \<Rightarrow> None)"

section \<open>Reset\<close>

definition mstatus_initial_value :: "hart_cfg \<Rightarrow> u64" where
  "mstatus_initial_value cfg =
     set_field 0 MSTATUS_MPP (if ext_u cfg then PRV_U else PRV_M)
     OR (if ext_u cfg then set_field 0 0x300000000 2 else 0)
     OR (if ext_s cfg then set_field 0 0xC00000000 2 else 0)"

definition hart_reset :: "hart_cfg \<Rightarrow> hart_state" where
  "hart_reset cfg =
     \<lparr>pc = 0x1000, prv = PRV_M, v_mode = False, prev_prv = PRV_M, prev_v = False, prv_changed = False, v_changed = False,
      debug_mode = False, in_wfi = False, tlb_flushes = 0,
      mstatus = mstatus_initial_value cfg, mepc = 0, mtvec = 0, mcause = 0, mtval = 0, mtval2 = 0, mtinst = 0,
      medeleg = 0, mideleg = 0, sepc = 0, stvec = 0, scause = 0, stval = 0,
      hstatus = set_field 0 0x300000000 2, hedeleg = 0, hideleg = 0, htval = 0, htinst = 0,
      vsstatus = mstatus_initial_value cfg AND sstatus_read_mask cfg, vsepc = 0, vstvec = 0, vscause = 0, vstval = 0,
      mie = 0, mip = 0, mnstatus = (if ext_smrnmi cfg then Some 0 else None), mnepc = 0, dpc = 0,
      dcsr_prv = 0, dcsr_v = False, dcsr_cause = 0, dcsr_step = False, dcsr_ebreakm = False, dcsr_ebreaks = False,
      dcsr_ebreaku = False, dcsr_ebreakvs = False, dcsr_ebreakvu = False, dcsr_halt = False, single_step = STEP_NONE\<rparr>"

end
