(* ===== verification/Spike_Privilege.thy ===== *)
theory Spike_Privilege
  imports Spike_Trap
begin

text \<open>
  The properties of the privileged machine of \<open>Spike_Trap\<close>: fields and status registers bit by bit, the
  legality invariant \<open>hart_ok\<close> of every register, the order of interrupts, what a trap writes and a
  return restores, and the state that the user and supervisor modes cannot change.
\<close>

section \<open>Fields\<close>

lemma field_unit:
  assumes "0 < n" "k + n \<le> 64"
  shows "push_bit k (mask n) AND NOT (push_bit 1 (push_bit k (mask n))) = (2 ^ k :: u64)"
proof (rule bit_word_eqI)
  fix i :: nat assume "i < LENGTH(64)"
  then show "bit (push_bit k (mask n) AND NOT (push_bit 1 (push_bit k (mask n))) :: u64) i \<longleftrightarrow> bit (2 ^ k :: u64) i"
    using assms unfolding bit_and_iff bit_not_iff bit_push_bit_iff bit_mask_iff bit_exp_iff by auto
qed

lemma get_field_range:
  assumes "0 < n" "k + n \<le> 64"
  shows "get_field reg (push_bit k (mask n)) = take_bit n (drop_bit k reg)"
proof -
  have "(x :: u64) div 2 ^ k = drop_bit k x" for x by (simp add: drop_bit_eq_div)
  then have "get_field reg (push_bit k (mask n)) = drop_bit k (reg AND push_bit k (mask n))"
    unfolding get_field_def field_unit [OF assms] .
  also have "\<dots> = take_bit n (drop_bit k reg)"
    using assms by (intro bit_word_eqI) (auto simp: bit_simps dest: bit_imp_le_length)
  finally show ?thesis .
qed

lemma bit_set_field_range:
  assumes "0 < n" "k + n \<le> 64"
  shows "bit (set_field reg (push_bit k (mask n)) val) i \<longleftrightarrow> (if k \<le> i \<and> i < k + n then bit val (i - k) else bit reg i)"
proof -
  have "(val :: u64) * 2 ^ k = push_bit k val" by (simp add: push_bit_eq_mult)
  then have "set_field reg (push_bit k (mask n)) val = (reg AND NOT (push_bit k (mask n))) OR (push_bit k val AND push_bit k (mask n))"
    unfolding set_field_def field_unit [OF assms] by simp
  then show ?thesis
    using assms by (auto simp: bit_simps dest: bit_imp_le_length)
qed

text \<open>The fields the code uses.\<close>

lemma status_field_masks:
  "(0x2 :: u64) = push_bit 1 (mask 1)" "(0x8 :: u64) = push_bit 3 (mask 1)" "(0x20 :: u64) = push_bit 5 (mask 1)"
  "(0x80 :: u64) = push_bit 7 (mask 1)" "(0x100 :: u64) = push_bit 8 (mask 1)" "(0x1800 :: u64) = push_bit 11 (mask 2)"
  "(0x20000 :: u64) = push_bit 17 (mask 1)" "(0x200000 :: u64) = push_bit 21 (mask 1)" "(0x400000 :: u64) = push_bit 22 (mask 1)"
  "(0x4000000000 :: u64) = push_bit 38 (mask 1)" "(0x8000000000 :: u64) = push_bit 39 (mask 1)" "(0x40 :: u64) = push_bit 6 (mask 1)"
  "(0x3 :: u64) = push_bit 0 (mask 2)" "(0x300 :: u64) = push_bit 8 (mask 2)"
  by (simp_all add: mask_eq_exp_minus_1)

lemma take_bit_1_drop: "take_bit 1 (drop_bit k x) = (of_bool (bit x k) :: u64)"
proof -
  have "take_bit 1 y = (of_bool (odd y) :: u64)" for y :: u64
    using take_bit_Suc [of 0 y] by (simp add: mod_2_eq_odd)
  then show ?thesis by (simp add: bit_iff_odd_drop_bit)
qed

lemma get_flag [simp]:
  "get_field r 0x2 = of_bool (bit r 1)" "get_field r 0x8 = of_bool (bit r 3)" "get_field r 0x20 = of_bool (bit r 5)"
  "get_field r 0x80 = of_bool (bit r 7)" "get_field r 0x100 = of_bool (bit r 8)" "get_field r 0x1800 = take_bit 2 (drop_bit 11 r)"
  "get_field r 0x20000 = of_bool (bit r 17)" "get_field r 0x200000 = of_bool (bit r 21)" "get_field r 0x400000 = of_bool (bit r 22)"
  "get_field r 0x4000000000 = of_bool (bit r 38)" "get_field r 0x8000000000 = of_bool (bit r 39)" "get_field r 0x40 = of_bool (bit r 6)"
  "get_field r 0x3 = take_bit 2 r" "get_field r 0x300 = take_bit 2 (drop_bit 8 r)"
  unfolding status_field_masks by (simp_all only: get_field_range take_bit_1_drop) simp_all

lemma bit_set_flag [simp]:
  "bit (set_field r 0x2 x) i \<longleftrightarrow> (if i = 1 then odd x else bit r i)"
  "bit (set_field r 0x8 x) i \<longleftrightarrow> (if i = 3 then odd x else bit r i)"
  "bit (set_field r 0x20 x) i \<longleftrightarrow> (if i = 5 then odd x else bit r i)"
  "bit (set_field r 0x40 x) i \<longleftrightarrow> (if i = 6 then odd x else bit r i)"
  "bit (set_field r 0x80 x) i \<longleftrightarrow> (if i = 7 then odd x else bit r i)"
  "bit (set_field r 0x100 x) i \<longleftrightarrow> (if i = 8 then odd x else bit r i)"
  "bit (set_field r 0x1800 x) i \<longleftrightarrow> (if i = 11 then odd x else if i = 12 then bit x 1 else bit r i)"
  "bit (set_field r 0x20000 x) i \<longleftrightarrow> (if i = 17 then odd x else bit r i)"
  "bit (set_field r 0x4000000000 x) i \<longleftrightarrow> (if i = 38 then odd x else bit r i)"
  "bit (set_field r 0x8000000000 x) i \<longleftrightarrow> (if i = 39 then odd x else bit r i)"
  unfolding status_field_masks by (auto simp only: bit_set_field_range split: if_splits) (auto simp: bit_0 le_Suc_eq dest!: le_antisym)

section \<open>The choice of an interrupt\<close>

text \<open>Reference: the mode an interrupt is for follows from the delegation registers; a mode takes
  interrupts in less privileged modes, and in its own when enabled there; the most privileged
  mode with a candidate wins, and in it the first of the documented priority order: the
  non-standard sources (12 and those from 14), then MEI, MSI, MTI, SEI, SSI, STI, then the
  counter overflow LCOFI (13), then VSEI, VSSI, VSTI.\<close>

datatype irq_mode = To_M | To_HS | To_VS

definition irq_dest :: "hart_cfg \<Rightarrow> hart_state \<Rightarrow> nat \<Rightarrow> irq_mode" where
  "irq_dest cfg s i =
     (if \<not> bit (mideleg_read cfg s) i then To_M else if \<not> bit (hideleg_read cfg s) i then To_HS else To_VS)"

definition mode_open :: "hart_cfg \<Rightarrow> hart_state \<Rightarrow> irq_mode \<Rightarrow> bool" where
  "mode_open cfg s l =
     (case l of To_M \<Rightarrow> prv s < 3 \<or> prv s = 3 \<and> bit (mstatus s) 3
      | To_HS \<Rightarrow> v_mode s \<or> prv s < 1 \<or> prv s = 1 \<and> bit (sstatus_read cfg s) 1
      | To_VS \<Rightarrow> v_mode s \<and> (prv s < 1 \<or> prv s = 1 \<and> bit (sstatus_read cfg s) 1))"

definition priority_order :: "nat list" where
  "priority_order = [12] @ [14..<64] @ [11, 3, 7, 9, 1, 5, 13, 10, 2, 6]"

definition irq_first :: "hart_cfg \<Rightarrow> u64 \<Rightarrow> hart_state \<Rightarrow> irq_mode \<Rightarrow> nat option" where
  "irq_first cfg pending s l =
     (if mode_open cfg s l then find (\<lambda>i. bit pending i \<and> irq_dest cfg s i = l) priority_order else None)"

definition irq_choice :: "hart_cfg \<Rightarrow> u64 \<Rightarrow> hart_state \<Rightarrow> nat option" where
  "irq_choice cfg pending s =
     (case irq_first cfg pending s To_M of Some i \<Rightarrow> Some i
      | None \<Rightarrow> case irq_first cfg pending s To_HS of Some i \<Rightarrow> Some i
      | None \<Rightarrow> irq_first cfg pending s To_VS)"

text \<open>The order in which the shift of \<open>take_interrupt\<close> finds them: it takes LCOFI for non-standard.\<close>

definition shift_order :: "nat list" where
  "shift_order = [12..<64] @ [11, 3, 7, 9, 1, 5, 10, 2, 6]"

lemma and_power_iff: "e AND 2 ^ k \<noteq> 0 \<longleftrightarrow> bit (e :: u64) k"
proof -
  have "e AND 2 ^ k = (if bit e k then 2 ^ k else 0)"
    by (rule bit_word_eqI) (auto simp: bit_simps)
  then show ?thesis by (auto dest: bit_imp_le_length)
qed

lemmas and_flag = and_power_iff [of _ 11, simplified] and_power_iff [of _ 3, simplified] and_power_iff [of _ 7, simplified]
  and_power_iff [of _ 9, simplified] and_power_iff [of _ 1, simplified] and_power_iff [of _ 5, simplified]
  and_power_iff [of _ 13, simplified] and_power_iff [of _ 10, simplified] and_power_iff [of _ 2, simplified]
  and_power_iff [of _ 6, simplified]

lemma ctz_flag: "ctz 0x800 = 11" "ctz 0x8 = 3" "ctz 0x80 = 7" "ctz 0x200 = 9" "ctz 0x2 = 1" "ctz 0x20 = 5"
    "ctz 0x400 = 10" "ctz 0x4 = 2" "ctz 0x40 = 6"
  by code_simp+

definition standard_only :: "u64 \<Rightarrow> bool" where
  "standard_only e \<longleftrightarrow> \<not> bit e 0 \<and> \<not> bit e 4 \<and> \<not> bit e 8"

lemma small_index: "(i :: nat) < 12 \<longleftrightarrow> i \<in> {0, 1, 2, 3, 4, 5, 6, 7, 8, 9, 10, 11}"
  by (simp only: insert_iff empty_iff) presburger

lemma find_upt:
  assumes "P c" "a \<le> c" "c < b" "\<And>j. a \<le> j \<Longrightarrow> j < c \<Longrightarrow> \<not> P j"
  shows "find P [a..<b] = Some c"
  unfolding find_Some_iff using assms by (intro exI [of _ "c - a"]) auto

lemma find_append: "find P (xs @ ys) = (case find P xs of None \<Rightarrow> find P ys | Some x \<Rightarrow> Some x)"
  by (induction xs) auto

lemma select_choice:
  assumes "e \<noteq> 0" "standard_only e"
  shows "\<exists>one. select_interrupts e = Some one \<and> find (bit e) shift_order = Some (ctz one)"
proof (cases "drop_bit 12 e = 0")
  case False
  define x where "x = push_bit 12 (drop_bit 12 e)"
  have b: "bit x i \<longleftrightarrow> 12 \<le> i \<and> bit e i" for i
    unfolding x_def by (auto simp: bit_simps dest: bit_imp_le_length)
  have "\<exists>i. bit e (12 + i)" using False by (auto simp: bit_eq_iff bit_drop_bit_eq)
  then have x0: "x \<noteq> 0" using b by (metis bit_0_eq bot_apply le_add1 bot_bool_def)
  have c: "bit e (ctz x)" "12 \<le> ctz x" "ctz x < 64" using ctz_result(1) [OF x0] b bit_imp_le_length [of x "ctz x"] by auto
  have "find (bit e) [12..<64] = Some (ctz x)"
    using c ctz_result(2) [OF x0] b by (intro find_upt) auto
  then have "find (bit e) shift_order = Some (ctz x)" by (simp only: shift_order_def find_append option.case)
  moreover have "select_interrupts e = Some x" using False by (simp add: select_interrupts_def x_def)
  ultimately show ?thesis by blast
next
  case True
  have hi: "\<not> bit e i" if "12 \<le> i" for i
    using that arg_cong [OF True, of "\<lambda>w. bit w (i - 12)"] by (simp add: bit_drop_bit_eq)
  then have "find (bit e) [12..<64] = None" by (auto simp only: find_None_iff set_upt atLeastLessThan_iff)
  then have f: "find (bit e) shift_order = find (bit e) [11, 3, 7, 9, 1, 5, 10, 2, 6]"
    by (simp only: shift_order_def find_append option.case)
  have s: "select_interrupts e = (if bit e 11 then Some 0x800 else if bit e 3 then Some 0x8 else if bit e 7 then Some 0x80
      else if bit e 9 then Some 0x200 else if bit e 1 then Some 0x2 else if bit e 5 then Some 0x20 else if bit e 13 then Some 0x2000
      else if bit e 10 then Some 0x400 else if bit e 2 then Some 0x4 else if bit e 6 then Some 0x40 else None)"
    unfolding select_interrupts_def and_flag using True by simp
  have "bit e 1 \<or> bit e 2 \<or> bit e 3 \<or> bit e 5 \<or> bit e 6 \<or> bit e 7 \<or> bit e 9 \<or> bit e 10 \<or> bit e 11"
  proof (rule ccontr)
    assume n: "\<not> ?thesis"
    have "\<not> bit e i" for i
      using n hi assms(2) small_index [of i] unfolding standard_only_def by (cases "i < 12") auto
    then show False using assms(1) by (auto simp: bit_eq_iff)
  qed
  then show ?thesis
    unfolding f s using hi [of 13]
    by (cases "bit e 11", simp add: ctz_flag, cases "bit e 3", simp add: ctz_flag, cases "bit e 7", simp add: ctz_flag,
        cases "bit e 9", simp add: ctz_flag, cases "bit e 1", simp add: ctz_flag, cases "bit e 5", simp add: ctz_flag,
        cases "bit e 10", simp add: ctz_flag, cases "bit e 2", simp add: ctz_flag, simp add: ctz_flag)
qed

lemma find_shift_order:
  "find P shift_order = map_option (\<lambda>j. if j \<noteq> 12 \<and> P 13 then 13 else j) (find P priority_order)"
proof -
  have u: "[12..<64] = 12 # 13 # [14..<64 :: nat]" by (simp add: upt_conv_Cons)
  show ?thesis
    unfolding shift_order_def priority_order_def u find_append
    by (auto simp: find_Some_iff split: option.splits)
qed

section \<open>Legal states\<close>

definition cfg_ok :: "hart_cfg \<Rightarrow> bool" where
  "cfg_ok cfg \<longleftrightarrow> (ext_h cfg \<longrightarrow> ext_s cfg) \<and> (ext_s cfg \<longrightarrow> ext_u cfg)"

definition prv_ok :: "hart_cfg \<Rightarrow> u64 \<Rightarrow> bool" where
  "prv_ok cfg p \<longleftrightarrow> p = 3 \<or> ext_u cfg \<and> p = 0 \<or> ext_u cfg \<and> ext_s cfg \<and> p = 1"

definition mpp :: "u64 \<Rightarrow> u64" where "mpp m = take_bit 2 (drop_bit 11 m)"

definition within :: "u64 \<Rightarrow> u64 \<Rightarrow> bool" where "within x m \<longleftrightarrow> (\<forall>i. bit x i \<longrightarrow> bit m i)"

definition hart_ok :: "hart_cfg \<Rightarrow> hart_state \<Rightarrow> bool" where
  "hart_ok cfg s \<longleftrightarrow>
     prv_ok cfg (prv s) \<and> (v_mode s \<longrightarrow> ext_h cfg \<and> prv s \<noteq> 3)
     \<and> prv_ok cfg (mpp (mstatus s)) \<and> (bit (mstatus s) 39 \<longrightarrow> ext_h cfg)
     \<and> adjust_sd (mstatus s) = mstatus s
     \<and> within (medeleg s) (if ext_s cfg then if ext_h cfg then 0xF0B7FF else 0xB3FF else 0)
     \<and> within (mideleg s) (if ext_s cfg then 0x3222 else 0)
     \<and> within (hedeleg s) 0xB1FF \<and> within (hideleg s) 0x444
     \<and> standard_only (mie s)
     \<and> (mnstatus s \<noteq> None \<longleftrightarrow> ext_smrnmi cfg) \<and> (\<forall>m. mnstatus s = Some m \<longrightarrow> bit m 7 \<longrightarrow> ext_h cfg)
     \<and> dcsr_prv s \<le> 3 \<and> (dcsr_v s \<longrightarrow> ext_h cfg)"

lemma prv_numerals: "\<not> (3 :: u64) \<le> 1" "(0 :: u64) \<le> 1" "(1 :: u64) < 3" "(0 :: u64) < 3" "(0 :: u64) < 1" "\<not> (3 :: u64) < 1"
  by (simp_all add: word_le_nat_alt word_less_nat_alt)

lemma hart_ok_prv:
  assumes "hart_ok cfg s"
  shows "prv s = 0 \<or> prv s = 1 \<or> prv s = 3" "prv s \<le> 1 \<longleftrightarrow> prv s \<noteq> 3" "prv s < 3 \<longleftrightarrow> prv s \<noteq> 3"
proof -
  show p: "prv s = 0 \<or> prv s = 1 \<or> prv s = 3" using assms by (auto simp: hart_ok_def prv_ok_def)
  then show "prv s \<le> 1 \<longleftrightarrow> prv s \<noteq> 3" "prv s < 3 \<longleftrightarrow> prv s \<noteq> 3"
    by (auto simp: prv_numerals)
qed

lemma le_3_cases: "(p :: u64) \<le> 3 \<longleftrightarrow> p = 0 \<or> p = 1 \<or> p = 2 \<or> p = 3"
proof -
  have "unat p \<le> 3 \<longleftrightarrow> unat p = 0 \<or> unat p = 1 \<or> unat p = 2 \<or> unat p = 3" by arith
  then show ?thesis by (simp add: word_le_nat_alt word_eq_iff_unat)
qed

lemma legalize_result:
  assumes "cfg_ok cfg" "p \<le> 3"
  shows "\<exists>q. legalize_privilege cfg p = Some q \<and> prv_ok cfg q \<and> q \<le> 3"
    and "prv_ok cfg p \<Longrightarrow> legalize_privilege cfg p = Some p"
  using assms unfolding legalize_privilege_def prv_ok_def le_3_cases cfg_ok_def by auto

lemma take_bit_2_le: "take_bit 2 x \<le> (3 :: u64)"
proof -
  have "unat (take_bit 2 x) < 2 ^ 2" unfolding unsigned_take_bit_eq by (rule take_bit_nat_less_exp)
  then show ?thesis by (simp add: word_le_nat_alt)
qed

lemma prv_ok_le: "prv_ok cfg p \<Longrightarrow> p \<le> 3"
  unfolding prv_ok_def by auto

lemma set_privilege_result:
  assumes "cfg_ok cfg" "p \<le> 3"
  shows "\<exists>q k c d. legalize_privilege cfg p = Some q \<and> prv_ok cfg q
    \<and> set_privilege cfg p v s = Some (s\<lparr>tlb_flushes := k, prev_prv := prv s, prev_v := v_mode s, prv := q,
         v_mode := v \<and> q \<noteq> 3, prv_changed := c, v_changed := d\<rparr>)"
  using legalize_result(1) [OF assms] unfolding set_privilege_def hart_flush_tlb_def Let_def by fastforce

lemma set_privilege_to:
  assumes "legalize_privilege cfg p = Some q"
  shows "\<exists>k c d. set_privilege cfg p v s = Some (s\<lparr>tlb_flushes := k, prev_prv := prv s, prev_v := v_mode s, prv := q,
         v_mode := v \<and> q \<noteq> 3, prv_changed := c, v_changed := d\<rparr>)"
  using assms unfolding set_privilege_def hart_flush_tlb_def Let_def by fastforce

lemma maybe_flush_frame: "\<exists>k. maybe_flush_tlb cfg old new s = s\<lparr>tlb_flushes := k\<rparr>"
  unfolding maybe_flush_tlb_def hart_flush_tlb_def by (cases s) auto

definition mstatus_mask :: "hart_cfg \<Rightarrow> u64" where
  "mstatus_mask cfg = sstatus_write_mask cfg OR 0x8 OR 0x80
     OR (if ext_u cfg then 0x20000 else 0) OR 0x1800 OR 0x200000
     OR (if ext_s cfg then 0x400000 else 0) OR (if has_page cfg then 0x100000 else 0)
     OR (if ext_h cfg then 0x4000000000 else 0) OR (if ext_h cfg then 0x8000000000 else 0)"

definition mstatus_new :: "hart_cfg \<Rightarrow> u64 \<Rightarrow> u64 \<Rightarrow> u64 \<Rightarrow> u64" where
  "mstatus_new cfg old val p = adjust_sd (masked_write (mstatus_mask cfg) old (set_field val 0x1800 p))"

lemma mstatus_write_result:
  assumes "cfg_ok cfg"
  shows "\<exists>p k. legalize_privilege cfg (mpp val) = Some p \<and> prv_ok cfg p
    \<and> mstatus_write cfg val s = Some (s\<lparr>tlb_flushes := k, mstatus := mstatus_new cfg (mstatus s) val p\<rparr>)"
proof -
  obtain p where p: "legalize_privilege cfg (mpp val) = Some p" "prv_ok cfg p"
    using legalize_result(1) [OF assms, of "mpp val"] take_bit_2_le unfolding mpp_def by blast
  obtain k where k: "maybe_flush_tlb cfg (mstatus s) (masked_write (mstatus_mask cfg) (mstatus s) (set_field val 0x1800 p)) s = s\<lparr>tlb_flushes := k\<rparr>"
    using maybe_flush_frame by blast
  have "mstatus_write cfg val s = Some (s\<lparr>tlb_flushes := k, mstatus := mstatus_new cfg (mstatus s) val p\<rparr>)"
    using p(1) k unfolding mpp_def mstatus_write_def mstatus_mask_def mstatus_new_def masked_write_def Let_def get_flag
    by (simp only: option.case)
  with p show ?thesis by blast
qed

lemma bit_adjust_sd: "bit (adjust_sd m) i \<longleftrightarrow> (if i = 63 then m AND 0x6000 = 0x6000 \<or> m AND 0x600 = 0x600 \<or> m AND 0x18000 = 0x18000 else bit m i)"
proof -
  define c where "c \<longleftrightarrow> m AND 0x6000 = 0x6000 \<or> m AND 0x600 = 0x600 \<or> m AND 0x18000 = 0x18000"
  have "(0x8000000000000000 :: u64) = 2 ^ 63" by simp
  then have b: "bit (0x8000000000000000 :: u64) i \<longleftrightarrow> i = 63" by (simp only: bit_exp_iff) auto
  have "adjust_sd m = (if c then m OR 0x8000000000000000 else m AND NOT 0x8000000000000000)"
    unfolding adjust_sd_def c_def ..
  then have "bit (adjust_sd m) i \<longleftrightarrow> (if i = 63 then c else bit m i)"
    by (cases c; cases "i = 63") (simp_all only: if_True if_False bit_or_iff bit_and_iff bit_not_iff b simp_thms, auto dest: bit_imp_le_length)
  then show ?thesis unfolding c_def .
qed

lemma bit_masked_write: "bit (masked_write w old val) i \<longleftrightarrow> (if bit w i then bit val i else bit old i)"
  unfolding masked_write_def by (auto simp: bit_simps dest: bit_imp_le_length)

lemma bit_mstatus_new: "i \<noteq> 63 \<Longrightarrow> bit (mstatus_new cfg old val p) i \<longleftrightarrow> (if bit (mstatus_mask cfg) i then bit (set_field val 0x1800 p) i else bit old i)"
  unfolding mstatus_new_def by (simp only: bit_adjust_sd bit_masked_write if_False)

section \<open>Interrupts\<close>

definition mode_word :: "hart_cfg \<Rightarrow> u64 \<Rightarrow> hart_state \<Rightarrow> irq_mode \<Rightarrow> u64" where
  "mode_word cfg pending s l =
     (pending AND (case l of To_M \<Rightarrow> NOT (mideleg_read cfg s)
        | To_HS \<Rightarrow> mideleg_read cfg s AND NOT (hideleg_read cfg s)
        | To_VS \<Rightarrow> hideleg_read cfg s)) AND (- of_bool (mode_open cfg s l))"

lemma bit_mode_word: "bit (mode_word cfg pending s l) i \<longleftrightarrow> mode_open cfg s l \<and> bit pending i \<and> irq_dest cfg s i = l"
  unfolding mode_word_def irq_dest_def hideleg_read_def
  by (cases l; cases "mode_open cfg s l") (auto simp: bit_and_iff bit_or_iff bit_not_iff dest: bit_imp_le_length)

lemma mode_word_enabled:
  assumes "prv_ok cfg (prv s)" "v_mode s \<longrightarrow> prv s \<noteq> 3"
  shows "enabled_interrupts cfg pending s =
    (if mode_word cfg pending s To_M \<noteq> 0 then mode_word cfg pending s To_M
     else if mode_word cfg pending s To_HS \<noteq> 0 then mode_word cfg pending s To_HS
     else mode_word cfg pending s To_VS)"
proof -
  have m: "m_enabled_interrupts cfg pending s = mode_word cfg pending s To_M"
    by (simp add: m_enabled_interrupts_def mode_word_def mode_open_def)
  have v: "\<not> v_mode s \<Longrightarrow> mode_word cfg pending s To_VS = 0"
    by (simp add: mode_word_def mode_open_def)
  show ?thesis
    unfolding enabled_interrupts_def m Let_def
    by (cases "v_mode s") (simp_all add: v, simp_all add: mode_word_def mode_open_def)
qed

lemma irq_first_word:
  assumes "standard_only pending"
  shows "irq_first cfg pending s l =
    (if mode_word cfg pending s l = 0 then None else find (bit (mode_word cfg pending s l)) priority_order)"
proof -
  have "find (bit (mode_word cfg pending s l)) priority_order = None" if "mode_word cfg pending s l = 0"
    unfolding that find_None_iff by simp
  moreover have "mode_word cfg pending s l = 0" if "\<not> mode_open cfg s l"
    using that by (simp add: mode_word_def)
  moreover have "irq_first cfg pending s l = find (bit (mode_word cfg pending s l)) priority_order" if "mode_open cfg s l"
    unfolding irq_first_def using that by (simp add: bit_mode_word [abs_def])
  ultimately show ?thesis by (cases "mode_open cfg s l") (auto simp: irq_first_def)
qed

lemma standard_only_word: "standard_only pending \<Longrightarrow> standard_only (mode_word cfg pending s l)"
  unfolding standard_only_def bit_mode_word by blast

text \<open>The source the code takes: the first of the documented order, except that LCOFI displaces every
  source for the same mode but source 12.\<close>

definition displaced :: "hart_cfg \<Rightarrow> u64 \<Rightarrow> hart_state \<Rightarrow> nat \<Rightarrow> nat" where
  "displaced cfg pending s j =
     (if j \<noteq> 12 \<and> bit pending 13 \<and> irq_dest cfg s 13 = irq_dest cfg s j then 13 else j)"

definition irq_taken :: "hart_cfg \<Rightarrow> u64 \<Rightarrow> hart_state \<Rightarrow> nat option" where
  "irq_taken cfg pending s =
     map_option (displaced cfg pending s) (irq_choice cfg pending s)"

lemma irq_first_taken:
  assumes "standard_only pending" "mode_word cfg pending s l \<noteq> 0"
  shows "\<exists>one. select_interrupts (mode_word cfg pending s l) = Some one \<and>
    map_option (displaced cfg pending s)
      (irq_first cfg pending s l) = Some (ctz one)"
proof -
  let ?w = "mode_word cfg pending s l"
  obtain one where one: "select_interrupts ?w = Some one" "find (bit ?w) shift_order = Some (ctz one)"
    using select_choice [OF assms(2) standard_only_word [OF assms(1)]] by blast
  then obtain j where j: "find (bit ?w) priority_order = Some j" "(if j \<noteq> 12 \<and> bit ?w 13 then 13 else j) = ctz one"
    unfolding find_shift_order by auto
  then have "bit ?w j" by (auto simp: find_Some_iff)
  then have "bit ?w 13 \<longleftrightarrow> bit pending 13 \<and> irq_dest cfg s 13 = irq_dest cfg s j"
    unfolding bit_mode_word by auto
  then show ?thesis using one(1) j assms(2) unfolding irq_first_word [OF assms(1)] displaced_def by auto
qed

lemma enabled_choice:
  assumes "prv_ok cfg (prv s)" "v_mode s \<longrightarrow> prv s \<noteq> 3" "standard_only pending"
  shows "if enabled_interrupts cfg pending s = 0 then irq_taken cfg pending s = None
    else \<exists>one. select_interrupts (enabled_interrupts cfg pending s) = Some one \<and> irq_taken cfg pending s = Some (ctz one)"
proof -
  note w = irq_first_taken [OF assms(3), of cfg s]
  have none: "irq_first cfg pending s l = None" if "mode_word cfg pending s l = 0" for l
    using that by (simp add: irq_first_word [OF assms(3)])
  show ?thesis
    unfolding mode_word_enabled [OF assms(1,2)] irq_choice_def irq_taken_def
    using w [of To_M] w [of To_HS] w [of To_VS] none [of To_M] none [of To_HS] none [of To_VS]
    by (auto split: option.splits)
qed

lemma interrupt_choice_result:
  assumes "hart_ok cfg s"
  shows "take_pending_interrupt cfg s =
    (if mip s AND mie s = 0 then s else s\<lparr>in_wfi := False\<rparr>,
     if debug_mode s \<or> \<not> nmie s then No_Trap
     else case irq_taken cfg (mip s AND mie s) s of None \<Rightarrow> No_Trap | Some i \<Rightarrow> Throw (push_bit 63 1 OR of_nat i))"
proof -
  let ?p = "mip s AND mie s" and ?s = "s\<lparr>in_wfi := False\<rparr>"
  have so: "standard_only ?p" using assms by (auto simp: hart_ok_def standard_only_def bit_and_iff)
  have r: "mideleg_read cfg ?s = mideleg_read cfg s" "hideleg_read cfg ?s = hideleg_read cfg s" "sstatus_read cfg ?s = sstatus_read cfg s"
    by (simp_all add: mideleg_read_def hideleg_read_def sstatus_read_def nonvirtual_sstatus_read_def)
  have "mode_open cfg ?s l = mode_open cfg s l" for l unfolding mode_open_def r by (cases l) simp_all
  moreover have "irq_dest cfg ?s i = irq_dest cfg s i" for i unfolding irq_dest_def r ..
  ultimately have o: "mode_open cfg ?s = mode_open cfg s" "irq_dest cfg ?s = irq_dest cfg s" by auto
  have "displaced cfg pending ?s = displaced cfg pending s" for pending
    by (rule ext) (simp only: displaced_def o)
  then have "irq_taken cfg pending ?s = irq_taken cfg pending s" for pending
    by (simp only: irq_taken_def irq_choice_def irq_first_def o)
  moreover have "nmie ?s = nmie s" by (simp add: nmie_def)
  moreover have "irq_taken cfg 0 s = None"
  proof -
    have "irq_first cfg 0 s l = None" for l by (simp add: irq_first_def find_None_iff)
    then show ?thesis by (simp add: irq_taken_def irq_choice_def)
  qed
  ultimately show ?thesis
    using enabled_choice [of cfg ?s ?p] so assms
    by (auto simp: take_pending_interrupt_def take_interrupt_def hart_ok_def Let_def split: if_splits)
qed

section \<open>Status registers\<close>

lemma sstatus_mask_bits:
  "bit (sstatus_write_mask cfg) (Suc 0) \<longleftrightarrow> ext_s cfg" "bit (sstatus_write_mask cfg) 5 \<longleftrightarrow> ext_s cfg" "bit (sstatus_write_mask cfg) 8 \<longleftrightarrow> ext_s cfg"
  "\<not> bit (sstatus_write_mask cfg) 3" "\<not> bit (sstatus_write_mask cfg) 7" "\<not> bit (sstatus_write_mask cfg) 11" "\<not> bit (sstatus_write_mask cfg) 12"
  "\<not> bit (sstatus_write_mask cfg) 17" "\<not> bit (sstatus_write_mask cfg) 38" "\<not> bit (sstatus_write_mask cfg) 39" "\<not> bit (sstatus_write_mask cfg) 63"
  unfolding sstatus_write_mask_def Let_def by (simp_all add: bit_or_iff)

lemma mstatus_mask_bits:
  "bit (mstatus_mask cfg) (Suc 0) \<longleftrightarrow> ext_s cfg" "bit (mstatus_mask cfg) 5 \<longleftrightarrow> ext_s cfg" "bit (mstatus_mask cfg) 8 \<longleftrightarrow> ext_s cfg"
  "bit (mstatus_mask cfg) 3" "bit (mstatus_mask cfg) 7" "bit (mstatus_mask cfg) 11" "bit (mstatus_mask cfg) 12"
  "bit (mstatus_mask cfg) 17 \<longleftrightarrow> ext_u cfg" "bit (mstatus_mask cfg) 38 \<longleftrightarrow> ext_h cfg" "bit (mstatus_mask cfg) 39 \<longleftrightarrow> ext_h cfg"
  unfolding mstatus_mask_def by (simp_all add: bit_or_iff sstatus_mask_bits)

lemma sstatus_mask_32: "sstatus_write_mask cfg AND 0xFFFFFFFF = sstatus_write_mask cfg"
  unfolding sstatus_write_mask_def Let_def bit.conj_disj_distrib2 by simp

lemma sstatus_mask_within: "bit (sstatus_write_mask cfg) i \<Longrightarrow> bit (mstatus_mask cfg) i"
  unfolding mstatus_mask_def by (simp add: bit_or_iff)

lemma bit_mask_flags: "odd (of_bool b :: u64) \<longleftrightarrow> b" by simp

lemma mpp_bits: "mpp m = q \<longleftrightarrow> (bit m 11 \<longleftrightarrow> bit q 0) \<and> (bit m 12 \<longleftrightarrow> bit q 1) \<and> q \<le> 3"
proof -
  have "x = y \<longleftrightarrow> (bit x 0 \<longleftrightarrow> bit y 0) \<and> (bit x 1 \<longleftrightarrow> bit y 1)" if "x \<le> 3" "y \<le> 3" for x y :: u64
    using that unfolding le_3_cases by (elim disjE) simp_all
  from this [of "mpp m" q] show ?thesis
    using take_bit_2_le unfolding mpp_def by (auto simp: bit_simps)
qed

lemma mpp_set: "p \<le> 3 \<Longrightarrow> mpp (set_field m 0x1800 p) = p"
  unfolding mpp_bits by (simp add: bit_0)

text \<open>What a write of \<open>mstatus\<close> leaves in the fields that exist everywhere.\<close>

lemma mstatus_new_fields:
  assumes "prv_ok cfg p"
  shows "mpp (mstatus_new cfg old val p) = p"
    and "bit (mstatus_new cfg old val p) 3 = bit val 3" "bit (mstatus_new cfg old val p) 7 = bit val 7"
    and "ext_s cfg \<Longrightarrow> bit (mstatus_new cfg old val p) (Suc 0) = bit val (Suc 0)"
      "ext_s cfg \<Longrightarrow> bit (mstatus_new cfg old val p) 5 = bit val 5"
      "ext_s cfg \<Longrightarrow> bit (mstatus_new cfg old val p) 8 = bit val 8"
    and "ext_u cfg \<Longrightarrow> bit (mstatus_new cfg old val p) 17 = bit val 17"
    and "bit (mstatus_new cfg old val p) 39 = (if ext_h cfg then bit val 39 else bit old 39)"
    and "adjust_sd (mstatus_new cfg old val p) = mstatus_new cfg old val p"
proof -
  note b = bit_mstatus_new mstatus_mask_bits
  show "mpp (mstatus_new cfg old val p) = p"
    unfolding mpp_bits using prv_ok_le [OF assms] by (simp add: b bit_0)
  show "bit (mstatus_new cfg old val p) 3 = bit val 3" "bit (mstatus_new cfg old val p) 7 = bit val 7" by (simp_all add: b)
  show "bit (mstatus_new cfg old val p) (Suc 0) = bit val (Suc 0)" if "ext_s cfg" using that by (simp add: b)
  show "bit (mstatus_new cfg old val p) 5 = bit val 5" if "ext_s cfg" using that by (simp add: b)
  show "bit (mstatus_new cfg old val p) 8 = bit val 8" if "ext_s cfg" using that by (simp add: b)
  show "bit (mstatus_new cfg old val p) 17 = bit val 17" if "ext_u cfg" using that by (simp add: b)
  show "bit (mstatus_new cfg old val p) 39 = (if ext_h cfg then bit val 39 else bit old 39)" by (simp add: b)
  have "adjust_sd (adjust_sd m) = adjust_sd m" for m
  proof (rule bit_word_eqI)
    fix i :: nat
    have f: "adjust_sd m AND f = m AND f" if "\<not> bit f 63" for f
    proof (rule bit_word_eqI)
      fix j :: nat
      show "bit (adjust_sd m AND f) j = bit (m AND f) j"
        using that by (cases "j = 63") (simp_all only: bit_and_iff bit_adjust_sd if_False simp_thms)
    qed
    show "bit (adjust_sd (adjust_sd m)) i = bit (adjust_sd m) i"
      by (cases "i = 63") (simp_all add: bit_adjust_sd f)
  qed
  then show "adjust_sd (mstatus_new cfg old val p) = mstatus_new cfg old val p"
    by (simp add: mstatus_new_def)
qed

lemma set_mpp_same: "bit (set_field val 0x1800 (mpp val)) i = bit val i"
proof -
  have "bit (mpp val) 0 = bit val 11" "bit (mpp val) 1 = bit val 12" by (simp_all add: mpp_def bit_simps)
  then show ?thesis by (simp add: bit_0)
qed

lemma mstatus_new_frame:
  assumes "i \<noteq> 63"
  shows "bit (mstatus_new cfg old val (mpp val)) i = (if bit (mstatus_mask cfg) i then bit val i else bit old i)"
  unfolding bit_mstatus_new [OF assms] set_mpp_same ..

lemma mpp_sstatus_masked: "mpp (masked_write (sstatus_write_mask cfg) old val) = mpp old"
  unfolding mpp_bits using take_bit_2_le by (simp add: bit_masked_write sstatus_mask_bits mpp_def bit_simps)

lemma sstatus_write_result:
  assumes "cfg_ok cfg"
  shows "\<exists>p k. prv_ok cfg p \<and> legalize_privilege cfg (mpp (mstatus s)) = Some p
    \<and> nonvirtual_sstatus_write cfg val s = Some (s\<lparr>tlb_flushes := k,
        mstatus := mstatus_new cfg (mstatus s) (masked_write (sstatus_write_mask cfg) (mstatus s) val) p\<rparr>)"
proof -
  note mpp_sstatus_masked [of cfg "mstatus s" val]
  then show ?thesis
    using mstatus_write_result [OF assms, of "masked_write (sstatus_write_mask cfg) (mstatus s) val" s]
    unfolding nonvirtual_sstatus_write_def sstatus_mask_32 masked_write_def Let_def by auto
qed

section \<open>Trap entry\<close>

lemma bit_not1: "bit (x AND NOT 1) i \<longleftrightarrow> bit x i \<and> i \<noteq> 0" for x :: u64
  by (auto simp: bit_simps dest: bit_imp_le_length)

definition handler_pc :: "u64 \<Rightarrow> trap_t \<Rightarrow> u64" where
  "handler_pc tvec t = (tvec AND NOT 1) + (if bit tvec 0 \<and> bit (trap_cause t) 63 then 4 * trap_code t else 0)"

lemma trap_vector_eq: "trap_vector tvec (trap_interrupt t) (trap_code t) = handler_pc tvec t"
  using and_power_iff [of tvec 0] and_power_iff [of "trap_cause t" 63]
  by (auto simp: trap_vector_def handler_pc_def trap_interrupt_def)

lemma trap_to_m_result:
  assumes "cfg_ok cfg" "hart_ok cfg s"
  shows "\<exists>m k c d. trap_to_m cfg t epc (trap_interrupt t) (trap_code t) s =
      Some (s\<lparr>pc := (if nmie s then handler_pc (mtvec s) t else 0), mepc := epc AND NOT 1, mcause := trap_cause t,
        mtval := trap_tval t, mtval2 := trap_tval2 t, mtinst := trap_tinst t, mstatus := m, tlb_flushes := k,
        prev_prv := prv s, prev_v := v_mode s, prv := 3, v_mode := False, prv_changed := c, v_changed := d\<rparr>)
    \<and> mpp m = prv s \<and> \<not> bit m 3 \<and> bit m 7 = bit (mstatus s) 3 \<and> (bit m 39 \<longleftrightarrow> ext_h cfg \<and> v_mode s) \<and> adjust_sd m = m"
proof -
  define m5 where "m5 = set_field (set_field (set_field (set_field (set_field (mstatus s) 0x80 (of_bool (bit (mstatus s) 3)))
     0x1800 (prv s)) 0x8 0) 0x8000000000 (of_bool (v_mode s))) 0x4000000000 (of_bool (trap_gva t))"
  have p: "prv_ok cfg (prv s)" "prv s \<le> 3" using assms(2) prv_ok_le by (auto simp: hart_ok_def)
  have q: "mpp m5 = prv s" unfolding mpp_bits m5_def using p by (simp add: bit_0)
  define s1 where "s1 = s\<lparr>pc := (if \<not> nmie s then 0 else handler_pc (mtvec s) t), mepc := epc AND NOT 1, mcause := trap_cause t,
        mtval := trap_tval t, mtval2 := trap_tval2 t, mtinst := trap_tinst t\<rparr>"
  have sel: "mstatus s1 = mstatus s" "prv s1 = prv s" by (simp_all add: s1_def)
  obtain k where w: "mstatus_write cfg m5 s1 = Some (s1\<lparr>tlb_flushes := k, mstatus := mstatus_new cfg (mstatus s) m5 (prv s)\<rparr>)"
    using mstatus_write_result [OF assms(1), of m5 s1] legalize_result(2) [OF assms(1) p(2,1)] q by (auto simp: s1_def)
  define m where "m = mstatus_new cfg (mstatus s) m5 (prv s)"
  have m: "mpp m = prv s" "\<not> bit m 3" "bit m 7 = bit (mstatus s) 3" "bit m 39 \<longleftrightarrow> ext_h cfg \<and> v_mode s" "adjust_sd m = m"
    using mstatus_new_fields [OF p(1)] assms(2) unfolding m_def by (auto simp: m5_def hart_ok_def)
  have l: "legalize_privilege cfg 3 = Some 3" by (simp add: legalize_privilege_def)
  have "trap_to_m cfg t epc (trap_interrupt t) (trap_code t) s = set_privilege cfg 3 False (s1\<lparr>tlb_flushes := k, mstatus := m\<rparr>)"
    unfolding trap_to_m_def trap_vector_eq epc_write_def Let_def s1_def [symmetric] sel get_flag m5_def [symmetric] w m_def
    by simp
  then show ?thesis
    using m l by (auto simp: set_privilege_def hart_flush_tlb_def s1_def Let_def)
qed

lemma sstatus_read_mask_bits:
  "bit (sstatus_read_mask cfg) (Suc 0) \<longleftrightarrow> ext_s cfg" "bit (sstatus_read_mask cfg) 5 \<longleftrightarrow> ext_s cfg" "bit (sstatus_read_mask cfg) 8 \<longleftrightarrow> ext_s cfg"
  unfolding sstatus_read_mask_def by (simp_all add: bit_or_iff sstatus_mask_bits)

lemma hstatus_mask_bits:
  "bit (0x400000 OR 0x200000 OR (if impl_mmu cfg then 0x100000 else 0) OR 0x200 OR 0x100 OR 0x80 OR 0x40 :: u64) 7"
  "bit (0x400000 OR 0x200000 OR (if impl_mmu cfg then 0x100000 else 0) OR 0x200 OR 0x100 OR 0x80 OR 0x40 :: u64) 22"
  by (simp_all add: bit_or_iff)

definition hs_hstatus :: "hart_cfg \<Rightarrow> trap_t \<Rightarrow> hart_state \<Rightarrow> u64" where
  "hs_hstatus cfg t s =
     (if ext_h cfg
      then hstatus (hstatus_write cfg (set_field (set_field (if v_mode s then set_field (hstatus s) 0x100 (prv s) else hstatus s)
             0x80 (of_bool (v_mode s))) 0x40 (of_bool (trap_gva t))) s)
      else hstatus s)"

lemma hs_hstatus_bits:
  "ext_h cfg \<Longrightarrow> bit (hs_hstatus cfg t s) 7 = v_mode s"
  by (simp add: hs_hstatus_def hstatus_write_def bit_masked_write hstatus_mask_bits)

lemma trap_to_hs_result:
  assumes "cfg_ok cfg" "hart_ok cfg s" "ext_s cfg" "prv s \<le> 1"
  shows "\<exists>m k c d. trap_to_hs cfg t epc (trap_interrupt t) (trap_code t) s =
      Some (s\<lparr>pc := handler_pc (stvec s) t, sepc := epc AND NOT 1, scause := trap_cause t,
        stval := trap_tval t, htval := trap_tval2 t, htinst := trap_tinst t, mstatus := m, tlb_flushes := k,
        hstatus := hs_hstatus cfg t s,
        prev_prv := prv s, prev_v := v_mode s, prv := 1, v_mode := False, prv_changed := c, v_changed := d\<rparr>)
    \<and> mpp m = mpp (mstatus s) \<and> \<not> bit m 1 \<and> bit m 5 = bit (mstatus s) 1 \<and> bit m 8 = (prv s = 1)
    \<and> bit m 39 = bit (mstatus s) 39 \<and> bit m 3 = bit (mstatus s) 3 \<and> bit m 7 = bit (mstatus s) 7
    \<and> bit m 22 = bit (mstatus s) 22 \<and> adjust_sd m = m"
proof -
  define s1 where "s1 = s\<lparr>pc := handler_pc (stvec s) t, scause := trap_cause t, sepc := epc AND NOT 1,
        stval := trap_tval t, htval := trap_tval2 t, htinst := trap_tinst t\<rparr>"
  have sel: "mstatus s1 = mstatus s" "prv s1 = prv s" "v_mode s1 = v_mode s" "nonvirtual_sstatus_read cfg s1 = nonvirtual_sstatus_read cfg s"
    by (simp_all add: s1_def nonvirtual_sstatus_read_def)
  define val where "val = push_sstatus (nonvirtual_sstatus_read cfg s) (prv s)"
  define w where "w = masked_write (sstatus_write_mask cfg) (mstatus s) val"
  obtain p k where w1: "prv_ok cfg p" "legalize_privilege cfg (mpp (mstatus s)) = Some p"
      "nonvirtual_sstatus_write cfg val s1 = Some (s1\<lparr>tlb_flushes := k, mstatus := mstatus_new cfg (mstatus s) w p\<rparr>)"
    using sstatus_write_result [OF assms(1), of s1 val] unfolding sel w_def by blast
  have pm: "p = mpp (mstatus s)"
    using w1(2) legalize_result(2) [OF assms(1), of "mpp (mstatus s)"] assms(2) take_bit_2_le
    by (simp add: hart_ok_def mpp_def)
  define m where "m = mstatus_new cfg (mstatus s) w p"
  have p1: "prv s = 0 \<or> prv s = 1" using hart_ok_prv [OF assms(2)] assms(4) by auto
  have m: "mpp m = mpp (mstatus s)" "\<not> bit m (Suc 0)" "bit m 5 = bit (mstatus s) (Suc 0)" "bit m 8 = (prv s = 1)"
      "bit m 39 = bit (mstatus s) 39" "bit m 3 = bit (mstatus s) 3" "bit m 7 = bit (mstatus s) 7" "adjust_sd m = m"
    using mstatus_new_fields [OF w1(1)] assms(3) pm p1 unfolding m_def
    by (auto simp: w_def val_def push_sstatus_def nonvirtual_sstatus_read_def bit_masked_write sstatus_mask_bits
        sstatus_read_mask_bits bit_and_iff)
  have m22: "bit m 22 = bit (mstatus s) 22"
  proof -
    have "\<not> bit (sstatus_write_mask cfg) 22" unfolding sstatus_write_mask_def Let_def by (simp add: bit_or_iff)
    then show ?thesis unfolding m_def by (simp add: bit_mstatus_new w_def bit_masked_write)
  qed
  have l: "legalize_privilege cfg 1 = Some 1" using assms(1,3) by (simp add: legalize_privilege_def cfg_ok_def)
  have h: "hstatus_write cfg x (s1\<lparr>tlb_flushes := k, mstatus := m\<rparr>) = (s1\<lparr>tlb_flushes := k, mstatus := m, hstatus := hstatus (hstatus_write cfg x s)\<rparr>)" for x
    by (simp add: hstatus_write_def s1_def)
  have sel2: "hstatus (s1\<lparr>tlb_flushes := k, mstatus := m\<rparr>) = hstatus s" "prv (s1\<lparr>tlb_flushes := k, mstatus := m\<rparr>) = prv s"
    by (simp_all add: s1_def)
  have "trap_to_hs cfg t epc (trap_interrupt t) (trap_code t) s
      = set_privilege cfg 1 False (s1\<lparr>tlb_flushes := k, mstatus := m, hstatus := hs_hstatus cfg t s\<rparr>)"
    unfolding trap_to_hs_def trap_vector_eq epc_write_def Let_def s1_def [symmetric] sel val_def [symmetric] w1(3) m_def [symmetric]
      option.case sel2 h hs_hstatus_def
    by (cases "ext_h cfg") (simp_all add: s1_def)
  also obtain k' c d where "\<dots> = Some (s1\<lparr>tlb_flushes := k, mstatus := m, hstatus := hs_hstatus cfg t s,
      tlb_flushes := k', prev_prv := prv s, prev_v := v_mode s, prv := 1, v_mode := False, prv_changed := c, v_changed := d\<rparr>)"
    using set_privilege_to [OF l, of False "s1\<lparr>tlb_flushes := k, mstatus := m, hstatus := hs_hstatus cfg t s\<rparr>"]
    by (auto simp: s1_def)
  finally have r: "trap_to_hs cfg t epc (trap_interrupt t) (trap_code t) s =
      Some (s\<lparr>pc := handler_pc (stvec s) t, sepc := epc AND NOT 1, scause := trap_cause t,
        stval := trap_tval t, htval := trap_tval2 t, htinst := trap_tinst t, mstatus := m, tlb_flushes := k',
        hstatus := hs_hstatus cfg t s,
        prev_prv := prv s, prev_v := v_mode s, prv := 1, v_mode := False, prv_changed := c, v_changed := d\<rparr>)"
    by (simp add: s1_def)
  show ?thesis
    by (rule exI [of _ m], rule exI [of _ k'], rule exI [of _ c], rule exI [of _ d]) (use r m m22 in \<open>simp only: simp_thms One_nat_def\<close>)
qed

lemma trap_to_vs_result:
  assumes "cfg_ok cfg" "hart_ok cfg s" "v_mode s"
  shows "\<exists>m k c d. trap_to_vs cfg t epc (trap_interrupt t) (trap_code t) s =
      Some (s\<lparr>pc := handler_pc (vstvec s) t, vsepc := epc AND NOT 1,
        vscause := (if bit (trap_cause t) 63 then trap_cause t - 1 else trap_cause t), vstval := trap_tval t,
        vsstatus := m, tlb_flushes := k,
        prev_prv := prv s, prev_v := v_mode s, prv := 1, v_mode := True, prv_changed := c, v_changed := d\<rparr>)
    \<and> \<not> bit m 1 \<and> bit m 5 = bit (vsstatus s) 1 \<and> bit m 8 = (prv s = 1)"
proof -
  have e: "ext_s cfg" "ext_u cfg" "prv s = 0 \<or> prv s = 1"
    using assms hart_ok_prv [OF assms(2)] by (auto simp: cfg_ok_def hart_ok_def)
  define s1 where "s1 = s\<lparr>pc := handler_pc (vstvec s) t,
     vscause := (if trap_interrupt t then trap_cause t - 1 else trap_cause t), vsepc := epc AND NOT 1, vstval := trap_tval t\<rparr>"
  have sel: "prv s1 = prv s" "v_mode s1" "sstatus_read cfg s1 = vsstatus s" "vsstatus s1 = vsstatus s"
    using assms(3) by (simp_all add: s1_def sstatus_read_def)
  define m where "m = adjust_sd (masked_write (sstatus_write_mask cfg) (vsstatus s) (push_sstatus (vsstatus s) (prv s)))"
  obtain k where k: "maybe_flush_tlb cfg (vsstatus s)
      ((vsstatus s AND NOT (sstatus_write_mask cfg)) OR (push_sstatus (vsstatus s) (prv s) AND sstatus_write_mask cfg)) s1 = s1\<lparr>tlb_flushes := k\<rparr>"
    using maybe_flush_frame by blast
  have w: "vsstatus_write cfg (push_sstatus (vsstatus s) (prv s)) s1 = s1\<lparr>tlb_flushes := k, vsstatus := m\<rparr>"
    unfolding vsstatus_write_def Let_def sel if_P [OF sel(2)] m_def masked_write_def k ..
  have m: "\<not> bit m (Suc 0)" "bit m 5 = bit (vsstatus s) (Suc 0)" "bit m 8 = (prv s = 1)"
    using e by (auto simp: m_def bit_adjust_sd bit_masked_write sstatus_mask_bits push_sstatus_def)
  have l: "legalize_privilege cfg 1 = Some 1" using e by (simp add: legalize_privilege_def)
  have "trap_to_vs cfg t epc (trap_interrupt t) (trap_code t) s = set_privilege cfg 1 True (s1\<lparr>tlb_flushes := k, vsstatus := m\<rparr>)"
    unfolding trap_to_vs_def trap_vector_eq epc_write_def Let_def s1_def [symmetric] sel sstatus_write_def w
    using sel(2) by simp
  also obtain k' c d where "\<dots> = Some (s1\<lparr>tlb_flushes := k, vsstatus := m,
      tlb_flushes := k', prev_prv := prv s, prev_v := v_mode s, prv := 1, v_mode := True, prv_changed := c, v_changed := d\<rparr>)"
    using set_privilege_to [OF l, of True "s1\<lparr>tlb_flushes := k, vsstatus := m\<rparr>"]
    by (auto simp: s1_def)
  finally have r: "trap_to_vs cfg t epc (trap_interrupt t) (trap_code t) s =
      Some (s\<lparr>pc := handler_pc (vstvec s) t, vsepc := epc AND NOT 1,
        vscause := (if bit (trap_cause t) 63 then trap_cause t - 1 else trap_cause t), vstval := trap_tval t,
        vsstatus := m, tlb_flushes := k',
        prev_prv := prv s, prev_v := v_mode s, prv := 1, v_mode := True, prv_changed := c, v_changed := d\<rparr>)"
    using and_power_iff [of "trap_cause t" 63] by (simp add: s1_def trap_interrupt_def)
  show ?thesis
    by (rule exI [of _ m], rule exI [of _ k'], rule exI [of _ c], rule exI [of _ d]) (use r m in \<open>simp only: simp_thms One_nat_def\<close>)
qed

text \<open>Where a trap goes.\<close>

definition trap_target :: "hart_cfg \<Rightarrow> trap_t \<Rightarrow> hart_state \<Rightarrow> irq_mode" where
  "trap_target cfg t s =
     (let code = unat (trap_code t); interrupt = bit (trap_cause t) 63;
          to_s = (prv s \<noteq> 3 \<and> code < 64 \<and> bit (if interrupt then mideleg_read cfg s else medeleg s) code)
      in if to_s \<and> v_mode s \<and> bit (if interrupt then hideleg s else hedeleg s) code then To_VS
         else if to_s then To_HS else To_M)"

lemma take_trap_target:
  assumes "hart_ok cfg s" "\<not> debug_mode s"
  shows "take_trap cfg t epc s =
    (case trap_target cfg t s of
       To_VS \<Rightarrow> trap_to_vs cfg t epc (trap_interrupt t) (trap_code t) s
     | To_HS \<Rightarrow> trap_to_hs cfg t epc (trap_interrupt t) (trap_code t) s
     | To_M \<Rightarrow> trap_to_m cfg t epc (trap_interrupt t) (trap_code t) s)"
proof -
  have i: "trap_interrupt t \<longleftrightarrow> bit (trap_cause t) 63"
    using and_power_iff [of "trap_cause t" 63] by (simp add: trap_interrupt_def)
  have d: "drop_bit n x AND 1 \<noteq> 0 \<longleftrightarrow> bit x n" for n and x :: u64
    using and_power_iff [of "drop_bit n x" 0] by (simp add: bit_drop_bit_eq)
  have c: "trap_code t < 64 \<longleftrightarrow> unat (trap_code t) < 64" by (simp add: word_less_nat_alt)
  show ?thesis
    using assms(2) hart_ok_prv [OF assms(1)]
    unfolding take_trap_def trap_target_def Let_def d c i vsdeleg_def hsdeleg_def
    by (auto simp: bit_and_iff hideleg_read_def)
qed

section \<open>Returns\<close>

lemma and_not1_align: "bit (pc_alignment_mask cfg) i \<longleftrightarrow> i < 64 \<and> (i = 1 \<longrightarrow> ext_zca cfg)"
  unfolding pc_alignment_mask_def by (auto simp: bit_not_iff bit_simps)

lemma mret_result:
  assumes "cfg_ok cfg" "hart_ok cfg s" "prv s = 3"
  shows "\<exists>m k c d. mret cfg s = Done (s\<lparr>pc := mepc s AND pc_alignment_mask cfg, mstatus := m, tlb_flushes := k,
        prev_prv := prv s, prev_v := v_mode s, prv := mpp (mstatus s),
        v_mode := bit (mstatus s) 39 \<and> mpp (mstatus s) \<noteq> 3, prv_changed := c, v_changed := d\<rparr>)
    \<and> prv_ok cfg (mpp m) \<and> bit m 3 = bit (mstatus s) 7 \<and> \<not> bit m 39 \<and> adjust_sd m = m
    \<and> (mpp (mstatus s) \<noteq> 3 \<longrightarrow> \<not> bit m 17 \<or> \<not> ext_u cfg)"
proof -
  define s1 where "s1 = s\<lparr>pc := (mepc s AND pc_alignment_mask cfg) AND pc_alignment_mask cfg\<rparr>"
  define m1 where "m1 = (if mpp (mstatus s) \<noteq> 3 then set_field (mstatus s) 0x20000 0 else mstatus s)"
  define m5 where "m5 = set_field (set_field (set_field (set_field m1 0x8 (of_bool (bit m1 7))) 0x80 1)
     0x1800 (if ext_u cfg then 0 else 3)) 0x8000000000 0"
  have sel: "mstatus s1 = mstatus s" "prv s1 = prv s" by (simp_all add: s1_def)
  have q: "mpp m5 = (if ext_u cfg then 0 else 3)" unfolding mpp_bits m5_def by (simp add: bit_0)
  have ok: "prv_ok cfg (if ext_u cfg then 0 else 3)" by (simp add: prv_ok_def)
  obtain p k where w: "prv_ok cfg p"
      "mstatus_write cfg m5 s1 = Some (s1\<lparr>tlb_flushes := k, mstatus := mstatus_new cfg (mstatus s) m5 p\<rparr>)"
    using mstatus_write_result [OF assms(1), of m5 s1] unfolding sel by blast
  define m where "m = mstatus_new cfg (mstatus s) m5 p"
  have "\<not> bit (mstatus s) 39" if "\<not> ext_h cfg" using that assms(2) by (simp add: hart_ok_def)
  then have m: "prv_ok cfg (mpp m)" "bit m 3 = bit (mstatus s) 7" "\<not> bit m 39" "adjust_sd m = m"
      "mpp (mstatus s) \<noteq> 3 \<longrightarrow> \<not> bit m 17 \<or> \<not> ext_u cfg"
    using mstatus_new_fields [OF w(1)] w(1) unfolding m_def by (auto simp: m5_def m1_def)
  have l: "legalize_privilege cfg (mpp (mstatus s)) = Some (mpp (mstatus s))"
    using legalize_result(2) [OF assms(1), of "mpp (mstatus s)"] assms(2) take_bit_2_le by (simp add: hart_ok_def mpp_def)
  have "mret cfg s = insn_done (set_privilege cfg (mpp (mstatus s)) (bit (mstatus s) 39) (s1\<lparr>tlb_flushes := k, mstatus := m\<rparr>))"
    using assms(3) unfolding mret_def set_pc_and_serialize_def epc_read_def Let_def s1_def [symmetric] sel get_flag
      mpp_def [symmetric] m1_def [symmetric] m5_def [symmetric] w(2) m_def [symmetric] option.case
    by simp
  also obtain k' c d where "set_privilege cfg (mpp (mstatus s)) (bit (mstatus s) 39) (s1\<lparr>tlb_flushes := k, mstatus := m\<rparr>)
      = Some (s1\<lparr>tlb_flushes := k, mstatus := m, tlb_flushes := k', prev_prv := prv s, prev_v := v_mode s,
          prv := mpp (mstatus s), v_mode := bit (mstatus s) 39 \<and> mpp (mstatus s) \<noteq> 3, prv_changed := c, v_changed := d\<rparr>)"
    using set_privilege_to [OF l, of "bit (mstatus s) 39" "s1\<lparr>tlb_flushes := k, mstatus := m\<rparr>"] by (auto simp: s1_def)
  finally have r: "mret cfg s = Done (s\<lparr>pc := mepc s AND pc_alignment_mask cfg, mstatus := m, tlb_flushes := k',
        prev_prv := prv s, prev_v := v_mode s, prv := mpp (mstatus s),
        v_mode := bit (mstatus s) 39 \<and> mpp (mstatus s) \<noteq> 3, prv_changed := c, v_changed := d\<rparr>)"
    by (simp add: s1_def insn_done_def)
  show ?thesis
    by (rule exI [of _ m], rule exI [of _ k'], rule exI [of _ c], rule exI [of _ d]) (use r m in \<open>simp only: simp_thms\<close>)
qed

lemma sret_hs_result:
  assumes "cfg_ok cfg" "hart_ok cfg s" "\<not> v_mode s" "sret_permission cfg s = None"
  shows "\<exists>m h k c d. sret cfg s = Done (s\<lparr>pc := sepc s AND pc_alignment_mask cfg, mstatus := m, hstatus := h,
        tlb_flushes := k, prev_prv := prv s, prev_v := False, prv := of_bool (bit (mstatus s) 8),
        v_mode := ext_h cfg \<and> bit (hstatus s) 7, prv_changed := c, v_changed := d\<rparr>)
    \<and> mpp m = mpp (mstatus s) \<and> bit m 1 = bit (mstatus s) 5 \<and> bit m 39 = bit (mstatus s) 39 \<and> \<not> bit m 17
    \<and> (\<forall>i. i \<noteq> 63 \<longrightarrow> i \<noteq> 17 \<longrightarrow> \<not> bit (sstatus_write_mask cfg) i \<longrightarrow> bit m i = bit (mstatus s) i) \<and> adjust_sd m = m"
proof -
  have e: "ext_s cfg" "ext_u cfg" using assms by (auto simp: sret_permission_def cfg_ok_def split: if_splits)
  define s1 where "s1 = s\<lparr>pc := (sepc s AND pc_alignment_mask cfg) AND pc_alignment_mask cfg\<rparr>"
  have sel: "mstatus s1 = mstatus s" "v_mode s1 = False" "sstatus_read cfg s1 = mstatus s AND sstatus_read_mask cfg"
    using assms(3) by (simp_all add: s1_def sstatus_read_def nonvirtual_sstatus_read_def)
  have pm: "legalize_privilege cfg (mpp (mstatus s)) = Some (mpp (mstatus s))" "prv_ok cfg (mpp (mstatus s))"
    using legalize_result(2) [OF assms(1), of "mpp (mstatus s)"] assms(2) take_bit_2_le by (simp_all add: hart_ok_def mpp_def)
  define val where "val = pop_sstatus (mstatus s AND sstatus_read_mask cfg)"
  define w where "w = masked_write (sstatus_write_mask cfg) (mstatus s) val"
  obtain k where w1: "nonvirtual_sstatus_write cfg val s1 = Some (s1\<lparr>tlb_flushes := k, mstatus := mstatus_new cfg (mstatus s) w (mpp (mstatus s))\<rparr>)"
    using sstatus_write_result [OF assms(1), of s1 val] pm unfolding sel w_def by auto
  define m1 where "m1 = mstatus_new cfg (mstatus s) w (mpp (mstatus s))"
  have m1: "mpp m1 = mpp (mstatus s)" "bit m1 (Suc 0) = bit (mstatus s) 5" "bit m1 39 = bit (mstatus s) 39"
      "bit m1 3 = bit (mstatus s) 3" "bit m1 7 = bit (mstatus s) 7"
    using mstatus_new_fields [OF pm(2)] e unfolding m1_def
    by (auto simp: w_def val_def pop_sstatus_def bit_masked_write sstatus_mask_bits sstatus_read_mask_bits bit_and_iff)
  define s2 where "s2 = s1\<lparr>tlb_flushes := k, mstatus := m1\<rparr>"
  define s3 where "s3 = (if ext_h cfg then hstatus_write cfg (set_field (hstatus s) 0x80 0) s2 else s2)"
  have s3: "mstatus s3 = m1" "s3 = s2\<lparr>hstatus := hstatus s3\<rparr>" by (simp_all add: s3_def hstatus_write_def s2_def)
  have q: "mpp (set_field m1 0x20000 0) = mpp (mstatus s)"
    using m1(1) unfolding mpp_bits by simp
  obtain k2 where w2: "mstatus_write cfg (set_field m1 0x20000 0) s3 = Some (s3\<lparr>tlb_flushes := k2, mstatus := mstatus_new cfg m1 (set_field m1 0x20000 0) (mpp (mstatus s))\<rparr>)"
    using mstatus_write_result [OF assms(1), of "set_field m1 0x20000 0" s3] pm unfolding q s3(1) by auto
  define m where "m = mstatus_new cfg m1 (set_field m1 0x20000 0) (mpp (mstatus s))"
  have m: "mpp m = mpp (mstatus s)" "bit m (Suc 0) = bit (mstatus s) 5" "bit m 39 = bit (mstatus s) 39" "\<not> bit m 17"
      "adjust_sd m = m"
    using mstatus_new_fields [OF pm(2)] e m1 unfolding m_def by auto
  have fr: "\<forall>i. i \<noteq> 63 \<longrightarrow> i \<noteq> 17 \<longrightarrow> \<not> bit (sstatus_write_mask cfg) i \<longrightarrow> bit m i = bit (mstatus s) i"
  proof (intro allI impI)
    fix i :: nat assume that: "i \<noteq> 63" "i \<noteq> 17" "\<not> bit (sstatus_write_mask cfg) i"
    have "bit m1 i = bit (mstatus s) i"
      using that mstatus_new_frame [of i cfg "mstatus s" w] mpp_sstatus_masked [of cfg "mstatus s" val]
      unfolding m1_def w_def by (simp add: bit_masked_write)
    then show "bit m i = bit (mstatus s) i"
      using that mstatus_new_frame [of i cfg m1 "set_field m1 0x20000 0"] unfolding m_def q [symmetric] by simp
  qed
  define p where "p = (of_bool (bit (mstatus s) 8) :: u64)"
  have l: "legalize_privilege cfg p = Some p" using e by (simp add: p_def legalize_privilege_def)
  have pv: "p \<noteq> 3" by (simp add: p_def)
  have g: "get_field (mstatus s AND sstatus_read_mask cfg) 0x100 = p"
    using e by (simp add: p_def bit_and_iff sstatus_read_mask_bits)
  have lv: "sret_leave cfg (hstatus s) s2 = Some (s3\<lparr>tlb_flushes := k2, mstatus := m\<rparr>, ext_h cfg \<and> bit (hstatus s) 7)"
    using assms(3) w2 s3(1) unfolding sret_leave_def Let_def s3_def m_def by (simp add: s2_def s1_def)
  have "sret cfg s = insn_done (set_privilege cfg p (ext_h cfg \<and> bit (hstatus s) 7) (s3\<lparr>tlb_flushes := k2, mstatus := m\<rparr>))"
    unfolding sret_def assms(4) option.case set_pc_and_serialize_def epc_read_def sepc_read_def if_not_P [OF assms(3)] Let_def s1_def [symmetric]
      sel(3) sstatus_write_def sel(2) if_False val_def [symmetric] w1 m1_def [symmetric] s2_def [symmetric] g lv prod.case ..
  also obtain k' c d where "set_privilege cfg p (ext_h cfg \<and> bit (hstatus s) 7) (s3\<lparr>tlb_flushes := k2, mstatus := m\<rparr>)
      = Some (s3\<lparr>tlb_flushes := k2, mstatus := m, tlb_flushes := k', prev_prv := prv s, prev_v := False,
          prv := p, v_mode := ext_h cfg \<and> bit (hstatus s) 7, prv_changed := c, v_changed := d\<rparr>)"
    using set_privilege_to [OF l, of "ext_h cfg \<and> bit (hstatus s) 7" "s3\<lparr>tlb_flushes := k2, mstatus := m\<rparr>"] pv assms(3)
    by (auto simp: s3_def hstatus_write_def s2_def s1_def split: if_splits)
  finally have r: "sret cfg s = Done (s\<lparr>pc := sepc s AND pc_alignment_mask cfg, mstatus := m, hstatus := hstatus s3,
        tlb_flushes := k', prev_prv := prv s, prev_v := False, prv := of_bool (bit (mstatus s) 8),
        v_mode := ext_h cfg \<and> bit (hstatus s) 7, prv_changed := c, v_changed := d\<rparr>)"
    by (simp add: s3_def hstatus_write_def s2_def s1_def insn_done_def p_def)
  show ?thesis
    by (rule exI [of _ m], rule exI [of _ "hstatus s3"], rule exI [of _ k'], rule exI [of _ c], rule exI [of _ d])
      (use r m fr in \<open>simp only: simp_thms One_nat_def\<close>)
qed

lemma sret_vs_result:
  assumes "cfg_ok cfg" "hart_ok cfg s" "v_mode s" "sret_permission cfg s = None"
  shows "\<exists>m k c d. sret cfg s = Done (s\<lparr>pc := vsepc s AND pc_alignment_mask cfg, vsstatus := m,
        tlb_flushes := k, prev_prv := prv s, prev_v := True, prv := of_bool (bit (vsstatus s) 8),
        v_mode := True, prv_changed := c, v_changed := d\<rparr>)
    \<and> bit m 1 = bit (vsstatus s) 5"
proof -
  have e: "ext_s cfg" "ext_u cfg" using assms by (auto simp: sret_permission_def cfg_ok_def split: if_splits)
  define s1 where "s1 = s\<lparr>pc := (vsepc s AND pc_alignment_mask cfg) AND pc_alignment_mask cfg\<rparr>"
  have sel: "v_mode s1 = True" "sstatus_read cfg s1 = vsstatus s" "vsstatus s1 = vsstatus s"
    using assms(3) by (simp_all add: s1_def sstatus_read_def)
  define m where "m = adjust_sd (masked_write (sstatus_write_mask cfg) (vsstatus s) (pop_sstatus (vsstatus s)))"
  obtain k where k: "maybe_flush_tlb cfg (vsstatus s)
      ((vsstatus s AND NOT (sstatus_write_mask cfg)) OR (pop_sstatus (vsstatus s) AND sstatus_write_mask cfg)) s1 = s1\<lparr>tlb_flushes := k\<rparr>"
    using maybe_flush_frame by blast
  have w: "vsstatus_write cfg (pop_sstatus (vsstatus s)) s1 = s1\<lparr>tlb_flushes := k, vsstatus := m\<rparr>"
    unfolding vsstatus_write_def Let_def sel if_True m_def masked_write_def k ..
  have m: "bit m (Suc 0) = bit (vsstatus s) 5"
    using e by (simp add: m_def bit_adjust_sd bit_masked_write sstatus_mask_bits pop_sstatus_def)
  define p where "p = (of_bool (bit (vsstatus s) 8) :: u64)"
  have l: "legalize_privilege cfg p = Some p" using e by (simp add: p_def legalize_privilege_def)
  have pv: "p \<noteq> 3" by (simp add: p_def)
  have g: "get_field (vsstatus s) 0x100 = p" by (simp add: p_def)
  have lv: "sret_leave cfg (hstatus s) (s1\<lparr>tlb_flushes := k, vsstatus := m\<rparr>) = Some (s1\<lparr>tlb_flushes := k, vsstatus := m\<rparr>, True)"
    using assms(3) by (simp add: sret_leave_def s1_def)
  have "sret cfg s = insn_done (set_privilege cfg p True (s1\<lparr>tlb_flushes := k, vsstatus := m\<rparr>))"
    unfolding sret_def assms(4) option.case set_pc_and_serialize_def epc_read_def sepc_read_def if_P [OF assms(3)] Let_def s1_def [symmetric]
      sel sstatus_write_def if_True w g lv prod.case ..
  also obtain k' c d where "set_privilege cfg p True (s1\<lparr>tlb_flushes := k, vsstatus := m\<rparr>)
      = Some (s1\<lparr>tlb_flushes := k, vsstatus := m, tlb_flushes := k', prev_prv := prv s, prev_v := True,
          prv := p, v_mode := True, prv_changed := c, v_changed := d\<rparr>)"
    using set_privilege_to [OF l, of True "s1\<lparr>tlb_flushes := k, vsstatus := m\<rparr>"] pv assms(3) by (auto simp: s1_def)
  finally have r: "sret cfg s = Done (s\<lparr>pc := vsepc s AND pc_alignment_mask cfg, vsstatus := m,
        tlb_flushes := k', prev_prv := prv s, prev_v := True, prv := of_bool (bit (vsstatus s) 8),
        v_mode := True, prv_changed := c, v_changed := d\<rparr>)"
    by (simp add: s1_def insn_done_def p_def)
  show ?thesis
    by (rule exI [of _ m], rule exI [of _ k'], rule exI [of _ c], rule exI [of _ d])
      (use r m in \<open>simp only: simp_thms One_nat_def\<close>)
qed

section \<open>Every step keeps the state legal\<close>

lemma hart_ok_target:
  assumes "cfg_ok cfg" "hart_ok cfg s"
  shows "trap_target cfg t s \<noteq> To_M \<Longrightarrow> ext_s cfg \<and> prv s \<le> 1" "trap_target cfg t s = To_VS \<Longrightarrow> v_mode s"
proof -
  have m: "\<not> bit (mideleg_read cfg s) i" "\<not> bit (medeleg s) i" if "\<not> ext_s cfg" for i
    using that assms by (auto simp: hart_ok_def within_def cfg_ok_def mideleg_read_def)
  show "trap_target cfg t s \<noteq> To_M \<Longrightarrow> ext_s cfg \<and> prv s \<le> 1"
    using m hart_ok_prv [OF assms(2)] unfolding trap_target_def Let_def by (auto split: if_splits)
  show "trap_target cfg t s = To_VS \<Longrightarrow> v_mode s"
    unfolding trap_target_def Let_def by (auto split: if_splits)
qed

lemma trap_entry:
  assumes "cfg_ok cfg" "hart_ok cfg s" "\<not> debug_mode s"
  shows "\<exists>s'. take_trap cfg t epc s = Some s' \<and> prv s \<le> prv s' \<and> hart_ok cfg s' \<and>
    (case trap_target cfg t s of
       To_M \<Rightarrow> prv s' = 3 \<and> \<not> v_mode s' \<and> pc s' = (if nmie s then handler_pc (mtvec s) t else 0)
         \<and> mepc s' = epc AND NOT 1 \<and> mcause s' = trap_cause t \<and> mtval s' = trap_tval t
         \<and> mpp (mstatus s') = prv s \<and> \<not> bit (mstatus s') 3 \<and> bit (mstatus s') 7 = bit (mstatus s) 3 \<and> bit (mstatus s') 39 = v_mode s
     | To_HS \<Rightarrow> prv s' = 1 \<and> \<not> v_mode s' \<and> pc s' = handler_pc (stvec s) t
         \<and> sepc s' = epc AND NOT 1 \<and> scause s' = trap_cause t \<and> stval s' = trap_tval t
         \<and> bit (mstatus s') 8 = (prv s = 1) \<and> \<not> bit (mstatus s') 1 \<and> bit (mstatus s') 5 = bit (mstatus s) 1
         \<and> bit (mstatus s') 22 = bit (mstatus s) 22 \<and> (ext_h cfg \<longrightarrow> bit (hstatus s') 7 = v_mode s)
     | To_VS \<Rightarrow> prv s' = 1 \<and> v_mode s' \<and> pc s' = handler_pc (vstvec s) t
         \<and> vsepc s' = epc AND NOT 1 \<and> vscause s' = (if bit (trap_cause t) 63 then trap_cause t - 1 else trap_cause t)
         \<and> vstval s' = trap_tval t \<and> bit (vsstatus s') 8 = (prv s = 1) \<and> \<not> bit (vsstatus s') 1
         \<and> bit (vsstatus s') 5 = bit (vsstatus s) 1 \<and> hstatus s' = hstatus s)"
proof (cases "trap_target cfg t s")
  case To_M
  obtain m k c d where r: "take_trap cfg t epc s =
      Some (s\<lparr>pc := (if nmie s then handler_pc (mtvec s) t else 0), mepc := epc AND NOT 1, mcause := trap_cause t,
        mtval := trap_tval t, mtval2 := trap_tval2 t, mtinst := trap_tinst t, mstatus := m, tlb_flushes := k,
        prev_prv := prv s, prev_v := v_mode s, prv := 3, v_mode := False, prv_changed := c, v_changed := d\<rparr>)"
      "mpp m = prv s" "\<not> bit m 3" "bit m 7 = bit (mstatus s) 3" "bit m 39 \<longleftrightarrow> ext_h cfg \<and> v_mode s" "adjust_sd m = m"
    using trap_to_m_result [OF assms(1,2), of t epc] To_M take_trap_target [OF assms(2,3), of t epc] by auto
  have "v_mode s \<Longrightarrow> ext_h cfg" "prv_ok cfg (prv s)" using assms(2) by (simp_all add: hart_ok_def)
  then have "hart_ok cfg (s\<lparr>pc := (if nmie s then handler_pc (mtvec s) t else 0), mepc := epc AND NOT 1, mcause := trap_cause t,
        mtval := trap_tval t, mtval2 := trap_tval2 t, mtinst := trap_tinst t, mstatus := m, tlb_flushes := k,
        prev_prv := prv s, prev_v := v_mode s, prv := 3, v_mode := False, prv_changed := c, v_changed := d\<rparr>)"
    using assms(2) r(2-) by (simp add: hart_ok_def prv_ok_def [of cfg 3])
  moreover have "prv s \<le> 3" using prv_ok_le [OF \<open>prv_ok cfg (prv s)\<close>] .
  ultimately show ?thesis using r \<open>v_mode s \<Longrightarrow> ext_h cfg\<close> To_M by auto
next
  case To_HS
  note e = hart_ok_target(1) [OF assms(1,2), of t]
  have e1: "ext_s cfg" "prv s \<le> 1" using e To_HS by simp_all
  have tt: "take_trap cfg t epc s = trap_to_hs cfg t epc (trap_interrupt t) (trap_code t) s"
    unfolding take_trap_target [OF assms(2,3)] To_HS by simp
  obtain m k c d where r: "take_trap cfg t epc s =
      Some (s\<lparr>pc := handler_pc (stvec s) t, sepc := epc AND NOT 1, scause := trap_cause t,
        stval := trap_tval t, htval := trap_tval2 t, htinst := trap_tinst t, mstatus := m, tlb_flushes := k,
        hstatus := hs_hstatus cfg t s,
        prev_prv := prv s, prev_v := v_mode s, prv := 1, v_mode := False, prv_changed := c, v_changed := d\<rparr>)"
    and m: "mpp m = mpp (mstatus s)" "\<not> bit m 1" "bit m 5 = bit (mstatus s) 1" "bit m 8 = (prv s = 1)"
      "bit m 39 = bit (mstatus s) 39" "bit m 22 = bit (mstatus s) 22" "adjust_sd m = m"
    using trap_to_hs_result [OF assms(1,2) e1, of t epc] unfolding tt [symmetric] by blast
  have "prv_ok cfg 1" using e1 assms(1) by (simp add: prv_ok_def cfg_ok_def)
  then have "hart_ok cfg (s\<lparr>pc := handler_pc (stvec s) t, sepc := epc AND NOT 1, scause := trap_cause t,
        stval := trap_tval t, htval := trap_tval2 t, htinst := trap_tinst t, mstatus := m, tlb_flushes := k,
        hstatus := hs_hstatus cfg t s,
        prev_prv := prv s, prev_v := v_mode s, prv := 1, v_mode := False, prv_changed := c, v_changed := d\<rparr>)"
    using assms(2) m by (simp add: hart_ok_def)
  then show ?thesis
    unfolding To_HS irq_mode.case using r m e1 hs_hstatus_bits [of cfg t s]
    by (intro exI conjI) (assumption | simp)+
next
  case To_VS
  have v: "v_mode s" using hart_ok_target(2) [OF assms(1,2) To_VS] .
  have e1: "ext_s cfg" "prv s \<le> 1" using hart_ok_target(1) [OF assms(1,2), of t] To_VS by simp_all
  have tt: "take_trap cfg t epc s = trap_to_vs cfg t epc (trap_interrupt t) (trap_code t) s"
    unfolding take_trap_target [OF assms(2,3)] To_VS by simp
  obtain m k c d where r: "take_trap cfg t epc s =
      Some (s\<lparr>pc := handler_pc (vstvec s) t, vsepc := epc AND NOT 1,
        vscause := (if bit (trap_cause t) 63 then trap_cause t - 1 else trap_cause t), vstval := trap_tval t,
        vsstatus := m, tlb_flushes := k,
        prev_prv := prv s, prev_v := v_mode s, prv := 1, v_mode := True, prv_changed := c, v_changed := d\<rparr>)"
    and m: "\<not> bit m 1" "bit m 5 = bit (vsstatus s) 1" "bit m 8 = (prv s = 1)"
    using trap_to_vs_result [OF assms(1,2) v, of t epc] unfolding tt [symmetric] by blast
  have "prv_ok cfg 1" "ext_h cfg" using e1 v assms by (auto simp: prv_ok_def cfg_ok_def hart_ok_def)
  then have "hart_ok cfg (s\<lparr>pc := handler_pc (vstvec s) t, vsepc := epc AND NOT 1,
        vscause := (if bit (trap_cause t) 63 then trap_cause t - 1 else trap_cause t), vstval := trap_tval t,
        vsstatus := m, tlb_flushes := k,
        prev_prv := prv s, prev_v := v_mode s, prv := 1, v_mode := True, prv_changed := c, v_changed := d\<rparr>)"
    using assms(2) m by (simp add: hart_ok_def)
  then show ?thesis
    unfolding To_VS irq_mode.case using r m e1
    by (intro exI conjI) (assumption | simp)+
qed

text \<open>The steps of a hart: instructions whose exceptions are taken at their address, interrupts,
  debug requests, and devices that drive interrupt lines.\<close>

datatype hart_op =
    Trap trap_t u64 | Interrupt | Mret | Sret | Mnret | Dret | Wfi u64 | Ecall
  | Csrrw csr_t u64 | Csrrs csr_t bool u64 | Csrrc csr_t bool u64
  | Enter_Debug u8 | Device u64 u64

definition insn_end :: "hart_cfg \<Rightarrow> u64 \<Rightarrow> exec_result \<Rightarrow> hart_state \<Rightarrow> hart_state option" where
  "insn_end cfg insn r s =
     (case r of Done s' \<Rightarrow> Some s' | Wait s' \<Rightarrow> Some s'
      | Raise c \<Rightarrow> take_trap cfg (plain_trap c) (pc s) s
      | Illegal \<Rightarrow> take_trap cfg ((plain_trap 2)\<lparr>trap_tval := insn\<rparr>) (pc s) s
      | Virtual \<Rightarrow> take_trap cfg ((plain_trap 22)\<lparr>trap_tval := insn\<rparr>) (pc s) s
      | Aborted \<Rightarrow> None)"

fun hart_insn :: "hart_cfg \<Rightarrow> bool \<Rightarrow> hart_op \<Rightarrow> hart_state \<Rightarrow> exec_result" where
  "hart_insn cfg stce Mret s = mret cfg s"
| "hart_insn cfg stce Sret s = sret cfg s"
| "hart_insn cfg stce Mnret s = mnret cfg s"
| "hart_insn cfg stce Dret s = dret cfg s"
| "hart_insn cfg stce (Wfi npc) s = wfi cfg npc s"
| "hart_insn cfg stce Ecall s = ecall s"
| "hart_insn cfg stce (Csrrw r x) s = csrrw cfg stce r x s"
| "hart_insn cfg stce (Csrrs r nz x) s = csrrs cfg stce r nz x s"
| "hart_insn cfg stce (Csrrc r nz x) s = csrrc cfg stce r nz x s"
| "hart_insn cfg stce (Trap t epc) s = insn_done (take_trap cfg t epc s)"
| "hart_insn cfg stce Interrupt s = insn_done (interrupt_step cfg s)"
| "hart_insn cfg stce (Enter_Debug c) s = insn_done (enter_debug_mode cfg c s)"
| "hart_insn cfg stce (Device m x) s = Done (s\<lparr>mip := masked_write m (mip s) x\<rparr>)"

definition hart_step :: "hart_cfg \<Rightarrow> bool \<Rightarrow> u64 \<Rightarrow> hart_op \<Rightarrow> hart_state \<Rightarrow> hart_state option" where
  "hart_step cfg stce insn oper s = insn_end cfg insn (hart_insn cfg stce oper s) s"

fun hart_run :: "hart_cfg \<Rightarrow> bool \<Rightarrow> (u64 \<times> hart_op) list \<Rightarrow> hart_state \<Rightarrow> hart_state option" where
  "hart_run cfg stce [] s = Some s"
| "hart_run cfg stce ((insn, oper) # ops) s =
     (case hart_step cfg stce insn oper s of None \<Rightarrow> None | Some s' \<Rightarrow> hart_run cfg stce ops s')"

text \<open>An outcome is fine when it is a legal state or an exception.\<close>

definition result_ok :: "hart_cfg \<Rightarrow> exec_result \<Rightarrow> bool" where
  "result_ok cfg r = (case r of Done s' \<Rightarrow> hart_ok cfg s' | Wait s' \<Rightarrow> hart_ok cfg s' | Aborted \<Rightarrow> False | _ \<Rightarrow> True)"

lemma take_trap_ok:
  assumes "cfg_ok cfg" "hart_ok cfg s"
  shows "\<exists>s'. take_trap cfg t epc s = Some s' \<and> hart_ok cfg s'"
proof (cases "debug_mode s")
  case True
  then show ?thesis using assms(2) by (simp add: take_trap_def hart_ok_def)
next
  case False
  then show ?thesis using trap_entry [OF assms False, of t epc] by blast
qed

lemma set_privilege_ok:
  assumes "cfg_ok cfg" "hart_ok cfg s" "p \<le> 3" "v \<longrightarrow> ext_h cfg"
  shows "\<exists>s'. set_privilege cfg p v s = Some s' \<and> hart_ok cfg s'"
proof -
  obtain q k c d where "prv_ok cfg q" "set_privilege cfg p v s = Some (s\<lparr>tlb_flushes := k, prev_prv := prv s, prev_v := v_mode s, prv := q,
         v_mode := v \<and> q \<noteq> 3, prv_changed := c, v_changed := d\<rparr>)"
    using set_privilege_result [OF assms(1,3)] by blast
  then show ?thesis using assms(2,4) by (simp add: hart_ok_def)
qed

lemma mstatus_write_ok:
  assumes "cfg_ok cfg" "hart_ok cfg s"
  shows "\<exists>s'. mstatus_write cfg val s = Some s' \<and> hart_ok cfg s' \<and> (\<exists>k m. s' = s\<lparr>tlb_flushes := k, mstatus := m\<rparr>)"
proof -
  obtain p k where p: "prv_ok cfg p" "mstatus_write cfg val s = Some (s\<lparr>tlb_flushes := k, mstatus := mstatus_new cfg (mstatus s) val p\<rparr>)"
    using mstatus_write_result [OF assms(1)] by blast
  have "hart_ok cfg (s\<lparr>tlb_flushes := k, mstatus := mstatus_new cfg (mstatus s) val p\<rparr>)"
    using assms(2) mstatus_new_fields [OF p(1), of "mstatus s" val] p(1) by (simp add: hart_ok_def) auto
  then show ?thesis using p(2) by blast
qed

lemma mret_ok: "cfg_ok cfg \<Longrightarrow> hart_ok cfg s \<Longrightarrow> result_ok cfg (mret cfg s)"
proof (cases "prv s < 3")
  case False
  assume a: "cfg_ok cfg" "hart_ok cfg s"
  then have "prv s = 3" using False hart_ok_prv by blast
  from mret_result [OF a this] obtain m k c d where "mret cfg s = Done (s\<lparr>pc := mepc s AND pc_alignment_mask cfg, mstatus := m, tlb_flushes := k,
        prev_prv := prv s, prev_v := v_mode s, prv := mpp (mstatus s),
        v_mode := bit (mstatus s) 39 \<and> mpp (mstatus s) \<noteq> 3, prv_changed := c, v_changed := d\<rparr>)"
     "prv_ok cfg (mpp m)" "\<not> bit m 39" "adjust_sd m = m" by blast
  then show ?thesis using a(2) by (simp add: result_ok_def hart_ok_def)
qed (simp add: mret_def result_ok_def)

lemma sret_ok:
  assumes "cfg_ok cfg" "hart_ok cfg s"
  shows "result_ok cfg (sret cfg s)"
proof (cases "sret_permission cfg s")
  case None
  have e: "ext_s cfg" using None by (auto simp: sret_permission_def split: if_splits)
  then have pb: "prv_ok cfg (of_bool b)" for b using assms(1) by (cases b) (simp_all add: prv_ok_def cfg_ok_def)
  show ?thesis
  proof (cases "v_mode s")
    case True
    from sret_vs_result [OF assms True None] obtain m k c d where
      "sret cfg s = Done (s\<lparr>pc := vsepc s AND pc_alignment_mask cfg, vsstatus := m,
        tlb_flushes := k, prev_prv := prv s, prev_v := True, prv := of_bool (bit (vsstatus s) 8),
        v_mode := True, prv_changed := c, v_changed := d\<rparr>)" by blast
    then show ?thesis using assms(2) pb True by (simp add: result_ok_def hart_ok_def)
  next
    case False
    from sret_hs_result [OF assms False None] obtain m h k c d where
      "sret cfg s = Done (s\<lparr>pc := sepc s AND pc_alignment_mask cfg, mstatus := m, hstatus := h,
        tlb_flushes := k, prev_prv := prv s, prev_v := False, prv := of_bool (bit (mstatus s) 8),
        v_mode := ext_h cfg \<and> bit (hstatus s) 7, prv_changed := c, v_changed := d\<rparr>)"
      "mpp m = mpp (mstatus s)" "bit m 39 = bit (mstatus s) 39" "adjust_sd m = m" by blast
    then show ?thesis using assms(2) pb by (simp add: result_ok_def hart_ok_def)
  qed
next
  case (Some r)
  then show ?thesis by (auto simp: sret_def sret_permission_def result_ok_def split: if_splits)
qed

lemma hart_ok_frames [simp]:
  "hart_ok cfg (s\<lparr>pc := x\<rparr>) = hart_ok cfg s" "hart_ok cfg (s\<lparr>in_wfi := b\<rparr>) = hart_ok cfg s"
  "hart_ok cfg (s\<lparr>debug_mode := b\<rparr>) = hart_ok cfg s" "hart_ok cfg (s\<lparr>single_step := st\<rparr>) = hart_ok cfg s"
  "hart_ok cfg (s\<lparr>dpc := x\<rparr>) = hart_ok cfg s" "hart_ok cfg (s\<lparr>dcsr_cause := c\<rparr>) = hart_ok cfg s"
  by (simp_all add: hart_ok_def)

lemma mnstatus_write_ok:
  assumes "cfg_ok cfg" "bit old 7 \<longrightarrow> ext_h cfg"
  shows "\<exists>m. mnstatus_write cfg old val = Some m \<and> (bit m 7 \<longrightarrow> ext_h cfg)"
proof -
  obtain p where "legalize_privilege cfg (get_field val 0x1800) = Some p"
    using legalize_result(1) [OF assms(1), of "get_field val 0x1800"] take_bit_2_le by (auto simp: mpp_def)
  then show ?thesis
    using assms(2) by (auto simp: mnstatus_write_def Let_def bit_or_iff bit_and_iff bit_not_iff)
qed

lemma mnret_ok:
  assumes "cfg_ok cfg" "hart_ok cfg s"
  shows "result_ok cfg (mnret cfg s)"
proof (cases "\<not> ext_smrnmi cfg \<or> prv s < 3")
  case False
  then obtain mn where mn: "mnstatus s = Some mn" "bit mn 7 \<longrightarrow> ext_h cfg" using assms(2) by (auto simp: hart_ok_def)
  define s1 where "s1 = set_pc_and_serialize cfg (epc_read cfg (mnepc s)) s"
  have s1: "hart_ok cfg s1" using assms(2) by (simp add: s1_def set_pc_and_serialize_def)
  obtain s2 where s2: "(if get_field mn 0x1800 \<noteq> 3 then mstatus_write cfg (set_field (mstatus s1) 0x20000 0) s1 else Some s1) = Some s2"
      "hart_ok cfg s2"
    using mstatus_write_ok [OF assms(1) s1] s1 by (cases "get_field mn 0x1800 = 3") auto
  obtain m' where m': "mnstatus_write cfg mn (set_field mn 0x8 1) = Some m'" "bit m' 7 \<longrightarrow> ext_h cfg"
    using mnstatus_write_ok [OF assms(1) mn(2)] by blast
  have "hart_ok cfg (s2\<lparr>mnstatus := Some m'\<rparr>)" using s2(2) m'(2) False by (simp add: hart_ok_def)
  then obtain s3 where "set_privilege cfg (get_field mn 0x1800) (get_field mn 0x80 \<noteq> 0) (s2\<lparr>mnstatus := Some m'\<rparr>) = Some s3" "hart_ok cfg s3"
    using set_privilege_ok [OF assms(1), of "s2\<lparr>mnstatus := Some m'\<rparr>" "get_field mn 0x1800" "get_field mn 0x80 \<noteq> 0"] mn(2) take_bit_2_le
    by auto
  then show ?thesis
    unfolding mnret_def if_not_P [OF False] mn(1) option.case Let_def s1_def [symmetric] s2(1) m'(1)
    by (simp add: insn_done_def result_ok_def)
qed (simp add: mnret_def result_ok_def)

lemma dret_ok:
  assumes "cfg_ok cfg" "hart_ok cfg s"
  shows "result_ok cfg (dret cfg s)"
proof (cases "debug_mode s")
  case True
  define s0 where "s0 = set_pc_and_serialize cfg (epc_read cfg (dpc s)) s"
  have s0: "hart_ok cfg s0" using assms(2) by (simp add: s0_def set_pc_and_serialize_def)
  obtain s1 where s1: "set_privilege cfg (dcsr_prv s) (dcsr_v s) s0 = Some s1" "hart_ok cfg s1"
    using set_privilege_ok [OF assms(1) s0, of "dcsr_prv s" "dcsr_v s"] assms(2) by (auto simp: hart_ok_def [of cfg s])
  obtain s2 where s2: "(if prv s1 < 3 then mstatus_write cfg (mstatus s1 AND NOT 0x20000) s1 else Some s1) = Some s2" "hart_ok cfg s2"
    using mstatus_write_ok [OF assms(1) s1(2)] s1(2) by (cases "prv s1 < 3") auto
  show ?thesis
    using True s2 unfolding dret_def s0_def [symmetric] s1(1) option.case s2(1) by (simp add: result_ok_def)
qed (simp add: dret_def result_ok_def)

lemma wfi_ok: "hart_ok cfg s \<Longrightarrow> result_ok cfg (wfi cfg npc s)"
  unfolding wfi_def Let_def by (auto simp: result_ok_def set_pc_and_serialize_def)

lemma ecall_ok: "hart_ok cfg s \<Longrightarrow> result_ok cfg (ecall s)"
  using hart_ok_prv(1) [of cfg s] by (auto simp: ecall_def result_ok_def)

lemma enter_debug_ok:
  assumes "cfg_ok cfg" "hart_ok cfg s"
  shows "\<exists>s'. enter_debug_mode cfg c s = Some s' \<and> hart_ok cfg s'"
proof -
  have "prv s \<le> 3" using assms(2) prv_ok_le by (auto simp: hart_ok_def)
  then have "hart_ok cfg (s\<lparr>debug_mode := True, dcsr_cause := c, dcsr_prv := prv s, dcsr_v := v_mode s\<rparr>)"
    using assms(2) by (simp add: hart_ok_def)
  then show ?thesis
    using set_privilege_ok [OF assms(1), of "s\<lparr>debug_mode := True, dcsr_cause := c, dcsr_prv := prv s, dcsr_v := v_mode s\<rparr>" 3 False]
    unfolding enter_debug_mode_def by auto
qed

lemma interrupt_step_ok:
  assumes "cfg_ok cfg" "hart_ok cfg s"
  shows "\<exists>s'. interrupt_step cfg s = Some s' \<and> hart_ok cfg s'"
proof -
  have ok: "hart_ok cfg (if mip s AND mie s = 0 then s else s\<lparr>in_wfi := False\<rparr>)" using assms(2) by simp
  show ?thesis
    unfolding interrupt_step_def interrupt_choice_result [OF assms(2)]
    using ok take_trap_ok [OF assms(1) ok] assms(2)
    by (auto split: option.split)
qed

lemma within_masked: "within old m \<Longrightarrow> within w m \<Longrightarrow> within (masked_write w old val) m"
  by (auto simp: within_def bit_masked_write)

lemma standard_only_masked: "standard_only old \<Longrightarrow> standard_only w \<Longrightarrow> standard_only (masked_write w old val)"
  by (simp add: standard_only_def bit_masked_write)

lemma within_refl [simp]: "within x x" by (simp add: within_def)

lemma within_and: "within x m \<Longrightarrow> within (x AND y) m" "within x m \<Longrightarrow> within (y AND x) m"
  by (auto simp: within_def bit_and_iff)

lemma within_or: "within x m \<Longrightarrow> within y m \<Longrightarrow> within (x OR y) m"
  by (auto simp: within_def bit_or_iff)

lemma within_iff: "within x m \<longleftrightarrow> x AND m = x"
proof
  show "x AND m = x" if "within x m" using that by (intro bit_word_eqI) (auto simp: within_def bit_and_iff)
  show "within x m" if e: "x AND m = x" unfolding within_def using bit_and_iff [of x m] unfolding e by blast
qed

lemma status_reg_ok:
  "hart_ok cfg (s\<lparr>mepc := x\<rparr>) = hart_ok cfg s" "hart_ok cfg (s\<lparr>mtvec := x\<rparr>) = hart_ok cfg s"
  "hart_ok cfg (s\<lparr>mcause := x\<rparr>) = hart_ok cfg s" "hart_ok cfg (s\<lparr>mtval := x\<rparr>) = hart_ok cfg s"
  "hart_ok cfg (s\<lparr>mtval2 := x\<rparr>) = hart_ok cfg s" "hart_ok cfg (s\<lparr>mtinst := x\<rparr>) = hart_ok cfg s"
  "hart_ok cfg (s\<lparr>sepc := x\<rparr>) = hart_ok cfg s" "hart_ok cfg (s\<lparr>stvec := x\<rparr>) = hart_ok cfg s"
  "hart_ok cfg (s\<lparr>scause := x\<rparr>) = hart_ok cfg s" "hart_ok cfg (s\<lparr>stval := x\<rparr>) = hart_ok cfg s"
  "hart_ok cfg (s\<lparr>htval := x\<rparr>) = hart_ok cfg s" "hart_ok cfg (s\<lparr>htinst := x\<rparr>) = hart_ok cfg s"
  "hart_ok cfg (s\<lparr>vsepc := x\<rparr>) = hart_ok cfg s" "hart_ok cfg (s\<lparr>vstvec := x\<rparr>) = hart_ok cfg s"
  "hart_ok cfg (s\<lparr>vscause := x\<rparr>) = hart_ok cfg s" "hart_ok cfg (s\<lparr>vstval := x\<rparr>) = hart_ok cfg s"
  "hart_ok cfg (s\<lparr>mnepc := x\<rparr>) = hart_ok cfg s" "hart_ok cfg (s\<lparr>hstatus := x\<rparr>) = hart_ok cfg s"
  "hart_ok cfg (s\<lparr>mip := x\<rparr>) = hart_ok cfg s"
  by (simp_all add: hart_ok_def)

lemma vsstatus_write_frame: "\<exists>k m. vsstatus_write cfg val s = s\<lparr>tlb_flushes := k, vsstatus := m\<rparr>"
proof -
  obtain k where k: "(if v_mode s then maybe_flush_tlb cfg (vsstatus s)
      ((vsstatus s AND NOT (sstatus_write_mask cfg)) OR (val AND sstatus_write_mask cfg)) s else s) = s\<lparr>tlb_flushes := k\<rparr>"
  proof (cases "v_mode s")
    case True
    then show ?thesis using that maybe_flush_frame by (metis (no_types))
  next
    case False
    then show ?thesis using that [of "tlb_flushes s"] by simp
  qed
  show ?thesis unfolding vsstatus_write_def Let_def k by blast
qed

lemma sstatus_write_ok:
  assumes "cfg_ok cfg" "hart_ok cfg s"
  shows "\<exists>s'. sstatus_write cfg val s = Some s' \<and> hart_ok cfg s'"
proof (cases "v_mode s")
  case True
  obtain k m where "vsstatus_write cfg val s = s\<lparr>tlb_flushes := k, vsstatus := m\<rparr>" using vsstatus_write_frame by blast
  then show ?thesis using True assms(2) by (simp add: sstatus_write_def hart_ok_def)
next
  case False
  then show ?thesis
    using mstatus_write_ok [OF assms] by (auto simp: sstatus_write_def nonvirtual_sstatus_write_def sstatus_mask_32 Let_def)
qed

lemma ie_write_ok:
  assumes "hart_ok cfg s" "a = sip_sie_accr \<or> a = vsip_vsie_accr \<or> a = hip_hie_accr"
  shows "hart_ok cfg (ie_write cfg a val s)"
proof -
  have d: "\<not> bit (mideleg_read cfg s) 0" "\<not> bit (mideleg_read cfg s) 4" "\<not> bit (mideleg_read cfg s) 8"
    using assms(1) by (auto simp: hart_ok_def within_def mideleg_read_def bit_or_iff split: if_splits)
  have "standard_only (deleg_mask cfg a s AND ie_write_mask a)"
    using assms(2) d unfolding standard_only_def
    by (auto simp: sip_sie_accr_def vsip_vsie_accr_def hip_hie_accr_def deleg_mask_def bit_and_iff)
  then have "standard_only (masked_write (deleg_mask cfg a s AND ie_write_mask a) (mie s) (push_bit (shiftamt a) val))"
    using assms(1) standard_only_masked by (simp add: hart_ok_def)
  then show ?thesis using assms(1) by (simp add: ie_write_def hart_ok_def)
qed

lemma mie_write_ok: "hart_ok cfg s \<Longrightarrow> hart_ok cfg (mie_write cfg val s)"
proof -
  assume h: "hart_ok cfg s"
  have "standard_only ((if ext_s cfg then 0x2 OR 0x20 OR 0x200 else 0) OR push_bit 12 (of_bool (any_custom_extensions cfg))
      OR (if ext_sscofpmf cfg then 0x2000 else 0) OR (if ext_h cfg then 0x1444 else 0) OR 0x8 OR 0x80 OR 0x800)"
    by (simp add: standard_only_def bit_or_iff)
  then have "standard_only (mie (mie_write cfg val s))"
    using h standard_only_masked by (simp add: mie_write_def Let_def hart_ok_def or.assoc)
  then show ?thesis using h by (simp add: mie_write_def hart_ok_def Let_def)
qed

lemma deleg_write_ok:
  assumes "hart_ok cfg s"
  shows "ext_s cfg \<Longrightarrow> hart_ok cfg (medeleg_write cfg val s)" "ext_s cfg \<Longrightarrow> hart_ok cfg (mideleg_write cfg val s)"
    "hart_ok cfg (hedeleg_write val s)" "hart_ok cfg (hideleg_write cfg val s)"
proof -
  assume e: "ext_s cfg"
  have "within (medeleg (medeleg_write cfg val s)) (if ext_h cfg then 0xF0B7FF else 0xB3FF)"
  proof -
    have "within (medeleg s) (if ext_h cfg then 0xF0B7FF else 0xB3FF)" using assms e by (simp add: hart_ok_def)
    then show ?thesis unfolding medeleg_write_def by (cases "ext_h cfg") (simp_all add: within_masked)
  qed
  then show "hart_ok cfg (medeleg_write cfg val s)" using assms e by (simp add: hart_ok_def medeleg_write_def)
next
  assume e: "ext_s cfg"
  have "within ((0x2 OR 0x20 OR 0x200) OR push_bit 12 (of_bool (any_custom_extensions cfg)) OR (if ext_sscofpmf cfg then 0x2000 else 0)) 0x3222"
    unfolding within_iff by (cases "any_custom_extensions cfg") simp_all
  then have "within (mideleg (mideleg_write cfg val s)) 0x3222"
    using e unfolding mideleg_write_def Let_def by (auto intro!: within_and)
  then show "hart_ok cfg (mideleg_write cfg val s)" using assms e by (simp add: hart_ok_def mideleg_write_def Let_def)
next
  have "within (hedeleg (hedeleg_write val s)) 0xB1FF"
    using assms unfolding hedeleg_write_def by (auto intro!: within_masked simp: hart_ok_def)
  then show "hart_ok cfg (hedeleg_write val s)" using assms by (simp add: hart_ok_def hedeleg_write_def)
  have "within (hideleg (hideleg_write cfg val s)) 0x444"
  proof -
    have "within (hideleg s) 0x444" using assms by (simp add: hart_ok_def)
    then show ?thesis unfolding hideleg_write_def hideleg_read_def by (simp add: within_masked within_and(1))
  qed
  then show "hart_ok cfg (hideleg_write cfg val s)" using assms by (simp add: hart_ok_def hideleg_write_def)
qed

lemma dcsr_write_ok: "hart_ok cfg s \<Longrightarrow> hart_ok cfg (dcsr_write cfg val s)"
  using take_bit_2_le [of val] by (simp add: hart_ok_def dcsr_write_def)

lemma csr_write_ok:
  assumes "cfg_ok cfg" "hart_ok cfg s" "csr_exists cfg r" "r = MEDELEG \<or> r = MIDELEG \<longrightarrow> ext_s cfg"
  shows "\<exists>s'. csr_write cfg stce r val s = Some s' \<and> hart_ok cfg s'"
proof (cases r)
  case MSTATUS
  then show ?thesis using mstatus_write_ok [OF assms(1,2)] by auto
next
  case SSTATUS
  then show ?thesis using sstatus_write_ok [OF assms(1,2)] by simp
next
  case VSSTATUS
  obtain k m where "vsstatus_write cfg val s = s\<lparr>tlb_flushes := k, vsstatus := m\<rparr>" using vsstatus_write_frame by blast
  then show ?thesis using VSSTATUS assms(2) by (simp add: hart_ok_def)
next
  case MNSTATUS
  then obtain m where m: "mnstatus s = Some m" "bit m 7 \<longrightarrow> ext_h cfg" using assms(2,3) by (auto simp: hart_ok_def csr_exists_def)
  then show ?thesis using mnstatus_write_ok [OF assms(1) m(2), of val] MNSTATUS assms(2) by (auto simp: hart_ok_def)
next
  case MIP
  then show ?thesis using assms(2) by (simp add: mip_write_def Let_def status_reg_ok)
qed (use assms(2,4) in \<open>simp_all add: status_reg_ok hstatus_write_def ie_write_ok ip_write_def mie_write_ok deleg_write_ok dcsr_write_ok\<close>)

lemma get_csr_permission:
  "get_csr cfg r w s = Inr old \<Longrightarrow> csr_exists cfg r \<and> verify_permissions cfg r w s = None \<and> old = csr_read cfg r s"
  by (simp add: get_csr_def split: if_splits option.splits)

lemma permission_deleg: "verify_permissions cfg r w s = None \<Longrightarrow> r = MEDELEG \<or> r = MIDELEG \<longrightarrow> ext_s cfg"
  by (auto simp: verify_permissions_def split: option.splits if_splits)

lemma permission_error:
  assumes "verify_permissions cfg r w s = Some e"
  shows "e = Illegal \<or> e = Virtual"
proof -
  have "csr_verify_permissions cfg r w s = Some x \<Longrightarrow> x = Illegal \<or> x = Virtual" for x
    unfolding csr_verify_permissions_def Let_def by (auto split: if_splits)
  then show ?thesis using assms unfolding verify_permissions_def by (auto split: option.splits if_splits)
qed

lemma get_csr_error: "get_csr cfg r w s = Inl e \<Longrightarrow> e = Illegal \<or> e = Virtual"
  using permission_error by (auto simp: get_csr_def split: if_splits option.splits)

lemma put_csr_ok:
  assumes "cfg_ok cfg" "hart_ok cfg s" "get_csr cfg r w s = Inr old"
  shows "result_ok cfg (insn_done (put_csr cfg stce r val s))"
proof -
  obtain s' where "csr_write cfg stce r val s = Some s'" "hart_ok cfg s'"
    using csr_write_ok [OF assms(1,2)] get_csr_permission [OF assms(3)] permission_deleg by blast
  then show ?thesis using get_csr_permission [OF assms(3)] by (simp add: put_csr_def insn_done_def result_ok_def)
qed

lemma csr_insn_ok:
  assumes "cfg_ok cfg" "hart_ok cfg s"
  shows "result_ok cfg (csrrw cfg stce r x s)" "result_ok cfg (csrrs cfg stce r nz x s)" "result_ok cfg (csrrc cfg stce r nz x s)"
  using put_csr_ok [OF assms] get_csr_error assms(2)
  unfolding csrrw_def csrrs_def csrrc_def by (fastforce simp: result_ok_def split: sum.split)+

lemma hart_insn_ok:
  assumes "cfg_ok cfg" "hart_ok cfg s"
  shows "result_ok cfg (hart_insn cfg stce oper s)"
proof (cases oper)
  case (Trap t epc)
  then show ?thesis using take_trap_ok [OF assms, of t epc] by (auto simp: insn_done_def result_ok_def)
next
  case Interrupt
  then show ?thesis using interrupt_step_ok [OF assms] by (auto simp: insn_done_def result_ok_def)
next
  case (Enter_Debug c)
  then show ?thesis using enter_debug_ok [OF assms, of c] by (auto simp: insn_done_def result_ok_def)
next
  case (Device m x)
  then show ?thesis using assms(2) by (simp add: result_ok_def status_reg_ok)
qed (simp_all add: assms mret_ok sret_ok mnret_ok dret_ok wfi_ok ecall_ok csr_insn_ok)

lemma hart_step_ok:
  assumes "cfg_ok cfg" "hart_ok cfg s"
  shows "\<exists>s'. hart_step cfg stce insn oper s = Some s' \<and> hart_ok cfg s'"
  using hart_insn_ok [OF assms, of stce oper] take_trap_ok [OF assms]
  unfolding hart_step_def insn_end_def result_ok_def by (auto split: exec_result.splits)

lemma hart_run_ok:
  assumes "cfg_ok cfg" "hart_ok cfg s"
  shows "\<exists>s'. hart_run cfg stce ops s = Some s' \<and> hart_ok cfg s'"
  using assms(2)
proof (induction ops arbitrary: s)
  case (Cons io ops)
  obtain insn oper where io: "io = (insn, oper)" by (cases io)
  obtain s1 where "hart_step cfg stce insn oper s = Some s1" "hart_ok cfg s1"
    using hart_step_ok [OF assms(1) Cons.prems] by blast
  then show ?case using Cons.IH io by simp
qed simp

section \<open>Confinement\<close>

text \<open>What belongs to machine mode, and to the hypervisor as a guest sees it.\<close>

definition machine_regs :: "hart_state \<Rightarrow> u64 list \<times> u64 option \<times> bool \<times> bool" where
  "machine_regs s = ([mtvec s, mepc s, mcause s, mtval s, mtval2 s, mtinst s, medeleg s, mideleg s, mnepc s, dpc s, dcsr_prv s],
     mnstatus s, dcsr_v s, debug_mode s)"

definition hypervisor_regs :: "hart_state \<Rightarrow> u64 list" where
  "hypervisor_regs s = [mstatus s, stvec s, sepc s, scause s, stval s, hstatus s, hedeleg s, hideleg s, htval s, htinst s]"

definition confined :: "hart_cfg \<Rightarrow> hart_state \<Rightarrow> hart_state \<Rightarrow> bool" where
  "confined cfg s s' \<longleftrightarrow>
     prv s' \<noteq> 3 \<and> machine_regs s' = machine_regs s
     \<and> (\<forall>i. i \<noteq> 63 \<longrightarrow> i \<noteq> 17 \<longrightarrow> \<not> bit (sstatus_write_mask cfg) i \<longrightarrow> bit (mstatus s') i = bit (mstatus s) i)
     \<and> (bit (mstatus s') 17 \<longrightarrow> bit (mstatus s) 17)
     \<and> (\<forall>i. \<not> bit (mideleg_read cfg s) i \<longrightarrow> bit (mie s') i = bit (mie s) i \<and> bit (mip s') i = bit (mip s) i)
     \<and> (v_mode s \<longrightarrow> v_mode s' \<and> hypervisor_regs s' = hypervisor_regs s
          \<and> (\<forall>i. \<not> bit (hideleg_read cfg s) i \<longrightarrow> bit (mie s') i = bit (mie s) i \<and> bit (mip s') i = bit (mip s) i))"

lemma csr_privs:
  "csr_priv MSTATUS = 3" "csr_priv MEDELEG = 3" "csr_priv MIDELEG = 3" "csr_priv MIE = 3" "csr_priv MTVEC = 3"
  "csr_priv MEPC = 3" "csr_priv MCAUSE = 3" "csr_priv MTVAL = 3" "csr_priv MIP = 3" "csr_priv MTINST = 3" "csr_priv MTVAL2 = 3"
  "csr_priv SSTATUS = 1" "csr_priv SIE = 1" "csr_priv STVEC = 1" "csr_priv SEPC = 1" "csr_priv SCAUSE = 1" "csr_priv STVAL = 1"
  "csr_priv SIP = 1" "csr_priv VSSTATUS = 2" "csr_priv VSIE = 2" "csr_priv VSTVEC = 2" "csr_priv VSEPC = 2" "csr_priv VSCAUSE = 2"
  "csr_priv VSTVAL = 2" "csr_priv VSIP = 2" "csr_priv HSTATUS = 2" "csr_priv HEDELEG = 2" "csr_priv HIDELEG = 2" "csr_priv HIE = 2"
  "csr_priv HTVAL = 2" "csr_priv HIP = 2" "csr_priv HVIP = 2" "csr_priv HTINST = 2" "csr_priv MNEPC = 3" "csr_priv MNSTATUS = 3"
  "csr_priv DCSR = 3" "csr_priv DPC = 3"
  by code_simp+

lemma permission_level:
  assumes "verify_permissions cfg r w s = None"
  shows "csr_priv r \<le> (if prv s = 1 \<and> \<not> v_mode s then 2 else prv s)"
    "csr_priv r = 1 \<longrightarrow> ext_s cfg" "csr_priv r = 2 \<longrightarrow> ext_h cfg"
  using assms unfolding verify_permissions_def csr_verify_permissions_def Let_def
  by (auto split: option.splits if_splits)

lemma masked_write_frame: "\<not> bit w i \<Longrightarrow> bit (masked_write w old val) i = bit old i"
  by (simp add: bit_masked_write)

lemma sstatus_confined:
  assumes "cfg_ok cfg" "hart_ok cfg s" "prv s \<noteq> 3" "sstatus_write cfg val s = Some s'"
  shows "confined cfg s s'"
proof (cases "v_mode s")
  case True
  obtain k m where "vsstatus_write cfg val s = s\<lparr>tlb_flushes := k, vsstatus := m\<rparr>" using vsstatus_write_frame by blast
  then have "s' = s\<lparr>tlb_flushes := k, vsstatus := m\<rparr>" using True assms(4) by (simp add: sstatus_write_def)
  then show ?thesis using assms(3) True by (simp add: confined_def machine_regs_def hypervisor_regs_def)
next
  case False
  let ?w = "masked_write (sstatus_write_mask cfg) (mstatus s) val"
  have pm: "legalize_privilege cfg (mpp (mstatus s)) = Some (mpp (mstatus s))"
    using legalize_result(2) [OF assms(1), of "mpp (mstatus s)"] assms(2) take_bit_2_le by (simp add: hart_ok_def mpp_def)
  obtain k where s': "s' = s\<lparr>tlb_flushes := k, mstatus := mstatus_new cfg (mstatus s) ?w (mpp ?w)\<rparr>"
    using sstatus_write_result [OF assms(1), of s val] pm False assms(4) by (auto simp: sstatus_write_def mpp_sstatus_masked)
  have "bit (mstatus_new cfg (mstatus s) ?w (mpp ?w)) i = bit (mstatus s) i" if "i \<noteq> 63" "\<not> bit (sstatus_write_mask cfg) i" for i
    using that mstatus_new_frame [of i cfg "mstatus s" ?w] by (simp add: bit_masked_write)
  then show ?thesis
    using assms(3) False s' sstatus_mask_bits(8) [of cfg] by (simp add: confined_def machine_regs_def)
qed

lemma csr_write_confined:
  assumes "cfg_ok cfg" "hart_ok cfg s" "prv s \<noteq> 3" "verify_permissions cfg r w s = None" "csr_write cfg stce r val s = Some s'"
  shows "confined cfg s s'"
proof -
  have p: "prv s = 0 \<or> prv s = 1" using hart_ok_prv(1) [OF assms(2)] assms(3) by blast
  have n: "\<not> (3 :: u64) \<le> 2" "\<not> (2 :: u64) \<le> 1" "\<not> (3 :: u64) \<le> 1" "\<not> (1 :: u64) \<le> 0" "\<not> (2 :: u64) \<le> 0" "\<not> (3 :: u64) \<le> 0"
    by (simp_all add: word_le_nat_alt)
  note l = permission_level [OF assms(4)]
  have m: "csr_priv r \<noteq> 3" using l(1) p n by (auto split: if_splits)
  have g: "v_mode s \<Longrightarrow> csr_priv r \<noteq> 2" using l(1) p n by (auto split: if_splits)
  have vs: "bit (0x444 :: u64) i \<Longrightarrow> ext_h cfg \<Longrightarrow> bit (mideleg_read cfg s) i" for i
  proof -
    assume b: "bit (0x444 :: u64) i" and h: "ext_h cfg"
    have "within 0x444 0x1444" unfolding within_iff by simp
    then show "bit (mideleg_read cfg s) i" using b h by (auto simp: mideleg_read_def bit_or_iff within_def)
  qed
  have hm: "bit (hideleg_read cfg s) i \<Longrightarrow> bit (mideleg_read cfg s) i" for i by (simp add: hideleg_read_def bit_and_iff)
  have c2: "csr_priv r = 2 \<Longrightarrow> ext_h cfg \<and> \<not> v_mode s" using l(3) g by blast
  show ?thesis
  proof (cases r)
    case SSTATUS
    then show ?thesis using sstatus_confined [OF assms(1-3)] assms(5) by simp
  next
    case VSSTATUS
    obtain k m where "vsstatus_write cfg val s = s\<lparr>tlb_flushes := k, vsstatus := m\<rparr>" using vsstatus_write_frame by blast
    then have "s' = s\<lparr>tlb_flushes := k, vsstatus := m\<rparr>" using VSSTATUS assms(5) by simp
    then show ?thesis using VSSTATUS assms(3) c2 by (simp add: csr_privs confined_def machine_regs_def)
  next
    case SIE
    then show ?thesis using assms(3,5) hm
      by (cases "v_mode s") (auto simp: confined_def machine_regs_def hypervisor_regs_def ie_write_def bit_masked_write bit_and_iff
          deleg_mask_def sip_sie_accr_def vsip_vsie_accr_def split: if_splits)
  next
    case SIP
    then show ?thesis using assms(3,5) hm
      by (cases "v_mode s") (auto simp: confined_def machine_regs_def hypervisor_regs_def ip_write_def bit_masked_write bit_and_iff
          deleg_mask_def sip_sie_accr_def vsip_vsie_accr_def split: if_splits)
  next
    case HIE
    then show ?thesis using assms(3,5) c2
      by (auto simp: csr_privs confined_def machine_regs_def ie_write_def bit_masked_write bit_and_iff deleg_mask_def hip_hie_accr_def split: if_splits)
  next
    case HIP
    then show ?thesis using assms(3,5) c2
      by (auto simp: csr_privs confined_def machine_regs_def ip_write_def bit_masked_write bit_and_iff deleg_mask_def hip_hie_accr_def split: if_splits)
  next
    case HVIP
    then show ?thesis using assms(3,5) c2 vs
      by (auto simp: csr_privs confined_def machine_regs_def ip_write_def bit_masked_write bit_and_iff deleg_mask_def hvip_accr_def split: if_splits)
  next
    case VSIE
    then show ?thesis using assms(3,5) c2 hm
      by (auto simp: csr_privs confined_def machine_regs_def ie_write_def bit_masked_write bit_and_iff deleg_mask_def vsip_vsie_accr_def split: if_splits)
  next
    case VSIP
    then show ?thesis using assms(3,5) c2 hm
      by (auto simp: csr_privs confined_def machine_regs_def ip_write_def bit_masked_write bit_and_iff deleg_mask_def vsip_vsie_accr_def split: if_splits)
  next
    case SEPC
    then show ?thesis using assms(3,5) by (cases "v_mode s") (auto simp: confined_def machine_regs_def hypervisor_regs_def)
  next
    case STVEC
    then show ?thesis using assms(3,5) by (cases "v_mode s") (auto simp: confined_def machine_regs_def hypervisor_regs_def)
  next
    case SCAUSE
    then show ?thesis using assms(3,5) by (cases "v_mode s") (auto simp: confined_def machine_regs_def hypervisor_regs_def)
  next
    case STVAL
    then show ?thesis using assms(3,5) by (cases "v_mode s") (auto simp: confined_def machine_regs_def hypervisor_regs_def)
  qed (use assms(3,5) m c2 in \<open>auto simp: csr_privs confined_def machine_regs_def hstatus_write_def
      hedeleg_write_def hideleg_write_def\<close>)
qed

lemma confined_refl: "prv s \<noteq> 3 \<Longrightarrow> confined cfg s s"
  by (simp add: confined_def)

lemma csr_insn_confined:
  assumes "cfg_ok cfg" "hart_ok cfg s" "prv s \<noteq> 3" "get_csr cfg r w s = Inr old" "insn_done (put_csr cfg stce r val s) = Done s'"
  shows "confined cfg s s'"
proof -
  have g: "csr_exists cfg r" "verify_permissions cfg r w s = None" using get_csr_permission [OF assms(4)] by simp_all
  have "csr_write cfg stce r val s = Some s'"
    using assms(5) g(1) by (auto simp: put_csr_def insn_done_def split: option.splits)
  from csr_write_confined [OF assms(1-3) g(2) this] show ?thesis .
qed

lemma csr_insn_done:
  assumes "cfg_ok cfg" "hart_ok cfg s" "prv s \<noteq> 3"
  shows "csrrw cfg stce r x s = Done s' \<Longrightarrow> confined cfg s s'"
    "csrrs cfg stce r nz x s = Done s' \<Longrightarrow> confined cfg s s'"
    "csrrc cfg stce r nz x s = Done s' \<Longrightarrow> confined cfg s s'"
  using csr_insn_confined [OF assms] get_csr_error confined_refl [OF assms(3)]
  unfolding csrrw_def csrrs_def csrrc_def by (fastforce split: sum.splits if_splits)+

lemma sret_confined:
  assumes "cfg_ok cfg" "hart_ok cfg s" "prv s \<noteq> 3" "sret cfg s = Done s'"
  shows "confined cfg s s'"
proof (cases "sret_permission cfg s")
  case None
  have n: "(of_bool b :: u64) \<noteq> 3" for b by (cases b) simp_all
  show ?thesis
  proof (cases "v_mode s")
    case True
    from sret_vs_result [OF assms(1,2) True None] obtain m k c d where
      "sret cfg s = Done (s\<lparr>pc := vsepc s AND pc_alignment_mask cfg, vsstatus := m,
        tlb_flushes := k, prev_prv := prv s, prev_v := True, prv := of_bool (bit (vsstatus s) 8),
        v_mode := True, prv_changed := c, v_changed := d\<rparr>)" by blast
    then have "s' = s\<lparr>pc := vsepc s AND pc_alignment_mask cfg, vsstatus := m,
        tlb_flushes := k, prev_prv := prv s, prev_v := True, prv := of_bool (bit (vsstatus s) 8),
        v_mode := True, prv_changed := c, v_changed := d\<rparr>" using assms(4) by simp
    then show ?thesis using n by (simp add: confined_def machine_regs_def hypervisor_regs_def)
  next
    case False
    from sret_hs_result [OF assms(1,2) False None] obtain m h k c d where r:
      "sret cfg s = Done (s\<lparr>pc := sepc s AND pc_alignment_mask cfg, mstatus := m, hstatus := h,
        tlb_flushes := k, prev_prv := prv s, prev_v := False, prv := of_bool (bit (mstatus s) 8),
        v_mode := ext_h cfg \<and> bit (hstatus s) 7, prv_changed := c, v_changed := d\<rparr>)"
      and m: "\<not> bit m 17" "\<forall>i. i \<noteq> 63 \<longrightarrow> i \<noteq> 17 \<longrightarrow> \<not> bit (sstatus_write_mask cfg) i \<longrightarrow> bit m i = bit (mstatus s) i" by blast
    have "s' = s\<lparr>pc := sepc s AND pc_alignment_mask cfg, mstatus := m, hstatus := h,
        tlb_flushes := k, prev_prv := prv s, prev_v := False, prv := of_bool (bit (mstatus s) 8),
        v_mode := ext_h cfg \<and> bit (hstatus s) 7, prv_changed := c, v_changed := d\<rparr>" using r assms(4) by simp
    then show ?thesis using n m False by (simp add: confined_def machine_regs_def)
  qed
next
  case (Some r)
  then show ?thesis using assms(4) by (auto simp: sret_def sret_permission_def split: if_splits)
qed

text \<open>The operations that are instructions.\<close>

definition is_insn :: "hart_op \<Rightarrow> bool" where
  "is_insn oper \<longleftrightarrow> (case oper of Trap t epc \<Rightarrow> False | Interrupt \<Rightarrow> False | Enter_Debug c \<Rightarrow> False | Device m x \<Rightarrow> False | _ \<Rightarrow> True)"

lemma insn_confined:
  assumes "cfg_ok cfg" "hart_ok cfg s" "prv s \<noteq> 3" "\<not> debug_mode s" "is_insn oper"
    and "hart_insn cfg stce oper s = Done s' \<or> hart_insn cfg stce oper s = Wait s'"
  shows "confined cfg s s'"
proof -
  have l: "prv s < 3" using hart_ok_prv [OF assms(2)] assms(3) by blast
  have wait: "insn_done x \<noteq> Wait y" for x y by (simp add: insn_done_def split: option.split)
  have cw: "get_csr cfg r w s = Inl e \<Longrightarrow> e \<noteq> Wait y" for r w e y using get_csr_error by blast
  show ?thesis
  proof (cases oper)
    case Sret
    have "sret cfg s \<noteq> Wait s'" by (auto simp: sret_def sret_permission_def wait Let_def split: option.split)
    then show ?thesis using sret_confined [OF assms(1-3)] Sret assms(6) by simp
  next
    case (Csrrw r x)
    have "csrrw cfg stce r x s \<noteq> Wait s'" using cw by (auto simp: csrrw_def wait split: sum.split)
    then show ?thesis using csr_insn_done(1) [OF assms(1-3)] Csrrw assms(6) by simp
  next
    case (Csrrs r nz x)
    have "csrrs cfg stce r nz x s \<noteq> Wait s'" using cw by (auto simp: csrrs_def wait split: sum.split)
    then show ?thesis using csr_insn_done(2) [OF assms(1-3)] Csrrs assms(6) by simp
  next
    case (Csrrc r nz x)
    have "csrrc cfg stce r nz x s \<noteq> Wait s'" using cw by (auto simp: csrrc_def wait split: sum.split)
    then show ?thesis using csr_insn_done(3) [OF assms(1-3)] Csrrc assms(6) by simp
  next
    case (Wfi npc)
    then have "wfi cfg npc s = Done s' \<or> wfi cfg npc s = Wait s'" using assms(6) by simp
    then have "s' = (set_pc_and_serialize cfg npc s)\<lparr>in_wfi := True\<rparr>"
      unfolding wfi_def Let_def by (auto split: if_splits)
    then show ?thesis using assms(3) by (simp add: confined_def machine_regs_def hypervisor_regs_def set_pc_and_serialize_def)
  qed (use l assms(4,5,6) in \<open>auto simp: mret_def mnret_def dret_def ecall_def is_insn_def split: if_splits\<close>)
qed

text \<open>The return from a handler that leaves the registers it returns by as it found them.\<close>

definition trap_return :: "hart_cfg \<Rightarrow> irq_mode \<Rightarrow> hart_state \<Rightarrow> exec_result" where
  "trap_return cfg l s = (if l = To_M then mret cfg s else sret cfg s)"

definition handler_keeps :: "hart_state \<Rightarrow> hart_state \<Rightarrow> bool" where
  "handler_keeps s s' \<longleftrightarrow> prv s' = prv s \<and> v_mode s' = v_mode s \<and> mstatus s' = mstatus s \<and> vsstatus s' = vsstatus s
     \<and> hstatus s' = hstatus s \<and> mepc s' = mepc s \<and> sepc s' = sepc s \<and> vsepc s' = vsepc s"

lemma trap_return_lemma:
  assumes "cfg_ok cfg" "hart_ok cfg s" "\<not> debug_mode s" "take_trap cfg t epc s = Some s1"
    and "handler_keeps s1 s2" "hart_ok cfg s2"
    and "trap_target cfg t s = To_HS \<longrightarrow> \<not> bit (mstatus s) 22" "trap_target cfg t s = To_VS \<longrightarrow> \<not> bit (hstatus s) 22"
  shows "\<exists>s3. trap_return cfg (trap_target cfg t s) s2 = Done s3 \<and> prv s3 = prv s \<and> v_mode s3 = v_mode s
    \<and> pc s3 = epc AND NOT 1 AND pc_alignment_mask cfg
    \<and> (case trap_target cfg t s of To_M \<Rightarrow> bit (mstatus s3) 3 = bit (mstatus s) 3
        | To_HS \<Rightarrow> bit (mstatus s3) 1 = bit (mstatus s) 1 | To_VS \<Rightarrow> bit (vsstatus s3) 1 = bit (vsstatus s) 1)"
proof -
  note k = assms(5) [unfolded handler_keeps_def]
  note e = trap_entry [OF assms(1-3), of t epc, unfolded assms(4)]
  have v: "v_mode s \<Longrightarrow> ext_h cfg \<and> prv s \<noteq> 3" using assms(2) by (simp add: hart_ok_def)
  have p: "prv s \<le> 1 \<Longrightarrow> of_bool (prv s = 1) = prv s" using hart_ok_prv [OF assms(2)] by auto
  show ?thesis
  proof (cases "trap_target cfg t s")
    case To_M
    then have s: "prv s2 = 3" "mepc s2 = epc AND NOT 1" "mpp (mstatus s2) = prv s" "bit (mstatus s2) 7 = bit (mstatus s) 3"
        "bit (mstatus s2) 39 = v_mode s"
      using e k by simp_all
    obtain m k c d where "mret cfg s2 = Done (s2\<lparr>pc := mepc s2 AND pc_alignment_mask cfg, mstatus := m, tlb_flushes := k,
        prev_prv := prv s2, prev_v := v_mode s2, prv := mpp (mstatus s2),
        v_mode := bit (mstatus s2) 39 \<and> mpp (mstatus s2) \<noteq> 3, prv_changed := c, v_changed := d\<rparr>)"
      "bit m 3 = bit (mstatus s2) 7"
      using mret_result [OF assms(1,6) s(1)] by blast
    then show ?thesis using To_M s v by (auto simp: trap_return_def and.assoc)
  next
    case To_HS
    have l: "ext_s cfg" "prv s \<le> 1" using hart_ok_target(1) [OF assms(1,2), of t] To_HS by simp_all
    have s: "prv s2 = 1" "\<not> v_mode s2" "sepc s2 = epc AND NOT 1" "bit (mstatus s2) 8 = (prv s = 1)"
        "bit (mstatus s2) 5 = bit (mstatus s) 1" "\<not> bit (mstatus s2) 22" "ext_h cfg \<longrightarrow> bit (hstatus s2) 7 = v_mode s"
      using e k assms(7) To_HS by simp_all
    have "sret_permission cfg s2 = None" using s l by (simp add: sret_permission_def)
    from sret_hs_result [OF assms(1,6) s(2) this] obtain m h k c d where
      "sret cfg s2 = Done (s2\<lparr>pc := sepc s2 AND pc_alignment_mask cfg, mstatus := m, hstatus := h,
        tlb_flushes := k, prev_prv := prv s2, prev_v := False, prv := of_bool (bit (mstatus s2) 8),
        v_mode := ext_h cfg \<and> bit (hstatus s2) 7, prv_changed := c, v_changed := d\<rparr>)"
      "bit m 1 = bit (mstatus s2) 5" by blast
    then show ?thesis using To_HS s v p [OF l(2)] by (auto simp: trap_return_def and.assoc)
  next
    case To_VS
    have l: "ext_s cfg" "prv s \<le> 1" using hart_ok_target(1) [OF assms(1,2), of t] To_VS by simp_all
    have s: "prv s2 = 1" "v_mode s2" "vsepc s2 = epc AND NOT 1" "bit (vsstatus s2) 8 = (prv s = 1)"
        "bit (vsstatus s2) 5 = bit (vsstatus s) 1" "\<not> bit (hstatus s2) 22"
      using e k assms(8) To_VS by simp_all
    have "sret_permission cfg s2 = None" using s l by (simp add: sret_permission_def)
    from sret_vs_result [OF assms(1,6) s(2) this] obtain m k c d where
      "sret cfg s2 = Done (s2\<lparr>pc := vsepc s2 AND pc_alignment_mask cfg, vsstatus := m,
        tlb_flushes := k, prev_prv := prv s2, prev_v := True, prv := of_bool (bit (vsstatus s2) 8),
        v_mode := True, prv_changed := c, v_changed := d\<rparr>)"
      "bit m 1 = bit (vsstatus s2) 5" by blast
    then show ?thesis using To_VS s p [OF l(2)] hart_ok_target(2) [OF assms(1,2) To_VS] by (auto simp: trap_return_def and.assoc)
  qed
qed

lemma hart_reset_ok: "cfg_ok cfg \<Longrightarrow> hart_ok cfg (hart_reset cfg)"
proof -
  assume c: "cfg_ok cfg"
  let ?m = "mstatus_initial_value cfg"
  have "mpp ?m = (if ext_u cfg then 0 else 3)" "\<not> bit ?m 39" "adjust_sd ?m = ?m"
    by (cases "ext_u cfg"; cases "ext_s cfg"; simp add: mstatus_initial_value_def; code_simp)+
  then show ?thesis
    using c by (auto simp: hart_reset_def hart_ok_def prv_ok_def standard_only_def within_def)
qed

section \<open>Properties\<close>

text \<open>A hart with every extension, in user mode under a kernel that delegates page faults and the
  supervisor interrupts.\<close>

definition demo_cfg :: hart_cfg where
  "demo_cfg = \<lparr>ext_u = True, ext_s = True, ext_h = True, ext_f = True, ext_v = False, ext_zfinx = False, ext_zca = True,
     ext_sscofpmf = True, ext_smrnmi = False, any_custom_extensions = False, impl_mmu = True\<rparr>"

definition demo_hart :: hart_state where
  "demo_hart = (hart_reset demo_cfg)\<lparr>prv := 0, mtvec := 0x80000101, stvec := 0xFFFFFFC000000200, medeleg := 0xB100, mideleg := 0x222,
     mstatus := 0xA00000002, mie := 0xAAA, mip := 0xA0\<rparr>"

lemma demo_hart_ok: "cfg_ok demo_cfg" "hart_ok demo_cfg demo_hart" "\<not> debug_mode demo_hart"
proof -
  have "adjust_sd 0xA00000002 = 0xA00000002" by code_simp
  then show "cfg_ok demo_cfg" "hart_ok demo_cfg demo_hart" "\<not> debug_mode demo_hart"
    by (simp_all add: cfg_ok_def hart_ok_def demo_hart_def demo_cfg_def hart_reset_def prv_ok_def mpp_def within_iff standard_only_def)
qed

text \<open>C21: The interrupt the simulator takes, computed with masks and shifts, is the one a
  reference definition chooses: of the pending and enabled sources those for the most
  privileged mode that accepts any, and among them the first of the documented order
  (non-standard sources, MEI, MSI, MTI, SEI, SSI, STI, LCOFI, VSEI, VSSI, VSTI), with one
  exception, a bug of the code: the counter overflow LCOFI, source 13, is taken before every
  source for its mode except source 12. No interrupt is taken in debug mode or with NMIE
  clear, WFI ends on any enabled pending source, and the choice never ends in abort.\<close>

theorem interrupt_choice_correct:
  assumes "hart_ok cfg s"
  shows "take_pending_interrupt cfg s =
    (if mip s AND mie s = 0 then s else s\<lparr>in_wfi := False\<rparr>,
     if debug_mode s \<or> \<not> nmie s then No_Trap
     else case irq_choice cfg (mip s AND mie s) s of
            None \<Rightarrow> No_Trap
          | Some i \<Rightarrow>
              Throw (push_bit 63 1 OR
                of_nat (if i \<noteq> 12 \<and> bit (mip s AND mie s) 13 \<and> irq_dest cfg s 13 = irq_dest cfg s i then 13 else i)))"
  unfolding interrupt_choice_result [OF assms] irq_taken_def displaced_def by (simp split: option.split)

text \<open>User mode with the machine timer and a delegated supervisor source pending; then the same with LCOFI,
  not delegated, pending too.\<close>

lemma interrupt_choice_correct_witness:
  "take_pending_interrupt demo_cfg demo_hart = (demo_hart\<lparr>in_wfi := False\<rparr>, Throw 0x8000000000000007)
   \<and> irq_choice demo_cfg 0xA0 demo_hart = Some 7
   \<and> snd (take_pending_interrupt demo_cfg (demo_hart\<lparr>mip := 0x20A0, mie := 0x2AAA\<rparr>)) = Throw 0x800000000000000D
   \<and> irq_choice demo_cfg 0x20A0 (demo_hart\<lparr>mip := 0x20A0, mie := 0x2AAA\<rparr>) = Some 7"
proof -
  let ?h = "demo_hart\<lparr>mip := 0x20A0, mie := 0x2AAA\<rparr>"
  have ok: "hart_ok demo_cfg ?h" using demo_hart_ok(2) by (simp add: hart_ok_def standard_only_def)
  have c: "irq_choice demo_cfg (mip demo_hart AND mie demo_hart) demo_hart = Some 7" "irq_choice demo_cfg (mip ?h AND mie ?h) ?h = Some 7"
    by code_simp+
  have m: "mip demo_hart AND mie demo_hart = 0xA0" "mip ?h AND mie ?h = 0x20A0" "nmie demo_hart" "nmie ?h" "\<not> debug_mode ?h"
    by code_simp+
  have d: "irq_dest demo_cfg ?h 13 = irq_dest demo_cfg ?h 7" by code_simp
  have b: "bit (0x20A0 :: u64) 13" "\<not> bit (0xA0 :: u64) 13" by code_simp+
  show ?thesis
    using interrupt_choice_correct [OF demo_hart_ok(2)] interrupt_choice_correct [OF ok] demo_hart_ok(3) c
    unfolding m(1,2) by (simp add: m(3-) d b)
qed

text \<open>C20: Outside debug mode take_trap always succeeds and never lowers the privilege: it
  enters the mode a reference definition derives from the delegation registers, at that
  mode's vector (interrupts vectored when asked), with pc, cause and value saved in that
  mode's registers, its interrupts off, the previous enable bit, privilege and
  virtualization recorded, and the invariant kept.\<close>

theorem trap_entry_correct:
  assumes "cfg_ok cfg" "hart_ok cfg s" "\<not> debug_mode s"
  shows "\<exists>s'. take_trap cfg t epc s = Some s' \<and> prv s \<le> prv s' \<and> hart_ok cfg s' \<and>
    (case trap_target cfg t s of
       To_M \<Rightarrow> prv s' = 3 \<and> \<not> v_mode s' \<and> pc s' = (if nmie s then handler_pc (mtvec s) t else 0)
         \<and> mepc s' = epc AND NOT 1 \<and> mcause s' = trap_cause t \<and> mtval s' = trap_tval t
         \<and> mpp (mstatus s') = prv s \<and> \<not> bit (mstatus s') 3 \<and> bit (mstatus s') 7 = bit (mstatus s) 3 \<and> bit (mstatus s') 39 = v_mode s
     | To_HS \<Rightarrow> prv s' = 1 \<and> \<not> v_mode s' \<and> pc s' = handler_pc (stvec s) t
         \<and> sepc s' = epc AND NOT 1 \<and> scause s' = trap_cause t \<and> stval s' = trap_tval t
         \<and> bit (mstatus s') 8 = (prv s = 1) \<and> \<not> bit (mstatus s') 1 \<and> bit (mstatus s') 5 = bit (mstatus s) 1
         \<and> bit (mstatus s') 22 = bit (mstatus s) 22 \<and> (ext_h cfg \<longrightarrow> bit (hstatus s') 7 = v_mode s)
     | To_VS \<Rightarrow> prv s' = 1 \<and> v_mode s' \<and> pc s' = handler_pc (vstvec s) t
         \<and> vsepc s' = epc AND NOT 1 \<and> vscause s' = (if bit (trap_cause t) 63 then trap_cause t - 1 else trap_cause t)
         \<and> vstval s' = trap_tval t \<and> bit (vsstatus s') 8 = (prv s = 1) \<and> \<not> bit (vsstatus s') 1
         \<and> bit (vsstatus s') 5 = bit (vsstatus s) 1 \<and> hstatus s' = hstatus s)"
  by (rule trap_entry [OF assms])

lemma trap_entry_correct_witness:
  "\<exists>s'. take_trap demo_cfg ((plain_trap 13)\<lparr>trap_tval := 0x4000\<rparr>) 0x10002 demo_hart = Some s' \<and> prv s' = 1
     \<and> pc s' = 0xFFFFFFC000000200 \<and> sepc s' = 0x10002 \<and> scause s' = 13 \<and> stval s' = 0x4000 \<and> bit (mstatus s') 5"
proof -
  let ?t = "(plain_trap 13)\<lparr>trap_tval := 0x4000\<rparr>"
  have "trap_target demo_cfg ?t demo_hart = To_HS" "handler_pc (stvec demo_hart) ?t = 0xFFFFFFC000000200"
      "bit (mstatus demo_hart) 1" "trap_cause ?t = 13" "trap_tval ?t = 0x4000" by code_simp+
  then show ?thesis
    using trap_entry_correct [OF demo_hart_ok, of ?t "0x10002"] by auto
qed

text \<open>C18: A trap to machine, supervisor or guest supervisor mode followed by a handler that
  keeps the registers it returns by, and the matching return instruction, resumes at the
  saved pc in the privilege and virtualization mode that trapped, with the interrupt enable
  bit of the handler's mode restored.\<close>

theorem trap_return_resumes:
  assumes "cfg_ok cfg" "hart_ok cfg s" "\<not> debug_mode s" "take_trap cfg t epc s = Some s1"
    and "handler_keeps s1 s2" "hart_ok cfg s2"
    and "trap_target cfg t s = To_HS \<longrightarrow> \<not> bit (mstatus s) 22" "trap_target cfg t s = To_VS \<longrightarrow> \<not> bit (hstatus s) 22"
  shows "\<exists>s3. trap_return cfg (trap_target cfg t s) s2 = Done s3 \<and> prv s3 = prv s \<and> v_mode s3 = v_mode s
    \<and> pc s3 = epc AND NOT 1 AND pc_alignment_mask cfg
    \<and> (case trap_target cfg t s of To_M \<Rightarrow> bit (mstatus s3) 3 = bit (mstatus s) 3
        | To_HS \<Rightarrow> bit (mstatus s3) 1 = bit (mstatus s) 1 | To_VS \<Rightarrow> bit (vsstatus s3) 1 = bit (vsstatus s) 1)"
  by (rule trap_return_lemma [OF assms])

lemma trap_return_resumes_witness:
  "\<exists>s1 s3. take_trap demo_cfg (plain_trap 13) 0x10002 demo_hart = Some s1 \<and> prv s1 = 1
     \<and> sret demo_cfg (s1\<lparr>stval := 7\<rparr>) = Done s3 \<and> prv s3 = 0 \<and> pc s3 = 0x10002 \<and> bit (mstatus s3) 1"
proof -
  let ?t = "plain_trap 13"
  have tt: "trap_target demo_cfg ?t demo_hart = To_HS" "\<not> bit (mstatus demo_hart) 22" "bit (mstatus demo_hart) 1"
      "0x10002 AND NOT 1 AND pc_alignment_mask demo_cfg = 0x10002" "prv demo_hart = 0" by code_simp+
  obtain s1 where s1: "take_trap demo_cfg ?t 0x10002 demo_hart = Some s1" "hart_ok demo_cfg s1" "prv s1 = 1"
    using trap_entry [OF demo_hart_ok, of ?t "0x10002"] tt(1) by auto
  have "handler_keeps s1 (s1\<lparr>stval := 7\<rparr>)" "hart_ok demo_cfg (s1\<lparr>stval := 7\<rparr>)"
    using s1(2) by (simp_all add: handler_keeps_def status_reg_ok)
  from trap_return_resumes [OF demo_hart_ok s1(1) this] show ?thesis
    using s1 tt by (auto simp: trap_return_def)
qed

text \<open>C17: No instruction of the model executed below machine mode changes the registers of
  machine mode, reaches machine mode, or changes a bit of mstatus, mie or mip outside the
  fields given to the supervisor and the delegated interrupts; executed in a guest, it
  leaves the registers of the hypervisor and every interrupt bit that is not the guest's as
  they were, and stays in the guest.\<close>

theorem lower_privilege_confined:
  assumes "cfg_ok cfg" "hart_ok cfg s" "prv s \<noteq> 3" "\<not> debug_mode s" "is_insn oper"
    and "hart_insn cfg stce oper s = Done s' \<or> hart_insn cfg stce oper s = Wait s'"
  shows "prv s' \<noteq> 3 \<and> machine_regs s' = machine_regs s
     \<and> (\<forall>i. i \<noteq> 63 \<longrightarrow> i \<noteq> 17 \<longrightarrow> \<not> bit (sstatus_write_mask cfg) i \<longrightarrow> bit (mstatus s') i = bit (mstatus s) i)
     \<and> (bit (mstatus s') 17 \<longrightarrow> bit (mstatus s) 17)
     \<and> (\<forall>i. \<not> bit (mideleg_read cfg s) i \<longrightarrow> bit (mie s') i = bit (mie s) i \<and> bit (mip s') i = bit (mip s) i)
     \<and> (v_mode s \<longrightarrow> v_mode s' \<and> hypervisor_regs s' = hypervisor_regs s
          \<and> (\<forall>i. \<not> bit (hideleg_read cfg s) i \<longrightarrow> bit (mie s') i = bit (mie s) i \<and> bit (mip s') i = bit (mip s) i))"
  using insn_confined [OF assms] unfolding confined_def .

lemma lower_privilege_confined_witness:
  "\<exists>s'. csrrw demo_cfg False SSTATUS (- 1) (demo_hart\<lparr>prv := 1\<rparr>) = Done s' \<and> machine_regs s' = machine_regs demo_hart
     \<and> bit (mstatus s') 3 = bit (mstatus demo_hart) 3"
proof -
  let ?s = "demo_hart\<lparr>prv := 1\<rparr>"
  have ok: "hart_ok demo_cfg ?s" using demo_hart_ok(2) by (simp add: hart_ok_def prv_ok_def demo_cfg_def demo_hart_def hart_reset_def)
  have "get_csr demo_cfg SSTATUS True ?s = Inr (sstatus_read demo_cfg ?s)"
    by (simp add: get_csr_def csr_exists_def verify_permissions_def csr_verify_permissions_def csr_privs csr_read_only_def get_field_def
        demo_hart_def hart_reset_def demo_cfg_def Let_def)
  moreover obtain s' where "sstatus_write demo_cfg (- 1) ?s = Some s'" using sstatus_write_ok [OF demo_hart_ok(1) ok] by blast
  ultimately have d: "csrrw demo_cfg False SSTATUS (- 1) ?s = Done s'"
    by (simp add: csrrw_def put_csr_def csr_exists_def insn_done_def)
  have "prv ?s \<noteq> 3" "\<not> debug_mode ?s" "is_insn (Csrrw SSTATUS (- 1))"
    using demo_hart_ok(3) by (simp_all add: is_insn_def)
  from lower_privilege_confined [OF demo_hart_ok(1) ok this, of False s'] d show ?thesis
    using sstatus_mask_bits(4) [of demo_cfg] by (simp add: machine_regs_def)
qed

text \<open>C22: From reset, under every sequence of traps, interrupts, debug requests, returns,
  register accesses and device signals, no assertion fails and the state stays legal: an
  implemented privilege in prv and MPP, virtualization only with the hypervisor extension
  and never in machine mode, delegation registers within their masks, the summary bit SD
  consistent.\<close>

theorem privilege_states_legal:
  assumes "cfg_ok cfg"
  shows "\<exists>s. hart_run cfg stce ops (hart_reset cfg) = Some s \<and> hart_ok cfg s"
  by (rule hart_run_ok [OF assms hart_reset_ok [OF assms]])

lemma privilege_states_legal_witness:
  "\<exists>s. hart_run demo_cfg False [(0, Csrrw MEDELEG (- 1)), (0, Csrrw MSTATUS (- 1)), (0, Mret), (0, Ecall), (0, Sret)] (hart_reset demo_cfg) = Some s
     \<and> hart_ok demo_cfg s"
  by (rule privilege_states_legal [OF demo_hart_ok(1)])

text \<open>An interrupt of source 13 is taken before every standard one: the shift that singles out the
  non-standard sources includes it, and the branch that puts it after them is never reached.\<close>

lemma overflow_interrupt_first:
  "snd (take_pending_interrupt demo_cfg (demo_hart\<lparr>mip := 0x2800, mie := 0x2800\<rparr>)) = Throw 0x800000000000000D"
  "bit enabled 13 \<Longrightarrow> select_interrupts enabled \<noteq> Some 0x800"
proof -
  show "snd (take_pending_interrupt demo_cfg (demo_hart\<lparr>mip := 0x2800, mie := 0x2800\<rparr>)) = Throw 0x800000000000000D" by code_simp
  have "bit (drop_bit 12 enabled) 1" if "bit enabled 13" using that by (simp add: bit_drop_bit_eq)
  then have "drop_bit 12 enabled \<noteq> 0" if "bit enabled 13" using that by auto
  moreover have "bit (push_bit 12 (drop_bit 12 enabled)) 13" if "bit enabled 13" using that by (simp add: bit_simps)
  ultimately show "select_interrupts enabled \<noteq> Some 0x800" if "bit enabled 13"
    using that by (auto simp: select_interrupts_def)
qed

end
