(* ===== verification/Spike_Decode.thy ===== *)
theory Spike_Decode
  imports Prelude "HOL-Library.Product_Lexorder" "HOL-Library.Multiset"
begin

text \<open>
  The instruction decoder of the simulator (\<open>processor.cc\<close>, \<open>processor.h\<close>): the table of
  descriptors, its sorting, and \<open>decode_insn\<close> with its cache of decoded words and its table that
  moves an entry to the front.  The functions a descriptor points to are of a type \<open>'f\<close>.  Shown:
  the order of earlier decodings does not matter on a table without conflicting entries, and it
  does on a table the simulator can be given.
\<close>

section \<open>Descriptors\<close>

abbreviation (input) OPCODE_CACHE_SIZE :: nat where "OPCODE_CACHE_SIZE \<equiv> 8191"

record 'f insn_desc_t =
  match_bits :: u64
  mask_bits :: u64
  fast_rv32i :: 'f
  fast_rv64i :: 'f
  fast_rv32e :: 'f
  fast_rv64e :: 'f
  logged_rv32i :: 'f
  logged_rv64i :: 'f
  logged_rv32e :: 'f
  logged_rv64e :: 'f

definition desc_func :: "'f insn_desc_t \<Rightarrow> nat \<Rightarrow> bool \<Rightarrow> bool \<Rightarrow> 'f" where
  "desc_func d xlen rve logged =
     (if logged
      then if rve
           then if xlen = 64 then logged_rv64e d else logged_rv32e d
           else if xlen = 64 then logged_rv64i d else logged_rv32i d
      else if rve
           then if xlen = 64 then fast_rv64e d else fast_rv32e d
           else if xlen = 64 then fast_rv64i d else fast_rv32i d)"

text \<open>\<open>ill\<close> is the function \<open>illegal_instruction\<close>.\<close>

definition illegal_desc :: "'f \<Rightarrow> 'f insn_desc_t" where
  "illegal_desc ill =
     \<lparr>match_bits = 0, mask_bits = 0, fast_rv32i = ill, fast_rv64i = ill, fast_rv32e = ill, fast_rv64e = ill,
      logged_rv32i = ill, logged_rv64i = ill, logged_rv32e = ill, logged_rv64e = ill\<rparr>"

record 'f decoder =
  instructions :: "'f insn_desc_t list"
  opcode_cache :: "nat \<Rightarrow> 'f insn_desc_t"

section \<open>Building the table\<close>

definition register_insn :: "'f insn_desc_t \<Rightarrow> 'f decoder \<Rightarrow> 'f decoder" where
  "register_insn desc s = s\<lparr>instructions := instructions s @ [desc]\<rparr>"

text \<open>The comparison of \<open>build_opcode_map\<close> orders by decreasing match, then by decreasing mask.
  \<open>std::sort\<close> leaves the order of equal keys open; the properties ask for distinct ones.\<close>

definition desc_key :: "'f insn_desc_t \<Rightarrow> int \<times> int" where
  "desc_key d = (- uint (match_bits d), - uint (mask_bits d))"

definition build_opcode_map :: "'f \<Rightarrow> 'f decoder \<Rightarrow> 'f decoder" where
  "build_opcode_map ill s =
     \<lparr>instructions = sort_key desc_key (instructions s), opcode_cache = (\<lambda>i. illegal_desc ill)\<rparr>"

definition register_base_instructions :: "'f \<Rightarrow> ('f insn_desc_t \<times> bool) list \<Rightarrow> 'f decoder \<Rightarrow> 'f decoder" where
  "register_base_instructions ill declared s =
     (let s1 = foldl (\<lambda>s (desc, supported). if supported then register_insn desc s else s) s declared
      in build_opcode_map ill (register_insn (illegal_desc ill) s1))"

definition register_extension :: "'f \<Rightarrow> 'f insn_desc_t list \<Rightarrow> 'f decoder \<Rightarrow> 'f decoder" where
  "register_extension ill insns s = build_opcode_map ill (foldl (\<lambda>s desc. register_insn desc s) s insns)"

section \<open>Decoding\<close>

definition decodes :: "u64 \<Rightarrow> 'f insn_desc_t \<Rightarrow> bool" where
  "decodes bits d \<longleftrightarrow> bits AND mask_bits d = match_bits d"

text \<open>The linear search; \<open>None\<close> is running past the end of the table.\<close>

fun linear_search :: "u64 \<Rightarrow> 'f insn_desc_t list \<Rightarrow> nat option" where
  "linear_search bits [] = None"
| "linear_search bits (d # ds) = (if decodes bits d then Some 0 else map_option Suc (linear_search bits ds))"

text \<open>The loop that moves the entries before \<open>p\<close> one place up.\<close>

fun shift_up :: "nat \<Rightarrow> 'a list \<Rightarrow> 'a list" where
  "shift_up 0 xs = xs"
| "shift_up (Suc p) xs = shift_up p (xs[Suc p := xs ! p])"

definition move_to_front :: "nat \<Rightarrow> 'f insn_desc_t list \<Rightarrow> 'f insn_desc_t list option" where
  "move_to_front p ds =
     (let desc = ds ! p
      in if mask_bits desc \<noteq> 0 \<and> 0 < p \<and> match_bits desc \<noteq> match_bits (ds ! (p - 1))
         then if length ds \<le> p + 1 then None
              else if match_bits desc \<noteq> match_bits (ds ! (p + 1)) then Some ((shift_up p ds)[0 := desc])
              else Some ds
         else Some ds)"

text \<open>\<open>None\<close> is a read outside the table.\<close>

definition decode_insn :: "nat \<Rightarrow> bool \<Rightarrow> bool \<Rightarrow> u64 \<Rightarrow> 'f decoder \<Rightarrow> ('f \<times> 'f decoder) option" where
  "decode_insn xlen rve logged bits s =
     (let idx = unat bits mod OPCODE_CACHE_SIZE;
          desc = opcode_cache s idx
      in if bits = match_bits desc then Some (desc_func desc xlen rve logged, s)
         else case linear_search bits (instructions s) of
           None \<Rightarrow> None
         | Some p \<Rightarrow>
             let desc = instructions s ! p
             in (case move_to_front p (instructions s) of
                  None \<Rightarrow> None
                | Some ds \<Rightarrow>
                    Some (desc_func desc xlen rve logged,
                      s\<lparr>instructions := ds, opcode_cache := (opcode_cache s)(idx := desc\<lparr>match_bits := bits\<rparr>)\<rparr>)))"

text \<open>A sequence of decodings: the functions found.\<close>

fun decode_all :: "nat \<Rightarrow> bool \<Rightarrow> bool \<Rightarrow> u64 list \<Rightarrow> 'f decoder \<Rightarrow> ('f list \<times> 'f decoder) option" where
  "decode_all xlen rve logged [] s = Some ([], s)"
| "decode_all xlen rve logged (b # bs) s =
     (case decode_insn xlen rve logged b s of
        None \<Rightarrow> None
      | Some (f, s1) \<Rightarrow>
          (case decode_all xlen rve logged bs s1 of
             None \<Rightarrow> None
           | Some (fs, s2) \<Rightarrow> Some (f # fs, s2)))"

section \<open>The move to the front\<close>

lemma shift_up_closed: "p < length xs \<Longrightarrow> (shift_up p xs)[0 := d] = d # take p xs @ drop (Suc p) xs"
proof (induction p arbitrary: xs)
  case 0
  then show ?case by (cases xs) auto
next
  case (Suc p)
  then have "(shift_up p (xs[Suc p := xs ! p]))[0 := d]
      = d # take p (xs[Suc p := xs ! p]) @ drop (Suc p) (xs[Suc p := xs ! p])"
    by simp
  also have "drop (Suc p) (xs[Suc p := xs ! p]) = xs ! p # drop (Suc (Suc p)) xs"
    using Suc.prems by (subst Cons_nth_drop_Suc [symmetric]) auto
  finally show ?case using Suc.prems by (simp add: take_Suc_conv_app_nth)
qed

section \<open>Tables without conflict\<close>

definition table_ok :: "'f insn_desc_t list \<Rightarrow> bool" where
  "table_ok ds \<longleftrightarrow>
     (\<forall>d\<in>set ds. mask_bits d \<noteq> 0) \<and> distinct (map (\<lambda>d. (match_bits d, mask_bits d)) ds)
     \<and> (\<forall>d\<in>set ds. \<forall>e\<in>set ds. match_bits d \<noteq> match_bits e \<longrightarrow>
          (match_bits d XOR match_bits e) AND mask_bits d AND mask_bits e \<noteq> 0)"

text \<open>The reference: among the entries a word decodes to, the one with the largest mask.\<close>

definition reference_decode :: "'f \<Rightarrow> 'f insn_desc_t list \<Rightarrow> u64 \<Rightarrow> 'f insn_desc_t" where
  "reference_decode ill ds bits =
     foldr (\<lambda>d best. if decodes bits d \<and> mask_bits best \<le> mask_bits d then d else best) ds (illegal_desc ill)"

lemma decodes_same_match:
  assumes "table_ok ds" "d \<in> set ds" "e \<in> set ds" "decodes bits d" "decodes bits e"
  shows "match_bits d = match_bits e"
proof (rule ccontr)
  assume "match_bits d \<noteq> match_bits e"
  then have "(match_bits d XOR match_bits e) AND mask_bits d AND mask_bits e \<noteq> 0"
    using assms unfolding table_ok_def by blast
  moreover have "(match_bits d XOR match_bits e) AND mask_bits d AND mask_bits e = 0"
    using assms(4,5) unfolding decodes_def by (auto intro!: bit_word_eqI simp: bit_simps simp flip: assms(4,5) [unfolded decodes_def])
  ultimately show False by simp
qed

lemma table_ok_unique:
  assumes "table_ok ds" "d \<in> set ds" "e \<in> set ds" "match_bits d = match_bits e" "mask_bits d = mask_bits e"
  shows "d = e"
  using assms inj_onD [of "\<lambda>d. (match_bits d, mask_bits d)" "set ds" d e]
  unfolding table_ok_def distinct_map by simp

lemma illegal_desc_fields [simp]: "match_bits (illegal_desc ill) = 0" "mask_bits (illegal_desc ill) = 0"
  by (simp_all add: illegal_desc_def)

lemma decodes_illegal [simp]: "decodes bits (illegal_desc ill)"
  by (simp add: decodes_def)

lemma reference_decode_cases:
  "reference_decode ill ds bits = illegal_desc ill
   \<or> reference_decode ill ds bits \<in> set ds \<and> decodes bits (reference_decode ill ds bits)"
  unfolding reference_decode_def by (induction ds) auto

lemma reference_decode_none:
  assumes "\<forall>d\<in>set ds. \<not> decodes bits d"
  shows "reference_decode ill ds bits = illegal_desc ill"
  using reference_decode_cases [of ill ds bits] assms by auto

lemma reference_decode_best:
  assumes "d \<in> set ds" "decodes bits d" "mask_bits d \<noteq> 0" "\<forall>e\<in>set ds. decodes bits e \<longrightarrow> e = d \<or> mask_bits e < mask_bits d"
  shows "reference_decode ill ds bits = d"
  using assms
proof (induction ds)
  case (Cons a ds)
  let ?r = "reference_decode ill ds bits"
  have step: "reference_decode ill (a # ds) bits = (if decodes bits a \<and> mask_bits ?r \<le> mask_bits a then a else ?r)"
    by (simp add: reference_decode_def)
  show ?case
  proof (cases "d \<in> set ds")
    case True
    then have "?r = d" using Cons by simp
    then show ?thesis using Cons.prems unfolding step by auto
  next
    case False
    then have "a = d" using Cons.prems(1) by simp
    moreover have "?r = illegal_desc ill \<or> mask_bits ?r < mask_bits d"
      using reference_decode_cases [of ill ds bits] Cons.prems(4) False by auto
    ultimately show ?thesis using Cons.prems(2,3) unfolding step by auto
  qed
qed simp

section \<open>The invariant of the table\<close>

definition ordered :: "'f insn_desc_t list \<Rightarrow> bool" where
  "ordered xs \<longleftrightarrow> distinct (remdups_adj (map match_bits xs))
     \<and> sorted_wrt (\<lambda>a b. match_bits a = match_bits b \<longrightarrow> mask_bits b < mask_bits a) xs"

definition table_inv :: "'f \<Rightarrow> 'f insn_desc_t list \<Rightarrow> 'f insn_desc_t list \<Rightarrow> bool" where
  "table_inv ill ds xs \<longleftrightarrow> (\<exists>ys. xs = ys @ [illegal_desc ill] \<and> mset ys = mset ds) \<and> ordered xs"

definition cache_inv :: "'f \<Rightarrow> 'f insn_desc_t list \<Rightarrow> (nat \<Rightarrow> 'f insn_desc_t) \<Rightarrow> bool" where
  "cache_inv ill ds c \<longleftrightarrow>
     (\<forall>bits. match_bits (c (unat bits mod OPCODE_CACHE_SIZE)) = bits \<longrightarrow>
        c (unat bits mod OPCODE_CACHE_SIZE) = (reference_decode ill ds bits)\<lparr>match_bits := bits\<rparr>
        \<or> bits = 0 \<and> c 0 = illegal_desc ill)"

lemma linear_search_Some:
  "linear_search bits xs = Some p \<longleftrightarrow> p < length xs \<and> decodes bits (xs ! p) \<and> (\<forall>i<p. \<not> decodes bits (xs ! i))"
proof (induction xs arbitrary: p)
  case (Cons d xs)
  show ?case
  proof (cases p)
    case 0
    then show ?thesis by auto
  next
    case (Suc q)
    then show ?thesis using Cons [of q] by (auto simp: less_Suc_eq_0_disj)
  qed
qed simp

lemma linear_search_total: "linear_search bits (ys @ [illegal_desc ill]) \<noteq> None"
  by (induction ys) auto

lemma search_reference:
  assumes ok: "table_ok ds" and inv: "table_inv ill ds xs" and p: "linear_search bits xs = Some p"
  shows "xs ! p = reference_decode ill ds bits"
    and "xs ! p \<in> set ds \<and> p + 1 < length xs \<or> xs ! p = illegal_desc ill \<and> p + 1 = length xs"
proof -
  obtain ys where xs: "xs = ys @ [illegal_desc ill]" and set: "set ys = set ds" and ord: "ordered xs"
    using inv unfolding table_inv_def by (metis mset_eq_setD)
  have p: "p < length xs" "decodes bits (xs ! p)" "\<And>i. i < p \<Longrightarrow> \<not> decodes bits (xs ! i)"
    using p unfolding linear_search_Some by auto
  show pos: "xs ! p \<in> set ds \<and> p + 1 < length xs \<or> xs ! p = illegal_desc ill \<and> p + 1 = length xs"
  proof (cases "p < length ys")
    case True
    then have "ys ! p \<in> set ys" by (rule nth_mem)
    then show ?thesis using True set by (simp add: xs nth_append)
  next
    case False
    then show ?thesis using p(1) by (simp add: xs nth_append)
  qed
  show "xs ! p = reference_decode ill ds bits"
  proof (cases "p < length ys")
    case True
    then have d: "xs ! p \<in> set ds" using nth_mem [OF True] set by (simp add: xs nth_append)
    have "e = xs ! p \<or> mask_bits e < mask_bits (xs ! p)" if e: "e \<in> set ds" "decodes bits e" for e
    proof -
      obtain i where i: "i < length ys" "ys ! i = e" using e(1) set by (metis in_set_conv_nth)
      then have xi: "xs ! i = e" "i < length xs" by (simp_all add: xs nth_append)
      then have "p \<le> i" using p(3) [of i] e(2) by force
      moreover have "match_bits (xs ! p) = match_bits e" using decodes_same_match [OF ok d e(1) p(2) e(2)] .
      ultimately show ?thesis
        using ord xi unfolding ordered_def sorted_wrt_iff_nth_less by (cases "p = i") auto
    qed
    moreover have "mask_bits (xs ! p) \<noteq> 0" using ok d unfolding table_ok_def by blast
    ultimately show ?thesis using reference_decode_best [OF d p(2)] by metis
  next
    case False
    then have "p = length ys" using p(1) by (simp add: xs)
    then have "\<forall>d\<in>set ds. \<not> decodes bits d" using p(3) set by (auto simp: xs nth_append in_set_conv_nth simp flip: set)
    then show ?thesis using reference_decode_none \<open>p = length ys\<close> by (metis xs nth_append_length)
  qed
qed

lemma grouped_middle:
  assumes "distinct (remdups_adj (A @ m # B))" "A = [] \<or> last A \<noteq> m" "B = [] \<or> hd B \<noteq> m"
  shows "m \<notin> set A \<and> m \<notin> set B \<and> distinct (remdups_adj (m # A @ B))"
proof -
  have 1: "remdups_adj (A @ m # B) = remdups_adj A @ remdups_adj ([m] @ B)"
    using assms(2) remdups_adj_append' [of A "m # B"] by simp
  moreover have "remdups_adj ([m] @ B) = [m] @ remdups_adj B"
    using assms(3) remdups_adj_append' [of "[m]" B] by auto
  ultimately have "distinct (remdups_adj A @ m # remdups_adj B)" using assms(1) by simp
  then have d: "m \<notin> set A" "m \<notin> set B" "set A \<inter> set B = {}" "distinct (remdups_adj A)" "distinct (remdups_adj B)"
    by auto
  have "A = [] \<or> B = [] \<or> last A \<noteq> hd B" using d(3) last_in_set [of A] hd_in_set [of B] by (metis disjoint_iff)
  then have "remdups_adj (A @ B) = remdups_adj A @ remdups_adj B" by (rule remdups_adj_append')
  moreover have "remdups_adj ([m] @ A @ B) = [m] @ remdups_adj (A @ B)"
  proof -
    have "A @ B = [] \<or> m \<noteq> hd (A @ B)" using d(1,2) hd_in_set [of "A @ B"] by (metis Un_iff set_append)
    then show ?thesis using remdups_adj_append' [of "[m]" "A @ B"] by simp
  qed
  ultimately show ?thesis using d by auto
qed

lemma ordered_move:
  assumes "ordered (A @ d # B)" "A = [] \<or> match_bits (last A) \<noteq> match_bits d" "B = [] \<or> match_bits (hd B) \<noteq> match_bits d"
  shows "ordered (d # A @ B)"
proof -
  let ?m = "map match_bits"
  have "match_bits d \<notin> set (?m A) \<and> match_bits d \<notin> set (?m B) \<and> distinct (remdups_adj (match_bits d # ?m A @ ?m B))"
    by (rule grouped_middle) (use assms in \<open>auto simp: ordered_def last_map hd_map\<close>)
  then show ?thesis using assms(1) unfolding ordered_def by (auto simp: sorted_wrt_append)
qed

lemma move_to_front_inv:
  assumes "table_inv ill ds xs" "p < length xs" "xs ! p \<in> set ds \<and> p + 1 < length xs \<or> xs ! p = illegal_desc ill"
  shows "\<exists>xs'. move_to_front p xs = Some xs' \<and> table_inv ill ds xs'"
proof (cases "mask_bits (xs ! p) \<noteq> 0 \<and> 0 < p \<and> match_bits (xs ! p) \<noteq> match_bits (xs ! (p - 1))
    \<and> (p + 1 < length xs \<longrightarrow> match_bits (xs ! p) \<noteq> match_bits (xs ! (p + 1)))")
  case False
  then show ?thesis using assms by (auto simp: move_to_front_def Let_def)
next
  case True
  then have p: "p + 1 < length xs" using assms(3) by auto
  obtain ys where xs: "xs = ys @ [illegal_desc ill]" and ms: "mset ys = mset ds" and ord: "ordered xs"
    using assms(1) unfolding table_inv_def by blast
  let ?d = "xs ! p" and ?A = "take p xs" and ?B = "drop (Suc p) xs"
  have m: "move_to_front p xs = Some (?d # ?A @ ?B)"
    using True p shift_up_closed [of p xs ?d] by (simp add: move_to_front_def Let_def)
  have "last ?A = xs ! (p - 1)" using True p by (subst last_conv_nth) auto
  moreover have "hd ?B = xs ! (p + 1)" using p by (simp add: hd_drop_conv_nth)
  moreover have "ordered (?A @ ?d # ?B)" using ord p by (simp add: id_take_nth_drop [symmetric])
  ultimately have "ordered (?d # ?A @ ?B)" using True p by (intro ordered_move) auto
  moreover have "?d # ?A @ ?B = (?d # take p ys @ drop (Suc p) ys) @ [illegal_desc ill]"
    using p by (simp add: xs)
  moreover have "mset (?d # take p ys @ drop (Suc p) ys) = mset ys"
  proof -
    have "?d = ys ! p" using p by (simp add: xs nth_append)
    then have "mset (take p ys @ ?d # drop (Suc p) ys) = mset ys" using p by (simp add: xs id_take_nth_drop [symmetric])
    then show ?thesis by simp
  qed
  ultimately show ?thesis unfolding table_inv_def m using ms by auto
qed

definition decoder_inv :: "'f \<Rightarrow> 'f insn_desc_t list \<Rightarrow> 'f decoder \<Rightarrow> bool" where
  "decoder_inv ill ds s \<longleftrightarrow> table_inv ill ds (instructions s) \<and> cache_inv ill ds (opcode_cache s)"

lemma desc_func_match [simp]: "desc_func (d\<lparr>match_bits := b\<rparr>) xlen rve logged = desc_func d xlen rve logged"
  by (simp add: desc_func_def)

lemma desc_func_illegal [simp]: "desc_func (illegal_desc ill) xlen rve logged = ill"
  by (simp add: desc_func_def illegal_desc_def)

lemma decode_insn_step:
  assumes ok: "table_ok ds" and inv: "decoder_inv ill ds s"
  shows "\<exists>f s'. decode_insn xlen rve logged bits s = Some (f, s') \<and> decoder_inv ill ds s'
     \<and> (f = desc_func (reference_decode ill ds bits) xlen rve logged \<or> bits = 0 \<and> f = ill)"
proof -
  let ?i = "unat bits mod OPCODE_CACHE_SIZE" and ?r = "reference_decode ill ds bits" and ?xs = "instructions s"
  have t: "table_inv ill ds ?xs" and c: "cache_inv ill ds (opcode_cache s)" using inv unfolding decoder_inv_def by auto
  show ?thesis
  proof (cases "bits = match_bits (opcode_cache s ?i)")
    case True
    then have "opcode_cache s ?i = ?r\<lparr>match_bits := bits\<rparr> \<or> bits = 0 \<and> opcode_cache s 0 = illegal_desc ill"
      using c unfolding cache_inv_def by metis
    then have "desc_func (opcode_cache s ?i) xlen rve logged = desc_func ?r xlen rve logged
        \<or> bits = 0 \<and> desc_func (opcode_cache s ?i) xlen rve logged = ill"
      by auto
    moreover have "decode_insn xlen rve logged bits s = Some (desc_func (opcode_cache s ?i) xlen rve logged, s)"
      using True unfolding decode_insn_def Let_def by simp
    ultimately show ?thesis using inv by blast
  next
    case False
    obtain p where p: "linear_search bits ?xs = Some p"
      using t linear_search_total [of bits] unfolding table_inv_def by fastforce
    have d: "?xs ! p = ?r" and pos: "?xs ! p \<in> set ds \<and> p + 1 < length ?xs \<or> ?xs ! p = illegal_desc ill"
      using search_reference [OF ok t p] by auto
    have "p < length ?xs" using p unfolding linear_search_Some by simp
    then obtain xs' where xs': "move_to_front p ?xs = Some xs'" "table_inv ill ds xs'"
      using move_to_front_inv [OF t _ pos] by blast
    have "decode_insn xlen rve logged bits s
        = Some (desc_func ?r xlen rve logged,
            s\<lparr>instructions := xs', opcode_cache := (opcode_cache s)(?i := ?r\<lparr>match_bits := bits\<rparr>)\<rparr>)"
      using False p d xs'(1) unfolding decode_insn_def Let_def by simp
    moreover have "cache_inv ill ds ((opcode_cache s)(?i := ?r\<lparr>match_bits := bits\<rparr>))"
      unfolding cache_inv_def
    proof (intro allI impI)
      fix b assume m: "match_bits (((opcode_cache s)(?i := ?r\<lparr>match_bits := bits\<rparr>)) (unat b mod 8191)) = b"
      show "((opcode_cache s)(?i := ?r\<lparr>match_bits := bits\<rparr>)) (unat b mod 8191) = (reference_decode ill ds b)\<lparr>match_bits := b\<rparr>
          \<or> b = 0 \<and> ((opcode_cache s)(?i := ?r\<lparr>match_bits := bits\<rparr>)) 0 = illegal_desc ill"
      proof (cases "unat b mod 8191 = ?i")
        case True
        then have "b = bits" using m by simp
        then show ?thesis by simp
      next
        case False
        then have "match_bits (opcode_cache s (unat b mod 8191)) = b" using m by simp
        then have "opcode_cache s (unat b mod 8191) = (reference_decode ill ds b)\<lparr>match_bits := b\<rparr> \<or> b = 0 \<and> opcode_cache s 0 = illegal_desc ill"
          using c unfolding cache_inv_def by blast
        then show ?thesis using False by auto
      qed
    qed
    ultimately show ?thesis using xs'(2) unfolding decoder_inv_def by simp
  qed
qed

section \<open>The table after registration\<close>

lemma descending_grouped: "sorted_wrt (\<lambda>a b. b \<le> a) (ms :: 'b :: linorder list) \<Longrightarrow> distinct (remdups_adj ms)"
  by (induction ms rule: remdups_adj.induct) auto

lemma sorted_table_ordered:
  assumes "sorted_wrt (\<lambda>a b. desc_key a \<le> desc_key b) xs" "distinct (map (\<lambda>d. (match_bits d, mask_bits d)) xs)"
  shows "ordered xs"
proof -
  have "sorted_wrt (\<lambda>a b. match_bits b \<le> match_bits a) xs"
    by (rule sorted_wrt_mono_rel [OF _ assms(1)]) (auto simp: desc_key_def word_le_def)
  then have grouped: "distinct (remdups_adj (map match_bits xs))" by (intro descending_grouped) (simp add: sorted_wrt_map)
  have "match_bits (xs ! i) = match_bits (xs ! j) \<longrightarrow> mask_bits (xs ! j) < mask_bits (xs ! i)"
    if ij: "i < j" "j < length xs" for i j
  proof
    assume m: "match_bits (xs ! i) = match_bits (xs ! j)"
    have "desc_key (xs ! i) \<le> desc_key (xs ! j)" using assms(1) ij unfolding sorted_wrt_iff_nth_less by blast
    then have "mask_bits (xs ! j) \<le> mask_bits (xs ! i)" using m by (simp add: desc_key_def word_le_def)
    moreover have "mask_bits (xs ! j) \<noteq> mask_bits (xs ! i)"
      using nth_eq_iff_index_eq [OF assms(2), of i j] ij m by auto
    ultimately show "mask_bits (xs ! j) < mask_bits (xs ! i)" by simp
  qed
  then show ?thesis unfolding ordered_def sorted_wrt_iff_nth_less using grouped by simp
qed

lemma built_table:
  assumes ok: "table_ok ds" and ms: "mset (instructions s) = add_mset (illegal_desc ill) (mset ds)"
  shows "decoder_inv ill ds (build_opcode_map ill s)"
proof -
  let ?i = "illegal_desc ill" and ?xs = "sort_key desc_key (instructions s)"
  have m: "mset ?xs = add_mset ?i (mset ds)" using ms by simp
  have sorted: "sorted_wrt (\<lambda>a b. desc_key a \<le> desc_key b) ?xs"
    using sorted_sort_key [of desc_key "instructions s"] unfolding sorted_map .
  have less: "desc_key d < desc_key ?i" if "d \<in> set ds" for d
  proof -
    have "mask_bits d \<noteq> 0" using ok that unfolding table_ok_def by blast
    then have "0 < uint (mask_bits d)" using uint_0_iff [of "mask_bits d"] uint_ge_0 [of "mask_bits d"] by linarith
    moreover have "0 \<le> uint (match_bits d)" by simp
    ultimately show ?thesis unfolding desc_key_def less_prod_def' illegal_desc_fields by (simp, linarith)
  qed
  have "?xs \<noteq> []" using m by (metis add_mset_not_empty mset.simps(1))
  then obtain ys y where ys: "?xs = ys @ [y]" by (meson rev_exhaust)
  have set: "set ?xs = insert ?i (set ds)" using m by (metis set_mset_add_mset_insert set_mset_mset)
  have "desc_key ?i \<le> desc_key y" using sorted set unfolding ys by (auto simp: sorted_wrt_append)
  then have y: "y = ?i" using set less [of y] unfolding ys by auto
  then have "mset ys = mset ds" using m unfolding ys by simp
  moreover have "distinct (map (\<lambda>d. (match_bits d, mask_bits d)) ?xs)"
  proof -
    have e: "mset (map (\<lambda>d. (match_bits d, mask_bits d)) ?xs) = mset ((0, 0) # map (\<lambda>d. (match_bits d, mask_bits d)) ds)"
      unfolding mset_map m by simp
    have "distinct ((0, 0) # map (\<lambda>d. (match_bits d, mask_bits d)) ds)"
    proof -
      have "\<forall>d\<in>set ds. mask_bits d \<noteq> 0" "distinct (map (\<lambda>d. (match_bits d, mask_bits d)) ds)"
        using ok by (simp_all add: table_ok_def)
      then show ?thesis by auto
    qed
    then show ?thesis using mset_eq_imp_distinct_iff [OF e] by blast
  qed
  ultimately have "table_inv ill ds ?xs"
    using sorted_table_ordered [OF sorted] unfolding table_inv_def ys y by blast
  moreover have "cache_inv ill ds (\<lambda>i. ?i)" by (auto simp: cache_inv_def)
  ultimately show ?thesis by (simp add: decoder_inv_def build_opcode_map_def)
qed

lemma register_all: "instructions (foldl (\<lambda>s desc. register_insn desc s) s ds) = instructions s @ ds"
  by (induction ds arbitrary: s) (simp_all add: register_insn_def)

lemma register_declared:
  "instructions (foldl (\<lambda>s (desc, supported). if supported then register_insn desc s else s) s declared)
   = instructions s @ map fst (filter snd declared)"
  by (induction declared arbitrary: s) (auto simp: register_insn_def)

lemma base_decoder_inv:
  assumes "instructions s = []" "table_ok (map fst (filter snd declared))"
  shows "decoder_inv ill (map fst (filter snd declared)) (register_base_instructions ill declared s)"
  unfolding register_base_instructions_def Let_def
  by (rule built_table [OF assms(2)]) (simp add: register_declared assms(1) register_insn_def)

lemma extension_decoder_inv:
  assumes "decoder_inv ill ds s" "table_ok (ds @ insns)"
  shows "decoder_inv ill (ds @ insns) (register_extension ill insns s)"
  unfolding register_extension_def
  by (rule built_table [OF assms(2)]) (use assms(1) in \<open>auto simp: register_all decoder_inv_def table_inv_def\<close>)

section \<open>Decoding does not depend on its history\<close>

definition decoded :: "'f \<Rightarrow> 'f insn_desc_t list \<Rightarrow> nat \<Rightarrow> bool \<Rightarrow> bool \<Rightarrow> u64 \<Rightarrow> 'f \<Rightarrow> bool" where
  "decoded ill ds xlen rve logged bits f \<longleftrightarrow>
     f = desc_func (reference_decode ill ds bits) xlen rve logged \<or> bits = 0 \<and> f = ill"

lemma decode_all_reference:
  assumes "table_ok ds" "decoder_inv ill ds s"
  shows "\<exists>fs s'. decode_all xlen rve logged bs s = Some (fs, s') \<and> decoder_inv ill ds s'
     \<and> list_all2 (decoded ill ds xlen rve logged) bs fs"
  using assms(2)
proof (induction bs arbitrary: s)
  case (Cons b bs)
  obtain f s1 where 1: "decode_insn xlen rve logged b s = Some (f, s1)" "decoder_inv ill ds s1" "decoded ill ds xlen rve logged b f"
    using decode_insn_step [OF assms(1) Cons.prems] unfolding decoded_def by blast
  obtain fs s2 where 2: "decode_all xlen rve logged bs s1 = Some (fs, s2)" "decoder_inv ill ds s2"
      "list_all2 (decoded ill ds xlen rve logged) bs fs"
    using Cons.IH [OF 1(2)] by blast
  then show ?case using 1 by simp
qed simp

text \<open>C37: On a table whose entries do not conflict, decode_insn finds for every instruction
  word the entry with the largest mask among those the word matches, and the illegal
  instruction where there is none, whatever was decoded before: the cache of decoded words,
  the order of registration, the sorting and the move to the front change nothing, and no
  search leaves the table. It holds from the registration of the base instructions on and
  again after an extension has registered its own. The one exception is the word zero, which
  the cache answers as illegal from the start.\<close>

theorem decode_insn_correct:
  assumes "ds = map fst (filter snd declared)" "instructions start = []" "table_ok ds" "table_ok (ds @ insns)"
  shows "\<exists>fs s fs' s'. decode_all xlen rve logged bs (register_base_instructions ill declared start) = Some (fs, s)
     \<and> list_all2 (\<lambda>bits f. f = desc_func (reference_decode ill ds bits) xlen rve logged \<or> bits = 0 \<and> f = ill) bs fs
     \<and> decode_all xlen rve logged bs' (register_extension ill insns s) = Some (fs', s')
     \<and> list_all2 (\<lambda>bits f. f = desc_func (reference_decode ill (ds @ insns) bits) xlen rve logged \<or> bits = 0 \<and> f = ill) bs' fs'"
proof -
  have "decoder_inv ill ds (register_base_instructions ill declared start)"
    using base_decoder_inv [OF assms(2)] assms(3) unfolding assms(1) by blast
  then obtain fs s where 1: "decode_all xlen rve logged bs (register_base_instructions ill declared start) = Some (fs, s)"
      "decoder_inv ill ds s" "list_all2 (decoded ill ds xlen rve logged) bs fs"
    using decode_all_reference [OF assms(3)] by blast
  moreover obtain fs' s' where "decode_all xlen rve logged bs' (register_extension ill insns s) = Some (fs', s')"
      "list_all2 (decoded ill (ds @ insns) xlen rve logged) bs' fs'"
    using decode_all_reference [OF assms(4) extension_decoder_inv [OF _ assms(4)]] 1(2) by blast
  ultimately show ?thesis unfolding decoded_def [abs_def] by blast
qed

text \<open>Two base instructions, one that the configuration leaves out, and an extension; a descriptor holds a name.\<close>

definition named_desc :: "string \<Rightarrow> u64 \<Rightarrow> u64 \<Rightarrow> string insn_desc_t" where
  "named_desc f m k =
     \<lparr>match_bits = m, mask_bits = k, fast_rv32i = f, fast_rv64i = f, fast_rv32e = f, fast_rv64e = f,
      logged_rv32i = f, logged_rv64i = f, logged_rv32e = f, logged_rv64e = f\<rparr>"

definition demo_declared :: "(string insn_desc_t \<times> bool) list" where
  "demo_declared = [(named_desc ''add'' 0x33 0xFE00707F, True), (named_desc ''umax32'' 0xA2002077 0xFE00707F, False),
     (named_desc ''addi'' 0x13 0x707F, True)]"

definition no_insns :: "string decoder" where
  "no_insns = \<lparr>instructions = [], opcode_cache = (\<lambda>i. illegal_desc ''illegal'')\<rparr>"

lemma decode_insn_correct_witness:
  "\<exists>s s'. decode_all 64 False False [0x00A50533, 0x00150513, 0xFFFFFFFF, 0x00A50533]
        (register_base_instructions ''illegal'' demo_declared no_insns) = Some ([''add'', ''addi'', ''illegal'', ''add''], s)
     \<and> decode_all 64 False False [0x0000000B, 0x00A50533] (register_extension ''illegal'' [named_desc ''custom0'' 0xB 0x7F] s)
        = Some ([''custom0'', ''add''], s')"
proof -
  let ?ds = "[named_desc ''add'' 0x33 0xFE00707F, named_desc ''addi'' 0x13 0x707F]"
  let ?x = "[named_desc ''custom0'' 0xB 0x7F]"
  have d: "?ds = map fst (filter snd demo_declared)" by (simp add: demo_declared_def)
  have n: "instructions no_insns = []" by (simp add: no_insns_def)
  have ok: "table_ok ?ds" "table_ok (?ds @ ?x)" by (simp_all add: table_ok_def named_desc_def)
  have r: "desc_func (reference_decode ''illegal'' ?ds 0x00A50533) 64 False False = ''add''"
    "desc_func (reference_decode ''illegal'' ?ds 0x00150513) 64 False False = ''addi''"
    "desc_func (reference_decode ''illegal'' ?ds 0xFFFFFFFF) 64 False False = ''illegal''"
    "desc_func (reference_decode ''illegal'' (?ds @ ?x) 0x0000000B) 64 False False = ''custom0''"
    "desc_func (reference_decode ''illegal'' (?ds @ ?x) 0x00A50533) 64 False False = ''add''"
    by code_simp+
  show ?thesis
    using decode_insn_correct [OF d n ok, of 64 False False "[0x00A50533, 0x00150513, 0xFFFFFFFF, 0x00A50533]" "''illegal''" "[0x0000000B, 0x00A50533]"]
    by (clarsimp simp only: list_all2_Cons1 list_all2_Nil r) auto
qed

text \<open>With the packed-SIMD extension the table has entries that conflict: \<open>umax32\<close> with \<open>rs1 = x2\<close> is also the
  word of \<open>vaesem_vv\<close>, which is always registered and sorts first, until some other \<open>umax32\<close> moves its
  entry to the front.\<close>

definition conflicting :: "(string insn_desc_t \<times> bool) list" where
  "conflicting = [(named_desc ''umax32'' 0xA2002077 0xFE00707F, True), (named_desc ''vaesem_vv'' 0xA2012077 0xFE0FF07F, True)]"

lemma conflicting_table:
  "register_base_instructions ''illegal'' conflicting no_insns =
     \<lparr>instructions = [named_desc ''vaesem_vv'' 0xA2012077 0xFE0FF07F, named_desc ''umax32'' 0xA2002077 0xFE00707F,
        illegal_desc ''illegal''], opcode_cache = (\<lambda>i. illegal_desc ''illegal'')\<rparr>"
  by (simp add: register_base_instructions_def conflicting_def no_insns_def register_insn_def build_opcode_map_def
    desc_key_def named_desc_def illegal_desc_def less_eq_prod_def less_prod_def)

lemma decode_depends_on_history:
  "map_option fst (decode_all 64 False False [0xA2012077] (register_base_instructions ''illegal'' conflicting no_insns))
     = Some [''vaesem_vv'']"
  "map_option fst (decode_all 64 False False [0xA200A077, 0xA2012077] (register_base_instructions ''illegal'' conflicting no_insns))
     = Some [''umax32'', ''umax32'']"
  "\<not> table_ok (map fst conflicting)"
proof -
  show "map_option fst (decode_all 64 False False [0xA2012077] (register_base_instructions ''illegal'' conflicting no_insns))
     = Some [''vaesem_vv'']"
    unfolding conflicting_table by (simp add: decode_insn_def Let_def decodes_def named_desc_def move_to_front_def desc_func_def)
  show "map_option fst (decode_all 64 False False [0xA200A077, 0xA2012077] (register_base_instructions ''illegal'' conflicting no_insns))
     = Some [''umax32'', ''umax32'']"
    unfolding conflicting_table
    by (simp add: decode_insn_def Let_def decodes_def named_desc_def move_to_front_def desc_func_def eval_nat_numeral(3) [of Num.One])
  show "\<not> table_ok (map fst conflicting)" by (simp add: table_ok_def conflicting_def named_desc_def)
qed

end
