(* ===== verification/Spec2Isabelle.thy ===== *)
theory Spec2Isabelle
  imports SF_AddSub SF_MulDiv SF_MulAdd SF_FloatConv SF_IntConv SF_Compare SF_RemRound SF_Reciprocal VM_System
    Spike_Memif Spike_Tracers Spike_PMP Spike_Privilege Spike_Decode
begin

text \<open>
  Verification of C and C++ code of the Sargantana flow: the floating-point library and parts
  of the reference simulator (\<open>SIM\<close> below, for
  \<open>src/Sargantana-based-Core/simulator/reference/riscv-isa-sim\<close>), and the virtual-memory
  environment the RISC-V tests run on (\<open>ENV\<close>, for
  \<open>src/Sargantana-based-Core/riscv-tests/env/v\<close>).

  The repository holds a RISC-V core in SystemVerilog, the instruction-set simulator it is
  co-simulated against, and test programs.  The parts modelled here meet as follows.  The
  simulator's F, D, Zfh and vector instructions call SoftFloat (\<open>SIM/softfloat\<close>), its
  multiply, saturating and bit-manipulation instructions the helpers of \<open>SIM/riscv/arith.h\<close>,
  and every memory access the page walk of \<open>SIM/riscv/mmu.cc\<close>.  A test of the v-environment
  runs in user mode under the page-table manager \<open>ENV/vm.c\<close>: it boots, hands out page
  frames on page faults, keeps accessed and dirty flags, and copies pages with the functions
  of \<open>ENV/string.c\<close>, whose accesses go through the same page walk, on the page tables
  the manager itself has built.

  \<^bold>\<open>Floating point\<close>, in the order the theories build on each other.  Each operation unpacks its
  operands with the macros of \<open>internals.h\<close>, treats NaNs, infinities and zeros by the rules
  of \<open>specialize.h\<close> (RISC-V), computes on 64-bit integers and hands a significand to
  \<open>s_roundPackToF*.c\<close>, which rounds, packs and raises flags in the global state.
  \<^item> \<open>Prelude\<close>: C integer types as words, \<open>int8\<close>, readings of words as numbers.
  \<^item> \<open>Rounding\<close>: the specification of rounding on natural numbers (\<open>ieee_bits\<close>, \<open>ieee_flags\<close>),
    the sticky-bit shift \<open>jam\<close> and why it may be rounded instead of the exact value.
  \<^item> \<open>SoftFloat_State\<close>: \<open>sf_state\<close> (rounding mode, tininess mode, flags), field macros, NaN
    rules; the locale \<open>float_format\<close> states the laws of a format's macros and is interpreted
    for binary16, bfloat16, binary32 and binary64.
  \<^item> \<open>SoftFloat_Primitives\<close>: shifts, leading zeros, 128-bit arithmetic, reciprocal
    approximations; locales \<open>jam_shift\<close> and \<open>leading_zeros\<close>.
  \<^item> \<open>SoftFloat_RoundPack\<close>: rounding and packing; the locale \<open>round_pack\<close> is its contract.
  \<^item> \<open>IEEE_Spec\<close>: what each operation promises, over exact integers (\<open>ieee_add\<close>,
    \<open>ieee_mul\<close>, \<open>ieee_div\<close>, \<open>ieee_convert\<close>, \<open>ieee_of_int\<close>, \<open>ieee_eq\<close> and its kin), and the
    locales for classification (\<open>float_class\<close>), a format in its own word (\<open>float_word\<close>),
    normalising rounders (\<open>norm_round_pack\<close>) and subnormal operands (\<open>norm_subnormal\<close>).
  \<^item> \<open>SF_AddSub\<close>, \<open>SF_MulDiv\<close>, \<open>SF_MulAdd\<close>, \<open>SF_FloatConv\<close>, \<open>SF_IntConv\<close>, \<open>SF_Compare\<close>,
    \<open>SF_RemRound\<close>, \<open>SF_Reciprocal\<close>: the operations, one definition per C function, and the
    refinement of the specification.

  The C function \<open>f(a, b)\<close> that reads and writes the global state is \<open>f a b s\<close>, returning the
  result and the new state; a \<open>goto\<close> to a shared label is a local value or a definition of
  its own; signed variables are values of type \<open>int\<close>, with \<open>int8\<close> at every store into an
  \<open>int_fast8_t\<close>; unsigned ones are words, so wrap-around is the word's.  The platform is the
  simulator's: little endian, 64-bit integers, \<open>SOFTFLOAT_FAST_INT64\<close>,
  \<open>SOFTFLOAT_FAST_DIV64TO32\<close>, \<open>SOFTFLOAT_ROUND_ODD\<close>, \<open>INLINE_LEVEL\<close> 5.  The refinement
  theorems say that an operation equals its specification on every operand and every state
  (all rounding modes, both tininess modes), result and flags.  There is no bound or fuel; the
  loops of \<open>f*_rem.c\<close> and of the reciprocal estimates terminate by a measure, and the
  adjustment loop of \<open>f*_rem.c\<close>, whose end depends on the values, is a partial function with
  result \<open>None\<close> when it runs forever.

  \<^bold>\<open>Simulator\<close>.
  \<^item> \<open>Spike_Arith\<close>: \<open>arith.h\<close>; the templates over the width are polymorphic in it.  Shown:
    high products, saturation as clamping, bit counts, rotations and permutations.
  \<^item> \<open>Spike_MMU\<close>: \<open>decode_vm_info\<close>, \<open>mmu_t::walk\<close> and \<open>mmu_t::translate\<close> without the hypervisor,
    over the registers they read (\<open>mmu_env\<close>) and a function that loads page-table entries.  Six levels
    (Sv64) shift by more than the width of a word, which C++ leaves undefined: the outcome is then
    \<open>Undefined\<close>.  Shown: a translation is granted by the leaf entry that ends the path of the address
    from the root table (\<open>reaches\<close>), aligned for its level, and goes where that entry says
    (\<open>walk_protects\<close>).
  \<^item> \<open>Spike_PMP\<close>: the physical memory protection of \<open>csrs.cc\<close> and \<open>mmu.cc\<close>: its registers as one
    record, their writes as functions that return the new state and the code's success flag, the check
    of an access and the test of a page.  Shown: the check is the first match over bytes, a cacheable
    page answers uniformly, locks hold, registers stay legal.
  \<^item> \<open>Spike_Trap\<close>, \<open>Spike_Privilege\<close>: the privileged machine of \<open>processor.cc\<close> and \<open>csrs.cc\<close> on RV64, with the
    supervisor and hypervisor modes: status, delegation and interrupt registers with their views, access
    with its permissions, the choice of an interrupt, trap entry, returns, debug mode and reset, over one
    record \<open>hart_state\<close>.  An instruction yields an \<open>exec_result\<close>: done, one of the traps it raises, or the
    simulator's abort.  \<open>cfg_ok\<close> says that the hypervisor needs the supervisor and it the user mode, as
    the parser of ISA strings demands.  Shown: the interrupt chosen is the first of the documented order
    (but for the counter overflow, which the code takes too early, \<open>overflow_interrupt_first\<close>),
    what a trap changes and that a return undoes it, that the instructions of user and supervisor
    mode change nothing of the machine level outside the fields and interrupts given to those modes,
    and that every state reached from reset is legal.
  \<^item> \<open>Spike_Decode\<close>: the table of instruction descriptors of \<open>processor.cc\<close>, its registration and sorting,
    and \<open>decode_insn\<close> with its cache of decoded words and its move to the front; the descriptors are a
    parameter and their functions a type.  Shown: on a table without conflicts (\<open>table_ok\<close>; the simulator's
    are, unless the P extension is on) what a word decodes to does not depend on what was decoded
    before, and \<open>decode_depends_on_history\<close> that it does with two entries the P extension brings together.
  \<^item> \<open>Spike_Devices\<close>, \<open>Spike_Memory\<close>: the register accessors of \<open>devices.h\<close>; the sparse memory, the
    ROM and the bus of \<open>devices.cc\<close> and \<open>rom.cc\<close>.  A host pointer into memory is the memory, the
    page and the offset, so that a cached pointer means what it means in the code.  Other devices
    are a type variable with their load and store as parameters.
  \<^item> \<open>Spike_Sim\<close>: \<open>sim_t\<close>'s access to the bus and the debug MMU (\<open>mmu.cc\<close>, \<open>mmu.h\<close> with no processor) with
    its software TLB; the invariant \<open>sim_ok\<close> says that every valid TLB entry points where the bus would.
  \<^item> \<open>Spike_Memif\<close>: \<open>memif_t\<close> of \<open>SIM/fesvr\<close>, which loads programs and serves system calls.  The locale
    \<open>chunk_memory\<close> states what a chunked interface promises; it is interpreted on the simulator's
    \<open>read_chunk\<close>, \<open>write_chunk\<close> and \<open>clear_chunk\<close>.  Shown: host accesses are those of flat memory, and
    what a device, a ROM and an empty place answer.
  \<^item> \<open>Spike_PLIC\<close>: the interrupt controller of \<open>plic.cc\<close>, one definition per function, and the \<open>mip\<close> bits
    it drives.  Shown: lines follow the pending unclaimed sources (the threshold is stored and never
    compared), priorities and thresholds keep their four bits, claims choose the best source, completion undoes a claim, and what a change of level reaches.
  \<^item> \<open>Spike_Cache\<close>, \<open>Spike_Tracers\<close>: the cache simulator of \<open>cachesim.cc\<close> (a chain of caches is a list,
    each the miss handler of the one before) and the tracers that share a second level.  Shown: a
    cache is a finite map from lines to dirty flags, what it sends on is what it lacks, and
    cleaning ends and touches exactly the lines that hold a byte of the range, unless the range is
    empty (\<open>clean_zero_bytes\<close>) or reaches the last line of the address space (\<open>clean_wrap_skips\<close>).

  \<^bold>\<open>Virtual-memory environment\<close> (RV64, Sv39, 63 test pages).
  \<^item> \<open>Env_String\<close>: \<open>string.c\<close> over any memory of bytes: the locale \<open>byte_memory\<close> states what a
    read returns after a write when addresses may be aliases; it is interpreted on flat
    memory and, in \<open>VM_Memory\<close>, on the kernel's accesses through the page walk.  The loops
    are partial functions (\<open>None\<close> when they run forever), and the theorems say they return.
  \<^item> \<open>VM_Env\<close>: \<open>vm.c\<close>.  \<open>vm_state\<close> holds its globals (page tables, \<open>user_mapping\<close>, the free list
    as nodes with pointers), the registers it writes and physical memory; a handler yields
    an \<open>outcome\<close>: it returns, ends in \<open>terminate\<close> (a failed assertion included), faults in the kernel,
    touches a page that holds its own objects (\<open>Aliased\<close>, where the model ends), or runs forever.
  \<^item> \<open>VM_Tables\<close>, \<open>VM_Memory\<close>: the page walk on the tables \<open>vm_boot\<close> builds, for user pages and for
    the kernel's alias of them; copies and comparisons of pages.
  \<^item> \<open>VM_Invariant\<close>, \<open>VM_Faults\<close>: the invariant \<open>vm_rep\<close> (the free list is a list of distinct frames,
    disjoint from the mapped ones, flags agree with the contents, at most the retried page lacks the
    accessed flag), the user's view \<open>umem\<close>, and the effect of each fault on both.
  \<^item> \<open>VM_Machine\<close>: the step relation \<open>machine_step\<close> of a test (loads, stores, fetches, faults), and its
    simulation by flat memory through the locale \<open>memory_refinement\<close>.
  \<^item> \<open>VM_Boot\<close>, \<open>VM_Exit\<close>, \<open>VM_System\<close>: boot establishes the invariant (the shift register has
    period 63), exit writes every page back, and the properties of the whole: transparency
    from reset to exit, at most three faults per access, no failed assertion, isolation,
    error paths.

  The objects of \<open>vm.c\<close> are fields of the state and not bytes of \<open>mem\<close>, except that the page walk
  and the hardware's update of flags find the page tables at their physical address.  In the program
  they lie in pages of the image.  The platform's \<open>own_page\<close> names the pages that hold them and the
  stacks, and \<open>own_code\<close> the bytes of the environment's code: the theorems are about tests that
  access the other pages (\<open>test_va\<close>) and do not store into that code (\<open>may_access\<close>), they say nothing of the bytes of \<open>mem\<close> in
  the pages of \<open>own_page\<close>, and that no fault and no write-back of such a test copies or compares one
  of these pages is proved, since it would be the outcome \<open>Aliased\<close>.  User accesses are
  single bytes (an aligned wider access lies in one page).  A test's assembly hooks
  (\<open>pf_filter\<close>, \<open>trap_filter\<close>) are parameters of the handlers, and the machine uses the
  default ones of \<open>riscv_test.h\<close>, which claim nothing; the linker's addresses are the fields
  of \<open>platform\<close>, with the page tables aligned, below \<open>2 ^ 56\<close> and in pages of \<open>own_page\<close>, and none of
  these among the 63 frames above the image that are handed out (\<open>platform_ok\<close>).

  \<^bold>\<open>Not modelled\<close>: binary128 and the extended formats, the word-array helpers (\<open>s_*M.c\<close>); of the
  simulator, the path of a processor's access past the page walk (its TLB, triggers), the hypervisor's
  second stage, writes of \<open>misa\<close>, counters, triggers, the instructions that are not
  named above, the vector unit, the other devices, host I/O and the disassembler; the device-tree
  library, which is third-party; of the environment, the assembly of \<open>entry.S\<close>, the host's side of
  \<open>tohost\<close>, and Sv32 and Sv48; the benchmark programs, and the SystemVerilog of the processor.

  \<^bold>\<open>Plan\<close>: what would come next is the instruction definitions of \<open>SIM/riscv/insns\<close> over the register
  file, with the privileged machine's access checks on the path of loads and stores, and specifications of
  the fused multiply-add, the square root and the remainder, which are modelled but specified in part.
\<close>

end
